(* ===== verification/Usb_Prelude.thy ===== *)
theory Usb_Prelude
  imports Main "HOL-Library.Word"
begin

text \<open>
  Shared vocabulary of the development: the machine integers and byte buffers of the crate, the
  two ways a Rust buffer access can end (a value, or a panic, which is \<open>None\<close> here), the
  little- and big-endian conversions of the standard library, and the list lemmas the component
  theories share. Nothing here is specific to USB.
\<close>

unbundle bit_operations_syntax

named_theorems panic_simps \<open>rewrite rules that decide whether a buffer access panics\<close>
named_theorems wire_simps \<open>rewrite rules of byte-order conversions\<close>

section \<open>Machine integers and buffers\<close>

type_synonym u8 = "8 word"
type_synonym u16 = "16 word"
type_synonym u32 = "32 word"
type_synonym u64 = "64 word"
type_synonym i32 = "32 word"
type_synonym bytes = "u8 list"

section \<open>Indexing, slicing and writing; \<open>None\<close> is a panic\<close>

text \<open>\<open>xs[i]\<close> (and \<open>xs.get(i)\<close>, whose \<open>None\<close> is an ordinary value).\<close>

definition idx :: "'a list \<Rightarrow> nat \<Rightarrow> 'a option" where
  "idx xs i = (if i < length xs then Some (xs ! i) else None)"

text \<open>\<open>&xs[a..b]\<close> (and \<open>xs.get(a..b)\<close>).\<close>

definition slice :: "'a list \<Rightarrow> nat \<Rightarrow> nat \<Rightarrow> 'a list option" where
  "slice xs a b = (if a \<le> b \<and> b \<le> length xs then Some (take (b - a) (drop a xs)) else None)"

text \<open>\<open>xs[a..a + src.len()].copy_from_slice(src)\<close>.\<close>

definition put :: "nat \<Rightarrow> 'a list \<Rightarrow> 'a list \<Rightarrow> 'a list option" where
  "put a src xs =
     (if a + length src \<le> length xs
      then Some (take a xs @ src @ drop (a + length src) xs) else None)"

text \<open>\<open>xs.get(i).copied().unwrap_or(0)\<close>.\<close>

definition byte_at :: "('a::zero) list \<Rightarrow> nat \<Rightarrow> 'a" where
  "byte_at xs i = (case idx xs i of Some x \<Rightarrow> x | None \<Rightarrow> 0)"

text \<open>\<open>v.resize(n, 0)\<close>.\<close>

definition resize :: "nat \<Rightarrow> ('a::zero) list \<Rightarrow> 'a list" where
  "resize n xs = take n xs @ replicate (n - length xs) 0"

lemma idx_Some [simp, panic_simps]: "i < length xs \<Longrightarrow> idx xs i = Some (xs ! i)"
  by (simp add: idx_def)

lemma idx_eq_None [simp]: "idx xs i = None \<longleftrightarrow> length xs \<le> i"
  by (auto simp: idx_def)

lemma idx_eq_Some [simp]: "idx xs i = Some x \<longleftrightarrow> i < length xs \<and> x = xs ! i"
  by (auto simp: idx_def)

lemma slice_Some [simp, panic_simps]:
  "a \<le> b \<Longrightarrow> b \<le> length xs \<Longrightarrow> slice xs a b = Some (take (b - a) (drop a xs))"
  by (simp add: slice_def)

lemma slice_eq_None [simp]: "slice xs a b = None \<longleftrightarrow> \<not> (a \<le> b \<and> b \<le> length xs)"
  by (auto simp: slice_def)

lemma slice_SomeD:
  "slice xs a b = Some ys \<Longrightarrow> a \<le> b \<and> b \<le> length xs \<and> ys = take (b - a) (drop a xs) \<and> length ys = b - a"
  by (auto simp: slice_def split: if_splits)

lemma put_Some [simp, panic_simps]:
  "a + length src \<le> length xs \<Longrightarrow> put a src xs = Some (take a xs @ src @ drop (a + length src) xs)"
  by (simp add: put_def)

lemma put_SomeD:
  assumes "put a src xs = Some ys"
  shows "length ys = length xs" and "a + length src \<le> length xs"
    and "\<And>i. i < length xs \<Longrightarrow> ys ! i = (if a \<le> i \<and> i < a + length src then src ! (i - a) else xs ! i)"
  using assms
  by (auto simp: put_def nth_append min_def not_less split: if_splits)

lemma put_ok: "a + length src \<le> length xs \<Longrightarrow> \<exists>ys. put a src xs = Some ys"
  by (simp add: put_def)

lemma byte_at_less [simp]: "i < length xs \<Longrightarrow> byte_at xs i = xs ! i"
  by (simp add: byte_at_def idx_def)

lemma byte_at_ge [simp]: "length xs \<le> i \<Longrightarrow> byte_at xs i = 0"
  by (simp add: byte_at_def idx_def)

lemma byte_at_append:
  "byte_at (xs @ ys) i = (if i < length xs then xs ! i else byte_at ys (i - length xs))"
  by (auto simp: byte_at_def idx_def nth_append)

lemma byte_at_append_left [simp]: "i < length xs \<Longrightarrow> byte_at (xs @ ys) i = byte_at xs i"
  by (simp add: byte_at_append)

lemma byte_at_take [simp]: "i < n \<Longrightarrow> byte_at (take n xs) i = byte_at xs i"
  by (auto simp: byte_at_def idx_def)

lemma byte_at_drop [simp]: "byte_at (drop n xs) i = byte_at xs (n + i)"
  by (auto simp: byte_at_def idx_def)

lemma byte_at_Cons_0 [simp]: "byte_at (x # xs) 0 = x"
  by (simp add: byte_at_def idx_def)

lemma byte_at_Cons_Suc [simp]: "byte_at (x # xs) (Suc i) = byte_at xs i"
  by (simp add: byte_at_def idx_def)

lemma byte_at_Cons_numeral [simp]: "byte_at (x # xs) (numeral n) = byte_at xs (pred_numeral n)"
  by (simp add: numeral_eq_Suc)

lemma byte_at_Nil [simp]: "byte_at [] i = 0"
  by simp

lemma map_byte_at: "length b = n \<Longrightarrow> map (byte_at b) [0..<n] = b"
  by (rule nth_equalityI) auto

lemma length_resize [simp]: "length (resize n xs) = n"
  by (simp add: resize_def)

lemma resize_id [simp]: "resize (length xs) xs = xs"
  by (simp add: resize_def)

text \<open>Case expressions on results, resolved in assumptions.\<close>

lemma case_sum_eq: "(case r of Inl e \<Rightarrow> f e | Inr x \<Rightarrow> g x) = y \<longleftrightarrow>
    (\<exists>e. r = Inl e \<and> f e = y) \<or> (\<exists>x. r = Inr x \<and> g x = y)"
  by (cases r) auto

lemma case_option_eq: "(case r of None \<Rightarrow> n | Some x \<Rightarrow> g x) = y \<longleftrightarrow>
    (r = None \<and> n = y) \<or> (\<exists>x. r = Some x \<and> g x = y)"
  by (cases r) auto

lemmas case_eqs = case_sum_eq case_option_eq

section \<open>Byte order\<close>

definition u16_le :: "u8 \<Rightarrow> u8 \<Rightarrow> u16" where
  "u16_le b0 b1 = ucast b0 OR push_bit 8 (ucast b1)"

definition u32_le :: "u8 \<Rightarrow> u8 \<Rightarrow> u8 \<Rightarrow> u8 \<Rightarrow> u32" where
  "u32_le b0 b1 b2 b3 =
     ucast b0 OR push_bit 8 (ucast b1) OR push_bit 16 (ucast b2) OR push_bit 24 (ucast b3)"

definition le_bytes16 :: "u16 \<Rightarrow> bytes" where
  "le_bytes16 v = [ucast v, ucast (drop_bit 8 v)]"

definition le_bytes32 :: "u32 \<Rightarrow> bytes" where
  "le_bytes32 v = [ucast v, ucast (drop_bit 8 v), ucast (drop_bit 16 v), ucast (drop_bit 24 v)]"

definition be_bytes16 :: "u16 \<Rightarrow> bytes" where
  "be_bytes16 v = rev (le_bytes16 v)"

definition be_bytes32 :: "u32 \<Rightarrow> bytes" where
  "be_bytes32 v = rev (le_bytes32 v)"

definition be_bytes64 :: "u64 \<Rightarrow> bytes" where
  "be_bytes64 v = be_bytes32 (ucast (drop_bit 32 v)) @ be_bytes32 (ucast v)"

definition u64_be :: "bytes \<Rightarrow> u64" where
  "u64_be b = push_bit 32 (ucast (u32_le (byte_at b 3) (byte_at b 2) (byte_at b 1) (byte_at b 0)))
     OR ucast (u32_le (byte_at b 7) (byte_at b 6) (byte_at b 5) (byte_at b 4))"

lemma length_le_bytes [simp]:
  "length (le_bytes16 v) = 2" "length (le_bytes32 w) = 4"
  "length (be_bytes16 v) = 2" "length (be_bytes32 w) = 4" "length (be_bytes64 x) = 8"
  by (simp_all add: le_bytes16_def le_bytes32_def be_bytes16_def be_bytes32_def be_bytes64_def)

lemma u16_le_bytes [simp, wire_simps]:
  "u16_le (ucast (v :: u16)) (ucast (drop_bit 8 v)) = v"
  by (rule bit_word_eqI) (auto simp: u16_le_def bit_simps)

lemma u32_le_bytes [simp, wire_simps]:
  "u32_le (ucast (v :: u32)) (ucast (drop_bit 8 v)) (ucast (drop_bit 16 v)) (ucast (drop_bit 24 v)) = v"
proof (rule bit_word_eqI)
  fix n assume "n < LENGTH(32)"
  then consider "n < 8" | "8 \<le> n" "n < 16" | "16 \<le> n" "n < 24" | "24 \<le> n" "n < 32"
    by fastforce
  then show "bit (u32_le (ucast v) (ucast (drop_bit 8 v)) (ucast (drop_bit 16 v))
      (ucast (drop_bit 24 v))) n = bit v n"
    by cases (auto simp: u32_le_def bit_simps)
qed

lemma bit_u8_out: "8 \<le> n \<Longrightarrow> \<not> bit (b :: u8) n"
  using bit_imp_le_length [of b n] by auto

lemma le_bytes16_u16 [simp, wire_simps]: "le_bytes16 (u16_le b0 b1) = [b0, b1]"
  by (auto simp: le_bytes16_def u16_le_def bit_simps bit_u8_out intro!: bit_word_eqI)

lemma le_bytes32_u32 [simp, wire_simps]: "le_bytes32 (u32_le b0 b1 b2 b3) = [b0, b1, b2, b3]"
  by (auto simp: le_bytes32_def u32_le_def bit_simps bit_u8_out intro!: bit_word_eqI)

lemma u8_less [simp]: "unat (b :: u8) < 256"
proof -
  have "unat b < 2 ^ LENGTH(8)" by (rule unsigned_less)
  then show ?thesis by simp
qed

lemma u16_less [simp]: "unat (w :: u16) < 65536"
proof -
  have "unat w < 2 ^ LENGTH(16)" by (rule unsigned_less)
  then show ?thesis by simp
qed

lemma u32_less [simp]: "unat (w :: u32) < 4294967296"
proof -
  have "unat w < 2 ^ LENGTH(32)" by (rule unsigned_less)
  then show ?thesis by simp
qed

lemma unat_drop_bit_u8: "unat (drop_bit k (b :: u8)) = unat b div 2 ^ k"
proof -
  have "unat (drop_bit k b) = drop_bit k (take_bit 8 (unat b))" by (simp only: unsigned_drop_bit_eq) simp
  also have "take_bit 8 (unat b) = unat b" using u8_less [of b] by (simp add: take_bit_eq_mod del: u8_less)
  finally show ?thesis by (simp add: drop_bit_eq_div)
qed

lemma unat_drop_bit_u16: "unat (drop_bit k (b :: u16)) = unat b div 2 ^ k"
proof -
  have "unat (drop_bit k b) = drop_bit k (take_bit 16 (unat b))" by (simp only: unsigned_drop_bit_eq) simp
  also have "take_bit 16 (unat b) = unat b" using u16_less [of b] by (simp add: take_bit_eq_mod del: u16_less)
  finally show ?thesis by (simp add: drop_bit_eq_div)
qed

lemma unat_and_le: "unat (w AND m) \<le> unat (m :: 'a::len word)"
  by (rule word_le_nat_alt [THEN iffD1]) (rule word_and_le1)

lemma unat_u16_le: "unat (u16_le b0 b1) = unat b0 + 256 * unat b1"
proof -
  have "u16_le b0 b1 = ucast b0 + push_bit 8 (ucast b1)"
    unfolding u16_le_def
    by (rule disjunctive_add [symmetric]) (auto simp: bit_simps bit_u8_out)
  then have "unat (u16_le b0 b1) = (unat (ucast b0 :: u16) + unat (push_bit 8 (ucast b1) :: u16)) mod 2 ^ 16"
    by (simp add: unat_word_ariths)
  moreover have "unat (ucast b0 :: u16) = unat b0" "unat (ucast b1 :: u16) = unat b1"
    using u8_less [of b0] u8_less [of b1]
    by (simp_all add: unsigned_ucast_eq take_bit_eq_mod mod_less del: u8_less)
  moreover have "unat (push_bit 8 (ucast b1) :: u16) = 256 * unat b1"
  proof -
    have "unat (push_bit 8 (ucast b1) :: u16) = (unat b1 mod 65536 * 256) mod 65536"
      by (simp only: unsigned_push_bit_eq) (simp add: push_bit_eq_mult take_bit_eq_mod unsigned_ucast_eq)
    moreover have "unat b1 mod 65536 = unat b1" using u8_less [of b1] by (intro mod_less) linarith
    moreover have "unat b1 * 256 mod 65536 = unat b1 * 256" using u8_less [of b1] by (intro mod_less) linarith
    ultimately show ?thesis by simp
  qed
  ultimately show ?thesis using u8_less [of b0] u8_less [of b1] by simp
qed

lemma u16_le_word_inject [simp]: "u16_le a b = u16_le c d \<longleftrightarrow> a = c \<and> b = d"
  by (metis le_bytes16_u16 list.inject)

section \<open>Rounding and chunking\<close>

text \<open>\<open>a.div_ceil(b)\<close>; Rust panics for \<open>b = 0\<close>, so every use guards or bounds \<open>b\<close>.\<close>

definition div_ceil :: "nat \<Rightarrow> nat \<Rightarrow> nat" where
  "div_ceil a b = (a + b - 1) div b"

lemma div_ceil_mult_ge: "0 < b \<Longrightarrow> a \<le> div_ceil a b * b"
proof -
  assume b: "0 < b"
  have "a + b - 1 = (a + b - 1) div b * b + (a + b - 1) mod b" by simp
  moreover have "(a + b - 1) mod b < b" using b by simp
  ultimately show ?thesis unfolding div_ceil_def using b by linarith
qed

lemma div_ceil_mult_less: "0 < b \<Longrightarrow> div_ceil a b * b < a + b"
  unfolding div_ceil_def
  by (metis (no_types, lifting) Nat.add_0_right Suc_pred add_gr_0 div_mult_mod_eq le_add1 le_imp_less_Suc
      One_nat_def diff_Suc_1)

lemma div_ceil_exact [simp]: "0 < b \<Longrightarrow> div_ceil (k * b) b = k"
proof -
  assume b: "0 < b"
  then have "k * b + b - 1 = (b - 1) + k * b" by simp
  then have "(k * b + b - 1) div b = (b - 1) div b + k" using b by (metis div_mult_self1 gr_implies_not0 add.commute)
  then show ?thesis using b by (simp add: div_ceil_def)
qed

lemma div_ceil_pos: "0 < b \<Longrightarrow> 0 < a \<Longrightarrow> 0 < div_ceil a b"
  by (simp add: div_ceil_def div_greater_zero_iff)

text \<open>\<open>xs.chunks(n)\<close>: consecutive pieces of \<open>n\<close> elements, the last one possibly shorter.
  Rust panics for \<open>n = 0\<close>; the callers pass a positive size.\<close>

function chunks :: "nat \<Rightarrow> 'a list \<Rightarrow> 'a list list" where
  "chunks n xs = (if n = 0 \<or> xs = [] then [] else take n xs # chunks n (drop n xs))"
  by pat_completeness auto
termination by (relation "measure (\<lambda>(n, xs). length xs)") auto

declare chunks.simps [simp del]

lemma chunks_Nil [simp]: "chunks n [] = []"
  by (simp add: chunks.simps)

lemma chunks_step: "0 < n \<Longrightarrow> xs \<noteq> [] \<Longrightarrow> chunks n xs = take n xs # chunks n (drop n xs)"
  by (subst chunks.simps) simp

lemma concat_chunks: "0 < n \<Longrightarrow> concat (chunks n xs) = xs"
proof (induction n xs rule: chunks.induct)
  case (1 n xs)
  then show ?case by (cases "xs = []") (simp_all add: chunks_step)
qed

lemma chunks_bounds: "0 < n \<Longrightarrow> c \<in> set (chunks n xs) \<Longrightarrow> c \<noteq> [] \<and> length c \<le> n"
proof (induction n xs rule: chunks.induct)
  case (1 n xs)
  then show ?case by (cases "xs = []") (auto simp: chunks_step)
qed

lemma div_ceil_0 [simp]: "0 < n \<Longrightarrow> div_ceil 0 n = 0"
  by (simp add: div_ceil_def)

lemma div_ceil_le:
  assumes "0 < m" "m \<le> n"
  shows "div_ceil m n = 1"
proof -
  have eq: "m + n - 1 = (m - 1) + n" and n: "n \<noteq> 0" using assms by auto
  have "div_ceil m n = (m - 1) div n + 1"
    unfolding div_ceil_def eq by (rule div_add_self2 [OF n])
  also have "(m - 1) div n = 0" using assms by (intro div_less) linarith
  finally show ?thesis by simp
qed

lemma div_ceil_add:
  assumes "0 < n"
  shows "div_ceil (m + n) n = Suc (div_ceil m n)"
proof -
  have eq: "m + n + n - 1 = (m + n - 1) + n" and n: "n \<noteq> 0" using assms by auto
  have "div_ceil (m + n) n = (m + n - 1) div n + 1"
    unfolding div_ceil_def eq by (rule div_add_self2 [OF n])
  then show ?thesis by (simp add: div_ceil_def)
qed

lemma length_chunks: "0 < n \<Longrightarrow> length (chunks n xs) = div_ceil (length xs) n"
proof (induction n xs rule: chunks.induct)
  case (1 n xs)
  show ?case
  proof (cases "xs = []")
    case True
    with "1.prems" show ?thesis by simp
  next
    case False
    with 1 have "length (chunks n xs) = Suc (div_ceil (length xs - n) n)"
      by (simp add: chunks_step)
    also have "\<dots> = div_ceil (length xs) n"
      using False "1.prems" div_ceil_add [of n "length xs - n"] div_ceil_le [of "length xs" n]
      by (cases "n \<le> length xs") simp_all
    finally show ?thesis .
  qed
qed

lemma chunks_nth: "0 < n \<Longrightarrow> i < length (chunks n xs) \<Longrightarrow> chunks n xs ! i = take n (drop (i * n) xs)"
proof (induction n xs arbitrary: i rule: chunks.induct)
  case (1 n xs)
  show ?case
  proof (cases "xs = []")
    case True
    with 1 show ?thesis by simp
  next
    case False
    with 1 show ?thesis by (cases i) (auto simp: chunks_step add.commute)
  qed
qed

lemma fold_min_le: "fold min ds (d :: nat) \<le> d \<and> (\<forall>x \<in> set ds. fold min ds d \<le> x) \<and> fold min ds d \<in> set (d # ds)"
proof (induction ds arbitrary: d)
  case (Cons a ds)
  from Cons.IH [of "min a d"] show ?case by (auto simp: min_def split: if_splits)
qed simp

end
