(* ===== verification/Usb_Types.thy ===== *)
theory Usb_Types
  imports Usb_Prelude
begin

text \<open>
  The value types of \<open>src/src/types.rs\<close> (directions, transfer kinds, speeds, SETUP packets, transfer
  statuses, BCD versions and the constants of the USB specification) and the error type of
  \<open>src/src/error.rs\<close>. An error is its kind and its optional OS code: the message string is not
  modelled, since nothing in the crate branches on it. The locale \<open>fixed_codec\<close> is the contract
  of every fixed-size wire encoding of the crate; it is interpreted here for SETUP packets and later
  for device descriptors, stream-control blocks and line codings.
\<close>

section \<open>Errors\<close>

datatype error_kind = Io | InvalidParam | Access | NoDevice | NotFound | Busy | Timeout | Overflow
  | Pipe | Interrupted | NoMem | NotSupported | Other

record usb_error =
  err_kind :: error_kind
  err_code :: "i32 option"

type_synonym 'a result = "usb_error + 'a"

definition error_new :: "error_kind \<Rightarrow> usb_error" where
  "error_new k = \<lparr>err_kind = k, err_code = None\<rparr>"

definition error_from_code :: "error_kind \<Rightarrow> i32 \<Rightarrow> usb_error" where
  "error_from_code k c = \<lparr>err_kind = k, err_code = Some c\<rparr>"

abbreviation Ok :: "'a \<Rightarrow> 'a result" where "Ok \<equiv> Inr"
abbreviation Err :: "error_kind \<Rightarrow> 'a result" where "Err k \<equiv> Inl (error_new k)"

definition is_timeout :: "usb_error \<Rightarrow> bool" where "is_timeout e \<longleftrightarrow> err_kind e = Timeout"
definition is_no_device :: "usb_error \<Rightarrow> bool" where "is_no_device e \<longleftrightarrow> err_kind e = NoDevice"
definition is_stall :: "usb_error \<Rightarrow> bool" where "is_stall e \<longleftrightarrow> err_kind e = Pipe"

definition is_ok :: "'a result \<Rightarrow> bool" where
  "is_ok r \<longleftrightarrow> (case r of Inl _ \<Rightarrow> False | Inr _ \<Rightarrow> True)"

lemma err_kind_new [simp]: "err_kind (error_new k) = k" "err_code (error_new k) = None"
  by (simp_all add: error_new_def)

lemma error_new_inject [simp]: "error_new k = error_new k' \<longleftrightarrow> k = k'"
  by (simp add: error_new_def)

lemma is_ok_simps [simp]: "is_ok (Inr x)" "\<not> is_ok (Inl e)"
  by (simp_all add: is_ok_def)

text \<open>The kinds of \<open>std::io::ErrorKind\<close> the conversions distinguish; \<open>IoRest\<close> is any other.\<close>

datatype io_kind = IoPermissionDenied | IoNotFound | IoTimedOut | IoInterrupted | IoOutOfMemory
  | IoUnsupported | IoInvalidInput | IoResourceBusy | IoBrokenPipe | IoNotConnected | IoInvalidData
  | IoOther | IoRest

text \<open>\<open>From<io::Error> for Error\<close>; the argument \<open>errno_kind\<close> is the platform's table, \<open>k\<close> and \<open>code\<close>
  are what the standard library reports of the error.\<close>

definition error_from_io :: "(i32 \<Rightarrow> error_kind) \<Rightarrow> io_kind \<Rightarrow> i32 option \<Rightarrow> usb_error" where
  "error_from_io errno_kind k code =
     \<lparr>err_kind = (case k of
        IoPermissionDenied \<Rightarrow> Access
      | IoNotFound \<Rightarrow> NotFound
      | IoTimedOut \<Rightarrow> Timeout
      | IoInterrupted \<Rightarrow> Interrupted
      | IoOutOfMemory \<Rightarrow> NoMem
      | IoUnsupported \<Rightarrow> NotSupported
      | IoInvalidInput \<Rightarrow> InvalidParam
      | IoResourceBusy \<Rightarrow> Busy
      | IoBrokenPipe \<Rightarrow> Pipe
      | _ \<Rightarrow> (case code of Some c \<Rightarrow> errno_kind c | None \<Rightarrow> Io)),
      err_code = code\<rparr>"

text \<open>\<open>From<Error> for io::Error\<close>: the kind of the result (its payload is the error itself, so it has
  no raw OS code of its own).\<close>

definition io_kind_of :: "usb_error \<Rightarrow> io_kind" where
  "io_kind_of e = (case err_kind e of
      Io \<Rightarrow> IoOther
    | InvalidParam \<Rightarrow> IoInvalidInput
    | Access \<Rightarrow> IoPermissionDenied
    | NoDevice \<Rightarrow> IoNotConnected
    | NotFound \<Rightarrow> IoNotFound
    | Busy \<Rightarrow> IoResourceBusy
    | Timeout \<Rightarrow> IoTimedOut
    | Overflow \<Rightarrow> IoInvalidData
    | Pipe \<Rightarrow> IoBrokenPipe
    | Interrupted \<Rightarrow> IoInterrupted
    | NoMem \<Rightarrow> IoOutOfMemory
    | NotSupported \<Rightarrow> IoUnsupported
    | Other \<Rightarrow> IoOther)"

text \<open>Which kinds survive a trip through \<open>io::Error\<close> and back: all but the three that have no
  counterpart in the first table.\<close>

lemma io_kind_roundtrip:
  "err_kind (error_from_io tbl (io_kind_of e) None) =
     (if err_kind e \<in> {NoDevice, Overflow, Other} then Io else err_kind e)"
  by (cases "err_kind e") (simp_all add: error_from_io_def io_kind_of_def)

section \<open>Directions, transfer kinds, speeds\<close>

datatype direction = Out | In

definition direction_from_address :: "u8 \<Rightarrow> direction" where
  "direction_from_address a = (if a AND 0x80 \<noteq> 0 then In else Out)"

definition direction_mask :: "direction \<Rightarrow> u8" where
  "direction_mask d = (case d of Out \<Rightarrow> 0x00 | In \<Rightarrow> 0x80)"

datatype transfer_type = Control | Isochronous | Bulk | Interrupt

definition transfer_type_from_attributes :: "u8 \<Rightarrow> transfer_type" where
  "transfer_type_from_attributes a =
     (let t = a AND 0x03 in
      if t = 0 then Control else if t = 1 then Isochronous else if t = 2 then Bulk else Interrupt)"

datatype sync_type = SyncNone | Asynchronous | Adaptive | Synchronous
datatype usage_type = UsageData | Feedback | Implicit | UsageReserved

datatype speed = SpeedUnknown | SpeedLow | SpeedFull | SpeedHigh | SpeedSuper | SpeedSuperPlus
  | SpeedSuperPlusX2

definition bits_per_second :: "speed \<Rightarrow> nat option" where
  "bits_per_second s = (case s of
      SpeedUnknown \<Rightarrow> None
    | SpeedLow \<Rightarrow> Some 1500000
    | SpeedFull \<Rightarrow> Some 12000000
    | SpeedHigh \<Rightarrow> Some 480000000
    | SpeedSuper \<Rightarrow> Some 5000000000
    | SpeedSuperPlus \<Rightarrow> Some 10000000000
    | SpeedSuperPlusX2 \<Rightarrow> Some 20000000000)"

text \<open>\<open>Speed::from_mbps\<close> after its float has been scaled: the argument is \<open>(mbps * 10.0) as u64\<close>.\<close>

definition speed_from_tenths :: "nat \<Rightarrow> speed" where
  "speed_from_tenths t =
     (if t = 15 then SpeedLow else if t = 120 then SpeedFull else if t = 4800 then SpeedHigh
      else if t = 50000 then SpeedSuper else if t = 100000 then SpeedSuperPlus
      else if t = 200000 then SpeedSuperPlusX2 else SpeedUnknown)"

text \<open>The derived order of \<open>Speed\<close>: declaration order.\<close>

fun speed_rank :: "speed \<Rightarrow> nat" where
  "speed_rank SpeedUnknown = 0"
| "speed_rank SpeedLow = 1"
| "speed_rank SpeedFull = 2"
| "speed_rank SpeedHigh = 3"
| "speed_rank SpeedSuper = 4"
| "speed_rank SpeedSuperPlus = 5"
| "speed_rank SpeedSuperPlusX2 = 6"

lemma speed_rank_inject [simp]: "speed_rank a = speed_rank b \<longleftrightarrow> a = b"
  by (cases a; cases b) simp_all

instantiation speed :: linorder
begin

definition less_eq_speed_def: "a \<le> b \<longleftrightarrow> speed_rank a \<le> speed_rank b"
definition less_speed_def: "a < b \<longleftrightarrow> speed_rank a < speed_rank (b :: speed)"

instance
  by standard (auto simp: less_eq_speed_def less_speed_def simp flip: speed_rank_inject)

end

lemma speed_order_rate:
  "bits_per_second a = Some x \<Longrightarrow> bits_per_second b = Some y \<Longrightarrow> a < b \<longleftrightarrow> x < y"
  by (cases a; cases b) (auto simp: bits_per_second_def less_speed_def)

lemma direction_mask_inverse [simp]: "direction_from_address (direction_mask d) = d"
  by (cases d) (simp_all add: direction_from_address_def direction_mask_def)

section \<open>Control requests\<close>

datatype control_type = Standard | Class | Vendor | Reserved
datatype recipient = RDevice | RInterface | REndpoint | ROther

definition request_type :: "direction \<Rightarrow> control_type \<Rightarrow> recipient \<Rightarrow> u8" where
  "request_type d k r =
     (let dir = direction_mask d;
          ty = (case k of Standard \<Rightarrow> 0 | Class \<Rightarrow> push_bit 5 1 | Vendor \<Rightarrow> push_bit 5 2
                 | Reserved \<Rightarrow> push_bit 5 3);
          rec = (case r of RDevice \<Rightarrow> 0 | RInterface \<Rightarrow> 1 | REndpoint \<Rightarrow> 2 | ROther \<Rightarrow> 3)
      in dir OR ty OR rec)"

record control_setup =
  cs_request_type :: u8
  cs_request :: u8
  cs_value :: u16
  cs_index :: u16
  cs_length :: u16

definition setup_raw :: "u8 \<Rightarrow> u8 \<Rightarrow> u16 \<Rightarrow> u16 \<Rightarrow> u16 \<Rightarrow> control_setup" where
  "setup_raw rt r v i l =
     \<lparr>cs_request_type = rt, cs_request = r, cs_value = v, cs_index = i, cs_length = l\<rparr>"

definition setup_new ::
  "direction \<Rightarrow> control_type \<Rightarrow> recipient \<Rightarrow> u8 \<Rightarrow> u16 \<Rightarrow> u16 \<Rightarrow> u16 \<Rightarrow> control_setup" where
  "setup_new d k rc r v i l =
     \<lparr>cs_request_type = request_type d k rc, cs_request = r, cs_value = v, cs_index = i,
      cs_length = l\<rparr>"

definition setup_direction :: "control_setup \<Rightarrow> direction" where
  "setup_direction s = direction_from_address (cs_request_type s)"

definition setup_to_bytes :: "control_setup \<Rightarrow> bytes" where
  "setup_to_bytes s =
     [cs_request_type s, cs_request s] @ le_bytes16 (cs_value s) @ le_bytes16 (cs_index s)
       @ le_bytes16 (cs_length s)"

text \<open>\<open>from_bytes\<close> takes a \<open>[u8; 8]\<close>; on a longer list the model reads its first eight bytes.\<close>

definition setup_from_bytes :: "bytes \<Rightarrow> control_setup" where
  "setup_from_bytes b =
     \<lparr>cs_request_type = byte_at b 0, cs_request = byte_at b 1,
      cs_value = u16_le (byte_at b 2) (byte_at b 3),
      cs_index = u16_le (byte_at b 4) (byte_at b 5),
      cs_length = u16_le (byte_at b 6) (byte_at b 7)\<rparr>"

lemma request_type_direction: "direction_from_address (request_type d k r) = d"
  by (cases d; cases k; cases r)
    (simp_all add: request_type_def direction_from_address_def direction_mask_def push_bit_eq_mult)

lemma setup_new_direction [simp]: "setup_direction (setup_new d k rc r v i l) = d"
  by (simp add: setup_direction_def setup_new_def request_type_direction)

lemma request_type_inject:
  "request_type d k r = request_type d' k' r' \<longleftrightarrow> d = d' \<and> k = k' \<and> r = r'"
  by (cases d; cases k; cases r; cases d'; cases k'; cases r')
    (simp_all add: request_type_def direction_mask_def push_bit_eq_mult)

section \<open>Transfer results\<close>

datatype transfer_status = Completed | StError | TimedOut | Cancelled | Stall | StNoDevice | StOverflow

definition status_into_result :: "transfer_status \<Rightarrow> unit result" where
  "status_into_result s = (case s of
      Completed \<Rightarrow> Ok ()
    | StError \<Rightarrow> Err Io
    | TimedOut \<Rightarrow> Err Timeout
    | Cancelled \<Rightarrow> Err Interrupted
    | Stall \<Rightarrow> Err Pipe
    | StNoDevice \<Rightarrow> Err NoDevice
    | StOverflow \<Rightarrow> Err Overflow)"

definition status_is_ok :: "transfer_status \<Rightarrow> bool" where
  "status_is_ok s \<longleftrightarrow> s = Completed"

lemma status_result_iff: "status_into_result s = Ok () \<longleftrightarrow> status_is_ok s"
  by (cases s) (simp_all add: status_into_result_def status_is_ok_def)

lemma status_into_result_inject: "status_into_result s = status_into_result t \<longleftrightarrow> s = t"
  by (cases s; cases t) (simp_all add: status_into_result_def)

record iso_packet =
  iso_length :: u32
  iso_actual :: u32
  iso_status :: transfer_status

definition iso_packet_new :: "u32 \<Rightarrow> iso_packet" where
  "iso_packet_new l = \<lparr>iso_length = l, iso_actual = 0, iso_status = StError\<rparr>"

section \<open>BCD versions\<close>

datatype version = Version (version_bits: u16)

definition version_major :: "version \<Rightarrow> u8" where
  "version_major v =
     (let b = ucast (drop_bit 8 (version_bits v)) :: u8 in drop_bit 4 b * 10 + (b AND 0x0f))"

definition version_minor :: "version \<Rightarrow> u8" where
  "version_minor v = ucast (drop_bit 4 (version_bits v) AND 0x0f)"

definition version_sub_minor :: "version \<Rightarrow> u8" where
  "version_sub_minor v = ucast (version_bits v AND 0x0f)"

instantiation version :: linorder
begin

definition less_eq_version_def: "a \<le> b \<longleftrightarrow> version_bits a \<le> version_bits b"
definition less_version_def: "a < b \<longleftrightarrow> version_bits a < version_bits (b :: version)"

instance
  by standard (auto simp: less_eq_version_def less_version_def version.expand)

end

text \<open>\<open>major\<close> is computed in a \<open>u8\<close>: it cannot overflow (at most 165), whatever the nibbles are.\<close>

lemma version_major_no_overflow:
  "unat (version_major v) =
     unat (drop_bit 4 (ucast (drop_bit 8 (version_bits v)) :: u8)) * 10
       + unat ((ucast (drop_bit 8 (version_bits v)) :: u8) AND 0x0f)"
proof -
  define b where "b = (ucast (drop_bit 8 (version_bits v)) :: u8)"
  have hi: "unat (drop_bit 4 b) < 16"
  proof -
    have "unat (drop_bit 4 b) = unat b div 16" by (simp add: unat_drop_bit_u8)
    with u8_less [of b] show ?thesis by linarith
  qed
  have lo: "unat (b AND 0x0f) < 16"
  proof -
    have "b AND 0x0f \<le> 0x0f" by (rule word_and_le1)
    then have "unat (b AND 0x0f) \<le> unat (0x0f :: u8)" by (rule word_le_nat_alt [THEN iffD1])
    then show ?thesis by simp
  qed
  have mul: "unat (drop_bit 4 b * 10) = unat (drop_bit 4 b) * 10"
    using hi by (simp add: unat_word_ariths)
  have "unat (drop_bit 4 b * 10 + (b AND 0x0f)) = unat (drop_bit 4 b) * 10 + unat (b AND 0x0f)"
    using hi lo by (simp add: unat_word_ariths)
  then show ?thesis by (simp add: version_major_def b_def Let_def)
qed

section \<open>Constants of the USB specification\<close>

abbreviation (input) GET_DESCRIPTOR :: u8 where "GET_DESCRIPTOR \<equiv> 0x06"
abbreviation (input) CLEAR_FEATURE :: u8 where "CLEAR_FEATURE \<equiv> 0x01"
abbreviation (input) GET_CONFIGURATION :: u8 where "GET_CONFIGURATION \<equiv> 0x08"
abbreviation (input) DT_DEVICE :: u8 where "DT_DEVICE \<equiv> 0x01"
abbreviation (input) DT_CONFIG :: u8 where "DT_CONFIG \<equiv> 0x02"
abbreviation (input) DT_STRING :: u8 where "DT_STRING \<equiv> 0x03"
abbreviation (input) DT_INTERFACE :: u8 where "DT_INTERFACE \<equiv> 0x04"
abbreviation (input) DT_ENDPOINT :: u8 where "DT_ENDPOINT \<equiv> 0x05"
abbreviation (input) DT_INTERFACE_ASSOCIATION :: u8 where "DT_INTERFACE_ASSOCIATION \<equiv> 0x0b"
abbreviation (input) DT_HID :: u8 where "DT_HID \<equiv> 0x21"
abbreviation (input) DT_HID_REPORT :: u8 where "DT_HID_REPORT \<equiv> 0x22"
abbreviation (input) DT_SS_COMPANION :: u8 where "DT_SS_COMPANION \<equiv> 0x30"
abbreviation (input) CLASS_COMM :: u8 where "CLASS_COMM \<equiv> 0x02"
abbreviation (input) CLASS_HID :: u8 where "CLASS_HID \<equiv> 0x03"
abbreviation (input) CLASS_MASS_STORAGE :: u8 where "CLASS_MASS_STORAGE \<equiv> 0x08"
abbreviation (input) CLASS_DATA :: u8 where "CLASS_DATA \<equiv> 0x0a"
abbreviation (input) CLASS_VIDEO :: u8 where "CLASS_VIDEO \<equiv> 0x0e"
abbreviation (input) CLASS_WIRELESS :: u8 where "CLASS_WIRELESS \<equiv> 0xe0"
abbreviation (input) CLASS_MISCELLANEOUS :: u8 where "CLASS_MISCELLANEOUS \<equiv> 0xef"
abbreviation (input) CLASS_VENDOR_SPECIFIC :: u8 where "CLASS_VENDOR_SPECIFIC \<equiv> 0xff"

section \<open>The contract of a fixed-size wire encoding\<close>

text \<open>
  \<open>enc\<close> writes a value into exactly \<open>size\<close> bytes and \<open>dec\<close> reads it back whatever follows it.
  The facts a client needs: the encoding is injective, and a sequence of records laid end to end is
  read back whole.
\<close>

locale fixed_codec =
  fixes enc :: "'a \<Rightarrow> bytes"
    and dec :: "bytes \<Rightarrow> 'a option"
    and size :: nat
  assumes length_enc: "length (enc x) = size"
    and dec_enc: "dec (enc x @ rest) = Some x"
begin

lemma dec_exact: "dec (enc x) = Some x"
  using dec_enc [of x "[]"] by simp

lemma enc_inject: "enc x = enc y \<longleftrightarrow> x = y"
  by (metis dec_exact option.inject)

lemma enc_prefix_inject: "enc x @ r = enc y @ s \<longleftrightarrow> x = y \<and> r = s"
  using length_enc [of x] length_enc [of y] by (auto simp: enc_inject)

lemma nth_of_sequence:
  "i < length xs \<Longrightarrow> dec (drop (i * size) (concat (map enc xs) @ tail)) = Some (xs ! i)"
proof (induction xs arbitrary: i)
  case (Cons x xs)
  show ?case
  proof (cases i)
    case 0
    then show ?thesis by (simp add: dec_enc)
  next
    case (Suc j)
    with Cons show ?thesis by (simp add: length_enc)
  qed
qed simp

end

interpretation setup_codec: fixed_codec setup_to_bytes "\<lambda>b. Some (setup_from_bytes b)" 8
  by unfold_locales
    (simp_all add: setup_to_bytes_def setup_from_bytes_def le_bytes16_def)

lemma length_setup_to_bytes [simp]: "length (setup_to_bytes s) = 8"
  by (rule setup_codec.length_enc)

lemma setup_bytes_surj:
  assumes "length b = 8"
  shows "setup_to_bytes (setup_from_bytes b) = b"
proof -
  have "setup_to_bytes (setup_from_bytes b) = map (byte_at b) [0..<8]"
    by (simp add: setup_to_bytes_def setup_from_bytes_def upt_rec numeral_eq_Suc)
  with assms show ?thesis by (simp add: map_byte_at)
qed

end
