(* ===== verification/Usb_Io.thy ===== *)
theory Usb_Io
  imports Usb_Types
begin

text \<open>
  The shape of the crate's fallible, stateful functions: a computation takes the state it can touch
  and returns how it ended, with a value, with an \<open>Err\<close>, or in a panic, together with the state it
  leaves. \<open>bindR\<close> is sequencing with Rust's \<open>?\<close>: an error or a panic ends the function, and what
  was done to the state before stays done.
\<close>

datatype 'a out = Val 'a | Fail usb_error | Panic

type_synonym ('s, 'a) io = "'s \<Rightarrow> 'a out \<times> 's"

definition ret :: "'a \<Rightarrow> ('s, 'a) io" where
  "ret x = (\<lambda>s. (Val x, s))"

definition failE :: "usb_error \<Rightarrow> ('s, 'a) io" where
  "failE e = (\<lambda>s. (Fail e, s))"

abbreviation failK :: "error_kind \<Rightarrow> ('s, 'a) io" where
  "failK k \<equiv> failE (error_new k)"

definition bindR :: "('s, 'a) io \<Rightarrow> ('a \<Rightarrow> ('s, 'b) io) \<Rightarrow> ('s, 'b) io" where
  "bindR m f = (\<lambda>s. case m s of
      (Val x, s') \<Rightarrow> f x s'
    | (Fail e, s') \<Rightarrow> (Fail e, s')
    | (Panic, s') \<Rightarrow> (Panic, s'))"

text \<open>\<open>match m\<close> with both outcomes handled: \<open>ok\<close> for \<open>Ok(x)\<close>, \<open>err\<close> for \<open>Err(e)\<close>.\<close>

definition matchR :: "('s, 'a) io \<Rightarrow> ('a \<Rightarrow> ('s, 'b) io) \<Rightarrow> (usb_error \<Rightarrow> ('s, 'b) io) \<Rightarrow> ('s, 'b) io" where
  "matchR m ok err = (\<lambda>s. case m s of
      (Val x, s') \<Rightarrow> ok x s'
    | (Fail e, s') \<Rightarrow> err e s'
    | (Panic, s') \<Rightarrow> (Panic, s'))"

text \<open>\<open>let _ = m;\<close>: an error is dropped.\<close>

definition ignoreR :: "('s, 'a) io \<Rightarrow> ('s, unit) io" where
  "ignoreR m = matchR m (\<lambda>_. ret ()) (\<lambda>_. ret ())"

text \<open>A buffer access that may panic, and a pure fallible function.\<close>

definition lift_opt :: "'a option \<Rightarrow> ('s, 'a) io" where
  "lift_opt r = (\<lambda>s. (case r of Some x \<Rightarrow> Val x | None \<Rightarrow> Panic, s))"

definition out_of :: "'a result \<Rightarrow> 'a out" where
  "out_of r = (case r of Inr x \<Rightarrow> Val x | Inl e \<Rightarrow> Fail e)"

definition lift_res :: "'a result \<Rightarrow> ('s, 'a) io" where
  "lift_res r = (\<lambda>s. (out_of r, s))"

definition lift_panic :: "'a result option \<Rightarrow> ('s, 'a) io" where
  "lift_panic r = (\<lambda>s. (case r of Some x \<Rightarrow> out_of x | None \<Rightarrow> Panic, s))"

definition get_st :: "('s \<Rightarrow> 'a) \<Rightarrow> ('s, 'a) io" where
  "get_st f = (\<lambda>s. (Val (f s), s))"

definition mod_st :: "('s \<Rightarrow> 's) \<Rightarrow> ('s, unit) io" where
  "mod_st f = (\<lambda>s. (Val (), f s))"

fun for_each :: "'a list \<Rightarrow> ('a \<Rightarrow> ('s, unit) io) \<Rightarrow> ('s, unit) io" where
  "for_each [] f = ret ()"
| "for_each (x # xs) f = bindR (f x) (\<lambda>_. for_each xs f)"

named_theorems io_simps \<open>evaluation of computations\<close>

lemma ret_simp [simp, io_simps]: "ret x s = (Val x, s)" by (simp add: ret_def)
lemma failE_simp [simp, io_simps]: "failE e s = (Fail e, s)" by (simp add: failE_def)
lemma lift_opt_simps [simp, io_simps]: "lift_opt (Some x) s = (Val x, s)" "lift_opt None s = (Panic, s)"
  by (simp_all add: lift_opt_def)
lemma out_of_simps [simp, io_simps]: "out_of (Inr x) = Val x" "out_of (Inl e) = Fail e"
  by (simp_all add: out_of_def)
lemma lift_res_simp [simp, io_simps]: "lift_res r s = (out_of r, s)" by (simp add: lift_res_def)
lemma lift_panic_simps [simp, io_simps]: "lift_panic (Some r) s = (out_of r, s)" "lift_panic None s = (Panic, s)"
  by (simp_all add: lift_panic_def)
lemma get_st_simp [simp, io_simps]: "get_st f s = (Val (f s), s)" by (simp add: get_st_def)
lemma mod_st_simp [simp, io_simps]: "mod_st f s = (Val (), f s)" by (simp add: mod_st_def)

lemma bindR_ret [simp]: "bindR (ret x) f = f x"
  by (simp add: bindR_def)

lemma bindR_cases:
  "bindR m f s = (case m s of (Val x, s') \<Rightarrow> f x s' | (Fail e, s') \<Rightarrow> (Fail e, s') | (Panic, s') \<Rightarrow> (Panic, s'))"
  by (simp add: bindR_def)

lemma bindR_Val: "m s = (Val x, s') \<Longrightarrow> bindR m f s = f x s'" by (simp add: bindR_def)
lemma bindR_Fail: "m s = (Fail e, s') \<Longrightarrow> bindR m f s = (Fail e, s')" by (simp add: bindR_def)
lemma bindR_Panic: "m s = (Panic, s') \<Longrightarrow> bindR m f s = (Panic, s')" by (simp add: bindR_def)
lemma matchR_Val: "m s = (Val x, s') \<Longrightarrow> matchR m f g s = f x s'" by (simp add: matchR_def)
lemma matchR_Fail: "m s = (Fail e, s') \<Longrightarrow> matchR m f g s = g e s'" by (simp add: matchR_def)
lemma matchR_Panic: "m s = (Panic, s') \<Longrightarrow> matchR m f g s = (Panic, s')" by (simp add: matchR_def)

lemmas run_simps = bindR_Val bindR_Fail bindR_Panic matchR_Val matchR_Fail matchR_Panic

lemma bindR_eq_Val: "bindR m f s = (Val y, t) \<longleftrightarrow> (\<exists>x s'. m s = (Val x, s') \<and> f x s' = (Val y, t))"
  by (auto simp: bindR_def split: prod.splits out.splits)

lemma bindR_eq_Fail: "bindR m f s = (Fail e, t) \<longleftrightarrow>
    m s = (Fail e, t) \<or> (\<exists>x s'. m s = (Val x, s') \<and> f x s' = (Fail e, t))"
  by (auto simp: bindR_def split: prod.splits out.splits)

lemma bindR_eq_Panic: "bindR m f s = (Panic, t) \<longleftrightarrow>
    m s = (Panic, t) \<or> (\<exists>x s'. m s = (Val x, s') \<and> f x s' = (Panic, t))"
  by (auto simp: bindR_def split: prod.splits out.splits)

lemma matchR_eq: "matchR m f g s = (r, t) \<longleftrightarrow>
    (\<exists>x s'. m s = (Val x, s') \<and> f x s' = (r, t)) \<or> (\<exists>e s'. m s = (Fail e, s') \<and> g e s' = (r, t))
    \<or> (m s = (Panic, t) \<and> r = Panic)"
  by (auto simp: matchR_def split: prod.splits out.splits)

lemma ignoreR_simp: "ignoreR m s = (if fst (m s) = Panic then Panic else Val (), snd (m s))"
  by (cases "fst (m s)"; cases "m s") (auto simp: ignoreR_def matchR_def)

lemma bindR_assoc: "bindR (bindR m f) g = bindR m (\<lambda>x. bindR (f x) g)"
  by (rule ext) (auto simp: bindR_def split: prod.splits out.splits)

lemma bindR_cong [fundef_cong]:
  "m s = m' s' \<Longrightarrow> (\<And>x t. m' s' = (Val x, t) \<Longrightarrow> f x t = f' x t) \<Longrightarrow> bindR m f s = bindR m' f' s'"
  by (auto simp: bindR_def split: prod.splits out.splits)

lemma matchR_cong [fundef_cong]:
  "m s = m' s' \<Longrightarrow> (\<And>x t. m' s' = (Val x, t) \<Longrightarrow> f x t = f' x t) \<Longrightarrow>
    (\<And>e t. m' s' = (Fail e, t) \<Longrightarrow> g e t = g' e t) \<Longrightarrow> matchR m f g s = matchR m' f' g' s'"
  by (auto simp: matchR_def split: prod.splits out.splits)

section \<open>Never panicking, and keeping an invariant\<close>

text \<open>\<open>safe I m\<close>: from any state satisfying \<open>I\<close> the computation does not panic and leaves a state
  satisfying \<open>I\<close>, on the error paths too.\<close>

definition safe :: "('s \<Rightarrow> bool) \<Rightarrow> ('s, 'a) io \<Rightarrow> bool" where
  "safe I m \<longleftrightarrow> (\<forall>s. I s \<longrightarrow> fst (m s) \<noteq> Panic \<and> I (snd (m s)))"

lemma safeD: "safe I m \<Longrightarrow> I s \<Longrightarrow> m s = (r, t) \<Longrightarrow> r \<noteq> Panic \<and> I t"
  by (metis safe_def fst_conv snd_conv)

lemma safe_ret [simp, intro]: "safe I (ret x)" by (simp add: safe_def)
lemma safe_fail [simp, intro]: "safe I (failE e)" by (simp add: safe_def)
lemma safe_get [simp, intro]: "safe I (get_st f)" by (simp add: safe_def)
lemma safe_res [simp, intro]: "safe I (lift_res r)" by (cases r) (simp_all add: safe_def)
lemma safe_mod: "(\<And>s. I s \<Longrightarrow> I (f s)) \<Longrightarrow> safe I (mod_st f)" by (simp add: safe_def)
lemma safe_lift_opt: "r \<noteq> None \<Longrightarrow> safe I (lift_opt r)" by (auto simp: safe_def)
lemma out_of_not_Panic [simp]: "out_of r \<noteq> Panic"
  by (cases r) simp_all

lemma safe_lift_panic: "r \<noteq> None \<Longrightarrow> safe I (lift_panic r)" by (auto simp: safe_def)

lemma safe_apply: "safe I m \<Longrightarrow> I s \<Longrightarrow> fst (m s) \<noteq> Panic \<and> I (snd (m s))"
  unfolding safe_def by blast

lemma safe_bindR [intro]:
  assumes m: "safe I m" and f: "\<And>x. safe I (f x)"
  shows "safe I (bindR m f)"
  unfolding safe_def
proof (intro allI impI)
  fix s assume "I s"
  obtain r t where ms: "m s = (r, t)" by (cases "m s")
  from safeD [OF m \<open>I s\<close> ms] have r: "r \<noteq> Panic" and t: "I t" by blast+
  show "fst (bindR m f s) \<noteq> Panic \<and> I (snd (bindR m f s))"
  proof (cases r)
    case (Val x)
    with ms have "bindR m f s = f x t" by (simp add: bindR_def)
    with safe_apply [OF f [of x] t] show ?thesis by simp
  qed (use ms r t in \<open>simp_all add: bindR_def\<close>)
qed

lemma safe_matchR [intro]:
  assumes m: "safe I m" and f: "\<And>x. safe I (f x)" and g: "\<And>e. safe I (g e)"
  shows "safe I (matchR m f g)"
  unfolding safe_def
proof (intro allI impI)
  fix s assume "I s"
  obtain r t where ms: "m s = (r, t)" by (cases "m s")
  from safeD [OF m \<open>I s\<close> ms] have r: "r \<noteq> Panic" and t: "I t" by blast+
  show "fst (matchR m f g s) \<noteq> Panic \<and> I (snd (matchR m f g s))"
  proof (cases r)
    case (Val x)
    with ms have "matchR m f g s = f x t" by (simp add: matchR_def)
    with safe_apply [OF f [of x] t] show ?thesis by simp
  next
    case (Fail e)
    with ms have "matchR m f g s = g e t" by (simp add: matchR_def)
    with safe_apply [OF g [of e] t] show ?thesis by simp
  qed (use r in simp)
qed

lemma safe_ignoreR [intro]: "safe I m \<Longrightarrow> safe I (ignoreR m)"
  unfolding ignoreR_def by (intro safe_matchR safe_ret)

lemma safe_if [intro]: "(b \<Longrightarrow> safe I m) \<Longrightarrow> (\<not> b \<Longrightarrow> safe I n) \<Longrightarrow> safe I (if b then m else n)"
  by simp

lemma safe_for_each [intro]: "(\<And>x. x \<in> set xs \<Longrightarrow> safe I (f x)) \<Longrightarrow> safe I (for_each xs f)"
  by (induction xs) auto

end
