(* ===== verification/Usb_Transfer.thy ===== *)
theory Usb_Transfer
  imports Usb_Io
begin

text \<open>
  The asynchronous transfer of \<open>src/src/transfer.rs\<close>: its state (the contents of the mutex), one
  definition per method, the completion routine split where it releases the lock, and the life cycle
  as a step relation in which user calls, backend completions and callbacks interleave. The mutex
  itself is a flag beside the state (\<open>inner\<close>): a guard keeps it taken, and a thread that takes it twice is
  \<open>Stuck\<close>. The self-resubmitting transfer of \<open>src/src/class.rs\<close> (\<open>Repeating\<close>) follows. \<open>'c\<close> is the type of
  callbacks; wakers are numbers, equal when \<open>will_wake\<close> says so; times are milliseconds.
\<close>

section \<open>State\<close>

record transfer_flags =
  fl_short_not_ok :: bool
  fl_zero_packet :: bool

record 'c transfer =
  tr_kind :: transfer_type
  tr_endpoint :: u8
  tr_in_flight :: bool
  tr_buffer :: bytes
  tr_timeout :: nat
  tr_iso :: "iso_packet list"
  tr_flags :: transfer_flags
  tr_status :: transfer_status
  tr_actual :: nat
  tr_callback :: "'c option"
  tr_wakers :: "nat list"

definition transfer_new :: "transfer_type \<Rightarrow> u8 \<Rightarrow> bytes \<Rightarrow> 'c transfer" where
  "transfer_new kind ep buf =
     \<lparr>tr_kind = kind, tr_endpoint = ep, tr_in_flight = False, tr_buffer = buf, tr_timeout = 0,
      tr_iso = [], tr_flags = \<lparr>fl_short_not_ok = False, fl_zero_packet = False\<rparr>,
      tr_status = Completed, tr_actual = 0, tr_callback = None, tr_wakers = []\<rparr>"

definition transfer_control :: "control_setup \<Rightarrow> bytes \<Rightarrow> 'c transfer" where
  "transfer_control su data =
     transfer_new Control 0
       (if setup_direction su = Out
        then setup_to_bytes (su\<lparr>cs_length := of_nat (length data)\<rparr>) @ data
        else resize (8 + unat (cs_length su)) (setup_to_bytes su))"

definition transfer_isochronous :: "u8 \<Rightarrow> nat \<Rightarrow> nat \<Rightarrow> 'c transfer" where
  "transfer_isochronous ep packet_length num_packets =
     (transfer_new Isochronous ep (replicate (packet_length * num_packets) 0))
       \<lparr>tr_iso := replicate num_packets (iso_packet_new (of_nat packet_length))\<rparr>"

section \<open>Methods\<close>

text \<open>\<open>idle()\<close> guards every accessor that touches what the operating system may be using.\<close>

definition when_idle :: "('c transfer, 'a) io \<Rightarrow> ('c transfer, 'a) io" where
  "when_idle m = (\<lambda>t. if tr_in_flight t then (Fail (error_new Busy), t) else m t)"

definition set_timeout :: "nat \<Rightarrow> ('c transfer, unit) io" where
  "set_timeout ms = when_idle (mod_st (\<lambda>t. t\<lparr>tr_timeout := ms\<rparr>))"

definition set_flags :: "transfer_flags \<Rightarrow> ('c transfer, unit) io" where
  "set_flags f = when_idle (mod_st (\<lambda>t. t\<lparr>tr_flags := f\<rparr>))"

definition set_callback :: "'c \<Rightarrow> ('c transfer, unit) io" where
  "set_callback cb = when_idle (mod_st (\<lambda>t. t\<lparr>tr_callback := Some cb\<rparr>))"

definition clear_callback :: "('c transfer, unit) io" where
  "clear_callback = when_idle (mod_st (\<lambda>t. t\<lparr>tr_callback := None\<rparr>))"

definition set_buffer :: "bytes \<Rightarrow> ('c transfer, unit) io" where
  "set_buffer b = when_idle (mod_st (\<lambda>t. t\<lparr>tr_buffer := b\<rparr>))"

definition take_buffer :: "('c transfer, bytes) io" where
  "take_buffer = when_idle (\<lambda>t. (Val (tr_buffer t), t\<lparr>tr_buffer := []\<rparr>))"

text \<open>\<open>buffer()\<close>: the guard derefs to the whole buffer.\<close>

definition get_buffer :: "('c transfer, bytes) io" where
  "get_buffer = when_idle (get_st tr_buffer)"

text \<open>\<open>data()\<close>: the range the guard keeps, and what it derefs to (a slice, which may panic).\<close>

definition data_range :: "'c transfer \<Rightarrow> nat \<times> nat" where
  "data_range t =
     (let start = (if tr_kind t = Control then 8 else 0);
          stop = min (start + tr_actual t) (length (tr_buffer t))
      in (min start stop, stop))"

definition get_data :: "('c transfer, bytes) io" where
  "get_data = when_idle (\<lambda>t.
     (case slice (tr_buffer t) (fst (data_range t)) (snd (data_range t)) of
        Some d \<Rightarrow> (Val d, t) | None \<Rightarrow> (Panic, t)))"

definition set_control_setup :: "control_setup \<Rightarrow> ('c transfer, unit) io" where
  "set_control_setup su = (\<lambda>t.
     if tr_kind t \<noteq> Control then (Fail (error_new InvalidParam), t)
     else when_idle (\<lambda>t.
       (case put 0 (setup_to_bytes su) (resize (8 + unat (cs_length su)) (tr_buffer t)) of
          Some b \<Rightarrow> (Val (), t\<lparr>tr_buffer := b\<rparr>)
        | None \<Rightarrow> (Panic, t\<lparr>tr_buffer := []\<rparr>))) t)"

definition control_setup_of :: "('c transfer, control_setup) io" where
  "control_setup_of = (\<lambda>t.
     if tr_kind t \<noteq> Control then (Fail (error_new InvalidParam), t)
     else (case slice (tr_buffer t) 0 8 of
         None \<Rightarrow> (Fail (error_new InvalidParam), t)
       | Some b \<Rightarrow> (Val (setup_from_bytes b), t)))"

definition set_iso_packet_lengths :: "u32 list \<Rightarrow> ('c transfer, unit) io" where
  "set_iso_packet_lengths lengths = (\<lambda>t.
     if tr_kind t \<noteq> Isochronous then (Fail (error_new InvalidParam), t)
     else when_idle (mod_st (\<lambda>t.
       let total = sum_list (map unat lengths);
           t = (if length (tr_buffer t) < total then t\<lparr>tr_buffer := resize total (tr_buffer t)\<rparr> else t)
       in t\<lparr>tr_iso := map iso_packet_new lengths\<rparr>)) t)"

definition iso_total :: "'c transfer \<Rightarrow> nat" where
  "iso_total t = sum_list (map (\<lambda>p. unat (iso_length p)) (tr_iso t))"

text \<open>The checks of \<open>submit\<close> that precede the backend.\<close>

definition submit_check :: "('c transfer, unit) io" where
  "submit_check = when_idle (\<lambda>t.
     if tr_kind t = Control \<and> length (tr_buffer t) < 8 then (Fail (error_new InvalidParam), t)
     else if tr_kind t = Isochronous \<and> (tr_iso t = [] \<or> iso_total t > length (tr_buffer t))
     then (Fail (error_new InvalidParam), t)
     else (Val (), t))"

text \<open>\<open>submit\<close>; \<open>accepts\<close> is what the backend's \<open>submit\<close> answers.\<close>

definition submit :: "('c transfer \<Rightarrow> unit result) \<Rightarrow> ('c transfer, unit) io" where
  "submit accepts = bindR submit_check (\<lambda>_ t.
     let t = t\<lparr>tr_in_flight := True, tr_actual := 0\<rparr> in
     case accepts t of
       Inr _ \<Rightarrow> (Val (), t)
     | Inl e \<Rightarrow> (Fail e, t\<lparr>tr_in_flight := False\<rparr>))"

section \<open>The lock\<close>

text \<open>
  A transfer's state is behind a mutex that is not reentrant: a thread that asks for it while it holds a guard
  does not get past that call (\<open>Stuck\<close>). \<open>in_held\<close> says whether the running thread holds a guard; the guards
  of \<open>buffer()\<close> and \<open>data()\<close> keep the lock until they are dropped (\<open>unlock_state\<close>), the other methods give it back.
\<close>

datatype 'a run = Done 'a | Stuck | Panics

fun then_run :: "'a run \<Rightarrow> ('a \<Rightarrow> 'b run) \<Rightarrow> 'b run" where
  "then_run (Done x) f = f x"
| "then_run Stuck f = Stuck"
| "then_run Panics f = Panics"

record 'c inner =
  in_state :: "'c transfer"
  in_held :: bool

definition lock_state :: "'c inner \<Rightarrow> 'c inner run" where
  "lock_state m = (if in_held m then Stuck else Done (m\<lparr>in_held := True\<rparr>))"

definition unlock_state :: "'c inner \<Rightarrow> 'c inner" where
  "unlock_state m = m\<lparr>in_held := False\<rparr>"

text \<open>\<open>idle()\<close>: the guard, unless the transfer is in flight.\<close>

definition idle_guard :: "'c inner \<Rightarrow> (unit result \<times> 'c inner) run" where
  "idle_guard m = then_run (lock_state m) (\<lambda>m.
     if tr_in_flight (in_state m) then Done (Err Busy, unlock_state m) else Done (Ok (), m))"

definition buffer_guard :: "'c inner \<Rightarrow> (bytes result \<times> 'c inner) run" where
  "buffer_guard m = then_run (idle_guard m) (\<lambda>(r, m). Done (map_sum id (\<lambda>_. tr_buffer (in_state m)) r, m))"

definition data_guard :: "'c inner \<Rightarrow> (bytes result \<times> 'c inner) run" where
  "data_guard m = then_run (idle_guard m) (\<lambda>(r, m). case r of
       Inl e \<Rightarrow> Done (Inl e, m)
     | Inr _ \<Rightarrow> (case slice (tr_buffer (in_state m)) (fst (data_range (in_state m))) (snd (data_range (in_state m))) of
           Some d \<Rightarrow> Done (Ok d, m)
         | None \<Rightarrow> Panics))"

definition iso_packets :: "'c inner \<Rightarrow> (iso_packet list \<times> 'c inner) run" where
  "iso_packets m = then_run (lock_state m) (\<lambda>m. Done (tr_iso (in_state m), unlock_state m))"

definition status_now :: "'c inner \<Rightarrow> (transfer_status \<times> 'c inner) run" where
  "status_now m = then_run (lock_state m) (\<lambda>m. Done (tr_status (in_state m), unlock_state m))"

lemma data_range_bounds: "fst (data_range t) \<le> snd (data_range t)" "snd (data_range t) \<le> length (tr_buffer t)"
  by (auto simp: data_range_def Let_def)

lemma guards_free:
  assumes "\<not> in_held m"
  shows "status_now m = Done (tr_status (in_state m), m)" "iso_packets m = Done (tr_iso (in_state m), m)"
    "buffer_guard m = Done (if tr_in_flight (in_state m) then (Err Busy, m) else (Ok (tr_buffer (in_state m)), m\<lparr>in_held := True\<rparr>))"
    "data_guard m = Done (if tr_in_flight (in_state m) then (Err Busy, m)
       else (Ok (take (snd (data_range (in_state m)) - fst (data_range (in_state m))) (drop (fst (data_range (in_state m))) (tr_buffer (in_state m)))),
         m\<lparr>in_held := True\<rparr>))"
  using assms data_range_bounds [of "in_state m"]
  by (auto simp: status_now_def iso_packets_def buffer_guard_def data_guard_def idle_guard_def lock_state_def unlock_state_def)

lemma guards_held:
  assumes "in_held m"
  shows "status_now m = Stuck" "iso_packets m = Stuck" "buffer_guard m = Stuck" "data_guard m = Stuck"
  using assms by (simp_all add: status_now_def iso_packets_def buffer_guard_def data_guard_def idle_guard_def lock_state_def)

section \<open>Completion\<close>

text \<open>\<open>Inner::complete\<close>, first half: the result is published and the callback and the wakers are
  taken, under the lock.\<close>

definition publish ::
  "transfer_status \<Rightarrow> nat \<Rightarrow> iso_packet list option \<Rightarrow> 'c transfer \<Rightarrow> 'c option \<times> nat list \<times> 'c transfer" where
  "publish st n isop t =
     (tr_callback t, tr_wakers t,
      t\<lparr>tr_in_flight := False, tr_status := st, tr_actual := n,
        tr_iso := (case isop of Some ps \<Rightarrow> ps | None \<Rightarrow> tr_iso t), tr_callback := None, tr_wakers := []\<rparr>)"

text \<open>Second half, after the callback has run without the lock: it is put back unless another one
  was installed.\<close>

definition restore_callback :: "'c \<Rightarrow> 'c transfer \<Rightarrow> 'c transfer" where
  "restore_callback cb t = (if tr_callback t = None then t\<lparr>tr_callback := Some cb\<rparr> else t)"

definition complete_with ::
  "('c \<Rightarrow> 'c transfer \<Rightarrow> 'c transfer) \<Rightarrow> transfer_status \<Rightarrow> nat \<Rightarrow> iso_packet list option
     \<Rightarrow> 'c transfer \<Rightarrow> nat list \<times> 'c transfer" where
  "complete_with run st n isop t = (case publish st n isop t of
      (None, ws, t1) \<Rightarrow> (ws, t1)
    | (Some cb, ws, t1) \<Rightarrow> (ws, restore_callback cb (run cb t1)))"

text \<open>\<open>wait\<close>: the transfer as each wake-up of the condition variable finds it, with the time; \<open>None\<close>
  is a wait that has not returned by the end of the observations.\<close>

fun wait_loop :: "nat option \<Rightarrow> (nat \<times> 'c transfer) list \<Rightarrow> transfer_status result option" where
  "wait_loop deadline [] = None"
| "wait_loop deadline ((now, t) # obs) =
     (if \<not> tr_in_flight t then Some (Ok (tr_status t))
      else case deadline of
          Some d \<Rightarrow> if d \<le> now then Some (Err Timeout) else wait_loop deadline obs
        | None \<Rightarrow> wait_loop deadline obs)"

text \<open>\<open>Completion::poll\<close>: \<open>None\<close> is \<open>Pending\<close>.\<close>

definition poll_completion :: "nat \<Rightarrow> 'c transfer \<Rightarrow> transfer_status option \<times> 'c transfer" where
  "poll_completion w t =
     (if \<not> tr_in_flight t then (Some (tr_status t), t)
      else (None, if w \<in> set (tr_wakers t) then t else t\<lparr>tr_wakers := tr_wakers t @ [w]\<rparr>))"

section \<open>Facts about the methods\<close>

lemma data_range_width: "snd (data_range t) - fst (data_range t) \<le> tr_actual t"
  by (auto simp: data_range_def Let_def min_def)

lemma get_data_no_panic: "fst (get_data t) \<noteq> Panic"
  using data_range_bounds [of t] by (simp add: get_data_def when_idle_def)

lemma get_data_Val:
  assumes "get_data t = (Val d, t')"
  shows "t' = t" "\<not> tr_in_flight t" "length d \<le> tr_actual t"
    "d = take (snd (data_range t) - fst (data_range t)) (drop (fst (data_range t)) (tr_buffer t))"
  using assms data_range_bounds [of t] data_range_width [of t]
  by (auto simp: get_data_def when_idle_def split: if_splits)

lemma get_data_bulk:
  "\<not> tr_in_flight t \<Longrightarrow> tr_kind t \<noteq> Control \<Longrightarrow> get_data t = (Val (take (tr_actual t) (tr_buffer t)), t)"
  by (simp add: get_data_def when_idle_def data_range_def Let_def min_def)

lemma get_data_control:
  "\<not> tr_in_flight t \<Longrightarrow> tr_kind t = Control \<Longrightarrow> 8 \<le> length (tr_buffer t) \<Longrightarrow>
     get_data t = (Val (take (tr_actual t) (drop 8 (tr_buffer t))), t)"
  by (auto simp: get_data_def when_idle_def data_range_def Let_def min_def)

lemma set_control_setup_no_panic: "fst (set_control_setup s t) \<noteq> Panic"
  by (simp add: set_control_setup_def when_idle_def setup_codec.length_enc)

lemma set_control_setup_get:
  assumes "set_control_setup s t = (Val (), t')"
  shows "control_setup_of t' = (Val s, t')" and "length (tr_buffer t') = 8 + unat (cs_length s)"
proof -
  have k: "tr_kind t = Control" and b: "tr_buffer t' = setup_to_bytes s @ drop 8 (resize (8 + unat (cs_length s)) (tr_buffer t))"
    and k': "tr_kind t' = tr_kind t"
    using assms by (auto simp: set_control_setup_def when_idle_def setup_codec.length_enc split: if_splits)
  have "slice (tr_buffer t') 0 8 = Some (setup_to_bytes s)"
    using setup_codec.length_enc [of s] by (simp add: slice_def b)
  then show "control_setup_of t' = (Val s, t')"
    using setup_codec.dec_exact [of s] k k' by (simp add: control_setup_of_def)
  show "length (tr_buffer t') = 8 + unat (cs_length s)" by (simp add: b setup_codec.length_enc)
qed

text \<open>After \<open>set_iso_packet_lengths\<close> the layout fits, so \<open>submit\<close> does not reject a non-empty one.\<close>

lemma set_iso_fits:
  assumes "set_iso_packet_lengths ls t = (Val (), t')"
  shows "iso_total t' = sum_list (map unat ls)" "iso_total t' \<le> length (tr_buffer t')"
    "ls \<noteq> [] \<Longrightarrow> submit_check t' = (Val (), t')"
  using assms
  by (auto simp: set_iso_packet_lengths_def when_idle_def iso_total_def Let_def iso_packet_new_def comp_def
      submit_check_def split: if_splits)

lemma transfer_control_length:
  fixes t :: "'c transfer" and su :: control_setup and data :: bytes
  defines "t \<equiv> transfer_control su data"
  assumes "length data < 65536"
  shows "\<exists>s. control_setup_of t = (Val s, t)
     \<and> cs_request_type s = cs_request_type su \<and> cs_request s = cs_request su
     \<and> cs_value s = cs_value su \<and> cs_index s = cs_index su
     \<and> length (tr_buffer t) = 8 + unat (cs_length s)"
proof -
  let ?s = "if setup_direction su = Out then su\<lparr>cs_length := of_nat (length data)\<rparr> else su"
  have n: "unat (of_nat (length data) :: u16) = length data"
    using assms by (simp only: unsigned_of_nat) (simp add: take_bit_eq_mod)
  have sl: "slice (tr_buffer t) 0 8 = Some (setup_to_bytes ?s)"
    by (simp add: slice_def t_def transfer_control_def transfer_new_def resize_def)
  moreover have "length (tr_buffer t) = 8 + unat (cs_length ?s)"
    using n by (simp add: t_def transfer_control_def transfer_new_def setup_codec.length_enc)
  moreover have "tr_kind t = Control"
    by (simp add: t_def transfer_control_def transfer_new_def)
  ultimately show ?thesis
    using setup_codec.dec_exact [of ?s]
    by (intro exI [of _ ?s]) (simp add: control_setup_of_def split: if_splits)
qed

text \<open>A payload longer than a \<open>u16\<close> is sent with a truncated \<open>wLength\<close>.\<close>

lemma transfer_control_truncates:
  assumes "setup_direction su = Out"
  shows "fst (control_setup_of (transfer_control su data)) = Val (su\<lparr>cs_length := of_nat (length data)\<rparr>)"
    and "length (tr_buffer (transfer_control su data)) = 8 + length data"
  using assms setup_codec.length_enc [of "su\<lparr>cs_length := of_nat (length data)\<rparr>"]
    setup_codec.dec_exact [of "su\<lparr>cs_length := of_nat (length data)\<rparr>"]
  by (simp_all add: transfer_control_def transfer_new_def control_setup_of_def slice_def)

lemma wait_loop_Ok: "wait_loop d obs = Some (Ok s) \<Longrightarrow> \<exists>(now, t) \<in> set obs. \<not> tr_in_flight t \<and> tr_status t = s"
  by (induction d obs rule: wait_loop.induct) (fastforce split: if_splits option.splits)+

lemma wait_loop_Err:
  "wait_loop dl obs = Some (Inl e) \<Longrightarrow> e = error_new Timeout \<and> (\<exists>d. dl = Some d \<and> (\<exists>(now, t) \<in> set obs. d \<le> now \<and> tr_in_flight t))"
  by (induction dl obs rule: wait_loop.induct) (fastforce split: if_splits option.splits)+

lemma wait_loop_returns:
  "\<exists>(now, t) \<in> set obs. \<not> tr_in_flight t \<or> (\<exists>d. dl = Some d \<and> d \<le> now) \<Longrightarrow> wait_loop dl obs \<noteq> None"
proof (induction dl obs rule: wait_loop.induct)
  case (2 dl now t obs)
  then show ?case by (cases dl) (auto simp del: not_None_eq)
qed simp

text \<open>The callback is in place again after a completion, whatever the callback does to the transfer
  short of installing a successor: in particular \<open>clear_callback\<close> from inside it has no effect.\<close>

lemma complete_keeps_callback:
  assumes "tr_callback t = Some cb"
  shows "tr_callback (snd (complete_with run st n isop t)) \<noteq> None"
    and "tr_callback (run cb (snd (snd (publish st n isop t)))) = None \<Longrightarrow>
      tr_callback (snd (complete_with run st n isop t)) = Some cb"
  using assms by (auto simp: complete_with_def publish_def restore_callback_def)

section \<open>The life cycle\<close>

text \<open>
  Threads, the backend and the event thread interleave at the granularity of the lock: one step is
  one critical section. \<open>lc_outstanding\<close> counts the submissions the backend has accepted and not yet
  reported (its contract is to report each exactly once), \<open>lc_running\<close> holds the callbacks taken by
  a completion and not yet put back; their own calls on the transfer are \<open>call\<close> steps like anyone
  else's.
\<close>

datatype 'c call = CSetTimeout nat | CSetFlags transfer_flags | CSetCallback 'c | CClearCallback
  | CSetBuffer bytes | CTakeBuffer | CSetSetup control_setup | CSetIso "u32 list" | CPoll nat

fun run_call :: "'c call \<Rightarrow> 'c transfer \<Rightarrow> 'c transfer" where
  "run_call (CSetTimeout ms) t = snd (set_timeout ms t)"
| "run_call (CSetFlags f) t = snd (set_flags f t)"
| "run_call (CSetCallback cb) t = snd (set_callback cb t)"
| "run_call CClearCallback t = snd (clear_callback t)"
| "run_call (CSetBuffer b) t = snd (set_buffer b t)"
| "run_call CTakeBuffer t = snd (take_buffer t)"
| "run_call (CSetSetup s) t = snd (set_control_setup s t)"
| "run_call (CSetIso ls) t = snd (set_iso_packet_lengths ls t)"
| "run_call (CPoll w) t = snd (poll_completion w t)"

record 'c life =
  lc_t :: "'c transfer"
  lc_outstanding :: nat
  lc_running :: "'c list"

inductive life_step :: "'c life \<Rightarrow> 'c life \<Rightarrow> bool" where
  call: "life_step l (l\<lparr>lc_t := run_call c (lc_t l)\<rparr>)"
| submit_ok: "submit (\<lambda>_. Inr ()) (lc_t l) = (Val (), t) \<Longrightarrow>
    life_step l (l\<lparr>lc_t := t, lc_outstanding := lc_outstanding l + 1\<rparr>)"
| submit_fails: "submit (\<lambda>_. Inl e) (lc_t l) = (r, t) \<Longrightarrow> life_step l (l\<lparr>lc_t := t\<rparr>)"
| completes: "0 < lc_outstanding l \<Longrightarrow> publish st n isop (lc_t l) = (cb, ws, t) \<Longrightarrow>
    life_step l (l\<lparr>lc_t := t, lc_outstanding := lc_outstanding l - 1,
      lc_running := (case cb of Some c \<Rightarrow> c # lc_running l | None \<Rightarrow> lc_running l)\<rparr>)"
| restores: "c \<in> set (lc_running l) \<Longrightarrow>
    life_step l (l\<lparr>lc_t := restore_callback c (lc_t l), lc_running := remove1 c (lc_running l)\<rparr>)"

inductive_cases life_stepE: "life_step l l'"

inductive life_reach :: "'c life \<Rightarrow> 'c life \<Rightarrow> bool" for l0 where
  start: "life_reach l0 l0"
| step: "life_reach l0 l \<Longrightarrow> life_step l l' \<Longrightarrow> life_reach l0 l'"

definition life_init :: "'c transfer \<Rightarrow> 'c life" where
  "life_init t = \<lparr>lc_t = t, lc_outstanding = 0, lc_running = []\<rparr>"

definition life_inv :: "'c life \<Rightarrow> bool" where
  "life_inv l \<longleftrightarrow> lc_outstanding l = (if tr_in_flight (lc_t l) then 1 else 0)"

text \<open>What the operating system may be using while the transfer is in flight.\<close>

definition dma_view :: "'c transfer \<Rightarrow> bytes \<times> iso_packet list \<times> nat \<times> transfer_flags \<times> transfer_type \<times> u8" where
  "dma_view t = (tr_buffer t, tr_iso t, tr_timeout t, tr_flags t, tr_kind t, tr_endpoint t)"

lemmas method_defs = set_timeout_def set_flags_def set_callback_def clear_callback_def set_buffer_def
  take_buffer_def set_control_setup_def set_iso_packet_lengths_def poll_completion_def when_idle_def

lemma run_call_in_flight: "tr_in_flight (run_call c t) = tr_in_flight t"
  by (cases c) (auto simp: method_defs Let_def split: option.split)

lemma run_call_dma: "tr_in_flight t \<Longrightarrow> dma_view (run_call c t) = dma_view t"
  by (cases c) (auto simp: method_defs dma_view_def)

lemma submit_fails_state:
  "submit (\<lambda>_. Inl e) t = (r, t') \<Longrightarrow> tr_in_flight t' = tr_in_flight t \<and> dma_view t' = dma_view t"
  by (auto simp: submit_def submit_check_def when_idle_def bindR_def dma_view_def Let_def split: if_splits)

lemma submit_ok_state:
  "submit (\<lambda>_. Inr ()) t = (Val (), t') \<Longrightarrow> \<not> tr_in_flight t \<and> tr_in_flight t' \<and> dma_view t' = dma_view t"
  by (auto simp: submit_def submit_check_def when_idle_def bindR_def dma_view_def Let_def split: if_splits)

lemma life_step_inv: "life_step l l' \<Longrightarrow> life_inv l \<Longrightarrow> life_inv l'"
  by (erule life_stepE)
    (auto simp: life_inv_def run_call_in_flight publish_def restore_callback_def
      dest: submit_ok_state submit_fails_state split: if_splits)

lemma life_reach_inv: "life_reach l0 l \<Longrightarrow> life_inv l0 \<Longrightarrow> life_inv l"
  by (induction rule: life_reach.induct) (auto dest: life_step_inv)

lemma dma_view_restore: "dma_view (restore_callback c t) = dma_view t"
  by (simp add: restore_callback_def dma_view_def)

text \<open>While a submission is outstanding no step but its completion changes what the system reads.\<close>

lemma life_step_dma:
  "life_step l l' \<Longrightarrow> life_inv l \<Longrightarrow> tr_in_flight (lc_t l) \<Longrightarrow> tr_in_flight (lc_t l') \<Longrightarrow>
     dma_view (lc_t l') = dma_view (lc_t l)"
  by (erule life_stepE)
    (auto simp: run_call_dma publish_def dma_view_restore
      dest: submit_ok_state submit_fails_state split: if_splits)

section \<open>Transfers that resubmit themselves (\<open>class::Repeating\<close>)\<close>

text \<open>
  The flag and the transfer as the event thread and the dropping thread see them. \<open>rp_phase\<close> is how
  far \<open>drop\<close> has got: 0 alive, 1 the flag is set, 2 the transfer was cancelled, 3 the wait is over.
  \<open>rp_cancelled\<close> says that the current submission has been asked to abort, \<open>rp_submits\<close> counts
  submissions. The check of the flag and the resubmission are one step: the callback holds the lock
  over both.
\<close>

record repeating =
  rp_stop :: bool
  rp_in_flight :: bool
  rp_cancelled :: bool
  rp_callback :: bool
  rp_phase :: nat
  rp_submits :: nat

inductive rep_step :: "repeating \<Rightarrow> repeating \<Rightarrow> bool" where
  completes: "rp_in_flight r \<Longrightarrow>
    rep_step r (r\<lparr>rp_in_flight := False, rp_cancelled := False, rp_callback := True\<rparr>)"
| resubmits: "rp_callback r \<Longrightarrow> \<not> rp_in_flight r \<Longrightarrow> \<not> rp_stop r \<Longrightarrow>
    rep_step r (r\<lparr>rp_callback := False, rp_in_flight := True, rp_cancelled := False,
      rp_submits := rp_submits r + 1\<rparr>)"
| gives_up: "rp_callback r \<Longrightarrow> rep_step r (r\<lparr>rp_callback := False\<rparr>)"
| drop_flag: "rp_phase r = 0 \<Longrightarrow> rep_step r (r\<lparr>rp_stop := True, rp_phase := 1\<rparr>)"
| drop_cancel: "rp_phase r = 1 \<Longrightarrow> rep_step r (r\<lparr>rp_cancelled := rp_in_flight r, rp_phase := 2\<rparr>)"
| drop_wait: "rp_phase r = 2 \<Longrightarrow> rep_step r (r\<lparr>rp_phase := 3\<rparr>)"

inductive_cases rep_stepE: "rep_step r r'"

definition rep_started :: repeating where
  "rep_started = \<lparr>rp_stop = False, rp_in_flight = True, rp_cancelled = False, rp_callback = False,
     rp_phase = 0, rp_submits = 1\<rparr>"

inductive rep_reach :: "repeating \<Rightarrow> repeating \<Rightarrow> bool" for r0 where
  start: "rep_reach r0 r0"
| step: "rep_reach r0 r \<Longrightarrow> rep_step r r' \<Longrightarrow> rep_reach r0 r'"

definition rep_inv :: "repeating \<Rightarrow> bool" where
  "rep_inv r \<longleftrightarrow> (rp_phase r \<ge> 1 \<longrightarrow> rp_stop r) \<and> (rp_phase r \<ge> 2 \<and> rp_in_flight r \<longrightarrow> rp_cancelled r)"

lemma rep_step_inv: "rep_step r r' \<Longrightarrow> rep_inv r \<Longrightarrow> rep_inv r'"
  by (erule rep_stepE) (auto simp: rep_inv_def)

lemma rep_reach_inv: "rep_reach r0 r \<Longrightarrow> rep_inv r0 \<Longrightarrow> rep_inv r"
  by (induction rule: rep_reach.induct) (auto dest: rep_step_inv)

lemma rep_step_stopped:
  "rep_step r r' \<Longrightarrow> rep_inv r \<Longrightarrow> rp_phase r \<ge> 1 \<Longrightarrow>
     rp_phase r' \<ge> 1 \<and> rp_submits r' = rp_submits r \<and> (rp_in_flight r' \<longrightarrow> rp_in_flight r)"
  by (erule rep_stepE) (auto simp: rep_inv_def)

lemma rep_reach_stopped:
  "rep_reach r r' \<Longrightarrow> rep_inv r \<Longrightarrow> rp_phase r \<ge> 1 \<Longrightarrow>
     rp_phase r' \<ge> 1 \<and> rp_submits r' = rp_submits r \<and> (rp_in_flight r' \<longrightarrow> rp_in_flight r)"
proof (induction rule: rep_reach.induct)
  case (step r1 r2)
  then have "rep_inv r1" using rep_reach_inv by blast
  with step rep_step_stopped show ?case by (metis (no_types, lifting))
qed simp

end
