(* ===== verification/Usb_Descriptors.thy ===== *)
theory Usb_Descriptors
  imports Usb_Types "HOL-Library.Monad_Syntax"
begin

text \<open>
  The standard descriptors and the tolerant configuration-tree parser of \<open>src/src/descriptors.rs\<close>,
  with the descriptor walk of \<open>src/src/class.rs\<close>. Every indexing and slicing expression of the
  parser goes through \<open>idx\<close> and \<open>slice\<close>, so that \<open>None\<close> is the panic Rust would raise; the
  lemmas show which inputs can raise it. \<open>config_bytes\<close> is the abstract specification: the wire
  encoding of a well-formed tree, which the parser inverts.
\<close>

section \<open>The device descriptor\<close>

record device_descriptor =
  dd_usb_version :: version
  dd_class :: u8
  dd_sub_class :: u8
  dd_protocol :: u8
  dd_max_packet_size_0 :: u8
  dd_vendor_id :: u16
  dd_product_id :: u16
  dd_device_version :: version
  dd_manufacturer :: u8
  dd_product :: u8
  dd_serial_number :: u8
  dd_num_configurations :: u8

definition device_from_bytes :: "bytes \<Rightarrow> device_descriptor result option" where
  "device_from_bytes b =
     (if length b < 18 then Some (Err InvalidParam)
      else do {
        b0 \<leftarrow> idx b 0;
        b1 \<leftarrow> idx b 1;
        if b0 < 18 \<or> b1 \<noteq> DT_DEVICE then Some (Err InvalidParam)
        else do {
          b2 \<leftarrow> idx b 2; b3 \<leftarrow> idx b 3; b4 \<leftarrow> idx b 4; b5 \<leftarrow> idx b 5; b6 \<leftarrow> idx b 6; b7 \<leftarrow> idx b 7;
          b8 \<leftarrow> idx b 8; b9 \<leftarrow> idx b 9; b10 \<leftarrow> idx b 10; b11 \<leftarrow> idx b 11; b12 \<leftarrow> idx b 12;
          b13 \<leftarrow> idx b 13; b14 \<leftarrow> idx b 14; b15 \<leftarrow> idx b 15; b16 \<leftarrow> idx b 16; b17 \<leftarrow> idx b 17;
          Some (Ok \<lparr>dd_usb_version = Version (u16_le b2 b3), dd_class = b4, dd_sub_class = b5,
            dd_protocol = b6, dd_max_packet_size_0 = b7, dd_vendor_id = u16_le b8 b9,
            dd_product_id = u16_le b10 b11, dd_device_version = Version (u16_le b12 b13),
            dd_manufacturer = b14, dd_product = b15, dd_serial_number = b16,
            dd_num_configurations = b17\<rparr>)
        }
      })"

definition device_to_bytes :: "device_descriptor \<Rightarrow> bytes" where
  "device_to_bytes d =
     [18, DT_DEVICE] @ le_bytes16 (version_bits (dd_usb_version d))
       @ [dd_class d, dd_sub_class d, dd_protocol d, dd_max_packet_size_0 d]
       @ le_bytes16 (dd_vendor_id d) @ le_bytes16 (dd_product_id d)
       @ le_bytes16 (version_bits (dd_device_version d))
       @ [dd_manufacturer d, dd_product d, dd_serial_number d, dd_num_configurations d]"

definition result_opt :: "'a result option \<Rightarrow> 'a option" where
  "result_opt r = (case r of Some (Inr x) \<Rightarrow> Some x | _ \<Rightarrow> None)"

lemma result_opt_simps [simp]:
  "result_opt (Some (Inr x)) = Some x" "result_opt (Some (Inl e)) = None" "result_opt None = None"
  by (simp_all add: result_opt_def)

lemma device_from_bytes_eq:
  "device_from_bytes b =
     (if length b < 18 \<or> b ! 0 < 18 \<or> b ! 1 \<noteq> DT_DEVICE then Some (Err InvalidParam)
      else Some (Ok \<lparr>dd_usb_version = Version (u16_le (b ! 2) (b ! 3)), dd_class = b ! 4,
        dd_sub_class = b ! 5, dd_protocol = b ! 6, dd_max_packet_size_0 = b ! 7,
        dd_vendor_id = u16_le (b ! 8) (b ! 9), dd_product_id = u16_le (b ! 10) (b ! 11),
        dd_device_version = Version (u16_le (b ! 12) (b ! 13)), dd_manufacturer = b ! 14,
        dd_product = b ! 15, dd_serial_number = b ! 16, dd_num_configurations = b ! 17\<rparr>))"
proof (cases "length b < 18")
  case False
  then have get: "\<And>i. i < 18 \<Longrightarrow> idx b i = Some (b ! i)" by simp
  from False show ?thesis by (simp add: device_from_bytes_def get)
qed (simp add: device_from_bytes_def)

lemma device_from_bytes_total: "device_from_bytes b \<noteq> None"
  by (simp add: device_from_bytes_eq)

lemma device_from_to_bytes: "device_from_bytes (device_to_bytes d @ rest) = Some (Ok d)"
  by (cases d) (simp add: device_from_bytes_eq device_to_bytes_def le_bytes16_def)

interpretation device_codec: fixed_codec device_to_bytes "\<lambda>b. result_opt (device_from_bytes b)" 18
  by unfold_locales (simp_all add: device_from_to_bytes, simp add: device_to_bytes_def)

lemma device_from_bytes_err:
  assumes "device_from_bytes b = Some (Inl e)"
  shows "e = error_new InvalidParam"
  using assms by (auto simp: device_from_bytes_eq split: if_splits)

section \<open>Endpoints, interfaces and configurations\<close>

record ss_companion =
  ssc_max_burst :: u8
  ssc_attributes :: u8
  ssc_bytes_per_interval :: u16

record endpoint_descriptor =
  ep_address :: u8
  ep_attributes :: u8
  ep_max_packet :: u16
  ep_interval :: u8
  ep_refresh :: u8
  ep_synch_address :: u8
  ep_ss_companion :: "ss_companion option"
  ep_extra :: bytes

record interface_descriptor =
  if_number :: u8
  if_alternate_setting :: u8
  if_num_endpoints :: u8
  if_class :: u8
  if_sub_class :: u8
  if_protocol :: u8
  if_string_index :: u8
  if_endpoints :: "endpoint_descriptor list"
  if_extra :: bytes

record interface_group =
  ig_number :: u8
  ig_alt_settings :: "interface_descriptor list"

record config_descriptor =
  cfg_total_length :: u16
  cfg_num_interfaces :: u8
  cfg_value :: u8
  cfg_string_index :: u8
  cfg_attributes :: u8
  cfg_max_power :: u8
  cfg_interfaces :: "interface_group list"
  cfg_extra :: bytes
  cfg_raw :: bytes

record interface_association =
  iad_first_interface :: u8
  iad_interface_count :: u8
  iad_function_class :: u8
  iad_function_sub_class :: u8
  iad_function_protocol :: u8
  iad_string_index :: u8

definition ep_number :: "endpoint_descriptor \<Rightarrow> u8" where
  "ep_number e = ep_address e AND 0x0f"

definition ep_direction :: "endpoint_descriptor \<Rightarrow> direction" where
  "ep_direction e = direction_from_address (ep_address e)"

definition ep_transfer_type :: "endpoint_descriptor \<Rightarrow> transfer_type" where
  "ep_transfer_type e = transfer_type_from_attributes (ep_attributes e)"

definition ep_sync_type :: "endpoint_descriptor \<Rightarrow> sync_type" where
  "ep_sync_type e = (let s = drop_bit 2 (ep_attributes e) AND 0x03 in
     if s = 0 then SyncNone else if s = 1 then Asynchronous else if s = 2 then Adaptive
     else Synchronous)"

definition ep_usage_type :: "endpoint_descriptor \<Rightarrow> usage_type" where
  "ep_usage_type e = (let s = drop_bit 4 (ep_attributes e) AND 0x03 in
     if s = 0 then UsageData else if s = 1 then Feedback else if s = 2 then Implicit
     else UsageReserved)"

definition ep_packet_size :: "endpoint_descriptor \<Rightarrow> u16" where
  "ep_packet_size e = ep_max_packet e AND 0x07ff"

definition ep_max_packet_size :: "endpoint_descriptor \<Rightarrow> u32" where
  "ep_max_packet_size e =
     (let mult = ucast (drop_bit 11 (ep_max_packet e) AND 0x03) + 1
      in ucast (ep_packet_size e) * mult)"

text \<open>The multiplication is done in a \<open>u32\<close> and never wraps: at most 2047 times 4.\<close>

lemma ep_max_packet_size_unat:
  "unat (ep_max_packet_size e) =
     unat (ep_packet_size e) * (unat (drop_bit 11 (ep_max_packet e) AND 0x03) + 1)"
  and ep_max_packet_size_le: "unat (ep_max_packet_size e) \<le> 8188"
proof -
  let ?p = "ep_packet_size e" and ?m = "drop_bit 11 (ep_max_packet e) AND 0x03"
  have p: "unat ?p \<le> 2047" unfolding ep_packet_size_def using unat_and_le [of _ "0x07ff :: u16"] by simp
  have m: "unat ?m \<le> 3" using unat_and_le [of _ "3 :: u16"] by simp
  have up: "unat (ucast ?p :: u32) = unat ?p" using p by (simp add: unsigned_ucast_eq take_bit_eq_mod)
  have um: "unat (ucast ?m + 1 :: u32) = unat ?m + 1"
    using m by (simp add: unat_word_ariths unsigned_ucast_eq take_bit_eq_mod)
  have pm: "unat ?p * (unat ?m + 1) \<le> 2047 * 4" using p m by (intro mult_le_mono) simp_all
  show eq: "unat (ep_max_packet_size e) = unat ?p * (unat ?m + 1)"
    using pm by (simp add: ep_max_packet_size_def Let_def unat_word_ariths(2) up um)
  show "unat (ep_max_packet_size e) \<le> 8188" using pm by (simp add: eq)
qed

definition cfg_self_powered :: "config_descriptor \<Rightarrow> bool" where
  "cfg_self_powered c \<longleftrightarrow> cfg_attributes c AND 0x40 \<noteq> 0"

definition cfg_remote_wakeup :: "config_descriptor \<Rightarrow> bool" where
  "cfg_remote_wakeup c \<longleftrightarrow> cfg_attributes c AND 0x20 \<noteq> 0"

definition cfg_max_power_ma :: "config_descriptor \<Rightarrow> u32" where
  "cfg_max_power_ma c = ucast (cfg_max_power c) * 2"

definition cfg_interface :: "config_descriptor \<Rightarrow> u8 \<Rightarrow> interface_group option" where
  "cfg_interface c n = find (\<lambda>i. ig_number i = n) (cfg_interfaces c)"

definition all_alt_settings :: "config_descriptor \<Rightarrow> interface_descriptor list" where
  "all_alt_settings c = concat (map ig_alt_settings (cfg_interfaces c))"

definition all_endpoints :: "config_descriptor \<Rightarrow> endpoint_descriptor list" where
  "all_endpoints c = concat (map if_endpoints (all_alt_settings c))"

definition ig_alt_setting :: "interface_group \<Rightarrow> u8 \<Rightarrow> interface_descriptor option" where
  "ig_alt_setting i v = find (\<lambda>a. if_alternate_setting a = v) (ig_alt_settings i)"

definition ig_first :: "interface_group \<Rightarrow> interface_descriptor option" where
  "ig_first i = idx (ig_alt_settings i) 0"

definition if_endpoint :: "interface_descriptor \<Rightarrow> u8 \<Rightarrow> endpoint_descriptor option" where
  "if_endpoint i a = find (\<lambda>e. ep_address e = a) (if_endpoints i)"

section \<open>The descriptor walk\<close>

text \<open>\<open>class::descriptors\<close>: the pairs the iterator yields before it stops.\<close>

function descriptors :: "bytes \<Rightarrow> (u8 \<times> bytes) list" where
  "descriptors rest =
     (if length rest < 2 then []
      else let len = unat (rest ! 0) in
        if len < 2 \<or> len > length rest then []
        else (take len rest ! 1, take len rest) # descriptors (drop len rest))"
  by pat_completeness auto
termination by (relation "measure length") auto

declare descriptors.simps [simp del]

definition wf_desc :: "bytes \<Rightarrow> bool" where
  "wf_desc d \<longleftrightarrow> 2 \<le> length d \<and> unat (d ! 0) = length d"

definition complete :: "bytes \<Rightarrow> bool" where
  "complete b \<longleftrightarrow> concat (map snd (descriptors b)) = b"

lemma descriptors_Nil [simp]: "descriptors [] = []"
  by (simp add: descriptors.simps)

lemma wf_desc_not_Nil: "wf_desc d \<Longrightarrow> d \<noteq> []"
  by (auto simp: wf_desc_def)

lemma descriptors_Cons: "wf_desc d \<Longrightarrow> descriptors (d @ rest) = (d ! 1, d) # descriptors rest"
  using wf_desc_not_Nil [of d] by (subst descriptors.simps) (simp add: wf_desc_def nth_append Let_def)

lemma descriptors_wf: "(ty, d) \<in> set (descriptors b) \<Longrightarrow> wf_desc d \<and> ty = d ! 1"
proof (induction b rule: descriptors.induct)
  case (1 b)
  show ?case
    using 1 by (subst (asm) (2) descriptors.simps) (auto simp: wf_desc_def Let_def split: if_splits)
qed

lemma descriptors_concat:
  "\<forall>d \<in> set ds. wf_desc d \<Longrightarrow> descriptors (concat ds @ rest) = map (\<lambda>d. (d ! 1, d)) ds @ descriptors rest"
  by (induction ds) (simp_all add: descriptors_Cons)

lemma complete_append: "complete b \<Longrightarrow> descriptors (b @ rest) = descriptors b @ descriptors rest"
proof -
  assume b: "complete b"
  have "\<forall>d \<in> set (map snd (descriptors b)). wf_desc d" using descriptors_wf by auto
  from descriptors_concat [OF this, of rest]
  have "descriptors (b @ rest) = map (\<lambda>d. (d ! 1, d)) (map snd (descriptors b)) @ descriptors rest"
    using b by (simp add: complete_def)
  also have "map (\<lambda>d. (d ! 1, d)) (map snd (descriptors b)) = descriptors b"
    using descriptors_wf by (force intro: map_idI)
  finally show ?thesis .
qed

lemma complete_Nil [simp]: "complete []"
  by (simp add: complete_def)

lemma complete_concat: "\<forall>d \<in> set ds. wf_desc d \<Longrightarrow> complete (concat ds)"
  using descriptors_concat [of ds "[]"] by (simp add: complete_def comp_def)

text \<open>The walk yields a prefix of its input: nothing is skipped, reordered or invented.\<close>

lemma descriptors_prefix: "\<exists>tail. b = concat (map snd (descriptors b)) @ tail"
proof (induction b rule: descriptors.induct)
  case (1 b)
  show ?case
  proof (cases "length b < 2 \<or> unat (b ! 0) < 2 \<or> unat (b ! 0) > length b")
    case True
    then show ?thesis by (subst descriptors.simps) (auto simp: Let_def)
  next
    case False
    with 1 obtain tail where
      "drop (unat (b ! 0)) b = concat (map snd (descriptors (drop (unat (b ! 0)) b))) @ tail"
      by auto
    then have "b = take (unat (b ! 0)) b @ concat (map snd (descriptors (drop (unat (b ! 0)) b))) @ tail"
      by (metis append_take_drop_id)
    with False show ?thesis by (subst descriptors.simps) (auto simp: Let_def)
  qed
qed

section \<open>The configuration-tree parser\<close>

text \<open>\<open>ConfigDescriptor::push_interface\<close>.\<close>

fun push_group :: "interface_descriptor \<Rightarrow> interface_group list \<Rightarrow> interface_group list" where
  "push_group alt [] = [\<lparr>ig_number = if_number alt, ig_alt_settings = [alt]\<rparr>]"
| "push_group alt (g # gs) =
     (if ig_number g = if_number alt
      then g\<lparr>ig_alt_settings := ig_alt_settings g @ [alt]\<rparr> # gs
      else g # push_group alt gs)"

definition push_interface :: "config_descriptor \<Rightarrow> interface_descriptor \<Rightarrow> config_descriptor" where
  "push_interface cfg alt = cfg\<lparr>cfg_interfaces := push_group alt (cfg_interfaces cfg)\<rparr>"

record parse_state =
  ps_cfg :: config_descriptor
  ps_iface :: "interface_descriptor option"
  ps_ep :: "endpoint_descriptor option"

text \<open>\<open>if let Some(ep) = cur_ep.take() && let Some(i) = cur_iface.as_mut()\<close> and the analogous
  hand-over of a finished interface.\<close>

definition flush_ep :: "parse_state \<Rightarrow> parse_state" where
  "flush_ep st = (case (ps_ep st, ps_iface st) of
      (Some ep, Some i) \<Rightarrow> st\<lparr>ps_ep := None, ps_iface := Some (i\<lparr>if_endpoints := if_endpoints i @ [ep]\<rparr>)\<rparr>
    | _ \<Rightarrow> st\<lparr>ps_ep := None\<rparr>)"

definition flush_iface :: "parse_state \<Rightarrow> parse_state" where
  "flush_iface st = (case ps_iface st of
      Some i \<Rightarrow> st\<lparr>ps_cfg := push_interface (ps_cfg st) i, ps_iface := None\<rparr>
    | None \<Rightarrow> st)"

text \<open>The arms of the parser's \<open>match\<close>; \<open>len\<close> is \<open>bLength\<close>.\<close>

definition start_interface :: "bytes \<Rightarrow> parse_state \<Rightarrow> parse_state option" where
  "start_interface d st = (let st = flush_iface (flush_ep st) in do {
     d2 \<leftarrow> idx d 2; d3 \<leftarrow> idx d 3; d4 \<leftarrow> idx d 4; d5 \<leftarrow> idx d 5; d6 \<leftarrow> idx d 6; d7 \<leftarrow> idx d 7; d8 \<leftarrow> idx d 8;
     Some (st\<lparr>ps_iface := Some \<lparr>if_number = d2, if_alternate_setting = d3, if_num_endpoints = d4,
       if_class = d5, if_sub_class = d6, if_protocol = d7, if_string_index = d8,
       if_endpoints = [], if_extra = []\<rparr>\<rparr>) })"

definition start_endpoint :: "bytes \<Rightarrow> parse_state \<Rightarrow> parse_state option" where
  "start_endpoint d st = (let st = flush_ep st in do {
     d2 \<leftarrow> idx d 2; d3 \<leftarrow> idx d 3; d4 \<leftarrow> idx d 4; d5 \<leftarrow> idx d 5; d6 \<leftarrow> idx d 6;
     Some (st\<lparr>ps_ep := Some \<lparr>ep_address = d2, ep_attributes = d3, ep_max_packet = u16_le d4 d5,
       ep_interval = d6, ep_refresh = byte_at d 7, ep_synch_address = byte_at d 8,
       ep_ss_companion = None, ep_extra = []\<rparr>\<rparr>) })"

definition add_companion :: "bytes \<Rightarrow> parse_state \<Rightarrow> parse_state option" where
  "add_companion d st = (case ps_ep st of
      None \<Rightarrow> Some st
    | Some ep \<Rightarrow> do {
        d2 \<leftarrow> idx d 2; d3 \<leftarrow> idx d 3; d4 \<leftarrow> idx d 4; d5 \<leftarrow> idx d 5;
        Some (st\<lparr>ps_ep := Some (ep\<lparr>ep_ss_companion := Some \<lparr>ssc_max_burst = d2,
          ssc_attributes = d3, ssc_bytes_per_interval = u16_le d4 d5\<rparr>,
          ep_extra := ep_extra ep @ d\<rparr>)\<rparr>) })"

definition add_extra :: "bytes \<Rightarrow> parse_state \<Rightarrow> parse_state" where
  "add_extra d st = (case ps_ep st of
      Some ep \<Rightarrow> st\<lparr>ps_ep := Some (ep\<lparr>ep_extra := ep_extra ep @ d\<rparr>)\<rparr>
    | None \<Rightarrow> (case ps_iface st of
        Some i \<Rightarrow> st\<lparr>ps_iface := Some (i\<lparr>if_extra := if_extra i @ d\<rparr>)\<rparr>
      | None \<Rightarrow> st\<lparr>ps_cfg := (ps_cfg st)\<lparr>cfg_extra := cfg_extra (ps_cfg st) @ d\<rparr>\<rparr>))"

definition desc_step :: "u8 \<Rightarrow> nat \<Rightarrow> bytes \<Rightarrow> parse_state \<Rightarrow> parse_state option" where
  "desc_step ty len d st =
     (if ty = DT_INTERFACE \<and> 9 \<le> len then start_interface d st
      else if ty = DT_ENDPOINT \<and> 7 \<le> len \<and> ps_iface st \<noteq> None then start_endpoint d st
      else if ty = DT_SS_COMPANION \<and> 6 \<le> len \<and> ps_ep st \<noteq> None then add_companion d st
      else Some (add_extra d st))"

text \<open>The \<open>while pos + 2 <= end\<close> loop.\<close>

function walk_tree :: "bytes \<Rightarrow> nat \<Rightarrow> nat \<Rightarrow> parse_state \<Rightarrow> parse_state option" where
  "walk_tree data pos stop st =
     (if pos + 2 \<le> stop then do {
        b \<leftarrow> idx data pos;
        ty \<leftarrow> idx data (pos + 1);
        if unat b < 2 \<or> pos + unat b > stop then Some st
        else do {
          d \<leftarrow> slice data pos (pos + unat b);
          st' \<leftarrow> desc_step ty (unat b) d st;
          walk_tree data (pos + unat b) stop st'
        }
      } else Some st)"
  by pat_completeness auto
termination by (relation "measure (\<lambda>(data, pos, stop, st). stop - pos)") auto

declare walk_tree.simps [simp del]

definition clamp :: "nat \<Rightarrow> nat \<Rightarrow> nat \<Rightarrow> nat" where
  "clamp x lo hi = (if x < lo then lo else if x > hi then hi else x)"

definition config_from_bytes :: "bytes \<Rightarrow> config_descriptor result option" where
  "config_from_bytes data =
     (if length data < 9 then Some (Err InvalidParam)
      else do {
        b0 \<leftarrow> idx data 0; b1 \<leftarrow> idx data 1;
        if b0 < 9 \<or> b1 \<noteq> DT_CONFIG then Some (Err InvalidParam)
        else do {
          b2 \<leftarrow> idx data 2; b3 \<leftarrow> idx data 3;
          let total_length = u16_le b2 b3;
          let stop = clamp (unat total_length) 9 (length data);
          raw \<leftarrow> slice data 0 stop;
          b4 \<leftarrow> idx data 4; b5 \<leftarrow> idx data 5; b6 \<leftarrow> idx data 6; b7 \<leftarrow> idx data 7; b8 \<leftarrow> idx data 8;
          let cfg = \<lparr>cfg_total_length = total_length, cfg_num_interfaces = b4, cfg_value = b5,
            cfg_string_index = b6, cfg_attributes = b7, cfg_max_power = b8, cfg_interfaces = [],
            cfg_extra = [], cfg_raw = raw\<rparr>;
          st \<leftarrow> walk_tree data (unat b0) stop \<lparr>ps_cfg = cfg, ps_iface = None, ps_ep = None\<rparr>;
          Some (Ok (ps_cfg (flush_iface (flush_ep st))))
        }
      })"

text \<open>\<open>interface_associations\<close>: the same walk over \<open>extra\<close>.\<close>

definition association_at :: "nat \<Rightarrow> bytes \<Rightarrow> interface_association list option" where
  "association_at len d = do {
     d1 \<leftarrow> idx d 1;
     if d1 = DT_INTERFACE_ASSOCIATION \<and> 8 \<le> len then do {
       d2 \<leftarrow> idx d 2; d3 \<leftarrow> idx d 3; d4 \<leftarrow> idx d 4; d5 \<leftarrow> idx d 5; d6 \<leftarrow> idx d 6; d7 \<leftarrow> idx d 7;
       Some [\<lparr>iad_first_interface = d2, iad_interface_count = d3, iad_function_class = d4,
         iad_function_sub_class = d5, iad_function_protocol = d6, iad_string_index = d7\<rparr>]
     } else Some [] }"

function associations_from :: "bytes \<Rightarrow> nat \<Rightarrow> interface_association list option" where
  "associations_from extra pos =
     (if pos + 2 \<le> length extra then do {
        b \<leftarrow> idx extra pos;
        if unat b < 2 \<or> pos + unat b > length extra then Some []
        else do {
          d \<leftarrow> slice extra pos (pos + unat b);
          out \<leftarrow> association_at (unat b) d;
          rest \<leftarrow> associations_from extra (pos + unat b);
          Some (out @ rest)
        }
      } else Some [])"
  by pat_completeness auto
termination by (relation "measure (\<lambda>(extra, pos). length extra - pos)") auto

declare associations_from.simps [simp del]

definition interface_associations :: "config_descriptor \<Rightarrow> interface_association list option" where
  "interface_associations c = associations_from (cfg_extra c) 0"

section \<open>The walk as a fold over the descriptors\<close>

fun run_descs :: "(u8 \<times> bytes) list \<Rightarrow> parse_state \<Rightarrow> parse_state option" where
  "run_descs [] st = Some st"
| "run_descs ((ty, d) # ds) st = desc_step ty (length d) d st \<bind> run_descs ds"

lemma run_descs_append: "run_descs (xs @ ys) st = run_descs xs st \<bind> run_descs ys"
  by (induction xs arbitrary: st) (auto split: Option.bind_splits)

lemma idx_from: "n \<le> length d \<Longrightarrow> i < n \<Longrightarrow> idx d i = Some (d ! i)"
  by simp

lemma start_interface_eq:
  assumes "9 \<le> length d"
  shows "start_interface d st = Some ((flush_iface (flush_ep st))\<lparr>ps_iface := Some
    \<lparr>if_number = d ! 2, if_alternate_setting = d ! 3, if_num_endpoints = d ! 4, if_class = d ! 5,
     if_sub_class = d ! 6, if_protocol = d ! 7, if_string_index = d ! 8, if_endpoints = [],
     if_extra = []\<rparr>\<rparr>)"
  by (simp add: start_interface_def Let_def idx_from [OF assms])

lemma start_endpoint_eq:
  assumes "7 \<le> length d"
  shows "start_endpoint d st = Some ((flush_ep st)\<lparr>ps_ep := Some
    \<lparr>ep_address = d ! 2, ep_attributes = d ! 3, ep_max_packet = u16_le (d ! 4) (d ! 5),
     ep_interval = d ! 6, ep_refresh = byte_at d 7, ep_synch_address = byte_at d 8,
     ep_ss_companion = None, ep_extra = []\<rparr>\<rparr>)"
  by (simp add: start_endpoint_def Let_def idx_from [OF assms])

definition companion_at :: "bytes \<Rightarrow> ss_companion" where
  "companion_at d = \<lparr>ssc_max_burst = d ! 2, ssc_attributes = d ! 3,
     ssc_bytes_per_interval = u16_le (d ! 4) (d ! 5)\<rparr>"

lemma add_companion_eq:
  assumes "6 \<le> length d"
  shows "add_companion d st = Some (case ps_ep st of
      None \<Rightarrow> st
    | Some ep \<Rightarrow> st\<lparr>ps_ep := Some (ep\<lparr>ep_ss_companion := Some (companion_at d),
          ep_extra := ep_extra ep @ d\<rparr>)\<rparr>)"
  by (simp add: add_companion_def companion_at_def idx_from [OF assms] split: option.split)

lemmas step_eqs = start_interface_eq start_endpoint_eq add_companion_eq

lemma desc_step_total: "\<exists>st'. desc_step ty (length d) d st = Some st'"
  by (simp add: desc_step_def step_eqs)

lemma run_descs_total: "\<exists>st'. run_descs ds st = Some st'"
proof (induction ds arbitrary: st)
  case (Cons a ds)
  then show ?case using desc_step_total by (cases a) (metis Option.bind.bind_lunit run_descs.simps(2))
qed simp

lemma walk_tree_descs:
  "stop \<le> length data \<Longrightarrow> walk_tree data pos stop st = run_descs (descriptors (drop pos (take stop data))) st"
proof (induction data pos stop st rule: walk_tree.induct)
  case (1 data pos stop st)
  let ?r = "drop pos (take stop data)"
  show ?case
  proof (cases "pos + 2 \<le> stop")
    case False
    then have "length ?r < 2" using "1.prems" by (simp add: min_def)
    then have "descriptors ?r = []" by (subst descriptors.simps) (simp only: if_True)
    with False show ?thesis by (subst walk_tree.simps) simp
  next
    case True
    with "1.prems" have len: "2 \<le> length ?r" "pos + 1 < length data" by auto
    have hd: "?r ! 0 = data ! pos" "idx data pos = Some (data ! pos)" "idx data (pos + 1) = Some (data ! (pos + 1))"
      using True "1.prems" by auto
    show ?thesis
    proof (cases "unat (data ! pos) < 2 \<or> pos + unat (data ! pos) > stop")
      case bad: True
      have "descriptors ?r = []" using bad True "1.prems" hd(1) by (subst descriptors.simps) (auto simp: Let_def)
      with bad True len show ?thesis by (subst walk_tree.simps) simp
    next
      case ok: False
      define n where "n = unat (data ! pos)"
      have n: "2 \<le> n" "pos + n \<le> stop" using ok by (simp_all add: n_def)
      have tk: "take n ?r = take n (drop pos data)" using n by (simp add: drop_take min_def)
      have sl: "slice data pos (pos + n) = Some (take n ?r)"
        using n "1.prems" by (simp add: slice_def tk)
      have ln: "length (take n ?r) = n" using n "1.prems" by simp
      have ty: "take n ?r ! 1 = data ! (pos + 1)" using n True "1.prems" by simp
      have ds: "descriptors ?r = (data ! (pos + 1), take n ?r) # descriptors (drop (pos + n) (take stop data))"
        using n len hd(1) "1.prems" ty by (subst descriptors.simps) (simp add: n_def Let_def add.commute)
      have "walk_tree data pos stop st = desc_step (data ! (pos + 1)) n (take n ?r) st \<bind> walk_tree data (pos + n) stop"
        using True ok len sl by (subst walk_tree.simps) (simp add: n_def)
      also have "\<dots> = desc_step (data ! (pos + 1)) n (take n ?r) st \<bind> run_descs (descriptors (drop (pos + n) (take stop data)))"
      proof (rule Option.bind_cong [OF refl])
        fix st' assume "desc_step (data ! (pos + 1)) n (take n ?r) st = Some st'"
        with "1.IH" [OF True hd(2,3) _ sl [unfolded n_def], of st'] ok "1.prems"
        show "walk_tree data (pos + n) stop st' = run_descs (descriptors (drop (pos + n) (take stop data))) st'"
          by (simp add: n_def)
      qed
      also have "\<dots> = run_descs (descriptors ?r) st" by (simp only: ds run_descs.simps ln)
      finally show ?thesis .
    qed
  qed
qed

lemma config_from_bytes_eq:
  "config_from_bytes data =
     (if length data < 9 \<or> data ! 0 < 9 \<or> data ! 1 \<noteq> DT_CONFIG then Some (Err InvalidParam)
      else
        let total = u16_le (data ! 2) (data ! 3);
            raw = take (clamp (unat total) 9 (length data)) data;
            cfg = \<lparr>cfg_total_length = total, cfg_num_interfaces = data ! 4, cfg_value = data ! 5,
              cfg_string_index = data ! 6, cfg_attributes = data ! 7, cfg_max_power = data ! 8,
              cfg_interfaces = [], cfg_extra = [], cfg_raw = raw\<rparr>
        in run_descs (descriptors (drop (unat (data ! 0)) raw))
             \<lparr>ps_cfg = cfg, ps_iface = None, ps_ep = None\<rparr>
           \<bind> (\<lambda>st. Some (Ok (ps_cfg (flush_iface (flush_ep st))))))"
proof (cases "length data < 9")
  case False
  then have get: "\<And>i. i < 9 \<Longrightarrow> idx data i = Some (data ! i)" by simp
  have "clamp x 9 (length data) \<le> length data" for x using False by (simp add: clamp_def)
  with False show ?thesis
    by (simp add: config_from_bytes_def get slice_def walk_tree_descs Let_def)
qed (simp add: config_from_bytes_def)

lemma run_descs_not_None [simp]: "run_descs ds st \<noteq> None"
  using run_descs_total [of ds st] by auto

lemma config_from_bytes_total: "config_from_bytes data \<noteq> None"
  by (simp add: config_from_bytes_eq Let_def bind_eq_None_conv del: not_None_eq)

section \<open>What every parsed tree satisfies\<close>

definition wf_groups :: "interface_group list \<Rightarrow> bool" where
  "wf_groups gs \<longleftrightarrow> distinct (map ig_number gs) \<and>
     (\<forall>g \<in> set gs. ig_alt_settings g \<noteq> [] \<and> (\<forall>a \<in> set (ig_alt_settings g). if_number a = ig_number g))"

lemma push_group_numbers:
  "set (map ig_number (push_group a gs)) = insert (if_number a) (set (map ig_number gs))"
  by (induction gs) auto

lemma push_group_wf: "wf_groups gs \<Longrightarrow> wf_groups (push_group a gs)"
proof (induction gs)
  case (Cons g gs)
  from Cons.prems have "wf_groups gs" by (simp add: wf_groups_def)
  with Cons.IH have "wf_groups (push_group a gs)" by blast
  with Cons.prems push_group_numbers [of a gs] show ?case
    by (auto simp: wf_groups_def)
qed (simp add: wf_groups_def)

lemma flush_ep_cfg [simp]: "ps_cfg (flush_ep st) = ps_cfg st"
  by (simp add: flush_ep_def split: option.split)

lemma flush_iface_wf:
  "wf_groups (cfg_interfaces (ps_cfg st)) \<Longrightarrow> wf_groups (cfg_interfaces (ps_cfg (flush_iface st)))"
  by (auto simp: flush_iface_def push_interface_def push_group_wf split: option.split)

lemma desc_step_wf:
  "desc_step ty (length d) d st = Some st' \<Longrightarrow> wf_groups (cfg_interfaces (ps_cfg st)) \<Longrightarrow>
     wf_groups (cfg_interfaces (ps_cfg st'))"
  by (auto simp: desc_step_def step_eqs add_extra_def flush_iface_wf split: if_splits option.splits)

lemma run_descs_wf:
  "run_descs ds st = Some st' \<Longrightarrow> wf_groups (cfg_interfaces (ps_cfg st)) \<Longrightarrow>
     wf_groups (cfg_interfaces (ps_cfg st'))"
proof (induction ds arbitrary: st)
  case (Cons a ds)
  then show ?case by (cases a) (auto simp: bind_eq_Some_conv dest: desc_step_wf)
qed simp

lemma config_from_bytes_wf:
  assumes "config_from_bytes data = Some (Ok c)"
  shows "wf_groups (cfg_interfaces c)"
  using assms
  by (auto simp: config_from_bytes_eq Let_def bind_eq_Some_conv wf_groups_def [of "[]"]
      intro!: flush_iface_wf split: if_splits dest!: run_descs_wf)

lemma wf_groups_first: "wf_groups gs \<Longrightarrow> g \<in> set gs \<Longrightarrow> \<exists>a. ig_first g = Some a \<and> if_number a = ig_number g"
  by (auto simp: wf_groups_def ig_first_def) 

section \<open>The reference encoding, and the parser as its inverse\<close>

definition ep_bytes :: "endpoint_descriptor \<Rightarrow> bytes" where
  "ep_bytes e =
     ([9, DT_ENDPOINT, ep_address e, ep_attributes e] @ le_bytes16 (ep_max_packet e)
       @ [ep_interval e, ep_refresh e, ep_synch_address e]) @ ep_extra e"

definition if_bytes :: "interface_descriptor \<Rightarrow> bytes" where
  "if_bytes i =
     [9, DT_INTERFACE, if_number i, if_alternate_setting i, if_num_endpoints i, if_class i,
      if_sub_class i, if_protocol i, if_string_index i] @ if_extra i @ concat (map ep_bytes (if_endpoints i))"

definition config_bytes :: "config_descriptor \<Rightarrow> bytes" where
  "config_bytes c =
     ([9, DT_CONFIG] @ le_bytes16 (cfg_total_length c) @ [cfg_num_interfaces c, cfg_value c,
       cfg_string_index c, cfg_attributes c, cfg_max_power c]) @ cfg_extra c
       @ concat (map if_bytes (all_alt_settings c))"

fun last_companion :: "(u8 \<times> bytes) list \<Rightarrow> ss_companion option \<Rightarrow> ss_companion option" where
  "last_companion [] c = c"
| "last_companion ((ty, d) # ds) c =
     last_companion ds (if ty = DT_SS_COMPANION \<and> 6 \<le> length d then Some (companion_at d) else c)"

definition no_interface :: "bytes \<Rightarrow> bool" where
  "no_interface b \<longleftrightarrow> (\<forall>(ty, d) \<in> set (descriptors b). \<not> (ty = DT_INTERFACE \<and> 9 \<le> length d))"

definition no_endpoint :: "bytes \<Rightarrow> bool" where
  "no_endpoint b \<longleftrightarrow> (\<forall>(ty, d) \<in> set (descriptors b). \<not> (ty = DT_ENDPOINT \<and> 7 \<le> length d))"

definition wf_ep :: "endpoint_descriptor \<Rightarrow> bool" where
  "wf_ep e \<longleftrightarrow> complete (ep_extra e) \<and> no_interface (ep_extra e) \<and> no_endpoint (ep_extra e)
     \<and> ep_ss_companion e = last_companion (descriptors (ep_extra e)) None"

definition wf_if :: "interface_descriptor \<Rightarrow> bool" where
  "wf_if i \<longleftrightarrow> complete (if_extra i) \<and> no_interface (if_extra i) \<and> no_endpoint (if_extra i)
     \<and> (\<forall>e \<in> set (if_endpoints i). wf_ep e)"

definition wf_config :: "config_descriptor \<Rightarrow> bool" where
  "wf_config c \<longleftrightarrow> complete (cfg_extra c) \<and> no_interface (cfg_extra c) \<and> wf_groups (cfg_interfaces c)
     \<and> (\<forall>i \<in> set (all_alt_settings c). wf_if i)
     \<and> unat (cfg_total_length c) = length (config_bytes c) \<and> cfg_raw c = config_bytes c"

lemma fold_extra_ep:
  assumes "\<forall>(ty, d) \<in> set ds. \<not> (ty = DT_INTERFACE \<and> 9 \<le> length d) \<and> \<not> (ty = DT_ENDPOINT \<and> 7 \<le> length d)"
  shows "run_descs ds \<lparr>ps_cfg = c, ps_iface = Some i, ps_ep = Some e\<rparr> =
    Some \<lparr>ps_cfg = c, ps_iface = Some i, ps_ep = Some (e\<lparr>ep_ss_companion := last_companion ds (ep_ss_companion e),
      ep_extra := ep_extra e @ concat (map snd ds)\<rparr>)\<rparr>"
  using assms
proof (induction ds arbitrary: e)
  case (Cons a ds)
  obtain ty d where [simp]: "a = (ty, d)" by (cases a)
  from Cons.prems have "\<forall>(ty, d) \<in> set ds. \<not> (ty = DT_INTERFACE \<and> 9 \<le> length d) \<and> \<not> (ty = DT_ENDPOINT \<and> 7 \<le> length d)"
    by auto
  note IH = Cons.IH [OF this]
  from Cons.prems show ?case
    by (auto simp: desc_step_def add_companion_eq add_extra_def IH)
qed simp

lemma fold_extra_if:
  assumes "\<forall>(ty, d) \<in> set ds. \<not> (ty = DT_INTERFACE \<and> 9 \<le> length d) \<and> \<not> (ty = DT_ENDPOINT \<and> 7 \<le> length d)"
  shows "run_descs ds \<lparr>ps_cfg = c, ps_iface = Some i, ps_ep = None\<rparr> =
    Some \<lparr>ps_cfg = c, ps_iface = Some (i\<lparr>if_extra := if_extra i @ concat (map snd ds)\<rparr>), ps_ep = None\<rparr>"
  using assms
proof (induction ds arbitrary: i)
  case (Cons a ds)
  obtain ty d where [simp]: "a = (ty, d)" by (cases a)
  from Cons.prems have "\<forall>(ty, d) \<in> set ds. \<not> (ty = DT_INTERFACE \<and> 9 \<le> length d) \<and> \<not> (ty = DT_ENDPOINT \<and> 7 \<le> length d)"
    by auto
  note IH = Cons.IH [OF this]
  from Cons.prems show ?case by (auto simp: desc_step_def add_extra_def IH)
qed simp

lemma fold_extra_cfg:
  assumes "\<forall>(ty, d) \<in> set ds. \<not> (ty = DT_INTERFACE \<and> 9 \<le> length d)"
  shows "run_descs ds \<lparr>ps_cfg = c, ps_iface = None, ps_ep = None\<rparr> =
    Some \<lparr>ps_cfg = c\<lparr>cfg_extra := cfg_extra c @ concat (map snd ds)\<rparr>, ps_iface = None, ps_ep = None\<rparr>"
  using assms
proof (induction ds arbitrary: c)
  case (Cons a ds)
  obtain ty d where [simp]: "a = (ty, d)" by (cases a)
  from Cons.prems have "\<forall>(ty, d) \<in> set ds. \<not> (ty = DT_INTERFACE \<and> 9 \<le> length d)" by auto
  note IH = Cons.IH [OF this]
  from Cons.prems show ?case by (auto simp: desc_step_def add_extra_def IH)
qed simp

text \<open>The interface under construction with its pending endpoint handed over.\<close>

definition pending :: "interface_descriptor \<Rightarrow> endpoint_descriptor option \<Rightarrow> interface_descriptor" where
  "pending i eo = i\<lparr>if_endpoints := if_endpoints i @ (case eo of None \<Rightarrow> [] | Some e \<Rightarrow> [e])\<rparr>"

definition finish :: "parse_state \<Rightarrow> config_descriptor" where
  "finish st = ps_cfg (flush_iface (flush_ep st))"

lemma flush_ep_pending:
  "flush_ep \<lparr>ps_cfg = c, ps_iface = Some i, ps_ep = eo\<rparr> = \<lparr>ps_cfg = c, ps_iface = Some (pending i eo), ps_ep = None\<rparr>"
  by (simp add: flush_ep_def pending_def split: option.split)

lemma finish_pending:
  "finish \<lparr>ps_cfg = c, ps_iface = Some i, ps_ep = eo\<rparr> = push_interface c (pending i eo)"
  by (simp add: finish_def flush_ep_pending flush_iface_def)

lemma flush_iface_cleared [simp]: "ps_iface (flush_iface st) = None" "ps_ep (flush_iface st) = ps_ep st"
  by (simp_all add: flush_iface_def split: option.split)

lemma flush_ep_cleared [simp]: "ps_ep (flush_ep st) = None"
  by (simp add: flush_ep_def split: option.split)

lemma finish_state: "flush_iface (flush_ep st) = \<lparr>ps_cfg = finish st, ps_iface = None, ps_ep = None\<rparr>"
  by (rule parse_state.equality) (simp_all add: finish_def)

lemma ep_bytes_descriptors:
  assumes "wf_ep e"
  shows "descriptors (ep_bytes e @ rest) =
    (DT_ENDPOINT, [9, DT_ENDPOINT, ep_address e, ep_attributes e] @ le_bytes16 (ep_max_packet e)
       @ [ep_interval e, ep_refresh e, ep_synch_address e]) # descriptors (ep_extra e) @ descriptors rest"
  using assms unfolding ep_bytes_def append_assoc [of _ "ep_extra e"]
  by (subst descriptors_Cons) (simp_all add: wf_desc_def wf_ep_def complete_append le_bytes16_def)

lemma complete_Cons: "wf_desc d \<Longrightarrow> complete b \<Longrightarrow> complete (d @ b)"
  by (simp add: complete_def descriptors_Cons)

lemma complete_append_complete: "complete a \<Longrightarrow> complete b \<Longrightarrow> complete (a @ b)"
  using complete_append [of a b] by (simp add: complete_def)

lemma complete_concat_complete: "\<forall>b \<in> set bs. complete b \<Longrightarrow> complete (concat bs)"
  by (induction bs) (simp_all add: complete_append_complete)

lemma ep_bytes_complete: "wf_ep e \<Longrightarrow> complete (ep_bytes e)"
  unfolding ep_bytes_def by (rule complete_Cons) (simp_all add: wf_desc_def wf_ep_def le_bytes16_def)

lemma if_bytes_complete: "wf_if i \<Longrightarrow> complete (if_bytes i)"
  unfolding if_bytes_def
  by (rule complete_Cons)
    (auto simp: wf_desc_def wf_if_def intro!: complete_append_complete complete_concat_complete ep_bytes_complete)

lemma concat_snd: "complete b \<Longrightarrow> concat (map snd (descriptors b)) = b"
  by (simp add: complete_def)

lemma fold_ep:
  assumes "wf_ep e"
  shows "run_descs (descriptors (ep_bytes e)) \<lparr>ps_cfg = c, ps_iface = Some i, ps_ep = eo\<rparr> =
    Some \<lparr>ps_cfg = c, ps_iface = Some (pending i eo), ps_ep = Some e\<rparr>"
proof -
  have x: "\<forall>(ty, d) \<in> set (descriptors (ep_extra e)). \<not> (ty = DT_INTERFACE \<and> 9 \<le> length d) \<and> \<not> (ty = DT_ENDPOINT \<and> 7 \<le> length d)"
    using assms by (auto simp: wf_ep_def no_interface_def no_endpoint_def)
  have ss: "last_companion (descriptors (ep_extra e)) None = ep_ss_companion e"
    and cc: "concat (map snd (descriptors (ep_extra e))) = ep_extra e"
    using assms by (auto simp: wf_ep_def concat_snd)
  show ?thesis
    using ep_bytes_descriptors [OF assms, of "[]"]
    by (simp add: desc_step_def start_endpoint_eq flush_ep_pending fold_extra_ep [OF x] ss cc le_bytes16_def)
qed

lemma fold_eps:
  assumes "\<forall>e \<in> set es. wf_ep e"
  shows "\<exists>i' eo'. run_descs (descriptors (concat (map ep_bytes es))) \<lparr>ps_cfg = c, ps_iface = Some i, ps_ep = eo\<rparr> =
      Some \<lparr>ps_cfg = c, ps_iface = Some i', ps_ep = eo'\<rparr>
    \<and> pending i' eo' = (pending i eo)\<lparr>if_endpoints := if_endpoints (pending i eo) @ es\<rparr>"
  using assms
proof (induction es arbitrary: i eo)
  case (Cons e es)
  from Cons.prems have e: "wf_ep e" and es: "\<forall>e \<in> set es. wf_ep e" by auto
  from Cons.IH [OF es, of "pending i eo" "Some e"]
  show ?case
    by (simp add: complete_append [OF ep_bytes_complete [OF e]] run_descs_append fold_ep [OF e])
      (simp add: pending_def)
qed (simp add: pending_def)

lemma fold_if:
  assumes "wf_if a"
  shows "\<exists>st'. run_descs (descriptors (if_bytes a)) st = Some st' \<and> finish st' = push_interface (finish st) a"
proof -
  let ?h = "[9, DT_INTERFACE, if_number a, if_alternate_setting a, if_num_endpoints a, if_class a,
      if_sub_class a, if_protocol a, if_string_index a]"
  have h: "wf_desc ?h" by (simp add: wf_desc_def)
  have x: "\<forall>(ty, d) \<in> set (descriptors (if_extra a)). \<not> (ty = DT_INTERFACE \<and> 9 \<le> length d) \<and> \<not> (ty = DT_ENDPOINT \<and> 7 \<le> length d)"
    and cx: "complete (if_extra a)" and es: "\<forall>e \<in> set (if_endpoints a). wf_ep e"
    using assms by (auto simp: wf_if_def no_interface_def no_endpoint_def)
  have ds: "descriptors (if_bytes a) = (DT_INTERFACE, ?h) # descriptors (if_extra a)
      @ descriptors (concat (map ep_bytes (if_endpoints a)))"
    unfolding if_bytes_def by (subst descriptors_Cons [OF h]) (simp add: complete_append [OF cx])
  let ?i = "\<lparr>if_number = if_number a, if_alternate_setting = if_alternate_setting a,
      if_num_endpoints = if_num_endpoints a, if_class = if_class a, if_sub_class = if_sub_class a,
      if_protocol = if_protocol a, if_string_index = if_string_index a, if_endpoints = [], if_extra = if_extra a\<rparr>"
  obtain i' eo' where r: "run_descs (descriptors (concat (map ep_bytes (if_endpoints a))))
        \<lparr>ps_cfg = finish st, ps_iface = Some ?i, ps_ep = None\<rparr> = Some \<lparr>ps_cfg = finish st, ps_iface = Some i', ps_ep = eo'\<rparr>"
      and p: "pending i' eo' = (pending ?i None)\<lparr>if_endpoints := if_endpoints (pending ?i None) @ if_endpoints a\<rparr>"
    using fold_eps [OF es, of "finish st" ?i None] by blast
  have "pending i' eo' = a" using p by (simp add: pending_def)
  with r show ?thesis
    by (simp add: ds run_descs_append desc_step_def start_interface_eq finish_state fold_extra_if [OF x]
        concat_snd [OF cx] finish_pending)
qed

lemma fold_ifs:
  assumes "\<forall>a \<in> set as. wf_if a"
  shows "\<exists>st'. run_descs (descriptors (concat (map if_bytes as))) st = Some st'
    \<and> finish st' = fold (\<lambda>a c. push_interface c a) as (finish st)"
  using assms
proof (induction as arbitrary: st)
  case (Cons a as)
  from Cons.prems have a: "wf_if a" and as: "\<forall>a \<in> set as. wf_if a" by auto
  obtain st' where st': "run_descs (descriptors (if_bytes a)) st = Some st'"
    "finish st' = push_interface (finish st) a" using fold_if [OF a] by blast
  from Cons.IH [OF as, of st'] st' show ?case
    by (simp add: complete_append [OF if_bytes_complete [OF a]] run_descs_append)
qed simp

lemma push_group_new: "if_number a \<notin> set (map ig_number gs) \<Longrightarrow>
    push_group a gs = gs @ [\<lparr>ig_number = if_number a, ig_alt_settings = [a]\<rparr>]"
  by (induction gs) auto

lemma push_group_last: "if_number a = n \<Longrightarrow> n \<notin> set (map ig_number gs) \<Longrightarrow>
    push_group a (gs @ [\<lparr>ig_number = n, ig_alt_settings = as\<rparr>]) = gs @ [\<lparr>ig_number = n, ig_alt_settings = as @ [a]\<rparr>]"
  by (induction gs) auto

lemma push_group_alts:
  assumes "n \<notin> set (map ig_number gs)" "\<forall>a \<in> set bs. if_number a = n"
  shows "fold push_group bs (gs @ [\<lparr>ig_number = n, ig_alt_settings = as\<rparr>]) =
    gs @ [\<lparr>ig_number = n, ig_alt_settings = as @ bs\<rparr>]"
  using assms by (induction bs arbitrary: as) (auto simp: push_group_last)

lemma push_groups:
  assumes "wf_groups (gs @ hs)"
  shows "fold push_group (concat (map ig_alt_settings hs)) gs = gs @ hs"
  using assms
proof (induction hs arbitrary: gs)
  case (Cons h hs)
  from Cons.prems obtain a as where h: "ig_alt_settings h = a # as" "\<forall>b \<in> set (a # as). if_number b = ig_number h"
    by (cases "ig_alt_settings h") (auto simp: wf_groups_def)
  from Cons.prems have n: "ig_number h \<notin> set (map ig_number gs)" by (auto simp: wf_groups_def)
  have eq: "\<lparr>ig_number = ig_number h, ig_alt_settings = a # as\<rparr> = h" using h by (cases h) simp
  have "fold push_group (ig_alt_settings h) gs = gs @ [h]"
    using h push_group_new [of a gs] push_group_alts [of "ig_number h" gs as "[a]"] n eq by simp
  with Cons.IH [of "gs @ [h]"] Cons.prems show ?case by simp
qed simp

lemma fold_push_interface:
  "fold (\<lambda>a c. push_interface c a) as c = c\<lparr>cfg_interfaces := fold push_group as (cfg_interfaces c)\<rparr>"
  by (induction as arbitrary: c) (simp_all add: push_interface_def)

lemma config_from_config_bytes:
  assumes "wf_config c"
  shows "config_from_bytes (config_bytes c @ junk) = Some (Ok c)"
proof -
  let ?h = "[9, DT_CONFIG] @ le_bytes16 (cfg_total_length c) @ [cfg_num_interfaces c, cfg_value c,
       cfg_string_index c, cfg_attributes c, cfg_max_power c]"
  let ?t = "cfg_extra c @ concat (map if_bytes (all_alt_settings c))"
  have cx: "complete (cfg_extra c)" and x: "\<forall>(ty, d) \<in> set (descriptors (cfg_extra c)). \<not> (ty = DT_INTERFACE \<and> 9 \<le> length d)"
    and g: "wf_groups ([] @ cfg_interfaces c)" and as: "\<forall>i \<in> set (all_alt_settings c). wf_if i"
    and tl: "unat (cfg_total_length c) = length (config_bytes c)" and raw: "cfg_raw c = config_bytes c"
    using assms by (simp_all add: wf_config_def no_interface_def)
  have b: "config_bytes c = ?h @ ?t" by (simp add: config_bytes_def)
  have lh: "length ?h = 9" by simp
  have len: "9 \<le> length (config_bytes c)" by (simp add: b)
  have clp: "clamp (unat (cfg_total_length c)) 9 (length (config_bytes c @ junk)) = length (config_bytes c)"
    using len by (simp add: clamp_def tl)
  have hd: "\<And>i. i < 9 \<Longrightarrow> (config_bytes c @ junk) ! i = ?h ! i"
  proof -
    fix i :: nat assume "i < 9"
    have "config_bytes c @ junk = ?h @ (?t @ junk)" by (simp only: b append_assoc)
    then show "(config_bytes c @ junk) ! i = ?h ! i"
      using \<open>i < 9\<close> nth_append [of ?h "?t @ junk" i] lh by (simp only: if_True)
  qed
  have nine: "unat (?h ! 0) = 9" "\<not> ?h ! 0 < 9" "?h ! 1 = DT_CONFIG" by simp_all
  have tot: "u16_le (?h ! 2) (?h ! 3) = cfg_total_length c" by (simp add: le_bytes16_def)
  have rest: "?h ! 4 = cfg_num_interfaces c" "?h ! 5 = cfg_value c" "?h ! 6 = cfg_string_index c"
    "?h ! 7 = cfg_attributes c" "?h ! 8 = cfg_max_power c" by (simp_all add: le_bytes16_def)
  have dr: "drop 9 (config_bytes c) = ?t" by (simp add: b le_bytes16_def)
  let ?c0 = "\<lparr>cfg_total_length = cfg_total_length c, cfg_num_interfaces = cfg_num_interfaces c,
      cfg_value = cfg_value c, cfg_string_index = cfg_string_index c, cfg_attributes = cfg_attributes c,
      cfg_max_power = cfg_max_power c, cfg_interfaces = [], cfg_extra = cfg_extra c, cfg_raw = config_bytes c\<rparr>"
  obtain st' where st': "run_descs (descriptors (concat (map if_bytes (all_alt_settings c))))
        \<lparr>ps_cfg = ?c0, ps_iface = None, ps_ep = None\<rparr> = Some st'"
      "finish st' = fold (\<lambda>a c. push_interface c a) (all_alt_settings c) (finish \<lparr>ps_cfg = ?c0, ps_iface = None, ps_ep = None\<rparr>)"
    using fold_ifs [OF as] by blast
  have "finish \<lparr>ps_cfg = ?c0, ps_iface = None, ps_ep = None\<rparr> = ?c0"
    by (simp add: finish_def flush_ep_def flush_iface_def)
  with st'(2) have fin: "finish st' = c"
    using push_groups [OF g] raw by (simp add: fold_push_interface all_alt_settings_def)
  have nl: "\<not> length (config_bytes c @ junk) < 9" using len by simp
  show ?thesis
    unfolding config_from_bytes_eq Let_def
    by (simp only: hd nine tot rest clp nl) 
      (simp add: complete_append [OF cx] run_descs_append dr fold_extra_cfg [OF x] concat_snd [OF cx] st'(1)
        fin [unfolded finish_def])
qed

section \<open>Interface associations\<close>

definition association_of :: "u8 \<times> bytes \<Rightarrow> interface_association list" where
  "association_of = (\<lambda>(ty, d). if ty = DT_INTERFACE_ASSOCIATION \<and> 8 \<le> length d
     then [\<lparr>iad_first_interface = d ! 2, iad_interface_count = d ! 3, iad_function_class = d ! 4,
            iad_function_sub_class = d ! 5, iad_function_protocol = d ! 6, iad_string_index = d ! 7\<rparr>]
     else [])"

lemma association_at_eq:
  assumes "length d = n" "2 \<le> n"
  shows "association_at n d = Some (association_of (d ! 1, d))"
proof (cases "d ! 1 = DT_INTERFACE_ASSOCIATION \<and> 8 \<le> n")
  case True
  then have "8 \<le> length d" using assms by simp
  from True show ?thesis
    using assms by (simp add: association_at_def association_of_def idx_from [OF \<open>8 \<le> length d\<close>])
next
  case False
  then show ?thesis using assms by (auto simp: association_at_def association_of_def)
qed

lemma associations_from_descs:
  "associations_from extra pos = Some (concat (map association_of (descriptors (drop pos extra))))"
proof (induction extra pos rule: associations_from.induct)
  case (1 extra pos)
  let ?r = "drop pos extra"
  show ?case
  proof (cases "pos + 2 \<le> length extra \<and> \<not> (unat (extra ! pos) < 2 \<or> pos + unat (extra ! pos) > length extra)")
    case False
    have "descriptors ?r = []" using False by (subst descriptors.simps) (auto simp: Let_def)
    with False show ?thesis by (subst associations_from.simps) auto
  next
    case True
    define n where "n = unat (extra ! pos)"
    have n: "2 \<le> n" "pos + n \<le> length extra" using True by (simp_all add: n_def)
    have sl: "slice extra pos (pos + n) = Some (take n ?r)" using n by simp
    have ln: "length (take n ?r) = n" using n by simp
    have at: "association_at n (take n ?r) = Some (association_of (take n ?r ! 1, take n ?r))"
      by (rule association_at_eq [OF ln n(1)])
    have ds: "descriptors ?r = (take n ?r ! 1, take n ?r) # descriptors (drop (pos + n) extra)"
      using n True by (subst descriptors.simps) (simp add: n_def Let_def add.commute)
    have get: "idx extra pos = Some (extra ! pos)" using True by simp
    have IH: "associations_from extra (pos + n) = Some (concat (map association_of (descriptors (drop (pos + n) extra))))"
      unfolding n_def
      by (rule "1.IH" [OF _ get _ sl [unfolded n_def] at [unfolded n_def]]) (use True in auto)
    have "associations_from extra pos = do {
            out \<leftarrow> Some (association_of (take n ?r ! 1, take n ?r));
            rest \<leftarrow> associations_from extra (pos + n);
            Some (out @ rest) }"
      using True sl at by (subst associations_from.simps) (simp add: n_def)
    then show ?thesis by (simp add: ds IH)
  qed
qed

lemma interface_associations_descs:
  "interface_associations c = Some (concat (map association_of (descriptors (cfg_extra c))))"
  by (simp add: interface_associations_def associations_from_descs)

section \<open>String descriptors\<close>

text \<open>\<open>as_chunks::<2>().0\<close> with \<open>u16::from_le_bytes\<close>: the whole pairs; an odd last byte is dropped.\<close>

fun le_units :: "bytes \<Rightarrow> u16 list" where
  "le_units (a # b # rest) = u16_le a b # le_units rest"
| "le_units _ = []"

text \<open>\<open>String::from_utf16_lossy\<close>, with a string as the list of its scalar values.\<close>

definition is_high :: "nat \<Rightarrow> bool" where "is_high u \<longleftrightarrow> 0xD800 \<le> u \<and> u < 0xDC00"
definition is_low :: "nat \<Rightarrow> bool" where "is_low u \<longleftrightarrow> 0xDC00 \<le> u \<and> u < 0xE000"

fun utf16_lossy :: "nat list \<Rightarrow> nat list" where
  "utf16_lossy [] = []"
| "utf16_lossy [u] = [if is_high u \<or> is_low u then 0xFFFD else u]"
| "utf16_lossy (u # v # us) =
     (if is_high u then
        if is_low v then (0x10000 + (u - 0xD800) * 0x400 + (v - 0xDC00)) # utf16_lossy us
        else 0xFFFD # utf16_lossy (v # us)
      else (if is_low u then 0xFFFD else u) # utf16_lossy (v # us))"

definition decode_string_descriptor :: "bytes \<Rightarrow> nat list result option" where
  "decode_string_descriptor data =
     (if length data < 2 \<or> data ! 1 \<noteq> DT_STRING then Some (Err Io)
      else do {
        let len = min (unat (data ! 0)) (length data);
        body \<leftarrow> slice data 2 len;
        Some (Ok (utf16_lossy (map unat (takeWhile (\<lambda>u. u \<noteq> 0) (le_units body)))))
      })"

definition decode_language_ids :: "bytes \<Rightarrow> u16 list result option" where
  "decode_language_ids data =
     (if length data < 2 \<or> data ! 1 \<noteq> DT_STRING then Some (Err Io)
      else do {
        let len = min (unat (data ! 0)) (length data);
        body \<leftarrow> slice data 2 len;
        Some (Ok (le_units body))
      })"

lemma decode_string_panics_iff:
  "decode_string_descriptor data = None \<longleftrightarrow> 2 \<le> length data \<and> data ! 1 = DT_STRING \<and> unat (data ! 0) < 2"
  by (auto simp: decode_string_descriptor_def bind_eq_None_conv Let_def)

lemma decode_language_ids_panics_iff:
  "decode_language_ids data = None \<longleftrightarrow> 2 \<le> length data \<and> data ! 1 = DT_STRING \<and> unat (data ! 0) < 2"
  by (auto simp: decode_language_ids_def bind_eq_None_conv Let_def)

text \<open>The specification side: UTF-16 encoding of a sequence of non-zero scalar values and the
  string descriptor that carries it.\<close>

definition scalar :: "nat \<Rightarrow> bool" where
  "scalar c \<longleftrightarrow> 0 < c \<and> c < 0x110000 \<and> \<not> is_high c \<and> \<not> is_low c"

definition utf16_of :: "nat \<Rightarrow> nat list" where
  "utf16_of c = (if c < 0x10000 then [c]
     else [0xD800 + (c - 0x10000) div 0x400, 0xDC00 + (c - 0x10000) mod 0x400])"

definition string_units :: "nat list \<Rightarrow> nat list" where
  "string_units s = concat (map utf16_of s)"

definition string_bytes :: "nat list \<Rightarrow> bytes" where
  "string_bytes s =
     [of_nat (2 + 2 * length (string_units s)), DT_STRING]
       @ concat (map (\<lambda>u. le_bytes16 (of_nat u)) (string_units s))"

lemma le_units_bytes: "le_units (concat (map le_bytes16 us)) = us"
  by (induction us) (simp_all add: le_bytes16_def)

lemma utf16_of_bounds: "scalar c \<Longrightarrow> u \<in> set (utf16_of c) \<Longrightarrow> 0 < u \<and> u < 65536"
  by (auto simp: scalar_def utf16_of_def split: if_splits)

lemma string_units_bounds: "\<forall>c \<in> set s. scalar c \<Longrightarrow> u \<in> set (string_units s) \<Longrightarrow> 0 < u \<and> u < 65536"
  by (auto simp: string_units_def dest: utf16_of_bounds)

lemma utf16_lossy_plain: "\<not> is_high u \<Longrightarrow> \<not> is_low u \<Longrightarrow> utf16_lossy (u # us) = u # utf16_lossy us"
  by (cases us) auto

lemma utf16_roundtrip: "\<forall>c \<in> set s. scalar c \<Longrightarrow> utf16_lossy (string_units s) = s"
proof (induction s)
  case (Cons c s)
  then have IH: "utf16_lossy (concat (map utf16_of s)) = s" and c: "scalar c"
    by (simp_all add: string_units_def)
  show ?case
  proof (cases "c < 0x10000")
    case True
    with c IH show ?thesis by (simp add: string_units_def utf16_of_def utf16_lossy_plain scalar_def)
  next
    case False
    define k where "k = c - 0x10000"
    from c have "c < 0x110000" by (simp add: scalar_def)
    then have k: "c = 0x10000 + k" "k < 0x100000" using False unfolding k_def by linarith+
    have "is_high (0xD800 + k div 0x400)" "is_low (0xDC00 + k mod 0x400)"
      using k by (auto simp: is_high_def is_low_def)
    with False IH k show ?thesis by (simp add: string_units_def utf16_of_def)
  qed
qed (simp add: string_units_def)

lemma decode_string_bytes:
  assumes "\<forall>c \<in> set s. scalar c" and "2 + 2 * length (string_units s) \<le> 255"
  shows "decode_string_descriptor (string_bytes s @ junk) = Some (Ok s)"
proof -
  let ?us = "map of_nat (string_units s) :: u16 list"
  have body: "concat (map (\<lambda>u. le_bytes16 (of_nat u)) (string_units s)) = concat (map le_bytes16 ?us)"
    by (simp add: comp_def)
  have len: "length (concat (map le_bytes16 us)) = 2 * length us" for us
    by (induction us) simp_all
  have n: "unat (of_nat (2 + 2 * length (string_units s)) :: u8) = 2 + 2 * length (string_units s)"
    using assms(2) by (simp only: unsigned_of_nat) (simp add: take_bit_eq_mod)
  have un: "unat (of_nat u :: u16) = u" if "u \<in> set (string_units s)" for u
    using string_units_bounds [OF assms(1) that] by (simp add: unsigned_of_nat take_bit_eq_mod)
  have nz: "(of_nat u :: u16) \<noteq> 0" if "u \<in> set (string_units s)" for u
    using un [OF that] string_units_bounds [OF assms(1) that] by (metis unsigned_0 neq0_conv)
  have tw: "takeWhile (\<lambda>u. u \<noteq> 0) ?us = ?us" using nz by (simp add: takeWhile_eq_all_conv)
  have mu: "map unat ?us = string_units s" using un by (simp add: map_idI)
  define B where "B = concat (map le_bytes16 ?us)"
  have lB: "length B = 2 * length (string_units s)" by (simp only: B_def len) simp
  have sb: "string_bytes s = [of_nat (2 + 2 * length (string_units s)), DT_STRING] @ B"
    by (simp only: string_bytes_def body B_def)
  have sl: "slice (string_bytes s @ junk) 2 (2 + 2 * length (string_units s)) = Some B"
    by (simp add: slice_def sb lB)
  have mn: "min (2 + 2 * length (string_units s)) (length (string_bytes s @ junk)) = 2 + 2 * length (string_units s)"
    by (simp add: sb lB)
  have hd: "(string_bytes s @ junk) ! 0 = of_nat (2 + 2 * length (string_units s))"
    "(string_bytes s @ junk) ! 1 = DT_STRING" "\<not> length (string_bytes s @ junk) < 2"
    by (simp_all add: sb)
  have dec: "utf16_lossy (map unat (takeWhile (\<lambda>u. u \<noteq> 0) (le_units B))) = s"
    by (simp only: B_def le_units_bytes tw mu utf16_roundtrip [OF assms(1)])
  show ?thesis
    unfolding decode_string_descriptor_def hd n mn Let_def sl
    using hd(3) by (simp add: dec)
qed

end
