(* ===== verification/Usb_Device.thy ===== *)
theory Usb_Device
  imports Usb_Descriptors
begin

text \<open>
  Enumerated devices: the enumeration snapshot and its comparison and splitting helpers of
  \<open>src/src/sys/mod.rs\<close>, the accessors of \<open>src/src/device.rs\<close>, the lookups of
  \<open>src/src/context.rs\<close> and the interface searches of \<open>src/src/class.rs\<close>. The backend's
  \<open>enumerate\<close>, \<open>open\<close> and \<open>read_serial_number\<close> are arguments of the lookups; \<open>'k\<close> is the state of
  the world they act on.
\<close>

section \<open>The enumeration snapshot\<close>

text \<open>\<open>location\<close> is the backend's own locator, of any type.\<close>

record 'l device_info =
  di_bus_number :: u8
  di_address :: u8
  di_port_numbers :: "u8 list"
  di_speed :: speed
  di_descriptor :: device_descriptor
  di_configs :: "bytes list"
  di_active_config :: "u8 option"
  di_location :: 'l

definition same_device :: "'l device_info \<Rightarrow> 'l device_info \<Rightarrow> bool" where
  "same_device a b \<longleftrightarrow> di_bus_number a = di_bus_number b \<and> di_address a = di_address b
     \<and> di_port_numbers a = di_port_numbers b
     \<and> dd_vendor_id (di_descriptor a) = dd_vendor_id (di_descriptor b)
     \<and> dd_product_id (di_descriptor a) = dd_product_id (di_descriptor b)"

lemma same_device_refl [simp]: "same_device a a"
  by (simp add: same_device_def)

lemma same_device_sym: "same_device a b \<Longrightarrow> same_device b a"
  by (simp add: same_device_def)

lemma same_device_trans: "same_device a b \<Longrightarrow> same_device b c \<Longrightarrow> same_device a c"
  by (simp add: same_device_def)

text \<open>\<open>PartialEq for Device\<close>; \<open>shared\<close> is \<open>Arc::ptr_eq\<close>.\<close>

definition device_eq :: "bool \<Rightarrow> 'l device_info \<Rightarrow> 'l device_info \<Rightarrow> bool" where
  "device_eq shared a b \<longleftrightarrow> shared \<or> (di_bus_number a = di_bus_number b \<and> di_address a = di_address b
     \<and> di_port_numbers a = di_port_numbers b)"

lemma same_device_eq: "same_device a b \<Longrightarrow> device_eq s a b"
  by (simp add: same_device_def device_eq_def)

definition port_number :: "'l device_info \<Rightarrow> u8" where
  "port_number d = (case di_port_numbers d of [] \<Rightarrow> 0 | ps \<Rightarrow> last ps)"

definition num_configurations :: "'l device_info \<Rightarrow> u8" where
  "num_configurations d = of_nat (length (di_configs d))"

text \<open>\<open>serial_number\<close>: what the \<open>OnceLock\<close> holds after its first use.\<close>

definition serial_number :: "('l device_info \<Rightarrow> 's option) \<Rightarrow> 'l device_info \<Rightarrow> 's option" where
  "serial_number read_serial d =
     (if dd_serial_number (di_descriptor d) = 0 then None else read_serial d)"

definition device_config :: "'l device_info \<Rightarrow> nat \<Rightarrow> config_descriptor result option" where
  "device_config d index = (case idx (di_configs d) index of
      None \<Rightarrow> Some (Err NotFound)
    | Some raw \<Rightarrow> config_from_bytes raw)"

fun config_by_value :: "bytes list \<Rightarrow> u8 \<Rightarrow> config_descriptor result option" where
  "config_by_value [] v = Some (Err NotFound)"
| "config_by_value (raw # raws) v =
     (if idx raw 5 = Some v then config_from_bytes raw else config_by_value raws v)"

definition active_config :: "'l device_info \<Rightarrow> config_descriptor result option" where
  "active_config d = (case di_active_config d of
      None \<Rightarrow> device_config d 0
    | Some v \<Rightarrow> do {
        r \<leftarrow> config_by_value (di_configs d) v;
        case r of Inr c \<Rightarrow> Some (Ok c) | Inl _ \<Rightarrow> device_config d 0 })"

lemma device_config_total: "device_config d i \<noteq> None"
  using config_from_bytes_total by (auto simp: device_config_def split: option.split)

lemma config_by_value_total: "config_by_value raws v \<noteq> None"
  using config_from_bytes_total by (induction raws) auto

lemma active_config_total: "active_config d \<noteq> None"
proof (cases "di_active_config d")
  case None
  then show ?thesis using device_config_total [of d 0] by (simp add: active_config_def)
next
  case (Some v)
  obtain r where "config_by_value (di_configs d) v = Some r" using config_by_value_total by blast
  then show ?thesis using Some device_config_total [of d 0]
    by (cases r) (simp_all add: active_config_def)
qed

text \<open>The header fields are set once: the walk only touches the tree and the extra bytes.\<close>

lemma desc_step_value:
  "desc_step ty (length d) d st = Some st' \<Longrightarrow> cfg_value (ps_cfg st') = cfg_value (ps_cfg st)"
  by (auto simp: desc_step_def step_eqs add_extra_def flush_iface_def push_interface_def
      split: if_splits option.splits)

lemma run_descs_value:
  "run_descs ds st = Some st' \<Longrightarrow> cfg_value (ps_cfg st') = cfg_value (ps_cfg st)"
proof (induction ds arbitrary: st)
  case (Cons a ds)
  obtain ty d where [simp]: "a = (ty, d)" by (cases a)
  from Cons.prems obtain st1 where "desc_step ty (length d) d st = Some st1" "run_descs ds st1 = Some st'"
    by (auto simp: bind_eq_Some_conv)
  with Cons.IH desc_step_value show ?case by metis
qed simp

lemma flush_iface_value [simp]: "cfg_value (ps_cfg (flush_iface st)) = cfg_value (ps_cfg st)"
  by (simp add: flush_iface_def push_interface_def split: option.split)

lemma config_from_bytes_value:
  "config_from_bytes raw = Some (Ok c) \<Longrightarrow> cfg_value c = raw ! 5"
  by (auto simp: config_from_bytes_eq Let_def bind_eq_Some_conv split: if_splits dest!: run_descs_value)

lemma config_by_value_sound:
  "config_by_value raws v = Some (Ok c) \<Longrightarrow> cfg_value c = v \<and> (\<exists>raw \<in> set raws. config_from_bytes raw = Some (Ok c))"
  by (induction raws) (auto split: if_splits dest: config_from_bytes_value)

section \<open>Splitting a run of configuration descriptors\<close>

function split_config_descriptors :: "bytes \<Rightarrow> bytes list option" where
  "split_config_descriptors data =
     (if 9 \<le> length data then do {
        b1 \<leftarrow> idx data 1; b0 \<leftarrow> idx data 0;
        if b1 \<noteq> DT_CONFIG \<or> b0 < 9 then Some []
        else do {
          b2 \<leftarrow> idx data 2; b3 \<leftarrow> idx data 3;
          let total = clamp (unat (u16_le b2 b3)) 9 (length data);
          chunk \<leftarrow> slice data 0 total;
          tail \<leftarrow> slice data total (length data);
          out \<leftarrow> split_config_descriptors tail;
          Some (chunk # out)
        }
      } else Some [])"
  by pat_completeness auto
termination
  by (relation "measure length") (auto simp: clamp_def dest!: slice_SomeD split: if_splits)

declare split_config_descriptors.simps [simp del]

lemma clamp_bounds: "lo \<le> hi \<Longrightarrow> lo \<le> clamp x lo hi \<and> clamp x lo hi \<le> hi"
  by (simp add: clamp_def)

lemma split_config_step:
  "split_config_descriptors data =
     (if 9 \<le> length data \<and> data ! 1 = DT_CONFIG \<and> \<not> data ! 0 < 9 then
        (let total = clamp (unat (u16_le (data ! 2) (data ! 3))) 9 (length data) in
         map_option ((#) (take total data)) (split_config_descriptors (drop total data)))
      else Some [])"
proof (cases "9 \<le> length data")
  case True
  show ?thesis
    using clamp_bounds [OF True] by (subst split_config_descriptors.simps)
      (simp add: True idx_from [OF True] Let_def map_conv_bind_option comp_def)
next
  case False
  then show ?thesis by (subst split_config_descriptors.simps) simp
qed

lemma split_config_induct [case_names step]:
  assumes "\<And>data. (9 \<le> length data \<Longrightarrow> P (drop (clamp (unat (u16_le (data ! 2) (data ! 3))) 9 (length data)) data)) \<Longrightarrow> P data"
  shows "P data"
proof (induction data rule: length_induct)
  case (1 xs)
  show ?case
  proof (rule assms)
    assume "9 \<le> length xs"
    then show "P (drop (clamp (unat (u16_le (xs ! 2) (xs ! 3))) 9 (length xs)) xs)"
      using 1 clamp_bounds [of 9 "length xs" "unat (u16_le (xs ! 2) (xs ! 3))"] by auto
  qed
qed

lemma split_config_total: "\<exists>cs. split_config_descriptors data = Some cs"
proof (induction data rule: split_config_induct)
  case (step data)
  then show ?case by (subst split_config_step) (auto simp: Let_def)
qed

lemma split_config_chunks:
  "split_config_descriptors data = Some cs \<Longrightarrow>
     (\<exists>tail. data = concat cs @ tail) \<and> (\<forall>c \<in> set cs. 9 \<le> length c \<and> c ! 1 = DT_CONFIG)"
proof (induction data arbitrary: cs rule: split_config_induct)
  case (step data)
  show ?case
  proof (cases "9 \<le> length data \<and> data ! 1 = DT_CONFIG \<and> \<not> data ! 0 < 9")
    case False
    with step.prems show ?thesis by (subst (asm) split_config_step) auto
  next
    case True
    define n where "n = clamp (unat (u16_le (data ! 2) (data ! 3))) 9 (length data)"
    have n: "9 \<le> n" "n \<le> length data" using True clamp_bounds [of 9 "length data"] by (simp_all add: n_def)
    obtain ds where ds: "split_config_descriptors (drop n data) = Some ds" "cs = take n data # ds"
      using step.prems True by (subst (asm) split_config_step) (auto simp: n_def Let_def)
    from step.IH [folded n_def, OF _ ds(1)] True obtain tail where
      "drop n data = concat ds @ tail" "\<forall>c \<in> set ds. 9 \<le> length c \<and> c ! 1 = DT_CONFIG" by auto
    moreover from this(1) have "data = take n data @ concat ds @ tail"
      by (metis append_take_drop_id)
    ultimately show ?thesis using n True ds(2) by auto
  qed
qed

text \<open>A run of whole configurations is split into exactly those configurations.\<close>

definition whole_config :: "bytes \<Rightarrow> bool" where
  "whole_config c \<longleftrightarrow> 9 \<le> length c \<and> c ! 1 = DT_CONFIG \<and> \<not> c ! 0 < 9
     \<and> unat (u16_le (c ! 2) (c ! 3)) = length c"

lemma split_config_concat:
  "\<forall>c \<in> set cs. whole_config c \<Longrightarrow> split_config_descriptors (concat cs) = Some cs"
proof (induction cs)
  case Nil
  then show ?case by (subst split_config_step) simp
next
  case (Cons c cs)
  then have c: "whole_config c" and IH: "split_config_descriptors (concat cs) = Some cs" by auto
  have get: "(c @ concat cs) ! i = c ! i" if "i < 9" for i
    using c that by (simp add: whole_config_def nth_append)
  have n: "clamp (length c) 9 (length c + length (concat cs)) = length c"
    using c by (simp add: whole_config_def clamp_def)
  show ?case
    using c IH by (subst split_config_step) (simp add: get n whole_config_def Let_def)
qed

lemma config_bytes_whole: "wf_config c \<Longrightarrow> whole_config (config_bytes c)"
  by (simp add: whole_config_def wf_config_def) (simp add: config_bytes_def le_bytes16_def)

section \<open>Searching the active configuration\<close>

definition default_alt :: "interface_group \<Rightarrow> interface_descriptor option" where
  "default_alt i = (case ig_alt_setting i 0 of Some a \<Rightarrow> Some a | None \<Rightarrow> ig_first i)"

definition interfaces_where ::
  "'l device_info \<Rightarrow> (interface_descriptor \<Rightarrow> bool) \<Rightarrow> interface_descriptor list result option" where
  "interfaces_where d pred = do {
     r \<leftarrow> active_config d;
     case r of
       Inl e \<Rightarrow> Some (Inl e)
     | Inr cfg \<Rightarrow> do {
         alts \<leftarrow> those (map default_alt (cfg_interfaces cfg));
         Some (Ok (filter pred alts)) } }"

definition find_interface ::
  "'l device_info \<Rightarrow> (interface_descriptor \<Rightarrow> bool) \<Rightarrow> interface_descriptor result option" where
  "find_interface d pred = do {
     r \<leftarrow> interfaces_where d pred;
     Some (case r of Inl e \<Rightarrow> Inl e | Inr [] \<Rightarrow> Err NotFound | Inr (a # _) \<Rightarrow> Ok a) }"

definition interface_of :: "'l device_info \<Rightarrow> u8 \<Rightarrow> interface_descriptor result option" where
  "interface_of d number = do {
     r \<leftarrow> active_config d;
     case r of
       Inl e \<Rightarrow> Some (Inl e)
     | Inr cfg \<Rightarrow> (case cfg_interface cfg number of
         None \<Rightarrow> Some (Err NotFound)
       | Some i \<Rightarrow> map_option Ok (default_alt i)) }"

definition endpoint_of ::
  "interface_descriptor \<Rightarrow> direction \<Rightarrow> transfer_type \<Rightarrow> endpoint_descriptor option" where
  "endpoint_of i dir kind = find (\<lambda>e. ep_direction e = dir \<and> ep_transfer_type e = kind) (if_endpoints i)"

text \<open>\<open>le16\<close>: missing bytes read as 0.\<close>

definition le16 :: "bytes \<Rightarrow> nat \<Rightarrow> u16" where
  "le16 b at = u16_le (byte_at b at) (byte_at b (at + 1))"

lemma active_config_wf:
  assumes "active_config d = Some (Ok c)"
  shows "wf_groups (cfg_interfaces c)"
  using assms by (auto simp: active_config_def device_config_def bind_eq_Some_conv case_eqs
      dest: config_from_bytes_wf config_by_value_sound)

lemma default_alt_number:
  assumes "wf_groups gs" "g \<in> set gs"
  shows "\<exists>a. default_alt g = Some a \<and> a \<in> set (ig_alt_settings g) \<and> if_number a = ig_number g"
proof (cases "ig_alt_setting g 0")
  case None
  from assms have "ig_alt_settings g \<noteq> []" by (auto simp: wf_groups_def)
  with None assms show ?thesis by (auto simp: default_alt_def ig_first_def wf_groups_def)
next
  case (Some a)
  then have "a \<in> set (ig_alt_settings g)" by (auto simp: ig_alt_setting_def find_Some_iff)
  with Some assms show ?thesis by (auto simp: default_alt_def wf_groups_def)
qed

lemma those_map_Some: "\<forall>x \<in> set xs. \<exists>y. f x = Some y \<Longrightarrow> those (map f xs) = Some (map (the \<circ> f) xs)"
  by (induction xs) auto

lemma default_alts:
  "wf_groups gs \<Longrightarrow> those (map default_alt gs) = Some (map (the \<circ> default_alt) gs)"
  by (rule those_map_Some) (use default_alt_number in fastforce)

lemma interfaces_where_total: "interfaces_where d pred \<noteq> None"
  using active_config_total [of d]
  by (auto simp: interfaces_where_def bind_eq_None_conv default_alts active_config_wf split: sum.split)

lemma find_interface_total: "find_interface d pred \<noteq> None"
  using interfaces_where_total [of d pred] by (auto simp: find_interface_def bind_eq_None_conv)

lemma interface_of_total: "interface_of d n \<noteq> None"
proof -
  obtain r where r: "active_config d = Some r" using active_config_total [of d] by auto
  have "default_alt i \<noteq> None" if "r = Ok c" "cfg_interface c n = Some i" for c i
    using that r default_alt_number [OF active_config_wf, of d c i]
    by (auto simp: cfg_interface_def find_Some_iff)
  then show ?thesis by (auto simp: interface_of_def r split: sum.split option.split)
qed

lemma interface_of_number:
  assumes "interface_of d n = Some (Ok a)"
  shows "if_number a = n"
proof -
  obtain c i where c: "active_config d = Some (Ok c)" "cfg_interface c n = Some i" "default_alt i = Some a"
    using assms by (auto simp: interface_of_def bind_eq_Some_conv case_eqs)
  then have "i \<in> set (cfg_interfaces c)" "ig_number i = n" by (auto simp: cfg_interface_def find_Some_iff)
  with default_alt_number [OF active_config_wf [OF c(1)], of i] c(3) show ?thesis by auto
qed

lemma interfaces_where_sound:
  assumes "interfaces_where d pred = Some (Ok as)"
  shows "\<forall>a \<in> set as. pred a" and "distinct (map if_number as)"
proof -
  obtain c where c: "active_config d = Some (Ok c)" and as: "as = filter pred (map (the \<circ> default_alt) (cfg_interfaces c))"
    using assms by (auto simp: interfaces_where_def bind_eq_Some_conv default_alts active_config_wf case_eqs)
  note wf = active_config_wf [OF c]
  show "\<forall>a \<in> set as. pred a" by (simp add: as)
  have "map if_number (map (the \<circ> default_alt) (cfg_interfaces c)) = map ig_number (cfg_interfaces c)"
    using default_alt_number [OF wf] by fastforce
  with wf have "distinct (map if_number (map (the \<circ> default_alt) (cfg_interfaces c)))"
    by (simp only: wf_groups_def)
  then show "distinct (map if_number as)" unfolding as by (rule distinct_map_filter)
qed

lemma default_alt_eq:
  assumes "wf_groups gs" "g \<in> set gs"
  shows "default_alt g = Some (case find (\<lambda>a. if_alternate_setting a = 0) (ig_alt_settings g) of Some a \<Rightarrow> a | None \<Rightarrow> hd (ig_alt_settings g))"
  using assms by (cases "ig_alt_settings g") (auto simp: wf_groups_def default_alt_def ig_alt_setting_def ig_first_def split: option.split)

lemma interfaces_where_eq:
  assumes "active_config d = Some (Ok c)"
  shows "interfaces_where d P = Some (Ok (filter P (map (the \<circ> default_alt) (cfg_interfaces c))))"
  using default_alts [OF active_config_wf [OF assms]] by (simp add: interfaces_where_def assms)

section \<open>Looking devices up in a context\<close>

text \<open>\<open>'k\<close> is the state of the world, \<open>'h\<close> an open handle. \<open>sys_enumerate\<close> and \<open>sys_open\<close> are the
  backend's; \<open>sys_serial\<close> is \<open>sys::read_serial_number\<close>; \<open>read_serial\<close> is
  \<open>DeviceHandle::read_serial_number_string\<close>; \<open>close\<close> is what dropping a handle runs.\<close>

record ('k, 'l, 'h) sys_context =
  sys_enumerate :: "'k \<Rightarrow> 'l device_info list result \<times> 'k"
  sys_open :: "'l device_info \<Rightarrow> 'k \<Rightarrow> 'h result \<times> 'k"
  sys_serial :: "'l device_info \<Rightarrow> nat list option"
  read_serial :: "'h \<Rightarrow> 'k \<Rightarrow> nat list option result \<times> 'k"
  close_handle :: "'h \<Rightarrow> 'k \<Rightarrow> 'k"

definition ids_of :: "'l device_info \<Rightarrow> u16 \<times> u16" where
  "ids_of d = (dd_vendor_id (di_descriptor d), dd_product_id (di_descriptor d))"

definition find_device ::
  "('k, 'l, 'h) sys_context \<Rightarrow> u16 \<Rightarrow> u16 \<Rightarrow> 'k \<Rightarrow> 'l device_info option result \<times> 'k" where
  "find_device c vid pid k = (case sys_enumerate c k of
      (Inl e, k) \<Rightarrow> (Inl e, k)
    | (Inr ds, k) \<Rightarrow> (Ok (find (\<lambda>d. ids_of d = (vid, pid)) ds), k))"

definition open_device_with_vid_pid ::
  "('k, 'l, 'h) sys_context \<Rightarrow> u16 \<Rightarrow> u16 \<Rightarrow> 'k \<Rightarrow> 'h result \<times> 'k" where
  "open_device_with_vid_pid c vid pid k = (case find_device c vid pid k of
      (Inl e, k) \<Rightarrow> (Inl e, k)
    | (Inr (Some d), k) \<Rightarrow> sys_open c d k
    | (Inr None, k) \<Rightarrow> (Err NotFound, k))"

definition serial_candidate :: "(u16 \<times> u16) list \<Rightarrow> 'l device_info \<Rightarrow> bool" where
  "serial_candidate ids d \<longleftrightarrow> dd_serial_number (di_descriptor d) \<noteq> 0
     \<and> (ids = [] \<or> ids_of d \<in> set ids)"

fun serial_loop ::
  "('k, 'l, 'h) sys_context \<Rightarrow> nat list \<Rightarrow> 'l device_info list \<Rightarrow> 'k
     \<Rightarrow> ('l device_info \<times> 'h option) option \<times> 'k" where
  "serial_loop c serial [] k = (None, k)"
| "serial_loop c serial (d # ds) k = (case serial_number (sys_serial c) d of
      Some s \<Rightarrow> if s = serial then (Some (d, None), k) else serial_loop c serial ds k
    | None \<Rightarrow> (case sys_open c d k of
        (Inl e, k) \<Rightarrow> serial_loop c serial ds k
      | (Inr h, k) \<Rightarrow> (case read_serial c h k of
          (r, k) \<Rightarrow> if r = Inr (Some serial) then (Some (d, Some h), k)
                    else serial_loop c serial ds (close_handle c h k))))"

definition lookup_serial ::
  "('k, 'l, 'h) sys_context \<Rightarrow> (u16 \<times> u16) list \<Rightarrow> nat list \<Rightarrow> 'k
     \<Rightarrow> ('l device_info \<times> 'h option) option result \<times> 'k" where
  "lookup_serial c ids serial k = (case sys_enumerate c k of
      (Inl e, k) \<Rightarrow> (Inl e, k)
    | (Inr ds, k) \<Rightarrow> (case serial_loop c serial (filter (serial_candidate ids) ds) k of
        (r, k) \<Rightarrow> (Ok r, k)))"

text \<open>\<open>find_device_by_serial\<close> drops the handle the lookup may have opened.\<close>

definition find_device_by_serial ::
  "('k, 'l, 'h) sys_context \<Rightarrow> (u16 \<times> u16) list \<Rightarrow> nat list \<Rightarrow> 'k
     \<Rightarrow> 'l device_info option result \<times> 'k" where
  "find_device_by_serial c ids serial k = (case lookup_serial c ids serial k of
      (Inl e, k) \<Rightarrow> (Inl e, k)
    | (Inr None, k) \<Rightarrow> (Ok None, k)
    | (Inr (Some (d, None)), k) \<Rightarrow> (Ok (Some d), k)
    | (Inr (Some (d, Some h)), k) \<Rightarrow> (Ok (Some d), close_handle c h k))"

definition open_device_by_serial ::
  "('k, 'l, 'h) sys_context \<Rightarrow> (u16 \<times> u16) list \<Rightarrow> nat list \<Rightarrow> 'k \<Rightarrow> 'h result \<times> 'k" where
  "open_device_by_serial c ids serial k = (case lookup_serial c ids serial k of
      (Inl e, k) \<Rightarrow> (Inl e, k)
    | (Inr (Some (d, Some h)), k) \<Rightarrow> (Ok h, k)
    | (Inr (Some (d, None)), k) \<Rightarrow> sys_open c d k
    | (Inr None, k) \<Rightarrow> (Err NotFound, k))"

text \<open>What the loop returns is one of the candidates, and the serial it matched comes from the
  operating system (no handle) or from the device itself (the handle it was read through).\<close>

lemma serial_loop_sound:
  "serial_loop c serial ds k = (Some (d, ho), k') \<Longrightarrow>
     d \<in> set ds \<and> (case ho of
        None \<Rightarrow> serial_number (sys_serial c) d = Some serial
      | Some h \<Rightarrow> serial_number (sys_serial c) d = None \<and>
          (\<exists>k1 k2. sys_open c d k1 = (Ok h, k2) \<and> read_serial c h k2 = (Inr (Some serial), k')))"
proof (induction ds arbitrary: k)
  case (Cons a ds)
  show ?case
  proof (cases "serial_number (sys_serial c) a")
    case (Some s)
    with Cons show ?thesis by (auto split: if_splits)
  next
    case None
    obtain r k1 where o: "sys_open c a k = (r, k1)" by (cases "sys_open c a k")
    show ?thesis
    proof (cases r)
      case (Inl e)
      with None o Cons show ?thesis by auto
    next
      case (Inr h)
      obtain q k2 where q: "read_serial c h k1 = (q, k2)" by (cases "read_serial c h k1")
      with None o Inr Cons show ?thesis by (auto split: if_splits) metis
    qed
  qed
qed simp

text \<open>No device is opened when the operating system knows the serial of every candidate.\<close>

lemma serial_loop_no_open:
  "\<forall>d \<in> set ds. serial_number (sys_serial c) d \<noteq> None \<Longrightarrow> snd (serial_loop c serial ds k) = k"
  by (induction ds) auto

text \<open>When the operating system knows every serial, the loop only searches.\<close>

lemma serial_loop_known:
  "\<forall>d \<in> set ds. serial_number (sys_serial c) d \<noteq> None \<Longrightarrow>
     serial_loop c serial ds k = (map_option (\<lambda>d. (d, None)) (find (\<lambda>d. serial_number (sys_serial c) d = Some serial) ds), k)"
  by (induction ds) auto

lemma serial_loop_misses:
  "serial_loop c serial ds k = (None, k') \<Longrightarrow> d \<in> set ds \<Longrightarrow> serial_number (sys_serial c) d \<noteq> Some serial"
  by (induction c serial ds k rule: serial_loop.induct) (auto split: option.splits prod.splits sum.splits if_splits)

text \<open>Every handle the loop opens without returning it is closed again: with \<open>count\<close> the number of
  open handles of a world state, the lookup leaves it as it was, or one higher when it returns a handle.\<close>

lemma serial_loop_closes:
  assumes opens: "\<And>d k. count (snd (sys_open c d k)) = count k + (if is_ok (fst (sys_open c d k)) then 1 else 0)"
    and reads: "\<And>h k. count (snd (read_serial c h k)) = count k"
    and closes: "\<And>h k. count (close_handle c h k) = count k - 1"
  shows "count (snd (serial_loop c serial ds k)) =
     count k + (case fst (serial_loop c serial ds k) of Some (d, Some h) \<Rightarrow> 1 | _ \<Rightarrow> (0::nat))"
proof (induction ds arbitrary: k)
  case (Cons a ds)
  show ?case
  proof (cases "serial_number (sys_serial c) a")
    case (Some s)
    with Cons show ?thesis by auto
  next
    case None
    obtain r k1 where o: "sys_open c a k = (r, k1)" by (cases "sys_open c a k")
    show ?thesis
    proof (cases r)
      case (Inl e)
      with None o Cons [of k1] opens [of a k] show ?thesis by simp
    next
      case (Inr h)
      obtain q k2 where q: "read_serial c h k1 = (q, k2)" by (cases "read_serial c h k1")
      with None o Inr Cons [of "close_handle c h k2"] opens [of a k] reads [of h k1] closes [of h k2]
      show ?thesis by simp
    qed
  qed
qed simp

end
