(* ===== verification/Usb_Handle.thy ===== *)
theory Usb_Handle
  imports Usb_Transfer Usb_Device
begin

text \<open>
  The open device of \<open>src/src/handle.rs\<close> (claims, kernel-driver bookkeeping, leases, synchronous
  transfers, descriptor reads) and the interface claim of the class helpers (\<open>Claim\<close> in
  \<open>src/src/class.rs\<close>). The platform backend is the record \<open>sys\<close> of the operations that
  \<open>src/src/sys/mod.rs\<close> lists, acting on a world \<open>'k\<close>; \<open>sys_transfer\<close> is a submission together with
  the completion that ends it.
\<close>

type_synonym ('k, 'a) sysop = "'k \<Rightarrow> 'a result \<times> 'k"

record 'k sys =
  sys_active_config :: "('k, u8 option) sysop"
  sys_set_config :: "u8 \<Rightarrow> ('k, unit) sysop"
  sys_claim :: "u8 \<Rightarrow> ('k, unit) sysop"
  sys_release :: "u8 \<Rightarrow> ('k, unit) sysop"
  sys_set_alt :: "u8 \<Rightarrow> u8 \<Rightarrow> ('k, unit) sysop"
  sys_clear_halt :: "u8 \<Rightarrow> ('k, unit) sysop"
  sys_reset :: "('k, unit) sysop"
  sys_driver_active :: "u8 \<Rightarrow> ('k, bool) sysop"
  sys_detach :: "u8 \<Rightarrow> ('k, unit) sysop"
  sys_attach :: "u8 \<Rightarrow> ('k, unit) sysop"
  sys_transfer :: "transfer_type \<Rightarrow> u8 \<Rightarrow> bytes \<Rightarrow> nat \<Rightarrow> ('k, transfer_status \<times> nat \<times> bytes) sysop"
  sys_cancel_all :: "'k \<Rightarrow> 'k"
  sys_close :: "'k \<Rightarrow> 'k"

record 'k handle =
  h_claimed :: "u8 list"
  h_detached :: "u8 list"
  h_auto_detach :: bool
  h_leased :: "u8 list"
  h_language :: "u16 option"
  h_world :: 'k

definition handle_new :: "'k \<Rightarrow> 'k handle" where
  "handle_new k = \<lparr>h_claimed = [], h_detached = [], h_auto_detach = False, h_leased = [],
     h_language = None, h_world = k\<rparr>"

definition on_sys :: "('k, 'a) sysop \<Rightarrow> ('k handle, 'a) io" where
  "on_sys f h = (case f (h_world h) of (r, k) \<Rightarrow> (out_of r, h\<lparr>h_world := k\<rparr>))"

section \<open>Claiming and releasing\<close>

definition is_claimed :: "u8 \<Rightarrow> 'k handle \<Rightarrow> bool" where
  "is_claimed i h \<longleftrightarrow> i \<in> set (h_claimed h)"

text \<open>The last lines of \<open>claim\<close>: the backend's claim and its bookkeeping; \<open>denied\<close> is the error to
  report instead when detaching was refused.\<close>

definition claim_sys :: "'k sys \<Rightarrow> u8 \<Rightarrow> usb_error option \<Rightarrow> ('k handle, unit) io" where
  "claim_sys S i denied = matchR (on_sys (sys_claim S i))
     (\<lambda>_. mod_st (\<lambda>h. if i \<in> set (h_claimed h) then h else h\<lparr>h_claimed := h_claimed h @ [i]\<rparr>))
     (\<lambda>e. failE (case denied of Some d \<Rightarrow> d | None \<Rightarrow> e))"

definition driver_bound :: "'k sys \<Rightarrow> u8 \<Rightarrow> ('k handle, bool) io" where
  "driver_bound S i = matchR (on_sys (sys_driver_active S i)) ret (\<lambda>_. ret False)"

definition claim :: "'k sys \<Rightarrow> u8 \<Rightarrow> bool \<Rightarrow> ('k handle, unit) io" where
  "claim S i detach =
     bindR (if detach then driver_bound S i else ret False) (\<lambda>bound.
       if bound then
         matchR (on_sys (sys_detach S i))
           (\<lambda>_. bindR (mod_st (\<lambda>h. h\<lparr>h_detached := h_detached h @ [i]\<rparr>)) (\<lambda>_. claim_sys S i None))
           (\<lambda>e. if err_kind e = NotSupported \<or> err_kind e = NotFound then claim_sys S i None
                else if err_kind e = Access then claim_sys S i (Some e)
                else failE e)
       else claim_sys S i None)"

definition claim_interface :: "'k sys \<Rightarrow> u8 \<Rightarrow> ('k handle, unit) io" where
  "claim_interface S i = bindR (get_st h_auto_detach) (claim S i)"

definition claim_interface_detaching :: "'k sys \<Rightarrow> u8 \<Rightarrow> ('k handle, unit) io" where
  "claim_interface_detaching S i = claim S i True"

text \<open>\<open>released.and(reattached)\<close>: the first error wins, but both operations run.\<close>

definition release_interface :: "'k sys \<Rightarrow> u8 \<Rightarrow> ('k handle, unit) io" where
  "release_interface S i h =
     (let (released, k) = sys_release S i (h_world h);
          h = h\<lparr>h_claimed := filter (\<lambda>j. j \<noteq> i) (h_claimed h), h_world := k\<rparr>
      in if i \<in> set (h_detached h) then
           (let (reattached, k) = sys_attach S i (h_world h);
                h = h\<lparr>h_detached := remove1 i (h_detached h), h_world := k\<rparr>
            in (out_of (case released of Inl e \<Rightarrow> Inl e | Inr _ \<Rightarrow> reattached), h))
         else (out_of released, h))"

text \<open>\<open>claim_all_interfaces\<close>; \<open>newly\<close> are the interfaces this call has claimed so far.\<close>

fun claim_all_loop :: "'k sys \<Rightarrow> u8 list \<Rightarrow> u8 list \<Rightarrow> ('k handle, unit) io" where
  "claim_all_loop S newly [] = ret ()"
| "claim_all_loop S newly (i # is) =
     bindR (get_st (is_claimed i)) (\<lambda>c.
       if c then claim_all_loop S newly is
       else matchR (claim S i True)
         (\<lambda>_. claim_all_loop S (newly @ [i]) is)
         (\<lambda>e. bindR (for_each newly (\<lambda>j. ignoreR (release_interface S j))) (\<lambda>_. failE e)))"

definition claim_all_interfaces :: "'k sys \<Rightarrow> 'l device_info \<Rightarrow> ('k handle, unit) io" where
  "claim_all_interfaces S d =
     bindR (lift_panic (active_config d)) (\<lambda>cfg. claim_all_loop S [] (map ig_number (cfg_interfaces cfg)))"

definition lease :: "u8 list \<Rightarrow> ('k handle, unit) io" where
  "lease is = (\<lambda>h. if \<exists>i \<in> set is. i \<in> set (h_leased h) then (Fail (error_new Busy), h)
     else (Val (), h\<lparr>h_leased := h_leased h @ is\<rparr>))"

definition unlease :: "u8 list \<Rightarrow> 'k handle \<Rightarrow> 'k handle" where
  "unlease is h = h\<lparr>h_leased := filter (\<lambda>i. i \<notin> set is) (h_leased h)\<rparr>"

definition set_alternate_setting :: "'k sys \<Rightarrow> u8 \<Rightarrow> u8 \<Rightarrow> ('k handle, unit) io" where
  "set_alternate_setting S i a = on_sys (sys_set_alt S i a)"

definition clear_halt :: "'k sys \<Rightarrow> u8 \<Rightarrow> ('k handle, unit) io" where
  "clear_halt S ep = on_sys (sys_clear_halt S ep)"

definition reset :: "'k sys \<Rightarrow> ('k handle, unit) io" where
  "reset S = bindR (on_sys (sys_reset S)) (\<lambda>_. bindR (get_st h_claimed) (\<lambda>claimed.
     for_each claimed (\<lambda>i. matchR (on_sys (sys_claim S i)) ret (\<lambda>_. failK NotFound))))"

text \<open>\<open>Drop for HandleShared\<close>.\<close>

definition handle_drop :: "'k sys \<Rightarrow> 'k handle \<Rightarrow> 'k" where
  "handle_drop S h =
     (let k = sys_cancel_all S (h_world h);
          k = fold (\<lambda>i k. snd (sys_release S i k)) (h_claimed h) k;
          k = fold (\<lambda>i k. snd (sys_attach S i k)) (h_detached h) k
      in sys_close S k)"

section \<open>The claim of a class helper\<close>

text \<open>\<open>sort_unstable\<close> and \<open>dedup\<close> of the wanted interfaces, and the record \<open>Claim\<close>.\<close>

record helper_claim =
  hc_leased :: "u8 list"
  hc_owned :: "u8 list"

definition claim_drop :: "'k sys \<Rightarrow> helper_claim \<Rightarrow> 'k handle \<Rightarrow> 'k handle" where
  "claim_drop S c h =
     unlease (hc_leased c) (fold (\<lambda>i h. snd (release_interface S i h)) (hc_owned c) h)"

fun claim_wanted :: "'k sys \<Rightarrow> u8 list \<Rightarrow> u8 list \<Rightarrow> u8 list \<Rightarrow> ('k handle, helper_claim) io" where
  "claim_wanted S leased owned [] = ret \<lparr>hc_leased = leased, hc_owned = owned\<rparr>"
| "claim_wanted S leased owned (i # is) =
     bindR (get_st (is_claimed i)) (\<lambda>c.
       if c then claim_wanted S leased owned is
       else matchR (claim_interface_detaching S i)
         (\<lambda>_. claim_wanted S leased (owned @ [i]) is)
         (\<lambda>e. bindR (mod_st (claim_drop S \<lparr>hc_leased = leased, hc_owned = owned\<rparr>)) (\<lambda>_. failE e)))"

definition claim_new :: "'k sys \<Rightarrow> u8 list \<Rightarrow> ('k handle, helper_claim) io" where
  "claim_new S interfaces =
     (let wanted = remdups (sort interfaces)
      in bindR (lease wanted) (\<lambda>_. claim_wanted S wanted [] wanted))"

section \<open>Synchronous transfers\<close>

definition submit_and_wait :: "'k sys \<Rightarrow> unit transfer \<Rightarrow> ('k handle, nat \<times> unit transfer) io" where
  "submit_and_wait S t h = (case submit (\<lambda>_. Inr ()) t of
      (Fail e, _) \<Rightarrow> (Fail e, h)
    | (Panic, _) \<Rightarrow> (Panic, h)
    | (Val _, t) \<Rightarrow>
      (case sys_transfer S (tr_kind t) (tr_endpoint t) (tr_buffer t) (tr_timeout t) (h_world h) of
         (Inl e, k) \<Rightarrow> (Fail e, h\<lparr>h_world := k\<rparr>)
       | (Inr (st, n, buf), k) \<Rightarrow>
           (let t = snd (snd (publish st n None (t\<lparr>tr_buffer := buf\<rparr>)))
            in (case status_into_result st of
                  Inl e \<Rightarrow> (Fail e, h\<lparr>h_world := k\<rparr>)
                | Inr _ \<Rightarrow> (Val (tr_actual t, t), h\<lparr>h_world := k\<rparr>)))))"

text \<open>\<open>control_transfer\<close>: the byte count and the caller's buffer afterwards.\<close>

definition control_transfer :: "'k sys \<Rightarrow> control_setup \<Rightarrow> bytes \<Rightarrow> nat \<Rightarrow> ('k handle, nat \<times> bytes) io" where
  "control_transfer S su data timeout =
     (let len = min (length data) 65535;
          su = su\<lparr>cs_length := of_nat len\<rparr>;
          t = (transfer_control su (take len data))\<lparr>tr_timeout := timeout\<rparr>
      in bindR (submit_and_wait S t) (\<lambda>(n, t).
           if setup_direction su = In then (case get_data t of
               (Val received, _) \<Rightarrow> bindR (lift_opt (put 0 received data)) (\<lambda>data. ret (n, data))
             | (Fail e, _) \<Rightarrow> failE e
             | (Panic, _) \<Rightarrow> lift_opt None)
           else ret (n, data)))"

definition control_read ::
  "'k sys \<Rightarrow> u8 \<Rightarrow> u8 \<Rightarrow> u16 \<Rightarrow> u16 \<Rightarrow> bytes \<Rightarrow> nat \<Rightarrow> ('k handle, nat \<times> bytes) io" where
  "control_read S rt r v i buf timeout =
     (if rt AND 0x80 = 0 then failK InvalidParam
      else control_transfer S (setup_raw rt r v i 0) buf timeout)"

definition control_write ::
  "'k sys \<Rightarrow> u8 \<Rightarrow> u8 \<Rightarrow> u16 \<Rightarrow> u16 \<Rightarrow> bytes \<Rightarrow> nat \<Rightarrow> ('k handle, nat) io" where
  "control_write S rt r v i data timeout =
     (if rt AND 0x80 \<noteq> 0 then failK InvalidParam
      else bindR (submit_and_wait S ((transfer_control (setup_raw rt r v i (of_nat (length data))) data)
             \<lparr>tr_timeout := timeout\<rparr>)) (\<lambda>(n, t). ret n))"

text \<open>\<open>buf[..n].copy_from_slice(&t.data()?)\<close> panics unless the data is exactly \<open>n\<close> bytes.\<close>

definition sync_read ::
  "'k sys \<Rightarrow> transfer_type \<Rightarrow> u8 \<Rightarrow> bytes \<Rightarrow> nat \<Rightarrow> ('k handle, nat \<times> bytes) io" where
  "sync_read S kind ep buf timeout =
     (if ep AND 0x80 = 0 then failK InvalidParam
      else bindR (submit_and_wait S ((transfer_new kind ep (replicate (length buf) 0))\<lparr>tr_timeout := timeout\<rparr>))
        (\<lambda>(n, t). case get_data t of
            (Val d, _) \<Rightarrow> if length d = n then bindR (lift_opt (put 0 d buf)) (\<lambda>buf. ret (n, buf))
                          else lift_opt None
          | (Fail e, _) \<Rightarrow> failE e
          | (Panic, _) \<Rightarrow> lift_opt None))"

definition sync_write :: "'k sys \<Rightarrow> transfer_type \<Rightarrow> u8 \<Rightarrow> bytes \<Rightarrow> nat \<Rightarrow> ('k handle, nat) io" where
  "sync_write S kind ep data timeout =
     (if ep AND 0x80 \<noteq> 0 then failK InvalidParam
      else bindR (submit_and_wait S ((transfer_new kind ep data)\<lparr>tr_timeout := timeout\<rparr>)) (\<lambda>(n, t). ret n))"

abbreviation bulk_read :: "'k sys \<Rightarrow> u8 \<Rightarrow> bytes \<Rightarrow> nat \<Rightarrow> ('k handle, nat \<times> bytes) io" where
  "bulk_read S \<equiv> sync_read S Bulk"
abbreviation bulk_write :: "'k sys \<Rightarrow> u8 \<Rightarrow> bytes \<Rightarrow> nat \<Rightarrow> ('k handle, nat) io" where
  "bulk_write S \<equiv> sync_write S Bulk"
abbreviation interrupt_read :: "'k sys \<Rightarrow> u8 \<Rightarrow> bytes \<Rightarrow> nat \<Rightarrow> ('k handle, nat \<times> bytes) io" where
  "interrupt_read S \<equiv> sync_read S Interrupt"
abbreviation interrupt_write :: "'k sys \<Rightarrow> u8 \<Rightarrow> bytes \<Rightarrow> nat \<Rightarrow> ('k handle, nat) io" where
  "interrupt_write S \<equiv> sync_write S Interrupt"

section \<open>Configuration and descriptors\<close>

abbreviation (input) STRING_TIMEOUT :: nat where "STRING_TIMEOUT \<equiv> 1000"

definition active_configuration :: "'k sys \<Rightarrow> ('k handle, u8) io" where
  "active_configuration S = bindR (on_sys (sys_active_config S)) (\<lambda>v. case v of
      Some v \<Rightarrow> ret v
    | None \<Rightarrow> bindR (control_read S (request_type In Standard RDevice) GET_CONFIGURATION 0 0 [0] STRING_TIMEOUT)
        (\<lambda>(n, buf). if n \<noteq> 1 then failK Io else lift_opt (idx buf 0)))"

definition read_descriptor ::
  "'k sys \<Rightarrow> u8 \<Rightarrow> u8 \<Rightarrow> u16 \<Rightarrow> bytes \<Rightarrow> nat \<Rightarrow> ('k handle, nat \<times> bytes) io" where
  "read_descriptor S ty index lang buf timeout =
     control_read S (request_type In Standard RDevice) GET_DESCRIPTOR
       (push_bit 8 (ucast ty) OR ucast index) lang buf timeout"

text \<open>The fallback of \<open>read_string_raw\<close>: the header first, then exactly what it declares, into the
  start of the 255-byte buffer.\<close>

definition read_string_retry :: "'k sys \<Rightarrow> u8 \<Rightarrow> u16 \<Rightarrow> nat \<Rightarrow> ('k handle, nat \<times> bytes) io" where
  "read_string_retry S index lang timeout =
     bindR (read_descriptor S DT_STRING index lang [0, 0] timeout) (\<lambda>(got, head).
       if got < 2 \<or> byte_at head 0 < 2 then failK Io
       else (let want = unat (byte_at head 0) in
         bindR (lift_opt (slice (replicate 255 0) 0 want)) (\<lambda>part.
         bindR (read_descriptor S DT_STRING index lang part timeout) (\<lambda>(n, part).
         ret (n, part @ replicate (255 - want) 0)))))"

definition read_string_raw :: "'k sys \<Rightarrow> u8 \<Rightarrow> u16 \<Rightarrow> nat \<Rightarrow> ('k handle, bytes) io" where
  "read_string_raw S index lang timeout =
     bindR (matchR (read_descriptor S DT_STRING index lang (replicate 255 0) timeout)
         (\<lambda>(n, buf). if 2 \<le> n then ret (n, buf) else read_string_retry S index lang timeout)
         (\<lambda>e. if \<not> is_stall e then failE e else read_string_retry S index lang timeout))
       (\<lambda>(n, buf). lift_opt (slice buf 0 (min n (unat (max (byte_at buf 0) 2)))))"

definition read_languages :: "'k sys \<Rightarrow> nat \<Rightarrow> ('k handle, u16 list) io" where
  "read_languages S timeout = bindR (read_string_raw S 0 0 timeout) (\<lambda>d. lift_panic (decode_language_ids d))"

definition read_string_descriptor :: "'k sys \<Rightarrow> u16 \<Rightarrow> u8 \<Rightarrow> nat \<Rightarrow> ('k handle, nat list) io" where
  "read_string_descriptor S lang index timeout =
     (if index = 0 then failK InvalidParam
      else bindR (read_string_raw S index lang timeout) (\<lambda>d. lift_panic (decode_string_descriptor d)))"

definition string_language :: "'k sys \<Rightarrow> ('k handle, u16) io" where
  "string_language S = bindR (get_st h_language) (\<lambda>l. case l of
      Some lang \<Rightarrow> ret lang
    | None \<Rightarrow> bindR (matchR (read_languages S STRING_TIMEOUT)
          (\<lambda>langs. ret (case langs of [] \<Rightarrow> 0x0409 | l # _ \<Rightarrow> l))
          (\<lambda>e. if err_kind e = Io then ret 0x0409 else failE e))
        (\<lambda>lang. bindR (mod_st (\<lambda>h. h\<lparr>h_language := Some lang\<rparr>)) (\<lambda>_. ret lang)))"

definition read_string :: "'k sys \<Rightarrow> u8 \<Rightarrow> ('k handle, nat list) io" where
  "read_string S index = bindR (string_language S) (\<lambda>lang. read_string_descriptor S lang index STRING_TIMEOUT)"

definition read_optional_string :: "'k sys \<Rightarrow> u8 \<Rightarrow> ('k handle, nat list option) io" where
  "read_optional_string S index =
     (if index = 0 then ret None else bindR (read_string S index) (\<lambda>s. ret (Some s)))"

definition read_bos_descriptor :: "'k sys \<Rightarrow> nat \<Rightarrow> ('k handle, bytes) io" where
  "read_bos_descriptor S timeout =
     bindR (read_descriptor S 0x0f 0 0 (replicate 5 0) timeout) (\<lambda>(n, head).
       if n < 5 \<or> byte_at head 1 \<noteq> 0x0f then failK Io
       else (let total = unat (u16_le (byte_at head 2) (byte_at head 3)) in
         bindR (read_descriptor S 0x0f 0 0 (replicate (max total 5) 0) timeout) (\<lambda>(n, buf).
           ret (take n buf))))"

section \<open>Bookkeeping facts\<close>

lemma on_sys_eq: "on_sys f h = (out_of (fst (f (h_world h))), h\<lparr>h_world := snd (f (h_world h))\<rparr>)"
  by (simp add: on_sys_def split: prod.split)

text \<open>What two states of a handle have in common when only the world and the driver bookkeeping moved.\<close>

definition same_claims :: "'k handle \<Rightarrow> 'k handle \<Rightarrow> bool" where
  "same_claims h h' \<longleftrightarrow> h_claimed h' = h_claimed h \<and> h_leased h' = h_leased h \<and> h_auto_detach h' = h_auto_detach h
     \<and> h_language h' = h_language h"

definition add_claim :: "u8 \<Rightarrow> u8 list \<Rightarrow> u8 list" where
  "add_claim i is = (if i \<in> set is then is else is @ [i])"

lemma claim_sys_effect:
  assumes "claim_sys S i denied h = (r, h')"
  shows "h_leased h' = h_leased h \<and> r \<noteq> Panic \<and> h_detached h' = h_detached h \<and>
    h_claimed h' = (if r = Val () then add_claim i (h_claimed h) else h_claimed h)"
  using assms
  by (auto simp: claim_sys_def matchR_eq on_sys_eq add_claim_def out_of_def split: sum.splits if_splits)

lemma driver_bound_effect:
  "\<exists>b k. driver_bound S i h = (Val b, h\<lparr>h_world := k\<rparr>)"
  by (cases "fst (sys_driver_active S i (h_world h))")
    (auto simp: driver_bound_def matchR_def on_sys_eq)

lemma claim_effect:
  assumes "claim S i d h = (r, h')"
  shows "h_leased h' = h_leased h" "r \<noteq> Panic"
    "h_claimed h' = (if r = Val () then add_claim i (h_claimed h) else h_claimed h)"
    "set (h_detached h') \<subseteq> insert i (set (h_detached h))"
proof -
  obtain b k where b: "(if d then driver_bound S i else ret False) h = (Val b, h\<lparr>h_world := k\<rparr>)"
    using driver_bound_effect [of S i h] by (cases d) (auto intro: that [of False "h_world h"])
  have "claim S i d h = (if b then
         matchR (on_sys (sys_detach S i))
           (\<lambda>_. bindR (mod_st (\<lambda>h. h\<lparr>h_detached := h_detached h @ [i]\<rparr>)) (\<lambda>_. claim_sys S i None))
           (\<lambda>e. if err_kind e = NotSupported \<or> err_kind e = NotFound then claim_sys S i None
                else if err_kind e = Access then claim_sys S i (Some e)
                else failE e)
       else claim_sys S i None) (h\<lparr>h_world := k\<rparr>)"
    unfolding claim_def bindR_cases [of _ _ h] b by simp
  with assms have "h_leased h' = h_leased h \<and> r \<noteq> Panic \<and>
     h_claimed h' = (if r = Val () then add_claim i (h_claimed h) else h_claimed h)
     \<and> set (h_detached h') \<subseteq> insert i (set (h_detached h))"
    by (auto simp: matchR_eq on_sys_eq bindR_eq_Val bindR_def dest: claim_sys_effect split: if_splits)
  then show "h_leased h' = h_leased h" "r \<noteq> Panic"
    "h_claimed h' = (if r = Val () then add_claim i (h_claimed h) else h_claimed h)"
    "set (h_detached h') \<subseteq> insert i (set (h_detached h))" by blast+
qed

lemma release_effect:
  assumes "release_interface S i h = (r, h')"
  shows "h_claimed h' = filter (\<lambda>j. j \<noteq> i) (h_claimed h)" "h_leased h' = h_leased h"
    "h_detached h' = remove1 i (h_detached h)" "r \<noteq> Panic"
  using assms by (auto simp: release_interface_def Let_def remove1_idem split: prod.splits if_splits)

lemma release_list:
  "fst (for_each is (\<lambda>j. ignoreR (release_interface S j)) h) = Val ()
   \<and> h_claimed (snd (for_each is (\<lambda>j. ignoreR (release_interface S j)) h)) = filter (\<lambda>j. j \<notin> set is) (h_claimed h)
   \<and> h_leased (snd (for_each is (\<lambda>j. ignoreR (release_interface S j)) h)) = h_leased h"
proof (induction "is" arbitrary: h)
  case (Cons i "is")
  obtain r h1 where r: "release_interface S i h = (r, h1)" by (cases "release_interface S i h")
  note e = release_effect [OF r]
  have "ignoreR (release_interface S i) h = (Val (), h1)" using r e by (simp add: ignoreR_simp)
  then have "for_each (i # is) (\<lambda>j. ignoreR (release_interface S j)) h = for_each is (\<lambda>j. ignoreR (release_interface S j)) h1"
    by (simp add: bindR_def)
  then show ?case using Cons.IH [of h1] e by (auto intro!: filter_cong)
qed simp

lemma claim_all_loop_effect:
  assumes "claim_all_loop S newly is h = (r, h')" "h_claimed h = base @ newly" "set newly \<inter> set base = {}"
  shows "r \<noteq> Panic \<and> h_leased h' = h_leased h \<and>
    (case r of Val _ \<Rightarrow> (\<exists>new. h_claimed h' = base @ new) \<and> set (h_claimed h') = set (h_claimed h) \<union> set is
     | _ \<Rightarrow> h_claimed h' = base)"
  using assms
proof (induction "is" arbitrary: newly h)
  case Nil
  then show ?case by auto
next
  case (Cons i "is")
  show ?case
  proof (cases "i \<in> set (h_claimed h)")
    case True
    with Cons.prems(1) have "claim_all_loop S newly is h = (r, h')"
      by (simp add: is_claimed_def bindR_def)
    from Cons.IH [OF this Cons.prems(2,3)] True show ?thesis by (auto split: out.splits)
  next
    case False
    obtain q h1 where q: "claim S i True h = (q, h1)" by (cases "claim S i True h")
    note e = claim_effect [OF q]
    have run: "claim_all_loop S newly (i # is) h = matchR (claim S i True)
         (\<lambda>_. claim_all_loop S (newly @ [i]) is)
         (\<lambda>e. bindR (for_each newly (\<lambda>j. ignoreR (release_interface S j))) (\<lambda>_. failE e)) h"
      using False by (simp add: is_claimed_def bindR_def)
    show ?thesis
    proof (cases q)
      case (Val u)
      have c1: "h_claimed h1 = base @ newly @ [i]" using e(3) Val False Cons.prems(2) by (simp add: add_claim_def)
      have "claim_all_loop S (newly @ [i]) is h1 = (r, h')"
        using Cons.prems(1) run q Val by (simp add: matchR_def)
      from Cons.IH [OF this] c1 Cons.prems(2,3) False e(1) show ?thesis
        by (auto split: out.splits)
    next
      case (Fail err)
      have c1: "h_claimed h1 = base @ newly" using e(3) Fail Cons.prems(2) by simp
      from Cons.prems(1) run q Fail release_list [of newly S h1]
      have r: "r = Fail err" "h_claimed h' = filter (\<lambda>j. j \<notin> set newly) (base @ newly)" "h_leased h' = h_leased h1"
        by (auto simp: matchR_def bindR_def c1 split: prod.splits)
      moreover have "filter (\<lambda>j. j \<notin> set newly) base = base"
        using Cons.prems(3) by (auto simp: filter_id_conv)
      ultimately show ?thesis using e(1) by simp
    qed (use e(2) in simp)
  qed
qed

text \<open>All or nothing, as far as the claims go.\<close>

lemma claim_all_effect:
  assumes "claim_all_interfaces S d h = (r, h')"
  shows "r \<noteq> Panic \<and> h_leased h' = h_leased h \<and> (\<forall>e. r = Fail e \<longrightarrow> h_claimed h' = h_claimed h)
    \<and> (r = Val () \<longrightarrow> (\<exists>cfg. active_config d = Some (Ok cfg) \<and>
       set (h_claimed h') = set (h_claimed h) \<union> ig_number ` set (cfg_interfaces cfg)))"
proof -
  obtain q where q: "active_config d = Some q" using active_config_total [of d] by auto
  show ?thesis
  proof (cases q)
    case (Inl e)
    with assms q have "r = Fail e" "h' = h" by (simp_all add: claim_all_interfaces_def bindR_def)
    then show ?thesis by simp
  next
    case (Inr cfg)
    with assms q have "claim_all_loop S [] (map ig_number (cfg_interfaces cfg)) h = (r, h')"
      by (simp add: claim_all_interfaces_def bindR_def)
    from claim_all_loop_effect [OF this, of "h_claimed h"] q Inr show ?thesis
      by (cases r) simp_all
  qed
qed

section \<open>Class-helper claims\<close>

definition handle_wf :: "'k handle \<Rightarrow> bool" where
  "handle_wf h \<longleftrightarrow> distinct (h_claimed h) \<and> distinct (h_leased h)"

lemma fold_release:
  "h_claimed (fold (\<lambda>i h. snd (release_interface S i h)) is h) = filter (\<lambda>j. j \<notin> set is) (h_claimed h) \<and>
   h_leased (fold (\<lambda>i h. snd (release_interface S i h)) is h) = h_leased h"
proof (induction "is" arbitrary: h)
  case (Cons i "is")
  obtain r h1 where r: "release_interface S i h = (r, h1)" by (cases "release_interface S i h")
  then show ?case using Cons.IH [of h1] release_effect [OF r] by (auto intro!: filter_cong)
qed simp

lemma claim_drop_effect:
  "h_claimed (claim_drop S c h) = filter (\<lambda>j. j \<notin> set (hc_owned c)) (h_claimed h)"
  "h_leased (claim_drop S c h) = filter (\<lambda>j. j \<notin> set (hc_leased c)) (h_leased h)"
  by (simp_all add: claim_drop_def unlease_def fold_release)

lemma claim_wanted_mono:
  "claim_wanted S leased owned is h = (Val c, h') \<Longrightarrow> set owned \<subseteq> set (hc_owned c)"
proof (induction "is" arbitrary: owned h)
  case (Cons j js)
  then consider "claim_wanted S leased owned js h = (Val c, h')"
    | h1 where "claim_wanted S leased (owned @ [j]) js h1 = (Val c, h')"
    by (auto simp: is_claimed_def bindR_def matchR_def split: prod.splits out.splits if_splits)
  then show ?case using Cons.IH by cases fastforce+
qed auto

lemma claim_wanted_effect:
  assumes "claim_wanted S leased owned is h = (r, h')" "h_claimed h = base @ owned" "set owned \<inter> set base = {}"
    "h_leased h = lbase @ leased" "set leased \<inter> set lbase = {}"
  shows "(\<exists>c new. r = Val c \<and> hc_leased c = leased \<and> hc_owned c = new \<and> h_claimed h' = base @ new
      \<and> set new \<inter> set base = {} \<and> set is \<subseteq> set (h_claimed h') \<and> h_leased h' = lbase @ leased)
    \<or> (\<exists>e. r = Fail e \<and> h_claimed h' = base \<and> h_leased h' = lbase)"
  using assms
proof (induction "is" arbitrary: owned h)
  case Nil
  then show ?case by auto
next
  case (Cons i "is")
  show ?case
  proof (cases "i \<in> set (h_claimed h)")
    case True
    with Cons.prems(1) have "claim_wanted S leased owned is h = (r, h')"
      by (simp add: is_claimed_def bindR_def)
    note IH = Cons.IH [OF this Cons.prems(2-5)]
    have "i \<in> set base \<or> i \<in> set owned" using True Cons.prems(2) by auto
    moreover have "set owned \<subseteq> set (hc_owned c)" if "r = Val c" for c
      using claim_wanted_mono \<open>claim_wanted S leased owned is h = (r, h')\<close> that by blast
    ultimately show ?thesis using IH by fastforce
  next
    case False
    obtain q h1 where q: "claim S i True h = (q, h1)" by (cases "claim S i True h")
    note e = claim_effect [OF q]
    have run: "claim_wanted S leased owned (i # is) h = matchR (claim S i True)
         (\<lambda>_. claim_wanted S leased (owned @ [i]) is)
         (\<lambda>e. bindR (mod_st (claim_drop S \<lparr>hc_leased = leased, hc_owned = owned\<rparr>)) (\<lambda>_. failE e)) h"
      using False by (simp add: is_claimed_def claim_interface_detaching_def bindR_def)
    show ?thesis
    proof (cases q)
      case (Val u)
      have c1: "h_claimed h1 = base @ owned @ [i]" using e(3) Val False Cons.prems(2) by (simp add: add_claim_def)
      have nx: "claim_wanted S leased (owned @ [i]) is h1 = (r, h')"
        using Cons.prems(1) run q Val by (simp add: matchR_def)
      have "i \<in> set (hc_owned c)" if "r = Val c" for c
        using claim_wanted_mono [of S leased "owned @ [i]" "is" h1 c h'] nx that by auto
      moreover from Cons.IH [OF nx] c1 Cons.prems(2-5) False e(1)
      have "(\<exists>c new. r = Val c \<and> hc_leased c = leased \<and> hc_owned c = new \<and> h_claimed h' = base @ new
          \<and> set new \<inter> set base = {} \<and> set is \<subseteq> set (h_claimed h') \<and> h_leased h' = lbase @ leased)
        \<or> (\<exists>e. r = Fail e \<and> h_claimed h' = base \<and> h_leased h' = lbase)" by auto
      ultimately show ?thesis by auto
    next
      case (Fail err)
      have c1: "h_claimed h1 = base @ owned" using e(3) Fail Cons.prems(2) by simp
      have f1: "filter (\<lambda>j. j \<notin> set owned) base = base" using Cons.prems(3) by (auto simp: filter_id_conv)
      have f2: "filter (\<lambda>j. j \<notin> set leased) lbase = lbase" using Cons.prems(5) by (auto simp: filter_id_conv)
      from Cons.prems(1,4) run q Fail e(1) show ?thesis
        by (auto simp: matchR_def bindR_def claim_drop_effect c1 f1 f2)
    qed (use e(2) in simp)
  qed
qed

lemma claim_new_effect:
  assumes "claim_new S is h = (r, h')"
  shows "(\<exists>c. r = Val c \<and> set (h_leased h) \<inter> set is = {} \<and> h_leased h' = h_leased h @ remdups (sort is)
      \<and> h_claimed h' = h_claimed h @ hc_owned c \<and> set is \<subseteq> set (h_claimed h')
      \<and> h_claimed (claim_drop S c h') = h_claimed h \<and> h_leased (claim_drop S c h') = h_leased h)
    \<or> (\<exists>e. r = Fail e \<and> h_claimed h' = h_claimed h \<and> h_leased h' = h_leased h)"
proof (cases "\<exists>i \<in> set is. i \<in> set (h_leased h)")
  case True
  with assms have "r = Fail (error_new Busy)" "h' = h" by (auto simp: claim_new_def Let_def bindR_def lease_def)
  then show ?thesis by simp
next
  case False
  let ?w = "remdups (sort is)"
  define h1 where "h1 = h\<lparr>h_leased := h_leased h @ ?w\<rparr>"
  have run: "claim_wanted S ?w [] ?w h1 = (r, h')"
    using assms False by (auto simp: claim_new_def Let_def bindR_def lease_def h1_def)
  have disj: "set ?w \<inter> set (h_leased h) = {}" using False by auto
  from claim_wanted_effect [OF run, of "h_claimed h" "h_leased h"] disj
  consider c where "r = Val c" "hc_leased c = ?w" "h_claimed h' = h_claimed h @ hc_owned c"
      "set (hc_owned c) \<inter> set (h_claimed h) = {}" "set ?w \<subseteq> set (h_claimed h')" "h_leased h' = h_leased h @ ?w"
    | e where "r = Fail e" "h_claimed h' = h_claimed h" "h_leased h' = h_leased h"
    by (auto simp: h1_def)
  then show ?thesis
  proof cases
    case 1
    have "filter (\<lambda>j. j \<notin> set (hc_owned c)) (h_claimed h) = h_claimed h"
      using 1(4) by (auto simp: filter_id_conv)
    moreover have "filter (\<lambda>j. j \<notin> set is) (h_leased h) = h_leased h"
      using False by (auto simp: filter_id_conv)
    ultimately show ?thesis using 1 False by (auto simp: claim_drop_effect)
  qed simp
qed

section \<open>Transfers through a backend that respects the buffer\<close>

text \<open>
  What the synchronous methods rely on: the backend gives back a buffer of the size it was given and
  never reports more data than fits it. \<open>sync_read\<close> slices by the reported count, so this is what
  stands between it and a panic.
\<close>

definition sys_ok :: "'k sys \<Rightarrow> bool" where
  "sys_ok S \<longleftrightarrow> (\<forall>kind ep buf tmo k st n buf' k'.
     sys_transfer S kind ep buf tmo k = (Inr (st, n, buf'), k') \<longrightarrow> (kind = Control \<longrightarrow> 8 \<le> length buf) \<longrightarrow>
     length buf' = length buf \<and> n + (if kind = Control then 8 else 0) \<le> length buf)"

lemma submit_and_wait_cases:
  assumes "sys_ok S" "\<not> tr_in_flight t" "fst (submit_check t) = Val ()"
  obtains (fail) e h' where "submit_and_wait S t h = (Fail e, h')"
    | (finished) n t' h' where "submit_and_wait S t h = (Val (n, t'), h')" "\<not> tr_in_flight t'" "tr_kind t' = tr_kind t"
       "tr_actual t' = n" "length (tr_buffer t') = length (tr_buffer t)"
       "n + (if tr_kind t = Control then 8 else 0) \<le> length (tr_buffer t)"
proof -
  have st: "submit_check t = (Val (), t)" and control: "tr_kind t = Control \<longrightarrow> 8 \<le> length (tr_buffer t)"
    using assms(2,3) by (auto simp: submit_check_def when_idle_def split: if_splits)
  let ?t = "t\<lparr>tr_in_flight := True, tr_actual := 0\<rparr>"
  have su: "submit (\<lambda>_. Inr ()) t = (Val (), ?t)" by (simp add: submit_def bindR_def st Let_def)
  obtain q k where q: "sys_transfer S (tr_kind t) (tr_endpoint t) (tr_buffer t) (tr_timeout t) (h_world h) = (q, k)"
    by (cases "sys_transfer S (tr_kind t) (tr_endpoint t) (tr_buffer t) (tr_timeout t) (h_world h)")
  show ?thesis
  proof (cases q)
    case (Inl e)
    then show ?thesis using su q by (intro fail [of e]) (simp add: submit_and_wait_def)
  next
    case (Inr r)
    obtain s n buf where r: "r = (s, n, buf)" by (cases r)
    have ok: "length buf = length (tr_buffer t)" "n + (if tr_kind t = Control then 8 else 0) \<le> length (tr_buffer t)"
      using assms(1) q Inr r control unfolding sys_ok_def by blast+
    show ?thesis
    proof (cases "status_into_result s")
      case (Inl e)
      then show ?thesis using su q Inr r by (intro fail [of e]) (simp add: submit_and_wait_def publish_def Let_def)
    next
      case (Inr u)
      show ?thesis
        by (rule finished [of n "snd (snd (publish s n None (?t\<lparr>tr_buffer := buf\<rparr>)))" "h\<lparr>h_world := k\<rparr>"])
          (use su q \<open>q = Inr r\<close> Inr r ok in \<open>simp_all add: submit_and_wait_def publish_def Let_def\<close>)
    qed
  qed
qed

lemma sync_read_cases:
  fixes h :: "'k handle"
  assumes S: "sys_ok S" and k: "kind \<noteq> Control" "kind \<noteq> Isochronous"
  shows "(\<exists>e. fst (sync_read S kind ep buf tmo h) = Fail e) \<or>
    (\<exists>n d. fst (sync_read S kind ep buf tmo h) = Val (n, d @ drop n buf) \<and> length d = n \<and> n \<le> length buf)"
proof -
  define t :: "unit transfer" where "t = (transfer_new kind ep (replicate (length buf) 0))\<lparr>tr_timeout := tmo\<rparr>"
  have t: "\<not> tr_in_flight t" "fst (submit_check t) = Val ()" "tr_kind t = kind" "length (tr_buffer t) = length buf"
    using k by (simp_all add: t_def transfer_new_def submit_check_def when_idle_def)
  show ?thesis
  proof (cases "ep AND 0x80 = 0")
    case True
    then show ?thesis by (simp add: sync_read_def)
  next
    case False
    from S t(1,2) show ?thesis
    proof (cases rule: submit_and_wait_cases [of S t h])
      case (fail e h')
      then show ?thesis using False by (simp add: sync_read_def t_def [symmetric] bindR_def)
    next
      case (finished n t' h')
      have g: "get_data t' = (Val (take n (tr_buffer t')), t')"
        using get_data_bulk [of t'] finished k t by simp
      have n: "n \<le> length buf" using finished t by (auto split: if_splits)
      have lt: "length (tr_buffer t') = length buf" using finished(5) t(4) by simp
      have l: "length (take n (tr_buffer t')) = n" using n by (simp add: lt min_absorb2)
      have p: "put 0 (take n (tr_buffer t')) buf = Some (take n (tr_buffer t') @ drop n buf)"
        using n by (simp add: put_def lt min_absorb2)
      have "fst (sync_read S kind ep buf tmo h) = Val (n, take n (tr_buffer t') @ drop n buf)"
        using False finished(1) n by (simp add: sync_read_def t_def [symmetric] bindR_def g p lt min_absorb2)
      with l n show ?thesis by blast
    qed
  qed
qed

lemma control_transfer_cases:
  fixes h :: "'k handle"
  assumes S: "sys_ok S"
  shows "(\<exists>e. fst (control_transfer S su data tmo h) = Fail e) \<or>
    (\<exists>n d. fst (control_transfer S su data tmo h) = Val (n, d) \<and> n \<le> length data \<and> length d = length data
       \<and> drop n d = drop n data)"
proof -
  let ?len = "min (length data) 65535"
  define s where "s = su\<lparr>cs_length := (of_nat ?len :: u16)\<rparr>"
  define t :: "unit transfer" where "t = (transfer_control s (take ?len data))\<lparr>tr_timeout := tmo\<rparr>"
  have n: "unat (of_nat ?len :: u16) = ?len"
    by (simp only: unsigned_of_nat) (simp add: take_bit_eq_mod)
  have dir: "setup_direction s = setup_direction su" by (simp add: s_def setup_direction_def)
  have len: "length (tr_buffer t) = 8 + ?len"
    by (simp add: t_def transfer_control_def transfer_new_def s_def n)
  have t: "\<not> tr_in_flight t" "tr_kind t = Control" "fst (submit_check t) = Val ()"
    using len by (simp_all add: t_def transfer_control_def transfer_new_def submit_check_def when_idle_def)
  from S t(1,3) show ?thesis
  proof (cases rule: submit_and_wait_cases [of S t h])
    case (fail e h')
    then show ?thesis by (simp add: control_transfer_def Let_def s_def [symmetric] t_def [symmetric] bindR_def)
  next
    case (finished m t' h')
    have m: "m \<le> ?len" using finished t(2) len by (auto split: if_splits)
    have g: "get_data t' = (Val (take m (drop 8 (tr_buffer t'))), t')"
      using get_data_control [of t'] finished t(2) len by simp
    have lt: "length (tr_buffer t') = 8 + ?len" using finished(5) len by simp
    have l: "length (take m (drop 8 (tr_buffer t'))) = m" using m by (simp add: lt)
    have p: "put 0 (take m (drop 8 (tr_buffer t'))) data = Some (take m (drop 8 (tr_buffer t')) @ drop m data)"
      using m by (simp add: put_def lt)
    have "fst (control_transfer S su data tmo h) =
       Val (m, if setup_direction s = In then take m (drop 8 (tr_buffer t')) @ drop m data else data)"
      using finished(1) by (simp add: control_transfer_def Let_def s_def [symmetric] t_def [symmetric] bindR_def g p)
    with l m show ?thesis by auto
  qed
qed

lemma control_read_cases:
  assumes "sys_ok S"
  shows "(\<exists>e. fst (control_read S rt r v i buf tmo h) = Fail e) \<or>
    (\<exists>n d. fst (control_read S rt r v i buf tmo h) = Val (n, d) \<and> n \<le> length buf \<and> length d = length buf
       \<and> drop n d = drop n buf)"
  using control_transfer_cases [OF assms] by (simp add: control_read_def)

end
