(* ===== verification/Usb_Linux.thy ===== *)
theory Usb_Linux
  imports Usb_Handle "HOL-Library.Product_Lexorder"
begin

text \<open>
  The Linux backend of \<open>src/src/sys/linux/mod.rs\<close>: how a transfer is cut into usbfs URBs
  (\<open>Submission::build\<close>), how the kernel's answers are accounted for (\<open>finish_urb\<close>, \<open>cancel\<close>,
  \<open>expire\<close>, \<open>disconnect\<close>), the poll timeout of the event thread, the recognition of uevents and the
  reading of a sysfs entry. The kernel is an argument: which URBs it accepts, which ones a discard
  still finds pending, and what a reaped URB reports. An instant is a number of nanoseconds, a buffer
  address an offset in the transfer buffer.
\<close>

section \<open>Error numbers\<close>

definition errno_kind :: "int \<Rightarrow> error_kind" where
  "errno_kind code =
     (if code = 13 \<or> code = 1 then Access
      else if code = 2 then NotFound
      else if code = 19 \<or> code = 108 then NoDevice
      else if code = 16 then Busy
      else if code = 110 then Timeout
      else if code = 32 then Pipe
      else if code = 75 then Overflow
      else if code = 22 then InvalidParam
      else if code = 12 then NoMem
      else if code = 4 then Interrupted
      else if code = 38 \<or> code = 25 \<or> code = 95 then NotSupported
      else Io)"

definition os_error :: "int \<Rightarrow> usb_error" where
  "os_error errno = error_from_code (errno_kind errno) (of_int errno)"

text \<open>The status of a URB: \<open>None\<close> for one that was unlinked.\<close>

definition urb_status :: "int \<Rightarrow> transfer_status option" where
  "urb_status status = (let e = - status in
     if e = 0 then Some Completed
     else if e = 2 \<or> e = 104 then None
     else if e = 19 \<or> e = 108 then Some StNoDevice
     else if e = 32 then Some Stall
     else if e = 75 then Some StOverflow
     else if e = 62 \<or> e = 110 then Some TimedOut
     else Some StError)"

definition iso_status_of :: "int \<Rightarrow> transfer_status" where
  "iso_status_of status = (let e = - status in
     if e = 0 then Completed
     else if e = 2 \<or> e = 104 then Cancelled
     else if e = 19 \<or> e = 108 then StNoDevice
     else if e = 32 then Stall
     else if e = 75 then StOverflow
     else if e = 62 \<or> e = 110 then TimedOut
     else StError)"

lemma iso_status_urb: "iso_status_of s = (case urb_status s of Some t \<Rightarrow> t | None \<Rightarrow> Cancelled)"
  by (simp add: iso_status_of_def urb_status_def Let_def)

section \<open>Building the URBs of a transfer\<close>

abbreviation (input) MAX_BULK_BUFFER_LENGTH :: nat where "MAX_BULK_BUFFER_LENGTH \<equiv> 16384"
abbreviation (input) MAX_ISO_PACKETS_PER_URB :: nat where "MAX_ISO_PACKETS_PER_URB \<equiv> 128"
abbreviation (input) USIZE_MAX :: nat where "USIZE_MAX \<equiv> 18446744073709551615"

record urb =
  urb_type :: u8
  urb_endpoint :: u8
  urb_offset :: nat
  urb_length :: nat
  urb_flags :: u32
  urb_packets :: "u32 list"

record submission =
  sb_urbs :: "urb list"
  sb_reaped :: nat
  sb_actual :: nat
  sb_status :: "transfer_status option"
  sb_deadline :: "nat option"
  sb_timed_out :: bool
  sb_cancelled :: bool
  sb_discarded_from :: nat
  sb_iso_results :: "iso_packet list"
  sb_iso_offsets :: "nat list"

definition bulk_chunk :: "u32 \<Rightarrow> nat \<Rightarrow> nat" where
  "bulk_chunk caps buf_len = (if caps AND 0x08 \<noteq> 0 then max buf_len 1 else MAX_BULK_BUFFER_LENGTH)"

definition bulk_count :: "u32 \<Rightarrow> nat \<Rightarrow> nat" where
  "bulk_count caps buf_len = max (div_ceil buf_len (bulk_chunk caps buf_len)) 1"

definition bulk_urb :: "'c transfer \<Rightarrow> nat \<Rightarrow> nat \<Rightarrow> nat \<Rightarrow> urb" where
  "bulk_urb t chunk count i =
     (let offset = i * chunk;
          len = min (length (tr_buffer t) - offset) chunk;
          flags = (if i > 0 then 0x04 else 0)
            OR (if fl_short_not_ok (tr_flags t) then 0x01 else 0)
            OR (if fl_zero_packet (tr_flags t) \<and> i + 1 = count then 0x40 else 0)
      in \<lparr>urb_type = 3, urb_endpoint = tr_endpoint t, urb_offset = offset, urb_length = len,
          urb_flags = flags, urb_packets = []\<rparr>)"

text \<open>The isochronous loop: the packets in pieces of at most 128, each at the offset its
  predecessors reach.\<close>

fun iso_urbs :: "u8 \<Rightarrow> nat \<Rightarrow> iso_packet list list \<Rightarrow> urb list" where
  "iso_urbs ep offset [] = []"
| "iso_urbs ep offset (chunk # cs) =
     (let len = sum_list (map (\<lambda>p. unat (iso_length p)) chunk)
      in \<lparr>urb_type = 0, urb_endpoint = ep, urb_offset = offset, urb_length = len, urb_flags = 0x02,
          urb_packets = map iso_length chunk\<rparr> # iso_urbs ep (offset + len) cs)"

definition build_urbs :: "u32 \<Rightarrow> 'c transfer \<Rightarrow> urb list result" where
  "build_urbs caps t =
     (let buf_len = length (tr_buffer t);
          one = (\<lambda>ty flags. [\<lparr>urb_type = ty, urb_endpoint = tr_endpoint t, urb_offset = 0,
            urb_length = buf_len, urb_flags = flags, urb_packets = []\<rparr>])
      in case tr_kind t of
        Control \<Rightarrow> Ok (one 2 0)
      | Interrupt \<Rightarrow> Ok (one 1 ((if fl_zero_packet (tr_flags t) then 0x40 else 0)
            OR (if fl_short_not_ok (tr_flags t) then 0x01 else 0)))
      | Bulk \<Rightarrow>
          (let chunk = bulk_chunk caps buf_len; count = bulk_count caps buf_len
           in if count > 1 \<and> caps AND 0x02 = 0 then Err NotSupported
              else Ok (map (bulk_urb t chunk count) [0..<count]))
      | Isochronous \<Rightarrow> Ok (iso_urbs (tr_endpoint t) 0 (chunks MAX_ISO_PACKETS_PER_URB (tr_iso t))))"

definition build :: "u32 \<Rightarrow> 'c transfer \<Rightarrow> nat \<Rightarrow> submission result" where
  "build caps t now =
     (if length (tr_buffer t) > 2147483647 then Err InvalidParam
      else case build_urbs caps t of
        Inl e \<Rightarrow> Inl e
      | Inr urbs \<Rightarrow> Ok \<lparr>sb_urbs = urbs, sb_reaped = 0, sb_actual = 0, sb_status = None,
          sb_deadline = (if tr_timeout t = 0 then None else Some (now + tr_timeout t * 1000000)),
          sb_timed_out = False, sb_cancelled = False, sb_discarded_from = USIZE_MAX,
          sb_iso_results = (if tr_kind t = Isochronous
            then map (\<lambda>p. iso_packet_new (iso_length p)) (tr_iso t) else []),
          sb_iso_offsets = (if tr_kind t = Isochronous
            then map (\<lambda>ci. ci * MAX_ISO_PACKETS_PER_URB) [0..<length urbs] else [])\<rparr>)"

text \<open>The URBs lie end to end: each starts where the previous one ends.\<close>

fun laid_out :: "nat \<Rightarrow> urb list \<Rightarrow> nat \<Rightarrow> bool" where
  "laid_out from [] to \<longleftrightarrow> from = to"
| "laid_out from (u # us) to \<longleftrightarrow> urb_offset u = from \<and> laid_out (from + urb_length u) us to"

lemma laid_out_append: "laid_out a (us @ vs) c \<longleftrightarrow> (\<exists>b. laid_out a us b \<and> laid_out b vs c)"
  by (induction us arbitrary: a) auto

lemma laid_out_sum: "laid_out a us b \<Longrightarrow> b = a + sum_list (map urb_length us)"
  by (induction us arbitrary: a) fastforce+

lemma bulk_laid_out:
  assumes chunk: "0 < chunk" and k: "k * chunk < length (tr_buffer t) + chunk"
  shows "laid_out 0 (map (bulk_urb t chunk count) [0..<k]) (min (k * chunk) (length (tr_buffer t)))"
  using k
proof (induction k)
  case (Suc k)
  then have k: "k * chunk < length (tr_buffer t)" by simp
  with Suc.IH have "laid_out 0 (map (bulk_urb t chunk count) [0..<k]) (k * chunk)"
    by (simp add: min_def)
  moreover have "laid_out (k * chunk) [bulk_urb t chunk count k] (min (Suc k * chunk) (length (tr_buffer t)))"
    using k by (auto simp: bulk_urb_def Let_def min_def)
  ultimately show ?case using laid_out_append by fastforce
qed simp

lemma iso_laid_out:
  "laid_out off (iso_urbs ep off cs) (off + sum_list (map (\<lambda>p. unat (iso_length p)) (concat cs)))"
proof (induction cs arbitrary: off)
  case (Cons c cs)
  from Cons.IH [of "off + (\<Sum>p\<leftarrow>c. unat (iso_length p))"] show ?case by (simp add: Let_def add.assoc)
qed simp

lemma bulk_chunk_pos [simp]: "0 < bulk_chunk caps n"
  by (simp add: bulk_chunk_def max_def)

lemma bulk_count_bounds:
  "0 < n \<Longrightarrow> bulk_count caps n * bulk_chunk caps n < n + bulk_chunk caps n"
  "n \<le> bulk_count caps n * bulk_chunk caps n"
proof -
  have c: "0 < bulk_chunk caps n" by simp
  have le: "n \<le> div_ceil n (bulk_chunk caps n) * bulk_chunk caps n" by (rule div_ceil_mult_ge [OF c])
  also have "\<dots> \<le> bulk_count caps n * bulk_chunk caps n"
    unfolding bulk_count_def by (intro mult_le_mono1 max.cobounded1)
  finally show "n \<le> bulk_count caps n * bulk_chunk caps n" .
  show "bulk_count caps n * bulk_chunk caps n < n + bulk_chunk caps n" if "0 < n"
  proof -
    have "bulk_count caps n = div_ceil n (bulk_chunk caps n)"
      unfolding bulk_count_def using div_ceil_pos [OF c that] by (intro max_absorb1) linarith
    then show ?thesis using div_ceil_mult_less [OF c, of n] by simp
  qed
qed

text \<open>Every transfer the neutral layer lets through is covered exactly: for an isochronous one the
  bytes of its packets, otherwise the whole buffer.\<close>

lemma build_urbs_cover:
  assumes "build_urbs caps t = Ok us"
  shows "laid_out 0 us (if tr_kind t = Isochronous then iso_total t else length (tr_buffer t))"
proof (cases "tr_kind t")
  case Bulk
  let ?n = "length (tr_buffer t)" and ?c = "bulk_chunk caps (length (tr_buffer t))"
  have us: "us = map (bulk_urb t ?c (bulk_count caps ?n)) [0..<bulk_count caps ?n]"
    using assms Bulk by (simp add: build_urbs_def Let_def split: if_splits)
  show ?thesis
  proof (cases "?n = 0")
    case True
    then show ?thesis using Bulk by (simp add: us bulk_count_def div_ceil_def bulk_urb_def Let_def bulk_chunk_def)
  next
    case False
    then have "min (bulk_count caps ?n * ?c) ?n = ?n" using bulk_count_bounds(2) [of ?n caps] by simp
    with bulk_laid_out [of ?c "bulk_count caps ?n" t "bulk_count caps ?n"] False Bulk bulk_count_bounds(1) [of ?n caps]
    show ?thesis by (simp add: us)
  qed
next
  case Isochronous
  have "us = iso_urbs (tr_endpoint t) 0 (chunks 128 (tr_iso t))"
    using assms Isochronous by (simp add: build_urbs_def Let_def)
  with iso_laid_out [of 0 "tr_endpoint t" "chunks 128 (tr_iso t)"] Isochronous
  show ?thesis by (simp add: concat_chunks iso_total_def)
qed (use assms in \<open>auto simp: build_urbs_def Let_def\<close>)

lemma build_urbs_limits:
  assumes "build_urbs caps t = Ok us" "u \<in> set us"
  shows "length (urb_packets u) \<le> 128" "tr_kind t = Bulk \<Longrightarrow> caps AND 0x08 = 0 \<Longrightarrow> urb_length u \<le> 16384"
    "urb_endpoint u = tr_endpoint t"
proof -
  have iso: "u \<in> set (iso_urbs ep off cs) \<Longrightarrow> \<forall>c \<in> set cs. length c \<le> 128 \<Longrightarrow>
      length (urb_packets u) \<le> 128 \<and> urb_endpoint u = ep" for ep off cs
    by (induction cs arbitrary: off) (auto simp: Let_def)
  have ch: "\<forall>c \<in> set (chunks 128 (tr_iso t)). length c \<le> 128" using chunks_bounds [of 128] by auto
  show "length (urb_packets u) \<le> 128" "tr_kind t = Bulk \<Longrightarrow> caps AND 0x08 = 0 \<Longrightarrow> urb_length u \<le> 16384"
    "urb_endpoint u = tr_endpoint t"
    using assms iso [OF _ ch]
    by (auto simp: build_urbs_def bulk_urb_def bulk_chunk_def Let_def split: transfer_type.splits if_splits)
qed

lemma build_urbs_nonempty:
  "build_urbs caps t = Ok us \<Longrightarrow> tr_kind t = Isochronous \<Longrightarrow> tr_iso t \<noteq> [] \<Longrightarrow> us \<noteq> []"
  "build_urbs caps t = Ok us \<Longrightarrow> tr_kind t \<noteq> Isochronous \<Longrightarrow> us \<noteq> []"
  by (auto simp: build_urbs_def Let_def chunks_step bulk_count_def split: transfer_type.splits if_splits)

section \<open>Handing URBs to the kernel and taking them back\<close>

text \<open>\<open>refuses i\<close> is the errno the kernel answers to the submission of URB \<open>i\<close>, if it refuses it; the
  loop stops at the first refusal. A refusal of the first URB fails the submission; a later one keeps
  the URBs already accepted and records the failure for the completion.\<close>

definition submit_urbs :: "(nat \<Rightarrow> int option) \<Rightarrow> submission \<Rightarrow> submission result" where
  "submit_urbs refuses sub =
     (case find (\<lambda>i. refuses i \<noteq> None) [0..<length (sb_urbs sub)] of
        None \<Rightarrow> Ok sub
      | Some i \<Rightarrow> if i = 0 then Inl (os_error (the (refuses i)))
          else Ok (sub\<lparr>sb_discarded_from := i, sb_urbs := take i (sb_urbs sub), sb_status := Some StError\<rparr>))"

text \<open>\<open>discard\<close>: how many URBs from index \<open>from\<close> on the kernel still had (\<open>still i\<close>).\<close>

definition discard :: "(nat \<Rightarrow> bool) \<Rightarrow> nat \<Rightarrow> submission \<Rightarrow> nat" where
  "discard still from sub = length (filter still [from..<length (sb_urbs sub)])"

definition cancel_sub :: "(nat \<Rightarrow> bool) \<Rightarrow> submission \<Rightarrow> submission" where
  "cancel_sub still sub = (if discard still 0 sub > 0 then sub\<lparr>sb_cancelled := True\<rparr> else sub)"

definition expire_sub :: "nat \<Rightarrow> (nat \<Rightarrow> bool) \<Rightarrow> submission \<Rightarrow> submission" where
  "expire_sub now still sub =
     (if sb_timed_out sub \<or> (case sb_deadline sub of None \<Rightarrow> True | Some d \<Rightarrow> d > now) then sub
      else (let sub = (if discard still 0 sub > 0 then sub\<lparr>sb_timed_out := True\<rparr> else sub)
            in sub\<lparr>sb_deadline := None\<rparr>))"

text \<open>What the kernel reports of a reaped URB: status, actual length and, for an isochronous one, the
  descriptor of each packet.\<close>

record urb_report =
  ur_status :: int
  ur_actual :: int
  ur_iso :: "(u32 \<times> u32 \<times> int) list"

fun store_iso :: "nat \<Rightarrow> (u32 \<times> u32 \<times> int) list \<Rightarrow> submission \<Rightarrow> submission option" where
  "store_iso at [] sub = Some sub"
| "store_iso at ((len, act, st) # ds) sub =
     (if at < length (sb_iso_results sub) then
        store_iso (at + 1) ds (sub\<lparr>
          sb_iso_results := (sb_iso_results sub)[at := \<lparr>iso_length = len, iso_actual = act, iso_status = iso_status_of st\<rparr>],
          sb_actual := sb_actual sub + unat act\<rparr>)
      else None)"

definition note_status :: "bool \<Rightarrow> int \<Rightarrow> submission \<Rightarrow> submission" where
  "note_status ours status sub =
     (case urb_status status of
        Some s \<Rightarrow> if status \<noteq> 0 \<and> \<not> ours \<and> sb_status sub = None then sub\<lparr>sb_status := Some s\<rparr> else sub
      | None \<Rightarrow> sub)"

text \<open>The critical section of \<open>finish_urb\<close>; \<open>None\<close> is an index out of range.\<close>

definition account :: "transfer_type \<Rightarrow> nat \<Rightarrow> urb_report \<Rightarrow> submission \<Rightarrow> submission option" where
  "account kind index r sub = (case idx (sb_urbs sub) index of
      None \<Rightarrow> None
    | Some urb \<Rightarrow>
        (let sub = sub\<lparr>sb_reaped := sb_reaped sub + 1\<rparr>;
             ours = index \<ge> sb_discarded_from sub \<or> sb_cancelled sub \<or> sb_timed_out sub
         in case (if kind = Isochronous then
                    (case idx (sb_iso_offsets sub) index of
                       None \<Rightarrow> None | Some base \<Rightarrow> store_iso base (ur_iso r) sub)
                  else Some (sub\<lparr>sb_actual := sb_actual sub + nat (max (ur_actual r) 0)\<rparr>)) of
              None \<Rightarrow> None
            | Some sub \<Rightarrow>
                (let sub = note_status ours (ur_status r) sub;
                     short = kind \<noteq> Isochronous \<and> ur_actual r < int (urb_length urb)
                 in Some (if (short \<or> ur_status r \<noteq> 0) \<and> index + 1 < length (sb_urbs sub)
                              \<and> sb_discarded_from sub > index + 1
                          then sub\<lparr>sb_discarded_from := index + 1\<rparr> else sub))))"

definition final_status :: "submission \<Rightarrow> transfer_status" where
  "final_status sub =
     (if sb_timed_out sub then TimedOut else if sb_cancelled sub then Cancelled
      else case sb_status sub of Some s \<Rightarrow> s | None \<Rightarrow> Completed)"

definition iso_report :: "transfer_type \<Rightarrow> submission \<Rightarrow> iso_packet list option" where
  "iso_report kind sub = (if kind = Isochronous then Some (sb_iso_results sub) else None)"

section \<open>The handle as a machine\<close>

text \<open>
  Transfers are named by numbers. \<open>lx_subs\<close> is each transfer's backend state, \<open>lx_pending\<close> the
  handle's map of the URBs the kernel owns, \<open>lx_log\<close> the calls of \<open>Inner::complete\<close> so far and
  \<open>lx_accepted\<close> the submissions that returned \<open>Ok\<close>.
\<close>

record lx =
  lx_subs :: "nat \<Rightarrow> (transfer_type \<times> submission) option"
  lx_pending :: "(nat \<times> nat) list"
  lx_disconnected :: bool
  lx_log :: "(nat \<times> transfer_status \<times> nat \<times> iso_packet list option) list"
  lx_accepted :: "nat list"

definition lx_init :: lx where
  "lx_init = \<lparr>lx_subs = (\<lambda>_. None), lx_pending = [], lx_disconnected = False, lx_log = [], lx_accepted = []\<rparr>"

definition lx_submit ::
  "u32 \<Rightarrow> nat \<Rightarrow> (nat \<Rightarrow> int option) \<Rightarrow> nat \<Rightarrow> 'c transfer \<Rightarrow> lx \<Rightarrow> unit result \<times> lx" where
  "lx_submit caps now refuses tid t m =
     (if lx_disconnected m then (Err NoDevice, m)
      else if lx_subs m tid \<noteq> None then (Err Busy, m)
      else case build caps t now of
        Inl e \<Rightarrow> (Inl e, m)
      | Inr sub \<Rightarrow> (case submit_urbs refuses sub of
          Inl e \<Rightarrow> (Inl e, m)
        | Inr sub \<Rightarrow> (Ok (), m\<lparr>lx_subs := (lx_subs m)(tid \<mapsto> (tr_kind t, sub)),
            lx_pending := map (Pair tid) [0..<length (sb_urbs sub)] @ lx_pending m,
            lx_accepted := tid # lx_accepted m\<rparr>)))"

definition lx_cancel :: "(nat \<Rightarrow> bool) \<Rightarrow> nat \<Rightarrow> lx \<Rightarrow> unit result \<times> lx" where
  "lx_cancel still tid m = (case lx_subs m tid of
      None \<Rightarrow> (Err NotFound, m)
    | Some (k, sub) \<Rightarrow> (Ok (), m\<lparr>lx_subs := (lx_subs m)(tid \<mapsto> (k, cancel_sub still sub))\<rparr>))"

definition lx_expire :: "nat \<Rightarrow> (nat \<Rightarrow> bool) \<Rightarrow> nat \<Rightarrow> lx \<Rightarrow> lx" where
  "lx_expire now still tid m = (case lx_subs m tid of
      None \<Rightarrow> m
    | Some (k, sub) \<Rightarrow> m\<lparr>lx_subs := (lx_subs m)(tid \<mapsto> (k, expire_sub now still sub))\<rparr>)"

text \<open>One turn of the loop of \<open>reap\<close>: the kernel hands back one URB it owned.\<close>

definition lx_reap :: "nat \<Rightarrow> nat \<Rightarrow> urb_report \<Rightarrow> lx \<Rightarrow> lx option" where
  "lx_reap tid index r m =
     (if (tid, index) \<notin> set (lx_pending m) then Some m
      else (let m = m\<lparr>lx_pending := remove1 (tid, index) (lx_pending m)\<rparr> in
        case lx_subs m tid of
          None \<Rightarrow> Some m
        | Some (k, sub) \<Rightarrow> (case account k index r sub of
            None \<Rightarrow> None
          | Some sub \<Rightarrow> Some
              (if sb_reaped sub = length (sb_urbs sub)
               then m\<lparr>lx_subs := (lx_subs m)(tid := None),
                      lx_log := (tid, final_status sub, sb_actual sub, iso_report k sub) # lx_log m\<rparr>
               else m\<lparr>lx_subs := (lx_subs m)(tid \<mapsto> (k, sub))\<rparr>))))"

text \<open>\<open>disconnect\<close>: every transfer with a pending URB is failed.\<close>

definition fail_transfer :: "nat \<Rightarrow> lx \<Rightarrow> lx" where
  "fail_transfer tid m = (case lx_subs m tid of
      None \<Rightarrow> m
    | Some (k, sub) \<Rightarrow> m\<lparr>lx_subs := (lx_subs m)(tid := None),
        lx_log := (tid, StNoDevice, sb_actual sub, iso_report k sub) # lx_log m\<rparr>)"

definition lx_disconnect :: "lx \<Rightarrow> lx" where
  "lx_disconnect m =
     fold fail_transfer (remdups (map fst (lx_pending m))) (m\<lparr>lx_disconnected := True, lx_pending := []\<rparr>)"

text \<open>\<open>next_deadline\<close> and the timeout it gives to \<open>poll\<close> (milliseconds, rounded up, at most a
  \<open>c_int\<close>; \<open>-1\<close> waits forever).\<close>

definition next_deadline :: "lx \<Rightarrow> nat option" where
  "next_deadline m =
     (case concat (map (\<lambda>tid. case lx_subs m tid of
          Some (k, sub) \<Rightarrow> (case sb_deadline sub of Some d \<Rightarrow> [d] | None \<Rightarrow> []) | None \<Rightarrow> [])
        (remdups (map fst (lx_pending m)))) of
        [] \<Rightarrow> None
      | d # ds \<Rightarrow> Some (fold min ds d))"

definition poll_timeout :: "nat option \<Rightarrow> nat \<Rightarrow> int" where
  "poll_timeout deadline now = (case deadline of
      Some d \<Rightarrow> int (min ((d - now) div 1000000 + 1) 2147483647)
    | None \<Rightarrow> -1)"

section \<open>Invariant of the machine\<close>

definition sub_wf :: "transfer_type \<Rightarrow> submission \<Rightarrow> bool" where
  "sub_wf kind sub \<longleftrightarrow> kind = Isochronous \<longrightarrow>
     length (sb_urbs sub) \<le> length (sb_iso_offsets sub) \<and>
     (\<forall>i < length (sb_urbs sub).
        sb_iso_offsets sub ! i + length (urb_packets (sb_urbs sub ! i)) \<le> length (sb_iso_results sub))"

definition pending_of :: "nat \<Rightarrow> lx \<Rightarrow> nat list" where
  "pending_of tid m = map snd (filter (\<lambda>p. fst p = tid) (lx_pending m))"

definition sub_inv :: "transfer_type \<Rightarrow> submission \<Rightarrow> nat list \<Rightarrow> bool" where
  "sub_inv kind sub is \<longleftrightarrow> sub_wf kind sub \<and> distinct is \<and> is \<noteq> []
     \<and> (\<forall>i \<in> set is. i < length (sb_urbs sub)) \<and> sb_reaped sub + length is = length (sb_urbs sub)
     \<and> sb_actual sub + sum_list (map (\<lambda>i. urb_length (sb_urbs sub ! i)) is) \<le> sum_list (map urb_length (sb_urbs sub))"

definition live :: "nat \<Rightarrow> lx \<Rightarrow> nat" where
  "live tid m = (case lx_subs m tid of None \<Rightarrow> 0 | Some _ \<Rightarrow> 1)"

definition lx_inv :: "lx \<Rightarrow> bool" where
  "lx_inv m \<longleftrightarrow> (\<forall>tid. lx_subs m tid = None \<longrightarrow> pending_of tid m = [])
   \<and> (\<forall>tid k sub. lx_subs m tid = Some (k, sub) \<longrightarrow> sub_inv k sub (pending_of tid m))
   \<and> (\<forall>tid. count_list (lx_accepted m) tid = count_list (map fst (lx_log m)) tid + live tid m)"

text \<open>What the kernel may report of URB \<open>u\<close>: it keeps the number of packets and moves no more than
  the URB asks for.\<close>

definition report_ok :: "transfer_type \<Rightarrow> urb \<Rightarrow> urb_report \<Rightarrow> bool" where
  "report_ok kind u r \<longleftrightarrow> length (ur_iso r) = (if kind = Isochronous then length (urb_packets u) else 0)
     \<and> nat (ur_actual r) \<le> urb_length u
     \<and> (kind = Isochronous \<longrightarrow> sum_list (map (\<lambda>(l, a, s). unat a) (ur_iso r)) \<le> urb_length u)"

lemma store_iso_ok:
  "at + length ds \<le> length (sb_iso_results sub) \<Longrightarrow>
    \<exists>res. store_iso at ds sub = Some (sub\<lparr>sb_iso_results := res,
        sb_actual := sb_actual sub + sum_list (map (\<lambda>(l, a, s). unat a) ds)\<rparr>) \<and> length res = length (sb_iso_results sub)"
proof (induction ds arbitrary: "at" sub)
  case (Cons d ds)
  obtain l a s where d: "d = (l, a, s)" by (cases d)
  let ?sub = "sub\<lparr>sb_iso_results := (sb_iso_results sub)[at := \<lparr>iso_length = l, iso_actual = a, iso_status = iso_status_of s\<rparr>],
          sb_actual := sb_actual sub + unat a\<rparr>"
  from Cons.prems have "at + 1 + length ds \<le> length (sb_iso_results ?sub)" by simp
  from Cons.IH [OF this] Cons.prems show ?case by (auto simp: d add.assoc)
next
  case Nil
  then show ?case by (intro exI [of _ "sb_iso_results sub"]) simp
qed

lemma note_status_same:
  "sb_urbs (note_status o1 s sub) = sb_urbs sub" "sb_reaped (note_status o1 s sub) = sb_reaped sub"
  "sb_actual (note_status o1 s sub) = sb_actual sub" "sb_iso_offsets (note_status o1 s sub) = sb_iso_offsets sub"
  "sb_iso_results (note_status o1 s sub) = sb_iso_results sub"
  by (auto simp: note_status_def split: option.split)

lemma account_ok:
  assumes wf: "sub_wf k sub" and i: "i < length (sb_urbs sub)" and r: "report_ok k (sb_urbs sub ! i) r"
  shows "\<exists>sub'. account k i r sub = Some sub' \<and> sb_urbs sub' = sb_urbs sub \<and> sb_reaped sub' = sb_reaped sub + 1
    \<and> sb_actual sub' \<le> sb_actual sub + urb_length (sb_urbs sub ! i) \<and> sub_wf k sub'"
proof (cases "k = Isochronous")
  case True
  let ?sub = "sub\<lparr>sb_reaped := sb_reaped sub + 1\<rparr>"
  have b: "sb_iso_offsets sub ! i + length (ur_iso r) \<le> length (sb_iso_results ?sub)" "i < length (sb_iso_offsets sub)"
    using wf i r True by (auto simp: sub_wf_def report_ok_def)
  from store_iso_ok [OF b(1)] obtain res where
    "store_iso (sb_iso_offsets sub ! i) (ur_iso r) ?sub = Some (?sub\<lparr>sb_iso_results := res,
        sb_actual := sb_actual sub + sum_list (map (\<lambda>(l, a, s). unat a) (ur_iso r))\<rparr>)"
    "length res = length (sb_iso_results sub)" by auto
  then show ?thesis using wf i r b(2) True
    by (auto simp: account_def Let_def note_status_same sub_wf_def report_ok_def)
next
  case False
  then show ?thesis using i r
    by (auto simp: account_def Let_def note_status_same sub_wf_def report_ok_def max_def)
qed

section \<open>Every accepted submission completes exactly once\<close>

lemma pending_of_simps [simp]:
  "pending_of tid (m\<lparr>lx_subs := s\<rparr>) = pending_of tid m"
  "pending_of tid (m\<lparr>lx_log := l\<rparr>) = pending_of tid m"
  "pending_of tid (m\<lparr>lx_accepted := a\<rparr>) = pending_of tid m"
  "pending_of tid (m\<lparr>lx_disconnected := d\<rparr>) = pending_of tid m"
  by (simp_all add: pending_of_def)

lemma pending_of_add:
  "pending_of t (m\<lparr>lx_pending := map (Pair tid) is @ lx_pending m\<rparr>) =
     (if t = tid then is @ pending_of t m else pending_of t m)"
  by (auto simp: pending_of_def filter_map comp_def)

lemma filter_remove1_other: "\<not> P x \<Longrightarrow> filter P (remove1 x xs) = filter P xs"
  by (induction xs) auto

lemma map_filter_remove1:
  "map snd (filter (\<lambda>p. fst p = t) (remove1 (t, i) xs)) = remove1 i (map snd (filter (\<lambda>p. fst p = t) xs))"
  by (induction xs) auto

lemma pending_of_remove:
  "pending_of t (m\<lparr>lx_pending := remove1 (tid, i) (lx_pending m)\<rparr>) =
     (if t = tid then remove1 i (pending_of t m) else pending_of t m)"
  by (simp add: pending_of_def map_filter_remove1 filter_remove1_other)

lemma pending_of_mem: "i \<in> set (pending_of tid m) \<longleftrightarrow> (tid, i) \<in> set (lx_pending m)"
  by (force simp: pending_of_def)

lemma submit_urbs_Ok:
  assumes "submit_urbs refuses sub = Ok sub'"
  obtains "sub' = sub" | i where "0 < i" "i < length (sb_urbs sub)"
    "sub' = sub\<lparr>sb_discarded_from := i, sb_urbs := take i (sb_urbs sub), sb_status := Some StError\<rparr>"
proof (cases "find (\<lambda>i. refuses i \<noteq> None) [0..<length (sb_urbs sub)]")
  case None
  with assms have "sub' = sub" by (simp add: submit_urbs_def)
  then show ?thesis by (rule that(1))
next
  case (Some i)
  then have i: "i < length (sb_urbs sub)" by (auto simp: find_Some_iff)
  from Some assms have "0 < i"
    "sub' = sub\<lparr>sb_discarded_from := i, sb_urbs := take i (sb_urbs sub), sb_status := Some StError\<rparr>"
    by (auto simp: submit_urbs_def split: if_splits)
  with i show ?thesis by (intro that(2))
qed

lemma iso_urbs_packets:
  "i < length (iso_urbs ep off cs) \<Longrightarrow> length (iso_urbs ep off cs) = length cs \<and>
     length (urb_packets (iso_urbs ep off cs ! i)) = length (cs ! i)"
proof (induction cs arbitrary: i off)
  case (Cons c cs)
  show ?case
  proof (cases i)
    case 0
    then show ?thesis using Cons by (cases cs) (auto simp: Let_def)
  next
    case (Suc j)
    with Cons show ?thesis by (auto simp: Let_def)
  qed
qed simp

lemma length_iso_urbs: "length (iso_urbs ep off cs) = length cs"
  by (induction cs arbitrary: off) (simp_all add: Let_def)

lemma build_wf:
  assumes b: "build caps t now = Ok sub" and iso: "tr_kind t = Isochronous \<Longrightarrow> tr_iso t \<noteq> []"
  shows "sub_wf (tr_kind t) sub" "sb_urbs sub \<noteq> []" "sb_reaped sub = 0" "sb_actual sub = 0"
    "build_urbs caps t = Ok (sb_urbs sub)" "sb_timed_out sub = False" "sb_cancelled sub = False"
    "sb_status sub = None"
proof -
  obtain us where us: "build_urbs caps t = Ok us" "sb_urbs sub = us"
    and z: "sb_reaped sub = 0" "sb_actual sub = 0" "sb_timed_out sub = False" "sb_cancelled sub = False" "sb_status sub = None"
    and o: "tr_kind t = Isochronous \<Longrightarrow> sb_iso_offsets sub = map (\<lambda>ci. ci * 128) [0..<length us]
      \<and> length (sb_iso_results sub) = length (tr_iso t)"
    using b by (auto simp: build_def split: if_splits sum.splits)
  then show "sb_reaped sub = 0" "sb_actual sub = 0" "build_urbs caps t = Ok (sb_urbs sub)"
    "sb_timed_out sub = False" "sb_cancelled sub = False" "sb_status sub = None" by simp_all
  show "sb_urbs sub \<noteq> []" using build_urbs_nonempty [OF us(1)] iso us(2) by (cases "tr_kind t = Isochronous") auto
  show "sub_wf (tr_kind t) sub"
    unfolding sub_wf_def
  proof (intro impI conjI allI)
    assume k: "tr_kind t = Isochronous"
    then show "length (sb_urbs sub) \<le> length (sb_iso_offsets sub)" using o us by simp
    fix i assume i: "i < length (sb_urbs sub)"
    let ?cs = "chunks 128 (tr_iso t)"
    have eq: "us = iso_urbs (tr_endpoint t) 0 ?cs" using us(1) k by (simp add: build_urbs_def Let_def)
    then have ic: "i < length ?cs" using i us(2) by (simp add: length_iso_urbs)
    have "length (urb_packets (us ! i)) = length (?cs ! i)"
      using iso_urbs_packets [of i "tr_endpoint t" 0 ?cs] ic by (simp add: eq length_iso_urbs)
    also have "\<dots> = min 128 (length (tr_iso t) - i * 128)" using chunks_nth [of 128 i "tr_iso t"] ic by simp
    finally have p: "length (urb_packets (us ! i)) = min 128 (length (tr_iso t) - i * 128)" .
    have "?cs ! i \<noteq> []" using chunks_bounds [of 128 "?cs ! i" "tr_iso t"] nth_mem [OF ic] by simp
    then have "i * 128 < length (tr_iso t)" using chunks_nth [of 128 i "tr_iso t"] ic by simp
    then show "sb_iso_offsets sub ! i + length (urb_packets (sb_urbs sub ! i)) \<le> length (sb_iso_results sub)"
      using o [OF k] i us(2) p by simp
  qed
qed

lemma sum_all_indices: "sum_list (map (\<lambda>i. f (xs ! i)) [0..<length xs]) = sum_list (map f xs)"
proof -
  have "map (\<lambda>i. f (xs ! i)) [0..<length xs] = map f xs" by (rule nth_equalityI) simp_all
  then show ?thesis by simp
qed

lemma fresh_sub_inv:
  assumes "sub_wf k sub" "sb_urbs sub \<noteq> []" "sb_reaped sub = 0" "sb_actual sub = 0"
  shows "sub_inv k sub [0..<length (sb_urbs sub)]"
  using assms sum_all_indices [of urb_length "sb_urbs sub"] by (simp add: sub_inv_def)

lemma lx_submit_inv:
  assumes inv: "lx_inv m" and s: "lx_submit caps now refuses tid t m = (r, m')"
    and iso: "tr_kind t = Isochronous \<Longrightarrow> tr_iso t \<noteq> []"
  shows "lx_inv m'"
proof (cases "r = Ok ()")
  case False
  with s have "m' = m" by (auto simp: lx_submit_def split: if_splits sum.splits)
  with inv show ?thesis by simp
next
  case True
  have nd: "\<not> lx_disconnected m" and none: "lx_subs m tid = None"
    using s True by (cases "lx_disconnected m"; cases "lx_subs m tid"; simp add: lx_submit_def)+
  obtain sub0 where b: "build caps t now = Ok sub0"
    using s True nd none by (cases "build caps t now") (auto simp: lx_submit_def)
  obtain sub where su: "submit_urbs refuses sub0 = Ok sub"
    using s True nd none b by (cases "submit_urbs refuses sub0") (auto simp: lx_submit_def)
  have m': "m' = m\<lparr>lx_subs := (lx_subs m)(tid \<mapsto> (tr_kind t, sub)),
            lx_pending := map (Pair tid) [0..<length (sb_urbs sub)] @ lx_pending m,
            lx_accepted := tid # lx_accepted m\<rparr>"
    using s nd none b su by (simp add: lx_submit_def)
  note bw = build_wf [OF b iso]
  have sub: "sub_inv (tr_kind t) sub [0..<length (sb_urbs sub)]"
    using su
  proof (cases rule: submit_urbs_Ok)
    case 1
    then show ?thesis using fresh_sub_inv [OF bw(1-4)] by simp
  next
    case (2 i)
    have "sub_wf (tr_kind t) sub" using bw(1) 2 by (auto simp: sub_wf_def)
    moreover have "sb_urbs sub \<noteq> []" using 2 by (cases "sb_urbs sub0") auto
    ultimately show ?thesis by (rule fresh_sub_inv) (use bw(3,4) 2 in simp_all)
  qed
  have p0: "pending_of tid m = []" using inv none by (simp add: lx_inv_def)
  have po: "pending_of x m' = (if x = tid then [0..<length (sb_urbs sub)] else pending_of x m)" for x
    using pending_of_add [of x tid _ m] p0 by (simp add: m' pending_of_def)
  show ?thesis
    unfolding lx_inv_def
  proof (intro conjI allI impI)
    fix x
    have S: "lx_subs m' = (lx_subs m)(tid \<mapsto> (tr_kind t, sub))" and L: "lx_log m' = lx_log m"
      and A: "lx_accepted m' = tid # lx_accepted m" by (simp_all add: m')
    show "lx_subs m' x = None \<Longrightarrow> pending_of x m' = []"
      using inv by (cases "x = tid") (auto simp: po S lx_inv_def)
    show "sub_inv k sb (pending_of x m')" if "lx_subs m' x = Some (k, sb)" for k sb
      using inv sub that by (cases "x = tid") (auto simp: po S lx_inv_def)
    show "count_list (lx_accepted m') x = count_list (map fst (lx_log m')) x + live x m'"
      using inv none by (auto simp: S L A live_def lx_inv_def)
  qed
qed

lemma sub_inv_update:
  "sub_inv k sub is \<Longrightarrow> sub_inv k (cancel_sub still sub) is"
  "sub_inv k sub is \<Longrightarrow> sub_inv k (expire_sub now still sub) is"
  by (simp_all add: sub_inv_def cancel_sub_def expire_sub_def sub_wf_def Let_def)

lemma lx_cancel_inv: "lx_inv m \<Longrightarrow> lx_inv (snd (lx_cancel still tid m))"
  by (cases "lx_subs m tid") (auto simp: lx_inv_def lx_cancel_def live_def sub_inv_update split: if_splits)

lemma lx_expire_inv: "lx_inv m \<Longrightarrow> lx_inv (lx_expire now still tid m)"
  by (cases "lx_subs m tid") (auto simp: lx_inv_def lx_expire_def live_def sub_inv_update split: if_splits)

lemma sum_list_remove1:
  fixes f :: "'a \<Rightarrow> nat"
  shows "x \<in> set xs \<Longrightarrow> sum_list (map f xs) = f x + sum_list (map f (remove1 x xs))"
  by (induction xs) auto

lemma lx_reap_ok:
  assumes inv: "lx_inv m"
    and rep: "\<And>k sub. lx_subs m tid = Some (k, sub) \<Longrightarrow> report_ok k (sb_urbs sub ! i) r"
  shows "\<exists>m'. lx_reap tid i r m = Some m' \<and> lx_inv m'"
proof (cases "(tid, i) \<in> set (lx_pending m)")
  case False
  then show ?thesis using inv by (simp add: lx_reap_def)
next
  case True
  then have mem: "i \<in> set (pending_of tid m)" by (simp add: pending_of_mem)
  then obtain k sub where s: "lx_subs m tid = Some (k, sub)" and si: "sub_inv k sub (pending_of tid m)"
    using inv by (cases "lx_subs m tid") (auto simp: lx_inv_def)
  have wf: "sub_wf k sub" and il: "i < length (sb_urbs sub)" using si mem by (auto simp: sub_inv_def)
  from account_ok [OF wf il rep [OF s]] obtain sub' where a: "account k i r sub = Some sub'"
    "sb_urbs sub' = sb_urbs sub" "sb_reaped sub' = sb_reaped sub + 1"
    "sb_actual sub' \<le> sb_actual sub + urb_length (sb_urbs sub ! i)" "sub_wf k sub'" by blast
  let ?m1 = "m\<lparr>lx_pending := remove1 (tid, i) (lx_pending m)\<rparr>"
  let ?is = "remove1 i (pending_of tid m)"
  have d: "distinct (pending_of tid m)" using si by (simp add: sub_inv_def)
  have len: "length (pending_of tid m) = length ?is + 1" using mem
    using length_pos_if_in_set [OF mem] by (simp add: length_remove1)
  have po: "pending_of x (?m1\<lparr>lx_subs := s', lx_log := l'\<rparr>) = (if x = tid then ?is else pending_of x m)" for x s' l'
    using pending_of_remove [of x tid i m] by (simp add: pending_of_def)
  show ?thesis
  proof (cases "sb_reaped sub' = length (sb_urbs sub')")
    case fin: True
    have "sb_reaped sub + length (pending_of tid m) = length (sb_urbs sub)" using si by (simp add: sub_inv_def)
    moreover have "sb_reaped sub + 1 = length (sb_urbs sub)" using fin a(2,3) by simp
    ultimately have "length ?is = 0" using len by linarith
    then have "?is = []" by blast
    define m2 where "m2 = ?m1\<lparr>lx_subs := (lx_subs m)(tid := None),
                      lx_log := (tid, final_status sub', sb_actual sub', iso_report k sub') # lx_log m\<rparr>"
    have "lx_reap tid i r m = Some m2" using True s a fin by (simp add: lx_reap_def Let_def m2_def)
    moreover have "lx_inv m2"
      unfolding lx_inv_def
    proof (intro conjI allI impI)
      fix x
      have S: "lx_subs m2 = (lx_subs m)(tid := None)"
        and L: "map fst (lx_log m2) = tid # map fst (lx_log m)" and A: "lx_accepted m2 = lx_accepted m"
        by (simp_all add: m2_def)
      have P: "pending_of x m2 = (if x = tid then [] else pending_of x m)"
        unfolding m2_def po using \<open>?is = []\<close> by simp
      show "lx_subs m2 x = None \<Longrightarrow> pending_of x m2 = []" using inv by (auto simp: P S lx_inv_def)
      show "sub_inv q sb (pending_of x m2)" if "lx_subs m2 x = Some (q, sb)" for q sb
        using inv that by (auto simp: P S lx_inv_def split: if_splits)
      show "count_list (lx_accepted m2) x = count_list (map fst (lx_log m2)) x + live x m2"
        using inv s by (auto simp: S L A live_def lx_inv_def)
    qed
    ultimately show ?thesis by blast
  next
    case more: False
    define m2 where "m2 = ?m1\<lparr>lx_subs := (lx_subs m)(tid \<mapsto> (k, sub'))\<rparr>"
    have r: "lx_reap tid i r m = Some m2" using True s a more by (simp add: lx_reap_def Let_def m2_def)
    have "sb_reaped sub + length (pending_of tid m) = length (sb_urbs sub)"
      "\<forall>i \<in> set (pending_of tid m). i < length (sb_urbs sub)"
      "sb_actual sub + sum_list (map (\<lambda>i. urb_length (sb_urbs sub ! i)) (pending_of tid m)) \<le> sum_list (map urb_length (sb_urbs sub))"
      using si by (simp_all add: sub_inv_def)
    moreover have "?is \<noteq> []" using calculation(1) more len a(2,3) by (cases ?is) auto
    ultimately have "sub_inv k sub' ?is"
      using a len sum_list_remove1 [OF mem, of "\<lambda>i. urb_length (sb_urbs sub ! i)"] d
      by (auto simp: sub_inv_def dest: notin_set_remove1)
    have "lx_inv m2"
      unfolding lx_inv_def
    proof (intro conjI allI impI)
      fix x
      have S: "lx_subs m2 = (lx_subs m)(tid \<mapsto> (k, sub'))"
        and L: "lx_log m2 = lx_log m" and A: "lx_accepted m2 = lx_accepted m"
        by (simp_all add: m2_def)
      have P: "pending_of x m2 = (if x = tid then ?is else pending_of x m)"
        by (simp add: m2_def pending_of_def map_filter_remove1 filter_remove1_other)
      show "lx_subs m2 x = None \<Longrightarrow> pending_of x m2 = []" using inv by (auto simp: P S lx_inv_def split: if_splits)
      show "sub_inv q sb (pending_of x m2)" if "lx_subs m2 x = Some (q, sb)" for q sb
        using inv that \<open>sub_inv k sub' ?is\<close> by (auto simp: P S lx_inv_def split: if_splits)
      show "count_list (lx_accepted m2) x = count_list (map fst (lx_log m2)) x + live x m2"
        using inv s by (auto simp: S L A live_def lx_inv_def)
    qed
    with r show ?thesis by blast
  qed
qed

text \<open>What a reaped URB brings, and where it goes: into the transfer while other URBs of it are out, with the last
  one to the transfer's completion.\<close>

definition reported :: "transfer_type \<Rightarrow> urb_report \<Rightarrow> nat" where
  "reported k r = (if k = Isochronous then sum_list (map (\<lambda>(l, a, s). unat a) (ur_iso r)) else nat (ur_actual r))"

lemma store_iso_credit:
  "store_iso at ds sub = Some sub' \<Longrightarrow> sb_actual sub' = sb_actual sub + sum_list (map (\<lambda>(l, a, s). unat a) ds)"
  by (induction "at" ds sub rule: store_iso.induct) (auto split: if_splits)

lemma account_credit: "account k i r sub = Some sub' \<Longrightarrow> sb_actual sub' = sb_actual sub + reported k r"
  by (auto simp: account_def Let_def reported_def note_status_same max_def dest!: store_iso_credit split: option.splits if_splits)

lemma lx_reap_credit:
  assumes inv: "lx_inv m" and mem: "(tid, i) \<in> set (lx_pending m)" and s: "lx_subs m tid = Some (k, sub)"
    and rep: "report_ok k (sb_urbs sub ! i) r"
  obtains m' sub' where "lx_reap tid i r m = Some m'" "account k i r sub = Some sub'" "sb_urbs sub' = sb_urbs sub"
    "sb_actual sub' = sb_actual sub + reported k r" "sb_actual sub' \<le> sum_list (map urb_length (sb_urbs sub))"
    "if pending_of tid m = [i] then lx_subs m' tid = None \<and> lx_log m' = (tid, final_status sub', sb_actual sub', iso_report k sub') # lx_log m
     else lx_subs m' tid = Some (k, sub') \<and> lx_log m' = lx_log m"
proof -
  have si: "sub_inv k sub (pending_of tid m)" using inv s by (auto simp: lx_inv_def)
  have i: "i \<in> set (pending_of tid m)" using mem by (simp add: pending_of_mem)
  have wf: "sub_wf k sub" "i < length (sb_urbs sub)" using si i by (auto simp: sub_inv_def)
  from account_ok [OF wf rep] obtain sub' where a: "account k i r sub = Some sub'"
    "sb_urbs sub' = sb_urbs sub" "sb_reaped sub' = sb_reaped sub + 1" by blast
  have "urb_length (sb_urbs sub ! i) \<le> sum_list (map (\<lambda>i. urb_length (sb_urbs sub ! i)) (pending_of tid m))"
    using sum_list_remove1 [OF i, of "\<lambda>i. urb_length (sb_urbs sub ! i)"] by linarith
  moreover have "reported k r \<le> urb_length (sb_urbs sub ! i)" using rep by (simp add: reported_def report_ok_def)
  moreover have "sb_actual sub + sum_list (map (\<lambda>i. urb_length (sb_urbs sub ! i)) (pending_of tid m)) \<le> sum_list (map urb_length (sb_urbs sub))"
    using si by (simp add: sub_inv_def)
  ultimately have le: "sb_actual sub' \<le> sum_list (map urb_length (sb_urbs sub))" using account_credit [OF a(1)] by linarith
  have one: "pending_of tid m = [i] \<longleftrightarrow> sb_reaped sub' = length (sb_urbs sub')"
  proof -
    have n: "sb_reaped sub + length (pending_of tid m) = length (sb_urbs sub)" using si by (simp add: sub_inv_def)
    have "length (pending_of tid m) = 1 \<longleftrightarrow> pending_of tid m = [i]" using i by (auto simp: length_Suc_conv)
    with n show ?thesis by (simp add: a(2,3)) linarith
  qed
  show thesis
    using that [OF _ a(1,2) account_credit [OF a(1)] le, of "the (lx_reap tid i r m)"] mem s a(1) one by (simp add: lx_reap_def Let_def)
qed

text \<open>A disconnection completes each transfer with what it has moved so far.\<close>

lemma fold_fail_log:
  "distinct ts \<Longrightarrow> tid \<in> set ts \<Longrightarrow> lx_subs m tid = Some (k, sub) \<Longrightarrow>
     (tid, StNoDevice, sb_actual sub, iso_report k sub) \<in> set (lx_log (fold fail_transfer ts m))"
proof (induction ts arbitrary: m)
  case (Cons t ts)
  have keep: "x \<in> set (lx_log (fold fail_transfer ts m))" if "x \<in> set (lx_log m)" for x ts m
    using that by (induction ts arbitrary: m) (auto simp: fail_transfer_def split: option.splits)
  show ?case
  proof (cases "t = tid")
    case True
    then have "(tid, StNoDevice, sb_actual sub, iso_report k sub) \<in> set (lx_log (fail_transfer t m))"
      using Cons.prems(3) by (simp add: fail_transfer_def)
    from keep [OF this] show ?thesis by simp
  next
    case False
    then have "lx_subs (fail_transfer t m) tid = Some (k, sub)" using Cons.prems(3) by (simp add: fail_transfer_def split: option.split)
    then show ?thesis using Cons.IH Cons.prems(1,2) False by simp
  qed
qed simp

lemma lx_disconnect_log:
  assumes "lx_inv m" "lx_subs m tid = Some (k, sub)"
  shows "(tid, StNoDevice, sb_actual sub, iso_report k sub) \<in> set (lx_log (lx_disconnect m))"
    "sb_actual sub \<le> sum_list (map urb_length (sb_urbs sub))"
proof -
  have si: "sub_inv k sub (pending_of tid m)" using assms by (auto simp: lx_inv_def)
  then have "tid \<in> set (remdups (map fst (lx_pending m)))" by (auto simp: sub_inv_def pending_of_def filter_empty_conv)
  then show "(tid, StNoDevice, sb_actual sub, iso_report k sub) \<in> set (lx_log (lx_disconnect m))"
    using fold_fail_log [of "remdups (map fst (lx_pending m))" tid "m\<lparr>lx_disconnected := True, lx_pending := []\<rparr>" k sub] assms(2)
    by (simp add: lx_disconnect_def)
  show "sb_actual sub \<le> sum_list (map urb_length (sb_urbs sub))" using si by (simp add: sub_inv_def)
qed

text \<open>A submission starts with nothing moved.\<close>

lemma lx_submit_fresh:
  assumes "lx_submit caps now refuses tid t m = (Ok (), m')" "tr_kind t = Isochronous \<Longrightarrow> tr_iso t \<noteq> []"
  obtains sub where "lx_subs m' tid = Some (tr_kind t, sub)" "sb_actual sub = 0" "lx_log m' = lx_log m"
proof -
  obtain sub0 sub where b: "build caps t now = Ok sub0" "submit_urbs refuses sub0 = Ok sub"
    "m' = m\<lparr>lx_subs := (lx_subs m)(tid \<mapsto> (tr_kind t, sub)), lx_pending := map (Pair tid) [0..<length (sb_urbs sub)] @ lx_pending m,
      lx_accepted := tid # lx_accepted m\<rparr>"
    using assms(1) by (auto simp: lx_submit_def split: if_splits sum.splits)
  have "sb_actual sub = sb_actual sub0" using b(2) by (cases rule: submit_urbs_Ok) auto
  with build_wf(4) [OF b(1) assms(2)] b(3) show thesis by (intro that [of sub]) simp_all
qed

lemma count_list_remdups_mem: "distinct ts \<Longrightarrow> count_list ts x = (if x \<in> set ts then 1 else 0)"
  by (induction ts) auto

lemma fold_fail_transfer:
  assumes "distinct ts"
  shows "lx_pending (fold fail_transfer ts m) = lx_pending m \<and> lx_accepted (fold fail_transfer ts m) = lx_accepted m
    \<and> (\<forall>x. lx_subs (fold fail_transfer ts m) x = (if x \<in> set ts then None else lx_subs m x))
    \<and> (\<forall>x. count_list (map fst (lx_log (fold fail_transfer ts m))) x =
      count_list (map fst (lx_log m)) x + (if x \<in> set ts then live x m else 0))"
  using assms
proof (induction ts arbitrary: m)
  case (Cons tid ts)
  let ?m = "fail_transfer tid m"
  have eq: "lx_pending ?m = lx_pending m" "lx_accepted ?m = lx_accepted m"
    "\<And>x. lx_subs ?m x = (if x = tid then None else lx_subs m x)"
    "\<And>x. count_list (map fst (lx_log ?m)) x = count_list (map fst (lx_log m)) x + (if x = tid then live x m else 0)"
    "\<And>x. live x ?m = (if x = tid then 0 else live x m)"
    by (auto simp: fail_transfer_def live_def split: option.split)
  with Cons.IH [of ?m] Cons.prems show ?case by auto
qed simp

lemma lx_disconnect_inv:
  assumes inv: "lx_inv m"
  shows "lx_inv (lx_disconnect m)" "lx_pending (lx_disconnect m) = []" "lx_subs (lx_disconnect m) tid = None"
proof -
  let ?ts = "remdups (map fst (lx_pending m))"
  let ?m = "m\<lparr>lx_disconnected := True, lx_pending := []\<rparr>"
  have f: "lx_pending (lx_disconnect m) = []" "lx_accepted (lx_disconnect m) = lx_accepted m"
    "\<And>x. lx_subs (lx_disconnect m) x = (if x \<in> set ?ts then None else lx_subs m x)"
    "\<And>x. count_list (map fst (lx_log (lx_disconnect m))) x =
      count_list (map fst (lx_log m)) x + (if x \<in> set ?ts then live x m else 0)"
    using fold_fail_transfer [of ?ts ?m] by (simp_all add: lx_disconnect_def live_def)
  have mem: "lx_subs m x = None" if "x \<notin> set ?ts" for x
  proof (rule ccontr)
    assume "lx_subs m x \<noteq> None"
    then obtain k sub where "lx_subs m x = Some (k, sub)" by auto
    with inv have "pending_of x m \<noteq> []" by (auto simp: lx_inv_def sub_inv_def)
    with that show False by (auto simp: pending_of_def filter_empty_conv)
  qed
  have S: "lx_subs (lx_disconnect m) x = None" for x
    using mem [of x] f(3) [of x] by auto
  show "lx_subs (lx_disconnect m) tid = None" by (rule S)
  show P: "lx_pending (lx_disconnect m) = []" by (rule f(1))
  have C: "count_list (map fst (lx_log (lx_disconnect m))) x = count_list (map fst (lx_log m)) x + live x m" for x
    using f(4) [of x] mem [of x] by (auto simp: live_def)
  have A: "lx_accepted (lx_disconnect m) = lx_accepted m" by (rule f(2))
  show "lx_inv (lx_disconnect m)"
    using inv S P C A by (auto simp: lx_inv_def pending_of_def live_def)
qed

inductive lx_step :: "lx \<Rightarrow> lx \<Rightarrow> bool" where
  submit: "(tr_kind t = Isochronous \<Longrightarrow> tr_iso t \<noteq> []) \<Longrightarrow>
    lx_submit caps now refuses tid (t :: unit transfer) m = (r, m') \<Longrightarrow> lx_step m m'"
| cancel: "lx_cancel still tid m = (r, m') \<Longrightarrow> lx_step m m'"
| expire: "lx_step m (lx_expire now still tid m)"
| reap: "(\<And>k sub. lx_subs m tid = Some (k, sub) \<Longrightarrow> report_ok k (sb_urbs sub ! i) r) \<Longrightarrow>
    lx_reap tid i r m = Some m' \<Longrightarrow> lx_step m m'"
| gone: "lx_step m (lx_disconnect m)"

inductive_cases lx_stepE: "lx_step m m'"

inductive lx_reach :: "lx \<Rightarrow> bool" where
  start: "lx_reach lx_init"
| step: "lx_reach m \<Longrightarrow> lx_step m m' \<Longrightarrow> lx_reach m'"

lemma lx_init_inv: "lx_inv lx_init"
  by (simp add: lx_inv_def lx_init_def pending_of_def live_def)

lemma lx_step_inv:
  assumes "lx_step m m'" "lx_inv m"
  shows "lx_inv m'"
  using assms(1)
proof cases
  case (submit t caps now refuses tid r)
  then show ?thesis using lx_submit_inv [OF assms(2)] by blast
next
  case (cancel still tid r)
  then show ?thesis using lx_cancel_inv [OF assms(2), of still tid] by simp
next
  case (expire now still tid)
  then show ?thesis using lx_expire_inv [OF assms(2)] by simp
next
  case (reap tid i r)
  then show ?thesis using lx_reap_ok [OF assms(2), of tid i r] by auto
next
  case gone
  then show ?thesis using lx_disconnect_inv(1) [OF assms(2)] by simp
qed

lemma lx_reach_inv: "lx_reach m \<Longrightarrow> lx_inv m"
  by (induction rule: lx_reach.induct) (auto intro: lx_init_inv lx_step_inv)

lemma lx_inv_count: "lx_inv m \<Longrightarrow> count_list (lx_accepted m) tid = count_list (map fst (lx_log m)) tid + live tid m"
  by (simp add: lx_inv_def)

lemma lx_inv_drained: "lx_inv m \<Longrightarrow> lx_pending m = [] \<Longrightarrow> lx_subs m tid = None"
  by (cases "lx_subs m tid") (auto simp: lx_inv_def sub_inv_def pending_of_def)

text \<open>What the transfer's status is decided by: our own timeout, then our own cancellation, then the
  first failure among the URBs that were not discarded by us.\<close>

lemma store_iso_status: "store_iso n ds sb = Some sb' \<Longrightarrow> sb_status sb' = sb_status sb"
  by (induction n ds sb rule: store_iso.induct) (auto split: if_splits)

lemma account_status:
  assumes "account k i r sub = Some sub'"
  obtains sb where "sb_status sb = sb_status sub"
    "sb_status sub' = sb_status (note_status (i \<ge> sb_discarded_from sub \<or> sb_cancelled sub \<or> sb_timed_out sub) (ur_status r) sb)"
proof (cases "k = Isochronous")
  case True
  with assms obtain sb where "store_iso (sb_iso_offsets sub ! i) (ur_iso r) (sub\<lparr>sb_reaped := sb_reaped sub + 1\<rparr>) = Some sb"
    "sb_status sub' = sb_status (note_status (i \<ge> sb_discarded_from sub \<or> sb_cancelled sub \<or> sb_timed_out sub) (ur_status r) sb)"
    by (simp add: account_def Let_def case_option_eq) auto
  then show ?thesis by (intro that [of sb]) (auto dest: store_iso_status)
next
  case False
  with assms show ?thesis
    by (intro that [of "sub\<lparr>sb_reaped := sb_reaped sub + 1, sb_actual := sb_actual sub + nat (max (ur_actual r) 0)\<rparr>"])
      (auto simp: account_def Let_def case_option_eq)
qed

lemma account_keeps_status:
  assumes "account k i r sub = Some sub'" "sb_status sub = Some s"
  shows "sb_status sub' = Some s"
  using assms(1) by (rule account_status) (use assms(2) in \<open>simp add: note_status_def split: option.split\<close>)

lemma account_discarded_no_status:
  assumes "account k i r sub = Some sub'" "sb_status sub = None"
    "i \<ge> sb_discarded_from sub \<or> sb_cancelled sub \<or> sb_timed_out sub"
  shows "sb_status sub' = None"
  using assms(1) by (rule account_status) (use assms(2,3) in \<open>simp add: note_status_def split: option.split\<close>)

lemma account_first_failure:
  assumes "account k i r sub = Some sub'" "sb_status sub = None"
    "\<not> (i \<ge> sb_discarded_from sub \<or> sb_cancelled sub \<or> sb_timed_out sub)"
  shows "sb_status sub' = (if ur_status r = 0 then None else urb_status (ur_status r))"
  using assms(1) by (rule account_status) (use assms(2,3) in \<open>auto simp: note_status_def split: option.split\<close>)

section \<open>Timeouts\<close>

lemma poll_timeout_passes:
  assumes "d - now < 2147483646 * 1000000"
  shows "\<exists>ms. poll_timeout (Some d) now = int ms \<and> d < now + ms * 1000000"
proof -
  define q where "q = (d - now) div 1000000"
  have "q < 2147483646" using assms unfolding q_def by (simp add: less_mult_imp_div_less)
  then have p: "poll_timeout (Some d) now = int (q + 1)" by (simp add: poll_timeout_def q_def [symmetric])
  have "d - now < q * 1000000 + 1000000"
    using dividend_less_div_times [of 1000000 "d - now"] unfolding q_def by linarith
  then have "d < now + (q + 1) * 1000000" by (simp add: algebra_simps)
  with p show ?thesis by blast
qed

lemma next_deadline_le:
  assumes "lx_subs m tid = Some (k, sub)" "sb_deadline sub = Some d" "tid \<in> fst ` set (lx_pending m)"
  shows "\<exists>e. next_deadline m = Some e \<and> e \<le> d"
proof -
  define f where "f = (\<lambda>tid. case lx_subs m tid of
          Some (k, sub) \<Rightarrow> (case sb_deadline sub of Some d \<Rightarrow> [d] | None \<Rightarrow> []) | None \<Rightarrow> [])"
  define ds where "ds = concat (map f (remdups (map fst (lx_pending m))))"
  have "d \<in> set ds" using assms by (force simp: ds_def f_def)
  then obtain x xs where "ds = x # xs" by (cases ds) auto
  with \<open>d \<in> set ds\<close> fold_min_le [of xs x] show ?thesis
    by (auto simp: next_deadline_def ds_def [symmetric, unfolded f_def])
qed

lemma expire_not_yet: "sb_deadline sub = Some d \<Longrightarrow> now < d \<Longrightarrow> expire_sub now still sub = sub"
  by (simp add: expire_sub_def)

lemma expire_due:
  "sb_deadline sub = Some d \<Longrightarrow> d \<le> now \<Longrightarrow> \<not> sb_timed_out sub \<Longrightarrow>
     sb_deadline (expire_sub now still sub) = None
     \<and> (sb_timed_out (expire_sub now still sub) \<longleftrightarrow> discard still 0 sub > 0)"
  by (simp add: expire_sub_def Let_def)

section \<open>Recognising uevents\<close>

fun split_on :: "'a \<Rightarrow> 'a list \<Rightarrow> 'a list list" where
  "split_on c [] = [[]]"
| "split_on c (x # xs) = (if x = c then [] # split_on c xs
     else (case split_on c xs of [] \<Rightarrow> [[x]] | f # fs \<Rightarrow> (x # f) # fs))"

definition strip_prefix :: "'a list \<Rightarrow> 'a list \<Rightarrow> 'a list option" where
  "strip_prefix p xs = (if take (length p) xs = p then Some (drop (length p) xs) else None)"

definition ascii :: "string \<Rightarrow> bytes" where
  "ascii s = map of_char s"

definition uevent_field :: "bytes \<Rightarrow> bool \<times> bool \<times> bool \<Rightarrow> bool \<times> bool \<times> bool" where
  "uevent_field field = (\<lambda>(action, subsystem, devtype).
     case strip_prefix (ascii ''ACTION='') field of
       Some v \<Rightarrow> (v = ascii ''add'' \<or> v = ascii ''remove'', subsystem, devtype)
     | None \<Rightarrow> (case strip_prefix (ascii ''SUBSYSTEM='') field of
         Some v \<Rightarrow> (action, v = ascii ''usb'', devtype)
       | None \<Rightarrow> (case strip_prefix (ascii ''DEVTYPE='') field of
           Some v \<Rightarrow> (action, subsystem, v = ascii ''usb_device'')
         | None \<Rightarrow> (action, subsystem, devtype))))"

definition is_usb_device_uevent :: "bytes \<Rightarrow> bool" where
  "is_usb_device_uevent message =
     (case fold uevent_field (split_on 0 message) (False, False, False) of
        (action, subsystem, devtype) \<Rightarrow> action \<and> subsystem \<and> devtype)"

text \<open>\<open>drain_uevents\<close>: the answers of \<open>recvfrom\<close> until it would block. A message carries the sender's
  port id; an error its errno.\<close>

datatype recv = RecvMsg nat bytes | RecvErr int

fun drain_uevents :: "recv list \<Rightarrow> bool \<Rightarrow> bool" where
  "drain_uevents [] interesting = interesting"
| "drain_uevents (RecvErr e # rs) interesting =
     (if e = 4 then drain_uevents rs interesting else if e = 11 then interesting else True)"
| "drain_uevents (RecvMsg pid msg # rs) interesting =
     (if pid \<noteq> 0 then drain_uevents rs interesting
      else drain_uevents rs (interesting \<or> is_usb_device_uevent msg))"

text \<open>The specification: the last value of a key among the properties.\<close>

fun last_value :: "bytes \<Rightarrow> bytes list \<Rightarrow> bytes option \<Rightarrow> bytes option" where
  "last_value k [] v = v"
| "last_value k (f # fs) v = last_value k fs (case strip_prefix k f of Some w \<Rightarrow> Some w | None \<Rightarrow> v)"

lemma split_on_not_Nil [simp]: "split_on c xs \<noteq> []"
  by (induction xs) (auto split: list.split)

lemma split_on_field: "c \<notin> set f \<Longrightarrow> split_on c (f @ c # rest) = f # split_on c rest"
  by (induction f) auto

lemma split_on_fields:
  "\<forall>f \<in> set fs. c \<notin> set f \<Longrightarrow> split_on c (concat (map (\<lambda>f. f @ [c]) fs)) = fs @ [[]]"
  by (induction fs) (auto simp: split_on_field)

lemma keys_exclusive:
  "strip_prefix (ascii ''ACTION='') f = Some v \<Longrightarrow> strip_prefix (ascii ''SUBSYSTEM='') f = None \<and> strip_prefix (ascii ''DEVTYPE='') f = None"
  "strip_prefix (ascii ''SUBSYSTEM='') f = Some v \<Longrightarrow> strip_prefix (ascii ''ACTION='') f = None \<and> strip_prefix (ascii ''DEVTYPE='') f = None"
  "strip_prefix (ascii ''DEVTYPE='') f = Some v \<Longrightarrow> strip_prefix (ascii ''ACTION='') f = None \<and> strip_prefix (ascii ''SUBSYSTEM='') f = None"
  by (cases f; simp add: strip_prefix_def ascii_def split: if_splits)+

lemma fold_uevent:
  "fold uevent_field fs
     (case a of Some v \<Rightarrow> v \<in> {ascii ''add'', ascii ''remove''} | None \<Rightarrow> False, s = Some (ascii ''usb''), d = Some (ascii ''usb_device''))
   = (case last_value (ascii ''ACTION='') fs a of Some v \<Rightarrow> v \<in> {ascii ''add'', ascii ''remove''} | None \<Rightarrow> False,
      last_value (ascii ''SUBSYSTEM='') fs s = Some (ascii ''usb''),
      last_value (ascii ''DEVTYPE='') fs d = Some (ascii ''usb_device''))"
proof (induction fs arbitrary: a s d)
  case (Cons f fs)
  let ?A = "strip_prefix (ascii ''ACTION='') f" and ?S = "strip_prefix (ascii ''SUBSYSTEM='') f"
    and ?D = "strip_prefix (ascii ''DEVTYPE='') f"
  let ?a = "case ?A of Some w \<Rightarrow> Some w | None \<Rightarrow> a" and ?s = "case ?S of Some w \<Rightarrow> Some w | None \<Rightarrow> s"
    and ?d = "case ?D of Some w \<Rightarrow> Some w | None \<Rightarrow> d"
  have "uevent_field f
     (case a of Some v \<Rightarrow> v \<in> {ascii ''add'', ascii ''remove''} | None \<Rightarrow> False, s = Some (ascii ''usb''), d = Some (ascii ''usb_device''))
    = (case ?a of Some v \<Rightarrow> v \<in> {ascii ''add'', ascii ''remove''} | None \<Rightarrow> False, ?s = Some (ascii ''usb''), ?d = Some (ascii ''usb_device''))"
    by (cases ?A; cases ?S; cases ?D) (auto simp: uevent_field_def dest: keys_exclusive)
  with Cons.IH [of ?a ?s ?d] show ?case by simp
qed simp

lemma uevent_correct:
  assumes "\<forall>f \<in> set fs. 0 \<notin> set f"
  shows "is_usb_device_uevent (concat (map (\<lambda>f. f @ [0]) fs)) \<longleftrightarrow>
     last_value (ascii ''ACTION='') fs None \<in> {Some (ascii ''add''), Some (ascii ''remove'')}
     \<and> last_value (ascii ''SUBSYSTEM='') fs None = Some (ascii ''usb'')
     \<and> last_value (ascii ''DEVTYPE='') fs None = Some (ascii ''usb_device'')"
proof -
  have e: "fold uevent_field (fs @ [[]]) st = fold uevent_field fs st" for st
    by (cases "fold uevent_field fs st") (simp add: uevent_field_def strip_prefix_def ascii_def)
  show ?thesis
    using fold_uevent [of fs None None None] e [of "(False, False, False)"]
    by (auto simp: is_usb_device_uevent_def split_on_fields [OF assms] split: option.splits)
qed

section \<open>Reading a sysfs entry\<close>

text \<open>The attribute files are a function from names to contents; \<open>parse_tenths\<close> parses the speed as
  a float and scales it (\<open>f64\<close> arithmetic). Names and contents are ASCII.\<close>

record sysfs_entry =
  se_attr :: "string \<Rightarrow> string option"
  se_descriptors :: "bytes option"

definition is_space :: "char \<Rightarrow> bool" where
  "is_space c \<longleftrightarrow> of_char c \<in> {9, 10, 11, 12, 13, 32 :: nat}"

definition trim :: "string \<Rightarrow> string" where
  "trim s = rev (dropWhile is_space (rev (dropWhile is_space s)))"

definition digit_of :: "char \<Rightarrow> nat option" where
  "digit_of c = (let n = of_char c :: nat in if 48 \<le> n \<and> n \<le> 57 then Some (n - 48) else None)"

text \<open>\<open>str::parse\<close> at an unsigned type with maximum \<open>m\<close>.\<close>

fun parse_digits :: "nat \<Rightarrow> nat \<Rightarrow> string \<Rightarrow> nat option" where
  "parse_digits m acc [] = Some acc"
| "parse_digits m acc (c # cs) = (case digit_of c of
      None \<Rightarrow> None
    | Some d \<Rightarrow> if acc * 10 + d > m then None else parse_digits m (acc * 10 + d) cs)"

definition parse_unsigned :: "nat \<Rightarrow> string \<Rightarrow> nat option" where
  "parse_unsigned m s = (case s of
      [] \<Rightarrow> None
    | c # cs \<Rightarrow> if c = CHR ''+'' then (if cs = [] then None else parse_digits m 0 cs) else parse_digits m 0 s)"

definition split_once :: "'a \<Rightarrow> 'a list \<Rightarrow> ('a list \<times> 'a list) option" where
  "split_once c s = (if c \<in> set s then Some (takeWhile (\<lambda>x. x \<noteq> c) s, drop 1 (dropWhile (\<lambda>x. x \<noteq> c) s)) else None)"

definition port_chain :: "string \<Rightarrow> u8 list option" where
  "port_chain name =
     (if strip_prefix ''usb'' name \<noteq> None then Some []
      else case split_once (CHR ''-'') name of
        None \<Rightarrow> None
      | Some (_, ports) \<Rightarrow> map_option (map of_nat) (those (map (parse_unsigned 255) (split_on (CHR ''.'') ports))))"

definition digit_char :: "nat \<Rightarrow> char" where
  "digit_char d = char_of (48 + d)"

definition pad3 :: "u8 \<Rightarrow> string" where
  "pad3 b = (let n = unat b in [digit_char (n div 100), digit_char (n div 10 mod 10), digit_char (n mod 10)])"

record linux_location =
  ll_sysfs :: string
  ll_devnode :: string

text \<open>The \<open>descriptors\<close> file: the device descriptor, then every configuration.\<close>

definition sysfs_descriptors :: "bytes \<Rightarrow> (device_descriptor \<times> bytes list) option option" where
  "sysfs_descriptors descs = (case device_from_bytes descs of
      None \<Rightarrow> None
    | Some (Inl _) \<Rightarrow> Some None
    | Some (Inr dd) \<Rightarrow> do {
        rest \<leftarrow> slice descs 18 (length descs);
        configs \<leftarrow> split_config_descriptors rest;
        Some (Some (dd, configs)) })"

definition read_sysfs_device ::
  "(string \<Rightarrow> nat option) \<Rightarrow> string \<Rightarrow> string \<Rightarrow> sysfs_entry \<Rightarrow> linux_location device_info option option" where
  "read_sysfs_device parse_tenths name path e =
     (if CHR '':'' \<in> set name then Some None
      else case port_chain name of None \<Rightarrow> Some None | Some ports \<Rightarrow>
      (let read_num = (\<lambda>f. case se_attr e f of None \<Rightarrow> None | Some s \<Rightarrow> parse_unsigned 4294967295 (trim s)) in
      case read_num ''busnum'' of None \<Rightarrow> Some None | Some busnum \<Rightarrow>
      (case read_num ''devnum'' of None \<Rightarrow> Some None | Some devnum \<Rightarrow>
      (let bus = of_nat busnum; addr = of_nat devnum;
           sp = (case se_attr e ''speed'' of None \<Rightarrow> SpeedUnknown
             | Some s \<Rightarrow> (case parse_tenths (trim s) of None \<Rightarrow> SpeedUnknown | Some t \<Rightarrow> speed_from_tenths t)) in
      case se_descriptors e of None \<Rightarrow> Some None | Some descs \<Rightarrow>
      (case sysfs_descriptors descs of
         None \<Rightarrow> None
       | Some None \<Rightarrow> Some None
       | Some (Some (dd, configs)) \<Rightarrow>
         Some (Some \<lparr>di_bus_number = bus, di_address = addr, di_port_numbers = ports, di_speed = sp,
           di_descriptor = dd, di_configs = configs,
           di_active_config = map_option (\<lambda>s. case parse_unsigned 255 (trim s) of Some v \<Rightarrow> of_nat v | None \<Rightarrow> 0)
             (se_attr e ''bConfigurationValue''),
           di_location = \<lparr>ll_sysfs = path,
             ll_devnode = ''/dev/bus/usb/'' @ pad3 bus @ ''/'' @ pad3 addr\<rparr>\<rparr>))))))"

text \<open>\<open>enumerate\<close>: the readable entries, ordered by bus and address.\<close>

definition enumerate_sysfs ::
  "(string \<Rightarrow> nat option) \<Rightarrow> (string \<times> string \<times> sysfs_entry) list \<Rightarrow> linux_location device_info list option" where
  "enumerate_sysfs parse_tenths entries =
     map_option (\<lambda>infos. sort_key (\<lambda>d. (di_bus_number d, di_address d)) (concat (map (\<lambda>i. case i of Some d \<Rightarrow> [d] | None \<Rightarrow> []) infos)))
       (those (map (\<lambda>(name, path, e). read_sysfs_device parse_tenths name path e) entries))"

lemma device_from_bytes_Ok_length: "device_from_bytes b = Some (Ok d) \<Longrightarrow> 18 \<le> length b"
  by (auto simp: device_from_bytes_eq split: if_splits)

lemma sysfs_descriptors_total: "sysfs_descriptors b \<noteq> None"
proof -
  obtain r where r: "device_from_bytes b = Some r" using device_from_bytes_total [of b] by auto
  show ?thesis
  proof (cases r)
    case (Inr d)
    obtain cs where "split_config_descriptors (drop 18 b) = Some cs" using split_config_total by blast
    then show ?thesis using r Inr device_from_bytes_Ok_length [of b d] by (simp add: sysfs_descriptors_def)
  qed (use r in \<open>simp add: sysfs_descriptors_def\<close>)
qed

lemma read_sysfs_total: "read_sysfs_device pt name path e \<noteq> None"
  by (auto simp: read_sysfs_device_def Let_def sysfs_descriptors_total simp del: not_None_eq split: option.split)

lemma enumerate_sysfs_sorted:
  "enumerate_sysfs pt entries = Some ds \<Longrightarrow> sorted (map (\<lambda>d. (di_bus_number d, di_address d)) ds)"
  by (auto simp: enumerate_sysfs_def)

lemma those_total: "\<forall>x \<in> set xs. f x \<noteq> None \<Longrightarrow> those (map f xs) \<noteq> None"
  by (induction xs) auto

lemma enumerate_sysfs_total: "enumerate_sysfs pt entries \<noteq> None"
  using those_total [of entries "\<lambda>(name, path, e). read_sysfs_device pt name path e"]
  by (simp add: enumerate_sysfs_def read_sysfs_total case_prod_unfold del: not_None_eq)

section \<open>The serial number and the bound driver\<close>

text \<open>\<open>read_serial_number\<close> on the contents of the \<open>serial\<close> attribute.\<close>

definition read_serial_number :: "string option \<Rightarrow> string option" where
  "read_serial_number contents =
     map_option (\<lambda>s. if s \<noteq> [] \<and> last s = CHR 0x0A then butlast s else s) contents"

text \<open>\<open>kernel_driver_active\<close> on the answer of \<open>USBDEVFS_GETDRIVER\<close>: the driver name buffer, or an
  errno.\<close>

definition kernel_driver_active :: "int + bytes \<Rightarrow> bool result" where
  "kernel_driver_active answer = (case answer of
      Inr driver \<Rightarrow> Ok (takeWhile (\<lambda>b. b \<noteq> 0) driver \<noteq> ascii ''usbfs'')
    | Inl e \<Rightarrow> if e = 61 then Ok False else Inl (os_error e))"

definition driver_ioctl :: "int + unit \<Rightarrow> unit result" where
  "driver_ioctl answer = (case answer of
      Inr _ \<Rightarrow> Ok ()
    | Inl e \<Rightarrow> if e = 61 then Inl (error_from_code NotFound 61) else Inl (os_error e))"

end
