(* ===== verification/Linux_Events.thy ===== *)
theory Linux_Events
  imports Usb_Linux
begin

text \<open>
  The event thread of the Linux backend, \<open>event_loop\<close> in \<open>src/src/sys/linux/mod.rs\<close>: what one turn does
  with the answer of \<open>poll\<close>. A turn is shown to be a path of \<open>lx_step\<close> for every handle, so what
  \<open>Usb_Linux\<close> proves of such paths holds of the loop; and it serves deadlines, disconnections and
  hotplug messages. The operating system is an argument: the events \<open>poll\<close> reports, the URBs handed
  back, the messages on the netlink socket, the clock.
\<close>

section \<open>Servicing one handle\<close>

text \<open>\<open>reap\<close>: the answers of \<open>REAPURBNDELAY\<close>, ended by an error; at the end of the list there is no URB
  (EAGAIN).\<close>

datatype reap_answer = ReapUrb nat nat urb_report | ReapErr int

fun reap_all :: "reap_answer list \<Rightarrow> lx \<Rightarrow> lx option" where
  "reap_all [] m = Some m"
| "reap_all (ReapErr e # rs) m = (if e = 4 then reap_all rs m else if e = 11 then Some m else Some (lx_disconnect m))"
| "reap_all (ReapUrb tid i r # rs) m = (case lx_reap tid i r m of None \<Rightarrow> None | Some m \<Rightarrow> reap_all rs m)"

text \<open>\<open>pending_transfers\<close>, and what is done for each of them.\<close>

definition pending_transfers :: "lx \<Rightarrow> nat list" where
  "pending_transfers m = remdups (map fst (lx_pending m))"

definition expire_all :: "nat \<Rightarrow> (nat \<Rightarrow> nat \<Rightarrow> bool) \<Rightarrow> lx \<Rightarrow> lx" where
  "expire_all now still m = fold (\<lambda>tid. lx_expire now (still tid) tid) (pending_transfers m) m"

definition lx_cancel_all :: "(nat \<Rightarrow> nat \<Rightarrow> bool) \<Rightarrow> lx \<Rightarrow> lx" where
  "lx_cancel_all still m = fold (\<lambda>tid m. snd (lx_cancel (still tid) tid m)) (pending_transfers m) m"

abbreviation (input) POLLIN :: u16 where "POLLIN \<equiv> 0x01"
abbreviation (input) POLLOUT :: u16 where "POLLOUT \<equiv> 0x04"
abbreviation (input) POLLERR :: u16 where "POLLERR \<equiv> 0x08"
abbreviation (input) POLLHUP :: u16 where "POLLHUP \<equiv> 0x10"
abbreviation (input) POLLNVAL :: u16 where "POLLNVAL \<equiv> 0x20"

record service =
  sv_revents :: u16
  sv_answers :: "reap_answer list"
  sv_still :: "nat \<Rightarrow> nat \<Rightarrow> bool"

definition serve_handle :: "nat \<Rightarrow> service \<Rightarrow> lx \<Rightarrow> lx option" where
  "serve_handle now v m = (let re = sv_revents v in
     case (if re AND (POLLOUT OR POLLERR OR POLLHUP) \<noteq> 0 then reap_all (sv_answers v) m else Some m) of
       None \<Rightarrow> None
     | Some m \<Rightarrow> Some (expire_all now (sv_still v)
         (if re AND (POLLERR OR POLLHUP OR POLLNVAL) \<noteq> 0 then lx_disconnect m else m)))"

section \<open>One turn of the loop\<close>

text \<open>The handles still open, whether the netlink socket is watched, how often the hotplug callback was
  called, and whether the thread runs.\<close>

record event_thread =
  et_handles :: "lx list"
  et_watching :: bool
  et_notified :: nat
  et_running :: bool

text \<open>What a turn meets: whether the context exists at its beginning and after \<open>poll\<close>, whether \<open>poll\<close>
  failed, the events of the wake-up pipe and of the socket, the messages on the socket, the clock, and what
  happened to the handles, in the order they are polled.\<close>

record turn =
  tn_context :: bool
  tn_failed :: bool
  tn_context_after :: bool
  tn_wake :: u16
  tn_socket :: u16
  tn_messages :: "recv list"
  tn_now :: nat
  tn_services :: "nat \<Rightarrow> service"

definition polled :: "lx list \<Rightarrow> lx list" where
  "polled hs = filter (\<lambda>m. \<not> lx_disconnected m) hs"

text \<open>The timeout of \<open>poll\<close>: the nearest deadline of a polled handle.\<close>

definition turn_timeout :: "nat \<Rightarrow> lx list \<Rightarrow> int" where
  "turn_timeout now hs = poll_timeout (case List.map_filter next_deadline (polled hs) of
       [] \<Rightarrow> None
     | d # ds \<Rightarrow> Some (fold min ds d)) now"

fun serve_all :: "nat \<Rightarrow> (nat \<Rightarrow> service) \<Rightarrow> nat \<Rightarrow> lx list \<Rightarrow> lx list option" where
  "serve_all now f k [] = Some []"
| "serve_all now f k (m # ms) =
     (if lx_disconnected m then map_option (Cons m) (serve_all now f k ms)
      else case serve_handle now (f k) m of
        None \<Rightarrow> None
      | Some m' \<Rightarrow> map_option (Cons m') (serve_all now f (Suc k) ms))"

text \<open>The hotplug part: how often the callback is called, and whether the socket is still watched.\<close>

definition serve_socket :: "turn \<Rightarrow> event_thread \<Rightarrow> event_thread" where
  "serve_socket n t =
     (if et_watching t then
        (let re = tn_socket n;
             news = re AND POLLIN \<noteq> 0 \<and> drain_uevents (tn_messages n) False;
             stuck = re AND (POLLERR OR POLLHUP OR POLLNVAL) \<noteq> 0
         in t\<lparr>et_notified := et_notified t + (if news then 1 else 0) + (if stuck then 1 else 0),
              et_watching := \<not> (stuck \<and> tn_context_after n)\<rparr>)
      else t)"

text \<open>\<open>None\<close> is a panic of the thread.\<close>

definition event_turn :: "turn \<Rightarrow> event_thread \<Rightarrow> event_thread option" where
  "event_turn n t =
     (if \<not> tn_context n then Some (t\<lparr>et_running := False\<rparr>)
      else if tn_failed n then Some t
      else if tn_wake n AND (POLLHUP OR POLLERR OR POLLNVAL) \<noteq> 0 \<and> \<not> tn_context_after n
      then Some (t\<lparr>et_running := False\<rparr>)
      else map_option (\<lambda>hs. (serve_socket n t)\<lparr>et_handles := hs\<rparr>) (serve_all (tn_now n) (tn_services n) 0 (et_handles t)))"

section \<open>A turn is a path of the machine\<close>

text \<open>The kernel reports of a URB what it was asked.\<close>

fun answers_ok :: "reap_answer list \<Rightarrow> lx \<Rightarrow> bool" where
  "answers_ok [] m = True"
| "answers_ok (ReapErr e # rs) m = (e = 4 \<longrightarrow> answers_ok rs m)"
| "answers_ok (ReapUrb tid i r # rs) m =
     ((case lx_subs m tid of None \<Rightarrow> True | Some (k, sub) \<Rightarrow> report_ok k (sb_urbs sub ! i) r)
      \<and> (case lx_reap tid i r m of None \<Rightarrow> True | Some m' \<Rightarrow> answers_ok rs m'))"

lemma reap_all_path:
  "answers_ok rs m \<Longrightarrow> lx_inv m \<Longrightarrow> \<exists>m'. reap_all rs m = Some m' \<and> lx_step\<^sup>*\<^sup>* m m' \<and> lx_inv m'"
proof (induction rs m rule: reap_all.induct)
  case (1 m)
  then show ?case by auto
next
  case (2 e rs m)
  have "lx_step\<^sup>*\<^sup>* m (lx_disconnect m)" by (simp add: r_into_rtranclp lx_step.gone)
  then show ?case using 2 lx_disconnect_inv(1) [OF 2(3)] by auto
next
  case (3 tid i r rs m)
  have rep: "report_ok k (sb_urbs sub ! i) r" if "lx_subs m tid = Some (k, sub)" for k sub using 3(2) that by simp
  from lx_reap_ok [OF 3(3) rep] obtain m1 where m1: "lx_reap tid i r m = Some m1" "lx_inv m1" by blast
  have s: "lx_step m m1" using rep m1(1) by (rule lx_step.reap)
  have "answers_ok rs m1" using 3(2) m1(1) by simp
  then obtain m' where "reap_all rs m1 = Some m'" "lx_step\<^sup>*\<^sup>* m1 m'" "lx_inv m'" using 3(1) [OF m1(1) _ m1(2)] by blast
  then show ?case using m1(1) s converse_rtranclp_into_rtranclp [of lx_step m m1 m'] by auto
qed

lemma expire_fold_path: "lx_step\<^sup>*\<^sup>* m (fold (\<lambda>tid. lx_expire now (still tid) tid) ts m)"
proof (induction ts arbitrary: m)
  case (Cons tid ts)
  have "lx_step m (lx_expire now (still tid) tid m)" by (rule lx_step.expire)
  then show ?case using Cons.IH [of "lx_expire now (still tid) tid m"] by (simp add: converse_rtranclp_into_rtranclp)
qed simp

lemma lx_cancel_all_path: "lx_step\<^sup>*\<^sup>* m (lx_cancel_all still m)"
proof -
  have "lx_step\<^sup>*\<^sup>* m (fold (\<lambda>tid m. snd (lx_cancel (still tid) tid m)) ts m)" for ts
  proof (induction ts arbitrary: m)
    case (Cons tid ts)
    have "lx_step m (snd (lx_cancel (still tid) tid m))" by (rule lx_step.cancel [OF prod.collapse [symmetric]])
    then show ?case using Cons.IH [of "snd (lx_cancel (still tid) tid m)"] by (simp add: converse_rtranclp_into_rtranclp)
  qed simp
  then show ?thesis by (simp add: lx_cancel_all_def)
qed

lemma steps_inv: "lx_step\<^sup>*\<^sup>* m m' \<Longrightarrow> lx_inv m \<Longrightarrow> lx_inv m'"
  by (induction rule: rtranclp_induct) (auto intro: lx_step_inv)

lemma serve_handle_path:
  assumes "lx_inv m" "answers_ok (sv_answers v) m"
  shows "\<exists>m'. serve_handle now v m = Some m' \<and> lx_step\<^sup>*\<^sup>* m m' \<and> lx_inv m'"
proof -
  obtain m1 where m1: "(if sv_revents v AND (POLLOUT OR POLLERR OR POLLHUP) \<noteq> 0 then reap_all (sv_answers v) m else Some m) = Some m1"
    "lx_step\<^sup>*\<^sup>* m m1"
  proof (cases "sv_revents v AND (POLLOUT OR POLLERR OR POLLHUP) \<noteq> 0")
    case True
    then show thesis using reap_all_path [OF assms(2,1)] that by auto
  next
    case False
    then show thesis using that [of m] by simp
  qed
  define m2 where "m2 = (if sv_revents v AND (POLLERR OR POLLHUP OR POLLNVAL) \<noteq> 0 then lx_disconnect m1 else m1)"
  have "lx_step\<^sup>*\<^sup>* m1 m2" by (simp add: m2_def r_into_rtranclp lx_step.gone)
  then have p: "lx_step\<^sup>*\<^sup>* m (expire_all now (sv_still v) m2)"
    using m1(2) expire_fold_path [of m2 now "sv_still v" "pending_transfers m2"] by (simp add: expire_all_def)
  have "serve_handle now v m = Some (expire_all now (sv_still v) m2)" using m1(1) by (simp add: serve_handle_def Let_def m2_def)
  then show ?thesis using p steps_inv [OF p assms(1)] by blast
qed


section \<open>What a turn achieves\<close>

text \<open>Deadlines: what is in flight after a pass at \<open>now\<close> was discarded or has a later deadline.\<close>

definition deadline_later :: "nat \<Rightarrow> nat \<Rightarrow> lx \<Rightarrow> bool" where
  "deadline_later now tid m \<longleftrightarrow> (\<forall>k sub d. lx_subs m tid = Some (k, sub) \<longrightarrow> sb_deadline sub = Some d \<longrightarrow> sb_timed_out sub \<or> now < d)"

lemma expire_sub_later: "sb_deadline (expire_sub now still sub) = Some d \<Longrightarrow> sb_timed_out (expire_sub now still sub) \<or> now < d"
  by (auto simp: expire_sub_def Let_def split: if_splits option.splits)

lemma expire_later: "deadline_later now tid (lx_expire now still tid m)" "deadline_later now tid m \<Longrightarrow> deadline_later now tid (lx_expire now still tid' m)"
proof -
  show a: "deadline_later now tid (lx_expire now still tid m)" for tid
    by (auto simp: deadline_later_def lx_expire_def expire_sub_later split: option.split)
  show "deadline_later now tid (lx_expire now still tid' m)" if "deadline_later now tid m"
    using that a [of tid] by (cases "tid' = tid") (auto simp: deadline_later_def lx_expire_def split: option.split)
qed

lemma expire_fold_later:
  assumes "tid \<in> set ts \<or> deadline_later now tid m"
  shows "deadline_later now tid (fold (\<lambda>tid. lx_expire now (still tid) tid) ts m)"
  using assms by (induction ts arbitrary: m) (auto intro: expire_later)

lemma expire_pending: "lx_pending (fold (\<lambda>tid. lx_expire now (still tid) tid) ts m) = lx_pending m"
  by (induction ts arbitrary: m) (auto simp: lx_expire_def split: option.split)

lemma expire_all_later:
  assumes "lx_inv m"
  shows "deadline_later now tid (expire_all now still m)"
proof (cases "lx_subs m tid")
  case None
  then show ?thesis unfolding expire_all_def by (intro expire_fold_later) (simp add: deadline_later_def)
next
  case (Some x)
  then have "pending_of tid m \<noteq> []" using assms by (cases x) (auto simp: lx_inv_def sub_inv_def)
  then have "tid \<in> set (pending_transfers m)" by (auto simp: pending_of_def pending_transfers_def filter_empty_conv)
  then show ?thesis unfolding expire_all_def by (intro expire_fold_later) simp
qed

lemma expire_disconnected:
  "lx_disconnected (fold (\<lambda>tid. lx_expire now (still tid) tid) ts m) = lx_disconnected m"
  by (induction ts arbitrary: m) (auto simp: lx_expire_def split: option.split)

lemma fail_fold_disconnected: "lx_disconnected (fold fail_transfer ts m) = lx_disconnected m"
  by (induction ts arbitrary: m) (auto simp: fail_transfer_def split: option.split)

text \<open>One pass over a handle: its deadlines are served, and after an error event nothing is out.\<close>

lemma serve_handle_serves:
  assumes "lx_inv m" "answers_ok (sv_answers v) m" "serve_handle now v m = Some m'"
  shows "deadline_later now tid m'"
    and "sv_revents v AND (POLLERR OR POLLHUP OR POLLNVAL) \<noteq> 0 \<Longrightarrow> lx_disconnected m' \<and> lx_pending m' = [] \<and> lx_subs m' tid = None"
proof -
  obtain m1 where m1: "(if sv_revents v AND (POLLOUT OR POLLERR OR POLLHUP) \<noteq> 0 then reap_all (sv_answers v) m else Some m) = Some m1"
    "m' = expire_all now (sv_still v) (if sv_revents v AND (POLLERR OR POLLHUP OR POLLNVAL) \<noteq> 0 then lx_disconnect m1 else m1)"
    using assms(3) by (auto simp: serve_handle_def Let_def split: option.splits)
  have i1: "lx_inv m1" using m1(1) reap_all_path [OF assms(2,1)] assms(1) by (auto split: if_splits)
  then have "lx_inv (if sv_revents v AND (POLLERR OR POLLHUP OR POLLNVAL) \<noteq> 0 then lx_disconnect m1 else m1)"
    using lx_disconnect_inv(1) by simp
  then show "deadline_later now tid m'" unfolding m1(2) by (rule expire_all_later)
  assume e: "sv_revents v AND (POLLERR OR POLLHUP OR POLLNVAL) \<noteq> 0"
  have "pending_transfers (lx_disconnect m1) = []" by (simp add: pending_transfers_def lx_disconnect_inv(2) [OF i1])
  then have "m' = lx_disconnect m1" using e m1(2) by (simp add: expire_all_def)
  then show "lx_disconnected m' \<and> lx_pending m' = [] \<and> lx_subs m' tid = None"
    using lx_disconnect_inv(2,3) [OF i1] by (simp add: lx_disconnect_def fail_fold_disconnected)
qed

text \<open>All handles: a turn acts on each handle by a path of its machine. \<open>k\<close> is the place of a handle among those polled.\<close>

fun answers_all :: "(nat \<Rightarrow> service) \<Rightarrow> nat \<Rightarrow> lx list \<Rightarrow> bool" where
  "answers_all f k [] = True"
| "answers_all f k (m # ms) = (if lx_disconnected m then answers_all f k ms
     else answers_ok (sv_answers (f k)) m \<and> answers_all f (Suc k) ms)"

definition served :: "nat \<Rightarrow> lx \<Rightarrow> lx \<Rightarrow> bool" where
  "served now m m' \<longleftrightarrow> lx_step\<^sup>*\<^sup>* m m' \<and> (lx_disconnected m \<longrightarrow> m' = m) \<and> (\<not> lx_disconnected m \<longrightarrow> (\<forall>tid. deadline_later now tid m'))"

lemma serve_all_path:
  "answers_all f k ms \<Longrightarrow> \<forall>m \<in> set ms. lx_inv m \<Longrightarrow> \<exists>ms'. serve_all now f k ms = Some ms' \<and> list_all2 (served now) ms ms'"
proof (induction ms arbitrary: k)
  case (Cons m ms)
  show ?case
  proof (cases "lx_disconnected m")
    case True
    then show ?thesis using Cons.IH [of k] Cons.prems by (auto simp: served_def)
  next
    case False
    then have a: "lx_inv m" "answers_ok (sv_answers (f k)) m" using Cons.prems by simp_all
    obtain m' where m': "serve_handle now (f k) m = Some m'" "lx_step\<^sup>*\<^sup>* m m'" using serve_handle_path [OF a] by blast
    have "served now m m'" using m' False serve_handle_serves(1) [OF a m'(1)] by (simp add: served_def)
    then show ?thesis using Cons.IH [of "Suc k"] Cons.prems False m'(1) by auto
  qed
qed simp

lemma list_all2_served_inv: "list_all2 (served now) ms ms' \<Longrightarrow> \<forall>m \<in> set ms. lx_inv m \<Longrightarrow> \<forall>m \<in> set ms'. lx_inv m"
  by (induction rule: list_all2_induct) (auto simp: served_def intro: steps_inv)

text \<open>Histories of the thread. Between turns the handles are opened and used: a new handle, or steps of one.\<close>

inductive thread_step :: "event_thread \<Rightarrow> event_thread \<Rightarrow> bool" where
  turn: "et_running t \<Longrightarrow> answers_all (tn_services n) 0 (et_handles t) \<Longrightarrow> event_turn n t = Some t' \<Longrightarrow> thread_step t t'"
| opened: "thread_step t (t\<lparr>et_handles := et_handles t @ [lx_init]\<rparr>)"
| used: "i < length (et_handles t) \<Longrightarrow> lx_step (et_handles t ! i) m \<Longrightarrow> thread_step t (t\<lparr>et_handles := (et_handles t)[i := m]\<rparr>)"
| dropped: "thread_step t (t\<lparr>et_handles := as @ bs\<rparr>)" if "et_handles t = as @ m # bs"
| watched: "thread_step t (t\<lparr>et_watching := True\<rparr>)"

definition thread_inv :: "event_thread \<Rightarrow> bool" where
  "thread_inv t \<longleftrightarrow> (\<forall>m \<in> set (et_handles t). lx_inv m)"

definition thread_new :: event_thread where
  "thread_new = \<lparr>et_handles = [], et_watching = False, et_notified = 0, et_running = True\<rparr>"

lemma serve_socket_handles [simp]: "et_handles (serve_socket n t) = et_handles t" "et_running (serve_socket n t) = et_running t"
  by (simp_all add: serve_socket_def Let_def)

lemma thread_step_inv:
  assumes "thread_step t t'" "thread_inv t"
  shows "thread_inv t'"
  using assms(1)
proof cases
  case (turn n)
  obtain ms where ms: "serve_all (tn_now n) (tn_services n) 0 (et_handles t) = Some ms" "list_all2 (served (tn_now n)) (et_handles t) ms"
    using serve_all_path [OF turn(2)] assms(2) by (auto simp: thread_inv_def)
  have "\<forall>m \<in> set ms. lx_inv m" using list_all2_served_inv [OF ms(2)] assms(2) by (simp add: thread_inv_def)
  then show ?thesis using turn(3) ms(1) assms(2) by (auto simp: event_turn_def thread_inv_def split: if_splits)
next
  case opened
  then show ?thesis using assms(2) lx_init_inv by (auto simp: thread_inv_def)
next
  case (used i m)
  have "lx_inv m" using used(2,3) assms(2) lx_step_inv by (auto simp: thread_inv_def)
  then show ?thesis using used(1) assms(2) by (auto simp: thread_inv_def dest: set_update_subset_insert [THEN subsetD])
next
  case (dropped as m bs)
  then show ?thesis using assms(2) by (auto simp: thread_inv_def)
next
  case watched
  then show ?thesis using assms(2) by (simp add: thread_inv_def)
qed

lemma thread_reach_inv:
  assumes "thread_step\<^sup>*\<^sup>* thread_new t"
  shows "thread_inv t"
  using assms
proof induction
  case base
  show ?case by (simp add: thread_inv_def thread_new_def)
qed (rule thread_step_inv)

text \<open>A turn never panics.\<close>

lemma turn_total:
  assumes "thread_inv t" "answers_all (tn_services n) 0 (et_handles t)"
  shows "\<exists>t'. event_turn n t = Some t'"
  using serve_all_path [OF assms(2)] assms(1) by (auto simp: event_turn_def thread_inv_def)

text \<open>Hotplug: a message about a USB device is passed on, whatever other messages are with it; so is the loss of messages.\<close>

lemma uevents_keep: "drain_uevents rs True"
proof (induction rs)
  case (Cons r rs)
  then show ?case by (cases r) auto
qed simp

lemma drain_news:
  assumes "is_usb_device_uevent msg" "\<forall>r \<in> set before. \<exists>p b. r = RecvMsg p b"
  shows "drain_uevents (before @ RecvMsg 0 msg # after) b"
  using assms(2)
proof (induction before arbitrary: b)
  case Nil
  then show ?case using assms(1) uevents_keep by simp
next
  case (Cons r before)
  then show ?case by (cases r) auto
qed

lemma socket_news:
  assumes "et_watching t" "tn_socket n AND POLLIN \<noteq> 0" "drain_uevents (tn_messages n) False"
  shows "et_notified (serve_socket n t) > et_notified t"
  using assms by (simp add: serve_socket_def Let_def)

lemma socket_stuck:
  assumes "et_watching t" "tn_socket n AND (POLLERR OR POLLHUP OR POLLNVAL) \<noteq> 0" "tn_context_after n"
  shows "et_notified (serve_socket n t) > et_notified t" "\<not> et_watching (serve_socket n t)"
  using assms by (simp_all add: serve_socket_def Let_def)

text \<open>The timeout is never later than the deadline of a transfer in flight on a polled handle.\<close>

lemma turn_timeout_in_time:
  assumes "m \<in> set hs" "\<not> lx_disconnected m" "lx_inv m" "lx_subs m tid = Some (k, sub)" "sb_deadline sub = Some d"
  shows "\<exists>ms e. turn_timeout now hs = int ms \<and> e \<le> d \<and> int ms = poll_timeout (Some e) now
    \<and> (d - now < 2147483646 * 1000000 \<longrightarrow> e < now + ms * 1000000)"
proof -
  have "pending_of tid m \<noteq> []" using assms(3,4) by (auto simp: lx_inv_def sub_inv_def)
  then have "tid \<in> fst ` set (lx_pending m)" by (force simp: pending_of_def filter_empty_conv)
  then obtain e where e: "next_deadline m = Some e" "e \<le> d" using next_deadline_le [OF assms(4,5)] by blast
  let ?ds = "List.map_filter next_deadline (polled hs)"
  have mem: "e \<in> set ?ds" using assms(1,2) e(1) by (force simp: List.map_filter_def polled_def)
  then obtain x xs where ds: "?ds = x # xs" by (cases ?ds) auto
  define low where "low = fold min xs x"
  have low: "low \<le> e" using mem ds fold_min_le [of xs x] by (auto simp: low_def)
  have "\<exists>ms. poll_timeout (Some low) now = int ms" unfolding poll_timeout_def option.case by (rule exI, rule refl)
  then obtain ms where ms: "poll_timeout (Some low) now = int ms" ..
  have "low < now + ms * 1000000" if "d - now < 2147483646 * 1000000"
  proof -
    have "low - now < 2147483646 * 1000000" using low e(2) that by linarith
    then obtain n where "poll_timeout (Some low) now = int n" "low < now + n * 1000000" using poll_timeout_passes by blast
    with ms show ?thesis by simp
  qed
  moreover have "turn_timeout now hs = poll_timeout (Some low) now" by (simp add: turn_timeout_def ds low_def)
  ultimately show ?thesis using low e(2) ms by (intro exI [of _ ms] exI [of _ low]) simp
qed

text \<open>What expiring does to a transfer whose deadline has passed: the deadline goes, and the transfer counts as timed
  out exactly when the kernel still had one of its URBs to discard.\<close>

lemma lx_expire_due:
  assumes "lx_subs m tid = Some (k, sub)" "sb_deadline sub = Some d" "d \<le> now" "\<not> sb_timed_out sub"
  shows "\<exists>sub'. lx_subs (lx_expire now still tid m) tid = Some (k, sub') \<and> sb_deadline sub' = None
    \<and> (sb_timed_out sub' \<longleftrightarrow> (\<exists>i < length (sb_urbs sub). still i)) \<and> sb_urbs sub' = sb_urbs sub \<and> sb_actual sub' = sb_actual sub"
proof -
  have "0 < discard still 0 sub \<longleftrightarrow> (\<exists>i < length (sb_urbs sub). still i)" by (auto simp: discard_def filter_empty_conv)
  then show ?thesis using assms by (auto simp: lx_expire_def expire_sub_def Let_def)
qed

end
