(* ===== verification/Linux_Usbfs.thy ===== *)
theory Linux_Usbfs
  imports Usb_Linux
begin

text \<open>
  The interface to the kernel in \<open>src/src/sys/linux/usbfs.rs\<close>: how a request number of \<open>ioctl\<close> is put
  together, the sizes of the structures passed with it, on 32-bit and 64-bit machines and on the
  architectures with the older encoding, and all request numbers. Also the memory of a URB
  (\<open>UrbBox\<close> in \<open>src/src/sys/linux/mod.rs\<close>), a header followed by the descriptors of its packets.
\<close>

section \<open>Request numbers\<close>

text \<open>What depends on the machine: the width of the size field, the codes of the directions, the size of a
  pointer.\<close>

record abi =
  ab_size_bits :: nat
  ab_none :: u32
  ab_read :: u32
  ab_write :: u32
  ab_pointer :: nat

definition abi_older :: "nat \<Rightarrow> abi" where
  "abi_older p = \<lparr>ab_size_bits = 13, ab_none = 1, ab_read = 2, ab_write = 4, ab_pointer = p\<rparr>"

definition abi_generic :: "nat \<Rightarrow> abi" where
  "abi_generic p = \<lparr>ab_size_bits = 14, ab_none = 0, ab_read = 2, ab_write = 1, ab_pointer = p\<rparr>"

definition ioc :: "abi \<Rightarrow> u32 \<Rightarrow> u8 \<Rightarrow> u8 \<Rightarrow> nat \<Rightarrow> u32" where
  "ioc A dir ty nr n = push_bit (8 + 8 + ab_size_bits A) dir OR push_bit 8 (ucast ty) OR push_bit 0 (ucast nr)
     OR push_bit (8 + 8) (of_nat n)"

section \<open>Structures\<close>

text \<open>A structure is the list of the sizes and alignments of its fields. \<open>repr(C)\<close> puts every field at the next
  multiple of its alignment and pads the end to the largest one.\<close>

type_synonym fields = "(nat \<times> nat) list"

fun field_end :: "nat \<Rightarrow> fields \<Rightarrow> nat" where
  "field_end at [] = at"
| "field_end at ((n, al) # fs) = field_end (div_ceil at al * al + n) fs"

definition struct_size :: "fields \<Rightarrow> nat" where
  "struct_size fs = (let al = fold max (map snd fs) 1 in div_ceil (field_end 0 fs) al * al)"

abbreviation (input) f8 :: "nat \<times> nat" where "f8 \<equiv> (1, 1)"
abbreviation (input) f16 :: "nat \<times> nat" where "f16 \<equiv> (2, 2)"
abbreviation (input) f32 :: "nat \<times> nat" where "f32 \<equiv> (4, 4)"
abbreviation (input) bytes_field :: "nat \<Rightarrow> nat \<times> nat" where "bytes_field n \<equiv> (n, 1)"
abbreviation (input) pointer_field :: "nat \<Rightarrow> nat \<times> nat" where "pointer_field p \<equiv> (p, p)"

definition MAXDRIVERNAME :: nat where "MAXDRIVERNAME = 255"

definition ctrltransfer :: "nat \<Rightarrow> fields" where
  "ctrltransfer p = [f8, f8, f16, f16, f16, f32, pointer_field p]"

definition bulktransfer :: "nat \<Rightarrow> fields" where
  "bulktransfer p = [f32, f32, f32, pointer_field p]"

definition setinterface :: fields where "setinterface = [f32, f32]"

definition disconnectsignal :: "nat \<Rightarrow> fields" where "disconnectsignal p = [f32, pointer_field p]"

definition getdriver :: fields where "getdriver = [f32, bytes_field (MAXDRIVERNAME + 1)]"

definition connectinfo :: fields where "connectinfo = [f32, f8]"

definition iso_packet_desc :: fields where "iso_packet_desc = [f32, f32, f32]"

definition urb_header :: "nat \<Rightarrow> fields" where
  "urb_header p = [f8, f8, f32, f32, pointer_field p, f32, f32, f32, f32, f32, f32, pointer_field p]"

definition ioctl_command :: "nat \<Rightarrow> fields" where "ioctl_command p = [f32, f32, pointer_field p]"

definition hub_portinfo :: fields where "hub_portinfo = [f8, bytes_field 127]"

definition disconnect_claim :: fields where "disconnect_claim = [f32, f32, bytes_field (MAXDRIVERNAME + 1)]"

definition streams :: fields where "streams = [f32, f32]"

section \<open>The requests\<close>

datatype usbfs_request =
    RqControl | RqBulk | RqResetEp | RqSetInterface | RqSetConfiguration | RqGetDriver | RqSubmitUrb
  | RqDiscardUrb | RqReapUrb | RqReapUrbNdelay | RqDiscSignal | RqClaimInterface | RqReleaseInterface
  | RqConnectInfo | RqIoctl | RqHubPortInfo | RqReset | RqClearHalt | RqDisconnect | RqConnect | RqClaimPort
  | RqReleasePort | RqGetCapabilities | RqDisconnectClaim | RqAllocStreams | RqFreeStreams | RqDropPrivileges
  | RqGetSpeed

text \<open>The direction of a request, its number, and what is passed with it.\<close>

datatype ioc_direction = DirNone | DirRead | DirWrite | DirBoth

fun request_shape :: "nat \<Rightarrow> usbfs_request \<Rightarrow> ioc_direction \<times> u8 \<times> fields" where
  "request_shape p RqControl = (DirBoth, 0, ctrltransfer p)"
| "request_shape p RqBulk = (DirBoth, 2, bulktransfer p)"
| "request_shape p RqResetEp = (DirRead, 3, [f32])"
| "request_shape p RqSetInterface = (DirRead, 4, setinterface)"
| "request_shape p RqSetConfiguration = (DirRead, 5, [f32])"
| "request_shape p RqGetDriver = (DirWrite, 8, getdriver)"
| "request_shape p RqSubmitUrb = (DirRead, 10, urb_header p)"
| "request_shape p RqDiscardUrb = (DirNone, 11, [])"
| "request_shape p RqReapUrb = (DirWrite, 12, [pointer_field p])"
| "request_shape p RqReapUrbNdelay = (DirWrite, 13, [pointer_field p])"
| "request_shape p RqDiscSignal = (DirRead, 14, disconnectsignal p)"
| "request_shape p RqClaimInterface = (DirRead, 15, [f32])"
| "request_shape p RqReleaseInterface = (DirRead, 16, [f32])"
| "request_shape p RqConnectInfo = (DirWrite, 17, connectinfo)"
| "request_shape p RqIoctl = (DirBoth, 18, ioctl_command p)"
| "request_shape p RqHubPortInfo = (DirRead, 19, hub_portinfo)"
| "request_shape p RqReset = (DirNone, 20, [])"
| "request_shape p RqClearHalt = (DirRead, 21, [f32])"
| "request_shape p RqDisconnect = (DirNone, 22, [])"
| "request_shape p RqConnect = (DirNone, 23, [])"
| "request_shape p RqClaimPort = (DirRead, 24, [f32])"
| "request_shape p RqReleasePort = (DirRead, 25, [f32])"
| "request_shape p RqGetCapabilities = (DirRead, 26, [f32])"
| "request_shape p RqDisconnectClaim = (DirRead, 27, disconnect_claim)"
| "request_shape p RqAllocStreams = (DirRead, 28, streams)"
| "request_shape p RqFreeStreams = (DirRead, 29, streams)"
| "request_shape p RqDropPrivileges = (DirWrite, 30, [f32])"
| "request_shape p RqGetSpeed = (DirNone, 31, [])"

definition direction_code :: "abi \<Rightarrow> ioc_direction \<Rightarrow> u32" where
  "direction_code A d = (case d of DirNone \<Rightarrow> ab_none A | DirRead \<Rightarrow> ab_read A | DirWrite \<Rightarrow> ab_write A
     | DirBoth \<Rightarrow> ab_read A OR ab_write A)"

definition request_number :: "abi \<Rightarrow> usbfs_request \<Rightarrow> u32" where
  "request_number A q = (case request_shape (ab_pointer A) q of (d, nr, fs) \<Rightarrow>
     ioc A (direction_code A d) 0x55 nr (struct_size fs))"

section \<open>What a number says\<close>

lemma ioc_fields:
  assumes "ab_size_bits A \<in> {13, 14}" "n < 2 ^ ab_size_bits A"
  shows "(ucast (ioc A dir ty nr n) :: u8) = nr" "(ucast (drop_bit 8 (ioc A dir ty nr n)) :: u8) = ty"
    "unat (take_bit (ab_size_bits A) (drop_bit 16 (ioc A dir ty nr n))) = n"
proof -
  have n: "bit n k \<Longrightarrow> k < ab_size_bits A" for k
    using assms(2) bit_take_bit_iff [of "ab_size_bits A" n k] by (simp add: take_bit_nat_eq_self)
  have hi: "\<not> bit nr (16 + k)" "\<not> bit ty (8 + k)" for k by (auto dest: bit_imp_le_length)
  show "(ucast (ioc A dir ty nr n) :: u8) = nr"
    using assms(1) by (intro bit_word_eqI) (auto simp: ioc_def bit_simps)
  show "(ucast (drop_bit 8 (ioc A dir ty nr n)) :: u8) = ty"
    using assms(1) by (intro bit_word_eqI) (auto simp: ioc_def bit_simps dest: bit_imp_le_length)
  have "take_bit (ab_size_bits A) (drop_bit 16 (ioc A dir ty nr n)) = of_nat n"
    using assms(1) hi by (intro bit_word_eqI) (auto simp: ioc_def bit_simps dest: n)
  moreover have "n < 2 ^ 32" using assms by (auto intro: less_le_trans)
  ultimately show "unat (take_bit (ab_size_bits A) (drop_bit 16 (ioc A dir ty nr n))) = n"
    by (simp add: unsigned_of_nat take_bit_nat_eq_self)
qed


fun number_of :: "usbfs_request \<Rightarrow> u8" where
  "number_of q = fst (snd (request_shape 8 q))"

lemma number_of_shape: "fst (snd (request_shape p q)) = number_of q"
  by (cases q) simp_all

lemma number_of_inj: "number_of a = number_of b \<Longrightarrow> a = b"
  by (cases a; cases b; simp)

definition known_abi :: "abi \<Rightarrow> bool" where
  "known_abi A \<longleftrightarrow> (\<exists>p \<in> {4, 8}. A = abi_older p \<or> A = abi_generic p)"

lemmas struct_defs = ctrltransfer_def bulktransfer_def setinterface_def disconnectsignal_def getdriver_def connectinfo_def
  iso_packet_desc_def urb_header_def ioctl_command_def hub_portinfo_def disconnect_claim_def streams_def MAXDRIVERNAME_def

lemma request_size_bound:
  assumes "p \<in> {4, 8}"
  shows "struct_size (snd (snd (request_shape p q))) \<le> 264"
  using assms by (cases q) (auto simp: struct_defs struct_size_def div_ceil_def)

lemma request_size_bits:
  assumes "known_abi A"
  shows "ab_size_bits A \<in> {13, 14}" "ab_pointer A \<in> {4, 8}"
    "struct_size (snd (snd (request_shape (ab_pointer A) q))) < 2 ^ ab_size_bits A"
proof -
  show a: "ab_size_bits A \<in> {13, 14}" "ab_pointer A \<in> {4, 8}"
    using assms by (auto simp: known_abi_def abi_older_def abi_generic_def)
  have "(264::nat) < 2 ^ ab_size_bits A" using a(1) by auto
  then show "struct_size (snd (snd (request_shape (ab_pointer A) q))) < 2 ^ ab_size_bits A"
    using request_size_bound [OF a(2), of q] by linarith
qed

text \<open>The kernel reads the number, the type and the size back; so no two requests are confused.\<close>

lemma request_number_fields:
  assumes "known_abi A"
  shows "(ucast (request_number A q) :: u8) = number_of q" "(ucast (drop_bit 8 (request_number A q)) :: u8) = 0x55"
    "unat (take_bit (ab_size_bits A) (drop_bit 16 (request_number A q))) = struct_size (snd (snd (request_shape (ab_pointer A) q)))"
proof -
  obtain d nr fs where s: "request_shape (ab_pointer A) q = (d, nr, fs)" by (cases "request_shape (ab_pointer A) q")
  have nr: "nr = number_of q" using number_of_shape [of "ab_pointer A" q] s by (simp del: number_of.simps)
  note f = ioc_fields [OF request_size_bits(1) [OF assms] request_size_bits(3) [OF assms, of q], unfolded s snd_conv, of "direction_code A d" "0x55" nr]
  show "(ucast (request_number A q) :: u8) = number_of q" "(ucast (drop_bit 8 (request_number A q)) :: u8) = 0x55"
    "unat (take_bit (ab_size_bits A) (drop_bit 16 (request_number A q))) = struct_size (snd (snd (request_shape (ab_pointer A) q)))"
    using f by (simp_all add: request_number_def s nr del: number_of.simps)
qed

lemma request_number_inj:
  assumes "known_abi A" "request_number A a = request_number A b"
  shows "a = b"
  using request_number_fields(1) [OF assms(1)] assms(2) number_of_inj by metis

text \<open>The numbers of the header on a 64-bit machine, those the code's test lists.\<close>

lemma request_numbers_64:
  "map (request_number (abi_generic 8)) [RqControl, RqBulk, RqSetInterface, RqSetConfiguration, RqGetDriver, RqSubmitUrb, RqDiscardUrb,
     RqReapUrbNdelay, RqClaimInterface, RqReleaseInterface, RqIoctl, RqReset, RqClearHalt, RqGetCapabilities, RqDisconnectClaim]
   = [0xC0185500, 0xC0185502, 0x80085504, 0x80045505, 0x41045508, 0x8038550A, 0x0000550B,
     0x4008550D, 0x8004550F, 0x80045510, 0xC0105512, 0x00005514, 0x80045515, 0x8004551A, 0x8108551B]"
  by (simp add: request_number_def ioc_def abi_generic_def direction_code_def struct_defs struct_size_def div_ceil_def push_bit_eq_mult)

section \<open>The memory of a URB\<close>

text \<open>\<open>UrbBox::new\<close>: how many 64-bit words; \<open>iso_desc\<close>: the offset of a packet descriptor.\<close>

definition urb_box_words :: "nat \<Rightarrow> nat \<Rightarrow> nat" where
  "urb_box_words p packets = div_ceil (struct_size (urb_header p) + packets * struct_size iso_packet_desc) 8"

definition iso_desc :: "nat \<Rightarrow> nat \<Rightarrow> nat" where
  "iso_desc p i = struct_size (urb_header p) + i * struct_size iso_packet_desc"

lemma struct_sizes: "struct_size (urb_header 8) = 56" "struct_size (urb_header 4) = 44" "struct_size iso_packet_desc = 12"
  by (simp_all add: struct_defs struct_size_def div_ceil_def)

text \<open>The descriptors start right after the header, lie in the box one after another, and are aligned.\<close>

lemma urb_box:
  assumes "p \<in> {4, 8}" "i < packets"
  shows "struct_size (urb_header p) \<le> iso_desc p i" "iso_desc p i + struct_size iso_packet_desc \<le> 8 * urb_box_words p packets"
    "iso_desc p i mod 4 = 0" "i < j \<Longrightarrow> iso_desc p i + struct_size iso_packet_desc \<le> iso_desc p j"
proof -
  show "struct_size (urb_header p) \<le> iso_desc p i" by (simp add: iso_desc_def)
  have "i * 12 + 12 \<le> packets * 12" using assms(2) by simp
  then have "iso_desc p i + 12 \<le> struct_size (urb_header p) + packets * 12" by (simp add: iso_desc_def struct_sizes)
  also have "\<dots> \<le> 8 * urb_box_words p packets"
    using div_ceil_mult_ge [of 8 "struct_size (urb_header p) + packets * 12"] by (simp add: urb_box_words_def struct_sizes mult.commute)
  finally show "iso_desc p i + struct_size iso_packet_desc \<le> 8 * urb_box_words p packets" by (simp add: struct_sizes)
  show "iso_desc p i mod 4 = 0" using assms(1) by (auto simp: iso_desc_def struct_sizes mod_eq_0_iff_dvd)
  show "iso_desc p i + struct_size iso_packet_desc \<le> iso_desc p j" if "i < j"
  proof -
    have "i * 12 + 12 \<le> j * 12" using that by simp
    then show ?thesis by (simp add: iso_desc_def struct_sizes)
  qed
qed

end
