(* ===== verification/Usb_Class.thy ===== *)
theory Usb_Class
  imports Usb_Handle
begin

text \<open>
  What the class helpers share on top of \<open>Claim\<close>: a helper leases and claims its interfaces, runs its
  own set-up, and keeps the claim for as long as it lives. \<open>open_with\<close> is that sequence, with the claim
  dropped when the set-up fails or unwinds. The locale \<open>class_helper\<close> is the contract between the claim
  and a helper: a set-up that leaves claims and leases alone gives an \<open>open\<close> that either holds the
  interfaces or has no effect on them.
\<close>

definition holding :: "'k sys \<Rightarrow> helper_claim \<Rightarrow> ('k handle, 'd) io \<Rightarrow> ('k handle, 'd) io" where
  "holding S c m h = (case m h of (Val d, h') \<Rightarrow> (Val d, h') | (r, h') \<Rightarrow> (r, claim_drop S c h'))"

definition open_with :: "'k sys \<Rightarrow> u8 list \<Rightarrow> (helper_claim \<Rightarrow> ('k handle, 'd) io) \<Rightarrow> ('k handle, 'd) io" where
  "open_with S interfaces start = bindR (claim_new S interfaces) (\<lambda>c. holding S c (start c))"

text \<open>\<open>open\<close> of the helpers: the first function that fits, a handle of its own, and \<open>open_interface\<close>; the
  handle is dropped when that fails. \<open>opn\<close> is \<open>Device::open\<close>.\<close>

definition open_first ::
  "'k sys \<Rightarrow> ('k, unit) sysop \<Rightarrow> 'i result option \<Rightarrow> ('i \<Rightarrow> ('k handle, 'd) io)
     \<Rightarrow> 'k \<Rightarrow> ('d \<times> 'k handle) out \<times> 'k" where
  "open_first S opn found cont k = (case found of
      None \<Rightarrow> (Panic, k)
    | Some (Inl e) \<Rightarrow> (Fail e, k)
    | Some (Inr i) \<Rightarrow> (case opn k of
        (Inl e, k) \<Rightarrow> (Fail e, k)
      | (Inr _, k) \<Rightarrow> (case cont i (handle_new k) of
          (Val d, h) \<Rightarrow> (Val (d, h), h_world h)
        | (Fail e, h) \<Rightarrow> (Fail e, handle_drop S h)
        | (Panic, h) \<Rightarrow> (Panic, handle_drop S h))))"

text \<open>\<open>into_iter().next().ok_or_else(..)?\<close>.\<close>

definition first_of :: "error_kind \<Rightarrow> 'i list result option \<Rightarrow> 'i result option" where
  "first_of e found = map_option (\<lambda>r. case r of Inl x \<Rightarrow> Inl x | Inr [] \<Rightarrow> Err e | Inr (i # _) \<Rightarrow> Ok i) found"

lemma out_of_eq [simp]:
  "out_of r = Val x \<longleftrightarrow> r = Inr x" "out_of r = Fail e \<longleftrightarrow> r = Inl e"
  "Val x = out_of r \<longleftrightarrow> r = Inr x" "Fail e = out_of r \<longleftrightarrow> r = Inl e"
  by (cases r; auto)+

section \<open>Operations that leave the claims alone\<close>

definition claims_kept :: "('k handle, 'a) io \<Rightarrow> bool" where
  "claims_kept m \<longleftrightarrow> (\<forall>h. h_claimed (snd (m h)) = h_claimed h \<and> h_leased (snd (m h)) = h_leased h)"

named_theorems kept \<open>operations that leave claims and leases alone\<close>

lemma claims_keptD: "claims_kept m \<Longrightarrow> m h = (r, h') \<Longrightarrow> h_claimed h' = h_claimed h \<and> h_leased h' = h_leased h"
  unfolding claims_kept_def by (metis snd_conv)

lemma kept_basic [kept]:
  "claims_kept (ret x)" "claims_kept (failE e)" "claims_kept (lift_opt o1)" "claims_kept (lift_res r)"
  "claims_kept (lift_panic p)" "claims_kept (get_st g)"
  by (cases o1; cases p; simp add: claims_kept_def)+

lemma kept_bindR [kept]:
  assumes "claims_kept m" "\<And>x. claims_kept (f x)"
  shows "claims_kept (bindR m f)"
  unfolding claims_kept_def
proof
  fix h
  obtain r h1 where m: "m h = (r, h1)" by (cases "m h")
  with assms(2) claims_keptD [OF assms(1) m]
  show "h_claimed (snd (bindR m f h)) = h_claimed h \<and> h_leased (snd (bindR m f h)) = h_leased h"
    by (cases r) (auto simp: bindR_def claims_kept_def)
qed

lemma kept_matchR [kept]:
  assumes "claims_kept m" "\<And>x. claims_kept (f x)" "\<And>e. claims_kept (g e)"
  shows "claims_kept (matchR m f g)"
  unfolding claims_kept_def
proof
  fix h
  obtain r h1 where m: "m h = (r, h1)" by (cases "m h")
  with assms(2,3) claims_keptD [OF assms(1) m]
  show "h_claimed (snd (matchR m f g h)) = h_claimed h \<and> h_leased (snd (matchR m f g h)) = h_leased h"
    by (cases r) (auto simp: matchR_def claims_kept_def)
qed

lemma kept_ignoreR [kept]: "claims_kept m \<Longrightarrow> claims_kept (ignoreR m)"
  unfolding ignoreR_def by (intro kept)

lemma kept_if [kept]: "(b \<Longrightarrow> claims_kept m) \<Longrightarrow> (\<not> b \<Longrightarrow> claims_kept n) \<Longrightarrow> claims_kept (if b then m else n)"
  by simp

lemma kept_case_prod [kept]: "(\<And>a b. p = (a, b) \<Longrightarrow> claims_kept (f a b)) \<Longrightarrow> claims_kept (case p of (a, b) \<Rightarrow> f a b)"
  by (cases p) simp

lemma kept_case_option [kept]:
  "claims_kept m \<Longrightarrow> (\<And>x. claims_kept (f x)) \<Longrightarrow> claims_kept (case r of None \<Rightarrow> m | Some x \<Rightarrow> f x)"
  by (cases r) simp_all

lemma kept_case_sum [kept]:
  "(\<And>e. claims_kept (g e)) \<Longrightarrow> (\<And>x. claims_kept (f x)) \<Longrightarrow> claims_kept (case r of Inl e \<Rightarrow> g e | Inr x \<Rightarrow> f x)"
  by (cases r) simp_all

lemma kept_let [kept]: "(\<And>x. claims_kept (f x)) \<Longrightarrow> claims_kept (let x = v in f x)"
  by simp

lemma kept_for_each [kept]: "(\<And>x. claims_kept (f x)) \<Longrightarrow> claims_kept (for_each xs f)"
  by (induction xs) (auto intro: kept)

lemma kept_on_sys [kept]: "claims_kept (on_sys f)"
  by (simp add: claims_kept_def on_sys_eq)

lemma kept_submit_and_wait [kept]: "claims_kept (submit_and_wait S t)"
  by (auto simp: claims_kept_def submit_and_wait_def Let_def split: out.split prod.split sum.split)

lemma kept_control_transfer [kept]: "claims_kept (control_transfer S su data t)"
  unfolding control_transfer_def Let_def
  by (intro kept) (simp split: prod.split out.split, intro conjI allI impI kept)

lemma kept_control_read [kept]: "claims_kept (control_read S rt r v i b t)"
  unfolding control_read_def by (intro kept)

lemma kept_control_write [kept]: "claims_kept (control_write S rt r v i b t)"
  unfolding control_write_def by (intro kept)

lemma kept_sync_read [kept]: "claims_kept (sync_read S k ep b t)"
  unfolding sync_read_def
  by (intro kept) (simp split: prod.split out.split, intro conjI allI impI kept)

lemma kept_sync_write [kept]: "claims_kept (sync_write S k ep b t)"
  unfolding sync_write_def by (intro kept)

lemma kept_set_alt [kept]: "claims_kept (set_alternate_setting S i a)" "claims_kept (clear_halt S ep)"
  unfolding set_alternate_setting_def clear_halt_def by (intro kept)+

section \<open>The contract\<close>

locale class_helper =
  fixes S :: "'k sys" and interfaces :: "u8 list" and start :: "helper_claim \<Rightarrow> ('k handle, 'd) io"
  assumes start_kept: "claims_kept (start c)"
begin

text \<open>A helper that could not be opened leaves no claim and no lease behind; one that was opened holds
  a claim on each of its interfaces, and had been the only one to lease them.\<close>

lemma open_effect:
  assumes "open_with S interfaces start h = (r, h')"
  shows "case r of
      Val d \<Rightarrow> set interfaces \<subseteq> set (h_claimed h') \<and> set (h_leased h) \<inter> set interfaces = {}
        \<and> h_leased h' = h_leased h @ remdups (sort interfaces)
    | _ \<Rightarrow> h_claimed h' = h_claimed h \<and> h_leased h' = h_leased h"
proof -
  obtain q h1 where q: "claim_new S interfaces h = (q, h1)" by (cases "claim_new S interfaces h")
  from claim_new_effect [OF q]
  consider c where "q = Val c" "set (h_leased h) \<inter> set interfaces = {}" "h_leased h1 = h_leased h @ remdups (sort interfaces)"
      "h_claimed h1 = h_claimed h @ hc_owned c" "set interfaces \<subseteq> set (h_claimed h1)"
      "h_claimed (claim_drop S c h1) = h_claimed h" "h_leased (claim_drop S c h1) = h_leased h"
    | e where "q = Fail e" "h_claimed h1 = h_claimed h" "h_leased h1 = h_leased h" by blast
  then show ?thesis
  proof cases
    case 1
    obtain d h2 where d: "start c h1 = (d, h2)" by (cases "start c h1")
    note k = claims_keptD [OF start_kept d]
    have "open_with S interfaces start h = holding S c (start c) h1" using q 1(1) by (simp add: open_with_def bindR_def)
    then have run: "holding S c (start c) h1 = (r, h')" using assms by simp
    show ?thesis
    proof (cases d)
      case (Val x)
      with run d k 1 show ?thesis by (auto simp: holding_def)
    qed (use run d k 1 in \<open>auto simp: holding_def claim_drop_effect\<close>)
  next
    case 2
    with assms q show ?thesis by (auto simp: open_with_def bindR_def)
  qed
qed

lemma open_ran:
  assumes "open_with S interfaces start h = (Val d, h')"
  obtains c h1 where "start c h1 = (Val d, h')"
proof -
  obtain c h1 where "holding S c (start c) h1 = (Val d, h')" using assms by (auto simp: open_with_def bindR_eq_Val)
  then have "start c h1 = (Val d, h')"
    by (cases "start c h1"; cases "fst (start c h1)") (auto simp: holding_def)
  then show thesis by (rule that)
qed

text \<open>While it is open, a second helper on one of its interfaces is refused.\<close>

lemma open_busy:
  assumes "open_with S interfaces start h = (Val d, h')" "i \<in> set interfaces" "i \<in> set other"
  shows "fst (claim_new S' other h') = Fail (error_new Busy)"
proof -
  have "i \<in> set (h_leased h')" using open_effect [OF assms(1)] assms(2) by auto
  with assms(3) show ?thesis by (auto simp: claim_new_def Let_def bindR_def lease_def)
qed

end

text \<open>A helper whose device remembers its claim: closing it undoes what opening did.\<close>

locale class_device = class_helper S interfaces start
  for S :: "'k sys" and interfaces :: "u8 list" and start :: "helper_claim \<Rightarrow> ('k handle, 'd) io" +
  fixes claim_of :: "'d \<Rightarrow> helper_claim"
  assumes start_claim: "start c h = (Val d, h') \<Longrightarrow> claim_of d = c"
begin

lemma open_claim:
  assumes "open_with S interfaces start h = (Val d, h')"
  shows "h_claimed h' = h_claimed h @ hc_owned (claim_of d)" "set (h_claimed h) \<inter> set (hc_owned (claim_of d)) = {}"
    "h_leased h' = h_leased h @ remdups (sort interfaces)" "set (h_leased h) \<inter> set (hc_leased (claim_of d)) = {}"
    "set interfaces \<subseteq> set (hc_leased (claim_of d))" "set interfaces \<subseteq> set (h_claimed h')"
proof -
  obtain q h1 where q: "claim_new S interfaces h = (q, h1)" by (cases "claim_new S interfaces h")
  obtain c where c: "q = Val c" using assms q by (cases q) (auto simp: open_with_def bindR_def)
  from claim_new_effect [OF q] c
  have n: "h_claimed h1 = h_claimed h @ hc_owned c" "h_leased h1 = h_leased h @ remdups (sort interfaces)"
    "set interfaces \<subseteq> set (h_claimed h1)" "h_claimed (claim_drop S c h1) = h_claimed h" "h_leased (claim_drop S c h1) = h_leased h"
    by auto
  obtain r h2 where d: "start c h1 = (r, h2)" by (cases "start c h1")
  have r: "r = Val d" "h2 = h'" using assms q c d by (auto simp: open_with_def bindR_def holding_def split: out.splits)
  have cl: "claim_of d = c" using start_claim d r by simp
  have k: "h_claimed h' = h_claimed h1" "h_leased h' = h_leased h1" using claims_keptD [OF start_kept d] r by auto
  have o: "filter (\<lambda>j. j \<notin> set (hc_owned c)) (h_claimed h @ hc_owned c) = h_claimed h"
    "filter (\<lambda>j. j \<notin> set (hc_leased c)) (h_leased h @ remdups (sort interfaces)) = h_leased h"
    using n(1,2,4,5) by (simp_all add: claim_drop_effect)
  show "h_claimed h' = h_claimed h @ hc_owned (claim_of d)" "h_leased h' = h_leased h @ remdups (sort interfaces)"
    "set interfaces \<subseteq> set (h_claimed h')" using n k cl by simp_all
  have "set (h_claimed h) \<inter> set (hc_owned c) = {}"
    using arg_cong [OF o(1), of set] by auto
  moreover have "set (h_leased h) \<inter> set (hc_leased c) = {}" using arg_cong [OF o(2), of set] by auto
  ultimately show "set (h_claimed h) \<inter> set (hc_owned (claim_of d)) = {}" "set (h_leased h) \<inter> set (hc_leased (claim_of d)) = {}"
    using cl by simp_all
  have "filter (\<lambda>j. j \<notin> set (hc_leased c)) (remdups (sort interfaces)) = []"
    using arg_cong [OF o(2), of length] \<open>set (h_leased h) \<inter> set (hc_leased c) = {}\<close>
    by (auto simp: filter_id_conv disjoint_iff)
  then show "set interfaces \<subseteq> set (hc_leased (claim_of d))" by (auto simp: filter_empty_conv cl)
qed

lemma open_close:
  assumes "open_with S interfaces start h = (Val d, h')"
  shows "h_claimed (claim_drop S (claim_of d) h') = h_claimed h" "h_leased (claim_drop S (claim_of d) h') = h_leased h"
  using open_claim [OF assms] by (auto simp: claim_drop_effect filter_id_conv filter_empty_conv disjoint_iff)

end

section \<open>Opening every function of a device\<close>

text \<open>\<open>open_all\<close> of the helpers: \<open>collect\<close> stops at the first failure and drops what was opened so far, as
  does unwinding. \<open>dropped\<close> is the drop of an opened device.\<close>

fun open_list :: "('i \<Rightarrow> ('k handle, 'd) io) \<Rightarrow> ('d \<Rightarrow> 'k handle \<Rightarrow> 'k handle) \<Rightarrow> 'd list \<Rightarrow> 'i list \<Rightarrow> ('k handle, 'd list) io" where
  "open_list opn dropped opened [] = ret opened"
| "open_list opn dropped opened (i # is) = (\<lambda>h. case opn i h of
      (Val d, h) \<Rightarrow> open_list opn dropped (opened @ [d]) is h
    | (Fail e, h) \<Rightarrow> (Fail e, fold dropped opened h)
    | (Panic, h) \<Rightarrow> (Panic, fold dropped opened h))"

text \<open>The contract: each opening either takes claims and leases of its own or leaves them as they were, and
  the drop gives exactly those back. Then opening all is all or nothing.\<close>

locale class_opener =
  fixes opn :: "'i \<Rightarrow> ('k handle, 'd) io" and dropped :: "'d \<Rightarrow> 'k handle \<Rightarrow> 'k handle" and claim_of :: "'d \<Rightarrow> helper_claim"
  assumes opened: "opn i h = (Val d, h') \<Longrightarrow> h_claimed h' = h_claimed h @ hc_owned (claim_of d)
      \<and> set (h_claimed h) \<inter> set (hc_owned (claim_of d)) = {} \<and> set (h_leased h) \<inter> set (hc_leased (claim_of d)) = {}
      \<and> filter (\<lambda>j. j \<notin> set (hc_leased (claim_of d))) (h_leased h') = h_leased h"
    and failed: "opn i h = (r, h') \<Longrightarrow> (\<And>d. r \<noteq> Val d) \<Longrightarrow> h_claimed h' = h_claimed h \<and> h_leased h' = h_leased h"
    and drop_claimed: "h_claimed (dropped d h) = filter (\<lambda>j. j \<notin> set (hc_owned (claim_of d))) (h_claimed h)"
    and drop_leased: "h_leased (dropped d h) = filter (\<lambda>j. j \<notin> set (hc_leased (claim_of d))) (h_leased h)"
begin

lemma drops:
  "h_claimed (fold dropped ds h) = filter (\<lambda>j. \<forall>d \<in> set ds. j \<notin> set (hc_owned (claim_of d))) (h_claimed h)"
  "h_leased (fold dropped ds h) = filter (\<lambda>j. \<forall>d \<in> set ds. j \<notin> set (hc_leased (claim_of d))) (h_leased h)"
  by (induction ds arbitrary: h) (auto simp: drop_claimed drop_leased intro!: filter_cong)

lemma list_effect:
  assumes "open_list opn dropped ds is h = (r, h')"
    and "h_claimed h = base @ concat (map (\<lambda>d. hc_owned (claim_of d)) ds)"
      "\<forall>d \<in> set ds. set base \<inter> set (hc_owned (claim_of d)) = {}"
    and "filter (\<lambda>j. \<forall>d \<in> set ds. j \<notin> set (hc_leased (claim_of d))) (h_leased h) = lbase"
  shows "case r of
      Val es \<Rightarrow> (\<exists>news. es = ds @ news \<and> list_all2 (\<lambda>i d. \<exists>h h'. opn i h = (Val d, h')) is news)
        \<and> h_claimed h' = base @ concat (map (\<lambda>d. hc_owned (claim_of d)) es)
    | _ \<Rightarrow> h_claimed h' = base \<and> h_leased h' = lbase"
  using assms
proof (induction "is" arbitrary: ds h)
  case Nil
  then show ?case by auto
next
  case (Cons i "is")
  obtain q h1 where q: "opn i h = (q, h1)" by (cases "opn i h")
  show ?case
  proof (cases q)
    case (Val d)
    note o = opened [OF q [unfolded Val]]
    have run: "open_list opn dropped (ds @ [d]) is h1 = (r, h')" using Cons.prems(1) q Val by simp
    have split: "filter (\<lambda>j. \<forall>e \<in> set (ds @ [d]). j \<notin> set (hc_leased (claim_of e))) xs =
        filter (\<lambda>j. \<forall>e \<in> set ds. j \<notin> set (hc_leased (claim_of e))) (filter (\<lambda>j. j \<notin> set (hc_leased (claim_of d))) xs)" for xs
      by (auto intro!: filter_cong)
    have left: "filter (\<lambda>j. \<forall>e \<in> set (ds @ [d]). j \<notin> set (hc_leased (claim_of e))) (h_leased h1) = lbase"
      unfolding split using o Cons.prems(4) by simp
    have cl: "h_claimed h1 = base @ concat (map (\<lambda>d. hc_owned (claim_of d)) (ds @ [d]))"
      "\<forall>e \<in> set (ds @ [d]). set base \<inter> set (hc_owned (claim_of e)) = {}"
      using o Cons.prems(2,3) by auto
    from Cons.IH [OF run cl left] q Val show ?thesis
      by (cases r) (auto intro: exI [of _ "d # news" for news])
  next
    case (Fail e)
    have "h_claimed h1 = h_claimed h" "h_leased h1 = h_leased h" using failed [OF q] Fail by auto
    moreover have "r = Fail e" "h' = fold dropped ds h1" using Cons.prems(1) q Fail by auto
    ultimately show ?thesis using Cons.prems(2-4)
      by (auto simp: drops filter_id_conv filter_empty_conv disjoint_iff)
  next
    case Panic
    have "h_claimed h1 = h_claimed h" "h_leased h1 = h_leased h" using failed [OF q] Panic by auto
    moreover have "r = Panic" "h' = fold dropped ds h1" using Cons.prems(1) q Panic by auto
    ultimately show ?thesis using Cons.prems(2-4)
      by (auto simp: drops filter_id_conv filter_empty_conv disjoint_iff)
  qed
qed

lemma all_effect:
  assumes "open_list opn dropped [] is h = (r, h')"
  shows "case r of
      Val ds \<Rightarrow> list_all2 (\<lambda>i d. \<exists>h h'. opn i h = (Val d, h')) is ds
        \<and> h_claimed h' = h_claimed h @ concat (map (\<lambda>d. hc_owned (claim_of d)) ds)
    | _ \<Rightarrow> h_claimed h' = h_claimed h \<and> h_leased h' = h_leased h"
  using list_effect [OF assms, of "h_claimed h" "h_leased h"] by (auto split: out.splits)

end

section \<open>Openings that hold what they claimed\<close>

definition owns :: "('d \<Rightarrow> helper_claim) \<Rightarrow> ('k handle, 'd) io \<Rightarrow> bool" where
  "owns claim_of m \<longleftrightarrow> (\<forall>h. case m h of
      (Val d, h') \<Rightarrow> h_claimed h' = h_claimed h @ hc_owned (claim_of d)
        \<and> set (h_claimed h) \<inter> set (hc_owned (claim_of d)) = {} \<and> set (h_leased h) \<inter> set (hc_leased (claim_of d)) = {}
        \<and> filter (\<lambda>j. j \<notin> set (hc_leased (claim_of d))) (h_leased h') = h_leased h
    | (_, h') \<Rightarrow> h_claimed h' = h_claimed h \<and> h_leased h' = h_leased h)"

named_theorems owning \<open>openings that hold what they claimed\<close>

lemma owns_fail [owning]: "owns cl (failE e)"
  by (simp add: owns_def)

lemma owns_if [owning]: "(b \<Longrightarrow> owns cl m) \<Longrightarrow> (\<not> b \<Longrightarrow> owns cl n) \<Longrightarrow> owns cl (if b then m else n)"
  by simp

lemma owns_case_option [owning]: "owns cl m \<Longrightarrow> (\<And>x. owns cl (f x)) \<Longrightarrow> owns cl (case r of None \<Rightarrow> m | Some x \<Rightarrow> f x)"
  by (cases r) simp_all

lemma owns_lift_panic [owning]: "(\<And>x. owns cl (f x)) \<Longrightarrow> owns cl (bindR (lift_panic p) f)"
proof -
  assume f: "\<And>x. owns cl (f x)"
  show ?thesis
  proof (cases p)
    case None
    then show ?thesis by (simp add: owns_def bindR_def)
  next
    case (Some r)
    with f show ?thesis by (cases r) (simp_all add: owns_def bindR_def)
  qed
qed

context class_device
begin

lemma open_owns: "owns claim_of (open_with S interfaces start)"
  unfolding owns_def
proof
  fix h
  obtain r h' where o: "open_with S interfaces start h = (r, h')" by (cases "open_with S interfaces start h")
  show "case open_with S interfaces start h of
      (Val d, h') \<Rightarrow> h_claimed h' = h_claimed h @ hc_owned (claim_of d)
        \<and> set (h_claimed h) \<inter> set (hc_owned (claim_of d)) = {} \<and> set (h_leased h) \<inter> set (hc_leased (claim_of d)) = {}
        \<and> filter (\<lambda>j. j \<notin> set (hc_leased (claim_of d))) (h_leased h') = h_leased h
    | (_, h') \<Rightarrow> h_claimed h' = h_claimed h \<and> h_leased h' = h_leased h"
  proof (cases r)
    case (Val d)
    with o open_claim [of h d h'] open_close(2) [of h d h'] show ?thesis by (simp add: claim_drop_effect)
  qed (use o open_effect [OF o] in simp_all)
qed

end

text \<open>Such openings, with a drop that gives the claim back, are what \<open>open_list\<close> needs.\<close>

lemma opener_of_owns:
  assumes "\<And>i. owns claim_of (opn i)"
    and "\<And>d h. h_claimed (dropped d h) = filter (\<lambda>j. j \<notin> set (hc_owned (claim_of d))) (h_claimed h)"
    and "\<And>d h. h_leased (dropped d h) = filter (\<lambda>j. j \<notin> set (hc_leased (claim_of d))) (h_leased h)"
  shows "class_opener opn dropped claim_of"
proof
  fix i h d h' r
  have o: "owns claim_of (opn i)" by (rule assms(1))
  from o [unfolded owns_def, rule_format, of h]
  show "opn i h = (Val d, h') \<Longrightarrow> h_claimed h' = h_claimed h @ hc_owned (claim_of d)
      \<and> set (h_claimed h) \<inter> set (hc_owned (claim_of d)) = {} \<and> set (h_leased h) \<inter> set (hc_leased (claim_of d)) = {}
      \<and> filter (\<lambda>j. j \<notin> set (hc_leased (claim_of d))) (h_leased h') = h_leased h"
    and "opn i h = (r, h') \<Longrightarrow> (\<And>d. r \<noteq> Val d) \<Longrightarrow> h_claimed h' = h_claimed h \<and> h_leased h' = h_leased h"
    by (auto split: out.splits)
qed (rule assms)+

section \<open>Transfers that cannot panic\<close>

named_theorems calm \<open>operations that do not panic\<close>

abbreviation calmly :: "('s, 'a) io \<Rightarrow> bool" where
  "calmly m \<equiv> safe (\<lambda>_. True) m"

lemma calm_basic [calm]:
  "calmly (ret x)" "calmly (failE e)" "calmly (lift_res r)" "calmly (get_st g)" "calmly (mod_st f)"
  by (simp_all add: safe_mod safe_def)

lemma calm_bindR_val:
  assumes "calmly m" "\<And>h x h'. m h = (Val x, h') \<Longrightarrow> calmly (f x)"
  shows "calmly (bindR m f)"
  unfolding safe_def
proof (intro allI impI)
  fix h
  obtain r h1 where m: "m h = (r, h1)" by (cases "m h")
  with assms(1) have "r \<noteq> Panic" by (auto simp: safe_def dest: spec [of _ h])
  with m assms(2) [of h _ h1] show "fst (bindR m f h) \<noteq> Panic \<and> True"
    by (cases r) (auto simp: bindR_def safe_def)
qed

lemma calm_bindR [calm]: "calmly m \<Longrightarrow> (\<And>x. calmly (f x)) \<Longrightarrow> calmly (bindR m f)"
  by (rule calm_bindR_val)

lemma calm_matchR [calm]: "calmly m \<Longrightarrow> (\<And>x. calmly (f x)) \<Longrightarrow> (\<And>e. calmly (g e)) \<Longrightarrow> calmly (matchR m f g)"
  by (rule safe_matchR)

lemma calm_ignoreR [calm]: "calmly m \<Longrightarrow> calmly (ignoreR m)"
  by (rule safe_ignoreR)

lemma calm_if [calm]: "(b \<Longrightarrow> calmly m) \<Longrightarrow> (\<not> b \<Longrightarrow> calmly n) \<Longrightarrow> calmly (if b then m else n)"
  by simp

lemma calm_case_prod [calm]: "(\<And>a b. p = (a, b) \<Longrightarrow> calmly (f a b)) \<Longrightarrow> calmly (case p of (a, b) \<Rightarrow> f a b)"
  by (cases p) simp

lemma calm_case_option [calm]:
  "(r = None \<Longrightarrow> calmly m) \<Longrightarrow> (\<And>x. r = Some x \<Longrightarrow> calmly (f x)) \<Longrightarrow> calmly (case r of None \<Rightarrow> m | Some x \<Rightarrow> f x)"
  by (cases r) simp_all

lemma calm_let [calm]: "(\<And>x. calmly (f x)) \<Longrightarrow> calmly (let x = v in f x)"
  by simp

lemma calm_on_sys [calm]: "calmly (on_sys f)"
  by (simp add: safe_def on_sys_eq)

lemma calm_sync_read [calm]:
  assumes "sys_ok S" "kind \<noteq> Control" "kind \<noteq> Isochronous"
  shows "calmly (sync_read S kind ep buf t)"
  unfolding safe_def
proof (intro allI impI)
  fix h show "fst (sync_read S kind ep buf t h) \<noteq> Panic \<and> True"
    using sync_read_cases [OF assms, of ep buf t h] by auto
qed

lemma calm_control_read [calm]:
  assumes "sys_ok S"
  shows "calmly (control_read S rt r v i buf t)"
  unfolding safe_def
proof (intro allI impI)
  fix h show "fst (control_read S rt r v i buf t h) \<noteq> Panic \<and> True"
    using control_read_cases [OF assms, of rt r v i buf t h] by auto
qed

lemma calm_submit_and_wait [calm]: "calmly (submit_and_wait S t)"
proof -
  have "fst (submit c t) \<noteq> Panic" for c by (auto simp: submit_def submit_check_def when_idle_def bindR_def Let_def
        split: out.splits prod.splits if_splits sum.splits)
  then have "submit c t \<noteq> (Panic, t')" for c t' by (metis fst_conv)
  then show ?thesis
    by (auto simp: safe_def submit_and_wait_def Let_def split: out.split prod.split sum.split)
qed

lemma calm_control_write [calm]: "calmly (control_write S rt r v i b t)"
  unfolding control_write_def by (intro calm)

lemma calm_sync_write [calm]: "calmly (sync_write S k ep b t)"
  unfolding sync_write_def by (intro calm)

text \<open>What a successful read delivers.\<close>

lemma sync_read_Val:
  assumes "sys_ok S" "kind \<noteq> Control" "kind \<noteq> Isochronous" "sync_read S kind ep buf t h = (Val (n, b), h')"
  shows "n \<le> length buf \<and> length b = length buf \<and> drop n b = drop n buf"
  using sync_read_cases [OF assms(1-3), of ep buf t h] assms(4) by auto

lemma control_read_Val:
  assumes "sys_ok S" "control_read S rt r v i buf t h = (Val (n, b), h')"
  shows "n \<le> length buf \<and> length b = length buf \<and> drop n b = drop n buf"
  using control_read_cases [OF assms(1), of rt r v i buf t h] assms(2) by auto

lemma calm_open_with [calm]:
  assumes "\<And>c. calmly (start c)"
  shows "calmly (open_with S interfaces start)"
  unfolding open_with_def
proof (intro calm)
  show "calmly (claim_new S interfaces)"
    unfolding safe_def by (metis claim_new_effect out.distinct(3) out.distinct(5) prod.collapse)
  fix c show "calmly (holding S c (start c))"
    using assms [of c] by (auto simp: safe_def holding_def split: out.split prod.split)
      (metis fst_conv)
qed

lemma calm_lift_panic [calm]: "p \<noteq> None \<Longrightarrow> calmly (lift_panic p)"
  by (rule safe_lift_panic)

lemma calm_not_Panic: "calmly m \<Longrightarrow> m h \<noteq> (Panic, h')"
  by (auto simp: safe_def dest: spec [of _ h])

section \<open>Operations on a part of a larger state\<close>

text \<open>A helper keeps state of its own beside the handle (a tag counter, a buffer); \<open>zoom\<close> runs an
  operation of the handle on the part of the state that holds it.\<close>

definition zoom :: "('t \<Rightarrow> 's) \<Rightarrow> ('s \<Rightarrow> 't \<Rightarrow> 't) \<Rightarrow> ('s, 'a) io \<Rightarrow> ('t, 'a) io" where
  "zoom get upd m = (\<lambda>t. case m (get t) of (r, s) \<Rightarrow> (r, upd s t))"

lemma zoom_run: "m (get t) = (r, s) \<Longrightarrow> zoom get upd m t = (r, upd s t)"
  by (simp add: zoom_def)

lemma calm_zoom [calm]: "calmly m \<Longrightarrow> calmly (zoom get upd m)"
  by (auto simp: safe_def zoom_def split: prod.split) (metis fst_conv)

lemma zoom_eq: "zoom get upd m t = (r, t') \<longleftrightarrow> (\<exists>s. m (get t) = (r, s) \<and> t' = upd s t)"
  by (auto simp: zoom_def split: prod.splits)

section \<open>Operations that leave a part of the state alone\<close>

text \<open>The same for any state and any view of it: what the helpers with state of their own need. The claims
  of a handle are the view \<open>claims\<close>.\<close>

definition keeps :: "('s \<Rightarrow> 'v) \<Rightarrow> ('s, 'a) io \<Rightarrow> bool" where
  "keeps v m \<longleftrightarrow> (\<forall>s. v (snd (m s)) = v s)"

definition claims :: "'k handle \<Rightarrow> u8 list \<times> u8 list" where
  "claims h = (h_claimed h, h_leased h)"

named_theorems keeping \<open>operations that leave a view of the state alone\<close>

lemma keepsD: "keeps v m \<Longrightarrow> m s = (r, s') \<Longrightarrow> v s' = v s"
  unfolding keeps_def by (metis snd_conv)

lemma claims_kept_keeps: "claims_kept m \<longleftrightarrow> keeps claims m"
  by (simp add: claims_kept_def keeps_def claims_def)

lemma keeps_basic [keeping]:
  "keeps v (ret x)" "keeps v (failE e)" "keeps v (lift_opt o1)" "keeps v (lift_res r)"
  "keeps v (lift_panic p)" "keeps v (get_st g)"
  by (cases o1; cases p; simp add: keeps_def)+

lemma keeps_mod_st [keeping]: "(\<And>s. v (f s) = v s) \<Longrightarrow> keeps v (mod_st f)"
  by (simp add: keeps_def)

lemma keeps_bindR [keeping]:
  assumes "keeps v m" "\<And>x. keeps v (f x)"
  shows "keeps v (bindR m f)"
  unfolding keeps_def
proof
  fix s
  obtain r s1 where m: "m s = (r, s1)" by (cases "m s")
  with assms(2) keepsD [OF assms(1) m] show "v (snd (bindR m f s)) = v s"
    by (cases r) (simp_all add: bindR_def keeps_def del: split_paired_All)
qed

lemma keeps_matchR [keeping]:
  assumes "keeps v m" "\<And>x. keeps v (f x)" "\<And>e. keeps v (g e)"
  shows "keeps v (matchR m f g)"
  unfolding keeps_def
proof
  fix s
  obtain r s1 where m: "m s = (r, s1)" by (cases "m s")
  with assms(2,3) keepsD [OF assms(1) m] show "v (snd (matchR m f g s)) = v s"
    by (cases r) (simp_all add: matchR_def keeps_def del: split_paired_All)
qed

lemma keeps_ignoreR [keeping]: "keeps v m \<Longrightarrow> keeps v (ignoreR m)"
  unfolding ignoreR_def by (intro keeping)

lemma keeps_if [keeping]: "(b \<Longrightarrow> keeps v m) \<Longrightarrow> (\<not> b \<Longrightarrow> keeps v n) \<Longrightarrow> keeps v (if b then m else n)"
  by simp

lemma keeps_case_option [keeping]:
  "keeps v m \<Longrightarrow> (\<And>x. keeps v (f x)) \<Longrightarrow> keeps v (case r of None \<Rightarrow> m | Some x \<Rightarrow> f x)"
  by (cases r) simp_all

lemma keeps_case_prod [keeping]: "(\<And>a b. keeps v (f a b)) \<Longrightarrow> keeps v (case p of (a, b) \<Rightarrow> f a b)"
  by (cases p) simp

lemma keeps_let [keeping]: "(\<And>x. keeps v (f x)) \<Longrightarrow> keeps v (let x = w in f x)"
  by simp

lemma keeps_for_each [keeping]: "(\<And>x. keeps v (f x)) \<Longrightarrow> keeps v (for_each xs f)"
  by (induction xs) (auto intro: keeping)

lemma keeps_zoom: "keeps v m \<Longrightarrow> (\<And>s t. get (upd s t) = s) \<Longrightarrow> keeps (\<lambda>t. v (get t)) (zoom get upd m)"
  by (auto simp: keeps_def zoom_def split: prod.split dest: spec) (metis snd_conv)

lemma keeps_zoom_claims: "claims_kept m \<Longrightarrow> (\<And>s t. get (upd s t) = s) \<Longrightarrow> keeps (\<lambda>t. claims (get t)) (zoom get upd m)"
  unfolding claims_kept_keeps by (rule keeps_zoom)

section \<open>Helpers with state of their own\<close>

text \<open>The handle beside what the helper keeps, \<open>'m\<close>; and operations that run when the helper has just been
  built, on its first state.\<close>

abbreviation on_handle :: "('k handle, 'a) io \<Rightarrow> ('k handle \<times> 'm, 'a) io" where
  "on_handle m \<equiv> zoom fst (\<lambda>h (_, n). (h, n)) m"

definition on_new_device :: "'m \<Rightarrow> ('m \<Rightarrow> 'd) \<Rightarrow> ('k handle \<times> 'm, unit) io \<Rightarrow> ('k handle, 'd) io" where
  "on_new_device n0 device m = (\<lambda>h. case m (h, n0) of
      (Val _, (h, n)) \<Rightarrow> (Val (device n), h)
    | (Fail e, (h, n)) \<Rightarrow> (Fail e, h)
    | (Panic, (h, n)) \<Rightarrow> (Panic, h))"

lemma keeps_on_handle [keeping]: "claims_kept m \<Longrightarrow> keeps (\<lambda>s. claims (fst s)) (on_handle m)"
  by (rule keeps_zoom_claims) auto

lemma kept_on_new_device:
  assumes m: "keeps (\<lambda>s. claims (fst s)) m"
  shows "claims_kept (on_new_device n0 device m)"
  unfolding claims_kept_keeps keeps_def
proof
  fix h
  obtain r h1 n1 where r: "m (h, n0) = (r, h1, n1)" by (cases "m (h, n0)") auto
  from keepsD [OF m r] show "claims (snd (on_new_device n0 device m h)) = claims h"
    by (cases r) (simp_all add: on_new_device_def r)
qed

lemma on_new_device_Val: "on_new_device n0 device m h = (Val d, h') \<Longrightarrow> \<exists>n. m (h, n0) = (Val (), h', n) \<and> d = device n"
  by (auto simp: on_new_device_def split: prod.splits out.splits)

text \<open>Transfers in the background are the parameters \<open>async\<close>: \<open>as_submit\<close> is the backend's submission,
  \<open>as_stop\<close> the cancellation of what is queued on an endpoint.\<close>

record 'k async =
  as_submit :: "transfer_type \<Rightarrow> u8 \<Rightarrow> nat \<Rightarrow> ('k, unit) sysop"
  as_stop :: "u8 \<Rightarrow> 'k \<Rightarrow> 'k"

definition stop_all :: "'k async \<Rightarrow> u8 list \<Rightarrow> ('k handle, unit) io" where
  "stop_all A eps = mod_st (\<lambda>h. h\<lparr>h_world := fold (as_stop A) eps (h_world h)\<rparr>)"

lemma kept_stop_all [kept]: "claims_kept (stop_all A eps)"
  by (simp add: claims_kept_def stop_all_def)

lemma fresh_transfer_submits:
  "kind \<noteq> Control \<Longrightarrow> kind \<noteq> Isochronous \<Longrightarrow> submit_check (transfer_new kind ep buf) = (Val (), transfer_new kind ep buf)"
  by (simp add: submit_check_def when_idle_def transfer_new_def)

section \<open>Transfers that complete\<close>

lemma submit_and_wait_completed:
  assumes "\<not> tr_in_flight t" "fst (submit_check t) = Val ()"
    "sys_transfer S (tr_kind t) (tr_endpoint t) (tr_buffer t) (tr_timeout t) (h_world h) = (Inr (Completed, n, buf), k)"
  shows "submit_and_wait S t h = (Val (n, t\<lparr>tr_in_flight := False, tr_actual := n, tr_status := Completed,
     tr_buffer := buf, tr_callback := None, tr_wakers := []\<rparr>), h\<lparr>h_world := k\<rparr>)"
proof -
  have st: "submit_check t = (Val (), t)"
    using assms(1,2) by (auto simp: submit_check_def when_idle_def split: if_splits)
  have su: "submit (\<lambda>_. Inr ()) t = (Val (), t\<lparr>tr_in_flight := True, tr_actual := 0\<rparr>)"
    by (simp add: submit_def bindR_def st Let_def)
  show ?thesis using assms(3) su by (simp add: submit_and_wait_def publish_def Let_def status_into_result_def)
qed

lemma sync_write_completed:
  assumes "ep AND 0x80 = 0" "kind \<noteq> Control" "kind \<noteq> Isochronous"
    "sys_transfer S kind ep data tmo (h_world h) = (Inr (Completed, n, buf), k)"
  shows "sync_write S kind ep data tmo h = (Val n, h\<lparr>h_world := k\<rparr>)"
proof -
  let ?t = "(transfer_new kind ep data)\<lparr>tr_timeout := tmo\<rparr> :: unit transfer"
  have "\<not> tr_in_flight ?t" "fst (submit_check ?t) = Val ()"
    using assms(2,3) by (simp_all add: transfer_new_def submit_check_def when_idle_def)
  from submit_and_wait_completed [OF this, of S h n buf k] assms show ?thesis
    by (simp add: sync_write_def bindR_def transfer_new_def)
qed

lemma sync_read_completed:
  assumes "ep AND 0x80 \<noteq> 0" "kind \<noteq> Control" "kind \<noteq> Isochronous"
    "sys_transfer S kind ep (replicate (length buf) 0) tmo (h_world h) = (Inr (Completed, n, out), k)"
    "length out = length buf" "n \<le> length buf"
  shows "sync_read S kind ep buf tmo h = (Val (n, take n out @ drop n buf), h\<lparr>h_world := k\<rparr>)"
proof -
  let ?t = "(transfer_new kind ep (replicate (length buf) 0))\<lparr>tr_timeout := tmo\<rparr> :: unit transfer"
  have "\<not> tr_in_flight ?t" "fst (submit_check ?t) = Val ()"
    using assms(2,3) by (simp_all add: transfer_new_def submit_check_def when_idle_def)
  from submit_and_wait_completed [OF this, of S h n out k] assms show ?thesis
    by (simp add: sync_read_def bindR_def transfer_new_def get_data_bulk min_absorb2)
qed

lemma control_write_completed:
  assumes "rt AND 0x80 = 0"
    "sys_transfer S Control 0 (setup_to_bytes (setup_raw rt r v i (of_nat (length data))) @ data) tmo (h_world h)
       = (Inr (Completed, n, buf), k)"
  shows "control_write S rt r v i data tmo h = (Val n, h\<lparr>h_world := k\<rparr>)"
proof -
  let ?su = "setup_raw rt r v i (of_nat (length data))"
  let ?t = "(transfer_control ?su data)\<lparr>tr_timeout := tmo\<rparr> :: unit transfer"
  have su: "?su\<lparr>cs_length := of_nat (length data)\<rparr> = ?su" "setup_direction ?su = Out"
    using assms(1) by (simp_all add: setup_raw_def setup_direction_def direction_from_address_def)
  have b: "tr_buffer ?t = setup_to_bytes ?su @ data" by (simp only: transfer_control_def transfer_new_def su if_True) simp
  have "\<not> tr_in_flight ?t" "fst (submit_check ?t) = Val ()"
    using b by (simp_all add: transfer_control_def transfer_new_def submit_check_def when_idle_def)
  moreover have "tr_kind ?t = Control" "tr_endpoint ?t = 0" "tr_timeout ?t = tmo"
    by (simp_all add: transfer_control_def transfer_new_def)
  ultimately have "submit_and_wait S ?t h = (Val (n, ?t\<lparr>tr_in_flight := False, tr_actual := n, tr_status := Completed,
     tr_buffer := buf, tr_callback := None, tr_wakers := []\<rparr>), h\<lparr>h_world := k\<rparr>)"
    using assms(2) b by (intro submit_and_wait_completed) simp_all
  then show ?thesis using assms(1) by (simp add: control_write_def bindR_def)
qed

text \<open>A control write that returned has put exactly this setup packet and data on the wire.\<close>

lemma control_write_sent:
  assumes "control_write S rt r v i data tmo h = (Val n, h')"
  shows "\<exists>buf k. sys_transfer S Control 0 (setup_to_bytes (setup_raw rt r v i (of_nat (length data))) @ data) tmo (h_world h)
       = (Inr (Completed, n, buf), k)"
proof -
  let ?su = "setup_raw rt r v i (of_nat (length data))"
  let ?t = "(transfer_control ?su data)\<lparr>tr_timeout := tmo\<rparr> :: unit transfer"
  have rt: "rt AND 0x80 = 0" using assms by (simp add: control_write_def split: if_splits)
  then have su: "?su\<lparr>cs_length := of_nat (length data)\<rparr> = ?su" "setup_direction ?su = Out"
    by (simp_all add: setup_raw_def setup_direction_def direction_from_address_def)
  have b: "tr_buffer ?t = setup_to_bytes ?su @ data" by (simp only: transfer_control_def transfer_new_def su if_True) simp
  have sub: "submit (\<lambda>_. Inr ()) ?t = (Val (), ?t\<lparr>tr_in_flight := True, tr_actual := 0\<rparr>)"
    using b by (simp add: transfer_control_def transfer_new_def submit_def submit_check_def when_idle_def bindR_def)
  have k: "tr_kind ?t = Control" "tr_endpoint ?t = 0" "tr_timeout ?t = tmo" by (simp_all add: transfer_control_def transfer_new_def)
  obtain t where t: "submit_and_wait S ?t h = (Val (n, t), h')" using assms rt by (auto simp: control_write_def bindR_eq_Val)
  have st: "st = Completed" if "status_into_result st = Inr x" for st x using that by (cases st) (simp_all add: status_into_result_def)
  obtain q w where q: "sys_transfer S Control 0 (setup_to_bytes ?su @ data) tmo (h_world h) = (q, w)" by fastforce
  with t sub k b show ?thesis
    by (cases q) (auto simp: submit_and_wait_def Let_def publish_def split: sum.splits prod.splits dest!: st)
qed

lemma control_read_completed:
  assumes "rt AND 0x80 \<noteq> 0" "length buf \<le> 65535" "length out = 8 + length buf" "n \<le> length buf"
    "sys_transfer S Control 0 (resize (8 + length buf) (setup_to_bytes (setup_raw rt r v i (of_nat (length buf))))) tmo (h_world h)
       = (Inr (Completed, n, out), k)"
  shows "control_read S rt r v i buf tmo h = (Val (n, take n (drop 8 out) @ drop n buf), h\<lparr>h_world := k\<rparr>)"
proof -
  let ?su = "setup_raw rt r v i (of_nat (length buf))"
  let ?t = "(transfer_control ?su buf)\<lparr>tr_timeout := tmo\<rparr> :: unit transfer"
  let ?t' = "?t\<lparr>tr_in_flight := False, tr_actual := n, tr_status := Completed,
     tr_buffer := out, tr_callback := None, tr_wakers := []\<rparr>"
  have w: "unat (of_nat (length buf) :: u16) = length buf"
    using assms(2) by (simp only: unsigned_of_nat) (simp add: take_bit_eq_mod)
  have su: "(setup_raw rt r v i 0)\<lparr>cs_length := of_nat (length buf)\<rparr> = ?su" "setup_direction ?su = In"
    "setup_direction (setup_raw rt r v i 0) = In"
    using assms(1) by (simp_all add: setup_raw_def setup_direction_def direction_from_address_def)
  have b: "tr_buffer ?t = resize (8 + length buf) (setup_to_bytes ?su)"
    using su w by (simp add: transfer_control_def transfer_new_def) (simp add: setup_raw_def)
  have "\<not> tr_in_flight ?t" "fst (submit_check ?t) = Val ()"
    using b by (simp_all add: transfer_control_def transfer_new_def submit_check_def when_idle_def)
  moreover have "tr_kind ?t = Control" "tr_endpoint ?t = 0" "tr_timeout ?t = tmo"
    by (simp_all add: transfer_control_def transfer_new_def)
  ultimately have run: "submit_and_wait S ?t h = (Val (n, ?t'), h\<lparr>h_world := k\<rparr>)"
    using assms(5) b by (intro submit_and_wait_completed) simp_all
  have g: "get_data ?t' = (Val (take n (drop 8 out)), ?t')"
    using assms(3) by (subst get_data_control) (simp_all add: transfer_control_def transfer_new_def)
  have p: "put 0 (take n (drop 8 out)) buf = Some (take n (drop 8 out) @ drop n buf)"
    using assms(3,4) by (simp add: put_def)
  have m: "min (length buf) 65535 = length buf" "take (length buf) buf = buf" using assms(2) by simp_all
  show ?thesis using assms(1) run g p su
    by (simp add: control_read_def control_transfer_def Let_def m bindR_def)
qed

text \<open>A transfer that ends in another way is that error, and the world has moved on.\<close>

lemma submit_and_wait_failed:
  assumes "\<not> tr_in_flight t" "fst (submit_check t) = Val ()"
    "sys_transfer S (tr_kind t) (tr_endpoint t) (tr_buffer t) (tr_timeout t) (h_world h) = (Inr (st, n, buf), k)"
    "status_into_result st = Inl e"
  shows "submit_and_wait S t h = (Fail e, h\<lparr>h_world := k\<rparr>)"
proof -
  have c: "submit_check t = (Val (), t)"
    using assms(1,2) by (auto simp: submit_check_def when_idle_def split: if_splits)
  have su: "submit (\<lambda>_. Inr ()) t = (Val (), t\<lparr>tr_in_flight := True, tr_actual := 0\<rparr>)"
    by (simp add: submit_def bindR_def c Let_def)
  show ?thesis using assms(3,4) su by (simp add: submit_and_wait_def publish_def Let_def)
qed

lemma sync_write_failed:
  assumes "ep AND 0x80 = 0" "kind \<noteq> Control" "kind \<noteq> Isochronous"
    "sys_transfer S kind ep data tmo (h_world h) = (Inr (st, n, buf), k)" "status_into_result st = Inl e"
  shows "sync_write S kind ep data tmo h = (Fail e, h\<lparr>h_world := k\<rparr>)"
proof -
  let ?t = "(transfer_new kind ep data)\<lparr>tr_timeout := tmo\<rparr> :: unit transfer"
  have "\<not> tr_in_flight ?t" "fst (submit_check ?t) = Val ()"
    using assms(2,3) by (simp_all add: transfer_new_def submit_check_def when_idle_def)
  from submit_and_wait_failed [OF this, of S h st n buf k e] assms show ?thesis
    by (simp add: sync_write_def bindR_def transfer_new_def)
qed

lemma sync_read_failed:
  assumes "ep AND 0x80 \<noteq> 0" "kind \<noteq> Control" "kind \<noteq> Isochronous"
    "sys_transfer S kind ep (replicate (length buf) 0) tmo (h_world h) = (Inr (st, n, out), k)"
    "status_into_result st = Inl e"
  shows "sync_read S kind ep buf tmo h = (Fail e, h\<lparr>h_world := k\<rparr>)"
proof -
  let ?t = "(transfer_new kind ep (replicate (length buf) 0))\<lparr>tr_timeout := tmo\<rparr> :: unit transfer"
  have "\<not> tr_in_flight ?t" "fst (submit_check ?t) = Val ()"
    using assms(2,3) by (simp_all add: transfer_new_def submit_check_def when_idle_def)
  from submit_and_wait_failed [OF this, of S h st n out k e] assms show ?thesis
    by (simp add: sync_read_def bindR_def transfer_new_def)
qed

lemma sync_read_refused:
  assumes "ep AND 0x80 \<noteq> 0" "kind \<noteq> Control" "kind \<noteq> Isochronous"
    "sys_transfer S kind ep (replicate (length buf) 0) tmo (h_world h) = (Inl e, k)"
  shows "sync_read S kind ep buf tmo h = (Fail e, h\<lparr>h_world := k\<rparr>)"
proof -
  let ?t = "(transfer_new kind ep (replicate (length buf) 0))\<lparr>tr_timeout := tmo\<rparr> :: unit transfer"
  have "submit (\<lambda>_. Inr ()) ?t = (Val (), ?t\<lparr>tr_in_flight := True, tr_actual := 0\<rparr>)"
    using assms(2,3) by (simp add: submit_def bindR_def submit_check_def when_idle_def transfer_new_def Let_def)
  then have "submit_and_wait S ?t h = (Fail e, h\<lparr>h_world := k\<rparr>)"
    using assms(4) by (simp add: submit_and_wait_def transfer_new_def)
  then show ?thesis using assms(1) by (simp add: sync_read_def bindR_def)
qed

section \<open>Little-endian fields\<close>

definition le32 :: "bytes \<Rightarrow> nat \<Rightarrow> u32" where
  "le32 b at = ucast (le16 b at) OR push_bit 16 (ucast (le16 b (at + 2)))"

lemma le16_drop: "le16 b (n + k) = le16 (drop n b) k"
  by (simp add: le16_def add.assoc)

lemma le16_at: "length xs = n \<Longrightarrow> le16 (xs @ le_bytes16 v @ ys) n = v"
  by (simp add: le16_def byte_at_append le_bytes16_def)

lemma u32_le_halves: "u32_le b0 b1 b2 b3 = ucast (u16_le b0 b1) OR push_bit 16 (ucast (u16_le b2 b3))"
proof (rule bit_word_eqI)
  fix i assume "i < LENGTH(32)"
  then consider "i < 8" | "8 \<le> i" "i < 16" | "16 \<le> i" "i < 24" | "24 \<le> i" "i < 32" by fastforce
  then show "bit (u32_le b0 b1 b2 b3) i = bit (ucast (u16_le b0 b1) OR push_bit 16 (ucast (u16_le b2 b3)) :: u32) i"
    by cases (auto simp: u16_le_def u32_le_def bit_simps bit_u8_out)
qed

lemma le32_u32: "le32 b n = u32_le (byte_at b n) (byte_at b (n + 1)) (byte_at b (n + 2)) (byte_at b (n + 3))"
proof -
  have "n + 2 + 1 = n + 3" by simp
  then show ?thesis unfolding le32_def le16_def u32_le_halves by presburger
qed

lemma le32_drop: "le32 b (k + n) = le32 (drop k b) n"
  by (simp add: le32_u32 add.assoc)

lemma le32_bytes: "le32 (le_bytes32 v @ ys) 0 = v" "le32 (le_bytes32 v @ ys) (4 + n) = le32 ys n"
  by (simp add: le32_u32 le_bytes32_def) (simp add: le32_drop)

lemma le32_bytes_numeral:
  "le32 (le_bytes32 v @ ys) 4 = le32 ys 0" "le32 (le_bytes32 v @ ys) 8 = le32 ys 4" "le32 (le_bytes32 v @ ys) 12 = le32 ys 8"
  using le32_bytes(2) [of v ys 0] le32_bytes(2) [of v ys 4] le32_bytes(2) [of v ys 8] by simp_all

section \<open>A backend that accepts everything\<close>

text \<open>For closed instances: only the transfers are left open.\<close>

definition quiet_sys :: "(transfer_type \<Rightarrow> u8 \<Rightarrow> bytes \<Rightarrow> nat \<Rightarrow> ('k, transfer_status \<times> nat \<times> bytes) sysop) \<Rightarrow> 'k sys" where
  "quiet_sys transfer = \<lparr>sys_active_config = Pair (Ok (Some 1)), sys_set_config = (\<lambda>_. Pair (Ok ())),
     sys_claim = (\<lambda>_. Pair (Ok ())), sys_release = (\<lambda>_. Pair (Ok ())), sys_set_alt = (\<lambda>_ _. Pair (Ok ())),
     sys_clear_halt = (\<lambda>_. Pair (Ok ())), sys_reset = Pair (Ok ()), sys_driver_active = (\<lambda>_. Pair (Ok False)),
     sys_detach = (\<lambda>_. Pair (Ok ())), sys_attach = (\<lambda>_. Pair (Ok ())), sys_transfer = transfer,
     sys_cancel_all = (\<lambda>k. k), sys_close = (\<lambda>k. k)\<rparr>"

lemma quiet_transfer [simp]: "sys_transfer (quiet_sys t) = t"
  by (simp add: quiet_sys_def)

end
