(* ===== verification/Usb_Owned.thy ===== *)
theory Usb_Owned
  imports Usb_Class
begin

text \<open>
  The interfaces a handle lists as claimed (\<open>src/src/handle.rs\<close>, \<open>src/src/class.rs\<close>) against those the
  platform has claimed for it. \<open>claiming_backend\<close> is what a platform's operations do to the set it owns: a claim
  adds to it, a release or a detached driver takes from it, a reset and a new configuration empty it. On a platform
  whose releases succeed nothing is owned that is not listed, whatever is done with the handle; and what is
  listed is owned as long as no reset fails and no driver is detached from a listed interface, on a platform that guards
  claimed interfaces (\<open>guards_claims\<close>).
\<close>

text \<open>The two directions: \<open>tied True\<close> is for everything owned being listed, \<open>tied False\<close> for everything listed being owned.\<close>

definition tied :: "bool \<Rightarrow> ('k \<Rightarrow> u8 set) \<Rightarrow> 'k handle \<Rightarrow> bool" where
  "tied listed owned h \<longleftrightarrow> (listed \<longrightarrow> owned (h_world h) \<subseteq> set (h_claimed h)) \<and> (\<not> listed \<longrightarrow> set (h_claimed h) \<subseteq> owned (h_world h))"

definition ties :: "bool \<Rightarrow> ('k \<Rightarrow> u8 set) \<Rightarrow> ('k handle, 'a) io \<Rightarrow> bool" where
  "ties listed owned m \<longleftrightarrow> (\<forall>h. tied listed owned h \<longrightarrow> tied listed owned (snd (m h)))"

named_theorems tying \<open>operations that keep the list of claims in step with the platform\<close>

lemma tiesD: "ties listed owned m \<Longrightarrow> m h = (r, h') \<Longrightarrow> tied listed owned h \<Longrightarrow> tied listed owned h'"
  unfolding ties_def by (metis snd_conv)

lemma ties_basic [tying]:
  "ties listed owned (ret x)" "ties listed owned (failE e)" "ties listed owned (lift_panic p)" "ties listed owned (get_st g)"
  "ties listed owned (lift_opt q)"
  by (cases p; cases q; simp add: ties_def)+

lemma ties_mod_st [tying]: "(\<And>h. tied listed owned h \<Longrightarrow> tied listed owned (f h)) \<Longrightarrow> ties listed owned (mod_st f)"
  by (simp add: ties_def)

lemma ties_bindR [tying]:
  assumes "ties listed owned m" "\<And>x. ties listed owned (f x)"
  shows "ties listed owned (bindR m f)"
  unfolding ties_def
proof (intro allI impI)
  fix h :: "'a handle"
  assume t: "tied listed owned h"
  obtain r h1 where m: "m h = (r, h1)" by (cases "m h")
  show "tied listed owned (snd (bindR m f h))"
    using tiesD [OF assms(1) m t] assms(2) m by (cases r) (simp_all add: bindR_def ties_def)
qed

lemma ties_matchR [tying]:
  assumes "ties listed owned m" "\<And>x. ties listed owned (f x)" "\<And>e. ties listed owned (g e)"
  shows "ties listed owned (matchR m f g)"
  unfolding ties_def
proof (intro allI impI)
  fix h :: "'a handle"
  assume t: "tied listed owned h"
  obtain r h1 where m: "m h = (r, h1)" by (cases "m h")
  show "tied listed owned (snd (matchR m f g h))"
    using tiesD [OF assms(1) m t] assms(2,3) m by (cases r) (simp_all add: matchR_def ties_def)
qed

lemma ties_ignoreR [tying]: "ties listed owned m \<Longrightarrow> ties listed owned (ignoreR m)"
  unfolding ignoreR_def by (intro tying)

lemma ties_if [tying]:
  "\<lbrakk>b \<Longrightarrow> ties listed owned m; \<not> b \<Longrightarrow> ties listed owned m'\<rbrakk> \<Longrightarrow> ties listed owned (if b then m else m')"
  by simp

lemma ties_for_each [tying]: "(\<And>x. ties listed owned (f x)) \<Longrightarrow> ties listed owned (for_each xs f)"
  by (induction xs) (auto intro: tying)

lemma ties_on_sys [tying]: "(\<And>k. owned (snd (f k)) = owned k) \<Longrightarrow> ties listed owned (on_sys f)"
  by (simp add: ties_def on_sys_eq tied_def)

lemma ties_lease [tying]: "ties listed owned (lease is)"
  by (simp add: ties_def lease_def tied_def)

definition releases_succeed :: "'k sys \<Rightarrow> bool" where
  "releases_succeed S \<longleftrightarrow> (\<forall>i k. fst (sys_release S i k) = Ok ())"

definition guards_claims :: "'k sys \<Rightarrow> ('k \<Rightarrow> u8 set) \<Rightarrow> bool" where
  "guards_claims S owned \<longleftrightarrow> (\<forall>k. (\<forall>i \<in> owned k. fst (sys_driver_active S i k) \<noteq> Ok True)
     \<and> (owned k \<noteq> {} \<longrightarrow> (\<forall>v. \<exists>e. fst (sys_set_config S v k) = Inl e)))"

text \<open>What each direction asks of the platform.\<close>

definition promises :: "'k sys \<Rightarrow> ('k \<Rightarrow> u8 set) \<Rightarrow> bool \<Rightarrow> bool" where
  "promises S owned listed \<longleftrightarrow> (if listed then releases_succeed S else guards_claims S owned)"

definition detach_kernel_driver :: "'k sys \<Rightarrow> u8 \<Rightarrow> ('k handle, unit) io" where
  "detach_kernel_driver S i = on_sys (sys_detach S i)"

definition attach_kernel_driver :: "'k sys \<Rightarrow> u8 \<Rightarrow> ('k handle, unit) io" where
  "attach_kernel_driver S i = on_sys (sys_attach S i)"

definition set_configuration :: "'k sys \<Rightarrow> u8 \<Rightarrow> ('k handle, unit) io" where
  "set_configuration S v = on_sys (sys_set_config S v)"

definition set_auto_detach :: "bool \<Rightarrow> 'k handle \<Rightarrow> 'k handle" where
  "set_auto_detach enable h = h\<lparr>h_auto_detach := enable\<rparr>"

text \<open>What is done with a handle; \<open>careful\<close> leaves out failing resets and detaching the driver of a listed interface.\<close>

inductive handle_op :: "bool \<Rightarrow> 'k sys \<Rightarrow> 'k handle \<Rightarrow> 'k handle \<Rightarrow> bool" for careful S where
  claim: "handle_op careful S h (snd (claim_interface S i h))"
| claim_detaching: "handle_op careful S h (snd (claim_interface_detaching S i h))"
| release: "handle_op careful S h (snd (release_interface S i h))"
| claim_all: "handle_op careful S h (snd (claim_all_loop S [] is h))"
| helper_claim: "handle_op careful S h (snd (claim_new S is h))"
| helper_drop: "handle_op careful S h (claim_drop S c h)"
| set_alt: "handle_op careful S h (snd (set_alternate_setting S i a h))"
| clear: "handle_op careful S h (snd (clear_halt S ep h))"
| reset: "handle_op careful S h (snd (reset S h))" if "careful \<longrightarrow> fst (reset S h) = Val ()"
| configure: "handle_op careful S h (snd (set_configuration S v h))"
| configuration: "handle_op careful S h (snd (active_configuration S h))"
| driver: "handle_op careful S h (snd (on_sys (sys_driver_active S i) h))"
| detach: "handle_op careful S h (snd (detach_kernel_driver S i h))" if "careful \<longrightarrow> i \<notin> set (h_claimed h)"
| attach: "handle_op careful S h (snd (attach_kernel_driver S i h))"
| auto_detach: "handle_op careful S h (set_auto_detach enable h)"
| transfer: "handle_op careful S h (snd (submit_and_wait S t h))"

section \<open>The contract\<close>

locale claiming_backend =
  fixes S :: "'k sys" and owned :: "'k \<Rightarrow> u8 set"
  assumes claim_effect: "owned (snd (sys_claim S i k)) = (case fst (sys_claim S i k) of Inr _ \<Rightarrow> insert i (owned k) | Inl _ \<Rightarrow> owned k)"
    and release_effect: "owned (snd (sys_release S i k)) = (case fst (sys_release S i k) of Inr _ \<Rightarrow> owned k - {i} | Inl _ \<Rightarrow> owned k)"
    and detach_effect: "owned (snd (sys_detach S i k)) = (case fst (sys_detach S i k) of Inr _ \<Rightarrow> owned k - {i} | Inl _ \<Rightarrow> owned k)"
    and reset_effect: "owned (snd (sys_reset S k)) = (case fst (sys_reset S k) of Inr _ \<Rightarrow> {} | Inl _ \<Rightarrow> owned k)"
    and config_effect: "owned (snd (sys_set_config S v k)) = (case fst (sys_set_config S v k) of Inr _ \<Rightarrow> {} | Inl _ \<Rightarrow> owned k)"
    and driver_keeps: "owned (snd (sys_driver_active S i k)) = owned k" "owned (snd (sys_attach S i k)) = owned k"
    and setup_keeps: "owned (snd (sys_set_alt S i a k)) = owned k" "owned (snd (sys_clear_halt S ep k)) = owned k"
      "owned (snd (sys_active_config S k)) = owned k"
    and transfer_keeps: "owned (snd (sys_transfer S kind ep buf tmo k)) = owned k"
    and end_keeps: "owned (sys_cancel_all S k) = owned k" "owned (sys_close S k) = owned k"
begin

lemma ties_claim_sys [tying]: "ties listed owned (claim_sys S i denied)"
  unfolding ties_def
proof (intro allI impI)
  fix h :: "'k handle"
  assume "tied listed owned h"
  then show "tied listed owned (snd (claim_sys S i denied h))"
    using claim_effect [of i "h_world h"]
    by (cases "fst (sys_claim S i (h_world h))") (auto simp: claim_sys_def matchR_def on_sys_eq tied_def out_of_def split: if_splits)
qed

text \<open>The claim detaches a driver only where one is bound, and a claimed interface has none but usbfs.\<close>

lemma tied_detached:
  assumes "tied listed owned h" "i \<notin> owned (h_world h)"
  shows "tied listed owned (h\<lparr>h_world := snd (sys_detach S i (h_world h))\<rparr>)"
  using assms detach_effect [of i "h_world h"] by (cases "fst (sys_detach S i (h_world h))") (auto simp: tied_def)

lemma tied_detached_listed:
  "tied True owned h \<Longrightarrow> tied True owned (h\<lparr>h_world := snd (sys_detach S i (h_world h))\<rparr>)"
  using detach_effect [of i "h_world h"] by (cases "fst (sys_detach S i (h_world h))") (auto simp: tied_def)

lemma ties_claim [tying]:
  assumes "promises S owned listed"
  shows "ties listed owned (claim S i detach)"
  unfolding ties_def
proof (intro allI impI)
  fix h :: "'k handle"
  assume t: "tied listed owned h"
  have next_: "tied listed owned (snd (claim_sys S i d h'))" if "tied listed owned h'" for d h'
    using that ties_claim_sys [of listed i d] by (simp add: ties_def)
  show "tied listed owned (snd (claim S i detach h))"
  proof (cases detach)
    case False
    then show ?thesis using next_ [OF t] by (simp add: claim_def bindR_def)
  next
    case True
    let ?k = "snd (sys_driver_active S i (h_world h))"
    let ?h = "h\<lparr>h_world := ?k\<rparr>"
    have th: "tied listed owned ?h" using t by (simp add: tied_def driver_keeps)
    show ?thesis
    proof (cases "fst (sys_driver_active S i (h_world h)) = Ok True")
      case bound: True
      let ?d = "h\<lparr>h_world := snd (sys_detach S i ?k)\<rparr>"
      have "i \<notin> owned (h_world h)" if "\<not> listed" using assms bound that by (auto simp: promises_def guards_claims_def)
      then have td: "tied listed owned ?d"
        using tied_detached [OF th, of i] tied_detached_listed [of ?h i] th by (cases listed) (simp_all add: driver_keeps)
      have "tied listed owned (?d\<lparr>h_detached := x\<rparr>)" for x using td by (simp add: tied_def)
      with td show ?thesis using True bound next_
        by (cases "fst (sys_detach S i ?k)")
          (auto simp: claim_def driver_bound_def bindR_def matchR_def on_sys_eq out_of_def)
    next
      case False
      then have "driver_bound S i h = (Val False, ?h)"
        by (cases "fst (sys_driver_active S i (h_world h))") (auto simp: driver_bound_def matchR_def on_sys_eq)
      then show ?thesis using True next_ [OF th] by (simp add: claim_def bindR_def)
    qed
  qed
qed

lemma ties_claim_interface [tying]:
  "promises S owned listed \<Longrightarrow> ties listed owned (claim_interface S i)" "promises S owned listed \<Longrightarrow> ties listed owned (claim_interface_detaching S i)"
  unfolding claim_interface_def claim_interface_detaching_def by (intro tying, assumption)+

lemma ties_release [tying]:
  assumes "promises S owned listed"
  shows "ties listed owned (release_interface S i)"
  unfolding ties_def
proof (intro allI impI)
  fix h :: "'k handle"
  assume "tied listed owned h"
  then show "tied listed owned (snd (release_interface S i h))"
    using release_effect [of i "h_world h"] driver_keeps(2) [of i "snd (sys_release S i (h_world h))"] assms
    by (cases "fst (sys_release S i (h_world h))")
      (auto simp: release_interface_def Let_def tied_def promises_def releases_succeed_def case_prod_beta split: if_splits)
qed

lemma ties_claim_all_loop [tying]:
  assumes "promises S owned listed"
  shows "ties listed owned (claim_all_loop S newly is)"
proof (induction "is" arbitrary: newly)
  case (Cons i "is")
  show ?case unfolding claim_all_loop.simps by (intro tying Cons.IH assms)
qed (simp add: ties_def)

lemma ties_claim_all [tying]: "promises S owned listed \<Longrightarrow> ties listed owned (claim_all_interfaces S d)"
  unfolding claim_all_interfaces_def by (intro tying)

lemma tied_claim_drop:
  assumes "promises S owned listed" "tied listed owned h"
  shows "tied listed owned (claim_drop S c h)"
proof -
  have "tied listed owned (fold (\<lambda>i h. snd (release_interface S i h)) is h)" for "is"
    using assms(2) ties_release [OF assms(1)] by (induction "is" arbitrary: h) (auto simp: ties_def)
  then show ?thesis by (simp add: claim_drop_def unlease_def tied_def)
qed

lemma ties_claim_wanted [tying]:
  assumes "promises S owned listed"
  shows "ties listed owned (claim_wanted S leased own is)"
proof (induction "is" arbitrary: own)
  case (Cons i "is")
  show ?case unfolding claim_wanted.simps by (intro tying Cons.IH tied_claim_drop assms)
qed (simp add: ties_def)

lemma ties_claim_new [tying]: "promises S owned listed \<Longrightarrow> ties listed owned (claim_new S is)"
  unfolding claim_new_def Let_def by (intro tying)

lemma ties_setup [tying]: "ties listed owned (set_alternate_setting S i a)" "ties listed owned (clear_halt S ep)"
  unfolding set_alternate_setting_def clear_halt_def by (intro tying setup_keeps)+

lemma transfer_alone: "h_claimed (snd (submit_and_wait S t h)) = h_claimed h \<and> owned (h_world (snd (submit_and_wait S t h))) = owned (h_world h)"
proof (cases "submit (\<lambda>_. Inr ()) t")
  case (Pair r u)
  obtain q k where q: "sys_transfer S (tr_kind u) (tr_endpoint u) (tr_buffer u) (tr_timeout u) (h_world h) = (q, k)" by fastforce
  have k: "owned k = owned (h_world h)" using transfer_keeps [of "tr_kind u" "tr_endpoint u" "tr_buffer u" "tr_timeout u" "h_world h"] q by simp
  show ?thesis
    by (cases r; cases q) (use k in \<open>auto simp: submit_and_wait_def Pair q Let_def split: prod.split sum.split\<close>)
qed

lemma ties_transfer [tying]: "ties listed owned (submit_and_wait S t)"
  using transfer_alone by (simp add: ties_def tied_def)

lemma ties_control_read [tying]: "ties listed owned (control_read S rt r v i buf tmo)"
  unfolding control_read_def control_transfer_def Let_def
  by (auto intro!: tying split: prod.split out.split)

lemma ties_active_configuration [tying]: "ties listed owned (active_configuration S)"
  unfolding active_configuration_def
  by (intro tying setup_keeps) (auto intro!: tying split: option.split)

text \<open>A reset that succeeds empties the set and asks for every listed interface again.\<close>

lemma reclaimed:
  assumes "set is \<subseteq> set (h_claimed h)" "owned (h_world h) \<subseteq> set (h_claimed h)"
    and "for_each is (\<lambda>i. matchR (on_sys (sys_claim S i)) ret (\<lambda>_. failK NotFound)) h = (r, h')"
  shows "h_claimed h' = h_claimed h" "owned (h_world h') \<subseteq> set (h_claimed h)" "r = Val () \<Longrightarrow> set is \<union> owned (h_world h) \<subseteq> owned (h_world h')"
proof -
  have "h_claimed h' = h_claimed h \<and> owned (h_world h') \<subseteq> set (h_claimed h) \<and> (r = Val () \<longrightarrow> set is \<union> owned (h_world h) \<subseteq> owned (h_world h'))"
    using assms
  proof (induction "is" arbitrary: h)
    case (Cons i "is")
    let ?h = "h\<lparr>h_world := snd (sys_claim S i (h_world h))\<rparr>"
    show ?case
    proof (cases "fst (sys_claim S i (h_world h))")
      case (Inl e)
      then show ?thesis using Cons.prems claim_effect [of i "h_world h"] by (auto simp: bindR_def matchR_def on_sys_eq out_of_def)
    next
      case (Inr u)
      have step: "matchR (on_sys (sys_claim S i)) ret (\<lambda>_. failK NotFound) h = (Val (), ?h)"
        using Inr by (simp add: matchR_def on_sys_eq out_of_def)
      have "for_each is (\<lambda>i. matchR (on_sys (sys_claim S i)) ret (\<lambda>_. failK NotFound)) ?h = (r, h')"
        using Cons.prems(3) by (simp only: for_each.simps bindR_def step prod.case out.case)
      from Cons.IH [OF _ _ this] Cons.prems(1,2) claim_effect [of i "h_world h"] Inr show ?thesis by auto
    qed
  qed simp
  then show "h_claimed h' = h_claimed h" "owned (h_world h') \<subseteq> set (h_claimed h)" "r = Val () \<Longrightarrow> set is \<union> owned (h_world h) \<subseteq> owned (h_world h')"
    by blast+
qed

lemma tied_reset:
  assumes "tied listed owned h" "\<not> listed \<longrightarrow> fst (reset S h) = Val ()"
  shows "tied listed owned (snd (reset S h))"
proof (cases "fst (sys_reset S (h_world h))")
  case (Inl e)
  then show ?thesis using assms(1) reset_effect [of "h_world h"]
    by (simp add: reset_def bindR_def on_sys_eq out_of_def tied_def)
next
  case (Inr u)
  let ?h = "h\<lparr>h_world := snd (sys_reset S (h_world h))\<rparr>"
  obtain r h' where f: "for_each (h_claimed h) (\<lambda>i. matchR (on_sys (sys_claim S i)) ret (\<lambda>_. failK NotFound)) ?h = (r, h')" by fastforce
  have e: "owned (h_world ?h) = {}" using reset_effect [of "h_world h"] Inr by simp
  have run: "reset S h = (r, h')" using Inr f by (simp add: reset_def bindR_def on_sys_eq out_of_def)
  from reclaimed [OF _ _ f] e assms(2) run show ?thesis by (auto simp: tied_def)
qed

text \<open>Dropping the handle gives back what it lists; on a platform whose releases succeed, all of it.\<close>

lemma drop_releases:
  assumes "tied True owned h" "releases_succeed S"
  shows "owned (handle_drop S h) = {}"
proof -
  have r: "owned (fold (\<lambda>i k. snd (sys_release S i k)) is k) = owned k - set is" for "is" k
  proof (induction "is" arbitrary: k)
    case (Cons i "is")
    then show ?case using release_effect [of i k] assms(2) by (auto simp: releases_succeed_def)
  qed simp
  have a: "owned (fold (\<lambda>i k. snd (sys_attach S i k)) is k) = owned k" for "is" k
    by (induction "is" arbitrary: k) (simp_all add: driver_keeps)
  show ?thesis using assms(1) by (simp add: handle_drop_def Let_def end_keeps r a tied_def)
qed

lemma ties_driver [tying]: "ties listed owned (on_sys (sys_driver_active S i))" "ties listed owned (attach_kernel_driver S i)"
  unfolding attach_kernel_driver_def by (intro tying driver_keeps)+

lemma history_tied:
  assumes "(handle_op careful S)\<^sup>*\<^sup>* h h'" "promises S owned listed" "\<not> listed \<longrightarrow> careful" "tied listed owned h"
  shows "tied listed owned h'"
  using assms(1,4)
proof induction
  case (step h1 h2)
  have t: "tied listed owned h1" using step by blast
  from step(2) show ?case
  proof cases
    case reset
    then show ?thesis using tied_reset [OF t] assms(3) by simp
  next
    case (configure v)
    have "owned (h_world h1) = {}" if ok: "fst (sys_set_config S v (h_world h1)) = Inr x" "\<not> listed" for x
    proof (rule ccontr)
      assume "owned (h_world h1) \<noteq> {}"
      then have "\<forall>v. \<exists>e. fst (sys_set_config S v (h_world h1)) = Inl e"
        using assms(2) ok(2) unfolding promises_def guards_claims_def by presburger
      then obtain e where "fst (sys_set_config S v (h_world h1)) = Inl e" by blast
      with ok(1) show False by simp
    qed
    with t show ?thesis using config_effect [of v "h_world h1"]
      by (cases "fst (sys_set_config S v (h_world h1))") (auto simp: configure set_configuration_def on_sys_eq tied_def split: if_splits)
  next
    case (detach i)
    then show ?thesis using t detach_effect [of i "h_world h1"] assms(3)
      by (cases "fst (sys_detach S i (h_world h1))") (auto simp: detach_kernel_driver_def on_sys_eq tied_def split: if_splits)
  next
    case auto_detach
    then show ?thesis using t by (simp add: tied_def set_auto_detach_def)
  qed (use t assms(2) in \<open>auto simp: tied_claim_drop intro: tying [unfolded ties_def, rule_format]\<close>)
qed simp

end

end
