(* ===== verification/Linux_System.thy ===== *)
theory Linux_System
  imports Linux_Events Linux_Usbfs Usb_Owned
begin

text \<open>
  The Linux backend as the platform the rest of the library runs on: the operations of a handle as
  usbfs requests (\<open>src/src/sys/linux/mod.rs\<close>), opening a device, and a synchronous transfer as a
  submission followed by passes of the event thread until the last URB is back, or stuck when the kernel
  neither gives it back nor reports the device gone. What is claimed is read off the requests made
  (\<open>linux_claims\<close>). The kernel is a record of
  functions from the requests made so far to its next answers. \<open>linux_sys\<close> is this backend as a record
  \<open>sys\<close>, so the lemmas about handles and class helpers hold of it.
\<close>

section \<open>The kernel\<close>

datatype usb_ioctl =
    UiSetConfiguration u8
  | UiClaim u8
  | UiRelease u8
  | UiSetInterface u8 u8
  | UiClearHalt u8
  | UiReset
  | UiGetDriver u8
  | UiDriver u8 usbfs_request
  | UiTransfer transfer_type u8 nat

text \<open>An answer is an errno or the data written back.\<close>

type_synonym usb_trace = "(usb_ioctl \<times> (int + bytes)) list"

text \<open>A pass of the event thread over a handle with one transfer: the events reported, the URBs given back, the
  error that ends the reaping, the clock and the URBs a discard still finds.\<close>

record urb_pass =
  up_revents :: u16
  up_reaped :: "nat list"
  up_errno :: int
  up_now :: nat
  up_still :: "nat \<Rightarrow> bool"

record linux_kernel =
  lk_answer :: "usb_trace \<Rightarrow> usb_ioctl \<Rightarrow> int + bytes"
  lk_config :: "usb_trace \<Rightarrow> string option"
  lk_now :: "usb_trace \<Rightarrow> nat"
  lk_refuses :: "usb_trace \<Rightarrow> nat \<Rightarrow> int option"
  lk_report :: "usb_trace \<Rightarrow> urb \<Rightarrow> urb_report"
  lk_passes :: "usb_trace \<Rightarrow> urb_pass list"
  lk_memory :: "usb_trace \<Rightarrow> bytes \<Rightarrow> bytes"

record linux_world =
  lw_caps :: u32
  lw_gone :: bool
  lw_trace :: usb_trace

section \<open>Opening\<close>

text \<open>\<open>Context::open\<close>, from the answers of \<open>open\<close> and of \<open>GET_CAPABILITIES\<close>.\<close>

definition linux_open :: "(io_kind \<times> i32 option) + unit \<Rightarrow> int + u32 \<Rightarrow> linux_world result" where
  "linux_open file caps = (case file of
      Inl (k, code) \<Rightarrow>
        (let err = error_from_io (\<lambda>c. errno_kind (sint c)) k code;
             kind = (if err_kind err = NotFound then NoDevice else err_kind err)
         in Inl (error_from_code kind (case err_code err of Some c \<Rightarrow> c | None \<Rightarrow> 0)))
    | Inr _ \<Rightarrow> Ok \<lparr>lw_caps = (case caps of Inl _ \<Rightarrow> 0 | Inr c \<Rightarrow> c), lw_gone = False, lw_trace = []\<rparr>)"

section \<open>Requests\<close>

definition linux_ioctl :: "linux_kernel \<Rightarrow> usb_ioctl \<Rightarrow> linux_world \<Rightarrow> (int + bytes) \<times> linux_world" where
  "linux_ioctl K c w = (let r = lk_answer K (lw_trace w) c in (r, w\<lparr>lw_trace := (c, r) # lw_trace w\<rparr>))"

definition linux_request :: "linux_kernel \<Rightarrow> usb_ioctl \<Rightarrow> (linux_world, unit) sysop" where
  "linux_request K c w = (case linux_ioctl K c w of
      (Inl e, w) \<Rightarrow> (Inl (os_error e), w)
    | (Inr _, w) \<Rightarrow> (Ok (), w))"

definition linux_set_configuration :: "linux_kernel \<Rightarrow> u8 \<Rightarrow> (linux_world, unit) sysop" where
  "linux_set_configuration K v = linux_request K (UiSetConfiguration v)"

definition linux_claim :: "linux_kernel \<Rightarrow> u8 \<Rightarrow> (linux_world, unit) sysop" where
  "linux_claim K i = linux_request K (UiClaim i)"

definition linux_release :: "linux_kernel \<Rightarrow> u8 \<Rightarrow> (linux_world, unit) sysop" where
  "linux_release K i = linux_request K (UiRelease i)"

definition linux_set_alt :: "linux_kernel \<Rightarrow> u8 \<Rightarrow> u8 \<Rightarrow> (linux_world, unit) sysop" where
  "linux_set_alt K i a = linux_request K (UiSetInterface i a)"

definition linux_clear_halt :: "linux_kernel \<Rightarrow> u8 \<Rightarrow> (linux_world, unit) sysop" where
  "linux_clear_halt K ep = linux_request K (UiClearHalt ep)"

definition linux_reset :: "linux_kernel \<Rightarrow> (linux_world, unit) sysop" where
  "linux_reset K = linux_request K UiReset"

definition linux_driver_active :: "linux_kernel \<Rightarrow> u8 \<Rightarrow> (linux_world, bool) sysop" where
  "linux_driver_active K i w = (case linux_ioctl K (UiGetDriver i) w of (r, w) \<Rightarrow> (kernel_driver_active r, w))"

definition linux_driver :: "linux_kernel \<Rightarrow> usbfs_request \<Rightarrow> u8 \<Rightarrow> (linux_world, unit) sysop" where
  "linux_driver K q i w = (case linux_ioctl K (UiDriver i q) w of (r, w) \<Rightarrow> (driver_ioctl (map_sum id (\<lambda>_. ()) r), w))"

definition linux_detach :: "linux_kernel \<Rightarrow> u8 \<Rightarrow> (linux_world, unit) sysop" where
  "linux_detach K = linux_driver K RqDisconnect"

definition linux_attach :: "linux_kernel \<Rightarrow> u8 \<Rightarrow> (linux_world, unit) sysop" where
  "linux_attach K = linux_driver K RqConnect"

text \<open>The configuration is read from sysfs.\<close>

definition linux_active_configuration :: "linux_kernel \<Rightarrow> (linux_world, u8 option) sysop" where
  "linux_active_configuration K w =
     (Ok (map_option (\<lambda>s. case parse_unsigned 255 (trim s) of Some v \<Rightarrow> of_nat v | None \<Rightarrow> 0) (lk_config K (lw_trace w))), w)"

section \<open>A synchronous transfer\<close>

text \<open>The passes of the event thread that follow a submission, up to the completion. \<open>None\<close> is a panic of the event
  thread.\<close>

definition pass_service :: "(urb \<Rightarrow> urb_report) \<Rightarrow> urb list \<Rightarrow> urb_pass \<Rightarrow> service" where
  "pass_service report urbs p = \<lparr>sv_revents = up_revents p,
     sv_answers = map (\<lambda>i. ReapUrb 0 i (report (urbs ! i))) (up_reaped p) @ [ReapErr (up_errno p)],
     sv_still = (\<lambda>_. up_still p)\<rparr>"

fun run_passes :: "(urb \<Rightarrow> urb_report) \<Rightarrow> urb list \<Rightarrow> urb_pass list \<Rightarrow> lx \<Rightarrow> lx option" where
  "run_passes report urbs [] m = Some m"
| "run_passes report urbs (p # ps) m =
     (if lx_log m \<noteq> [] then Some m
      else case serve_handle (up_now p) (pass_service report urbs p) m of
        None \<Rightarrow> None
      | Some m \<Rightarrow> run_passes report urbs ps m)"

definition lx_fresh :: "bool \<Rightarrow> lx" where
  "lx_fresh gone = lx_init\<lparr>lx_disconnected := gone\<rparr>"

text \<open>The thread that waits is woken by the completion; without one after the last pass, it waits still (\<open>Stuck\<close>).\<close>

definition linux_wait :: "linux_kernel \<Rightarrow> usb_trace \<Rightarrow> lx \<Rightarrow> (transfer_status \<times> nat \<times> bool) run" where
  "linux_wait K tr m = (case lx_subs m 0 of
      None \<Rightarrow> Stuck
    | Some (k, sub) \<Rightarrow> (case run_passes (lk_report K tr) (sb_urbs sub) (lk_passes K tr) m of
        None \<Rightarrow> Panics
      | Some m \<Rightarrow> (case map_of (lx_log m) 0 of
          None \<Rightarrow> Stuck
        | Some (st, n, _) \<Rightarrow> Done (st, n, lx_disconnected m))))"

text \<open>The last case stands for a call that does not return: \<open>linux_transfer_returns\<close> says when that is.\<close>

definition linux_transfer ::
  "linux_kernel \<Rightarrow> transfer_type \<Rightarrow> u8 \<Rightarrow> bytes \<Rightarrow> nat \<Rightarrow> (linux_world, transfer_status \<times> nat \<times> bytes) sysop" where
  "linux_transfer K kind ep buf tmo w =
     (let tr = lw_trace w; w' = w\<lparr>lw_trace := (UiTransfer kind ep (length buf), Inr []) # tr\<rparr>;
          t = (transfer_new kind ep buf :: unit transfer)\<lparr>tr_timeout := tmo\<rparr>
      in case lx_submit (lw_caps w) (lk_now K tr) (lk_refuses K tr) 0 t (lx_fresh (lw_gone w)) of
           (Inl e, m) \<Rightarrow> (Inl e, w')
         | (Inr _, m) \<Rightarrow> (case linux_wait K tr m of
             Done (st, n, gone) \<Rightarrow> (Ok (st, n, lk_memory K tr buf), w'\<lparr>lw_gone := gone\<rparr>)
           | _ \<Rightarrow> (Err Other, w')))"

definition linux_sys :: "linux_kernel \<Rightarrow> linux_world sys" where
  "linux_sys K = \<lparr>sys_active_config = linux_active_configuration K, sys_set_config = linux_set_configuration K,
     sys_claim = linux_claim K, sys_release = linux_release K, sys_set_alt = linux_set_alt K,
     sys_clear_halt = linux_clear_halt K, sys_reset = linux_reset K, sys_driver_active = linux_driver_active K,
     sys_detach = linux_detach K, sys_attach = linux_attach K, sys_transfer = linux_transfer K,
     sys_cancel_all = id, sys_close = id\<rparr>"

section \<open>A transfer comes back\<close>

text \<open>What the kernel promises: a URB moves no more than it asks for, a control one leaves out its setup packet, and
  memory is written in place.\<close>

definition kernel_honest :: "linux_kernel \<Rightarrow> bool" where
  "kernel_honest K \<longleftrightarrow> (\<forall>tr u. ur_iso (lk_report K tr u) = [] \<and> nat (ur_actual (lk_report K tr u)) \<le> urb_length u
       \<and> (urb_type u = 2 \<longrightarrow> 8 \<le> urb_length u \<longrightarrow> nat (ur_actual (lk_report K tr u)) + 8 \<le> urb_length u))
     \<and> (\<forall>tr b. length (lk_memory K tr b) = length b)"

definition fits :: "transfer_type \<Rightarrow> nat \<Rightarrow> nat \<Rightarrow> bool" where
  "fits kind len n \<longleftrightarrow> n + (if kind = Control then 8 else 0) \<le> len"

text \<open>The URBs of a transfer that is not isochronous.\<close>

definition urbs_ok :: "transfer_type \<Rightarrow> nat \<Rightarrow> urb list \<Rightarrow> bool" where
  "urbs_ok kind len urbs \<longleftrightarrow> kind \<noteq> Isochronous \<and> sum_list (map urb_length urbs) \<le> len
     \<and> (kind = Control \<longrightarrow> 8 \<le> len \<and> (\<exists>u. urbs = [u] \<and> urb_type u = 2 \<and> urb_length u = len))"

definition alone :: "transfer_type \<Rightarrow> nat \<Rightarrow> urb list \<Rightarrow> lx \<Rightarrow> bool" where
  "alone kind len urbs m \<longleftrightarrow> lx_inv m \<and> (\<forall>tid. tid \<noteq> 0 \<longrightarrow> lx_subs m tid = None) \<and>
     (case lx_subs m 0 of
        Some (k, sub) \<Rightarrow> k = kind \<and> sb_urbs sub = urbs \<and> lx_log m = []
      | None \<Rightarrow> \<exists>st n iso. lx_log m = [(0, st, n, iso)] \<and> fits kind len n)"

lemma account_plain:
  assumes "k \<noteq> Isochronous" "account k i r sub = Some sub'"
  shows "sb_actual sub' = sb_actual sub + nat (max (ur_actual r) 0)" "sb_urbs sub' = sb_urbs sub"
  using assms by (auto simp: account_def Let_def note_status_def split: option.splits if_splits)

lemma alone_sub:
  assumes "alone kind len urbs m" "urbs_ok kind len urbs" "lx_subs m 0 = Some (k, sub)" "(0, i) \<in> set (lx_pending m)"
  shows "i < length urbs" "sb_actual sub + urb_length (urbs ! i) \<le> len" "kind = Control \<Longrightarrow> sb_actual sub = 0"
proof -
  have s: "sub_inv kind sub (pending_of 0 m)" "sb_urbs sub = urbs"
    using assms(1,3) by (auto simp: alone_def lx_inv_def)
  have i: "i \<in> set (pending_of 0 m)" using assms(4) by (simp add: pending_of_mem)
  show il: "i < length urbs" using s i by (auto simp: sub_inv_def)
  have "urb_length (urbs ! i) \<le> sum_list (map (\<lambda>i. urb_length (urbs ! i)) (pending_of 0 m))"
    using i by (intro member_le_sum_list) auto
  then have "sb_actual sub + urb_length (urbs ! i) \<le> sum_list (map urb_length urbs)" using s by (simp add: sub_inv_def)
  then show "sb_actual sub + urb_length (urbs ! i) \<le> len" using assms(2) by (simp add: urbs_ok_def)
  assume "kind = Control"
  then obtain u where "urbs = [u]" "urb_length u = len" using assms(2) by (auto simp: urbs_ok_def)
  then show "sb_actual sub = 0" using \<open>sb_actual sub + urb_length (urbs ! i) \<le> sum_list (map urb_length urbs)\<close> il by simp
qed

lemma honest_report:
  assumes "kernel_honest K" "kind \<noteq> Isochronous"
  shows "report_ok kind u (lk_report K tr u)"
  using assms by (simp add: kernel_honest_def report_ok_def)

lemma alone_reap:
  assumes "alone kind len urbs m" "urbs_ok kind len urbs" "kernel_honest K"
  shows "\<exists>m'. lx_reap 0 i (lk_report K tr (urbs ! i)) m = Some m' \<and> alone kind len urbs m'"
proof (cases "(0, i) \<in> set (lx_pending m)")
  case False
  then show ?thesis using assms(1) by (simp add: lx_reap_def)
next
  case True
  let ?r = "lk_report K tr (urbs ! i)"
  have kind: "kind \<noteq> Isochronous" using assms(2) by (simp add: urbs_ok_def)
  have inv: "lx_inv m" using assms(1) by (simp add: alone_def)
  have "pending_of 0 m \<noteq> []" using True pending_of_mem [of i 0 m] by auto
  then obtain k sub where s: "lx_subs m 0 = Some (k, sub)" using inv by (cases "lx_subs m 0") (auto simp: lx_inv_def)
  have ks: "k = kind" "sb_urbs sub = urbs" "lx_log m = []" using assms(1) s by (simp_all add: alone_def)
  have "report_ok k' (sb_urbs sub' ! i) ?r" if "lx_subs m 0 = Some (k', sub')" for k' sub'
    using honest_report [OF assms(3) kind] that s ks by simp
  from lx_reap_ok [OF inv this] obtain m' where m': "lx_reap 0 i ?r m = Some m'" "lx_inv m'" by blast
  obtain sub' where a: "account kind i ?r sub = Some sub'" using m'(1) True s ks(1) by (auto simp: lx_reap_def Let_def split: option.splits)
  note p = account_plain [OF kind a] and b = alone_sub [OF assms(1,2) s True]
  have "sb_actual sub' = sb_actual sub + nat (ur_actual ?r)" using p(1) by (simp add: max_def)
  moreover have "nat (ur_actual ?r) \<le> urb_length (urbs ! i)" using assms(3) by (simp add: kernel_honest_def)
  moreover have "nat (ur_actual ?r) + 8 \<le> len" if control: "kind = Control"
  proof -
    obtain u where "urbs = [u]" "urb_type u = 2" "urb_length u = len" "8 \<le> len" using assms(2) control by (auto simp: urbs_ok_def)
    then show ?thesis using assms(3) b(1) by (auto simp: kernel_honest_def)
  qed
  ultimately have "fits kind len (sb_actual sub')" using b(2,3) by (auto simp: fits_def)
  moreover have "lx_subs m' tid = lx_subs m tid" if "tid \<noteq> 0" for tid
    using m'(1) that True s ks(1) a by (auto simp: lx_reap_def Let_def split: if_splits)
  ultimately show ?thesis
    using m' True s ks a p(2) assms(1) by (auto simp: alone_def lx_reap_def Let_def split: if_splits)
qed


lemma alone_expire: "alone kind len urbs m \<Longrightarrow> alone kind len urbs (lx_expire now still tid m)"
  using lx_expire_inv [of m now still tid]
  by (auto simp: alone_def lx_expire_def expire_sub_def Let_def split: option.splits if_splits)

lemma alone_expire_all: "alone kind len urbs m \<Longrightarrow> alone kind len urbs (expire_all now still m)"
proof -
  have "alone kind len urbs m \<Longrightarrow> alone kind len urbs (fold (\<lambda>tid. lx_expire now (still tid) tid) ts m)" for ts
    by (induction ts arbitrary: m) (auto intro: alone_expire)
  then show "alone kind len urbs m \<Longrightarrow> alone kind len urbs (expire_all now still m)" by (simp add: expire_all_def)
qed

lemma fail_fold_log:
  "\<forall>t \<in> set ts. lx_subs m t = None \<Longrightarrow> lx_log (fold fail_transfer ts m) = lx_log m"
  by (induction ts) (simp_all add: fail_transfer_def)

text \<open>A disconnection completes the transfer if it is out.\<close>

lemma alone_disconnect:
  assumes "alone kind len urbs m" "urbs_ok kind len urbs"
  shows "alone kind len urbs (lx_disconnect m) \<and> lx_log (lx_disconnect m) \<noteq> []"
proof -
  have inv: "lx_inv m" using assms(1) by (simp add: alone_def)
  let ?ts = "remdups (map fst (lx_pending m))" and ?m = "m\<lparr>lx_disconnected := True, lx_pending := []\<rparr>"
  have zero: "set ?ts \<subseteq> {0}"
  proof
    fix x
    assume "x \<in> set ?ts"
    then have "pending_of x m \<noteq> []" by (auto simp: pending_of_def filter_empty_conv)
    then have "lx_subs m x \<noteq> None" using inv unfolding lx_inv_def by blast
    then show "x \<in> {0}" using assms(1) by (cases "x = 0") (simp_all add: alone_def)
  qed
  have log: "\<exists>st n iso. lx_log (lx_disconnect m) = [(0, st, n, iso)] \<and> fits kind len n"
  proof (cases "lx_subs m 0")
    case None
    then have "\<forall>t \<in> set ?ts. lx_subs ?m t = None" using zero by auto
    then have "lx_log (lx_disconnect m) = lx_log ?m" unfolding lx_disconnect_def by (rule fail_fold_log)
    then show ?thesis using assms(1) None by (simp add: alone_def)
  next
    case (Some x)
    then obtain k sub where s: "lx_subs m 0 = Some (k, sub)" by (cases x) simp
    then have "pending_of 0 m \<noteq> []" using inv by (auto simp: lx_inv_def sub_inv_def)
    then obtain i where i: "(0, i) \<in> set (lx_pending m)" by (auto simp: pending_of_def filter_empty_conv)
    then have "0 \<in> set ?ts" by force
    moreover have "distinct ?ts" by simp
    ultimately have "set ?ts = {0}" "length ?ts = card (set ?ts)" using zero by (blast, metis distinct_card)
    then have "length ?ts = 1" by simp
    then obtain y where "?ts = [y]" by (auto simp: length_Suc_conv)
    then have ts: "?ts = [0]" using \<open>set ?ts = {0}\<close> by (metis list.set(1) list.simps(15) singleton_insert_inj_eq)
    have "fits kind len (sb_actual sub)"
      using alone_sub [OF assms s i] assms(2) by (auto simp: fits_def urbs_ok_def)
    then show ?thesis using assms(1) s ts by (simp add: lx_disconnect_def fail_transfer_def alone_def)
  qed
  have "lx_subs (lx_disconnect m) t = None" for t by (rule lx_disconnect_inv(3) [OF inv])
  then show ?thesis using log lx_disconnect_inv(1) [OF inv] by (auto simp: alone_def)
qed

lemma alone_reap_all:
  assumes "urbs_ok kind len urbs" "kernel_honest K" "alone kind len urbs m"
  shows "\<exists>m'. reap_all (map (\<lambda>i. ReapUrb 0 i (lk_report K tr (urbs ! i))) is @ [ReapErr e]) m = Some m' \<and> alone kind len urbs m'"
  using assms(3)
proof (induction "is" arbitrary: m)
  case Nil
  then show ?case using alone_disconnect [OF Nil assms(1)] by simp
next
  case (Cons i "is")
  from alone_reap [OF Cons.prems assms(1,2), of i tr] obtain m1 where
    "lx_reap 0 i (lk_report K tr (urbs ! i)) m = Some m1" "alone kind len urbs m1" by blast
  then show ?case using Cons.IH [of m1] by simp
qed

lemma alone_serve:
  assumes "alone kind len urbs m" "urbs_ok kind len urbs" "kernel_honest K"
  shows "\<exists>m'. serve_handle now (pass_service (lk_report K tr) urbs p) m = Some m' \<and> alone kind len urbs m'"
proof -
  obtain m1 where m1: "(if up_revents p AND (POLLOUT OR POLLERR OR POLLHUP) \<noteq> 0
      then reap_all (map (\<lambda>i. ReapUrb 0 i (lk_report K tr (urbs ! i))) (up_reaped p) @ [ReapErr (up_errno p)]) m else Some m) = Some m1"
    "alone kind len urbs m1"
    using alone_reap_all [OF assms(2,3,1), of tr "up_reaped p" "up_errno p"] assms(1) by (cases "up_revents p AND (POLLOUT OR POLLERR OR POLLHUP) \<noteq> 0") auto
  define m2 where "m2 = (if up_revents p AND (POLLERR OR POLLHUP OR POLLNVAL) \<noteq> 0 then lx_disconnect m1 else m1)"
  have "alone kind len urbs m2" using m1(2) alone_disconnect [OF m1(2) assms(2)] by (simp add: m2_def)
  moreover have "serve_handle now (pass_service (lk_report K tr) urbs p) m = Some (expire_all now (\<lambda>_. up_still p) m2)"
    using m1(1) by (simp only: serve_handle_def pass_service_def service.select_convs Let_def m2_def option.case)
  ultimately show ?thesis using alone_expire_all by blast
qed

text \<open>What a pass takes away: the URBs it reaps, or everything when the device is found gone.\<close>

definition pass_reaps :: "urb_pass \<Rightarrow> nat \<Rightarrow> bool" where
  "pass_reaps p i \<longleftrightarrow> up_revents p AND (POLLOUT OR POLLERR OR POLLHUP) \<noteq> 0 \<and> i \<in> set (up_reaped p)"

definition pass_ends :: "urb_pass \<Rightarrow> bool" where
  "pass_ends p \<longleftrightarrow> up_revents p AND (POLLERR OR POLLHUP OR POLLNVAL) \<noteq> 0
     \<or> up_revents p AND (POLLOUT OR POLLERR OR POLLHUP) \<noteq> 0 \<and> up_errno p \<noteq> 4 \<and> up_errno p \<noteq> 11"

text \<open>The kernel gives each of \<open>n\<close> URBs back, or reports the device gone.\<close>

definition gives_back :: "nat \<Rightarrow> urb_pass list \<Rightarrow> bool" where
  "gives_back n ps \<longleftrightarrow> (\<exists>p \<in> set ps. pass_ends p) \<or> (\<forall>i < n. \<exists>p \<in> set ps. pass_reaps p i)"

lemma reap_takes:
  assumes "lx_inv m" "lx_reap 0 i r m = Some m'"
  shows "set (pending_of 0 m') \<subseteq> set (pending_of 0 m) - {i}"
proof -
  have d: "distinct (pending_of 0 m)" using assms(1) by (cases "lx_subs m 0") (auto simp: lx_inv_def sub_inv_def)
  have "lx_pending m' = (if (0, i) \<in> set (lx_pending m) then remove1 (0, i) (lx_pending m) else lx_pending m)"
    using assms(2) by (auto simp: lx_reap_def Let_def split: if_splits option.splits)
  then have "pending_of 0 m' = (if i \<in> set (pending_of 0 m) then remove1 i (pending_of 0 m) else pending_of 0 m)"
    unfolding pending_of_mem by (simp add: pending_of_def map_filter_remove1)
  then show ?thesis using d by (auto split: if_splits)
qed

lemma reap_all_takes:
  assumes "urbs_ok kind len urbs" "kernel_honest K" "alone kind len urbs m"
    "reap_all (map (\<lambda>i. ReapUrb 0 i (lk_report K tr (urbs ! i))) is @ [ReapErr e]) m = Some m'"
  shows "set (pending_of 0 m') \<subseteq> set (pending_of 0 m) - set is \<and> (e \<noteq> 4 \<and> e \<noteq> 11 \<longrightarrow> pending_of 0 m' = [])"
  using assms(3,4)
proof (induction "is" arbitrary: m)
  case Nil
  have "pending_of 0 (lx_disconnect m) = []"
    using Nil(1) lx_disconnect_inv(2) [of m] by (simp add: alone_def pending_of_def)
  then show ?case using Nil(2) by (auto split: if_splits)
next
  case (Cons i "is")
  from alone_reap [OF Cons.prems(1) assms(1,2), of i tr] obtain m1 where
    m1: "lx_reap 0 i (lk_report K tr (urbs ! i)) m = Some m1" "alone kind len urbs m1" by blast
  have "set (pending_of 0 m1) \<subseteq> set (pending_of 0 m) - {i}"
    using Cons.prems(1) by (intro reap_takes [OF _ m1(1)]) (simp add: alone_def)
  then show ?case using Cons.IH [OF m1(2)] Cons.prems(2) m1(1) by auto
qed

lemma expire_all_pending: "pending_of t (expire_all now still m) = pending_of t m"
  by (simp add: expire_all_def pending_of_def expire_pending)

lemma serve_takes:
  assumes "alone kind len urbs m" "urbs_ok kind len urbs" "kernel_honest K"
    and "serve_handle now (pass_service (lk_report K tr) urbs p) m = Some m'"
  shows "set (pending_of 0 m') \<subseteq> {i \<in> set (pending_of 0 m). \<not> pass_reaps p i}" "pass_ends p \<Longrightarrow> pending_of 0 m' = []"
proof -
  let ?reap = "up_revents p AND (POLLOUT OR POLLERR OR POLLHUP) \<noteq> 0" and ?gone = "up_revents p AND (POLLERR OR POLLHUP OR POLLNVAL) \<noteq> 0"
  obtain m1 where m1: "(if ?reap then reap_all (map (\<lambda>i. ReapUrb 0 i (lk_report K tr (urbs ! i))) (up_reaped p) @ [ReapErr (up_errno p)]) m
      else Some m) = Some m1" "m' = expire_all now (\<lambda>_. up_still p) (if ?gone then lx_disconnect m1 else m1)"
    using assms(4) by (auto simp only: serve_handle_def pass_service_def service.select_convs Let_def split: option.splits)
  have a: "alone kind len urbs m1"
    using m1(1) alone_reap_all [OF assms(2,3,1), of tr "up_reaped p" "up_errno p"] assms(1) by (auto split: if_splits)
  have t: "set (pending_of 0 m1) \<subseteq> {i \<in> set (pending_of 0 m). \<not> pass_reaps p i} \<and> (?reap \<and> up_errno p \<noteq> 4 \<and> up_errno p \<noteq> 11 \<longrightarrow> pending_of 0 m1 = [])"
  proof (cases ?reap)
    case True
    then show ?thesis using reap_all_takes [OF assms(2,3,1), of tr "up_reaped p" "up_errno p" m1] m1(1) by (auto simp: pass_reaps_def)
  next
    case False
    then show ?thesis using m1(1) by (auto simp: pass_reaps_def)
  qed
  have d: "pending_of 0 (lx_disconnect m1) = []" using a lx_disconnect_inv(2) [of m1] by (simp add: alone_def pending_of_def)
  show "set (pending_of 0 m') \<subseteq> {i \<in> set (pending_of 0 m). \<not> pass_reaps p i}"
    using t d by (simp add: m1(2) expire_all_pending)
  assume "pass_ends p"
  then show "pending_of 0 m' = []" using t d by (auto simp: m1(2) expire_all_pending pass_ends_def)
qed

text \<open>The passes never panic; once they gave everything back the transfer has completed, with a byte count that fits.\<close>

lemma alone_over:
  assumes "alone kind len urbs m"
  shows "lx_log m \<noteq> [] \<Longrightarrow> \<exists>st n iso. lx_log m = [(0, st, n, iso)] \<and> fits kind len n" "pending_of 0 m = [] \<Longrightarrow> lx_log m \<noteq> []"
  using assms by (auto simp: alone_def lx_inv_def sub_inv_def split: option.splits)

lemma run_passes_done:
  assumes "urbs_ok kind len urbs" "kernel_honest K" "alone kind len urbs m"
  shows "\<exists>m'. run_passes (lk_report K tr) urbs ps m = Some m' \<and> alone kind len urbs m'
    \<and> ((\<exists>p \<in> set ps. pass_ends p) \<or> (\<forall>i \<in> set (pending_of 0 m). \<exists>p \<in> set ps. pass_reaps p i) \<longrightarrow> lx_log m' \<noteq> [])"
  using assms(3)
proof (induction ps arbitrary: m)
  case Nil
  then show ?case using alone_over(2) [OF Nil] by auto
next
  case (Cons p ps)
  show ?case
  proof (cases "lx_log m = []")
    case True
    from alone_serve [OF Cons.prems assms(1,2), of "up_now p" tr p] obtain m1 where
      m1: "serve_handle (up_now p) (pass_service (lk_report K tr) urbs p) m = Some m1" "alone kind len urbs m1" by blast
    note t = serve_takes [OF Cons.prems assms(1,2) m1(1)]
    have "(\<exists>p \<in> set ps. pass_ends p) \<or> (\<forall>i \<in> set (pending_of 0 m1). \<exists>p \<in> set ps. pass_reaps p i)"
      if "(\<exists>p \<in> set (p # ps). pass_ends p) \<or> (\<forall>i \<in> set (pending_of 0 m). \<exists>p \<in> set (p # ps). pass_reaps p i)"
      using that t by (cases "pass_ends p") fastforce+
    with Cons.IH [OF m1(2)] True m1(1) show ?thesis by auto
  next
    case False
    then show ?thesis using Cons.prems by simp
  qed
qed

lemma built_urbs_ok:
  assumes "build_urbs caps t = Ok us" "tr_kind t = kind" "kind \<noteq> Isochronous" "length (tr_buffer t) = len" "kind = Control \<longrightarrow> 8 \<le> len"
  shows "urbs_ok kind len us" "us \<noteq> []" "kind = Control \<Longrightarrow> length us = 1"
    "sum_list (map urb_length (take i us)) \<le> len"
proof -
  have "len = sum_list (map urb_length us)"
    using laid_out_sum [OF build_urbs_cover [OF assms(1)]] assms(2-4) by simp
  moreover have "\<exists>u. us = [u] \<and> urb_type u = 2 \<and> urb_length u = len" if "kind = Control"
    using assms(1,2,4) that by (auto simp: build_urbs_def Let_def)
  ultimately show "urbs_ok kind len us" using assms(3,5) by (simp add: urbs_ok_def)
  show "us \<noteq> []" "kind = Control \<Longrightarrow> length us = 1"
    using build_urbs_nonempty [OF assms(1)] assms(2,3) assms(1) by (auto simp: build_urbs_def Let_def)
  have "sum_list (map urb_length us) = sum_list (map urb_length (take i us)) + sum_list (map urb_length (drop i us))"
    by (metis append_take_drop_id map_append sum_list_append)
  then show "sum_list (map urb_length (take i us)) \<le> len" using \<open>len = _\<close> by simp
qed

lemma submitted_alone:
  assumes "lx_submit caps now refuses 0 (t :: unit transfer) (lx_fresh gone) = (Inr u, m)"
    and "tr_kind t = kind" "kind \<noteq> Isochronous" "length (tr_buffer t) = len" "kind = Control \<longrightarrow> 8 \<le> len"
  obtains sub where "lx_subs m 0 = Some (kind, sub)" "urbs_ok kind len (sb_urbs sub)" "alone kind len (sb_urbs sub) m"
proof -
  have fresh: "lx_inv (lx_fresh gone)" by (simp add: lx_inv_def lx_fresh_def lx_init_def pending_of_def live_def)
  obtain sub0 sub where b: "build caps t now = Ok sub0" and s: "submit_urbs refuses sub0 = Ok sub"
    and m: "m = (lx_fresh gone)\<lparr>lx_subs := (lx_subs (lx_fresh gone))(0 \<mapsto> (kind, sub)),
            lx_pending := map (Pair 0) [0..<length (sb_urbs sub)] @ lx_pending (lx_fresh gone), lx_accepted := 0 # lx_accepted (lx_fresh gone)\<rparr>"
    using assms(1,2) by (auto simp: lx_submit_def split: if_splits sum.splits)
  have us: "build_urbs caps t = Ok (sb_urbs sub0)" using build_wf(5) [OF b] assms(2,3) by simp
  note ok = built_urbs_ok [OF us assms(2-5)]
  have "urbs_ok kind len (sb_urbs sub)"
  proof (cases rule: submit_urbs_Ok [OF s])
    case 1
    then show ?thesis using ok(1) by simp
  next
    case (2 i)
    then have "kind \<noteq> Control" using ok(3) by auto
    then show ?thesis using 2 ok(4) [of i] assms(3) by (simp add: urbs_ok_def)
  qed
  moreover have "lx_inv m" using lx_submit_inv [OF fresh assms(1)] assms(2,3) by simp
  then have "alone kind len (sb_urbs sub) m" by (simp add: alone_def m lx_fresh_def lx_init_def)
  ultimately show thesis using that [of sub] m by simp
qed

text \<open>So an accepted transfer returns, with a count that fits the buffer and a buffer of the same size, unless the
  kernel keeps a URB for ever.\<close>

lemma linux_transfer_returns:
  assumes "kernel_honest K" "kind \<noteq> Isochronous" "kind = Control \<longrightarrow> 8 \<le> length buf"
    and submit: "lx_submit (lw_caps w) (lk_now K (lw_trace w)) (lk_refuses K (lw_trace w)) 0
            ((transfer_new kind ep buf :: unit transfer)\<lparr>tr_timeout := tmo\<rparr>) (lx_fresh (lw_gone w)) = (r, m)"
  shows "case linux_transfer K kind ep buf tmo w of
      (Inl e, _) \<Rightarrow> r = Inl e \<or> r = Ok () \<and> linux_wait K (lw_trace w) m = Stuck
        \<and> (\<exists>sub. lx_subs m 0 = Some (kind, sub) \<and> \<not> gives_back (length (sb_urbs sub)) (lk_passes K (lw_trace w)))
    | (Inr (st, n, buf'), _) \<Rightarrow> r = Ok () \<and> length buf' = length buf \<and> fits kind (length buf) n"
proof (cases r)
  case (Inl e)
  then show ?thesis using submit by (simp add: linux_transfer_def Let_def)
next
  case (Inr u)
  let ?t = "(transfer_new kind ep buf :: unit transfer)\<lparr>tr_timeout := tmo\<rparr>"
  have t: "tr_kind ?t = kind" "length (tr_buffer ?t) = length buf" by (simp_all add: transfer_new_def)
  obtain sub where sub: "lx_subs m 0 = Some (kind, sub)" "urbs_ok kind (length buf) (sb_urbs sub)" "alone kind (length buf) (sb_urbs sub) m"
    using submitted_alone [OF submit [unfolded Inr] t(1) assms(2) t(2) assms(3)] by blast
  let ?ps = "lk_passes K (lw_trace w)"
  obtain m' where m': "run_passes (lk_report K (lw_trace w)) (sb_urbs sub) ?ps m = Some m'" "alone kind (length buf) (sb_urbs sub) m'"
    "(\<exists>p \<in> set ?ps. pass_ends p) \<or> (\<forall>i \<in> set (pending_of 0 m). \<exists>p \<in> set ?ps. pass_reaps p i) \<longrightarrow> lx_log m' \<noteq> []"
    using run_passes_done [OF sub(2) assms(1) sub(3)] by blast
  have "\<forall>i \<in> set (pending_of 0 m). i < length (sb_urbs sub)" using sub(1,3) by (auto simp: alone_def lx_inv_def sub_inv_def)
  then have g: "gives_back (length (sb_urbs sub)) ?ps \<Longrightarrow> lx_log m' \<noteq> []" using m'(3) by (auto simp: gives_back_def)
  show ?thesis
  proof (cases "lx_log m' = []")
    case True
    then have "linux_wait K (lw_trace w) m = Stuck" using sub(1) m'(1) by (simp add: linux_wait_def)
    then show ?thesis using submit Inr g True sub(1) by (auto simp: linux_transfer_def Let_def)
  next
    case False
    then obtain st n iso where l: "lx_log m' = [(0, st, n, iso)]" "fits kind (length buf) n" using alone_over(1) [OF m'(2)] by blast
    then have "linux_wait K (lw_trace w) m = Done (st, n, lx_disconnected m')" using sub(1) m'(1) by (simp add: linux_wait_def)
    then show ?thesis using submit Inr l(2) assms(1) by (simp add: linux_transfer_def Let_def kernel_honest_def)
  qed
qed

text \<open>Without packets there is nothing to submit for an isochronous transfer, and nothing comes back.\<close>

definition nothing_out :: "lx \<Rightarrow> bool" where
  "nothing_out m \<longleftrightarrow> lx_pending m = [] \<and> lx_log m = []"

lemma nothing_out_disconnect: "nothing_out m \<Longrightarrow> nothing_out (lx_disconnect m)"
  by (simp add: nothing_out_def lx_disconnect_def)

lemma nothing_out_passes:
  assumes "nothing_out m"
  shows "\<exists>m'. run_passes report urbs ps m = Some m' \<and> nothing_out m'"
  using assms
proof (induction ps arbitrary: m)
  case Nil
  then show ?case by simp
next
  case (Cons p ps)
  have reap: "\<exists>m'. reap_all (map (\<lambda>i. ReapUrb 0 i (report (urbs ! i))) is @ [ReapErr e]) m = Some m' \<and> nothing_out m'" for "is" e
    using Cons.prems nothing_out_disconnect [OF Cons.prems] by (induction "is") (auto simp: lx_reap_def nothing_out_def)
  obtain m1 where m1: "(if up_revents p AND (POLLOUT OR POLLERR OR POLLHUP) \<noteq> 0
      then reap_all (map (\<lambda>i. ReapUrb 0 i (report (urbs ! i))) (up_reaped p) @ [ReapErr (up_errno p)]) m else Some m) = Some m1" "nothing_out m1"
    using reap [of "up_reaped p" "up_errno p"] Cons.prems by (cases "up_revents p AND (POLLOUT OR POLLERR OR POLLHUP) \<noteq> 0") auto
  define m2 where "m2 = (if up_revents p AND (POLLERR OR POLLHUP OR POLLNVAL) \<noteq> 0 then lx_disconnect m1 else m1)"
  have m2: "nothing_out m2" using m1(2) nothing_out_disconnect by (simp add: m2_def)
  then have "expire_all (up_now p) (\<lambda>_. up_still p) m2 = m2" by (simp add: expire_all_def pending_transfers_def nothing_out_def)
  then have "serve_handle (up_now p) (pass_service report urbs p) m = Some m2"
    using m1(1) by (simp only: serve_handle_def pass_service_def service.select_convs Let_def m2_def option.case)
  then show ?case using Cons.IH [OF m2] Cons.prems by (simp add: nothing_out_def)
qed

lemma linux_transfer_iso: "\<exists>e. fst (linux_transfer K Isochronous ep buf tmo w) = Inl e"
proof -
  let ?t = "(transfer_new Isochronous ep buf :: unit transfer)\<lparr>tr_timeout := tmo\<rparr>"
  let ?s = "lx_submit (lw_caps w) (lk_now K (lw_trace w)) (lk_refuses K (lw_trace w)) 0 ?t (lx_fresh (lw_gone w))"
  show ?thesis
  proof (cases ?s)
    case (Pair r m)
    show ?thesis
    proof (cases r)
      case (Inl e)
      then show ?thesis using Pair by (simp add: linux_transfer_def Let_def)
    next
      case (Inr u)
      obtain sub0 sub where b: "build (lw_caps w) ?t (lk_now K (lw_trace w)) = Ok sub0"
        and s: "submit_urbs (lk_refuses K (lw_trace w)) sub0 = Ok sub" and sub: "lx_subs m 0 = Some (Isochronous, sub)"
        and out: "lx_pending m = map (Pair 0) [0..<length (sb_urbs sub)]" "lx_log m = []"
        using Pair Inr by (auto simp: lx_submit_def lx_fresh_def lx_init_def transfer_new_def split: if_splits sum.splits)
      have "sb_urbs sub0 = []" using b by (auto simp: build_def build_urbs_def transfer_new_def Let_def split: if_splits)
      then have "sb_urbs sub = []" using s by (simp add: submit_urbs_def)
      then have "nothing_out m" using out by (simp add: nothing_out_def)
      then obtain m' where "run_passes (lk_report K (lw_trace w)) (sb_urbs sub) (lk_passes K (lw_trace w)) m = Some m'" "lx_log m' = []"
        using nothing_out_passes [of m] by (fastforce simp: nothing_out_def)
      then show ?thesis using Pair Inr sub by (simp add: linux_transfer_def Let_def linux_wait_def)
    qed
  qed
qed

theorem linux_sys_ok:
  assumes "kernel_honest K"
  shows "sys_ok (linux_sys K)"
  unfolding sys_ok_def
proof (intro allI impI)
  fix kind ep buf tmo w st n buf' w'
  assume t: "sys_transfer (linux_sys K) kind ep buf tmo w = (Ok (st, n, buf'), w')" and c: "kind = Control \<longrightarrow> 8 \<le> length buf"
  then have t: "linux_transfer K kind ep buf tmo w = (Ok (st, n, buf'), w')" by (simp add: linux_sys_def)
  then have "kind \<noteq> Isochronous" using linux_transfer_iso [of K ep buf tmo w] by auto
  obtain r m where s: "lx_submit (lw_caps w) (lk_now K (lw_trace w)) (lk_refuses K (lw_trace w)) 0
      ((transfer_new kind ep buf :: unit transfer)\<lparr>tr_timeout := tmo\<rparr>) (lx_fresh (lw_gone w)) = (r, m)" by fastforce
  from linux_transfer_returns [OF assms \<open>kind \<noteq> Isochronous\<close> c s] t
  show "length buf' = length buf \<and> n + (if kind = Control then 8 else 0) \<le> length buf" by (auto simp: fits_def)
qed


section \<open>Claims\<close>

text \<open>What the kernel has claimed for the file, by its answers. A reset unbinds every interface, a new configuration does
  away with the interfaces of the old one, and disconnecting the driver of an interface that is claimed disconnects usbfs
  itself.\<close>

fun linux_claims :: "usb_trace \<Rightarrow> u8 set" where
  "linux_claims [] = {}"
| "linux_claims ((UiClaim i, r) # t) = (case r of Inr _ \<Rightarrow> insert i (linux_claims t) | Inl _ \<Rightarrow> linux_claims t)"
| "linux_claims ((UiRelease i, r) # t) = (case r of Inr _ \<Rightarrow> linux_claims t - {i} | Inl _ \<Rightarrow> linux_claims t)"
| "linux_claims ((UiReset, r) # t) = (case r of Inr _ \<Rightarrow> {} | Inl _ \<Rightarrow> linux_claims t)"
| "linux_claims ((UiSetConfiguration v, r) # t) = (case r of Inr _ \<Rightarrow> {} | Inl _ \<Rightarrow> linux_claims t)"
| "linux_claims ((UiDriver i q, r) # t) =
     (case r of Inr _ \<Rightarrow> if q = RqDisconnect then linux_claims t - {i} else linux_claims t | Inl _ \<Rightarrow> linux_claims t)"
| "linux_claims (c # t) = linux_claims t"

abbreviation linux_owned :: "linux_world \<Rightarrow> u8 set" where
  "linux_owned w \<equiv> linux_claims (lw_trace w)"

text \<open>What the kernel is documented to do about claimed interfaces: their driver is \<open>usbfs\<close>, and while there is one the
  configuration is not changed.\<close>

definition kernel_guards_claims :: "linux_kernel \<Rightarrow> bool" where
  "kernel_guards_claims K \<longleftrightarrow> (\<forall>tr.
     (\<forall>i \<in> linux_claims tr. \<forall>name. lk_answer K tr (UiGetDriver i) = Inr name \<longrightarrow> takeWhile (\<lambda>b. b \<noteq> 0) name = ascii ''usbfs'')
     \<and> (linux_claims tr \<noteq> {} \<longrightarrow> (\<forall>v. \<exists>e. lk_answer K tr (UiSetConfiguration v) = Inl e)))"

lemma linux_transfer_trace: "\<exists>r. lw_trace (snd (linux_transfer K kind ep buf tmo w)) = (UiTransfer kind ep (length buf), r) # lw_trace w"
  by (auto simp: linux_transfer_def Let_def split: prod.split sum.split option.split run.split)

lemmas linux_ops = linux_sys_def linux_claim_def linux_release_def linux_driver_active_def linux_detach_def linux_attach_def
  linux_driver_def linux_set_alt_def linux_clear_halt_def linux_reset_def linux_set_configuration_def
  linux_active_configuration_def linux_request_def linux_ioctl_def Let_def

interpretation linux: claiming_backend "linux_sys K" linux_owned for K
proof unfold_locales
  show "linux_owned (snd (sys_claim (linux_sys K) i w)) = (case fst (sys_claim (linux_sys K) i w) of
      Inr _ \<Rightarrow> insert i (linux_owned w) | Inl _ \<Rightarrow> linux_owned w)" for i w
    by (cases "lk_answer K (lw_trace w) (UiClaim i)") (simp_all add: linux_ops)
  show "linux_owned (snd (sys_release (linux_sys K) i w)) = (case fst (sys_release (linux_sys K) i w) of
      Inr _ \<Rightarrow> linux_owned w - {i} | Inl _ \<Rightarrow> linux_owned w)" for i w
    by (cases "lk_answer K (lw_trace w) (UiRelease i)") (simp_all add: linux_ops)
  show "linux_owned (snd (sys_detach (linux_sys K) i w)) = (case fst (sys_detach (linux_sys K) i w) of
      Inr _ \<Rightarrow> linux_owned w - {i} | Inl _ \<Rightarrow> linux_owned w)" for i w
    by (cases "lk_answer K (lw_trace w) (UiDriver i RqDisconnect)") (simp_all add: linux_ops driver_ioctl_def)
  show "linux_owned (snd (sys_reset (linux_sys K) w)) = (case fst (sys_reset (linux_sys K) w) of
      Inr _ \<Rightarrow> {} | Inl _ \<Rightarrow> linux_owned w)" for w
    by (cases "lk_answer K (lw_trace w) UiReset") (simp_all add: linux_ops)
  show "linux_owned (snd (sys_set_config (linux_sys K) v w)) = (case fst (sys_set_config (linux_sys K) v w) of
      Inr _ \<Rightarrow> {} | Inl _ \<Rightarrow> linux_owned w)" for v w
    by (cases "lk_answer K (lw_trace w) (UiSetConfiguration v)") (simp_all add: linux_ops)
  show "linux_owned (snd (sys_transfer (linux_sys K) kind ep buf tmo w)) = linux_owned w" for kind ep buf tmo w
    using linux_transfer_trace [of K kind ep buf tmo w] by (auto simp: linux_sys_def)
qed (auto simp: linux_ops split: prod.split sum.split)

lemma linux_guarded:
  assumes "kernel_guards_claims K"
  shows "guards_claims (linux_sys K) linux_owned"
  unfolding guards_claims_def
proof (intro allI conjI ballI impI)
  fix w i
  assume "i \<in> linux_owned w"
  then show "fst (sys_driver_active (linux_sys K) i w) \<noteq> Ok True"
    using assms by (auto simp: kernel_guards_claims_def linux_ops kernel_driver_active_def split: sum.split)
next
  fix w v
  assume "linux_owned w \<noteq> {}"
  then obtain e where "lk_answer K (lw_trace w) (UiSetConfiguration v) = Inl e"
    using assms unfolding kernel_guards_claims_def by blast
  then show "\<exists>e. fst (sys_set_config (linux_sys K) v w) = Inl e" by (simp add: linux_ops)
qed

text \<open>Detaching the driver of an interface the handle has claimed takes the claim away; the handle goes on listing it.\<close>

lemma detach_drops_claim:
  assumes "lk_answer K (lw_trace (h_world h)) (UiDriver i RqDisconnect) = Inr d" "detach_kernel_driver (linux_sys K) i h = (r, h')"
  shows "r = Val ()" "h_claimed h' = h_claimed h" "i \<notin> linux_owned (h_world h')"
  using assms by (auto simp: detach_kernel_driver_def on_sys_eq linux_ops driver_ioctl_def)

text \<open>A kernel that grants everything it may, gives the first URB of a transfer back whole at the first pass, and is honest.\<close>

definition granting_kernel :: linux_kernel where
  "granting_kernel = \<lparr>lk_answer = (\<lambda>tr c. case c of
       UiGetDriver i \<Rightarrow> if i \<in> linux_claims tr then Inr (ascii ''usbfs'') else Inl 61
     | UiSetConfiguration v \<Rightarrow> if linux_claims tr = {} then Inr [] else Inl 16
     | _ \<Rightarrow> Inr []), lk_config = (\<lambda>_. Some ''1''), lk_now = (\<lambda>_. 0), lk_refuses = (\<lambda>_ _. None),
     lk_report = (\<lambda>_ u. \<lparr>ur_status = 0, ur_actual = int (urb_length u) - (if urb_type u = 2 then 8 else 0), ur_iso = []\<rparr>),
     lk_passes = (\<lambda>_. [\<lparr>up_revents = POLLOUT, up_reaped = [0], up_errno = 11, up_now = 0, up_still = (\<lambda>_. False)\<rparr>]),
     lk_memory = (\<lambda>_ b. b)\<rparr>"

lemma granting_honest: "kernel_honest granting_kernel"
proof -
  have "nat (int n - 8) = n - 8" for n :: nat by linarith
  then show ?thesis by (simp add: kernel_honest_def granting_kernel_def)
qed

lemma granting_releases: "releases_succeed (linux_sys granting_kernel)"
  by (simp add: releases_succeed_def linux_sys_def linux_release_def linux_request_def linux_ioctl_def granting_kernel_def Let_def)

lemma granting_guards: "kernel_guards_claims granting_kernel"
  by (auto simp: kernel_guards_claims_def granting_kernel_def ascii_def)

end
