(* ===== verification/Usb_Hotplug.thy ===== *)
theory Usb_Hotplug
  imports Usb_Device
begin

text \<open>
  Hotplug (\<open>src/src/hotplug.rs\<close>): the filter of a listener, the registry with its listeners and its
  picture of the attached devices, the rescan that compares two enumerations and reports the
  difference, and the signal that wakes the hotplug thread. A callback is represented by what it is
  told: \<open>rg_log\<close> is the sequence of deliveries, each with the listener's id. Deliveries happen under
  the \<open>dispatch\<close> lock, so registrations and rescans are atomic with respect to each other.
\<close>

section \<open>Events and filters\<close>

datatype 'l hotplug_event = Arrived "'l device_info" | Left "'l device_info"

fun event_device :: "'l hotplug_event \<Rightarrow> 'l device_info" where
  "event_device (Arrived d) = d"
| "event_device (Left d) = d"

record filter_spec =
  hf_vendor_id :: "u16 option"
  hf_product_id :: "u16 option"
  hf_class :: "u8 option"

definition filter_matches :: "filter_spec \<Rightarrow> 'l device_info \<Rightarrow> bool option" where
  "filter_matches f d =
     (if (case hf_vendor_id f of Some v \<Rightarrow> v \<noteq> dd_vendor_id (di_descriptor d) | None \<Rightarrow> False) then Some False
      else if (case hf_product_id f of Some p \<Rightarrow> p \<noteq> dd_product_id (di_descriptor d) | None \<Rightarrow> False) then Some False
      else (case hf_class f of
          None \<Rightarrow> Some True
        | Some c \<Rightarrow> if dd_class (di_descriptor d) \<noteq> c then
            (case active_config d of
               None \<Rightarrow> None
             | Some (Inl _) \<Rightarrow> Some False
             | Some (Inr cfg) \<Rightarrow> Some (list_ex (\<lambda>a. if_class a = c) (all_alt_settings cfg)))
            else Some True))"

lemma filter_matches_total: "filter_matches f d \<noteq> None"
proof -
  obtain r where "active_config d = Some r" using active_config_total [of d] by auto
  then show ?thesis by (cases r) (auto simp: filter_matches_def split: option.split)
qed

section \<open>The registry\<close>

record 'l registry =
  rg_next_id :: nat
  rg_listeners :: "(nat \<times> filter_spec) list"
  rg_known :: "'l device_info list"
  rg_started :: bool
  rg_log :: "(nat \<times> 'l hotplug_event) list"

definition registry_new :: "'l registry" where
  "registry_new = \<lparr>rg_next_id = 0, rg_listeners = [], rg_known = [], rg_started = False, rg_log = []\<rparr>"

text \<open>\<open>for (filter, callback) in listeners: if filter.matches(..) callback(event)\<close>.\<close>

definition deliver :: "(nat \<times> filter_spec) list \<Rightarrow> 'l hotplug_event \<Rightarrow> (nat \<times> 'l hotplug_event) list" where
  "deliver ls ev =
     map (\<lambda>(i, f). (i, ev)) (filter (\<lambda>(i, f). filter_matches f (event_device ev) = Some True) ls)"

text \<open>\<open>Registry::add\<close>; \<open>watch\<close> is the backend's answer to \<open>watch_hotplug\<close>, \<open>spawn\<close> whether the
  thread could be started, \<open>current\<close> the first enumeration.\<close>

definition registry_add ::
  "unit result \<Rightarrow> unit result \<Rightarrow> 'l device_info list result \<Rightarrow> filter_spec \<Rightarrow> bool \<Rightarrow> 'l registry
     \<Rightarrow> nat result \<times> 'l registry" where
  "registry_add watch spawn current f existing rg =
     (let started =
        (if rg_started rg then (Ok (), rg)
         else case watch of
           Inl e \<Rightarrow> (Inl e, rg)
         | Inr _ \<Rightarrow>
             (let rg = rg\<lparr>rg_known := (case current of Inr ds \<Rightarrow> ds | Inl _ \<Rightarrow> [])\<rparr>
              in case spawn of Inl e \<Rightarrow> (Inl e, rg) | Inr _ \<Rightarrow> (Ok (), rg\<lparr>rg_started := True\<rparr>)))
      in case started of
           (Inl e, rg) \<Rightarrow> (Inl e, rg)
         | (Inr _, rg) \<Rightarrow>
             (let rid = rg_next_id rg + 1;
                  seed = (if existing then rg_known rg else []);
                  rg = rg\<lparr>rg_next_id := rid, rg_listeners := rg_listeners rg @ [(rid, f)]\<rparr>
              in (Ok rid, rg\<lparr>rg_log := rg_log rg @ concat (map (\<lambda>d. deliver [(rid, f)] (Arrived d)) seed)\<rparr>)))"

definition registry_remove :: "nat \<Rightarrow> 'l registry \<Rightarrow> 'l registry" where
  "registry_remove i rg = rg\<lparr>rg_listeners := filter (\<lambda>l. fst l \<noteq> i) (rg_listeners rg)\<rparr>"

definition arrivals :: "'l device_info list \<Rightarrow> 'l device_info list \<Rightarrow> 'l device_info list" where
  "arrivals previous current = filter (\<lambda>c. \<not> list_ex (\<lambda>p. same_device p c) previous) current"

definition departures :: "'l device_info list \<Rightarrow> 'l device_info list \<Rightarrow> 'l device_info list" where
  "departures previous current = filter (\<lambda>p. \<not> list_ex (\<lambda>c. same_device c p) current) previous"

text \<open>\<open>Registry::rescan\<close> on the result of the enumeration.\<close>

definition rescan :: "'l device_info list result \<Rightarrow> 'l registry \<Rightarrow> 'l registry" where
  "rescan enumerated rg = (case enumerated of
      Inl _ \<Rightarrow> rg
    | Inr current \<Rightarrow>
        (let previous = rg_known rg;
             rg = rg\<lparr>rg_known := current\<rparr>;
             arrived = arrivals previous current;
             left = departures previous current
         in if (arrived = [] \<and> left = []) \<or> rg_listeners rg = [] then rg
            else rg\<lparr>rg_log := rg_log rg
               @ concat (map (\<lambda>d. deliver (rg_listeners rg) (Left d)) left)
               @ concat (map (\<lambda>d. deliver (rg_listeners rg) (Arrived d)) arrived)\<rparr>))"

section \<open>What a listener can reconstruct\<close>

text \<open>The identity \<open>same_device\<close> compares.\<close>

definition device_key :: "'l device_info \<Rightarrow> u8 \<times> u8 \<times> u8 list \<times> u16 \<times> u16" where
  "device_key d = (di_bus_number d, di_address d, di_port_numbers d,
     dd_vendor_id (di_descriptor d), dd_product_id (di_descriptor d))"

lemma same_device_key: "same_device a b \<longleftrightarrow> device_key a = device_key b"
  by (auto simp: same_device_def device_key_def)

definition matches :: "filter_spec \<Rightarrow> 'l device_info \<Rightarrow> bool" where
  "matches f d \<longleftrightarrow> filter_matches f d = Some True"

text \<open>A filter without a class looks at the identity only.\<close>

lemma matches_key:
  "hf_class f = None \<Longrightarrow> device_key a = device_key b \<Longrightarrow> matches f a \<longleftrightarrow> matches f b"
  by (simp add: matches_def filter_matches_def device_key_def split: option.split)

fun replay_step :: "'l hotplug_event \<Rightarrow> (u8 \<times> u8 \<times> u8 list \<times> u16 \<times> u16) set \<Rightarrow> (u8 \<times> u8 \<times> u8 list \<times> u16 \<times> u16) set" where
  "replay_step (Arrived d) s = insert (device_key d) s"
| "replay_step (Left d) s = s - {device_key d}"

definition events_of :: "nat \<Rightarrow> (nat \<times> 'l hotplug_event) list \<Rightarrow> 'l hotplug_event list" where
  "events_of i log = map snd (filter (\<lambda>(j, e). j = i) log)"

definition replay :: "nat \<Rightarrow> (nat \<times> 'l hotplug_event) list \<Rightarrow> (u8 \<times> u8 \<times> u8 list \<times> u16 \<times> u16) set" where
  "replay i log = fold replay_step (events_of i log) {}"

definition view :: "filter_spec \<Rightarrow> 'l device_info list \<Rightarrow> (u8 \<times> u8 \<times> u8 list \<times> u16 \<times> u16) set" where
  "view f ds = device_key ` {d \<in> set ds. matches f d}"

lemma events_of_Nil [simp]: "events_of i [] = []"
  by (simp add: events_of_def)

lemma events_of_append: "events_of i (a @ b) = events_of i a @ events_of i b"
  by (simp add: events_of_def)

lemma events_of_deliver:
  assumes "distinct (map fst ls)" "(i, f) \<in> set ls"
  shows "events_of i (deliver ls ev) = (if matches f (event_device ev) then [ev] else [])"
  using assms
proof (induction ls)
  case (Cons l ls)
  obtain j g where l: "l = (j, g)" by (cases l)
  have none: "events_of i (deliver xs ev) = []" if "i \<notin> fst ` set xs" for xs
    using that by (induction xs) (auto simp: deliver_def events_of_def)
  show ?case
  proof (cases "j = i")
    case True
    with Cons.prems l have "g = f" "i \<notin> fst ` set ls" by (auto simp: rev_image_eqI)
    with none [of ls] True l show ?thesis by (auto simp: deliver_def events_of_def matches_def)
  next
    case False
    with Cons l show ?thesis by (auto simp: deliver_def events_of_def)
  qed
qed simp

lemma events_of_deliver_other: "i \<notin> fst ` set ls \<Longrightarrow> events_of i (deliver ls ev) = []"
  by (induction ls) (auto simp: deliver_def events_of_def)

lemma events_of_deliveries:
  assumes "distinct (map fst ls)" "(i, f) \<in> set ls" "\<And>d. event_device (mk d) = d"
  shows "events_of i (concat (map (\<lambda>d. deliver ls (mk d)) ds)) = map mk (filter (matches f) ds)"
proof (induction ds)
  case (Cons d ds)
  then show ?case using events_of_deliver [OF assms(1,2), of "mk d"] assms(3)
    by (simp add: events_of_append)
qed (simp add: events_of_def)

lemma events_of_deliveries_other:
  "i \<notin> fst ` set ls \<Longrightarrow> events_of i (concat (map (\<lambda>d. deliver ls (mk d)) ds)) = []"
  by (induction ds) (simp_all add: events_of_append events_of_deliver_other)

lemma fold_arrived: "fold replay_step (map Arrived ds) s = s \<union> device_key ` set ds"
  by (induction ds arbitrary: s) auto

lemma fold_left: "fold replay_step (map Left ds) s = s - device_key ` set ds"
  by (induction ds arbitrary: s) auto

section \<open>The invariant of the registry\<close>

text \<open>\<open>rg_seeded\<close> would be the listeners registered with \<open>enumerate_existing\<close>; the invariant speaks of
  a set \<open>E\<close> of ids that contains only such listeners, with filters that do not look at classes.\<close>

definition registry_wf :: "'l registry \<Rightarrow> bool" where
  "registry_wf rg \<longleftrightarrow> distinct (map fst (rg_listeners rg)) \<and> (\<forall>l \<in> set (rg_listeners rg). fst l \<le> rg_next_id rg)
     \<and> (\<forall>l \<in> set (rg_log rg). fst l \<le> rg_next_id rg)"

definition in_sync :: "nat \<Rightarrow> filter_spec \<Rightarrow> 'l registry \<Rightarrow> bool" where
  "in_sync i f rg \<longleftrightarrow> (i, f) \<in> set (rg_listeners rg) \<longrightarrow> replay i (rg_log rg) = view f (rg_known rg)"

lemma rescan_wf: "registry_wf rg \<Longrightarrow> registry_wf (rescan r rg)"
  by (cases r) (auto simp: registry_wf_def rescan_def Let_def deliver_def)

lemma remove_wf: "registry_wf rg \<Longrightarrow> registry_wf (registry_remove i rg)"
  by (auto simp: registry_wf_def registry_remove_def distinct_map_filter)

definition matching_keys :: "'l itself \<Rightarrow> filter_spec \<Rightarrow> (u8 \<times> u8 \<times> u8 list \<times> u16 \<times> u16) set" where
  "matching_keys _ f = {k. \<exists>d :: 'l device_info. device_key d = k \<and> matches f d}"

lemma filtered_keys:
  fixes ds :: "'l device_info list"
  assumes "hf_class f = None"
  shows "device_key ` set (filter (matches f) ds) = device_key ` set ds \<inter> matching_keys TYPE('l) f"
proof -
  have eq: "matches f d" if "device_key d' = device_key d" "matches f d'" for d d' :: "'l device_info"
    using matches_key [OF assms that(1)] that(2) by simp
  show ?thesis
  proof (rule set_eqI, rule iffI)
    fix k assume "k \<in> device_key ` set ds \<inter> matching_keys TYPE('l) f"
    then obtain d d' :: "'l device_info" where "d \<in> set ds" "k = device_key d" "device_key d' = k" "matches f d'"
      by (auto simp: matching_keys_def)
    with eq [of d' d] have "d \<in> set (filter (matches f) ds)" by simp
    with \<open>k = device_key d\<close> show "k \<in> device_key ` set (filter (matches f) ds)" by (rule image_eqI)
  qed (auto simp: matching_keys_def)
qed

lemma view_keys:
  fixes ds :: "'l device_info list"
  assumes "hf_class f = None"
  shows "view f ds = device_key ` set ds \<inter> matching_keys TYPE('l) f"
  using filtered_keys [OF assms, of ds] by (simp add: view_def)

lemma keys_not_in:
  "device_key ` {x \<in> A. \<not> (\<exists>y \<in> B. device_key y = device_key x)} = device_key ` A - device_key ` B"
proof (rule set_eqI, rule iffI)
  fix k assume "k \<in> device_key ` A - device_key ` B"
  then obtain x where x: "x \<in> A" "k = device_key x" "k \<notin> device_key ` B" by blast
  from x(2) show "k \<in> device_key ` {x \<in> A. \<not> (\<exists>y \<in> B. device_key y = device_key x)}"
    by (rule image_eqI) (use x in \<open>auto simp: image_iff\<close>)
next
  fix k assume "k \<in> device_key ` {x \<in> A. \<not> (\<exists>y \<in> B. device_key y = device_key x)}"
  then show "k \<in> device_key ` A - device_key ` B" by (smt (verit) DiffI imageE imageI mem_Collect_eq)
qed

lemma departures_keys: "device_key ` set (departures p c) = device_key ` set p - device_key ` set c"
  using keys_not_in [of "set p" "set c"] by (simp add: departures_def list_ex_iff same_device_key)

lemma arrivals_keys: "device_key ` set (arrivals p c) = device_key ` set c - device_key ` set p"
  using keys_not_in [of "set c" "set p"] by (simp add: arrivals_def list_ex_iff same_device_key)

lemma view_diff:
  assumes "hf_class f = None"
  shows "(view f previous - device_key ` set (filter (matches f) (departures previous current)))
      \<union> device_key ` set (filter (matches f) (arrivals previous current)) = view f current"
  unfolding view_keys [OF assms] filtered_keys [OF assms] departures_keys arrivals_keys by blast

lemma rescan_in_sync:
  fixes rg :: "'l registry"
  assumes wf: "registry_wf rg" and s: "in_sync i f rg" and c: "hf_class f = None"
  shows "in_sync i f (rescan r rg)"
  unfolding in_sync_def
proof (cases r)
  case (Inl e)
  with s show "(i, f) \<in> set (rg_listeners (rescan r rg)) \<longrightarrow> replay i (rg_log (rescan r rg)) = view f (rg_known (rescan r rg))"
    by (simp add: in_sync_def rescan_def)
next
  case (Inr current)
  show "(i, f) \<in> set (rg_listeners (rescan r rg)) \<longrightarrow> replay i (rg_log (rescan r rg)) = view f (rg_known (rescan r rg))"
  proof
    assume "(i, f) \<in> set (rg_listeners (rescan r rg))"
    then have l: "(i, f) \<in> set (rg_listeners rg)" using Inr by (auto simp: rescan_def Let_def split: if_splits)
    have d: "distinct (map fst (rg_listeners rg))" using wf by (simp add: registry_wf_def)
    let ?p = "rg_known rg"
    let ?lo = "concat (map (\<lambda>d. deliver (rg_listeners rg) (Left d)) (departures ?p current))
       @ concat (map (\<lambda>d. deliver (rg_listeners rg) (Arrived d)) (arrivals ?p current))"
    have kn: "rg_known (rescan r rg) = current" using Inr by (simp add: rescan_def Let_def)
    have lg: "events_of i (rg_log (rescan r rg)) = events_of i (rg_log rg @ ?lo)"
      using Inr l by (auto simp: rescan_def Let_def)
    have "events_of i ?lo = map Left (filter (matches f) (departures ?p current)) @ map Arrived (filter (matches f) (arrivals ?p current))"
      using events_of_deliveries [OF d l, of "Left :: 'l device_info \<Rightarrow> _"]
        events_of_deliveries [OF d l, of "Arrived :: 'l device_info \<Rightarrow> _"]
      by (simp add: events_of_append)
    then have "replay i (rg_log (rescan r rg)) =
        (view f ?p - device_key ` set (filter (matches f) (departures ?p current)))
          \<union> device_key ` set (filter (matches f) (arrivals ?p current))"
      using s l by (simp add: replay_def lg events_of_append fold_arrived fold_left in_sync_def)
    also have "\<dots> = view f current" by (rule view_diff [OF c])
    finally show "replay i (rg_log (rescan r rg)) = view f (rg_known (rescan r rg))" by (simp add: kn)
  qed
qed

lemma remove_in_sync: "in_sync i f rg \<Longrightarrow> in_sync i f (registry_remove j rg)"
  by (auto simp: in_sync_def registry_remove_def)

text \<open>A registration either fails and leaves the listeners and the log alone, or adds one listener with
  a fresh id and delivers its initial batch.\<close>

lemma add_cases:
  assumes "registry_add w sp cur f ex rg = (r, rg')"
  obtains (failed) e k where "r = Inl e" "rg' = rg\<lparr>rg_known := k\<rparr>" "\<not> rg_started rg"
  | (added) g where "r = Inr (rg_next_id rg + 1)"
      "g = (if rg_started rg then rg else rg\<lparr>rg_known := (case cur of Inr ds \<Rightarrow> ds | Inl _ \<Rightarrow> []), rg_started := True\<rparr>)"
      "rg' = g\<lparr>rg_next_id := rg_next_id rg + 1, rg_listeners := rg_listeners rg @ [(rg_next_id rg + 1, f)],
         rg_log := rg_log rg @ concat (map (\<lambda>d. deliver [(rg_next_id rg + 1, f)] (Arrived d)) (if ex then rg_known g else []))\<rparr>"
proof (cases "rg_started rg")
  case True
  with assms added show thesis by (simp add: registry_add_def Let_def)
next
  case False
  note ns = False
  show thesis
  proof (cases w)
    case (Inl e)
    with assms ns failed [of e "rg_known rg"] show thesis by (simp add: registry_add_def Let_def)
  next
    case (Inr u)
    show thesis
    proof (cases sp)
      case (Inl e)
      with assms ns Inr \<open>w = Inr u\<close> failed [of e "case cur of Inr ds \<Rightarrow> ds | Inl _ \<Rightarrow> []"]
      show thesis by (auto simp: registry_add_def Let_def)
    next
      case (Inr v)
      with assms ns \<open>w = Inr u\<close> added show thesis by (simp add: registry_add_def Let_def)
    qed
  qed
qed

lemma add_wf:
  fixes rg :: "'a registry"
  assumes wf: "registry_wf rg" and a: "registry_add w sp cur f ex rg = (r, rg')"
  shows "registry_wf rg'"
  using a
proof (cases rule: add_cases)
  case (failed e k)
  then show ?thesis using wf by (simp add: registry_wf_def)
next
  case (added g)
  have "distinct (map fst (rg_listeners rg))" "\<forall>l \<in> set (rg_listeners rg). fst l \<le> rg_next_id rg"
    "\<forall>l \<in> set (rg_log rg). fst l \<le> rg_next_id rg" using wf by (simp_all add: registry_wf_def)
  moreover from this(2) have "rg_next_id rg + 1 \<notin> fst ` set (rg_listeners rg)" by fastforce
  moreover have "\<forall>l \<in> set (deliver [(Suc (rg_next_id rg), f)] ev). fst l \<le> Suc (rg_next_id rg)" for ev :: "'a hotplug_event"
    by (auto simp: deliver_def split: if_splits)
  ultimately show ?thesis unfolding added(3) registry_wf_def by (simp add: ball_Un le_SucI)
qed

lemma fresh_unheard: "registry_wf rg \<Longrightarrow> events_of (rg_next_id rg + 1) (rg_log rg) = []"
  by (fastforce simp: registry_wf_def events_of_def filter_empty_conv)

text \<open>A new listener that asked for the existing devices starts in step with the registry.\<close>

lemma add_new_in_sync:
  fixes rg :: "'l registry"
  assumes wf: "registry_wf rg" and a: "registry_add w sp cur f True rg = (Inr i, rg')"
  shows "in_sync i f rg'"
  using a
proof (cases rule: add_cases)
  case (added g)
  have i: "i = rg_next_id rg + 1" using added(1) by simp
  have "events_of i (rg_log rg') = map Arrived (filter (matches f) (rg_known g))"
    using fresh_unheard [OF wf] events_of_deliveries [of "[(i, f)]" i f "Arrived :: 'l device_info \<Rightarrow> _" "rg_known g"]
    by (simp add: added(3) i events_of_append)
  moreover have "rg_known rg' = rg_known g" by (simp add: added(3))
  ultimately show ?thesis by (auto simp: in_sync_def replay_def fold_arrived view_def)
qed auto

text \<open>Listeners that are already there hear nothing of it, and once the thread is started the
  registry's picture does not change.\<close>

lemma add_in_sync:
  fixes rg :: "'l registry"
  assumes wf: "registry_wf rg" and st: "rg_started rg" and s: "in_sync i f rg" and le: "i \<le> rg_next_id rg"
    and a: "registry_add w sp cur f' ex rg = (r, rg')"
  shows "in_sync i f rg'"
  using a
proof (cases rule: add_cases)
  case (added g)
  have g: "g = rg" using added(2) st by simp
  have ne: "i \<notin> fst ` set [(rg_next_id rg + 1, f')]" using le by simp
  have "events_of i (rg_log rg') = events_of i (rg_log rg)"
    using events_of_deliveries_other [OF ne, of "Arrived :: 'l device_info \<Rightarrow> _"] by (simp add: added(3) events_of_append)
  moreover have "rg_known rg' = rg_known rg" by (simp add: added(3) g)
  moreover have "(i, f) \<in> set (rg_listeners rg') \<longleftrightarrow> (i, f) \<in> set (rg_listeners rg)" using le by (auto simp: added(3))
  ultimately show ?thesis using s by (simp add: in_sync_def replay_def)
qed (use st in auto)

section \<open>The signal and the hotplug thread\<close>

record signal =
  sg_pending :: bool
  sg_stop :: bool

definition signal_notify :: "signal \<Rightarrow> signal" where
  "signal_notify s = s\<lparr>sg_pending := True\<rparr>"

definition signal_stop :: "signal \<Rightarrow> signal" where
  "signal_stop s = s\<lparr>sg_stop := True\<rparr>"

text \<open>\<open>Signal::wait\<close>: \<open>None\<close> while it blocks.\<close>

definition signal_wait :: "signal \<Rightarrow> bool option" where
  "signal_wait s = (if \<not> sg_pending s \<and> \<not> sg_stop s then None else Some (\<not> sg_stop s))"

definition take_pending :: "signal \<Rightarrow> bool \<times> signal" where
  "take_pending s = (\<not> sg_stop s, s\<lparr>sg_pending := False\<rparr>)"

text \<open>Where the thread stands: \<open>Settling\<close> is the sleep of 50 ms, \<open>Scanning\<close> lies between
  \<open>take_pending\<close> and the answer of \<open>enumerate\<close>, \<open>Dispatching\<close> between that answer and the dispatch
  lock. The enumeration is taken before the lock, so registrations can fall in between.\<close>

datatype 'l hotplug_pc = NotStarted | Waiting | Settling | Scanning | Dispatching "'l device_info list" | Checking | Finished

text \<open>The state of the whole: \<open>hp_world\<close> is what is attached, \<open>hp_unnotified\<close> says that no
  notification has come since the last change, \<open>hp_lost\<close> says that the last enumeration failed, and \<open>hp_asked\<close>
  remembers the registrations with \<open>enumerate_existing\<close> and no class in their filter.\<close>

record 'l hotplug =
  hp_signal :: signal
  hp_registry :: "'l registry"
  hp_pc :: "'l hotplug_pc"
  hp_watching :: bool
  hp_world :: "'l device_info list"
  hp_unnotified :: bool
  hp_lost :: bool
  hp_asked :: "(nat \<times> filter_spec) list"

definition hp_init :: "'l device_info list \<Rightarrow> 'l hotplug" where
  "hp_init w = \<lparr>hp_signal = \<lparr>sg_pending = False, sg_stop = False\<rparr>, hp_registry = registry_new, hp_pc = NotStarted,
     hp_watching = False, hp_world = w, hp_unnotified = False, hp_lost = False, hp_asked = []\<rparr>"

text \<open>One step of \<open>dispatch_loop\<close>; \<open>fails\<close> is the error of the enumeration, \<open>alive\<close> whether the context
  can still be upgraded. \<open>None\<close> while it blocks or has ended.\<close>

definition loop_step :: "usb_error option \<Rightarrow> bool \<Rightarrow> 'l hotplug \<Rightarrow> 'l hotplug option" where
  "loop_step fails alive h = (case hp_pc h of
      NotStarted \<Rightarrow> None
    | Waiting \<Rightarrow> (case signal_wait (hp_signal h) of
        None \<Rightarrow> None
      | Some True \<Rightarrow> Some (h\<lparr>hp_pc := Settling\<rparr>)
      | Some False \<Rightarrow> Some (h\<lparr>hp_pc := Finished\<rparr>))
    | Settling \<Rightarrow> (case take_pending (hp_signal h) of (go, s) \<Rightarrow>
        Some (h\<lparr>hp_signal := s, hp_pc := if \<not> go then Finished else if alive then Scanning else Finished\<rparr>))
    | Scanning \<Rightarrow> (case fails of
        Some e \<Rightarrow> Some (h\<lparr>hp_registry := rescan (Inl e) (hp_registry h), hp_lost := True, hp_pc := Checking\<rparr>)
      | None \<Rightarrow> Some (h\<lparr>hp_lost := False, hp_pc := Dispatching (hp_world h)\<rparr>))
    | Dispatching ds \<Rightarrow> Some (h\<lparr>hp_registry := rescan (Inr ds) (hp_registry h), hp_pc := Checking\<rparr>)
    | Checking \<Rightarrow> Some (h\<lparr>hp_pc := if sg_stop (hp_signal h) then Finished else Waiting\<rparr>)
    | Finished \<Rightarrow> None)"

text \<open>A registration. The backend is asked to watch first, then the devices are enumerated, then the
  thread is started.\<close>

definition hp_add ::
  "unit result \<Rightarrow> unit result \<Rightarrow> usb_error option \<Rightarrow> filter_spec \<Rightarrow> bool \<Rightarrow> 'l hotplug \<Rightarrow> nat result \<times> 'l hotplug" where
  "hp_add watch spawn fails f existing h =
     (let first = (case fails of None \<Rightarrow> Inr (hp_world h) | Some e \<Rightarrow> Inl e);
          old = rg_started (hp_registry h);
          (r, rg) = registry_add watch spawn first f existing (hp_registry h);
          new = rg_started rg \<and> \<not> old
      in (r, h\<lparr>hp_registry := rg,
               hp_pc := if new then Waiting else hp_pc h,
               hp_watching := hp_watching h \<or> (\<not> old \<and> \<not> isl watch),
               hp_lost := if new then fails \<noteq> None else hp_lost h,
               hp_asked := (case r of
                   Inr i \<Rightarrow> if existing \<and> hf_class f = None then (i, f) # hp_asked h else hp_asked h
                 | Inl _ \<Rightarrow> hp_asked h)\<rparr>))"

inductive hp_step :: "'l hotplug \<Rightarrow> 'l hotplug \<Rightarrow> bool" where
  plug: "hp_step h (h\<lparr>hp_world := w, hp_unnotified := hp_watching h\<rparr>)"
| notify: "hp_watching h \<Longrightarrow> hp_step h (h\<lparr>hp_signal := signal_notify (hp_signal h), hp_unnotified := False\<rparr>)"
| stop: "hp_step h (h\<lparr>hp_signal := signal_stop (hp_signal h)\<rparr>)"
| loop: "loop_step fails alive h = Some h' \<Longrightarrow> hp_step h h'"
| add: "hp_add watch spawn fails f existing h = (r, h') \<Longrightarrow> hp_step h h'"
| remove: "hp_step h (h\<lparr>hp_registry := registry_remove i (hp_registry h)\<rparr>)"

inductive hp_reach :: "'l hotplug \<Rightarrow> bool" where
  init: "hp_reach (hp_init w)"
| step: "hp_reach h \<Longrightarrow> hp_step h h' \<Longrightarrow> hp_reach h'"

definition latest :: "'l hotplug \<Rightarrow> 'l device_info list" where
  "latest h = (case hp_pc h of Dispatching ds \<Rightarrow> ds | _ \<Rightarrow> rg_known (hp_registry h))"

text \<open>The invariant: no change is forgotten while a notification is on its way, pending or about to be
  looked at, and every listener that asked for the existing devices is in step with the registry.\<close>

definition hp_fresh :: "'l hotplug \<Rightarrow> bool" where
  "hp_fresh h \<longleftrightarrow> latest h = hp_world h \<or> hp_unnotified h \<or> sg_pending (hp_signal h)
     \<or> hp_pc h \<in> {NotStarted, Scanning, Finished} \<or> hp_lost h"

definition hp_inv :: "'l hotplug \<Rightarrow> bool" where
  "hp_inv h \<longleftrightarrow> registry_wf (hp_registry h)
     \<and> (rg_started (hp_registry h) \<longleftrightarrow> hp_pc h \<noteq> NotStarted)
     \<and> (rg_started (hp_registry h) \<longrightarrow> hp_watching h)
     \<and> (\<not> rg_started (hp_registry h) \<longrightarrow> hp_asked h = [])
     \<and> (\<forall>(i, f) \<in> set (hp_asked h). hf_class f = None \<and> i \<le> rg_next_id (hp_registry h) \<and> in_sync i f (hp_registry h))
     \<and> hp_fresh h"

lemma hp_init_inv: "hp_inv (hp_init w)"
  by (simp add: hp_inv_def hp_init_def registry_new_def registry_wf_def hp_fresh_def)

lemma rescan_fields:
  "rg_next_id (rescan r rg) = rg_next_id rg" "rg_started (rescan r rg) = rg_started rg"
  "rg_known (rescan r rg) = (case r of Inl _ \<Rightarrow> rg_known rg | Inr ds \<Rightarrow> ds)"
  by (cases r; simp add: rescan_def Let_def)+

text \<open>A step that keeps the registry and the requests only has to keep freshness.\<close>

lemma hp_inv_same:
  assumes "hp_inv h" "hp_registry h' = hp_registry h" "hp_asked h' = hp_asked h" "hp_watching h' = hp_watching h"
    "(hp_pc h' = NotStarted) = (hp_pc h = NotStarted)" "hp_fresh h'"
  shows "hp_inv h'"
  using assms by (simp add: hp_inv_def)

lemma hp_inv_rescan:
  assumes h: "hp_inv h" and st: "hp_pc h \<noteq> NotStarted" "hp_pc h' \<noteq> NotStarted"
    and eq: "hp_registry h' = rescan r (hp_registry h)" "hp_asked h' = hp_asked h" "hp_watching h' = hp_watching h"
    and fr: "hp_fresh h'"
  shows "hp_inv h'"
proof -
  have "registry_wf (hp_registry h)" using h by (simp add: hp_inv_def)
  then have "in_sync i f (rescan r (hp_registry h))" if "(i, f) \<in> set (hp_asked h)" for i f
    using that h rescan_in_sync [of "hp_registry h" i f r] by (auto simp: hp_inv_def)
  then show ?thesis using h st fr eq by (auto simp: hp_inv_def rescan_fields rescan_wf)
qed

text \<open>The steps of the thread.\<close>

lemma loop_step_inv:
  assumes h: "hp_inv h" and l: "loop_step fails alive h = Some h'"
  shows "hp_inv h'"
proof -
  have fr: "hp_fresh h" using h by (simp add: hp_inv_def)
  show ?thesis
  proof (cases "hp_pc h")
    case Waiting
    show ?thesis
    proof (rule hp_inv_same [OF h])
      show "hp_fresh h'" using l fr Waiting
        by (auto simp: loop_step_def hp_fresh_def latest_def split: option.splits bool.splits)
    qed (use l Waiting in \<open>auto simp: loop_step_def split: option.splits bool.splits\<close>)
  next
    case Settling
    show ?thesis
      by (rule hp_inv_same [OF h])
        (use l Settling in \<open>auto simp: loop_step_def take_pending_def hp_fresh_def split: if_splits\<close>)
  next
    case Scanning
    show ?thesis
    proof (cases fails)
      case None
      show ?thesis
        by (rule hp_inv_same [OF h])
          (use l Scanning None in \<open>auto simp: loop_step_def hp_fresh_def latest_def\<close>)
    next
      case (Some e)
      show ?thesis
        by (rule hp_inv_rescan [OF h, where r = "Inl e"])
          (use l Scanning Some in \<open>auto simp: loop_step_def hp_fresh_def\<close>)
    qed
  next
    case (Dispatching ds)
    show ?thesis
      by (rule hp_inv_rescan [OF h, where r = "Inr ds"])
        (use l Dispatching fr in \<open>auto simp: loop_step_def hp_fresh_def latest_def rescan_fields\<close>)
  next
    case Checking
    show ?thesis
    proof (rule hp_inv_same [OF h])
      show "hp_fresh h'" using l fr Checking by (auto simp: loop_step_def hp_fresh_def latest_def split: if_splits)
    qed (use l Checking in \<open>auto simp: loop_step_def split: if_splits\<close>)
  qed (use l in \<open>simp_all add: loop_step_def\<close>)
qed

lemma add_started:
  assumes "registry_add w sp cur f ex rg = (r, rg')"
  shows "rg_next_id rg \<le> rg_next_id rg'" "rg_started rg \<Longrightarrow> rg_started rg' \<and> rg_known rg' = rg_known rg"
    "r = Inr i \<Longrightarrow> rg_started rg' \<and> i = rg_next_id rg + 1 \<and> rg_next_id rg' = i"
    "\<not> rg_started rg \<Longrightarrow> rg_started rg' \<Longrightarrow> r = Inr (rg_next_id rg + 1) \<and> \<not> isl w
       \<and> rg_known rg' = (case cur of Inr ds \<Rightarrow> ds | Inl _ \<Rightarrow> [])"
proof -
  show "rg_next_id rg \<le> rg_next_id rg'" using assms by (cases rule: add_cases) auto
  show "rg_started rg \<Longrightarrow> rg_started rg' \<and> rg_known rg' = rg_known rg"
    using assms by (cases rule: add_cases) auto
  show "r = Inr i \<Longrightarrow> rg_started rg' \<and> i = rg_next_id rg + 1 \<and> rg_next_id rg' = i"
    using assms by (cases rule: add_cases) auto
  assume ns: "\<not> rg_started rg" and st: "rg_started rg'"
  have "\<not> isl w" using assms ns st by (auto simp: registry_add_def Let_def split: sum.splits)
  moreover have "r = Inr (rg_next_id rg + 1) \<and> rg_known rg' = (case cur of Inr ds \<Rightarrow> ds | Inl _ \<Rightarrow> [])"
    using assms
  proof (cases rule: add_cases)
    case (added g)
    with ns show ?thesis by simp
  qed (use st ns in auto)
  ultimately show "r = Inr (rg_next_id rg + 1) \<and> \<not> isl w
       \<and> rg_known rg' = (case cur of Inr ds \<Rightarrow> ds | Inl _ \<Rightarrow> [])" by simp
qed

lemma hp_add_inv:
  assumes h: "hp_inv h" and a: "hp_add w sp fails f ex h = (r, h')"
  shows "hp_inv h'"
proof -
  let ?rg = "hp_registry h" and ?cur = "case fails of None \<Rightarrow> Inr (hp_world h) | Some e \<Rightarrow> Inl e"
  obtain r0 rg where a0: "registry_add w sp ?cur f ex ?rg = (r0, rg)" by (cases "registry_add w sp ?cur f ex ?rg")
  have wf: "registry_wf ?rg" using h by (simp add: hp_inv_def)
  have st: "rg_started ?rg \<longleftrightarrow> hp_pc h \<noteq> NotStarted" using h by (simp add: hp_inv_def)
  have h': "hp_registry h' = rg" "hp_signal h' = hp_signal h" "hp_world h' = hp_world h" "r = r0"
    "hp_unnotified h' = hp_unnotified h"
    "hp_pc h' = (if rg_started rg \<and> \<not> rg_started ?rg then Waiting else hp_pc h)"
    "hp_watching h' = (hp_watching h \<or> (\<not> rg_started ?rg \<and> \<not> isl w))"
    "hp_lost h' = (if rg_started rg \<and> \<not> rg_started ?rg then fails \<noteq> None else hp_lost h)"
    "hp_asked h' = (case r of Inr i \<Rightarrow> if ex \<and> hf_class f = None then (i, f) # hp_asked h else hp_asked h
                 | Inl _ \<Rightarrow> hp_asked h)"
    using a a0 by (auto simp: hp_add_def Let_def split del: if_split)
  note s = add_started [OF a0]
  have old: "hf_class g = None \<and> i \<le> rg_next_id rg \<and> in_sync i g rg" if i: "(i, g) \<in> set (hp_asked h)" for i g
  proof -
    have "rg_started ?rg" using i h by (auto simp: hp_inv_def)
    moreover have "hf_class g = None" "i \<le> rg_next_id ?rg" "in_sync i g ?rg" using i h by (auto simp: hp_inv_def)
    ultimately show ?thesis using add_in_sync [OF wf _ _ _ a0, of i g] s(1) by simp
  qed
  have new: "hf_class g = None \<and> i \<le> rg_next_id rg \<and> in_sync i g rg"
    if "r0 = Inr i" "ex" "g = f" "hf_class f = None" for i g
    using add_new_in_sync [OF wf, of w sp ?cur f i rg] a0 that s(3) by simp
  have asked: "\<forall>(i, g) \<in> set (hp_asked h'). hf_class g = None \<and> i \<le> rg_next_id rg \<and> in_sync i g rg"
    using old new by (auto simp: h' split: sum.splits if_splits)
  have fr: "hp_fresh h'"
  proof (cases "rg_started ?rg")
    case True
    have "latest h' = latest h" using True s(2) by (simp add: latest_def h' split: hotplug_pc.split)
    then show ?thesis using True h s(2) by (auto simp: hp_fresh_def h' hp_inv_def)
  next
    case False
    show ?thesis
    proof (cases "rg_started rg")
      case True
      with False s(4) show ?thesis by (cases fails) (simp_all add: hp_fresh_def latest_def h')
    next
      case n: False
      have "hp_pc h' = NotStarted" using False st n by (simp add: h')
      then show ?thesis by (simp add: hp_fresh_def)
    qed
  qed
  show ?thesis
    unfolding hp_inv_def
  proof (intro conjI)
    show "registry_wf (hp_registry h')" using add_wf [OF wf a0] by (simp add: h')
    show "rg_started (hp_registry h') \<longleftrightarrow> hp_pc h' \<noteq> NotStarted" using st s(2) by (auto simp: h')
    show "rg_started (hp_registry h') \<longrightarrow> hp_watching h'" using s(4) h by (auto simp: h' hp_inv_def)
    show "\<not> rg_started (hp_registry h') \<longrightarrow> hp_asked h' = []"
      using s(2) s(3) h by (auto simp: h' hp_inv_def split: sum.splits)
    show "\<forall>(i, g) \<in> set (hp_asked h'). hf_class g = None \<and> i \<le> rg_next_id (hp_registry h') \<and> in_sync i g (hp_registry h')"
      using asked by (simp add: h')
  qed (rule fr)
qed

lemma hp_step_inv:
  assumes "hp_inv h" "hp_step h h'"
  shows "hp_inv h'"
  using assms(2,1)
proof cases
  case (plug w)
  show ?thesis
  proof (rule hp_inv_same [OF assms(1)])
    show "hp_fresh h'" using assms(1) plug by (auto simp: hp_fresh_def hp_inv_def)
  qed (simp_all add: plug)
next
  case notify
  show ?thesis by (rule hp_inv_same [OF assms(1)]) (simp_all add: notify hp_fresh_def signal_notify_def)
next
  case stop
  show ?thesis
  proof (rule hp_inv_same [OF assms(1)])
    have "latest h' = latest h" using stop by (simp add: latest_def split: hotplug_pc.split)
    then show "hp_fresh h'" using assms(1) stop by (simp add: hp_fresh_def hp_inv_def signal_stop_def)
  qed (simp_all add: stop)
next
  case (loop fails alive)
  then show ?thesis using loop_step_inv [OF assms(1)] by simp
next
  case (add w sp fails f ex r)
  then show ?thesis using hp_add_inv [OF assms(1)] by simp
next
  case (remove i)
  have "latest h' = latest h" "hp_fresh h' = hp_fresh h"
    using remove by (simp_all add: latest_def hp_fresh_def registry_remove_def split: hotplug_pc.split)
  moreover have "rg_started (registry_remove i rg) = rg_started rg" "rg_next_id (registry_remove i rg) = rg_next_id rg"
    for rg :: "'a registry" by (simp_all add: registry_remove_def)
  ultimately show ?thesis using assms(1) remove remove_in_sync [of _ _ "hp_registry h" i] remove_wf [of "hp_registry h" i]
    by (auto simp: hp_inv_def)
qed

lemma hp_reach_inv: "hp_reach h \<Longrightarrow> hp_inv h"
  by (induction rule: hp_reach.induct) (auto intro: hp_init_inv hp_step_inv)

text \<open>Undisturbed, the thread takes five steps from a pending notification to an idle state whose
  picture is what is attached.\<close>

fun loop_run :: "nat \<Rightarrow> 'l hotplug \<Rightarrow> 'l hotplug option" where
  "loop_run 0 h = Some h"
| "loop_run (Suc n) h = (case loop_step None True h of None \<Rightarrow> None | Some h' \<Rightarrow> loop_run n h')"

lemma loop_run_cycle:
  assumes "hp_pc h = Waiting" "sg_pending (hp_signal h)" "\<not> sg_stop (hp_signal h)"
  shows "loop_run 5 h = Some (h\<lparr>hp_signal := (hp_signal h)\<lparr>sg_pending := False\<rparr>, hp_lost := False,
     hp_registry := rescan (Inr (hp_world h)) (hp_registry h), hp_pc := Waiting\<rparr>)"
  using assms by (simp add: eval_nat_numeral loop_step_def signal_wait_def take_pending_def)

section \<open>Builders and watchers\<close>

record hotplug_builder =
  hb_filter :: filter_spec
  hb_existing :: bool

definition builder_new :: hotplug_builder where
  "builder_new = \<lparr>hb_filter = \<lparr>hf_vendor_id = None, hf_product_id = None, hf_class = None\<rparr>, hb_existing = False\<rparr>"

definition builder_vendor_id :: "u16 \<Rightarrow> hotplug_builder \<Rightarrow> hotplug_builder" where
  "builder_vendor_id v b = b\<lparr>hb_filter := (hb_filter b)\<lparr>hf_vendor_id := Some v\<rparr>\<rparr>"

definition builder_product_id :: "u16 \<Rightarrow> hotplug_builder \<Rightarrow> hotplug_builder" where
  "builder_product_id p b = b\<lparr>hb_filter := (hb_filter b)\<lparr>hf_product_id := Some p\<rparr>\<rparr>"

definition builder_class :: "u8 \<Rightarrow> hotplug_builder \<Rightarrow> hotplug_builder" where
  "builder_class c b = b\<lparr>hb_filter := (hb_filter b)\<lparr>hf_class := Some c\<rparr>\<rparr>"

definition builder_existing :: "bool \<Rightarrow> hotplug_builder \<Rightarrow> hotplug_builder" where
  "builder_existing yes b = b\<lparr>hb_existing := yes\<rparr>"

fun is_arrival :: "'l hotplug_event \<Rightarrow> bool" where
  "is_arrival (Arrived d) = True"
| "is_arrival (Left d) = False"

text \<open>A watcher is a listener whose callback queues what it is told; \<open>hw_taken\<close> counts what has been
  pulled out. \<open>try_recv\<close> answers \<open>None\<close> when nothing is queued.\<close>

record watcher =
  hw_id :: nat
  hw_taken :: nat

definition watcher_queue :: "watcher \<Rightarrow> 'l registry \<Rightarrow> 'l hotplug_event list" where
  "watcher_queue w rg = drop (hw_taken w) (events_of (hw_id w) (rg_log rg))"

definition try_recv :: "'l registry \<Rightarrow> watcher \<Rightarrow> 'l hotplug_event option \<times> watcher" where
  "try_recv rg w = (case watcher_queue w rg of
      [] \<Rightarrow> (None, w)
    | e # _ \<Rightarrow> (Some e, w\<lparr>hw_taken := hw_taken w + 1\<rparr>))"

fun recv_all :: "nat \<Rightarrow> 'l registry \<Rightarrow> watcher \<Rightarrow> 'l hotplug_event list \<times> watcher" where
  "recv_all 0 rg w = ([], w)"
| "recv_all (Suc n) rg w = (case try_recv rg w of
      (None, w) \<Rightarrow> ([], w)
    | (Some e, w) \<Rightarrow> (case recv_all n rg w of (es, w) \<Rightarrow> (e # es, w)))"

lemma recv_all_queue:
  assumes "length (watcher_queue w rg) \<le> n"
  shows "recv_all n rg w = (watcher_queue w rg, w\<lparr>hw_taken := hw_taken w + length (watcher_queue w rg)\<rparr>)"
  using assms
proof (induction n arbitrary: w)
  case (Suc n)
  show ?case
  proof (cases "watcher_queue w rg")
    case (Cons e es)
    define v where "v = w\<lparr>hw_taken := hw_taken w + 1\<rparr>"
    have q: "watcher_queue v rg = es"
      using Cons by (simp add: watcher_queue_def v_def) (metis drop_Suc list.sel(3) tl_drop)
    then show ?thesis using Suc.IH [of v] Suc.prems Cons by (simp add: try_recv_def v_def)
  qed (simp add: try_recv_def)
qed simp

end
