(* ===== verification/Hid_Report.thy ===== *)
theory Hid_Report
  imports Usb_Types
begin

text \<open>
  HID report descriptors (\<open>src/src/hid/report.rs\<close>): the items of a descriptor, the parser with its
  global and local state, the fields and report layouts it produces, and the decoding of field
  values. Signed 64-bit values are integers: every one the parser stores is the value of a 32-bit
  item, which the lemmas on \<open>field_ok\<close> record.
\<close>

section \<open>Items\<close>

datatype item_type = ItMain | ItGlobal | ItLocal | ItReserved

record item =
  it_kind :: item_type
  it_tag :: u8
  it_data :: bytes

definition item_unsigned :: "item \<Rightarrow> u32" where
  "item_unsigned it = (let b = resize 4 (take 4 (it_data it)) in u32_le (b ! 0) (b ! 1) (b ! 2) (b ! 3))"

definition item_signed :: "item \<Rightarrow> i32" where
  "item_signed it = (let d = it_data it in
     if length d = 0 then 0
     else if length d = 1 then scast (d ! 0)
     else if length d = 2 then scast (u16_le (d ! 0) (d ! 1))
     else item_unsigned it)"

definition short_kind :: "u8 \<Rightarrow> item_type" where
  "short_kind prefix = (let k = drop_bit 2 prefix AND 3 in
     if k = 0 then ItMain else if k = 1 then ItGlobal else if k = 2 then ItLocal else ItReserved)"

definition short_size :: "u8 \<Rightarrow> nat" where
  "short_size prefix = (if prefix AND 3 = 3 then 4 else unat (prefix AND 3))"

text \<open>The iterator of \<open>items\<close>: it ends at a truncated item.\<close>

function items :: "bytes \<Rightarrow> item list" where
  "items [] = []"
| "items (prefix # tail) =
     (if prefix = 0xfe then
        (case tail of
           sz # tag # tail \<Rightarrow>
             if length tail < unat sz then []
             else \<lparr>it_kind = ItReserved, it_tag = tag, it_data = take (unat sz) tail\<rparr> # items (drop (unat sz) tail)
         | _ \<Rightarrow> [])
      else
        (let sz = short_size prefix in
         if length tail < sz then []
         else \<lparr>it_kind = short_kind prefix, it_tag = drop_bit 4 prefix, it_data = take sz tail\<rparr>
           # items (drop sz tail)))"
  by pat_completeness auto
termination by (relation "measure length") auto

declare items.simps(2) [simp del]

section \<open>Usages and fields\<close>

datatype usage = Usage u32

fun usage_bits :: "usage \<Rightarrow> u32" where
  "usage_bits (Usage v) = v"

definition usage_new :: "u16 \<Rightarrow> u16 \<Rightarrow> usage" where
  "usage_new page i = Usage (push_bit 16 (ucast page) OR ucast i)"

definition usage_page :: "usage \<Rightarrow> u16" where
  "usage_page u = ucast (drop_bit 16 (usage_bits u))"

definition usage_id :: "usage \<Rightarrow> u16" where
  "usage_id u = ucast (usage_bits u)"

datatype usages = UsageList "usage list" | UsageRange usage usage

text \<open>\<open>v.get(i).or(v.last())\<close>, and the checked addition of the index cut to 32 bits.\<close>

fun usages_get :: "usages \<Rightarrow> nat \<Rightarrow> usage option" where
  "usages_get (UsageList v) i =
     (case idx v i of Some u \<Rightarrow> Some u | None \<Rightarrow> if v = [] then None else Some (last v))"
| "usages_get (UsageRange lo hi) i =
     (let n = unat (usage_bits lo) + i mod 2 ^ 32 in
      if 2 ^ 32 \<le> n then None
      else if word_of_nat n \<le> usage_bits hi then Some (Usage (word_of_nat n)) else None)"

datatype report_type = Input | Output | Feature

record hid_field =
  f_report_type :: report_type
  f_report_id :: u8
  f_bit_offset :: u32
  f_bit_size :: u32
  f_count :: u32
  f_flags :: u32
  f_usages :: usages
  f_logical_min :: int
  f_logical_max :: int
  f_physical_min :: int
  f_physical_max :: int
  f_unit_exponent :: i32
  f_unit :: u32

definition f_constant :: "hid_field \<Rightarrow> bool" where "f_constant f \<longleftrightarrow> f_flags f AND 1 \<noteq> 0"
definition f_variable :: "hid_field \<Rightarrow> bool" where "f_variable f \<longleftrightarrow> f_flags f AND 2 \<noteq> 0"
definition f_relative :: "hid_field \<Rightarrow> bool" where "f_relative f \<longleftrightarrow> f_flags f AND 4 \<noteq> 0"

text \<open>\<open>Field::value\<close>; the outer \<open>None\<close> is the panic of an overflowing 32-bit product.\<close>

definition gather_bits :: "bytes \<Rightarrow> nat \<Rightarrow> nat \<Rightarrow> u64" where
  "gather_bits report start n =
     fold (\<lambda>i v. if drop_bit ((start + i) mod 8) (report ! ((start + i) div 8)) AND 1 \<noteq> 0 then v OR push_bit i 1 else v)
       [0..<n] 0"

definition field_value :: "hid_field \<Rightarrow> bytes \<Rightarrow> u32 \<Rightarrow> int option option" where
  "field_value f report index =
     (if f_count f \<le> index \<or> f_bit_size f = 0 \<or> 32 < f_bit_size f then Some None
      else if 2 ^ 32 \<le> unat index * unat (f_bit_size f) then None
      else (let sz = unat (f_bit_size f);
                start = unat (f_bit_offset f) + unat index * sz
            in if length report * 8 < start + sz then Some None
               else (let v = gather_bits report start sz in
                     if f_logical_min f < 0 \<and> drop_bit (sz - 1) v AND 1 \<noteq> 0
                     then Some (Some (sint v - 2 ^ sz))
                     else Some (Some (sint v)))))"

text \<open>\<open>Field::array_usage\<close>; the outer \<open>None\<close> is the panic of an overflowing 64-bit difference.\<close>

definition array_usage :: "hid_field \<Rightarrow> int \<Rightarrow> usage option option" where
  "array_usage f value =
     (if value < f_logical_min f \<or> f_logical_max f < value then Some None
      else if 2 ^ 63 \<le> value - f_logical_min f then None
      else (let i = nat (value - f_logical_min f) in
            case f_usages f of
              UsageList v \<Rightarrow> Some (idx v i)
            | r \<Rightarrow> Some (usages_get r i)))"

section \<open>The parser\<close>

record hid_globals =
  g_usage_page :: u16
  g_logical_min :: int
  g_logical_max :: int
  g_physical_min :: int
  g_physical_max :: int
  g_unit_exponent :: i32
  g_unit :: u32
  g_report_size :: u32
  g_report_id :: u8
  g_report_count :: u32
  g_logical_max_size :: nat

definition globals_default :: hid_globals where
  "globals_default = \<lparr>g_usage_page = 0, g_logical_min = 0, g_logical_max = 0, g_physical_min = 0,
     g_physical_max = 0, g_unit_exponent = 0, g_unit = 0, g_report_size = 0, g_report_id = 0,
     g_report_count = 0, g_logical_max_size = 0\<rparr>"

record report_descriptor =
  rd_fields :: "hid_field list"
  rd_application_usages :: "usage list"
  rd_reports :: "((report_type \<times> u8) \<times> u32) list"
  rd_uses_ids :: bool

record hid_parse =
  hs_out :: report_descriptor
  hs_g :: hid_globals
  hs_stack :: "hid_globals list"
  hs_usages :: "(u32 \<times> bool) list"
  hs_min :: "(u32 \<times> bool) option"
  hs_max :: "(u32 \<times> bool) option"
  hs_depth :: nat

definition hid_parse_start :: hid_parse where
  "hid_parse_start = \<lparr>hs_out = \<lparr>rd_fields = [], rd_application_usages = [], rd_reports = [], rd_uses_ids = False\<rparr>,
     hs_g = globals_default, hs_stack = [], hs_usages = [], hs_min = None, hs_max = None, hs_depth = 0\<rparr>"

definition parse_global :: "item \<Rightarrow> hid_parse \<Rightarrow> hid_parse result" where
  "parse_global it st =
     (let tag = it_tag it; g = hs_g st in
      if tag = 0 then Ok (st\<lparr>hs_g := g\<lparr>g_usage_page := ucast (item_unsigned it)\<rparr>\<rparr>)
      else if tag = 1 then Ok (st\<lparr>hs_g := g\<lparr>g_logical_min := sint (item_signed it)\<rparr>\<rparr>)
      else if tag = 2 then
        Ok (st\<lparr>hs_g := g\<lparr>g_logical_max := sint (item_signed it), g_logical_max_size := length (it_data it)\<rparr>\<rparr>)
      else if tag = 3 then Ok (st\<lparr>hs_g := g\<lparr>g_physical_min := sint (item_signed it)\<rparr>\<rparr>)
      else if tag = 4 then Ok (st\<lparr>hs_g := g\<lparr>g_physical_max := sint (item_signed it)\<rparr>\<rparr>)
      else if tag = 5 then Ok (st\<lparr>hs_g := g\<lparr>g_unit_exponent := item_signed it\<rparr>\<rparr>)
      else if tag = 6 then Ok (st\<lparr>hs_g := g\<lparr>g_unit := item_unsigned it\<rparr>\<rparr>)
      else if tag = 7 then Ok (st\<lparr>hs_g := g\<lparr>g_report_size := item_unsigned it\<rparr>\<rparr>)
      else if tag = 8 then
        (let i = item_unsigned it in
         if i = 0 \<or> 255 < i then Err InvalidParam
         else Ok (st\<lparr>hs_g := g\<lparr>g_report_id := ucast i\<rparr>, hs_out := (hs_out st)\<lparr>rd_uses_ids := True\<rparr>\<rparr>))
      else if tag = 9 then Ok (st\<lparr>hs_g := g\<lparr>g_report_count := item_unsigned it\<rparr>\<rparr>)
      else if tag = 10 then Ok (st\<lparr>hs_stack := g # hs_stack st\<rparr>)
      else if tag = 11 then
        (case hs_stack st of [] \<Rightarrow> Err InvalidParam | g' # rest \<Rightarrow> Ok (st\<lparr>hs_g := g', hs_stack := rest\<rparr>))
      else Ok st)"

definition parse_local :: "item \<Rightarrow> hid_parse \<Rightarrow> hid_parse" where
  "parse_local it st =
     (let raw = (item_unsigned it, length (it_data it) = 4) in
      if it_tag it = 0 then st\<lparr>hs_usages := hs_usages st @ [raw]\<rparr>
      else if it_tag it = 1 then st\<lparr>hs_min := Some raw\<rparr>
      else if it_tag it = 2 then st\<lparr>hs_max := Some raw\<rparr>
      else st)"

definition resolve :: "u16 \<Rightarrow> u32 \<times> bool \<Rightarrow> usage" where
  "resolve page = (\<lambda>(v, ext). if ext then Usage v else usage_new page (ucast v))"

text \<open>\<open>report_bits_mut\<close>: the size so far of a report (a new one has none), and its update in place.\<close>

definition report_bits :: "report_type \<Rightarrow> u8 \<Rightarrow> report_descriptor \<Rightarrow> u32" where
  "report_bits t i d = (case map_of (rd_reports d) (t, i) of Some n \<Rightarrow> n | None \<Rightarrow> 0)"

fun set_bits :: "report_type \<times> u8 \<Rightarrow> u32 \<Rightarrow> ((report_type \<times> u8) \<times> u32) list \<Rightarrow> ((report_type \<times> u8) \<times> u32) list" where
  "set_bits k n [] = [(k, n)]"
| "set_bits k n ((k', m) # rs) = (if k' = k then (k, n) # rs else (k', m) # set_bits k n rs)"

definition fixed_logical_max :: "hid_globals \<Rightarrow> int" where
  "fixed_logical_max g =
     (if 0 \<le> g_logical_min g \<and> g_logical_max g < 0 then
        (if g_logical_max_size g = 1 then uint (word_of_int (g_logical_max g) :: u8)
         else if g_logical_max_size g = 2 then uint (word_of_int (g_logical_max g) :: u16)
         else uint (word_of_int (g_logical_max g) :: u32))
      else g_logical_max g)"

definition main_report_type :: "u8 \<Rightarrow> report_type" where
  "main_report_type tag = (if tag = 8 then Input else if tag = 9 then Output else Feature)"

definition parse_field ::
  "item \<Rightarrow> usage list \<Rightarrow> usage option \<Rightarrow> usage option \<Rightarrow> hid_parse \<Rightarrow> hid_parse result" where
  "parse_field it us umin umax st =
     (let g = hs_g st; d = hs_out st; t = main_report_type (it_tag it);
          bits = unat (g_report_size g) * unat (g_report_count g);
          offset = report_bits t (g_report_id g) d
      in if 2 ^ 32 \<le> bits \<or> 2 ^ 32 \<le> unat offset + bits then Err InvalidParam
         else (let usages = (case (umin, umax) of
                    (Some lo, Some hi) \<Rightarrow> if us = [] then UsageRange lo hi else UsageList us
                  | _ \<Rightarrow> UsageList us);
                   f = \<lparr>f_report_type = t, f_report_id = g_report_id g, f_bit_offset = offset,
                        f_bit_size = g_report_size g, f_count = g_report_count g, f_flags = item_unsigned it,
                        f_usages = usages, f_logical_min = g_logical_min g, f_logical_max = fixed_logical_max g,
                        f_physical_min = g_physical_min g, f_physical_max = g_physical_max g,
                        f_unit_exponent = g_unit_exponent g, f_unit = g_unit g\<rparr>
               in Ok (st\<lparr>hs_out := d\<lparr>rd_reports := set_bits (t, g_report_id g) (word_of_nat (unat offset + bits)) (rd_reports d),
                                     rd_fields := rd_fields d @ [f]\<rparr>\<rparr>)))"

definition parse_main :: "item \<Rightarrow> hid_parse \<Rightarrow> hid_parse result" where
  "parse_main it st =
     (let page = g_usage_page (hs_g st);
          us = map (resolve page) (hs_usages st);
          umin = map_option (resolve page) (hs_min st);
          umax = map_option (resolve page) (hs_max st);
          tag = it_tag it;
          st = st\<lparr>hs_usages := [], hs_min := None, hs_max := None\<rparr>;
          d = hs_out st
      in if tag = 8 \<or> tag = 9 \<or> tag = 11 then parse_field it us umin umax st
         else if tag = 10 then
           (let d' = (if hs_depth st = 0 \<and> item_unsigned it = 1 then
                        (case us of
                           u # _ \<Rightarrow> d\<lparr>rd_application_usages := rd_application_usages d @ [u]\<rparr>
                         | [] \<Rightarrow> (case umin of
                              Some u \<Rightarrow> d\<lparr>rd_application_usages := rd_application_usages d @ [u]\<rparr>
                            | None \<Rightarrow> d))
                      else d)
            in Ok (st\<lparr>hs_out := d', hs_depth := hs_depth st + 1\<rparr>))
         else if tag = 12 then
           (if hs_depth st = 0 then Err InvalidParam else Ok (st\<lparr>hs_depth := hs_depth st - 1\<rparr>))
         else Ok st)"

definition parse_item :: "item \<Rightarrow> hid_parse \<Rightarrow> hid_parse result" where
  "parse_item it st = (case it_kind it of
      ItGlobal \<Rightarrow> parse_global it st
    | ItLocal \<Rightarrow> Ok (parse_local it st)
    | ItMain \<Rightarrow> parse_main it st
    | ItReserved \<Rightarrow> Ok st)"

fun parse_items :: "item list \<Rightarrow> hid_parse \<Rightarrow> hid_parse result" where
  "parse_items [] st = Ok st"
| "parse_items (it # its) st = (case parse_item it st of Inl e \<Rightarrow> Inl e | Inr st' \<Rightarrow> parse_items its st')"

definition report_parse :: "bytes \<Rightarrow> report_descriptor result" where
  "report_parse descriptor = map_sum id hs_out (parse_items (items descriptor) hid_parse_start)"

section \<open>The layout of reports\<close>

definition report_ids :: "report_type \<Rightarrow> report_descriptor \<Rightarrow> u8 list" where
  "report_ids t d = map (snd \<circ> fst) (filter (\<lambda>r. fst (fst r) = t) (rd_reports d))"

definition report_len :: "report_type \<Rightarrow> u8 \<Rightarrow> report_descriptor \<Rightarrow> nat option" where
  "report_len t i d = map_option (\<lambda>n. div_ceil (unat n) 8) (map_of (rd_reports d) (t, i))"

definition report_fields :: "report_type \<Rightarrow> u8 \<Rightarrow> report_descriptor \<Rightarrow> hid_field list" where
  "report_fields t i d = filter (\<lambda>f. f_report_type f = t \<and> f_report_id f = i) (rd_fields d)"

definition strip_id :: "report_descriptor \<Rightarrow> bytes \<Rightarrow> u8 \<times> bytes" where
  "strip_id d report = (case (rd_uses_ids d, report) of (True, i # rest) \<Rightarrow> (i, rest) | _ \<Rightarrow> (0, report))"

section \<open>Items: encoding and decoding\<close>

text \<open>The wire form of an item: a short item where the standard has one, otherwise a long item.\<close>

fun kind_code :: "item_type \<Rightarrow> u8" where
  "kind_code ItMain = 0"
| "kind_code ItGlobal = 1"
| "kind_code ItLocal = 2"
| "kind_code ItReserved = 3"

definition size_code :: "nat \<Rightarrow> u8" where
  "size_code n = (if n = 4 then 3 else word_of_nat n)"

definition item_prefix :: "item \<Rightarrow> u8" where
  "item_prefix it = push_bit 4 (it_tag it) OR push_bit 2 (kind_code (it_kind it)) OR size_code (length (it_data it))"

definition short_item :: "item \<Rightarrow> bool" where
  "short_item it \<longleftrightarrow> it_tag it < 16 \<and> length (it_data it) \<in> {0, 1, 2, 4} \<and> item_prefix it \<noteq> 0xfe"

definition wf_item :: "item \<Rightarrow> bool" where
  "wf_item it \<longleftrightarrow> short_item it \<or> (it_kind it = ItReserved \<and> length (it_data it) < 256)"

definition item_bytes :: "item \<Rightarrow> bytes" where
  "item_bytes it =
     (if short_item it then item_prefix it # it_data it
      else [0xfe, word_of_nat (length (it_data it)), it_tag it] @ it_data it)"

lemma and_3_iff: "(w :: u8) AND 3 = take_bit 2 w"
  by (simp add: take_bit_eq_mask mask_eq_exp_minus_1)

lemma nibble_tag: "(t :: u8) < 16 \<Longrightarrow> take_bit 4 t = t"
proof -
  assume "t < 16"
  then have "unat t < 16" by (simp add: word_less_nat_alt)
  then have "unat (take_bit 4 t) = unat t" by (simp add: unsigned_take_bit_eq take_bit_nat_eq_self)
  then show "take_bit 4 t = t" by (simp only: unsigned_word_eqI)
qed

lemma prefix_fields:
  assumes t: "take_bit 4 t = (t :: u8)" and k: "take_bit 2 k = k" and s: "take_bit 2 s = s"
  shows "take_bit 2 (push_bit 4 t OR push_bit 2 k OR s) = s"
    and "take_bit 2 (drop_bit 2 (push_bit 4 t OR push_bit 2 k OR s)) = k"
    and "drop_bit 4 (push_bit 4 t OR push_bit 2 k OR s) = t"
proof -
  have t': "\<not> bit t n" if "4 \<le> n" for n using that t by (metis bit_take_bit_iff not_le)
  then have t'': "bit t n \<Longrightarrow> n < 4" for n using not_less by blast
  have k': "\<not> bit k n" if "2 \<le> n" for n using that k by (metis bit_take_bit_iff not_le)
  have s': "\<not> bit s n" if "2 \<le> n" for n using that s by (metis bit_take_bit_iff not_le)
  show "take_bit 2 (push_bit 4 t OR push_bit 2 k OR s) = s"
    by (rule bit_word_eqI) (use s' in \<open>auto simp: bit_simps not_less\<close>)
  show "take_bit 2 (drop_bit 2 (push_bit 4 t OR push_bit 2 k OR s)) = k"
    by (rule bit_word_eqI) (use k' s' in \<open>auto simp: bit_simps not_less\<close>)
  show "drop_bit 4 (push_bit 4 t OR push_bit 2 k OR s) = t"
    by (rule bit_word_eqI) (use t' t'' k' s' in \<open>auto simp: bit_simps not_less\<close>)
qed

lemma kind_code_bits: "take_bit 2 (kind_code k) = kind_code k"
  by (cases k) (simp_all add: take_bit_eq_mask mask_eq_exp_minus_1)

lemma size_code_bits: "n \<in> {0, 1, 2, 4} \<Longrightarrow> take_bit 2 (size_code n) = size_code n"
  by (auto simp: size_code_def take_bit_eq_mask mask_eq_exp_minus_1)

lemma item_prefix_fields:
  assumes "short_item it"
  shows "short_size (item_prefix it) = length (it_data it)" "short_kind (item_prefix it) = it_kind it"
    "drop_bit 4 (item_prefix it) = it_tag it"
proof -
  have tag: "take_bit 4 (it_tag it) = it_tag it" and n: "length (it_data it) \<in> {0, 1, 2, 4}"
    using assms nibble_tag by (auto simp: short_item_def)
  note f = prefix_fields [OF tag kind_code_bits size_code_bits [OF n]]
  show "short_size (item_prefix it) = length (it_data it)"
    using f(1) n by (auto simp: short_size_def and_3_iff item_prefix_def size_code_def)
  show "short_kind (item_prefix it) = it_kind it"
    using f(2) [of "it_kind it"] by (cases "it_kind it") (simp_all add: short_kind_def and_3_iff item_prefix_def)
  show "drop_bit 4 (item_prefix it) = it_tag it"
    using f(3) by (simp add: item_prefix_def)
qed

lemma items_Cons: "wf_item it \<Longrightarrow> items (item_bytes it @ rest) = it # items rest"
proof (cases "short_item it")
  case True
  then have "item_prefix it \<noteq> 0xfe" by (simp add: short_item_def)
  with True show ?thesis by (simp add: item_bytes_def items.simps(2) item_prefix_fields)
next
  case False
  assume "wf_item it"
  with False have k: "it_kind it = ItReserved" and n: "length (it_data it) < 256" by (simp_all add: wf_item_def)
  have "unat (word_of_nat (length (it_data it)) :: u8) = length (it_data it)"
    using n by (simp only: unsigned_of_nat) (simp add: take_bit_eq_mod)
  with False k show ?thesis by (simp add: item_bytes_def items.simps(2))
qed

lemma items_bytes: "\<forall>it \<in> set its. wf_item it \<Longrightarrow> items (concat (map item_bytes its)) = its"
  by (induction its) (simp_all add: items_Cons)

section \<open>Values are bit fields of the report\<close>

text \<open>A report as one little-endian number.\<close>

definition report_number :: "bytes \<Rightarrow> int" where
  "report_number report = horner_sum uint 256 report"

lemma bit_report_number:
  "bit (report_number report) n \<longleftrightarrow> n div 8 < length report \<and> bit (report ! (n div 8)) (n mod 8)"
  using bit_horner_sum_uint_exp_iff [of report n] by (simp add: report_number_def)

lemma low_bit: "drop_bit k (w :: 'a::len word) AND 1 \<noteq> 0 \<longleftrightarrow> bit w k"
  by (simp add: and_one_eq odd_iff_mod_2_eq_one [symmetric] bit_iff_odd_drop_bit)

lemma bit_gather:
  assumes "n \<le> 64"
  shows "bit (gather_bits report start n) k \<longleftrightarrow> k < n \<and> bit (report ! ((start + k) div 8)) ((start + k) mod 8)"
  using assms
proof (induction n)
  case 0
  then show ?case by (simp add: gather_bits_def)
next
  case (Suc n)
  have step: "gather_bits report start (Suc n) =
      (if bit (report ! ((start + n) div 8)) ((start + n) mod 8) then gather_bits report start n OR push_bit n 1
       else gather_bits report start n)"
    by (simp add: gather_bits_def low_bit)
  show ?case
    unfolding step using Suc by (auto simp: bit_simps less_Suc_eq)
qed

lemma gather_number:
  assumes n: "n \<le> 64" and le: "start + n \<le> 8 * length report"
  shows "uint (gather_bits report start n) = take_bit n (drop_bit start (report_number report))"
proof (rule bit_eqI)
  fix k
  have "(start + k) div 8 < length report" if "k < n" using that le by (simp add: div_less_iff_less_mult)
  then show "bit (uint (gather_bits report start n)) k = bit (take_bit n (drop_bit start (report_number report))) k"
    using n by (auto simp: bit_uint_iff bit_gather bit_take_bit_iff bit_drop_bit_eq bit_report_number)
qed

lemma sint_small: "uint (v :: u64) < 2 ^ 63 \<Longrightarrow> sint v = uint v"
proof -
  assume v: "uint v < 2 ^ 63"
  have "sint v = signed_take_bit 63 (uint v)" by (simp add: sint_uint)
  also have "\<dots> = take_bit 64 (uint v) - 2 ^ 64 * of_bool (bit (uint v) 63)"
    using signed_take_bit_eq_take_bit_minus [of 63 "uint v"] by simp
  finally have s: "sint v = take_bit 64 (uint v) - 2 ^ 64 * of_bool (bit (uint v) 63)" .
  have "\<not> bit (uint v) 63" using v by (simp add: bit_iff_odd)
  then show "sint v = uint v" using v by (simp add: s take_bit_eq_mod)
qed

text \<open>Element \<open>index\<close> is the bit field of \<open>size\<close> bits at its offset, read as a two's complement number
  when the logical minimum is negative and as an unsigned one otherwise.\<close>

definition element_value :: "hid_field \<Rightarrow> bytes \<Rightarrow> nat \<Rightarrow> int" where
  "element_value f report index =
     (let sz = unat (f_bit_size f);
          field = drop_bit (unat (f_bit_offset f) + index * sz) (report_number report)
      in if f_logical_min f < 0 then signed_take_bit (sz - 1) field else take_bit sz field)"

lemma field_value_inside:
  assumes i: "index < f_count f" and z: "f_bit_size f \<noteq> 0" "f_bit_size f \<le> 32"
    and no: "unat index * unat (f_bit_size f) < 2 ^ 32"
    and le: "unat (f_bit_offset f) + (unat index + 1) * unat (f_bit_size f) \<le> 8 * length report"
  shows "field_value f report index = Some (Some (element_value f report (unat index)))"
proof -
  define sz where "sz = unat (f_bit_size f)"
  define start where "start = unat (f_bit_offset f) + unat index * sz"
  define v where "v = gather_bits report start sz"
  have sz: "0 < sz" "sz \<le> 32"
    using z unat_gt_0 [of "f_bit_size f"] by (simp_all add: sz_def word_le_nat_alt)
  have le': "start + sz \<le> 8 * length report" using le by (simp add: start_def sz_def)
  have v: "uint v = take_bit sz (drop_bit start (report_number report))"
    unfolding v_def using sz le' by (intro gather_number) simp_all
  have "uint v < 2 ^ sz" unfolding v by simp
  moreover have "(2::int) ^ sz \<le> 2 ^ 32" using sz by (intro power_increasing) simp_all
  moreover have "(2::int) ^ 32 < 2 ^ 63" by simp
  ultimately have sv: "sint v = uint v" by (intro sint_small) linarith
  have bit: "drop_bit (sz - 1) v AND 1 \<noteq> 0 \<longleftrightarrow> bit (drop_bit start (report_number report)) (sz - 1)"
  proof -
    have "sz - 1 < 64" using sz by linarith
    then have "bit v (sz - 1) = bit (uint v) (sz - 1)" by (simp add: bit_uint_iff)
    then show ?thesis unfolding low_bit v bit_take_bit_iff using sz by simp
  qed
  have neg: "signed_take_bit (sz - 1) (drop_bit start (report_number report)) =
      take_bit sz (drop_bit start (report_number report)) - 2 ^ sz * of_bool (bit (drop_bit start (report_number report)) (sz - 1))"
    using signed_take_bit_eq_take_bit_minus [of "sz - 1" "drop_bit start (report_number report)"] sz by simp
  have "field_value f report index =
      (if f_logical_min f < 0 \<and> drop_bit (sz - 1) v AND 1 \<noteq> 0 then Some (Some (sint v - 2 ^ sz)) else Some (Some (sint v)))"
  proof -
    have "\<not> f_count f \<le> index" "\<not> 32 < f_bit_size f" using i z by (simp_all add: not_le not_less)
    then show ?thesis
      using z no le' by (simp add: field_value_def Let_def sz_def [symmetric] start_def [symmetric] v_def [symmetric]
          mult.commute [of "length report"])
  qed
  also have "\<dots> = Some (Some (element_value f report (unat index)))"
    unfolding bit using neg by (simp add: element_value_def Let_def sz_def [symmetric] start_def [symmetric] sv v)
  finally show ?thesis .
qed

lemma element_value_bounds:
  assumes z: "f_bit_size f \<noteq> 0"
  shows "if f_logical_min f < 0
     then - (2 ^ (unat (f_bit_size f) - 1)) \<le> element_value f report i \<and> element_value f report i < 2 ^ (unat (f_bit_size f) - 1)
     else 0 \<le> element_value f report i \<and> element_value f report i < 2 ^ unat (f_bit_size f)"
  by (simp add: element_value_def Let_def)

section \<open>What the parser keeps\<close>

definition globals_ok :: "hid_globals \<Rightarrow> bool" where
  "globals_ok g \<longleftrightarrow> g_logical_min g \<in> {- (2 ^ 31) ..< 2 ^ 31} \<and> g_logical_max g \<in> {- (2 ^ 31) ..< 2 ^ 31}
     \<and> g_physical_min g \<in> {- (2 ^ 31) ..< 2 ^ 31} \<and> g_physical_max g \<in> {- (2 ^ 31) ..< 2 ^ 31}"

definition field_bits :: "hid_field \<Rightarrow> nat" where
  "field_bits f = unat (f_bit_size f) * unat (f_count f)"

text \<open>The logical range of a field spans less than 32 bits and its elements fit 32-bit offsets.\<close>

definition field_ok :: "hid_field \<Rightarrow> bool" where
  "field_ok f \<longleftrightarrow> field_bits f < 2 ^ 32
     \<and> - (2 ^ 31) \<le> f_logical_min f \<and> f_logical_min f < 2 ^ 31 \<and> - (2 ^ 31) \<le> f_logical_max f
     \<and> (if f_logical_min f < 0 then f_logical_max f < 2 ^ 31 else 0 \<le> f_logical_max f \<and> f_logical_max f < 2 ^ 32)"

text \<open>The fields of a report lie one after the other.\<close>

fun laid :: "nat \<Rightarrow> hid_field list \<Rightarrow> bool" where
  "laid offset [] = True"
| "laid offset (f # fs) \<longleftrightarrow> unat (f_bit_offset f) = offset \<and> laid (offset + field_bits f) fs"

definition layout_ok :: "report_descriptor \<Rightarrow> bool" where
  "layout_ok d \<longleftrightarrow> (\<forall>t i. laid 0 (report_fields t i d)
       \<and> unat (report_bits t i d) = sum_list (map field_bits (report_fields t i d))
       \<and> (report_fields t i d \<noteq> [] \<longleftrightarrow> (t, i) \<in> set (map fst (rd_reports d))))
     \<and> distinct (map fst (rd_reports d)) \<and> (\<forall>f \<in> set (rd_fields d). field_ok f)"

definition parse_ok :: "hid_parse \<Rightarrow> bool" where
  "parse_ok st \<longleftrightarrow> layout_ok (hs_out st) \<and> globals_ok (hs_g st) \<and> (\<forall>g \<in> set (hs_stack st). globals_ok g)
     \<and> (\<not> rd_uses_ids (hs_out st) \<longrightarrow> g_report_id (hs_g st) = 0 \<and> (\<forall>g \<in> set (hs_stack st). g_report_id g = 0)
          \<and> (\<forall>f \<in> set (rd_fields (hs_out st)). f_report_id f = 0))"

lemma laid_append: "laid n (xs @ ys) \<longleftrightarrow> laid n xs \<and> laid (n + sum_list (map field_bits xs)) ys"
  by (induction xs arbitrary: n) (auto simp: add.assoc)

lemma map_of_set_bits: "map_of (set_bits k n rs) = (map_of rs)(k \<mapsto> n)"
  by (induction rs) (auto simp: fun_eq_iff)

lemma fst_set_bits: "map fst (set_bits k n rs) = (if k \<in> set (map fst rs) then map fst rs else map fst rs @ [k])"
proof (induction rs)
  case (Cons r rs)
  then show ?case by (cases r; cases "fst r = k") auto
qed simp

lemma sint_i32: "sint (w :: i32) \<in> {- (2 ^ 31) ..< 2 ^ 31}"
  using sint_greater_eq [of w] sint_less [of w] by simp

lemma fixed_logical_max_bounds:
  assumes "globals_ok g"
  shows "- (2 ^ 31) \<le> fixed_logical_max g"
    "if g_logical_min g < 0 then fixed_logical_max g < 2 ^ 31 else 0 \<le> fixed_logical_max g \<and> fixed_logical_max g < 2 ^ 32"
proof -
  have b: "uint (w :: u8) < 256" "uint (x :: u16) < 65536" "uint (y :: u32) < 4294967296" for w x y
    using uint_lt2p [of w] uint_lt2p [of x] uint_lt2p [of y] by simp_all
  have n: "0 \<le> uint (w :: 'a::len word)" for w by simp
  show "- (2 ^ 31) \<le> fixed_logical_max g"
    using assms by (auto simp: globals_ok_def fixed_logical_max_def intro: order_trans [OF _ n])
  show "if g_logical_min g < 0 then fixed_logical_max g < 2 ^ 31 else 0 \<le> fixed_logical_max g \<and> fixed_logical_max g < 2 ^ 32"
    using assms b(1) [of "word_of_int (g_logical_max g)"] b(2) [of "word_of_int (g_logical_max g)"] b(3) [of "word_of_int (g_logical_max g)"]
    by (simp add: globals_ok_def fixed_logical_max_def)
qed

text \<open>Adding a field at the end of its report keeps the layout.\<close>

lemma layout_ok_add:
  assumes d: "layout_ok d" and f: "field_ok f"
    and off: "f_bit_offset f = report_bits (f_report_type f) (f_report_id f) d"
    and fits: "unat (f_bit_offset f) + field_bits f < 2 ^ 32"
    and d': "d' = d\<lparr>rd_reports := set_bits (f_report_type f, f_report_id f)
                 (word_of_nat (unat (f_bit_offset f) + field_bits f)) (rd_reports d), rd_fields := rd_fields d @ [f]\<rparr>"
  shows "layout_ok d'"
proof -
  let ?k = "(f_report_type f, f_report_id f)"
  have fs: "report_fields t i d' = report_fields t i d @ (if (t, i) = ?k then [f] else [])" for t i
    by (auto simp: report_fields_def d')
  have n: "unat (word_of_nat (unat (f_bit_offset f) + field_bits f) :: u32) = unat (f_bit_offset f) + field_bits f"
    using fits by (simp only: unsigned_of_nat) (simp add: take_bit_eq_mod)
  have bits: "unat (report_bits t i d') =
      (if (t, i) = ?k then unat (f_bit_offset f) + field_bits f else unat (report_bits t i d))" for t i
    using n by (simp add: report_bits_def d' map_of_set_bits)
  have old: "laid 0 (report_fields t i d)" "unat (report_bits t i d) = sum_list (map field_bits (report_fields t i d))"
    "report_fields t i d \<noteq> [] \<longleftrightarrow> (t, i) \<in> set (map fst (rd_reports d))" for t i
    using d by (simp_all add: layout_ok_def)
  have rs: "rd_reports d' = set_bits ?k (word_of_nat (unat (f_bit_offset f) + field_bits f)) (rd_reports d)"
    by (simp add: d')
  have keys: "set (map fst (rd_reports d')) = insert ?k (set (map fst (rd_reports d)))"
    unfolding rs fst_set_bits by auto
  have "laid 0 (report_fields t i d') \<and> unat (report_bits t i d') = sum_list (map field_bits (report_fields t i d'))
      \<and> (report_fields t i d' \<noteq> [] \<longleftrightarrow> (t, i) \<in> set (map fst (rd_reports d')))" for t i
  proof (cases "(t, i) = ?k")
    case True
    then have "unat (f_bit_offset f) = sum_list (map field_bits (report_fields t i d))"
      using off old(2) [of t i] by simp
    with True show ?thesis unfolding keys fs bits using old(1) [of t i] by (simp add: laid_append)
  next
    case False
    then show ?thesis unfolding keys fs bits using old(1,2,3) [of t i] by (simp only: if_False append_Nil2 insert_iff simp_thms)
  qed
  moreover have "distinct (map fst (rd_reports d'))"
  proof -
    have "distinct (map fst (rd_reports d))" using d by (simp add: layout_ok_def)
    then show ?thesis unfolding rs fst_set_bits by auto
  qed
  moreover have "\<forall>g \<in> set (rd_fields d'). field_ok g" using d f by (simp add: layout_ok_def d')
  ultimately show ?thesis unfolding layout_ok_def by blast
qed

lemma layout_ok_same:
  "layout_ok d \<Longrightarrow> rd_fields d' = rd_fields d \<Longrightarrow> rd_reports d' = rd_reports d \<Longrightarrow> layout_ok d'"
  by (simp add: layout_ok_def report_fields_def report_bits_def)

lemma parse_ok_globals:
  "parse_ok st \<Longrightarrow> globals_ok g \<Longrightarrow> g_report_id g = g_report_id (hs_g st) \<Longrightarrow> parse_ok (st\<lparr>hs_g := g\<rparr>)"
  by (simp add: parse_ok_def)

lemma parse_global_ok:
  assumes st: "parse_ok st" and p: "parse_global it st = Inr st'"
  shows "parse_ok st'"
proof -
  note b = sint_i32 [of "item_signed it"]
  have g: "globals_ok (hs_g st)" and l: "layout_ok (hs_out st)" using st by (simp_all add: parse_ok_def)
  have l': "layout_ok ((hs_out st)\<lparr>rd_uses_ids := True\<rparr>)" by (rule layout_ok_same [OF l]) simp_all
  have ids: "parse_ok (st\<lparr>hs_g := (hs_g st)\<lparr>g_report_id := i\<rparr>, hs_out := (hs_out st)\<lparr>rd_uses_ids := True\<rparr>\<rparr>)" for i
    using st g l' by (simp add: parse_ok_def globals_ok_def)
  have stack: "parse_ok (st\<lparr>hs_stack := hs_g st # hs_stack st\<rparr>)"
    "hs_stack st = g' # rest \<Longrightarrow> parse_ok (st\<lparr>hs_g := g', hs_stack := rest\<rparr>)" for g' rest
    using st by (simp_all add: parse_ok_def)
  show ?thesis
    using p st g b ids stack parse_ok_globals [OF st]
    by (auto simp: parse_global_def Let_def globals_ok_def split: if_splits list.splits)
qed

lemma parse_field_ok:
  assumes st: "parse_ok st" and p: "parse_field it us umin umax st = Inr st'"
  shows "parse_ok st'"
proof -
  let ?g = "hs_g st" and ?d = "hs_out st" and ?t = "main_report_type (it_tag it)"
  define f where "f = \<lparr>f_report_type = ?t, f_report_id = g_report_id ?g, f_bit_offset = report_bits ?t (g_report_id ?g) ?d,
       f_bit_size = g_report_size ?g, f_count = g_report_count ?g, f_flags = item_unsigned it,
       f_usages = (case (umin, umax) of (Some lo, Some hi) \<Rightarrow> if us = [] then UsageRange lo hi else UsageList us | _ \<Rightarrow> UsageList us),
       f_logical_min = g_logical_min ?g, f_logical_max = fixed_logical_max ?g,
       f_physical_min = g_physical_min ?g, f_physical_max = g_physical_max ?g,
       f_unit_exponent = g_unit_exponent ?g, f_unit = g_unit ?g\<rparr>"
  define d' where "d' = ?d\<lparr>rd_reports := set_bits (f_report_type f, f_report_id f)
       (word_of_nat (unat (f_bit_offset f) + field_bits f)) (rd_reports ?d), rd_fields := rd_fields ?d @ [f]\<rparr>"
  have fb: "field_bits f = unat (g_report_size ?g) * unat (g_report_count ?g)" by (simp add: field_bits_def f_def)
  have lim: "field_bits f < 2 ^ 32" "unat (f_bit_offset f) + field_bits f < 2 ^ 32" and st': "st' = st\<lparr>hs_out := d'\<rparr>"
    using p by (simp_all add: parse_field_def Let_def fb d'_def split: if_splits) (simp_all add: f_def field_bits_def)
  have g: "globals_ok ?g" using st by (simp add: parse_ok_def)
  have "f_logical_min f = g_logical_min ?g" "f_logical_max f = fixed_logical_max ?g" by (simp_all add: f_def)
  with fixed_logical_max_bounds [OF g] g lim(1) have "field_ok f"
    unfolding field_ok_def globals_ok_def by auto
  moreover have "f_bit_offset f = report_bits (f_report_type f) (f_report_id f) ?d" by (simp add: f_def)
  ultimately have "layout_ok d'" using st lim(2) layout_ok_add [OF _ _ _ _ d'_def] by (simp add: parse_ok_def)
  moreover have "f_report_id f = g_report_id ?g" by (simp add: f_def)
  ultimately show ?thesis using st by (simp add: parse_ok_def st' d'_def)
qed

lemma parse_main_ok:
  assumes "parse_ok st" "parse_main it st = Inr st'"
  shows "parse_ok st'"
proof -
  let ?s = "st\<lparr>hs_usages := [], hs_min := None, hs_max := None\<rparr>"
  have s: "parse_ok ?s" using assms(1) by (simp add: parse_ok_def)
  have same: "parse_ok (?s\<lparr>hs_out := d, hs_depth := n\<rparr>)"
    if "rd_fields d = rd_fields (hs_out st)" "rd_reports d = rd_reports (hs_out st)" "rd_uses_ids d = rd_uses_ids (hs_out st)" for d n
    using s layout_ok_same [OF _ that(1,2)] that(1,3) by (simp add: parse_ok_def)
  show ?thesis
  proof (cases "it_tag it = 8 \<or> it_tag it = 9 \<or> it_tag it = 11")
    case True
    then show ?thesis using assms(2) parse_field_ok [OF s] by (auto simp: parse_main_def Let_def)
  next
    case False
    then show ?thesis
      using assms(2) same [of "hs_out st"] same [of "(hs_out st)\<lparr>rd_application_usages := x\<rparr>" for x] s
      by (auto simp: parse_main_def Let_def parse_ok_def split: if_splits list.splits option.splits)
  qed
qed

lemma parse_item_ok: "parse_ok st \<Longrightarrow> parse_item it st = Inr st' \<Longrightarrow> parse_ok st'"
  by (cases "it_kind it")
    (auto simp: parse_item_def parse_local_def Let_def parse_ok_def[of "hs_usages_update _ _"] intro: parse_main_ok parse_global_ok,
     auto simp: parse_ok_def)

lemma parse_items_ok: "parse_ok st \<Longrightarrow> parse_items its st = Inr st' \<Longrightarrow> parse_ok st'"
  by (induction its arbitrary: st) (auto simp: case_eqs dest: parse_item_ok)

lemma parse_start_ok: "parse_ok hid_parse_start"
  by (simp add: parse_ok_def hid_parse_start_def layout_ok_def globals_ok_def globals_default_def report_fields_def report_bits_def)

lemma report_parse_ok:
  assumes "report_parse b = Inr d"
  shows "layout_ok d" "\<not> rd_uses_ids d \<Longrightarrow> f \<in> set (rd_fields d) \<Longrightarrow> f_report_id f = 0"
proof -
  obtain st where st: "parse_items (items b) hid_parse_start = Inr st" "hs_out st = d"
    using assms by (cases "parse_items (items b) hid_parse_start") (auto simp: report_parse_def)
  note ok = parse_items_ok [OF parse_start_ok st(1)]
  show "layout_ok d" "\<not> rd_uses_ids d \<Longrightarrow> f \<in> set (rd_fields d) \<Longrightarrow> f_report_id f = 0"
    using ok st(2) by (auto simp: parse_ok_def)
qed

section \<open>Parsed fields can be read\<close>

lemma laid_inside:
  "laid n fs \<Longrightarrow> f \<in> set fs \<Longrightarrow> n \<le> unat (f_bit_offset f)
     \<and> unat (f_bit_offset f) + field_bits f \<le> n + sum_list (map field_bits fs)"
  by (induction fs arbitrary: n) fastforce+

lemma report_parse_field:
  assumes p: "report_parse b = Inr d" and f: "f \<in> set (rd_fields d)"
  shows "field_ok f"
    and "\<exists>n. report_len (f_report_type f) (f_report_id f) d = Some n \<and> unat (f_bit_offset f) + field_bits f \<le> 8 * n"
proof -
  have ok: "layout_ok d" using report_parse_ok(1) [OF p] .
  let ?t = "f_report_type f" and ?i = "f_report_id f"
  show "field_ok f" using ok f by (simp add: layout_ok_def)
  have mem: "f \<in> set (report_fields ?t ?i d)" using f by (simp add: report_fields_def)
  have l: "laid 0 (report_fields ?t ?i d)"
    and s: "unat (report_bits ?t ?i d) = sum_list (map field_bits (report_fields ?t ?i d))"
    using ok by (simp_all add: layout_ok_def)
  have "report_fields ?t ?i d \<noteq> []" using mem by auto
  then have k: "(?t, ?i) \<in> set (map fst (rd_reports d))" using ok unfolding layout_ok_def by blast
  from k obtain w where w: "map_of (rd_reports d) (?t, ?i) = Some w" by (metis map_of_eq_None_iff not_None_eq set_map)
  have "unat w \<le> div_ceil (unat w) 8 * 8" by (rule div_ceil_mult_ge) simp
  moreover have "unat (f_bit_offset f) + field_bits f \<le> unat w"
    using laid_inside [OF l mem] s w by (simp add: report_bits_def)
  ultimately show "\<exists>n. report_len ?t ?i d = Some n \<and> unat (f_bit_offset f) + field_bits f \<le> 8 * n"
    using w by (simp add: report_len_def)
qed

lemma element_fits: "index < f_count f \<Longrightarrow> (unat index + 1) * unat (f_bit_size f) \<le> field_bits f"
proof -
  assume "index < f_count f"
  then have "unat index + 1 \<le> unat (f_count f)" by (simp add: word_less_nat_alt)
  then have "(unat index + 1) * unat (f_bit_size f) \<le> unat (f_count f) * unat (f_bit_size f)" by (rule mult_right_mono) simp
  then show ?thesis by (simp only: field_bits_def mult.commute)
qed

lemma report_value:
  assumes p: "report_parse b = Inr d" and f: "f \<in> set (rd_fields d)"
    and i: "index < f_count f" and z: "f_bit_size f \<noteq> 0" "f_bit_size f \<le> 32"
    and len: "report_len (f_report_type f) (f_report_id f) d = Some n" "n \<le> length report"
  shows "field_value f report index = Some (Some (element_value f report (unat index)))"
proof (rule field_value_inside [OF i z])
  obtain m where m: "report_len (f_report_type f) (f_report_id f) d = Some m"
    "unat (f_bit_offset f) + field_bits f \<le> 8 * m" using report_parse_field(2) [OF p f] by blast
  then show "unat (f_bit_offset f) + (unat index + 1) * unat (f_bit_size f) \<le> 8 * length report"
    using element_fits [OF i] len by simp
  have "unat index * unat (f_bit_size f) \<le> (unat index + 1) * unat (f_bit_size f)" by simp
  then show "unat index * unat (f_bit_size f) < 2 ^ 32"
    using element_fits [OF i] report_parse_field(1) [OF p f] by (simp add: field_ok_def)
qed

lemma report_value_no_panic:
  assumes p: "report_parse b = Inr d" and f: "f \<in> set (rd_fields d)"
  shows "field_value f report index \<noteq> None"
proof -
  have "unat index * unat (f_bit_size f) < 2 ^ 32" if "index < f_count f"
    using element_fits [OF that] report_parse_field(1) [OF p f] by (simp add: field_ok_def)
  then show ?thesis by (auto simp: field_value_def Let_def not_le)
qed

text \<open>The selected usage of a value inside the logical range.\<close>

definition selected_usage :: "hid_field \<Rightarrow> int \<Rightarrow> usage option" where
  "selected_usage f v =
     (if v < f_logical_min f \<or> f_logical_max f < v then None
      else case f_usages f of
        UsageList us \<Rightarrow> idx us (nat (v - f_logical_min f))
      | UsageRange lo hi \<Rightarrow>
          if uint (usage_bits lo) + (v - f_logical_min f) \<le> uint (usage_bits hi)
          then Some (Usage (usage_bits lo + word_of_int (v - f_logical_min f))) else None)"

lemma array_usage_eq:
  assumes f: "field_ok f"
  shows "array_usage f v = Some (selected_usage f v)"
proof (cases "v < f_logical_min f \<or> f_logical_max f < v")
  case True
  then show ?thesis by (simp add: array_usage_def selected_usage_def)
next
  case False
  define k where "k = v - f_logical_min f"
  have k: "0 \<le> k" "k < 2 ^ 32" using f False by (auto simp: field_ok_def k_def split: if_splits)
  show ?thesis
  proof (cases "f_usages f")
    case (UsageList us)
    then show ?thesis using False k by (simp add: array_usage_def selected_usage_def Let_def k_def [symmetric])
  next
    case (UsageRange lo hi)
    have small: "nat k mod 2 ^ 32 = nat k" using k by (intro mod_less) (simp add: nat_less_iff)
    have lo: "uint (usage_bits lo) = int (unat (usage_bits lo))" "uint (usage_bits hi) = int (unat (usage_bits hi))"
      by simp_all
    have hi: "unat (usage_bits hi) < 2 ^ 32" by simp
    have n: "int (unat (usage_bits lo) + nat k) = uint (usage_bits lo) + k" using k by simp
    have "(word_of_nat (nat k) :: u32) = word_of_int k" using k by (metis nat_0_le of_int_of_nat_eq)
    then have w: "(word_of_nat (unat (usage_bits lo) + nat k) :: u32) = usage_bits lo + word_of_int k"
      by simp
    have le: "(word_of_nat (unat (usage_bits lo) + nat k) :: u32) \<le> usage_bits hi
        \<longleftrightarrow> uint (usage_bits lo) + k \<le> uint (usage_bits hi)"
      if "unat (usage_bits lo) + nat k < 2 ^ 32"
    proof -
      have "unat (word_of_nat (unat (usage_bits lo) + nat k) :: u32) = unat (usage_bits lo) + nat k"
        using that by (simp only: unsigned_of_nat) (simp add: take_bit_eq_mod)
      then have "(word_of_nat (unat (usage_bits lo) + nat k) :: u32) \<le> usage_bits hi
          \<longleftrightarrow> unat (usage_bits lo) + nat k \<le> unat (usage_bits hi)" by (simp only: word_le_nat_alt)
      also have "\<dots> \<longleftrightarrow> int (unat (usage_bits lo) + nat k) \<le> uint (usage_bits hi)" unfolding lo(2) by (rule of_nat_le_iff [symmetric])
      finally show ?thesis unfolding n .
    qed
    have out: "\<not> uint (usage_bits lo) + k \<le> uint (usage_bits hi)" if "2 ^ 32 \<le> unat (usage_bits lo) + nat k"
      using that n lo hi by linarith
    have "array_usage f v = Some (usages_get (UsageRange lo hi) (nat k))"
      using False k UsageRange by (simp add: array_usage_def Let_def k_def [symmetric])
    also have "usages_get (UsageRange lo hi) (nat k) = selected_usage f v"
      using False UsageRange le out w
      by (simp only: usages_get.simps small Let_def selected_usage_def k_def [symmetric] usages.case simp_thms if_False not_le)
        (auto simp: not_le)
    finally show ?thesis .
  qed
qed

text \<open>A logical maximum with a non-negative minimum is the unsigned value of its item.\<close>

lemma sint_nonneg:
  fixes w :: "'a::len word"
  assumes "0 \<le> sint w"
  shows "sint w = uint w"
proof -
  have "(2::int) ^ (LENGTH('a) - 1) \<le> 2 ^ LENGTH('a)" by (rule power_increasing) simp_all
  with sint_lt [of w] have "sint w < 2 ^ LENGTH('a)" by (rule less_le_trans)
  then have "take_bit LENGTH('a) (sint w) = sint w" using assms by (simp add: take_bit_int_eq_self)
  moreover have "uint w = take_bit LENGTH('a) (sint w)" using uint_word_of_int_eq [of "sint w", where 'a = 'a] by simp
  ultimately show ?thesis by simp
qed

lemma sint_fixed: "(if sint w < 0 then uint (word_of_int (sint w) :: 'a::len word) else sint w) = uint (w :: 'a word)"
  by (simp add: sint_nonneg)

lemma sint_scast:
  "sint (scast (b :: u8) :: i32) = sint b" "sint (scast (h :: u16) :: i32) = sint h"
  using sint_greater_eq [of b] sint_less [of b] sint_greater_eq [of h] sint_less [of h]
  by (simp_all add: signed_scast_eq signed_take_bit_int_eq_self)

lemma u32_le_u8: "u32_le a 0 0 0 = ucast a"
  by (simp add: u32_le_def)

lemma u32_le_u16: "u32_le a b 0 0 = ucast (u16_le a b)"
  by (rule bit_word_eqI) (auto simp: u32_le_def u16_le_def bit_simps dest: bit_imp_le_length)

lemma item_unsigned_short:
  "length (it_data it) = 0 \<Longrightarrow> item_unsigned it = 0"
  "length (it_data it) = 1 \<Longrightarrow> item_unsigned it = ucast (it_data it ! 0)"
  "length (it_data it) = 2 \<Longrightarrow> item_unsigned it = ucast (u16_le (it_data it ! 0) (it_data it ! 1))"
proof -
  show "length (it_data it) = 0 \<Longrightarrow> item_unsigned it = 0"
    by (simp add: item_unsigned_def resize_def u32_le_u8)
  show "length (it_data it) = 1 \<Longrightarrow> item_unsigned it = ucast (it_data it ! 0)"
    by (auto simp: item_unsigned_def Let_def resize_def length_Suc_conv u32_le_u8 numeral_eq_Suc)
  assume "length (it_data it) = 2"
  then obtain a b where "it_data it = [a, b]" by (auto simp: numeral_2_eq_2 length_Suc_conv)
  then show "item_unsigned it = ucast (u16_le (it_data it ! 0) (it_data it ! 1))"
    by (simp add: item_unsigned_def resize_def u32_le_u16 numeral_eq_Suc)
qed

lemma item_signed_short:
  "length (it_data it) = 0 \<Longrightarrow> item_signed it = 0"
  "length (it_data it) = 1 \<Longrightarrow> item_signed it = scast (it_data it ! 0)"
  "length (it_data it) = 2 \<Longrightarrow> item_signed it = scast (u16_le (it_data it ! 0) (it_data it ! 1))"
  "2 < length (it_data it) \<Longrightarrow> item_signed it = item_unsigned it"
  by (auto simp: item_signed_def Let_def)

lemma fixed_logical_max_at:
  assumes "0 \<le> g_logical_min g"
  shows "fixed_logical_max (g\<lparr>g_logical_max := x, g_logical_max_size := n\<rparr>) =
    (if n = 1 then (if x < 0 then uint (word_of_int x :: u8) else x)
     else if n = 2 then (if x < 0 then uint (word_of_int x :: u16) else x)
     else (if x < 0 then uint (word_of_int x :: u32) else x))"
  using assms by (simp add: fixed_logical_max_def)

lemma fixed_logical_max_unsigned:
  assumes "0 \<le> g_logical_min g"
  shows "fixed_logical_max (g\<lparr>g_logical_max := sint (item_signed it), g_logical_max_size := length (it_data it)\<rparr>)
     = uint (item_unsigned it)"
proof -
  let ?d = "it_data it"
  consider "length ?d = 0" | "length ?d = 1" | "length ?d = 2" | "2 < length ?d" by linarith
  then show ?thesis
  proof cases
    case 1
    then show ?thesis by (simp add: fixed_logical_max_at [OF assms] item_signed_short item_unsigned_short)
  next
    case 2
    have "uint (ucast (?d ! 0) :: u32) = uint (?d ! 0)" by (simp add: uint_up_ucast is_up)
    then show ?thesis
      unfolding fixed_logical_max_at [OF assms] item_signed_short(2) [OF 2] item_unsigned_short(2) [OF 2] sint_scast
      by (simp only: 2 if_True sint_fixed simp_thms)
  next
    case 3
    let ?h = "u16_le (?d ! 0) (?d ! 1)"
    have "uint (ucast ?h :: u32) = uint ?h" by (simp add: uint_up_ucast is_up)
    moreover have "length ?d \<noteq> 1" using 3 by simp
    ultimately show ?thesis
      unfolding fixed_logical_max_at [OF assms] item_signed_short(3) [OF 3] item_unsigned_short(3) [OF 3] sint_scast
      by (simp only: 3 if_True if_False sint_fixed simp_thms)
  next
    case 4
    then have "length ?d \<noteq> 1" "length ?d \<noteq> 2" by simp_all
    then show ?thesis
      unfolding fixed_logical_max_at [OF assms] item_signed_short(4) [OF 4] by (simp only: if_False sint_fixed)
  qed
qed

text \<open>What a report's identifier is.\<close>

lemma strip_id_plain: "\<not> rd_uses_ids d \<Longrightarrow> strip_id d r = (0, r)"
  by (simp add: strip_id_def)

end
