(* ===== verification/Hid_Device.thy ===== *)
theory Hid_Device
  imports Usb_Class Hid_Report
begin

text \<open>
  HID interfaces (\<open>src/src/hid/mod.rs\<close>): the HID class descriptor, opening an interface, and the
  exchange of reports over the interrupt and control endpoints. A device is the record of what
  \<open>open_interface\<close> found out; its claim is the one the handle's state holds.
\<close>

section \<open>The HID class descriptor\<close>

fun report_type_code :: "report_type \<Rightarrow> u8" where
  "report_type_code Input = 1"
| "report_type_code Output = 2"
| "report_type_code Feature = 3"

datatype hid_protocol = Boot | Report
datatype boot_device = Keyboard | Mouse

record hid_descriptor =
  hd_version :: version
  hd_country_code :: u8
  hd_descriptors :: "(u8 \<times> u16) list"

text \<open>The class descriptors listed, up to the first that is cut off.\<close>

fun hid_class_list :: "bytes \<Rightarrow> nat \<Rightarrow> nat \<Rightarrow> (u8 \<times> u16) list" where
  "hid_class_list b i 0 = []"
| "hid_class_list b i (Suc n) =
     (let at = 6 + 3 * i in
      if at + 3 \<le> length b then (b ! at, le16 b (at + 1)) # hid_class_list b (i + 1) n else [])"

definition hid_from_bytes :: "bytes \<Rightarrow> hid_descriptor result" where
  "hid_from_bytes b =
     (if length b < 6 \<or> b ! 1 \<noteq> 0x21 then Err InvalidParam
      else Ok \<lparr>hd_version = Version (le16 b 2), hd_country_code = b ! 4,
               hd_descriptors = hid_class_list b 0 (unat (b ! 5))\<rparr>)"

definition report_descriptor_length :: "hid_descriptor \<Rightarrow> u16 option" where
  "report_descriptor_length h = map_option snd (find (\<lambda>d. fst d = 0x22) (hd_descriptors h))"

definition hid_of_interface :: "interface_descriptor \<Rightarrow> hid_descriptor option" where
  "hid_of_interface i =
     (case find (\<lambda>d. fst d = 0x21) (concat (map descriptors (if_extra i # map ep_extra (if_endpoints i)))) of
        None \<Rightarrow> None
      | Some (_, d) \<Rightarrow> (case hid_from_bytes d of Inr h \<Rightarrow> Some h | Inl _ \<Rightarrow> None))"

definition is_hid :: "interface_descriptor \<Rightarrow> bool" where
  "is_hid a \<longleftrightarrow> if_class a = 3"

definition hid_interfaces :: "'l device_info \<Rightarrow> interface_descriptor list result option" where
  "hid_interfaces d = interfaces_where d is_hid"

section \<open>Opening\<close>

record hid_device =
  hid_claim :: helper_claim
  hid_interface :: interface_descriptor
  hid_hid :: hid_descriptor
  hid_raw :: bytes
  hid_report :: report_descriptor
  hid_ep_in :: u8
  hid_ep_in_size :: nat
  hid_ep_out :: "u8 option"

abbreviation (input) OPEN_TIMEOUT :: nat where "OPEN_TIMEOUT \<equiv> 1000"

text \<open>The part of \<open>open_interface\<close> that runs with the claim held.\<close>

definition hid_start ::
  "'k sys \<Rightarrow> interface_descriptor \<Rightarrow> hid_descriptor \<Rightarrow> endpoint_descriptor \<Rightarrow> u8 option
     \<Rightarrow> helper_claim \<Rightarrow> ('k handle, hid_device) io" where
  "hid_start S iface hid ep_in ep_out c =
     (let len = max (case report_descriptor_length hid of Some n \<Rightarrow> unat n | None \<Rightarrow> 4096) 1
      in bindR (control_read S (request_type In Standard RInterface) GET_DESCRIPTOR (push_bit 8 0x22)
             (ucast (if_number iface)) (replicate len 0) OPEN_TIMEOUT) (\<lambda>(n, raw).
         let raw = take n raw in
         bindR (lift_res (report_parse raw)) (\<lambda>rd.
         ret \<lparr>hid_claim = c, hid_interface = iface, hid_hid = hid, hid_raw = raw, hid_report = rd,
              hid_ep_in = ep_address ep_in, hid_ep_in_size = unat (ep_max_packet_size ep_in),
              hid_ep_out = ep_out\<rparr>)))"

definition hid_open_interface :: "'k sys \<Rightarrow> 'l device_info \<Rightarrow> u8 \<Rightarrow> ('k handle, hid_device) io" where
  "hid_open_interface S d number =
     bindR (lift_panic (interface_of d number)) (\<lambda>iface.
       if \<not> is_hid iface then failK InvalidParam
       else (case hid_of_interface iface of
           None \<Rightarrow> failK Io
         | Some hid \<Rightarrow> (case endpoint_of iface In Interrupt of
             None \<Rightarrow> failK Io
           | Some ep_in \<Rightarrow>
               open_with S [number]
                 (hid_start S iface hid ep_in (map_option ep_address (endpoint_of iface Out Interrupt))))))"

definition hid_open ::
  "'k sys \<Rightarrow> ('k, unit) sysop \<Rightarrow> 'l device_info \<Rightarrow> 'k \<Rightarrow> (hid_device \<times> 'k handle) out \<times> 'k" where
  "hid_open S opn d = open_first S opn (find_interface d is_hid) (\<lambda>i. hid_open_interface S d (if_number i))"

text \<open>\<open>open_all\<close>: collecting stops at the first failure and drops the devices opened so far.\<close>

definition hid_drop :: "'k sys \<Rightarrow> hid_device \<Rightarrow> 'k handle \<Rightarrow> 'k handle" where
  "hid_drop S dev = claim_drop S (hid_claim dev)"

definition hid_open_all :: "'k sys \<Rightarrow> 'l device_info \<Rightarrow> ('k handle, hid_device list) io" where
  "hid_open_all S d = bindR (lift_panic (hid_interfaces d))
     (open_list (\<lambda>i. hid_open_interface S d (if_number i)) (hid_drop S) [])"

section \<open>Reports\<close>

definition boot_device_of :: "hid_device \<Rightarrow> boot_device option" where
  "boot_device_of dev =
     (if if_sub_class (hid_interface dev) = 1 \<and> if_protocol (hid_interface dev) = 1 then Some Keyboard
      else if if_sub_class (hid_interface dev) = 1 \<and> if_protocol (hid_interface dev) = 2 then Some Mouse
      else None)"

text \<open>The largest declared input report (with its ID byte), but at least a packet.\<close>

definition max_input_report_len :: "hid_device \<Rightarrow> nat" where
  "max_input_report_len dev =
     (let d = hid_report dev;
          i = (if rd_uses_ids d then 1 else 0);
          lens = List.map_filter (\<lambda>i. report_len Input i d) (report_ids Input d)
      in max (if lens = [] then hid_ep_in_size dev else Max (set lens) + i) (hid_ep_in_size dev))"

definition hid_read :: "'k sys \<Rightarrow> hid_device \<Rightarrow> bytes \<Rightarrow> nat \<Rightarrow> ('k handle, nat \<times> bytes) io" where
  "hid_read S dev buf timeout = interrupt_read S (hid_ep_in dev) buf timeout"

definition report_value_field :: "report_type \<Rightarrow> u8 \<Rightarrow> u16" where
  "report_value_field kind i = push_bit 8 (ucast (report_type_code kind)) OR ucast i"

definition get_report :: "'k sys \<Rightarrow> hid_device \<Rightarrow> report_type \<Rightarrow> u8 \<Rightarrow> bytes \<Rightarrow> nat \<Rightarrow> ('k handle, nat \<times> bytes) io" where
  "get_report S dev kind i buf timeout =
     control_read S (request_type In Class RInterface) 0x01 (report_value_field kind i)
       (ucast (if_number (hid_interface dev))) buf timeout"

definition set_report :: "'k sys \<Rightarrow> hid_device \<Rightarrow> report_type \<Rightarrow> u8 \<Rightarrow> bytes \<Rightarrow> nat \<Rightarrow> ('k handle, nat) io" where
  "set_report S dev kind i data timeout =
     control_write S (request_type Out Class RInterface) 0x09 (report_value_field kind i)
       (ucast (if_number (hid_interface dev))) data timeout"

definition hid_write :: "'k sys \<Rightarrow> hid_device \<Rightarrow> bytes \<Rightarrow> nat \<Rightarrow> ('k handle, nat) io" where
  "hid_write S dev data timeout = (case data of
      [] \<Rightarrow> failK InvalidParam
    | i # rest \<Rightarrow>
        (let wire = (if i = 0 then rest else data) in
         bindR (case hid_ep_out dev of
             Some ep \<Rightarrow> interrupt_write S ep wire timeout
           | None \<Rightarrow> set_report S dev Output i wire timeout)
         (\<lambda>n. ret (n + (if i = 0 then 1 else 0)))))"

text \<open>The buffer after the call is part of the result; for report 0 its first byte is left alone.\<close>

definition get_report_prefixed :: "'k sys \<Rightarrow> hid_device \<Rightarrow> report_type \<Rightarrow> bytes \<Rightarrow> nat \<Rightarrow> ('k handle, nat \<times> bytes) io" where
  "get_report_prefixed S dev kind buf timeout = (case buf of
      [] \<Rightarrow> failK InvalidParam
    | i # rest \<Rightarrow>
        if i = 0 then bindR (get_report S dev kind 0 rest timeout) (\<lambda>(n, rest). ret (n + 1, i # rest))
        else get_report S dev kind i buf timeout)"

definition get_feature_report :: "'k sys \<Rightarrow> hid_device \<Rightarrow> bytes \<Rightarrow> nat \<Rightarrow> ('k handle, nat \<times> bytes) io" where
  "get_feature_report S dev = get_report_prefixed S dev Feature"

definition get_input_report :: "'k sys \<Rightarrow> hid_device \<Rightarrow> bytes \<Rightarrow> nat \<Rightarrow> ('k handle, nat \<times> bytes) io" where
  "get_input_report S dev = get_report_prefixed S dev Input"

definition send_feature_report :: "'k sys \<Rightarrow> hid_device \<Rightarrow> bytes \<Rightarrow> nat \<Rightarrow> ('k handle, nat) io" where
  "send_feature_report S dev data timeout = (case data of
      [] \<Rightarrow> failK InvalidParam
    | i # rest \<Rightarrow>
        bindR (set_report S dev Feature i (if i = 0 then rest else data) timeout)
          (\<lambda>n. ret (n + (if i = 0 then 1 else 0))))"

text \<open>Durations in milliseconds.\<close>

definition idle_units :: "nat option \<Rightarrow> u16" where
  "idle_units rate = (case rate of None \<Rightarrow> 0 | Some ms \<Rightarrow> of_nat (clamp (ms div 4) 1 255))"

definition set_idle :: "'k sys \<Rightarrow> hid_device \<Rightarrow> nat option \<Rightarrow> u8 \<Rightarrow> nat \<Rightarrow> ('k handle, unit) io" where
  "set_idle S dev rate i timeout =
     bindR (control_write S (request_type Out Class RInterface) 0x0a (push_bit 8 (idle_units rate) OR ucast i)
       (ucast (if_number (hid_interface dev))) [] timeout) (\<lambda>_. ret ())"

definition class_read :: "'k sys \<Rightarrow> hid_device \<Rightarrow> u8 \<Rightarrow> u16 \<Rightarrow> bytes \<Rightarrow> nat \<Rightarrow> ('k handle, bytes) io" where
  "class_read S dev request value buf timeout =
     bindR (control_read S (request_type In Class RInterface) request value
       (ucast (if_number (hid_interface dev))) buf timeout) (\<lambda>(n, b).
         if n < length buf then failK Io else ret b)"

definition get_idle :: "'k sys \<Rightarrow> hid_device \<Rightarrow> u8 \<Rightarrow> nat \<Rightarrow> ('k handle, nat option) io" where
  "get_idle S dev i timeout = bindR (class_read S dev 0x02 (ucast i) [0] timeout) (\<lambda>b.
     bindR (lift_opt (idx b 0)) (\<lambda>v. ret (if v \<noteq> 0 then Some (unat v * 4) else None)))"

definition set_protocol :: "'k sys \<Rightarrow> hid_device \<Rightarrow> hid_protocol \<Rightarrow> nat \<Rightarrow> ('k handle, unit) io" where
  "set_protocol S dev p timeout =
     bindR (control_write S (request_type Out Class RInterface) 0x0b (case p of Boot \<Rightarrow> 0 | Report \<Rightarrow> 1)
       (ucast (if_number (hid_interface dev))) [] timeout) (\<lambda>_. ret ())"

definition get_protocol :: "'k sys \<Rightarrow> hid_device \<Rightarrow> nat \<Rightarrow> ('k handle, hid_protocol) io" where
  "get_protocol S dev timeout = bindR (class_read S dev 0x03 0 [0] timeout) (\<lambda>b.
     bindR (lift_opt (idx b 0)) (\<lambda>v. ret (if v = 0 then Boot else Report)))"

section \<open>The claim of a HID device\<close>

lemma hid_start_kept: "claims_kept (hid_start S iface hid ep_in ep_out c)"
  unfolding hid_start_def Let_def by (intro kept)

interpretation hid_class: class_device S "[number]" "hid_start S iface hid ep_in ep_out" hid_claim
  for S number iface hid ep_in ep_out
proof unfold_locales
  fix c h d h'
  show "claims_kept (hid_start S iface hid ep_in ep_out c)" by (rule hid_start_kept)
  assume "hid_start S iface hid ep_in ep_out c h = (Val d, h')"
  then show "hid_claim d = c" by (auto simp: hid_start_def Let_def bindR_eq_Val)
qed

lemma lift_panic_cases:
  assumes "p \<noteq> None"
  obtains e where "lift_panic p h = (Fail e, h)" "p = Some (Inl e)"
  | x where "lift_panic p h = (Val x, h)" "p = Some (Inr x)"
proof -
  obtain r where "p = Some r" using assms by auto
  then show thesis using that by (cases r) auto
qed

text \<open>What \<open>open_interface\<close> has looked up when it gets to the claim.\<close>

lemma hid_open_cases:
  assumes "hid_open_interface S d number h = (r, h')"
  obtains e where "r = Fail e" "h' = h"
  | iface hid ep_in ep_out where "interface_of d number = Some (Ok iface)" "is_hid iface"
      "hid_of_interface iface = Some hid" "endpoint_of iface In Interrupt = Some ep_in"
      "open_with S [number] (hid_start S iface hid ep_in ep_out) h = (r, h')"
proof (cases rule: lift_panic_cases [OF interface_of_total, of d number h])
  case (1 e)
  with assms show thesis by (intro that(1)) (auto simp: hid_open_interface_def bindR_def)
next
  case (2 iface)
  show thesis
  proof (cases "is_hid iface \<and> hid_of_interface iface \<noteq> None \<and> endpoint_of iface In Interrupt \<noteq> None")
    case True
    then obtain hid ep_in where f: "is_hid iface" "hid_of_interface iface = Some hid" "endpoint_of iface In Interrupt = Some ep_in"
      by auto
    with 2 assms show thesis
      by (intro that(2) [OF 2(2) f, of "map_option ep_address (endpoint_of iface Out Interrupt)"])
        (simp add: hid_open_interface_def bindR_def)
  next
    case False
    with 2 assms that(1) [of "error_new InvalidParam"] that(1) [of "error_new Io"] show thesis
      by (auto simp: hid_open_interface_def bindR_def split: if_splits option.splits)
  qed
qed

lemma hid_open_fails:
  assumes "hid_open_interface S d number h = (r, h')" "\<forall>dev. r \<noteq> Val dev"
  shows "h_claimed h' = h_claimed h \<and> h_leased h' = h_leased h"
  using assms(1)
proof (cases rule: hid_open_cases)
  case (2 iface hid ep_in ep_out)
  from hid_class.open_effect [OF 2(5)] assms(2) show ?thesis by (cases r) auto
qed simp

lemma hid_open_Val:
  assumes "hid_open_interface S d number h = (Val dev, h')"
  shows "h_claimed h' = h_claimed h @ hc_owned (hid_claim dev)" "set (h_claimed h) \<inter> set (hc_owned (hid_claim dev)) = {}"
    "h_leased h' = h_leased h @ [number]" "set (h_leased h) \<inter> set (hc_leased (hid_claim dev)) = {}"
    "number \<in> set (hc_leased (hid_claim dev))" "number \<in> set (h_claimed h')"
    "if_number (hid_interface dev) = number" "is_hid (hid_interface dev)"
    "report_parse (hid_raw dev) = Ok (hid_report dev)"
proof -
  obtain iface hid ep_in ep_out where o: "interface_of d number = Some (Ok iface)" "is_hid iface"
      "open_with S [number] (hid_start S iface hid ep_in ep_out) h = (Val dev, h')"
    using assms by (cases rule: hid_open_cases) auto
  note c = hid_class.open_claim [OF o(3)]
  show "h_claimed h' = h_claimed h @ hc_owned (hid_claim dev)" "set (h_claimed h) \<inter> set (hc_owned (hid_claim dev)) = {}"
    "h_leased h' = h_leased h @ [number]" "set (h_leased h) \<inter> set (hc_leased (hid_claim dev)) = {}"
    "number \<in> set (hc_leased (hid_claim dev))" "number \<in> set (h_claimed h')"
    using c by auto
  obtain c0 h1 where st: "hid_start S iface hid ep_in ep_out c0 h1 = (Val dev, h')"
    using hid_class.open_ran [OF o(3)] .
  then have "hid_interface dev = iface" "report_parse (hid_raw dev) = Ok (hid_report dev)"
    by (auto simp: hid_start_def Let_def bindR_eq_Val)
  then show "if_number (hid_interface dev) = number" "is_hid (hid_interface dev)"
    "report_parse (hid_raw dev) = Ok (hid_report dev)"
    using o(2) interface_of_number [OF o(1)] by simp_all
qed

text \<open>\<open>open_all\<close> opens every interface or none.\<close>

interpretation hid_opener: class_opener "\<lambda>i. hid_open_interface S d (if_number i)" "hid_drop S" hid_claim
  for S d
proof unfold_locales
  fix i h dev h'
  assume "hid_open_interface S d (if_number i) h = (Val dev, h')"
  from hid_open_Val [OF this]
  show "h_claimed h' = h_claimed h @ hc_owned (hid_claim dev)
      \<and> set (h_claimed h) \<inter> set (hc_owned (hid_claim dev)) = {} \<and> set (h_leased h) \<inter> set (hc_leased (hid_claim dev)) = {}
      \<and> filter (\<lambda>j. j \<notin> set (hc_leased (hid_claim dev))) (h_leased h') = h_leased h"
    by (auto simp: filter_id_conv)
qed (use hid_open_fails in \<open>fastforce simp: hid_drop_def claim_drop_effect\<close>)+

lemma calm_hid_open_interface [calm]:
  assumes "sys_ok S"
  shows "calmly (hid_open_interface S d number)"
  unfolding hid_open_interface_def hid_start_def Let_def
  by (intro calm interface_of_total assms)

lemma hid_open_all_effect:
  assumes r: "hid_open_all S d h = (r, h')"
  shows "case r of
      Val devs \<Rightarrow> (\<exists>is. hid_interfaces d = Some (Ok is) \<and> map (\<lambda>dev. if_number (hid_interface dev)) devs = map if_number is)
        \<and> h_claimed h' = h_claimed h @ concat (map (\<lambda>dev. hc_owned (hid_claim dev)) devs)
    | _ \<Rightarrow> h_claimed h' = h_claimed h \<and> h_leased h' = h_leased h"
proof (cases rule: lift_panic_cases [OF interfaces_where_total [of d is_hid, folded hid_interfaces_def], of h])
  case (1 e)
  with r show ?thesis by (auto simp: hid_open_all_def bindR_def)
next
  case (2 ifs)
  with r have "open_list (\<lambda>i. hid_open_interface S d (if_number i)) (hid_drop S) [] ifs h = (r, h')"
    by (simp add: hid_open_all_def bindR_def)
  from hid_opener.all_effect [OF this] have e: "case r of
      Val ds \<Rightarrow> list_all2 (\<lambda>i dev. \<exists>h h'. hid_open_interface S d (if_number i) h = (Val dev, h')) ifs ds
        \<and> h_claimed h' = h_claimed h @ concat (map (\<lambda>dev. hc_owned (hid_claim dev)) ds)
    | _ \<Rightarrow> h_claimed h' = h_claimed h \<and> h_leased h' = h_leased h" .
  show ?thesis
  proof (cases r)
    case (Val devs)
    have "list_all2 (\<lambda>i dev. if_number (hid_interface dev) = if_number i) ifs devs"
      by (rule list_all2_mono [of "\<lambda>i dev. \<exists>h h'. hid_open_interface S d (if_number i) h = (Val dev, h')"])
        (use e Val hid_open_Val(7) in auto)
    then have "map (\<lambda>dev. if_number (hid_interface dev)) devs = map if_number ifs"
      by (induction rule: list_all2_induct) simp_all
    with e Val 2(2) show ?thesis by simp
  qed (use e in simp_all)
qed

section \<open>Reports on the wire\<close>

lemma calm_hid [calm]:
  assumes "sys_ok S"
  shows "calmly (hid_read S dev buf t)" "calmly (hid_write S dev data t)"
    "calmly (get_feature_report S dev buf t)" "calmly (get_input_report S dev buf t)"
    "calmly (send_feature_report S dev data t)" "calmly (set_idle S dev rate i t)" "calmly (set_protocol S dev p t)"
proof -
  note calm_read = calm_control_read [OF assms] calm_sync_read [OF assms]
  show "calmly (hid_read S dev buf t)" unfolding hid_read_def by (intro calm_read) simp_all
  show "calmly (hid_write S dev data t)"
    unfolding hid_write_def set_report_def Let_def by (cases data) (auto intro!: calm split: option.split)
  show "calmly (get_feature_report S dev buf t)" "calmly (get_input_report S dev buf t)"
    unfolding get_feature_report_def get_input_report_def get_report_prefixed_def get_report_def
    by (cases buf; auto intro!: calm calm_read)+
  show "calmly (send_feature_report S dev data t)"
    unfolding send_feature_report_def set_report_def by (cases data) (auto intro!: calm)
  show "calmly (set_idle S dev rate i t)" "calmly (set_protocol S dev p t)"
    unfolding set_idle_def set_protocol_def by (intro calm)+
qed

lemma class_read_length:
  assumes "sys_ok S" "class_read S dev rq v buf t h = (Val b, h')"
  shows "length b = length buf"
  using assms(2) control_read_Val [OF assms(1)]
  by (auto simp: class_read_def bindR_eq_Val split: if_splits)

lemma calm_class_read [calm]: "sys_ok S \<Longrightarrow> calmly (class_read S dev rq v buf t)"
  unfolding class_read_def by (intro calm)

lemma calm_get_idle [calm]:
  assumes "sys_ok S"
  shows "calmly (get_idle S dev i t)" "calmly (get_protocol S dev t)"
  unfolding get_idle_def get_protocol_def
  by (auto dest!: class_read_length [OF assms] intro!: calm_bindR_val [OF calm_class_read [OF assms]] calm_bindR safe_lift_opt calm_basic calm_if simp: idx_def)

text \<open>A buffer of \<open>max_input_report_len\<close> bytes holds any declared input report with its ID byte.\<close>

lemma max_input_report_len_bound:
  assumes "report_len Input i (hid_report dev) = Some n"
  shows "n + (if rd_uses_ids (hid_report dev) then 1 else 0) \<le> max_input_report_len dev"
proof -
  let ?d = "hid_report dev" and ?lens = "List.map_filter (\<lambda>i. report_len Input i (hid_report dev)) (report_ids Input (hid_report dev))"
  obtain w where "map_of (rd_reports ?d) (Input, i) = Some w" using assms by (auto simp: report_len_def)
  then have "((Input, i), w) \<in> set (rd_reports ?d)" by (rule map_of_SomeD)
  then have "i \<in> set (report_ids Input ?d)" by (force simp: report_ids_def)
  with assms have n: "n \<in> set ?lens" by (force simp: map_filter_def)
  then have "?lens \<noteq> []" "n \<le> Max (set ?lens)" by auto
  then show ?thesis by (auto simp: max_input_report_len_def Let_def max_def)
qed

text \<open>The idle rate travels in units of 4 ms.\<close>

lemma idle_units_roundtrip:
  assumes "4 \<le> ms" "ms < 1024"
  shows "idle_units (Some ms) \<noteq> 0 \<and> unat (idle_units (Some ms)) * 4 \<le> ms \<and> ms < unat (idle_units (Some ms)) * 4 + 4"
proof -
  have c: "clamp (ms div 4) (Suc 0) 255 = ms div 4" using assms by (simp add: clamp_def) linarith
  have "unat (of_nat (ms div 4) :: u16) = ms div 4"
    using assms by (simp only: unsigned_of_nat) (simp add: take_bit_eq_mod)
  then have u: "unat (idle_units (Some ms)) = ms div 4" by (simp add: idle_units_def c)
  moreover have "0 < ms div 4" using assms by (simp add: div_greater_zero_iff)
  ultimately have "idle_units (Some ms) \<noteq> 0" by (metis unat_0 less_irrefl)
  with u show ?thesis by linarith
qed

end
