(* ===== verification/Msc_Scsi.thy ===== *)
theory Msc_Scsi
  imports Usb_Types
begin

text \<open>
  SCSI command blocks and responses (\<open>src/src/msc/scsi.rs\<close>): INQUIRY data with its space-padded text
  fields, capacities, sense data in both formats and the error kinds they stand for, and the READ and
  WRITE command blocks, with the lemma that a target decoding them sees the request that was made.
\<close>

section \<open>Text fields\<close>

text \<open>\<open>String::from_utf8_lossy\<close>: characters are code points; every maximal ill-formed prefix of a
  sequence becomes one U+FFFD.\<close>

definition continuation :: "u8 \<Rightarrow> bool" where
  "continuation b \<longleftrightarrow> 0x80 \<le> b \<and> b < 0xC0"

definition second_ok :: "u8 \<Rightarrow> u8 \<Rightarrow> bool" where
  "second_ok lead b =
     (if lead = 0xE0 then 0xA0 \<le> b \<and> b < 0xC0
      else if lead = 0xED then 0x80 \<le> b \<and> b < 0xA0
      else if lead = 0xF0 then 0x90 \<le> b \<and> b < 0xC0
      else if lead = 0xF4 then 0x80 \<le> b \<and> b < 0x90
      else continuation b)"

definition six :: "u8 \<Rightarrow> nat" where
  "six b = unat (b AND 0x3F)"

function utf8_lossy :: "bytes \<Rightarrow> nat list" where
  "utf8_lossy [] = []"
| "utf8_lossy (a # rest) =
     (if a < 0x80 then unat a # utf8_lossy rest
      else if 0xC2 \<le> a \<and> a < 0xE0 then
        (case rest of
           b # rest \<Rightarrow> if continuation b then (unat (a AND 0x1F) * 64 + six b) # utf8_lossy rest
                      else 0xFFFD # utf8_lossy (b # rest)
         | [] \<Rightarrow> [0xFFFD])
      else if 0xE0 \<le> a \<and> a < 0xF0 then
        (case rest of
           b # rest \<Rightarrow>
             if \<not> second_ok a b then 0xFFFD # utf8_lossy (b # rest)
             else (case rest of
                 c # rest \<Rightarrow> if continuation c
                   then (unat (a AND 0x0F) * 4096 + six b * 64 + six c) # utf8_lossy rest
                   else 0xFFFD # utf8_lossy (c # rest)
               | [] \<Rightarrow> [0xFFFD])
         | [] \<Rightarrow> [0xFFFD])
      else if 0xF0 \<le> a \<and> a < 0xF5 then
        (case rest of
           b # rest \<Rightarrow>
             if \<not> second_ok a b then 0xFFFD # utf8_lossy (b # rest)
             else (case rest of
                 c # rest \<Rightarrow>
                   if \<not> continuation c then 0xFFFD # utf8_lossy (c # rest)
                   else (case rest of
                       d # rest \<Rightarrow> if continuation d
                         then (unat (a AND 0x07) * 262144 + six b * 4096 + six c * 64 + six d) # utf8_lossy rest
                         else 0xFFFD # utf8_lossy (d # rest)
                     | [] \<Rightarrow> [0xFFFD])
               | [] \<Rightarrow> [0xFFFD])
         | [] \<Rightarrow> [0xFFFD])
      else 0xFFFD # utf8_lossy rest)"
  by pat_completeness auto
termination by (relation "measure length") auto

declare utf8_lossy.simps(2) [simp del]

definition blank :: "nat \<Rightarrow> bool" where
  "blank c \<longleftrightarrow> c = 32 \<or> c = 0"

definition trim :: "nat list \<Rightarrow> nat list" where
  "trim s = rev (dropWhile blank (rev (dropWhile blank s)))"

definition inquiry_text :: "bytes \<Rightarrow> nat \<Rightarrow> nat \<Rightarrow> nat list" where
  "inquiry_text b start stop =
     trim (utf8_lossy (case slice b start (min stop (length b)) of Some s \<Rightarrow> s | None \<Rightarrow> []))"

record inquiry =
  inq_device_type :: u8
  inq_removable :: bool
  inq_version :: u8
  inq_vendor :: "nat list"
  inq_product :: "nat list"
  inq_revision :: "nat list"

definition inquiry_from_bytes :: "bytes \<Rightarrow> inquiry option" where
  "inquiry_from_bytes b =
     (if length b < 5 then None
      else Some \<lparr>inq_device_type = b ! 0 AND 0x1F, inq_removable = b ! 1 AND 0x80 \<noteq> 0, inq_version = b ! 2,
             inq_vendor = inquiry_text b 8 16, inq_product = inquiry_text b 16 32, inq_revision = inquiry_text b 32 36\<rparr>)"

section \<open>Capacity and sense data\<close>

record capacity =
  cap_block_count :: u64
  cap_block_size :: u32

text \<open>\<open>bytes\<close>; \<open>None\<close> is the panic of an overflowing product.\<close>

definition capacity_bytes :: "capacity \<Rightarrow> nat option" where
  "capacity_bytes c = (let n = unat (cap_block_count c) * unat (cap_block_size c) in if n < 2 ^ 64 then Some n else None)"

datatype sense_key = NoSense | RecoveredError | NotReady | MediumError | HardwareError | IllegalRequest
  | UnitAttention | DataProtect | BlankCheck | VendorSpecific | CopyAborted | AbortedCommand
  | VolumeOverflow | Miscompare | ReservedKey u8

definition sense_key_of :: "u8 \<Rightarrow> sense_key" where
  "sense_key_of key = (let k = key AND 0x0F in
     if k = 0 then NoSense else if k = 1 then RecoveredError else if k = 2 then NotReady
     else if k = 3 then MediumError else if k = 4 then HardwareError else if k = 5 then IllegalRequest
     else if k = 6 then UnitAttention else if k = 7 then DataProtect else if k = 8 then BlankCheck
     else if k = 9 then VendorSpecific else if k = 10 then CopyAborted else if k = 11 then AbortedCommand
     else if k = 13 then VolumeOverflow else if k = 14 then Miscompare else ReservedKey k)"

record sense =
  sense_key :: sense_key
  sense_asc :: u8
  sense_ascq :: u8

definition sense_from_bytes :: "bytes \<Rightarrow> sense option" where
  "sense_from_bytes b = (case idx b 0 of
      None \<Rightarrow> None
    | Some h \<Rightarrow>
        (let format = h AND 0x7F in
         if format = 0x70 \<or> format = 0x71 then
           map_option (\<lambda>k. \<lparr>sense_key = sense_key_of k, sense_asc = byte_at b 12, sense_ascq = byte_at b 13\<rparr>) (idx b 2)
         else if format = 0x72 \<or> format = 0x73 then
           map_option (\<lambda>k. \<lparr>sense_key = sense_key_of k, sense_asc = byte_at b 2, sense_ascq = byte_at b 3\<rparr>) (idx b 1)
         else None))"

definition medium_not_present :: "sense \<Rightarrow> bool" where
  "medium_not_present s \<longleftrightarrow> sense_asc s = 0x3A"

definition sense_error_kind :: "sense \<Rightarrow> error_kind" where
  "sense_error_kind s = (case sense_key s of
      NotReady \<Rightarrow> if medium_not_present s then NotFound else Busy
    | IllegalRequest \<Rightarrow> NotSupported
    | DataProtect \<Rightarrow> Access
    | VolumeOverflow \<Rightarrow> InvalidParam
    | _ \<Rightarrow> Io)"

section \<open>READ and WRITE command blocks\<close>

text \<open>The command block and how much of it is used; \<open>None\<close> is the panic of an overflowing sum.\<close>

definition rw_cdb :: "bool \<Rightarrow> u64 \<Rightarrow> u32 \<Rightarrow> (bytes \<times> nat) option" where
  "rw_cdb write lba blocks =
     (if 2 ^ 64 \<le> unat lba + unat blocks then None
      else if unat lba + unat blocks \<le> 2 ^ 32 \<and> unat blocks \<le> 65535 then
        Some ([if write then 0x2A else 0x28, 0] @ be_bytes32 (ucast lba) @ [0] @ be_bytes16 (ucast blocks)
              @ replicate 7 0, 10)
      else
        Some ([if write then 0x8A else 0x88, 0] @ be_bytes64 lba @ be_bytes32 blocks @ [0, 0], 16))"

text \<open>What a target reads out of a READ or WRITE command block (SBC-3): whether it writes, the first
  block, and how many.\<close>

definition be_value :: "bytes \<Rightarrow> nat" where
  "be_value bs = foldl (\<lambda>v b. v * 256 + unat b) 0 bs"

definition decode_rw :: "bytes \<Rightarrow> (bool \<times> nat \<times> nat) option" where
  "decode_rw cdb =
     (if length cdb = 10 \<and> (cdb ! 0 = 0x28 \<or> cdb ! 0 = 0x2A) then
        Some (cdb ! 0 = 0x2A, be_value (take 4 (drop 2 cdb)), be_value (take 2 (drop 7 cdb)))
      else if length cdb = 16 \<and> (cdb ! 0 = 0x88 \<or> cdb ! 0 = 0x8A) then
        Some (cdb ! 0 = 0x8A, be_value (take 8 (drop 2 cdb)), be_value (take 4 (drop 10 cdb)))
      else None)"

lemma foldl_be: "foldl (\<lambda>v b. v * 256 + unat b) n bs = n * 256 ^ length bs + be_value bs"
proof (induction bs arbitrary: n)
  case (Cons b bs)
  have "be_value (b # bs) = foldl (\<lambda>v b. v * 256 + unat b) (0 * 256 + unat b) bs"
    by (simp only: be_value_def foldl.simps)
  then have "be_value (b # bs) = unat b * 256 ^ length bs + be_value bs" by (simp only: Cons.IH mult_0 add_0)
  then show ?case by (simp only: foldl.simps Cons.IH length_Cons power_Suc) (simp add: algebra_simps)
qed (simp add: be_value_def)

lemma be_value_app: "be_value (xs @ ys) = be_value xs * 256 ^ length ys + be_value ys"
proof -
  have "be_value (xs @ ys) = foldl (\<lambda>v b. v * 256 + unat b) (be_value xs) ys"
    by (simp only: be_value_def foldl_append)
  then show ?thesis by (simp only: foldl_be)
qed

lemma unat_ucast_u8: "unat (ucast (w :: 'a::len word) :: u8) = unat w mod 256"
  by (simp only: unsigned_ucast_eq take_bit_eq_mod) simp

lemma unat_drop_bit: "unat (drop_bit k (w :: 'a::len word)) = unat w div 2 ^ k"
  by (simp only: unsigned_drop_bit_eq) (simp add: drop_bit_eq_div unsigned_take_bit_eq [symmetric])

lemma div_mod_step: "(x :: nat) div (n * 256) * 256 + x div n mod 256 = x div n"
  by (simp only: div_mult2_eq div_mult_mod_eq)

lemma be_value_u16: "be_value (be_bytes16 v) = unat v"
proof -
  have "unat v div 256 mod 256 = unat v div 256" using u16_less [of v] by (intro mod_less) (simp add: less_mult_imp_div_less)
  then show ?thesis
    using div_mod_step [of "unat v" 1] by (simp add: be_value_def be_bytes16_def le_bytes16_def unat_ucast_u8 unat_drop_bit)
qed

lemma be_value_u32: "be_value (be_bytes32 v) = unat v"
proof -
  let ?x = "unat v"
  have "?x < 256 * 16777216" using u32_less [of v] by simp
  then have "?x div 16777216 < 256" by (rule less_mult_imp_div_less)
  then have top: "?x div 16777216 mod 256 = ?x div 16777216" by (rule mod_less)
  have "be_value (be_bytes32 v) =
      (((?x div 16777216 mod 256) * 256 + ?x div 65536 mod 256) * 256 + ?x div 256 mod 256) * 256 + ?x mod 256"
    by (simp only: be_value_def be_bytes32_def le_bytes32_def rev.simps append.simps foldl.simps unat_ucast_u8 unat_drop_bit) simp
  also have "\<dots> = ?x"
    using div_mod_step [of ?x 65536] div_mod_step [of ?x 256] div_mod_step [of ?x 1] by (simp only: top) simp
  finally show ?thesis .
qed

lemma be_value_u64: "be_value (be_bytes64 v) = unat v"
proof -
  have less: "unat v < 18446744073709551616"
    using unsigned_less [where 'a = nat, of v] by simp
  have "unat v div 4294967296 mod 4294967296 = unat v div 4294967296"
    using less by (intro mod_less) (simp add: less_mult_imp_div_less)
  then have "unat (ucast (drop_bit 32 v) :: u32) = unat v div 4294967296"
    by (simp only: unsigned_ucast_eq take_bit_eq_mod unat_drop_bit) simp
  moreover have "unat (ucast v :: u32) = unat v mod 4294967296"
    by (simp only: unsigned_ucast_eq take_bit_eq_mod) simp
  ultimately show ?thesis
    using div_mult_mod_eq [of "unat v" 4294967296]
    by (simp add: be_bytes64_def be_value_app be_value_u32)
qed

text \<open>The target sees exactly the request, in the short form when it fits.\<close>

lemma rw_cdb_decode:
  assumes less: "unat lba + unat blocks < 2 ^ 64" and pos: "0 < unat blocks"
  obtains cdb n where "rw_cdb write lba blocks = Some (cdb, n)" "length cdb = 16" "n = 10 \<or> n = 16"
    "decode_rw (take n cdb) = Some (write, unat lba, unat blocks)"
proof (cases "unat lba + unat blocks \<le> 2 ^ 32 \<and> unat blocks \<le> 65535")
  case True
  let ?cdb = "[if write then 0x2A else 0x28, 0] @ be_bytes32 (ucast lba) @ [0] @ be_bytes16 (ucast blocks) @ replicate 7 (0 :: u8)"
  have l: "unat (ucast lba :: u32) = unat lba" and b: "unat (ucast blocks :: u16) = unat blocks"
    using True pos by (simp_all add: unsigned_ucast_eq take_bit_eq_mod)
  have t: "take 4 (drop 2 (take 10 ?cdb)) = be_bytes32 (ucast lba)" "take 2 (drop 7 (take 10 ?cdb)) = be_bytes16 (ucast blocks)"
    by (simp_all add: drop_take)
  have "decode_rw (take 10 ?cdb) = Some (write, unat lba, unat blocks)"
    unfolding decode_rw_def t be_value_u32 be_value_u16 l b by (simp add: nth_append)
  moreover have "rw_cdb write lba blocks = Some (?cdb, 10)" using True less by (simp add: rw_cdb_def)
  ultimately show thesis by (intro that [of ?cdb 10]) simp_all
next
  case False
  let ?cdb = "[if write then 0x8A else 0x88, 0] @ be_bytes64 lba @ be_bytes32 blocks @ [0, 0 :: u8]"
  have t: "take 8 (drop 2 (take 16 ?cdb)) = be_bytes64 lba" "take 4 (drop 10 (take 16 ?cdb)) = be_bytes32 blocks"
    by (simp_all add: drop_take)
  have "decode_rw (take 16 ?cdb) = Some (write, unat lba, unat blocks)"
    unfolding decode_rw_def t be_value_u64 be_value_u32 by simp
  moreover have "rw_cdb write lba blocks = Some (?cdb, 16)" using False less by (simp add: rw_cdb_def)
  ultimately show thesis by (intro that [of ?cdb 16]) simp_all
qed

end
