(* ===== verification/Msc_Storage.thy ===== *)
theory Msc_Storage
  imports Usb_Class Msc_Scsi
begin

text \<open>
  Bulk-only mass storage (\<open>src/src/msc/mod.rs\<close>): the transport (command wrapper, data phase, status
  wrapper, with its recoveries), SCSI commands with the retries after UNIT ATTENTION, block transfers in
  pieces, and the byte stream \<open>BlockDevice\<close>. The mutex of \<open>MassStorage\<close> makes a command atomic, so
  its contents are part of the state here.
\<close>

section \<open>State\<close>

record 'k storage =
  ms_handle :: "'k handle"
  ms_tag :: u32
  ms_timeout :: nat
  ms_max_transfer :: nat

record msc =
  mc_claim :: helper_claim
  mc_interface :: u8
  mc_ep_in :: u8
  mc_ep_out :: u8
  mc_max_lun :: u8

datatype data_phase = NoData | DataIn bytes | DataOut bytes

fun phase_len :: "data_phase \<Rightarrow> nat" where
  "phase_len NoData = 0"
| "phase_len (DataIn b) = length b"
| "phase_len (DataOut b) = length b"

record command_result =
  cr_passed :: bool
  cr_transferred :: nat
  cr_residue :: u32

abbreviation on_handle :: "('k handle, 'a) io \<Rightarrow> ('k storage, 'a) io" where
  "on_handle \<equiv> zoom ms_handle (\<lambda>h s. s\<lparr>ms_handle := h\<rparr>)"

definition set_storage_timeout :: "nat \<Rightarrow> 'k storage \<Rightarrow> 'k storage" where
  "set_storage_timeout t s = s\<lparr>ms_timeout := t\<rparr>"

definition set_max_transfer :: "nat \<Rightarrow> 'k storage \<Rightarrow> 'k storage" where
  "set_max_transfer n s = s\<lparr>ms_max_transfer := max n 1\<rparr>"

section \<open>Opening\<close>

definition is_bulk_only :: "interface_descriptor \<Rightarrow> bool" where
  "is_bulk_only a \<longleftrightarrow> if_class a = 0x08 \<and> if_protocol a = 0x50"

definition msc_interfaces :: "'l device_info \<Rightarrow> interface_descriptor list result option" where
  "msc_interfaces d = map_option (map_sum id
     (\<lambda>cfg. List.map_filter (\<lambda>i. find is_bulk_only (ig_alt_settings i)) (cfg_interfaces cfg))) (active_config d)"

definition read_max_lun :: "'k sys \<Rightarrow> u8 \<Rightarrow> ('k handle, u8) io" where
  "read_max_lun S interface =
     matchR (control_read S (request_type In Class RInterface) 0xFE 0 (ucast interface) [0] 1000)
       (\<lambda>(n, b). if n = 1 then ret (min (byte_at b 0) 15) else ret 0) (\<lambda>_. ret 0)"

definition msc_start ::
  "'k sys \<Rightarrow> interface_descriptor \<Rightarrow> u8 \<Rightarrow> u8 \<Rightarrow> u8 \<Rightarrow> helper_claim \<Rightarrow> ('k handle, msc) io" where
  "msc_start S alt interface ep_in ep_out c =
     bindR (if if_alternate_setting alt \<noteq> 0 then set_alternate_setting S interface (if_alternate_setting alt) else ret ())
       (\<lambda>_. bindR (read_max_lun S interface) (\<lambda>lun.
         ret \<lparr>mc_claim = c, mc_interface = interface, mc_ep_in = ep_in, mc_ep_out = ep_out, mc_max_lun = lun\<rparr>))"

definition msc_open_interface :: "'k sys \<Rightarrow> 'l device_info \<Rightarrow> u8 \<Rightarrow> ('k handle, msc) io" where
  "msc_open_interface S d interface =
     bindR (lift_panic (active_config d)) (\<lambda>cfg.
       case (case cfg_interface cfg interface of None \<Rightarrow> None | Some i \<Rightarrow> find is_bulk_only (ig_alt_settings i)) of
         None \<Rightarrow> failK InvalidParam
       | Some alt \<Rightarrow> (case endpoint_of alt In Bulk of
           None \<Rightarrow> failK Io
         | Some i \<Rightarrow> (case endpoint_of alt Out Bulk of
             None \<Rightarrow> failK Io
           | Some out \<Rightarrow> open_with S [interface] (msc_start S alt interface (ep_address i) (ep_address out)))))"

text \<open>The fresh state that goes with a new \<open>MassStorage\<close>.\<close>

definition storage_new :: "'k handle \<Rightarrow> 'k storage" where
  "storage_new h = \<lparr>ms_handle = h, ms_tag = 1, ms_timeout = 20000, ms_max_transfer = 122880\<rparr>"

definition msc_open :: "'k sys \<Rightarrow> ('k, unit) sysop \<Rightarrow> 'l device_info \<Rightarrow> 'k \<Rightarrow> (msc \<times> 'k handle) out \<times> 'k" where
  "msc_open S opn d = open_first S opn (first_of NotFound (msc_interfaces d)) (\<lambda>i. msc_open_interface S d (if_number i))"

section \<open>The transport\<close>

definition cbw :: "u32 \<Rightarrow> u32 \<Rightarrow> bool \<Rightarrow> u8 \<Rightarrow> bytes \<Rightarrow> bytes" where
  "cbw tag expected inward lun cdb =
     le_bytes32 0x43425355 @ le_bytes32 tag @ le_bytes32 expected
       @ [if inward then 0x80 else 0, lun, of_nat (length cdb)] @ cdb @ replicate (16 - length cdb) 0"

definition le32_at :: "bytes \<Rightarrow> nat \<Rightarrow> u32" where
  "le32_at b at = u32_le (b ! at) (b ! (at + 1)) (b ! (at + 2)) (b ! (at + 3))"

definition reset_recovery :: "'k sys \<Rightarrow> msc \<Rightarrow> ('k handle, unit) io" where
  "reset_recovery S D =
     bindR (control_write S (request_type Out Class RInterface) 0xFF 0 (ucast (mc_interface D)) [] 5000)
       (\<lambda>_. bindR (clear_halt S (mc_ep_in D)) (\<lambda>_. clear_halt S (mc_ep_out D)))"

text \<open>\<open>return Err(self.recover(e))\<close>.\<close>

definition recover :: "'k sys \<Rightarrow> msc \<Rightarrow> usb_error \<Rightarrow> ('k storage, 'a) io" where
  "recover S D e =
     (if is_no_device e then failE e
      else bindR (ignoreR (on_handle (reset_recovery S D))) (\<lambda>_. failE e))"

definition data_stage :: "'k sys \<Rightarrow> msc \<Rightarrow> nat \<Rightarrow> data_phase \<Rightarrow> ('k storage, nat \<times> bytes) io" where
  "data_stage S D timeout data = (case data of
      NoData \<Rightarrow> ret (0, [])
    | DataIn buf \<Rightarrow> on_handle (bulk_read S (mc_ep_in D) buf timeout)
    | DataOut buf \<Rightarrow> bindR (on_handle (bulk_write S (mc_ep_out D) buf timeout)) (\<lambda>n. ret (n, [])))"

definition check_csw :: "'k sys \<Rightarrow> msc \<Rightarrow> u32 \<Rightarrow> nat \<Rightarrow> bytes \<Rightarrow> nat \<times> bytes \<Rightarrow> ('k storage, command_result \<times> bytes) io" where
  "check_csw S D tag transferred buf = (\<lambda>(got, csw).
     if got \<noteq> 13 then recover S D (error_new Io)
     else if le32_at csw 0 \<noteq> 0x53425355 \<or> le32_at csw 4 \<noteq> tag then recover S D (error_new Io)
     else if csw ! 12 = 0 then ret (\<lparr>cr_passed = True, cr_transferred = transferred, cr_residue = le32_at csw 8\<rparr>, buf)
     else if csw ! 12 = 1 then ret (\<lparr>cr_passed = False, cr_transferred = transferred, cr_residue = le32_at csw 8\<rparr>, buf)
     else recover S D (error_new Io))"

definition status_stage :: "'k sys \<Rightarrow> msc \<Rightarrow> u32 \<Rightarrow> nat \<Rightarrow> nat \<Rightarrow> bytes \<Rightarrow> ('k storage, command_result \<times> bytes) io" where
  "status_stage S D tag timeout transferred buf =
     matchR (on_handle (bulk_read S (mc_ep_in D) (replicate 13 0) timeout))
       (check_csw S D tag transferred buf)
       (\<lambda>e. if is_stall e then
              matchR (on_handle (clear_halt S (mc_ep_in D)))
                (\<lambda>_. matchR (on_handle (bulk_read S (mc_ep_in D) (replicate 13 0) timeout))
                   (check_csw S D tag transferred buf) (recover S D))
                (recover S D)
            else recover S D e)"

text \<open>The result comes with the caller's buffer, which only an inward data phase changes.\<close>

definition transport :: "'k sys \<Rightarrow> msc \<Rightarrow> u8 \<Rightarrow> bytes \<Rightarrow> data_phase \<Rightarrow> ('k storage, command_result \<times> bytes) io" where
  "transport S D lun cdb data =
     (if cdb = [] \<or> length cdb > 16 then failK InvalidParam
      else if lun > mc_max_lun D then failK InvalidParam
      else if 2 ^ 32 \<le> phase_len data then failK InvalidParam
      else bindR (get_st ms_tag) (\<lambda>tag.
        bindR (mod_st (\<lambda>s. s\<lparr>ms_tag := ms_tag s + 1\<rparr>)) (\<lambda>_.
        bindR (get_st ms_timeout) (\<lambda>timeout.
        let inward = (case data of DataIn _ \<Rightarrow> True | _ \<Rightarrow> False);
            kept = (case data of DataIn b \<Rightarrow> b | _ \<Rightarrow> [])
        in matchR (on_handle (bulk_write S (mc_ep_out D) (cbw tag (of_nat (phase_len data)) inward lun cdb) timeout))
          (\<lambda>_. matchR (data_stage S D timeout data)
             (\<lambda>(n, buf). status_stage S D tag timeout n buf)
             (\<lambda>e. if is_stall e then
                    matchR (on_handle (clear_halt S (if inward then mc_ep_in D else mc_ep_out D)))
                      (\<lambda>_. status_stage S D tag timeout 0 kept) (recover S D)
                  else recover S D e))
          (recover S D)))))"

definition execute :: "'k sys \<Rightarrow> msc \<Rightarrow> u8 \<Rightarrow> bytes \<Rightarrow> data_phase \<Rightarrow> ('k storage, command_result \<times> bytes) io" where
  "execute = transport"

section \<open>Commands\<close>

definition sense_locked :: "'k sys \<Rightarrow> msc \<Rightarrow> u8 \<Rightarrow> ('k storage, sense) io" where
  "sense_locked S D lun =
     bindR (transport S D lun [0x03, 0, 0, 0, 18, 0] (DataIn (replicate 18 0))) (\<lambda>(r, buf).
       if \<not> cr_passed r then failK Io
       else bindR (lift_opt (slice buf 0 (cr_transferred r))) (\<lambda>b.
         case sense_from_bytes b of Some s \<Rightarrow> ret s | None \<Rightarrow> failK Io))"

definition with_buffer :: "data_phase \<Rightarrow> bytes \<Rightarrow> data_phase" where
  "with_buffer data buf = (case data of DataIn _ \<Rightarrow> DataIn buf | _ \<Rightarrow> data)"

text \<open>The loop of \<open>command\<close>; \<open>retries\<close> counts the attempts that may still follow a UNIT ATTENTION.\<close>

fun command_loop :: "nat \<Rightarrow> 'k sys \<Rightarrow> msc \<Rightarrow> u8 \<Rightarrow> bytes \<Rightarrow> data_phase \<Rightarrow> ('k storage, nat \<times> bytes) io" where
  "command_loop 0 S D lun cdb data =
     bindR (transport S D lun cdb data) (\<lambda>(r, buf).
       if cr_passed r then ret (cr_transferred r, buf)
       else bindR (sense_locked S D lun) (\<lambda>sense. failK (sense_error_kind sense)))"
| "command_loop (Suc k) S D lun cdb data =
     bindR (transport S D lun cdb data) (\<lambda>(r, buf).
       if cr_passed r then ret (cr_transferred r, buf)
       else bindR (sense_locked S D lun) (\<lambda>sense.
         if sense_key sense = UnitAttention then command_loop k S D lun cdb (with_buffer data buf)
         else failK (sense_error_kind sense)))"

definition msc_command :: "'k sys \<Rightarrow> msc \<Rightarrow> u8 \<Rightarrow> bytes \<Rightarrow> data_phase \<Rightarrow> ('k storage, nat \<times> bytes) io" where
  "msc_command = command_loop 3"

definition request_sense :: "'k sys \<Rightarrow> msc \<Rightarrow> u8 \<Rightarrow> ('k storage, sense) io" where
  "request_sense = sense_locked"

definition msc_inquiry :: "'k sys \<Rightarrow> msc \<Rightarrow> u8 \<Rightarrow> ('k storage, inquiry) io" where
  "msc_inquiry S D lun =
     bindR (msc_command S D lun [0x12, 0, 0, 0, 36, 0] (DataIn (replicate 36 0))) (\<lambda>(n, buf).
       bindR (lift_opt (slice buf 0 n)) (\<lambda>b. case inquiry_from_bytes b of Some i \<Rightarrow> ret i | None \<Rightarrow> failK Io))"

definition test_unit_ready :: "'k sys \<Rightarrow> msc \<Rightarrow> u8 \<Rightarrow> ('k storage, unit) io" where
  "test_unit_ready S D lun = bindR (msc_command S D lun (replicate 6 0) NoData) (\<lambda>_. ret ())"

definition be32_at :: "bytes \<Rightarrow> nat \<Rightarrow> u32" where
  "be32_at b at = u32_le (b ! (at + 3)) (b ! (at + 2)) (b ! (at + 1)) (b ! at)"

text \<open>\<open>from_be_bytes(..) + 1\<close> panics when the last block address is the largest \<open>u64\<close>.\<close>

definition read_capacity :: "'k sys \<Rightarrow> msc \<Rightarrow> u8 \<Rightarrow> ('k storage, capacity) io" where
  "read_capacity S D lun =
     bindR (msc_command S D lun (0x25 # replicate 9 0) (DataIn (replicate 8 0))) (\<lambda>(n, b).
       if n < 8 then failK Io
       else bindR
         (if be32_at b 0 = -1 then
            bindR (msc_command S D lun ([0x9E, 0x10] @ replicate 8 0 @ be_bytes32 32 @ [0, 0]) (DataIn (replicate 32 0)))
              (\<lambda>(n, b). if n < 12 then failK Io
                 else if u64_be (take 8 b) = -1 then lift_opt None
                 else ret \<lparr>cap_block_count = u64_be (take 8 b) + 1, cap_block_size = be32_at b 8\<rparr>)
          else ret \<lparr>cap_block_count = ucast (be32_at b 0) + 1, cap_block_size = be32_at b 4\<rparr>)
         (\<lambda>c. if cap_block_size c = 0 then failK Io else ret c))"

text \<open>The loop over the two allocation lengths.\<close>

fun write_protected_loop :: "'k sys \<Rightarrow> msc \<Rightarrow> u8 \<Rightarrow> u8 list \<Rightarrow> ('k storage, bool) io" where
  "write_protected_loop S D lun [] = failK NotSupported"
| "write_protected_loop S D lun (alloc # allocs) =
     matchR (msc_command S D lun [0x1A, 0, 0x3F, 0, alloc, 0] (DataIn (replicate (unat alloc) 0)))
       (\<lambda>(n, b). if 3 \<le> n then ret (b ! 2 AND 0x80 \<noteq> 0) else write_protected_loop S D lun allocs)
       (\<lambda>e. if err_kind e = NotSupported then write_protected_loop S D lun allocs else failE e)"

definition is_write_protected :: "'k sys \<Rightarrow> msc \<Rightarrow> u8 \<Rightarrow> ('k storage, bool) io" where
  "is_write_protected S D lun = write_protected_loop S D lun [192, 4]"

definition synchronize_cache :: "'k sys \<Rightarrow> msc \<Rightarrow> u8 \<Rightarrow> ('k storage, unit) io" where
  "synchronize_cache S D lun =
     matchR (msc_command S D lun (0x35 # replicate 9 0) NoData) (\<lambda>_. ret ())
       (\<lambda>e. if err_kind e = NotSupported then ret () else failE e)"

definition start_stop_unit :: "'k sys \<Rightarrow> msc \<Rightarrow> u8 \<Rightarrow> bool \<Rightarrow> bool \<Rightarrow> ('k storage, unit) io" where
  "start_stop_unit S D lun start load_eject =
     bindR (msc_command S D lun [0x1B, 0, 0, 0, of_bool start OR push_bit 1 (of_bool load_eject), 0] NoData) (\<lambda>_. ret ())"

definition prevent_medium_removal :: "'k sys \<Rightarrow> msc \<Rightarrow> u8 \<Rightarrow> bool \<Rightarrow> ('k storage, unit) io" where
  "prevent_medium_removal S D lun prevent =
     bindR (msc_command S D lun [0x1E, 0, 0, 0, of_bool prevent, 0] NoData) (\<lambda>_. ret ())"

section \<open>Blocks\<close>

definition check_blocks :: "u32 \<Rightarrow> nat \<Rightarrow> nat result" where
  "check_blocks block_size len =
     (let bs = unat block_size in if bs = 0 \<or> len mod bs \<noteq> 0 then Err InvalidParam else Ok bs)"

definition chunk_blocks :: "nat \<Rightarrow> ('k storage, nat) io" where
  "chunk_blocks bs = get_st (\<lambda>s. clamp (ms_max_transfer s div bs) 1 65535)"

text \<open>\<open>lba + (i * chunk) as u64\<close>.\<close>

definition part_cdb :: "bool \<Rightarrow> nat \<Rightarrow> nat \<Rightarrow> u64 \<Rightarrow> nat \<Rightarrow> bytes \<Rightarrow> (bytes \<times> nat) option" where
  "part_cdb write bs chunk lba i part =
     (if 2 ^ 64 \<le> unat lba + i * chunk then None
      else rw_cdb write (lba + of_nat (i * chunk)) (of_nat (length part div bs)))"

fun read_parts :: "'k sys \<Rightarrow> msc \<Rightarrow> u8 \<Rightarrow> nat \<Rightarrow> nat \<Rightarrow> u64 \<Rightarrow> nat \<Rightarrow> bytes list \<Rightarrow> ('k storage, bytes) io" where
  "read_parts S D lun bs chunk lba i [] = ret []"
| "read_parts S D lun bs chunk lba i (part # parts) =
     bindR (lift_opt (part_cdb False bs chunk lba i part)) (\<lambda>(cdb, n).
     bindR (msc_command S D lun (take n cdb) (DataIn part)) (\<lambda>(moved, part').
       if moved \<noteq> length part then failK Io
       else bindR (read_parts S D lun bs chunk lba (i + 1) parts) (\<lambda>rest. ret (part' @ rest))))"

definition msc_read_blocks :: "'k sys \<Rightarrow> msc \<Rightarrow> u8 \<Rightarrow> u64 \<Rightarrow> u32 \<Rightarrow> bytes \<Rightarrow> ('k storage, bytes) io" where
  "msc_read_blocks S D lun lba block_size buf =
     bindR (lift_res (check_blocks block_size (length buf))) (\<lambda>bs.
     bindR (chunk_blocks bs) (\<lambda>chunk. read_parts S D lun bs chunk lba 0 (chunks (chunk * bs) buf)))"

fun write_parts :: "'k sys \<Rightarrow> msc \<Rightarrow> u8 \<Rightarrow> nat \<Rightarrow> nat \<Rightarrow> u64 \<Rightarrow> nat \<Rightarrow> bytes list \<Rightarrow> ('k storage, unit) io" where
  "write_parts S D lun bs chunk lba i [] = ret ()"
| "write_parts S D lun bs chunk lba i (part # parts) =
     bindR (lift_opt (part_cdb True bs chunk lba i part)) (\<lambda>(cdb, n).
     bindR (msc_command S D lun (take n cdb) (DataOut part)) (\<lambda>(moved, _).
       if moved \<noteq> length part then failK Io
       else write_parts S D lun bs chunk lba (i + 1) parts))"

definition msc_write_blocks :: "'k sys \<Rightarrow> msc \<Rightarrow> u8 \<Rightarrow> u64 \<Rightarrow> u32 \<Rightarrow> bytes \<Rightarrow> ('k storage, unit) io" where
  "msc_write_blocks S D lun lba block_size data =
     bindR (lift_res (check_blocks block_size (length data))) (\<lambda>bs.
     bindR (chunk_blocks bs) (\<lambda>chunk. write_parts S D lun bs chunk lba 0 (chunks (chunk * bs) data)))"

section \<open>Nothing here panics\<close>

lemma calm_recover [calm]: "calmly (recover S D e)"
  unfolding recover_def reset_recovery_def clear_halt_def by (intro calm)

lemma sync_read_exact:
  assumes S: "sys_ok S" and k: "kind \<noteq> Control" "kind \<noteq> Isochronous"
    and r: "zoom g u (sync_read S kind ep buf t) s = (Val (n, b), s')"
  shows "n \<le> length buf \<and> length b = length buf"
  using r sync_read_Val [OF S k] by (auto simp: zoom_eq)

lemma calm_check_csw: "calmly (check_csw S D tag n buf p)"
  unfolding check_csw_def by (cases p) (auto intro!: calm)

lemma calm_status_stage [calm]: "sys_ok S \<Longrightarrow> calmly (status_stage S D tag t n buf)"
  unfolding status_stage_def clear_halt_def by (intro calm calm_check_csw) simp_all

lemma status_stage_Val:
  assumes "status_stage S D tag t n buf s = (Val (r, b), s')"
  shows "b = buf \<and> cr_transferred r = n"
proof -
  have c: "check_csw S D tag n buf p s1 = (Val (r, b), s2) \<Longrightarrow> b = buf \<and> cr_transferred r = n" for p s1 s2
    by (cases p) (auto simp: check_csw_def recover_def bindR_eq_Val split: if_splits)
  have x: "recover S D e s1 \<noteq> (Val (r, b), s2)" for e s1 s2
    by (auto simp: recover_def bindR_eq_Val)
  show ?thesis using assms c x unfolding status_stage_def by (auto simp: matchR_eq split: if_splits)
qed

lemma calm_data_stage [calm]: "sys_ok S \<Longrightarrow> calmly (data_stage S D t data)"
  unfolding data_stage_def by (cases data) (auto intro!: calm)

text \<open>What a data phase may give back: a buffer of the size it was given, and no more than that was moved
  into it.\<close>

definition fits_phase :: "data_phase \<Rightarrow> nat \<Rightarrow> bytes \<Rightarrow> bool" where
  "fits_phase data n b \<longleftrightarrow> (case data of DataIn buf \<Rightarrow> n \<le> length buf \<and> length b = length buf | _ \<Rightarrow> b = [])"

lemma fits_phase_simps [simp]:
  "fits_phase (DataIn buf) n b \<longleftrightarrow> n \<le> length buf \<and> length b = length buf"
  "fits_phase NoData n b \<longleftrightarrow> b = []"
  "fits_phase (DataOut buf) n b \<longleftrightarrow> b = []"
  by (simp_all add: fits_phase_def)

lemma data_stage_Val:
  assumes S: "sys_ok S" and r: "data_stage S D t data s = (Val (n, b), s')"
  shows "fits_phase data n b"
proof (cases data)
  case (DataIn buf)
  then show ?thesis using r sync_read_exact [OF S, of Bulk ms_handle "\<lambda>h s. s\<lparr>ms_handle := h\<rparr>" "mc_ep_in D" buf t s n b s']
    by (simp add: data_stage_def)
qed (use r in \<open>auto simp: data_stage_def bindR_eq_Val\<close>)

lemma calm_transport [calm]: "sys_ok S \<Longrightarrow> calmly (transport S D lun cdb data)"
  unfolding transport_def Let_def clear_halt_def by (intro calm) simp_all

text \<open>A command block that gets through moves no more than the data phase holds; after a stalled data
  phase it moved nothing.\<close>

lemma transport_Val:
  assumes S: "sys_ok S" and r: "transport S D lun cdb data s = (Val (r, b), s')"
  shows "fits_phase data (cr_transferred r) b"
proof -
  have x: "recover S D e s1 \<noteq> (Val (r, b), s2)" for e s1 s2
    by (auto simp: recover_def bindR_eq_Val)
  have k: "fits_phase data 0 (case data of DataIn b \<Rightarrow> b | _ \<Rightarrow> [])"
    by (cases data) simp_all
  show ?thesis
    using r x k unfolding transport_def Let_def
    by (auto simp: bindR_eq_Val matchR_eq split: if_splits dest!: status_stage_Val dest: data_stage_Val [OF S])
qed

lemma calm_sense [calm]: "sys_ok S \<Longrightarrow> calmly (sense_locked S D lun)"
  unfolding sense_locked_def
  by (rule calm_bindR_val, rule calm_transport, assumption)
    (auto intro!: calm safe_lift_opt dest!: transport_Val simp: slice_def)

lemma calm_command_loop: "sys_ok S \<Longrightarrow> calmly (command_loop k S D lun cdb data)"
  by (induction k arbitrary: data) (auto intro!: calm)

lemma calm_command [calm]: "sys_ok S \<Longrightarrow> calmly (msc_command S D lun cdb data)"
  by (simp add: msc_command_def calm_command_loop)

lemma fits_with_buffer: "fits_phase data m b \<Longrightarrow> fits_phase (with_buffer data b) n c \<Longrightarrow> fits_phase data n c"
  by (cases data) (simp_all add: with_buffer_def)

lemma command_loop_Val:
  assumes S: "sys_ok S"
  shows "command_loop k S D lun cdb data s = (Val (n, b), s') \<Longrightarrow> fits_phase data n b"
proof (induction k arbitrary: data s)
  case 0
  then show ?case by (auto simp: bindR_eq_Val split: if_splits dest: transport_Val [OF S])
next
  case (Suc k)
  then obtain r buf s1 where t: "transport S D lun cdb data s = (Val (r, buf), s1)" by (auto simp: bindR_eq_Val)
  note tv = transport_Val [OF S t]
  show ?case
  proof (cases "cr_passed r")
    case True
    then show ?thesis using Suc.prems t tv by (auto simp: bindR_eq_Val)
  next
    case False
    then obtain s2 where "command_loop k S D lun cdb (with_buffer data buf) s2 = (Val (n, b), s')"
      using Suc.prems t by (auto simp: bindR_eq_Val split: if_splits)
    from fits_with_buffer [OF tv Suc.IH [OF this]] show ?thesis .
  qed
qed

lemmas command_Val = command_loop_Val [where k = 3, folded msc_command_def]

section \<open>Opening and closing\<close>

lemma msc_start_kept [kept]: "claims_kept (msc_start S alt interface ep_in ep_out c)"
  unfolding msc_start_def read_max_lun_def by (intro kept)

interpretation msc_class: class_device S "[interface]" "msc_start S alt interface ep_in ep_out" mc_claim
  for S alt interface ep_in ep_out
proof unfold_locales
  fix c h d h'
  show "claims_kept (msc_start S alt interface ep_in ep_out c)" by (rule msc_start_kept)
  assume "msc_start S alt interface ep_in ep_out c h = (Val d, h')"
  then show "mc_claim d = c" by (auto simp: msc_start_def bindR_eq_Val)
qed

section \<open>A transport step by step\<close>

text \<open>The status wrapper a device sends.\<close>

definition csw :: "u32 \<Rightarrow> u32 \<Rightarrow> u8 \<Rightarrow> bytes" where
  "csw tag residue status = le_bytes32 0x53425355 @ le_bytes32 tag @ le_bytes32 residue @ [status]"

lemma length_csw [simp]: "length (csw tag residue status) = 13"
  by (simp add: csw_def le_bytes32_def)

lemma le32_at_words:
  "le32_at (le_bytes32 a @ le_bytes32 b @ le_bytes32 c @ x) 0 = a" "le32_at (le_bytes32 a @ le_bytes32 b @ le_bytes32 c @ x) 4 = b"
  "le32_at (le_bytes32 a @ le_bytes32 b @ le_bytes32 c @ x) 8 = c" "(le_bytes32 a @ le_bytes32 b @ le_bytes32 c @ y # ys) ! 12 = y"
  by (simp_all add: le32_at_def le_bytes32_def)

lemma csw_fields [simp]:
  "le32_at (csw tag residue status) 0 = 0x53425355" "le32_at (csw tag residue status) 4 = tag"
  "le32_at (csw tag residue status) 8 = residue" "csw tag residue status ! 12 = status"
  by (simp_all only: csw_def le32_at_words append_Nil append_Cons)

lemma check_csw_csw [simp]:
  "status \<le> 1 \<Longrightarrow> check_csw S D tag n buf (13, csw tag residue status) =
     ret (\<lparr>cr_passed = (status = 0), cr_transferred = n, cr_residue = residue\<rparr>, buf)"
proof -
  assume "status \<le> 1"
  then have "status = 0 \<or> status = 1" by (auto simp: word_le_nat_alt word_unat_eq_iff le_Suc_eq)
  then show ?thesis by (auto simp: check_csw_def)
qed

text \<open>The state in which the world has moved on.\<close>

definition at_world :: "'k storage \<Rightarrow> 'k \<Rightarrow> 'k storage" where
  "at_world s k = s\<lparr>ms_handle := (ms_handle s)\<lparr>h_world := k\<rparr>\<rparr>"

abbreviation world :: "'k storage \<Rightarrow> 'k" where
  "world s \<equiv> h_world (ms_handle s)"

lemma at_world_simps [simp]:
  "world (at_world s k) = k" "at_world (at_world s k) k' = at_world s k'" "at_world s (world s) = s"
  "ms_tag (at_world s k) = ms_tag s" "ms_timeout (at_world s k) = ms_timeout s"
  "ms_max_transfer (at_world s k) = ms_max_transfer s"
  "(at_world s k)\<lparr>ms_tag := t\<rparr> = at_world (s\<lparr>ms_tag := t\<rparr>) k"
  "s\<lparr>ms_handle := (ms_handle s)\<lparr>h_world := k\<rparr>\<rparr> = at_world s k"
  by (simp_all add: at_world_def)

definition pipes_ok :: "msc \<Rightarrow> bool" where
  "pipes_ok D \<longleftrightarrow> mc_ep_in D AND 0x80 \<noteq> 0 \<and> mc_ep_out D AND 0x80 = 0"

lemma bulk_out_run:
  assumes "pipes_ok D" "sys_transfer S Bulk (mc_ep_out D) b t (world s) = (Inr (Completed, n, b'), k)"
  shows "on_handle (bulk_write S (mc_ep_out D) b t) s = (Val n, at_world s k)"
  using sync_write_completed [of "mc_ep_out D" Bulk S b t "ms_handle s" n b' k] assms
  by (simp add: zoom_def pipes_ok_def)

lemma bulk_in_run:
  assumes "pipes_ok D"
    "sys_transfer S Bulk (mc_ep_in D) (replicate (length b) 0) t (world s) = (Inr (Completed, n, out), k)"
    "length out = length b" "n \<le> length b"
  shows "on_handle (bulk_read S (mc_ep_in D) b t) s = (Val (n, take n out @ drop n b), at_world s k)"
  using sync_read_completed [of "mc_ep_in D" Bulk S b t "ms_handle s" n out k] assms
  by (simp add: zoom_def pipes_ok_def)

lemma status_stage_run:
  assumes D: "pipes_ok D" and status: "status \<le> 1"
    and r: "sys_transfer S Bulk (mc_ep_in D) (replicate 13 0) t (world s) = (Inr (Completed, 13, csw tag residue status), k)"
  shows "status_stage S D tag t n buf s =
    (Val (\<lparr>cr_passed = (status = 0), cr_transferred = n, cr_residue = residue\<rparr>, buf), at_world s k)"
  using bulk_in_run [OF D, of S "replicate 13 0" t s 13 "csw tag residue status" k] r status
  by (simp add: status_stage_def matchR_Val)

lemma transport_begin:
  assumes D: "pipes_ok D" and ok: "cdb \<noteq> []" "length cdb \<le> 16" "lun \<le> mc_max_lun D" "phase_len data < 2 ^ 32"
    and c: "sys_transfer S Bulk (mc_ep_out D)
       (cbw (ms_tag s) (of_nat (phase_len data)) (case data of DataIn _ \<Rightarrow> True | _ \<Rightarrow> False) lun cdb) (ms_timeout s) (world s)
       = (Inr (Completed, m, b), k)"
  shows "transport S D lun cdb data s =
    matchR (data_stage S D (ms_timeout s) data) (\<lambda>(n, buf). status_stage S D (ms_tag s) (ms_timeout s) n buf)
      (\<lambda>e. if is_stall e
          then matchR (on_handle (clear_halt S (if (case data of DataIn _ \<Rightarrow> True | _ \<Rightarrow> False) then mc_ep_in D else mc_ep_out D)))
                (\<lambda>_. status_stage S D (ms_tag s) (ms_timeout s) 0 (case data of DataIn b \<Rightarrow> b | _ \<Rightarrow> [])) (recover S D)
          else recover S D e) (at_world (s\<lparr>ms_tag := ms_tag s + 1\<rparr>) k)"
proof -
  let ?s = "s\<lparr>ms_tag := ms_tag s + 1\<rparr>"
  have "on_handle (bulk_write S (mc_ep_out D)
      (cbw (ms_tag s) (of_nat (phase_len data)) (case data of DataIn _ \<Rightarrow> True | _ \<Rightarrow> False) lun cdb) (ms_timeout s)) ?s
      = (Val m, at_world ?s k)"
    by (rule bulk_out_run [OF D]) (use c in simp)
  then show ?thesis using ok unfolding transport_def Let_def by (simp add: bindR_Val matchR_Val not_less [symmetric])
qed

text \<open>A command whose data phase runs to its end.\<close>

lemma transport_run:
  assumes D: "pipes_ok D" and ok: "cdb \<noteq> []" "length cdb \<le> 16" "lun \<le> mc_max_lun D" "phase_len data < 2 ^ 32"
    and c: "sys_transfer S Bulk (mc_ep_out D)
       (cbw (ms_tag s) (of_nat (phase_len data)) (case data of DataIn _ \<Rightarrow> True | _ \<Rightarrow> False) lun cdb) (ms_timeout s) (world s)
       = (Inr (Completed, m, b), k)"
    and d: "data_stage S D (ms_timeout s) data (at_world (s\<lparr>ms_tag := ms_tag s + 1\<rparr>) k) = (Val (n, buf), at_world (s\<lparr>ms_tag := ms_tag s + 1\<rparr>) k2)"
    and st: "status \<le> 1" "sys_transfer S Bulk (mc_ep_in D) (replicate 13 0) (ms_timeout s) k2 = (Inr (Completed, 13, csw (ms_tag s) residue status), k3)"
  shows "transport S D lun cdb data s =
    (Val (\<lparr>cr_passed = (status = 0), cr_transferred = n, cr_residue = residue\<rparr>, buf), at_world (s\<lparr>ms_tag := ms_tag s + 1\<rparr>) k3)"
  using transport_begin [OF D ok c] status_stage_run [OF D st(1), of S "ms_timeout s" "at_world (s\<lparr>ms_tag := ms_tag s + 1\<rparr>) k2"] d st(2)
  by (simp add: matchR_Val)

text \<open>A command whose data phase stalls: the halt is cleared and the status still read.\<close>

lemma transport_stalled:
  assumes D: "pipes_ok D" and ok: "cdb \<noteq> []" "length cdb \<le> 16" "lun \<le> mc_max_lun D" "phase_len data < 2 ^ 32"
    and c: "sys_transfer S Bulk (mc_ep_out D)
       (cbw (ms_tag s) (of_nat (phase_len data)) (case data of DataIn _ \<Rightarrow> True | _ \<Rightarrow> False) lun cdb) (ms_timeout s) (world s)
       = (Inr (Completed, m, b), k)"
    and d: "data_stage S D (ms_timeout s) data (at_world (s\<lparr>ms_tag := ms_tag s + 1\<rparr>) k) = (Fail e, at_world (s\<lparr>ms_tag := ms_tag s + 1\<rparr>) k2)"
    and e: "is_stall e"
    and h: "sys_clear_halt S (case data of DataIn _ \<Rightarrow> mc_ep_in D | _ \<Rightarrow> mc_ep_out D) k2 = (Inr (), k3)"
    and st: "status \<le> 1" "sys_transfer S Bulk (mc_ep_in D) (replicate 13 0) (ms_timeout s) k3 = (Inr (Completed, 13, csw (ms_tag s) residue status), k4)"
  shows "transport S D lun cdb data s =
    (Val (\<lparr>cr_passed = (status = 0), cr_transferred = 0, cr_residue = residue\<rparr>, case data of DataIn b \<Rightarrow> b | _ \<Rightarrow> []),
     at_world (s\<lparr>ms_tag := ms_tag s + 1\<rparr>) k4)"
proof -
  let ?s = "s\<lparr>ms_tag := ms_tag s + 1\<rparr>"
  have "on_handle (clear_halt S (if (case data of DataIn _ \<Rightarrow> True | _ \<Rightarrow> False) then mc_ep_in D else mc_ep_out D)) (at_world ?s k2)
      = (Val (), at_world ?s k3)"
    using h by (cases data) (simp_all add: zoom_def clear_halt_def on_sys_def)
  then show ?thesis
    using transport_begin [OF D ok c] status_stage_run [OF D st(1), of S "ms_timeout s" "at_world ?s k3"] d e st(2)
    by (simp add: matchR_Val matchR_Fail)
qed

section \<open>Waiting for the unit\<close>

text \<open>The ten attempts of \<open>block_device\<close>; \<open>final\<close> (\<open>last\<close>) is the error of the previous one. Sleeping has no effect
  on the state.\<close>

fun wait_ready :: "nat \<Rightarrow> usb_error option \<Rightarrow> 'k sys \<Rightarrow> msc \<Rightarrow> u8 \<Rightarrow> ('k storage, unit) io" where
  "wait_ready 0 final S D lun = (case final of Some e \<Rightarrow> failE e | None \<Rightarrow> ret ())"
| "wait_ready (Suc n) final S D lun =
     matchR (test_unit_ready S D lun) (\<lambda>_. ret ())
       (\<lambda>e. if err_kind e = Busy then wait_ready n (Some e) S D lun else failE e)"

lemma calm_wait_ready: "sys_ok S \<Longrightarrow> calmly (wait_ready n final S D lun)"
  unfolding test_unit_ready_def
  by (induction n arbitrary: final) (auto intro!: calm simp: test_unit_ready_def split: option.split)

end
