(* ===== verification/Msc_Block.thy ===== *)
theory Msc_Block
  imports Msc_Storage
begin

text \<open>
  \<open>BlockDevice\<close> of \<open>src/src/msc/mod.rs\<close>: one logical unit as a byte stream with a position. Its
  operations are written over the two block operations of \<open>MassStorage\<close>, passed as \<open>rd\<close> and \<open>wr\<close>. The
  locale \<open>block_store\<close> states what they owe the stream (a store of whole blocks with some content) and
  derives that the stream is a byte array with a cursor.
\<close>

section \<open>The stream\<close>

record block_device =
  bd_lun :: u8
  bd_capacity :: capacity
  bd_pos :: u64
  bd_scratch :: bytes

text \<open>The end of \<open>MassStorage::block_device\<close>.\<close>

definition open_block_device :: "'k sys \<Rightarrow> msc \<Rightarrow> u8 \<Rightarrow> ('k storage, block_device) io" where
  "open_block_device S D lun =
     bindR (wait_ready 10 None S D lun) (\<lambda>_. bindR (read_capacity S D lun) (\<lambda>c.
       ret \<lparr>bd_lun = lun, bd_capacity = c, bd_pos = 0, bd_scratch = []\<rparr>))"

type_synonym 's reads = "u8 \<Rightarrow> u64 \<Rightarrow> u32 \<Rightarrow> bytes \<Rightarrow> ('s, bytes) io"
type_synonym 's writes = "u8 \<Rightarrow> u64 \<Rightarrow> u32 \<Rightarrow> bytes \<Rightarrow> ('s, unit) io"

abbreviation on_store :: "('s, 'a) io \<Rightarrow> ('s \<times> block_device, 'a) io" where
  "on_store \<equiv> zoom fst (\<lambda>s (_, d). (s, d))"

abbreviation the_device :: "('s \<times> block_device, block_device) io" where
  "the_device \<equiv> get_st snd"

abbreviation bd_size_field :: "block_device \<Rightarrow> u32" where
  "bd_size_field d \<equiv> cap_block_size (bd_capacity d)"

definition bd_bs :: "block_device \<Rightarrow> nat" where
  "bd_bs d = unat (bd_size_field d)"

text \<open>\<open>None\<close> here is the panic of \<open>Capacity::bytes\<close>.\<close>

definition bd_remaining :: "block_device \<Rightarrow> nat option" where
  "bd_remaining d = map_option (\<lambda>n. n - unat (bd_pos d)) (capacity_bytes (bd_capacity d))"

definition direct_blocks :: "block_device \<Rightarrow> nat \<Rightarrow> nat option" where
  "direct_blocks d len =
     (if unat (bd_pos d) mod bd_bs d \<noteq> 0 then Some 0
      else map_option (\<lambda>r. min len r div bd_bs d) (bd_remaining d))"

text \<open>\<open>check_range\<close>: \<open>None\<close> is the division by a block size of 0.\<close>

definition check_range :: "block_device \<Rightarrow> u64 \<Rightarrow> nat \<Rightarrow> unit result option" where
  "check_range d lba len =
     (if bd_bs d = 0 then None
      else Some (let blocks = len div bd_bs d in
        if unat lba + blocks < 2 ^ 64 \<and> unat lba + blocks \<le> unat (cap_block_count (bd_capacity d)) then Ok ()
        else Err InvalidParam))"

definition bd_read_blocks :: "'s reads \<Rightarrow> u64 \<Rightarrow> bytes \<Rightarrow> ('s \<times> block_device, bytes) io" where
  "bd_read_blocks rd lba buf = bindR the_device (\<lambda>d.
     bindR (lift_panic (check_range d lba (length buf))) (\<lambda>_. on_store (rd (bd_lun d) lba (bd_size_field d) buf)))"

definition bd_write_blocks :: "'s writes \<Rightarrow> u64 \<Rightarrow> bytes \<Rightarrow> ('s \<times> block_device, unit) io" where
  "bd_write_blocks wr lba data = bindR the_device (\<lambda>d.
     bindR (lift_panic (check_range d lba (length data))) (\<lambda>_. on_store (wr (bd_lun d) lba (bd_size_field d) data)))"

text \<open>The scratch block is only used after a read of it has succeeded, so what a failed read leaves in
  it is not tracked.\<close>

definition load_scratch :: "'s reads \<Rightarrow> u64 \<Rightarrow> ('s \<times> block_device, bytes) io" where
  "load_scratch rd lba =
     bindR (mod_st (\<lambda>(s, d). (s, d\<lparr>bd_scratch := resize (bd_bs d) (bd_scratch d)\<rparr>))) (\<lambda>_.
     bindR the_device (\<lambda>d.
     bindR (on_store (rd (bd_lun d) lba (bd_size_field d) (bd_scratch d))) (\<lambda>b.
     bindR (mod_st (\<lambda>(s, d). (s, d\<lparr>bd_scratch := b\<rparr>))) (\<lambda>_. ret b))))"

definition advance :: "nat \<Rightarrow> ('s \<times> block_device, unit) io" where
  "advance n = bindR the_device (\<lambda>d.
     if 2 ^ 64 \<le> unat (bd_pos d) + n then lift_opt None
     else mod_st (\<lambda>(s, d). (s, d\<lparr>bd_pos := bd_pos d + of_nat n\<rparr>)))"

definition current_lba :: "block_device \<Rightarrow> u64" where
  "current_lba d = of_nat (unat (bd_pos d) div bd_bs d)"

definition bd_read :: "'s reads \<Rightarrow> bytes \<Rightarrow> ('s \<times> block_device, nat \<times> bytes) io" where
  "bd_read rd buf =
     (if buf = [] then ret (0, buf)
      else bindR the_device (\<lambda>d. bindR (lift_opt (bd_remaining d)) (\<lambda>left.
        if left = 0 then ret (0, buf)
        else bindR (lift_opt (direct_blocks d (length buf))) (\<lambda>blocks.
          bindR
            (if blocks = 0 then
               bindR (load_scratch rd (current_lba d)) (\<lambda>scratch.
               let off = unat (bd_pos d) mod bd_bs d;
                   n = min (min (bd_bs d - off) (length buf)) left
               in bindR (lift_opt (slice scratch off (off + n))) (\<lambda>b.
                  bindR (lift_opt (put 0 b buf)) (\<lambda>buf. ret (n, buf))))
             else
               let n = blocks * bd_bs d in
               bindR (lift_opt (slice buf 0 n)) (\<lambda>part.
               bindR (on_store (rd (bd_lun d) (current_lba d) (bd_size_field d) part)) (\<lambda>part.
               ret (n, part @ drop n buf))))
            (\<lambda>(n, buf). bindR (advance n) (\<lambda>_. ret (n, buf)))))))"

text \<open>The \<open>io::Error\<close>s a stream makes itself; errors of the crate pass through as \<open>Fail\<close>.\<close>

datatype stream_error = WriteZero | InvalidInput

definition bd_write :: "'s reads \<Rightarrow> 's writes \<Rightarrow> bytes \<Rightarrow> ('s \<times> block_device, stream_error + nat) io" where
  "bd_write rd wr data =
     (if data = [] then ret (Inr 0)
      else bindR the_device (\<lambda>d. bindR (lift_opt (bd_remaining d)) (\<lambda>left.
        if left = 0 then ret (Inl WriteZero)
        else bindR (lift_opt (direct_blocks d (length data))) (\<lambda>blocks.
          bindR
            (if blocks = 0 then
               bindR (load_scratch rd (current_lba d)) (\<lambda>scratch.
               let off = unat (bd_pos d) mod bd_bs d;
                   n = min (min (bd_bs d - off) (length data)) left
               in bindR (lift_opt (put off (take n data) scratch)) (\<lambda>scratch.
                  bindR (mod_st (\<lambda>(s, d). (s, d\<lparr>bd_scratch := scratch\<rparr>))) (\<lambda>_.
                  bindR (on_store (wr (bd_lun d) (current_lba d) (bd_size_field d) scratch)) (\<lambda>_. ret n))))
             else
               let n = blocks * bd_bs d in
               bindR (lift_opt (slice data 0 n)) (\<lambda>part.
               bindR (on_store (wr (bd_lun d) (current_lba d) (bd_size_field d) part)) (\<lambda>_. ret n)))
            (\<lambda>n. bindR (advance n) (\<lambda>_. ret (Inr n)))))))"

definition bd_flush :: "'k sys \<Rightarrow> msc \<Rightarrow> ('k storage \<times> block_device, unit) io" where
  "bd_flush S D = bindR the_device (\<lambda>d. on_store (synchronize_cache S D (bd_lun d)))"

datatype seek_from = SeekStart u64 | SeekEnd "64 word" | SeekCurrent "64 word"

definition checked_add_signed :: "nat \<Rightarrow> 64 word \<Rightarrow> u64 option" where
  "checked_add_signed a d =
     (let v = int a + sint d in if 0 \<le> v \<and> v < 2 ^ 64 then Some (of_int v) else None)"

definition bd_seek :: "seek_from \<Rightarrow> ('s \<times> block_device, stream_error + u64) io" where
  "bd_seek target = bindR the_device (\<lambda>d. bindR (lift_opt (capacity_bytes (bd_capacity d))) (\<lambda>total.
     case (case target of
             SeekStart p \<Rightarrow> Some p
           | SeekEnd x \<Rightarrow> checked_add_signed total x
           | SeekCurrent x \<Rightarrow> checked_add_signed (unat (bd_pos d)) x) of
       Some p \<Rightarrow> bindR (mod_st (\<lambda>(s, d). (s, d\<lparr>bd_pos := p\<rparr>))) (\<lambda>_. ret (Inr p))
     | None \<Rightarrow> ret (Inl InvalidInput)))"

section \<open>The standard library's loops over a stream\<close>

text \<open>\<open>io::Write::write_all\<close> and \<open>io::Read::read_exact\<close>, which is how callers use the stream. The result of
  \<open>read_exact\<close> is \<open>None\<close> at the end of the file.\<close>

function write_all :: "'s reads \<Rightarrow> 's writes \<Rightarrow> bytes \<Rightarrow> 's \<times> block_device \<Rightarrow> (stream_error + unit) out \<times> 's \<times> block_device" where
  "write_all rd wr data st =
     (if data = [] then (Val (Inr ()), st)
      else bindR (bd_write rd wr data) (\<lambda>r st. case r of
          Inl e \<Rightarrow> (Val (Inl e), st)
        | Inr n \<Rightarrow> if n = 0 then (Val (Inl WriteZero), st) else write_all rd wr (drop n data) st) st)"
  by pat_completeness auto
termination by (relation "measure (\<lambda>(_, _, data, _). length data)") auto

declare write_all.simps [simp del]

function read_exact :: "'s reads \<Rightarrow> bytes \<Rightarrow> 's \<times> block_device \<Rightarrow> bytes option out \<times> 's \<times> block_device" where
  "read_exact rd buf st =
     (if buf = [] then (Val (Some []), st)
      else bindR (bd_read rd buf) (\<lambda>(n, b) st.
        if n = 0 then (Val None, st)
        else bindR (read_exact rd (drop n buf)) (\<lambda>rest. ret (map_option ((@) (take n b)) rest)) st) st)"
  by pat_completeness auto
termination by (relation "measure (\<lambda>(_, buf, _). length buf)") auto

declare read_exact.simps [simp del]

section \<open>A store of blocks behind the stream\<close>

text \<open>\<open>overwrite p new old\<close>: a byte array after writing at an offset.\<close>

definition overwrite :: "nat \<Rightarrow> bytes \<Rightarrow> bytes \<Rightarrow> bytes" where
  "overwrite p new old = take p old @ new @ drop (p + length new) old"

lemma length_overwrite [simp]: "p + length new \<le> length old \<Longrightarrow> length (overwrite p new old) = length old"
  by (simp add: overwrite_def)

lemma overwrite_Nil [simp]: "overwrite p [] old = old"
  by (simp add: overwrite_def)

lemma overwrite_append:
  "p + length (xs @ ys) \<le> length old \<Longrightarrow> overwrite (p + length xs) ys (overwrite p xs old) = overwrite p (xs @ ys) old"
  by (simp add: overwrite_def min_absorb2 ac_simps)

lemma read_overwritten: "p + length new \<le> length old \<Longrightarrow> take (length new) (drop p (overwrite p new old)) = new"
  by (simp add: overwrite_def min_absorb2)

text \<open>Rewriting a block with a piece of it changed is writing the piece.\<close>

lemma overwrite_inside:
  assumes "length old \<ge> a + bs" "off + length x \<le> bs"
  shows "overwrite a (take off (take bs (drop a old)) @ x @ drop (off + length x) (take bs (drop a old))) old = overwrite (a + off) x old"
proof (rule nth_equalityI)
  show "length (overwrite a (take off (take bs (drop a old)) @ x @ drop (off + length x) (take bs (drop a old))) old)
      = length (overwrite (a + off) x old)"
    using assms by (simp add: overwrite_def)
next
  fix i assume "i < length (overwrite a (take off (take bs (drop a old)) @ x @ drop (off + length x) (take bs (drop a old))) old)"
  then have i: "i < length old" using assms by (simp add: overwrite_def)
  show "overwrite a (take off (take bs (drop a old)) @ x @ drop (off + length x) (take bs (drop a old))) old ! i
      = overwrite (a + off) x old ! i"
    using assms i by (auto simp: overwrite_def nth_append min_def)
qed

lemma block_of:
  assumes "0 < bs" "(p :: nat) < count * bs"
  shows "p div bs < count" "p div bs * bs + p mod bs = p" "p div bs * bs + bs \<le> count * bs"
proof -
  show c: "p div bs < count" by (rule less_mult_imp_div_less [OF assms(2)])
  show "p div bs * bs + p mod bs = p" by (rule div_mult_mod_eq)
  have "(p div bs + 1) * bs \<le> count * bs" using c by (intro mult_le_mono1) simp
  then show "p div bs * bs + bs \<le> count * bs" by simp
qed

lemma cut_block:
  assumes "m + n \<le> bs" "q + m = (p :: nat)"
  shows "take n (drop m (take bs (drop q xs))) = take n (drop p xs)"
proof -
  have "drop m (take bs (drop q xs)) = take (bs - m) (drop p xs)"
    using assms(2) by (simp add: drop_take add.commute)
  then show ?thesis using assms(1) by (simp add: min_absorb1)
qed

locale block_store =
  fixes rd :: "'s reads" and wr :: "'s writes" and lun :: u8 and cap :: capacity
    and content :: "'s \<Rightarrow> bytes" and ready :: "'s \<Rightarrow> bool"
  assumes geometry: "ready s \<Longrightarrow> length (content s) = unat (cap_block_count cap) * unat (cap_block_size cap)
      \<and> 0 < unat (cap_block_size cap) \<and> length (content s) < 2 ^ 64"
    and rd_law: "ready s \<Longrightarrow> length buf = n * unat (cap_block_size cap) \<Longrightarrow> 0 < n \<Longrightarrow> unat lba + n \<le> unat (cap_block_count cap) \<Longrightarrow>
      \<exists>s'. rd lun lba (cap_block_size cap) buf s
          = (Val (take (length buf) (drop (unat lba * unat (cap_block_size cap)) (content s))), s')
        \<and> ready s' \<and> content s' = content s"
    and wr_law: "ready s \<Longrightarrow> length data = n * unat (cap_block_size cap) \<Longrightarrow> 0 < n \<Longrightarrow> unat lba + n \<le> unat (cap_block_count cap) \<Longrightarrow>
      \<exists>s'. wr lun lba (cap_block_size cap) data s = (Val (), s')
        \<and> ready s' \<and> content s' = overwrite (unat lba * unat (cap_block_size cap)) data (content s)"
begin

lemma remaining_eq:
  assumes "ready s" "bd_capacity d = cap"
  shows "bd_remaining d = Some (length (content s) - unat (bd_pos d))"
  using geometry [OF assms(1)] assms(2) by (simp add: bd_remaining_def capacity_bytes_def Let_def)

lemma lba_eq:
  assumes "ready s" "bd_capacity d = cap" "unat (bd_pos d) < length (content s)"
  shows "unat (current_lba d) = unat (bd_pos d) div unat (cap_block_size cap)"
proof -
  have "unat (bd_pos d) div unat (cap_block_size cap) < 2 ^ 64"
    using unsigned_less [where 'a = nat, of "bd_pos d"] by (intro le_less_trans [OF div_le_dividend]) simp
  then show ?thesis using assms(2) by (simp add: current_lba_def bd_bs_def unsigned_of_nat take_bit_eq_mod)
qed

lemma advance_eq:
  assumes "unat (bd_pos d) + n < 2 ^ 64"
  shows "advance n (s, d) = (Val (), s, d\<lparr>bd_pos := bd_pos d + of_nat n\<rparr>)" "unat (bd_pos d + of_nat n) = unat (bd_pos d) + n"
proof -
  show "advance n (s, d) = (Val (), s, d\<lparr>bd_pos := bd_pos d + of_nat n\<rparr>)"
    using assms by (simp add: advance_def bindR_def)
  show "unat (bd_pos d + of_nat n) = unat (bd_pos d) + n"
    using assms by (simp add: unat_word_ariths unsigned_of_nat take_bit_eq_mod mod_simps)
qed

lemma load_scratch_eq:
  assumes r: "ready s" and d: "bd_lun d = lun" "bd_capacity d = cap" and p: "unat (bd_pos d) < length (content s)"
  shows "\<exists>s' d'. load_scratch rd (current_lba d) (s, d) =
      (Val (take (bd_bs d) (drop (unat (bd_pos d) div bd_bs d * bd_bs d) (content s))), s', d')
    \<and> ready s' \<and> content s' = content s \<and> bd_lun d' = lun \<and> bd_capacity d' = cap \<and> bd_pos d' = bd_pos d"
proof -
  note g = geometry [OF r]
  let ?scratch = "resize (bd_bs d) (bd_scratch d)"
  have l: "length ?scratch = 1 * unat (cap_block_size cap)" using d by (simp add: bd_bs_def)
  have "unat (current_lba d) + 1 \<le> unat (cap_block_count cap)"
    using lba_eq [OF r d(2) p] block_of(1) [of "unat (cap_block_size cap)" "unat (bd_pos d)" "unat (cap_block_count cap)"] g p by auto
  from rd_law [OF r l _ this] obtain s' where
    "rd lun (current_lba d) (cap_block_size cap) ?scratch s
      = (Val (take (bd_bs d) (drop (unat (bd_pos d) div bd_bs d * bd_bs d) (content s))), s')"
    "ready s'" "content s' = content s"
    using lba_eq [OF r d(2) p] d by (auto simp: bd_bs_def)
  then show ?thesis using d by (simp add: load_scratch_def bindR_def zoom_def)
qed

lemma read_end:
  assumes "ready s" "bd_capacity d = cap" "buf = [] \<or> length (content s) \<le> unat (bd_pos d)"
  shows "bd_read rd buf (s, d) = (Val (0, buf), s, d)"
  using assms remaining_eq [OF assms(1,2)] by (auto simp: bd_read_def bindR_def)

text \<open>A read inside the unit moves at least a byte, and what it moves is what the store holds there.\<close>

lemma read_step:
  assumes r: "ready s" and d: "bd_lun d = lun" "bd_capacity d = cap" and p: "unat (bd_pos d) < length (content s)" and b: "buf \<noteq> []"
  obtains n s' d' where
    "bd_read rd buf (s, d) = (Val (n, take n (drop (unat (bd_pos d)) (content s)) @ drop n buf), s', d')"
    "0 < n" "n \<le> length buf" "unat (bd_pos d) + n \<le> length (content s)" "unat (bd_pos d') = unat (bd_pos d) + n"
    "ready s'" "content s' = content s" "bd_lun d' = lun" "bd_capacity d' = cap"
proof -
  let ?p = "unat (bd_pos d)" and ?C = "length (content s)"
  define bs where "bs = bd_bs d"
  have bs: "bs = unat (cap_block_size cap)" "bd_bs d = bs" using d by (simp_all add: bs_def bd_bs_def)
  have g: "?C = unat (cap_block_count cap) * bs" "0 < bs" "?C < 2 ^ 64" using geometry [OF r] bs by simp_all
  note k = block_of [OF g(2), of ?p "unat (cap_block_count cap)"]
  note rem = remaining_eq [OF r d(2)]
  obtain blocks where blocks: "direct_blocks d (length buf) = Some blocks" using rem by (cases "?p mod bd_bs d = 0") (simp_all add: direct_blocks_def)
  show thesis
  proof (cases "blocks = 0")
    case True
    define n where "n = min (min (bs - ?p mod bs) (length buf)) (?C - ?p)"
    obtain s' d' where ls: "load_scratch rd (current_lba d) (s, d) = (Val (take bs (drop (?p div bs * bs) (content s))), s', d')"
      "ready s'" "content s' = content s" "bd_lun d' = lun" "bd_capacity d' = cap" "bd_pos d' = bd_pos d"
      using load_scratch_eq [OF r d p] bs by auto
    have m: "?p mod bs < bs" using g(2) by simp
    have n: "0 < n" "n \<le> length buf" "?p + n \<le> ?C" "?p mod bs + n \<le> bs" using m p b by (auto simp: n_def)
    have w: "?p div bs * bs + bs \<le> ?C" using k p g(1) by simp
    have cut: "take n (drop (?p mod bs) (take bs (drop (?p div bs * bs) (content s)))) = take n (drop ?p (content s))"
      by (rule cut_block) (use n(4) k(2) p g(1) in simp_all)
    have adv: "unat (bd_pos d') + n < 2 ^ 64" using n g ls by simp
    have sl: "slice (take bs (drop (?p div bs * bs) (content s))) (?p mod bs) (?p mod bs + n) = Some (take n (drop ?p (content s)))"
      using n w cut by simp
    have pt: "put 0 (take n (drop ?p (content s))) buf = Some (take n (drop ?p (content s)) @ drop n buf)"
      using n by (simp add: min_absorb2)
    have run: "bd_read rd buf (s, d) =
        bindR (advance n) (\<lambda>_. ret (n, take n (drop ?p (content s)) @ drop n buf)) (s', d')"
      using b rem blocks True p ls(1) sl pt
      by (simp only: bd_read_def bindR_def if_False if_True Let_def bs(2)) (simp add: bindR_def bs(2) n_def [symmetric])
    show thesis
      by (rule that [of n s' "d'\<lparr>bd_pos := bd_pos d' + of_nat n\<rparr>"])
        (use run n ls advance_eq(1) [OF adv, of s'] advance_eq(2) [OF adv] in \<open>simp_all add: bindR_def\<close>)
  next
    case False
    define n where "n = blocks * bs"
    have al: "?p mod bs = 0" and bl: "blocks = min (length buf) (?C - ?p) div bs"
      using blocks False rem bs by (auto simp: direct_blocks_def split: if_splits)
    have "n \<le> min (length buf) (?C - ?p)" by (simp only: n_def bl div_times_less_eq_dividend)
    then have n: "0 < n" "n \<le> length buf" "?p + n \<le> ?C" using False g(2) p by (auto simp: n_def)
    have at: "?p div bs * bs = ?p" using al k(2) p g(1) by simp
    have "(?p div bs + blocks) * bs \<le> unat (cap_block_count cap) * bs"
      using n(3) at g(1) by (simp add: n_def distrib_right)
    then have fit: "unat (current_lba d) + blocks \<le> unat (cap_block_count cap)"
      using g(2) lba_eq [OF r d(2) p] bs by simp
    from rd_law [OF r, of "take n buf" blocks, OF _ _ fit] obtain s' where
      rd: "rd lun (current_lba d) (cap_block_size cap) (take n buf) s = (Val (take n (drop ?p (content s))), s')"
        "ready s'" "content s' = content s"
      using n False bs lba_eq [OF r d(2) p] at by (auto simp: n_def min_absorb2)
    have adv: "unat (bd_pos d) + n < 2 ^ 64" using n g by simp
    show thesis
      by (rule that [of n s' "d\<lparr>bd_pos := bd_pos d + of_nat n\<rparr>"])
        (use b rem blocks False p d rd n bs(2) advance_eq(1) [OF adv, of s'] advance_eq(2) [OF adv] in
          \<open>simp_all add: bd_read_def bindR_def Let_def zoom_def n_def [symmetric]\<close>)
  qed
qed

lemma write_end:
  assumes "ready s" "bd_capacity d = cap"
  shows "data = [] \<Longrightarrow> bd_write rd wr data (s, d) = (Val (Inr 0), s, d)"
    "data \<noteq> [] \<Longrightarrow> length (content s) \<le> unat (bd_pos d) \<Longrightarrow> bd_write rd wr data (s, d) = (Val (Inl WriteZero), s, d)"
  using remaining_eq [OF assms] by (auto simp: bd_write_def bindR_def)

text \<open>A write inside the unit moves at least a byte, and changes exactly the bytes it moved, whether it
  went to the store directly or through the block it is part of.\<close>

lemma write_step:
  assumes r: "ready s" and d: "bd_lun d = lun" "bd_capacity d = cap" and p: "unat (bd_pos d) < length (content s)" and b: "data \<noteq> []"
  obtains n s' d' where "bd_write rd wr data (s, d) = (Val (Inr n), s', d')"
    "0 < n" "n \<le> length data" "unat (bd_pos d) + n \<le> length (content s)" "unat (bd_pos d') = unat (bd_pos d) + n"
    "ready s'" "content s' = overwrite (unat (bd_pos d)) (take n data) (content s)" "bd_lun d' = lun" "bd_capacity d' = cap"
proof -
  let ?p = "unat (bd_pos d)" and ?C = "length (content s)"
  define bs where "bs = bd_bs d"
  have bs: "bs = unat (cap_block_size cap)" "bd_bs d = bs" using d by (simp_all add: bs_def bd_bs_def)
  have g: "?C = unat (cap_block_count cap) * bs" "0 < bs" "?C < 2 ^ 64" using geometry [OF r] bs by simp_all
  note k = block_of [OF g(2), of ?p "unat (cap_block_count cap)"]
  note rem = remaining_eq [OF r d(2)]
  obtain blocks where blocks: "direct_blocks d (length data) = Some blocks"
    using rem by (cases "?p mod bd_bs d = 0") (simp_all add: direct_blocks_def)
  show thesis
  proof (cases "blocks = 0")
    case True
    let ?off = "?p mod bs"
    define old where "old = take bs (drop (?p div bs * bs) (content s))"
    define n where "n = min (min (bs - ?off) (length data)) (?C - ?p)"
    obtain s' d' where ls: "load_scratch rd (current_lba d) (s, d) = (Val old, s', d')"
      "ready s'" "content s' = content s" "bd_lun d' = lun" "bd_capacity d' = cap" "bd_pos d' = bd_pos d"
      using load_scratch_eq [OF r d p] bs(2) unfolding old_def by auto
    have m: "?off < bs" using g(2) by simp
    have n: "0 < n" "n \<le> length data" "?p + n \<le> ?C" "?off + n \<le> bs" using m p b by (auto simp: n_def)
    have w: "?p div bs * bs + bs \<le> ?C" using k p g(1) by simp
    then have lo: "length old = bs" by (simp add: old_def)
    define new where "new = take ?off old @ take n data @ drop (?off + n) old"
    have pu: "put ?off (take n data) old = Some new" using n lo by (simp add: new_def min_absorb2)
    have ln: "length new = 1 * unat (cap_block_size cap)" using n lo bs(1) by (simp add: new_def min_absorb2)
    have lba: "unat (current_lba d) = ?p div bs" using lba_eq [OF r d(2) p] bs by simp
    have "?p div bs < unat (cap_block_count cap)" using k(1) p g(1) by simp
    then have "unat (current_lba d) + 1 \<le> unat (cap_block_count cap)" using lba by simp
    from wr_law [OF ls(2) ln _ this] obtain s2 where
      wr: "wr lun (current_lba d) (cap_block_size cap) new s' = (Val (), s2)" "ready s2"
        "content s2 = overwrite (?p div bs * bs) new (content s)"
      using ls(3) lba bs by auto
    have in_block: "overwrite (?p div bs * bs) new (content s) = overwrite ?p (take n data) (content s)"
      using overwrite_inside [OF w, of ?off "take n data"] n k(2) p g(1) by (simp add: new_def old_def min_absorb2)
    have adv: "unat (bd_pos (d'\<lparr>bd_scratch := new\<rparr>)) + n < 2 ^ 64" using n g ls by simp
    have run: "bd_write rd wr data (s, d) =
        bindR (advance n) (\<lambda>_. ret (Inr n)) (s2, d'\<lparr>bd_scratch := new\<rparr>)"
      using b rem blocks True p ls pu wr(1) bs(2) d
      by (simp only: bd_write_def bindR_def if_False if_True Let_def bs(2)) (simp add: zoom_def bindR_def bs(2) n_def [symmetric])
    show thesis
      by (rule that [of n s2 "d'\<lparr>bd_scratch := new, bd_pos := bd_pos d' + of_nat n\<rparr>"])
        (use run n ls wr in_block advance_eq(1) [OF adv, of s2] advance_eq(2) [OF adv] in \<open>simp_all add: bindR_def\<close>)
  next
    case False
    define n where "n = blocks * bs"
    have al: "?p mod bs = 0" and bl: "blocks = min (length data) (?C - ?p) div bs"
      using blocks False rem bs by (auto simp: direct_blocks_def split: if_splits)
    have "n \<le> min (length data) (?C - ?p)" by (simp only: n_def bl div_times_less_eq_dividend)
    then have n: "0 < n" "n \<le> length data" "?p + n \<le> ?C" using False g(2) p by (auto simp: n_def)
    have at: "?p div bs * bs = ?p" using al k(2) p g(1) by simp
    have "(?p div bs + blocks) * bs \<le> unat (cap_block_count cap) * bs"
      using n(3) at g(1) by (simp add: n_def distrib_right)
    then have fit: "unat (current_lba d) + blocks \<le> unat (cap_block_count cap)"
      using g(2) lba_eq [OF r d(2) p] bs by simp
    from wr_law [OF r, of "take n data" blocks, OF _ _ fit] obtain s' where
      wr: "wr lun (current_lba d) (cap_block_size cap) (take n data) s = (Val (), s')"
        "ready s'" "content s' = overwrite ?p (take n data) (content s)"
      using n False bs lba_eq [OF r d(2) p] at by (auto simp: n_def min_absorb2)
    have adv: "unat (bd_pos d) + n < 2 ^ 64" using n g by simp
    show thesis
      by (rule that [of n s' "d\<lparr>bd_pos := bd_pos d + of_nat n\<rparr>"])
        (use b rem blocks False p d wr n bs(2) advance_eq(1) [OF adv, of s'] advance_eq(2) [OF adv] in
          \<open>simp_all add: bd_write_def bindR_def Let_def zoom_def n_def [symmetric]\<close>)
  qed
qed

text \<open>The stream over many calls: everything up to the end of the unit is written, and what is read back
  is what the array holds.\<close>

lemma write_all_spec:
  "ready s \<Longrightarrow> bd_lun d = lun \<Longrightarrow> bd_capacity d = cap \<Longrightarrow> unat (bd_pos d) + length data \<le> length (content s) \<Longrightarrow>
   \<exists>s' d'. write_all rd wr data (s, d) = (Val (Inr ()), s', d') \<and> ready s'
     \<and> content s' = overwrite (unat (bd_pos d)) data (content s)
     \<and> bd_lun d' = lun \<and> bd_capacity d' = cap \<and> unat (bd_pos d') = unat (bd_pos d) + length data"
proof (induction "length data" arbitrary: data s d rule: less_induct)
  case less
  show ?case
  proof (cases "data = []")
    case True
    then show ?thesis using less.prems by (simp add: write_all.simps)
  next
    case False
    then have p: "unat (bd_pos d) < length (content s)" using less.prems(4) by (cases data) simp_all
    obtain n s1 d1 where w: "bd_write rd wr data (s, d) = (Val (Inr n), s1, d1)"
      "0 < n" "n \<le> length data" "unat (bd_pos d1) = unat (bd_pos d) + n"
      "ready s1" "content s1 = overwrite (unat (bd_pos d)) (take n data) (content s)" "bd_lun d1 = lun" "bd_capacity d1 = cap"
      using write_step [OF less.prems(1-3) p False] by metis
    have fit: "unat (bd_pos d) + length (take n data) \<le> length (content s)" using less.prems(4) w(3) by simp
    obtain s2 d2 where r: "write_all rd wr (drop n data) (s1, d1) = (Val (Inr ()), s2, d2)" "ready s2"
      "content s2 = overwrite (unat (bd_pos d1)) (drop n data) (content s1)" "bd_lun d2 = lun" "bd_capacity d2 = cap"
      "unat (bd_pos d2) = unat (bd_pos d1) + length (drop n data)"
      using less.hyps [of "drop n data" s1 d1] w less.prems(4) fit False by auto
    have "content s2 = overwrite (unat (bd_pos d)) data (content s)"
      using r(3) w(3,4,6) overwrite_append [of "unat (bd_pos d)" "take n data" "drop n data" "content s"] less.prems(4)
      by (simp add: min_absorb2)
    moreover have "write_all rd wr data (s, d) = (Val (Inr ()), s2, d2)"
      using False w(1,2) r(1) by (simp add: write_all.simps [of rd wr data] bindR_def)
    ultimately show ?thesis using r w by simp
  qed
qed

lemma read_exact_spec:
  "ready s \<Longrightarrow> bd_lun d = lun \<Longrightarrow> bd_capacity d = cap \<Longrightarrow> unat (bd_pos d) + length buf \<le> length (content s) \<Longrightarrow>
   \<exists>s' d'. read_exact rd buf (s, d) = (Val (Some (take (length buf) (drop (unat (bd_pos d)) (content s)))), s', d') \<and> ready s'
     \<and> content s' = content s \<and> bd_lun d' = lun \<and> bd_capacity d' = cap \<and> unat (bd_pos d') = unat (bd_pos d) + length buf"
proof (induction "length buf" arbitrary: buf s d rule: less_induct)
  case less
  show ?case
  proof (cases "buf = []")
    case True
    then show ?thesis using less.prems by (simp add: read_exact.simps)
  next
    case False
    then have p: "unat (bd_pos d) < length (content s)" using less.prems(4) by (cases buf) simp_all
    obtain n s1 d1 where w: "bd_read rd buf (s, d) = (Val (n, take n (drop (unat (bd_pos d)) (content s)) @ drop n buf), s1, d1)"
      "0 < n" "n \<le> length buf" "unat (bd_pos d1) = unat (bd_pos d) + n"
      "ready s1" "content s1 = content s" "bd_lun d1 = lun" "bd_capacity d1 = cap"
      using read_step [OF less.prems(1-3) p False] by metis
    obtain s2 d2 where r: "read_exact rd (drop n buf) (s1, d1) =
        (Val (Some (take (length (drop n buf)) (drop (unat (bd_pos d1)) (content s1)))), s2, d2)" "ready s2"
      "content s2 = content s1" "bd_lun d2 = lun" "bd_capacity d2 = cap" "unat (bd_pos d2) = unat (bd_pos d1) + length (drop n buf)"
      using less.hyps [of "drop n buf" s1 d1] w less.prems(4) False by auto
    let ?tail = "drop (unat (bd_pos d)) (content s)"
    have "take n ?tail @ take (length buf - n) (drop n ?tail) = take (length buf) ?tail"
      using w(3) by (metis le_add_diff_inverse take_add)
    moreover have "drop (unat (bd_pos d1)) (content s1) = drop n ?tail" using w(4,6) by (simp add: add.commute)
    moreover have "length (take n ?tail) = n" using w(3) less.prems(4) by simp
    ultimately have "read_exact rd buf (s, d) = (Val (Some (take (length buf) ?tail)), s2, d2)"
      using False w(1,2) r(1) by (simp add: read_exact.simps [of rd buf] bindR_def)
    then show ?thesis using r w by simp
  qed
qed

text \<open>Writing, going back and reading gives what was written.\<close>

lemma stream_roundtrip:
  assumes r: "ready s" and d: "bd_lun d = lun" "bd_capacity d = cap" and fit: "unat (bd_pos d) + length data \<le> length (content s)"
  shows "\<exists>st. bindR (write_all rd wr data) (\<lambda>_. bindR (bd_seek (SeekStart (bd_pos d)))
       (\<lambda>_. read_exact rd (replicate (length data) 0))) (s, d) = (Val (Some data), st)"
proof -
  obtain s1 d1 where w: "write_all rd wr data (s, d) = (Val (Inr ()), s1, d1)" "ready s1"
     "content s1 = overwrite (unat (bd_pos d)) data (content s)" "bd_lun d1 = lun" "bd_capacity d1 = cap"
    using write_all_spec [OF r d fit] by blast
  have "capacity_bytes (bd_capacity d1) = Some (length (content s1))"
    using geometry [OF w(2)] w(5) by (simp add: capacity_bytes_def Let_def)
  then have sk: "bd_seek (SeekStart (bd_pos d)) (s1, d1) = (Val (Inr (bd_pos d)), s1, d1\<lparr>bd_pos := bd_pos d\<rparr>)"
    by (simp add: bd_seek_def bindR_def)
  have "unat (bd_pos (d1\<lparr>bd_pos := bd_pos d\<rparr>)) + length (replicate (length data) (0 :: u8)) \<le> length (content s1)"
    using w(3) fit by simp
  from read_exact_spec [OF w(2) _ _ this] w(4,5) obtain s2 d2 where
    "read_exact rd (replicate (length data) 0) (s1, d1\<lparr>bd_pos := bd_pos d\<rparr>) =
       (Val (Some (take (length data) (drop (unat (bd_pos d)) (content s1)))), s2, d2)" by auto
  then show ?thesis
    using w(1,3) sk read_overwritten [OF fit] by (simp add: bindR_def)
qed

end

end
