(* ===== verification/Msc_Target.thy ===== *)
theory Msc_Target
  imports Msc_Block
begin

text \<open>
  The other end of the wire: a disk that speaks the bulk-only transport, as a platform backend
  (\<open>disk_sys\<close>). It accepts a command only when it waits for one, stalls a data phase it refuses, keeps
  \<open>dk_attention\<close> pending UNIT ATTENTION conditions to report first, and serves READ, WRITE, READ
  CAPACITY and TEST UNIT READY from its bytes. The driver's \<open>msc_read_blocks\<close> and \<open>msc_write_blocks\<close>
  over this disk are a \<open>block_store\<close>, so a \<open>BlockDevice\<close> on it is a byte array with a cursor. The disk
  is the environment of these lemmas, not code of the crate.
\<close>

section \<open>The disk\<close>

datatype disk_phase =
    AwaitCommand
  | SendData bytes nat u32          \<comment> \<open>what to send, how much was asked for, tag\<close>
  | TakeData nat nat u32            \<comment> \<open>byte offset, how much will come, tag\<close>
  | StallData nat u32
  | SendStatus u32 nat u8

record disk =
  dk_bytes :: bytes
  dk_block :: u32
  dk_attention :: nat
  dk_phase :: disk_phase

definition dk_count :: "disk \<Rightarrow> nat" where
  "dk_count k = length (dk_bytes k) div unat (dk_block k)"

definition attention_sense :: bytes where
  "attention_sense = [0x70, 0, 6, 0, 0, 0, 0, 10, 0, 0, 0, 0, 0x29, 0, 0, 0, 0, 0]"

definition refuse :: "disk \<Rightarrow> nat \<Rightarrow> u32 \<Rightarrow> disk" where
  "refuse k len tag = k\<lparr>dk_phase := if len = 0 then SendStatus tag 0 1 else StallData len tag\<rparr>"

definition disk_command :: "disk \<Rightarrow> u32 \<Rightarrow> nat \<Rightarrow> bool \<Rightarrow> bytes \<Rightarrow> disk" where
  "disk_command k tag len inward cdb =
     (if cdb ! 0 = 0x03 then
        k\<lparr>dk_phase := SendData (take len attention_sense) len tag, dk_attention := dk_attention k - 1\<rparr>
      else if 0 < dk_attention k then refuse k len tag
      else if cdb ! 0 = 0x00 \<and> len = 0 then k\<lparr>dk_phase := SendStatus tag 0 0\<rparr>
      else if cdb ! 0 = 0x25 \<and> inward then
        k\<lparr>dk_phase := SendData (take len (be_bytes32 (if dk_count k > 2 ^ 32 - 1 then -1 else of_nat (dk_count k - 1))
            @ be_bytes32 (dk_block k))) len tag\<rparr>
      else if cdb ! 0 = 0x9E \<and> inward then
        k\<lparr>dk_phase := SendData (take len (be_bytes64 (of_nat (dk_count k - 1)) @ be_bytes32 (dk_block k) @ replicate 20 0)) len tag\<rparr>
      else (case decode_rw cdb of
          Some (write, lba, n) \<Rightarrow>
            if write \<noteq> inward \<and> len = n * unat (dk_block k) \<and> lba + n \<le> dk_count k then
              if inward then k\<lparr>dk_phase := SendData (take len (drop (lba * unat (dk_block k)) (dk_bytes k))) len tag\<rparr>
              else k\<lparr>dk_phase := TakeData (lba * unat (dk_block k)) len tag\<rparr>
            else refuse k len tag
        | None \<Rightarrow> refuse k len tag))"

definition disk_transfer :: "transfer_type \<Rightarrow> u8 \<Rightarrow> bytes \<Rightarrow> nat \<Rightarrow> disk \<Rightarrow> (transfer_status \<times> nat \<times> bytes) result \<times> disk" where
  "disk_transfer kind ep buf timeout k =
     (let stall = (Inr (Stall, 0, buf), k) in
      if kind \<noteq> Bulk then (Err NotSupported, k)
      else if ep = 0x02 then (case dk_phase k of
          AwaitCommand \<Rightarrow>
            if length buf = 31 \<and> le32_at buf 0 = 0x43425355 then
              (Inr (Completed, 31, buf),
               disk_command k (le32_at buf 4) (unat (le32_at buf 8)) (buf ! 12 = 0x80) (take (unat (buf ! 14)) (drop 15 buf)))
            else stall
        | TakeData at len tag \<Rightarrow>
            if length buf = len then
              (Inr (Completed, len, buf), k\<lparr>dk_bytes := overwrite at buf (dk_bytes k), dk_phase := SendStatus tag 0 0\<rparr>)
            else stall
        | _ \<Rightarrow> stall)
      else if ep = 0x81 then (case dk_phase k of
          SendData d len tag \<Rightarrow>
            if length d \<le> length buf then
              (Inr (Completed, length d, d @ drop (length d) buf), k\<lparr>dk_phase := SendStatus tag (len - length d) 0\<rparr>)
            else stall
        | SendStatus tag residue status \<Rightarrow>
            if length buf = 13 then (Inr (Completed, 13, csw tag (of_nat residue) status), k\<lparr>dk_phase := AwaitCommand\<rparr>)
            else stall
        | _ \<Rightarrow> stall)
      else stall)"

definition disk_clear :: "u8 \<Rightarrow> disk \<Rightarrow> unit result \<times> disk" where
  "disk_clear ep k = (Ok (), case dk_phase k of
      StallData len tag \<Rightarrow> k\<lparr>dk_phase := SendStatus tag len 1\<rparr>
    | _ \<Rightarrow> k)"

definition disk_sys :: "disk sys" where
  "disk_sys = \<lparr>sys_active_config = Pair (Ok (Some 1)), sys_set_config = (\<lambda>_. Pair (Ok ())),
     sys_claim = (\<lambda>_. Pair (Ok ())), sys_release = (\<lambda>_. Pair (Ok ())), sys_set_alt = (\<lambda>_ _. Pair (Ok ())),
     sys_clear_halt = disk_clear, sys_reset = Pair (Ok ()), sys_driver_active = (\<lambda>_. Pair (Ok False)),
     sys_detach = (\<lambda>_. Pair (Ok ())), sys_attach = (\<lambda>_. Pair (Ok ())), sys_transfer = disk_transfer,
     sys_cancel_all = id, sys_close = id\<rparr>"

definition disk_msc :: msc where
  "disk_msc = \<lparr>mc_claim = \<lparr>hc_leased = [0], hc_owned = [0]\<rparr>, mc_interface = 0, mc_ep_in = 0x81,
     mc_ep_out = 0x02, mc_max_lun = 0\<rparr>"

lemma disk_sys_simps [simp]:
  "sys_transfer disk_sys = disk_transfer" "sys_clear_halt disk_sys = disk_clear"
  by (simp_all add: disk_sys_def)

lemma disk_msc_simps [simp]:
  "mc_ep_in disk_msc = 0x81" "mc_ep_out disk_msc = 0x02" "mc_max_lun disk_msc = 0" "pipes_ok disk_msc"
  by (simp_all add: disk_msc_def pipes_ok_def)

lemma disk_sys_ok: "sys_ok disk_sys"
  unfolding sys_ok_def
proof (intro allI impI)
  fix kind :: transfer_type and ep :: u8 and buf buf' :: bytes and tmo n :: nat and k k' :: disk and st :: transfer_status
  assume "sys_transfer disk_sys kind ep buf tmo k = (Inr (st, n, buf'), k')"
  then show "length buf' = length buf \<and> n + (if kind = Control then 8 else 0) \<le> length buf"
    by (auto simp: disk_transfer_def Let_def split: if_splits disk_phase.splits)
qed

section \<open>One command on the disk\<close>

lemma cbw_fields:
  assumes "length cdb \<le> 16"
  shows "length (cbw tag len inward lun cdb) = 31" "le32_at (cbw tag len inward lun cdb) 0 = 0x43425355"
    "le32_at (cbw tag len inward lun cdb) 4 = tag" "le32_at (cbw tag len inward lun cdb) 8 = len"
    "cbw tag len inward lun cdb ! 12 = 0x80 \<longleftrightarrow> inward"
    "take (unat (cbw tag len inward lun cdb ! 14)) (drop 15 (cbw tag len inward lun cdb)) = cdb"
proof -
  let ?tail = "[if inward then 0x80 else 0, lun, of_nat (length cdb)] @ cdb @ replicate (16 - length cdb) 0"
  have c: "cbw tag len inward lun cdb = le_bytes32 0x43425355 @ le_bytes32 tag @ le_bytes32 len @ ?tail"
    by (simp add: cbw_def)
  show "le32_at (cbw tag len inward lun cdb) 0 = 0x43425355" "le32_at (cbw tag len inward lun cdb) 4 = tag"
    "le32_at (cbw tag len inward lun cdb) 8 = len"
    by (simp_all only: c le32_at_words)
  show "length (cbw tag len inward lun cdb) = 31" using assms by (simp add: c le_bytes32_def)
  show "cbw tag len inward lun cdb ! 12 = 0x80 \<longleftrightarrow> inward" by (simp add: c le_bytes32_def)
  have "unat (of_nat (length cdb) :: u8) = length cdb"
    using assms by (simp only: unsigned_of_nat) (simp add: take_bit_eq_mod)
  then show "take (unat (cbw tag len inward lun cdb ! 14)) (drop 15 (cbw tag len inward lun cdb)) = cdb"
    by (simp add: c le_bytes32_def)
qed

abbreviation step_tag :: "'k storage \<Rightarrow> 'k storage" where
  "step_tag s \<equiv> s\<lparr>ms_tag := ms_tag s + 1\<rparr>"

lemma disk_takes_command:
  assumes "dk_phase k = AwaitCommand" "length cdb \<le> 16" "len < 2 ^ 32"
  shows "disk_transfer Bulk 0x02 (cbw tag (of_nat len) inward lun cdb) t k =
    (Inr (Completed, 31, cbw tag (of_nat len) inward lun cdb), disk_command k tag len inward cdb)"
proof -
  have "unat (of_nat len :: u32) = len" using assms(3) by (simp only: unsigned_of_nat) (simp add: take_bit_eq_mod)
  then show ?thesis using assms(1) cbw_fields [OF assms(2), of tag "of_nat len" inward lun]
    by (simp add: disk_transfer_def Let_def)
qed

lemma disk_sends_status:
  "dk_phase k = SendStatus tag residue status \<Longrightarrow>
   disk_transfer Bulk 0x81 (replicate 13 0) t k = (Inr (Completed, 13, csw tag (of_nat residue) status), k\<lparr>dk_phase := AwaitCommand\<rparr>)"
  by (simp add: disk_transfer_def Let_def)

lemma disk_in:
  assumes k: "dk_phase (world s) = AwaitCommand" and c: "cdb \<noteq> []" "length cdb \<le> 16" "length buf < 2 ^ 32"
    and ph: "dk_phase (disk_command (world s) (ms_tag s) (length buf) True cdb) = SendData d (length buf) (ms_tag s)" "length d \<le> length buf"
  shows "transport disk_sys disk_msc 0 cdb (DataIn buf) s =
    (Val (\<lparr>cr_passed = True, cr_transferred = length d, cr_residue = of_nat (length buf - length d)\<rparr>, d @ drop (length d) buf),
     at_world (step_tag s) ((disk_command (world s) (ms_tag s) (length buf) True cdb)\<lparr>dk_phase := AwaitCommand\<rparr>))"
proof -
  let ?k = "disk_command (world s) (ms_tag s) (length buf) True cdb"
  let ?k2 = "?k\<lparr>dk_phase := SendStatus (ms_tag s) (length buf - length d) 0\<rparr>"
  have r: "disk_transfer Bulk 0x81 (replicate (length buf) 0) t ?k =
      (Inr (Completed, length d, d @ drop (length d) (replicate (length buf) 0)), ?k2)" for t
    using ph by (simp add: disk_transfer_def Let_def)
  have ds: "data_stage disk_sys disk_msc (ms_timeout s) (DataIn buf) (at_world (step_tag s) ?k) =
      (Val (length d, d @ drop (length d) buf), at_world (step_tag s) ?k2)"
    using bulk_in_run [of disk_msc disk_sys buf "ms_timeout s" "at_world (step_tag s) ?k" "length d"
        "d @ drop (length d) (replicate (length buf) 0)" ?k2] r ph(2)
    by (simp add: data_stage_def)
  show ?thesis
    using transport_run [of disk_msc cdb 0 "DataIn buf" disk_sys s _ _ ?k _ _ ?k2 0 _ "?k2\<lparr>dk_phase := AwaitCommand\<rparr>"]
      disk_takes_command [OF k c(2,3), of "ms_tag s" True 0 "ms_timeout s"] ds disk_sends_status [of ?k2 "ms_tag s"] c
    by simp
qed

lemma disk_out:
  assumes k: "dk_phase (world s) = AwaitCommand" and c: "cdb \<noteq> []" "length cdb \<le> 16" "length buf < 2 ^ 32"
    and ph: "dk_phase (disk_command (world s) (ms_tag s) (length buf) False cdb) = TakeData at (length buf) (ms_tag s)"
  shows "transport disk_sys disk_msc 0 cdb (DataOut buf) s =
    (Val (\<lparr>cr_passed = True, cr_transferred = length buf, cr_residue = 0\<rparr>, []),
     at_world (step_tag s) (let k = disk_command (world s) (ms_tag s) (length buf) False cdb
       in k\<lparr>dk_bytes := overwrite at buf (dk_bytes k), dk_phase := AwaitCommand\<rparr>))"
proof -
  let ?k = "disk_command (world s) (ms_tag s) (length buf) False cdb"
  let ?k2 = "?k\<lparr>dk_bytes := overwrite at buf (dk_bytes ?k), dk_phase := SendStatus (ms_tag s) 0 0\<rparr>"
  have r: "disk_transfer Bulk 0x02 buf t ?k = (Inr (Completed, length buf, buf), ?k2)" for t
    using ph by (simp add: disk_transfer_def Let_def)
  have ds: "data_stage disk_sys disk_msc (ms_timeout s) (DataOut buf) (at_world (step_tag s) ?k) =
      (Val (length buf, []), at_world (step_tag s) ?k2)"
    using bulk_out_run [of disk_msc disk_sys buf "ms_timeout s" "at_world (step_tag s) ?k" "length buf" buf ?k2] r
    by (simp add: data_stage_def bindR_def)
  show ?thesis
    using transport_run [of disk_msc cdb 0 "DataOut buf" disk_sys s _ _ ?k _ _ ?k2 0 _ "?k2\<lparr>dk_phase := AwaitCommand\<rparr>"]
      disk_takes_command [OF k c(2,3), of "ms_tag s" False 0 "ms_timeout s"] ds disk_sends_status [of ?k2 "ms_tag s"] c
    by (simp add: Let_def)
qed

lemma disk_none:
  assumes k: "dk_phase (world s) = AwaitCommand" and c: "cdb \<noteq> []" "length cdb \<le> 16"
    and ph: "dk_phase (disk_command (world s) (ms_tag s) 0 False cdb) = SendStatus (ms_tag s) 0 status" "status \<le> 1"
  shows "transport disk_sys disk_msc 0 cdb NoData s =
    (Val (\<lparr>cr_passed = (status = 0), cr_transferred = 0, cr_residue = 0\<rparr>, []),
     at_world (step_tag s) ((disk_command (world s) (ms_tag s) 0 False cdb)\<lparr>dk_phase := AwaitCommand\<rparr>))"
proof -
  let ?k = "disk_command (world s) (ms_tag s) 0 False cdb"
  show ?thesis
    using transport_run [of disk_msc cdb 0 NoData disk_sys s _ _ ?k _ _ ?k status _ "?k\<lparr>dk_phase := AwaitCommand\<rparr>"]
      disk_takes_command [OF k c(2), of 0 "ms_tag s" False 0 "ms_timeout s"] disk_sends_status [OF ph(1)] c ph(2)
    by (simp add: data_stage_def)
qed

section \<open>Commands, through UNIT ATTENTION\<close>

definition disk_at :: "bytes \<Rightarrow> u32 \<Rightarrow> nat \<Rightarrow> disk storage \<Rightarrow> bool" where
  "disk_at B bl M s \<longleftrightarrow> dk_phase (world s) = AwaitCommand \<and> dk_bytes (world s) = B \<and> dk_block (world s) = bl
     \<and> ms_max_transfer s = M"

abbreviation attention :: "disk storage \<Rightarrow> nat" where
  "attention s \<equiv> dk_attention (world s)"

text \<open>A pending condition refuses the command: the data phase stalls, the driver clears the halt and reads
  a failed status.\<close>

lemma disk_refuses:
  assumes k: "dk_phase (world s) = AwaitCommand" "0 < attention s" and c: "cdb \<noteq> []" "length cdb \<le> 16" "phase_len data < 2 ^ 32"
    and n: "cdb ! 0 \<noteq> 0x03" "data = NoData \<or> 0 < phase_len data"
  shows "\<exists>r. transport disk_sys disk_msc 0 cdb data s =
      (Val (r, case data of DataIn b \<Rightarrow> b | _ \<Rightarrow> []), at_world (step_tag s) ((world s)\<lparr>dk_phase := AwaitCommand\<rparr>)) \<and> \<not> cr_passed r"
proof -
  let ?in = "case data of DataIn _ \<Rightarrow> True | _ \<Rightarrow> False"
  let ?k = "disk_command (world s) (ms_tag s) (phase_len data) ?in cdb"
  have kk: "?k = refuse (world s) (phase_len data) (ms_tag s)" using k n by (simp add: disk_command_def)
  note cmd = disk_takes_command [OF k(1) c(2,3), of "ms_tag s" ?in 0 "ms_timeout s"]
  show ?thesis
  proof (cases data)
    case NoData
    with kk k(1) have "dk_phase (disk_command (world s) (ms_tag s) 0 False cdb) = SendStatus (ms_tag s) 0 1"
      "(disk_command (world s) (ms_tag s) 0 False cdb)\<lparr>dk_phase := AwaitCommand\<rparr> = (world s)\<lparr>dk_phase := AwaitCommand\<rparr>"
      by (simp_all add: refuse_def)
    with disk_none [OF k(1) c(1,2)] NoData show ?thesis by auto
  next
    case (DataIn buf)
    let ?k = "(world s)\<lparr>dk_phase := StallData (length buf) (ms_tag s)\<rparr>"
    let ?k2 = "(world s)\<lparr>dk_phase := SendStatus (ms_tag s) (length buf) 1\<rparr>"
    have cm: "disk_transfer Bulk 0x02 (cbw (ms_tag s) (of_nat (length buf)) True 0 cdb) (ms_timeout s) (world s) =
        (Inr (Completed, 31, cbw (ms_tag s) (of_nat (length buf)) True 0 cdb), ?k)"
      using cmd kk n DataIn by (simp add: refuse_def)
    have st: "disk_transfer Bulk 0x81 (replicate 13 0) t ?k2 =
        (Inr (Completed, 13, csw (ms_tag s) (of_nat (length buf)) 1), (world s)\<lparr>dk_phase := AwaitCommand\<rparr>)" for t
      using disk_sends_status [of ?k2 "ms_tag s" "length buf" 1] by simp
    have "disk_transfer Bulk 0x81 (replicate (length buf) 0) t ?k = (Inr (Stall, 0, (replicate (length buf) 0)), ?k)" for t
      by (simp add: disk_transfer_def Let_def)
    then have ds: "data_stage disk_sys disk_msc (ms_timeout s) data (at_world (step_tag s) ?k) = (Fail (error_new Pipe), at_world (step_tag s) ?k)"
      using sync_read_failed [of "0x81" Bulk disk_sys buf "ms_timeout s" "ms_handle (at_world (step_tag s) ?k)" Stall 0] DataIn
      by (simp add: data_stage_def zoom_def status_into_result_def bindR_def)
    have "transport disk_sys disk_msc 0 cdb data s =
        (Val (\<lparr>cr_passed = ((1 :: u8) = 0), cr_transferred = 0, cr_residue = of_nat (length buf)\<rparr>, case data of DataIn b \<Rightarrow> b | _ \<Rightarrow> []),
         at_world (step_tag s) ((world s)\<lparr>dk_phase := AwaitCommand\<rparr>))"
      by (rule transport_stalled [OF _ c(1,2) _ c(3) _ ds, where ?k3.0 = ?k2])
        (use cm st DataIn in \<open>simp_all add: is_stall_def disk_clear_def\<close>)
    then show ?thesis by auto
  next
    case (DataOut buf)
    let ?k = "(world s)\<lparr>dk_phase := StallData (length buf) (ms_tag s)\<rparr>"
    let ?k2 = "(world s)\<lparr>dk_phase := SendStatus (ms_tag s) (length buf) 1\<rparr>"
    have cm: "disk_transfer Bulk 0x02 (cbw (ms_tag s) (of_nat (length buf)) False 0 cdb) (ms_timeout s) (world s) =
        (Inr (Completed, 31, cbw (ms_tag s) (of_nat (length buf)) False 0 cdb), ?k)"
      using cmd kk n DataOut by (simp add: refuse_def)
    have st: "disk_transfer Bulk 0x81 (replicate 13 0) t ?k2 =
        (Inr (Completed, 13, csw (ms_tag s) (of_nat (length buf)) 1), (world s)\<lparr>dk_phase := AwaitCommand\<rparr>)" for t
      using disk_sends_status [of ?k2 "ms_tag s" "length buf" 1] by simp
    have "disk_transfer Bulk 0x02 buf t ?k = (Inr (Stall, 0, buf), ?k)" for t
      by (simp add: disk_transfer_def Let_def)
    then have ds: "data_stage disk_sys disk_msc (ms_timeout s) data (at_world (step_tag s) ?k) = (Fail (error_new Pipe), at_world (step_tag s) ?k)"
      using sync_write_failed [of "0x02" Bulk disk_sys buf "ms_timeout s" "ms_handle (at_world (step_tag s) ?k)" Stall 0] DataOut
      by (simp add: data_stage_def zoom_def status_into_result_def bindR_def)
    have "transport disk_sys disk_msc 0 cdb data s =
        (Val (\<lparr>cr_passed = ((1 :: u8) = 0), cr_transferred = 0, cr_residue = of_nat (length buf)\<rparr>, case data of DataIn b \<Rightarrow> b | _ \<Rightarrow> []),
         at_world (step_tag s) ((world s)\<lparr>dk_phase := AwaitCommand\<rparr>))"
      by (rule transport_stalled [OF _ c(1,2) _ c(3) _ ds, where ?k3.0 = ?k2])
        (use cm st DataOut in \<open>simp_all add: is_stall_def disk_clear_def\<close>)
    then show ?thesis by auto
  qed
qed

lemma disk_sense:
  assumes "dk_phase (world s) = AwaitCommand"
  shows "sense_locked disk_sys disk_msc 0 s =
    (Val \<lparr>sense_key = UnitAttention, sense_asc = 0x29, sense_ascq = 0\<rparr>,
     at_world (step_tag s) ((world s)\<lparr>dk_attention := attention s - 1, dk_phase := AwaitCommand\<rparr>))"
proof -
  let ?cdb = "[0x03, 0, 0, 0, 18, 0] :: bytes"
  have "dk_phase (disk_command (world s) (ms_tag s) (length (replicate 18 (0 :: u8))) True ?cdb) = SendData (take 18 attention_sense) 18 (ms_tag s)"
    "(disk_command (world s) (ms_tag s) (length (replicate 18 (0 :: u8))) True ?cdb)\<lparr>dk_phase := AwaitCommand\<rparr>
      = (world s)\<lparr>dk_attention := attention s - 1, dk_phase := AwaitCommand\<rparr>"
    by (simp_all add: disk_command_def)
  with disk_in [OF assms, of ?cdb "replicate 18 0" "take 18 attention_sense"] show ?thesis
    by (simp add: sense_locked_def bindR_def attention_sense_def sense_from_bytes_def Let_def sense_key_of_def)
qed

lemma disk_command_loop:
  assumes c: "cdb \<noteq> []" "length cdb \<le> 16" "phase_len data < 2 ^ 32" "cdb ! 0 \<noteq> 0x03" "data = NoData \<or> 0 < phase_len data"
    and served: "\<And>s. disk_at B bl M s \<Longrightarrow> attention s = 0 \<Longrightarrow>
      \<exists>r s'. transport disk_sys disk_msc 0 cdb data s = (Val (r, b), s') \<and> cr_passed r \<and> cr_transferred r = n
        \<and> disk_at B' bl M s' \<and> attention s' = 0"
  shows "disk_at B bl M s \<Longrightarrow> attention s \<le> k \<Longrightarrow>
    \<exists>s'. command_loop k disk_sys disk_msc 0 cdb data s = (Val (n, b), s') \<and> disk_at B' bl M s' \<and> attention s' = 0"
proof (induction k arbitrary: s)
  case 0
  with served [of s] show ?case by (auto simp: bindR_def)
next
  case (Suc k)
  show ?case
  proof (cases "attention s = 0")
    case True
    with served [of s] Suc.prems show ?thesis by (auto simp: bindR_def)
  next
    case False
    have ph: "dk_phase (world s) = AwaitCommand" using Suc.prems by (simp add: disk_at_def)
    let ?s1 = "at_world (step_tag s) ((world s)\<lparr>dk_phase := AwaitCommand\<rparr>)"
    let ?s2 = "at_world (step_tag ?s1) ((world s)\<lparr>dk_attention := attention s - 1, dk_phase := AwaitCommand\<rparr>)"
    obtain r where t: "transport disk_sys disk_msc 0 cdb data s = (Val (r, case data of DataIn b \<Rightarrow> b | _ \<Rightarrow> []), ?s1)" "\<not> cr_passed r"
      using disk_refuses [OF ph _ c] False by auto
    have se: "sense_locked disk_sys disk_msc 0 ?s1 = (Val \<lparr>sense_key = UnitAttention, sense_asc = 0x29, sense_ascq = 0\<rparr>, ?s2)"
      using disk_sense [of ?s1] by simp
    have wb: "with_buffer data (case data of DataIn b \<Rightarrow> b | _ \<Rightarrow> []) = data" by (cases data) (simp_all add: with_buffer_def)
    have "disk_at B bl M ?s2" "attention ?s2 \<le> k" using Suc.prems by (auto simp: disk_at_def)
    from Suc.IH [OF this] obtain s' where rest:
      "command_loop k disk_sys disk_msc 0 cdb data ?s2 = (Val (n, b), s')" "disk_at B' bl M s'" "attention s' = 0" by blast
    have "command_loop (Suc k) disk_sys disk_msc 0 cdb data s = (Val (n, b), s')"
      unfolding command_loop.simps
      by (subst bindR_Val, rule t(1), simp only: prod.case t(2) if_False, subst bindR_Val, rule se) (use rest(1) in \<open>simp add: wb\<close>)
    with rest show ?thesis by blast
  qed
qed

section \<open>Blocks\<close>

text \<open>A READ or WRITE command for blocks inside the disk, with up to three conditions pending.\<close>

lemma disk_reads:
  assumes d: "decode_rw cdb = Some (False, lba, n)" and c: "length cdb = 10 \<or> length cdb = 16" "cdb ! 0 \<noteq> 0x03" "cdb ! 0 \<noteq> 0"
      "cdb ! 0 \<noteq> 0x25" "cdb ! 0 \<noteq> 0x9E"
    and l: "length buf = n * unat bl" "0 < length buf" "length buf < 2 ^ 32" "lba + n \<le> length B div unat bl"
    and s: "disk_at B bl M s" "attention s \<le> 3"
  shows "\<exists>s'. msc_command disk_sys disk_msc 0 cdb (DataIn buf) s =
      (Val (length buf, take (length buf) (drop (lba * unat bl) B)), s') \<and> disk_at B bl M s' \<and> attention s' = 0"
  unfolding msc_command_def
proof (rule disk_command_loop [OF _ _ _ c(2) _ _ s])
  have ne: "cdb \<noteq> []" and len: "length cdb \<le> 16" using c by auto
  then show "cdb \<noteq> []" "length cdb \<le> 16" by auto
  show "phase_len (DataIn buf) < 2 ^ 32" "DataIn buf = NoData \<or> 0 < phase_len (DataIn buf)" using l by simp_all
  have fit: "lba * unat bl + length buf \<le> length B"
  proof -
    have "(lba + n) * unat bl \<le> length B div unat bl * unat bl" using l(4) by (rule mult_le_mono1)
    also have "\<dots> \<le> length B" by (rule div_times_less_eq_dividend)
    finally show ?thesis using l(1) by (simp add: distrib_right)
  qed
  fix s :: "disk storage" assume s: "disk_at B bl M s" "attention s = 0"
  let ?d = "take (length buf) (drop (lba * unat bl) B)"
  have k: "disk_command (world s) (ms_tag s) (length buf) True cdb = (world s)\<lparr>dk_phase := SendData ?d (length buf) (ms_tag s)\<rparr>"
    using s d c l by (simp add: disk_command_def disk_at_def dk_count_def)
  have ld: "length ?d = length buf" using fit by simp
  have "transport disk_sys disk_msc 0 cdb (DataIn buf) s =
      (Val (\<lparr>cr_passed = True, cr_transferred = length buf, cr_residue = 0\<rparr>, ?d),
       at_world (step_tag s) ((world s)\<lparr>dk_phase := AwaitCommand\<rparr>))"
    using disk_in [of s cdb buf ?d] k ld s l ne len by (simp add: disk_at_def)
  then show "\<exists>r s'. transport disk_sys disk_msc 0 cdb (DataIn buf) s = (Val (r, ?d), s') \<and> cr_passed r
      \<and> cr_transferred r = length buf \<and> disk_at B bl M s' \<and> attention s' = 0"
    using s by (auto simp: disk_at_def)
qed

lemma disk_writes:
  assumes d: "decode_rw cdb = Some (True, lba, n)" and c: "length cdb = 10 \<or> length cdb = 16" "cdb ! 0 \<noteq> 0x03" "cdb ! 0 \<noteq> 0"
      "cdb ! 0 \<noteq> 0x25" "cdb ! 0 \<noteq> 0x9E"
    and l: "length buf = n * unat bl" "0 < length buf" "length buf < 2 ^ 32" "lba + n \<le> length B div unat bl"
    and s: "disk_at B bl M s" "attention s \<le> 3"
  shows "\<exists>s'. msc_command disk_sys disk_msc 0 cdb (DataOut buf) s = (Val (length buf, []), s')
      \<and> disk_at (overwrite (lba * unat bl) buf B) bl M s' \<and> attention s' = 0"
  unfolding msc_command_def
proof (rule disk_command_loop [OF _ _ _ c(2) _ _ s])
  have ne: "cdb \<noteq> []" and len: "length cdb \<le> 16" using c by auto
  then show "cdb \<noteq> []" "length cdb \<le> 16" by auto
  show "phase_len (DataOut buf) < 2 ^ 32" "DataOut buf = NoData \<or> 0 < phase_len (DataOut buf)" using l by simp_all
  fix s :: "disk storage" assume s: "disk_at B bl M s" "attention s = 0"
  have k: "disk_command (world s) (ms_tag s) (length buf) False cdb = (world s)\<lparr>dk_phase := TakeData (lba * unat bl) (length buf) (ms_tag s)\<rparr>"
    using s d c l by (simp add: disk_command_def disk_at_def dk_count_def)
  have "transport disk_sys disk_msc 0 cdb (DataOut buf) s =
      (Val (\<lparr>cr_passed = True, cr_transferred = length buf, cr_residue = 0\<rparr>, []),
       at_world (step_tag s) ((world s)\<lparr>dk_bytes := overwrite (lba * unat bl) buf B, dk_phase := AwaitCommand\<rparr>))"
    using disk_out [of s cdb buf "lba * unat bl"] k s l ne len by (simp add: disk_at_def Let_def)
  then show "\<exists>r s'. transport disk_sys disk_msc 0 cdb (DataOut buf) s = (Val (r, []), s') \<and> cr_passed r
      \<and> cr_transferred r = length buf \<and> disk_at (overwrite (lba * unat bl) buf B) bl M s' \<and> attention s' = 0"
    using s by (auto simp: disk_at_def)
qed

text \<open>The command block of one piece, as the disk reads it.\<close>

lemma part_cdb_decode:
  assumes lba: "unat lba + i * chunk + n < 2 ^ 64" and part: "length part = n * bs" "0 < n" "n \<le> 65535" "0 < bs"
  obtains cdb m where "part_cdb write bs chunk lba i part = Some (cdb, m)" "length (take m cdb) = 10 \<or> length (take m cdb) = 16"
    "decode_rw (take m cdb) = Some (write, unat lba + i * chunk, n)"
proof -
  have a: "unat (lba + of_nat (i * chunk)) = unat lba + i * chunk"
    using lba by (simp add: unat_word_ariths unsigned_of_nat take_bit_eq_mod mod_simps del: of_nat_mult)
  have b: "unat (of_nat (length part div bs) :: u32) = n"
    using part by (simp only: unsigned_of_nat) (simp add: take_bit_eq_mod)
  obtain cdb m where "rw_cdb write (lba + of_nat (i * chunk)) (of_nat (length part div bs)) = Some (cdb, m)" "length cdb = 16"
    "m = 10 \<or> m = 16" "decode_rw (take m cdb) = Some (write, unat (lba + of_nat (i * chunk)), unat (of_nat (length part div bs) :: u32))"
    using rw_cdb_decode [of "lba + of_nat (i * chunk)" "of_nat (length part div bs)" "write"] a b lba part by auto
  then show thesis using that [of cdb m] a b lba by (auto simp: part_cdb_def)
qed

lemma decode_rw_opcode:
  assumes "decode_rw cdb = Some r"
  shows "cdb ! 0 \<noteq> 0x03" "cdb ! 0 \<noteq> 0" "cdb ! 0 \<noteq> 0x25" "cdb ! 0 \<noteq> 0x9E"
  using assms by (auto simp: decode_rw_def split: if_splits)

section \<open>The disk is a block store\<close>

lemma cut_first:
  assumes "0 < chunk" "0 < bs" "length (buf :: bytes) = n * bs" "0 < (n :: nat)"
  shows "chunks (chunk * bs) buf = take (min n chunk * bs) buf # chunks (chunk * bs) (drop (min n chunk * bs) buf)"
    "length (take (min n chunk * bs) buf) = min n chunk * bs" "length (drop (min n chunk * bs) buf) = (n - min n chunk) * bs"
proof -
  have ne: "buf \<noteq> []" using assms by auto
  have le: "min n chunk * bs \<le> n * bs" by (intro mult_le_mono1) simp
  then show "length (take (min n chunk * bs) buf) = min n chunk * bs" using assms(3) by simp
  show "length (drop (min n chunk * bs) buf) = (n - min n chunk) * bs" using assms(3) by (simp add: diff_mult_distrib)
  show "chunks (chunk * bs) buf = take (min n chunk * bs) buf # chunks (chunk * bs) (drop (min n chunk * bs) buf)"
  proof (cases "n \<le> chunk")
    case True
    then have "n * bs \<le> chunk * bs" by (rule mult_le_mono1)
    with True assms ne show ?thesis by (simp add: chunks_step min_absorb1)
  next
    case False
    with assms ne show ?thesis by (simp add: chunks_step min_absorb2)
  qed
qed

text \<open>The geometry the driver and the disk agree on, and the limits of one command.\<close>

definition disk_limits :: "bytes \<Rightarrow> u32 \<Rightarrow> nat \<Rightarrow> bool" where
  "disk_limits B bl chunk \<longleftrightarrow> 0 < unat bl \<and> 0 < chunk \<and> chunk \<le> 65535 \<and> chunk * unat bl < 2 ^ 32 \<and> length B < 2 ^ 64"

lemma disk_limitsD:
  assumes "disk_limits B bl chunk" "lba + n \<le> length B div unat bl"
  shows "lba + n < 2 ^ 64"
proof -
  have "length B div unat bl \<le> length B" by (rule div_le_dividend)
  then show ?thesis using assms unfolding disk_limits_def by linarith
qed

lemma disk_read_parts:
  "disk_limits B bl chunk \<Longrightarrow> length buf = n * unat bl \<Longrightarrow> unat lba + i * chunk + n \<le> length B div unat bl \<Longrightarrow>
   disk_at B bl M s \<Longrightarrow> attention s \<le> 3 \<Longrightarrow>
   \<exists>s'. read_parts disk_sys disk_msc 0 (unat bl) chunk lba i (chunks (chunk * unat bl) buf) s =
      (Val (take (length buf) (drop ((unat lba + i * chunk) * unat bl) B)), s') \<and> disk_at B bl M s' \<and> attention s' \<le> 3"
proof (induction n arbitrary: buf i s rule: less_induct)
  case (less n)
  note lim = less.prems(1)[unfolded disk_limits_def]
  show ?case
  proof (cases "n = 0")
    case True
    then show ?thesis using less.prems by simp
  next
    case False
    let ?bs = "unat bl" and ?m = "min n chunk"
    let ?part = "take (?m * ?bs) buf" and ?at = "unat lba + i * chunk"
    note cut = cut_first [of chunk ?bs buf n]
    have m: "0 < ?m" "?m \<le> 65535" "?m * ?bs < 2 ^ 32" "?at + ?m \<le> length B div ?bs"
      using lim False less.prems(3) le_less_trans [OF mult_le_mono1 [of ?m chunk ?bs]] by auto
    have lp: "length ?part = ?m * ?bs" using cut(2) lim less.prems False by simp
    have "?at + ?m < 2 ^ 64" by (rule disk_limitsD [OF less.prems(1) m(4)])
    then obtain cdb k where c: "part_cdb False ?bs chunk lba i ?part = Some (cdb, k)"
      "length (take k cdb) = 10 \<or> length (take k cdb) = 16" "decode_rw (take k cdb) = Some (False, ?at, ?m)"
      using part_cdb_decode [of lba i chunk ?m ?part ?bs False] lp m lim by auto
    have "0 < length ?part" "length ?part < 2 ^ 32" using lp m lim by simp_all
    from disk_reads [OF c(3,2) decode_rw_opcode [OF c(3)] lp this m(4) less.prems(4,5)] obtain s1 where
      r: "msc_command disk_sys disk_msc 0 (take k cdb) (DataIn ?part) s = (Val (length ?part, take (length ?part) (drop (?at * ?bs) B)), s1)"
      "disk_at B bl M s1" "attention s1 = 0" by blast
    have next_at: "unat lba + (i + 1) * chunk + (n - ?m) \<le> length B div ?bs \<or> n - ?m = 0"
      using less.prems(3) by (cases "n \<le> chunk") (auto simp: min_def)
    have rest: "\<exists>s2. read_parts disk_sys disk_msc 0 ?bs chunk lba (i + 1) (chunks (chunk * ?bs) (drop (?m * ?bs) buf)) s1 =
       (Val (take (length (drop (?m * ?bs) buf)) (drop ((?at + ?m) * ?bs) B)), s2) \<and> disk_at B bl M s2 \<and> attention s2 \<le> 3"
    proof (cases "n \<le> chunk")
      case True
      then show ?thesis using less.prems(2) r by (simp add: min_absorb1)
    next
      case big: False
      then have eq: "?m = chunk" by simp
      from less.IH [of "n - ?m" "drop (?m * ?bs) buf" "i + 1" s1] cut(3) lim less.prems m(1) False r next_at big
      show ?thesis by (simp add: eq algebra_simps)
    qed
    then obtain s2 where r2: "read_parts disk_sys disk_msc 0 ?bs chunk lba (i + 1) (chunks (chunk * ?bs) (drop (?m * ?bs) buf)) s1 =
       (Val (take (length (drop (?m * ?bs) buf)) (drop ((?at + ?m) * ?bs) B)), s2)" "disk_at B bl M s2" "attention s2 \<le> 3" by blast
    have join: "take (length ?part) (drop (?at * ?bs) B) @ take (length (drop (?m * ?bs) buf)) (drop ((?at + ?m) * ?bs) B)
        = take (length buf) (drop (?at * ?bs) B)"
    proof -
      have l: "length buf = length ?part + length (drop (?m * ?bs) buf)"
        by (metis append_take_drop_id length_append)
      have "(?at + ?m) * ?bs = length ?part + ?at * ?bs" using lp by (simp add: add_mult_distrib)
      then have "drop ((?at + ?m) * ?bs) B = drop (length ?part) (drop (?at * ?bs) B)" by (simp only: drop_drop)
      then show ?thesis by (simp only: l take_add)
    qed
    have "read_parts disk_sys disk_msc 0 ?bs chunk lba i (?part # chunks (chunk * ?bs) (drop (?m * ?bs) buf)) s
        = (Val (take (length buf) (drop (?at * ?bs) B)), s2)"
      using c(1) r(1) r2(1) join by (simp add: bindR_def)
    then show ?thesis using cut(1) lim less.prems(2) False r2(2,3) by auto
  qed
qed

lemma disk_write_parts:
  "disk_limits B bl chunk \<Longrightarrow> length buf = n * unat bl \<Longrightarrow> unat lba + i * chunk + n \<le> length B div unat bl \<Longrightarrow>
   disk_at B bl M s \<Longrightarrow> attention s \<le> 3 \<Longrightarrow>
   \<exists>s'. write_parts disk_sys disk_msc 0 (unat bl) chunk lba i (chunks (chunk * unat bl) buf) s = (Val (), s')
     \<and> disk_at (overwrite ((unat lba + i * chunk) * unat bl) buf B) bl M s' \<and> attention s' \<le> 3"
proof (induction n arbitrary: buf i s B rule: less_induct)
  case (less n)
  note lim = less.prems(1)[unfolded disk_limits_def]
  show ?case
  proof (cases "n = 0")
    case True
    then show ?thesis using less.prems by simp
  next
    case False
    let ?bs = "unat bl" and ?m = "min n chunk"
    let ?part = "take (?m * ?bs) buf" and ?tail = "drop (?m * ?bs) buf" and ?at = "unat lba + i * chunk"
    let ?B = "overwrite (?at * ?bs) ?part B"
    note cut = cut_first [of chunk ?bs buf n]
    have m: "0 < ?m" "?m \<le> 65535" "?m * ?bs < 2 ^ 32" "?at + ?m \<le> length B div ?bs"
      using lim False less.prems(3) le_less_trans [OF mult_le_mono1 [of ?m chunk ?bs]] by auto
    have lp: "length ?part = ?m * ?bs" using cut(2) lim less.prems False by simp
    have "?at + ?m < 2 ^ 64" by (rule disk_limitsD [OF less.prems(1) m(4)])
    then obtain cdb k where c: "part_cdb True ?bs chunk lba i ?part = Some (cdb, k)"
      "length (take k cdb) = 10 \<or> length (take k cdb) = 16" "decode_rw (take k cdb) = Some (True, ?at, ?m)"
      using part_cdb_decode [of lba i chunk ?m ?part ?bs True] lp m lim by auto
    have "0 < length ?part" "length ?part < 2 ^ 32" using lp m lim by simp_all
    from disk_writes [OF c(3,2) decode_rw_opcode [OF c(3)] lp this m(4) less.prems(4,5)] obtain s1 where
      r: "msc_command disk_sys disk_msc 0 (take k cdb) (DataOut ?part) s = (Val (length ?part, []), s1)"
      "disk_at ?B bl M s1" "attention s1 = 0" by blast
    have "(?at + n) * ?bs \<le> length B div ?bs * ?bs" using less.prems(3) by (rule mult_le_mono1)
    then have fit: "?at * ?bs + length buf \<le> length B"
      using le_trans [OF _ div_times_less_eq_dividend [of "length B" ?bs]] less.prems(2) by (simp add: distrib_right)
    have l: "length buf = length ?part + length ?tail" by (metis append_take_drop_id length_append)
    then have lB: "length ?B = length B" using fit by simp
    have next_at: "(?at + ?m) * ?bs = ?at * ?bs + length ?part" using lp by (simp add: add_mult_distrib)
    have rest: "\<exists>s2. write_parts disk_sys disk_msc 0 ?bs chunk lba (i + 1) (chunks (chunk * ?bs) ?tail) s1 = (Val (), s2)
        \<and> disk_at (overwrite ((?at + ?m) * ?bs) ?tail ?B) bl M s2 \<and> attention s2 \<le> 3"
    proof (cases "n \<le> chunk")
      case True
      then show ?thesis using less.prems(2) r by (simp add: min_absorb1)
    next
      case big: False
      then have eq: "?m = chunk" by simp
      have "disk_limits ?B bl chunk" using less.prems(1) lB by (simp add: disk_limits_def)
      moreover have "unat lba + (i + 1) * chunk + (n - ?m) \<le> length ?B div ?bs"
        using less.prems(3) lB big by (simp only: eq) simp
      moreover have "unat lba + (i + 1) * chunk = ?at + ?m" by (simp only: eq) simp
      ultimately show ?thesis
        using less.IH [of "n - ?m" ?B ?tail "i + 1" s1] cut(3) lim less.prems(2) m(1) False r(2,3) by (simp add: ac_simps)
    qed
    then obtain s2 where r2: "write_parts disk_sys disk_msc 0 ?bs chunk lba (i + 1) (chunks (chunk * ?bs) ?tail) s1 = (Val (), s2)"
      "disk_at (overwrite ((?at + ?m) * ?bs) ?tail ?B) bl M s2" "attention s2 \<le> 3" by blast
    have join: "overwrite ((?at + ?m) * ?bs) ?tail ?B = overwrite (?at * ?bs) buf B"
      unfolding next_at using overwrite_append [of "?at * ?bs" ?part ?tail B] fit by (simp only: append_take_drop_id)
    have "write_parts disk_sys disk_msc 0 ?bs chunk lba i (?part # chunks (chunk * ?bs) ?tail) s = (Val (), s2)"
      using c(1) r(1) r2(1) by (simp add: bindR_def)
    then show ?thesis using cut(1) lim less.prems(2) False r2(2,3) join by auto
  qed
qed

definition disk_ready :: "capacity \<Rightarrow> disk storage \<Rightarrow> bool" where
  "disk_ready cap s \<longleftrightarrow> disk_at (dk_bytes (world s)) (cap_block_size cap) (ms_max_transfer s) s
     \<and> attention s \<le> 3 \<and> ms_max_transfer s < 2 ^ 32 \<and> 0 < unat (cap_block_size cap)
     \<and> length (dk_bytes (world s)) = unat (cap_block_count cap) * unat (cap_block_size cap)
     \<and> length (dk_bytes (world s)) < 2 ^ 64"

lemma disk_chunk:
  assumes "0 < unat bl" "M < 2 ^ 32" "length B < 2 ^ 64"
  shows "disk_limits B bl (clamp (M div unat bl) 1 65535)"
proof -
  have "M div unat bl * unat bl < 2 ^ 32" using div_times_less_eq_dividend [of M "unat bl"] assms(2) by linarith
  moreover have "(65535 :: nat) * unat bl < 2 ^ 32" if "65535 < M div unat bl"
  proof -
    have "(65535 :: nat) * unat bl \<le> M div unat bl * unat bl" using that by (intro mult_le_mono1) simp
    also note \<open>M div unat bl * unat bl < 2 ^ 32\<close>
    finally show ?thesis .
  qed
  ultimately show ?thesis using assms u32_less [of bl] by (auto simp: disk_limits_def clamp_def)
qed

interpretation disk_store: block_store "msc_read_blocks disk_sys disk_msc" "msc_write_blocks disk_sys disk_msc" 0 cap
  "\<lambda>s. dk_bytes (world s)" "disk_ready cap" for cap
proof unfold_locales
  fix s assume "disk_ready cap s"
  then show "length (dk_bytes (world s)) = unat (cap_block_count cap) * unat (cap_block_size cap)
      \<and> 0 < unat (cap_block_size cap) \<and> length (dk_bytes (world s)) < 2 ^ 64"
    by (simp add: disk_ready_def)
next
  fix s :: "disk storage" and buf :: bytes and n :: nat and lba :: u64
  assume r: "disk_ready cap s" and l: "length buf = n * unat (cap_block_size cap)" and n: "0 < n" "unat lba + n \<le> unat (cap_block_count cap)"
  let ?bl = "cap_block_size cap" and ?B = "dk_bytes (world s)" and ?M = "ms_max_transfer s"
  have lim: "disk_limits ?B ?bl (clamp (?M div unat ?bl) 1 65535)" using r by (intro disk_chunk) (simp_all add: disk_ready_def)
  have fit: "unat lba + 0 * clamp (?M div unat ?bl) 1 65535 + n \<le> length ?B div unat ?bl" using r n by (simp add: disk_ready_def)
  have at: "disk_at ?B ?bl ?M s" "attention s \<le> 3" using r by (simp_all add: disk_ready_def)
  from disk_read_parts [OF lim l fit at] obtain s' where
    p: "read_parts disk_sys disk_msc 0 (unat ?bl) (clamp (?M div unat ?bl) 1 65535) lba 0
        (chunks (clamp (?M div unat ?bl) 1 65535 * unat ?bl) buf) s = (Val (take (length buf) (drop (unat lba * unat ?bl) ?B)), s')"
      "disk_at ?B ?bl ?M s'" "attention s' \<le> 3" by auto
  have "check_blocks ?bl (length buf) = Ok (unat ?bl)" using r l by (simp add: check_blocks_def Let_def disk_ready_def)
  then have "msc_read_blocks disk_sys disk_msc 0 lba ?bl buf s = (Val (take (length buf) (drop (unat lba * unat ?bl) ?B)), s')"
    using p(1) by (simp add: msc_read_blocks_def chunk_blocks_def bindR_def)
  moreover have "disk_ready cap s'" "dk_bytes (world s') = ?B" using r p(2,3) by (auto simp: disk_ready_def disk_at_def)
  ultimately show "\<exists>s'. msc_read_blocks disk_sys disk_msc 0 lba ?bl buf s = (Val (take (length buf) (drop (unat lba * unat ?bl) ?B)), s')
      \<and> disk_ready cap s' \<and> dk_bytes (world s') = ?B" by blast
next
  fix s :: "disk storage" and data :: bytes and n :: nat and lba :: u64
  assume r: "disk_ready cap s" and l: "length data = n * unat (cap_block_size cap)" and n: "0 < n" "unat lba + n \<le> unat (cap_block_count cap)"
  let ?bl = "cap_block_size cap" and ?B = "dk_bytes (world s)" and ?M = "ms_max_transfer s"
  have lim: "disk_limits ?B ?bl (clamp (?M div unat ?bl) 1 65535)" using r by (intro disk_chunk) (simp_all add: disk_ready_def)
  have fit: "unat lba + 0 * clamp (?M div unat ?bl) 1 65535 + n \<le> length ?B div unat ?bl" using r n by (simp add: disk_ready_def)
  have at: "disk_at ?B ?bl ?M s" "attention s \<le> 3" using r by (simp_all add: disk_ready_def)
  from disk_write_parts [OF lim l fit at] obtain s' where
    p: "write_parts disk_sys disk_msc 0 (unat ?bl) (clamp (?M div unat ?bl) 1 65535) lba 0
        (chunks (clamp (?M div unat ?bl) 1 65535 * unat ?bl) data) s = (Val (), s')"
      "disk_at (overwrite (unat lba * unat ?bl) data ?B) ?bl ?M s'" "attention s' \<le> 3" by auto
  have "check_blocks ?bl (length data) = Ok (unat ?bl)" using r l by (simp add: check_blocks_def Let_def disk_ready_def)
  then have "msc_write_blocks disk_sys disk_msc 0 lba ?bl data s = (Val (), s')"
    using p(1) by (simp add: msc_write_blocks_def chunk_blocks_def bindR_def)
  moreover have "(unat lba + n) * unat ?bl \<le> unat (cap_block_count cap) * unat ?bl" using n(2) by (rule mult_le_mono1)
  then have "unat lba * unat ?bl + length data \<le> length ?B" using r l by (simp add: disk_ready_def distrib_right)
  then have "disk_ready cap s'" "dk_bytes (world s') = overwrite (unat lba * unat ?bl) data ?B"
    using r p(2,3) by (auto simp: disk_ready_def disk_at_def)
  ultimately show "\<exists>s'. msc_write_blocks disk_sys disk_msc 0 lba ?bl data s = (Val (), s')
      \<and> disk_ready cap s' \<and> dk_bytes (world s') = overwrite (unat lba * unat ?bl) data ?B" by blast
qed

section \<open>Opening the disk as a block device\<close>

lemma u64_be_bytes: "u64_be (be_bytes64 v) = v"
proof -
  have "u64_be (be_bytes64 v) = push_bit 32 (ucast (ucast (drop_bit 32 v) :: u32)) OR ucast (ucast v :: u32)"
    by (simp add: u64_be_def be_bytes64_def be_bytes32_def le_bytes32_def)
  also have "\<dots> = v" by (rule bit_word_eqI) (auto simp: bit_simps)
  finally show ?thesis .
qed

lemma be32_at_words: "be32_at (be_bytes32 a @ be_bytes32 b @ x) 0 = a" "be32_at (be_bytes32 a @ be_bytes32 b @ x) 4 = b"
  "be32_at (be_bytes64 v @ be_bytes32 b @ x) 8 = b"
  by (simp_all add: be32_at_def be_bytes32_def be_bytes64_def le_bytes32_def)

text \<open>A command that reads an answer of a fixed size.\<close>

lemma disk_answers:
  assumes c: "cdb \<noteq> []" "length cdb \<le> 16" "cdb ! 0 \<noteq> 0x03" and b: "0 < length buf" "length buf < 2 ^ 32" "length d = length buf"
    and k: "\<And>s. disk_at B bl M s \<Longrightarrow> attention s = 0 \<Longrightarrow>
      disk_command (world s) (ms_tag s) (length buf) True cdb = (world s)\<lparr>dk_phase := SendData d (length buf) (ms_tag s)\<rparr>"
    and s: "disk_at B bl M s" "attention s \<le> 3"
  shows "\<exists>s'. msc_command disk_sys disk_msc 0 cdb (DataIn buf) s = (Val (length buf, d), s') \<and> disk_at B bl M s' \<and> attention s' = 0"
  unfolding msc_command_def
proof (rule disk_command_loop [OF c(1,2) _ c(3) _ _ s])
  show "phase_len (DataIn buf) < 2 ^ 32" "DataIn buf = NoData \<or> 0 < phase_len (DataIn buf)" using b by simp_all
  fix s :: "disk storage" assume s: "disk_at B bl M s" "attention s = 0"
  have "transport disk_sys disk_msc 0 cdb (DataIn buf) s =
      (Val (\<lparr>cr_passed = True, cr_transferred = length buf, cr_residue = 0\<rparr>, d),
       at_world (step_tag s) ((world s)\<lparr>dk_phase := AwaitCommand\<rparr>))"
    using disk_in [of s cdb buf d] k [OF s] s b c by (simp add: disk_at_def)
  then show "\<exists>r s'. transport disk_sys disk_msc 0 cdb (DataIn buf) s = (Val (r, d), s') \<and> cr_passed r
      \<and> cr_transferred r = length buf \<and> disk_at B bl M s' \<and> attention s' = 0"
    using s by (auto simp: disk_at_def)
qed

lemma disk_unit_ready:
  assumes s: "disk_at B bl M s" "attention s \<le> 3"
  shows "\<exists>s'. test_unit_ready disk_sys disk_msc 0 s = (Val (), s') \<and> disk_at B bl M s' \<and> attention s' = 0"
proof -
  let ?cdb = "replicate 6 0 :: bytes"
  have "\<exists>s'. command_loop 3 disk_sys disk_msc 0 ?cdb NoData s = (Val (0, []), s') \<and> disk_at B bl M s' \<and> attention s' = 0"
  proof (rule disk_command_loop [OF _ _ _ _ _ _ s])
    fix s :: "disk storage" assume s: "disk_at B bl M s" "attention s = 0"
    have "disk_command (world s) (ms_tag s) 0 False ?cdb = (world s)\<lparr>dk_phase := SendStatus (ms_tag s) 0 0\<rparr>"
      using s by (simp add: disk_command_def)
    then have "transport disk_sys disk_msc 0 ?cdb NoData s =
        (Val (\<lparr>cr_passed = True, cr_transferred = 0, cr_residue = 0\<rparr>, []), at_world (step_tag s) ((world s)\<lparr>dk_phase := AwaitCommand\<rparr>))"
      using disk_none [of s ?cdb 0] s by (simp add: disk_at_def)
    then show "\<exists>r s'. transport disk_sys disk_msc 0 ?cdb NoData s = (Val (r, []), s') \<and> cr_passed r
        \<and> cr_transferred r = 0 \<and> disk_at B bl M s' \<and> attention s' = 0"
      using s by (auto simp: disk_at_def)
  qed simp_all
  then show ?thesis by (auto simp: test_unit_ready_def msc_command_def bindR_def)
qed

text \<open>The capacity read is the disk's, by the short command or, for a large unit, by the long one.\<close>

lemma disk_capacity:
  assumes s: "disk_at B (cap_block_size cap) M s" "attention s \<le> 3"
    and g: "length B = unat (cap_block_count cap) * unat (cap_block_size cap)" "0 < unat (cap_block_size cap)" "0 < unat (cap_block_count cap)"
      "length B < 2 ^ 64"
  shows "\<exists>s'. read_capacity disk_sys disk_msc 0 s = (Val cap, s') \<and> disk_at B (cap_block_size cap) M s' \<and> attention s' = 0"
proof -
  let ?bl = "cap_block_size cap" and ?n = "unat (cap_block_count cap)"
  let ?short = "be_bytes32 (if ?n > 2 ^ 32 - 1 then -1 else of_nat (?n - 1)) @ be_bytes32 ?bl"
  have count: "dk_count (world s) = ?n" if "disk_at B ?bl M s" for s using that g by (simp add: dk_count_def disk_at_def)
  have bs: "?bl \<noteq> 0" using g(2) by auto
  have "\<exists>s1. msc_command disk_sys disk_msc 0 (0x25 # replicate 9 0) (DataIn (replicate 8 0)) s =
      (Val (length (replicate 8 (0 :: u8)), ?short), s1) \<and> disk_at B ?bl M s1 \<and> attention s1 = 0"
    by (rule disk_answers [OF _ _ _ _ _ _ _ s]) (simp_all add: disk_command_def count, simp_all add: be_bytes32_def le_bytes32_def disk_at_def)
  then obtain s1 where s1: "msc_command disk_sys disk_msc 0 (0x25 # replicate 9 0) (DataIn (replicate 8 0)) s = (Val (8, ?short), s1)"
      "disk_at B ?bl M s1" "attention s1 = 0" by auto
  show ?thesis
  proof (cases "?n > 2 ^ 32 - 1")
    case False
    have w: "unat (of_nat (?n - 1) :: u32) = ?n - 1" using False by (simp only: unsigned_of_nat) (simp add: take_bit_eq_mod)
    then have "(of_nat (?n - 1) :: u32) \<noteq> -1" using False g(3) by (auto simp: word_unat_eq_iff unsigned_minus_1_eq_mask mask_eq_exp_minus_1)
    moreover have "ucast (of_nat (?n - 1) :: u32) + 1 = cap_block_count cap"
      using w g(3) False by (simp add: word_unat_eq_iff unat_word_ariths unsigned_ucast_eq take_bit_eq_mod)
    ultimately show ?thesis using s1 False bs be32_at_words(1,2) [where x = "[]"]
      by (auto simp: read_capacity_def bindR_def)
  next
    case True
    let ?long = "be_bytes64 (of_nat (?n - 1)) @ be_bytes32 ?bl @ replicate 20 0"
    let ?cdb = "[0x9E, 0x10] @ replicate 8 0 @ be_bytes32 32 @ [0, 0] :: bytes"
    have "\<exists>s2. msc_command disk_sys disk_msc 0 ?cdb (DataIn (replicate 32 0)) s1 =
        (Val (length (replicate 32 (0 :: u8)), ?long), s2) \<and> disk_at B ?bl M s2 \<and> attention s2 = 0"
      by (rule disk_answers [OF _ _ _ _ _ _ _ s1(2)])
        (simp_all add: disk_command_def count s1, simp_all add: be_bytes32_def be_bytes64_def le_bytes32_def disk_at_def)
    then obtain s2 where s2: "msc_command disk_sys disk_msc 0 ?cdb (DataIn (replicate 32 0)) s1 = (Val (32, ?long), s2)"
      "disk_at B ?bl M s2" "attention s2 = 0" by auto
    have "?n \<le> length B" using g(1,2) by simp
    then have n: "?n < 2 ^ 64" using g(4) by linarith
    then have w: "unat (of_nat (?n - 1) :: u64) = ?n - 1" by (simp only: unsigned_of_nat) (simp add: take_bit_eq_mod)
    then have "(of_nat (?n - 1) :: u64) \<noteq> -1" using g(3) n
      by (auto simp only: word_unat_eq_iff unsigned_minus_1_eq_mask mask_eq_exp_minus_1) simp
    moreover have "(of_nat (?n - 1) :: u64) + 1 = cap_block_count cap"
      using w g(3) by simp
    ultimately have "(of_nat (?n - 1) :: u64) + 1 = cap_block_count cap \<and> (of_nat (?n - 1) :: u64) \<noteq> -1" by blast
    then show ?thesis using s1 s2 True bs be32_at_words(1) [where x = "[]"]
      by (auto simp: read_capacity_def bindR_def be32_at_words u64_be_bytes)
  qed
qed

lemma disk_open:
  assumes r: "disk_ready cap s" and c: "0 < unat (cap_block_count cap)"
  shows "\<exists>s'. open_block_device disk_sys disk_msc 0 s = (Val \<lparr>bd_lun = 0, bd_capacity = cap, bd_pos = 0, bd_scratch = []\<rparr>, s')
    \<and> disk_ready cap s' \<and> dk_bytes (world s') = dk_bytes (world s)"
proof -
  let ?B = "dk_bytes (world s)" and ?M = "ms_max_transfer s"
  note d = r [unfolded disk_ready_def]
  obtain s1 where s1: "test_unit_ready disk_sys disk_msc 0 s = (Val (), s1)" "disk_at ?B (cap_block_size cap) ?M s1" "attention s1 = 0"
    using disk_unit_ready d by blast
  then have "\<exists>s2. read_capacity disk_sys disk_msc 0 s1 = (Val cap, s2) \<and> disk_at ?B (cap_block_size cap) ?M s2 \<and> attention s2 = 0"
    using d c by (intro disk_capacity) auto
  then obtain s2 where s2: "read_capacity disk_sys disk_msc 0 s1 = (Val cap, s2)" "disk_at ?B (cap_block_size cap) ?M s2" "attention s2 = 0"
    by blast
  have "wait_ready 10 None disk_sys disk_msc 0 s = (Val (), s1)"
    using s1(1) by (simp add: eval_nat_numeral matchR_def)
  then have "open_block_device disk_sys disk_msc 0 s = (Val \<lparr>bd_lun = 0, bd_capacity = cap, bd_pos = 0, bd_scratch = []\<rparr>, s2)"
    using s2(1) by (simp add: open_block_device_def bindR_def)
  moreover have "disk_ready cap s2" "dk_bytes (world s2) = ?B" using s2 d by (auto simp: disk_ready_def disk_at_def)
  ultimately show ?thesis by blast
qed

end
