(* ===== verification/Net_Cdc.thy ===== *)
theory Net_Cdc
  imports Usb_Class
begin

text \<open>
  CDC networking, \<open>src/src/net/cdc.rs\<close>: the functional descriptors of an ECM or NCM control
  interface, MAC address strings, notifications, and the NCM transfer block. \<open>build_ntb16\<close> and
  \<open>parse_ntb16\<close> index and slice as the code does, so \<open>None\<close> is a panic; the lemmas show that neither
  panics, that the parser stays inside the block it was given, and that it reads back the frame the
  builder wrapped. The callback \<open>emit\<close> of the parser is the list of the slices it is called with.
\<close>

section \<open>Functional descriptors\<close>

record functional =
  fn_data_interface :: "u8 option"
  fn_mac_string :: u8
  fn_max_segment_size :: u16
  fn_ncm_capabilities :: "u8 option"

definition functional_default :: functional where
  "functional_default = \<lparr>fn_data_interface = None, fn_mac_string = 0, fn_max_segment_size = 0,
     fn_ncm_capabilities = None\<rparr>"

text \<open>One turn of the loop; the reads are behind the length tests of their arms.\<close>

definition functional_step :: "u8 \<times> bytes \<Rightarrow> functional \<Rightarrow> functional option" where
  "functional_step = (\<lambda>(ty, d) f.
     if ty \<noteq> 0x24 \<or> length d < 3 then Some f
     else do {
       sub \<leftarrow> idx d 2;
       if sub = 0x06 \<and> length d \<ge> 5 then do { n \<leftarrow> idx d 4; Some (f\<lparr>fn_data_interface := Some n\<rparr>) }
       else if sub = 0x0f \<and> length d \<ge> 13 then do {
         s \<leftarrow> idx d 3;
         Some (f\<lparr>fn_mac_string := s, fn_max_segment_size := le16 d 8\<rparr>) }
       else if sub = 0x1a \<and> length d \<ge> 6 then do { c \<leftarrow> idx d 5; Some (f\<lparr>fn_ncm_capabilities := Some c\<rparr>) }
       else Some f })"

fun functional_fold :: "(u8 \<times> bytes) list \<Rightarrow> functional \<Rightarrow> functional option" where
  "functional_fold [] f = Some f"
| "functional_fold (d # ds) f = functional_step d f \<bind> functional_fold ds"

definition functional_parse :: "interface_descriptor \<Rightarrow> functional option" where
  "functional_parse comm = functional_fold (descriptors (if_extra comm)) functional_default"

text \<open>\<open>data_interface\<close>: the union descriptor's interface, else the one after the control interface.\<close>

definition data_interface :: "functional \<Rightarrow> config_descriptor \<Rightarrow> u8 \<Rightarrow> u8 option" where
  "data_interface f cfg comm =
     (case (case fn_data_interface f of
              Some n \<Rightarrow> if n \<noteq> comm \<and> cfg_interface cfg n \<noteq> None then Some n else None
            | None \<Rightarrow> None) of
        Some n \<Rightarrow> Some n
      | None \<Rightarrow> if comm = 0xff then None
          else (case cfg_interface cfg (comm + 1) of
                  Some i \<Rightarrow> if (\<exists>a \<in> set (ig_alt_settings i). if_class a = 0x0a) then Some (comm + 1) else None
                | None \<Rightarrow> None))"

section \<open>MAC addresses\<close>

text \<open>A string is its list of code points. \<open>u8::from_str_radix(_, 16)\<close> takes one optional \<open>+\<close> before
  at least one hexadecimal digit; two characters cannot overflow a byte.\<close>

definition white_space :: "nat \<Rightarrow> bool" where
  "white_space c \<longleftrightarrow> (9 \<le> c \<and> c \<le> 13) \<or> c = 32 \<or> c = 0x85 \<or> c = 0xa0 \<or> c = 0x1680 \<or> (0x2000 \<le> c \<and> c \<le> 0x200a)
     \<or> c = 0x2028 \<or> c = 0x2029 \<or> c = 0x202f \<or> c = 0x205f \<or> c = 0x3000"

definition str_trim :: "nat list \<Rightarrow> nat list" where
  "str_trim s = rev (dropWhile white_space (rev (dropWhile white_space s)))"

definition hex_digit :: "nat \<Rightarrow> nat option" where
  "hex_digit c = (if 48 \<le> c \<and> c \<le> 57 then Some (c - 48)
     else if 65 \<le> c \<and> c \<le> 70 then Some (c - 55)
     else if 97 \<le> c \<and> c \<le> 102 then Some (c - 87) else None)"

definition hex_pair :: "nat \<Rightarrow> nat \<Rightarrow> u8 option" where
  "hex_pair a b = (case hex_digit b of
       None \<Rightarrow> None
     | Some l \<Rightarrow> if a = 43 then Some (of_nat l)
         else (case hex_digit a of None \<Rightarrow> None | Some h \<Rightarrow> Some (of_nat (16 * h + l))))"

fun hex_pairs :: "nat list \<Rightarrow> bytes option" where
  "hex_pairs (a # b # s) = do { x \<leftarrow> hex_pair a b; xs \<leftarrow> hex_pairs s; Some (x # xs) }"
| "hex_pairs _ = Some []"

definition parse_mac :: "nat list \<Rightarrow> bytes option" where
  "parse_mac s = (let s = str_trim s in
     if length s \<noteq> 12 \<or> \<not> list_all (\<lambda>c. c < 128) s then None else hex_pairs s)"

section \<open>Notifications\<close>

datatype cdc_notification = Connection bool | Speed u32 u32

definition decode_notification :: "bytes \<Rightarrow> cdc_notification option option" where
  "decode_notification n =
     (if length n < 8 then Some None
      else do {
        b0 \<leftarrow> idx n 0;
        if b0 \<noteq> 0xa1 then Some None
        else do {
          b1 \<leftarrow> idx n 1;
          if b1 = 0 then Some (Some (Connection (le16 n 2 \<noteq> 0)))
          else if b1 = 0x2a \<and> length n \<ge> 16 then Some (Some (Speed (le32 n 8) (le32 n 12)))
          else Some None } })"

section \<open>NCM transfer blocks\<close>

record ntb_parameters =
  ntb_in_max_size :: u32
  ntb_out_max_size :: u32
  ntb_out_divisor :: u16
  ntb_out_remainder :: u16
  ntb_out_alignment :: u16

definition ntb_parse :: "bytes \<Rightarrow> ntb_parameters option" where
  "ntb_parse b =
     (if length b < 28 \<or> le16 b 2 AND 0x01 = 0 then None
      else Some \<lparr>ntb_in_max_size = le32 b 4, ntb_out_max_size = le32 b 16, ntb_out_divisor = le16 b 20,
             ntb_out_remainder = le16 b 22, ntb_out_alignment = le16 b 24\<rparr>)"

definition NTH16_SIGNATURE :: bytes where "NTH16_SIGNATURE = [0x4e, 0x43, 0x4d, 0x48]"
definition NDP16_NO_CRC :: bytes where "NDP16_NO_CRC = [0x4e, 0x43, 0x4d, 0x30]"
definition NDP16_CRC :: bytes where "NDP16_CRC = [0x4e, 0x43, 0x4d, 0x31]"

abbreviation (input) NTH16_LEN :: nat where "NTH16_LEN \<equiv> 12"
abbreviation (input) NDP16_ONE_LEN :: nat where "NDP16_ONE_LEN \<equiv> 16"

definition align_up :: "nat \<Rightarrow> nat \<Rightarrow> nat" where
  "align_up v m = (if m \<le> 1 then v else div_ceil v m * m)"

definition build_ntb16 :: "bytes \<Rightarrow> u16 \<Rightarrow> ntb_parameters \<Rightarrow> nat \<Rightarrow> bytes result option" where
  "build_ntb16 frame sequence p pad_multiple =
     (let ndp = align_up NTH16_LEN (max (unat (ntb_out_alignment p)) 4);
          divisor = max (unat (ntb_out_divisor p)) 1;
          remainder = unat (ntb_out_remainder p) mod divisor;
          data = align_up (ndp + NDP16_ONE_LEN) divisor + remainder;
          total = data + length frame;
          total = (if pad_multiple > 0 \<and> total mod pad_multiple = 0 then total + 1 else total)
      in if total > unat (ntb_out_max_size p) \<or> total > 65535 then Some (Err InvalidParam)
         else do {
           b \<leftarrow> put 0 NTH16_SIGNATURE (replicate total 0);
           b \<leftarrow> put 4 (le_bytes16 (of_nat NTH16_LEN)) b;
           b \<leftarrow> put 6 (le_bytes16 sequence) b;
           b \<leftarrow> put 8 (le_bytes16 (of_nat total)) b;
           b \<leftarrow> put 10 (le_bytes16 (of_nat ndp)) b;
           b \<leftarrow> put ndp NDP16_NO_CRC b;
           b \<leftarrow> put (ndp + 4) (le_bytes16 (of_nat NDP16_ONE_LEN)) b;
           b \<leftarrow> put (ndp + 8) (le_bytes16 (of_nat data)) b;
           b \<leftarrow> put (ndp + 10) (le_bytes16 (of_nat (length frame))) b;
           b \<leftarrow> put data frame b;
           Some (Ok b) })"

text \<open>The entries of one NDP: the frames emitted, and whether the table was well formed.\<close>

function ntb_entries :: "bytes \<Rightarrow> nat \<Rightarrow> bool \<Rightarrow> nat \<Rightarrow> nat \<Rightarrow> (bytes list \<times> bool) option" where
  "ntb_entries b block crc stop entry =
     (if entry + 4 \<le> stop then
        (let index = unat (le16 b entry); len = unat (le16 b (entry + 2)) in
         if index = 0 \<or> len = 0 then Some ([], True)
         else (let len = (if crc then len - 4 else len) in
           if index < NTH16_LEN \<or> index + len > block \<or> len < 14 then Some ([], False)
           else do {
             d \<leftarrow> slice b index (index + len);
             (ds, ok) \<leftarrow> ntb_entries b block crc stop (entry + 4);
             Some (d # ds, ok) }))
      else Some ([], True))"
  by pat_completeness auto
termination by (relation "measure (\<lambda>(b, block, crc, stop, entry). stop - entry)") auto

declare ntb_entries.simps [simp del]

fun ntb_walk :: "nat \<Rightarrow> bytes \<Rightarrow> nat \<Rightarrow> nat \<Rightarrow> (bytes list \<times> bool) option" where
  "ntb_walk 0 b block ndp = Some ([], False)"
| "ntb_walk (Suc n) b block ndp =
     (if ndp = 0 then Some ([], True)
      else if ndp < NTH16_LEN \<or> ndp mod 4 \<noteq> 0 \<or> ndp + 8 > block then Some ([], False)
      else do {
        sig \<leftarrow> slice b ndp (ndp + 4);
        if sig \<noteq> NDP16_NO_CRC \<and> sig \<noteq> NDP16_CRC then Some ([], False)
        else (let len = unat (le16 b (ndp + 4)) in
          if len < 16 \<or> ndp + len > block then Some ([], False)
          else do {
            (ds, ok) \<leftarrow> ntb_entries b block (sig = NDP16_CRC) (ndp + len) (ndp + 8);
            if \<not> ok then Some (ds, False)
            else do {
              (es, ok) \<leftarrow> ntb_walk n b block (unat (le16 b (ndp + 6)));
              Some (ds @ es, ok) } }) })"

definition parse_ntb16 :: "bytes \<Rightarrow> (bytes list \<times> bool) option" where
  "parse_ntb16 b =
     (if length b < NTH16_LEN then Some ([], False)
      else do {
        sig \<leftarrow> slice b 0 4;
        if sig \<noteq> NTH16_SIGNATURE \<or> unat (le16 b 4) \<noteq> NTH16_LEN then Some ([], False)
        else ntb_walk 16 b (min (unat (le16 b 8)) (length b)) (unat (le16 b 10)) })"

section \<open>No access panics\<close>

lemma functional_step_total: "functional_step d f \<noteq> None"
  by (cases d) (simp add: functional_step_def Let_def)

lemma functional_parse_total: "functional_parse comm \<noteq> None"
proof -
  have "functional_fold ds f \<noteq> None" for ds f
    by (induction ds arbitrary: f) (use functional_step_total in \<open>auto simp: bind_eq_None_conv\<close>)
  then show ?thesis by (simp add: functional_parse_def)
qed

lemma decode_notification_total: "decode_notification n \<noteq> None"
proof (cases "length n < 8")
  case False
  then have "idx n 0 = Some (n ! 0)" "idx n 1 = Some (n ! 1)" by (auto intro!: idx_Some)
  then show ?thesis by (simp add: decode_notification_def)
qed (simp add: decode_notification_def)

lemma data_interface_sound:
  assumes "data_interface f cfg comm = Some n"
  shows "n \<noteq> comm" "cfg_interface cfg n \<noteq> None"
  using assms by (auto simp: data_interface_def split: option.splits if_splits)

text \<open>What the parser emits are pieces of the block, after the header, of at least the size of an Ethernet
  header.\<close>

definition frame_in :: "bytes \<Rightarrow> nat \<Rightarrow> bytes \<Rightarrow> bool" where
  "frame_in b block d \<longleftrightarrow> 14 \<le> length d \<and>
     (\<exists>i. NTH16_LEN \<le> i \<and> i + length d \<le> block \<and> d = take (length d) (drop i b))"

lemma ntb_entries_ok:
  assumes "block \<le> length b"
  shows "\<exists>ds ok. ntb_entries b block crc stop entry = Some (ds, ok) \<and> (\<forall>d \<in> set ds. frame_in b block d)
    \<and> length ds \<le> (stop - entry) div 4"
  using assms
proof (induction b block crc stop entry rule: ntb_entries.induct)
  case (1 b block crc stop entry)
  let ?i = "unat (le16 b entry)" and ?l = "unat (le16 b (entry + 2))"
  let ?n = "if crc then ?l - 4 else ?l"
  show ?case
  proof (cases "entry + 4 \<le> stop \<and> ?i \<noteq> 0 \<and> ?l \<noteq> 0 \<and> \<not> (?i < NTH16_LEN \<or> ?i + ?n > block \<or> ?n < 14)")
    case False
    then show ?thesis by (subst ntb_entries.simps) (auto simp: Let_def)
  next
    case True
    obtain ds ok where IH: "ntb_entries b block crc stop (entry + 4) = Some (ds, ok)"
        "\<forall>d \<in> set ds. frame_in b block d" "length ds \<le> (stop - (entry + 4)) div 4"
      using "1.IH" [OF _ refl refl _ refl _ _ "1.prems", of "take ?n (drop ?i b)"] True "1.prems" by (auto simp: slice_def)
    have "frame_in b block (take ?n (drop ?i b))"
      unfolding frame_in_def using True "1.prems" by (auto intro!: exI [of _ ?i] simp: min_absorb2)
    moreover have "(stop - entry) div 4 = Suc ((stop - (entry + 4)) div 4)"
    proof -
      have "stop - entry = (stop - (entry + 4)) + 4" using True by simp
      then show ?thesis by (metis div_add_self2 zero_neq_numeral Suc_eq_plus1)
    qed
    ultimately show ?thesis using True IH "1.prems"
      by (subst ntb_entries.simps) (auto simp: Let_def slice_def)
  qed
qed

lemma ntb_walk_ok:
  assumes "block \<le> length b" "block \<le> 65535"
  shows "\<exists>ds ok. ntb_walk n b block ndp = Some (ds, ok) \<and> (\<forall>d \<in> set ds. frame_in b block d)
    \<and> length ds \<le> n * 16384"
proof (induction n arbitrary: ndp)
  case (Suc n)
  let ?len = "unat (le16 b (ndp + 4))"
  show ?case
  proof (cases "ndp = 0 \<or> ndp < NTH16_LEN \<or> ndp mod 4 \<noteq> 0 \<or> ndp + 8 > block \<or>
      (take 4 (drop ndp b) \<noteq> NDP16_NO_CRC \<and> take 4 (drop ndp b) \<noteq> NDP16_CRC) \<or> ?len < 16 \<or> ndp + ?len > block")
    case True
    then show ?thesis using assms by (auto simp: slice_def Let_def)
  next
    case False
    obtain ds ok where e: "ntb_entries b block (take 4 (drop ndp b) = NDP16_CRC) (ndp + ?len) (ndp + 8) = Some (ds, ok)"
      "\<forall>d \<in> set ds. frame_in b block d" "length ds \<le> (ndp + ?len - (ndp + 8)) div 4"
      using ntb_entries_ok [OF assms(1)] by metis
    then have "length ds \<le> ?len div 4" by (auto elim!: order_trans intro!: div_le_mono)
    then have n: "length ds \<le> 16384" using u16_less [of "le16 b (ndp + 4)"] by linarith
    obtain es ok' where w: "ntb_walk n b block (unat (le16 b (ndp + 6))) = Some (es, ok')"
      "\<forall>d \<in> set es. frame_in b block d" "length es \<le> n * 16384" using Suc.IH by metis
    from False e w n assms show ?thesis by (cases ok) (auto simp: slice_def Let_def)
  qed
qed (auto intro: exI [of _ False])

lemma parse_ntb16_ok:
  "\<exists>ds ok. parse_ntb16 b = Some (ds, ok) \<and> (\<forall>d \<in> set ds. frame_in b (min (unat (le16 b 8)) (length b)) d)
     \<and> length ds \<le> 16 * 16384"
proof -
  let ?block = "min (unat (le16 b 8)) (length b)"
  have "?block \<le> length b" "?block \<le> 65535" using u16_less [of "le16 b 8"] by linarith+
  from ntb_walk_ok [OF this, of 16 "unat (le16 b 10)"] show ?thesis by (auto simp: parse_ntb16_def slice_def)
qed

section \<open>A block read back\<close>

lemma put_gap:
  assumes "length xs \<le> a" "a + length src \<le> length xs + n"
  shows "put a src (xs @ replicate n 0) =
     Some (xs @ replicate (a - length xs) 0 @ src @ replicate (n - (a - length xs) - length src) 0)"
proof -
  have "n = (a - length xs) + (length src + (n - (a - length xs) - length src))" using assms by linarith
  then have "replicate n (0 :: 'a) = replicate (a - length xs) 0 @ replicate (length src) 0
      @ replicate (n - (a - length xs) - length src) 0"
    by (metis replicate_add)
  then show ?thesis using assms by (simp add: put_def)
qed

lemma align_up_ge: "v \<le> align_up v m"
  using div_ceil_mult_ge [of m v] by (simp add: align_up_def)

lemma align_up_dvd: "0 < m \<Longrightarrow> m dvd align_up v m"
  by (cases "m = 1") (auto simp: align_up_def)

text \<open>The layout of a block that carries one frame.\<close>

definition ntb_block :: "bytes \<Rightarrow> u16 \<Rightarrow> nat \<Rightarrow> nat \<Rightarrow> nat \<Rightarrow> bytes" where
  "ntb_block frame sequence ndp data whole =
     NTH16_SIGNATURE @ le_bytes16 12 @ le_bytes16 sequence @ le_bytes16 (of_nat whole) @ le_bytes16 (of_nat ndp)
       @ replicate (ndp - 12) 0
       @ NDP16_NO_CRC @ le_bytes16 16 @ [0, 0] @ le_bytes16 (of_nat data) @ le_bytes16 (of_nat (length frame)) @ [0, 0, 0, 0]
       @ replicate (data - (ndp + 16)) 0 @ frame @ replicate (whole - (data + length frame)) 0"

lemma length_signatures [simp]: "length NTH16_SIGNATURE = 4" "length NDP16_NO_CRC = 4" "length NDP16_CRC = 4"
  by (simp_all add: NTH16_SIGNATURE_def NDP16_NO_CRC_def NDP16_CRC_def)

lemma length_ntb_block:
  "12 \<le> ndp \<Longrightarrow> ndp + 16 \<le> data \<Longrightarrow> data + length frame \<le> whole \<Longrightarrow> length (ntb_block frame s ndp data whole) = whole"
  by (simp add: ntb_block_def)

lemma ntb_puts:
  assumes "12 \<le> ndp" "ndp + 16 \<le> data" "data + length frame \<le> whole"
  shows "do {
           b \<leftarrow> put 0 NTH16_SIGNATURE (replicate whole 0);
           b \<leftarrow> put 4 (le_bytes16 (of_nat NTH16_LEN)) b;
           b \<leftarrow> put 6 (le_bytes16 sequence) b;
           b \<leftarrow> put 8 (le_bytes16 (of_nat whole)) b;
           b \<leftarrow> put 10 (le_bytes16 (of_nat ndp)) b;
           b \<leftarrow> put ndp NDP16_NO_CRC b;
           b \<leftarrow> put (ndp + 4) (le_bytes16 (of_nat NDP16_ONE_LEN)) b;
           b \<leftarrow> put (ndp + 8) (le_bytes16 (of_nat data)) b;
           b \<leftarrow> put (ndp + 10) (le_bytes16 (of_nat (length frame))) b;
           b \<leftarrow> put data frame b;
           Some (Ok b) } = Some (Ok (ntb_block frame sequence ndp data whole))"
proof -
  note gap = put_gap [where 'a = u8]
  let ?p5 = "NTH16_SIGNATURE @ le_bytes16 (of_nat NTH16_LEN) @ le_bytes16 sequence @ le_bytes16 (of_nat whole) @ le_bytes16 (of_nat ndp)"
  let ?p7 = "?p5 @ replicate (ndp - 12) 0 @ NDP16_NO_CRC @ le_bytes16 (of_nat NDP16_ONE_LEN)"
  let ?p9 = "?p7 @ replicate 2 0 @ le_bytes16 (of_nat data) @ le_bytes16 (of_nat (length frame))"
  have 1: "put 0 NTH16_SIGNATURE (replicate whole 0) = Some (NTH16_SIGNATURE @ replicate (whole - 4) 0)"
    using gap [of "[]" 0 NTH16_SIGNATURE whole] assms by simp
  have 2: "put 4 (le_bytes16 (of_nat NTH16_LEN)) (NTH16_SIGNATURE @ replicate (whole - 4) 0) =
      Some ((NTH16_SIGNATURE @ le_bytes16 (of_nat NTH16_LEN)) @ replicate (whole - 6) 0)"
    by (subst gap) (use assms in simp_all)
  have 3: "put 6 (le_bytes16 sequence) ((NTH16_SIGNATURE @ le_bytes16 (of_nat NTH16_LEN)) @ replicate (whole - 6) 0) =
      Some ((NTH16_SIGNATURE @ le_bytes16 (of_nat NTH16_LEN) @ le_bytes16 sequence) @ replicate (whole - 8) 0)"
    by (subst gap) (use assms in simp_all)
  have 4: "put 8 (le_bytes16 (of_nat whole))
        ((NTH16_SIGNATURE @ le_bytes16 (of_nat NTH16_LEN) @ le_bytes16 sequence) @ replicate (whole - 8) 0) =
      Some ((NTH16_SIGNATURE @ le_bytes16 (of_nat NTH16_LEN) @ le_bytes16 sequence @ le_bytes16 (of_nat whole)) @ replicate (whole - 10) 0)"
    by (subst gap) (use assms in simp_all)
  have 5: "put 10 (le_bytes16 (of_nat ndp))
        ((NTH16_SIGNATURE @ le_bytes16 (of_nat NTH16_LEN) @ le_bytes16 sequence @ le_bytes16 (of_nat whole)) @ replicate (whole - 10) 0) =
      Some (?p5 @ replicate (whole - 12) 0)"
    by (subst gap) (use assms in simp_all)
  have 6: "put ndp NDP16_NO_CRC (?p5 @ replicate (whole - 12) 0) =
      Some ((?p5 @ replicate (ndp - 12) 0 @ NDP16_NO_CRC) @ replicate (whole - (ndp + 4)) 0)"
    by (subst gap) (use assms in simp_all)
  have 7: "put (ndp + 4) (le_bytes16 (of_nat NDP16_ONE_LEN)) ((?p5 @ replicate (ndp - 12) 0 @ NDP16_NO_CRC) @ replicate (whole - (ndp + 4)) 0) =
      Some (?p7 @ replicate (whole - (ndp + 6)) 0)"
    by (subst gap) (use assms in simp_all)
  have 8: "put (ndp + 8) (le_bytes16 (of_nat data)) (?p7 @ replicate (whole - (ndp + 6)) 0) =
      Some ((?p7 @ replicate 2 0 @ le_bytes16 (of_nat data)) @ replicate (whole - (ndp + 10)) 0)"
    by (subst gap) (use assms in \<open>simp_all add: numeral_2_eq_2\<close>)
  have 9: "put (ndp + 10) (le_bytes16 (of_nat (length frame)))
        ((?p7 @ replicate 2 0 @ le_bytes16 (of_nat data)) @ replicate (whole - (ndp + 10)) 0) =
      Some (?p9 @ replicate (whole - (ndp + 12)) 0)"
    by (subst gap) (use assms in simp_all)
  have z: "replicate (data - (12 + ndp)) (0 :: u8) = [0, 0, 0, 0] @ replicate (data - (ndp + 16)) 0"
  proof -
    have "data - (12 + ndp) = 4 + (data - (ndp + 16))" using assms by linarith
    then show ?thesis by (simp add: replicate_add numeral_eq_Suc)
  qed
  have 10: "put data frame (?p9 @ replicate (whole - (ndp + 12)) 0) = Some (ntb_block frame sequence ndp data whole)"
    by (subst gap) (use assms z in \<open>simp_all add: ntb_block_def numeral_2_eq_2\<close>)
  show ?thesis unfolding 1 bind.bind_lunit 2 3 4 5 6 7 8 9 10 ..
qed

lemma build_ntb16_cases:
  fixes frame :: bytes and p :: ntb_parameters
  defines "ndp \<equiv> align_up 12 (max (unat (ntb_out_alignment p)) 4)"
    and "divisor \<equiv> max (unat (ntb_out_divisor p)) 1"
  obtains (refused) "build_ntb16 frame sequence p pad = Some (Err InvalidParam)"
  | (built) data whole where "build_ntb16 frame sequence p pad = Some (Ok (ntb_block frame sequence ndp data whole))"
      "12 \<le> ndp" "ndp + 16 \<le> data" "data + length frame \<le> whole" "whole \<le> data + length frame + 1"
      "whole \<le> 65535" "whole \<le> unat (ntb_out_max_size p)" "0 < pad \<Longrightarrow> 1 < pad \<Longrightarrow> whole mod pad \<noteq> 0"
      "data mod divisor = unat (ntb_out_remainder p) mod divisor"
proof -
  let ?r = "unat (ntb_out_remainder p) mod divisor"
  define data where "data = align_up (ndp + 16) divisor + ?r"
  define least where "least = data + length frame"
  define whole where "whole = (if pad > 0 \<and> least mod pad = 0 then least + 1 else least)"
  have b: "12 \<le> ndp" "ndp + 16 \<le> data" "least \<le> whole" "whole \<le> least + 1"
    using align_up_ge [of 12] align_up_ge [of "ndp + 16" divisor] by (auto simp: ndp_def data_def whole_def intro: le_trans)
  have d: "data mod divisor = ?r"
    using align_up_dvd [of divisor "ndp + 16"] by (auto simp: data_def divisor_def mod_eq_0_iff_dvd [symmetric] mod_add_eq dvd_eq_mod_eq_0 mod_add_left_eq [symmetric, of "align_up _ _"])
  have m: "1 < pad \<Longrightarrow> whole mod pad \<noteq> 0" by (auto simp: whole_def mod_Suc)
  have eq: "build_ntb16 frame sequence p pad =
      (if whole > unat (ntb_out_max_size p) \<or> whole > 65535 then Some (Err InvalidParam)
       else Some (Ok (ntb_block frame sequence ndp data whole)))"
    unfolding build_ntb16_def Let_def ndp_def [symmetric] divisor_def [symmetric] data_def [symmetric]
      least_def [symmetric] whole_def [symmetric]
    using ntb_puts [of ndp data frame whole sequence] b by (simp only: least_def)
  show thesis
  proof (cases "whole > unat (ntb_out_max_size p) \<or> whole > 65535")
    case True
    with eq show thesis by (intro refused) (simp only: if_True)
  next
    case False
    with eq have "build_ntb16 frame sequence p pad = Some (Ok (ntb_block frame sequence ndp data whole))"
      by (simp only: if_False)
    then show thesis by (rule built) (use False b d m in \<open>simp_all add: least_def\<close>)
  qed
qed

lemma build_ntb16_total: "build_ntb16 frame sequence p pad \<noteq> None"
  by (rule build_ntb16_cases [of frame sequence p pad]) simp_all

lemma unat_le16_of_nat: "n \<le> 65535 \<Longrightarrow> unat (of_nat n :: u16) = n"
  by (simp only: unsigned_of_nat) (simp add: take_bit_eq_mod)

lemma u16_le_constants: "u16_le 12 0 = 12" "u16_le 16 0 = 16" "u16_le 0 0 = 0"
  by (simp_all add: u16_le_def)

lemma parse_ntb_block:
  assumes "12 \<le> ndp" "4 dvd ndp" "ndp + 16 \<le> data" "data + length frame \<le> whole" "whole \<le> 65535" "14 \<le> length frame"
  shows "parse_ntb16 (ntb_block frame sequence ndp data whole) = Some ([frame], True)"
proof -
  let ?b = "ntb_block frame sequence ndp data whole"
  let ?tail = "NDP16_NO_CRC @ le_bytes16 16 @ [0, 0] @ le_bytes16 (of_nat data) @ le_bytes16 (of_nat (length frame)) @ [0, 0, 0, 0]
       @ replicate (data - (ndp + 16)) 0 @ frame @ replicate (whole - (data + length frame)) 0"
  have len: "length ?b = whole" using assms by (simp add: length_ntb_block)
  have small: "ndp \<le> 65535" "data \<le> 65535" "length frame \<le> 65535" using assms by linarith+
  have tl: "drop ndp ?b = ?tail" using assms by (simp add: ntb_block_def)
  let ?pre = "take ndp ?b @ NDP16_NO_CRC @ le_bytes16 16 @ [0, 0] @ le_bytes16 (of_nat data)
      @ le_bytes16 (of_nat (length frame)) @ [0, 0, 0, 0] @ replicate (data - (ndp + 16)) 0"
  have "?b = ?pre @ frame @ replicate (whole - (data + length frame)) 0"
    using append_take_drop_id [of ndp ?b] unfolding tl by simp
  moreover have "length ?pre = data" using len assms by simp
  ultimately have dat: "take (length frame) (drop data ?b) = frame"
    by (metis append_eq_conv_conj)
  have head: "take 4 ?b = NTH16_SIGNATURE" "le16 ?b 4 = 12" "le16 ?b 8 = of_nat whole" "le16 ?b 10 = of_nat ndp"
    by (simp_all add: ntb_block_def le16_def le_bytes16_def NTH16_SIGNATURE_def u16_le_constants)
  have nd: "take 4 (drop ndp ?b) = NDP16_NO_CRC" "le16 ?b (ndp + 4) = 16" "le16 ?b (ndp + 6) = 0"
    "le16 ?b (ndp + 8) = of_nat data" "le16 ?b (ndp + 10) = of_nat (length frame)" "le16 ?b (ndp + 12) = 0"
    unfolding le16_drop tl by (simp_all add: le16_def le_bytes16_def NDP16_NO_CRC_def u16_le_constants)
  have sums: "ndp + 8 + 2 = ndp + 10" "ndp + 8 + 4 = ndp + 12" "10 + ndp = ndp + 10" "12 + ndp = ndp + 12" by simp_all
  have "ntb_entries ?b whole False (ndp + 16) (ndp + 12) = Some ([], True)"
    by (subst ntb_entries.simps) (simp add: nd)
  then have e: "ntb_entries ?b whole False (ndp + 16) (ndp + 8) = Some ([frame], True)"
    using assms small len dat nd
    by (subst ntb_entries.simps) (auto simp: Let_def unat_le16_of_nat slice_def sums)
  have "ntb_walk 16 ?b whole ndp = Some ([frame], True)"
  proof -
    have w: "ntb_walk (Suc n) ?b whole 0 = Some ([], True)" for n by simp
    have "ntb_walk (Suc (Suc n)) ?b whole ndp = Some ([frame], True)" for n
      unfolding ntb_walk.simps(2) [of "Suc n"]
      using assms len nd e w [of n] by (simp add: slice_def Let_def dvd_eq_mod_eq_0 NDP16_CRC_def NDP16_NO_CRC_def del: ntb_walk.simps)
    from this [of 14]
    show ?thesis by simp
  qed
  then show ?thesis
    using head len assms small by (simp add: parse_ntb16_def slice_def unat_le16_of_nat)
qed

lemma ntb16_roundtrip:
  assumes "14 \<le> length frame" "4 dvd max (unat (ntb_out_alignment p)) 4"
    "build_ntb16 frame sequence p pad = Some (Ok b)"
  shows "parse_ntb16 b = Some ([frame], True)"
proof (rule build_ntb16_cases [of frame sequence p pad])
  fix data whole
  let ?ndp = "align_up 12 (max (unat (ntb_out_alignment p)) 4)"
  assume "build_ntb16 frame sequence p pad = Some (Ok (ntb_block frame sequence ?ndp data whole))"
    and b: "12 \<le> ?ndp" "?ndp + 16 \<le> data" "data + length frame \<le> whole" "whole \<le> 65535"
  then have "b = ntb_block frame sequence ?ndp data whole" using assms(3) by simp
  moreover have "4 dvd ?ndp" using assms(2) align_up_dvd [of "max (unat (ntb_out_alignment p)) 4" 12] by (auto elim: dvd_trans)
  ultimately show ?thesis using parse_ntb_block b assms(1) by metis
qed (use assms in simp)

section \<open>MAC address strings\<close>

definition hex_char :: "nat \<Rightarrow> nat" where
  "hex_char n = (if n < 10 then 48 + n else 55 + n)"

definition mac_string :: "bytes \<Rightarrow> nat list" where
  "mac_string mac = concat (map (\<lambda>b. [hex_char (unat b div 16), hex_char (unat b mod 16)]) mac)"

lemma hex_char_digit: "n < 16 \<Longrightarrow> hex_digit (hex_char n) = Some n \<and> hex_char n \<noteq> 43 \<and> hex_char n < 128 \<and> \<not> white_space (hex_char n)"
  by (auto simp: hex_digit_def hex_char_def white_space_def)

lemma hex_pair_char: "hex_pair (hex_char (unat b div 16)) (hex_char (unat b mod 16)) = Some (b :: u8)"
proof -
  have "unat b div 16 < 16" "unat b mod 16 < 16" using u8_less [of b] by (simp_all add: less_mult_imp_div_less)
  then show ?thesis using hex_char_digit by (simp add: hex_pair_def flip: of_nat_mult of_nat_add)
qed

lemma hex_pairs_mac: "hex_pairs (mac_string mac) = Some mac"
  by (induction mac) (simp_all add: mac_string_def hex_pair_char)

lemma mac_string_chars: "\<forall>c \<in> set (mac_string mac). c < 128 \<and> \<not> white_space c"
proof -
  have "unat b div 16 < 16" "unat b mod 16 < 16" for b :: u8
    using u8_less [of b] by (simp_all add: less_mult_imp_div_less)
  then show ?thesis using hex_char_digit by (auto simp: mac_string_def)
qed

lemma dropWhile_none: "\<forall>c \<in> set s. \<not> P c \<Longrightarrow> dropWhile P s = s"
  by (cases s) auto

lemma length_hex_pairs: "hex_pairs s = Some m \<Longrightarrow> length m = length s div 2"
  by (induction s arbitrary: m rule: hex_pairs.induct) (auto simp: bind_eq_Some_conv)

lemma parse_mac_length: "parse_mac s = Some m \<Longrightarrow> length m = 6"
  by (auto simp: parse_mac_def Let_def dest!: length_hex_pairs split: if_splits)

lemma parse_mac_string: "length mac = 6 \<Longrightarrow> parse_mac (mac_string mac) = Some mac"
proof -
  assume l: "length mac = 6"
  have "length (mac_string mac) = 2 * length mac" by (induction mac) (simp_all add: mac_string_def)
  moreover have "str_trim (mac_string mac) = mac_string mac"
    using mac_string_chars [of mac] by (simp add: str_trim_def dropWhile_none)
  ultimately show ?thesis using l mac_string_chars [of mac]
    by (simp add: parse_mac_def Let_def hex_pairs_mac list_all_iff)
qed

text \<open>The conversion of the standard library lets a sign through, so this is not \<open>twelve hex digits\<close>.\<close>

lemma parse_mac_signs: "parse_mac [43, 49, 43, 50, 43, 51, 43, 52, 43, 53, 43, 54] = Some [1, 2, 3, 4, 5, 6]"
  by (simp add: parse_mac_def str_trim_def white_space_def hex_pair_def hex_digit_def)

end
