(* ===== verification/Net_Rndis.thy ===== *)
theory Net_Rndis
  imports Net_Cdc
begin

text \<open>
  Remote NDIS, \<open>src/src/net/rndis.rs\<close>: the PACKET framing of the data interface, with its round trip
  over any number of packed messages, and the control channel, whose \<open>exchange\<close> sends a request and
  works through up to twenty messages of the device until the reply arrives. The record \<open>rctl\<close> is the
  handle with the mutable part of \<open>Control\<close>; the interface and the notification endpoint are arguments.
\<close>

abbreviation (input) MSG_PACKET :: u32 where "MSG_PACKET \<equiv> 0x00000001"
abbreviation (input) MSG_INIT :: u32 where "MSG_INIT \<equiv> 0x00000002"
abbreviation (input) MSG_HALT :: u32 where "MSG_HALT \<equiv> 0x00000003"
abbreviation (input) MSG_QUERY :: u32 where "MSG_QUERY \<equiv> 0x00000004"
abbreviation (input) MSG_SET :: u32 where "MSG_SET \<equiv> 0x00000005"
abbreviation (input) MSG_INDICATE :: u32 where "MSG_INDICATE \<equiv> 0x00000007"
abbreviation (input) MSG_KEEPALIVE :: u32 where "MSG_KEEPALIVE \<equiv> 0x00000008"
abbreviation (input) COMPLETION :: u32 where "COMPLETION \<equiv> 0x80000000"
abbreviation (input) PACKET_HEADER :: nat where "PACKET_HEADER \<equiv> 44"
abbreviation (input) CONTROL_BUFFER :: nat where "CONTROL_BUFFER \<equiv> 1025"

abbreviation (input) GEN_CURRENT_PACKET_FILTER :: u32 where "GEN_CURRENT_PACKET_FILTER \<equiv> 0x0001010e"
abbreviation (input) GEN_MAXIMUM_FRAME_SIZE :: u32 where "GEN_MAXIMUM_FRAME_SIZE \<equiv> 0x00010106"
abbreviation (input) GEN_LINK_SPEED :: u32 where "GEN_LINK_SPEED \<equiv> 0x00010107"
abbreviation (input) GEN_MEDIA_CONNECT_STATUS :: u32 where "GEN_MEDIA_CONNECT_STATUS \<equiv> 0x00010114"
abbreviation (input) PERMANENT_ADDRESS :: u32 where "PERMANENT_ADDRESS \<equiv> 0x01010101"

section \<open>Packets\<close>

definition build_packet :: "bytes \<Rightarrow> nat \<Rightarrow> bytes" where
  "build_packet frame pad_multiple =
     (let total = PACKET_HEADER + length frame;
          b = le_bytes32 MSG_PACKET @ le_bytes32 (of_nat total) @ le_bytes32 (of_nat (PACKET_HEADER - 8))
            @ le_bytes32 (of_nat (length frame));
          b = resize PACKET_HEADER b @ frame
      in if pad_multiple > 0 \<and> total mod pad_multiple = 0 then b @ [0] else b)"

text \<open>The slices passed to \<open>emit\<close>, and the result; sums of two 32-bit values cannot overflow a
  \<open>usize\<close>, so \<open>checked_add\<close> succeeds.\<close>

function parse_packets :: "bytes \<Rightarrow> (bytes list \<times> bool) option" where
  "parse_packets b =
     (if 8 \<le> length b then
        (let ty = le32 b 0; len = unat (le32 b 4) in
         if ty = 0 \<and> len = 0 then Some ([], True)
         else if ty \<noteq> MSG_PACKET \<or> len < PACKET_HEADER \<or> len > length b then Some ([], False)
         else (let offset = 8 + unat (le32 b 8); stop = offset + unat (le32 b 12) in
           if offset \<ge> PACKET_HEADER \<and> stop \<le> len then do {
             d \<leftarrow> slice b offset stop;
             (ds, ok) \<leftarrow> parse_packets (drop len b);
             Some (d # ds, ok) }
           else Some ([], False)))
      else Some ([], True))"
  by pat_completeness auto
termination by (relation "measure length") auto

declare parse_packets.simps [simp del]

definition indicated_link :: "bytes \<Rightarrow> bool option" where
  "indicated_link msg =
     (if length msg < 12 \<or> le32 msg 0 \<noteq> MSG_INDICATE then None
      else if le32 msg 8 = 0x4001000b then Some True
      else if le32 msg 8 = 0x4001000c then Some False
      else None)"

section \<open>The control channel\<close>

record 'k rctl =
  rc_handle :: "'k handle"
  rc_next_id :: u32
  rc_link :: "bool option"

definition rctl_new :: "'k handle \<Rightarrow> 'k rctl" where
  "rctl_new h = \<lparr>rc_handle = h, rc_next_id = 1, rc_link = None\<rparr>"

abbreviation on_rc :: "('k handle, 'a) io \<Rightarrow> ('k rctl, 'a) io" where
  "on_rc m \<equiv> zoom rc_handle (\<lambda>h c. c\<lparr>rc_handle := h\<rparr>) m"

definition rndis_send :: "'k sys \<Rightarrow> u8 \<Rightarrow> bytes \<Rightarrow> ('k rctl, unit) io" where
  "rndis_send S interface msg =
     bindR (on_rc (control_write S (request_type Out Class RInterface) 0x00 0 (ucast interface) msg 5000))
       (\<lambda>_. ret ())"

definition await_response :: "'k sys \<Rightarrow> u8 option \<Rightarrow> ('k rctl, unit) io" where
  "await_response S notify_ep = (case notify_ep of
      Some ep \<Rightarrow> matchR (on_rc (interrupt_read S ep (replicate 64 0) 500))
        (\<lambda>_. ret ()) (\<lambda>e. if is_timeout e then ret () else failE e)
    | None \<Rightarrow> ret ())"

text \<open>What the loop does with a message: the reply it waits for ends it, anything else is dealt with.\<close>

definition on_message :: "'k sys \<Rightarrow> u8 \<Rightarrow> u32 \<Rightarrow> u32 \<Rightarrow> bytes \<Rightarrow> ('k rctl, bytes option) io" where
  "on_message S interface msg_type rid reply =
     (if length reply < 12 then ret None
      else (let ty = le32 reply 0 in
        if ty = msg_type OR COMPLETION \<and> le32 reply 8 = rid then
          (if length reply \<ge> 16 \<and> le32 reply 12 \<noteq> 0 then failK Io else ret (Some reply))
        else (case indicated_link reply of
            Some up \<Rightarrow> bindR (mod_st (\<lambda>c. c\<lparr>rc_link := Some up\<rparr>)) (\<lambda>_. ret None)
          | None \<Rightarrow>
              if ty = MSG_KEEPALIVE then
                bindR (rndis_send S interface
                    (le_bytes32 (MSG_KEEPALIVE OR COMPLETION) @ le_bytes32 16 @ le_bytes32 (le32 reply 8) @ le_bytes32 0))
                  (\<lambda>_. ret None)
              else ret None)))"

fun exchange_loop ::
  "nat \<Rightarrow> 'k sys \<Rightarrow> u8 \<Rightarrow> u8 option \<Rightarrow> u32 \<Rightarrow> u32 \<Rightarrow> bytes \<Rightarrow> ('k rctl, bytes) io" where
  "exchange_loop 0 S interface notify_ep msg_type rid buf = failK Timeout"
| "exchange_loop (Suc n) S interface notify_ep msg_type rid buf =
     bindR (await_response S notify_ep) (\<lambda>_.
     matchR (on_rc (control_read S (request_type In Class RInterface) 0x01 0 (ucast interface) buf 5000))
       (\<lambda>(got, buf).
         bindR (lift_opt (slice buf 0 got)) (\<lambda>reply.
         bindR (on_message S interface msg_type rid reply) (\<lambda>r. case r of
             Some reply \<Rightarrow> ret reply
           | None \<Rightarrow> exchange_loop n S interface notify_ep msg_type rid buf)))
       (\<lambda>e. if is_stall e then exchange_loop n S interface notify_ep msg_type rid buf else failE e))"

definition next_request_id :: "u32 \<Rightarrow> u32" where
  "next_request_id rid = max (rid + 1) 1"

definition exchange :: "'k sys \<Rightarrow> u8 \<Rightarrow> u8 option \<Rightarrow> u32 \<Rightarrow> bytes \<Rightarrow> ('k rctl, bytes) io" where
  "exchange S interface notify_ep msg_type body =
     bindR (get_st rc_next_id) (\<lambda>rid.
     bindR (mod_st (\<lambda>c. c\<lparr>rc_next_id := next_request_id rid\<rparr>)) (\<lambda>_.
     bindR (rndis_send S interface (le_bytes32 msg_type @ le_bytes32 (of_nat (12 + length body)) @ le_bytes32 rid @ body)) (\<lambda>_.
     exchange_loop 20 S interface notify_ep msg_type rid (replicate CONTROL_BUFFER 0))))"

definition rndis_initialize :: "'k sys \<Rightarrow> u8 \<Rightarrow> u8 option \<Rightarrow> u32 \<Rightarrow> ('k rctl, u32) io" where
  "rndis_initialize S interface notify_ep host_max_transfer =
     bindR (exchange S interface notify_ep MSG_INIT (le_bytes32 1 @ le_bytes32 0 @ le_bytes32 host_max_transfer)) (\<lambda>r.
       if length r < 40 then failK Io else ret (le32 r 36))"

definition rndis_query :: "'k sys \<Rightarrow> u8 \<Rightarrow> u8 option \<Rightarrow> u32 \<Rightarrow> nat \<Rightarrow> ('k rctl, bytes) io" where
  "rndis_query S interface notify_ep oid expect =
     bindR (exchange S interface notify_ep MSG_QUERY
        (resize (16 + expect) (le_bytes32 oid @ le_bytes32 (of_nat expect) @ le_bytes32 20 @ le_bytes32 0))) (\<lambda>r.
       let len = unat (le32 r 16); off = 8 + unat (le32 r 20)
       in case slice r off (off + len) of Some v \<Rightarrow> ret v | None \<Rightarrow> failK Io)"

definition rndis_set :: "'k sys \<Rightarrow> u8 \<Rightarrow> u8 option \<Rightarrow> u32 \<Rightarrow> bytes \<Rightarrow> ('k rctl, unit) io" where
  "rndis_set S interface notify_ep oid value =
     bindR (exchange S interface notify_ep MSG_SET
        (le_bytes32 oid @ le_bytes32 (of_nat (length value)) @ le_bytes32 20 @ le_bytes32 0 @ value)) (\<lambda>_. ret ())"

definition rndis_query_u32 :: "'k sys \<Rightarrow> u8 \<Rightarrow> u8 option \<Rightarrow> u32 \<Rightarrow> ('k rctl, u32) io" where
  "rndis_query_u32 S interface notify_ep oid =
     bindR (rndis_query S interface notify_ep oid 4) (\<lambda>v. if length v < 4 then failK Io else ret (le32 v 0))"

definition rndis_halt :: "'k sys \<Rightarrow> u8 \<Rightarrow> ('k rctl, unit) io" where
  "rndis_halt S interface =
     bindR (get_st rc_next_id) (\<lambda>rid. rndis_send S interface (le_bytes32 MSG_HALT @ le_bytes32 12 @ le_bytes32 rid))"

section \<open>Packets read back\<close>

lemma unat_of_nat32: "n < 4294967296 \<Longrightarrow> unat (of_nat n :: u32) = n"
  by (simp only: unsigned_of_nat) (simp add: take_bit_eq_mod)

text \<open>One PACKET message in front of anything.\<close>

definition packet :: "bytes \<Rightarrow> bytes" where
  "packet frame = le_bytes32 MSG_PACKET @ le_bytes32 (of_nat (PACKET_HEADER + length frame)) @ le_bytes32 36
     @ le_bytes32 (of_nat (length frame)) @ replicate 28 0 @ frame"

lemma length_packet [simp]: "length (packet frame) = 44 + length frame"
  by (simp add: packet_def)

lemma parse_packet:
  assumes "44 + length frame < 4294967296" "parse_packets rest = Some (ds, ok)"
  shows "parse_packets (packet frame @ rest) = Some (frame # ds, ok)"
proof -
  have n: "unat (of_nat (44 + length frame) :: u32) = 44 + length frame" "unat (of_nat (length frame) :: u32) = length frame"
    using assms by (simp_all only: unat_of_nat32)
  have h: "le32 (packet frame @ rest) 0 = 1" "unat (le32 (packet frame @ rest) 4) = 44 + length frame"
    "le32 (packet frame @ rest) 8 = 36" "unat (le32 (packet frame @ rest) 12) = length frame"
    using n by (simp_all add: packet_def le32_bytes le32_bytes_numeral del: of_nat_add)
  have d: "drop 44 (packet frame) = frame" by (simp add: packet_def)
  show ?thesis using assms(2) by (subst parse_packets.simps) (simp add: h d slice_def)
qed

lemma build_packet_eq:
  "build_packet frame pad = packet frame @ (if pad > 0 \<and> (44 + length frame) mod pad = 0 then [0] else [])"
  by (simp add: build_packet_def packet_def Let_def resize_def)

text \<open>Many messages in one transfer, with zero padding behind them.\<close>

lemma parse_packets_zero: "parse_packets (replicate n 0) = Some ([], True)"
proof -
  have "byte_at (replicate n 0) i = (0 :: u8)" for i by (cases "i < n") simp_all
  then have "le32 (replicate n 0) i = 0" for i by (simp add: le32_u32 u32_le_def)
  then show ?thesis by (subst parse_packets.simps) simp
qed

lemma parse_packets_concat:
  assumes "\<forall>f \<in> set fs. 44 + length f < 4294967296"
  shows "parse_packets (concat (map packet fs) @ replicate n 0) = Some (fs, True)"
  using assms
proof (induction fs)
  case Nil
  then show ?case by (simp add: parse_packets_zero)
next
  case (Cons f fs)
  then show ?case using parse_packet [of f "concat (map packet fs) @ replicate n 0" fs True] by simp
qed

lemma packet_roundtrip:
  "44 + length frame < 4294967296 \<Longrightarrow> parse_packets (build_packet frame pad) = Some ([frame], True)"
  using parse_packets_concat [of "[frame]" 1] parse_packets_concat [of "[frame]" 0] by (simp add: build_packet_eq)

text \<open>What is emitted lies in the transfer; nothing panics.\<close>

lemma parse_packets_ok:
  "\<exists>ds ok. parse_packets b = Some (ds, ok) \<and> (\<forall>d \<in> set ds. \<exists>i. 44 \<le> i \<and> i + length d \<le> length b \<and> d = take (length d) (drop i b))
     \<and> 44 * length ds \<le> length b"
proof (induction b rule: parse_packets.induct)
  case (1 b)
  let ?len = "unat (le32 b 4)" and ?off = "8 + unat (le32 b 8)" and ?n = "unat (le32 b 12)"
  show ?case
  proof (cases "8 \<le> length b \<and> \<not> (le32 b 0 = 0 \<and> ?len = 0) \<and> \<not> (le32 b 0 \<noteq> 1 \<or> ?len < 44 \<or> ?len > length b)
      \<and> ?off \<ge> 44 \<and> ?off + ?n \<le> ?len")
    case False
    then show ?thesis by (subst parse_packets.simps) (auto simp: Let_def)
  next
    case True
    then obtain ds ok where IH: "parse_packets (drop ?len b) = Some (ds, ok)"
        "\<forall>d \<in> set ds. \<exists>i. 44 \<le> i \<and> i + length d \<le> length b - ?len \<and> d = take (length d) (drop i (drop ?len b))"
        "44 * length ds \<le> length b - ?len"
      using "1.IH" [OF _ refl refl _ _ refl refl, of "take ?n (drop ?off b)"] by (auto simp: slice_def)
    have r: "\<exists>i. 44 \<le> i \<and> i + length d \<le> length b \<and> d = take (length d) (drop i b)" if "d \<in> set ds" for d
    proof -
      from IH(2) that obtain i where "44 \<le> i" "i + length d \<le> length b - ?len" "d = take (length d) (drop i (drop ?len b))"
        by blast
      then show ?thesis using True by (intro exI [of _ "i + ?len"]) (auto simp: add.commute)
    qed
    have "\<exists>i. 44 \<le> i \<and> i + length (take ?n (drop ?off b)) \<le> length b
        \<and> take ?n (drop ?off b) = take (length (take ?n (drop ?off b))) (drop i b)"
      using True by (intro exI [of _ ?off]) (auto simp: min_def)
    then show ?thesis using True IH(1,3) r
      by (subst parse_packets.simps) (auto simp: Let_def slice_def)
  qed
qed

section \<open>The control channel leaves the claims alone and does not panic\<close>

abbreviation rc_kept :: "('k rctl, 'a) io \<Rightarrow> bool" where
  "rc_kept m \<equiv> keeps (\<lambda>c. claims (rc_handle c)) m"

lemma rc_kept_on_rc [keeping]: "claims_kept m \<Longrightarrow> rc_kept (on_rc m)"
  by (rule keeps_zoom_claims) simp_all

lemma rc_kept_send [keeping]: "rc_kept (rndis_send S interface msg)"
  unfolding rndis_send_def by (intro keeping kept)

lemma rc_kept_on_message [keeping]: "rc_kept (on_message S interface ty i reply)"
  unfolding on_message_def by (intro keeping) simp_all

lemma rc_kept_exchange_loop [keeping]: "rc_kept (exchange_loop n S interface notify_ep ty i buf)"
proof (induction n arbitrary: buf)
  case (Suc n)
  show ?case unfolding exchange_loop.simps await_response_def by (intro keeping kept Suc.IH)
qed (simp only: exchange_loop.simps keeps_basic)

lemma rc_kept_exchange [keeping]: "rc_kept (exchange S interface notify_ep ty body)"
  unfolding exchange_def by (intro keeping) simp

lemma rc_kept_requests [keeping]:
  "rc_kept (rndis_initialize S interface notify_ep mx)" "rc_kept (rndis_query S interface notify_ep oid n)"
  "rc_kept (rndis_set S interface notify_ep oid v)" "rc_kept (rndis_query_u32 S interface notify_ep oid)"
  "rc_kept (rndis_halt S interface)"
  unfolding rndis_initialize_def rndis_query_def rndis_set_def rndis_query_u32_def rndis_halt_def
  by (intro keeping)+

lemma calm_rndis_send [calm]: "calmly (rndis_send S interface msg)"
  unfolding rndis_send_def by (intro calm)

lemma calm_on_message [calm]: "calmly (on_message S interface ty i reply)"
  unfolding on_message_def by (intro calm)

lemma calm_await [calm]: "sys_ok S \<Longrightarrow> calmly (await_response S notify_ep)"
  unfolding await_response_def by (intro calm) simp_all

text \<open>A reply is read into the buffer, so taking it out of the buffer is in range.\<close>

lemma calm_read_reply:
  assumes "sys_ok S" "\<And>reply buf. length buf = length b0 \<Longrightarrow> calmly (f reply buf)" "\<And>e. calmly (g e)"
  shows "calmly (matchR (on_rc (control_read S rt r v i b0 t))
     (\<lambda>(got, buf). bindR (lift_opt (slice buf 0 got)) (\<lambda>reply. f reply buf)) g)"
  unfolding safe_def
proof (intro allI impI)
  fix c :: "'a rctl"
  obtain q h where q: "control_read S rt r v i b0 t (rc_handle c) = (q, h)" by (cases "control_read S rt r v i b0 t (rc_handle c)")
  have np: "q \<noteq> Panic" using calm_control_read [OF assms(1), of rt r v i b0 t] q by (auto simp: calm_not_Panic)
  note z = zoom_run [of "control_read S rt r v i b0 t" rc_handle c, OF q, of "\<lambda>h c. c\<lparr>rc_handle := h\<rparr>"]
  show "fst (matchR (on_rc (control_read S rt r v i b0 t))
     (\<lambda>(got, buf). bindR (lift_opt (slice buf 0 got)) (\<lambda>reply. f reply buf)) g c) \<noteq> Panic \<and> True"
  proof (cases q)
    case (Val p)
    obtain got buf where p: "p = (got, buf)" by (cases p)
    with control_read_Val [OF assms(1), of rt r v i b0 t "rc_handle c" got buf h] q Val
    have "got \<le> length b0" "length buf = length b0" by auto
    with assms(2) z Val p show ?thesis by (auto simp: matchR_def bindR_def safe_def)
  next
    case (Fail e)
    with assms(3) z show ?thesis by (auto simp: matchR_def safe_def)
  qed (use np in simp)
qed

lemma calm_exchange_loop [calm]:
  assumes "sys_ok S"
  shows "calmly (exchange_loop n S interface notify_ep ty i buf)"
proof (induction n arbitrary: buf)
  case (Suc n)
  show ?case unfolding exchange_loop.simps
    by (intro calm_bindR calm_await assms calm_read_reply calm_on_message calm_case_option calm_basic calm_if Suc.IH)
qed (simp only: exchange_loop.simps calm_basic)

lemma calm_exchange [calm]: "sys_ok S \<Longrightarrow> calmly (exchange S interface notify_ep ty body)"
  unfolding exchange_def by (intro calm)

lemma calm_requests [calm]:
  assumes "sys_ok S"
  shows "calmly (rndis_initialize S interface notify_ep mx)" "calmly (rndis_query S interface notify_ep oid n)"
    "calmly (rndis_set S interface notify_ep oid v)" "calmly (rndis_query_u32 S interface notify_ep oid)"
    "calmly (rndis_halt S interface)"
  unfolding rndis_initialize_def rndis_query_def rndis_set_def rndis_query_u32_def rndis_halt_def
  by (intro calm assms)+

section \<open>Replies are matched to requests\<close>

lemma on_message_reply:
  assumes "on_message S interface ty i reply c = (Val (Some r), c')"
  shows "r = reply \<and> 12 \<le> length r \<and> le32 r 0 = ty OR COMPLETION \<and> le32 r 8 = i \<and> (16 \<le> length r \<longrightarrow> le32 r 12 = 0)"
  using assms by (auto simp: on_message_def Let_def bindR_eq_Val split: if_splits option.splits)

lemma exchange_loop_reply:
  "exchange_loop n S interface notify_ep ty i buf c = (Val r, c') \<Longrightarrow>
     12 \<le> length r \<and> le32 r 0 = ty OR COMPLETION \<and> le32 r 8 = i \<and> (16 \<le> length r \<longrightarrow> le32 r 12 = 0)"
proof (induction n arbitrary: buf c)
  case (Suc n)
  have IH: "\<And>buf c. exchange_loop n S interface notify_ep ty i buf c = (Val r, c') \<Longrightarrow> ?case" by (rule Suc.IH)
  from Suc.prems show ?case
    by (auto simp: bindR_eq_Val matchR_eq split: option.splits if_splits dest: on_message_reply IH)
qed simp

lemma exchange_reply:
  assumes "exchange S interface notify_ep ty body c = (Val r, c')"
  shows "12 \<le> length r" "le32 r 0 = ty OR COMPLETION" "le32 r 8 = rc_next_id c" "16 \<le> length r \<longrightarrow> le32 r 12 = 0"
  using assms by (auto simp: exchange_def bindR_eq_Val dest: exchange_loop_reply)

text \<open>Request identifiers are never 0, and the next one differs from the last.\<close>

lemma next_request_id: "next_request_id i \<noteq> 0" "next_request_id i \<noteq> i"
proof -
  have a: "max x 1 \<noteq> 0" for x :: u32 by (auto simp: max_def word_le_nat_alt)
  then show "next_request_id i \<noteq> 0" by (simp add: next_request_id_def)
  have "i + 1 \<noteq> i" by simp
  moreover have "i + 1 = 0 \<Longrightarrow> i \<noteq> 1" by auto
  ultimately show "next_request_id i \<noteq> i"
    by (auto simp: next_request_id_def max_def word_le_nat_alt split: if_splits)
qed

text \<open>An exchange moves the identifier on once, whatever comes of it, and sends its request with the old one.\<close>

lemma id_kept_on_rc [keeping]: "keeps rc_next_id (on_rc m)"
  by (simp add: keeps_def zoom_def split: prod.split)

lemma id_kept_send [keeping]: "keeps rc_next_id (rndis_send S interface msg)"
  unfolding rndis_send_def by (intro keeping)

lemma id_kept_on_message [keeping]: "keeps rc_next_id (on_message S interface ty i reply)"
  unfolding on_message_def by (intro keeping) simp_all

lemma id_kept_exchange_loop [keeping]: "keeps rc_next_id (exchange_loop n S interface notify_ep ty i buf)"
proof (induction n arbitrary: buf)
  case (Suc n)
  show ?case unfolding exchange_loop.simps await_response_def by (intro keeping Suc.IH)
qed (simp only: exchange_loop.simps keeps_basic)

lemma exchange_next_id:
  assumes "exchange S interface notify_ep ty body c = (q, c')"
  shows "rc_next_id c' = next_request_id (rc_next_id c)"
proof -
  let ?c = "c\<lparr>rc_next_id := next_request_id (rc_next_id c)\<rparr>"
  let ?rest = "bindR (rndis_send S interface (le_bytes32 ty @ le_bytes32 (of_nat (12 + length body)) @ le_bytes32 (rc_next_id c) @ body))
    (\<lambda>_. exchange_loop 20 S interface notify_ep ty (rc_next_id c) (replicate CONTROL_BUFFER 0))"
  have "keeps rc_next_id ?rest" by (intro keeping)
  moreover have "?rest ?c = (q, c')" using assms by (simp add: exchange_def bindR_def)
  ultimately show ?thesis using keepsD [of rc_next_id ?rest ?c q c'] by simp
qed

lemma exchange_sent:
  assumes "exchange S interface notify_ep ty body c = (Val r, c')"
  shows "\<exists>n buf k. let msg = le_bytes32 ty @ le_bytes32 (of_nat (12 + length body)) @ le_bytes32 (rc_next_id c) @ body in
    sys_transfer S Control 0 (setup_to_bytes (setup_raw (request_type Out Class RInterface) 0 0 (ucast interface) (of_nat (length msg))) @ msg)
      5000 (h_world (rc_handle c)) = (Ok (Completed, n, buf), k)"
proof -
  define msg where "msg = le_bytes32 ty @ le_bytes32 (of_nat (12 + length body)) @ le_bytes32 (rc_next_id c) @ body"
  obtain u c1 where "rndis_send S interface msg (c\<lparr>rc_next_id := next_request_id (rc_next_id c)\<rparr>) = (Val u, c1)"
    using assms by (auto simp: exchange_def bindR_eq_Val msg_def)
  then obtain n h where "control_write S (request_type Out Class RInterface) 0 0 (ucast interface) msg 5000 (rc_handle c) = (Val n, h)"
    by (auto simp: rndis_send_def bindR_eq_Val zoom_def split: prod.splits)
  from control_write_sent [OF this] show ?thesis by (auto simp: Let_def msg_def)
qed

end
