(* ===== verification/Net_Device.thy ===== *)
theory Net_Device
  imports Net_Rndis
begin

text \<open>
  The network device of \<open>src/src/net/mod.rs\<close>: finding and opening a network function, the state its
  callbacks share (\<open>Shared\<close>: the frame queue or handler, the link, the counters), receiving, sending,
  the packet filter and closing. A \<open>nic\<close> holds what never changes after opening; \<open>net_mut\<close> is the
  rest, and \<open>'k net\<close> puts the handle beside it. Frames given to the handler are recorded in
  \<open>sh_handled\<close>, which stands for the calls of the handler. Counters and frame sizes are the code's machine integers.
\<close>

abbreviation (input) RX_QUEUE :: nat where "RX_QUEUE \<equiv> 256"
abbreviation (input) TX_QUEUE :: nat where "TX_QUEUE \<equiv> 32"
abbreviation (input) RX_TRANSFERS :: nat where "RX_TRANSFERS \<equiv> 8"
abbreviation (input) RX_BLOCK :: u32 where "RX_BLOCK \<equiv> 32768"
abbreviation (input) MAX_RX_ERRORS :: nat where "MAX_RX_ERRORS \<equiv> 64"
abbreviation (input) DEFAULT_MAX_FRAME :: nat where "DEFAULT_MAX_FRAME \<equiv> 1514"

section \<open>Finding network functions\<close>

datatype net_kind = Ecm | Ncm | Rndis

record net_interface =
  ni_interface :: u8
  ni_kind :: net_kind

definition kind_of :: "interface_descriptor \<Rightarrow> net_kind option" where
  "kind_of a =
     (let c = if_class a; s = if_sub_class a; p = if_protocol a in
      if c = 0x02 \<and> s = 0x06 then Some Ecm
      else if c = 0x02 \<and> s = 0x0d then Some Ncm
      else if (c = 0xe0 \<and> s = 0x01 \<and> p = 0x03) \<or> (c = 0xef \<and> s = 0x04 \<and> p = 0x01) \<or> (c = 0x02 \<and> s = 0x02 \<and> p = 0xff)
      then Some Rndis else None)"

definition net_interfaces :: "'l device_info \<Rightarrow> net_interface list result option" where
  "net_interfaces d = map_option (\<lambda>r. case r of
       Inl e \<Rightarrow> Inl e
     | Inr as \<Rightarrow> Ok (List.map_filter (\<lambda>a. map_option (\<lambda>k. \<lparr>ni_interface = if_number a, ni_kind = k\<rparr>) (kind_of a)) as))
     (interfaces_where d (\<lambda>a. kind_of a \<noteq> None))"

section \<open>What the callbacks share\<close>

record link_state =
  ls_connected :: "bool option"
  ls_down_bps :: "u64 option"
  ls_up_bps :: "u64 option"

record net_stats =
  st_rx_frames :: u64
  st_rx_bytes :: u64
  st_tx_frames :: u64
  st_tx_bytes :: u64
  st_rx_dropped :: u64
  st_tx_dropped :: u64
  st_errors :: u64

definition stats_zero :: net_stats where
  "stats_zero = \<lparr>st_rx_frames = 0, st_rx_bytes = 0, st_tx_frames = 0, st_tx_bytes = 0, st_rx_dropped = 0,
     st_tx_dropped = 0, st_errors = 0\<rparr>"

definition count_rx :: "nat \<Rightarrow> net_stats \<Rightarrow> net_stats" where
  "count_rx n c = c\<lparr>st_rx_frames := st_rx_frames c + 1, st_rx_bytes := st_rx_bytes c + of_nat n\<rparr>"

definition count_tx :: "nat \<Rightarrow> net_stats \<Rightarrow> net_stats" where
  "count_tx n c = c\<lparr>st_tx_frames := st_tx_frames c + 1, st_tx_bytes := st_tx_bytes c + of_nat n\<rparr>"

definition count_rx_drop :: "net_stats \<Rightarrow> net_stats" where
  "count_rx_drop c = c\<lparr>st_rx_dropped := st_rx_dropped c + 1\<rparr>"

definition count_tx_drop :: "net_stats \<Rightarrow> net_stats" where
  "count_tx_drop c = c\<lparr>st_tx_dropped := st_tx_dropped c + 1\<rparr>"

definition count_error :: "net_stats \<Rightarrow> net_stats" where
  "count_error c = c\<lparr>st_errors := st_errors c + 1\<rparr>"

record net_shared =
  sh_handler :: bool
  sh_handled :: "bytes list"
  sh_queue :: "bytes list"
  sh_ended :: "error_kind option"
  sh_link :: link_state
  sh_stats :: net_stats
  sh_tx_in_flight :: nat

definition shared_new :: "link_state \<Rightarrow> net_shared" where
  "shared_new link = \<lparr>sh_handler = False, sh_handled = [], sh_queue = [], sh_ended = None, sh_link = link,
     sh_stats = stats_zero, sh_tx_in_flight = 0\<rparr>"

definition tally :: "(net_stats \<Rightarrow> net_stats) \<Rightarrow> net_shared \<Rightarrow> net_shared" where
  "tally f sh = sh\<lparr>sh_stats := f (sh_stats sh)\<rparr>"

definition deliver_frame :: "bytes \<Rightarrow> net_shared \<Rightarrow> net_shared" where
  "deliver_frame frame sh =
     (if length frame < 14 then tally count_error sh
      else (let sh = tally (count_rx (length frame)) sh in
        if sh_handler sh then sh\<lparr>sh_handled := sh_handled sh @ [frame]\<rparr>
        else if length (sh_queue sh) < RX_QUEUE then sh\<lparr>sh_queue := sh_queue sh @ [frame]\<rparr>
        else tally count_rx_drop sh))"

definition net_end :: "error_kind \<Rightarrow> net_shared \<Rightarrow> net_shared" where
  "net_end why sh = (if sh_ended sh = None then sh\<lparr>sh_ended := Some why\<rparr> else sh)"

section \<open>Receiving\<close>

text \<open>The callback of a receive transfer; its result says whether the transfer goes on. \<open>failures\<close> is
  the counter the closure owns.\<close>

definition rx_frames :: "net_kind \<Rightarrow> bytes \<Rightarrow> (bytes list \<times> bool) option" where
  "rx_frames kind data = (case kind of
      Ecm \<Rightarrow> Some (if data \<noteq> [] then [data] else [], True)
    | Ncm \<Rightarrow> if data = [] then Some ([], True) else parse_ntb16 data
    | Rndis \<Rightarrow> parse_packets data)"

definition rx_data :: "net_kind \<Rightarrow> bytes \<Rightarrow> net_shared \<Rightarrow> net_shared option" where
  "rx_data kind data sh = do {
     (frames, ok) \<leftarrow> rx_frames kind data;
     let sh = fold deliver_frame frames sh in Some (if ok then sh else tally count_error sh) }"

definition rx_complete ::
  "net_kind \<Rightarrow> unit transfer \<Rightarrow> nat \<times> net_shared \<Rightarrow> ((nat \<times> net_shared) \<times> bool) option" where
  "rx_complete kind t = (\<lambda>(failures, sh). case tr_status t of
      Completed \<Rightarrow> (case get_data t of
          (Val data, _) \<Rightarrow> do { sh \<leftarrow> rx_data kind data sh; Some ((0, sh), True) }
        | (Fail _, _) \<Rightarrow> Some ((0, sh), True)
        | (Panic, _) \<Rightarrow> None)
    | Cancelled \<Rightarrow> Some ((failures, sh), False)
    | StNoDevice \<Rightarrow> Some ((failures, net_end NoDevice sh), False)
    | _ \<Rightarrow> (let sh = tally count_error sh; failures = failures + 1 in
        if failures \<ge> MAX_RX_ERRORS then Some ((failures, net_end Io sh), False)
        else Some ((failures, sh), True)))"

text \<open>The callback of the notification transfer.\<close>

definition note_link :: "cdc_notification option \<Rightarrow> net_shared \<Rightarrow> net_shared" where
  "note_link n sh = (case n of
      Some (Connection up) \<Rightarrow> sh\<lparr>sh_link := (sh_link sh)\<lparr>ls_connected := Some up\<rparr>\<rparr>
    | Some (Speed down up) \<Rightarrow>
        sh\<lparr>sh_link := (sh_link sh)\<lparr>ls_down_bps := Some (ucast down), ls_up_bps := Some (ucast up)\<rparr>\<rparr>
    | None \<Rightarrow> sh)"

definition notification_complete :: "unit transfer \<Rightarrow> net_shared \<Rightarrow> (net_shared \<times> bool) option" where
  "notification_complete t sh =
     (if tr_status t \<noteq> Completed then Some (sh, False)
      else (case get_data t of
          (Val data, _) \<Rightarrow> do { n \<leftarrow> decode_notification data; Some (note_link n sh, True) }
        | (Fail _, _) \<Rightarrow> Some (sh, True)
        | (Panic, _) \<Rightarrow> None))"

text \<open>\<open>recv\<close>: one pass under the lock, and the loop. Each element of \<open>wakes\<close> is what the other threads
  do to the shared state before the next wake-up; at the end of the list the deadline has passed.\<close>

definition recv_pass :: "net_shared \<Rightarrow> bytes result option \<times> net_shared" where
  "recv_pass sh = (case sh_queue sh of
      f # q \<Rightarrow> (Some (Ok f), sh\<lparr>sh_queue := q\<rparr>)
    | [] \<Rightarrow> (map_option Err (sh_ended sh), sh))"

fun net_recv :: "(net_shared \<Rightarrow> net_shared) list \<Rightarrow> net_shared \<Rightarrow> bytes result \<times> net_shared" where
  "net_recv wakes sh = (case recv_pass sh of
      (Some r, sh) \<Rightarrow> (r, sh)
    | (None, sh) \<Rightarrow> (case wakes of [] \<Rightarrow> (Err Timeout, sh) | w # ws \<Rightarrow> net_recv ws (w sh)))"

section \<open>Sending\<close>

datatype framing = FramingEcm | FramingNcm ntb_parameters | FramingRndis

record nic =
  nc_claim :: helper_claim
  nc_kind :: net_kind
  nc_mac :: bytes
  nc_max_frame :: nat
  nc_ep_out :: u8
  nc_out_packet :: nat
  nc_framing :: framing

text \<open>The critical sections of \<open>send\<close>, in order: the checks, the framing (which takes a sequence number),
  the reservation of a place in the queue, and the end of the submission. \<open>sequence\<close> wraps.\<close>

definition send_check :: "nic \<Rightarrow> bytes \<Rightarrow> net_shared \<Rightarrow> unit result \<times> net_shared" where
  "send_check N frame sh =
     (if length frame < 14 \<or> length frame > nc_max_frame N then (Err InvalidParam, tally count_tx_drop sh)
      else if sh_ended sh \<noteq> None then (Err NoDevice, tally count_tx_drop sh)
      else (Ok (), sh))"

definition send_wire :: "nic \<Rightarrow> bytes \<Rightarrow> u16 \<Rightarrow> (bytes result \<times> u16) option" where
  "send_wire N frame sequence = (case nc_framing N of
      FramingEcm \<Rightarrow> Some (Ok (if length frame mod nc_out_packet N = 0 then frame @ [0] else frame), sequence)
    | FramingNcm p \<Rightarrow> map_option (\<lambda>r. (r, sequence + 1)) (build_ntb16 frame sequence p (nc_out_packet N))
    | FramingRndis \<Rightarrow> Some (Ok (build_packet frame (nc_out_packet N)), sequence))"

definition tx_reserve :: "net_shared \<Rightarrow> bool \<times> net_shared" where
  "tx_reserve sh = (sh_tx_in_flight sh < TX_QUEUE, sh\<lparr>sh_tx_in_flight := sh_tx_in_flight sh + 1\<rparr>)"

definition tx_give_back :: "net_shared \<Rightarrow> net_shared" where
  "tx_give_back sh = tally count_tx_drop (sh\<lparr>sh_tx_in_flight := sh_tx_in_flight sh - 1\<rparr>)"

definition tx_complete :: "nat \<Rightarrow> transfer_status \<Rightarrow> net_shared \<Rightarrow> net_shared" where
  "tx_complete len st sh =
     (let sh = sh\<lparr>sh_tx_in_flight := sh_tx_in_flight sh - 1\<rparr> in
      if st = Completed then tally (count_tx len) sh
      else tally count_error (tally count_tx_drop sh))"

text \<open>\<open>send\<close> with no other thread in between; the second component of the result is what was submitted.\<close>

definition net_send ::
  "nic \<Rightarrow> bytes \<Rightarrow> unit result \<Rightarrow> u16 \<times> net_shared \<Rightarrow> ((unit result \<times> bytes option) \<times> u16 \<times> net_shared) option" where
  "net_send N frame submitted = (\<lambda>(sq, sh). case send_check N frame sh of
      (Inl e, sh) \<Rightarrow> Some ((Inl e, None), sq, sh)
    | (Inr _, sh) \<Rightarrow> do {
        (wire, sq) \<leftarrow> send_wire N frame sq;
        Some (case wire of
            Inl e \<Rightarrow> ((Inl e, None), sq, tally count_tx_drop sh)
          | Inr w \<Rightarrow> (case tx_reserve sh of
              (False, sh) \<Rightarrow> ((Err Busy, None), sq, tx_give_back sh)
            | (True, sh) \<Rightarrow> (case submitted of
                Inl e \<Rightarrow> ((Inl e, None), sq, tx_give_back sh)
              | Inr _ \<Rightarrow> ((Ok (), Some w), sq, sh)))) })"

section \<open>The control side\<close>

datatype control_state = CdcControl u8 bool | RndisControl u8 "u8 option" u32 "bool option"

record net_mut =
  nm_control :: control_state
  nm_shared :: net_shared
  nm_sequence :: u16
  nm_running :: "u8 list"

type_synonym 'k net = "'k handle \<times> net_mut"

abbreviation on_net :: "('k handle, 'a) io \<Rightarrow> ('k net, 'a) io" where
  "on_net m \<equiv> on_handle m"

text \<open>Runs an operation of the RNDIS control channel on the device's state.\<close>

definition on_rndis :: "u8 \<Rightarrow> u8 option \<Rightarrow> u32 \<Rightarrow> bool option \<Rightarrow> ('k rctl, 'a) io \<Rightarrow> ('k net, 'a) io" where
  "on_rndis interface notify_ep next_id link m = (\<lambda>(h, n).
     (case m \<lparr>rc_handle = h, rc_next_id = next_id, rc_link = link\<rparr> of
        (r, c) \<Rightarrow> (r, (rc_handle c, n\<lparr>nm_control := RndisControl interface notify_ep (rc_next_id c) (rc_link c)\<rparr>))))"

definition set_filter :: "'k sys \<Rightarrow> bool \<Rightarrow> ('k net, unit) io" where
  "set_filter S promiscuous = bindR (get_st (\<lambda>(h, n). nm_control n)) (\<lambda>control. case control of
      CdcControl interface filter_supported \<Rightarrow>
        (if \<not> filter_supported then (if promiscuous then failK NotSupported else ret ())
         else matchR (on_net (control_write S (request_type Out Class RInterface) 0x43
                ((0x04 OR 0x08 OR 0x02) OR (if promiscuous then 0x01 else 0)) (ucast interface) [] 5000))
           (\<lambda>_. ret ())
           (\<lambda>e. if is_stall e \<and> \<not> promiscuous then ret () else failE e))
    | RndisControl interface notify_ep next_id link \<Rightarrow>
        on_rndis interface notify_ep next_id link
          (rndis_set S interface notify_ep GEN_CURRENT_PACKET_FILTER
             (le_bytes32 ((0x01 OR 0x08 OR 0x04) OR (if promiscuous then 0x20 else 0)))))"

definition set_receive_handler :: "net_shared \<Rightarrow> net_shared" where
  "set_receive_handler sh = sh\<lparr>sh_handler := True\<rparr>"

definition clear_receive_handler :: "net_shared \<Rightarrow> net_shared" where
  "clear_receive_handler sh = sh\<lparr>sh_handler := False\<rparr>"

text \<open>\<open>close\<close>: the receive transfers end first, then the queue is told, then the device.\<close>

definition net_close :: "'k sys \<Rightarrow> 'k async \<Rightarrow> ('k net, unit) io" where
  "net_close S A =
     bindR (get_st (\<lambda>(h, n). nm_running n)) (\<lambda>running.
     bindR (mod_st (\<lambda>(h, n). (h, n\<lparr>nm_running := []\<rparr>))) (\<lambda>_.
     bindR (on_net (stop_all A running)) (\<lambda>_.
     bindR (mod_st (\<lambda>(h, n). (h, n\<lparr>nm_shared := net_end NoDevice (nm_shared n)\<rparr>))) (\<lambda>_.
     bindR (get_st (\<lambda>(h, n). nm_control n)) (\<lambda>control. case control of
         RndisControl interface notify_ep next_id link \<Rightarrow>
           if running = [] then ret ()
           else on_rndis interface notify_ep next_id link
             (bindR (ignoreR (rndis_set S interface notify_ep GEN_CURRENT_PACKET_FILTER (le_bytes32 0)))
               (\<lambda>_. ignoreR (rndis_halt S interface)))
       | CdcControl _ _ \<Rightarrow> ret ())))))"

section \<open>Opening\<close>

definition read_mac :: "'k sys \<Rightarrow> u8 \<Rightarrow> ('k handle, bytes) io" where
  "read_mac S index =
     (if index = 0 then failK Io
      else bindR (read_string S index) (\<lambda>s. case parse_mac s of Some mac \<Rightarrow> ret mac | None \<Rightarrow> failK Io))"

record net_setup =
  ns_framing :: framing
  ns_control :: control_state
  ns_mac :: bytes
  ns_max_frame :: nat
  ns_rx_size :: nat
  ns_link :: link_state

text \<open>The \<open>Ecm | Ncm\<close> arm of \<open>open_interface\<close>; its NCM part is \<open>ncm_parameters\<close>.\<close>

definition ncm_parameters :: "'k sys \<Rightarrow> u8 \<Rightarrow> functional \<Rightarrow> ('k handle, ntb_parameters \<times> nat) io" where
  "ncm_parameters S interface f =
     bindR (control_read S (request_type In Class RInterface) 0x80 0 (ucast interface) (replicate 28 0) 5000) (\<lambda>(n, b).
     bindR (lift_opt (slice b 0 n)) (\<lambda>b. case ntb_parse b of
         None \<Rightarrow> failK NotSupported
       | Some p \<Rightarrow>
           if ntb_in_max_size p > RX_BLOCK then
             bindR (control_write S (request_type Out Class RInterface) 0x86 0 (ucast interface)
                (le_bytes32 RX_BLOCK @ (case fn_ncm_capabilities f of
                    Some c \<Rightarrow> if c AND 0x20 \<noteq> 0 then [0, 0, 0, 0] else [] | None \<Rightarrow> [])) 5000)
               (\<lambda>_. ret (p, unat RX_BLOCK))
           else ret (p, unat (ntb_in_max_size p))))"

definition cdc_setup ::
  "'k sys \<Rightarrow> net_kind \<Rightarrow> u8 \<Rightarrow> u8 \<Rightarrow> functional \<Rightarrow> nat \<Rightarrow> ('k handle, net_setup) io" where
  "cdc_setup S kind interface data_number f in_packet =
     bindR (set_alternate_setting S data_number 0) (\<lambda>_.
     bindR (if kind = Ncm
            then bindR (ncm_parameters S interface f) (\<lambda>(p, rx). ret (FramingNcm p, rx))
            else ret (FramingEcm, div_ceil (max (unat (fn_max_segment_size f)) DEFAULT_MAX_FRAME) in_packet * in_packet + in_packet))
       (\<lambda>(framing, rx).
     bindR (read_mac S (fn_mac_string f)) (\<lambda>mac.
       ret \<lparr>ns_framing = framing,
            ns_control = CdcControl interface (kind = Ecm \<or>
              (case fn_ncm_capabilities f of Some c \<Rightarrow> c AND 0x01 \<noteq> 0 | None \<Rightarrow> False)),
            ns_mac = mac,
            ns_max_frame = (if fn_max_segment_size f \<ge> 60 then unat (fn_max_segment_size f) else DEFAULT_MAX_FRAME),
            ns_rx_size = rx,
            ns_link = \<lparr>ls_connected = None, ls_down_bps = None, ls_up_bps = None\<rparr>\<rparr>)))"

text \<open>The \<open>Rndis\<close> arm.\<close>

definition rndis_max_frame :: "u32 option \<Rightarrow> u32 \<Rightarrow> nat" where
  "rndis_max_frame answer max_transfer =
     min (case answer of
            Some payload \<Rightarrow> if 46 \<le> unat payload \<and> unat payload \<le> 9000 then unat payload + 14 else DEFAULT_MAX_FRAME
          | None \<Rightarrow> DEFAULT_MAX_FRAME)
       (max (unat max_transfer - PACKET_HEADER) 60)"

definition attempt :: "('s, 'a) io \<Rightarrow> ('s, 'a option) io" where
  "attempt m = matchR m (\<lambda>x. ret (Some x)) (\<lambda>_. ret None)"

definition rndis_setup :: "'k sys \<Rightarrow> u8 \<Rightarrow> u8 option \<Rightarrow> ('k rctl, net_setup) io" where
  "rndis_setup S interface notify_ep =
     bindR (rndis_initialize S interface notify_ep RX_BLOCK) (\<lambda>max_transfer.
     bindR (rndis_query S interface notify_ep PERMANENT_ADDRESS 6) (\<lambda>mac_bytes.
     case slice mac_bytes 0 6 of
       None \<Rightarrow> failK Io
     | Some mac \<Rightarrow>
         bindR (attempt (rndis_query_u32 S interface notify_ep GEN_MAXIMUM_FRAME_SIZE)) (\<lambda>size.
         bindR (attempt (rndis_query_u32 S interface notify_ep GEN_MEDIA_CONNECT_STATUS)) (\<lambda>status.
         bindR (get_st rc_link) (\<lambda>seen.
         bindR (attempt (rndis_query_u32 S interface notify_ep GEN_LINK_SPEED)) (\<lambda>speed.
         bindR (get_st (\<lambda>c. RndisControl interface notify_ep (rc_next_id c) (rc_link c))) (\<lambda>control.
         let bps = map_option (\<lambda>s. ucast s * 100 :: u64) speed in
         ret \<lparr>ns_framing = FramingRndis, ns_control = control, ns_mac = mac,
              ns_max_frame = rndis_max_frame size max_transfer, ns_rx_size = unat RX_BLOCK,
              ns_link = \<lparr>ls_connected = (if seen \<noteq> None then seen else map_option (\<lambda>s. s = 0) status),
                         ls_down_bps = bps, ls_up_bps = bps\<rparr>\<rparr>)))))))"

definition with_rctl :: "('k rctl, 'a) io \<Rightarrow> ('k handle, 'a) io" where
  "with_rctl m = (\<lambda>h. case m (rctl_new h) of (r, c) \<Rightarrow> (r, rc_handle c))"

text \<open>\<open>Repeating::start\<close> on a fresh transfer: only the backend can refuse it (\<open>fresh_transfer_submits\<close>).\<close>

definition start_repeating :: "'k async \<Rightarrow> transfer_type \<Rightarrow> u8 \<Rightarrow> nat \<Rightarrow> ('k net, unit) io" where
  "start_repeating A kind ep sz =
     bindR (on_net (on_sys (as_submit A kind ep sz)))
       (\<lambda>_. mod_st (\<lambda>(h, n). (h, n\<lparr>nm_running := nm_running n @ [ep]\<rparr>)))"

definition start_notifications :: "'k async \<Rightarrow> u8 \<Rightarrow> nat \<Rightarrow> ('k net, unit) io" where
  "start_notifications A ep sz = start_repeating A Interrupt ep (max sz 16)"

definition start_receiving :: "'k async \<Rightarrow> u8 \<Rightarrow> nat \<Rightarrow> ('k net, unit) io" where
  "start_receiving A ep sz = for_each (replicate RX_TRANSFERS ep) (\<lambda>ep. start_repeating A Bulk ep sz)"

text \<open>What follows the construction of the \<open>NetDevice\<close>; when it fails the device is dropped, that is, closed.\<close>

definition net_run :: "'k sys \<Rightarrow> 'k async \<Rightarrow> net_kind \<Rightarrow> u8 \<Rightarrow> u8 \<Rightarrow> (u8 \<times> nat) option \<Rightarrow> u8 \<Rightarrow> nat \<Rightarrow> ('k net, unit) io" where
  "net_run S A kind data_number alt notify_ep ep_in rx_size =
     bindR (set_filter S False) (\<lambda>_.
     bindR (if kind \<noteq> Rndis then
              bindR (on_net (set_alternate_setting S data_number alt)) (\<lambda>_. case notify_ep of
                  Some (ep, sz) \<Rightarrow> start_notifications A ep sz
                | None \<Rightarrow> ret ())
            else ret ())
       (\<lambda>_. start_receiving A ep_in rx_size))"

definition or_close :: "'k sys \<Rightarrow> 'k async \<Rightarrow> ('k net, 'a) io \<Rightarrow> ('k net, 'a) io" where
  "or_close S A m = (\<lambda>s. case m s of (Val x, s) \<Rightarrow> (Val x, s) | (r, s) \<Rightarrow> (r, snd (net_close S A s)))"

record net_endpoints =
  ne_in :: u8
  ne_in_packet :: nat
  ne_out :: u8
  ne_out_packet :: nat
  ne_notify :: "(u8 \<times> nat) option"

definition net_start ::
  "'k sys \<Rightarrow> 'k async \<Rightarrow> net_kind \<Rightarrow> u8 \<Rightarrow> u8 \<Rightarrow> u8 \<Rightarrow> functional \<Rightarrow> net_endpoints \<Rightarrow> helper_claim
     \<Rightarrow> ('k handle, nic \<times> net_mut) io" where
  "net_start S A kind interface data_number alt f E c =
     bindR (if kind = Rndis then with_rctl (rndis_setup S interface (map_option fst (ne_notify E)))
            else cdc_setup S kind interface data_number f (ne_in_packet E)) (\<lambda>s.
       on_new_device \<lparr>nm_control = ns_control s, nm_shared = shared_new (ns_link s), nm_sequence = 0, nm_running = []\<rparr>
         (\<lambda>n. (\<lparr>nc_claim = c, nc_kind = kind, nc_mac = ns_mac s, nc_max_frame = ns_max_frame s,
            nc_ep_out = ne_out E, nc_out_packet = ne_out_packet E, nc_framing = ns_framing s\<rparr>, n))
         (or_close S A (net_run S A kind data_number alt (ne_notify E) (ne_in E) (ns_rx_size s))))"

definition net_endpoints_of :: "interface_descriptor \<Rightarrow> interface_descriptor \<Rightarrow> net_endpoints option" where
  "net_endpoints_of comm data = (case (endpoint_of data In Bulk, endpoint_of data Out Bulk) of
      (Some i, Some out) \<Rightarrow> Some \<lparr>ne_in = ep_address i, ne_in_packet = max (unat (ep_packet_size i)) 1,
         ne_out = ep_address out, ne_out_packet = max (unat (ep_packet_size out)) 1,
         ne_notify = map_option (\<lambda>e. (ep_address e, unat (ep_max_packet_size e))) (endpoint_of comm In Interrupt)\<rparr>
    | _ \<Rightarrow> None)"

definition net_open_interface ::
  "'k sys \<Rightarrow> 'k async \<Rightarrow> 'l device_info \<Rightarrow> u8 \<Rightarrow> ('k handle, nic \<times> net_mut) io" where
  "net_open_interface S A d interface =
     bindR (lift_panic (active_config d)) (\<lambda>cfg.
     bindR (lift_panic (interface_of d interface)) (\<lambda>comm. case kind_of comm of
         None \<Rightarrow> failK InvalidParam
       | Some kind \<Rightarrow> bindR (lift_opt (functional_parse comm)) (\<lambda>f. case data_interface f cfg interface of
           None \<Rightarrow> failK Io
         | Some data_number \<Rightarrow>
             (case (case cfg_interface cfg data_number of None \<Rightarrow> None
                    | Some i \<Rightarrow> find (\<lambda>a. endpoint_of a In Bulk \<noteq> None \<and> endpoint_of a Out Bulk \<noteq> None) (ig_alt_settings i)) of
                None \<Rightarrow> failK Io
              | Some data \<Rightarrow> (case net_endpoints_of comm data of
                  None \<Rightarrow> failK Io
                | Some E \<Rightarrow> open_with S [interface, data_number]
                    (net_start S A kind interface data_number (if_alternate_setting data) f E))))))"

definition net_open ::
  "'k sys \<Rightarrow> 'k async \<Rightarrow> ('k, unit) sysop \<Rightarrow> 'l device_info \<Rightarrow> 'k \<Rightarrow> ((nic \<times> net_mut) \<times> 'k handle) out \<times> 'k" where
  "net_open S A opn d = open_first S opn (first_of NotFound (net_interfaces d)) (\<lambda>i. net_open_interface S A d (ni_interface i))"

text \<open>Dropping the device: it is closed, and then its claim is dropped.\<close>

definition net_drop :: "'k sys \<Rightarrow> 'k async \<Rightarrow> nic \<Rightarrow> 'k net \<Rightarrow> 'k handle" where
  "net_drop S A N s = claim_drop S (nc_claim N) (fst (snd (net_close S A s)))"

section \<open>Opening and closing keep the books\<close>

abbreviation net_kept :: "('k net, 'a) io \<Rightarrow> bool" where
  "net_kept m \<equiv> keeps (\<lambda>s. claims (fst s)) m"

lemma net_kept_on_rndis [keeping]: "rc_kept m \<Longrightarrow> net_kept (on_rndis i e nid l m)"
  unfolding keeps_def by (auto simp: on_rndis_def split: prod.split) (metis rctl.select_convs(1) snd_conv)

lemma net_kept_set_filter [keeping]: "net_kept (set_filter S p)"
  unfolding set_filter_def by (intro keeping kept) (simp split: control_state.split, intro conjI impI allI keeping kept)

lemma net_kept_close [keeping]: "net_kept (net_close S A)"
  unfolding net_close_def
  by (intro keeping kept) (auto split: control_state.split intro!: keeping)

lemma net_kept_run: "net_kept (net_run S A kind dn alt ne ep_in rx)"
proof -
  have r: "net_kept (start_repeating A k ep sz)" for k ep sz
    unfolding start_repeating_def by (intro keeping kept) auto
  show ?thesis unfolding net_run_def start_receiving_def start_notifications_def by (intro keeping kept r)
qed

lemma net_kept_or_close: "net_kept m \<Longrightarrow> net_kept (or_close S A m)"
proof -
  assume m: "net_kept m"
  show ?thesis
  proof (unfold keeps_def, rule allI)
    fix s
    obtain r s1 where r: "m s = (r, s1)" by (cases "m s")
    have "claims (fst (snd (net_close S A s1))) = claims (fst s1)"
      using net_kept_close [of S A] by (simp only: keeps_def)
    with keepsD [OF m r] show "claims (fst (snd (or_close S A m s))) = claims (fst s)"
      by (cases r) (simp_all add: or_close_def r)
  qed
qed

lemma kept_read_descriptor [kept]: "claims_kept (read_descriptor S ty i l b t)"
  unfolding read_descriptor_def by (intro kept)

lemma kept_read_string [kept]: "claims_kept (read_string S index)"
proof -
  have r: "claims_kept (read_string_raw S i l t)" for i l t
    unfolding read_string_raw_def read_string_retry_def Let_def by (intro kept)
  have m: "claims_kept (mod_st (\<lambda>h. h\<lparr>h_language := l\<rparr>))" for l
    by (simp add: claims_kept_def)
  show ?thesis
    unfolding read_string_def string_language_def read_languages_def read_string_descriptor_def
    by (intro kept r m)
qed

lemma kept_cdc_setup: "claims_kept (cdc_setup S kind i dn f n)"
  unfolding cdc_setup_def ncm_parameters_def read_mac_def by (intro kept)

lemma rc_kept_rndis_setup: "rc_kept (rndis_setup S i e)"
  unfolding rndis_setup_def attempt_def by (intro keeping)

lemma kept_with_rctl: "rc_kept m \<Longrightarrow> claims_kept (with_rctl m)"
  unfolding claims_kept_keeps keeps_def by (auto simp: with_rctl_def rctl_new_def split: prod.split)
    (metis rctl.select_convs(1) snd_conv)

lemma net_start_kept: "claims_kept (net_start S A kind i dn alt f E c)"
  unfolding net_start_def
  by (intro kept_bindR kept_if kept_with_rctl rc_kept_rndis_setup kept_cdc_setup kept_on_new_device
      net_kept_or_close net_kept_run)

interpretation net_class: class_device S "[interface, data_number]"
  "net_start S A kind interface data_number alt f E" "nc_claim \<circ> fst"
  for S A kind interface data_number alt f E
proof unfold_locales
  fix c h d h'
  show "claims_kept (net_start S A kind interface data_number alt f E c)" by (rule net_start_kept)
  assume "net_start S A kind interface data_number alt f E c h = (Val d, h')"
  then show "(nc_claim \<circ> fst) d = c"
    by (auto simp: net_start_def bindR_eq_Val dest!: on_new_device_Val)
qed

end
