(* ===== verification/Net_Flow.thy ===== *)
theory Net_Flow
  imports Net_Device "HOL-Library.Sublist" "HOL-Library.Multiset"
begin

text \<open>
  Frames through a network device. First the composition of the framings: what \<open>send\<close> puts on the wire
  is what the receive callback at the other end takes out of it. Then the machine \<open>net_step\<close>, which
  interleaves the critical sections of any number of threads in \<open>send\<close>, the completions of their
  transfers, the receive and notification callbacks, \<open>recv\<close>, changes of the handler and \<open>close\<close>. Its
  invariant says that no frame is lost or duplicated without being counted, that frames stay in
  order, and that the two queues respect their bounds.
\<close>

section \<open>The framings\<close>

lemma rx_frames_total: "rx_frames kind data \<noteq> None"
  using parse_ntb16_ok [of data] parse_packets_ok [of data] by (auto simp: rx_frames_def split: net_kind.split)

lemma rx_data_total: "rx_data kind data sh \<noteq> None"
  using rx_frames_total [of kind data] by (auto simp: rx_data_def Let_def)

definition same_kind :: "framing \<Rightarrow> net_kind \<Rightarrow> bool" where
  "same_kind fr k \<longleftrightarrow> (case fr of FramingEcm \<Rightarrow> k = Ecm | FramingNcm p \<Rightarrow> k = Ncm \<and> 4 dvd max (unat (ntb_out_alignment p)) 4
     | FramingRndis \<Rightarrow> k = Rndis)"

text \<open>The frame itself, except that ECM has no length field: there a frame that fills its packets
  exactly arrives with the padding byte.\<close>

definition padded :: "nic \<Rightarrow> bytes \<Rightarrow> bytes" where
  "padded N frame = (if nc_framing N = FramingEcm \<and> length frame mod nc_out_packet N = 0 then frame @ [0] else frame)"

lemma wire_roundtrip:
  assumes "same_kind (nc_framing N) kind" "14 \<le> length frame" "length frame < 2 ^ 31"
    "send_wire N frame sq = Some (Ok w, sq')"
  shows "rx_frames kind w = Some ([padded N frame], True)"
proof (cases "nc_framing N")
  case FramingEcm
  moreover have "frame \<noteq> []" using assms(2) by auto
  ultimately show ?thesis using assms
    by (auto simp: same_kind_def send_wire_def rx_frames_def padded_def split: if_splits)
next
  case (FramingNcm p)
  with assms have k: "kind = Ncm" "4 dvd max (unat (ntb_out_alignment p)) 4"
    and b: "build_ntb16 frame sq p (nc_out_packet N) = Some (Ok w)"
    by (auto simp: same_kind_def send_wire_def)
  from ntb16_roundtrip [OF assms(2) k(2) b] have "parse_ntb16 w = Some ([frame], True)" .
  moreover from this have "w \<noteq> []" by (auto simp: parse_ntb16_def)
  ultimately show ?thesis using FramingNcm k by (simp add: rx_frames_def padded_def)
next
  case FramingRndis
  with assms packet_roundtrip [of frame "nc_out_packet N"] show ?thesis
    by (auto simp: same_kind_def send_wire_def rx_frames_def padded_def)
qed

lemma send_receive:
  assumes "same_kind (nc_framing N) kind" "length frame < 2 ^ 31"
    "net_send N frame submitted (sq, sh) = Some ((Ok (), Some w), st)"
  shows "rx_data kind w peer = Some (deliver_frame (padded N frame) peer)"
proof -
  obtain c sh1 where c: "send_check N frame sh = (c, sh1)" by (cases "send_check N frame sh")
  with assms(3) have ok: "c = Ok ()" by (cases c) (auto simp: net_send_def)
  with c have l: "14 \<le> length frame" by (auto simp: send_check_def split: if_splits)
  from c ok assms(3) obtain r sq' where w: "send_wire N frame sq = Some (r, sq')"
    by (cases "send_wire N frame sq") (auto simp: net_send_def)
  have "r = Ok w"
  proof (cases r)
    case (Inr x)
    with w c ok assms(3) show ?thesis
      by (cases "sh_tx_in_flight sh1 < TX_QUEUE"; cases submitted) (simp_all add: net_send_def tx_reserve_def)
  qed (use w c ok assms(3) in \<open>simp add: net_send_def\<close>)
  with w have "send_wire N frame sq = Some (Ok w, sq')" by simp
  from wire_roundtrip [OF assms(1) l assms(2) this] show ?thesis by (simp add: rx_data_def)
qed

section \<open>Delivery\<close>

text \<open>Where the frames that arrived are: handed over, taken, waiting, or dropped and counted.\<close>

definition rx_ok :: "bytes list \<Rightarrow> bytes list \<Rightarrow> net_shared \<Rightarrow> bool" where
  "rx_ok arrived taken sh \<longleftrightarrow>
     length (sh_queue sh) \<le> RX_QUEUE \<and> st_rx_frames (sh_stats sh) = of_nat (length arrived)
     \<and> subseq (taken @ sh_queue sh) arrived \<and> subseq (sh_handled sh) arrived
     \<and> (\<exists>lost. mset arrived = mset (sh_handled sh) + mset (taken @ sh_queue sh) + mset lost \<and> subseq lost arrived
          \<and> st_rx_dropped (sh_stats sh) = of_nat (length lost))"

definition ethernet :: "bytes list \<Rightarrow> bytes list" where
  "ethernet fs = filter (\<lambda>f. 14 \<le> length f) fs"

lemma subseq_snoc: "subseq xs ys \<Longrightarrow> subseq xs (ys @ [y])" "subseq xs ys \<Longrightarrow> subseq (xs @ [y]) (ys @ [y])"
  by (auto intro: subseq_append' subseq_append_iff [THEN iffD2])

lemma rx_ok_tally:
  assumes "rx_ok arrived taken sh" "st_rx_frames (f (sh_stats sh)) = st_rx_frames (sh_stats sh)"
    "st_rx_dropped (f (sh_stats sh)) = st_rx_dropped (sh_stats sh)"
  shows "rx_ok arrived taken (tally f sh)"
  using assms by (simp add: rx_ok_def tally_def)

lemma deliver_ok:
  assumes "rx_ok arrived taken sh"
  shows "rx_ok (arrived @ ethernet [f]) taken (deliver_frame f sh)"
proof -
  from assms obtain lost where a: "length (sh_queue sh) \<le> RX_QUEUE" "st_rx_frames (sh_stats sh) = of_nat (length arrived)"
    "subseq (taken @ sh_queue sh) arrived" "subseq (sh_handled sh) arrived"
    "mset arrived = mset (sh_handled sh) + mset (taken @ sh_queue sh) + mset lost" "subseq lost arrived"
    "st_rx_dropped (sh_stats sh) = of_nat (length lost)" by (auto simp: rx_ok_def)
  consider "length f < 14" | "14 \<le> length f" "sh_handler sh"
    | "14 \<le> length f" "\<not> sh_handler sh" "length (sh_queue sh) < RX_QUEUE"
    | "14 \<le> length f" "\<not> sh_handler sh" "length (sh_queue sh) \<ge> RX_QUEUE" by linarith
  then show ?thesis
  proof cases
    case 1
    then show ?thesis using rx_ok_tally [OF assms, of count_error]
      by (simp add: deliver_frame_def ethernet_def count_error_def)
  next
    case 2
    then show ?thesis using a subseq_snoc(1) [OF a(3), of f] subseq_snoc(2) [OF a(4), of f] subseq_snoc(1) [OF a(6), of f]
      by (auto simp: rx_ok_def deliver_frame_def ethernet_def tally_def count_rx_def Let_def intro!: exI [of _ lost])
  next
    case 3
    then show ?thesis using a subseq_snoc(2) [OF a(3), of f] subseq_snoc(1) [OF a(4), of f] subseq_snoc(1) [OF a(6), of f]
      by (auto simp: rx_ok_def deliver_frame_def ethernet_def tally_def count_rx_def Let_def intro!: exI [of _ lost])
  next
    case 4
    then show ?thesis using a subseq_snoc(1) [OF a(3), of f] subseq_snoc(1) [OF a(4), of f] subseq_snoc(2) [OF a(6), of f]
      by (auto simp: rx_ok_def deliver_frame_def ethernet_def tally_def count_rx_def count_rx_drop_def Let_def
          intro!: exI [of _ "lost @ [f]"])
  qed
qed

lemma delivers_ok: "rx_ok arrived taken sh \<Longrightarrow> rx_ok (arrived @ ethernet fs) taken (fold deliver_frame fs sh)"
proof (induction fs arbitrary: arrived sh)
  case (Cons f fs)
  from Cons.IH [OF deliver_ok [OF Cons.prems, of f]] show ?case by (simp add: ethernet_def split: if_splits)
qed (simp add: ethernet_def)

text \<open>Receiving does not touch what sending looks at.\<close>

definition tx_view :: "net_shared \<Rightarrow> nat \<times> error_kind option \<times> u64 \<times> u64" where
  "tx_view sh = (sh_tx_in_flight sh, sh_ended sh, st_tx_frames (sh_stats sh), st_tx_dropped (sh_stats sh))"

lemma delivers_tx_view: "tx_view (fold deliver_frame fs sh) = tx_view sh"
proof (induction fs arbitrary: sh)
  case (Cons f fs)
  have "tx_view (deliver_frame f sh) = tx_view sh"
    by (simp add: tx_view_def deliver_frame_def tally_def count_error_def count_rx_def count_rx_drop_def Let_def)
  with Cons.IH [of "deliver_frame f sh"] show ?case by simp
qed simp

section \<open>Everything at once\<close>

text \<open>A thread inside \<open>send\<close>: with the frame framed, with a place reserved, or turned away and about to
  give the place back. The checks and the framing are one step: nothing another thread does between
  them is seen by the framing but the sequence number, which the framing takes atomically.\<close>

datatype send_phase = Framed bytes nat | Reserved bytes nat | TurnedAway

record net_sys =
  y_shared :: net_shared
  y_sequence :: u16
  y_sends :: "send_phase list"
  y_flying :: "nat list"
  y_failures :: "nat option list"
  y_arrived :: "bytes list"
  y_taken :: "bytes list"
  y_wires :: "bytes list"
  y_asked :: nat

definition net_sys_new :: "link_state \<Rightarrow> net_sys" where
  "net_sys_new link = \<lparr>y_shared = shared_new link, y_sequence = 0, y_sends = [], y_flying = [],
     y_failures = replicate RX_TRANSFERS (Some 0), y_arrived = [], y_taken = [], y_wires = [], y_asked = 0\<rparr>"

text \<open>The frames a completed receive transfer brings.\<close>

definition brings :: "net_kind \<Rightarrow> unit transfer \<Rightarrow> bytes list" where
  "brings kind t = (if tr_status t \<noteq> Completed then []
     else (case fst (get_data t) of
        Val data \<Rightarrow> (case rx_frames kind data of Some (fs, _) \<Rightarrow> ethernet fs | None \<Rightarrow> [])
      | _ \<Rightarrow> []))"

inductive net_step :: "nic \<Rightarrow> net_sys \<Rightarrow> net_sys \<Rightarrow> bool" for N where
  refused: "send_check N frame (y_shared y) = (Inl e, sh) \<Longrightarrow>
    net_step N y (y\<lparr>y_shared := sh, y_asked := y_asked y + 1\<rparr>)"
| unframed: "send_check N frame (y_shared y) = (Inr u, sh) \<Longrightarrow> send_wire N frame (y_sequence y) = Some (Inl e, sq) \<Longrightarrow>
    net_step N y (y\<lparr>y_shared := tally count_tx_drop sh, y_sequence := sq, y_asked := y_asked y + 1\<rparr>)"
| framed: "send_check N frame (y_shared y) = (Inr u, sh) \<Longrightarrow> send_wire N frame (y_sequence y) = Some (Inr w, sq) \<Longrightarrow>
    net_step N y (y\<lparr>y_shared := sh, y_sequence := sq, y_sends := y_sends y @ [Framed w (length frame)],
      y_asked := y_asked y + 1\<rparr>)"
| reserves: "y_sends y = ps @ Framed w n # qs \<Longrightarrow> tx_reserve (y_shared y) = (room, sh) \<Longrightarrow>
    net_step N y (y\<lparr>y_shared := sh, y_sends := ps @ (if room then Reserved w n else TurnedAway) # qs\<rparr>)"
| turns_away: "y_sends y = ps @ TurnedAway # qs \<Longrightarrow>
    net_step N y (y\<lparr>y_shared := tx_give_back (y_shared y), y_sends := ps @ qs\<rparr>)"
| not_submitted: "y_sends y = ps @ Reserved w n # qs \<Longrightarrow>
    net_step N y (y\<lparr>y_shared := tx_give_back (y_shared y), y_sends := ps @ qs\<rparr>)"
| submitted: "y_sends y = ps @ Reserved w n # qs \<Longrightarrow>
    net_step N y (y\<lparr>y_sends := ps @ qs, y_flying := y_flying y @ [n], y_wires := y_wires y @ [w]\<rparr>)"
| completes: "y_flying y = ps @ n # qs \<Longrightarrow>
    net_step N y (y\<lparr>y_shared := tx_complete n st (y_shared y), y_flying := ps @ qs\<rparr>)"
| receives: "y_failures y = fs @ Some f # gs \<Longrightarrow>
    rx_complete (nc_kind N) t (f, y_shared y) = Some ((n, sh), again) \<Longrightarrow>
    net_step N y (y\<lparr>y_shared := sh, y_failures := fs @ (if again then Some n else None) # gs,
      y_arrived := y_arrived y @ brings (nc_kind N) t\<rparr>)"
| notified: "notification_complete t (y_shared y) = Some (sh, again) \<Longrightarrow> net_step N y (y\<lparr>y_shared := sh\<rparr>)"
| takes: "recv_pass (y_shared y) = (Some (Inr f), sh) \<Longrightarrow>
    net_step N y (y\<lparr>y_shared := sh, y_taken := y_taken y @ [f]\<rparr>)"
| handler_on: "net_step N y (y\<lparr>y_shared := set_receive_handler (y_shared y)\<rparr>)"
| handler_off: "net_step N y (y\<lparr>y_shared := clear_receive_handler (y_shared y)\<rparr>)"
| closes: "net_step N y (y\<lparr>y_shared := net_end NoDevice (y_shared y)\<rparr>)"

inductive_cases net_stepE: "net_step N y y'"

inductive net_reach :: "nic \<Rightarrow> net_sys \<Rightarrow> net_sys \<Rightarrow> bool" for N y0 where
  start: "net_reach N y0 y0"
| step: "net_reach N y0 y \<Longrightarrow> net_step N y y' \<Longrightarrow> net_reach N y0 y'"

definition holds_place :: "send_phase \<Rightarrow> bool" where
  "holds_place p = (case p of Framed _ _ \<Rightarrow> False | _ \<Rightarrow> True)"

definition will_fly :: "send_phase \<Rightarrow> bool" where
  "will_fly p = (case p of Reserved _ _ \<Rightarrow> True | _ \<Rightarrow> False)"

definition tx_ok :: "net_sys \<Rightarrow> bool" where
  "tx_ok y \<longleftrightarrow>
     sh_tx_in_flight (y_shared y) = length (filter holds_place (y_sends y)) + length (y_flying y)
     \<and> length (filter will_fly (y_sends y)) + length (y_flying y) \<le> TX_QUEUE
     \<and> st_tx_frames (sh_stats (y_shared y)) + st_tx_dropped (sh_stats (y_shared y))
         + of_nat (length (y_sends y) + length (y_flying y)) = of_nat (y_asked y)"

definition net_ok :: "net_sys \<Rightarrow> bool" where
  "net_ok y \<longleftrightarrow> tx_ok y \<and> rx_ok (y_arrived y) (y_taken y) (y_shared y)
     \<and> (\<forall>n. Some n \<in> set (y_failures y) \<longrightarrow> n < MAX_RX_ERRORS)"

lemma will_fly_le: "length (filter will_fly ps) \<le> length (filter holds_place ps)"
  by (induction ps) (auto simp: will_fly_def holds_place_def split: send_phase.splits)

lemma rx_complete_cases:
  assumes "rx_complete kind t (f, sh) = Some ((n, sh'), again)"
  obtains (data) fs where "brings kind t = ethernet fs" "sh' = fold deliver_frame fs sh \<or> sh' = tally count_error (fold deliver_frame fs sh)"
      "n = 0" "again"
    | (other) why where "brings kind t = []" "sh' \<in> {sh, net_end why sh, tally count_error sh, net_end why (tally count_error sh)}"
      "again \<Longrightarrow> n < MAX_RX_ERRORS"
proof (cases "tr_status t = Completed")
  case True
  obtain r t' where g: "get_data t = (r, t')" by (cases "get_data t")
  show thesis
  proof (cases r)
    case (Val data)
    with assms True g obtain s1 where s1: "rx_data kind data sh = Some s1" "sh' = s1" "n = 0" "again"
      by (auto simp: rx_complete_def bind_eq_Some_conv)
    then obtain fs ok where fs: "rx_frames kind data = Some (fs, ok)"
      "s1 = (if ok then fold deliver_frame fs sh else tally count_error (fold deliver_frame fs sh))"
      by (auto simp: rx_data_def bind_eq_Some_conv Let_def)
    show thesis
    proof (rule data)
      show "brings kind t = ethernet fs" using True g Val fs by (simp add: brings_def)
      show "sh' = fold deliver_frame fs sh \<or> sh' = tally count_error (fold deliver_frame fs sh)" using fs s1 by (cases ok) simp_all
    qed (use s1 in simp_all)
  next
    case (Fail e)
    with assms True g show thesis by (intro other [of NoDevice]) (auto simp: rx_complete_def brings_def)
  qed (use assms True g in \<open>simp add: rx_complete_def\<close>)
next
  case False
  then have b: "brings kind t = []" by (simp add: brings_def)
  show thesis
  proof (cases "tr_status t = StNoDevice \<or> tr_status t = Cancelled")
    case True
    with assms b show thesis by (intro other [of NoDevice]) (auto simp: rx_complete_def)
  next
    case g: False
    with assms False b show thesis
      by (intro other [of Io]) (auto simp: rx_complete_def Let_def split: transfer_status.splits if_splits)
  qed
qed

text \<open>What each group of steps leaves alone.\<close>

definition rx_view :: "net_shared \<Rightarrow> bytes list \<times> bytes list \<times> u64 \<times> u64" where
  "rx_view sh = (sh_handled sh, sh_queue sh, st_rx_frames (sh_stats sh), st_rx_dropped (sh_stats sh))"

lemma rx_ok_view: "rx_view sh' = rx_view sh \<Longrightarrow> rx_ok a t sh' = rx_ok a t sh"
  by (simp add: rx_view_def rx_ok_def)

lemma rx_view_simps [simp]:
  "rx_view (tally count_tx_drop sh) = rx_view sh" "rx_view (tally (count_tx n) sh) = rx_view sh"
  "rx_view (tally count_error sh) = rx_view sh" "rx_view (net_end why sh) = rx_view sh"
  "rx_view (tx_give_back sh) = rx_view sh" "rx_view (tx_complete n st sh) = rx_view sh"
  "rx_view (note_link nt sh) = rx_view sh" "rx_view (set_receive_handler sh) = rx_view sh"
  "rx_view (clear_receive_handler sh) = rx_view sh"
  by (simp_all add: rx_view_def tally_def count_tx_drop_def count_tx_def count_error_def net_end_def tx_give_back_def
      tx_complete_def note_link_def set_receive_handler_def clear_receive_handler_def Let_def
      split: option.split cdc_notification.split)

lemmas rx_ok_simps = rx_view_simps [THEN rx_ok_view]

definition tx_counts :: "net_shared \<Rightarrow> nat \<times> u64 \<times> u64" where
  "tx_counts sh = (sh_tx_in_flight sh, st_tx_frames (sh_stats sh), st_tx_dropped (sh_stats sh))"

lemma tx_ok_counts: "tx_counts sh = tx_counts (y_shared y) \<Longrightarrow> tx_ok (y\<lparr>y_shared := sh\<rparr>) = tx_ok y"
  by (simp add: tx_ok_def tx_counts_def)

lemma tx_counts_simps [simp]:
  "tx_counts (fold deliver_frame fs sh) = tx_counts sh" "tx_counts (tally count_error sh) = tx_counts sh"
  "tx_counts (net_end why sh) = tx_counts sh" "tx_counts (note_link nt sh) = tx_counts sh"
  "tx_counts (set_receive_handler sh) = tx_counts sh" "tx_counts (clear_receive_handler sh) = tx_counts sh"
  using delivers_tx_view [of fs sh]
  by (simp_all add: tx_counts_def tx_view_def tally_def count_error_def net_end_def note_link_def set_receive_handler_def
      clear_receive_handler_def split: option.split cdc_notification.split)

lemma send_check_views:
  assumes "send_check N frame sh = (r, sh')"
  shows "rx_view sh' = rx_view sh" "sh' = (case r of Inl e \<Rightarrow> tally count_tx_drop sh | Inr _ \<Rightarrow> sh)"
  using assms by (auto simp: send_check_def split: if_splits)

lemma notification_complete_views:
  "notification_complete t sh = Some (sh', again) \<Longrightarrow> \<exists>n. sh' = note_link n sh"
  by (auto simp: notification_complete_def bind_eq_Some_conv note_link_def split: if_splits prod.splits out.splits
      intro: exI [of _ None])

lemma tx_step_ok:
  assumes "tx_ok y"
  shows "tx_ok (y\<lparr>y_shared := tally count_tx_drop (y_shared y), y_sequence := sq, y_asked := y_asked y + 1\<rparr>)"
    and "tx_ok (y\<lparr>y_sequence := sq, y_sends := y_sends y @ [Framed w n], y_asked := y_asked y + 1\<rparr>)"
    and "y_sends y = ps @ Framed w n # qs \<Longrightarrow> tx_reserve (y_shared y) = (room, sh) \<Longrightarrow>
      tx_ok (y\<lparr>y_shared := sh, y_sends := ps @ (if room then Reserved w n else TurnedAway) # qs\<rparr>)"
    and "y_sends y = ps @ p # qs \<Longrightarrow> holds_place p \<Longrightarrow>
      tx_ok (y\<lparr>y_shared := tx_give_back (y_shared y), y_sends := ps @ qs\<rparr>)"
    and "y_sends y = ps @ Reserved w n # qs \<Longrightarrow>
      tx_ok (y\<lparr>y_sends := ps @ qs, y_flying := y_flying y @ [n], y_wires := y_wires y @ [w]\<rparr>)"
    and "y_flying y = ps' @ n # qs' \<Longrightarrow>
      tx_ok (y\<lparr>y_shared := tx_complete n st (y_shared y), y_flying := ps' @ qs'\<rparr>)"
proof -
  note defs = tx_ok_def tally_def count_tx_drop_def count_tx_def count_error_def tx_reserve_def tx_give_back_def
    tx_complete_def holds_place_def will_fly_def Let_def
  show "tx_ok (y\<lparr>y_shared := tally count_tx_drop (y_shared y), y_sequence := sq, y_asked := y_asked y + 1\<rparr>)"
    "tx_ok (y\<lparr>y_sequence := sq, y_sends := y_sends y @ [Framed w n], y_asked := y_asked y + 1\<rparr>)"
    using assms by (auto simp: defs algebra_simps)
  show "tx_ok (y\<lparr>y_shared := sh, y_sends := ps @ (if room then Reserved w n else TurnedAway) # qs\<rparr>)"
    if "y_sends y = ps @ Framed w n # qs" "tx_reserve (y_shared y) = (room, sh)"
    using assms that will_fly_le [of ps] will_fly_le [of qs] by (auto simp: defs algebra_simps)
  show "tx_ok (y\<lparr>y_shared := tx_give_back (y_shared y), y_sends := ps @ qs\<rparr>)"
    if "y_sends y = ps @ p # qs" "holds_place p"
    using assms that by (auto simp: defs algebra_simps split: send_phase.splits)
  show "tx_ok (y\<lparr>y_sends := ps @ qs, y_flying := y_flying y @ [n], y_wires := y_wires y @ [w]\<rparr>)"
    if "y_sends y = ps @ Reserved w n # qs"
    using assms that by (auto simp: defs algebra_simps)
  show "tx_ok (y\<lparr>y_shared := tx_complete n st (y_shared y), y_flying := ps' @ qs'\<rparr>)"
    if "y_flying y = ps' @ n # qs'"
    using assms that by (auto simp: defs algebra_simps)
qed

lemma net_new_ok: "net_ok (net_sys_new link)"
  by (auto simp: net_ok_def net_sys_new_def tx_ok_def rx_ok_def shared_new_def stats_zero_def)

lemma rx_complete_ok:
  assumes "rx_complete kind t (f, sh) = Some ((n, sh'), again)" "rx_ok arrived taken sh"
  shows "rx_ok (arrived @ brings kind t) taken sh'" "tx_counts sh' = tx_counts sh" "again \<Longrightarrow> n < MAX_RX_ERRORS"
proof -
  have "rx_ok (arrived @ brings kind t) taken sh' \<and> tx_counts sh' = tx_counts sh \<and> (again \<longrightarrow> n < MAX_RX_ERRORS)"
    using assms(1)
  proof (cases rule: rx_complete_cases)
    case (data fs)
    have "rx_ok (arrived @ ethernet fs) taken (fold deliver_frame fs sh)" using assms(2) by (rule delivers_ok)
    then have "rx_ok (arrived @ ethernet fs) taken sh'"
      using data(2) rx_ok_view [OF rx_view_simps(3) [of "fold deliver_frame fs sh"]] by auto
    then show ?thesis using data by auto
  next
    case (other why)
    then have v: "rx_view sh' = rx_view sh" "tx_counts sh' = tx_counts sh" by auto
    from other assms(2) v(2) rx_ok_view [OF v(1)] show ?thesis by simp
  qed
  then show "rx_ok (arrived @ brings kind t) taken sh'" "tx_counts sh' = tx_counts sh" "again \<Longrightarrow> n < MAX_RX_ERRORS"
    by blast+
qed

lemma recv_pass_ok:
  assumes "recv_pass sh = (Some (Inr f), sh')" "rx_ok arrived taken sh"
  shows "rx_ok arrived (taken @ [f]) sh'" "tx_counts sh' = tx_counts sh"
  using assms by (auto simp: recv_pass_def rx_ok_def tx_counts_def split: list.splits)

lemma net_ok_parts:
  "net_ok y \<longleftrightarrow> tx_ok y \<and> rx_ok (y_arrived y) (y_taken y) (y_shared y)
     \<and> (\<forall>n. Some n \<in> set (y_failures y) \<longrightarrow> n < MAX_RX_ERRORS)"
  by (simp add: net_ok_def)

lemma tx_ok_more: "tx_ok (y\<lparr>y_failures := fs, y_arrived := ar\<rparr>) = tx_ok y" "tx_ok (y\<lparr>y_taken := tk\<rparr>) = tx_ok y"
  by (simp_all add: tx_ok_def)

lemma net_step_ok:
  assumes "net_step N y y'" "net_ok y"
  shows "net_ok y'"
  using assms(1)
proof (cases rule: net_step.cases)
  case (refused frame e sh)
  from send_check_views [OF refused(2)] tx_step_ok(1) [of y "y_sequence y"] assms(2)
  show ?thesis by (simp add: refused net_ok_parts rx_ok_simps)
next
  case (unframed frame u sh e sq)
  from send_check_views [OF unframed(2)] tx_step_ok(1) [of y sq] assms(2)
  show ?thesis by (simp add: unframed net_ok_parts rx_ok_simps)
next
  case (framed frame u sh w sq)
  from send_check_views [OF framed(2)] tx_step_ok(2) [where y = y and sq = sq and w = w and n = "length frame"] assms(2)
  show ?thesis by (simp add: framed net_ok_parts)
next
  case (reserves ps w n qs room sh)
  then have "rx_view sh = rx_view (y_shared y)" by (auto simp: tx_reserve_def rx_view_def)
  from rx_ok_view [OF this] tx_step_ok(3) [OF _ reserves(2,3)] assms(2) show ?thesis
    by (simp add: reserves(1) net_ok_parts)
next
  case (turns_away ps qs)
  from tx_step_ok(4) [OF _ turns_away(2)] assms(2)
  show ?thesis by (simp add: turns_away(1) net_ok_parts rx_ok_simps holds_place_def)
next
  case (not_submitted ps w n qs)
  from tx_step_ok(4) [OF _ not_submitted(2)] assms(2)
  show ?thesis by (simp add: not_submitted(1) net_ok_parts rx_ok_simps holds_place_def)
next
  case (submitted ps w n qs)
  from tx_step_ok(5) [OF _ submitted(2)] assms(2) show ?thesis by (simp add: submitted(1) net_ok_parts)
next
  case (completes ps n qs st)
  from tx_step_ok(6) [OF _ completes(2)] assms(2) show ?thesis by (simp add: completes(1) net_ok_parts rx_ok_simps)
next
  case (receives fs f gs t n sh again)
  from assms(2) have r: "rx_ok (y_arrived y) (y_taken y) (y_shared y)" by (simp add: net_ok_parts)
  note c = rx_complete_ok [OF receives(3) r]
  have "tx_ok (y\<lparr>y_shared := sh\<rparr>)" using tx_ok_counts [OF c(2)] assms(2) by (simp add: net_ok_parts)
  then have "tx_ok y'" by (simp add: receives(1) tx_ok_more(1))
  with c assms(2) receives(2) show ?thesis by (auto simp: receives(1) net_ok_parts)
next
  case (notified t sh again)
  then obtain n where "sh = note_link n (y_shared y)" using notification_complete_views by blast
  with assms(2) show ?thesis by (simp add: notified(1) net_ok_parts rx_ok_simps tx_ok_counts)
next
  case (takes f sh)
  from assms(2) have r: "rx_ok (y_arrived y) (y_taken y) (y_shared y)" by (simp add: net_ok_parts)
  note c = recv_pass_ok [OF takes(2) r]
  have "tx_ok (y\<lparr>y_shared := sh\<rparr>)" using tx_ok_counts [OF c(2)] assms(2) by (simp add: net_ok_parts)
  then have "tx_ok y'" by (simp add: takes(1) tx_ok_more(2))
  with c assms(2) show ?thesis by (simp add: takes(1) net_ok_parts)
next
  case handler_on
  from assms(2) tx_ok_counts [OF tx_counts_simps(5)] show ?thesis by (simp add: handler_on net_ok_parts rx_ok_simps)
next
  case handler_off
  from assms(2) tx_ok_counts [OF tx_counts_simps(6)] show ?thesis by (simp add: handler_off net_ok_parts rx_ok_simps)
next
  case closes
  from assms(2) tx_ok_counts [OF tx_counts_simps(3)] show ?thesis by (simp add: closes net_ok_parts rx_ok_simps)
qed

lemma net_reach_ok: "net_reach N y0 y \<Longrightarrow> net_ok y0 \<Longrightarrow> net_ok y"
  by (induction rule: net_reach.induct) (auto intro: net_step_ok)

text \<open>Once the device has ended it stays ended, for the same reason, and no frame is accepted.\<close>

lemma ended_simps:
  "sh_ended (tally f sh) = sh_ended sh" "sh_ended (tx_give_back sh) = sh_ended sh" "sh_ended (tx_complete n st sh) = sh_ended sh"
  "sh_ended (note_link nt sh) = sh_ended sh" "sh_ended (set_receive_handler sh) = sh_ended sh"
  "sh_ended (clear_receive_handler sh) = sh_ended sh" "sh_ended sh = Some why \<Longrightarrow> net_end w sh = sh"
  "tx_reserve sh = (room, sh') \<Longrightarrow> sh_ended sh' = sh_ended sh"
  "send_check N frame sh = (r, sh') \<Longrightarrow> sh_ended sh' = sh_ended sh"
  "recv_pass sh = (q, sh') \<Longrightarrow> sh_ended sh' = sh_ended sh"
  by (auto simp: tally_def tx_give_back_def tx_complete_def note_link_def set_receive_handler_def clear_receive_handler_def
      net_end_def tx_reserve_def send_check_def recv_pass_def Let_def
      split: option.split cdc_notification.split if_splits list.splits)

lemma net_step_ended:
  assumes "net_step N y y'" "sh_ended (y_shared y) = Some why"
  shows "sh_ended (y_shared y') = Some why"
  using assms(1)
proof (cases rule: net_step.cases)
  case (receives fs f gs t n sh again)
  show ?thesis using receives(3)
  proof (cases rule: rx_complete_cases)
    case (data fs)
    with assms(2) receives(1) delivers_tx_view [of fs "y_shared y"] show ?thesis
      by (auto simp: tx_view_def tally_def)
  next
    case (other w)
    with assms(2) receives(1) show ?thesis by (auto simp: net_end_def tally_def)
  qed
next
  case (notified t sh again)
  then obtain n where "sh = note_link n (y_shared y)" using notification_complete_views by blast
  with assms(2) notified(1) show ?thesis by (simp add: ended_simps)
next
  case (refused frame e sh) with assms(2) ended_simps(9) [OF refused(2)] show ?thesis by simp
next
  case (unframed frame u sh e sq) with assms(2) ended_simps(9) [OF unframed(2)] show ?thesis by (simp add: ended_simps(1))
next
  case (framed frame u sh w sq) with assms(2) ended_simps(9) [OF framed(2)] show ?thesis by simp
next
  case (reserves ps w n qs room sh) with assms(2) ended_simps(8) [OF reserves(3)] show ?thesis by simp
next
  case (takes f sh) with assms(2) ended_simps(10) [OF takes(2)] show ?thesis by simp
qed (use assms(2) in \<open>simp_all add: ended_simps(2-7)\<close>)

lemma ended_sends_nothing:
  assumes "sh_ended (y_shared y) \<noteq> None" "send_check N frame (y_shared y) = (r, sh)"
  shows "r \<noteq> Ok ()"
  using assms by (auto simp: send_check_def split: if_splits)

lemma recv_ended:
  assumes "sh_queue sh = []" "sh_ended sh = Some why"
  shows "net_recv wakes sh = (Err why, sh)"
  using assms by (cases wakes) (simp_all add: recv_pass_def)

text \<open>The callbacks do not panic, whatever the device sent, and neither does \<open>send\<close>.\<close>

lemma rx_complete_total:
  assumes "\<not> tr_in_flight t" "tr_kind t \<noteq> Control"
  shows "rx_complete kind t (f, sh) \<noteq> None"
proof -
  obtain s1 where "rx_data kind (take (tr_actual t) (tr_buffer t)) sh = Some s1" using rx_data_total by blast
  then show ?thesis
    by (cases "tr_status t") (simp_all add: rx_complete_def get_data_bulk [OF assms] Let_def del: not_None_eq)
qed

lemma notification_complete_total:
  assumes "\<not> tr_in_flight t" "tr_kind t \<noteq> Control"
  shows "notification_complete t sh \<noteq> None"
proof -
  obtain n where "decode_notification (take (tr_actual t) (tr_buffer t)) = Some n" using decode_notification_total by blast
  then show ?thesis by (simp add: notification_complete_def get_data_bulk [OF assms] del: not_None_eq)
qed

lemma net_send_total: "net_send N frame submitted (sq, sh) \<noteq> None"
proof -
  obtain c sh1 where c: "send_check N frame sh = (c, sh1)" by (cases "send_check N frame sh")
  have "send_wire N frame sq \<noteq> None" using build_ntb16_total by (auto simp: send_wire_def split: framing.split)
  then obtain w sq1 where "send_wire N frame sq = Some (w, sq1)" by auto
  with c show ?thesis by (cases c) (simp_all add: net_send_def)
qed

end
