(* ===== verification/Serial_Ftdi.thy ===== *)
theory Serial_Ftdi
  imports Usb_Class
begin

text \<open>
  FTDI chips, \<open>src/src/serial/ftdi.rs\<close>: which chip a device has, the divisor of a baud rate, and the
  status bytes. The divisors are computed on \<open>nat\<close>: for the rates a chip accepts (at most 12 million) no
  32-bit sum or product of the code reaches \<open>2 ^ 27\<close>. \<open>chip_divisor\<close> reads an encoded divisor the way the
  data sheet does; the lemmas show that the request the code builds selects the nearest divisor the
  chip has. The line status record of \<open>src/src/serial/mod.rs\<close> is here because both kinds of port decode it.
\<close>

section \<open>Line status\<close>

record modem_status =
  md_cts :: bool
  md_dsr :: bool
  md_ring :: bool
  md_dcd :: bool
  md_overrun :: bool
  md_parity_error :: bool
  md_framing_error :: bool
  md_break_received :: bool

definition modem_default :: modem_status where
  "modem_default = \<lparr>md_cts = False, md_dsr = False, md_ring = False, md_dcd = False, md_overrun = False,
     md_parity_error = False, md_framing_error = False, md_break_received = False\<rparr>"

definition modem_update :: "modem_status \<Rightarrow> modem_status \<Rightarrow> modem_status" where
  "modem_update old new = new\<lparr>md_overrun := md_overrun old \<or> md_overrun new,
     md_parity_error := md_parity_error old \<or> md_parity_error new,
     md_framing_error := md_framing_error old \<or> md_framing_error new,
     md_break_received := md_break_received old \<or> md_break_received new\<rparr>"

definition take_events :: "modem_status \<Rightarrow> modem_status \<times> modem_status" where
  "take_events m = (m, m\<lparr>md_overrun := False, md_parity_error := False, md_framing_error := False,
     md_break_received := False\<rparr>)"

definition decode_status :: "u8 \<Rightarrow> u8 \<Rightarrow> modem_status" where
  "decode_status b0 b1 = \<lparr>md_cts = b0 AND 0x10 \<noteq> 0, md_dsr = b0 AND 0x20 \<noteq> 0, md_ring = b0 AND 0x40 \<noteq> 0,
     md_dcd = b0 AND 0x80 \<noteq> 0, md_overrun = b1 AND 0x02 \<noteq> 0, md_parity_error = b1 AND 0x04 \<noteq> 0,
     md_framing_error = b1 AND 0x08 \<noteq> 0, md_break_received = b1 AND 0x10 \<noteq> 0\<rparr>"

section \<open>Chips\<close>

datatype ftdi_chip = FtAm | FtBm | Ft2232C | Ft232R | Ft2232H | Ft4232H | Ft232H | FtX | Ft2233HP | Ft4233HP
  | Ft2232HP | Ft4232HP | Ft233HP | Ft232HP | Ft4232HA | FtUnknown u16

definition from_bcd_device :: "u16 \<Rightarrow> ftdi_chip option" where
  "from_bcd_device b =
     (if b = 0x0200 then Some FtAm else if b = 0x0400 then Some FtBm else if b = 0x0500 then Some Ft2232C
      else if b = 0x0600 then Some Ft232R else if b = 0x0700 then Some Ft2232H else if b = 0x0800 then Some Ft4232H
      else if b = 0x0900 then Some Ft232H else if b = 0x1000 then Some FtX else if b = 0x2800 then Some Ft2233HP
      else if b = 0x2900 then Some Ft4233HP else if b = 0x3000 then Some Ft2232HP else if b = 0x3100 then Some Ft4232HP
      else if b = 0x3200 then Some Ft233HP else if b = 0x3300 then Some Ft232HP else if b = 0x3600 then Some Ft4232HA
      else if b < 0x0200 then None else Some (FtUnknown b))"

definition ftdi_probe :: "'k sys \<Rightarrow> device_descriptor \<Rightarrow> u8 \<Rightarrow> ('k handle, ftdi_chip) io" where
  "ftdi_probe S d interface = (case from_bcd_device (version_bits (dd_device_version d)) of
      None \<Rightarrow> failK NotSupported
    | Some chip \<Rightarrow>
        if chip = FtAm \<and> dd_serial_number d = 0 then
          matchR (control_read S (request_type In Vendor RDevice) 0x0a 0 (ucast interface) [0] 1000)
            (\<lambda>_. ret FtBm) (\<lambda>_. ret chip)
        else ret chip)"

definition is_high_speed :: "ftdi_chip \<Rightarrow> bool" where
  "is_high_speed c \<longleftrightarrow> c \<notin> {FtAm, FtBm, Ft2232C, Ft232R, FtX}"

definition ftdi_channel :: "ftdi_chip \<Rightarrow> u8 \<Rightarrow> u16" where
  "ftdi_channel c interface = (if c \<in> {FtAm, FtBm, Ft232R} then 0 else ucast interface + 1)"

definition max_baud_rate :: "ftdi_chip \<Rightarrow> nat" where
  "max_baud_rate c = (if is_high_speed c then 12000000 else 3000000)"

section \<open>Divisors\<close>

definition DIVFRAC :: "nat list" where
  "DIVFRAC = [0, 3, 2, 4, 1, 5, 6, 7]"

definition am_divisor :: "nat \<Rightarrow> nat option" where
  "am_divisor baud =
     (let divisor3 = (48000000 + baud) div (2 * baud);
          divisor3 = (if divisor3 AND 7 = 7 then divisor3 + 1 else divisor3);
          divisor = drop_bit 3 divisor3;
          frac = divisor3 AND 7
      in if divisor > 0x3fff then None
         else if frac = 0 \<and> divisor = 1 then Some 0
         else Some (divisor OR (if frac = 0 then 0 else if frac = 1 then 0xc000 else if frac \<ge> 4 then 0x4000 else 0x8000)))"

definition bm_divisor :: "nat \<Rightarrow> bool \<Rightarrow> nat option" where
  "bm_divisor divisor3 high_speed =
     (let whole = drop_bit 3 divisor3 in
      if whole > 0x3fff then None
      else (let divisor = whole OR push_bit 14 (DIVFRAC ! (divisor3 AND 7));
                divisor = (if divisor = 1 then 0 else if divisor = 0x4001 then 1 else divisor)
            in Some (if high_speed then divisor OR 0x20000 else divisor)))"

definition divisor_of :: "ftdi_chip \<Rightarrow> nat \<Rightarrow> nat option" where
  "divisor_of chip baud =
     (if chip = FtAm then am_divisor baud
      else if is_high_speed chip \<and> baud \<ge> 1200 then bm_divisor ((8 * 120000000 + 5 * baud) div (10 * baud)) True
      else bm_divisor ((48000000 + baud) div (2 * baud)) False)"

definition baud_request :: "ftdi_chip \<Rightarrow> u16 \<Rightarrow> u32 \<Rightarrow> (u16 \<times> u16) result" where
  "baud_request chip channel baud =
     (if baud = 0 \<or> unat baud > max_baud_rate chip then Err InvalidParam
      else (case divisor_of chip (unat baud) of
          None \<Rightarrow> Err InvalidParam
        | Some divisor \<Rightarrow>
            (let value = of_nat divisor; index = of_nat (drop_bit 16 divisor)
             in Ok (value, if channel \<noteq> 0 then push_bit 8 index OR channel else index))))"

section \<open>What the chip makes of a request\<close>

text \<open>The reading of an encoded divisor in eighths (AN232B-05), for chips with three fraction bits: 14 bits
  of whole divisor and a coded fraction; 0 and 1 stand for 1 and 1.5.\<close>

definition frac_eighths :: "nat \<Rightarrow> nat" where
  "frac_eighths code = [0, 4, 2, 1, 3, 5, 6, 7] ! code"

definition chip_divisor :: "nat \<Rightarrow> nat" where
  "chip_divisor d =
     (if d = 0 then 8 else if d = 1 then 12 else 8 * (d mod 16384) + frac_eighths (d div 16384 mod 8))"

text \<open>The FT8U232AM has two fraction bits.\<close>

definition am_chip_divisor :: "nat \<Rightarrow> nat" where
  "am_chip_divisor d =
     (if d = 0 then 8 else 8 * (d mod 16384) + [0, 4, 2, 1] ! (d div 16384 mod 4))"

lemma not_bit_small: "(a :: nat) < 2 ^ n \<Longrightarrow> n \<le> m \<Longrightarrow> \<not> bit a m"
proof -
  assume "a < 2 ^ n" "n \<le> m"
  then have "a < 2 ^ m" by (meson less_le_trans one_le_numeral power_increasing)
  then show ?thesis by (simp add: bit_iff_odd)
qed

lemma nat_or_add:
  assumes "(a :: nat) < 2 ^ n"
  shows "a OR push_bit n b = a + b * 2 ^ n"
proof -
  have "a AND push_bit n b = 0"
    by (rule bit_eqI) (use assms not_bit_small [OF assms] in \<open>auto simp: bit_simps\<close>)
  then have "a + push_bit n b = a OR push_bit n b" by (rule disjunctive_add_eq_or)
  then show ?thesis by (simp add: push_bit_eq_mult)
qed

lemma and_7: "(x :: nat) AND 7 = x mod 8"
proof -
  have "(7 :: nat) = mask 3" by (simp add: mask_eq_exp_minus_1)
  then show ?thesis by (simp only: take_bit_eq_mask [symmetric]) (simp add: take_bit_eq_mod)
qed

lemma mod_8_cases:
  obtains "(x :: nat) mod 8 = 0" | "x mod 8 = 1" | "x mod 8 = 2" | "x mod 8 = 3" | "x mod 8 = 4" | "x mod 8 = 5"
    | "x mod 8 = 6" | "x mod 8 = 7"
proof -
  have "x mod 8 < 8" by simp
  then show thesis using that by linarith
qed

lemma bm_divisor_read:
  assumes "bm_divisor d3 hs = Some d" "8 \<le> d3"
  shows "chip_divisor (d mod 131072) = d3" "d div 131072 = (if hs then 1 else 0)"
proof -
  define whole code where "whole = d3 div 8" and "code = DIVFRAC ! (d3 mod 8)"
  have w: "1 \<le> whole" using assms(2) by (simp add: whole_def)
  have c: "code < 8" "frac_eighths code = d3 mod 8" "code = 1 \<longleftrightarrow> d3 mod 8 = 4" "code = 0 \<longleftrightarrow> d3 mod 8 = 0"
    by (cases rule: mod_8_cases [of d3]; simp add: code_def DIVFRAC_def frac_eighths_def)+
  have ws: "whole \<le> 0x3fff" and d: "d = (let r = whole + code * 16384; r = (if r = 1 then 0 else if r = 0x4001 then 1 else r)
      in if hs then r OR 0x20000 else r)"
    using assms(1) nat_or_add [of whole 14 code]
    by (auto simp: bm_divisor_def Let_def drop_bit_eq_div and_7 whole_def [symmetric] code_def [symmetric] split: if_splits)
  define r where "r = (if whole + code * 16384 = 1 then 0 else if whole + code * 16384 = 0x4001 then 1 else whole + code * 16384)"
  have r: "r < 131072" using ws c(1) by (auto simp: r_def)
  have "r OR 0x20000 = r + 131072" using nat_or_add [of r 17 1] r by (simp add: push_bit_eq_mult)
  then have dr: "d = (if hs then r + 131072 else r)" using d by (simp add: r_def Let_def)
  then show "d div 131072 = (if hs then 1 else 0)" using r by auto
  have e: "d3 = 8 * whole + d3 mod 8" by (simp add: whole_def)
  have "chip_divisor r = d3"
  proof (cases "whole = 1 \<and> code \<le> 1")
    case True
    then have "code = 0 \<or> code = 1" by linarith
    then show ?thesis using True c e by (auto simp: r_def chip_divisor_def)
  next
    case False
    have n: "whole + code * 16384 \<noteq> 1" "whole + code * 16384 \<noteq> 0x4001"
    proof -
      show "whole + code * 16384 \<noteq> 1" using False w by (cases code) auto
      show "whole + code * 16384 \<noteq> 0x4001"
      proof
        assume "whole + code * 16384 = 0x4001"
        then have "(whole + code * 16384) mod 16384 = 1" "(whole + code * 16384) div 16384 = 1" by simp_all
        with ws False show False by simp
      qed
    qed
    then have "r = whole + code * 16384" by (simp add: r_def)
    moreover from this n(1) w have "r \<noteq> 0" "r \<noteq> 1" by simp_all
    moreover have "(whole + code * 16384) mod 16384 = whole" "(whole + code * 16384) div 16384 = code" using ws by simp_all
    ultimately show ?thesis using c e by (simp add: chip_divisor_def)
  qed
  then show "chip_divisor (d mod 131072) = d3" using dr r by simp
qed

lemma am_divisor_read:
  assumes "am_divisor baud = Some d" "8 \<le> (48000000 + baud) div (2 * baud)"
  shows "am_chip_divisor d \<le> (48000000 + baud) div (2 * baud) + 1" "(48000000 + baud) div (2 * baud) \<le> am_chip_divisor d + 2"
    "d < 65536"
proof -
  define d3 where "d3 = (48000000 + baud) div (2 * baud)"
  define e where "e = (if d3 mod 8 = 7 then d3 + 1 else d3)"
  define whole where "whole = e div 8"
  define code :: nat where "code = (if e mod 8 = 0 then 0 else if e mod 8 = 1 then 3 else if e mod 8 \<ge> 4 then 1 else 2)"
  have e: "e = 8 * whole + e mod 8" "e mod 8 \<noteq> 7" "e \<le> d3 + 1" "d3 \<le> e" "e mod 8 = 0 \<or> e = d3"
    by (auto simp: whole_def e_def) presburger+
  have w: "1 \<le> whole" using assms(2) e(4) by (simp add: whole_def d3_def [symmetric])
  have c: "code < 4" "[0, 4, 2, 1] ! code \<le> e mod 8" "e mod 8 \<le> [0, 4, 2, 1] ! code + 2" "code = 0 \<longleftrightarrow> e mod 8 = 0"
    using e(2) by (cases rule: mod_8_cases [of e]; simp add: code_def)+
  have or: "whole OR (if e mod 8 = 0 then 0 else if e mod 8 = 1 then 0xc000 else if e mod 8 \<ge> 4 then 0x4000 else 0x8000)
      = whole + code * 16384" if "whole < 16384"
    using that nat_or_add [of whole 14 code] by (auto simp: code_def push_bit_eq_mult)
  have ws: "whole \<le> 0x3fff" and d: "d = (if code = 0 \<and> whole = 1 then 0 else whole + code * 16384)"
    using assms(1) or c(4)
    by (auto simp: am_divisor_def Let_def drop_bit_eq_div and_7 d3_def [symmetric] e_def [symmetric] whole_def [symmetric] split: if_splits)
  have m: "(whole + code * 16384) mod 16384 = whole" "(whole + code * 16384) div 16384 = code" using ws by simp_all
  have "am_chip_divisor d = 8 * whole + [0, 4, 2, 1] ! code"
    using w c(1) m by (auto simp: d am_chip_divisor_def)
  with e c show "am_chip_divisor d \<le> (48000000 + baud) div (2 * baud) + 1" "(48000000 + baud) div (2 * baud) \<le> am_chip_divisor d + 2"
    unfolding d3_def [symmetric] by linarith+
  show "d < 65536" using ws c(1) by (simp add: d)
qed

text \<open>The value and index of a request put together again.\<close>

definition request_divisor :: "u16 \<Rightarrow> u16 \<times> u16 \<Rightarrow> nat" where
  "request_divisor channel = (\<lambda>(value, index). unat value + 65536 * (if channel = 0 then unat index else unat index div 256))"

definition clock_eighths :: "nat \<Rightarrow> nat" where
  "clock_eighths d = (if 131072 \<le> d then 96000000 else 24000000)"

lemma half_down: "(a + b) div (2 * b) = q \<Longrightarrow> 0 < b \<Longrightarrow> (2 * q) * b \<le> a + b \<and> a < (2 * q + 1) * (b :: nat)"
proof -
  assume q: "(a + b) div (2 * b) = q" and b: "0 < b"
  have "a + b = 2 * b * q + (a + b) mod (2 * b)" by (simp add: q [symmetric])
  moreover have "(a + b) mod (2 * b) < 2 * b" using b by simp
  ultimately show ?thesis by (simp add: algebra_simps)
qed

lemma low_rate: "baud \<le> 3200000 \<Longrightarrow> 0 < baud \<Longrightarrow> 8 \<le> (48000000 + baud) div (2 * (baud :: nat))"
  by (simp add: less_eq_div_iff_mult_less_eq)

lemma high_rate: "baud \<le> 12000000 \<Longrightarrow> 0 < baud \<Longrightarrow> 8 \<le> (192000000 + baud) div (2 * (baud :: nat))"
  by (simp add: less_eq_div_iff_mult_less_eq)

lemma high_rate_eq: "(960000000 + 5 * baud) div (10 * baud) = (192000000 + baud) div (2 * (baud :: nat))"
proof -
  have "(5 * (192000000 + baud)) div (5 * (2 * baud)) = (192000000 + baud) div (2 * baud)" by (rule div_mult_mult1) simp
  then show ?thesis by (simp add: algebra_simps)
qed

lemma request_divisor_eq:
  assumes "d < 262144" "unat channel < 256"
  shows "request_divisor channel (of_nat d, if channel \<noteq> 0 then push_bit 8 (of_nat (drop_bit 16 d)) OR channel else of_nat (drop_bit 16 d)) = d"
    "channel \<noteq> 0 \<Longrightarrow> unat (push_bit 8 (of_nat (drop_bit 16 d)) OR channel) mod 256 = unat channel"
proof -
  let ?i = "of_nat (drop_bit 16 d) :: u16"
  have i: "unat ?i = d div 65536" "d div 65536 < 4"
    using assms(1) by (simp_all add: drop_bit_eq_div) (simp only: unsigned_of_nat, simp add: take_bit_eq_mod)
  have v: "unat (of_nat d :: u16) = d mod 65536" by (simp only: unsigned_of_nat) (simp add: take_bit_eq_mod)
  have "push_bit 8 ?i OR channel = push_bit 8 ?i + channel"
  proof -
    have "push_bit 8 ?i AND channel = 0"
    proof (rule bit_word_eqI)
      fix n assume "n < LENGTH(16)"
      have "\<not> bit channel n" if "8 \<le> n"
        using not_bit_small [of "unat channel" 8 n] assms(2) that by (simp add: bit_unsigned_iff possible_bit_def)
      then show "bit (push_bit 8 ?i AND channel) n = bit 0 n" by (auto simp: bit_simps)
    qed
    then show ?thesis by (metis disjunctive_add_eq_or)
  qed
  moreover have "unat (push_bit 8 ?i) = 256 * (d div 65536)"
    using i by (simp only: unsigned_push_bit_eq) (simp add: push_bit_eq_mult take_bit_eq_mod)
  ultimately have o: "unat (push_bit 8 ?i OR channel) = 256 * (d div 65536) + unat channel"
    using i assms(2) by (simp add: unat_word_ariths)
  show "channel \<noteq> 0 \<Longrightarrow> unat (push_bit 8 ?i OR channel) mod 256 = unat channel" using assms(2) by (simp add: o)
  have "(256 * (d div 65536) + unat channel) div 256 = d div 65536" using assms(2) by simp
  then show "request_divisor channel (of_nat d, if channel \<noteq> 0 then push_bit 8 ?i OR channel else ?i) = d"
    by (auto simp: request_divisor_def o v i)
qed

lemma bm_accepts: "bm_divisor d3 hs = None \<longleftrightarrow> 131072 \<le> d3"
proof -
  have "0x3fff < d3 div 8 \<longleftrightarrow> 131072 \<le> d3" by (simp add: less_eq_div_iff_mult_less_eq Suc_le_eq [symmetric] del: Suc_le_eq)
  then show ?thesis by (simp add: bm_divisor_def Let_def drop_bit_eq_div)
qed

lemma am_accepts: "am_divisor baud = None \<longleftrightarrow> 131071 \<le> (48000000 + baud) div (2 * baud)"
proof -
  define d3 where "d3 = (48000000 + baud) div (2 * baud)"
  define e where "e = (if d3 mod 8 = 7 then d3 + 1 else d3)"
  have "0x3fff < e div 8 \<longleftrightarrow> 131072 \<le> e" by (simp add: less_eq_div_iff_mult_less_eq Suc_le_eq [symmetric] del: Suc_le_eq)
  moreover have "131072 \<le> e \<longleftrightarrow> 131071 \<le> d3"
  proof
    assume "131071 \<le> d3"
    then consider "d3 = 131071" | "131072 \<le> d3" by linarith
    then show "131072 \<le> e" by cases (simp_all add: e_def)
  qed (auto simp: e_def split: if_splits)
  ultimately show ?thesis
    by (simp add: am_divisor_def Let_def drop_bit_eq_div and_7 d3_def [symmetric] e_def [symmetric])
qed

lemma slowest_rate:
  assumes "0 < (baud :: nat)"
  shows "131072 \<le> (48000000 + baud) div (2 * baud) \<longleftrightarrow> baud < 184" "131071 \<le> (48000000 + baud) div (2 * baud) \<longleftrightarrow> baud < 184"
  using assms by (simp_all add: less_eq_div_iff_mult_less_eq) linarith+

lemma divisor_of_accepts:
  assumes "0 < baud" "baud \<le> max_baud_rate chip"
  shows "divisor_of chip baud = None \<longleftrightarrow> baud < 184"
proof -
  have "\<not> 131072 \<le> (192000000 + baud) div (2 * baud)" if "1200 \<le> baud"
    using that by (simp add: less_eq_div_iff_mult_less_eq)
  then show ?thesis
    using slowest_rate [OF assms(1)] by (auto simp: divisor_of_def bm_accepts am_accepts high_rate_eq)
qed

text \<open>The divisor a request carries, in eighths of the clock: within half a step of the ideal one, or, for
  the FT8U232AM, within the step its two fraction bits allow.\<close>

definition eighths_of :: "ftdi_chip \<Rightarrow> nat \<Rightarrow> nat" where
  "eighths_of chip d = (if chip = FtAm then am_chip_divisor d else chip_divisor (d mod 131072))"

lemma divisor_of_read:
  assumes "divisor_of chip baud = Some d" "0 < baud" "baud \<le> max_baud_rate chip"
  shows "d < 262144" "131072 \<le> d \<longleftrightarrow> is_high_speed chip \<and> 1200 \<le> baud"
    "chip \<noteq> FtAm \<Longrightarrow> 2 * eighths_of chip d * baud \<le> 2 * clock_eighths d + baud
      \<and> 2 * clock_eighths d < (2 * eighths_of chip d + 1) * baud"
    "chip = FtAm \<Longrightarrow> 2 * eighths_of chip d * baud \<le> 2 * clock_eighths d + 3 * baud
      \<and> 2 * clock_eighths d < (2 * eighths_of chip d + 5) * baud"
proof -
  have am: "\<not> is_high_speed FtAm" by (simp add: is_high_speed_def)
  have "d < 262144 \<and> (131072 \<le> d \<longleftrightarrow> is_high_speed chip \<and> 1200 \<le> baud)
    \<and> (chip \<noteq> FtAm \<longrightarrow> 2 * eighths_of chip d * baud \<le> 2 * clock_eighths d + baud
      \<and> 2 * clock_eighths d < (2 * eighths_of chip d + 1) * baud)
    \<and> (chip = FtAm \<longrightarrow> 2 * eighths_of chip d * baud \<le> 2 * clock_eighths d + 3 * baud
      \<and> 2 * clock_eighths d < (2 * eighths_of chip d + 5) * baud)"
  proof (cases "chip = FtAm")
    case True
    let ?q = "(48000000 + baud) div (2 * baud)" and ?e = "am_chip_divisor d"
    have 8: "8 \<le> ?q" using assms True by (intro low_rate) (simp_all add: max_baud_rate_def am)
    have m: "am_divisor baud = Some d" using assms(1) True by (simp add: divisor_of_def)
    note r = am_divisor_read [OF m 8]
    from half_down [OF refl assms(2), of 48000000] have h: "2 * ?q * baud \<le> 48000000 + baud" "48000000 < (2 * ?q + 1) * baud" by simp_all
    have "2 * ?e * baud \<le> (2 * ?q + 2) * baud" "(2 * ?q + 1) * baud \<le> (2 * ?e + 5) * baud"
      using r(1,2) by (intro mult_le_mono1; linarith)+
    with h r(3) True am show ?thesis by (simp add: eighths_of_def clock_eighths_def algebra_simps)
  next
    case False
    define a hs where "a = (if is_high_speed chip \<and> 1200 \<le> baud then 192000000 else 48000000 :: nat)"
      and "hs = (is_high_speed chip \<and> 1200 \<le> baud)"
    let ?q = "(a + baud) div (2 * baud)"
    have m: "bm_divisor ?q hs = Some d" using assms(1) False by (auto simp: divisor_of_def a_def hs_def high_rate_eq split: if_splits)
    have 8: "8 \<le> ?q" using assms(2,3) low_rate [of baud] high_rate [of baud]
      by (auto simp: a_def max_baud_rate_def split: if_splits)
    note r = bm_divisor_read [OF m 8]
    have e: "eighths_of chip d = ?q" using r(1) False by (simp add: eighths_of_def)
    have d: "131072 \<le> d \<longleftrightarrow> hs" "d < 262144"
      using r(2) by (auto split: if_splits)
    have "2 * clock_eighths d = a" using d by (simp add: clock_eighths_def a_def hs_def)
    with half_down [OF refl assms(2), of a] e d False show ?thesis by (simp add: hs_def)
  qed
  then show "d < 262144" "131072 \<le> d \<longleftrightarrow> is_high_speed chip \<and> 1200 \<le> baud"
    "chip \<noteq> FtAm \<Longrightarrow> 2 * eighths_of chip d * baud \<le> 2 * clock_eighths d + baud
      \<and> 2 * clock_eighths d < (2 * eighths_of chip d + 1) * baud"
    "chip = FtAm \<Longrightarrow> 2 * eighths_of chip d * baud \<le> 2 * clock_eighths d + 3 * baud
      \<and> 2 * clock_eighths d < (2 * eighths_of chip d + 5) * baud" by blast+
qed

lemma baud_request_cases:
  obtains "unat baud < 184 \<or> max_baud_rate chip < unat baud" "baud_request chip channel baud = Err InvalidParam"
  | d where "184 \<le> unat baud" "unat baud \<le> max_baud_rate chip" "divisor_of chip (unat baud) = Some d"
      "baud_request chip channel baud = Ok (of_nat d,
         if channel \<noteq> 0 then push_bit 8 (of_nat (drop_bit 16 d)) OR channel else of_nat (drop_bit 16 d))"
proof (cases "unat baud < 184 \<or> max_baud_rate chip < unat baud")
  case True
  have z: "baud = 0 \<longleftrightarrow> unat baud = 0" by (simp add: unat_eq_0)
  show thesis
  proof (rule that(1) [OF True])
    show "baud_request chip channel baud = Err InvalidParam"
      using True divisor_of_accepts [of "unat baud" chip] by (auto simp: baud_request_def z)
  qed
next
  case False
  then have p: "0 < unat baud" "unat baud \<le> max_baud_rate chip" "\<not> unat baud < 184" by auto
  then obtain d where d: "divisor_of chip (unat baud) = Some d"
    using divisor_of_accepts [OF p(1,2)] by (cases "divisor_of chip (unat baud)") auto
  show thesis
    by (rule that(2) [OF _ p(2) d]) (use p d in \<open>auto simp: baud_request_def Let_def\<close>)
qed

lemma ftdi_channel_small: "interface < 255 \<Longrightarrow> unat (ftdi_channel chip interface) < 256"
  by (simp add: ftdi_channel_def word_less_nat_alt unat_word_ariths unsigned_ucast_eq take_bit_eq_mod)

end
