(* ===== verification/Serial_Port.thy ===== *)
theory Serial_Port
  imports Serial_Ftdi
begin

text \<open>
  Serial ports, \<open>src/src/serial/mod.rs\<close> and the CDC-ACM part \<open>src/src/serial/cdc.rs\<close>: finding and opening
  the ports of a device, line settings, modem lines, break, status, and the byte streams. A
  \<open>serial_port\<close> holds what never changes after opening; \<open>port_mut\<close> is the rest (the contents of the
  mutexes \<open>state\<close>, \<open>rx\<close>, \<open>status\<close> and \<open>timeouts\<close>), beside the handle in \<open>'k port\<close>. What the code does
  between two lockings is a definition of its own where other threads may come in between (\<open>lines_of\<close>,
  \<open>send_lines\<close>, \<open>store_lines\<close>). Times are in milliseconds; a read takes the readings of the clock as a
  list, and is still waiting when the list is used up.
\<close>

section \<open>CDC-ACM descriptors and notifications\<close>

definition is_acm :: "interface_descriptor \<Rightarrow> bool" where
  "is_acm a \<longleftrightarrow> if_class a = 0x02 \<and> if_sub_class a = 0x02"

definition acm_is_data :: "config_descriptor \<Rightarrow> u8 \<Rightarrow> bool" where
  "acm_is_data cfg n = (case cfg_interface cfg n of
      None \<Rightarrow> False
    | Some i \<Rightarrow> list_ex (\<lambda>a. if_class a = 0x0a \<or> if_endpoints a \<noteq> []) (ig_alt_settings i))"

definition acm_functional :: "u8 \<times> bytes \<Rightarrow> u8 option \<times> u8 option \<Rightarrow> u8 option \<times> u8 option" where
  "acm_functional = (\<lambda>(ty, d) (un, call).
     if ty \<noteq> 0x24 \<or> length d < 3 then (un, call)
     else if d ! 2 = 0x06 \<and> length d \<ge> 5 then (Some (d ! 4), call)
     else if d ! 2 = 0x01 \<and> length d \<ge> 5 then (un, Some (d ! 4))
     else (un, call))"

definition acm_data_interface :: "config_descriptor \<Rightarrow> interface_descriptor \<Rightarrow> u8 option" where
  "acm_data_interface cfg comm =
     (let (un, call) = fold acm_functional (descriptors (if_extra comm)) (None, None);
          following = (if if_number comm = 255 then None else Some (if_number comm + 1))
      in find (\<lambda>n. n \<noteq> if_number comm \<and> acm_is_data cfg n) (List.map_filter (\<lambda>x. x) [un, call, following]))"

definition decode_serial_state :: "bytes \<Rightarrow> modem_status option" where
  "decode_serial_state n =
     (if length n < 10 \<or> n ! 1 \<noteq> 0x20 then None
      else (let bits = le16 n 8 in Some \<lparr>md_cts = False, md_dsr = bits AND 0x02 \<noteq> 0, md_ring = bits AND 0x08 \<noteq> 0,
        md_dcd = bits AND 0x01 \<noteq> 0, md_overrun = bits AND 0x40 \<noteq> 0, md_parity_error = bits AND 0x20 \<noteq> 0,
        md_framing_error = bits AND 0x10 \<noteq> 0, md_break_received = bits AND 0x04 \<noteq> 0\<rparr>))"

text \<open>The callback of the notification transfer; its result says whether it goes on.\<close>

definition notified :: "unit transfer \<Rightarrow> modem_status \<Rightarrow> (modem_status \<times> bool) option" where
  "notified t st =
     (if tr_status t \<noteq> Completed then Some (st, False)
      else (case get_data t of
          (Val data, _) \<Rightarrow> Some (case decode_serial_state data of Some s \<Rightarrow> modem_update st s | None \<Rightarrow> st, True)
        | (Fail _, _) \<Rightarrow> Some (st, True)
        | (Panic, _) \<Rightarrow> None))"

section \<open>Line settings\<close>

datatype data_bits = Five | Six | Seven | Eight
datatype parity = ParityNone | ParityOdd | ParityEven | ParityMark | ParitySpace
datatype stop_bits = StopOne | StopOnePointFive | StopTwo
datatype flow_control = FlowNone | RtsCts | DtrDsr | XonXoff u8 u8

fun data_bits_count :: "data_bits \<Rightarrow> u8" where
  "data_bits_count Five = 5"
| "data_bits_count Six = 6"
| "data_bits_count Seven = 7"
| "data_bits_count Eight = 8"

fun parity_code :: "parity \<Rightarrow> u8" where
  "parity_code ParityNone = 0"
| "parity_code ParityOdd = 1"
| "parity_code ParityEven = 2"
| "parity_code ParityMark = 3"
| "parity_code ParitySpace = 4"

fun stop_bits_code :: "stop_bits \<Rightarrow> u8" where
  "stop_bits_code StopOne = 0"
| "stop_bits_code StopOnePointFive = 1"
| "stop_bits_code StopTwo = 2"

record line_config =
  lc_baud_rate :: u32
  lc_data_bits :: data_bits
  lc_parity :: parity
  lc_stop_bits :: stop_bits

definition line_config_new :: "u32 \<Rightarrow> line_config" where
  "line_config_new baud = \<lparr>lc_baud_rate = baud, lc_data_bits = Eight, lc_parity = ParityNone, lc_stop_bits = StopOne\<rparr>"

definition line_config_default :: line_config where
  "line_config_default = line_config_new 9600"

definition line_coding :: "line_config \<Rightarrow> bytes" where
  "line_coding c = le_bytes32 (lc_baud_rate c)
     @ [stop_bits_code (lc_stop_bits c), parity_code (lc_parity c), data_bits_count (lc_data_bits c)]"

definition line_coding_parse :: "bytes \<Rightarrow> line_config" where
  "line_coding_parse b = \<lparr>lc_baud_rate = u32_le (byte_at b 0) (byte_at b 1) (byte_at b 2) (byte_at b 3),
     lc_data_bits = (let v = byte_at b 6 in if v = 5 then Five else if v = 6 then Six else if v = 7 then Seven else Eight),
     lc_parity = (let v = byte_at b 5 in if v = 1 then ParityOdd else if v = 2 then ParityEven else if v = 3 then ParityMark
       else if v = 4 then ParitySpace else ParityNone),
     lc_stop_bits = (let v = byte_at b 4 in if v = 1 then StopOnePointFive else if v = 2 then StopTwo else StopOne)\<rparr>"

definition data_word :: "line_config \<Rightarrow> u16" where
  "data_word c = ucast (data_bits_count (lc_data_bits c)) OR push_bit 8 (ucast (parity_code (lc_parity c)))
     OR push_bit 11 (ucast (stop_bits_code (lc_stop_bits c)))"

section \<open>The state of a port\<close>

datatype port_kind = KindCdcAcm | KindFtdi
datatype serial_kind = SerialCdcAcm | SerialFtdi ftdi_chip

record port_info =
  pi_interface :: u8
  pi_kind :: port_kind

text \<open>An ACM port also has the endpoint on which its notification transfer repeats.\<close>

datatype backend = BackendAcm u8 "u8 option" | BackendFtdi ftdi_chip u16 u16

record serial_port =
  sp_claim :: helper_claim
  sp_kind :: serial_kind
  sp_ep_in :: u8
  sp_ep_in_packet :: nat
  sp_ep_out :: u8

record port_mut =
  pt_backend :: backend
  pt_line :: "line_config option"
  pt_dtr :: bool
  pt_rts :: bool
  pt_rx :: bytes
  pt_status :: modem_status
  pt_timeouts :: "nat \<times> nat"

type_synonym 'k port = "'k handle \<times> port_mut"

definition port_new :: "backend \<Rightarrow> port_mut" where
  "port_new b = \<lparr>pt_backend = b, pt_line = None, pt_dtr = False, pt_rts = False, pt_rx = [],
     pt_status = modem_default, pt_timeouts = (0, 0)\<rparr>"

abbreviation upd_port :: "(port_mut \<Rightarrow> port_mut) \<Rightarrow> ('k port, unit) io" where
  "upd_port f \<equiv> mod_st (\<lambda>(h, m). (h, f m))"

abbreviation (input) SERIAL_TIMEOUT :: nat where "SERIAL_TIMEOUT \<equiv> 1000"

section \<open>Requests\<close>

definition acm_request :: "'k sys \<Rightarrow> u8 \<Rightarrow> u8 \<Rightarrow> u16 \<Rightarrow> bytes \<Rightarrow> ('k port, unit) io" where
  "acm_request S comm request value data =
     bindR (on_handle (control_write S (request_type Out Class RInterface) request value (ucast comm) data SERIAL_TIMEOUT))
       (\<lambda>_. ret ())"

definition ftdi_channel_of :: "('k port, u16) io" where
  "ftdi_channel_of = bindR (get_st (\<lambda>(h, m). pt_backend m)) (\<lambda>b. case b of
      BackendFtdi _ channel _ \<Rightarrow> ret channel
    | BackendAcm _ _ \<Rightarrow> failK NotSupported)"

definition ftdi_request :: "'k sys \<Rightarrow> u8 \<Rightarrow> u16 \<Rightarrow> u16 \<Rightarrow> ('k port, unit) io" where
  "ftdi_request S request value index_high = bindR ftdi_channel_of (\<lambda>channel.
     bindR (on_handle (control_write S (request_type Out Vendor RDevice) request value (index_high OR channel) [] SERIAL_TIMEOUT))
       (\<lambda>_. ret ()))"

text \<open>The contents of the buffer of \<open>n\<close> bytes after the read.\<close>

definition ftdi_read :: "'k sys \<Rightarrow> u8 \<Rightarrow> nat \<Rightarrow> ('k port, bytes) io" where
  "ftdi_read S request n = bindR ftdi_channel_of (\<lambda>channel.
     bindR (on_handle (control_read S (request_type In Vendor RDevice) request 0 channel (replicate n 0) SERIAL_TIMEOUT))
       (\<lambda>(got, buf). if got < length buf then failK Io else ret buf))"

section \<open>Opening\<close>

definition has_bulk_pipes :: "interface_descriptor \<Rightarrow> bool" where
  "has_bulk_pipes a \<longleftrightarrow> endpoint_of a In Bulk \<noteq> None \<and> endpoint_of a Out Bulk \<noteq> None"

definition ports :: "'l device_info \<Rightarrow> port_info list result option" where
  "ports d = (let ftdi = (dd_vendor_id (di_descriptor d) = 0x0403) in
     map_option (map_sum (\<lambda>e. e) (map (\<lambda>a. \<lparr>pi_interface = if_number a, pi_kind = (if is_acm a then KindCdcAcm else KindFtdi)\<rparr>)))
       (interfaces_where d (\<lambda>a. is_acm a \<or> (ftdi \<and> has_bulk_pipes a))))"

definition acm_notify :: "'k async \<Rightarrow> (u8 \<times> nat) option \<Rightarrow> ('k handle, u8 option) io" where
  "acm_notify A notify = (case notify of
      None \<Rightarrow> ret None
    | Some (ep, sz) \<Rightarrow> matchR (on_sys (as_submit A Interrupt ep (max sz 16))) (\<lambda>_. ret (Some ep)) (\<lambda>_. ret None))"

definition acm_start ::
  "'k sys \<Rightarrow> 'k async \<Rightarrow> u8 \<Rightarrow> u8 \<Rightarrow> interface_descriptor \<Rightarrow> (u8 \<times> nat) option \<Rightarrow> helper_claim
     \<Rightarrow> ('k handle, serial_port \<times> port_mut) io" where
  "acm_start S A comm data_number data notify c =
     bindR (if if_alternate_setting data \<noteq> 0 then set_alternate_setting S data_number (if_alternate_setting data) else ret ())
       (\<lambda>_. case endpoint_of data In Bulk of
          None \<Rightarrow> failK Io
        | Some i \<Rightarrow> (case endpoint_of data Out Bulk of
            None \<Rightarrow> failK Io
          | Some out \<Rightarrow> bindR (acm_notify A notify) (\<lambda>running.
              ret (\<lparr>sp_claim = c, sp_kind = SerialCdcAcm, sp_ep_in = ep_address i,
                    sp_ep_in_packet = unat (ep_max_packet_size i), sp_ep_out = ep_address out\<rparr>,
                   port_new (BackendAcm comm running)))))"

definition open_cdc_acm :: "'k sys \<Rightarrow> 'k async \<Rightarrow> 'l device_info \<Rightarrow> u8 \<Rightarrow> ('k handle, serial_port \<times> port_mut) io" where
  "open_cdc_acm S A d comm_interface =
     bindR (lift_panic (active_config d)) (\<lambda>cfg.
     bindR (lift_panic (interface_of d comm_interface)) (\<lambda>comm.
       if \<not> is_acm comm then failK InvalidParam
       else (case acm_data_interface cfg comm of
           None \<Rightarrow> failK Io
         | Some data_number \<Rightarrow>
             (case Option.bind (cfg_interface cfg data_number) (\<lambda>i. find has_bulk_pipes (ig_alt_settings i)) of
                None \<Rightarrow> failK Io
              | Some data \<Rightarrow>
                  open_with S [comm_interface, data_number]
                    (acm_start S A comm_interface data_number data
                      (map_option (\<lambda>e. (ep_address e, unat (ep_max_packet_size e))) (endpoint_of comm In Interrupt)))))))"

text \<open>When the reset fails, the port just built is dropped: it has no transfer of its own, so only the claim goes.\<close>

definition ftdi_start ::
  "'k sys \<Rightarrow> device_descriptor \<Rightarrow> u8 \<Rightarrow> u8 \<Rightarrow> nat \<Rightarrow> u8 \<Rightarrow> helper_claim \<Rightarrow> ('k handle, serial_port \<times> port_mut) io" where
  "ftdi_start S desc interface ep_in packet ep_out c =
     bindR (ftdi_probe S desc interface) (\<lambda>chip.
       on_new_device (port_new (BackendFtdi chip (ftdi_channel chip interface) 8))
         (\<lambda>m. (\<lparr>sp_claim = c, sp_kind = SerialFtdi chip, sp_ep_in = ep_in, sp_ep_in_packet = max packet 3, sp_ep_out = ep_out\<rparr>, m))
         (ftdi_request S 0x00 0 0))"

definition open_ftdi :: "'k sys \<Rightarrow> 'l device_info \<Rightarrow> u8 \<Rightarrow> ('k handle, serial_port \<times> port_mut) io" where
  "open_ftdi S d interface =
     bindR (lift_panic (interface_of d interface)) (\<lambda>iface.
       case endpoint_of iface In Bulk of
         None \<Rightarrow> failK Io
       | Some i \<Rightarrow> (case endpoint_of iface Out Bulk of
           None \<Rightarrow> failK Io
         | Some out \<Rightarrow> open_with S [interface]
             (ftdi_start S (di_descriptor d) interface (ep_address i) (unat (ep_max_packet_size i)) (ep_address out))))"

definition open_port :: "'k sys \<Rightarrow> 'k async \<Rightarrow> 'l device_info \<Rightarrow> port_info \<Rightarrow> ('k handle, serial_port \<times> port_mut) io" where
  "open_port S A d p = (case pi_kind p of
      KindCdcAcm \<Rightarrow> open_cdc_acm S A d (pi_interface p)
    | KindFtdi \<Rightarrow> open_ftdi S d (pi_interface p))"

definition serial_open ::
  "'k sys \<Rightarrow> 'k async \<Rightarrow> ('k, unit) sysop \<Rightarrow> 'l device_info \<Rightarrow> 'k \<Rightarrow> ((serial_port \<times> port_mut) \<times> 'k handle) out \<times> 'k" where
  "serial_open S A opn d = open_first S opn (first_of NotSupported (ports d)) (open_port S A d)"

definition serial_open_interface :: "'k sys \<Rightarrow> 'k async \<Rightarrow> 'l device_info \<Rightarrow> u8 \<Rightarrow> ('k handle, serial_port \<times> port_mut) io" where
  "serial_open_interface S A d interface = bindR (lift_panic (ports d)) (\<lambda>ps.
     case find (\<lambda>p. pi_interface p = interface) ps of
       None \<Rightarrow> failK InvalidParam
     | Some p \<Rightarrow> open_port S A d p)"

text \<open>Dropping a port stops its notification transfer before the interfaces are released.\<close>

definition notifying :: "port_mut \<Rightarrow> u8 list" where
  "notifying m = (case pt_backend m of BackendAcm _ (Some ep) \<Rightarrow> [ep] | _ \<Rightarrow> [])"

definition serial_drop :: "'k sys \<Rightarrow> 'k async \<Rightarrow> serial_port \<times> port_mut \<Rightarrow> 'k handle \<Rightarrow> 'k handle" where
  "serial_drop S A = (\<lambda>(P, m) h. claim_drop S (sp_claim P) (snd (stop_all A (notifying m) h)))"

definition serial_open_all :: "'k sys \<Rightarrow> 'k async \<Rightarrow> 'l device_info \<Rightarrow> ('k handle, (serial_port \<times> port_mut) list) io" where
  "serial_open_all S A d = bindR (lift_panic (ports d)) (open_list (open_port S A d) (serial_drop S A) [])"

section \<open>Settings and modem lines\<close>

definition set_line_config :: "'k sys \<Rightarrow> line_config \<Rightarrow> ('k port, unit) io" where
  "set_line_config S c = bindR (get_st (\<lambda>(h, m). pt_backend m)) (\<lambda>b.
     bindR (case b of
         BackendAcm comm _ \<Rightarrow> acm_request S comm 0x20 0 (line_coding c)
       | BackendFtdi chip channel _ \<Rightarrow>
           if lc_data_bits c \<notin> {Seven, Eight} then failK NotSupported
           else bindR (lift_res (baud_request chip channel (lc_baud_rate c))) (\<lambda>(value, index).
             bindR (upd_port (\<lambda>m. m\<lparr>pt_backend := BackendFtdi chip channel (data_word c)\<rparr>)) (\<lambda>_.
             bindR (on_handle (control_write S (request_type Out Vendor RDevice) 0x03 value index [] SERIAL_TIMEOUT)) (\<lambda>_.
             ftdi_request S 0x04 (data_word c) 0))))
       (\<lambda>_. upd_port (\<lambda>m. m\<lparr>pt_line := Some c\<rparr>)))"

definition set_baud_rate :: "'k sys \<Rightarrow> u32 \<Rightarrow> ('k port, unit) io" where
  "set_baud_rate S baud = bindR (get_st (\<lambda>(h, m). case pt_line m of Some c \<Rightarrow> c | None \<Rightarrow> line_config_default))
     (\<lambda>c. set_line_config S (c\<lparr>lc_baud_rate := baud\<rparr>))"

definition get_line_config :: "'k sys \<Rightarrow> ('k port, line_config option) io" where
  "get_line_config S = bindR (get_st (\<lambda>(h, m). (pt_backend m, pt_line m))) (\<lambda>(b, line). case b of
      BackendFtdi _ _ _ \<Rightarrow> ret line
    | BackendAcm comm _ \<Rightarrow>
        bindR (on_handle (control_read S (request_type In Class RInterface) 0x21 0 (ucast comm) (replicate 7 0) SERIAL_TIMEOUT))
          (\<lambda>(n, b). if n < 7 then failK Io else ret (Some (line_coding_parse b))))"

fun flow_codes :: "flow_control \<Rightarrow> u16 \<times> u16" where
  "flow_codes FlowNone = (0, 0)"
| "flow_codes RtsCts = (0, 0x01)"
| "flow_codes DtrDsr = (0, 0x02)"
| "flow_codes (XonXoff xon xoff) = (push_bit 8 (ucast xoff) OR ucast xon, 0x04)"

definition set_flow_control :: "'k sys \<Rightarrow> serial_port \<Rightarrow> flow_control \<Rightarrow> ('k port, unit) io" where
  "set_flow_control S P flow = (case sp_kind P of
      SerialCdcAcm \<Rightarrow> if flow = FlowNone then ret () else failK NotSupported
    | SerialFtdi _ \<Rightarrow> ftdi_request S 0x02 (fst (flow_codes flow)) (push_bit 8 (snd (flow_codes flow))))"

text \<open>\<open>set_lines\<close>: the first locking of \<open>state\<close>, the request, and the second locking.\<close>

definition lines_of :: "bool option \<Rightarrow> bool option \<Rightarrow> port_mut \<Rightarrow> bool \<times> bool" where
  "lines_of dtr rts m = (case dtr of Some b \<Rightarrow> b | None \<Rightarrow> pt_dtr m, case rts of Some b \<Rightarrow> b | None \<Rightarrow> pt_rts m)"

definition line_bits :: "bool \<Rightarrow> bool \<Rightarrow> u16" where
  "line_bits dtr rts = (if dtr then 1 else 0) OR push_bit 1 (if rts then 1 else 0)"

definition send_lines :: "'k sys \<Rightarrow> bool option \<Rightarrow> bool option \<Rightarrow> bool \<times> bool \<Rightarrow> ('k port, unit) io" where
  "send_lines S dtr rts new = bindR (get_st (\<lambda>(h, m). pt_backend m)) (\<lambda>b. case b of
      BackendAcm comm _ \<Rightarrow> acm_request S comm 0x22 (line_bits (fst new) (snd new)) []
    | BackendFtdi _ _ _ \<Rightarrow>
        ftdi_request S 0x01 (push_bit 8 (line_bits (dtr \<noteq> None) (rts \<noteq> None)) OR line_bits (fst new) (snd new)) 0)"

definition store_lines :: "bool \<times> bool \<Rightarrow> port_mut \<Rightarrow> port_mut" where
  "store_lines new m = m\<lparr>pt_dtr := fst new, pt_rts := snd new\<rparr>"

definition set_lines :: "'k sys \<Rightarrow> bool option \<Rightarrow> bool option \<Rightarrow> ('k port, unit) io" where
  "set_lines S dtr rts = bindR (get_st (\<lambda>(h, m). lines_of dtr rts m)) (\<lambda>new.
     bindR (send_lines S dtr rts new) (\<lambda>_. upd_port (store_lines new)))"

definition set_dtr :: "'k sys \<Rightarrow> bool \<Rightarrow> ('k port, unit) io" where
  "set_dtr S on = set_lines S (Some on) None"

definition set_rts :: "'k sys \<Rightarrow> bool \<Rightarrow> ('k port, unit) io" where
  "set_rts S on = set_lines S None (Some on)"

definition set_break :: "'k sys \<Rightarrow> bool \<Rightarrow> ('k port, unit) io" where
  "set_break S on = bindR (get_st (\<lambda>(h, m). pt_backend m)) (\<lambda>b. case b of
      BackendAcm comm _ \<Rightarrow> acm_request S comm 0x23 (if on then 0xffff else 0) []
    | BackendFtdi _ _ word \<Rightarrow> ftdi_request S 0x04 (if on then word OR push_bit 14 1 else word) 0)"

text \<open>The sleep between the two takes no part.\<close>

definition send_break :: "'k sys \<Rightarrow> ('k port, unit) io" where
  "send_break S = bindR (set_break S True) (\<lambda>_. set_break S False)"

definition get_modem_status :: "'k sys \<Rightarrow> serial_port \<Rightarrow> ('k port, modem_status) io" where
  "get_modem_status S P =
     bindR (case sp_kind P of
         SerialFtdi _ \<Rightarrow> bindR (ftdi_read S 0x05 2) (\<lambda>b.
           upd_port (\<lambda>m. m\<lparr>pt_status := modem_update (pt_status m) (decode_status (byte_at b 0) (byte_at b 1))\<rparr>))
       | SerialCdcAcm \<Rightarrow> ret ())
       (\<lambda>_. bindR (get_st (\<lambda>(h, m). fst (take_events (pt_status m)))) (\<lambda>s.
          bindR (upd_port (\<lambda>m. m\<lparr>pt_status := snd (take_events (pt_status m))\<rparr>)) (\<lambda>_. ret s)))"

definition purge :: "'k sys \<Rightarrow> serial_port \<Rightarrow> bool \<Rightarrow> bool \<Rightarrow> ('k port, unit) io" where
  "purge S P inp outp =
     bindR (if inp then upd_port (\<lambda>m. m\<lparr>pt_rx := []\<rparr>) else ret ()) (\<lambda>_. case sp_kind P of
         SerialFtdi _ \<Rightarrow>
           bindR (if inp then ftdi_request S 0x00 2 0 else ret ()) (\<lambda>_.
             if outp then ftdi_request S 0x00 1 0 else ret ())
       | SerialCdcAcm \<Rightarrow> ret ())"

definition set_latency_timer :: "'k sys \<Rightarrow> u8 \<Rightarrow> ('k port, unit) io" where
  "set_latency_timer S ms = (if ms = 0 then failK InvalidParam else ftdi_request S 0x09 (ucast ms) 0)"

definition latency_timer :: "'k sys \<Rightarrow> ('k port, u8) io" where
  "latency_timer S = bindR (ftdi_read S 0x0a 1) (\<lambda>b. ret (byte_at b 0))"

definition set_bitmode :: "'k sys \<Rightarrow> u8 \<Rightarrow> u8 \<Rightarrow> ('k port, unit) io" where
  "set_bitmode S pins mode = ftdi_request S 0x0b (push_bit 8 (ucast mode) OR ucast pins) 0"

definition read_pins :: "'k sys \<Rightarrow> ('k port, u8) io" where
  "read_pins S = bindR (ftdi_read S 0x0c 1) (\<lambda>b. ret (byte_at b 0))"

section \<open>The data\<close>

definition set_read_timeout :: "nat \<Rightarrow> port_mut \<Rightarrow> port_mut" where
  "set_read_timeout t m = m\<lparr>pt_timeouts := (t, snd (pt_timeouts m))\<rparr>"

definition set_write_timeout :: "nat \<Rightarrow> port_mut \<Rightarrow> port_mut" where
  "set_write_timeout t m = m\<lparr>pt_timeouts := (fst (pt_timeouts m), t)\<rparr>"

text \<open>\<open>drain\<close>: the count and the caller's buffer afterwards.\<close>

definition drain :: "bytes \<Rightarrow> ('k port, nat \<times> bytes) io" where
  "drain buf = bindR (get_st (\<lambda>(h, m). pt_rx m)) (\<lambda>rx. let n = min (length rx) (length buf) in
     bindR (upd_port (\<lambda>m. m\<lparr>pt_rx := drop n rx\<rparr>)) (\<lambda>_. ret (n, take n rx @ drop n buf)))"

definition ftdi_packet :: "bytes \<Rightarrow> port_mut \<Rightarrow> port_mut" where
  "ftdi_packet p m = (if length p \<ge> 2
     then m\<lparr>pt_status := modem_update (pt_status m) (decode_status (p ! 0) (p ! 1)), pt_rx := pt_rx m @ drop 2 p\<rparr>
     else m)"

definition received :: "serial_port \<Rightarrow> bytes \<Rightarrow> port_mut \<Rightarrow> port_mut" where
  "received P data m = (case sp_kind P of
      SerialFtdi _ \<Rightarrow> fold ftdi_packet (chunks (sp_ep_in_packet P) data) m
    | SerialCdcAcm \<Rightarrow> m\<lparr>pt_rx := pt_rx m @ data\<rparr>)"

definition packet_payload :: "serial_port \<Rightarrow> nat" where
  "packet_payload P = (case sp_kind P of SerialFtdi _ \<Rightarrow> sp_ep_in_packet P - 2 | SerialCdcAcm \<Rightarrow> sp_ep_in_packet P)"

definition clamp_packets :: "nat \<Rightarrow> nat" where
  "clamp_packets n = max 1 (min n 64)"

text \<open>How long to wait at a reading of the clock, 0 for as long as it takes (\<open>NO_TIMEOUT\<close>).\<close>

definition wait_left :: "nat option \<Rightarrow> nat \<Rightarrow> nat option" where
  "wait_left deadline now = (case deadline of
      None \<Rightarrow> Some 0
    | Some d \<Rightarrow> if now < d then Some (d - now) else None)"

fun serial_read_loop :: "'k sys \<Rightarrow> serial_port \<Rightarrow> nat option \<Rightarrow> bytes \<Rightarrow> nat list \<Rightarrow> bytes \<Rightarrow> ('k port, (nat \<times> bytes) option) io" where
  "serial_read_loop S P deadline raw [] buf = ret None"
| "serial_read_loop S P deadline raw (now # nows) buf = (case wait_left deadline now of
      None \<Rightarrow> failK Timeout
    | Some wait \<Rightarrow>
        bindR (on_handle (bulk_read S (sp_ep_in P) raw wait)) (\<lambda>(n, raw).
        bindR (lift_opt (slice raw 0 n)) (\<lambda>data.
        bindR (upd_port (received P data)) (\<lambda>_.
        bindR (get_st (\<lambda>(h, m). pt_rx m)) (\<lambda>rx.
          if rx \<noteq> [] then bindR (drain buf) (\<lambda>r. ret (Some r))
          else serial_read_loop S P deadline raw nows buf)))))"

definition read_with_timeout :: "'k sys \<Rightarrow> serial_port \<Rightarrow> nat \<Rightarrow> nat \<Rightarrow> nat list \<Rightarrow> bytes \<Rightarrow> ('k port, (nat \<times> bytes) option) io" where
  "read_with_timeout S P timeout start nows buf =
     (if buf = [] then ret (Some (0, []))
      else bindR (get_st (\<lambda>(h, m). pt_rx m)) (\<lambda>rx.
        if rx \<noteq> [] then bindR (drain buf) (\<lambda>r. ret (Some r))
        else if packet_payload P = 0 then lift_opt None
        else serial_read_loop S P (if timeout = 0 then None else Some (start + timeout))
          (replicate (clamp_packets (div_ceil (length buf) (packet_payload P)) * sp_ep_in_packet P) 0) nows buf))"

definition write_with_timeout :: "'k sys \<Rightarrow> serial_port \<Rightarrow> bytes \<Rightarrow> nat \<Rightarrow> ('k port, nat) io" where
  "write_with_timeout S P data timeout = on_handle (bulk_write S (sp_ep_out P) data timeout)"

definition serial_read :: "'k sys \<Rightarrow> serial_port \<Rightarrow> nat \<Rightarrow> nat list \<Rightarrow> bytes \<Rightarrow> ('k port, (nat \<times> bytes) option) io" where
  "serial_read S P start nows buf = bindR (get_st (\<lambda>(h, m). fst (pt_timeouts m)))
     (\<lambda>timeout. read_with_timeout S P timeout start nows buf)"

definition serial_write :: "'k sys \<Rightarrow> serial_port \<Rightarrow> bytes \<Rightarrow> ('k port, nat) io" where
  "serial_write S P data = bindR (get_st (\<lambda>(h, m). snd (pt_timeouts m)))
     (\<lambda>timeout. write_with_timeout S P data timeout)"

section \<open>The claims of a port\<close>

abbreviation port_kept :: "('k port, 'a) io \<Rightarrow> bool" where
  "port_kept m \<equiv> keeps (\<lambda>s. claims (fst s)) m"

lemma keeps_case_backend [keeping]:
  "(\<And>c n. keeps v (f c n)) \<Longrightarrow> (\<And>c n w. keeps v (g c n w)) \<Longrightarrow>
    keeps v (case b of BackendAcm c n \<Rightarrow> f c n | BackendFtdi c n w \<Rightarrow> g c n w)"
  by (cases b) simp_all

lemma port_kept_requests [keeping]: "port_kept (ftdi_request S r v i)" "port_kept (acm_request S c q v data)"
  unfolding ftdi_request_def acm_request_def ftdi_channel_of_def by (intro keeping kept)+

lemma acm_start_kept: "claims_kept (acm_start S A comm dn data notify c)"
  unfolding acm_start_def acm_notify_def by (intro kept)

lemma ftdi_start_kept: "claims_kept (ftdi_start S desc i ep_in p ep_out c)"
  unfolding ftdi_start_def ftdi_probe_def
  by (intro kept kept_on_new_device keeping)

interpretation acm_class: class_device S "[comm, data_number]" "acm_start S A comm data_number data notify" "sp_claim \<circ> fst"
  for S comm data_number A data notify
proof unfold_locales
  fix c h d h'
  show "claims_kept (acm_start S A comm data_number data notify c)" by (rule acm_start_kept)
  assume "acm_start S A comm data_number data notify c h = (Val d, h')"
  then show "(sp_claim \<circ> fst) d = c"
    by (auto simp: acm_start_def bindR_eq_Val split: option.splits)
qed

interpretation ftdi_class: class_device S "[interface]" "ftdi_start S desc interface ep_in packet ep_out" "sp_claim \<circ> fst"
  for S interface desc ep_in packet ep_out
proof unfold_locales
  fix c h d h'
  show "claims_kept (ftdi_start S desc interface ep_in packet ep_out c)" by (rule ftdi_start_kept)
  assume "ftdi_start S desc interface ep_in packet ep_out c h = (Val d, h')"
  then show "(sp_claim \<circ> fst) d = c"
    by (auto simp: ftdi_start_def bindR_eq_Val dest!: on_new_device_Val)
qed

lemma port_owns: "owns (sp_claim \<circ> fst) (open_port S A d p)"
  by (cases "pi_kind p") (simp_all add: open_port_def open_cdc_acm_def open_ftdi_def,
    (intro owning acm_class.open_owns ftdi_class.open_owns)+)

interpretation serial_opener: class_opener "open_port S A d" "serial_drop S A" "sp_claim \<circ> fst"
  for S A d
  by (rule opener_of_owns)
    (auto simp: port_owns serial_drop_def claim_drop_effect stop_all_def split: prod.split)

interpretation line_codec: fixed_codec line_coding "\<lambda>b. Some (line_coding_parse b)" 7
proof
  fix c :: line_config and rest
  show "length (line_coding c) = 7" by (simp add: line_coding_def)
  have p: "(let v = parity_code p in if v = 1 then ParityOdd else if v = 2 then ParityEven else if v = 3 then ParityMark
       else if v = 4 then ParitySpace else ParityNone) = p" for p by (cases p) simp_all
  have d: "(let v = data_bits_count b in if v = 5 then Five else if v = 6 then Six else if v = 7 then Seven else Eight) = b" for b
    by (cases b) simp_all
  have s: "(let v = stop_bits_code b in if v = 1 then StopOnePointFive else if v = 2 then StopTwo else StopOne) = b" for b
    by (cases b) simp_all
  show "Some (line_coding_parse (line_coding c @ rest)) = Some c"
    by (simp add: line_coding_parse_def line_coding_def le_bytes32_def p d s)
qed

end
