(* ===== verification/Serial_Stream.thy ===== *)
theory Serial_Stream
  imports Serial_Port
begin

text \<open>
  What the operations of \<open>Serial_Port\<close> promise. The stream of a port: whatever the device holds for the
  line, what waits in the receive buffer and what a read returns are always the same bytes in the same
  order (\<open>read_stream\<close>), a read with a timeout ends (\<open>read_loop_returns\<close>), and idle packets of an FTDI chip
  do not end it early (\<open>read_past_idle\<close>). The modem lines: \<open>set_lines\<close> is two critical sections with the
  request between them; \<open>lines_raced\<close> runs two calls whose sections interleave.
\<close>

section \<open>The bytes of the line\<close>

definition line_bytes :: "serial_port \<Rightarrow> bytes \<Rightarrow> bytes" where
  "line_bytes P data = (case sp_kind P of
      SerialFtdi _ \<Rightarrow> concat (map (drop 2) (chunks (sp_ep_in_packet P) data))
    | SerialCdcAcm \<Rightarrow> data)"

text \<open>A device whose \<open>held\<close> bytes leave it only in transfers that complete.\<close>

definition delivers :: "'k sys \<Rightarrow> serial_port \<Rightarrow> ('k \<Rightarrow> bytes) \<Rightarrow> bool" where
  "delivers S P held \<longleftrightarrow> (\<forall>buf tmo k. case sys_transfer S Bulk (sp_ep_in P) buf tmo k of
      (Inr (st, n, out), k') \<Rightarrow> if st = Completed
         then length out = length buf \<and> n \<le> length buf \<and> held k = line_bytes P (take n out) @ held k'
         else held k' = held k
    | (Inl _, k') \<Rightarrow> held k' = held k)"

lemma ftdi_packet_rx: "pt_rx (ftdi_packet p m) = pt_rx m @ drop 2 p"
  by (simp add: ftdi_packet_def)

lemma ftdi_packets_rx: "pt_rx (fold ftdi_packet ps m) = pt_rx m @ concat (map (drop 2) ps)"
  by (induction ps arbitrary: m) (simp_all add: ftdi_packet_rx)

lemma received_rx: "pt_rx (received P data m) = pt_rx m @ line_bytes P data"
  by (simp add: received_def line_bytes_def ftdi_packets_rx split: serial_kind.split)

lemma bulk_read_delivers:
  assumes "delivers S P held" "sp_ep_in P AND 0x80 \<noteq> 0"
  obtains e h' where "bulk_read S (sp_ep_in P) raw tmo h = (Fail e, h')" "held (h_world h') = held (h_world h)"
  | n raw' h' where "bulk_read S (sp_ep_in P) raw tmo h = (Val (n, raw'), h')" "n \<le> length raw'"
      "held (h_world h) = line_bytes P (take n raw') @ held (h_world h')"
proof -
  let ?b = "replicate (length raw) 0 :: bytes"
  obtain r k where r: "sys_transfer S Bulk (sp_ep_in P) ?b tmo (h_world h) = (r, k)" by fastforce
  from assms(1) have "case sys_transfer S Bulk (sp_ep_in P) ?b tmo (h_world h) of
      (Inr (st, n, out), k') \<Rightarrow> if st = Completed
         then length out = length ?b \<and> n \<le> length ?b \<and> held (h_world h) = line_bytes P (take n out) @ held k'
         else held k' = held (h_world h)
    | (Inl _, k') \<Rightarrow> held k' = held (h_world h)"
    unfolding delivers_def by (elim allE)
  note d = this [unfolded r]
  show thesis
  proof (cases r)
    case (Inl e)
    have "bulk_read S (sp_ep_in P) raw tmo h = (Fail e, h\<lparr>h_world := k\<rparr>)"
      by (rule sync_read_refused [OF assms(2)]) (use r Inl in simp_all)
    then show thesis by (rule that(1)) (use d Inl in simp)
  next
    case (Inr x)
    obtain st n out where x: "x = (st, n, out)" by (cases x)
    show thesis
    proof (cases "st = Completed")
      case True
      have l: "length out = length raw" "n \<le> length raw" "held (h_world h) = line_bytes P (take n out) @ held k"
        using d Inr x True by auto
      have "bulk_read S (sp_ep_in P) raw tmo h = (Val (n, take n out @ drop n raw), h\<lparr>h_world := k\<rparr>)"
        by (rule sync_read_completed [OF assms(2)]) (use r Inr x True l in simp_all)
      then show thesis by (rule that(2)) (use l in \<open>simp_all add: min_absorb2\<close>)
    next
      case False
      then obtain e where e: "status_into_result st = Inl e"
        using status_result_iff [of st] by (cases "status_into_result st") (auto simp: status_is_ok_def)
      have "bulk_read S (sp_ep_in P) raw tmo h = (Fail e, h\<lparr>h_world := k\<rparr>)"
        by (rule sync_read_failed [OF assms(2) _ _ _ e]) (use r Inr x in simp_all)
      then show thesis by (rule that(1)) (use d Inr x False in simp)
    qed
  qed
qed

lemma drain_run: "drain buf (h, m) =
    (Val (min (length (pt_rx m)) (length buf), take (min (length (pt_rx m)) (length buf)) (pt_rx m)
        @ drop (min (length (pt_rx m)) (length buf)) buf),
     (h, m\<lparr>pt_rx := drop (min (length (pt_rx m)) (length buf)) (pt_rx m)\<rparr>))"
  by (simp add: drain_def Let_def bindR_def)

text \<open>What a read may return, and what it may not lose.\<close>

definition read_keeps :: "('k \<Rightarrow> bytes) \<Rightarrow> bytes \<Rightarrow> 'k port \<Rightarrow> (nat \<times> bytes) option out \<times> 'k port \<Rightarrow> bool" where
  "read_keeps held buf = (\<lambda>(h, m) (r, (h', m')). (case r of
      Val (Some (n, b)) \<Rightarrow> (n = 0 \<longleftrightarrow> buf = []) \<and> n \<le> length buf \<and> length b = length buf \<and> drop n b = drop n buf
        \<and> pt_rx m @ held (h_world h) = take n b @ pt_rx m' @ held (h_world h')
    | Panic \<Rightarrow> False
    | _ \<Rightarrow> pt_rx m @ held (h_world h) = pt_rx m' @ held (h_world h')))"

lemma drain_keeps:
  assumes "pt_rx m \<noteq> []" "buf \<noteq> []"
  shows "read_keeps held buf (h, m) (bindR (drain buf) (\<lambda>r. ret (Some r)) (h, m))"
proof -
  have "0 < min (length (pt_rx m)) (length buf)" using assms by simp
  then show ?thesis using assms by (simp add: read_keeps_def bindR_def drain_run min_def)
qed

lemma read_loop_keeps:
  assumes "delivers S P held" "sp_ep_in P AND 0x80 \<noteq> 0" "buf \<noteq> []" "pt_rx m = []"
  shows "read_keeps held buf (h, m) (serial_read_loop S P deadline raw nows buf (h, m))"
  using assms(4)
proof (induction nows arbitrary: raw h m)
  case Nil
  then show ?case by (simp add: read_keeps_def)
next
  case (Cons now nows)
  show ?case
  proof (cases "wait_left deadline now")
    case None
    then show ?thesis by (simp add: read_keeps_def)
  next
    case (Some wait)
    from assms(1,2) show ?thesis
    proof (cases rule: bulk_read_delivers [of S P held raw wait h])
      case (1 e h')
      with Some show ?thesis by (simp add: read_keeps_def bindR_def zoom_def)
    next
      case (2 n raw' h')
      define m1 where "m1 = received P (take n raw') m"
      have rx: "pt_rx m1 = line_bytes P (take n raw')" using Cons.prems by (simp add: m1_def received_rx)
      have run: "serial_read_loop S P deadline raw (now # nows) buf (h, m) =
          (if pt_rx m1 \<noteq> [] then bindR (drain buf) (\<lambda>r. ret (Some r)) else serial_read_loop S P deadline raw' nows buf) (h', m1)"
        using Some 2(1,2) by (simp add: bindR_def zoom_def slice_def m1_def)
      have shift: "read_keeps held buf (h', m1) q \<Longrightarrow> read_keeps held buf (h, m) q" for q
        using 2(3) rx Cons.prems by (cases q) (auto simp: read_keeps_def split: out.splits option.splits)
      show ?thesis
      proof (cases "pt_rx m1 = []")
        case True
        from shift [OF Cons.IH [OF True, of h' raw']] True run show ?thesis by simp
      next
        case False
        from shift [OF drain_keeps [OF False assms(3)]] False run show ?thesis by simp
      qed
    qed
  qed
qed

lemma read_stream:
  assumes "delivers S P held" "sp_ep_in P AND 0x80 \<noteq> 0" "packet_payload P \<noteq> 0"
  shows "read_keeps held buf (h, m) (read_with_timeout S P timeout start nows buf (h, m))"
proof (cases "buf = []")
  case True
  then show ?thesis by (simp add: read_with_timeout_def read_keeps_def)
next
  case False
  show ?thesis
  proof (cases "pt_rx m = []")
    case True
    from read_loop_keeps [OF assms(1,2) False True] assms(3) False True show ?thesis
      by (simp add: read_with_timeout_def bindR_def)
  next
    case rx: False
    from drain_keeps [OF rx False] False rx show ?thesis
      by (simp add: read_with_timeout_def bindR_def [of "get_st _"])
  qed
qed

section \<open>Ending\<close>

lemma read_loop_returns:
  assumes "\<exists>now \<in> set nows. d \<le> now"
  shows "fst (serial_read_loop S P (Some d) raw nows buf s) \<noteq> Val None"
  using assms
proof (induction nows arbitrary: raw s)
  case (Cons now nows)
  then show ?case
    by (auto simp: wait_left_def bindR_def drain_def Let_def lift_opt_def split: out.splits prod.splits option.splits if_splits)

qed simp

text \<open>On a backend that keeps its promise a read does not panic, and what it returns was put into the buffer.\<close>

definition read_answers :: "bytes \<Rightarrow> (nat \<times> bytes) option out \<Rightarrow> bool" where
  "read_answers buf q \<longleftrightarrow> (case q of
      Val (Some (n, b)) \<Rightarrow> 0 < n \<and> n \<le> length buf \<and> length b = length buf \<and> drop n b = drop n buf
    | Val None \<Rightarrow> True | Fail e \<Rightarrow> True | Panic \<Rightarrow> False)"

lemma drain_answers: "pt_rx m \<noteq> [] \<Longrightarrow> buf \<noteq> [] \<Longrightarrow> read_answers buf (fst (bindR (drain buf) (\<lambda>r. ret (Some r)) (h, m)))"
  by (simp add: read_answers_def bindR_def drain_run min_def)

lemma read_loop_answers:
  assumes "sys_ok S" "buf \<noteq> []"
  shows "read_answers buf (fst (serial_read_loop S P deadline raw nows buf (h, m)))"
proof (induction nows arbitrary: raw h m)
  case Nil
  then show ?case by (simp add: read_answers_def)
next
  case (Cons now nows)
  show ?case
  proof (cases "wait_left deadline now")
    case None
    then show ?thesis by (simp add: read_answers_def)
  next
    case (Some wait)
    obtain q h1 where q: "bulk_read S (sp_ep_in P) raw wait h = (q, h1)" by fastforce
    have a: "case q of Val (n, b) \<Rightarrow> n \<le> length raw \<and> length b = length raw | Fail e \<Rightarrow> True | Panic \<Rightarrow> False"
      using sync_read_cases [OF assms(1), of Bulk "sp_ep_in P" raw wait h] q by auto
    show ?thesis
    proof (cases q)
      case (Val p)
      obtain n b where p: "p = (n, b)" by fastforce
      let ?m = "received P (take n b) m"
      have "serial_read_loop S P deadline raw (now # nows) buf (h, m) = (if pt_rx ?m \<noteq> [] then bindR (drain buf) (\<lambda>r. ret (Some r)) (h1, ?m)
          else serial_read_loop S P deadline b nows buf (h1, ?m))"
        using Some q a Val p by (simp add: bindR_def zoom_def slice_def)
      then show ?thesis using drain_answers [OF _ assms(2), of ?m h1] Cons.IH [of b h1 ?m] by simp
    qed (use a q Some in \<open>simp_all add: bindR_def zoom_def read_answers_def\<close>)
  qed
qed

lemma read_answers_all:
  assumes "sys_ok S" "buf \<noteq> []" "pt_rx m \<noteq> [] \<or> packet_payload P \<noteq> 0"
  shows "read_answers buf (fst (read_with_timeout S P timeout start nows buf (h, m)))"
proof (cases "pt_rx m = []")
  case True
  then have "packet_payload P \<noteq> 0" using assms(3) by simp
  with read_loop_answers [OF assms(1,2)] True assms(2) show ?thesis by (simp add: read_with_timeout_def bindR_def)
next
  case False
  with drain_answers [OF False assms(2), of h] assms(2) show ?thesis by (simp add: read_with_timeout_def bindR_def [of "get_st _"])
qed

lemma read_returns:
  assumes "timeout \<noteq> 0" "\<exists>now \<in> set nows. start + timeout \<le> now"
  shows "fst (read_with_timeout S P timeout start nows buf s) \<noteq> Val None"
  using assms read_loop_returns [of nows "start + timeout" S P _ buf]
  by (cases s) (auto simp: read_with_timeout_def bindR_def drain_def Let_def lift_opt_def split: prod.splits out.splits option.splits)

section \<open>A device with transfers to give\<close>

text \<open>The world is the contents of the transfers the device completes next; with none left, a read times out.\<close>

definition line_transfer :: "transfer_type \<Rightarrow> u8 \<Rightarrow> bytes \<Rightarrow> nat \<Rightarrow> (bytes list, transfer_status \<times> nat \<times> bytes) sysop" where
  "line_transfer kind ep buf tmo k = (case k of
      [] \<Rightarrow> (Ok (TimedOut, 0, buf), [])
    | p # ps \<Rightarrow> if kind \<noteq> Bulk \<or> length p > length buf then (Ok (StOverflow, 0, buf), p # ps)
        else (Ok (Completed, length p, p @ drop (length p) buf), ps))"

abbreviation line_sys :: "bytes list sys" where
  "line_sys \<equiv> quiet_sys line_transfer"

lemma line_sys_delivers: "delivers line_sys P (\<lambda>ps. concat (map (line_bytes P) ps))"
  by (auto simp: delivers_def line_transfer_def split: list.split)

lemma line_sys_read:
  assumes "sp_ep_in P AND 0x80 \<noteq> 0" "h_world h = p # ps" "length p \<le> length raw"
  shows "bulk_read line_sys (sp_ep_in P) raw tmo h = (Val (length p, p @ drop (length p) raw), h\<lparr>h_world := ps\<rparr>)"
proof -
  have "bulk_read line_sys (sp_ep_in P) raw tmo h =
      (Val (length p, take (length p) (p @ drop (length p) (replicate (length raw) 0)) @ drop (length p) raw), h\<lparr>h_world := ps\<rparr>)"
    by (rule sync_read_completed [OF assms(1)]) (use assms(2,3) in \<open>simp_all add: line_transfer_def\<close>)
  then show ?thesis by simp
qed

text \<open>One packet of an FTDI chip, read alone.\<close>

lemma received_one:
  assumes "sp_kind P = SerialFtdi chip" "2 \<le> length p" "length p \<le> sp_ep_in_packet P"
  shows "received P p m = ftdi_packet p m"
proof -
  have "p \<noteq> []" "0 < sp_ep_in_packet P" using assms(2,3) by auto
  with assms show ?thesis by (simp add: received_def chunks_step)
qed

lemma read_loop_past_idle:
  assumes "sp_kind P = SerialFtdi chip" "sp_ep_in P AND 0x80 \<noteq> 0" "2 < length p" "length p \<le> sp_ep_in_packet P"
    and "list_all (\<lambda>q. length q = 2) idle" "pt_rx m = []" "h_world h = idle @ p # ps" "length idle < length nows"
    "sp_ep_in_packet P \<le> length raw"
  shows "\<exists>h' m'. serial_read_loop line_sys P None raw nows buf (h, m) =
      (Val (Some (min (length p - 2) (length buf), take (length buf) (drop 2 p) @ drop (length p - 2) buf)), (h', m'))
      \<and> h_world h' = ps \<and> pt_rx m' = drop (length buf) (drop 2 p)"
  using assms(5-)
proof (induction idle arbitrary: raw h m nows)
  case Nil
  obtain now rest where n: "nows = now # rest" using Nil by (cases nows) auto
  let ?m = "ftdi_packet p m"
  have r: "bulk_read line_sys (sp_ep_in P) raw 0 h = (Val (length p, p @ drop (length p) raw), h\<lparr>h_world := ps\<rparr>)"
    by (rule line_sys_read) (use assms Nil in auto)
  have m: "received P p m = ?m" by (rule received_one) (use assms in auto)
  have rx: "pt_rx ?m = drop 2 p" using Nil by (simp add: ftdi_packet_rx)
  then have "pt_rx ?m \<noteq> []" using assms(3) by simp
  then have "serial_read_loop line_sys P None raw nows buf (h, m)
      = bindR (drain buf) (\<lambda>r. ret (Some r)) (h\<lparr>h_world := ps\<rparr>, ?m)"
    using r m by (simp add: n wait_left_def bindR_def zoom_def slice_def)
  then show ?case by (auto simp: bindR_def drain_run rx min_def)
next
  case (Cons q idle)
  obtain now rest where n: "nows = now # rest" using Cons.prems by (cases nows) auto
  let ?m = "ftdi_packet q m"
  have q: "length q = 2" using Cons.prems by simp
  have r: "bulk_read line_sys (sp_ep_in P) raw 0 h = (Val (length q, q @ drop (length q) raw), h\<lparr>h_world := idle @ p # ps\<rparr>)"
    by (rule line_sys_read) (use assms(2-4) Cons.prems q in auto)
  have m: "received P q m = ?m" by (rule received_one) (use assms q in auto)
  have rx: "pt_rx ?m = []" using Cons.prems q by (simp add: ftdi_packet_rx)
  have "serial_read_loop line_sys P None raw nows buf (h, m)
      = serial_read_loop line_sys P None (q @ drop (length q) raw) rest buf (h\<lparr>h_world := idle @ p # ps\<rparr>, ?m)"
    using r m rx by (simp add: n wait_left_def bindR_def zoom_def slice_def)
  moreover have "sp_ep_in_packet P \<le> length (q @ drop (length q) raw)" using Cons.prems assms(3,4) q by simp
  ultimately show ?case using Cons.IH [of ?m "h\<lparr>h_world := idle @ p # ps\<rparr>" rest "q @ drop (length q) raw"] rx Cons.prems n by simp
qed

lemma read_past_idle:
  assumes "sp_kind P = SerialFtdi chip" "sp_ep_in P AND 0x80 \<noteq> 0" "2 < length p" "length p \<le> sp_ep_in_packet P"
    and "list_all (\<lambda>q. length q = 2) idle" "pt_rx m = []" "h_world h = idle @ p # ps" "length idle < length nows" "buf \<noteq> []"
  shows "\<exists>h' m'. read_with_timeout line_sys P 0 start nows buf (h, m) =
      (Val (Some (min (length p - 2) (length buf), take (length buf) (drop 2 p) @ drop (length p - 2) buf)), (h', m'))
      \<and> h_world h' = ps \<and> pt_rx m' = drop (length buf) (drop 2 p)"
proof -
  define raw :: bytes where "raw = replicate (clamp_packets (div_ceil (length buf) (packet_payload P)) * sp_ep_in_packet P) 0"
  have l: "sp_ep_in_packet P \<le> length raw" by (simp add: raw_def clamp_packets_def)
  have "packet_payload P \<noteq> 0" using assms(1,3,4) by (simp add: packet_payload_def)
  then have "read_with_timeout line_sys P 0 start nows buf (h, m) = serial_read_loop line_sys P None raw nows buf (h, m)"
    using assms(6,9) by (simp add: read_with_timeout_def bindR_def raw_def)
  with read_loop_past_idle [OF assms(1-8) l, of buf] show ?thesis by simp
qed

section \<open>The modem lines\<close>

text \<open>A device that notes every transfer and completes it.\<close>

abbreviation tape :: "bytes list sys" where
  "tape \<equiv> quiet_sys (\<lambda>kind ep buf t k. (Ok (Completed, length buf - 8, buf), k @ [buf]))"

definition lines_request :: "u8 \<Rightarrow> u16 \<Rightarrow> bytes" where
  "lines_request comm value = setup_to_bytes (setup_raw (request_type Out Class RInterface) 0x22 value (ucast comm) 0)"

lemma tape_acm_request:
  "acm_request tape comm 0x22 value [] (h, m) = (Val (), (h\<lparr>h_world := h_world h @ [lines_request comm value]\<rparr>, m))"
proof -
  have rt: "request_type Out Class RInterface AND 0x80 = 0" by (simp add: request_type_def direction_mask_def)
  have "control_write tape (request_type Out Class RInterface) 0x22 value (ucast comm) [] 1000 h
      = (Val 0, h\<lparr>h_world := h_world h @ [lines_request comm value]\<rparr>)"
    by (rule control_write_completed [OF rt]) (simp add: lines_request_def)
  then show ?thesis by (simp add: acm_request_def bindR_def zoom_def)
qed

text \<open>Two calls, the second locking \<open>state\<close> between the two lockings of the first.\<close>

definition raced :: "'k sys \<Rightarrow> bool option \<times> bool option \<Rightarrow> bool option \<times> bool option \<Rightarrow> ('k port, unit) io" where
  "raced S a b =
     bindR (get_st (\<lambda>(h, m). lines_of (fst a) (snd a) m)) (\<lambda>new_a.
     bindR (get_st (\<lambda>(h, m). lines_of (fst b) (snd b) m)) (\<lambda>new_b.
     bindR (send_lines S (fst a) (snd a) new_a) (\<lambda>_.
     bindR (send_lines S (fst b) (snd b) new_b) (\<lambda>_.
     bindR (upd_port (store_lines new_a)) (\<lambda>_. upd_port (store_lines new_b))))))"

lemma lines_in_order:
  "bindR (set_dtr tape True) (\<lambda>_. set_rts tape True) (h, port_new (BackendAcm comm n)) =
     (Val (), (h\<lparr>h_world := h_world h @ [lines_request comm 1, lines_request comm 3]\<rparr>,
       (port_new (BackendAcm comm n))\<lparr>pt_dtr := True, pt_rts := True\<rparr>))"
  by (simp add: set_dtr_def set_rts_def set_lines_def send_lines_def lines_of_def store_lines_def port_new_def
      line_bits_def bindR_def tape_acm_request)

lemma lines_raced:
  "raced tape (Some True, None) (None, Some True) (h, port_new (BackendAcm comm n)) =
     (Val (), (h\<lparr>h_world := h_world h @ [lines_request comm 1, lines_request comm 2]\<rparr>,
       (port_new (BackendAcm comm n))\<lparr>pt_dtr := False, pt_rts := True\<rparr>))"
  by (simp add: raced_def send_lines_def lines_of_def store_lines_def port_new_def
      line_bits_def bindR_def tape_acm_request)

end
