(* ===== verification/Uvc_Descriptors.thy ===== *)
theory Uvc_Descriptors
  imports Usb_Class
begin

text \<open>
  The class-specific descriptors of video functions, \<open>src/src/uvc/descriptors.rs\<close>: terminals and units of
  the control interface, formats and frame sizes of a streaming interface. Indexing and slicing that
  could panic are options, \<open>None\<close>; that no descriptor of a device reaches one is
  \<open>control_parse_total\<close> and \<open>streaming_parse_total\<close>. \<open>stream_bytes\<close> is the encoder the streaming parser
  inverts (\<open>streaming_roundtrip\<close>).
\<close>

section \<open>The data\<close>

datatype entity_kind = CameraTerminal | InputTerminal u16 | OutputTerminal u16 | SelectorUnit | ProcessingUnit
  | ExtensionUnit bytes u8 | EncodingUnit

record entity =
  en_id :: u8
  en_kind :: entity_kind
  en_controls :: u64

record control_interface =
  ci_interface :: u8
  ci_uvc_version :: u16
  ci_clock_frequency :: u32
  ci_streaming :: "u8 list"
  ci_entities :: "entity list"

datatype frame_intervals = Discrete "u32 list" | Continuous u32 u32 u32

record frame_descriptor =
  fd_index :: u8
  fd_width :: u16
  fd_height :: u16
  fd_max_frame_size :: u32
  fd_default_interval :: u32
  fd_intervals :: frame_intervals

datatype format_kind = Uncompressed bytes u8 | Mjpeg | FrameBased bytes bool

record format_descriptor =
  fm_index :: u8
  fm_kind :: format_kind
  fm_default_frame_index :: u8
  fm_frames :: "frame_descriptor list"

record streaming_interface =
  si_interface :: u8
  si_endpoint :: u8
  si_formats :: "format_descriptor list"

section \<open>Walking\<close>

definition bitmap :: "bytes \<Rightarrow> nat \<Rightarrow> nat \<Rightarrow> u64" where
  "bitmap b at sz = fold (\<lambda>i acc. acc OR push_bit (8 * i) (ucast (byte_at b (at + i)))) [0..<min sz 8] 0"

text \<open>The class-specific descriptors of an interface, those behind its endpoints included; all have a subtype.\<close>

definition cs_interface :: "interface_descriptor \<Rightarrow> (u8 \<times> bytes) list" where
  "cs_interface i = map (\<lambda>(ty, d). (d ! 2, d))
     (filter (\<lambda>(ty, d). ty = 0x24 \<and> length d \<ge> 3) (concat (map descriptors (if_extra i # map ep_extra (if_endpoints i)))))"

section \<open>The control interface\<close>

definition entity_of :: "bytes \<Rightarrow> entity_kind \<Rightarrow> u64 \<Rightarrow> entity" where
  "entity_of d k c = \<lparr>en_id = byte_at d 3, en_kind = k, en_controls = c\<rparr>"

definition push_entity :: "entity \<Rightarrow> control_interface \<Rightarrow> control_interface" where
  "push_entity e ci = ci\<lparr>ci_entities := ci_entities ci @ [e]\<rparr>"

definition control_step :: "u8 \<times> bytes \<Rightarrow> bool \<times> control_interface \<Rightarrow> (bool \<times> control_interface) option" where
  "control_step = (\<lambda>(sub, d) (seen, ci).
     if sub = 0x01 \<and> length d \<ge> 12 then do {
       n \<leftarrow> idx d 11;
       tail \<leftarrow> slice d 12 (length d);
       Some (True, ci\<lparr>ci_uvc_version := le16 d 3, ci_clock_frequency := le32 d 7, ci_streaming := take (unat n) tail\<rparr>) }
     else if sub = 0x02 \<and> length d \<ge> 8 then
       (let ty = le16 d 4 in
        if ty = 0x0201 \<and> length d \<ge> 15 then do {
          sz \<leftarrow> idx d 14;
          Some (seen, push_entity (entity_of d CameraTerminal (bitmap d 15 (unat sz))) ci) }
        else Some (seen, push_entity (entity_of d (InputTerminal ty) 0) ci))
     else if sub = 0x03 \<and> length d \<ge> 9 then Some (seen, push_entity (entity_of d (OutputTerminal (le16 d 4)) 0) ci)
     else if sub = 0x04 \<and> length d \<ge> 5 then Some (seen, push_entity (entity_of d SelectorUnit 0) ci)
     else if sub = 0x05 \<and> length d \<ge> 8 then do {
       sz \<leftarrow> idx d 7;
       Some (seen, push_entity (entity_of d ProcessingUnit (bitmap d 8 (unat sz))) ci) }
     else if sub = 0x06 \<and> length d \<ge> 22 then do {
       guid \<leftarrow> slice d 4 20;
       pins \<leftarrow> idx d 21;
       num \<leftarrow> idx d 20;
       (let sz = unat (byte_at d (22 + unat pins))
        in Some (seen, push_entity (entity_of d (ExtensionUnit guid num) (bitmap d (23 + unat pins) sz)) ci)) }
     else if sub = 0x07 \<and> length d \<ge> 5 then Some (seen, push_entity (entity_of d EncodingUnit 0) ci)
     else Some (seen, ci))"

fun walk_steps :: "('d \<Rightarrow> 's \<Rightarrow> 's option) \<Rightarrow> 'd list \<Rightarrow> 's \<Rightarrow> 's option" where
  "walk_steps step [] s = Some s"
| "walk_steps step (d # ds) s = (case step d s of None \<Rightarrow> None | Some s \<Rightarrow> walk_steps step ds s)"

text \<open>\<open>ControlInterface::parse\<close>: the inner option is the code's.\<close>

definition control_parse :: "interface_descriptor \<Rightarrow> control_interface option option" where
  "control_parse i = map_option (\<lambda>(seen, ci). if seen then Some ci else None)
     (walk_steps control_step (cs_interface i)
       (False, \<lparr>ci_interface = if_number i, ci_uvc_version = 0, ci_clock_frequency = 0, ci_streaming = [], ci_entities = []\<rparr>))"

definition camera_terminal :: "control_interface \<Rightarrow> u8 option" where
  "camera_terminal ci = map_option en_id (find (\<lambda>e. en_kind e = CameraTerminal) (ci_entities ci))"

definition processing_unit :: "control_interface \<Rightarrow> u8 option" where
  "processing_unit ci = map_option en_id (find (\<lambda>e. en_kind e = ProcessingUnit) (ci_entities ci))"

section \<open>The streaming interface\<close>

definition frame_parse :: "bytes \<Rightarrow> bool \<Rightarrow> frame_descriptor option option" where
  "frame_parse d frame_based =
     (let default_at = (if frame_based then 17 else 21);
          type_at = (if frame_based then 21 else 25);
          max_frame_size = (if frame_based then 0 else le32 d 17)
      in if length d < 26 then Some None
         else do {
           kind \<leftarrow> idx d type_at;
           index \<leftarrow> idx d 3;
           (let intervals = (if kind = 0 then Continuous (le32 d 26) (le32 d 30) (le32 d 34)
                  else Discrete (takeWhile (\<lambda>v. v \<noteq> 0) (map (\<lambda>i. le32 d (26 + 4 * i)) [0..<unat kind])))
            in Some (Some \<lparr>fd_index = index, fd_width = le16 d 5, fd_height = le16 d 7, fd_max_frame_size = max_frame_size,
                 fd_default_interval = le32 d default_at, fd_intervals = intervals\<rparr>)) })"

definition fourcc :: "format_descriptor \<Rightarrow> bytes option" where
  "fourcc f = (case fm_kind f of
      Mjpeg \<Rightarrow> Some [0x4d, 0x4a, 0x50, 0x47]
    | Uncompressed guid _ \<Rightarrow> slice guid 0 4
    | FrameBased guid _ \<Rightarrow> slice guid 0 4)"

definition format_frame :: "format_descriptor \<Rightarrow> u8 \<Rightarrow> frame_descriptor option" where
  "format_frame f index = find (\<lambda>r. fd_index r = index) (fm_frames f)"

definition push_format :: "format_descriptor \<Rightarrow> streaming_interface \<Rightarrow> streaming_interface" where
  "push_format f s = s\<lparr>si_formats := si_formats s @ [f]\<rparr>"

text \<open>A frame goes to the last format; with none it is dropped.\<close>

definition push_frame :: "frame_descriptor \<Rightarrow> streaming_interface \<Rightarrow> streaming_interface" where
  "push_frame r s = (if si_formats s = [] then s
     else s\<lparr>si_formats := butlast (si_formats s)
        @ [(last (si_formats s))\<lparr>fm_frames := fm_frames (last (si_formats s)) @ [r]\<rparr>]\<rparr>)"

definition streaming_step :: "u8 \<Rightarrow> u8 \<times> bytes \<Rightarrow> streaming_interface option \<Rightarrow> streaming_interface option option" where
  "streaming_step number = (\<lambda>(sub, d) out. case out of
      None \<Rightarrow> if sub = 0x01 \<and> length d \<ge> 7 then do {
          ep \<leftarrow> idx d 6;
          Some (Some \<lparr>si_interface = number, si_endpoint = ep, si_formats = []\<rparr>) }
        else Some None
    | Some s \<Rightarrow>
        if sub \<in> {0x04, 0x10} \<and> length d \<ge> 23 then do {
          guid \<leftarrow> slice d 5 21;
          kind \<leftarrow> (if sub = 0x04 then do { bpp \<leftarrow> idx d 21; Some (Uncompressed guid bpp) }
                  else Some (FrameBased guid (byte_at d 27 \<noteq> 0)));
          index \<leftarrow> idx d 3;
          dflt \<leftarrow> idx d 22;
          Some (Some (push_format \<lparr>fm_index = index, fm_kind = kind, fm_default_frame_index = dflt, fm_frames = []\<rparr> s)) }
        else if sub = 0x06 \<and> length d \<ge> 7 then do {
          index \<leftarrow> idx d 3;
          dflt \<leftarrow> idx d 6;
          Some (Some (push_format \<lparr>fm_index = index, fm_kind = Mjpeg, fm_default_frame_index = dflt, fm_frames = []\<rparr> s)) }
        else if sub \<in> {0x05, 0x07, 0x11} then do {
          r \<leftarrow> frame_parse d (sub = 0x11);
          Some (Some (case r of Some r \<Rightarrow> push_frame r s | None \<Rightarrow> s)) }
        else Some (Some s))"

definition streaming_parse :: "interface_descriptor \<Rightarrow> streaming_interface option option" where
  "streaming_parse i = walk_steps (streaming_step (if_number i)) (cs_interface i) None"

definition format_by_fourcc :: "streaming_interface \<Rightarrow> bytes \<Rightarrow> format_descriptor option" where
  "format_by_fourcc s cc = find (\<lambda>f. fourcc f = Some cc) (si_formats s)"

definition format_of :: "streaming_interface \<Rightarrow> u8 \<Rightarrow> format_descriptor option" where
  "format_of s index = find (\<lambda>f. fm_index f = index) (si_formats s)"

section \<open>No descriptor makes the parsers panic\<close>

lemma walk_steps_total:
  assumes "\<And>d s. d \<in> set ds \<Longrightarrow> step d s \<noteq> None"
  shows "walk_steps step ds s \<noteq> None"
  using assms
proof (induction ds arbitrary: s)
  case (Cons d ds)
  then obtain s' where "step d s = Some s'" by fastforce
  with Cons show ?case by simp
qed simp

lemma control_step_total: "control_step x st \<noteq> None"
  by (cases x; cases st) (auto simp: control_step_def Let_def slice_def bind_eq_None_conv simp del: not_None_eq)

lemma control_parse_total: "control_parse i \<noteq> None"
  using walk_steps_total [of "cs_interface i" control_step] control_step_total
  by (simp add: control_parse_def)

lemma frame_parse_total: "frame_parse d fb \<noteq> None"
  by (auto simp: frame_parse_def Let_def)

lemma streaming_parse_total: "streaming_parse i \<noteq> None"
  unfolding streaming_parse_def
proof (rule walk_steps_total)
  fix x :: "u8 \<times> bytes" and out
  show "streaming_step (if_number i) x out \<noteq> None"
    using frame_parse_total
    by (cases x; cases out) (auto simp: streaming_step_def slice_def bind_eq_None_conv simp del: not_None_eq split: option.split)
qed

section \<open>Encoding a streaming interface\<close>

fun interval_count :: "frame_intervals \<Rightarrow> nat" where
  "interval_count (Discrete vs) = length vs"
| "interval_count (Continuous a b c) = 0"

fun interval_values :: "frame_intervals \<Rightarrow> u32 list" where
  "interval_values (Discrete vs) = vs"
| "interval_values (Continuous a b c) = [a, b, c]"

definition frame_bytes :: "format_kind \<Rightarrow> frame_descriptor \<Rightarrow> bytes" where
  "frame_bytes k f =
     (let n = of_nat (interval_count (fd_intervals f));
          vs = concat (map le_bytes32 (interval_values (fd_intervals f)));
          len = of_nat (26 + 4 * length (interval_values (fd_intervals f)));
          dims = le_bytes16 (fd_width f) @ le_bytes16 (fd_height f) @ replicate 8 0
      in case k of
          FrameBased _ _ \<Rightarrow> [len, 0x24, 0x11, fd_index f, 0] @ dims @ le_bytes32 (fd_default_interval f) @ [n, 0, 0, 0, 0] @ vs
        | Mjpeg \<Rightarrow> [len, 0x24, 0x07, fd_index f, 0] @ dims @ le_bytes32 (fd_max_frame_size f)
            @ le_bytes32 (fd_default_interval f) @ [n] @ vs
        | Uncompressed _ _ \<Rightarrow> [len, 0x24, 0x05, fd_index f, 0] @ dims @ le_bytes32 (fd_max_frame_size f)
            @ le_bytes32 (fd_default_interval f) @ [n] @ vs)"

definition format_bytes :: "format_descriptor \<Rightarrow> bytes" where
  "format_bytes f = (case fm_kind f of
      Uncompressed guid bpp \<Rightarrow> [27, 0x24, 0x04, fm_index f, of_nat (length (fm_frames f))] @ guid
        @ [bpp, fm_default_frame_index f, 0, 0, 0, 0]
    | Mjpeg \<Rightarrow> [11, 0x24, 0x06, fm_index f, of_nat (length (fm_frames f)), 0, fm_default_frame_index f, 0, 0, 0, 0]
    | FrameBased guid variable \<Rightarrow> [28, 0x24, 0x10, fm_index f, of_nat (length (fm_frames f))] @ guid
        @ [0, fm_default_frame_index f, 0, 0, 0, 0, if variable then 1 else 0])"

definition stream_descriptors :: "streaming_interface \<Rightarrow> bytes list" where
  "stream_descriptors s = [13, 0x24, 0x01, of_nat (length (si_formats s)), 0, 0, si_endpoint s, 0, 0, 0, 0, 0, 0]
     # concat (map (\<lambda>f. format_bytes f # map (frame_bytes (fm_kind f)) (fm_frames f)) (si_formats s))"

definition wf_frame :: "format_kind \<Rightarrow> frame_descriptor \<Rightarrow> bool" where
  "wf_frame k f \<longleftrightarrow> (case fd_intervals f of Discrete vs \<Rightarrow> vs \<noteq> [] \<and> 0 \<notin> set vs \<and> length vs \<le> 57 | Continuous _ _ _ \<Rightarrow> True)
     \<and> (case k of FrameBased _ _ \<Rightarrow> fd_max_frame_size f = 0 | _ \<Rightarrow> True)"

definition wf_format :: "format_descriptor \<Rightarrow> bool" where
  "wf_format f \<longleftrightarrow> (case fm_kind f of Mjpeg \<Rightarrow> True | Uncompressed guid _ \<Rightarrow> length guid = 16 | FrameBased guid _ \<Rightarrow> length guid = 16)
     \<and> list_all (wf_frame (fm_kind f)) (fm_frames f)"

section \<open>What was encoded is parsed\<close>

lemma le32_list: "map (\<lambda>i. le32 (concat (map le_bytes32 vs)) (4 * i)) [0..<length vs] = vs"
proof (induction vs)
  case (Cons v vs)
  have "map (\<lambda>i. le32 (concat (map le_bytes32 (v # vs))) (4 * i)) [0..<length (v # vs)]
      = le32 (concat (map le_bytes32 (v # vs))) 0 # map (\<lambda>i. le32 (concat (map le_bytes32 vs)) (4 * i)) [0..<length vs]"
    by (simp add: upt_conv_Cons map_Suc_upt [symmetric] le32_bytes comp_def del: upt_Suc)
  with Cons show ?case by (simp add: le32_bytes)
qed simp

lemma le32_behind:
  assumes "length h = 26"
  shows "map (\<lambda>i. le32 (h @ concat (map le_bytes32 vs)) (26 + 4 * i)) [0..<length vs] = vs"
    "vs = [a, b, c] \<Longrightarrow> le32 (h @ concat (map le_bytes32 vs)) 26 = a"
    "vs = [a, b, c] \<Longrightarrow> le32 (h @ concat (map le_bytes32 vs)) 30 = b"
    "vs = [a, b, c] \<Longrightarrow> le32 (h @ concat (map le_bytes32 vs)) 34 = c"
proof -
  have d: "le32 (h @ concat (map le_bytes32 vs)) (26 + k) = le32 (concat (map le_bytes32 vs)) k" for k
    using assms by (simp add: le32_drop)
  show "map (\<lambda>i. le32 (h @ concat (map le_bytes32 vs)) (26 + 4 * i)) [0..<length vs] = vs"
    by (simp only: d le32_list)
  show "vs = [a, b, c] \<Longrightarrow> le32 (h @ concat (map le_bytes32 vs)) 26 = a"
    "vs = [a, b, c] \<Longrightarrow> le32 (h @ concat (map le_bytes32 vs)) 30 = b"
    "vs = [a, b, c] \<Longrightarrow> le32 (h @ concat (map le_bytes32 vs)) 34 = c"
    using d [of 0] d [of 4] d [of 8] le32_bytes(2) [of a _ 0] le32_bytes(2) [of a _ 4] le32_bytes(2) [of b _ 0]
    using le32_bytes(1) [of c "[]"] by (simp_all add: le32_bytes(1))
qed

text \<open>The first 26 bytes of a frame descriptor, and the intervals behind them.\<close>

definition frame_head :: "u8 \<Rightarrow> u8 \<Rightarrow> frame_descriptor \<Rightarrow> bytes \<Rightarrow> bytes" where
  "frame_head len sub f tail = [len, 0x24, sub, fd_index f, 0] @ le_bytes16 (fd_width f) @ le_bytes16 (fd_height f) @ replicate 8 0 @ tail"

lemma parse_intervals:
  assumes "length h = 26" "wf_frame k f"
  shows "(if of_nat (interval_count (fd_intervals f)) = (0 :: u8)
      then Continuous (le32 (h @ concat (map le_bytes32 (interval_values (fd_intervals f)))) 26)
         (le32 (h @ concat (map le_bytes32 (interval_values (fd_intervals f)))) 30)
         (le32 (h @ concat (map le_bytes32 (interval_values (fd_intervals f)))) 34)
      else Discrete (takeWhile (\<lambda>v. v \<noteq> 0) (map (\<lambda>i. le32 (h @ concat (map le_bytes32 (interval_values (fd_intervals f)))) (26 + 4 * i))
         [0..<unat (of_nat (interval_count (fd_intervals f)) :: u8)]))) = fd_intervals f"
proof (cases "fd_intervals f")
  case (Discrete vs)
  then have v: "vs \<noteq> []" "0 \<notin> set vs" "length vs \<le> 57" using assms(2) by (simp_all add: wf_frame_def)
  have u: "unat (of_nat (length vs) :: u8) = length vs" using v(3) by (simp only: unsigned_of_nat) (simp add: take_bit_eq_mod)
  then have "of_nat (length vs) \<noteq> (0 :: u8)" using v(1) by (metis length_0_conv unsigned_0)
  moreover have "takeWhile (\<lambda>v. v \<noteq> 0) vs = vs" using v(2) by (induction vs) auto
  ultimately show ?thesis using le32_behind(1) [OF assms(1), of vs] u by (simp add: Discrete)
next
  case (Continuous a b c)
  with le32_behind(2-4) [OF assms(1), of "[a, b, c]" a b c] show ?thesis by simp
qed

lemma frame_parse_eq:
  assumes "26 \<le> length d"
  shows "frame_parse d fb = Some (Some \<lparr>fd_index = byte_at d 3, fd_width = le16 d 5, fd_height = le16 d 7,
     fd_max_frame_size = (if fb then 0 else le32 d 17), fd_default_interval = le32 d (if fb then 17 else 21),
     fd_intervals = (if byte_at d (if fb then 21 else 25) = 0 then Continuous (le32 d 26) (le32 d 30) (le32 d 34)
       else Discrete (takeWhile (\<lambda>v. v \<noteq> 0) (map (\<lambda>i. le32 d (26 + 4 * i)) [0..<unat (byte_at d (if fb then 21 else 25))])))\<rparr>)"
  using assms by (simp add: frame_parse_def Let_def byte_at_def)

lemma frame_parse_bytes:
  assumes "wf_frame k f"
  shows "frame_parse (frame_bytes k f) (case k of FrameBased _ _ \<Rightarrow> True | _ \<Rightarrow> False) = Some (Some f)"
proof -
  let ?n = "of_nat (interval_count (fd_intervals f)) :: u8" and ?vs = "concat (map le_bytes32 (interval_values (fd_intervals f)))"
  let ?len = "of_nat (26 + 4 * length (interval_values (fd_intervals f))) :: u8"
  let ?plain = "\<lambda>sub. frame_head ?len sub f (le_bytes32 (fd_max_frame_size f) @ le_bytes32 (fd_default_interval f) @ [?n])"
  let ?based = "frame_head ?len 0x11 f (le_bytes32 (fd_default_interval f) @ [?n, 0, 0, 0, 0])"
  have r8: "replicate 8 (0 :: u8) = [0, 0, 0, 0, 0, 0, 0, 0]" by (simp add: numeral_eq_Suc)
  have l: "length (?plain sub) = 26" "length ?based = 26" for sub by (simp_all add: frame_head_def)
  have p: "byte_at (?plain sub @ ?vs) 25 = ?n" "byte_at (?plain sub @ ?vs) 3 = fd_index f" "le16 (?plain sub @ ?vs) 5 = fd_width f"
    "le16 (?plain sub @ ?vs) 7 = fd_height f" "le32 (?plain sub @ ?vs) 17 = fd_max_frame_size f"
    "le32 (?plain sub @ ?vs) 21 = fd_default_interval f" for sub
    by (simp_all add: frame_head_def r8 le16_def le32_u32 le_bytes16_def le_bytes32_def)
  have b: "byte_at (?based @ ?vs) 21 = ?n" "byte_at (?based @ ?vs) 3 = fd_index f" "le16 (?based @ ?vs) 5 = fd_width f"
    "le16 (?based @ ?vs) 7 = fd_height f" "le32 (?based @ ?vs) 17 = fd_default_interval f"
    by (simp_all add: frame_head_def r8 le16_def le32_u32 le_bytes16_def le_bytes32_def)
  have n: "26 \<le> length (?plain sub @ ?vs)" "26 \<le> length (?based @ ?vs)" for sub using l by simp_all
  have plain: "frame_parse (?plain sub @ ?vs) False = Some (Some f)" for sub
    by (simp only: frame_parse_eq [OF n(1)] if_False p parse_intervals [OF l(1) assms]) simp
  have based: "frame_parse (?based @ ?vs) True = Some (Some f)" if "fd_max_frame_size f = 0"
    by (simp only: frame_parse_eq [OF n(2)] if_True b parse_intervals [OF l(2) assms]) (simp add: that [symmetric])
  show ?thesis
  proof (cases k)
    case (FrameBased g v)
    then have "fd_max_frame_size f = 0" "frame_bytes k f = ?based @ ?vs"
      using assms by (simp_all add: wf_frame_def frame_bytes_def frame_head_def Let_def)
    with FrameBased based show ?thesis by simp
  next
    case (Uncompressed g v)
    then have "frame_bytes k f = ?plain 5 @ ?vs" by (simp add: frame_bytes_def frame_head_def Let_def)
    with Uncompressed plain show ?thesis by simp
  next
    case Mjpeg
    then have "frame_bytes k f = ?plain 7 @ ?vs" by (simp add: frame_bytes_def frame_head_def Let_def)
    with Mjpeg plain show ?thesis by simp
  qed
qed

lemma walk_steps_append: "walk_steps step (xs @ ys) s = Option.bind (walk_steps step xs s) (walk_steps step ys)"
  by (induction xs arbitrary: s) (auto split: option.split)

abbreviation subtyped :: "bytes \<Rightarrow> u8 \<times> bytes" where
  "subtyped d \<equiv> (d ! 2, d)"

lemma list16:
  assumes "length xs = 16"
  obtains a b c d e f g h i j k l m n p q where "xs = [a, b, c, d, e, f, g, h, i, j, k, l, m, n, p, q]"
  using assms by (auto simp: numeral_eq_Suc length_Suc_conv)

lemma format_step:
  assumes "wf_format f"
  shows "streaming_step n (subtyped (format_bytes f)) (Some s) = Some (Some (push_format (f\<lparr>fm_frames := []\<rparr>) s))"
proof (cases "fm_kind f")
  case (Uncompressed guid bpp)
  then have l: "length guid = 16" using assms by (simp add: wf_format_def)
  show ?thesis
    by (rule list16 [OF l]) (use Uncompressed in \<open>cases f; simp add: format_bytes_def streaming_step_def slice_def\<close>)
next
  case Mjpeg
  then show ?thesis by (cases f) (simp add: format_bytes_def streaming_step_def)
next
  case (FrameBased guid v)
  then have l: "length guid = 16" using assms by (simp add: wf_format_def)
  show ?thesis
    by (rule list16 [OF l]) (use FrameBased in \<open>cases f; simp add: format_bytes_def streaming_step_def slice_def\<close>)
qed

lemma frame_step:
  assumes "wf_frame k r"
  shows "streaming_step n (subtyped (frame_bytes k r)) (Some s) = Some (Some (push_frame r s))"
  using frame_parse_bytes [OF assms]
  by (cases k) (simp_all add: streaming_step_def frame_bytes_def Let_def)

lemma frames_walk:
  assumes "list_all (wf_frame (fm_kind f)) rs"
  shows "walk_steps (streaming_step n) (map (\<lambda>r. subtyped (frame_bytes (fm_kind f) r)) rs) (Some (s\<lparr>si_formats := fs @ [f\<lparr>fm_frames := qs\<rparr>]\<rparr>))
    = Some (Some (s\<lparr>si_formats := fs @ [f\<lparr>fm_frames := qs @ rs\<rparr>]\<rparr>))"
  using assms
  by (induction rs arbitrary: qs) (simp_all add: frame_step push_frame_def)

lemma formats_walk:
  assumes "list_all wf_format gs"
  shows "walk_steps (streaming_step n)
      (map subtyped (concat (map (\<lambda>f. format_bytes f # map (frame_bytes (fm_kind f)) (fm_frames f)) gs))) (Some (s\<lparr>si_formats := fs\<rparr>))
    = Some (Some (s\<lparr>si_formats := fs @ gs\<rparr>))"
  using assms
proof (induction gs arbitrary: fs)
  case (Cons f gs)
  then have f: "wf_format f" "list_all (wf_frame (fm_kind f)) (fm_frames f)" by (simp_all add: wf_format_def)
  have one: "walk_steps (streaming_step n) (map subtyped (format_bytes f # map (frame_bytes (fm_kind f)) (fm_frames f))) (Some (s\<lparr>si_formats := fs\<rparr>))
      = Some (Some (s\<lparr>si_formats := fs @ [f]\<rparr>))"
    using format_step [OF f(1), of n "s\<lparr>si_formats := fs\<rparr>"] frames_walk [OF f(2), where n = n and s = s and fs = fs and qs = "[]"]
    by (simp add: push_format_def comp_def)
  let ?g = "\<lambda>f. format_bytes f # map (frame_bytes (fm_kind f)) (fm_frames f)"
  have cut: "map subtyped (concat (map ?g (f # gs))) = map subtyped (?g f) @ map subtyped (concat (map ?g gs))" by simp
  have rest: "walk_steps (streaming_step n) (map subtyped (concat (map ?g gs))) (Some (s\<lparr>si_formats := fs @ [f]\<rparr>))
      = Some (Some (s\<lparr>si_formats := fs @ f # gs\<rparr>))"
    using Cons.IH [of "fs @ [f]"] Cons.prems by simp
  show ?case by (simp only: cut walk_steps_append one rest Option.bind.simps)
qed simp

lemma stream_descriptors_wf:
  assumes "list_all wf_format (si_formats s)" "d \<in> set (stream_descriptors s)"
  shows "wf_desc d \<and> d ! 1 = 0x24 \<and> 3 \<le> length d"
proof -
  have frame: "wf_desc (frame_bytes k r) \<and> frame_bytes k r ! 1 = 0x24 \<and> 3 \<le> length (frame_bytes k r)" if "wf_frame k r" for k r
  proof -
    let ?n = "length (interval_values (fd_intervals r))"
    have "?n \<le> 57" using that by (cases "fd_intervals r") (simp_all add: wf_frame_def)
    then have "unat (of_nat (26 + 4 * ?n) :: u8) = 26 + 4 * ?n" by (simp only: unsigned_of_nat) (simp add: take_bit_eq_mod)
    moreover have "length (concat (map le_bytes32 vs)) = 4 * length vs" for vs by (induction vs) simp_all
    ultimately show ?thesis by (cases k) (simp_all add: frame_bytes_def Let_def wf_desc_def)
  qed
  have format: "wf_desc (format_bytes f) \<and> format_bytes f ! 1 = 0x24 \<and> 3 \<le> length (format_bytes f)" if "wf_format f" for f
    using that by (cases "fm_kind f") (simp_all add: format_bytes_def wf_format_def wf_desc_def)
  from assms show ?thesis
    by (auto simp: stream_descriptors_def list_all_iff wf_format_def frame [simplified] format [simplified] wf_desc_def [of "[_, _, _, _, _, _, _, _, _, _, _, _, _]"])
qed

lemma streaming_roundtrip:
  assumes "list_all wf_format (si_formats s)" "if_number i = si_interface s" "if_extra i = concat (stream_descriptors s)" "if_endpoints i = []"
  shows "streaming_parse i = Some (Some s)"
proof -
  have wf: "\<forall>d \<in> set (stream_descriptors s). wf_desc d" "\<forall>d \<in> set (stream_descriptors s). d ! 1 = 0x24 \<and> 3 \<le> length d"
    using stream_descriptors_wf [OF assms(1)] by blast+
  have "cs_interface i = map subtyped (stream_descriptors s)"
    using descriptors_concat [OF wf(1), of "[]"] wf(2) assms(3,4)
    by (simp add: cs_interface_def filter_map comp_def filter_id_conv)
  moreover have "streaming_step (if_number i) (subtyped (hd (stream_descriptors s))) None = Some (Some (s\<lparr>si_formats := []\<rparr>))"
    using assms(2) by (cases s) (simp add: stream_descriptors_def streaming_step_def)
  ultimately show ?thesis
    using formats_walk [OF assms(1), where n = "if_number i" and s = s and fs = "[]"]
    by (simp add: streaming_parse_def stream_descriptors_def)
qed

end
