(* ===== verification/Uvc_Stream.thy ===== *)
theory Uvc_Stream
  imports Usb_Class "HOL-Library.Sublist"
begin

text \<open>
  Video streaming, \<open>src/src/uvc/stream.rs\<close>: the probe and commit block, the assembler that rebuilds frames
  from payloads, and the pump that feeds it from transfer callbacks and queues frames for the reader.
  Emitting a frame is a list of frames in the result. The lemmas show that frames cut into payloads come
  out again (\<open>assembler_rebuilds\<close>), that whatever a device sends no frame outgrows its bound and the
  numbers are consecutive (\<open>payload_ok\<close>), that every frame the assembler makes of what was brought (\<open>assemble\<close>) is
  read, queued or counted as dropped (\<open>pump_reach_ok\<close>), and when the completion callback gets stuck on the lock of
  the transfer (\<open>completes_or_hangs\<close>).
\<close>

section \<open>Probe and commit\<close>

record stream_control =
  sc_hint :: u16
  sc_format_index :: u8
  sc_frame_index :: u8
  sc_frame_interval :: u32
  sc_key_frame_rate :: u16
  sc_p_frame_rate :: u16
  sc_comp_quality :: u16
  sc_comp_window_size :: u16
  sc_delay :: u16
  sc_max_video_frame_size :: u32
  sc_max_payload_transfer_size :: u32
  sc_clock_frequency :: u32
  sc_framing_info :: u8
  sc_preferred_version :: u8
  sc_min_version :: u8
  sc_max_version :: u8
  sc_uvc15_tail :: bytes

definition wire_size :: "u16 \<Rightarrow> nat" where
  "wire_size v = (if v < 0x0110 then 26 else if v < 0x0150 then 34 else 48)"

definition stream_control_from_bytes :: "bytes \<Rightarrow> stream_control" where
  "stream_control_from_bytes b = \<lparr>sc_hint = le16 b 0, sc_format_index = byte_at b 2, sc_frame_index = byte_at b 3,
     sc_frame_interval = le32 b 4, sc_key_frame_rate = le16 b 8, sc_p_frame_rate = le16 b 10, sc_comp_quality = le16 b 12,
     sc_comp_window_size = le16 b 14, sc_delay = le16 b 16, sc_max_video_frame_size = le32 b 18,
     sc_max_payload_transfer_size = le32 b 22, sc_clock_frequency = le32 b 26, sc_framing_info = byte_at b 30,
     sc_preferred_version = byte_at b 31, sc_min_version = byte_at b 32, sc_max_version = byte_at b 33,
     sc_uvc15_tail = map (\<lambda>i. byte_at b (34 + i)) [0..<14]\<rparr>"

definition stream_control_new :: "u8 \<Rightarrow> u8 \<Rightarrow> u32 \<Rightarrow> stream_control" where
  "stream_control_new format_index frame_index interval = (stream_control_from_bytes [])
     \<lparr>sc_hint := 1, sc_format_index := format_index, sc_frame_index := frame_index, sc_frame_interval := interval\<rparr>"

definition stream_control_to_bytes :: "stream_control \<Rightarrow> bytes" where
  "stream_control_to_bytes c =
     le_bytes16 (sc_hint c) @ [sc_format_index c, sc_frame_index c] @ le_bytes32 (sc_frame_interval c)
     @ le_bytes16 (sc_key_frame_rate c) @ le_bytes16 (sc_p_frame_rate c) @ le_bytes16 (sc_comp_quality c)
     @ le_bytes16 (sc_comp_window_size c) @ le_bytes16 (sc_delay c) @ le_bytes32 (sc_max_video_frame_size c)
     @ le_bytes32 (sc_max_payload_transfer_size c) @ le_bytes32 (sc_clock_frequency c)
     @ [sc_framing_info c, sc_preferred_version c, sc_min_version c, sc_max_version c] @ sc_uvc15_tail c"

section \<open>The assembler\<close>

record frame =
  fr_data :: bytes
  fr_sequence :: u64
  fr_pts :: "u32 option"
  fr_error :: bool

record assembler =
  am_current :: "(frame \<times> bool) option"
  am_last_fid :: "u8 option"
  am_at_boundary :: bool
  am_after_eof :: bool
  am_sequence :: u64
  am_max_frame_size :: nat

definition assembler_new :: "nat \<Rightarrow> assembler" where
  "assembler_new n = \<lparr>am_current = None, am_last_fid = None, am_at_boundary = False, am_after_eof = False,
     am_sequence = 0, am_max_frame_size = n\<rparr>"

definition lost :: "assembler \<Rightarrow> assembler" where
  "lost a = a\<lparr>am_current := map_option (\<lambda>(f, w). (f\<lparr>fr_error := True\<rparr>, w)) (am_current a)\<rparr>"

definition finish_frame :: "assembler \<Rightarrow> assembler \<times> frame list" where
  "finish_frame a = (case am_current a of
      None \<Rightarrow> (a, [])
    | Some (f, whole) \<Rightarrow>
        (let a = a\<lparr>am_current := None\<rparr> in
         if whole \<and> fr_data f \<noteq> [] then (a\<lparr>am_sequence := am_sequence a + 1\<rparr>, [f\<lparr>fr_sequence := am_sequence a\<rparr>])
         else (a, [])))"

definition turn_fid :: "u8 \<Rightarrow> assembler \<Rightarrow> assembler \<times> frame list" where
  "turn_fid fid a =
     (let (a, out) = (case am_last_fid a of
          None \<Rightarrow> (a, [])
        | Some f \<Rightarrow> if f \<noteq> fid
            then (let (a, out) = finish_frame a in (a\<lparr>am_at_boundary := True, am_after_eof := False\<rparr>, out))
            else (a, []))
      in (a\<lparr>am_last_fid := Some fid\<rparr>, out))"

definition extend_frame :: "bool \<Rightarrow> u32 option \<Rightarrow> bytes \<Rightarrow> assembler \<Rightarrow> assembler" where
  "extend_frame err pts data a =
     (let (f, whole) = (case am_current a of
          Some c \<Rightarrow> c
        | None \<Rightarrow> (\<lparr>fr_data = [], fr_sequence = 0, fr_pts = None, fr_error = False\<rparr>, am_at_boundary a));
          f = f\<lparr>fr_error := fr_error f \<or> err, fr_pts := (case fr_pts f of Some t \<Rightarrow> Some t | None \<Rightarrow> pts)\<rparr>;
          f = (if length (fr_data f) + length data > max (am_max_frame_size a) 1 * 2 then f\<lparr>fr_error := True\<rparr>
               else f\<lparr>fr_data := fr_data f @ data\<rparr>)
      in a\<lparr>am_current := Some (f, whole)\<rparr>)"

definition end_frame :: "bool \<Rightarrow> assembler \<Rightarrow> assembler \<times> frame list" where
  "end_frame eof a =
     (if eof then (let (a, out) = finish_frame a in (a\<lparr>am_at_boundary := True, am_after_eof := True\<rparr>, out)) else (a, []))"

definition payload :: "bytes \<Rightarrow> assembler \<Rightarrow> assembler \<times> frame list" where
  "payload p a =
     (if length p < 2 then (a, [])
      else (let hlen = unat (p ! 0); flags = p ! 1 in
        if hlen < 2 \<or> hlen > length p then (lost a, [])
        else (let fid = flags AND 0x01; eof = flags AND 0x02 \<noteq> 0;
                  pts = (if flags AND 0x04 \<noteq> 0 \<and> hlen \<ge> 6 then Some (le32 p 2) else None);
                  err = flags AND 0x40 \<noteq> 0;
                  (a, out) = turn_fid fid a
              in if am_after_eof a then (a, out)
                 else (let (a, out2) = end_frame eof (extend_frame err pts (drop hlen p) a) in (a, out @ out2)))))"

fun payloads :: "bytes list \<Rightarrow> assembler \<Rightarrow> assembler \<times> frame list" where
  "payloads [] a = (a, [])"
| "payloads (p # ps) a = (let (a, out) = payload p a; (a, outs) = payloads ps a in (a, out @ outs))"

section \<open>The pump\<close>

abbreviation (input) TRANSFERS :: nat where "TRANSFERS \<equiv> 5"
abbreviation (input) FRAME_QUEUE :: nat where "FRAME_QUEUE \<equiv> 4"

text \<open>What the callbacks share; \<open>ps_queue\<close> is the content of the channel, \<open>ps_reader\<close> whether its receiver lives.\<close>

record pump_shared =
  ps_assembler :: assembler
  ps_queue :: "frame list"
  ps_reader :: bool
  ps_dropped :: u64
  ps_stopped :: bool
  ps_failure :: "transfer_status option"

definition pump_new :: "nat \<Rightarrow> pump_shared" where
  "pump_new max_frame_size = \<lparr>ps_assembler = assembler_new max_frame_size, ps_queue = [], ps_reader = True, ps_dropped = 0,
     ps_stopped = False, ps_failure = None\<rparr>"

definition emit_frame :: "frame \<Rightarrow> pump_shared \<Rightarrow> pump_shared" where
  "emit_frame f s =
     (if \<not> ps_reader s then s
      else if length (ps_queue s) < FRAME_QUEUE then s\<lparr>ps_queue := ps_queue s @ [f]\<rparr>
      else s\<lparr>ps_dropped := ps_dropped s + 1\<rparr>)"

definition feed :: "bytes \<Rightarrow> pump_shared \<Rightarrow> pump_shared" where
  "feed p s = (let (a, out) = payload p (ps_assembler s) in fold emit_frame out (s\<lparr>ps_assembler := a\<rparr>))"

definition lose :: "pump_shared \<Rightarrow> pump_shared" where
  "lose s = s\<lparr>ps_assembler := lost (ps_assembler s)\<rparr>"

definition iso_payload :: "nat \<Rightarrow> bytes \<Rightarrow> nat \<Rightarrow> iso_packet \<Rightarrow> bytes" where
  "iso_payload packet_size buf i p =
     (let start = i * packet_size; stop = min (start + unat (iso_actual p)) (length buf)
      in drop (min start stop) (take stop buf))"

definition feed_packets :: "nat \<Rightarrow> bytes \<Rightarrow> iso_packet list \<Rightarrow> pump_shared \<Rightarrow> pump_shared" where
  "feed_packets packet_size buf ps s = fold (\<lambda>(i, p) s.
     if iso_status p \<noteq> Completed then lose s else feed (iso_payload packet_size buf i p) s) (enumerate 0 ps) s"

text \<open>The completed transfer's data. The guard of \<open>buffer()\<close> or \<open>data()\<close> lives to the end of its branch; in the
  isochronous branch the packets are asked for meanwhile.\<close>

definition take_completed :: "nat \<Rightarrow> unit inner \<Rightarrow> pump_shared \<Rightarrow> (unit inner \<times> pump_shared) run" where
  "take_completed packet_size m s =
     (if tr_kind (in_state m) = Isochronous then then_run (buffer_guard m) (\<lambda>(r, m). case r of
          Inl _ \<Rightarrow> Done (m, s)
        | Inr buf \<Rightarrow> then_run (iso_packets m) (\<lambda>(ps, m). Done (unlock_state m, feed_packets packet_size buf ps s)))
      else then_run (data_guard m) (\<lambda>(r, m). case r of
          Inl _ \<Rightarrow> Done (m, s)
        | Inr data \<Rightarrow> Done (unlock_state m, feed data s)))"

text \<open>The last lines of \<open>on_complete\<close>; \<open>submitted\<close> is what \<open>t.submit()\<close> gives, once it has the lock. Whether it was
  called is the second component.\<close>

definition resubmit :: "unit result \<Rightarrow> unit inner \<Rightarrow> pump_shared \<Rightarrow> (pump_shared \<times> bool) run" where
  "resubmit submitted m s =
     (if ps_stopped s then Done (s, False)
      else then_run (lock_state m) (\<lambda>_. Done (case submitted of
          Inr _ \<Rightarrow> (s, True)
        | Inl e \<Rightarrow> (s\<lparr>ps_failure := Some (if is_no_device e then StNoDevice else StError)\<rparr>, True))))"

definition on_complete :: "nat \<Rightarrow> unit inner \<Rightarrow> unit result \<Rightarrow> pump_shared \<Rightarrow> (pump_shared \<times> bool) run" where
  "on_complete packet_size m submitted s = then_run (status_now m) (\<lambda>(status, m). case status of
      Completed \<Rightarrow> then_run (take_completed packet_size m s) (\<lambda>(m, s). resubmit submitted m s)
    | Cancelled \<Rightarrow> Done (s, False)
    | StError \<Rightarrow> resubmit submitted m (lose s)
    | StOverflow \<Rightarrow> resubmit submitted m (lose s)
    | TimedOut \<Rightarrow> resubmit submitted m (lose s)
    | other \<Rightarrow> Done (s\<lparr>ps_failure := Some other\<rparr>, False))"

text \<open>\<open>next\<close>: a frame of the channel; else what the other threads do before the next wake-up, and after the
  last of them the time is over. The senders live as long as the pump, so the channel does not end.\<close>

fun pump_next :: "(pump_shared \<Rightarrow> pump_shared) list \<Rightarrow> pump_shared \<Rightarrow> frame result \<times> pump_shared" where
  "pump_next wakes s = (case ps_queue s of
      f # q \<Rightarrow> (Ok f, s\<lparr>ps_queue := q\<rparr>)
    | [] \<Rightarrow> (case wakes of
        w # ws \<Rightarrow> pump_next ws (w s)
      | [] \<Rightarrow> (case ps_failure s of
          Some st \<Rightarrow> (case status_into_result st of Inl e \<Rightarrow> Inl e | Inr _ \<Rightarrow> Err Io)
        | None \<Rightarrow> Err Timeout, s)))"

text \<open>\<open>start\<close>: the transfers are submitted one after the other. When one is refused, the \<open>Pump\<close> is dropped;
  that does not cancel the transfers submitted before it.\<close>

definition pump_start :: "'k async \<Rightarrow> transfer_type \<Rightarrow> u8 \<Rightarrow> nat \<Rightarrow> nat \<Rightarrow> nat \<Rightarrow> ('k handle, pump_shared) io" where
  "pump_start A kind ep packet_size packets max_frame_size =
     bindR (for_each (replicate TRANSFERS ep)
         (\<lambda>ep. on_sys (as_submit A kind ep (if kind = Isochronous then packet_size * packets else packet_size))))
       (\<lambda>_. ret (pump_new max_frame_size))"

text \<open>\<open>stop\<close>: no more resubmissions, and everything in flight is cancelled and waited for.\<close>

definition pump_stop :: "'k async \<Rightarrow> u8 \<Rightarrow> ('k handle \<times> pump_shared, unit) io" where
  "pump_stop A ep = bindR (mod_st (\<lambda>(h, s). (h, s\<lparr>ps_stopped := True\<rparr>))) (\<lambda>_. on_handle (stop_all A [ep]))"

section \<open>Bounds and numbers\<close>

definition frame_limit :: "assembler \<Rightarrow> nat" where
  "frame_limit a = max (am_max_frame_size a) 1 * 2"

definition am_ok :: "assembler \<Rightarrow> bool" where
  "am_ok a \<longleftrightarrow> (case am_current a of None \<Rightarrow> True | Some (f, _) \<Rightarrow> length (fr_data f) \<le> frame_limit a)"

text \<open>Frames numbered from \<open>n\<close> on, none of them empty or beyond the limit.\<close>

definition numbered :: "nat \<Rightarrow> u64 \<Rightarrow> frame list \<Rightarrow> bool" where
  "numbered limit n fs \<longleftrightarrow> map fr_sequence fs = map (\<lambda>i. n + of_nat i) [0..<length fs]
     \<and> (\<forall>f \<in> set fs. fr_data f \<noteq> [] \<and> length (fr_data f) \<le> limit)"

definition advances :: "assembler \<Rightarrow> assembler \<times> frame list \<Rightarrow> bool" where
  "advances a = (\<lambda>(a', out). am_ok a' \<and> am_max_frame_size a' = am_max_frame_size a
     \<and> am_sequence a' = am_sequence a + of_nat (length out) \<and> numbered (frame_limit a) (am_sequence a) out)"

lemma numbered_simps [simp]: "numbered l n []" "numbered l n [f] \<longleftrightarrow> fr_sequence f = n \<and> fr_data f \<noteq> [] \<and> length (fr_data f) \<le> l"
  by (auto simp: numbered_def)

lemma numbered_append: "numbered l n (fs @ gs) \<longleftrightarrow> numbered l n fs \<and> numbered l (n + of_nat (length fs)) gs"
proof -
  have "map (\<lambda>i. n + of_nat i) [0..<length (fs @ gs)] =
      map (\<lambda>i. n + of_nat i) [0..<length fs] @ map (\<lambda>i. n + of_nat (length fs) + of_nat i) [0..<length gs]"
    by (rule nth_equalityI) (auto simp: nth_append)
  then show ?thesis by (auto simp: numbered_def)
qed

lemma advances_trans:
  assumes "advances a (b, out)" "advances b (c, outs)"
  shows "advances a (c, out @ outs)"
  using assms by (simp add: advances_def numbered_append frame_limit_def add.assoc)

lemma advances_refl: "am_ok a \<Longrightarrow> advances a (a, [])"
  by (simp add: advances_def)

lemma lost_ok: "am_ok a \<Longrightarrow> advances a (lost a, [])"
  by (auto simp: advances_def am_ok_def lost_def frame_limit_def split: option.splits)

lemma finish_frame_ok: "am_ok a \<Longrightarrow> advances a (finish_frame a)"
  by (auto simp: advances_def am_ok_def finish_frame_def frame_limit_def Let_def split: option.splits)

lemma turn_fid_ok: "am_ok a \<Longrightarrow> advances a (turn_fid fid a)"
  using finish_frame_ok [of a]
  by (auto simp: turn_fid_def advances_def am_ok_def frame_limit_def Let_def split: option.splits prod.splits)

lemma end_frame_ok: "am_ok a \<Longrightarrow> advances a (end_frame eof a)"
  using finish_frame_ok [of a]
  by (auto simp: end_frame_def advances_def am_ok_def frame_limit_def Let_def split: option.splits prod.splits)

lemma extend_frame_ok: "am_ok a \<Longrightarrow> advances a (extend_frame err pts data a, [])"
  by (auto simp: extend_frame_def advances_def am_ok_def frame_limit_def Let_def split: option.splits prod.splits)

lemma payload_ok:
  assumes "am_ok a"
  shows "advances a (payload p a)"
proof -
  obtain b out where b: "turn_fid (p ! 1 AND 1) a = (b, out)" by fastforce
  have ab: "advances a (b, out)" using turn_fid_ok [OF assms, of "p ! 1 AND 1"] b by simp
  then have "am_ok b" by (simp add: advances_def)
  then have bc: "advances b (extend_frame err pts data b, [])" for err pts data by (rule extend_frame_ok)
  then have "am_ok (extend_frame err pts data b)" for err pts data by (simp add: advances_def)
  then have "advances (extend_frame err pts data b) (end_frame eof (extend_frame err pts data b))" for err pts data eof
    by (rule end_frame_ok)
  from advances_trans [OF bc, simplified] this
  have "advances b (end_frame eof (extend_frame err pts data b))" for err pts data eof
    by (metis surj_pair)
  then have "advances a (c, out @ outs)" if "end_frame eof (extend_frame err pts data b) = (c, outs)" for err pts data eof c outs
    using advances_trans [OF ab] that by metis
  then show ?thesis
    using ab lost_ok [OF assms] advances_refl [OF assms] by (auto simp: payload_def Let_def b [simplified] split: prod.split)
qed

section \<open>Frames come out as they were cut\<close>

text \<open>What a device makes of frames: payloads with a header of 2 bytes, or of 6 with a time stamp; the frame
  bit alternates and the last payload of a frame may be marked.\<close>

definition fid_bit :: "bool \<Rightarrow> u8" where
  "fid_bit fid = (if fid then 1 else 0)"

definition cut_payload :: "bool \<Rightarrow> bool \<Rightarrow> u32 option \<Rightarrow> bytes \<Rightarrow> bytes" where
  "cut_payload fid eof pts d =
     (let flags = fid_bit fid OR (if eof then 2 else 0) in
      case pts of None \<Rightarrow> [2, flags] @ d | Some t \<Rightarrow> [6, flags OR 4] @ le_bytes32 t @ d)"

record sent_frame =
  sf_pieces :: "bytes list"
  sf_pts :: "u32 option"
  sf_marked :: bool

definition frame_payloads :: "bool \<Rightarrow> sent_frame \<Rightarrow> bytes list" where
  "frame_payloads fid f = map (cut_payload fid False (sf_pts f)) (butlast (sf_pieces f))
     @ [cut_payload fid (sf_marked f) (sf_pts f) (last (sf_pieces f))]"

fun video :: "bool \<Rightarrow> sent_frame list \<Rightarrow> bytes list" where
  "video fid [] = []"
| "video fid (f # fs) = frame_payloads fid f @ video (\<not> fid) fs"

definition sendable :: "nat \<Rightarrow> sent_frame \<Rightarrow> bool" where
  "sendable limit f \<longleftrightarrow> sf_pieces f \<noteq> [] \<and> concat (sf_pieces f) \<noteq> [] \<and> length (concat (sf_pieces f)) \<le> limit"

definition frame_of :: "u64 \<Rightarrow> sent_frame \<Rightarrow> frame" where
  "frame_of n f = \<lparr>fr_data = concat (sf_pieces f), fr_sequence = n, fr_pts = sf_pts f, fr_error = False\<rparr>"

text \<open>The whole frame still being built, with the number it will get.\<close>

definition in_progress :: "assembler \<Rightarrow> frame list" where
  "in_progress a = (case am_current a of
      Some (f, True) \<Rightarrow> if fr_data f = [] then [] else [f\<lparr>fr_sequence := am_sequence a\<rparr>]
    | _ \<Rightarrow> [])"

lemma payload_cut:
  "payload (cut_payload fid eof pts d) a =
     (let (a, out) = turn_fid (fid_bit fid) a in
      if am_after_eof a then (a, out)
      else (let (a, out2) = end_frame eof (extend_frame False pts d a) in (a, out @ out2)))"
proof (cases pts)
  case None
  then show ?thesis
    by (cases fid; cases eof) (simp_all add: payload_def cut_payload_def fid_bit_def Let_def cong: if_cong)
next
  case (Some t)
  have "le32 (6 # b # le_bytes32 t @ d) 2 = t" for b
    using le32_drop [of "6 # b # le_bytes32 t @ d" 2 0] by (simp add: le32_bytes)
  moreover have "drop 4 (le_bytes32 t @ d) = d" by simp
  ultimately show ?thesis using Some
    by (cases fid; cases eof) (simp_all add: payload_def cut_payload_def fid_bit_def Let_def cong: if_cong)
qed

lemma payloads_append: "payloads (ps @ qs) a = (let (b, out) = payloads ps a; (c, outs) = payloads qs b in (c, out @ outs))"
  by (induction ps arbitrary: a) (auto simp: Let_def split: prod.split)

text \<open>In the middle of a frame.\<close>

definition building :: "bool \<Rightarrow> frame \<Rightarrow> assembler \<Rightarrow> bool" where
  "building fid f a \<longleftrightarrow> am_current a = Some (f, True) \<and> am_last_fid a = Some (fid_bit fid) \<and> \<not> am_after_eof a"

lemma turn_same: "am_last_fid a = Some fid \<Longrightarrow> turn_fid fid a = (a, [])"
  by (simp add: turn_fid_def)

lemma extend_building:
  assumes "building fid f a" "length (fr_data f) + length d \<le> frame_limit a" "fr_pts f = pts" "\<not> fr_error f"
  shows "building fid (f\<lparr>fr_data := fr_data f @ d\<rparr>) (extend_frame False pts d a)"
    "frame_limit (extend_frame False pts d a) = frame_limit a" "am_sequence (extend_frame False pts d a) = am_sequence a"
  using assms by (auto simp: building_def extend_frame_def Let_def frame_limit_def split: option.split)

lemma payloads_building:
  assumes "building fid f a" "length (fr_data f) + length (concat ds) \<le> frame_limit a" "fr_pts f = pts" "\<not> fr_error f"
  shows "\<exists>b. payloads (map (cut_payload fid False pts) ds) a = (b, []) \<and> building fid (f\<lparr>fr_data := fr_data f @ concat ds\<rparr>) b
    \<and> frame_limit b = frame_limit a \<and> am_sequence b = am_sequence a"
  using assms
proof (induction ds arbitrary: f a)
  case Nil
  then show ?case by simp
next
  case (Cons d ds)
  let ?a = "extend_frame False pts d a"
  have l: "length (fr_data f) + length d \<le> frame_limit a" using Cons.prems(2) by simp
  note e = extend_building [OF Cons.prems(1) l Cons.prems(3,4)]
  have p: "payload (cut_payload fid False pts d) a = (?a, [])"
    using Cons.prems(1) by (simp add: payload_cut building_def turn_same end_frame_def)
  from Cons.IH [OF e(1)] Cons.prems e show ?case by (auto simp: p Let_def)
qed

lemma finish_building:
  assumes "building fid f a" "fr_data f \<noteq> []"
  shows "\<exists>b. end_frame marked a = (b, if marked then [f\<lparr>fr_sequence := am_sequence a\<rparr>] else [])
    \<and> in_progress b = (if marked then [] else [f\<lparr>fr_sequence := am_sequence a\<rparr>]) \<and> am_last_fid b = Some (fid_bit fid)
    \<and> frame_limit b = frame_limit a \<and> am_sequence b = am_sequence a + (if marked then 1 else 0)"
  using assms by (auto simp: building_def end_frame_def finish_frame_def in_progress_def frame_limit_def Let_def)

lemma start_frame:
  assumes "am_last_fid a = Some (fid_bit (\<not> fid))" "length d \<le> frame_limit a"
  shows "\<exists>b. turn_fid (fid_bit fid) a = (b, in_progress a) \<and> \<not> am_after_eof b
    \<and> building fid \<lparr>fr_data = d, fr_sequence = 0, fr_pts = pts, fr_error = False\<rparr> (extend_frame False pts d b)
    \<and> frame_limit (extend_frame False pts d b) = frame_limit a
    \<and> am_sequence (extend_frame False pts d b) = am_sequence a + of_nat (length (in_progress a))"
proof -
  have "fid_bit (\<not> fid) \<noteq> fid_bit fid" by (simp add: fid_bit_def)
  with assms show ?thesis
    by (auto simp: turn_fid_def finish_frame_def in_progress_def extend_frame_def building_def frame_limit_def Let_def
        split: option.split prod.split bool.split)
qed

lemma frame_rebuilt:
  assumes "am_last_fid a = Some (fid_bit (\<not> fid))" "sendable (frame_limit a) f"
  shows "\<exists>b out. payloads (frame_payloads fid f) a = (b, out)
    \<and> out @ in_progress b = in_progress a @ [frame_of (am_sequence a + of_nat (length (in_progress a))) f]
    \<and> am_last_fid b = Some (fid_bit fid) \<and> frame_limit b = frame_limit a
    \<and> am_sequence b + of_nat (length (in_progress b)) = am_sequence a + of_nat (length (in_progress a)) + 1"
proof -
  define fr where "fr d = \<lparr>fr_data = d, fr_sequence = 0 :: u64, fr_pts = sf_pts f, fr_error = False\<rparr>" for d
  let ?n = "am_sequence a + of_nat (length (in_progress a))"
  have fo: "(fr d)\<lparr>fr_sequence := n\<rparr> = frame_of n f" if "d = concat (sf_pieces f)" for d n
    using that by (simp add: fr_def frame_of_def)
  obtain d ds where p: "sf_pieces f = d # ds" using assms(2) by (cases "sf_pieces f") (auto simp: sendable_def)
  have len: "length d + length (concat ds) \<le> frame_limit a" "concat (d # ds) \<noteq> []" using assms(2) p by (simp_all add: sendable_def)
  have l1: "length d \<le> frame_limit a" using len by simp
  obtain b where b: "turn_fid (fid_bit fid) a = (b, in_progress a)" "\<not> am_after_eof b"
      "building fid (fr d) (extend_frame False (sf_pts f) d b)" "frame_limit (extend_frame False (sf_pts f) d b) = frame_limit a"
      "am_sequence (extend_frame False (sf_pts f) d b) = ?n"
    using start_frame [OF assms(1) l1, of "sf_pts f"] unfolding fr_def by blast
  let ?e = "extend_frame False (sf_pts f) d b"
  show ?thesis
  proof (cases "ds = []")
    case True
    obtain c where c: "end_frame (sf_marked f) ?e = (c, if sf_marked f then [frame_of ?n f] else [])"
        "in_progress c = (if sf_marked f then [] else [frame_of ?n f])" "am_last_fid c = Some (fid_bit fid)"
        "frame_limit c = frame_limit a" "am_sequence c = ?n + (if sf_marked f then 1 else 0)"
      using finish_building [OF b(3), of "sf_marked f"] len True p b(4,5) fo [of d ?n] by (auto simp: fr_def)
    show ?thesis using b(1,2) c True p
      by (auto simp: frame_payloads_def payload_cut Let_def split: if_splits)
  next
    case False
    let ?i = "butlast ds" and ?l = "last ds"
    have ds: "concat ds = concat ?i @ ?l" using False by (metis append_butlast_last_id concat.simps concat_append append_Nil2)
    have l2: "length (fr_data (fr d)) + length (concat ?i) \<le> frame_limit ?e" using len ds b(4) by (simp add: fr_def)
    obtain c where c: "payloads (map (cut_payload fid False (sf_pts f)) ?i) ?e = (c, [])" "building fid (fr (d @ concat ?i)) c"
        "frame_limit c = frame_limit a" "am_sequence c = ?n"
      using payloads_building [OF b(3) l2, of "sf_pts f"] b(4,5) by (auto simp: fr_def)
    have l3: "length (fr_data (fr (d @ concat ?i))) + length ?l \<le> frame_limit c" using len ds c(3) by (simp add: fr_def)
    note x = extend_building [OF c(2) l3, of "sf_pts f"]
    have whole: "(fr (d @ concat ?i))\<lparr>fr_data := fr_data (fr (d @ concat ?i)) @ ?l\<rparr> = fr (d @ concat ds)" by (simp add: fr_def ds)
    have y: "building fid (fr (d @ concat ds)) (extend_frame False (sf_pts f) ?l c)" using x(1) whole by (simp add: fr_def)
    obtain g where g: "end_frame (sf_marked f) (extend_frame False (sf_pts f) ?l c) = (g, if sf_marked f then [frame_of ?n f] else [])"
        "in_progress g = (if sf_marked f then [] else [frame_of ?n f])" "am_last_fid g = Some (fid_bit fid)"
        "frame_limit g = frame_limit a" "am_sequence g = ?n + (if sf_marked f then 1 else 0)"
      using finish_building [OF y, of "sf_marked f"] len p x(2,3) c(3,4) fo [of "d @ concat ds" ?n] by (auto simp: fr_def)
    have first: "payload (cut_payload fid False (sf_pts f) d) a = (?e, in_progress a)"
      using b(1,2) by (simp add: payload_cut end_frame_def)
    have final: "payload (cut_payload fid (sf_marked f) (sf_pts f) ?l) c = (g, if sf_marked f then [frame_of ?n f] else [])"
      using c(2) g(1) by (simp add: payload_cut building_def turn_same)
    show ?thesis using False g(2-) p c(1)
      by (auto simp: frame_payloads_def payloads_append first final Let_def split: if_splits)
  qed
qed

lemma assembler_rebuilds:
  assumes "am_last_fid a = Some (fid_bit (\<not> fid))" "list_all (sendable (frame_limit a)) fs"
  shows "\<exists>b out. payloads (video fid fs) a = (b, out)
    \<and> out @ in_progress b = in_progress a
        @ map2 (\<lambda>i f. frame_of (am_sequence a + of_nat (length (in_progress a)) + of_nat i) f) [0..<length fs] fs"
  using assms
proof (induction fs arbitrary: a fid)
  case Nil
  then show ?case by simp
next
  case (Cons f fs)
  let ?n = "\<lambda>a. am_sequence a + of_nat (length (in_progress a))"
  obtain b out where b: "payloads (frame_payloads fid f) a = (b, out)" "out @ in_progress b = in_progress a @ [frame_of (?n a) f]"
      "am_last_fid b = Some (fid_bit fid)" "frame_limit b = frame_limit a" "?n b = ?n a + 1"
    using frame_rebuilt [OF Cons.prems(1), of f] Cons.prems(2) by auto
  have l: "am_last_fid b = Some (fid_bit (\<not> (\<not> fid)))" "list_all (sendable (frame_limit b)) fs" using b Cons.prems(2) by simp_all
  obtain c outs where c: "payloads (video (\<not> fid) fs) b = (c, outs)"
      "outs @ in_progress c = in_progress b @ map2 (\<lambda>i f. frame_of (?n b + of_nat i) f) [0..<length fs] fs"
    using Cons.IH [OF l] by blast
  have up: "map2 (\<lambda>i f. frame_of (?n a + of_nat i) f) [0..<length (f # fs)] (f # fs)
      = frame_of (?n a) f # map2 (\<lambda>i f. frame_of (?n b + of_nat i) f) [0..<length fs] fs"
    by (simp add: upt_conv_Cons map_Suc_upt [symmetric] zip_map1 b(5) add.assoc split_def del: upt_Suc)
  have "(out @ outs) @ in_progress c = in_progress a @ map2 (\<lambda>i f. frame_of (?n a + of_nat i) f) [0..<length (f # fs)] (f # fs)"
    unfolding up using b(2) c(2) by simp
  then show ?case using b(1) c(1) by (simp add: payloads_append)
qed

section \<open>Every frame is read, queued or counted\<close>

text \<open>What a completion brings for the assembler, and what the assembler makes of all that was brought.\<close>

datatype piece = Arrived bytes | Missing

definition brought :: "nat \<Rightarrow> unit transfer \<Rightarrow> piece list" where
  "brought packet_size t = (case tr_status t of
      Completed \<Rightarrow>
        (if tr_in_flight t then []
         else if tr_kind t = Isochronous then map (\<lambda>(i, p). if iso_status p \<noteq> Completed then Missing
             else Arrived (iso_payload packet_size (tr_buffer t) i p)) (enumerate 0 (tr_iso t))
         else [Arrived (take (snd (data_range t) - fst (data_range t)) (drop (fst (data_range t)) (tr_buffer t)))])
    | StError \<Rightarrow> [Missing] | StOverflow \<Rightarrow> [Missing] | TimedOut \<Rightarrow> [Missing]
    | _ \<Rightarrow> [])"

fun assemble :: "piece list \<Rightarrow> assembler \<Rightarrow> assembler \<times> frame list" where
  "assemble [] a = (a, [])"
| "assemble (Arrived p # ps) a = (let (a, out) = payload p a; (a, outs) = assemble ps a in (a, out @ outs))"
| "assemble (Missing # ps) a = assemble ps (lost a)"

lemma assemble_append: "assemble (ps @ qs) a = (let (b, out) = assemble ps a; (c, outs) = assemble qs b in (c, out @ outs))"
  by (induction ps a rule: assemble.induct) (auto simp: Let_def split: prod.split)

lemma assemble_ok: "am_ok a \<Longrightarrow> advances a (assemble ps a)"
proof (induction ps a rule: assemble.induct)
  case (1 a)
  then show ?case by (simp add: advances_refl)
next
  case (2 p ps a)
  obtain b out where b: "payload p a = (b, out)" by fastforce
  obtain c outs where c: "assemble ps b = (c, outs)" by fastforce
  have ab: "advances a (b, out)" using payload_ok [OF 2(2), of p] b by simp
  then have "advances b (assemble ps b)" using 2(1) [OF b [symmetric] refl] by (simp add: advances_def)
  with advances_trans [OF ab] c show ?case by (simp add: b)
next
  case (3 ps a)
  have al: "advances a (lost a, [])" using lost_ok [OF 3(2)] .
  then have "advances (lost a) (assemble ps (lost a))" using 3(1) by (simp add: advances_def)
  with advances_trans [OF al] show ?case by (cases "assemble ps (lost a)") auto
qed

definition accounted :: "frame list \<Rightarrow> frame list \<Rightarrow> pump_shared \<Rightarrow> bool" where
  "accounted taken emitted s \<longleftrightarrow> ps_reader s \<and> length (ps_queue s) \<le> FRAME_QUEUE \<and> subseq (taken @ ps_queue s) emitted
     \<and> of_nat (length taken + length (ps_queue s)) + ps_dropped s = of_nat (length emitted)"

definition pump_ok :: "nat \<Rightarrow> piece list \<Rightarrow> frame list \<Rightarrow> pump_shared \<Rightarrow> bool" where
  "pump_ok cap fed taken s \<longleftrightarrow> (\<exists>emitted. assemble fed (assembler_new cap) = (ps_assembler s, emitted) \<and> accounted taken emitted s)"

lemma emit_accounted:
  assumes "accounted taken emitted s"
  shows "accounted taken (emitted @ [f]) (emit_frame f s)"
proof (cases "length (ps_queue s) < FRAME_QUEUE")
  case True
  have "subseq ((taken @ ps_queue s) @ [f]) (emitted @ [f])"
    using assms by (intro list_emb_append_mono) (simp_all add: accounted_def)
  with assms True show ?thesis by (simp add: accounted_def emit_frame_def algebra_simps)
next
  case False
  have "subseq (taken @ ps_queue s) (emitted @ [f])"
    using assms by (auto simp: accounted_def intro: subseq_order.order_trans)
  moreover have "emit_frame f s = s\<lparr>ps_dropped := ps_dropped s + 1\<rparr>"
    using assms False by (simp add: emit_frame_def accounted_def)
  ultimately show ?thesis using assms by (simp add: accounted_def algebra_simps)
qed

lemma emits_accounted: "accounted taken emitted s \<Longrightarrow> accounted taken (emitted @ fs) (fold emit_frame fs s)"
  by (induction fs arbitrary: emitted s) (simp, metis append.assoc append_Cons append_Nil emit_accounted fold_simps(2))

lemma emit_assembler [simp]: "ps_assembler (fold emit_frame fs s) = ps_assembler s"
  by (induction fs arbitrary: s) (simp_all add: emit_frame_def)

lemma pump_ok_feed:
  assumes "pump_ok cap fed taken s"
  shows "pump_ok cap (fed @ [Arrived p]) taken (feed p s)"
proof -
  obtain em where em: "assemble fed (assembler_new cap) = (ps_assembler s, em)" "accounted taken em s"
    using assms by (auto simp: pump_ok_def)
  obtain a out where a: "payload p (ps_assembler s) = (a, out)" by fastforce
  have "accounted taken em (s\<lparr>ps_assembler := a\<rparr>)" using em(2) by (simp add: accounted_def)
  from emits_accounted [OF this, of out] em(1) a show ?thesis by (simp add: pump_ok_def feed_def assemble_append)
qed

lemma pump_ok_lose: "pump_ok cap fed taken s \<Longrightarrow> pump_ok cap (fed @ [Missing]) taken (lose s)"
  by (auto simp: pump_ok_def lose_def assemble_append accounted_def)

lemma pump_ok_feed_packets:
  assumes "pump_ok cap fed taken s"
  shows "pump_ok cap (fed @ map (\<lambda>(i, p). if iso_status p \<noteq> Completed then Missing else Arrived (iso_payload n buf i p)) (enumerate 0 ps))
    taken (feed_packets n buf ps s)"
proof -
  have "pump_ok cap fed taken s \<Longrightarrow>
      pump_ok cap (fed @ map (\<lambda>(i, p). if iso_status p \<noteq> Completed then Missing else Arrived (iso_payload n buf i p)) xs) taken
        (fold (\<lambda>(i, p) s. if iso_status p \<noteq> Completed then lose s else feed (iso_payload n buf i p) s) xs s)" for xs
  proof (induction xs arbitrary: fed s)
    case (Cons x xs)
    obtain i p where x: "x = (i, p)" by (cases x)
    show ?case
      using Cons.IH [OF pump_ok_lose [OF Cons.prems]] Cons.IH [OF pump_ok_feed [OF Cons.prems]] by (simp add: x)
  qed simp
  then show ?thesis using assms by (simp add: feed_packets_def)
qed

lemma pump_ok_resubmit: "pump_ok cap fed taken s \<Longrightarrow> resubmit r m s = Done (s', again) \<Longrightarrow> pump_ok cap fed taken s'"
  by (auto simp: resubmit_def lock_state_def pump_ok_def accounted_def split: sum.splits if_splits)

lemma pump_ok_taken:
  assumes "take_completed n m s = Done (m', s')" "\<not> in_held m" "tr_status (in_state m) = Completed" "pump_ok cap fed taken s"
  shows "pump_ok cap (fed @ brought n (in_state m)) taken s'"
  using assms pump_ok_feed [OF assms(4)] pump_ok_feed_packets [OF assms(4)]
  by (auto simp: take_completed_def guards_free guards_held brought_def split: if_splits)

lemma pump_ok_complete:
  assumes c: "on_complete n m r s = Done (s', again)" and free: "\<not> in_held m" and ok: "pump_ok cap fed taken s"
  shows "pump_ok cap (fed @ brought n (in_state m)) taken s'"
proof (cases "tr_status (in_state m)")
  case Completed
  then obtain m1 s1 where "take_completed n m s = Done (m1, s1)" "resubmit r m1 s1 = Done (s', again)"
    using c free by (cases "take_completed n m s") (auto simp: on_complete_def guards_free)
  with pump_ok_taken [OF _ free Completed ok] pump_ok_resubmit show ?thesis by blast
qed (use c free ok pump_ok_resubmit [OF pump_ok_lose [OF ok], of r m s' again] in
      \<open>auto simp: on_complete_def guards_free brought_def pump_ok_def accounted_def\<close>)

text \<open>The callbacks, the reader and the stop in any order; beside the state, what was brought and what was read.\<close>

inductive pump_step :: "nat \<Rightarrow> piece list \<times> frame list \<times> pump_shared \<Rightarrow> piece list \<times> frame list \<times> pump_shared \<Rightarrow> bool" for n where
  completes: "\<not> in_held m \<Longrightarrow> on_complete n m r s = Done (s', again) \<Longrightarrow>
    pump_step n (fed, taken, s) (fed @ brought n (in_state m), taken, s')"
| reads: "pump_next [] s = (Inr f, s') \<Longrightarrow> pump_step n (fed, taken, s) (fed, taken @ [f], s')"
| gives_up: "pump_next [] s = (Inl e, s') \<Longrightarrow> pump_step n (fed, taken, s) (fed, taken, s')"
| stops: "pump_step n (fed, taken, s) (fed, taken, s\<lparr>ps_stopped := True\<rparr>)"

inductive pump_reach :: "nat \<Rightarrow> nat \<Rightarrow> piece list \<Rightarrow> frame list \<Rightarrow> pump_shared \<Rightarrow> bool" for n cap where
  start: "pump_reach n cap [] [] (pump_new cap)"
| step: "pump_reach n cap fed taken s \<Longrightarrow> pump_step n (fed, taken, s) (fed', taken', s') \<Longrightarrow> pump_reach n cap fed' taken' s'"

lemma pump_step_ok:
  assumes "pump_step n (fed, taken, s) (fed', taken', s')" "pump_ok cap fed taken s"
  shows "pump_ok cap fed' taken' s'"
  using assms(1)
proof (cases rule: pump_step.cases)
  case (completes m r again)
  with pump_ok_complete assms(2) show ?thesis by blast
next
  case (reads f)
  then obtain q where "ps_queue s = f # q" "s' = s\<lparr>ps_queue := q\<rparr>"
    by (cases "ps_queue s") (auto split: option.splits sum.splits)
  with reads assms(2) show ?thesis by (auto simp: pump_ok_def accounted_def algebra_simps)
next
  case (gives_up e)
  then have "s' = s" by (cases "ps_queue s") (auto split: option.splits sum.splits)
  with gives_up assms(2) show ?thesis by simp
next
  case stops
  with assms(2) show ?thesis by (simp add: pump_ok_def accounted_def)
qed

lemma pump_new_ok: "pump_ok cap [] [] (pump_new cap)"
  by (simp add: pump_ok_def pump_new_def accounted_def)

lemma pump_reach_ok: "pump_reach n cap fed taken s \<Longrightarrow> pump_ok cap fed taken s"
  by (induction rule: pump_reach.induct) (rule pump_new_ok, rule pump_step_ok)

lemma assembled_numbered: "numbered (max cap 1 * 2) 0 (snd (assemble fed (assembler_new cap)))"
  using assemble_ok [of "assembler_new cap" fed]
  by (auto simp: advances_def am_ok_def assembler_new_def frame_limit_def split: prod.splits)

section \<open>Two slips\<close>

text \<open>The callback does not get past \<open>iso_packets()\<close> exactly when an isochronous transfer has completed.\<close>

lemma resubmit_free: "\<not> in_held m \<Longrightarrow> \<exists>s' again. resubmit r m s = Done (s', again)"
  by (auto simp: resubmit_def lock_state_def split: sum.split)

lemma completes_or_hangs:
  assumes "\<not> in_held m"
  shows "on_complete n m r s = Stuck \<longleftrightarrow>
      tr_kind (in_state m) = Isochronous \<and> tr_status (in_state m) = Completed \<and> \<not> tr_in_flight (in_state m)"
    and "on_complete n m r s \<noteq> Panics"
proof -
  have free: "\<exists>s' again. resubmit r m s = Done (s', again)" "\<exists>s' again. resubmit r (unlock_state (m\<lparr>in_held := True\<rparr>)) s = Done (s', again)" for s
    by (rule resubmit_free, simp add: assms unlock_state_def)+
  have "on_complete n m r s = (if tr_kind (in_state m) = Isochronous \<and> tr_status (in_state m) = Completed \<and> \<not> tr_in_flight (in_state m)
      then Stuck else on_complete n m r s) \<and> (\<not> (tr_kind (in_state m) = Isochronous \<and> tr_status (in_state m) = Completed \<and> \<not> tr_in_flight (in_state m))
      \<longrightarrow> (\<exists>s' again. on_complete n m r s = Done (s', again)))"
    using free assms by (cases "tr_status (in_state m)") (auto simp: on_complete_def take_completed_def guards_free guards_held)
  then show "on_complete n m r s = Stuck \<longleftrightarrow>
      tr_kind (in_state m) = Isochronous \<and> tr_status (in_state m) = Completed \<and> \<not> tr_in_flight (in_state m)"
    "on_complete n m r s \<noteq> Panics" by (metis run.distinct(1,3,5))+
qed

text \<open>When a submission is refused, the transfers before it go on.\<close>

lemma pump_start_leaves:
  assumes "as_submit A kind ep = (\<lambda>sz k. if k < limit then (Ok (), Suc k) else (Inl e, k))"
    and "h_world h < limit" "limit < h_world h + TRANSFERS"
  shows "pump_start A kind ep sz packets n h = (Fail e, h\<lparr>h_world := limit\<rparr>)"
proof -
  have "for_each (replicate m ep) (\<lambda>ep. on_sys (as_submit A kind ep x)) h
      = (if limit < h_world h + m then (Fail e, h\<lparr>h_world := limit\<rparr>) else (Val (), h\<lparr>h_world := h_world h + m\<rparr>))"
    if "h_world h \<le> limit" for m x and h :: "nat handle"
    using that
  proof (induction m arbitrary: h)
    case (Suc m)
    show ?case
    proof (cases "h_world h < limit")
      case True
      then show ?thesis using Suc.IH [of "h\<lparr>h_world := Suc (h_world h)\<rparr>"] assms(1) by (simp add: bindR_def on_sys_eq)
    next
      case False
      then have "h_world h = limit" using Suc.prems by simp
      then show ?thesis using assms(1) by (simp add: bindR_def on_sys_eq)
    qed
  qed simp
  from this [of h TRANSFERS] assms(2,3) show ?thesis by (simp add: pump_start_def bindR_def)
qed

lemma fold_keeps: "(\<And>x s. v (g x s) = v s) \<Longrightarrow> v (fold g xs s) = v s"
  by (induction xs arbitrary: s) simp_all

lemma stopped_kept:
  "ps_stopped (feed p s) = ps_stopped s" "ps_stopped (lose s) = ps_stopped s" "ps_stopped (feed_packets m b ps s) = ps_stopped s"
proof -
  have k: "ps_stopped (fold emit_frame fs s) = ps_stopped s" for fs s
    by (rule fold_keeps) (simp add: emit_frame_def)
  show f: "ps_stopped (feed p s) = ps_stopped s" for p s by (simp add: feed_def k split: prod.split)
  show l: "ps_stopped (lose s) = ps_stopped s" for s by (simp add: lose_def)
  show "ps_stopped (feed_packets m b ps s) = ps_stopped s"
    unfolding feed_packets_def by (rule fold_keeps) (simp add: f l split: prod.split)
qed

lemma pump_stopped:
  assumes "ps_stopped s" "on_complete n m r s = Done (s', again)"
  shows "\<not> again"
proof -
  have t: "take_completed n m s = Done (m1, s1) \<Longrightarrow> ps_stopped s1 = ps_stopped s" for m m1 s1
    by (cases "buffer_guard m"; cases "data_guard m") (auto simp: take_completed_def stopped_kept elim!: then_run.elims split: if_splits sum.splits)
  have r: "ps_stopped s1 \<Longrightarrow> resubmit r m1 s1 = Done (s', again) \<Longrightarrow> \<not> again" for m1 s1 by (simp add: resubmit_def)
  obtain st m0 where st: "status_now m = Done (st, m0)" using assms(2) by (cases "status_now m") (auto simp: on_complete_def)
  show ?thesis
  proof (cases st)
    case Completed
    then obtain m1 s1 where "take_completed n m0 s = Done (m1, s1)" "resubmit r m1 s1 = Done (s', again)"
      using assms(2) st by (cases "take_completed n m0 s") (auto simp: on_complete_def)
    with t r assms(1) show ?thesis by blast
  qed (use assms st r [of "lose s" m0] stopped_kept(2) [of s] in \<open>auto simp: on_complete_def\<close>)
qed

section \<open>The control block\<close>

text \<open>What a device of an older version keeps of a block.\<close>

definition known_fields :: "u16 \<Rightarrow> stream_control \<Rightarrow> stream_control" where
  "known_fields v c =
     (if v < 0x0110 then c\<lparr>sc_clock_frequency := 0, sc_framing_info := 0, sc_preferred_version := 0, sc_min_version := 0,
        sc_max_version := 0, sc_uvc15_tail := replicate 14 0\<rparr>
      else if v < 0x0150 then c\<lparr>sc_uvc15_tail := replicate 14 0\<rparr> else c)"

lemma length_stream_control: "length (sc_uvc15_tail c) = 14 \<Longrightarrow> length (stream_control_to_bytes c) = 48"
  by (simp add: stream_control_to_bytes_def)

lemma stream_control_read:
  assumes "length (sc_uvc15_tail c) = 14"
  shows "stream_control_from_bytes (stream_control_to_bytes c @ rest) = c"
    "stream_control_from_bytes (take 34 (stream_control_to_bytes c)) = c\<lparr>sc_uvc15_tail := replicate 14 0\<rparr>"
    "stream_control_from_bytes (take 26 (stream_control_to_bytes c)) = c\<lparr>sc_clock_frequency := 0, sc_framing_info := 0,
        sc_preferred_version := 0, sc_min_version := 0, sc_max_version := 0, sc_uvc15_tail := replicate 14 0\<rparr>"
proof -
  have "drop 34 (stream_control_to_bytes c @ rest) = sc_uvc15_tail c @ rest" by (simp add: stream_control_to_bytes_def)
  then have d: "byte_at (stream_control_to_bytes c @ rest) (34 + i) = byte_at (sc_uvc15_tail c @ rest) i" for i
    by (metis byte_at_drop)
  have t: "map (\<lambda>i. byte_at (sc_uvc15_tail c @ rest) i) [0..<14] = sc_uvc15_tail c"
    using assms by (intro nth_equalityI) (simp_all add: byte_at_append)
  have z: "map (\<lambda>i. 0 :: u8) [0..<14] = replicate 14 0" by (simp add: map_replicate_const)
  show "stream_control_from_bytes (stream_control_to_bytes c @ rest) = c"
    unfolding stream_control_from_bytes_def d t
    by (simp add: stream_control_to_bytes_def le16_def le32_u32 le_bytes16_def le_bytes32_def)
  have z4: "u32_le 0 0 0 0 = 0" by (simp add: u32_le_def)
  show "stream_control_from_bytes (take 34 (stream_control_to_bytes c)) = c\<lparr>sc_uvc15_tail := replicate 14 0\<rparr>"
    using z by (simp add: stream_control_from_bytes_def stream_control_to_bytes_def le16_def le32_u32 le_bytes16_def le_bytes32_def)
  show "stream_control_from_bytes (take 26 (stream_control_to_bytes c)) = c\<lparr>sc_clock_frequency := 0, sc_framing_info := 0,
        sc_preferred_version := 0, sc_min_version := 0, sc_max_version := 0, sc_uvc15_tail := replicate 14 0\<rparr>"
    using z z4 by (simp add: stream_control_from_bytes_def stream_control_to_bytes_def le16_def le32_u32 le_bytes16_def le_bytes32_def)
qed

lemma stream_control_known:
  assumes "length (sc_uvc15_tail c) = 14"
  shows "stream_control_from_bytes (take (wire_size v) (stream_control_to_bytes c)) = known_fields v c"
  using stream_control_read [OF assms] stream_control_read(1) [OF assms, of "[]"] length_stream_control [OF assms]
  by (simp add: wire_size_def known_fields_def)

end
