(* ===== verification/Uvc_Camera.thy ===== *)
theory Uvc_Camera
  imports Uvc_Descriptors Uvc_Stream
begin

text \<open>
  Cameras, \<open>src/src/uvc/mod.rs\<close>: opening a video function with its streaming interfaces, controls as bytes
  and as integers, the negotiation with the device, the choice of an alternate setting, starting a stream
  and dropping it. A \<open>camera\<close> is what \<open>open_interface\<close> parsed; a \<open>stream\<close> is what stays fixed while it runs,
  beside the \<open>pump_shared\<close> of \<open>Uvc_Stream\<close>.
\<close>

abbreviation (input) CAMERA_TIMEOUT :: nat where "CAMERA_TIMEOUT \<equiv> 1000"
abbreviation (input) NEGOTIATION_TIMEOUT :: nat where "NEGOTIATION_TIMEOUT \<equiv> 5000"
abbreviation (input) ISO_PACKETS :: nat where "ISO_PACKETS \<equiv> 32"
abbreviation (input) SET_CUR :: u8 where "SET_CUR \<equiv> 0x01"

datatype control_request = ReqCur | ReqMin | ReqMax | ReqRes | ReqDef | ReqLen | ReqInfo

fun control_request_code :: "control_request \<Rightarrow> u8" where
  "control_request_code ReqCur = 0x81"
| "control_request_code ReqMin = 0x82"
| "control_request_code ReqMax = 0x83"
| "control_request_code ReqRes = 0x84"
| "control_request_code ReqLen = 0x85"
| "control_request_code ReqInfo = 0x86"
| "control_request_code ReqDef = 0x87"

record stream_request =
  rq_interface :: u8
  rq_format_index :: u8
  rq_frame_index :: u8
  rq_frame_interval :: u32

record camera =
  cam_claim :: helper_claim
  cam_control :: control_interface
  cam_streaming :: "streaming_interface list"

section \<open>Opening\<close>

definition is_video_control :: "interface_descriptor \<Rightarrow> bool" where
  "is_video_control a \<longleftrightarrow> if_class a = 0x0e \<and> if_sub_class a = 0x01"

definition video_interfaces :: "'l device_info \<Rightarrow> interface_descriptor list result option" where
  "video_interfaces d = interfaces_where d is_video_control"

definition streaming_of :: "config_descriptor \<Rightarrow> u8 list \<Rightarrow> streaming_interface list option" where
  "streaming_of cfg ns = map_option (List.map_filter (\<lambda>s. s))
     (those (map (\<lambda>i. Option.bind (default_alt i) streaming_parse) (List.map_filter (cfg_interface cfg) ns)))"

definition camera_new :: "control_interface \<Rightarrow> streaming_interface list \<Rightarrow> helper_claim \<Rightarrow> ('k handle, camera) io" where
  "camera_new control streaming c = ret \<lparr>cam_claim = c, cam_control = control, cam_streaming = streaming\<rparr>"

definition camera_open_interface :: "'k sys \<Rightarrow> 'l device_info \<Rightarrow> u8 \<Rightarrow> ('k handle, camera) io" where
  "camera_open_interface S d number =
     bindR (lift_panic (active_config d)) (\<lambda>cfg.
     bindR (lift_panic (interface_of d number)) (\<lambda>vc.
       if \<not> is_video_control vc then failK InvalidParam
       else bindR (lift_opt (control_parse vc)) (\<lambda>parsed. case parsed of
           None \<Rightarrow> failK Io
         | Some control \<Rightarrow> bindR (lift_opt (streaming_of cfg (ci_streaming control))) (\<lambda>streaming.
             open_with S (number # map si_interface streaming) (camera_new control streaming)))))"

definition camera_open :: "'k sys \<Rightarrow> ('k, unit) sysop \<Rightarrow> 'l device_info \<Rightarrow> 'k \<Rightarrow> (camera \<times> 'k handle) out \<times> 'k" where
  "camera_open S opn d = open_first S opn (find_interface d is_video_control) (\<lambda>i. camera_open_interface S d (if_number i))"

definition find_format :: "camera \<Rightarrow> bytes \<Rightarrow> u16 \<Rightarrow> u16 \<Rightarrow> stream_request option" where
  "find_format cam cc width height =
     (case List.map_filter (\<lambda>vs. Option.bind (format_by_fourcc vs cc) (\<lambda>f.
          map_option (\<lambda>r. \<lparr>rq_interface = si_interface vs, rq_format_index = fm_index f, rq_frame_index = fd_index r,
              rq_frame_interval = 0\<rparr>)
            (find (\<lambda>r. fd_width r = width \<and> fd_height r = height) (fm_frames f)))) (cam_streaming cam) of
        [] \<Rightarrow> None | q # _ \<Rightarrow> Some q)"

section \<open>Controls\<close>

definition control_index :: "camera \<Rightarrow> u8 \<Rightarrow> u16" where
  "control_index cam entity = push_bit 8 (ucast entity) OR ucast (ci_interface (cam_control cam))"

definition get_control :: "'k sys \<Rightarrow> camera \<Rightarrow> u8 \<Rightarrow> u8 \<Rightarrow> control_request \<Rightarrow> bytes \<Rightarrow> ('k handle, nat \<times> bytes) io" where
  "get_control S cam entity selector request buf =
     control_read S (request_type In Class RInterface) (control_request_code request) (push_bit 8 (ucast selector))
       (control_index cam entity) buf CAMERA_TIMEOUT"

definition set_control :: "'k sys \<Rightarrow> camera \<Rightarrow> u8 \<Rightarrow> u8 \<Rightarrow> bytes \<Rightarrow> ('k handle, unit) io" where
  "set_control S cam entity selector data =
     bindR (control_write S (request_type Out Class RInterface) SET_CUR (push_bit 8 (ucast selector))
       (control_index cam entity) data CAMERA_TIMEOUT) (\<lambda>_. ret ())"

text \<open>The integer in the first \<open>n\<close> of four bytes, an \<open>i64\<close> that is far from overflowing.\<close>

definition control_int :: "bytes \<Rightarrow> nat \<Rightarrow> bool \<Rightarrow> int" where
  "control_int b n sg =
     (let raw = uint (u32_le (byte_at b 0) (byte_at b 1) (byte_at b 2) (byte_at b 3)); bits = 8 * n
      in if sg \<and> drop_bit (bits - 1) raw AND 1 \<noteq> 0 then raw - 2 ^ bits else raw)"

definition get_control_int :: "'k sys \<Rightarrow> camera \<Rightarrow> u8 \<Rightarrow> u8 \<Rightarrow> control_request \<Rightarrow> nat \<Rightarrow> bool \<Rightarrow> ('k handle, int) io" where
  "get_control_int S cam entity selector request n sg =
     (if \<not> (1 \<le> n \<and> n \<le> 4) then failK InvalidParam
      else bindR (get_control S cam entity selector request (replicate n 0)) (\<lambda>(got, b).
        if got \<noteq> n then failK Io else ret (control_int (b @ replicate (4 - n) 0) n sg)))"

text \<open>The value is an \<open>i64\<close>; its low 32 bits are written.\<close>

definition control_int_bytes :: "nat \<Rightarrow> u64 \<Rightarrow> bytes option" where
  "control_int_bytes n value = slice (le_bytes32 (ucast value)) 0 n"

definition set_control_int :: "'k sys \<Rightarrow> camera \<Rightarrow> u8 \<Rightarrow> u8 \<Rightarrow> nat \<Rightarrow> u64 \<Rightarrow> ('k handle, unit) io" where
  "set_control_int S cam entity selector n value =
     (if \<not> (1 \<le> n \<and> n \<le> 4) then failK InvalidParam
      else bindR (lift_opt (control_int_bytes n value)) (set_control S cam entity selector))"

section \<open>Negotiation\<close>

definition camera_streaming :: "camera \<Rightarrow> u8 \<Rightarrow> streaming_interface result" where
  "camera_streaming cam interface = (case find (\<lambda>s. si_interface s = interface) (cam_streaming cam) of
      Some s \<Rightarrow> Ok s
    | None \<Rightarrow> Err InvalidParam)"

definition vs_control :: "'k sys \<Rightarrow> u8 \<Rightarrow> u8 \<Rightarrow> u8 \<Rightarrow> bytes \<Rightarrow> ('k handle, nat \<times> bytes) io" where
  "vs_control S interface selector request data =
     (if request AND 0x80 \<noteq> 0 then
        control_read S (request_type In Class RInterface) request (push_bit 8 (ucast selector)) (ucast interface) data NEGOTIATION_TIMEOUT
      else bindR (control_write S (request_type Out Class RInterface) request (push_bit 8 (ucast selector)) (ucast interface)
          data NEGOTIATION_TIMEOUT) (\<lambda>n. ret (n, data)))"

definition probe :: "'k sys \<Rightarrow> camera \<Rightarrow> u8 \<Rightarrow> stream_control \<Rightarrow> ('k handle, stream_control) io" where
  "probe S cam interface control =
     (let sz = wire_size (ci_uvc_version (cam_control cam)) in
      bindR (lift_opt (slice (stream_control_to_bytes control) 0 sz)) (\<lambda>b.
      bindR (vs_control S interface 0x01 SET_CUR b) (\<lambda>_.
      bindR (vs_control S interface 0x01 (control_request_code ReqCur) (replicate sz 0)) (\<lambda>(n, reply).
      bindR (lift_opt (slice (reply @ replicate (48 - sz) 0) 0 n)) (\<lambda>b. ret (stream_control_from_bytes b))))))"

section \<open>Streaming\<close>

record stream =
  sm_interface :: u8
  sm_endpoint :: u8
  sm_isochronous :: bool
  sm_control :: stream_control

definition iso_bandwidth :: "endpoint_descriptor \<Rightarrow> u32" where
  "iso_bandwidth e = (case ep_ss_companion e of
      Some c \<Rightarrow> if ssc_bytes_per_interval c \<noteq> 0 then ucast (ssc_bytes_per_interval c) else ep_max_packet_size e
    | None \<Rightarrow> ep_max_packet_size e)"

text \<open>The candidates are sorted as pairs.\<close>

definition alt_candidates :: "interface_group \<Rightarrow> u8 \<Rightarrow> (u32 \<times> u8) list" where
  "alt_candidates alts endpoint = sort_key fst (sort_key snd (filter (\<lambda>(bw, _). bw > 0)
     (List.map_filter (\<lambda>a. Option.bind (if_endpoint a endpoint) (\<lambda>e.
        if ep_transfer_type e = Isochronous then Some (iso_bandwidth e, if_alternate_setting a) else None)) (ig_alt_settings alts))))"

definition choose_alt :: "(u32 \<times> u8) list \<Rightarrow> nat \<Rightarrow> (u32 \<times> u8) option" where
  "choose_alt candidates room = (case find (\<lambda>(bw, _). unat bw \<ge> room) candidates of
      Some c \<Rightarrow> Some c
    | None \<Rightarrow> if candidates = [] then None else Some (last candidates))"

text \<open>The product is a \<open>u32\<close>, as in the code.\<close>

definition stream_frame_size :: "stream_control \<Rightarrow> frame_descriptor \<Rightarrow> nat" where
  "stream_frame_size negotiated f =
     (case find (\<lambda>s. s \<noteq> 0) [sc_max_video_frame_size negotiated, fd_max_frame_size f] of
        Some s \<Rightarrow> unat s
      | None \<Rightarrow> unat (ucast (fd_width f) * ucast (fd_height f) * 2 :: u32))"

definition start_bulk :: "'k async \<Rightarrow> u8 \<Rightarrow> endpoint_descriptor \<Rightarrow> nat \<Rightarrow> nat \<Rightarrow> ('k handle, pump_shared) io" where
  "start_bulk A endpoint e room max_frame_size =
     (let packet = max (unat (ep_packet_size e)) 1
      in pump_start A Bulk endpoint (div_ceil (max room packet) packet * packet) 1 max_frame_size)"

definition start_iso :: "'k sys \<Rightarrow> 'k async \<Rightarrow> u8 \<Rightarrow> u8 \<Rightarrow> interface_group \<Rightarrow> nat \<Rightarrow> nat \<Rightarrow> ('k handle, pump_shared) io" where
  "start_iso S A interface endpoint alts room max_frame_size =
     (case choose_alt (alt_candidates alts endpoint) room of
        None \<Rightarrow> failK NotSupported
      | Some (bandwidth, alt) \<Rightarrow>
          bindR (set_alternate_setting S interface alt) (\<lambda>_.
          matchR (pump_start A Isochronous endpoint (unat bandwidth) ISO_PACKETS max_frame_size) ret
            (\<lambda>e. bindR (ignoreR (set_alternate_setting S interface 0)) (\<lambda>_. failE e))))"

definition camera_start ::
  "'k sys \<Rightarrow> 'k async \<Rightarrow> 'l device_info \<Rightarrow> camera \<Rightarrow> stream_request \<Rightarrow> ('k handle, stream \<times> pump_shared) io" where
  "camera_start S A d cam request =
     bindR (lift_res (camera_streaming cam (rq_interface request))) (\<lambda>vs.
     case format_of vs (rq_format_index request) of None \<Rightarrow> failK InvalidParam | Some format \<Rightarrow>
     (case format_frame format (rq_frame_index request) of None \<Rightarrow> failK InvalidParam | Some frame \<Rightarrow>
     (let interval = (if rq_frame_interval request = 0 then fd_default_interval frame else rq_frame_interval request) in
      bindR (probe S cam (si_interface vs) (stream_control_new (fm_index format) (fd_index frame) interval)) (\<lambda>negotiated.
      bindR (lift_opt (slice (stream_control_to_bytes negotiated) 0 (wire_size (ci_uvc_version (cam_control cam))))) (\<lambda>commit.
      bindR (vs_control S (si_interface vs) 0x02 SET_CUR commit) (\<lambda>_.
      bindR (lift_panic (active_config d)) (\<lambda>cfg.
      case cfg_interface cfg (si_interface vs) of None \<Rightarrow> failK NotFound | Some alts \<Rightarrow>
      (let room = unat (sc_max_payload_transfer_size negotiated);
           max_frame_size = stream_frame_size negotiated frame;
           bulk = Option.bind (ig_alt_setting alts 0) (\<lambda>a. Option.bind (if_endpoint a (si_endpoint vs))
             (\<lambda>e. if ep_transfer_type e = Bulk then Some e else None))
       in bindR (case bulk of
              Some e \<Rightarrow> start_bulk A (si_endpoint vs) e room max_frame_size
            | None \<Rightarrow> start_iso S A (si_interface vs) (si_endpoint vs) alts room max_frame_size) (\<lambda>pump.
          ret (\<lparr>sm_interface = si_interface vs, sm_endpoint = si_endpoint vs, sm_isochronous = (bulk = None),
                sm_control = negotiated\<rparr>, pump))))))))))"

definition stream_drop :: "'k sys \<Rightarrow> 'k async \<Rightarrow> stream \<Rightarrow> ('k handle \<times> pump_shared, unit) io" where
  "stream_drop S A st =
     bindR (pump_stop A (sm_endpoint st)) (\<lambda>_.
       on_handle (ignoreR (if sm_isochronous st then set_alternate_setting S (sm_interface st) 0
                           else clear_halt S (sm_endpoint st))))"

section \<open>The claim of a camera\<close>

interpretation camera_class: class_device S "number # map si_interface streaming" "camera_new control streaming" cam_claim
  for S number streaming control
proof unfold_locales
  fix c h d h'
  show "claims_kept (camera_new control streaming c :: ('a handle, camera) io)" unfolding camera_new_def by (intro kept)
  assume "camera_new control streaming c (h :: 'a handle) = (Val d, h')"
  then show "cam_claim d = c" by (auto simp: camera_new_def)
qed

lemma owns_lift_opt [owning]: "(\<And>x. owns cl (f x)) \<Longrightarrow> owns cl (bindR (lift_opt p) f)"
  by (cases p) (simp_all add: owns_def bindR_def)

lemma camera_owns: "owns cam_claim (camera_open_interface S d number)"
  unfolding camera_open_interface_def by (intro owning camera_class.open_owns)

text \<open>Neither starting nor dropping a stream touches the claims.\<close>

lemma kept_pump_start: "claims_kept (pump_start A kind ep n m sz)"
  unfolding pump_start_def by (intro kept)

lemma kept_camera_start: "claims_kept (camera_start S A d cam request)"
  unfolding camera_start_def start_bulk_def start_iso_def probe_def vs_control_def Let_def
  by (intro kept kept_pump_start)

section \<open>The choice of an alternate setting\<close>

lemma find_first_sorted:
  assumes "sorted (map fst xs)" "find P xs = Some x" "y \<in> set xs" "P y"
  shows "fst x \<le> fst y"
proof -
  obtain i where i: "i < length xs" "xs ! i = x" "\<forall>j < i. \<not> P (xs ! j)"
    using assms(2) by (auto simp: find_Some_iff)
  obtain j where j: "j < length xs" "xs ! j = y" using assms(3) by (auto simp: in_set_conv_nth)
  have "i \<le> j" using i j assms(4) by (metis not_le)
  with sorted_nth_mono [OF assms(1), of i j] i j show ?thesis by simp
qed

lemma sorted_candidates: "sorted (map fst (alt_candidates g ep))"
  unfolding alt_candidates_def by (rule sorted_sort_key)

lemma choose_alt_best:
  assumes "sorted (map fst cs)" "choose_alt cs need = Some (bw, alt)"
  shows "(bw, alt) \<in> set cs"
    "need \<le> unat bw \<or> (\<forall>c \<in> set cs. unat (fst c) < need \<and> fst c \<le> bw)"
    "c \<in> set cs \<Longrightarrow> need \<le> unat (fst c) \<Longrightarrow> need \<le> unat bw \<and> bw \<le> fst c"
proof -
  let ?P = "\<lambda>(b, _ :: u8). need \<le> unat (b :: u32)"
  have *: "(bw, alt) \<in> set cs \<and> (need \<le> unat bw \<or> (\<forall>c \<in> set cs. unat (fst c) < need \<and> fst c \<le> bw))
    \<and> (\<forall>c \<in> set cs. need \<le> unat (fst c) \<longrightarrow> need \<le> unat bw \<and> bw \<le> fst c)"
  proof (cases "find ?P cs")
    case None
    then have c: "cs \<noteq> []" "last cs = (bw, alt)" and no: "\<forall>c \<in> set cs. unat (fst c) < need"
      using assms(2) None by (auto simp: choose_alt_def split: if_splits) (auto simp: find_None_iff)
    have "fst c \<le> bw" if mem: "c \<in> set cs" for c
    proof -
      obtain j where "j < length cs" "cs ! j = c" using mem by (auto simp: in_set_conv_nth)
      with sorted_nth_mono [OF assms(1), of j "length cs - 1"] c show ?thesis by (simp add: last_conv_nth)
    qed
    with c no show ?thesis by (metis last_in_set not_le)
  next
    case (Some x)
    then have x: "x = (bw, alt)" using assms(2) by (simp add: choose_alt_def)
    from Some have "?P x" "x \<in> set cs" by (auto simp: find_Some_iff dest: nth_mem)
    with x find_first_sorted [OF assms(1) Some] show ?thesis by fastforce
  qed
  show "(bw, alt) \<in> set cs" "need \<le> unat bw \<or> (\<forall>c \<in> set cs. unat (fst c) < need \<and> fst c \<le> bw)"
    "c \<in> set cs \<Longrightarrow> need \<le> unat (fst c) \<Longrightarrow> need \<le> unat bw \<and> bw \<le> fst c"
    using * by blast+
qed

lemma choose_alt_None: "choose_alt cs need = None \<longleftrightarrow> cs = []"
  by (auto simp: choose_alt_def split: option.split)

lemma set_map_filter: "set (List.map_filter f xs) = {y. \<exists>x \<in> set xs. f x = Some y}"
  by (induction xs) (auto simp: map_filter_simps split: option.splits)

lemma candidate_iff:
  "(bw, alt) \<in> set (alt_candidates g ep) \<longleftrightarrow> 0 < bw \<and> (\<exists>a \<in> set (ig_alt_settings g). \<exists>e. if_endpoint a ep = Some e
     \<and> ep_transfer_type e = Isochronous \<and> bw = iso_bandwidth e \<and> alt = if_alternate_setting a)"
  by (auto simp: alt_candidates_def set_map_filter bind_eq_Some_conv split: if_splits)

section \<open>Integer controls\<close>

definition int_fits :: "nat \<Rightarrow> bool \<Rightarrow> u64 \<Rightarrow> bool" where
  "int_fits n sg v \<longleftrightarrow> (if sg then - (2 ^ (8 * n - 1)) \<le> sint v \<and> sint v < 2 ^ (8 * n - 1) else 0 \<le> sint v \<and> sint v < 2 ^ (8 * n))"

lemma u32_le_low:
  "u32_le (ucast (w :: u32)) 0 0 0 = take_bit 8 w" "u32_le (ucast w) (ucast (drop_bit 8 w)) 0 0 = take_bit 16 w"
  "u32_le (ucast w) (ucast (drop_bit 8 w)) (ucast (drop_bit 16 w)) 0 = take_bit 24 w"
proof -
  have "bit (u32_le (ucast w) 0 0 0) n = bit (take_bit 8 w) n
    \<and> bit (u32_le (ucast w) (ucast (drop_bit 8 w)) 0 0) n = bit (take_bit 16 w) n
    \<and> bit (u32_le (ucast w) (ucast (drop_bit 8 w)) (ucast (drop_bit 16 w)) 0) n = bit (take_bit 24 w) n" if n: "n < LENGTH(32)" for n
  proof -
    consider "n < 8" | "8 \<le> n" "n < 16" | "16 \<le> n" "n < 24" | "24 \<le> n" "n < 32" using n by fastforce
    then show ?thesis by cases (auto simp: u32_le_def bit_simps bit_u8_out)
  qed
  then show "u32_le (ucast w) 0 0 0 = take_bit 8 w" "u32_le (ucast w) (ucast (drop_bit 8 w)) 0 0 = take_bit 16 w"
    "u32_le (ucast w) (ucast (drop_bit 8 w)) (ucast (drop_bit 16 w)) 0 = take_bit 24 w"
    by (intro bit_word_eqI; blast)+
qed

lemma control_int_raw:
  assumes "1 \<le> n" "n \<le> 4" "control_int_bytes n v = Some b"
  shows "uint (u32_le (byte_at (b @ replicate (4 - n) 0) 0) (byte_at (b @ replicate (4 - n) 0) 1)
      (byte_at (b @ replicate (4 - n) 0) 2) (byte_at (b @ replicate (4 - n) 0) 3)) = sint v mod 2 ^ (8 * n)"
proof -
  let ?w = "ucast v :: u32"
  have "uint (take_bit m ?w) = sint v mod 2 ^ m" if "m \<le> 32" for m
  proof -
    have "uint (take_bit m ?w) = take_bit m (take_bit 32 (uint v))"
      by (simp add: unsigned_take_bit_eq unsigned_ucast_eq)
    also have "\<dots> = take_bit m (uint v)" using that by simp
    also have "uint v = take_bit 64 (sint v)" by (simp add: take_bit_signed_take_bit uint_sint)
    also have "take_bit m (take_bit 64 (sint v)) = take_bit m (sint v)" using that by simp
    finally show ?thesis by (simp add: take_bit_eq_mod)
  qed
  note t = this
  have b: "b = take n (le_bytes32 ?w)" using assms(3) by (auto simp: control_int_bytes_def slice_def split: if_splits)
  have "n = 1 \<or> n = 2 \<or> n = 3 \<or> n = 4" using assms(1,2) by linarith
  then show ?thesis
    using t [of 8] t [of 16] t [of 24] t [of 32] take_bit_word_eq_self [of 32 ?w]
    by (elim disjE) (simp_all add: b le_bytes32_def u32_le_low numeral_2_eq_2 [symmetric])
qed

lemma control_int_roundtrip:
  assumes "1 \<le> n" "n \<le> 4" "int_fits n sg v"
  shows "\<exists>b. control_int_bytes n v = Some b \<and> length b = n \<and> control_int (b @ replicate (4 - n) 0) n sg = sint v"
proof -
  obtain b where b: "control_int_bytes n v = Some b" "length b = n"
    using assms(2) by (simp add: control_int_bytes_def slice_def)
  define x where "x = sint v"
  have raw: "control_int (b @ replicate (4 - n) 0) n sg =
      (let raw = x mod 2 ^ (8 * n) in if sg \<and> raw div 2 ^ (8 * n - 1) mod 2 \<noteq> 0 then raw - 2 ^ (8 * n) else raw)"
    using control_int_raw [OF assms(1,2) b(1)]
    by (simp add: control_int_def Let_def x_def drop_bit_eq_div and_one_eq)
  define H :: int where "H = 2 ^ (8 * n - 1)"
  have "8 * n = Suc (8 * n - 1)" using assms(1) by simp
  then have P: "2 ^ (8 * n) = 2 * H" by (metis H_def power_Suc)
  have H: "0 < H" by (simp add: H_def)
  have "control_int (b @ replicate (4 - n) 0) n sg = x"
  proof (cases "x < 0")
    case True
    then have sg: "sg" "- H \<le> x" using assms(3) by (auto simp: int_fits_def x_def [symmetric] H_def split: if_splits)
    have m: "x mod (2 * H) = x + 2 * H" using True sg(2) H mod_pos_pos_trivial [of "x + 2 * H" "2 * H"] by simp
    have "(x + 2 * H) div H = 1" using True sg(2) H by (intro int_div_pos_eq [of _ _ _ "x + H"]) auto
    then show ?thesis using sg(1) unfolding raw P H_def [symmetric] m by (simp add: Let_def)
  next
    case False
    then have l: "x < 2 * H" "sg \<Longrightarrow> x < H" using assms(3) H P by (auto simp: int_fits_def x_def [symmetric] H_def split: if_splits)
    have m: "x mod (2 * H) = x" using False l by simp
    have "sg \<longrightarrow> x div H = 0" using False l by (simp add: div_pos_pos_trivial)
    then show ?thesis unfolding raw P H_def [symmetric] m by (auto simp: Let_def)
  qed
  with b show ?thesis by (simp add: x_def)
qed

end
