(* ===== verification/Win_Enum.thy ===== *)
theory Win_Enum
  imports Usb_Device "HOL-Library.Product_Lexorder" "HOL-Library.List_Lexorder" "HOL-Library.Multiset"
begin

text \<open>
  Enumeration on Windows, \<open>src/src/sys/windows/mod.rs\<close> up to its isochronous part, and the helpers
  of \<open>src/src/sys/windows/ffi.rs\<close> it uses: error codes, registry strings and GUIDs, the hub driver's
  descriptor requests, the climb from a device to its root hub, and the assembled list. The
  configuration manager, the registry and the hub driver are the fields of \<open>win_env\<close>. A Rust
  string is the list of its scalar values, a device instance a number.
\<close>

section \<open>Error codes\<close>

definition win_errno_kind :: "int \<Rightarrow> error_kind" where
  "win_errno_kind code =
     (if code \<in> {2, 3, 1168} then NotFound
      else if code \<in> {5, 32} then Access
      else if code \<in> {1167, 433, 22} then NoDevice
      else if code = 170 then Busy
      else if code \<in> {121, 1460, 258} then Timeout
      else if code = 31 then Pipe
      else if code \<in> {234, 111, 122} then Overflow
      else if code \<in> {87, 6} then InvalidParam
      else if code = 8 then NoMem
      else if code = 995 then Interrupted
      else if code \<in> {50, 1} then NotSupported
      else Io)"

definition win_os_error :: "int \<Rightarrow> usb_error" where
  "win_os_error code = error_from_code (win_errno_kind code) (of_int code)"

section \<open>Strings and GUIDs\<close>

type_synonym wstr = "nat list"

definition wlit :: "string \<Rightarrow> wstr" where
  "wlit s = map of_char s"

text \<open>\<open>to_ascii_uppercase\<close> and \<open>eq_ignore_ascii_case\<close>.\<close>

definition to_upper :: "wstr \<Rightarrow> wstr" where
  "to_upper s = map (\<lambda>c. if 97 \<le> c \<and> c \<le> 122 then c - 32 else c) s"

definition eq_ignore_case :: "wstr \<Rightarrow> wstr \<Rightarrow> bool" where
  "eq_ignore_case a b \<longleftrightarrow> to_upper a = to_upper b"

definition from_wide :: "u16 list \<Rightarrow> wstr" where
  "from_wide buf = utf16_lossy (map unat (takeWhile (\<lambda>u. u \<noteq> 0) buf))"

text \<open>\<open>find(pat)\<close>: where the pattern first occurs; in these ASCII-only uses the position in scalars
  and the byte offset select the same text.\<close>

fun find_sub :: "wstr \<Rightarrow> wstr \<Rightarrow> wstr option" where
  "find_sub pat s = (if take (length pat) s = pat then Some (drop (length pat) s)
     else (case s of [] \<Rightarrow> None | _ # t \<Rightarrow> find_sub pat t))"

declare find_sub.simps [simp del]

definition radix_digit :: "nat \<Rightarrow> nat option" where
  "radix_digit c = (if 48 \<le> c \<and> c \<le> 57 then Some (c - 48)
     else if 65 \<le> c \<and> c \<le> 70 then Some (c - 55)
     else if 97 \<le> c \<and> c \<le> 102 then Some (c - 87) else None)"

text \<open>\<open>from_str_radix(_, 16)\<close> for an unsigned type of largest value \<open>m\<close>: one leading plus sign is
  accepted, an empty string and a lone sign are not.\<close>

fun hex_digits :: "nat \<Rightarrow> nat \<Rightarrow> wstr \<Rightarrow> nat option" where
  "hex_digits m acc [] = Some acc"
| "hex_digits m acc (c # cs) = (case radix_digit c of
      None \<Rightarrow> None
    | Some d \<Rightarrow> if acc * 16 + d > m then None else hex_digits m (acc * 16 + d) cs)"

definition parse_hex :: "nat \<Rightarrow> wstr \<Rightarrow> nat option" where
  "parse_hex m s = (let s = (case s of c # t \<Rightarrow> if c = 43 \<and> t \<noteq> [] then t else s | [] \<Rightarrow> s) in
     if s = [] then None else hex_digits m 0 s)"

text \<open>A string's length in bytes, and the slice between two byte offsets, which panics (\<open>None\<close>)
  inside a character or past the end.\<close>

definition utf8_len :: "nat \<Rightarrow> nat" where
  "utf8_len c = (if c < 0x80 then 1 else if c < 0x800 then 2 else if c < 0x10000 then 3 else 4)"

definition byte_len :: "wstr \<Rightarrow> nat" where
  "byte_len s = sum_list (map utf8_len s)"

fun split_bytes :: "nat \<Rightarrow> wstr \<Rightarrow> (wstr \<times> wstr) option" where
  "split_bytes n [] = (if n = 0 then Some ([], []) else None)"
| "split_bytes n (c # s) = (if n = 0 then Some ([], c # s)
     else if n < utf8_len c then None
     else map_option (\<lambda>(a, b). (c # a, b)) (split_bytes (n - utf8_len c) s))"

definition is_white :: "nat \<Rightarrow> bool" where
  "is_white c \<longleftrightarrow> 9 \<le> c \<and> c \<le> 13 \<or> 0x2000 \<le> c \<and> c \<le> 0x200A
     \<or> c \<in> {32, 0x85, 0xA0, 0x1680, 0x2028, 0x2029, 0x202F, 0x205F, 0x3000}"

definition trim_with :: "(nat \<Rightarrow> bool) \<Rightarrow> (nat \<Rightarrow> bool) \<Rightarrow> wstr \<Rightarrow> wstr" where
  "trim_with p q s = rev (dropWhile q (rev (dropWhile p s)))"

fun split_at :: "'a \<Rightarrow> 'a list \<Rightarrow> 'a list list" where
  "split_at d [] = [[]]"
| "split_at d (c # s) = (if c = d then [] # split_at d s
     else (case split_at d s of h # t \<Rightarrow> (c # h) # t | [] \<Rightarrow> [[c]]))"

record guid =
  gu_data1 :: u32
  gu_data2 :: u16
  gu_data3 :: u16
  gu_data4 :: bytes

text \<open>The bytes of the last two groups; the outer \<open>None\<close> is the panic of the slice.\<close>

fun guid_tail :: "nat \<Rightarrow> wstr \<Rightarrow> bytes option option" where
  "guid_tail 0 s = Some (Some [])"
| "guid_tail (Suc n) s = (case split_bytes 2 s of
      None \<Rightarrow> None
    | Some (a, rest) \<Rightarrow> (case parse_hex 255 a of
        None \<Rightarrow> Some None
      | Some v \<Rightarrow> map_option (map_option ((#) (of_nat v))) (guid_tail n rest)))"

definition guid_parse :: "wstr \<Rightarrow> guid option option" where
  "guid_parse s = (let parts = split_at 45 (trim_with (\<lambda>c. c = 123) (\<lambda>c. c = 125) (trim_with is_white is_white s)) in
     if length parts \<noteq> 5 \<or> byte_len (parts ! 3) \<noteq> 4 \<or> byte_len (parts ! 4) \<noteq> 12 then Some None
     else (case (parse_hex 4294967295 (parts ! 0), parse_hex 65535 (parts ! 1), parse_hex 65535 (parts ! 2)) of
        (Some d1, Some d2, Some d3) \<Rightarrow> map_option (map_option (\<lambda>d4.
            \<lparr>gu_data1 = of_nat d1, gu_data2 = of_nat d2, gu_data3 = of_nat d3, gu_data4 = d4\<rparr>))
          (guid_tail 8 (parts ! 3 @ parts ! 4))
      | _ \<Rightarrow> Some None))"

definition GUID_USB_DEVICE :: guid where
  "GUID_USB_DEVICE = \<lparr>gu_data1 = 0xA5DCBF10, gu_data2 = 0x6530, gu_data3 = 0x11D2,
     gu_data4 = [0x90, 0x1F, 0x00, 0xC0, 0x4F, 0xB9, 0x51, 0xED]\<rparr>"

definition GUID_USB_HUB :: guid where
  "GUID_USB_HUB = \<lparr>gu_data1 = 0xF18A0E88, gu_data2 = 0xC30C, gu_data3 = 0x11D0,
     gu_data4 = [0x88, 0x15, 0x00, 0xA0, 0xC9, 0x06, 0xBE, 0xD8]\<rparr>"

text \<open>\<open>ctl_code\<close>, the codes of the hub driver's requests.\<close>

definition ctl_code :: "u32 \<Rightarrow> u32" where
  "ctl_code f = (push_bit 16 0x22) OR (push_bit 2 f)"

lemma ctl_codes: "ctl_code 260 = 0x220410" "ctl_code 274 = 0x220448" "ctl_code 279 = 0x22045C"
  by (simp_all add: ctl_code_def)

section \<open>What the system answers\<close>

text \<open>
  \<open>we_class\<close> is the result of listing an interface class, \<open>(path, instance)\<close> pairs; \<open>we_paths\<close> the
  buffer of \<open>CM_Get_Device_Interface_ListW\<close>; \<open>we_key\<close> a value of the hardware key, \<open>None\<close> when the
  query fails; \<open>we_connection\<close> and \<open>we_connection2\<close> the two connection requests to an open hub, the
  first with its fields as read; \<open>we_descriptor\<close> the descriptor request, with the number of bytes
  returned, header included, and the bytes after the header.
\<close>

record hub_answer =
  ha_descriptor :: bytes
  ha_config :: u8
  ha_speed :: u8
  ha_address :: u16
  ha_status :: u32

record win_env =
  we_class :: "guid \<Rightarrow> int + (wstr \<times> nat) list"
  we_instance_id :: "nat \<Rightarrow> u16 list option"
  we_parent :: "nat \<Rightarrow> nat option"
  we_children :: "nat \<Rightarrow> nat list"
  we_property :: "nat \<Rightarrow> u32 \<Rightarrow> bytes option"
  we_paths :: "guid \<Rightarrow> wstr \<Rightarrow> u16 list option"
  we_key :: "nat \<Rightarrow> (string \<Rightarrow> bytes option) option"
  we_open_hub :: "wstr \<Rightarrow> int option"
  we_connection :: "wstr \<Rightarrow> u32 \<Rightarrow> hub_answer option"
  we_connection2 :: "wstr \<Rightarrow> u32 \<Rightarrow> u32 option"
  we_descriptor :: "wstr \<Rightarrow> u32 \<Rightarrow> u16 \<Rightarrow> u16 \<Rightarrow> nat \<Rightarrow> int + (nat \<times> bytes)"

abbreviation (input) CM_DRP_HARDWAREID :: u32 where "CM_DRP_HARDWAREID \<equiv> 0x02"
abbreviation (input) CM_DRP_SERVICE :: u32 where "CM_DRP_SERVICE \<equiv> 0x05"
abbreviation (input) CM_DRP_ADDRESS :: u32 where "CM_DRP_ADDRESS \<equiv> 0x1D"

definition instance_id :: "win_env \<Rightarrow> nat \<Rightarrow> wstr option" where
  "instance_id env d = map_option from_wide (we_instance_id env d)"

definition registry_string :: "win_env \<Rightarrow> nat \<Rightarrow> u32 \<Rightarrow> wstr option" where
  "registry_string env d p = map_option (\<lambda>raw. from_wide (le_units raw)) (we_property env d p)"

definition registry_u32 :: "win_env \<Rightarrow> nat \<Rightarrow> u32 \<Rightarrow> u32 option" where
  "registry_u32 env d p = (case we_property env d p of
      None \<Rightarrow> None
    | Some raw \<Rightarrow> (case slice raw 0 4 of Some [a, b, c, d] \<Rightarrow> Some (u32_le a b c d) | _ \<Rightarrow> None))"

definition USB_PREFIX :: wstr where
  "USB_PREFIX = wlit (''USB'' @ [CHR 0x5C])"

definition is_root_hub :: "wstr \<Rightarrow> bool" where
  "is_root_hub i \<longleftrightarrow> (let p = USB_PREFIX @ wlit ''ROOT_HUB'' in take (length p) (to_upper i) = p)"

definition interface_paths :: "win_env \<Rightarrow> guid \<Rightarrow> wstr \<Rightarrow> wstr list" where
  "interface_paths env g i = (case we_paths env g i of
      None \<Rightarrow> []
    | Some buf \<Rightarrow> map (\<lambda>u. utf16_lossy (map unat u)) (filter (\<lambda>s. s \<noteq> []) (split_at 0 buf)))"

text \<open>\<open>device_interface_guids\<close>: the value is read into a buffer four bytes longer, zero filled.\<close>

fun collect_guids :: "wstr list \<Rightarrow> guid list option" where
  "collect_guids [] = Some []"
| "collect_guids (s # ss) = (case guid_parse s of
      None \<Rightarrow> None
    | Some g \<Rightarrow> map_option (\<lambda>gs. (case g of Some g \<Rightarrow> [g] | None \<Rightarrow> []) @ gs) (collect_guids ss))"

fun guids_of_names :: "(string \<Rightarrow> bytes option) \<Rightarrow> string list \<Rightarrow> guid list option" where
  "guids_of_names key [] = Some []"
| "guids_of_names key (n # ns) = (case key n of
      None \<Rightarrow> guids_of_names key ns
    | Some raw \<Rightarrow> (case collect_guids (map (\<lambda>u. utf16_lossy (map unat u)) (split_at 0 (le_units (raw @ [0, 0, 0, 0])))) of
        None \<Rightarrow> None
      | Some [] \<Rightarrow> guids_of_names key ns
      | Some gs \<Rightarrow> Some gs))"

definition device_interface_guids :: "win_env \<Rightarrow> nat \<Rightarrow> guid list option" where
  "device_interface_guids env d = (case we_key env d of
      None \<Rightarrow> Some []
    | Some key \<Rightarrow> guids_of_names key [''DeviceInterfaceGUIDs'', ''DeviceInterfaceGUID''])"

section \<open>Requests through the hub\<close>

record connection_info =
  ci_descriptor :: bytes
  ci_config :: u8
  ci_speed :: speed
  ci_address :: u16

definition hub_connection_info :: "win_env \<Rightarrow> wstr \<Rightarrow> u32 \<Rightarrow> connection_info option" where
  "hub_connection_info env hub port = (case we_connection env hub port of
      None \<Rightarrow> None
    | Some a \<Rightarrow> if ha_status a \<noteq> 1 then None else
        (let sp = (if ha_speed a = 0 then SpeedLow else if ha_speed a = 1 then SpeedFull
                   else if ha_speed a = 2 then SpeedHigh else if ha_speed a = 3 then SpeedSuper
                   else SpeedUnknown);
             sp = (case we_connection2 env hub port of
                     None \<Rightarrow> sp
                   | Some flags \<Rightarrow> if flags AND 4 \<noteq> 0 then SpeedSuperPlus
                       else if flags AND 1 \<noteq> 0 then SpeedSuper else sp)
         in Some \<lparr>ci_descriptor = ha_descriptor a, ci_config = ha_config a, ci_speed = sp,
              ci_address = ha_address a\<rparr>))"

text \<open>\<open>hub_get_descriptor\<close> into the buffer \<open>out\<close>: the bytes placed, and the buffer afterwards. The
  request structure in front of the data is 12 bytes long.\<close>

definition hub_get_descriptor ::
  "win_env \<Rightarrow> wstr \<Rightarrow> u32 \<Rightarrow> u16 \<Rightarrow> u16 \<Rightarrow> bytes \<Rightarrow> (nat \<times> bytes) result" where
  "hub_get_descriptor env hub port v i out =
     (let len = min (length out) 65535 in
      case we_descriptor env hub port v i len of
        Inl e \<Rightarrow> Inl (win_os_error e)
      | Inr (returned, data) \<Rightarrow> (let n = min (returned - 12) len in
          Ok (n, take n (resize len data) @ drop n out)))"

definition open_hub :: "win_env \<Rightarrow> wstr \<Rightarrow> wstr result" where
  "open_hub env path = (case we_open_hub env path of None \<Rightarrow> Ok path | Some e \<Rightarrow> Inl (win_os_error e))"

text \<open>The loop of \<open>hub_config_descriptors\<close> over the indices from \<open>i\<close>; it ends at the first request
  that fails. \<open>None\<close> would be a panic of the splitting.\<close>

function hub_configs_from :: "win_env \<Rightarrow> wstr \<Rightarrow> u32 \<Rightarrow> nat \<Rightarrow> nat \<Rightarrow> bytes list option" where
  "hub_configs_from env hub port howmany i =
     (if i \<ge> howmany then Some []
      else let v = push_bit 8 (ucast DT_CONFIG) OR of_nat i in
        case hub_get_descriptor env hub port v 0 (replicate 9 0) of
          Inl e \<Rightarrow> Some []
        | Inr (n, head) \<Rightarrow> if n \<noteq> 9 then Some [] else
            (let total = unat (u16_le (head ! 2) (head ! 3)) in
             case hub_get_descriptor env hub port v 0 (replicate (max total 9) 0) of
               Inl e \<Rightarrow> Some []
             | Inr (n, full) \<Rightarrow> (case split_config_descriptors (take n full) of
                 None \<Rightarrow> None
               | Some cs \<Rightarrow> map_option (\<lambda>rest. take 1 cs @ rest) (hub_configs_from env hub port howmany (i + 1)))))"
  by pat_completeness auto
termination by (relation "measure (\<lambda>(env, hub, port, howmany, i). howmany - i)") auto

declare hub_configs_from.simps [simp del]

definition hub_config_descriptors :: "win_env \<Rightarrow> wstr \<Rightarrow> u32 \<Rightarrow> u8 \<Rightarrow> bytes list option" where
  "hub_config_descriptors env hub port howmany = hub_configs_from env hub port (unat howmany) 0"

record win_function =
  wf_first_interface :: u8
  wf_path :: wstr

record win_location =
  wl_path :: wstr
  wl_hub_path :: "wstr option"
  wl_port :: u32
  wl_winusb :: bool
  wl_functions :: "win_function list"

text \<open>\<open>read_serial_number\<close>: the outer \<open>None\<close> is a panic of the string decoder.\<close>

definition win_read_serial :: "win_env \<Rightarrow> win_location device_info \<Rightarrow> wstr option option" where
  "win_read_serial env d = (let i = dd_serial_number (di_descriptor d) in
     if i = 0 then Some None
     else case wl_hub_path (di_location d) of
       None \<Rightarrow> Some None
     | Some path \<Rightarrow> (case open_hub env path of
         Inl e \<Rightarrow> Some None
       | Inr hub \<Rightarrow>
           (let port = wl_port (di_location d);
                string = push_bit 8 (ucast DT_STRING) :: u16;
                buf0 = replicate 255 0;
                head = hub_get_descriptor env hub port string 0 buf0;
                langs = (case head of
                    Inl e \<Rightarrow> Some (0x0409, buf0)
                  | Inr (n, buf) \<Rightarrow> (case decode_language_ids (take n buf) of
                      None \<Rightarrow> None
                    | Some (Inr (l # _)) \<Rightarrow> Some (l, buf)
                    | Some _ \<Rightarrow> Some (0x0409, buf)))
            in case langs of
                 None \<Rightarrow> None
               | Some (lang, buf) \<Rightarrow> (case hub_get_descriptor env hub port (string OR ucast i) lang buf of
                   Inl e \<Rightarrow> Some None
                 | Inr (n, buf) \<Rightarrow> map_option (\<lambda>r. case r of Inr s \<Rightarrow> Some s | Inl e \<Rightarrow> None)
                     (decode_string_descriptor (take n buf))))))"

section \<open>Devices\<close>

record root_hub =
  rh_devinst :: nat
  rh_bus :: u8
  rh_path :: wstr
  rh_instance :: wstr

text \<open>A number after a marker in a hardware id: four hexadecimal digits.\<close>

definition hex_after :: "wstr \<Rightarrow> wstr \<Rightarrow> u16" where
  "hex_after marker upper = (case find_sub marker upper of
      None \<Rightarrow> 0
    | Some rest \<Rightarrow> if length rest < 4 then 0
        else (case parse_hex 65535 (take 4 rest) of Some v \<Rightarrow> of_nat v | None \<Rightarrow> 0))"

definition root_hub_info :: "win_env \<Rightarrow> root_hub \<Rightarrow> win_location device_info" where
  "root_hub_info env r =
     (let super = find_sub (wlit ''ROOT_HUB3'') (to_upper (rh_instance r)) \<noteq> None;
          upper = (case we_parent env (rh_devinst r) of
              None \<Rightarrow> []
            | Some p \<Rightarrow> (case registry_string env p CM_DRP_HARDWAREID of None \<Rightarrow> [] | Some h \<Rightarrow> to_upper h));
          desc = \<lparr>dd_usb_version = Version (if super then 0x0300 else 0x0200), dd_class = 0x09,
              dd_sub_class = 0, dd_protocol = (if super then 3 else 1),
              dd_max_packet_size_0 = (if super then 9 else 64),
              dd_vendor_id = hex_after (wlit ''VEN_'') upper, dd_product_id = hex_after (wlit ''DEV_'') upper,
              dd_device_version = Version 0, dd_manufacturer = 0, dd_product = 0,
              dd_serial_number = 0, dd_num_configurations = 1\<rparr>
      in \<lparr>di_bus_number = rh_bus r, di_address = 0, di_port_numbers = [],
          di_speed = (if super then SpeedSuper else SpeedHigh), di_descriptor = desc, di_configs = [],
          di_active_config = Some 1,
          di_location = \<lparr>wl_path = rh_path r, wl_hub_path = None, wl_port = 0, wl_winusb = False,
            wl_functions = []\<rparr>\<rparr>)"

text \<open>The hub path is looked for at each level until one is found.\<close>

definition hub_seen :: "win_env \<Rightarrow> nat \<Rightarrow> wstr option \<Rightarrow> wstr option option" where
  "hub_seen env p hub = (if hub = None
     then map_option (\<lambda>i. case interface_paths env GUID_USB_HUB i of h # _ \<Rightarrow> Some h | [] \<Rightarrow> None) (instance_id env p)
     else Some hub)"

text \<open>The climb of \<open>describe_device\<close>: \<open>ports\<close> are the ports seen so far, the last one first as they
  are pushed, and \<open>hub\<close> the path of the hub. The result is the bus, the ports in order from the root
  and the hub path.\<close>

function climb :: "win_env \<Rightarrow> root_hub list \<Rightarrow> nat \<Rightarrow> u8 list \<Rightarrow> wstr option \<Rightarrow> (u8 \<times> u8 list \<times> wstr option) option" where
  "climb env roots cur ports hub =
     (case registry_u32 env cur CM_DRP_ADDRESS of
        None \<Rightarrow> None
      | Some a \<Rightarrow> (let ports = ucast a # ports in
          case we_parent env cur of
            None \<Rightarrow> None
          | Some p \<Rightarrow>
              (case hub_seen env p hub of
                 None \<Rightarrow> None
               | Some hub \<Rightarrow>
                   (case find (\<lambda>r. rh_devinst r = p) roots of
                      Some r \<Rightarrow> Some (rh_bus r, ports, hub)
                    | None \<Rightarrow> (case instance_id env p of
                        None \<Rightarrow> None
                      | Some i \<Rightarrow> (let pre = USB_PREFIX in
                          if take (length pre) (to_upper i) \<noteq> pre then None
                          else if length ports > 7 then None
                          else climb env roots p ports hub))))))"
  by pat_completeness auto
termination by (relation "measure (\<lambda>(env, roots, cur, ports, hub). 8 - length ports)") auto

declare climb.simps [simp del]

text \<open>The WinUSB functions of a composite device, children in order; \<open>None\<close> is a panic of
  \<open>GUID::parse\<close>.\<close>

fun child_functions :: "win_env \<Rightarrow> nat list \<Rightarrow> win_function list option" where
  "child_functions env [] = Some []"
| "child_functions env (c # cs) = (case instance_id env c of
      None \<Rightarrow> child_functions env cs
    | Some i \<Rightarrow>
        if \<not> eq_ignore_case (case registry_string env c CM_DRP_SERVICE of Some s \<Rightarrow> s | None \<Rightarrow> []) (wlit ''WinUSB'')
        then child_functions env cs
        else (case find_sub (wlit ''&MI_'') (to_upper i) of
            None \<Rightarrow> child_functions env cs
          | Some rest \<Rightarrow> (case (if length rest < 2 then None else parse_hex 255 (take 2 rest)) of
              None \<Rightarrow> child_functions env cs
            | Some first \<Rightarrow> (case device_interface_guids env c of
                None \<Rightarrow> None
              | Some gs \<Rightarrow> (case concat (map (\<lambda>g. interface_paths env g i) gs) of
                  [] \<Rightarrow> child_functions env cs
                | path # _ \<Rightarrow> map_option ((#) \<lparr>wf_first_interface = of_nat first, wf_path = path\<rparr>)
                    (child_functions env cs))))))"

text \<open>\<open>*ports_rev.last()? as u32\<close>; the climb pushes at least one port.\<close>

definition own_port :: "u8 list \<Rightarrow> u32" where
  "own_port ports = ucast (last ports)"

text \<open>\<open>describe_device\<close>: the outer \<open>None\<close> is a panic, the inner one a device left out.\<close>

definition describe_device ::
  "win_env \<Rightarrow> root_hub list \<Rightarrow> wstr \<Rightarrow> nat \<Rightarrow> win_location device_info option option" where
  "describe_device env roots path d = (case climb env roots d [] None of
      Some (bus, ports, Some hub_path) \<Rightarrow>
        (let port = own_port ports in
         case open_hub env hub_path of
           Inl e \<Rightarrow> Some None
         | Inr hub \<Rightarrow> (case hub_connection_info env hub port of
             None \<Rightarrow> Some None
           | Some conn \<Rightarrow> (case device_from_bytes (ci_descriptor conn) of
               None \<Rightarrow> None
             | Some (Inl e) \<Rightarrow> Some None
             | Some (Inr desc) \<Rightarrow> (case hub_config_descriptors env hub port (dd_num_configurations desc) of
                 None \<Rightarrow> None
               | Some configs \<Rightarrow>
                   (let service = (case registry_string env d CM_DRP_SERVICE of Some s \<Rightarrow> s | None \<Rightarrow> []) in
                    case (if eq_ignore_case service (wlit ''usbccgp'')
                          then map_option (sort_key wf_first_interface) (child_functions env (we_children env d))
                          else Some []) of
                      None \<Rightarrow> None
                    | Some functions \<Rightarrow> Some (Some
                        \<lparr>di_bus_number = bus, di_address = of_nat (min (unat (ci_address conn)) 255),
                         di_port_numbers = ports, di_speed = ci_speed conn, di_descriptor = desc,
                         di_configs = configs, di_active_config = Some (ci_config conn),
                         di_location = \<lparr>wl_path = path, wl_hub_path = Some hub_path, wl_port = port,
                           wl_winusb = eq_ignore_case service (wlit ''WinUSB''), wl_functions = functions\<rparr>\<rparr>))))))
    | _ \<Rightarrow> Some None)"

text \<open>\<open>enumerate\<close>. The roots are numbered in the order of their instance names, compared as Rust
  compares strings.\<close>

definition number_roots :: "root_hub list \<Rightarrow> root_hub list" where
  "number_roots roots = map (\<lambda>(i, r). r\<lparr>rh_bus := of_nat (min (i + 1) 255)\<rparr>)
     (enumerate 0 (sort_key rh_instance roots))"

definition root_of :: "win_env \<Rightarrow> wstr \<times> nat \<Rightarrow> root_hub option" where
  "root_of env p = (case instance_id env (snd p) of
      None \<Rightarrow> None
    | Some i \<Rightarrow> if is_root_hub i
        then Some \<lparr>rh_devinst = snd p, rh_bus = 0, rh_path = fst p, rh_instance = i\<rparr> else None)"

fun candidates_from ::
  "win_env \<Rightarrow> root_hub list \<Rightarrow> nat list \<Rightarrow> (wstr \<times> nat) list \<Rightarrow> win_location device_info list option" where
  "candidates_from env roots seen [] = Some []"
| "candidates_from env roots seen ((path, d) # rest) =
     (if d \<in> set seen then candidates_from env roots seen rest
      else case instance_id env d of
        None \<Rightarrow> candidates_from env roots (d # seen) rest
      | Some i \<Rightarrow> if is_root_hub i then candidates_from env roots (d # seen) rest
          else (case describe_device env roots path d of
              None \<Rightarrow> None
            | Some r \<Rightarrow> map_option (\<lambda>ds. (case r of Some x \<Rightarrow> [x] | None \<Rightarrow> []) @ ds)
                (candidates_from env roots (d # seen) rest)))"

definition win_enumerate :: "win_env \<Rightarrow> win_location device_info list result option" where
  "win_enumerate env = (case we_class env GUID_USB_HUB of
      Inl e \<Rightarrow> Some (Inl (win_os_error e))
    | Inr hubs \<Rightarrow> (case we_class env GUID_USB_DEVICE of
        Inl e \<Rightarrow> Some (Inl (win_os_error e))
      | Inr devs \<Rightarrow>
          (let roots = number_roots (List.map_filter (root_of env) hubs) in
           map_option (\<lambda>ds. Ok (sort_key (\<lambda>d. (di_bus_number d, di_address d)) (map (root_hub_info env) roots @ ds)))
             (candidates_from env roots [] (devs @ hubs)))))"

section \<open>The documented identifiers\<close>

lemma wlit_simps [simp]: "wlit [] = []" "wlit (c # cs) = of_char c # wlit cs"
  by (simp_all add: wlit_def)

lemma guid_tail_eight: "guid_tail 8 = guid_tail (Suc (Suc (Suc (Suc (Suc (Suc (Suc (Suc 0))))))))"
  by (simp add: eval_nat_numeral)

lemma guid_constants_parse:
  "guid_parse (wlit ''{A5DCBF10-6530-11D2-901F-00C04FB951ED}'') = Some (Some GUID_USB_DEVICE)"
  by (simp add: guid_parse_def trim_with_def is_white_def byte_len_def utf8_len_def parse_hex_def radix_digit_def
      GUID_USB_DEVICE_def Let_def guid_tail_eight)

text \<open>Two letters with an accent in the fourth group: the group is four bytes long, but its middle
  falls inside a character.\<close>

lemma guid_parse_panics: "guid_parse (wlit ''0-0-0-1'' @ [0xE9] @ wlit ''1-000000000000'') = None"
  by (simp add: guid_parse_def trim_with_def is_white_def byte_len_def utf8_len_def parse_hex_def radix_digit_def
      Let_def guid_tail_eight)

section \<open>Nothing but a GUID panics\<close>

lemma hub_configs_total: "\<exists>cs. hub_configs_from env hub port howmany i = Some cs"
proof (induction "howmany - i" arbitrary: i)
  case 0
  then show ?case by (subst hub_configs_from.simps) simp
next
  case (Suc k)
  then obtain rest where rest: "hub_configs_from env hub port howmany (i + 1) = Some rest"
    by (metis Suc_eq_plus1 add_diff_cancel_left' diff_Suc_eq_diff_pred diff_diff_left plus_1_eq_Suc)
  have split: "\<exists>cs. split_config_descriptors x = Some cs" for x using split_config_total by blast
  define v :: u16 where "v = 512 OR of_nat i"
  show ?case
  proof (cases "hub_get_descriptor env hub port v 0 (replicate 9 0)")
    case (Inl e)
    then show ?thesis by (subst hub_configs_from.simps) (simp add: Let_def v_def [symmetric])
  next
    case (Inr nh)
    obtain n head where nh: "nh = (n, head)" by (cases nh)
    define total where "total = unat (u16_le (head ! 2) (head ! 3))"
    show ?thesis
    proof (cases "hub_get_descriptor env hub port v 0 (replicate (max total 9) 0)")
      case (Inl e)
      then show ?thesis using Inr nh
        by (subst hub_configs_from.simps) (simp add: Let_def v_def [symmetric] total_def [symmetric])
    next
      case full: (Inr nf)
      obtain n' f where nf: "nf = (n', f)" by (cases nf)
      obtain cs where "split_config_descriptors (take n' f) = Some cs" using split by blast
      then show ?thesis using Inr nh full nf rest
        by (subst hub_configs_from.simps) (simp add: Let_def v_def [symmetric] total_def [symmetric])
    qed
  qed
qed

lemma child_functions_total:
  assumes "\<And>c. device_interface_guids env c \<noteq> None"
  shows "\<exists>fs. child_functions env cs = Some fs"
proof (induction cs)
  case (Cons c cs)
  then obtain fs where fs: "child_functions env cs = Some fs" by blast
  obtain gs where gs: "device_interface_guids env c = Some gs" using assms by (meson not_None_eq)
  show ?case by (simp add: fs gs split: option.split list.split)
qed simp

lemma describe_total:
  assumes "\<And>c. device_interface_guids env c \<noteq> None"
  shows "\<exists>r. describe_device env roots path d = Some r"
proof (cases "\<exists>bus ports hp. climb env roots d [] None = Some (bus, ports, Some hp)")
  case False
  then show ?thesis by (auto simp: describe_device_def split: option.split)
next
  case True
  then obtain bus ports hp where climb: "climb env roots d [] None = Some (bus, ports, Some hp)" by blast
  obtain fs where fs: "child_functions env (we_children env d) = Some fs"
    using child_functions_total [OF assms] by blast
  show ?thesis
  proof (cases "open_hub env hp")
    case (Inl e)
    then show ?thesis by (simp add: describe_device_def climb)
  next
    case hub: (Inr hub)
    show ?thesis
    proof (cases "hub_connection_info env hub (own_port ports)")
      case None
      then show ?thesis by (simp add: describe_device_def climb hub Let_def)
    next
      case (Some conn)
      obtain r where r: "device_from_bytes (ci_descriptor conn) = Some r" using device_from_bytes_total by blast
      show ?thesis
      proof (cases r)
        case (Inl e)
        then show ?thesis by (simp add: describe_device_def climb hub Let_def Some r)
      next
        case (Inr desc)
        obtain cs where "hub_config_descriptors env hub (own_port ports) (dd_num_configurations desc) = Some cs"
          unfolding hub_config_descriptors_def using hub_configs_total by blast
        then show ?thesis using Inr
          by (simp add: describe_device_def climb hub Let_def Some r fs)
      qed
    qed
  qed
qed

section \<open>Bus and ports name the device\<close>

definition port_of :: "win_env \<Rightarrow> nat \<Rightarrow> u8 option" where
  "port_of env d = map_option ucast (registry_u32 env d CM_DRP_ADDRESS)"

inductive port_path :: "win_env \<Rightarrow> root_hub list \<Rightarrow> nat \<Rightarrow> u8 list \<Rightarrow> u8 \<Rightarrow> bool" for env roots where
  under_root: "we_parent env d = Some p \<Longrightarrow> find (\<lambda>r. rh_devinst r = p) roots = Some r \<Longrightarrow>
    port_of env d = Some a \<Longrightarrow> port_path env roots d [a] (rh_bus r)"
| under_hub: "we_parent env d = Some p \<Longrightarrow> find (\<lambda>r. rh_devinst r = p) roots = None \<Longrightarrow>
    port_of env d = Some a \<Longrightarrow> port_path env roots p ps bus \<Longrightarrow> port_path env roots d (ps @ [a]) bus"

lemma climb_step:
  assumes "climb env roots cur acc hub = Some res"
  obtains a p hub' where "registry_u32 env cur CM_DRP_ADDRESS = Some a" "we_parent env cur = Some p"
    "hub_seen env p hub = Some hub'"
    "(\<exists>r. find (\<lambda>r. rh_devinst r = p) roots = Some r \<and> res = (rh_bus r, ucast a # acc, hub'))
     \<or> (find (\<lambda>r. rh_devinst r = p) roots = None \<and> length acc < 7
        \<and> climb env roots p (ucast a # acc) hub' = Some res)"
proof -
  from assms obtain a where a: "registry_u32 env cur CM_DRP_ADDRESS = Some a"
    by (subst (asm) climb.simps) (cases "registry_u32 env cur CM_DRP_ADDRESS", simp_all)
  from assms obtain p where p: "we_parent env cur = Some p"
    by (subst (asm) climb.simps) (cases "we_parent env cur", simp_all add: a)
  from assms obtain hub' where h: "hub_seen env p hub = Some hub'"
    by (subst (asm) climb.simps) (cases "hub_seen env p hub", simp_all add: a p Let_def)
  show thesis
  proof (cases "find (\<lambda>r. rh_devinst r = p) roots")
    case (Some r)
    with assms have "res = (rh_bus r, ucast a # acc, hub')"
      by (subst (asm) climb.simps) (simp add: a p h)
    with Some that [OF a p h] show thesis by blast
  next
    case None
    with assms obtain i where i: "instance_id env p = Some i"
      by (subst (asm) climb.simps) (cases "instance_id env p", simp_all add: a p h)
    from assms None have "length acc < 7 \<and> climb env roots p (ucast a # acc) hub' = Some res"
      by (subst (asm) climb.simps) (simp add: a p h i Let_def split: if_splits)
    with None that [OF a p h] show thesis by blast
  qed
qed

lemma climb_path:
  "climb env roots cur acc hub = Some (bus, ports, h) \<Longrightarrow> length acc \<le> 7 \<Longrightarrow>
     \<exists>ps. ports = ps @ acc \<and> port_path env roots cur ps bus \<and> length ports \<le> 8"
proof (induction "8 - length acc" arbitrary: cur acc hub rule: less_induct)
  case less
  obtain a p hub' where s: "registry_u32 env cur CM_DRP_ADDRESS = Some a" "we_parent env cur = Some p"
    "(\<exists>r. find (\<lambda>r. rh_devinst r = p) roots = Some r \<and> (bus, ports, h) = (rh_bus r, ucast a # acc, hub'))
     \<or> (find (\<lambda>r. rh_devinst r = p) roots = None \<and> length acc < 7
        \<and> climb env roots p (ucast a # acc) hub' = Some (bus, ports, h))"
    by (rule climb_step [OF less.prems(1)]) blast
  have po: "port_of env cur = Some (ucast a)" by (simp add: port_of_def s(1))
  from s(3) show ?case
  proof
    assume "\<exists>r. find (\<lambda>r. rh_devinst r = p) roots = Some r \<and> (bus, ports, h) = (rh_bus r, ucast a # acc, hub')"
    then obtain r where r: "find (\<lambda>r. rh_devinst r = p) roots = Some r" "bus = rh_bus r" "ports = [ucast a] @ acc" by auto
    show ?thesis
      using port_path.under_root [OF s(2) r(1) po] r less.prems(2) by (intro exI [of _ "[ucast a]"]) simp
  next
    assume n: "find (\<lambda>r. rh_devinst r = p) roots = None \<and> length acc < 7
        \<and> climb env roots p (ucast a # acc) hub' = Some (bus, ports, h)"
    then have "8 - length (ucast a # acc :: u8 list) < 8 - length acc" "length (ucast a # acc :: u8 list) \<le> 7" by auto
    then obtain ps where "ports = ps @ ucast a # acc" "port_path env roots p ps bus" "length ports \<le> 8"
      using less.hyps [of "ucast a # acc" p hub'] n by blast
    then show ?thesis
      using port_path.under_hub [OF s(2) _ po, of roots ps bus] n by (intro exI [of _ "ps @ [ucast a]"]) simp
  qed
qed

lemma port_path_ne: "port_path env roots d ps bus \<Longrightarrow> ps \<noteq> []"
  by (induction rule: port_path.induct) simp_all

text \<open>What a USB bus guarantees: no two devices share a port of the same parent.\<close>

definition ports_distinct :: "win_env \<Rightarrow> bool" where
  "ports_distinct env \<longleftrightarrow> (\<forall>d e p a. we_parent env d = Some p \<and> we_parent env e = Some p
     \<and> port_of env d = Some a \<and> port_of env e = Some a \<longrightarrow> d = e)"

lemma port_path_inj:
  assumes "ports_distinct env" and buses: "distinct (map rh_bus roots)"
  shows "port_path env roots d ps bus \<Longrightarrow> port_path env roots e ps bus \<Longrightarrow> d = e"
proof (induction arbitrary: e rule: port_path.induct)
  case (under_root d p r a)
  from under_root.prems show ?case
  proof (cases rule: port_path.cases)
    case (under_root p' r')
    then have "r = r'" using \<open>find (\<lambda>r. rh_devinst r = p) roots = Some r\<close> buses
      by (auto simp: find_Some_iff distinct_conv_nth)
    then have "p = p'" using \<open>find (\<lambda>r. rh_devinst r = p) roots = Some r\<close> under_root
      by (auto simp: find_Some_iff)
    then show ?thesis using under_root \<open>we_parent env d = Some p\<close> \<open>port_of env d = Some a\<close> assms(1)
      by (auto simp: ports_distinct_def)
  next
    case (under_hub p' a' ps')
    then show ?thesis using port_path_ne [of env roots p' ps' "rh_bus r"] by auto
  qed
next
  case (under_hub d p a ps bus)
  from under_hub.prems show ?case
  proof (cases rule: port_path.cases)
    case (under_root p' r' a')
    then show ?thesis using port_path_ne [OF under_hub.hyps(4)] by auto
  next
    case (under_hub p' a' ps')
    then have "p = p'" using under_hub.IH by auto
    then show ?thesis using under_hub \<open>we_parent env d = Some p\<close> \<open>port_of env d = Some a\<close> assms(1)
      by (auto simp: ports_distinct_def)
  qed
qed

lemma describe_path:
  assumes "describe_device env roots path d = Some (Some x)"
  shows "port_path env roots d (di_port_numbers x) (di_bus_number x)" "length (di_port_numbers x) \<le> 8"
proof -
  obtain bus ports hp where c: "climb env roots d [] None = Some (bus, ports, Some hp)"
    and x: "di_port_numbers x = ports" "di_bus_number x = bus"
    using assms by (auto simp: describe_device_def Let_def split: option.splits prod.splits sum.splits)
  from climb_path [OF c] show "port_path env roots d (di_port_numbers x) (di_bus_number x)"
    "length (di_port_numbers x) \<le> 8" by (auto simp: x)
qed

lemma candidates_paths:
  "candidates_from env roots seen cs = Some ds \<Longrightarrow>
     \<exists>es. distinct es \<and> set es \<inter> set seen = {} \<and>
       list_all2 (\<lambda>x e. port_path env roots e (di_port_numbers x) (di_bus_number x)) ds es"
proof (induction env roots seen cs arbitrary: ds rule: candidates_from.induct)
  case (1 env roots seen)
  then show ?case by auto
next
  case (2 env roots seen path d rest)
  show ?case
  proof (cases "d \<in> set seen")
    case True
    then show ?thesis using 2(1) [OF True] 2(5) by simp
  next
    case False
    note skip = 2(2) [OF False] and root = 2(3) [OF False] and dev = 2(4) [OF False] and c = 2(5)
    have weaken: "\<exists>es. distinct es \<and> set es \<inter> set seen = {} \<and> list_all2 P ds es"
      if "\<exists>es. distinct es \<and> set es \<inter> set (d # seen) = {} \<and> list_all2 P ds es" for P
      using that by auto
    show ?thesis
    proof (cases "instance_id env d")
      case None
      then show ?thesis using skip [OF None] c False by (intro weaken) simp
    next
      case (Some i)
      show ?thesis
      proof (cases "is_root_hub i")
        case True
        then show ?thesis using root [OF Some True] c False Some by (intro weaken) simp
      next
        case nr: False
        from c False Some nr obtain r xs where r: "describe_device env roots path d = Some r"
          and xs: "candidates_from env roots (d # seen) rest = Some xs"
          and ds: "ds = (case r of Some x \<Rightarrow> [x] | None \<Rightarrow> []) @ xs"
          by (cases "describe_device env roots path d"; cases "candidates_from env roots (d # seen) rest") auto
        from dev [OF Some nr r xs] obtain es where es: "distinct es" "set es \<inter> set (d # seen) = {}"
          "list_all2 (\<lambda>x e. port_path env roots e (di_port_numbers x) (di_bus_number x)) xs es" by blast
        show ?thesis
        proof (cases r)
          case None
          then show ?thesis using es ds by (intro weaken) auto
        next
          case (Some x)
          with r describe_path [of env roots path d x] es ds False show ?thesis
            by (intro exI [of _ "d # es"]) auto
        qed
      qed
    qed
  qed
qed

lemma number_roots_buses: "length roots \<le> 255 \<Longrightarrow> distinct (map rh_bus (number_roots roots))"
proof -
  assume l: "length roots \<le> 255"
  let ?rs = "sort_key rh_instance roots"
  have "map rh_bus (number_roots roots) = map (\<lambda>i. of_nat (min (i + 1) 255)) [0..<length roots]"
    by (rule nth_equalityI) (simp_all add: number_roots_def nth_enumerate_eq)
  moreover have "inj_on (\<lambda>i. of_nat (min (i + 1) 255) :: u8) {0..<length roots}"
  proof (rule inj_onI)
    fix i j assume ij: "i \<in> {0..<length roots}" "j \<in> {0..<length roots}"
      "(of_nat (min (i + 1) 255) :: u8) = of_nat (min (j + 1) 255)"
    then have "unat (of_nat (i + 1) :: u8) = unat (of_nat (j + 1) :: u8)" using l by (simp add: min_def)
    moreover have small: "unat (of_nat n :: u8) = n" if "n < 256" for n
      using that by (simp add: unsigned_of_nat take_bit_eq_mod)
    moreover have "i + 1 < 256" "j + 1 < 256" using ij l by auto
    from this [THEN small] have "unat (of_nat (i + 1) :: u8) = i + 1" "unat (of_nat (j + 1) :: u8) = j + 1" .
    ultimately show "i = j" by simp
  qed
  ultimately show ?thesis by (simp add: distinct_map)
qed

lemma list_all2_distinct:
  assumes "list_all2 P xs es" "distinct es" "\<And>x y d e. P x d \<Longrightarrow> P y e \<Longrightarrow> f x = f y \<Longrightarrow> d = e"
  shows "distinct (map f xs)"
  using assms(1,2)
proof (induction rule: list_all2_induct)
  case (Cons x xs e es)
  have "f x \<notin> f ` set xs"
  proof
    assume "f x \<in> f ` set xs"
    then obtain y where y: "y \<in> set xs" "f y = f x" by auto
    then obtain d where "d \<in> set es" "P y d"
      using \<open>list_all2 P xs es\<close> by (metis in_set_conv_nth list_all2_conv_all_nth)
    then show False using assms(3) [of x e y d] Cons y by auto
  qed
  with Cons show ?case by simp
qed simp

lemma enumerate_names:
  assumes e: "win_enumerate env = Some (Ok ds)" and "ports_distinct env"
    and roots: "\<And>hubs. we_class env GUID_USB_HUB = Inr hubs \<Longrightarrow> length hubs \<le> 255"
  shows "sorted (map (\<lambda>d. (di_bus_number d, di_address d)) ds)"
    and "distinct (map (\<lambda>d. (di_bus_number d, di_port_numbers d)) ds)"
proof -
  from e obtain hubs devs xs where h: "we_class env GUID_USB_HUB = Inr hubs"
    and xs: "candidates_from env (number_roots (List.map_filter (root_of env) hubs)) [] (devs @ hubs) = Some xs"
    and ds: "ds = sort_key (\<lambda>d. (di_bus_number d, di_address d))
        (map (root_hub_info env) (number_roots (List.map_filter (root_of env) hubs)) @ xs)"
    by (auto simp: win_enumerate_def Let_def split: sum.splits)
  define rs where "rs = number_roots (List.map_filter (root_of env) hubs)"
  show "sorted (map (\<lambda>d. (di_bus_number d, di_address d)) ds)" by (simp add: ds)
  have "length (List.map_filter (root_of env) hubs) \<le> 255"
    using roots [OF h] by (simp add: List.map_filter_def) (meson le_trans length_filter_le)
  then have buses: "distinct (map rh_bus rs)" unfolding rs_def by (rule number_roots_buses)
  obtain es where es: "distinct es"
    "list_all2 (\<lambda>x e. port_path env rs e (di_port_numbers x) (di_bus_number x)) xs es"
    using candidates_paths [OF xs] by (auto simp: rs_def)
  define f where "f = (\<lambda>d :: win_location device_info. (di_bus_number d, di_port_numbers d))"
  have dx: "distinct (map f xs)"
    by (rule list_all2_distinct [OF es(2,1)]) (auto simp: f_def dest: port_path_inj [OF assms(2) buses])
  have "map f (map (root_hub_info env) rs) = map (\<lambda>b. (b, [])) (map rh_bus rs)"
    by (simp add: f_def root_hub_info_def Let_def)
  then have dr: "distinct (map f (map (root_hub_info env) rs))"
    using buses by (simp add: distinct_map inj_on_def)
  have ne: "di_port_numbers x \<noteq> []" if "x \<in> set xs" for x
    using es(2) that port_path_ne by (metis (mono_tags, lifting) in_set_conv_nth list_all2_conv_all_nth)
  have "distinct (map f (map (root_hub_info env) rs @ xs))"
    using dx dr ne by (fastforce simp: f_def root_hub_info_def Let_def)
  moreover have "mset (map f ds) = mset (map f (map (root_hub_info env) rs @ xs))"
    by (simp only: ds rs_def mset_map mset_sort)
  ultimately show "distinct (map (\<lambda>d. (di_bus_number d, di_port_numbers d)) ds)"
    unfolding f_def [symmetric] by (metis mset_eq_imp_distinct_iff)
qed

lemma candidates_total:
  assumes "\<And>c. device_interface_guids env c \<noteq> None"
  shows "\<exists>ds. candidates_from env roots seen cs = Some ds"
proof (induction cs arbitrary: seen)
  case (Cons c rest)
  obtain path d where c: "c = (path, d)" by (cases c)
  obtain r where r: "describe_device env roots path d = Some r" using describe_total [OF assms] by blast
  obtain xs ys where "candidates_from env roots seen rest = Some xs" "candidates_from env roots (d # seen) rest = Some ys"
    using Cons.IH by meson
  then show ?case using r by (auto simp: c split: option.split)
qed simp

lemma win_enumerate_total:
  assumes "\<And>c. device_interface_guids env c \<noteq> None"
  shows "\<exists>r. win_enumerate env = Some r"
  using candidates_total [OF assms] by (auto simp: win_enumerate_def Let_def split: sum.split)

section \<open>A tree of three\<close>

text \<open>A root hub (10) with a hub (2) on its port 3, and a device (5) on port 4 of that hub. The root
  hub has another device on its own port 4. \<open>listed\<close> is whether the hub exposes its interface path.\<close>

definition wide_lit :: "string \<Rightarrow> u16 list" where
  "wide_lit s = map of_nat (wlit s)"

definition usb_name :: "string \<Rightarrow> wstr" where
  "usb_name s = USB_PREFIX @ wlit s"

definition sample_bytes :: "u16 \<Rightarrow> bytes" where
  "sample_bytes vid = [18, 1, 0, 2, 0, 0, 0, 64] @ le_bytes16 vid @ [1, 0, 0, 1, 0, 0, 0, 0]"

definition win_sample :: "bool \<Rightarrow> win_env" where
  "win_sample listed = \<lparr>
     we_class = (\<lambda>g. if g = GUID_USB_HUB then Inr [(wlit ''R'', 10), (wlit ''H'', 2)] else Inr [(wlit ''D'', 5)]),
     we_instance_id = (\<lambda>d. if d = 10 then Some (map of_nat (usb_name ''ROOT_HUB30''))
        else if d = 2 then Some (map of_nat (usb_name ''HUB'')) else Some (map of_nat (usb_name ''DEV''))),
     we_parent = (\<lambda>d. if d = 5 then Some 2 else if d = 2 then Some 10 else None),
     we_children = (\<lambda>_. []),
     we_property = (\<lambda>d p. if p \<noteq> CM_DRP_ADDRESS then None else if d = 5 then Some [4, 0, 0, 0] else Some [3, 0, 0, 0]),
     we_paths = (\<lambda>g i. if i = usb_name ''ROOT_HUB30'' then Some (wide_lit ''R'' @ [0, 0])
        else if listed then Some (wide_lit ''H'' @ [0, 0]) else None),
     we_key = (\<lambda>_. None),
     we_open_hub = (\<lambda>_. None),
     we_connection = (\<lambda>hub port. Some \<lparr>ha_descriptor = sample_bytes (if hub = wlit ''R'' then 0x1111 else 0x2222),
        ha_config = 1, ha_speed = 2, ha_address = 7, ha_status = 1\<rparr>),
     we_connection2 = (\<lambda>_ _. None),
     we_descriptor = (\<lambda>_ _ _ _ _. Inl 31)\<rparr>"

definition sample_roots :: "root_hub list" where
  "sample_roots = [\<lparr>rh_devinst = 10, rh_bus = 1, rh_path = wlit ''R'', rh_instance = usb_name ''ROOT_HUB30''\<rparr>]"

lemma sample_ids:
  "instance_id (win_sample l) 10 = Some (usb_name ''ROOT_HUB30'')"
  "instance_id (win_sample l) 2 = Some (usb_name ''HUB'')"
  by (simp_all add: instance_id_def win_sample_def from_wide_def usb_name_def USB_PREFIX_def is_high_def is_low_def)

lemma sample_ports:
  "registry_u32 (win_sample l) 5 CM_DRP_ADDRESS = Some 4" "registry_u32 (win_sample l) 2 CM_DRP_ADDRESS = Some 3"
  by (simp_all add: registry_u32_def win_sample_def slice_def u32_le_def)

lemma sample_parents: "we_parent (win_sample l) 5 = Some 2" "we_parent (win_sample l) 2 = Some 10"
  by (simp_all add: win_sample_def)

lemma sample_paths:
  "interface_paths (win_sample l) g (usb_name ''ROOT_HUB30'') = [wlit ''R'']"
  "interface_paths (win_sample l) g (usb_name ''HUB'') = (if l then [wlit ''H''] else [])"
  by (simp_all add: interface_paths_def win_sample_def wide_lit_def usb_name_def USB_PREFIX_def is_high_def is_low_def)

lemma sample_hubs:
  "hub_seen (win_sample l) 2 None = Some (if l then Some (wlit ''H'') else None)"
  "hub_seen (win_sample l) 10 h = Some (if h = None then Some (wlit ''R'') else h)"
  by (simp_all add: hub_seen_def sample_ids sample_paths del: wlit_simps)

lemma sample_climb:
  "climb (win_sample l) sample_roots 5 [] None = Some (1, [3, 4], Some (wlit (if l then ''H'' else ''R'')))"
proof -
  have prefix: "take (length USB_PREFIX) (to_upper (usb_name ''HUB'')) = USB_PREFIX"
    by (simp add: to_upper_def usb_name_def USB_PREFIX_def)
  have find: "find (\<lambda>r. rh_devinst r = 2) sample_roots = None"
    "find (\<lambda>r. rh_devinst r = 10) sample_roots = Some (hd sample_roots)" "rh_bus (hd sample_roots) = 1"
    by (simp_all add: sample_roots_def del: wlit_simps)
  have "climb (win_sample l) sample_roots 2 [4] h = Some (1, [3, 4], if h = None then Some (wlit ''R'') else h)" for h
    by (subst climb.simps) (simp add: sample_ports sample_parents sample_hubs find del: wlit_simps One_nat_def)
  then show ?thesis
    by (subst climb.simps) (simp add: sample_ports sample_parents sample_hubs find sample_ids prefix Let_def del: wlit_simps)
qed

text \<open>When the parent hub exposes no interface, the hub asked is the grandparent, about the device's
  port on its parent: another device's descriptor is read.\<close>

lemma sample_info:
  "hub_connection_info (win_sample l) hub port = Some \<lparr>ci_descriptor = sample_bytes (if hub = wlit ''R'' then 0x1111 else 0x2222),
     ci_config = 1, ci_speed = SpeedHigh, ci_address = 7\<rparr>"
  by (simp add: hub_connection_info_def win_sample_def Let_def del: wlit_simps)

lemma sample_descriptor:
  "\<exists>d. device_from_bytes (sample_bytes v) = Some (Ok d) \<and> dd_vendor_id d = v \<and> dd_num_configurations d = 0"
proof -
  have "device_from_bytes (sample_bytes v) = Some (Ok \<lparr>dd_usb_version = Version 0x0200, dd_class = 0,
      dd_sub_class = 0, dd_protocol = 0, dd_max_packet_size_0 = 64, dd_vendor_id = v, dd_product_id = 1,
      dd_device_version = Version 0x0100, dd_manufacturer = 0, dd_product = 0, dd_serial_number = 0,
      dd_num_configurations = 0\<rparr>)"
    by (simp add: device_from_bytes_def sample_bytes_def idx_def le_bytes16_def) (simp add: u16_le_def)
  then show ?thesis by simp
qed

lemma sample_described:
  "\<exists>x. describe_device (win_sample l) sample_roots path 5 = Some (Some x) \<and> di_port_numbers x = [3, 4]
     \<and> wl_port (di_location x) = 4 \<and> wl_hub_path (di_location x) = Some (wlit (if l then ''H'' else ''R''))
     \<and> dd_vendor_id (di_descriptor x) = (if l then 0x2222 else 0x1111)"
proof -
  have hub: "open_hub (win_sample l) p = Ok p" for p by (simp add: open_hub_def win_sample_def)
  have cfg: "hub_config_descriptors (win_sample l) p n 0 = Some []" for p n
    unfolding hub_config_descriptors_def by (subst hub_configs_from.simps) simp
  have service: "registry_string (win_sample l) 5 CM_DRP_SERVICE = None"
    by (simp add: registry_string_def win_sample_def)
  have plain: "eq_ignore_case [] (wlit ''usbccgp'') = False" by (simp add: eq_ignore_case_def to_upper_def)
  obtain d where d: "device_from_bytes (sample_bytes (if l then 0x2222 else 0x1111)) = Some (Ok d)"
    "dd_vendor_id d = (if l then 0x2222 else 0x1111)" "dd_num_configurations d = 0"
    using sample_descriptor by blast
  have w: "(if wlit (if l then ''H'' else ''R'') = wlit ''R'' then 0x1111 else 0x2222 :: u16) = (if l then 0x2222 else 0x1111)"
    by simp
  show ?thesis
    by (simp add: describe_device_def sample_climb Let_def hub sample_info cfg service plain d w own_port_def
        del: wlit_simps)
qed

end
