(* ===== verification/Usb_Requests.thy ===== *)
theory Usb_Requests
  imports Usb_Io
begin

text \<open>
  The books that the Windows and the macOS backends keep of their outstanding requests
  (\<open>src/src/sys/windows/mod.rs\<close> and \<open>src/src/sys/macos/mod.rs\<close>, which spell them out alike): the
  transfer's own \<open>sub\<close>, behind its mutex, and the handle's map \<open>pending\<close>, behind another. One step
  of the machine is one critical section, or the call that hands a request to the system, so that
  the interleavings of the submitting threads with the event thread are the paths of \<open>book_step\<close>.
  Transfers are named by numbers, a request by the address of its heap block; an instant is a number.
\<close>

section \<open>The books\<close>

text \<open>What \<open>WinSub\<close> and \<open>MacSub\<close> have in common; each backend extends the record.\<close>

record request =
  rq_deadline :: "nat option"
  rq_cancelled :: bool
  rq_timed_out :: bool

text \<open>
  \<open>bk_sub\<close> is the content of each transfer's \<open>sub\<close>. \<open>bk_submitting tid\<close> says that a thread is
  inside \<open>submit\<close> for the transfer, holding that mutex, with the request already issued: the block's
  address, the state about to be stored, and whether \<open>pending\<close> has been told. \<open>bk_pending\<close> is the
  map \<open>pending\<close>. \<open>bk_kernel\<close> are the requests the system owns, \<open>bk_reaped\<close> the one whose completion
  the event thread has picked up and not yet reported, \<open>bk_scanning\<close> the transfers that
  \<open>next_deadline\<close> has still to look at while it holds the mutex of \<open>pending\<close>. \<open>bk_accepted\<close> and
  \<open>bk_log\<close> record what the callers see: the requests issued, and the completions reported.
\<close>

record ('a, 'r) books =
  bk_sub :: "nat \<Rightarrow> 'a request_scheme option"
  bk_submitting :: "nat \<Rightarrow> (nat \<times> 'a request_scheme \<times> bool) option"
  bk_pending :: "(nat \<times> nat) list"
  bk_kernel :: "(nat \<times> nat) list"
  bk_reaped :: "(nat \<times> nat \<times> 'r) option"
  bk_scanning :: "nat list option"
  bk_accepted :: "nat list"
  bk_log :: "(nat \<times> transfer_status) list"

definition books_new :: "('a, 'r) books" where
  "books_new = \<lparr>bk_sub = (\<lambda>_. None), bk_submitting = (\<lambda>_. None), bk_pending = [], bk_kernel = [],
     bk_reaped = None, bk_scanning = None, bk_accepted = [], bk_log = []\<rparr>"

text \<open>The request is handed to the system. The caller holds the transfer's mutex and has found
  \<open>sub\<close> empty.\<close>

definition bk_issue :: "nat \<Rightarrow> nat \<Rightarrow> 'a request_scheme \<Rightarrow> ('a, 'r) books \<Rightarrow> ('a, 'r) books" where
  "bk_issue key tid s b = b\<lparr>bk_kernel := (key, tid) # bk_kernel b,
     bk_submitting := (bk_submitting b)(tid \<mapsto> (key, s, False)), bk_accepted := tid # bk_accepted b\<rparr>"

text \<open>\<open>lock(&self.pending).insert(key, inner)\<close>, which replaces an entry of the same key.\<close>

definition pending_insert :: "nat \<Rightarrow> nat \<Rightarrow> (nat \<times> nat) list \<Rightarrow> (nat \<times> nat) list" where
  "pending_insert key tid p = (key, tid) # filter (\<lambda>e. fst e \<noteq> key) p"

definition pending_remove :: "nat \<Rightarrow> (nat \<times> nat) list \<Rightarrow> (nat \<times> nat) list" where
  "pending_remove key p = filter (\<lambda>e. fst e \<noteq> key) p"

definition bk_record :: "nat \<Rightarrow> ('a, 'r) books \<Rightarrow> ('a, 'r) books" where
  "bk_record tid b = (case bk_submitting b tid of
      Some (key, s, False) \<Rightarrow> b\<lparr>bk_pending := pending_insert key tid (bk_pending b),
        bk_submitting := (bk_submitting b)(tid \<mapsto> (key, s, True))\<rparr>
    | _ \<Rightarrow> b)"

text \<open>\<open>*sub = Some(..); drop(sub)\<close>.\<close>

definition bk_store :: "nat \<Rightarrow> ('a, 'r) books \<Rightarrow> ('a, 'r) books" where
  "bk_store tid b = (case bk_submitting b tid of
      Some (key, s, True) \<Rightarrow> b\<lparr>bk_sub := (bk_sub b)(tid \<mapsto> s), bk_submitting := (bk_submitting b)(tid := None)\<rparr>
    | _ \<Rightarrow> b)"

text \<open>The first critical section of \<open>finish\<close>, run with the completion the system reported.\<close>

definition bk_reap :: "nat \<Rightarrow> nat \<Rightarrow> 'r \<Rightarrow> ('a, 'r) books \<Rightarrow> ('a, 'r) books" where
  "bk_reap key tid r b = b\<lparr>bk_kernel := remove1 (key, tid) (bk_kernel b),
     bk_pending := pending_remove key (bk_pending b), bk_reaped := Some (key, tid, r)\<rparr>"

text \<open>The second one, and \<open>inner.complete\<close> with the status the backend works out.\<close>

definition bk_take :: "('r \<Rightarrow> 'a request_scheme \<Rightarrow> transfer_status) \<Rightarrow> ('a, 'r) books \<Rightarrow> ('a, 'r) books" where
  "bk_take status b = (case bk_reaped b of
      None \<Rightarrow> b
    | Some (key, tid, r) \<Rightarrow> (case bk_sub b tid of
        None \<Rightarrow> b\<lparr>bk_reaped := None\<rparr>
      | Some s \<Rightarrow> b\<lparr>bk_reaped := None, bk_sub := (bk_sub b)(tid := None),
          bk_log := (tid, status r s) # bk_log b\<rparr>))"

text \<open>What \<open>cancel\<close> does to a transfer whose request is out; \<open>abort\<close> is whether the system took
  the cancellation.\<close>

definition bk_cancel :: "bool \<Rightarrow> nat \<Rightarrow> ('a, 'r) books \<Rightarrow> ('a, 'r) books" where
  "bk_cancel abort tid b = (case bk_sub b tid of
      None \<Rightarrow> b
    | Some s \<Rightarrow> if abort then b\<lparr>bk_sub := (bk_sub b)(tid \<mapsto> s\<lparr>rq_cancelled := True\<rparr>)\<rparr> else b)"

text \<open>The body of the loop of \<open>expire\<close>.\<close>

definition expire_request :: "nat \<Rightarrow> bool \<Rightarrow> 'a request_scheme \<Rightarrow> 'a request_scheme" where
  "expire_request now abort s =
     (if rq_timed_out s \<or> (case rq_deadline s of None \<Rightarrow> True | Some d \<Rightarrow> d > now) then s
      else s\<lparr>rq_timed_out := abort, rq_deadline := None\<rparr>)"

definition bk_expire_one :: "nat \<Rightarrow> (nat \<Rightarrow> bool) \<Rightarrow> nat \<Rightarrow> ('a, 'r) books \<Rightarrow> ('a, 'r) books" where
  "bk_expire_one now abort tid b = (case bk_sub b tid of
      None \<Rightarrow> b
    | Some s \<Rightarrow> b\<lparr>bk_sub := (bk_sub b)(tid \<mapsto> expire_request now (abort tid) s)\<rparr>)"

definition bk_expire :: "nat \<Rightarrow> (nat \<Rightarrow> bool) \<Rightarrow> ('a, 'r) books \<Rightarrow> ('a, 'r) books" where
  "bk_expire now abort b = fold (bk_expire_one now abort) (map snd (bk_pending b)) b"

definition bk_cancel_all :: "(nat \<Rightarrow> bool) \<Rightarrow> ('a, 'r) books \<Rightarrow> ('a, 'r) books" where
  "bk_cancel_all abort b = fold (\<lambda>tid. bk_cancel (abort tid) tid) (map snd (bk_pending b)) b"

text \<open>\<open>next_deadline\<close>, where nothing blocks it.\<close>

definition bk_deadlines :: "('a, 'r) books \<Rightarrow> nat list" where
  "bk_deadlines b = List.map_filter (\<lambda>e. case bk_sub b (snd e) of Some s \<Rightarrow> rq_deadline s | None \<Rightarrow> None) (bk_pending b)"

definition bk_next_deadline :: "('a, 'r) books \<Rightarrow> nat option" where
  "bk_next_deadline b = (case bk_deadlines b of [] \<Rightarrow> None | d # ds \<Rightarrow> Some (fold min ds d))"

section \<open>The interleavings\<close>

text \<open>
  \<open>early\<close> allows the completion of a request to be picked up before \<open>pending\<close> has been told of it:
  both backends issue the request first and insert afterwards, so for them it is \<open>True\<close>; \<open>False\<close> is
  the order the Linux backend uses, which inserts first. \<open>next_deadline\<close> holds the mutex of
  \<open>pending\<close> while it takes the mutex of each transfer in turn, hence the rules \<open>scan\<close>, \<open>visit\<close> and
  \<open>scanned\<close>; the rules that need a mutex somebody holds are not enabled.
\<close>

inductive book_step :: "bool \<Rightarrow> ('r \<Rightarrow> 'a request_scheme \<Rightarrow> transfer_status)
    \<Rightarrow> ('a, 'r) books \<Rightarrow> ('a, 'r) books \<Rightarrow> bool" for early status where
  issue: "bk_submitting b tid = None \<Longrightarrow> bk_sub b tid = None \<Longrightarrow>
    key \<notin> fst ` set (bk_kernel b) \<Longrightarrow> (\<forall>t r. bk_reaped b \<noteq> Some (key, t, r)) \<Longrightarrow>
    book_step early status b (bk_issue key tid s b)"
| record_it: "bk_submitting b tid = Some (key, s, False) \<Longrightarrow> bk_scanning b = None \<Longrightarrow>
    book_step early status b (bk_record tid b)"
| store: "bk_submitting b tid = Some (key, s, True) \<Longrightarrow> book_step early status b (bk_store tid b)"
| reap: "(key, tid) \<in> set (bk_kernel b) \<Longrightarrow> bk_reaped b = None \<Longrightarrow> bk_scanning b = None \<Longrightarrow>
    (\<not> early \<Longrightarrow> (\<forall>s. bk_submitting b tid \<noteq> Some (key, s, False))) \<Longrightarrow>
    book_step early status b (bk_reap key tid r b)"
| take_it: "bk_reaped b = Some (key, tid, r) \<Longrightarrow> bk_submitting b tid = None \<Longrightarrow>
    book_step early status b (bk_take status b)"
| cancel: "bk_submitting b tid = None \<Longrightarrow> book_step early status b (bk_cancel abort tid b)"
| expire: "bk_submitting b tid = None \<Longrightarrow> bk_reaped b = None \<Longrightarrow> bk_scanning b = None \<Longrightarrow>
    book_step early status b (bk_expire_one now abort tid b)"
| scan: "bk_reaped b = None \<Longrightarrow> bk_scanning b = None \<Longrightarrow>
    book_step early status b (b\<lparr>bk_scanning := Some (map snd (bk_pending b))\<rparr>)"
| visit: "bk_scanning b = Some (tid # ts) \<Longrightarrow> bk_submitting b tid = None \<Longrightarrow>
    book_step early status b (b\<lparr>bk_scanning := Some ts\<rparr>)"
| scanned: "bk_scanning b = Some [] \<Longrightarrow> book_step early status b (b\<lparr>bk_scanning := None\<rparr>)"

inductive book_reach :: "bool \<Rightarrow> ('r \<Rightarrow> 'a request_scheme \<Rightarrow> transfer_status)
    \<Rightarrow> ('a, 'r) books \<Rightarrow> ('a, 'r) books \<Rightarrow> bool" for early status b0 where
  refl: "book_reach early status b0 b0"
| step: "book_reach early status b0 b \<Longrightarrow> book_step early status b b' \<Longrightarrow> book_reach early status b0 b'"

inductive_cases book_stepE: "book_step early status b b'"

section \<open>The invariant\<close>

definition outstanding :: "nat \<Rightarrow> ('a, 'r) books \<Rightarrow> nat" where
  "outstanding tid b = count_list (map snd (bk_kernel b)) tid
     + (case bk_reaped b of Some (key, t, r) \<Rightarrow> if t = tid then 1 else 0 | None \<Rightarrow> 0)"

definition busy :: "nat \<Rightarrow> ('a, 'r) books \<Rightarrow> bool" where
  "busy tid b \<longleftrightarrow> bk_submitting b tid \<noteq> None \<or> bk_sub b tid \<noteq> None"

definition held :: "nat \<Rightarrow> nat \<Rightarrow> ('a, 'r) books \<Rightarrow> bool" where
  "held key tid b \<longleftrightarrow> (key, tid) \<in> set (bk_kernel b) \<or> (\<exists>r. bk_reaped b = Some (key, tid, r))"

definition books_inv :: "('a, 'r) books \<Rightarrow> bool" where
  "books_inv b \<longleftrightarrow> distinct (map fst (bk_kernel b))
   \<and> (\<forall>key t r. bk_reaped b = Some (key, t, r) \<longrightarrow> key \<notin> fst ` set (bk_kernel b))
   \<and> (\<forall>t. bk_submitting b t \<noteq> None \<longrightarrow> bk_sub b t = None)
   \<and> (\<forall>t. outstanding t b = (if busy t b then 1 else 0))
   \<and> (\<forall>t key s x. bk_submitting b t = Some (key, s, x) \<longrightarrow> held key t b)
   \<and> (\<forall>t. count_list (bk_accepted b) t = count_list (map fst (bk_log b)) t + outstanding t b)
   \<and> (\<forall>key t. (key, t) \<in> set (bk_kernel b) \<longrightarrow> (\<forall>s. bk_submitting b t \<noteq> Some (key, s, False))
        \<longrightarrow> (key, t) \<in> set (bk_pending b))"

text \<open>What holds as well when \<open>pending\<close> is told first.\<close>

definition books_tight :: "('a, 'r) books \<Rightarrow> bool" where
  "books_tight b \<longleftrightarrow> set (bk_pending b) \<subseteq> set (bk_kernel b)
   \<and> (\<forall>t key s. bk_submitting b t = Some (key, s, False) \<longrightarrow>
        (key, t) \<in> set (bk_kernel b) \<and> t \<notin> snd ` set (bk_pending b))
   \<and> (\<forall>ts. bk_scanning b = Some ts \<longrightarrow> set ts \<subseteq> snd ` set (bk_pending b))"

lemma count_list_remove1: "x \<in> set xs \<Longrightarrow>
  count_list (map f (remove1 x xs)) y + (if f x = y then 1 else 0) = count_list (map f xs) y"
  by (induction xs) auto

lemma count_list_pos: "x \<in> set xs \<Longrightarrow> 0 < count_list xs x"
  by (metis count_list_0_iff gr0I)

lemma outstanding_pos: "held key t b \<Longrightarrow> 0 < outstanding t b"
  using count_list_pos [of t "map snd (bk_kernel b)"] by (force simp: held_def outstanding_def)

lemma books_new_inv: "books_inv books_new" "books_tight books_new"
  by (simp_all add: books_inv_def books_tight_def books_new_def outstanding_def busy_def)

lemma books_invD:
  assumes "books_inv b"
  shows "distinct (map fst (bk_kernel b))"
    and "bk_reaped b = Some (key, t, r) \<Longrightarrow> key \<notin> fst ` set (bk_kernel b)"
    and "bk_submitting b t \<noteq> None \<Longrightarrow> bk_sub b t = None"
    and "outstanding t b = (if busy t b then 1 else 0)"
    and "bk_submitting b t = Some (key, s, x) \<Longrightarrow> held key t b"
    and "count_list (bk_accepted b) t = count_list (map fst (bk_log b)) t + outstanding t b"
    and "(key, t) \<in> set (bk_kernel b) \<Longrightarrow> (\<And>s. bk_submitting b t \<noteq> Some (key, s, False))
        \<Longrightarrow> (key, t) \<in> set (bk_pending b)"
proof -
  note c1 = assms [unfolded books_inv_def]
  note c2 = c1 [THEN conjunct2] note c3 = c2 [THEN conjunct2] note c4 = c3 [THEN conjunct2]
  note c5 = c4 [THEN conjunct2] note c6 = c5 [THEN conjunct2] note c7 = c6 [THEN conjunct2]
  show "distinct (map fst (bk_kernel b))" by (rule c1 [THEN conjunct1])
  show "bk_reaped b = Some (key, t, r) \<Longrightarrow> key \<notin> fst ` set (bk_kernel b)"
    by (rule c2 [THEN conjunct1, rule_format])
  show "bk_submitting b t \<noteq> None \<Longrightarrow> bk_sub b t = None" by (rule c3 [THEN conjunct1, rule_format])
  show "outstanding t b = (if busy t b then 1 else 0)" by (rule c4 [THEN conjunct1, THEN spec])
  show "bk_submitting b t = Some (key, s, x) \<Longrightarrow> held key t b" by (rule c5 [THEN conjunct1, rule_format])
  show "count_list (bk_accepted b) t = count_list (map fst (bk_log b)) t + outstanding t b"
    by (rule c6 [THEN conjunct1, THEN spec])
  show "(key, t) \<in> set (bk_kernel b) \<Longrightarrow> (\<And>s. bk_submitting b t \<noteq> Some (key, s, False))
      \<Longrightarrow> (key, t) \<in> set (bk_pending b)" by (rule c7 [rule_format])
qed

lemma books_invI:
  assumes "distinct (map fst (bk_kernel b))"
    and "\<And>key t r. bk_reaped b = Some (key, t, r) \<Longrightarrow> key \<notin> fst ` set (bk_kernel b)"
    and "\<And>t. bk_submitting b t \<noteq> None \<Longrightarrow> bk_sub b t = None"
    and "\<And>t. outstanding t b = (if busy t b then 1 else 0)"
    and "\<And>t key s x. bk_submitting b t = Some (key, s, x) \<Longrightarrow> held key t b"
    and "\<And>t. count_list (bk_accepted b) t = count_list (map fst (bk_log b)) t + outstanding t b"
    and "\<And>key t. (key, t) \<in> set (bk_kernel b) \<Longrightarrow> (\<And>s. bk_submitting b t \<noteq> Some (key, s, False))
        \<Longrightarrow> (key, t) \<in> set (bk_pending b)"
  shows "books_inv b"
  using assms unfolding books_inv_def by blast

lemma issue_inv:
  assumes inv: "books_inv b" and free: "bk_submitting b tid = None" "bk_sub b tid = None"
    and fresh: "key \<notin> fst ` set (bk_kernel b)" "\<And>t r. bk_reaped b \<noteq> Some (key, t, r)"
  shows "books_inv (bk_issue key tid s b)"
proof (rule books_invI)
  let ?b = "bk_issue key tid s b"
  note I = books_invD [OF inv]
  have out: "outstanding t ?b = outstanding t b + (if t = tid then 1 else 0)" for t
    by (simp add: outstanding_def bk_issue_def)
  have zero: "outstanding tid b = 0" using I(4) [of tid] free by (simp add: busy_def)
  show "distinct (map fst (bk_kernel ?b))" using I(1) fresh by (simp add: bk_issue_def)
  show "key' \<notin> fst ` set (bk_kernel ?b)" if "bk_reaped ?b = Some (key', t, r)" for key' t r
    using that I(2) [of key' t r] fresh(2) by (auto simp: bk_issue_def)
  show "bk_sub ?b t = None" if "bk_submitting ?b t \<noteq> None" for t
    using that I(3) [of t] free by (auto simp: bk_issue_def split: if_splits)
  show "outstanding t ?b = (if busy t ?b then 1 else 0)" for t
    using I(4) [of t] zero free by (simp only: out) (auto simp: bk_issue_def busy_def split: if_splits)
  show "held key' t ?b" if "bk_submitting ?b t = Some (key', s', x)" for t key' s' x
    using that I(5) [of t key' s' x] by (auto simp: bk_issue_def held_def split: if_splits)
  show "count_list (bk_accepted ?b) t = count_list (map fst (bk_log ?b)) t + outstanding t ?b" for t
    using I(6) [of t] by (simp only: out) (simp add: bk_issue_def)
  show "(key', t) \<in> set (bk_pending ?b)" if "(key', t) \<in> set (bk_kernel ?b)"
    "\<And>s'. bk_submitting ?b t \<noteq> Some (key', s', False)" for key' t
  proof -
    have "(key', t) \<noteq> (key, tid)" using that(2) [of s] by (auto simp: bk_issue_def)
    with that(1) have k: "(key', t) \<in> set (bk_kernel b)" by (auto simp: bk_issue_def)
    then have "t \<noteq> tid" using outstanding_pos [of key' t b] zero by (auto simp: held_def)
    with that(2) I(7) [OF k] show ?thesis by (simp add: bk_issue_def)
  qed
qed

lemma record_inv:
  assumes inv: "books_inv b" and sub: "bk_submitting b tid = Some (key, s, False)"
  shows "books_inv (bk_record tid b)"
proof (rule books_invI)
  let ?b = "bk_record tid b"
  note I = books_invD [OF inv]
  have b: "?b = b\<lparr>bk_pending := pending_insert key tid (bk_pending b),
      bk_submitting := (bk_submitting b)(tid \<mapsto> (key, s, True))\<rparr>"
    using sub by (simp add: bk_record_def)
  have out: "outstanding t ?b = outstanding t b" for t by (simp add: outstanding_def b)
  show "distinct (map fst (bk_kernel ?b))" using I(1) by (simp add: b)
  show "key' \<notin> fst ` set (bk_kernel ?b)" if "bk_reaped ?b = Some (key', t, r)" for key' t r
    using that I(2) [of key' t r] by (simp add: b)
  show "bk_sub ?b t = None" if "bk_submitting ?b t \<noteq> None" for t
    using that I(3) [of t] sub I(3) [of tid] by (auto simp: b split: if_splits)
  show "outstanding t ?b = (if busy t ?b then 1 else 0)" for t
    using I(4) [of t] sub by (simp only: out) (auto simp: b busy_def)
  show "held key' t ?b" if "bk_submitting ?b t = Some (key', s', x)" for t key' s' x
    using that I(5) [of t key' s' x] I(5) [OF sub] by (auto simp: b held_def split: if_splits)
  show "count_list (bk_accepted ?b) t = count_list (map fst (bk_log ?b)) t + outstanding t ?b" for t
    using I(6) [of t] by (simp only: out) (simp add: b)
  show "(key', t) \<in> set (bk_pending ?b)" if k: "(key', t) \<in> set (bk_kernel ?b)"
    and ns: "\<And>s'. bk_submitting ?b t \<noteq> Some (key', s', False)" for key' t
  proof (cases "key' = key")
    case True
    from k have "(key, t) \<in> set (bk_kernel b)" by (simp add: b True)
    moreover have "held key tid b" by (rule I(5) [OF sub])
    ultimately have "t = tid" using I(1) I(2) [of key tid]
      by (auto simp: held_def dest: eq_key_imp_eq_value) (force)
    then show ?thesis by (simp add: b True pending_insert_def)
  next
    case False
    have "bk_submitting b t \<noteq> Some (key', s', False)" for s'
      using ns [of s'] sub False by (auto simp: b split: if_splits)
    with k I(7) [of key' t] False show ?thesis by (simp add: b pending_insert_def)
  qed
qed

lemma store_inv:
  assumes inv: "books_inv b" and sub: "bk_submitting b tid = Some (key, s, True)"
  shows "books_inv (bk_store tid b)"
proof (rule books_invI)
  let ?b = "bk_store tid b"
  note I = books_invD [OF inv]
  have b: "?b = b\<lparr>bk_sub := (bk_sub b)(tid \<mapsto> s), bk_submitting := (bk_submitting b)(tid := None)\<rparr>"
    using sub by (simp add: bk_store_def)
  have out: "outstanding t ?b = outstanding t b" for t by (simp add: outstanding_def b)
  show "distinct (map fst (bk_kernel ?b))" using I(1) by (simp add: b)
  show "key' \<notin> fst ` set (bk_kernel ?b)" if "bk_reaped ?b = Some (key', t, r)" for key' t r
    using that I(2) [of key' t r] by (simp add: b)
  show "bk_sub ?b t = None" if "bk_submitting ?b t \<noteq> None" for t
    using that I(3) [of t] by (auto simp: b split: if_splits)
  show "outstanding t ?b = (if busy t ?b then 1 else 0)" for t
    using I(4) [of t] sub by (simp only: out) (auto simp: b busy_def)
  show "held key' t ?b" if "bk_submitting ?b t = Some (key', s', x)" for t key' s' x
    using that I(5) [of t key' s' x] by (auto simp: b held_def split: if_splits)
  show "count_list (bk_accepted ?b) t = count_list (map fst (bk_log ?b)) t + outstanding t ?b" for t
    using I(6) [of t] by (simp only: out) (simp add: b)
  show "(key', t) \<in> set (bk_pending ?b)" if k: "(key', t) \<in> set (bk_kernel ?b)"
    and ns: "\<And>s'. bk_submitting ?b t \<noteq> Some (key', s', False)" for key' t
  proof -
    have "bk_submitting b t \<noteq> Some (key', s', False)" for s'
      using ns [of s'] sub by (auto simp: b split: if_splits)
    with k I(7) [of key' t] show ?thesis by (simp add: b)
  qed
qed

lemma map_fst_remove1: "distinct (map fst xs) \<Longrightarrow> (k, t) \<in> set xs \<Longrightarrow> map fst (remove1 (k, t) xs) = remove1 k (map fst xs)"
  by (induction xs) force+

lemma reap_inv:
  assumes inv: "books_inv b" and k: "(key, tid) \<in> set (bk_kernel b)" and idle: "bk_reaped b = None"
  shows "books_inv (bk_reap key tid r b)"
proof (rule books_invI)
  let ?b = "bk_reap key tid r b"
  note I = books_invD [OF inv]
  have out: "outstanding t ?b = outstanding t b" for t
    using count_list_remove1 [OF k, of snd t] idle by (simp add: outstanding_def bk_reap_def)
  have keys: "map fst (bk_kernel ?b) = remove1 key (map fst (bk_kernel b))"
    using map_fst_remove1 [OF I(1) k] by (simp add: bk_reap_def)
  show "distinct (map fst (bk_kernel ?b))" using I(1) by (simp only: keys distinct_remove1)
  have gone: "key \<notin> fst ` set (bk_kernel ?b)"
    using I(1) keys by (metis list.set_map set_remove1_eq Diff_iff insertI1)
  then show "key' \<notin> fst ` set (bk_kernel ?b)" if "bk_reaped ?b = Some (key', t, r')" for key' t r'
    using that by (simp add: bk_reap_def)
  show "bk_sub ?b t = None" if "bk_submitting ?b t \<noteq> None" for t
    using that I(3) [of t] by (simp add: bk_reap_def)
  show "outstanding t ?b = (if busy t ?b then 1 else 0)" for t
    using I(4) [of t] by (simp only: out) (simp add: bk_reap_def busy_def)
  show "held key' t ?b" if "bk_submitting ?b t = Some (key', s', x)" for t key' s' x
  proof -
    have "(key', t) \<in> set (bk_kernel b)"
      using that I(5) [of t key' s' x] idle by (auto simp: bk_reap_def held_def)
    then show ?thesis
      by (cases "(key', t) = (key, tid)") (auto simp: held_def bk_reap_def)
  qed
  show "count_list (bk_accepted ?b) t = count_list (map fst (bk_log ?b)) t + outstanding t ?b" for t
    using I(6) [of t] by (simp only: out) (simp add: bk_reap_def)
  show "(key', t) \<in> set (bk_pending ?b)" if k': "(key', t) \<in> set (bk_kernel ?b)"
    and ns: "\<And>s'. bk_submitting ?b t \<noteq> Some (key', s', False)" for key' t
  proof -
    have "key' \<noteq> key" using gone k' by force
    moreover have "(key', t) \<in> set (bk_kernel b)" using k' notin_set_remove1 by (force simp: bk_reap_def)
    moreover have "bk_submitting b t \<noteq> Some (key', s', False)" for s' using ns [of s'] by (simp add: bk_reap_def)
    ultimately show ?thesis using I(7) [of key' t] by (simp add: bk_reap_def pending_remove_def)
  qed
qed

lemma take_live:
  assumes inv: "books_inv b" and r: "bk_reaped b = Some (key, tid, r)" and free: "bk_submitting b tid = None"
  obtains s where "bk_sub b tid = Some s"
    "bk_take status b = b\<lparr>bk_reaped := None, bk_sub := (bk_sub b)(tid := None), bk_log := (tid, status r s) # bk_log b\<rparr>"
proof -
  have "0 < outstanding tid b" using r by (simp add: outstanding_def)
  then have "busy tid b" using books_invD(4) [OF inv, of tid] by (simp split: if_splits)
  then obtain s where "bk_sub b tid = Some s" using free by (auto simp: busy_def)
  with that r show ?thesis by (simp add: bk_take_def)
qed

lemma take_inv:
  assumes inv: "books_inv b" and r: "bk_reaped b = Some (key, tid, r)" and free: "bk_submitting b tid = None"
  shows "books_inv (bk_take status b)"
proof -
  obtain s where s: "bk_sub b tid = Some s" and b: "bk_take status b =
      b\<lparr>bk_reaped := None, bk_sub := (bk_sub b)(tid := None), bk_log := (tid, status r s) # bk_log b\<rparr>"
    by (rule take_live [OF inv r free])
  let ?b = "bk_take status b"
  note I = books_invD [OF inv]
  have out: "outstanding t b = outstanding t ?b + (if t = tid then 1 else 0)" for t
    using r by (simp add: outstanding_def b)
  show ?thesis
  proof (rule books_invI)
    show "distinct (map fst (bk_kernel ?b))" using I(1) by (simp add: b)
    show "key' \<notin> fst ` set (bk_kernel ?b)" if "bk_reaped ?b = Some (key', t, r')" for key' t r'
      using that by (simp add: b)
    show "bk_sub ?b t = None" if "bk_submitting ?b t \<noteq> None" for t
      using that I(3) [of t] by (simp add: b)
    show "outstanding t ?b = (if busy t ?b then 1 else 0)" for t
      using I(4) [of t] out [of t] s free by (auto simp: b busy_def split: if_splits)
    show "held key' t ?b" if "bk_submitting ?b t = Some (key', s', x)" for t key' s' x
      using that I(5) [of t key' s' x] r free by (auto simp: b held_def)
    show "count_list (bk_accepted ?b) t = count_list (map fst (bk_log ?b)) t + outstanding t ?b" for t
      using I(6) [of t] out [of t] by (simp add: b)
    show "(key', t) \<in> set (bk_pending ?b)" if "(key', t) \<in> set (bk_kernel ?b)"
      "\<And>s'. bk_submitting ?b t \<noteq> Some (key', s', False)" for key' t
      using that I(7) [of key' t] by (simp add: b)
  qed
qed

text \<open>\<open>cancel\<close>, \<open>expire\<close> and the scan change nothing the invariant speaks of.\<close>

lemma marks_inv:
  assumes "books_inv b" "\<And>t. (bk_sub b' t = None) = (bk_sub b t = None)"
    "bk_submitting b' = bk_submitting b" "bk_pending b' = bk_pending b" "bk_kernel b' = bk_kernel b"
    "bk_reaped b' = bk_reaped b" "bk_accepted b' = bk_accepted b" "bk_log b' = bk_log b"
  shows "books_inv b'"
  using assms(1) unfolding books_inv_def by (simp add: assms(2-) outstanding_def busy_def held_def)

lemma cancel_inv: "books_inv b \<Longrightarrow> books_inv (bk_cancel abort tid b)"
  by (erule marks_inv) (auto simp: bk_cancel_def split: option.split)

lemma expire_one_inv: "books_inv b \<Longrightarrow> books_inv (bk_expire_one now abort tid b)"
  by (erule marks_inv) (auto simp: bk_expire_one_def split: option.split)

lemma scanning_inv: "books_inv b \<Longrightarrow> books_inv (b\<lparr>bk_scanning := x\<rparr>)"
  by (erule marks_inv) auto

lemma book_step_inv: "book_step early status b b' \<Longrightarrow> books_inv b \<Longrightarrow> books_inv b'"
  by (erule book_step.cases)
    (auto intro: issue_inv record_inv store_inv reap_inv take_inv cancel_inv expire_one_inv scanning_inv)

lemma book_reach_inv: "book_reach early status b0 b \<Longrightarrow> books_inv b0 \<Longrightarrow> books_inv b"
  by (induction rule: book_reach.induct) (auto dest: book_step_inv)

section \<open>Telling \<open>pending\<close> first\<close>

lemma books_tightD:
  assumes "books_tight b"
  shows "(key, t) \<in> set (bk_pending b) \<Longrightarrow> (key, t) \<in> set (bk_kernel b)"
    and "bk_submitting b t = Some (key, s, False) \<Longrightarrow> (key, t) \<in> set (bk_kernel b)"
    and "bk_submitting b t = Some (key, s, False) \<Longrightarrow> t \<notin> snd ` set (bk_pending b)"
    and "bk_scanning b = Some ts \<Longrightarrow> u \<in> set ts \<Longrightarrow> u \<in> snd ` set (bk_pending b)"
  using assms unfolding books_tight_def by blast+

lemma books_tightI:
  assumes "\<And>key t. (key, t) \<in> set (bk_pending b) \<Longrightarrow> (key, t) \<in> set (bk_kernel b)"
    and "\<And>t key s. bk_submitting b t = Some (key, s, False) \<Longrightarrow> (key, t) \<in> set (bk_kernel b)"
    and "\<And>t key s. bk_submitting b t = Some (key, s, False) \<Longrightarrow> t \<notin> snd ` set (bk_pending b)"
    and "\<And>ts u. bk_scanning b = Some ts \<Longrightarrow> u \<in> set ts \<Longrightarrow> u \<in> snd ` set (bk_pending b)"
  shows "books_tight b"
  unfolding books_tight_def using assms by auto

lemma issue_tight:
  assumes inv: "books_inv b" and tight: "books_tight b"
    and free: "bk_submitting b tid = None" "bk_sub b tid = None"
  shows "books_tight (bk_issue key tid s b)"
proof (rule books_tightI)
  let ?b = "bk_issue key tid s b"
  note T = books_tightD [OF tight]
  have "outstanding tid b = 0" using books_invD(4) [OF inv, of tid] free by (simp add: busy_def)
  then have none: "tid \<notin> snd ` set (bk_pending b)"
    using T(1) outstanding_pos [of _ tid b] by (force simp: held_def)
  show "(key', t) \<in> set (bk_kernel ?b)" if "(key', t) \<in> set (bk_pending ?b)" for key' t
    using that T(1) by (simp add: bk_issue_def)
  show "(key', t) \<in> set (bk_kernel ?b)" if "bk_submitting ?b t = Some (key', s', False)" for t key' s'
    using that T(2) [of t key' s'] by (auto simp: bk_issue_def split: if_splits)
  show "t \<notin> snd ` set (bk_pending ?b)" if "bk_submitting ?b t = Some (key', s', False)" for t key' s'
    using that T(3) [of t key' s'] none by (auto simp: bk_issue_def split: if_splits)
  show "u \<in> snd ` set (bk_pending ?b)" if "bk_scanning ?b = Some ts" "u \<in> set ts" for ts u
    using that T(4) [of ts u] by (simp add: bk_issue_def)
qed

lemma record_tight:
  assumes inv: "books_inv b" and tight: "books_tight b"
    and sub: "bk_submitting b tid = Some (key, s, False)" and idle: "bk_scanning b = None"
  shows "books_tight (bk_record tid b)"
proof (rule books_tightI)
  let ?b = "bk_record tid b"
  note T = books_tightD [OF tight]
  have b: "?b = b\<lparr>bk_pending := pending_insert key tid (bk_pending b),
      bk_submitting := (bk_submitting b)(tid \<mapsto> (key, s, True))\<rparr>"
    using sub by (simp add: bk_record_def)
  show "(key', t) \<in> set (bk_kernel ?b)" if "(key', t) \<in> set (bk_pending ?b)" for key' t
    using that T(1) [of key' t] T(2) [OF sub] by (auto simp: b pending_insert_def)
  show "(key', t) \<in> set (bk_kernel ?b)" if "bk_submitting ?b t = Some (key', s', False)" for t key' s'
    using that T(2) [of t key' s'] by (auto simp: b split: if_splits)
  show "t \<notin> snd ` set (bk_pending ?b)" if "bk_submitting ?b t = Some (key', s', False)" for t key' s'
    using that T(3) [of t key' s'] by (auto simp: b pending_insert_def split: if_splits)
  show "u \<in> snd ` set (bk_pending ?b)" if "bk_scanning ?b = Some ts" for ts u
    using that idle by (simp add: b)
qed

lemma reap_tight:
  assumes inv: "books_inv b" and tight: "books_tight b" and k: "(key, tid) \<in> set (bk_kernel b)"
    and idle: "bk_scanning b = None" and told: "\<And>s. bk_submitting b tid \<noteq> Some (key, s, False)"
  shows "books_tight (bk_reap key tid r b)"
proof (rule books_tightI)
  let ?b = "bk_reap key tid r b"
  note T = books_tightD [OF tight]
  have stays: "(key', t) \<in> set (bk_kernel ?b)" if "(key', t) \<in> set (bk_kernel b)" "(key', t) \<noteq> (key, tid)" for key' t
    using that by (simp add: bk_reap_def)
  show "(key', t) \<in> set (bk_kernel ?b)" if "(key', t) \<in> set (bk_pending ?b)" for key' t
    using that T(1) [of key' t] by (intro stays) (auto simp: bk_reap_def pending_remove_def)
  show "(key', t) \<in> set (bk_kernel ?b)" if "bk_submitting ?b t = Some (key', s', False)" for t key' s'
    using that T(2) [of t key' s'] told [of s'] by (intro stays) (auto simp: bk_reap_def)
  show "t \<notin> snd ` set (bk_pending ?b)" if "bk_submitting ?b t = Some (key', s', False)" for t key' s'
    using that T(3) [of t key' s'] by (auto simp: bk_reap_def pending_remove_def)
  show "u \<in> snd ` set (bk_pending ?b)" if "bk_scanning ?b = Some ts" for ts u
    using that idle by (simp add: bk_reap_def)
qed

lemma marks_tight:
  assumes "books_tight b" "\<And>t key s. bk_submitting b' t = Some (key, s, False) \<Longrightarrow> bk_submitting b t = Some (key, s, False)"
    "bk_pending b' = bk_pending b" "bk_kernel b' = bk_kernel b"
    "\<And>ts. bk_scanning b' = Some ts \<Longrightarrow> set ts \<subseteq> snd ` set (bk_pending b)"
  shows "books_tight b'"
  using assms(1) unfolding books_tight_def assms(3,4) using assms(2,5) by blast

lemma book_step_tight:
  assumes "book_step False status b b'" "books_inv b" "books_tight b"
  shows "books_tight b'"
  using assms(1)
proof (cases rule: book_step.cases)
  case (issue tid key s)
  then show ?thesis using issue_tight [OF assms(2,3)] by simp
next
  case (record_it tid key s)
  then show ?thesis using record_tight [OF assms(2,3)] by simp
next
  case (store tid key s)
  show ?thesis
    by (rule marks_tight [OF assms(3)]) (use store assms(3) in \<open>auto simp: bk_store_def books_tight_def split: if_splits\<close>)
next
  case (reap key tid r)
  then show ?thesis using reap_tight [OF assms(2,3)] by simp
next
  case (take_it key tid r)
  then obtain s where "bk_take status b =
      b\<lparr>bk_reaped := None, bk_sub := (bk_sub b)(tid := None), bk_log := (tid, status r s) # bk_log b\<rparr>"
    by (metis take_live [OF assms(2)])
  then show ?thesis
    using take_it assms(3) by (auto simp: books_tight_def)
next
  case (cancel tid abort)
  show ?thesis
    by (rule marks_tight [OF assms(3)])
      (use cancel assms(3) in \<open>auto simp: bk_cancel_def books_tight_def split: option.splits if_splits\<close>)
next
  case (expire tid now abort)
  show ?thesis
    by (rule marks_tight [OF assms(3)])
      (use expire assms(3) in \<open>auto simp: bk_expire_one_def books_tight_def split: option.splits\<close>)
next
  case scan
  then show ?thesis using assms(3) by (auto simp: books_tight_def)
next
  case (visit tid ts)
  then show ?thesis using assms(3) by (auto simp: books_tight_def)
next
  case scanned
  then show ?thesis using assms(3) by (auto simp: books_tight_def)
qed

lemma book_reach_tight: "book_reach False status b0 b \<Longrightarrow> books_inv b0 \<Longrightarrow> books_tight b0 \<Longrightarrow> books_tight b"
  by (induction rule: book_reach.induct) (auto dest: book_step_tight book_reach_inv)

section \<open>What the books guarantee\<close>

definition quiet :: "('a, 'r) books \<Rightarrow> bool" where
  "quiet b \<longleftrightarrow> bk_kernel b = [] \<and> bk_reaped b = None \<and> (\<forall>t. bk_submitting b t = None)"

lemma quiet_settled:
  assumes "books_inv b" "quiet b"
  shows "bk_sub b t = None" and "count_list (bk_accepted b) t = count_list (map fst (bk_log b)) t"
proof -
  have z: "outstanding t b = 0" using assms(2) by (simp add: quiet_def outstanding_def)
  then show "bk_sub b t = None" using books_invD(4) [OF assms(1), of t] by (auto simp: busy_def split: if_splits)
  show "count_list (bk_accepted b) t = count_list (map fst (bk_log b)) t"
    using books_invD(6) [OF assms(1), of t] z by simp
qed

lemma never_twice:
  assumes "books_inv b"
  shows "count_list (map fst (bk_log b)) t \<le> count_list (bk_accepted b) t"
    and "count_list (bk_accepted b) t \<le> count_list (map fst (bk_log b)) t + 1"
  using books_invD(4,6) [OF assms, of t] by (simp_all split: if_splits)

lemma quiet_empty: "books_tight b \<Longrightarrow> quiet b \<Longrightarrow> bk_pending b = []"
  using books_tightD(1) [of b] by (cases "bk_pending b") (auto simp: quiet_def)

text \<open>The deadline of every request the system still owns is among those the event thread sleeps for.\<close>

lemma deadline_covered:
  assumes inv: "books_inv b" and s: "bk_sub b t = Some s" "rq_deadline s = Some d" and k: "(key, t) \<in> set (bk_kernel b)"
  shows "\<exists>e. bk_next_deadline b = Some e \<and> e \<le> d"
proof -
  have "bk_submitting b t = None" using books_invD(3) [OF inv, of t] s(1) by (cases "bk_submitting b t") auto
  then have "(key, t) \<in> set (bk_pending b)" using books_invD(7) [OF inv k] by simp
  then have "d \<in> set (bk_deadlines b)"
    using s by (force simp: bk_deadlines_def List.map_filter_def image_iff)
  then obtain x xs where "bk_deadlines b = x # xs" "d = x \<or> d \<in> set xs" by (cases "bk_deadlines b") auto
  with fold_min_le [of xs x] show ?thesis by (auto simp: bk_next_deadline_def)
qed

lemma expire_request_due:
  assumes "rq_deadline s = Some d" "d \<le> now" "\<not> rq_timed_out s"
  shows "rq_deadline (expire_request now abort s) = None" "rq_timed_out (expire_request now abort s) = abort"
  using assms by (simp_all add: expire_request_def)

lemma expire_request_early: "rq_deadline s = Some d \<Longrightarrow> now < d \<Longrightarrow> expire_request now abort s = s"
  by (simp add: expire_request_def)

section \<open>Issuing first\<close>

text \<open>A thread in the middle of \<open>submit\<close>, waiting for the mutex of \<open>pending\<close>, while the event thread
  holds it and waits for the transfer's.\<close>

definition deadlocked :: "nat \<Rightarrow> ('a, 'r) books \<Rightarrow> bool" where
  "deadlocked tid b \<longleftrightarrow> (\<exists>key s ts. bk_submitting b tid = Some (key, s, False) \<and> bk_scanning b = Some (tid # ts))"

lemma deadlocked_step: "book_step early status b b' \<Longrightarrow> deadlocked tid b \<Longrightarrow> deadlocked tid b'"
  by (erule book_step.cases)
    (auto simp: deadlocked_def bk_issue_def bk_store_def bk_take_def bk_cancel_def split: option.splits if_splits)

lemma deadlocked_forever: "book_reach early status b b' \<Longrightarrow> deadlocked tid b \<Longrightarrow> deadlocked tid b'"
  by (induction rule: book_reach.induct) (auto dest: deadlocked_step)

lemma tight_no_deadlock: "books_tight b \<Longrightarrow> \<not> deadlocked tid b"
proof
  assume t: "books_tight b" "deadlocked tid b"
  then obtain key s ts where d: "bk_submitting b tid = Some (key, s, False)" "bk_scanning b = Some (tid # ts)"
    by (auto simp: deadlocked_def)
  then show False using books_tightD(3) [OF t(1) d(1)] books_tightD(4) [OF t(1) d(2), of tid] by simp
qed

text \<open>The run: the request completes, and its completion is picked up, before \<open>pending\<close> is told.
  The entry made afterwards has no request any more and stays.\<close>

definition early_run :: "nat \<Rightarrow> nat \<Rightarrow> 'a request_scheme \<Rightarrow> 'r \<Rightarrow> ('r \<Rightarrow> 'a request_scheme \<Rightarrow> transfer_status)
    \<Rightarrow> ('a, 'r) books" where
  "early_run key tid s r status =
     bk_take status (bk_store tid (bk_record tid (bk_reap key tid r (bk_issue key tid s books_new))))"

lemma early_run_reach:
  fixes s :: "'a request_scheme" and r :: 'r
  shows "book_reach True status books_new (early_run key tid s r status)"
proof -
  define b1 where "b1 = bk_issue key tid s (books_new :: ('a, 'r) books)"
  define b2 where "b2 = bk_reap key tid r b1"
  define b3 where "b3 = bk_record tid b2"
  define b4 where "b4 = bk_store tid b3"
  note defs = b1_def b2_def b3_def b4_def bk_issue_def bk_reap_def bk_record_def bk_store_def books_new_def
    pending_insert_def pending_remove_def
  have "book_step True status books_new b1" unfolding b1_def
    by (rule book_step.issue) (simp_all add: books_new_def)
  moreover have "book_step True status b1 b2" unfolding b2_def by (rule book_step.reap) (simp_all add: defs)
  moreover have "book_step True status b2 b3" unfolding b3_def
    by (rule book_step.record_it [of _ _ key s]) (simp_all add: defs)
  moreover have "book_step True status b3 b4" unfolding b4_def
    by (rule book_step.store [of _ _ key s]) (simp add: defs)
  moreover have "book_step True status b4 (bk_take status b4)"
    by (rule book_step.take_it [of _ key tid r]) (simp_all add: defs)
  ultimately show ?thesis
    unfolding early_run_def b1_def [symmetric] b2_def [symmetric] b3_def [symmetric] b4_def [symmetric]
    by (meson book_reach.intros)
qed

lemma early_run_state:
  "quiet (early_run key tid s r status)" "bk_pending (early_run key tid s r status) = [(key, tid)]"
  "bk_log (early_run key tid s r status) = [(tid, status r s)]"
  by (simp_all add: early_run_def bk_take_def bk_store_def bk_record_def bk_reap_def bk_issue_def books_new_def
    pending_insert_def pending_remove_def quiet_def)

text \<open>The transfer is submitted again: now \<open>next_deadline\<close> finds the stale entry.\<close>

lemma early_deadlock_reach:
  fixes status :: "'r \<Rightarrow> 'a request_scheme \<Rightarrow> transfer_status"
  shows "\<exists>b. book_reach True status books_new b \<and> deadlocked tid b"
proof -
  fix key :: nat and s :: "'a request_scheme" and r :: 'r
  let ?b0 = "early_run key tid s r status"
  define b1 where "b1 = bk_issue (Suc key) tid s ?b0"
  note defs = early_run_def bk_take_def bk_store_def bk_record_def bk_reap_def bk_issue_def books_new_def
    pending_insert_def pending_remove_def
  have "book_step True status ?b0 b1" unfolding b1_def by (rule book_step.issue) (simp_all add: defs)
  moreover have "book_step True status b1 (b1\<lparr>bk_scanning := Some (map snd (bk_pending b1))\<rparr>)"
    by (rule book_step.scan) (simp_all add: b1_def defs)
  ultimately have "book_reach True status books_new (b1\<lparr>bk_scanning := Some (map snd (bk_pending b1))\<rparr>)"
    using early_run_reach by (meson book_reach.step)
  moreover have "deadlocked tid (b1\<lparr>bk_scanning := Some (map snd (bk_pending b1))\<rparr>)"
    by (simp add: deadlocked_def b1_def defs)
  ultimately show ?thesis by blast
qed

section \<open>Whole operations\<close>

text \<open>The operations of a backend seen one after the other, as paths between states in which no thread is in the
  middle of one.\<close>

definition books_idle :: "('a, 'r) books \<Rightarrow> bool" where
  "books_idle b \<longleftrightarrow> bk_reaped b = None \<and> bk_scanning b = None \<and> (\<forall>t. bk_submitting b t = None)"

lemma book_reach_trans: "book_reach early status b c \<Longrightarrow> book_reach early status a b \<Longrightarrow> book_reach early status a c"
  by (induction rule: book_reach.induct) (auto intro: book_reach.step)

lemma issue_path:
  fixes s :: "'a request_scheme" and b :: "('a, 'r) books"
  assumes inv: "books_inv b" and idle: "books_idle b" and free: "bk_sub b tid = None" and fresh: "key \<notin> fst ` set (bk_kernel b)"
  defines "b' \<equiv> bk_store tid (bk_record tid (bk_issue key tid s b))"
  shows "book_reach early status b b'" "books_idle b'" "bk_kernel b' = (key, tid) # bk_kernel b"
proof -
  define b1 where "b1 = bk_issue key tid s b"
  define b2 where "b2 = bk_record tid b1"
  have b': "b' = bk_store tid b2" by (simp add: b'_def b1_def b2_def)
  have n: "bk_submitting b tid = None" "bk_reaped b = None" "bk_scanning b = None" using idle by (simp_all add: books_idle_def)
  have b2: "b2 = b1\<lparr>bk_pending := pending_insert key tid (bk_pending b1), bk_submitting := (bk_submitting b1)(tid \<mapsto> (key, s, True))\<rparr>"
    by (simp add: b2_def bk_record_def b1_def bk_issue_def)
  have b3: "b' = b2\<lparr>bk_sub := (bk_sub b2)(tid \<mapsto> s), bk_submitting := (bk_submitting b2)(tid := None)\<rparr>"
    by (simp add: b' bk_store_def b2)
  have "book_step early status b b1" unfolding b1_def
    by (rule book_step.issue) (use n free fresh in auto)
  moreover have "book_step early status b1 b2" unfolding b2_def
    by (rule book_step.record_it [of _ _ key s]) (simp_all add: b1_def bk_issue_def n)
  moreover have "book_step early status b2 b'" unfolding b'
    by (rule book_step.store [of _ _ key s]) (simp add: b2)
  ultimately show "book_reach early status b b'" by (meson book_reach.intros)
  show "books_idle b'" using idle by (simp add: books_idle_def b3 b2 b1_def bk_issue_def)
  show "bk_kernel b' = (key, tid) # bk_kernel b" by (simp add: b3 b2 b1_def bk_issue_def)
qed

lemma packet_path:
  fixes r :: 'r and b :: "('a, 'r) books" and status :: "'r \<Rightarrow> 'a request_scheme \<Rightarrow> transfer_status"
  assumes inv: "books_inv b" and idle: "books_idle b" and k: "(key, tid) \<in> set (bk_kernel b)"
  defines "b' \<equiv> bk_take status (bk_reap key tid r b)"
  shows "book_reach early status b b'" "books_idle b'" "bk_kernel b' = remove1 (key, tid) (bk_kernel b)"
    "\<exists>s. bk_sub b tid = Some s \<and> bk_log b' = (tid, status r s) # bk_log b"
proof -
  have n: "\<And>t. bk_submitting b t = None" "bk_reaped b = None" "bk_scanning b = None" using idle by (simp_all add: books_idle_def)
  have s1: "book_step early status b (bk_reap key tid r b)"
    by (rule book_step.reap) (use n k in auto)
  have s2: "book_step early status (bk_reap key tid r b) b'" unfolding b'_def
    by (rule book_step.take_it [of _ key tid r]) (simp_all add: bk_reap_def n)
  from s1 s2 show "book_reach early status b b'" by (meson book_reach.intros)
  have i: "books_inv (bk_reap key tid r b)" using book_step_inv [OF s1 inv] .
  obtain s where s: "bk_sub (bk_reap key tid r b) tid = Some s"
    "b' = (bk_reap key tid r b)\<lparr>bk_reaped := None, bk_sub := (bk_sub (bk_reap key tid r b))(tid := None),
        bk_log := (tid, status r s) # bk_log (bk_reap key tid r b)\<rparr>"
    unfolding b'_def by (rule take_live [OF i, of key tid r]) (simp_all add: bk_reap_def n)
  then show "books_idle b'" "bk_kernel b' = remove1 (key, tid) (bk_kernel b)"
    "\<exists>s. bk_sub b tid = Some s \<and> bk_log b' = (tid, status r s) # bk_log b"
    using idle by (auto simp: books_idle_def bk_reap_def)
qed

lemma cancel_path:
  assumes "books_idle b"
  shows "book_reach early status b (bk_cancel found tid b)" "books_idle (bk_cancel found tid b)"
    "bk_kernel (bk_cancel found tid b) = bk_kernel b"
proof -
  show "book_reach early status b (bk_cancel found tid b)"
    using assms by (meson book_reach.intros book_step.cancel books_idle_def)
  show "books_idle (bk_cancel found tid b)" "bk_kernel (bk_cancel found tid b) = bk_kernel b"
    using assms by (auto simp: bk_cancel_def books_idle_def split: option.split)
qed

lemma fold_path:
  assumes step: "\<And>x b. books_idle b \<Longrightarrow> book_reach early status b (f x b) \<and> books_idle (f x b) \<and> bk_kernel (f x b) = bk_kernel b"
    and "books_idle b"
  shows "book_reach early status b (fold f xs b) \<and> books_idle (fold f xs b) \<and> bk_kernel (fold f xs b) = bk_kernel b"
  using assms(2)
proof (induction xs arbitrary: b)
  case (Cons x xs)
  from Cons.IH [of "f x b"] step [OF Cons.prems, of x] show ?case by (auto intro: book_reach_trans)
qed (simp add: book_reach.refl)

lemma expire_path:
  assumes "books_idle b"
  shows "book_reach early status b (bk_expire now found b) \<and> books_idle (bk_expire now found b)
    \<and> bk_kernel (bk_expire now found b) = bk_kernel b"
  unfolding bk_expire_def
proof (rule fold_path [OF _ assms])
  fix tid and b :: "('a, 'b) books"
  assume i: "books_idle b"
  then have "book_step early status b (bk_expire_one now found tid b)"
    by (simp add: book_step.expire books_idle_def)
  with i show "book_reach early status b (bk_expire_one now found tid b) \<and> books_idle (bk_expire_one now found tid b)
      \<and> bk_kernel (bk_expire_one now found tid b) = bk_kernel b"
    by (auto simp: bk_expire_one_def books_idle_def split: option.split intro: book_reach.intros)
qed

lemma cancel_all_path:
  assumes "books_idle b"
  shows "book_reach early status b (bk_cancel_all found b) \<and> books_idle (bk_cancel_all found b)
    \<and> bk_kernel (bk_cancel_all found b) = bk_kernel b"
  unfolding bk_cancel_all_def by (rule fold_path [OF _ assms]) (simp add: cancel_path)

section \<open>A backend over the books\<close>

text \<open>What a backend has to show of its operations: each keeps its invariant and is a path of the books that ends with
  no thread half way through. Its histories then account for every request.\<close>

locale request_backend =
  fixes status :: "'r \<Rightarrow> 'a request_scheme \<Rightarrow> transfer_status"
    and inv :: "'s \<Rightarrow> bool"
    and bks :: "'s \<Rightarrow> ('a, 'r) books"
    and step :: "'s \<Rightarrow> 's \<Rightarrow> bool"
  assumes inv_idle: "inv s \<Longrightarrow> books_idle (bks s)"
    and step_path: "inv s \<Longrightarrow> step s s' \<Longrightarrow> inv s' \<and> book_reach True status (bks s) (bks s')"
begin

lemma reach_path:
  assumes "step\<^sup>*\<^sup>* s0 s" "inv s0"
  shows "inv s \<and> book_reach True status (bks s0) (bks s)"
  using assms
proof induction
  case base
  then show ?case by (simp add: book_reach.refl)
next
  case (step s s')
  then show ?case using step_path book_reach_trans by blast
qed

lemma accounted:
  assumes "step\<^sup>*\<^sup>* s0 s" "inv s0" "bks s0 = books_new"
  shows "count_list (map fst (bk_log (bks s))) t \<le> count_list (bk_accepted (bks s)) t"
    and "bk_kernel (bks s) = [] \<Longrightarrow> bk_sub (bks s) t = None \<and>
      count_list (bk_accepted (bks s)) t = count_list (map fst (bk_log (bks s))) t"
proof -
  have r: "inv s" "book_reach True status books_new (bks s)" using reach_path [OF assms(1,2)] assms(3) by simp_all
  then have b: "books_inv (bks s)" using book_reach_inv books_new_inv(1) by blast
  then show "count_list (map fst (bk_log (bks s))) t \<le> count_list (bk_accepted (bks s)) t" by (rule never_twice)
  assume "bk_kernel (bks s) = []"
  then have "quiet (bks s)" using inv_idle [OF r(1)] by (simp add: quiet_def books_idle_def)
  then show "bk_sub (bks s) t = None \<and> count_list (bk_accepted (bks s)) t = count_list (map fst (bk_log (bks s))) t"
    using quiet_settled [OF b] by blast
qed

end

end
