(* ===== verification/Win_Handle.thy ===== *)
theory Win_Handle
  imports Win_Enum Usb_Requests Usb_Transfer
begin

text \<open>
  A device opened on Windows, the second half of \<open>src/src/sys/windows/mod.rs\<close>: opening WinUSB, the
  functions of a composite device, claims and their interface handles, submission, isochronous
  streams, cancellation, deadlines, and what the event thread does with a completion packet. The
  Windows calls are a datatype, \<open>wcall\<close>, and the system an arbitrary function from the calls made so
  far, with their answers, to the answer of the next one: \<open>Inl\<close> the code \<open>GetLastError\<close> gives, \<open>Inr\<close>
  the handle or value produced. The calls are kept in the state, so that what is open can be read off
  them, and that nothing is closed, freed or unregistered that is not (\<open>closed_once\<close>, \<open>unregistered_once\<close>). A hash map is the list of its entries in the order it iterates.
\<close>

section \<open>Calls\<close>

datatype wcall =
    CreateFile wstr
  | Initialize nat
  | Associate nat
  | FreeUsb nat
  | CloseFile nat
  | GetAssociated nat u8
  | GetAlt nat
  | SetAlt nat u8
  | ResetPipe nat u8
  | SetPolicy nat u8 bool
  | ControlTransfer nat control_setup nat
  | ReadPipe nat u8 nat
  | WritePipe nat u8 nat
  | RegisterIso nat u8 nat
  | UnregisterIso nat
  | ReadIso nat nat bool nat
  | WriteIso nat nat bool

type_synonym wtrace = "(wcall \<times> (int + nat)) list"
type_synonym win_api = "wtrace \<Rightarrow> wcall \<Rightarrow> int + nat"

text \<open>What a trace, newest call first, has left open: files, WinUSB interface handles and
  registered isochronous buffers.\<close>

fun live_files :: "wtrace \<Rightarrow> nat multiset" where
  "live_files [] = {#}"
| "live_files ((CreateFile p, Inr f) # t) = add_mset f (live_files t)"
| "live_files ((CloseFile f, r) # t) = live_files t - {#f#}"
| "live_files (c # t) = live_files t"

fun live_handles :: "wtrace \<Rightarrow> nat multiset" where
  "live_handles [] = {#}"
| "live_handles ((Initialize f, Inr w) # t) = add_mset w (live_handles t)"
| "live_handles ((GetAssociated w i, Inr h) # t) = add_mset h (live_handles t)"
| "live_handles ((FreeUsb w, r) # t) = live_handles t - {#w#}"
| "live_handles (c # t) = live_handles t"

fun live_buffers :: "wtrace \<Rightarrow> nat multiset" where
  "live_buffers [] = {#}"
| "live_buffers ((RegisterIso h e n, Inr b) # t) = add_mset b (live_buffers t)"
| "live_buffers ((UnregisterIso b, r) # t) = live_buffers t - {#b#}"
| "live_buffers (c # t) = live_buffers t"

text \<open>Each thing is given back while it is live: never twice, and never what was not handed out.\<close>

fun closed_once :: "wtrace \<Rightarrow> bool" where
  "closed_once [] = True"
| "closed_once ((CloseFile f, r) # t) = (f \<in># live_files t \<and> closed_once t)"
| "closed_once ((FreeUsb w, r) # t) = (w \<in># live_handles t \<and> closed_once t)"
| "closed_once (c # t) = closed_once t"

fun unregistered_once :: "wtrace \<Rightarrow> bool" where
  "unregistered_once [] = True"
| "unregistered_once ((UnregisterIso b, r) # t) = (b \<in># live_buffers t \<and> unregistered_once t)"
| "unregistered_once (c # t) = unregistered_once t"

section \<open>State\<close>

record winusb =
  wu_file :: nat
  wu_handle :: nat

record claimed_iface =
  cl_dev :: winusb
  cl_handle :: nat
  cl_owned :: bool
  cl_alt :: u8

text \<open>\<open>WinSub\<close>.\<close>

record win_sub = request +
  ws_ov :: nat
  ws_file :: nat

text \<open>\<open>USBD_ISO_PACKET_DESCRIPTOR\<close> as the driver leaves it, and what a completion packet carries: the
  byte count, the error, and the descriptors of the request's block.\<close>

record iso_slot =
  is_length :: u32
  is_status :: u32

type_synonym completion = "nat \<times> int \<times> iso_slot list"

text \<open>\<open>wh_blocks\<close> are the heap blocks handed to the system, by address, with the isochronous buffer
  each keeps registered.\<close>

record win_handle =
  wh_main :: "winusb option"
  wh_functions :: "(u8 \<times> winusb) list"
  wh_claimed :: "(u8 \<times> claimed_iface) list"
  wh_inflight :: "u8 \<Rightarrow> nat option"
  wh_disconnected :: bool
  wh_books :: "(\<lparr>ws_ov :: nat, ws_file :: nat\<rparr>, completion) books"
  wh_blocks :: "(nat \<times> nat option) list"
  wh_deferred :: "(nat \<times> transfer_status \<times> nat) list"
  wh_trace :: wtrace

text \<open>What never changes about a handle: the device and the configuration parsed when it was opened.\<close>

record win_ctx =
  wc_info :: "win_location device_info"
  wc_cfg :: "config_descriptor option"

definition invoke :: "win_api \<Rightarrow> wcall \<Rightarrow> (win_handle, int + nat) io" where
  "invoke api c = (\<lambda>s. let r = api (wh_trace s) c in (Val r, s\<lparr>wh_trace := (c, r) # wh_trace s\<rparr>))"

abbreviation not_winusb :: usb_error where "not_winusb \<equiv> error_new NotSupported"

section \<open>Opening\<close>

definition winusb_open :: "win_api \<Rightarrow> wstr \<Rightarrow> (win_handle, winusb) io" where
  "winusb_open api path = bindR (invoke api (CreateFile path)) (\<lambda>r. case r of
      Inl e \<Rightarrow> failE (win_os_error e)
    | Inr f \<Rightarrow> bindR (invoke api (Initialize f)) (\<lambda>r. case r of
        Inl e \<Rightarrow> bindR (invoke api (CloseFile f)) (\<lambda>_. failE (win_os_error e))
      | Inr w \<Rightarrow> bindR (invoke api (Associate f)) (\<lambda>r. case r of
          Inl e \<Rightarrow> bindR (invoke api (FreeUsb w)) (\<lambda>_. bindR (invoke api (CloseFile f)) (\<lambda>_. failE (win_os_error e)))
        | Inr _ \<Rightarrow> ret \<lparr>wu_file = f, wu_handle = w\<rparr>)))"

text \<open>The configuration a handle keeps: the one whose value is active, or else the first.\<close>

definition opened_config :: "win_location device_info \<Rightarrow> config_descriptor option option" where
  "opened_config d =
     (let active = (case di_active_config d of None \<Rightarrow> None
            | Some v \<Rightarrow> find (\<lambda>c. idx c 5 = Some v) (di_configs d));
          raw = (case active of Some r \<Rightarrow> Some r | None \<Rightarrow> idx (di_configs d) 0)
      in case raw of None \<Rightarrow> Some None
       | Some r \<Rightarrow> map_option (\<lambda>x. case x of Inr c \<Rightarrow> Some c | Inl e \<Rightarrow> None) (config_from_bytes r))"

definition win_handle_new :: win_handle where
  "win_handle_new = \<lparr>wh_main = None, wh_functions = [], wh_claimed = [], wh_inflight = (\<lambda>_. None),
     wh_disconnected = False, wh_books = books_new, wh_blocks = [], wh_deferred = [], wh_trace = []\<rparr>"

definition win_open :: "win_api \<Rightarrow> win_location device_info \<Rightarrow> (win_handle, win_ctx) io" where
  "win_open api d = bindR (lift_opt (opened_config d)) (\<lambda>cfg.
     bindR (if wl_winusb (di_location d)
            then bindR (winusb_open api (wl_path (di_location d))) (\<lambda>m. mod_st (\<lambda>s. s\<lparr>wh_main := Some m\<rparr>))
            else ret ())
       (\<lambda>_. ret \<lparr>wc_info = d, wc_cfg = cfg\<rparr>))"

section \<open>Functions, claims and their handles\<close>

definition sat_add8 :: "u8 \<Rightarrow> u8 \<Rightarrow> u8" where
  "sat_add8 a b = (if unat a + unat b \<ge> 256 then 255 else a + b)"

definition first_interface_of :: "interface_association list \<Rightarrow> u8 \<Rightarrow> u8" where
  "first_interface_of iads i =
     (case find (\<lambda>a. iad_first_interface a \<le> i \<and> i < sat_add8 (iad_first_interface a) (iad_interface_count a)) iads of
        Some a \<Rightarrow> iad_first_interface a
      | None \<Rightarrow> i)"

definition function_for :: "win_api \<Rightarrow> win_ctx \<Rightarrow> u8 \<Rightarrow> (win_handle, u8 \<times> winusb) io" where
  "function_for api c i = bindR (get_st wh_main) (\<lambda>main. case main of
      Some m \<Rightarrow> ret (0, m)
    | None \<Rightarrow> bindR (case wc_cfg c of None \<Rightarrow> ret [] | Some cfg \<Rightarrow> lift_opt (interface_associations cfg)) (\<lambda>iads.
        let first = first_interface_of iads i in
        case find (\<lambda>f. wf_first_interface f = first) (wl_functions (di_location (wc_info c))) of
          None \<Rightarrow> failE not_winusb
        | Some f \<Rightarrow> bindR (get_st wh_functions) (\<lambda>opened. case map_of opened first of
            Some d \<Rightarrow> ret (first, d)
          | None \<Rightarrow> bindR (winusb_open api (wf_path f)) (\<lambda>d.
              bindR (mod_st (\<lambda>s. s\<lparr>wh_functions := (first, d) # wh_functions s\<rparr>)) (\<lambda>_. ret (first, d))))))"

definition control_handle :: "win_api \<Rightarrow> win_ctx \<Rightarrow> (win_handle, nat option) io" where
  "control_handle api c = bindR (get_st (\<lambda>s. s)) (\<lambda>s. case wh_main s of
      Some m \<Rightarrow> ret (Some (wu_handle m))
    | None \<Rightarrow> (case wh_claimed s of
        (i, cl) # _ \<Rightarrow> ret (Some (cl_handle cl))
      | [] \<Rightarrow> (case wh_functions s of
          (i, d) # _ \<Rightarrow> ret (Some (wu_handle d))
        | [] \<Rightarrow> (case wl_functions (di_location (wc_info c)) of
            [] \<Rightarrow> ret None
          | f # _ \<Rightarrow> matchR (function_for api c (wf_first_interface f))
              (\<lambda>(i, d). ret (Some (wu_handle d))) (\<lambda>_. ret None)))))"

definition control_file :: "win_handle \<Rightarrow> nat" where
  "control_file s = (case wh_main s of
      Some m \<Rightarrow> wu_file m
    | None \<Rightarrow> (case wh_claimed s of
        (i, cl) # _ \<Rightarrow> wu_file (cl_dev cl)
      | [] \<Rightarrow> (case wh_functions s of (i, d) # _ \<Rightarrow> wu_file d | [] \<Rightarrow> 0)))"

text \<open>The endpoint of a claimed interface in its current alternate setting.\<close>

definition claimed_endpoint :: "config_descriptor \<Rightarrow> u8 \<Rightarrow> u8 \<times> claimed_iface \<Rightarrow> endpoint_descriptor option" where
  "claimed_endpoint cfg ep p = (case cfg_interface cfg (fst p) of
      None \<Rightarrow> None
    | Some i \<Rightarrow> (case ig_alt_setting i (cl_alt (snd p)) of
        None \<Rightarrow> None
      | Some alt \<Rightarrow> if_endpoint alt ep))"

definition pipe_owner :: "win_ctx \<Rightarrow> u8 \<Rightarrow> win_handle \<Rightarrow> claimed_iface result" where
  "pipe_owner c ep s = (case wc_cfg c of
      None \<Rightarrow> Err NotFound
    | Some cfg \<Rightarrow> (case find (\<lambda>p. claimed_endpoint cfg ep p \<noteq> None) (wh_claimed s) of
        None \<Rightarrow> Err NotFound
      | Some p \<Rightarrow> Ok (snd p)))"

definition endpoint_max_packet :: "win_ctx \<Rightarrow> u8 \<Rightarrow> win_handle \<Rightarrow> u32 result" where
  "endpoint_max_packet c ep s = (case wc_cfg c of
      None \<Rightarrow> Err NotFound
    | Some cfg \<Rightarrow> (case List.map_filter (claimed_endpoint cfg ep) (wh_claimed s) of
        [] \<Rightarrow> Err NotFound
      | e # _ \<Rightarrow> Ok (case ep_ss_companion e of
            Some sc \<Rightarrow> if ssc_bytes_per_interval sc \<noteq> 0 then ucast (ssc_bytes_per_interval sc) else ep_max_packet_size e
          | None \<Rightarrow> ep_max_packet_size e)))"

definition win_active_configuration :: "win_ctx \<Rightarrow> u8 option result" where
  "win_active_configuration c = Ok (di_active_config (wc_info c))"

definition win_set_configuration :: "win_ctx \<Rightarrow> u8 \<Rightarrow> unit result" where
  "win_set_configuration c v = (if Some v = di_active_config (wc_info c) then Ok () else Err NotSupported)"

text \<open>\<open>claim_interface\<close>; \<open>interface - first\<close> is checked in a debug build, so it panics here when it
  would be negative.\<close>

definition win_claim :: "win_api \<Rightarrow> win_ctx \<Rightarrow> u8 \<Rightarrow> (win_handle, unit) io" where
  "win_claim api c i = bindR (get_st wh_claimed) (\<lambda>claimed.
     if i \<in> fst ` set claimed then ret ()
     else bindR (function_for api c i) (\<lambda>(first, dev).
       bindR (lift_opt (if first \<le> i then Some (i - first) else None)) (\<lambda>index.
       bindR (if index = 0 then ret (wu_handle dev, False)
              else bindR (invoke api (GetAssociated (wu_handle dev) (index - 1))) (\<lambda>r. case r of
                  Inl e \<Rightarrow> failE (win_os_error e)
                | Inr h \<Rightarrow> ret (h, True))) (\<lambda>(h, owned).
       bindR (invoke api (GetAlt h)) (\<lambda>r.
       let alt = (case r of Inr v \<Rightarrow> of_nat v | Inl e \<Rightarrow> 0) in
       mod_st (\<lambda>s. s\<lparr>wh_claimed := (i, \<lparr>cl_dev = dev, cl_handle = h, cl_owned = owned, cl_alt = alt\<rparr>) # wh_claimed s\<rparr>))))))"

text \<open>Dropping a \<open>Claimed\<close>.\<close>

definition drop_claimed :: "win_api \<Rightarrow> claimed_iface \<Rightarrow> (win_handle, unit) io" where
  "drop_claimed api cl = (if cl_owned cl then bindR (invoke api (FreeUsb (cl_handle cl))) (\<lambda>_. ret ()) else ret ())"

definition forget_iso_streams :: "win_ctx \<Rightarrow> u8 \<Rightarrow> win_handle \<Rightarrow> win_handle" where
  "forget_iso_streams c i s = (case wc_cfg c of
      None \<Rightarrow> s
    | Some cfg \<Rightarrow> (case cfg_interface cfg i of
        None \<Rightarrow> s
      | Some g \<Rightarrow> s\<lparr>wh_inflight := fold (\<lambda>e m. m(ep_address e := None))
          (concat (map if_endpoints (ig_alt_settings g))) (wh_inflight s)\<rparr>))"

definition win_release :: "win_api \<Rightarrow> win_ctx \<Rightarrow> u8 \<Rightarrow> (win_handle, unit) io" where
  "win_release api c i = bindR (get_st (\<lambda>s. map_of (wh_claimed s) i)) (\<lambda>cl. case cl of
      None \<Rightarrow> failK NotFound
    | Some cl \<Rightarrow> bindR (mod_st (\<lambda>s. s\<lparr>wh_claimed := filter (\<lambda>p. fst p \<noteq> i) (wh_claimed s)\<rparr>)) (\<lambda>_.
        bindR (mod_st (forget_iso_streams c i)) (\<lambda>_. drop_claimed api cl)))"

definition win_set_alt :: "win_api \<Rightarrow> win_ctx \<Rightarrow> u8 \<Rightarrow> u8 \<Rightarrow> (win_handle, unit) io" where
  "win_set_alt api c i alt = bindR (get_st (\<lambda>s. map_of (wh_claimed s) i)) (\<lambda>cl. case cl of
      None \<Rightarrow> failK NotFound
    | Some cl \<Rightarrow> bindR (invoke api (SetAlt (cl_handle cl) alt)) (\<lambda>r. case r of
        Inl e \<Rightarrow> failE (win_os_error e)
      | Inr _ \<Rightarrow> bindR (mod_st (\<lambda>s. s\<lparr>wh_claimed :=
            map (\<lambda>p. if fst p = i then (i, (snd p)\<lparr>cl_alt := alt\<rparr>) else p) (wh_claimed s)\<rparr>))
          (\<lambda>_. mod_st (forget_iso_streams c i))))"

definition win_clear_halt :: "win_api \<Rightarrow> win_ctx \<Rightarrow> u8 \<Rightarrow> (win_handle, unit) io" where
  "win_clear_halt api c ep = bindR (bindR (get_st (pipe_owner c ep)) lift_res) (\<lambda>cl.
     bindR (invoke api (ResetPipe (cl_handle cl) ep)) (\<lambda>r. case r of
       Inl e \<Rightarrow> failE (win_os_error e)
     | Inr _ \<Rightarrow> mod_st (\<lambda>s. s\<lparr>wh_inflight := (wh_inflight s)(ep := None)\<rparr>)))"

definition win_reset :: "unit result" where
  "win_reset = Err NotSupported"

definition win_kernel_driver_active :: "win_api \<Rightarrow> win_ctx \<Rightarrow> u8 \<Rightarrow> (win_handle, bool) io" where
  "win_kernel_driver_active api c i = bindR (get_st wh_main) (\<lambda>main. case main of
      Some m \<Rightarrow> ret False
    | None \<Rightarrow> matchR (function_for api c i) (\<lambda>_. ret False) (\<lambda>_. ret True))"

definition win_detach_kernel_driver :: "unit result" where
  "win_detach_kernel_driver = Err NotSupported"

definition win_attach_kernel_driver :: "unit result" where
  "win_attach_kernel_driver = Err NotSupported"

text \<open>Dropping the handle: a device opened by \<open>WinUsbDevice::open\<close> is shared between the map of
  functions, or the handle itself, and the claims; it is closed with the last of them. The fields go
  in the order they are declared.\<close>

definition drop_device :: "win_api \<Rightarrow> winusb \<Rightarrow> (win_handle, unit) io" where
  "drop_device api d = bindR (invoke api (FreeUsb (wu_handle d))) (\<lambda>_.
     bindR (invoke api (CloseFile (wu_file d))) (\<lambda>_. ret ()))"

definition opened_devices :: "win_handle \<Rightarrow> winusb list" where
  "opened_devices s = (case wh_main s of Some m \<Rightarrow> [m] | None \<Rightarrow> []) @ map snd (wh_functions s)"

fun drop_claims :: "win_api \<Rightarrow> claimed_iface list \<Rightarrow> (win_handle, unit) io" where
  "drop_claims api [] = ret ()"
| "drop_claims api (cl # cls) = bindR (drop_claimed api cl) (\<lambda>_.
     bindR (if cl_dev cl \<in> cl_dev ` set cls then ret () else drop_device api (cl_dev cl)) (\<lambda>_.
       drop_claims api cls))"

definition win_drop :: "win_api \<Rightarrow> (win_handle, unit) io" where
  "win_drop api = bindR (get_st (\<lambda>s. s)) (\<lambda>s.
     let cls = map snd (wh_claimed s) in
     bindR (for_each (filter (\<lambda>d. d \<notin> cl_dev ` set cls) (opened_devices s)) (drop_device api)) (\<lambda>_.
     bindR (drop_claims api cls) (\<lambda>_.
       mod_st (\<lambda>s. s\<lparr>wh_main := None, wh_functions := [], wh_claimed := []\<rparr>))))"

section \<open>What is open\<close>

lemma invoke_run [simp]: "invoke api c s = (Val (api (wh_trace s) c), s\<lparr>wh_trace := (c, api (wh_trace s) c) # wh_trace s\<rparr>)"
  by (simp add: invoke_def Let_def)

definition left_open :: "win_handle \<Rightarrow> nat multiset \<times> nat multiset \<times> nat multiset \<times> bool" where
  "left_open s = (live_files (wh_trace s), live_handles (wh_trace s), live_buffers (wh_trace s), closed_once (wh_trace s))"

text \<open>Nothing but the calls has changed, and they have left the same things open.\<close>

definition same_open :: "win_handle \<Rightarrow> win_handle \<Rightarrow> bool" where
  "same_open s s' \<longleftrightarrow> left_open s' = left_open s \<and> s' = s\<lparr>wh_trace := wh_trace s'\<rparr>"

lemma same_open_refl [simp]: "same_open s s" by (simp add: same_open_def)

lemma same_open_trans: "same_open a b \<Longrightarrow> same_open b c \<Longrightarrow> same_open a c"
  unfolding same_open_def by (metis win_handle.surjective win_handle.update_convs(9))

lemma winusb_open_Val:
  assumes "winusb_open api path s = (Val d, s')"
  shows "left_open s' = (add_mset (wu_file d) (live_files (wh_trace s)), add_mset (wu_handle d) (live_handles (wh_trace s)),
      live_buffers (wh_trace s), closed_once (wh_trace s))"
    and "s' = s\<lparr>wh_trace := wh_trace s'\<rparr>"
  using assms by (auto simp: winusb_open_def bindR_def left_open_def split: sum.splits)

lemma winusb_open_Fail:
  assumes "winusb_open api path s = (Fail e, s')"
  shows "same_open s s'"
  using assms by (auto simp: winusb_open_def bindR_def same_open_def left_open_def split: sum.splits)

lemma winusb_open_no_panic: "fst (winusb_open api path s) \<noteq> Panic"
  by (auto simp: winusb_open_def bindR_def split: sum.splits)

text \<open>What the system guarantees: it does not hand out what is still open.\<close>

definition fresh_handles :: "win_api \<Rightarrow> bool" where
  "fresh_handles api \<longleftrightarrow>
     (\<forall>t p f. api t (CreateFile p) = Inr f \<longrightarrow> f \<notin># live_files t) \<and>
     (\<forall>t f w. api t (Initialize f) = Inr w \<longrightarrow> w \<notin># live_handles t) \<and>
     (\<forall>t w i h. api t (GetAssociated w i) = Inr h \<longrightarrow> h \<notin># live_handles t)"

definition owned_handles :: "win_handle \<Rightarrow> nat list" where
  "owned_handles s = map cl_handle (filter cl_owned (map snd (wh_claimed s)))"

definition handles_inv :: "win_handle \<Rightarrow> bool" where
  "handles_inv s \<longleftrightarrow> live_files (wh_trace s) = mset (map wu_file (opened_devices s))
     \<and> live_handles (wh_trace s) = mset (map wu_handle (opened_devices s)) + mset (owned_handles s)
     \<and> distinct (map wu_file (opened_devices s))
     \<and> (\<forall>p \<in> set (wh_claimed s). cl_dev (snd p) \<in> set (opened_devices s))
     \<and> distinct (map fst (wh_claimed s)) \<and> closed_once (wh_trace s)"

lemma handles_inv_same: "handles_inv s \<Longrightarrow> same_open s s' \<Longrightarrow> handles_inv s'"
  unfolding handles_inv_def same_open_def left_open_def opened_devices_def owned_handles_def
  by (metis (no_types, lifting) prod.inject win_handle.select_convs(1,2,3,9) win_handle.surjective win_handle.update_convs(9))

lemma winusb_open_fresh:
  assumes "winusb_open api path s = (Val d, s')" "fresh_handles api"
  shows "wu_file d \<notin># live_files (wh_trace s)"
  using assms by (auto simp: winusb_open_def bindR_def fresh_handles_def split: sum.splits)

lemma function_for_run:
  assumes inv: "handles_inv s" and fresh: "fresh_handles api" and run: "function_for api c i s = (r, s')"
  shows "handles_inv s' \<and> wh_claimed s' = wh_claimed s
    \<and> (\<forall>first d. r = Val (first, d) \<longrightarrow> d \<in> set (opened_devices s'))"
proof (cases "wh_main s")
  case (Some m)
  then show ?thesis using run inv by (auto simp: function_for_def bindR_def opened_devices_def)
next
  case None
  define iads where "iads = (case wc_cfg c of None \<Rightarrow> Some [] | Some cfg \<Rightarrow> interface_associations cfg)"
  have step: "function_for api c i s = (case iads of None \<Rightarrow> (Panic, s) | Some l \<Rightarrow>
      (case find (\<lambda>f. wf_first_interface f = first_interface_of l i) (wl_functions (di_location (wc_info c))) of
        None \<Rightarrow> (Fail not_winusb, s)
      | Some f \<Rightarrow> (case map_of (wh_functions s) (first_interface_of l i) of
          Some d \<Rightarrow> (Val (first_interface_of l i, d), s)
        | None \<Rightarrow> (case winusb_open api (wf_path f) s of
            (Val d, t) \<Rightarrow> (Val (first_interface_of l i, d), t\<lparr>wh_functions := (first_interface_of l i, d) # wh_functions t\<rparr>)
          | (Fail e, t) \<Rightarrow> (Fail e, t)
          | (Panic, t) \<Rightarrow> (Panic, t)))))"
    unfolding function_for_def iads_def using None
    by (auto simp: bindR_def lift_opt_def Let_def split: option.splits prod.splits out.splits)
  show ?thesis
  proof (cases iads)
    case None
    then show ?thesis using run inv by (simp add: step)
  next
    case (Some l)
    let ?first = "first_interface_of l i"
    show ?thesis
    proof (cases "find (\<lambda>f. wf_first_interface f = ?first) (wl_functions (di_location (wc_info c)))")
      case None
      then show ?thesis using run inv Some by (auto simp: step)
    next
      case f: (Some f)
      show ?thesis
      proof (cases "map_of (wh_functions s) ?first")
        case (Some d)
        then have "d \<in> set (opened_devices s)" by (force simp: opened_devices_def dest: map_of_SomeD)
        then show ?thesis using run inv Some f \<open>iads = Some l\<close> by (auto simp: step)
      next
        case new: None
        obtain q t where o: "winusb_open api (wf_path f) s = (q, t)" by fastforce
        show ?thesis
        proof (cases q)
          case (Val d)
          note op = winusb_open_Val [OF o [unfolded Val]] and fr = winusb_open_fresh [OF o [unfolded Val] fresh]
          from op(2) obtain tr where t: "t = s\<lparr>wh_trace := tr\<rparr>" by blast
          have s': "s' = t\<lparr>wh_functions := (?first, d) # wh_functions t\<rparr>" "r = Val (?first, d)"
            using run Some f new o Val by (simp_all add: step)
          then show ?thesis
            using inv op(1) fr \<open>wh_main s = None\<close>
            by (simp add: handles_inv_def t left_open_def opened_devices_def owned_handles_def)
        next
          case (Fail e)
          then have so: "same_open s t" using winusb_open_Fail o by blast
          then have "wh_claimed t = wh_claimed s" unfolding same_open_def
            by (metis win_handle.select_convs(3) win_handle.surjective win_handle.update_convs(9))
          then show ?thesis using handles_inv_same [OF inv so] run Some f new o Fail by (auto simp: step)
        next
          case Panic
          then show ?thesis using winusb_open_no_panic [of api "wf_path f" s] o by simp
        qed
      qed
    qed
  qed
qed

lemma invoke_neutral:
  assumes "handles_inv s" "live_files ((c, api (wh_trace s) c) # wh_trace s) = live_files (wh_trace s)"
    "live_handles ((c, api (wh_trace s) c) # wh_trace s) = live_handles (wh_trace s)"
    "closed_once ((c, api (wh_trace s) c) # wh_trace s) = closed_once (wh_trace s)"
  shows "handles_inv (s\<lparr>wh_trace := (c, api (wh_trace s) c) # wh_trace s\<rparr>)"
  using assms by (auto simp: handles_inv_def opened_devices_def owned_handles_def)

lemma claim_run:
  assumes inv: "handles_inv s" and fresh: "fresh_handles api"
  shows "handles_inv (snd (win_claim api c i s))"
proof (cases "i \<in> fst ` set (wh_claimed s)")
  case True
  then show ?thesis using inv by (simp add: win_claim_def bindR_def)
next
  case new: False
  obtain r t where f: "function_for api c i s = (r, t)" by fastforce
  note fr = function_for_run [OF inv fresh f]
  show ?thesis
  proof (cases "\<exists>first d. r = Val (first, d) \<and> first \<le> i")
    case False
    then have "snd (win_claim api c i s) = t"
      using new f by (auto simp: win_claim_def bindR_def lift_opt_def split: out.splits prod.splits)
    then show ?thesis using fr by simp
  next
    case True
    then obtain first d where r: "r = Val (first, d)" "first \<le> i" by blast
    have d: "d \<in> set (opened_devices t)" and t: "handles_inv t" "i \<notin> fst ` set (wh_claimed t)"
      using fr r new by auto
    let ?h = "api (wh_trace t) (GetAssociated (wu_handle d) (i - first - 1))"
    let ?t1 = "t\<lparr>wh_trace := (GetAssociated (wu_handle d) (i - first - 1), ?h) # wh_trace t\<rparr>"
    show ?thesis
    proof (cases "i - first = 0")
      case True
      then show ?thesis using new f r d t
        by (auto simp: win_claim_def bindR_def handles_inv_def opened_devices_def owned_handles_def Let_def)
    next
      case idx: False
      show ?thesis
      proof (cases ?h)
        case (Inl e)
        then have "snd (win_claim api c i s) = ?t1" using new f r idx by (simp add: win_claim_def bindR_def)
        then show ?thesis using invoke_neutral [OF t(1), of "GetAssociated (wu_handle d) (i - first - 1)" api] Inl by simp
      next
        case (Inr h)
        then show ?thesis using new f r idx d t
          by (auto simp: win_claim_def bindR_def handles_inv_def opened_devices_def owned_handles_def Let_def)
      qed
    qed
  qed
qed

lemma forget_iso_fields:
  "wh_main (forget_iso_streams c i s) = wh_main s" "wh_functions (forget_iso_streams c i s) = wh_functions s"
  "wh_claimed (forget_iso_streams c i s) = wh_claimed s" "wh_trace (forget_iso_streams c i s) = wh_trace s"
  "wh_books (forget_iso_streams c i s) = wh_books s" "wh_blocks (forget_iso_streams c i s) = wh_blocks s"
  by (simp_all add: forget_iso_streams_def split: option.split)

lemma filter_claims:
  "distinct (map fst cls) \<Longrightarrow> map_of cls i = Some cl \<Longrightarrow>
     mset (map cl_handle (filter cl_owned (map snd cls)))
       = mset (map cl_handle (filter cl_owned (map snd (filter (\<lambda>p. fst p \<noteq> i) cls))))
         + (if cl_owned cl then {#cl_handle cl#} else {#})"
proof (induction cls)
  case (Cons p cls)
  show ?case
  proof (cases "fst p = i")
    case True
    then have "filter (\<lambda>p. fst p \<noteq> i) cls = cls" "snd p = cl"
      using Cons.prems by (cases p; auto simp: filter_id_conv)+
    then have "filter (\<lambda>p. fst p \<noteq> i) (p # cls) = cls" "snd p = cl" using True by simp_all
    then show ?thesis by (simp only: list.map filter.simps) simp
  next
    case False
    then show ?thesis using Cons by (cases p) auto
  qed
qed simp

lemma release_run:
  assumes inv: "handles_inv s"
  shows "handles_inv (snd (win_release api c i s))"
proof (cases "map_of (wh_claimed s) i")
  case None
  then show ?thesis using inv by (simp add: win_release_def bindR_def)
next
  case (Some cl)
  have d: "distinct (map fst (wh_claimed s))" using inv by (simp add: handles_inv_def)
  let ?s1 = "s\<lparr>wh_claimed := filter (\<lambda>p. fst p \<noteq> i) (wh_claimed s)\<rparr>"
  note fc = filter_claims [OF d Some]
  have run: "snd (win_release api c i s) = snd (drop_claimed api cl (forget_iso_streams c i ?s1))"
    using Some by (simp add: win_release_def bindR_def)
  have keep: "\<forall>p \<in> set (wh_claimed ?s1). cl_dev (snd p) \<in> set (opened_devices s)" "distinct (map fst (wh_claimed ?s1))"
    using inv distinct_map_filter [OF d, of "\<lambda>p. fst p \<noteq> i"] by (simp_all add: handles_inv_def)
  show ?thesis
  proof (cases "cl_owned cl")
    case True
    then show ?thesis unfolding run using inv fc keep
      by (simp add: drop_claimed_def bindR_def handles_inv_def forget_iso_fields opened_devices_def owned_handles_def)
  next
    case False
    then show ?thesis unfolding run using inv fc keep
      by (simp add: drop_claimed_def handles_inv_def forget_iso_fields opened_devices_def owned_handles_def)
  qed
qed

lemma set_alt_run:
  assumes inv: "handles_inv s"
  shows "handles_inv (snd (win_set_alt api c i alt s))"
proof (cases "map_of (wh_claimed s) i")
  case None
  then show ?thesis using inv by (simp add: win_set_alt_def bindR_def)
next
  case (Some cl)
  define cls where "cls = map (\<lambda>p. if fst p = i then (i, (snd p)\<lparr>cl_alt := alt\<rparr>) else p) (wh_claimed s)"
  have "map fst cls = map fst (wh_claimed s)" by (auto simp: cls_def)
  moreover have "\<forall>p \<in> set cls. cl_dev (snd p) \<in> set (opened_devices s)"
    using inv by (auto simp: cls_def handles_inv_def)
  moreover have "map cl_handle (filter cl_owned (map snd cls)) = map cl_handle (filter cl_owned (map snd (wh_claimed s)))"
    unfolding cls_def by (induction "wh_claimed s") (auto simp: comp_def filter_map)
  ultimately have "handles_inv (s\<lparr>wh_claimed := cls\<rparr>)"
    using inv unfolding handles_inv_def by (simp add: opened_devices_def owned_handles_def)
  then show ?thesis using inv Some
    by (auto simp: win_set_alt_def bindR_def handles_inv_def forget_iso_fields opened_devices_def owned_handles_def
        cls_def [symmetric] split: sum.split)
qed

lemma clear_halt_run:
  assumes inv: "handles_inv s"
  shows "handles_inv (snd (win_clear_halt api c ep s))"
  using inv by (auto simp: win_clear_halt_def bindR_def lift_res_def handles_inv_def opened_devices_def
      owned_handles_def split: sum.split out.split prod.splits)

section \<open>Dropping a handle closes everything\<close>

lemma drop_device_run:
  obtains tr where "drop_device api d s = (Val (), s\<lparr>wh_trace := tr\<rparr>)"
    "live_files tr = live_files (wh_trace s) - {#wu_file d#}"
    "live_handles tr = live_handles (wh_trace s) - {#wu_handle d#}"
    "closed_once tr \<longleftrightarrow> closed_once (wh_trace s) \<and> wu_file d \<in># live_files (wh_trace s) \<and> wu_handle d \<in># live_handles (wh_trace s)"
proof -
  let ?t = "(FreeUsb (wu_handle d), api (wh_trace s) (FreeUsb (wu_handle d))) # wh_trace s"
  show ?thesis
    by (rule that [of "(CloseFile (wu_file d), api ?t (CloseFile (wu_file d))) # ?t"]) (auto simp: drop_device_def bindR_def)
qed

lemma drop_claimed_run:
  obtains tr where "drop_claimed api cl s = (Val (), s\<lparr>wh_trace := tr\<rparr>)" "live_files tr = live_files (wh_trace s)"
    "live_handles tr = live_handles (wh_trace s) - (if cl_owned cl then {#cl_handle cl#} else {#})"
    "closed_once tr \<longleftrightarrow> closed_once (wh_trace s) \<and> (cl_owned cl \<longrightarrow> cl_handle cl \<in># live_handles (wh_trace s))"
proof (cases "cl_owned cl")
  case True
  then show ?thesis
    by (intro that [of "(FreeUsb (cl_handle cl), api (wh_trace s) (FreeUsb (cl_handle cl))) # wh_trace s"])
      (auto simp add: drop_claimed_def bindR_def)
next
  case False
  then show ?thesis by (intro that [of "wh_trace s"]) (simp_all add: drop_claimed_def)
qed

lemma drop_devices_run:
  "\<exists>tr. for_each ds (drop_device api) s = (Val (), s\<lparr>wh_trace := tr\<rparr>)
     \<and> live_files tr = live_files (wh_trace s) - mset (map wu_file ds)
     \<and> live_handles tr = live_handles (wh_trace s) - mset (map wu_handle ds)
     \<and> (closed_once (wh_trace s) \<and> mset (map wu_file ds) \<subseteq># live_files (wh_trace s)
          \<and> mset (map wu_handle ds) \<subseteq># live_handles (wh_trace s) \<longrightarrow> closed_once tr)"
proof (induction ds arbitrary: s)
  case Nil
  then show ?case by (intro exI [of _ "wh_trace s"]) simp
next
  case (Cons d ds)
  obtain tr where t: "drop_device api d s = (Val (), s\<lparr>wh_trace := tr\<rparr>)"
    "live_files tr = live_files (wh_trace s) - {#wu_file d#}"
    "live_handles tr = live_handles (wh_trace s) - {#wu_handle d#}"
    "closed_once tr \<longleftrightarrow> closed_once (wh_trace s) \<and> wu_file d \<in># live_files (wh_trace s) \<and> wu_handle d \<in># live_handles (wh_trace s)"
    by (rule drop_device_run)
  from Cons.IH [of "s\<lparr>wh_trace := tr\<rparr>"] show ?case by (auto simp: bindR_def t insert_subset_eq_iff)
qed

lemma drop_claims_run:
  assumes "live_files (wh_trace s) = mset (map wu_file D)"
    and "live_handles (wh_trace s) = mset (map wu_handle D) + mset (map cl_handle (filter cl_owned cls))"
    and "distinct D" "set D = cl_dev ` set cls" "closed_once (wh_trace s)"
  shows "\<exists>tr. drop_claims api cls s = (Val (), s\<lparr>wh_trace := tr\<rparr>) \<and> live_files tr = {#} \<and> live_handles tr = {#} \<and> closed_once tr"
  using assms
proof (induction cls arbitrary: s D)
  case Nil
  then show ?case by (intro exI [of _ "wh_trace s"]) simp
next
  case (Cons cl cls)
  obtain t where t: "drop_claimed api cl s = (Val (), s\<lparr>wh_trace := t\<rparr>)" "live_files t = live_files (wh_trace s)"
    "live_handles t = live_handles (wh_trace s) - (if cl_owned cl then {#cl_handle cl#} else {#})"
    "closed_once t \<longleftrightarrow> closed_once (wh_trace s) \<and> (cl_owned cl \<longrightarrow> cl_handle cl \<in># live_handles (wh_trace s))"
    by (rule drop_claimed_run)
  have c: "closed_once t" using t(4) Cons.prems(2,5) by simp
  have h: "live_handles t = mset (map wu_handle D) + mset (map cl_handle (filter cl_owned cls))"
    using t(3) Cons.prems(2) by auto
  show ?case
  proof (cases "cl_dev cl \<in> cl_dev ` set cls")
    case True
    then have run: "drop_claims api (cl # cls) s = drop_claims api cls (s\<lparr>wh_trace := t\<rparr>)" by (simp add: bindR_def t(1))
    have "set D = cl_dev ` set cls" using Cons.prems(4) True by auto
    with Cons.IH [of "s\<lparr>wh_trace := t\<rparr>" D] h c t(2) Cons.prems(1,3) show ?thesis unfolding run by simp
  next
    case False
    obtain u where u: "drop_device api (cl_dev cl) (s\<lparr>wh_trace := t\<rparr>) = (Val (), s\<lparr>wh_trace := u\<rparr>)"
      "live_files u = live_files t - {#wu_file (cl_dev cl)#}" "live_handles u = live_handles t - {#wu_handle (cl_dev cl)#}"
      "closed_once u \<longleftrightarrow> closed_once t \<and> wu_file (cl_dev cl) \<in># live_files t \<and> wu_handle (cl_dev cl) \<in># live_handles t"
      by (rule drop_device_run [of api "cl_dev cl" "s\<lparr>wh_trace := t\<rparr>"]) simp
    have run: "drop_claims api (cl # cls) s = drop_claims api cls (s\<lparr>wh_trace := u\<rparr>)"
      using False by (simp add: bindR_def t(1) u(1))
    have D: "cl_dev cl \<in> set D" using Cons.prems(4) by simp
    let ?D = "remove1 (cl_dev cl) D"
    have sD: "mset D = add_mset (cl_dev cl) (mset ?D)" using D by simp
    have fD: "mset (map wu_file D) = add_mset (wu_file (cl_dev cl)) (mset (map wu_file ?D))"
      by (simp only: mset_map sD) simp
    have hD: "mset (map wu_handle D) = add_mset (wu_handle (cl_dev cl)) (mset (map wu_handle ?D))"
      by (simp only: mset_map sD) simp
    have "live_files u = mset (map wu_file ?D)" unfolding u(2) t(2) Cons.prems(1) fD by simp
    moreover have "live_handles u = mset (map wu_handle ?D) + mset (map cl_handle (filter cl_owned cls))"
      unfolding u(3) h hD by simp
    moreover have "closed_once u" unfolding u(4) h t(2) Cons.prems(1) fD hD using c by simp
    moreover have "set ?D = cl_dev ` set cls" using Cons.prems(3,4) False by (auto simp: set_remove1_eq)
    ultimately show ?thesis unfolding run
      using Cons.IH [of "s\<lparr>wh_trace := u\<rparr>" ?D] Cons.prems(3) by simp
  qed
qed

lemma mset_filter_split: "mset (map f (filter P xs)) + mset (map f (filter (\<lambda>x. \<not> P x) xs)) = mset (map f xs)"
  by (induction xs) auto

lemma win_drop_closes:
  assumes inv: "handles_inv s"
  shows "fst (win_drop api s) = Val ()"
    "live_files (wh_trace (snd (win_drop api s))) = {#}" "live_handles (wh_trace (snd (win_drop api s))) = {#}"
    "closed_once (wh_trace (snd (win_drop api s)))"
proof -
  let ?cls = "map snd (wh_claimed s)" and ?ds = "opened_devices s"
  let ?P = "\<lambda>d. d \<notin> cl_dev ` set ?cls"
  obtain t where t: "for_each (filter ?P ?ds) (drop_device api) s = (Val (), s\<lparr>wh_trace := t\<rparr>)"
    "live_files t = live_files (wh_trace s) - mset (map wu_file (filter ?P ?ds))"
    "live_handles t = live_handles (wh_trace s) - mset (map wu_handle (filter ?P ?ds))"
    "closed_once (wh_trace s) \<and> mset (map wu_file (filter ?P ?ds)) \<subseteq># live_files (wh_trace s)
      \<and> mset (map wu_handle (filter ?P ?ds)) \<subseteq># live_handles (wh_trace s) \<longrightarrow> closed_once t"
    using drop_devices_run by blast
  let ?D = "filter (\<lambda>d. \<not> ?P d) ?ds"
  have i: "live_files (wh_trace s) = mset (map wu_file ?ds)"
    "live_handles (wh_trace s) = mset (map wu_handle ?ds) + mset (map cl_handle (filter cl_owned ?cls))"
    "distinct (map wu_file ?ds)" "\<forall>p \<in> set (wh_claimed s). cl_dev (snd p) \<in> set ?ds" "closed_once (wh_trace s)"
    using inv by (simp_all add: handles_inv_def owned_handles_def)
  have f: "live_files t = mset (map wu_file ?D)"
    unfolding t(2) i(1) mset_filter_split [of wu_file ?P ?ds, symmetric] by simp
  have h: "live_handles t = mset (map wu_handle ?D) + mset (map cl_handle (filter cl_owned ?cls))"
    unfolding t(3) i(2) mset_filter_split [of wu_handle ?P ?ds, symmetric] by simp
  have sub: "mset (map f (filter ?P ?ds)) \<subseteq># mset (map f ?ds)" for f :: "winusb \<Rightarrow> nat"
    unfolding mset_filter_split [of f ?P ?ds, symmetric] by simp
  have c: "closed_once t"
    using t(4) i(5) sub [of wu_file] subset_mset.order_trans [OF sub [of wu_handle] mset_subset_eq_add_left] unfolding i(1,2) by blast
  have d: "distinct ?D" using i(3) by (simp add: distinct_map)
  have sD: "set ?D = cl_dev ` set ?cls" using i(4) by auto
  obtain u where u: "drop_claims api ?cls (s\<lparr>wh_trace := t\<rparr>) = (Val (), s\<lparr>wh_trace := u\<rparr>)"
    "live_files u = {#}" "live_handles u = {#}" "closed_once u"
    using drop_claims_run [of "s\<lparr>wh_trace := t\<rparr>" ?D ?cls api] f h d sD c by auto
  have "win_drop api s = (Val (), s\<lparr>wh_trace := u, wh_main := None, wh_functions := [], wh_claimed := []\<rparr>)"
    by (simp add: win_drop_def bindR_def t(1) u(1) Let_def del: set_map)
  then show "fst (win_drop api s) = Val ()" "live_files (wh_trace (snd (win_drop api s))) = {#}"
    "live_handles (wh_trace (snd (win_drop api s))) = {#}" "closed_once (wh_trace (snd (win_drop api s)))" using u by simp_all
qed

section \<open>Submitting\<close>

text \<open>An API that may be missing at run time is a flag; a request the system accepts answers
  \<open>Inr\<close>, or \<open>Inl 997\<close>, the code of a request that is pending.\<close>

abbreviation (input) IO_PENDING :: int where "IO_PENDING \<equiv> 997"

definition deadline_of :: "nat \<Rightarrow> 'c transfer \<Rightarrow> nat option" where
  "deadline_of now t = (if tr_timeout t = 0 then None else Some (now + tr_timeout t * 1000000))"

text \<open>The tail of \<open>submit\<close>: a refusal drops the block, with the buffer it keeps registered; an
  accepted request is entered in the books.\<close>

definition drop_block :: "win_api \<Rightarrow> nat option \<Rightarrow> (win_handle, unit) io" where
  "drop_block api reg = (case reg of
      None \<Rightarrow> ret ()
    | Some b \<Rightarrow> bindR (invoke api (UnregisterIso b)) (\<lambda>_. ret ()))"

definition issued :: "nat \<Rightarrow> nat \<Rightarrow> nat \<Rightarrow> 'c transfer \<Rightarrow> nat option \<Rightarrow> nat \<Rightarrow> win_handle \<Rightarrow> win_handle" where
  "issued key tid now t reg file s = s\<lparr>wh_blocks := (key, reg) # wh_blocks s,
     wh_books := bk_store tid (bk_record tid (bk_issue key tid
       \<lparr>rq_deadline = deadline_of now t, rq_cancelled = False, rq_timed_out = False, ws_ov = key, ws_file = file\<rparr>
       (wh_books s)))\<rparr>"

definition accepted :: "int + nat \<Rightarrow> bool" where
  "accepted r = (case r of Inl e \<Rightarrow> e = IO_PENDING | Inr _ \<Rightarrow> True)"

definition settle :: "nat \<Rightarrow> nat \<Rightarrow> nat \<Rightarrow> 'c transfer \<Rightarrow> nat \<Rightarrow> int + nat \<Rightarrow> (win_handle, bytes) io" where
  "settle key tid now t file r =
     (if accepted r then bindR (mod_st (issued key tid now t None file)) (\<lambda>_. ret (tr_buffer t))
      else (case r of Inl e \<Rightarrow> failE (win_os_error e) | Inr _ \<Rightarrow> ret (tr_buffer t)))"

text \<open>\<open>prepare_isochronous\<close>'s check of the packets, by position from \<open>i\<close>, and its end.\<close>

definition packet_ok :: "bool \<Rightarrow> u32 \<Rightarrow> bool \<Rightarrow> iso_packet \<Rightarrow> bool" where
  "packet_ok is_in max_packet last_one p \<longleftrightarrow> iso_length p = max_packet
     \<or> (\<not> is_in \<and> last_one \<and> iso_length p \<le> max_packet)"

fun packets_ok :: "bool \<Rightarrow> u32 \<Rightarrow> iso_packet list \<Rightarrow> bool" where
  "packets_ok is_in m [] = True"
| "packets_ok is_in m (p # ps) = (packet_ok is_in m (ps = []) p \<and> packets_ok is_in m ps)"

definition is_in_ep :: "u8 \<Rightarrow> bool" where
  "is_in_ep ep \<longleftrightarrow> ep AND 0x80 \<noteq> 0"

definition inflight_of :: "win_handle \<Rightarrow> u8 \<Rightarrow> nat" where
  "inflight_of s ep = (case wh_inflight s ep of Some n \<Rightarrow> n | None \<Rightarrow> 0)"

definition submit_iso :: "win_api \<Rightarrow> win_ctx \<Rightarrow> nat \<Rightarrow> nat \<Rightarrow> nat \<Rightarrow> 'c transfer \<Rightarrow> (win_handle, bytes) io" where
  "submit_iso api c key tid now t =
     (let ep = tr_endpoint t; total = iso_total t; len = length (tr_buffer t) in
      bindR (bindR (get_st (pipe_owner c ep)) lift_res) (\<lambda>cl.
      bindR (bindR (get_st (endpoint_max_packet c ep)) lift_res) (\<lambda>m.
      if \<not> packets_ok (is_in_ep ep) m (tr_iso t) then failK InvalidParam
      else if total > len then failK InvalidParam
      else bindR (invoke api (RegisterIso (cl_handle cl) ep len)) (\<lambda>r. case r of
        Inl e \<Rightarrow> failE (win_os_error e)
      | Inr b \<Rightarrow> bindR (get_st (\<lambda>s. 0 < inflight_of s ep)) (\<lambda>join.
          bindR (invoke api (if is_in_ep ep then ReadIso b total join (length (tr_iso t)) else WriteIso b total join)) (\<lambda>r.
          if accepted r
          then bindR (mod_st (\<lambda>s. s\<lparr>wh_inflight := (wh_inflight s)(ep \<mapsto> inflight_of s ep + 1)\<rparr>)) (\<lambda>_.
               bindR (mod_st (issued key tid now t (Some b) (wu_file (cl_dev cl)))) (\<lambda>_. ret (tr_buffer t)))
          else bindR (drop_block api (Some b)) (\<lambda>_.
               case r of Inl e \<Rightarrow> failE (win_os_error e) | Inr _ \<Rightarrow> ret (tr_buffer t))))))))"

text \<open>\<open>hub_control\<close> on the data part of the buffer; the completion is left for the event thread.\<close>

definition hub_control :: "win_env \<Rightarrow> win_ctx \<Rightarrow> nat \<Rightarrow> control_setup \<Rightarrow> bytes \<Rightarrow> (win_handle, bytes) io" where
  "hub_control env c tid su data =
     (if \<not> (cs_request_type su = 0x80 \<and> cs_request su = GET_DESCRIPTOR) then failE not_winusb
      else case wl_hub_path (di_location (wc_info c)) of
        None \<Rightarrow> failE not_winusb
      | Some path \<Rightarrow> bindR (lift_res (open_hub env path)) (\<lambda>hub.
          let len = min (length data) (unat (cs_length su));
              res = hub_get_descriptor env hub (wl_port (di_location (wc_info c))) (cs_value su) (cs_index su) (take len data);
              (st, n, out) = (case res of
                  Inr (n, out) \<Rightarrow> (Completed, n, out)
                | Inl e \<Rightarrow> (if err_kind e = NoDevice then StNoDevice else Stall, 0, take len data))
          in bindR (mod_st (\<lambda>s. s\<lparr>wh_deferred := wh_deferred s @ [(tid, st, n)]\<rparr>)) (\<lambda>_. ret (out @ drop len data))))"

text \<open>The branch of control transfers; the caller has checked that the setup packet is there.\<close>

definition submit_control :: "win_api \<Rightarrow> win_env \<Rightarrow> win_ctx \<Rightarrow> nat \<Rightarrow> nat \<Rightarrow> nat \<Rightarrow> 'c transfer \<Rightarrow> (win_handle, bytes) io" where
  "submit_control api env c key tid now t =
     bindR (lift_opt (slice (tr_buffer t) 0 8)) (\<lambda>head.
       let su = setup_from_bytes head; len = min (length (tr_buffer t) - 8) (unat (cs_length su)) in
       bindR (control_handle api c) (\<lambda>h. case h of
         Some h \<Rightarrow> bindR (invoke api (ControlTransfer h (su\<lparr>cs_length := of_nat len\<rparr>) len)) (\<lambda>r.
           bindR (get_st control_file) (\<lambda>file. settle key tid now t file r))
       | None \<Rightarrow> bindR (hub_control env c tid su (drop 8 (tr_buffer t))) (\<lambda>data. ret (take 8 (tr_buffer t) @ data))))"

text \<open>The branch of bulk and interrupt transfers.\<close>

definition submit_pipe :: "win_api \<Rightarrow> win_ctx \<Rightarrow> nat \<Rightarrow> nat \<Rightarrow> nat \<Rightarrow> 'c transfer \<Rightarrow> (win_handle, bytes) io" where
  "submit_pipe api c key tid now t =
     bindR (bindR (get_st (pipe_owner c (tr_endpoint t))) lift_res) (\<lambda>cl.
       bindR (if is_in_ep (tr_endpoint t)
              then invoke api (ReadPipe (cl_handle cl) (tr_endpoint t) (length (tr_buffer t)))
              else bindR (invoke api (SetPolicy (cl_handle cl) (tr_endpoint t) (fl_zero_packet (tr_flags t)))) (\<lambda>_.
                invoke api (WritePipe (cl_handle cl) (tr_endpoint t) (length (tr_buffer t)))))
         (settle key tid now t (wu_file (cl_dev cl))))"

text \<open>\<open>submit\<close>. The result is the transfer's buffer, which only a request served by the hub changes
  at once.\<close>

definition win_submit :: "win_api \<Rightarrow> win_env \<Rightarrow> bool \<Rightarrow> win_ctx \<Rightarrow> nat \<Rightarrow> nat \<Rightarrow> nat \<Rightarrow> 'c transfer \<Rightarrow> (win_handle, bytes) io" where
  "win_submit api env has_isoch c key tid now t = bindR (get_st (\<lambda>s. s)) (\<lambda>s.
     if wh_disconnected s then failK NoDevice
     else if bk_sub (wh_books s) tid \<noteq> None then failK Busy
     else if length (tr_buffer t) > 4294967295 then failK InvalidParam
     else case tr_kind t of
       Control \<Rightarrow> submit_control api env c key tid now t
     | Isochronous \<Rightarrow> if has_isoch then submit_iso api c key tid now t else failK NotSupported
     | _ \<Rightarrow> submit_pipe api c key tid now t)"

section \<open>Cancelling, and completions\<close>

text \<open>\<open>cancel\<close>; \<open>found\<close> is the answer of \<open>CancelIoEx\<close>.\<close>

definition win_cancel :: "bool \<Rightarrow> nat \<Rightarrow> (win_handle, unit) io" where
  "win_cancel found tid = bindR (get_st (\<lambda>s. bk_sub (wh_books s) tid)) (\<lambda>sub. case sub of
      None \<Rightarrow> failK NotFound
    | Some _ \<Rightarrow> mod_st (\<lambda>s. s\<lparr>wh_books := bk_cancel found tid (wh_books s)\<rparr>))"

definition usbd_success :: "u32 \<Rightarrow> bool" where
  "usbd_success st \<longleftrightarrow> drop_bit 28 st = 0"

definition usbd_packet_status :: "u32 \<Rightarrow> transfer_status" where
  "usbd_packet_status st =
     (if usbd_success st then Completed
      else if st = 0xC0000004 then Stall
      else if st = 0xC0000008 \<or> st = 0xC0003003 then StOverflow
      else if st = 0xC0010000 then Cancelled
      else if st = 0xC0000001 \<or> st = 0xC0001000 then StNoDevice
      else StError)"

definition gone_code :: "int \<Rightarrow> bool" where
  "gone_code err \<longleftrightarrow> err \<in> {1167, 433, 2, 22}"

definition win_status :: "completion \<Rightarrow> 'a request_scheme \<Rightarrow> transfer_status" where
  "win_status r s = (case r of (n, err, ds) \<Rightarrow>
     if rq_timed_out s then TimedOut
     else if rq_cancelled s then Cancelled
     else if err = 0 then Completed
     else if err = 995 then Cancelled
     else if err \<in> {121, 1460} then TimedOut
     else if err = 31 then Stall
     else if gone_code err then StNoDevice
     else if err \<in> {234, 111} then StOverflow
     else StError)"

text \<open>\<open>finish_isochronous\<close>: the stream count, and the packets of an OUT transfer, which share the one
  total in order, or of an IN transfer, one descriptor each.\<close>

definition stream_done :: "u8 \<Rightarrow> transfer_status \<Rightarrow> win_handle \<Rightarrow> win_handle" where
  "stream_done ep st s = s\<lparr>wh_inflight := (wh_inflight s)(ep \<mapsto>
     (if st \<noteq> Completed then 0 else inflight_of s ep - 1))\<rparr>"

fun spread :: "transfer_status \<Rightarrow> nat \<Rightarrow> u32 list \<Rightarrow> iso_packet list" where
  "spread st left [] = []"
| "spread st left (l # ls) = (let took = min left (unat l) in
     \<lparr>iso_length = l, iso_actual = of_nat took, iso_status = st\<rparr> # spread st (left - took) ls)"

definition slot_at :: "iso_slot list \<Rightarrow> nat \<Rightarrow> iso_slot" where
  "slot_at ds i = (if i < length ds then ds ! i else \<lparr>is_length = 0, is_status = 0\<rparr>)"

definition slot_packets :: "iso_slot list \<Rightarrow> u32 list \<Rightarrow> iso_packet list" where
  "slot_packets ds ls = map (\<lambda>(i, l). \<lparr>iso_length = l, iso_actual = is_length (slot_at ds i),
     iso_status = usbd_packet_status (is_status (slot_at ds i))\<rparr>) (enumerate 0 ls)"

definition iso_results :: "transfer_status \<Rightarrow> nat \<Rightarrow> iso_slot list \<Rightarrow> u32 list \<Rightarrow> nat \<times> iso_packet list" where
  "iso_results st n ds ls = (if ds = [] then (n, spread st n ls)
     else (sum_list (map (\<lambda>p. unat (iso_actual p)) (slot_packets ds ls)), slot_packets ds ls))"

text \<open>A completion packet of the block at \<open>key\<close>: the event thread releases the registration, then
  runs \<open>finish\<close>. The result is what \<open>Inner::complete\<close> is called with.\<close>

definition win_finish :: "'c transfer \<Rightarrow> nat \<Rightarrow> nat \<Rightarrow> completion
    \<Rightarrow> (win_handle, (transfer_status \<times> nat \<times> iso_packet list option) option) io" where
  "win_finish t key tid r = bindR (mod_st (\<lambda>s. s\<lparr>wh_books := bk_reap key tid r (wh_books s)\<rparr>)) (\<lambda>_.
     bindR (get_st (\<lambda>s. bk_sub (wh_books s) tid)) (\<lambda>sub.
     bindR (mod_st (\<lambda>s. s\<lparr>wh_books := bk_take win_status (wh_books s)\<rparr>)) (\<lambda>_.
     case sub of
       None \<Rightarrow> ret None
     | Some w \<Rightarrow> (case r of (n, err, ds) \<Rightarrow>
         bindR (if \<not> rq_timed_out w \<and> \<not> rq_cancelled w \<and> gone_code err
                then mod_st (\<lambda>s. s\<lparr>wh_disconnected := True\<rparr>) else ret ()) (\<lambda>_.
         let st = win_status r w in
         if tr_kind t = Isochronous
         then bindR (mod_st (stream_done (tr_endpoint t) st)) (\<lambda>_.
           case iso_results st n ds (map iso_length (tr_iso t)) of (actual, ps) \<Rightarrow> ret (Some (st, actual, Some ps)))
         else ret (Some (st, n, None)))))))"

definition block_of :: "win_handle \<Rightarrow> nat \<Rightarrow> nat option" where
  "block_of s key = (case map_of (wh_blocks s) key of Some reg \<Rightarrow> reg | None \<Rightarrow> None)"

definition win_packet :: "win_api \<Rightarrow> 'c transfer \<Rightarrow> nat \<Rightarrow> nat \<Rightarrow> completion
    \<Rightarrow> (win_handle, (transfer_status \<times> nat \<times> iso_packet list option) option) io" where
  "win_packet api t key tid r = bindR (get_st (\<lambda>s. block_of s key)) (\<lambda>reg.
     bindR (drop_block api reg) (\<lambda>_.
     bindR (mod_st (\<lambda>s. s\<lparr>wh_blocks := filter (\<lambda>b. fst b \<noteq> key) (wh_blocks s)\<rparr>)) (\<lambda>_.
       win_finish t key tid r)))"

text \<open>The rest of a pass of \<open>event_loop\<close>: the completions deferred by \<open>hub_control\<close> are taken before
  the wait, and the deadlines looked at after it. The wait is in milliseconds, rounded up, at most
  one less than the code of an infinite one.\<close>

definition take_deferred :: "(win_handle, (nat \<times> transfer_status \<times> nat) list) io" where
  "take_deferred = bindR (get_st wh_deferred) (\<lambda>ds. bindR (mod_st (\<lambda>s. s\<lparr>wh_deferred := []\<rparr>)) (\<lambda>_. ret ds))"

definition wait_ms :: "nat \<Rightarrow> nat option \<Rightarrow> nat" where
  "wait_ms now deadline = (case deadline of
      None \<Rightarrow> 4294967295
    | Some d \<Rightarrow> min ((d - now) div 1000000 + 1) (4294967295 - 1))"

definition win_expire :: "nat \<Rightarrow> (nat \<Rightarrow> bool) \<Rightarrow> win_handle \<Rightarrow> win_handle" where
  "win_expire now found s = s\<lparr>wh_books := bk_expire now found (wh_books s)\<rparr>"

definition win_cancel_all :: "(nat \<Rightarrow> bool) \<Rightarrow> win_handle \<Rightarrow> win_handle" where
  "win_cancel_all found s = s\<lparr>wh_books := bk_cancel_all found (wh_books s)\<rparr>"

section \<open>What submission leaves alone\<close>

definition untouched :: "win_handle \<Rightarrow> win_handle \<Rightarrow> bool" where
  "untouched s s' \<longleftrightarrow> wh_books s' = wh_books s \<and> wh_blocks s' = wh_blocks s \<and> wh_inflight s' = wh_inflight s
     \<and> wh_deferred s' = wh_deferred s \<and> wh_disconnected s' = wh_disconnected s
     \<and> live_buffers (wh_trace s') = live_buffers (wh_trace s) \<and> unregistered_once (wh_trace s') = unregistered_once (wh_trace s)"

lemma untouched_refl [simp]: "untouched s s" by (simp add: untouched_def)
lemma untouched_trans [trans]: "untouched a b \<Longrightarrow> untouched b c \<Longrightarrow> untouched a c" by (simp add: untouched_def)

lemma winusb_open_untouched: "winusb_open api path s = (r, s') \<Longrightarrow> untouched s s'"
  by (auto simp: winusb_open_def bindR_def untouched_def split: sum.splits)

lemma function_for_untouched:
  assumes "function_for api c i s = (r, s')"
  shows "untouched s s'"
proof -
  have "untouched s (snd (function_for api c i s))"
    unfolding function_for_def bindR_def lift_opt_def
    by (auto simp: Let_def untouched_def split: option.splits prod.splits out.splits
        dest!: winusb_open_untouched [unfolded untouched_def])
  then show ?thesis using assms by simp
qed

lemma control_handle_untouched: "untouched s (snd (control_handle api c s))"
proof (cases "\<exists>f fs. wl_functions (di_location (wc_info c)) = f # fs")
  case True
  then obtain f fs where f: "wl_functions (di_location (wc_info c)) = f # fs" by blast
  obtain r t where run: "function_for api c (wf_first_interface f) s = (r, t)" by fastforce
  from function_for_untouched [OF this] show ?thesis
    by (cases r) (auto simp: control_handle_def bindR_def matchR_def f run split: option.split list.split prod.split)
next
  case False
  then have "wl_functions (di_location (wc_info c)) = []" by (cases "wl_functions (di_location (wc_info c))") auto
  then show ?thesis
    by (auto simp: control_handle_def bindR_def split: option.split list.split prod.split)
qed

lemma control_handle_run:
  assumes inv: "handles_inv s" and fresh: "fresh_handles api"
  shows "handles_inv (snd (control_handle api c s))"
proof (cases "\<exists>f fs. wl_functions (di_location (wc_info c)) = f # fs")
  case True
  then obtain f fs where f: "wl_functions (di_location (wc_info c)) = f # fs" by blast
  obtain r t where run: "function_for api c (wf_first_interface f) s = (r, t)" by fastforce
  from function_for_run [OF inv fresh this] inv show ?thesis
    by (cases r) (auto simp: control_handle_def bindR_def matchR_def f run split: option.split list.split prod.split)
next
  case False
  then have "wl_functions (di_location (wc_info c)) = []" by (cases "wl_functions (di_location (wc_info c))") auto
  then show ?thesis using inv
    by (auto simp: control_handle_def bindR_def split: option.split list.split prod.split)
qed

text \<open>The outcomes of a submission.\<close>

definition submitted :: "nat \<Rightarrow> nat \<Rightarrow> nat \<Rightarrow> 'c transfer \<Rightarrow> win_handle \<Rightarrow> win_handle \<Rightarrow> bool" where
  "submitted key tid now t s s' \<longleftrightarrow> (\<exists>reg file. wh_books s' = wh_books (issued key tid now t reg file s)
     \<and> wh_blocks s' = (key, reg) # wh_blocks s \<and> wh_deferred s' = wh_deferred s \<and> wh_disconnected s' = wh_disconnected s
     \<and> live_buffers (wh_trace s') = live_buffers (wh_trace s) + (case reg of None \<Rightarrow> {#} | Some b \<Rightarrow> {#b#})
     \<and> unregistered_once (wh_trace s') = unregistered_once (wh_trace s)
     \<and> wh_inflight s' = (if tr_kind t = Isochronous
         then (wh_inflight s)(tr_endpoint t \<mapsto> inflight_of s (tr_endpoint t) + 1) else wh_inflight s))"

lemma untouched_submitted: "untouched s u \<Longrightarrow> submitted key tid now t u s' \<Longrightarrow> submitted key tid now t s s'"
proof -
  assume u: "untouched s u" and m: "submitted key tid now t u s'"
  from u have "inflight_of u = inflight_of s" by (auto simp: untouched_def inflight_of_def)
  with u m show ?thesis by (auto simp: untouched_def submitted_def issued_def)
qed

lemma settle_run:
  assumes "settle key tid now t file r s = (q, s')" "tr_kind t \<noteq> Isochronous"
  shows "(q = Val (tr_buffer t) \<and> submitted key tid now t s s') \<or> ((\<exists>e. q = Fail e) \<and> s' = s)"
  using assms
  by (cases r) (auto simp: settle_def accepted_def bindR_def submitted_def issued_def split: if_splits intro!: exI [of _ None])

lemma untouched_invoke:
  assumes "live_buffers ((c, api (wh_trace s) c) # wh_trace s) = live_buffers (wh_trace s)"
    "unregistered_once ((c, api (wh_trace s) c) # wh_trace s) = unregistered_once (wh_trace s)"
  shows "untouched s (s\<lparr>wh_trace := (c, api (wh_trace s) c) # wh_trace s\<rparr>)"
  using assms by (simp add: untouched_def)

lemma submit_iso_run:
  assumes "submit_iso api c key tid now t s = (q, s')" "tr_kind t = Isochronous"
  shows "(q = Val (tr_buffer t) \<and> submitted key tid now t s s') \<or> ((\<exists>e. q = Fail e) \<and> untouched s s')"
proof -
  let ?ep = "tr_endpoint t"
  show ?thesis
  proof (cases "pipe_owner c ?ep s")
    case (Inl e)
    then show ?thesis using assms by (auto simp: submit_iso_def Let_def bindR_def)
  next
    case cl: (Inr cl)
    show ?thesis
    proof (cases "endpoint_max_packet c ?ep s")
      case (Inl e)
      then show ?thesis using assms cl by (auto simp: submit_iso_def Let_def bindR_def)
    next
      case m: (Inr m)
      show ?thesis
      proof (cases "\<not> packets_ok (is_in_ep ?ep) m (tr_iso t) \<or> iso_total t > length (tr_buffer t)")
        case True
        then have "\<exists>e. submit_iso api c key tid now t s = (Fail e, s)" using cl m
          by (cases "packets_ok (is_in_ep ?ep) m (tr_iso t)") (simp_all add: submit_iso_def Let_def bindR_def)
        then show ?thesis using assms by auto
      next
        case ok: False
        let ?c1 = "RegisterIso (cl_handle cl) ?ep (length (tr_buffer t))"
        let ?r1 = "api (wh_trace s) ?c1"
        show ?thesis
        proof (cases ?r1)
          case (Inl e)
          then show ?thesis using assms cl m ok
            by (auto simp: submit_iso_def Let_def bindR_def untouched_def)
        next
          case (Inr b)
          let ?t1 = "(?c1, ?r1) # wh_trace s"
          let ?join = "0 < inflight_of s ?ep"
          let ?c2 = "if is_in_ep ?ep then ReadIso b (iso_total t) ?join (length (tr_iso t)) else WriteIso b (iso_total t) ?join"
          let ?r2 = "api ?t1 ?c2"
          have same: "inflight_of (s\<lparr>wh_trace := x\<rparr>) = inflight_of s" for x by (rule ext) (simp add: inflight_of_def)
          have lb: "live_buffers ((?c2, ?r2) # ?t1) = add_mset b (live_buffers (wh_trace s))"
            "unregistered_once ((?c2, ?r2) # ?t1) = unregistered_once (wh_trace s)" using Inr by simp_all
          show ?thesis
          proof (cases "accepted ?r2")
            case True
            then have "q = Val (tr_buffer t)" "s' = issued key tid now t (Some b) (wu_file (cl_dev cl))
                (s\<lparr>wh_trace := (?c2, ?r2) # ?t1, wh_inflight := (wh_inflight s)(?ep \<mapsto> inflight_of s ?ep + 1)\<rparr>)"
              using assms(1) cl m ok Inr
              by (cases "is_in_ep ?ep"; simp add: submit_iso_def Let_def bindR_def same)+
            then show ?thesis using lb assms(2)
              by (auto simp: submitted_def issued_def inflight_of_def intro!: exI [of _ "Some b"])
          next
            case False
            then obtain e where e: "?r2 = Inl e" by (cases ?r2) (simp_all add: accepted_def)
            have "q = Fail (win_os_error e)" "s' = s\<lparr>wh_trace := (UnregisterIso b, api ((?c2, ?r2) # ?t1) (UnregisterIso b)) # (?c2, ?r2) # ?t1\<rparr>"
              using assms(1) cl m ok Inr False e
              by (cases "is_in_ep ?ep"; simp add: submit_iso_def Let_def bindR_def same drop_block_def)+
            then show ?thesis using lb by (simp add: untouched_def)
          qed
        qed
      qed
    qed
  qed
qed

lemma hub_control_run:
  assumes "hub_control env c tid su data s = (q, s')"
  shows "(\<exists>out st n. q = Val out \<and> s' = s\<lparr>wh_deferred := wh_deferred s @ [(tid, st, n)]\<rparr>) \<or> ((\<exists>e. q = Fail e) \<and> s' = s)"
  using assms
  by (auto simp: hub_control_def bindR_def Let_def lift_res_def out_of_def split: if_splits option.splits sum.splits prod.splits)

lemma pipe_submit_run:
  assumes "submit_pipe api c key tid now t s = (q, s')" "tr_kind t \<noteq> Isochronous"
  shows "(q = Val (tr_buffer t) \<and> submitted key tid now t s s') \<or> ((\<exists>e. q = Fail e) \<and> untouched s s')"
proof (cases "pipe_owner c (tr_endpoint t) s")
  case (Inl e)
  then show ?thesis using assms by (auto simp: submit_pipe_def bindR_def)
next
  case (Inr cl)
  obtain r u where u: "(if is_in_ep (tr_endpoint t)
              then invoke api (ReadPipe (cl_handle cl) (tr_endpoint t) (length (tr_buffer t)))
              else bindR (invoke api (SetPolicy (cl_handle cl) (tr_endpoint t) (fl_zero_packet (tr_flags t)))) (\<lambda>_.
                invoke api (WritePipe (cl_handle cl) (tr_endpoint t) (length (tr_buffer t))))) s = (Val r, u)"
    "untouched s u"
    by (cases "is_in_ep (tr_endpoint t)") (simp_all add: bindR_def untouched_def)
  have "settle key tid now t (wu_file (cl_dev cl)) r u = (q, s')"
    using assms(1) Inr u(1) by (simp add: submit_pipe_def bindR_def)
  from settle_run [OF this assms(2)] show ?thesis using untouched_submitted [OF u(2)] u(2) by auto
qed

lemma bindR_lift_Some: "bindR (lift_opt (Some x)) f = f x"
  by (rule ext) (simp add: bindR_def)

lemma control_submit_run:
  assumes "submit_control api env c key tid now t s = (q, s')" "tr_kind t = Control"
  shows "(q = Val (tr_buffer t) \<and> submitted key tid now t s s')
    \<or> (\<exists>out st n u. q = Val out \<and> untouched s u \<and> s' = u\<lparr>wh_deferred := wh_deferred u @ [(tid, st, n)]\<rparr>)
    \<or> ((\<forall>x. q \<noteq> Val x) \<and> untouched s s')"
proof (cases "slice (tr_buffer t) 0 8")
  case None
  then have "submit_control api env c key tid now t s = (Panic, s)"
    unfolding submit_control_def by (simp only: None) (simp add: bindR_def)
  then show ?thesis using assms by auto
next
  case (Some head)
  define su where "su = setup_from_bytes head"
  define len where "len = min (length (tr_buffer t) - 8) (unat (cs_length su))"
  have def': "submit_control api env c key tid now t s = bindR (control_handle api c) (\<lambda>h. case h of
         Some h \<Rightarrow> bindR (invoke api (ControlTransfer h (su\<lparr>cs_length := of_nat len\<rparr>) len)) (\<lambda>r.
           bindR (get_st control_file) (\<lambda>file. settle key tid now t file r))
       | None \<Rightarrow> bindR (hub_control env c tid su (drop 8 (tr_buffer t))) (\<lambda>data. ret (take 8 (tr_buffer t) @ data))) s"
    unfolding submit_control_def Some bindR_lift_Some Let_def su_def len_def ..
  obtain h u where h: "control_handle api c s = (h, u)" by fastforce
  have u: "untouched s u" using control_handle_untouched [of s api c] h by simp
  show ?thesis
  proof (cases "\<exists>x. h = Val x")
    case False
    then have "(\<forall>x. q \<noteq> Val x) \<and> s' = u"
      using assms h unfolding def' by (cases h) (auto simp: bindR_def)
    then show ?thesis using u by blast
  next
    case True
    then obtain x where x: "h = Val x" by blast
    show ?thesis
    proof (cases x)
      case None
      obtain q2 u2 where hc: "hub_control env c tid su (drop 8 (tr_buffer t)) u = (q2, u2)" by fastforce
      have r: "bindR (hub_control env c tid su (drop 8 (tr_buffer t))) (\<lambda>data. ret (take 8 (tr_buffer t) @ data)) u = (q, s')"
        using assms(1) h x None unfolding def' by (simp add: bindR_def)
      from hub_control_run [OF hc] show ?thesis
      proof
        assume "\<exists>out st n. q2 = Val out \<and> u2 = u\<lparr>wh_deferred := wh_deferred u @ [(tid, st, n)]\<rparr>"
        then obtain out st n where "q2 = Val out" and u2: "u2 = u\<lparr>wh_deferred := wh_deferred u @ [(tid, st, n)]\<rparr>" by blast
        then have "q = Val (take 8 (tr_buffer t) @ out)" "s' = u2" using r by (simp_all add: bindR_def hc)
        then show ?thesis using u u2 by blast
      next
        assume "(\<exists>e. q2 = Fail e) \<and> u2 = u"
        then show ?thesis using r u by (auto simp: bindR_def hc)
      qed
    next
      case (Some w)
      define cl where "cl = ControlTransfer w (su\<lparr>cs_length := of_nat len\<rparr>) len"
      define u1 where "u1 = u\<lparr>wh_trace := (cl, api (wh_trace u) cl) # wh_trace u\<rparr>"
      have "settle key tid now t (control_file u1) (api (wh_trace u) cl) u1 = (q, s')"
        using assms(1) h x Some unfolding def' by (simp add: bindR_def cl_def u1_def)
      from settle_run [OF this] have "(q = Val (tr_buffer t) \<and> submitted key tid now t u1 s') \<or> ((\<exists>e. q = Fail e) \<and> s' = u1)"
        using assms(2) by simp
      moreover have "untouched s u1" using u by (simp add: untouched_def u1_def cl_def)
      ultimately show ?thesis using untouched_submitted by blast
    qed
  qed
qed

text \<open>A submission is entered in the books and leaves its block with the system, or is left to the
  event thread as a completion of the hub's, or is refused and leaves everything as it was.\<close>

lemma win_submit_run:
  assumes "win_submit api env has_isoch c key tid now t s = (q, s')"
  shows "(q = Val (tr_buffer t) \<and> submitted key tid now t s s' \<and> bk_sub (wh_books s) tid = None)
    \<or> (\<exists>out st n u. q = Val out \<and> tr_kind t = Control \<and> untouched s u
         \<and> s' = u\<lparr>wh_deferred := wh_deferred u @ [(tid, st, n)]\<rparr>)
    \<or> ((\<forall>x. q \<noteq> Val x) \<and> untouched s s')"
proof (cases "wh_disconnected s \<or> bk_sub (wh_books s) tid \<noteq> None \<or> length (tr_buffer t) > 4294967295")
  case True
  then have "\<exists>e. win_submit api env has_isoch c key tid now t s = (Fail e, s)"
    by (cases "wh_disconnected s"; cases "bk_sub (wh_books s) tid"; cases "length (tr_buffer t) > 4294967295")
      (simp_all add: win_submit_def bindR_def)
  then show ?thesis using assms by auto
next
  case ok: False
  then have free: "bk_sub (wh_books s) tid = None" by simp
  show ?thesis
  proof (cases "tr_kind t")
    case Control
    then have "submit_control api env c key tid now t s = (q, s')" using assms ok by (simp add: win_submit_def bindR_def)
    from control_submit_run [OF this Control] free Control show ?thesis by blast
  next
    case Isochronous
    show ?thesis
    proof (cases has_isoch)
      case True
      then have "submit_iso api c key tid now t s = (q, s')" using assms ok Isochronous by (simp add: win_submit_def bindR_def)
      from submit_iso_run [OF this Isochronous] free show ?thesis by blast
    next
      case False
      then show ?thesis using assms ok Isochronous by (auto simp: win_submit_def bindR_def)
    qed
  next
    case Bulk
    then have "submit_pipe api c key tid now t s = (q, s')" using assms ok by (simp add: win_submit_def bindR_def)
    from pipe_submit_run [OF this] free Bulk show ?thesis by auto
  next
    case Interrupt
    then have "submit_pipe api c key tid now t s = (q, s')" using assms ok by (simp add: win_submit_def bindR_def)
    from pipe_submit_run [OF this] free Interrupt show ?thesis by auto
  qed
qed

section \<open>The handle's invariant\<close>

text \<open>Between operations no thread is in the middle of one. The blocks are those of the requests the
  system owns, the registered buffers those of the blocks, and the count of a stream never exceeds
  the isochronous requests really out on its endpoint. \<open>tr\<close> gives each transfer's kind and endpoint,
  which never change.\<close>

definition iso_out :: "(nat \<Rightarrow> 'c transfer) \<Rightarrow> u8 \<Rightarrow> nat \<times> nat \<Rightarrow> bool" where
  "iso_out tr ep e \<longleftrightarrow> tr_kind (tr (snd e)) = Isochronous \<and> tr_endpoint (tr (snd e)) = ep"

definition win_inv :: "(nat \<Rightarrow> 'c transfer) \<Rightarrow> win_handle \<Rightarrow> bool" where
  "win_inv tr s \<longleftrightarrow> books_inv (wh_books s) \<and> books_idle (wh_books s)
     \<and> map fst (wh_blocks s) = map fst (bk_kernel (wh_books s))
     \<and> live_buffers (wh_trace s) = mset (List.map_filter snd (wh_blocks s)) \<and> unregistered_once (wh_trace s)
     \<and> (\<forall>ep. inflight_of s ep \<le> length (filter (iso_out tr ep) (bk_kernel (wh_books s))))"

lemma win_inv_untouched: "win_inv tr s \<Longrightarrow> untouched s s' \<Longrightarrow> win_inv tr s'"
proof -
  assume i: "win_inv tr s" and u: "untouched s s'"
  from u have "inflight_of s' = inflight_of s" by (auto simp: untouched_def inflight_of_def)
  with i u show ?thesis by (simp add: win_inv_def untouched_def)
qed

lemma submitted_inv:
  assumes inv: "win_inv tr s" and sub: "submitted key tid now t s s'" and free: "bk_sub (wh_books s) tid = None"
    and fresh: "key \<notin> fst ` set (bk_kernel (wh_books s))"
    and kind: "tr_kind (tr tid) = tr_kind t" "tr_endpoint (tr tid) = tr_endpoint t"
  shows "win_inv tr s'" "book_reach early status (wh_books s) (wh_books s')"
proof -
  have bi: "books_inv (wh_books s)" "books_idle (wh_books s)" using inv by (simp_all add: win_inv_def)
  from sub obtain reg fl where b: "wh_books s' = wh_books (issued key tid now t reg fl s)"
    and blocks: "wh_blocks s' = (key, reg) # wh_blocks s"
    and bufs: "live_buffers (wh_trace s') = live_buffers (wh_trace s) + (case reg of None \<Rightarrow> {#} | Some x \<Rightarrow> {#x#})"
      "unregistered_once (wh_trace s') = unregistered_once (wh_trace s)"
    and inf: "wh_inflight s' = (if tr_kind t = Isochronous
         then (wh_inflight s)(tr_endpoint t \<mapsto> inflight_of s (tr_endpoint t) + 1) else wh_inflight s)"
    by (auto simp: submitted_def)
  from b have b: "wh_books s' = bk_store tid (bk_record tid (bk_issue key tid
       \<lparr>rq_deadline = deadline_of now t, rq_cancelled = False, rq_timed_out = False, ws_ov = key, ws_file = fl\<rparr>
       (wh_books s)))" by (simp add: issued_def)
  note p = issue_path [OF bi free fresh]
  show reach: "book_reach early status (wh_books s) (wh_books s')" unfolding b by (rule p(1))
  have k: "bk_kernel (wh_books s') = (key, tid) # bk_kernel (wh_books s)" unfolding b by (rule p(3))
  have "inflight_of s' ep \<le> length (filter (iso_out tr ep) (bk_kernel (wh_books s')))" for ep
  proof -
    have "inflight_of s ep \<le> length (filter (iso_out tr ep) (bk_kernel (wh_books s)))"
      using inv by (simp add: win_inv_def)
    moreover have "inflight_of s' ep = (if tr_kind t = Isochronous \<and> tr_endpoint t = ep then inflight_of s ep + 1 else inflight_of s ep)"
      by (simp add: inflight_of_def inf)
    ultimately show ?thesis by (simp add: k iso_out_def kind)
  qed
  moreover have "books_inv (wh_books s')" using book_reach_inv [OF reach bi(1)] .
  moreover have "books_idle (wh_books s')" unfolding b by (rule p(2))
  ultimately show "win_inv tr s'"
    using inv by (cases reg) (simp_all add: win_inv_def blocks bufs k List.map_filter_def)
qed

lemma blocks_remove:
  assumes "map fst blocks = map fst ks" "distinct (map fst ks)" "(key, tid) \<in> set ks"
  shows "map fst (filter (\<lambda>b. fst b \<noteq> key) blocks) = map fst (remove1 (key, tid) ks)"
    and "mset (List.map_filter snd blocks) = mset (List.map_filter snd (filter (\<lambda>b. fst b \<noteq> key) blocks))
      + (case map_of blocks key of Some (Some x) \<Rightarrow> {#x#} | _ \<Rightarrow> {#})"
proof -
  have "map fst (filter (\<lambda>b. fst b \<noteq> key) blocks) = filter (\<lambda>k. k \<noteq> key) (map fst ks)"
    unfolding assms(1) [symmetric] by (simp add: filter_map comp_def)
  also have "\<dots> = remove1 key (map fst ks)" using assms(2) by (simp add: distinct_remove1_removeAll removeAll_filter_not_eq)
      (metis (mono_tags, lifting) filter_cong)
  also have "\<dots> = map fst (remove1 (key, tid) ks)" by (rule map_fst_remove1 [OF assms(2,3), symmetric])
  finally show "map fst (filter (\<lambda>b. fst b \<noteq> key) blocks) = map fst (remove1 (key, tid) ks)" .
  have "distinct (map fst blocks)" using assms(1,2) by simp
  then show "mset (List.map_filter snd blocks) = mset (List.map_filter snd (filter (\<lambda>b. fst b \<noteq> key) blocks))
      + (case map_of blocks key of Some (Some x) \<Rightarrow> {#x#} | _ \<Rightarrow> {#})"
  proof (induction blocks)
    case Nil
    then show ?case by (simp add: List.map_filter_def)
  next
    case (Cons b blocks)
    obtain k r where b: "b = (k, r)" by (cases b)
    show ?case
    proof (cases "k = key")
      case True
      then have "key \<notin> fst ` set blocks" using Cons.prems b by auto
      then have "filter (\<lambda>b. fst b \<noteq> key) blocks = blocks" by (auto simp: filter_id_conv)
      then show ?thesis using b True by (cases r) (simp_all add: List.map_filter_simps)
    next
      case False
      then show ?thesis using Cons b by (cases r) (simp_all add: List.map_filter_simps)
    qed
  qed
qed

lemma length_filter_remove1:
  "x \<in> set xs \<Longrightarrow> length (filter P xs) = length (filter P (remove1 x xs)) + (if P x then 1 else 0)"
  by (induction xs) auto

text \<open>A completion packet: the block goes, with its registered buffer, the request leaves the books,
  and exactly one completion is reported, with the status the request and the error decide.\<close>

lemma win_packet_run:
  assumes inv: "win_inv tr s" and k: "(key, tid) \<in> set (bk_kernel (wh_books s))"
    and kind: "tr_kind (tr tid) = tr_kind t" "tr_endpoint (tr tid) = tr_endpoint t"
  obtains w s' where
    "bk_sub (wh_books s) tid = Some w"
    "win_packet api t key tid (n, err, ds) s = (Val (Some (win_status (n, err, ds) w,
        (if tr_kind t = Isochronous then fst (iso_results (win_status (n, err, ds) w) n ds (map iso_length (tr_iso t))) else n),
        (if tr_kind t = Isochronous then Some (snd (iso_results (win_status (n, err, ds) w) n ds (map iso_length (tr_iso t)))) else None))), s')"
    "win_inv tr s'" "book_reach early win_status (wh_books s) (wh_books s')"
    "bk_log (wh_books s') = (tid, win_status (n, err, ds) w) # bk_log (wh_books s)"
    "wh_main s' = wh_main s" "wh_functions s' = wh_functions s" "wh_claimed s' = wh_claimed s"
    "live_files (wh_trace s') = live_files (wh_trace s)" "live_handles (wh_trace s') = live_handles (wh_trace s)"
    "closed_once (wh_trace s') = closed_once (wh_trace s)"
proof -
  let ?r = "(n, err, ds)" and ?b = "wh_books s"
  have bi: "books_inv ?b" "books_idle ?b" using inv by (simp_all add: win_inv_def)
  define b' where "b' = bk_take win_status (bk_reap key tid ?r ?b)"
  note p = packet_path [OF bi k, where r = ?r and status = win_status, folded b'_def]
  obtain w where w: "bk_sub ?b tid = Some w" "bk_log b' = (tid, win_status ?r w) # bk_log ?b" using p(4) by blast
  have live: "bk_sub (bk_reap key tid ?r ?b) tid = Some w" using w by (simp add: bk_reap_def)
  define st where "st = win_status ?r w"
  define s1 where "s1 = snd (drop_block api (block_of s key) s)"
  have drop: "drop_block api (block_of s key) s = (Val (), s1)"
    by (simp add: s1_def drop_block_def bindR_def split: option.split)
  have s1: "wh_books s1 = ?b" "wh_blocks s1 = wh_blocks s" "wh_inflight s1 = wh_inflight s" "wh_main s1 = wh_main s"
    "wh_functions s1 = wh_functions s" "wh_claimed s1 = wh_claimed s" "live_files (wh_trace s1) = live_files (wh_trace s)"
    "live_handles (wh_trace s1) = live_handles (wh_trace s)"
    "live_buffers (wh_trace s1) = live_buffers (wh_trace s) - (case block_of s key of Some x \<Rightarrow> {#x#} | None \<Rightarrow> {#})"
    "closed_once (wh_trace s1) = closed_once (wh_trace s)"
    "unregistered_once (wh_trace s1) \<longleftrightarrow> unregistered_once (wh_trace s)
      \<and> (case block_of s key of Some x \<Rightarrow> {#x#} | None \<Rightarrow> {#}) \<subseteq># live_buffers (wh_trace s)"
    by (auto simp add: s1_def drop_block_def bindR_def split: option.split)
  define s2 where "s2 = s1\<lparr>wh_blocks := filter (\<lambda>b. fst b \<noteq> key) (wh_blocks s1), wh_books := b'\<rparr>"
  define s3 where "s3 = (if \<not> rq_timed_out w \<and> \<not> rq_cancelled w \<and> gone_code err then s2\<lparr>wh_disconnected := True\<rparr> else s2)"
  define s' where "s' = (if tr_kind t = Isochronous then stream_done (tr_endpoint t) st s3 else s3)"
  have run: "win_packet api t key tid ?r s = (Val (Some (st,
        (if tr_kind t = Isochronous then fst (iso_results st n ds (map iso_length (tr_iso t))) else n),
        (if tr_kind t = Isochronous then Some (snd (iso_results st n ds (map iso_length (tr_iso t)))) else None))), s')"
  proof -
    have "win_packet api t key tid ?r s = win_finish t key tid ?r (s1\<lparr>wh_blocks := filter (\<lambda>b. fst b \<noteq> key) (wh_blocks s1)\<rparr>)"
      by (simp add: win_packet_def bindR_def drop)
    also have "\<dots> = bindR (if \<not> rq_timed_out w \<and> \<not> rq_cancelled w \<and> gone_code err
                then mod_st (\<lambda>s. s\<lparr>wh_disconnected := True\<rparr>) else ret ()) (\<lambda>_.
         let st = win_status ?r w in
         if tr_kind t = Isochronous
         then bindR (mod_st (stream_done (tr_endpoint t) st)) (\<lambda>_.
           case iso_results st n ds (map iso_length (tr_iso t)) of (actual, ps) \<Rightarrow> ret (Some (st, actual, Some ps)))
         else ret (Some (st, n, None))) s2"
      by (simp add: win_finish_def bindR_def s1 live b'_def s2_def)
    also have "\<dots> = (Val (Some (st,
        (if tr_kind t = Isochronous then fst (iso_results st n ds (map iso_length (tr_iso t))) else n),
        (if tr_kind t = Isochronous then Some (snd (iso_results st n ds (map iso_length (tr_iso t)))) else None))), s')"
      unfolding s'_def s3_def st_def [symmetric] Let_def
      by (cases "\<not> rq_timed_out w \<and> \<not> rq_cancelled w \<and> gone_code err"; cases "tr_kind t = Isochronous")
        (auto simp: bindR_def case_prod_unfold)
    finally show ?thesis .
  qed
  have f: "wh_books s' = b'" "wh_blocks s' = filter (\<lambda>b. fst b \<noteq> key) (wh_blocks s)" "wh_main s' = wh_main s"
    "wh_functions s' = wh_functions s" "wh_claimed s' = wh_claimed s" "wh_trace s' = wh_trace s1"
    by (simp_all add: s'_def s3_def s2_def stream_done_def s1)
  have inf: "inflight_of s' ep = (if tr_kind t = Isochronous \<and> ep = tr_endpoint t
      then (if st \<noteq> Completed then 0 else inflight_of s ep - 1) else inflight_of s ep)" for ep
    by (auto simp: s'_def s3_def s2_def stream_done_def inflight_of_def s1)
  have blocks: "map fst (wh_blocks s) = map fst (bk_kernel ?b)" using inv by (simp add: win_inv_def)
  note br = blocks_remove [OF blocks books_invD(1) [OF bi(1)] k]
  have reg: "(case map_of (wh_blocks s) key of Some (Some x) \<Rightarrow> {#x#} | _ \<Rightarrow> {#})
      = (case block_of s key of Some x \<Rightarrow> {#x#} | None \<Rightarrow> {#})"
    by (simp add: block_of_def split: option.split)
  have "win_inv tr s'" unfolding win_inv_def
  proof (intro conjI allI)
    show "books_inv (wh_books s')" unfolding f using book_reach_inv [OF p(1) bi(1)] .
    show "books_idle (wh_books s')" unfolding f by (rule p(2))
    show "map fst (wh_blocks s') = map fst (bk_kernel (wh_books s'))" unfolding f p(3) by (rule br(1))
    show "live_buffers (wh_trace s') = mset (List.map_filter snd (wh_blocks s'))"
      unfolding f s1(9) using inv br(2) reg by (simp add: win_inv_def)
    have "(case block_of s key of Some x \<Rightarrow> {#x#} | None \<Rightarrow> {#}) \<subseteq># live_buffers (wh_trace s)"
      using inv by (auto simp: win_inv_def block_of_def List.map_filter_def split: option.split dest!: map_of_SomeD intro!: rev_image_eqI)
    then show "unregistered_once (wh_trace s')" unfolding f s1(11) using inv by (simp add: win_inv_def)
    fix ep
    have "inflight_of s ep \<le> length (filter (iso_out tr ep) (bk_kernel ?b))" using inv by (simp add: win_inv_def)
    moreover have "length (filter (iso_out tr ep) (bk_kernel ?b)) = length (filter (iso_out tr ep) (remove1 (key, tid) (bk_kernel ?b)))
        + (if iso_out tr ep (key, tid) then 1 else 0)" using k by (rule length_filter_remove1)
    moreover have "iso_out tr ep (key, tid) \<longleftrightarrow> tr_kind t = Isochronous \<and> ep = tr_endpoint t"
      by (auto simp: iso_out_def kind)
    ultimately show "inflight_of s' ep \<le> length (filter (iso_out tr ep) (bk_kernel (wh_books s')))"
      unfolding f p(3) inf by (cases "tr_kind t = Isochronous \<and> ep = tr_endpoint t") auto
  qed
  with w run p(1) f s1 show thesis
    by (intro that [of w s']) (simp_all add: st_def)
qed

section \<open>Every history of a handle\<close>

text \<open>What an operation that only makes calls leaves: the books, the blocks and the registered buffers
  as they are, and no more isochronous requests counted than before.\<close>

definition keeps_requests :: "win_handle \<Rightarrow> win_handle \<Rightarrow> bool" where
  "keeps_requests s s' \<longleftrightarrow> wh_books s' = wh_books s \<and> wh_blocks s' = wh_blocks s
     \<and> live_buffers (wh_trace s') = live_buffers (wh_trace s) \<and> unregistered_once (wh_trace s') = unregistered_once (wh_trace s)
     \<and> (\<forall>ep. inflight_of s' ep \<le> inflight_of s ep)"

lemma untouched_keeps: "untouched s s' \<Longrightarrow> keeps_requests s s'"
  by (auto simp: untouched_def keeps_requests_def inflight_of_def)

lemma win_inv_keeps: "win_inv tr s \<Longrightarrow> keeps_requests s s' \<Longrightarrow> win_inv tr s'"
  by (auto simp: win_inv_def keeps_requests_def intro: le_trans)

lemma forget_iso_less: "inflight_of (forget_iso_streams c i s) ep \<le> inflight_of s ep"
proof -
  have A: "(case fold (\<lambda>e m. m(ep_address e := None)) es m ep of None \<Rightarrow> 0 | Some n \<Rightarrow> n)
      \<le> (case m ep of None \<Rightarrow> 0 | Some n \<Rightarrow> (n :: nat))" for es and m :: "u8 \<Rightarrow> nat option"
  proof (induction es arbitrary: m)
    case (Cons e es)
    from Cons [of "m(ep_address e := None)"] show ?case by (auto split: if_splits option.splits)
  qed simp
  show ?thesis
  proof (cases "\<exists>cfg g. wc_cfg c = Some cfg \<and> cfg_interface cfg i = Some g")
    case True
    then obtain cfg g where "wc_cfg c = Some cfg" "cfg_interface cfg i = Some g" by blast
    then have "forget_iso_streams c i s = s\<lparr>wh_inflight := fold (\<lambda>e m. m(ep_address e := None))
        (concat (map if_endpoints (ig_alt_settings g))) (wh_inflight s)\<rparr>" by (simp add: forget_iso_streams_def)
    then show ?thesis using A [of "concat (map if_endpoints (ig_alt_settings g))" "wh_inflight s"]
      by (simp add: inflight_of_def)
  next
    case False
    then show ?thesis by (auto simp: forget_iso_streams_def split: option.split)
  qed
qed

lemma forget_iso_keeps: "keeps_requests s (forget_iso_streams c i s)"
  using forget_iso_less by (simp add: keeps_requests_def forget_iso_fields)

lemma keeps_refl [simp]: "keeps_requests s s" by (simp add: keeps_requests_def)

lemma keeps_trans [trans]: "keeps_requests a b \<Longrightarrow> keeps_requests b c \<Longrightarrow> keeps_requests a c"
  unfolding keeps_requests_def by (metis le_trans)

lemma keeps_fields:
  "wh_books s' = wh_books s \<Longrightarrow> wh_blocks s' = wh_blocks s \<Longrightarrow> live_buffers (wh_trace s') = live_buffers (wh_trace s)
     \<Longrightarrow> unregistered_once (wh_trace s') = unregistered_once (wh_trace s) \<Longrightarrow> wh_inflight s' = wh_inflight s \<Longrightarrow> keeps_requests s s'"
  by (simp add: keeps_requests_def inflight_of_def)

lemma release_keeps: "keeps_requests s (snd (win_release api c i s))"
proof (cases "map_of (wh_claimed s) i")
  case None
  then show ?thesis by (simp add: win_release_def bindR_def)
next
  case (Some cl)
  let ?s1 = "s\<lparr>wh_claimed := filter (\<lambda>p. fst p \<noteq> i) (wh_claimed s)\<rparr>"
  let ?s2 = "forget_iso_streams c i ?s1"
  have "keeps_requests s ?s1" by (rule keeps_fields) simp_all
  also have "keeps_requests ?s1 ?s2" by (rule forget_iso_keeps)
  also have "keeps_requests ?s2 (snd (drop_claimed api cl ?s2))"
    by (rule keeps_fields) (simp_all add: drop_claimed_def bindR_def)
  also have "snd (drop_claimed api cl ?s2) = snd (win_release api c i s)" using Some by (simp add: win_release_def bindR_def)
  finally show ?thesis .
qed

lemma set_alt_keeps: "keeps_requests s (snd (win_set_alt api c i alt s))"
proof (cases "map_of (wh_claimed s) i")
  case None
  then show ?thesis by (simp add: win_set_alt_def bindR_def)
next
  case (Some cl)
  let ?r = "api (wh_trace s) (SetAlt (cl_handle cl) alt)"
  let ?s1 = "s\<lparr>wh_trace := (SetAlt (cl_handle cl) alt, ?r) # wh_trace s\<rparr>"
  let ?s2 = "?s1\<lparr>wh_claimed := map (\<lambda>p. if fst p = i then (i, (snd p)\<lparr>cl_alt := alt\<rparr>) else p) (wh_claimed s)\<rparr>"
  have one: "keeps_requests s ?s1" by (rule keeps_fields) simp_all
  show ?thesis
  proof (cases ?r)
    case (Inl e)
    then show ?thesis using one Some by (simp add: win_set_alt_def bindR_def)
  next
    case (Inr x)
    note one
    also have "keeps_requests ?s1 ?s2" by (rule keeps_fields) simp_all
    also have "keeps_requests ?s2 (forget_iso_streams c i ?s2)" by (rule forget_iso_keeps)
    also have "forget_iso_streams c i ?s2 = snd (win_set_alt api c i alt s)"
      using Some Inr by (simp add: win_set_alt_def bindR_def)
    finally show ?thesis .
  qed
qed

lemma clear_halt_keeps: "keeps_requests s (snd (win_clear_halt api c ep s))"
proof (cases "pipe_owner c ep s")
  case (Inl e)
  then show ?thesis by (simp add: win_clear_halt_def bindR_def)
next
  case (Inr cl)
  then show ?thesis
    by (auto simp: win_clear_halt_def bindR_def keeps_requests_def inflight_of_def split: sum.split)
qed

lemma claim_keeps: "keeps_requests s (snd (win_claim api c i s))"
proof (cases "i \<in> fst ` set (wh_claimed s)")
  case True
  then show ?thesis by (simp add: win_claim_def bindR_def)
next
  case new: False
  obtain r t where f: "function_for api c i s = (r, t)" by fastforce
  have st: "keeps_requests s t" using untouched_keeps [OF function_for_untouched [OF f]] .
  have "keeps_requests t (snd (win_claim api c i s))"
    using new f
    by (auto simp: win_claim_def bindR_def lift_opt_def Let_def intro!: keeps_fields split: out.splits prod.splits sum.splits if_splits)
  with st show ?thesis by (rule keeps_trans)
qed

definition same_handles :: "win_handle \<Rightarrow> win_handle \<Rightarrow> bool" where
  "same_handles s s' \<longleftrightarrow> wh_main s' = wh_main s \<and> wh_functions s' = wh_functions s \<and> wh_claimed s' = wh_claimed s
     \<and> live_files (wh_trace s') = live_files (wh_trace s) \<and> live_handles (wh_trace s') = live_handles (wh_trace s)
     \<and> closed_once (wh_trace s') = closed_once (wh_trace s)"

lemma same_handles_refl [simp]: "same_handles s s" by (simp add: same_handles_def)

lemma same_handles_inv: "handles_inv s \<Longrightarrow> same_handles s s' \<Longrightarrow> handles_inv s'"
  by (simp add: handles_inv_def same_handles_def opened_devices_def owned_handles_def)

lemma settle_handles: "same_handles s (snd (settle key tid now t fl r s))"
  by (cases r) (simp_all add: settle_def accepted_def bindR_def same_handles_def issued_def)

lemma submit_pipe_handles: "same_handles s (snd (submit_pipe api c key tid now t s))"
proof (cases "pipe_owner c (tr_endpoint t) s")
  case (Inl e)
  then show ?thesis by (simp add: submit_pipe_def bindR_def)
next
  case (Inr cl)
  then show ?thesis
    by (cases "is_in_ep (tr_endpoint t)")
      (simp_all add: submit_pipe_def bindR_def same_handles_def settle_handles [unfolded same_handles_def])
qed

lemma submit_iso_handles: "same_handles s (snd (submit_iso api c key tid now t s))"
proof (cases "pipe_owner c (tr_endpoint t) s")
  case (Inl e)
  then show ?thesis by (simp add: submit_iso_def Let_def bindR_def)
next
  case cl: (Inr cl)
  show ?thesis
  proof (cases "endpoint_max_packet c (tr_endpoint t) s")
    case (Inl e)
    then show ?thesis using cl by (simp add: submit_iso_def Let_def bindR_def)
  next
    case (Inr m)
    then show ?thesis using cl
      by (cases "packets_ok (is_in_ep (tr_endpoint t)) m (tr_iso t)"; cases "iso_total t > length (tr_buffer t)";
          cases "is_in_ep (tr_endpoint t)")
        (auto simp: submit_iso_def Let_def bindR_def same_handles_def drop_block_def issued_def
          split: sum.split)
  qed
qed

lemma submit_control_handles:
  assumes inv: "handles_inv s" and fresh: "fresh_handles api"
  shows "handles_inv (snd (submit_control api env c key tid now t s))"
proof (cases "slice (tr_buffer t) 0 8")
  case None
  have "submit_control api env c key tid now t s = (Panic, s)"
    unfolding submit_control_def by (simp only: None) (simp add: bindR_def)
  then show ?thesis using inv by simp
next
  case (Some head)
  obtain h u where h: "control_handle api c s = (h, u)" by fastforce
  have u: "handles_inv u" using control_handle_run [OF inv fresh, of c] h by simp
  have "same_handles u (snd (submit_control api env c key tid now t s))"
  proof (cases "\<exists>x. h = Val x")
    case False
    then show ?thesis unfolding submit_control_def Some bindR_lift_Some using h
      by (cases h) (simp_all add: Let_def bindR_def)
  next
    case True
    then obtain x where x: "h = Val x" by blast
    show ?thesis
    proof (cases x)
      case None
      define su where "su = setup_from_bytes head"
      obtain q2 u2 where hc: "hub_control env c tid su (drop 8 (tr_buffer t)) u = (q2, u2)" by fastforce
      have "same_handles u u2" using hub_control_run [OF hc] by (auto simp: same_handles_def)
      moreover have "snd (submit_control api env c key tid now t s) = u2"
        unfolding submit_control_def Some bindR_lift_Some Let_def su_def [symmetric] using h x None hc
        by (cases q2) (simp_all add: bindR_def)
      ultimately show ?thesis by simp
    next
      case (Some w)
      define su where "su = setup_from_bytes head"
      define len where "len = min (length (tr_buffer t) - 8) (unat (cs_length su))"
      define cl where "cl = ControlTransfer w (su\<lparr>cs_length := of_nat len\<rparr>) len"
      define u1 where "u1 = u\<lparr>wh_trace := (cl, api (wh_trace u) cl) # wh_trace u\<rparr>"
      have "same_handles u u1" by (simp add: same_handles_def u1_def cl_def)
      moreover have "snd (submit_control api env c key tid now t s)
          = snd (settle key tid now t (control_file u1) (api (wh_trace u) cl) u1)"
        unfolding submit_control_def \<open>slice (tr_buffer t) 0 8 = Some head\<close> bindR_lift_Some Let_def
          su_def [symmetric] len_def [symmetric]
        using h x Some by (simp add: bindR_def u1_def cl_def)
      ultimately show ?thesis using settle_handles [of u1 key tid now t "control_file u1" "api (wh_trace u) cl"]
        by (simp add: same_handles_def)
    qed
  qed
  then show ?thesis using u same_handles_inv by blast
qed

lemma win_submit_handles:
  assumes inv: "handles_inv s" and fresh: "fresh_handles api"
  shows "handles_inv (snd (win_submit api env has_isoch c key tid now t s))"
proof (cases "wh_disconnected s \<or> bk_sub (wh_books s) tid \<noteq> None \<or> length (tr_buffer t) > 4294967295")
  case True
  then have "snd (win_submit api env has_isoch c key tid now t s) = s"
    by (cases "wh_disconnected s"; cases "bk_sub (wh_books s) tid"; cases "length (tr_buffer t) > 4294967295")
      (simp_all add: win_submit_def bindR_def)
  then show ?thesis using inv by simp
next
  case False
  then have eq: "win_submit api env has_isoch c key tid now t s = (case tr_kind t of
       Control \<Rightarrow> submit_control api env c key tid now t s
     | Isochronous \<Rightarrow> if has_isoch then submit_iso api c key tid now t s else (Fail (error_new NotSupported), s)
     | _ \<Rightarrow> submit_pipe api c key tid now t s)"
    by (cases "tr_kind t") (simp_all add: win_submit_def bindR_def)
  show ?thesis unfolding eq
    using submit_control_handles [OF inv fresh, of env c key tid now t]
      same_handles_inv [OF inv submit_iso_handles [of s api c key tid now t]]
      same_handles_inv [OF inv submit_pipe_handles [of s api c key tid now t]] inv
    by (cases "tr_kind t") simp_all
qed

text \<open>The operations of a handle in any order, with any answers. A request is issued at the address of
  a block that is not in use, and a packet is one of a request the system owns.\<close>

inductive win_step :: "win_api \<Rightarrow> win_env \<Rightarrow> bool \<Rightarrow> win_ctx \<Rightarrow> (nat \<Rightarrow> 'c transfer) \<Rightarrow> win_handle \<Rightarrow> win_handle \<Rightarrow> bool"
  for api env has_isoch c tr where
  submit: "key \<notin> fst ` set (bk_kernel (wh_books s)) \<Longrightarrow> tr_kind (tr tid) = tr_kind (t :: 'c transfer) \<Longrightarrow> tr_endpoint (tr tid) = tr_endpoint t \<Longrightarrow>
    win_step api env has_isoch c tr s (snd (win_submit api env has_isoch c key tid now t s))"
| packet: "(key, tid) \<in> set (bk_kernel (wh_books s)) \<Longrightarrow> tr_kind (tr tid) = tr_kind (t :: 'c transfer) \<Longrightarrow> tr_endpoint (tr tid) = tr_endpoint t \<Longrightarrow>
    win_step api env has_isoch c tr s (snd (win_packet api t key tid r s))"
| cancel: "win_step api env has_isoch c tr s (snd (win_cancel found tid s))"
| cancel_all: "win_step api env has_isoch c tr s (win_cancel_all found_all s)"
| expire: "win_step api env has_isoch c tr s (win_expire now found_all s)"
| deferred: "win_step api env has_isoch c tr s (snd (take_deferred s))"
| claim: "win_step api env has_isoch c tr s (snd (win_claim api c i s))"
| release: "win_step api env has_isoch c tr s (snd (win_release api c i s))"
| set_alt: "win_step api env has_isoch c tr s (snd (win_set_alt api c i alt s))"
| clear_halt: "win_step api env has_isoch c tr s (snd (win_clear_halt api c ep s))"
| driver_active: "win_step api env has_isoch c tr s (snd (win_kernel_driver_active api c i s))"

abbreviation win_reach :: "win_api \<Rightarrow> win_env \<Rightarrow> bool \<Rightarrow> win_ctx \<Rightarrow> (nat \<Rightarrow> 'c transfer) \<Rightarrow> win_handle \<Rightarrow> win_handle \<Rightarrow> bool" where
  "win_reach api env has_isoch c tr \<equiv> (win_step api env has_isoch c tr)\<^sup>*\<^sup>*"

lemma submit_inv:
  assumes inv: "win_inv tr s" and fresh: "key \<notin> fst ` set (bk_kernel (wh_books s))"
    and kind: "tr_kind (tr tid) = tr_kind t" "tr_endpoint (tr tid) = tr_endpoint t"
    and run: "win_submit api env has_isoch c key tid now t s = (q, s')"
  shows "win_inv tr s' \<and> book_reach early status (wh_books s) (wh_books s')"
  using win_submit_run [OF run]
proof (elim disjE)
  assume "q = Val (tr_buffer t) \<and> submitted key tid now t s s' \<and> bk_sub (wh_books s) tid = None"
  then show ?thesis using submitted_inv [of tr s key tid now t s', OF inv _ _ fresh kind] by blast
next
  assume "\<exists>out st n u. q = Val out \<and> tr_kind t = Control \<and> untouched s u
         \<and> s' = u\<lparr>wh_deferred := wh_deferred u @ [(tid, st, n)]\<rparr>"
  then obtain st n u where u: "untouched s u" "s' = u\<lparr>wh_deferred := wh_deferred u @ [(tid, st, n)]\<rparr>" by blast
  then have "keeps_requests u s'" by (intro keeps_fields) simp_all
  then have k: "keeps_requests s s'" using untouched_keeps [OF u(1)] keeps_trans by blast
  then have "wh_books s' = wh_books s" by (simp add: keeps_requests_def)
  then show ?thesis using win_inv_keeps [OF inv k] by (simp add: book_reach.refl)
next
  assume "(\<forall>x. q \<noteq> Val x) \<and> untouched s s'"
  then have u: "untouched s s'" by blast
  then have "wh_books s' = wh_books s" by (simp add: untouched_def)
  then show ?thesis using win_inv_untouched [OF inv u] by (simp add: book_reach.refl)
qed

lemma win_inv_books:
  assumes "win_inv tr s" "wh_blocks s' = wh_blocks s" "wh_trace s' = wh_trace s" "wh_inflight s' = wh_inflight s"
    "book_reach early status (wh_books s) (wh_books s')" "books_idle (wh_books s')"
    "bk_kernel (wh_books s') = bk_kernel (wh_books s)"
  shows "win_inv tr s'"
proof -
  have "books_inv (wh_books s')" using assms(1,5) book_reach_inv by (auto simp: win_inv_def)
  moreover have "inflight_of s' = inflight_of s" using assms(4) by (auto simp: inflight_of_def)
  ultimately show ?thesis using assms by (simp add: win_inv_def)
qed

lemma driver_active_run:
  assumes inv: "handles_inv s" and fresh: "fresh_handles api"
  shows "handles_inv (snd (win_kernel_driver_active api c i s))" "untouched s (snd (win_kernel_driver_active api c i s))"
proof -
  obtain r t where f: "function_for api c i s = (r, t)" by fastforce
  have "snd (win_kernel_driver_active api c i s) = (if wh_main s = None then t else s)"
    by (cases r) (auto simp: win_kernel_driver_active_def bindR_def matchR_def f split: option.split)
  then show "handles_inv (snd (win_kernel_driver_active api c i s))" "untouched s (snd (win_kernel_driver_active api c i s))"
    using function_for_run [OF inv fresh f] inv function_for_untouched [OF f] by simp_all
qed

lemma win_step_inv:
  assumes step: "win_step api env has_isoch c tr s s'" and fresh: "fresh_handles api"
    and inv: "handles_inv s" "win_inv tr s"
  shows "handles_inv s' \<and> win_inv tr s' \<and> book_reach True win_status (wh_books s) (wh_books s')"
proof -
  have idle: "books_idle (wh_books s)" using inv(2) by (simp add: win_inv_def)
  have kept: "handles_inv u \<and> win_inv tr u \<and> book_reach True win_status (wh_books s) (wh_books u)"
    if "handles_inv u" "keeps_requests s u" for u
    using that win_inv_keeps [OF inv(2) that(2)] by (simp add: keeps_requests_def book_reach.refl)
  from step show ?thesis
  proof cases
    case (submit key tid t now)
    obtain q u where run: "win_submit api env has_isoch c key tid now t s = (q, u)" by fastforce
    show ?thesis
      using win_submit_handles [OF inv(1) fresh, of env has_isoch c key tid now t]
        submit_inv [of tr s key tid t, OF inv(2) submit(2-4) run, of True win_status] submit(1) run by simp
  next
    case (packet key tid t r)
    obtain n err ds where r: "r = (n, err, ds)" by (cases r)
    obtain w s1 where "snd (win_packet api t key tid r s) = s1" "win_inv tr s1"
      "book_reach True win_status (wh_books s) (wh_books s1)"
      "wh_main s1 = wh_main s" "wh_functions s1 = wh_functions s" "wh_claimed s1 = wh_claimed s"
      "live_files (wh_trace s1) = live_files (wh_trace s)" "live_handles (wh_trace s1) = live_handles (wh_trace s)"
      "closed_once (wh_trace s1) = closed_once (wh_trace s)"
      unfolding r by (rule win_packet_run [OF inv(2) packet(2) packet(3,4), of api n err ds True]) simp
    moreover from this have "same_handles s s1" by (simp add: same_handles_def)
    ultimately show ?thesis using same_handles_inv [OF inv(1)] packet(1) by simp
  next
    case (cancel found tid)
    let ?u = "s\<lparr>wh_books := bk_cancel found tid (wh_books s)\<rparr>"
    note p = cancel_path(1) [OF idle, of True win_status found tid] cancel_path(2,3) [OF idle, of found tid]
    have "handles_inv ?u \<and> win_inv tr ?u \<and> book_reach True win_status (wh_books s) (wh_books ?u)"
      using same_handles_inv [OF inv(1), of ?u] win_inv_books [OF inv(2), of ?u True win_status] p
      by (simp add: same_handles_def)
    moreover have "s' = s \<or> s' = ?u"
      unfolding cancel by (cases "bk_sub (wh_books s) tid") (simp_all add: win_cancel_def bindR_def)
    ultimately show ?thesis using inv by (auto simp: book_reach.refl)
  next
    case (cancel_all found)
    have "books_idle (wh_books s') \<and> book_reach True win_status (wh_books s) (wh_books s')
        \<and> bk_kernel (wh_books s') = bk_kernel (wh_books s)"
      using cancel_all_path [OF idle, of True win_status found] by (simp add: cancel_all win_cancel_all_def)
    then show ?thesis using same_handles_inv [OF inv(1), of s'] win_inv_books [OF inv(2), of s' True win_status]
      by (simp add: cancel_all win_cancel_all_def same_handles_def)
  next
    case (expire now found)
    have "books_idle (wh_books s') \<and> book_reach True win_status (wh_books s) (wh_books s')
        \<and> bk_kernel (wh_books s') = bk_kernel (wh_books s)"
      using expire_path [OF idle, of True win_status now found] by (simp add: expire win_expire_def)
    then show ?thesis using same_handles_inv [OF inv(1), of s'] win_inv_books [OF inv(2), of s' True win_status]
      by (simp add: expire win_expire_def same_handles_def)
  next
    case deferred
    have "handles_inv s'" by (rule same_handles_inv [OF inv(1)]) (simp add: deferred take_deferred_def bindR_def same_handles_def)
    moreover have "keeps_requests s s'" by (rule keeps_fields) (simp_all add: deferred take_deferred_def bindR_def)
    ultimately show ?thesis by (rule kept)
  next
    case (claim i)
    then show ?thesis using kept claim_run [OF inv(1) fresh] claim_keeps by simp
  next
    case (release i)
    then show ?thesis using kept release_run [OF inv(1)] release_keeps by simp
  next
    case (set_alt i alt)
    then show ?thesis using kept set_alt_run [OF inv(1)] set_alt_keeps by simp
  next
    case (clear_halt ep)
    then show ?thesis using kept clear_halt_run [OF inv(1)] clear_halt_keeps by simp
  next
    case (driver_active i)
    then show ?thesis using kept driver_active_run [OF inv(1) fresh] untouched_keeps by simp
  qed
qed

interpretation win: request_backend win_status "\<lambda>s. fresh_handles api \<and> handles_inv s \<and> win_inv tr s" wh_books
    "win_step api env has_isoch c tr" for api env has_isoch c tr
  by unfold_locales (auto dest: win_step_inv simp: win_inv_def)

lemma win_open_inv:
  assumes "win_open api d win_handle_new = (q, s)"
  shows "handles_inv s \<and> win_inv tr s \<and> wh_books s = books_new"
proof (cases "opened_config d")
  case None
  then have "s = win_handle_new" using assms by (simp add: win_open_def bindR_def)
  then show ?thesis
    by (simp add: win_handle_new_def handles_inv_def win_inv_def books_new_inv books_idle_def inflight_of_def
        opened_devices_def owned_handles_def) (simp add: books_new_def List.map_filter_def)
next
  case (Some cfg)
  have new: "handles_inv win_handle_new" "win_inv tr win_handle_new" "wh_books win_handle_new = books_new"
    by (simp_all add: win_handle_new_def handles_inv_def win_inv_def books_new_inv books_idle_def inflight_of_def
        opened_devices_def owned_handles_def) (simp add: books_new_def List.map_filter_def)
  show ?thesis
  proof (cases "wl_winusb (di_location d)")
    case False
    then have "s = win_handle_new" using assms Some by (simp add: win_open_def bindR_def)
    then show ?thesis using new by simp
  next
    case True
    obtain r t where o: "winusb_open api (wl_path (di_location d)) win_handle_new = (r, t)" by fastforce
    have ut: "untouched win_handle_new t" using winusb_open_untouched [OF o] .
    then have w: "win_inv tr t" "wh_books t = books_new" using win_inv_untouched [OF new(2)] new(3) by (simp_all add: untouched_def)
    show ?thesis
    proof (cases r)
      case (Val m)
      note op = winusb_open_Val [OF o [unfolded Val]]
      have s: "s = t\<lparr>wh_main := Some m\<rparr>" using assms Some True o Val by (simp add: win_open_def bindR_def)
      from op(2) obtain x where t: "t = win_handle_new\<lparr>wh_trace := x\<rparr>" by blast
      have "handles_inv s"
        using op(1) unfolding s t by (simp add: handles_inv_def win_handle_new_def opened_devices_def owned_handles_def left_open_def)
      moreover have "keeps_requests t s" unfolding s by (rule keeps_fields) simp_all
      ultimately show ?thesis using win_inv_keeps [OF w(1)] w(2) by (simp add: s)
    next
      case (Fail e)
      then have "s = t" using assms Some True o by (simp add: win_open_def bindR_def)
      then show ?thesis using w handles_inv_same [OF new(1) winusb_open_Fail] o Fail by simp
    next
      case Panic
      then show ?thesis using winusb_open_no_panic [of api "wl_path (di_location d)" win_handle_new] o by simp
    qed
  qed
qed

section \<open>Isochronous results\<close>

lemma spread_sum: "sum_list (map (\<lambda>p. unat (iso_actual p)) (spread st n ls)) = min n (sum_list (map unat ls))"
proof (induction ls arbitrary: n)
  case (Cons l ls)
  have "min n (unat l) < 2 ^ 32" using unsigned_less [of l] by (simp add: min_less_iff_disj)
  then have "unat (of_nat (min n (unat l)) :: u32) = min n (unat l)" by (simp add: unsigned_of_nat take_bit_eq_mod)
  moreover have "min a b + min (a - min a b) c = min a (b + c)" for a b c :: nat by linarith
  ultimately show ?case using Cons [of "n - min n (unat l)"] by (simp add: Let_def)
qed simp

lemma spread_lengths: "map iso_length (spread st n ls) = ls"
  by (induction ls arbitrary: n) (simp_all add: Let_def)

text \<open>The packets are filled in order: after one that is short, nothing was sent.\<close>

lemma spread_prefix:
  "i < j \<Longrightarrow> j < length ls \<Longrightarrow> unat (iso_actual (spread st n ls ! i)) < unat (ls ! i) \<Longrightarrow> iso_actual (spread st n ls ! j) = 0"
proof (induction ls arbitrary: n i j)
  case (Cons l ls)
  have small: "unat (of_nat (min n (unat l)) :: u32) = min n (unat l)"
    using unsigned_less [of l] by (simp add: unsigned_of_nat take_bit_eq_mod min_less_iff_disj)
  have zero: "spread st 0 ms ! k = \<lparr>iso_length = ms ! k, iso_actual = 0, iso_status = st\<rparr>" if "k < length ms" for ms k
    using that by (induction ms arbitrary: k) (auto simp: Let_def nth_Cons split: nat.split)
  obtain j' where j: "j = Suc j'" using Cons.prems(1) by (cases j) auto
  show ?case
  proof (cases i)
    case 0
    then have "n < unat l" using Cons.prems(3) small by (simp add: Let_def min_def split: if_splits)
    then show ?thesis using Cons.prems(2) zero [of j' ls] by (simp add: j Let_def)
  next
    case (Suc i')
    then show ?thesis using Cons.IH [of i' j' "n - min n (unat l)"] Cons.prems by (simp add: j Let_def)
  qed
qed simp

lemma slot_packets_lengths: "map iso_length (slot_packets ds ls) = ls"
  by (rule nth_equalityI) (simp_all add: slot_packets_def nth_enumerate_eq)

lemma iso_results_sum:
  assumes "n \<le> sum_list (map unat ls)"
  shows "fst (iso_results st n ds ls) = sum_list (map (\<lambda>p. unat (iso_actual p)) (snd (iso_results st n ds ls)))"
    and "map iso_length (snd (iso_results st n ds ls)) = ls"
  using assms by (simp_all add: iso_results_def spread_sum spread_lengths slot_packets_lengths)

text \<open>What \<open>prepare_isochronous\<close> lets through is exactly what WinUSB cuts the buffer into.\<close>

lemma packets_ok_nth:
  "packets_ok d m ps \<longleftrightarrow> (\<forall>i < length ps. iso_length (ps ! i) = m
     \<or> (\<not> d \<and> i + 1 = length ps \<and> iso_length (ps ! i) \<le> m))"
proof (induction ps)
  case (Cons p ps)
  have "(\<forall>i < length (p # ps). P i) \<longleftrightarrow> P 0 \<and> (\<forall>i < length ps. P (Suc i))" for P by (simp add: All_less_Suc2)
  then show ?case using Cons by (auto simp: packet_ok_def)
qed simp

text \<open>A stream is joined only while a request of it is out.\<close>

lemma join_has_request:
  assumes "win_inv tr s" "0 < inflight_of s ep"
  shows "\<exists>e \<in> set (bk_kernel (wh_books s)). iso_out tr ep e"
proof -
  have "inflight_of s ep \<le> length (filter (iso_out tr ep) (bk_kernel (wh_books s)))"
    using assms(1) by (simp add: win_inv_def)
  with assms(2) have "0 < length (filter (iso_out tr ep) (bk_kernel (wh_books s)))" by linarith
  then show ?thesis by (auto simp: filter_empty_conv)
qed

text \<open>The converse fails: of two requests out, one fails and resets the count; a new stream is
  started; the older request then completes and takes the count of the new one.\<close>

lemma stream_forgotten:
  assumes "inflight_of s ep = 2"
  defines "s1 \<equiv> stream_done ep StError s"
  defines "s2 \<equiv> s1\<lparr>wh_inflight := (wh_inflight s1)(ep \<mapsto> inflight_of s1 ep + 1)\<rparr>"
  shows "inflight_of s1 ep = 0" "inflight_of (stream_done ep Completed s2) ep = 0"
  by (simp_all add: s2_def s1_def stream_done_def inflight_of_def)

section \<open>Claims do not underflow\<close>

lemma function_for_first: "function_for api c i s = (Val (first, d), s') \<Longrightarrow> first \<le> i"
  by (auto simp: function_for_def bindR_def lift_opt_def first_interface_of_def Let_def find_Some_iff
      split: option.splits prod.splits out.splits)

text \<open>So packet \<open>i\<close> begins where WinUSB begins its own: at \<open>i\<close> times the endpoint's packet size.\<close>

lemma packets_offsets:
  assumes "packets_ok d m ps" "i < length ps"
  shows "sum_list (map (\<lambda>p. unat (iso_length p)) (take i ps)) = i * unat m"
proof -
  have "iso_length (ps ! j) = m" if "j < i" for j
    using assms that packets_ok_nth [of d m ps] by (metis Suc_eq_plus1 Suc_lessI less_trans not_less_eq)
  then have "map (\<lambda>p. unat (iso_length p)) (take i ps) = replicate i (unat m)"
    using assms(2) by (intro nth_equalityI) auto
  then show ?thesis by (simp add: sum_list_replicate)
qed

section \<open>A system\<close>

text \<open>A system that grants everything, with handles it has not given out.\<close>

definition granting :: win_api where
  "granting t c = (case c of
      CreateFile p \<Rightarrow> Inr (Suc (sum_mset (live_files t)))
    | Initialize f \<Rightarrow> Inr (Suc (sum_mset (live_handles t)))
    | GetAssociated w i \<Rightarrow> Inr (Suc (sum_mset (live_handles t)))
    | _ \<Rightarrow> Inr 0)"

lemma member_le_sum: "x \<in># M \<Longrightarrow> x \<le> sum_mset (M :: nat multiset)"
  by (induction M) auto

lemma granting_fresh: "fresh_handles granting"
  by (auto simp: fresh_handles_def granting_def dest: member_le_sum)

end
