(* ===== verification/Mac_Device.thy ===== *)
theory Mac_Device
  imports Usb_Device Usb_Io "HOL-Library.Product_Lexorder" "HOL-Library.Multiset"
begin

text \<open>
  The macOS backend, \<open>src/src/sys/macos/mod.rs\<close>, up to its handles: return codes, the device object
  \<open>DeviceRef\<close> that all handles of a device share, with its counted exclusive open, its event source and
  the re-enumeration that captures and releases it; enumeration; and the table of hotplug notifiers.
  The IOKit calls are a datatype, \<open>mac_call\<close>, and the system a record of functions from the calls made
  so far to the answers of the next one, a return code and the value put in the out-parameter. The
  calls are kept in the state, newest first.
\<close>

section \<open>Return codes\<close>

type_synonym ioreturn = u32

definition mac_errno_kind :: "ioreturn \<Rightarrow> error_kind" where
  "mac_errno_kind code =
     (if code = 0 then Other
      else if code \<in> {0xe00002c0, 0xe00002d9, 0xe00002ed} then NoDevice
      else if code \<in> {0xe00002c5, 0xe00002c1} then Access
      else if code \<in> {0xe00002cd, 0xe00002c2} then InvalidParam
      else if code \<in> {0xe00002d6, 0xe0004051} then Timeout
      else if code = 0xe000404f then Pipe
      else if code \<in> {0xe00002bd, 0xe00002be} then NoMem
      else if code = 0xe00002c7 then NotSupported
      else if code = 0xe00002d5 then Busy
      else if code = 0xe00002eb then Interrupted
      else if code = 0xe00002f0 then NotFound
      else if code = 0xe00002e8 then Overflow
      else Io)"

definition io_error :: "ioreturn \<Rightarrow> usb_error" where
  "io_error code = error_from_code (mac_errno_kind code) code"

definition mac_check :: "ioreturn \<Rightarrow> unit result" where
  "mac_check code = (if code = 0 then Ok () else Inl (io_error code))"

section \<open>Calls\<close>

text \<open>A device, interface or service is a number, 0 a null pointer.\<close>

datatype mac_call =
    DeviceOpen bool
  | DeviceClose
  | DeviceRelease
  | ReEnumerate bool
  | MakeDeviceSource
  | DropDeviceSource
  | GetConfiguration
  | SetConfiguration u8
  | ResetDevice
  | AbortPipeZero
  | RequestAsync control_setup "nat option"
  | InterfaceIterator
  | ReleaseIterator
  | NextService nat
  | ReleaseService nat
  | PlugIn nat
  | QueryPlugIn nat bool
  | ReleasePlugIn nat
  | InterfaceNumber nat
  | ReleaseObject nat
  | InterfaceOpen nat
  | InterfaceClose nat
  | MakeSource nat
  | AddSource nat
  | DropSource nat
  | NumEndpoints nat
  | PipeProperties nat u8
  | GetAlternate nat
  | SetAlternate nat u8
  | ClearStall nat u8
  | AbortPipe nat u8
  | PipeAsync nat u8 bool nat "nat option"
  | BusFrame nat
  | IsochAsync nat u8 bool nat "u16 list"
  | Children nat

type_synonym mac_trace = "(mac_call \<times> ioreturn \<times> nat) list"

text \<open>\<open>ma_answer\<close> is the return code and the out-parameter; the others are answers of another shape: the
  services an iterator yields, the direction, number and interval of a pipe, and for each driver of an
  interface whether it is a user client.\<close>

record mac_api =
  ma_answer :: "mac_trace \<Rightarrow> mac_call \<Rightarrow> ioreturn \<times> nat"
  ma_services :: "mac_trace \<Rightarrow> nat list"
  ma_pipe :: "mac_trace \<Rightarrow> nat \<Rightarrow> u8 \<Rightarrow> u8 \<times> u8 \<times> u8"
  ma_children :: "mac_trace \<Rightarrow> nat \<Rightarrow> bool list"

section \<open>The shared device object\<close>

text \<open>\<open>DeviceRef\<close>: what the object can do, how often it is open, and whether its event source runs.\<close>

record mac_dev =
  md_has_182 :: bool
  md_has_187 :: bool
  md_count :: nat
  md_source :: bool
  md_trace :: mac_trace

definition mac_invoke :: "mac_api \<Rightarrow> mac_call \<Rightarrow> ('s mac_dev_scheme, ioreturn \<times> nat) io" where
  "mac_invoke api c = (\<lambda>s. let r = ma_answer api (md_trace s) c in
     (Val r, s\<lparr>md_trace := (c, fst r, snd r) # md_trace s\<rparr>))"

definition mac_do :: "mac_api \<Rightarrow> mac_call \<Rightarrow> ('s mac_dev_scheme, unit) io" where
  "mac_do api c = bindR (mac_invoke api c) (\<lambda>_. ret ())"

text \<open>\<open>check(call!(..))?\<close>.\<close>

definition mac_try :: "mac_api \<Rightarrow> mac_call \<Rightarrow> ('s mac_dev_scheme, unit) io" where
  "mac_try api c = bindR (mac_invoke api c) (\<lambda>(kr, v). lift_res (mac_check kr))"

text \<open>\<open>USBDeviceOpenSeize\<close> where there is one.\<close>

definition device_open_call :: "mac_api \<Rightarrow> ('s mac_dev_scheme, unit) io" where
  "device_open_call api = bindR (get_st md_has_182) (\<lambda>seize. mac_try api (DeviceOpen seize))"

definition dev_open :: "mac_api \<Rightarrow> ('s mac_dev_scheme, unit) io" where
  "dev_open api = bindR (get_st md_count) (\<lambda>count.
     bindR (if count = 0 then device_open_call api else ret ()) (\<lambda>_.
       mod_st (\<lambda>s. s\<lparr>md_count := md_count s + 1\<rparr>)))"

definition dev_close :: "mac_api \<Rightarrow> ('s mac_dev_scheme, unit) io" where
  "dev_close api = bindR (get_st md_count) (\<lambda>count.
     if count = 0 then ret ()
     else bindR (mod_st (\<lambda>s. s\<lparr>md_count := count - 1\<rparr>)) (\<lambda>_.
       if count = 1 then mac_do api DeviceClose else ret ()))"

definition ensure_event_source :: "mac_api \<Rightarrow> ('s mac_dev_scheme, unit) io" where
  "ensure_event_source api = bindR (get_st md_source) (\<lambda>src.
     if src then ret ()
     else bindR (mac_try api MakeDeviceSource) (\<lambda>_. mod_st (\<lambda>s. s\<lparr>md_source := True\<rparr>)))"

definition take_source :: "mac_api \<Rightarrow> ('s mac_dev_scheme, unit) io" where
  "take_source api = bindR (get_st md_source) (\<lambda>src.
     if src then bindR (mod_st (\<lambda>s. s\<lparr>md_source := False\<rparr>)) (\<lambda>_. mac_do api DropDeviceSource) else ret ())"

definition dev_reopen :: "mac_api \<Rightarrow> ('s mac_dev_scheme, unit) io" where
  "dev_reopen api = bindR (get_st md_count) (\<lambda>count.
     bindR (if count > 0 then bindR (mac_do api DeviceClose) (\<lambda>_. device_open_call api) else ret ()) (\<lambda>_.
     bindR (take_source api) (\<lambda>_. ensure_event_source api)))"

text \<open>\<open>reenumerate\<close>; the flag is whether to capture the device or to release it.\<close>

definition reenumerate :: "mac_api \<Rightarrow> bool \<Rightarrow> ('s mac_dev_scheme, unit) io" where
  "reenumerate api capture = bindR (get_st md_has_187) (\<lambda>has_187.
     if \<not> has_187 then failK NotSupported
     else bindR (mac_invoke api (ReEnumerate capture)) (\<lambda>(kr, v).
       if kr = 0 then ret ()
       else if kr = 0xe00002c1 then failE (error_from_code Access 0xe00002c1)
       else failE (io_error kr)))"

text \<open>\<open>DeviceRef::drop\<close>.\<close>

definition dev_drop :: "mac_api \<Rightarrow> ('s mac_dev_scheme, unit) io" where
  "dev_drop api = bindR (get_st md_count) (\<lambda>count.
     bindR (if count > 0 then mac_do api DeviceClose else ret ()) (\<lambda>_.
     bindR (take_source api) (\<lambda>_. mac_do api DeviceRelease)))"

text \<open>\<open>Context::open\<close>: whether the handle got a share of the open.\<close>

definition mac_open :: "mac_api \<Rightarrow> ('s mac_dev_scheme, bool) io" where
  "mac_open api = bindR (matchR (dev_open api) (\<lambda>_. ret True)
       (\<lambda>e. if err_kind e = Access then ret False else failE e)) (\<lambda>is_open.
     bindR (ensure_event_source api) (\<lambda>_. ret is_open))"

lemma mac_invoke_run [simp]:
  "mac_invoke api c s = (Val (ma_answer api (md_trace s) c),
     s\<lparr>md_trace := (c, fst (ma_answer api (md_trace s) c), snd (ma_answer api (md_trace s) c)) # md_trace s\<rparr>)"
  by (simp add: mac_invoke_def Let_def)

lemma mac_do_run [simp]: "mac_do api c s = (Val (), snd (mac_invoke api c s))"
  by (simp add: mac_do_def bindR_def)

lemma mac_try_run:
  "mac_try api c s = (out_of (mac_check (fst (ma_answer api (md_trace s) c))), snd (mac_invoke api c s))"
  by (cases "ma_answer api (md_trace s) c") (simp add: mac_try_def bindR_def)

lemma mac_check_cases: "mac_check kr = (if kr = 0 then Ok () else Inl (io_error kr))"
  by (simp add: mac_check_def)

section \<open>Enumeration\<close>

text \<open>What IOKit answers: the services of a class, a service's registry identifier, its plug-in and the
  device object of a revision (187, 182, or 0 for the first), and the properties of an object. A
  configuration is the memory behind the pointer IOKit returns.\<close>

record mac_env =
  me_services :: "string \<Rightarrow> nat list"
  me_entry_id :: "nat \<Rightarrow> nat"
  me_plugin :: "nat \<Rightarrow> ioreturn \<times> nat"
  me_query :: "nat \<Rightarrow> nat \<Rightarrow> ioreturn \<times> nat"
  me_location :: "nat \<Rightarrow> u32"
  me_address :: "nat \<Rightarrow> u16"
  me_speed :: "nat \<Rightarrow> u8"
  me_request :: "nat \<Rightarrow> u16 \<Rightarrow> u16 \<Rightarrow> nat \<Rightarrow> ioreturn \<times> nat \<times> bytes"
  me_byte :: "nat \<Rightarrow> string \<Rightarrow> u8"
  me_half :: "nat \<Rightarrow> string \<Rightarrow> u16"
  me_config :: "nat \<Rightarrow> u8 \<Rightarrow> bytes option"
  me_serial :: "nat \<Rightarrow> nat list option"

record device_object =
  do_obj :: nat
  do_has_182 :: bool
  do_has_187 :: bool

record mac_location =
  ml_dev :: device_object
  ml_serial :: "nat list option"

definition queried :: "ioreturn \<times> nat \<Rightarrow> bool" where
  "queried r \<longleftrightarrow> fst r = 0 \<and> snd r \<noteq> 0"

definition from_service :: "mac_env \<Rightarrow> nat \<Rightarrow> device_object result" where
  "from_service env service =
     (let (kr, plugin) = me_plugin env service;
          q187 = me_query env plugin 187; q182 = me_query env plugin 182; q0 = me_query env plugin 0
      in if kr \<noteq> 0 \<or> plugin = 0 then Inl (io_error kr)
         else if queried q187 then Ok \<lparr>do_obj = snd q187, do_has_182 = True, do_has_187 = True\<rparr>
         else if queried q182 then Ok \<lparr>do_obj = snd q182, do_has_182 = True, do_has_187 = False\<rparr>
         else if queried q0 then Ok \<lparr>do_obj = snd q0, do_has_182 = False, do_has_187 = False\<rparr>
         else Err NotSupported)"

text \<open>\<open>device_ref\<close>: the cache maps registry identifiers to device objects; \<open>alive\<close> says which are still
  referenced.\<close>

type_synonym mac_cache = "(nat \<times> device_object) list"

definition device_ref ::
  "mac_env \<Rightarrow> (device_object \<Rightarrow> bool) \<Rightarrow> nat \<Rightarrow> nat \<Rightarrow> mac_cache \<Rightarrow> device_object result \<times> mac_cache" where
  "device_ref env alive service i cache =
     (let cache = filter (\<lambda>e. alive (snd e)) cache in
      case map_of cache i of
        Some d \<Rightarrow> (Ok d, cache)
      | None \<Rightarrow> (case from_service env service of
          Inl e \<Rightarrow> (Inl e, cache)
        | Inr d \<Rightarrow> (Ok d, (i, d) # cache)))"

definition mac_get_descriptor :: "mac_env \<Rightarrow> nat \<Rightarrow> u16 \<Rightarrow> u16 \<Rightarrow> nat \<Rightarrow> (nat \<times> bytes) result" where
  "mac_get_descriptor env obj v i len = (case me_request env obj v i (min len 65535) of
     (kr, len_done, data) \<Rightarrow> if kr = 0 then Ok (len_done, resize len data) else Inl (io_error kr))"

text \<open>The ports of a location, four bits each from bit 20 down, up to the first zero.\<close>

function ports_from :: "u32 \<Rightarrow> nat \<Rightarrow> u8 list" where
  "ports_from location shift = (let port = ucast (drop_bit shift location AND 0xf) in
     if port = 0 then []
     else port # (if shift = 0 then [] else ports_from location (shift - 4)))"
  by pat_completeness auto
termination by (relation "measure snd") auto

declare ports_from.simps [simp del]

definition mac_speed :: "u8 \<Rightarrow> speed" where
  "mac_speed n = (if n = 0 then SpeedLow else if n = 1 then SpeedFull else if n = 2 then SpeedHigh
     else if n = 3 then SpeedSuper else if n = 4 then SpeedSuperPlus else if n = 5 then SpeedSuperPlusX2
     else SpeedUnknown)"

text \<open>The device descriptor: what the device answers, or, when it does not answer 18 bytes, what the
  registry knows. The outer \<open>None\<close> is a panic of the decoder, the inner one \<open>describe\<close> giving up.\<close>

definition registry_descriptor :: "mac_env \<Rightarrow> device_object \<Rightarrow> device_descriptor" where
  "registry_descriptor env d = (let obj = do_obj d; index = (\<lambda>n. if do_has_182 d then me_byte env obj n else 0) in
     \<lparr>dd_usb_version = Version 0x0200, dd_class = me_byte env obj ''GetDeviceClass'',
      dd_sub_class = me_byte env obj ''GetDeviceSubClass'', dd_protocol = me_byte env obj ''GetDeviceProtocol'',
      dd_max_packet_size_0 = 64, dd_vendor_id = me_half env obj ''GetDeviceVendor'',
      dd_product_id = me_half env obj ''GetDeviceProduct'',
      dd_device_version = Version (me_half env obj ''GetDeviceReleaseNumber''),
      dd_manufacturer = index ''USBGetManufacturerStringIndex'', dd_product = index ''USBGetProductStringIndex'',
      dd_serial_number = index ''USBGetSerialNumberStringIndex'',
      dd_num_configurations = me_byte env obj ''GetNumberOfConfigurations''\<rparr>)"

definition described_descriptor :: "mac_env \<Rightarrow> device_object \<Rightarrow> device_descriptor option option" where
  "described_descriptor env d =
     (case mac_get_descriptor env (do_obj d) (push_bit 8 (ucast DT_DEVICE)) 0 18 of
        Inr (n, raw) \<Rightarrow> if n = 18 then map_option (\<lambda>r. case r of Inr x \<Rightarrow> Some x | Inl e \<Rightarrow> None) (device_from_bytes raw)
          else Some (Some (registry_descriptor env d))
      | Inl e \<Rightarrow> Some (Some (registry_descriptor env d)))"

fun mac_configs :: "mac_env \<Rightarrow> nat \<Rightarrow> nat list \<Rightarrow> bytes list" where
  "mac_configs env obj [] = []"
| "mac_configs env obj (i # is) = (case me_config env obj (of_nat i) of
      None \<Rightarrow> []
    | Some mem \<Rightarrow> take (max (unat (u16_le (byte_at mem 2) (byte_at mem 3))) 9) mem # mac_configs env obj is)"

definition mac_describe ::
  "mac_env \<Rightarrow> (device_object \<Rightarrow> bool) \<Rightarrow> nat \<Rightarrow> nat \<Rightarrow> mac_cache \<Rightarrow> mac_location device_info option option \<times> mac_cache" where
  "mac_describe env alive service i cache = (case device_ref env alive service i cache of
      (Inl e, cache) \<Rightarrow> (Some None, cache)
    | (Inr d, cache) \<Rightarrow> (let obj = do_obj d; location = me_location env obj in
        (map_option (map_option (\<lambda>desc.
           \<lparr>di_bus_number = ucast (drop_bit 24 location), di_address = of_nat (min (unat (me_address env obj)) 255),
            di_port_numbers = ports_from location 20, di_speed = mac_speed (me_speed env obj), di_descriptor = desc,
            di_configs = mac_configs env obj [0..<unat (dd_num_configurations desc)],
            di_active_config = Some (me_byte env obj ''GetConfiguration''),
            di_location = \<lparr>ml_dev = d, ml_serial = me_serial env service\<rparr>\<rparr>))
          (described_descriptor env d), cache)))"

text \<open>The services of one class. A device object stays alive while something outside holds it (\<open>outside\<close>)
  or it is among the devices found.\<close>

fun describe_services ::
  "mac_env \<Rightarrow> (device_object \<Rightarrow> bool) \<Rightarrow> nat list \<Rightarrow> (nat \<times> mac_location device_info) list \<Rightarrow> mac_cache
     \<Rightarrow> (nat \<times> mac_location device_info) list option \<times> mac_cache" where
  "describe_services env outside [] found cache = (Some found, cache)"
| "describe_services env outside (service # rest) found cache =
     (let i = me_entry_id env service in
      if i \<in> fst ` set found then describe_services env outside rest found cache
      else (case mac_describe env (\<lambda>d. outside d \<or> d \<in> (\<lambda>f. ml_dev (di_location (snd f))) ` set found) service i cache of
          (None, cache) \<Rightarrow> (None, cache)
        | (Some None, cache) \<Rightarrow> describe_services env outside rest found cache
        | (Some (Some x), cache) \<Rightarrow> describe_services env outside rest (found @ [(i, x)]) cache))"

definition mac_enumerate ::
  "mac_env \<Rightarrow> (device_object \<Rightarrow> bool) \<Rightarrow> mac_cache \<Rightarrow> mac_location device_info list option \<times> mac_cache" where
  "mac_enumerate env outside cache =
     (let sorted_by = sort_key (\<lambda>d. (di_bus_number d, di_address d)) in
      case describe_services env outside (me_services env ''IOUSBHostDevice'') [] cache of
        (None, cache) \<Rightarrow> (None, cache)
      | (Some [], cache) \<Rightarrow> (case describe_services env outside (me_services env ''IOUSBDevice'') [] cache of
          (r, cache) \<Rightarrow> (map_option (\<lambda>f. sorted_by (map snd f)) r, cache))
      | (Some f, cache) \<Rightarrow> (Some (sorted_by (map snd f)), cache))"

definition mac_read_serial :: "mac_location device_info \<Rightarrow> nat list option" where
  "mac_read_serial d = ml_serial (di_location d)"

section \<open>Notifiers and the event thread\<close>

text \<open>The table behind the hotplug callback: tokens count up from 1.\<close>

record 'n notifiers =
  nt_next :: nat
  nt_list :: "(nat \<times> 'n) list"

definition install_notifier :: "'n \<Rightarrow> 'n notifiers \<Rightarrow> nat \<times> 'n notifiers" where
  "install_notifier notify t = (nt_next t, t\<lparr>nt_next := nt_next t + 1, nt_list := nt_list t @ [(nt_next t, notify)]\<rparr>)"

definition remove_notifier :: "nat \<Rightarrow> 'n notifiers \<Rightarrow> 'n notifiers" where
  "remove_notifier token t = t\<lparr>nt_list := filter (\<lambda>e. fst e \<noteq> token) (nt_list t)\<rparr>"

definition find_notifier :: "nat \<Rightarrow> 'n notifiers \<Rightarrow> 'n option" where
  "find_notifier token t = map_option snd (find (\<lambda>e. fst e = token) (nt_list t))"

text \<open>How long the event thread lets its run loop run, in nanoseconds: an hour, or until the next
  deadline, at least a millisecond.\<close>

definition run_for :: "nat \<Rightarrow> nat option \<Rightarrow> nat" where
  "run_for now deadline = (case deadline of None \<Rightarrow> 3600 * 1000000000 | Some d \<Rightarrow> max (d - now) 1000000)"

section \<open>The ports of a location\<close>

text \<open>The number whose nibbles from \<open>shift\<close> down are \<open>ps\<close>.\<close>

fun location_of :: "nat \<Rightarrow> u8 list \<Rightarrow> nat" where
  "location_of shift [] = 0"
| "location_of shift (p # ps) = unat p * 2 ^ shift + location_of (shift - 4) ps"

definition port_nibble :: "u8 \<Rightarrow> bool" where
  "port_nibble p \<longleftrightarrow> 0 < unat p \<and> unat p < 16"

lemma location_bound:
  "list_all port_nibble ps \<Longrightarrow> length ps \<le> k + 1 \<Longrightarrow> location_of (4 * k) ps < 2 ^ (4 * k + 4)"
proof (induction ps arbitrary: k)
  case (Cons p ps)
  have p: "unat p \<le> 15" using Cons.prems(1) by (simp add: port_nibble_def)
  have rest: "location_of (4 * k - 4) ps < 2 ^ (4 * k)"
  proof (cases k)
    case 0
    then show ?thesis using Cons.prems(2) by simp
  next
    case (Suc j)
    then show ?thesis using Cons.IH [of j] Cons.prems by (simp add: add.commute)
  qed
  have "unat p * 2 ^ (4 * k) \<le> 15 * (2 :: nat) ^ (4 * k)" using p by simp
  with rest have "unat p * 2 ^ (4 * k) + location_of (4 * k - 4) ps < 16 * 2 ^ (4 * k)" by linarith
  then show ?case by (simp add: power_add mult.commute)
qed simp

lemma nibble: "unat (ucast (drop_bit s (w :: u32) AND 0xf) :: u8) = unat w div 2 ^ s mod 16"
proof -
  have "drop_bit s w AND 0xf = take_bit 4 (drop_bit s w)" by (simp add: take_bit_eq_mask mask_eq_exp_minus_1)
  then show ?thesis
    by (simp add: unsigned_ucast_eq unsigned_take_bit_eq unsigned_drop_bit_eq take_bit_take_bit)
      (simp add: take_bit_eq_mod drop_bit_eq_div)
qed

lemma ports_from_location:
  "unat w mod 2 ^ (4 * k + 4) = location_of (4 * k) ps \<Longrightarrow> list_all port_nibble ps \<Longrightarrow> length ps \<le> k + 1 \<Longrightarrow>
     ports_from w (4 * k) = ps"
proof (induction ps arbitrary: k)
  case Nil
  have "unat w div 2 ^ (4 * k) mod 16 = unat w mod 2 ^ (4 * k + 4) div 2 ^ (4 * k)"
    by (simp add: power_add div_mult2_eq mod_mult2_eq)
  then have "unat (ucast (drop_bit (4 * k) w AND 0xf) :: u8) = 0" unfolding nibble using Nil by simp
  then have "(ucast (drop_bit (4 * k) w AND 0xf) :: u8) = 0" by (simp only: unsigned_eq_0_iff)
  then show ?case by (subst ports_from.simps) (simp add: Let_def)
next
  case (Cons p ps)
  have rest: "location_of (4 * k - 4) ps < 2 ^ (4 * k)"
  proof (cases k)
    case 0
    then show ?thesis using Cons.prems(3) by simp
  next
    case (Suc j)
    then show ?thesis using location_bound [of ps j] Cons.prems by (simp add: add.commute)
  qed
  have m: "unat w mod 2 ^ (4 * k + 4) = unat p * 2 ^ (4 * k) + location_of (4 * k - 4) ps" using Cons.prems(1) by simp
  have "unat w div 2 ^ (4 * k) mod 16 = unat w mod 2 ^ (4 * k + 4) div 2 ^ (4 * k)"
    by (simp add: power_add div_mult2_eq mod_mult2_eq)
  then have port: "(ucast (drop_bit (4 * k) w AND 0xf) :: u8) = p"
    unfolding m using rest nibble [of "4 * k" w] by (simp add: m word_unat_eq_iff)
  have low: "unat w mod 2 ^ (4 * k) = location_of (4 * k - 4) ps"
  proof -
    have "unat w mod 2 ^ (4 * k) = unat w mod 2 ^ (4 * k + 4) mod 2 ^ (4 * k)" by (simp add: power_add mod_mult2_eq)
    then show ?thesis unfolding m using rest by simp
  qed
  have p: "p \<noteq> 0" using Cons.prems(2) by (auto simp: port_nibble_def)
  show ?case
  proof (cases k)
    case 0
    then show ?thesis using port p Cons.prems(3) by (subst ports_from.simps) (simp add: Let_def)
  next
    case (Suc j)
    have "ports_from w (4 * j) = ps" using Cons.IH [of j] low Cons.prems(2,3) by (simp add: Suc add.commute)
    then show ?thesis using port p by (subst ports_from.simps) (simp add: Let_def Suc)
  qed
qed

lemma location_roundtrip:
  assumes "list_all port_nibble ps" "length ps \<le> 6"
  shows "ports_from (of_nat (unat bus * 2 ^ 24 + location_of 20 ps)) 20 = ps"
    and "(ucast (drop_bit 24 (of_nat (unat bus * 2 ^ 24 + location_of 20 ps) :: u32)) :: u8) = (bus :: u8)"
proof -
  define n where "n = unat bus * 2 ^ 24 + location_of 20 ps"
  have l: "location_of 20 ps < 2 ^ 24" using location_bound [OF assms(1), of 5] assms(2) by simp
  have b: "unat bus \<le> 255" using u8_less [of bus] by linarith
  then have n32: "n < 2 ^ 32" unfolding n_def using l by simp
  then have u: "unat (of_nat n :: u32) = n" by (simp add: unsigned_of_nat take_bit_eq_mod)
  have "n mod 2 ^ 24 = location_of 20 ps" "n div 2 ^ 24 = unat bus" unfolding n_def using l by simp_all
  with ports_from_location [of "of_nat n" 5 ps] assms show "ports_from (of_nat (unat bus * 2 ^ 24 + location_of 20 ps)) 20 = ps"
    unfolding u n_def [symmetric] by simp
  have "unat (ucast (drop_bit 24 (of_nat n :: u32)) :: u8) = unat bus"
    unfolding unsigned_ucast_eq unsigned_drop_bit_eq u using \<open>n div 2 ^ 24 = unat bus\<close> n32
    by (simp add: take_bit_eq_mod drop_bit_eq_div)
  then show "(ucast (drop_bit 24 (of_nat (unat bus * 2 ^ 24 + location_of 20 ps) :: u32)) :: u8) = bus"
    unfolding n_def [symmetric] by (simp only: word_unat_eq_iff)
qed

section \<open>Enumerations\<close>

lemma described_total: "\<exists>r. described_descriptor env d = Some r"
  using device_from_bytes_total by (force simp: described_descriptor_def split: sum.split prod.split)

lemma mac_describe_total: "fst (mac_describe env alive service i cache) \<noteq> None"
  using described_total [of env] by (force simp: mac_describe_def Let_def split: sum.split prod.split)

lemma describe_services_total: "fst (describe_services env outside services found cache) \<noteq> None"
proof (induction services arbitrary: found cache)
  case (Cons x rest)
  then show ?case
    using mac_describe_total [of env "\<lambda>d. outside d \<or> d \<in> (\<lambda>f. ml_dev (di_location (snd f))) ` set found" x "me_entry_id env x" cache]
    by (auto simp: Let_def split: prod.split option.split)
qed simp

lemma mac_enumerate_sorted:
  "\<exists>ds. fst (mac_enumerate env outside cache) = Some ds \<and> sorted (map (\<lambda>d. (di_bus_number d, di_address d)) ds)"
  using describe_services_total [of env outside "me_services env ''IOUSBHostDevice''" "[]" cache]
    describe_services_total [of env outside "me_services env ''IOUSBDevice''" "[]"
      "snd (describe_services env outside (me_services env ''IOUSBHostDevice'') [] cache)"]
  by (auto simp: mac_enumerate_def Let_def sorted_sort_key simp del: sort_key_simps list.map split: prod.split option.split list.split)

text \<open>A registry entry found once keeps its device object for as long as anything holds it.\<close>

lemma device_ref_shared:
  assumes "device_ref env alive service i cache = (Ok d, cache')"
    and "alive' d"
  shows "fst (device_ref env' alive' service' i cache') = Ok d"
proof -
  have "map_of cache' i = Some d"
    using assms(1) by (auto simp: device_ref_def Let_def split: option.splits sum.splits)
  then have "map_of (filter (\<lambda>e. alive' (snd e)) cache') i = Some d"
    using assms(2) by (induction cache') (auto split: if_splits)
  then show ?thesis by (simp add: device_ref_def Let_def)
qed

text \<open>Every device of an enumeration has the bus and the ports of its device object's location, and is in the cache.\<close>

definition located :: "mac_env \<Rightarrow> mac_location device_info \<Rightarrow> bool" where
  "located env d \<longleftrightarrow> (let location = me_location env (do_obj (ml_dev (di_location d))) in
     di_bus_number d = ucast (drop_bit 24 location) \<and> di_port_numbers d = ports_from location 20)"

definition cached :: "mac_cache \<Rightarrow> nat \<times> mac_location device_info \<Rightarrow> bool" where
  "cached cache e \<longleftrightarrow> map_of cache (fst e) = Some (ml_dev (di_location (snd e)))"

lemma device_ref_keeps:
  assumes "map_of cache j = Some d" "alive d" "device_ref env alive service i cache = (r, cache')"
  shows "map_of cache' j = Some d"
proof -
  have f: "map_of (filter (\<lambda>e. alive (snd e)) cache) j = Some d"
    using assms(1,2) by (induction cache) (auto split: if_splits)
  then show ?thesis using assms(3) by (auto simp: device_ref_def Let_def split: option.splits sum.splits)
qed

lemma mac_describe_place:
  assumes "mac_describe env alive service i cache = (Some (Some d), cache')"
  shows "located env d" "cached cache' (i, d)"
  using assms by (auto simp: mac_describe_def located_def cached_def device_ref_def Let_def map_option_case
      split: prod.splits sum.splits option.splits)

lemma mac_describe_keeps:
  assumes "cached cache e" "alive (ml_dev (di_location (snd e)))" "mac_describe env alive service i cache = (r, cache')"
  shows "cached cache' e"
proof -
  obtain q where "device_ref env alive service i cache = (q, cache')"
    using assms(3) by (auto simp: mac_describe_def Let_def split: prod.splits sum.splits)
  with device_ref_keeps assms(1,2) show ?thesis unfolding cached_def by metis
qed

lemma describe_services_places:
  assumes "describe_services env outside services found cache = (Some result, cache')"
    and "\<forall>e \<in> set found. located env (snd e) \<and> cached cache e"
  shows "\<forall>e \<in> set result. located env (snd e) \<and> cached cache' e"
  using assms
proof (induction services arbitrary: found cache)
  case (Cons x rest)
  let ?alive = "\<lambda>d. outside d \<or> d \<in> (\<lambda>f. ml_dev (di_location (snd f))) ` set found"
  obtain r c where d: "mac_describe env ?alive x (me_entry_id env x) cache = (r, c)" by fastforce
  have k: "\<forall>e \<in> set found. located env (snd e) \<and> cached c e"
    using Cons.prems(2) mac_describe_keeps [OF _ _ d] by blast
  show ?case
  proof (cases "me_entry_id env x \<in> fst ` set found")
    case True
    then show ?thesis using Cons by simp
  next
    case False
    show ?thesis
    proof (cases r)
      case None
      then show ?thesis using Cons.prems(1) False d by (simp add: Let_def)
    next
      case (Some q)
      show ?thesis
      proof (cases q)
        case None
        then show ?thesis using Cons.IH [OF _ k] Cons.prems(1) False d Some by (simp add: Let_def)
      next
        case (Some y)
        then have "\<forall>e \<in> set (found @ [(me_entry_id env x, y)]). located env (snd e) \<and> cached c e"
          using k mac_describe_place d \<open>r = Some q\<close> by auto
        from Cons.IH [OF _ this] show ?thesis using Cons.prems(1) False d \<open>r = Some q\<close> Some by (simp add: Let_def)
      qed
    qed
  qed
qed simp

lemma mac_enumerate_places_all:
  assumes "mac_enumerate env outside cache = (Some ds, cache')" "d \<in> set ds"
  shows "located env d" "\<exists>i. cached cache' (i, d)"
proof -
  obtain services cache0 found where f: "describe_services env outside services [] cache0 = (Some found, cache')" "set ds = snd ` set found"
    using assms(1) by (auto simp: mac_enumerate_def Let_def simp del: sort_key_simps list.map split: prod.splits option.splits list.splits)
  from f(2) assms(2) obtain i where i: "(i, d) \<in> set found" by auto
  have "located env (snd (i, d)) \<and> cached cache' (i, d)" using describe_services_places [OF f(1)] i by fastforce
  then show "located env d" "\<exists>i. cached cache' (i, d)" by auto
qed

text \<open>A device that can be reached and describes itself is listed.\<close>

definition describes :: "mac_env \<Rightarrow> nat \<Rightarrow> bool" where
  "describes env service \<longleftrightarrow> (\<exists>dev. from_service env service = Ok dev) \<and> (\<forall>dev. described_descriptor env dev \<noteq> Some None)"

lemma device_ref_reached: "from_service env service = Ok dev \<Longrightarrow> \<exists>d c. device_ref env alive service i cache = (Ok d, c)"
  by (cases "map_of (filter (\<lambda>e. alive (snd e)) cache) i") (simp_all add: device_ref_def Let_def)

lemma mac_describe_lists:
  assumes "describes env service"
  shows "fst (mac_describe env alive service i cache) \<noteq> Some None"
proof -
  obtain dev c where d: "device_ref env alive service i cache = (Ok dev, c)"
    using assms device_ref_reached unfolding describes_def by blast
  have "described_descriptor env dev \<noteq> Some None" using assms by (simp add: describes_def)
  then consider "described_descriptor env dev = None" | desc where "described_descriptor env dev = Some (Some desc)"
    by (cases "described_descriptor env dev") auto
  then show ?thesis by cases (simp_all add: mac_describe_def d Let_def)
qed

lemma describe_services_lists:
  assumes "describe_services env outside services found cache = (Some result, cache')"
  shows "set found \<subseteq> set result \<and> (\<forall>x \<in> set services. describes env x \<longrightarrow> me_entry_id env x \<in> fst ` set result)"
  using assms
proof (induction services arbitrary: found cache)
  case (Cons y rest)
  let ?alive = "\<lambda>d. outside d \<or> d \<in> (\<lambda>f. ml_dev (di_location (snd f))) ` set found"
  obtain r c where d: "mac_describe env ?alive y (me_entry_id env y) cache = (r, c)" by fastforce
  obtain found' c' where n: "describe_services env outside rest found' c' = (Some result, cache')" "set found \<subseteq> set found'"
    "describes env y \<longrightarrow> me_entry_id env y \<in> fst ` set found'"
  proof (cases "me_entry_id env y \<in> fst ` set found")
    case True
    then show ?thesis using that [of found cache] Cons.prems by (simp add: Let_def)
  next
    case False
    show ?thesis
    proof (cases r)
      case None
      then show ?thesis using False d Cons.prems by (simp add: Let_def)
    next
      case (Some q)
      show ?thesis
      proof (cases q)
        case None
        then have "\<not> describes env y" using mac_describe_lists [of env y ?alive "me_entry_id env y" cache] d Some by auto
        then show ?thesis using that [of found c] False d Some None Cons.prems by (simp add: Let_def)
      next
        case (Some z)
        then show ?thesis using that [of "found @ [(me_entry_id env y, z)]" c] False d \<open>r = Some q\<close> Cons.prems by (auto simp: Let_def)
      qed
    qed
  qed
  from Cons.IH [OF n(1)] n(2,3) show ?case by auto
qed simp

lemma mac_enumerate_lists:
  assumes "mac_enumerate env outside cache = (Some ds, cache')" "x \<in> set (me_services env ''IOUSBHostDevice'')" "describes env x"
  shows "\<exists>d \<in> set ds. cached cache' (me_entry_id env x, d)"
proof -
  obtain f c where f: "describe_services env outside (me_services env ''IOUSBHostDevice'') [] cache = (Some f, c)"
    using assms(1) by (auto simp: mac_enumerate_def Let_def split: prod.splits option.splits)
  have mem: "me_entry_id env x \<in> fst ` set f" using describe_services_lists [OF f] assms(2,3) by blast
  then obtain e es where "f = e # es" by (cases f) auto
  then have "ds = sort_key (\<lambda>d. (di_bus_number d, di_address d)) (map snd f)" "cache' = c"
    using assms(1) f by (simp_all add: mac_enumerate_def Let_def del: sort_key_simps list.map)
  then have "set ds = snd ` set f" "cache' = c" by (simp_all only: set_sort set_map)
  moreover have "\<forall>e \<in> set f. cached c e" using describe_services_places [OF f] by simp
  ultimately show ?thesis using mem by force
qed

lemma cached_shared:
  assumes "cached cache (i, d)" "alive (ml_dev (di_location d))"
  shows "fst (device_ref env alive service i cache) = Ok (ml_dev (di_location d))"
proof -
  have "map_of (filter (\<lambda>e. alive (snd e)) cache) i = Some (ml_dev (di_location d))"
    using assms by (induction cache) (auto simp: cached_def split: if_splits)
  then show ?thesis by (simp add: device_ref_def Let_def)
qed

section \<open>Tokens\<close>

definition tokens_ok :: "'n notifiers \<Rightarrow> bool" where
  "tokens_ok t \<longleftrightarrow> (\<forall>e \<in> set (nt_list t). fst e < nt_next t) \<and> distinct (map fst (nt_list t))"

lemma install_tokens:
  assumes "tokens_ok t" "install_notifier n t = (token, t')"
  shows "tokens_ok t'" "find_notifier token t' = Some n"
    "token' \<noteq> token \<Longrightarrow> find_notifier token' t' = find_notifier token' t"
    "find_notifier token t = None"
proof -
  have i: "token = nt_next t" "t' = t\<lparr>nt_next := nt_next t + 1, nt_list := nt_list t @ [(nt_next t, n)]\<rparr>"
    using assms(2) by (auto simp: install_notifier_def)
  have less: "\<forall>e \<in> set (nt_list t). fst e < nt_next t" using assms(1) by (simp add: tokens_ok_def)
  have app: "find P (xs @ ys) = (case find P xs of None \<Rightarrow> find P ys | Some x \<Rightarrow> Some x)" for P and xs ys :: "(nat \<times> 'a) list"
    by (induction xs) auto
  have none: "find (\<lambda>e. fst e = nt_next t) (nt_list t) = None" using less by (auto simp: find_None_iff)
  show "tokens_ok t'" using assms(1) less by (force simp: i tokens_ok_def)
  show "find_notifier token t' = Some n" "find_notifier token t = None" by (simp_all add: i find_notifier_def app none)
  show "find_notifier token' t' = find_notifier token' t" if "token' \<noteq> token"
    using that by (auto simp: i find_notifier_def app split: option.split)
qed

lemma remove_tokens:
  assumes "tokens_ok t"
  shows "tokens_ok (remove_notifier token t)" "find_notifier token (remove_notifier token t) = None"
  using assms by (auto simp: tokens_ok_def remove_notifier_def find_notifier_def find_None_iff distinct_map_filter)

end
