(* ===== verification/Mac_Handle.thy ===== *)
theory Mac_Handle
  imports Mac_Device Usb_Requests Usb_Class
begin

text \<open>
  A device opened on macOS, the second half of \<open>src/src/sys/macos/mod.rs\<close>: finding and opening
  interfaces, claims and their pipes, the capture that detaches kernel drivers, submission with the
  scheduling of isochronous frames, cancellation, deadlines and completions. \<open>mac_held\<close> is the ledger of
  what the calls made have taken and not given back, and \<open>holds\<close> says which of it a handle accounts for. A handle is the record of
  the shared device object extended by its own fields. A hash map is the list of its entries in the
  order it iterates.
\<close>

section \<open>State\<close>

datatype capture = CaptureNone | CaptureHeld | CapturePending

record mac_pipe =
  pp_address :: u8
  pp_ref :: u8
  pp_interval :: u8

text \<open>\<open>ClaimedIface\<close>.\<close>

record mac_iface =
  mi_obj :: nat
  mi_has_182 :: bool
  mi_source :: nat
  mi_pipes :: "mac_pipe list"

text \<open>\<open>MacSub\<close>, and what a completion callback is given.\<close>

record mac_sub = request +
  ms_pipe :: "(nat \<times> u8) option"

record iso_frame =
  fr_status :: ioreturn
  fr_req :: u16
  fr_act :: u16

type_synonym mac_result = "ioreturn \<times> nat \<times> iso_frame list"

record mac_handle = mac_dev +
  mh_is_open :: bool
  mh_capture :: capture
  mh_claimed :: "(u8 \<times> mac_iface) list"
  mh_books :: "(\<lparr>ms_pipe :: (nat \<times> u8) option\<rparr>, mac_result) books"
  mh_next_frame :: "u8 \<Rightarrow> nat option"
  mh_disconnected :: bool

section \<open>Interfaces\<close>

text \<open>The loop of \<open>find_interface\<close> over the services of the iterator: the service and the object of the
  interface, both to be released by the caller, and the revision.\<close>

definition query_interface :: "mac_api \<Rightarrow> nat \<Rightarrow> ('s mac_dev_scheme, (nat \<times> bool) option) io" where
  "query_interface api plugin =
     bindR (mac_invoke api (QueryPlugIn plugin True)) (\<lambda>r. if queried r then ret (Some (snd r, True))
     else bindR (mac_invoke api (QueryPlugIn plugin False)) (\<lambda>r.
       ret (if queried r then Some (snd r, False) else None)))"

fun find_in :: "mac_api \<Rightarrow> u8 \<Rightarrow> nat list \<Rightarrow> ('s mac_dev_scheme, (nat \<times> nat \<times> bool) option) io" where
  "find_in api number [] = ret None"
| "find_in api number (service # rest) =
     bindR (mac_do api (NextService service)) (\<lambda>_.
     bindR (mac_invoke api (PlugIn service)) (\<lambda>(kr, plugin).
     if kr \<noteq> 0 \<or> plugin = 0
     then bindR (mac_do api (ReleaseService service)) (\<lambda>_. find_in api number rest)
     else bindR (query_interface api plugin) (\<lambda>q.
       bindR (mac_do api (ReleasePlugIn plugin)) (\<lambda>_. case q of
         None \<Rightarrow> bindR (mac_do api (ReleaseService service)) (\<lambda>_. find_in api number rest)
       | Some (obj, has_182) \<Rightarrow> bindR (mac_invoke api (InterfaceNumber obj)) (\<lambda>(kr, n).
           if of_nat n = number then ret (Some (service, obj, has_182))
           else bindR (mac_do api (ReleaseObject obj)) (\<lambda>_.
             bindR (mac_do api (ReleaseService service)) (\<lambda>_. find_in api number rest)))))))"

definition mac_find_interface :: "mac_api \<Rightarrow> u8 \<Rightarrow> ('s mac_dev_scheme, (nat \<times> nat \<times> bool) option) io" where
  "mac_find_interface api number = bindR (get_st md_trace) (\<lambda>t.
     bindR (mac_try api InterfaceIterator) (\<lambda>_.
     bindR (find_in api number (ma_services api t)) (\<lambda>f.
     bindR (mac_do api ReleaseIterator) (\<lambda>_. ret f))))"

text \<open>\<open>refresh_pipes\<close>: the pipes are numbered from 1; one whose properties cannot be read is left out.\<close>

fun read_pipes :: "mac_api \<Rightarrow> nat \<Rightarrow> u8 list \<Rightarrow> ('s mac_dev_scheme, mac_pipe list) io" where
  "read_pipes api obj [] = ret []"
| "read_pipes api obj (r # rs) = bindR (get_st md_trace) (\<lambda>t.
     bindR (mac_invoke api (PipeProperties obj r)) (\<lambda>(kr, v).
     bindR (read_pipes api obj rs) (\<lambda>ps. ret (if kr \<noteq> 0 then ps else
       (case ma_pipe api t obj r of (dir, num, interval) \<Rightarrow>
         \<lparr>pp_address = (num AND 0x0f) OR (if dir = 1 then 0x80 else 0), pp_ref = r, pp_interval = interval\<rparr> # ps)))))"

definition refresh_pipes :: "mac_api \<Rightarrow> mac_iface \<Rightarrow> ('s mac_dev_scheme, mac_iface) io" where
  "refresh_pipes api ci = bindR (mac_invoke api (NumEndpoints (mi_obj ci))) (\<lambda>(kr, n).
     bindR (read_pipes api (mi_obj ci) (map of_nat [1..<Suc (n mod 256)])) (\<lambda>ps. ret (ci\<lparr>mi_pipes := ps\<rparr>)))"

definition pipe_of :: "u8 \<Rightarrow> mac_iface \<Rightarrow> mac_pipe option" where
  "pipe_of address ci = find (\<lambda>p. pp_address p = address) (mi_pipes ci)"

text \<open>Dropping a \<open>ClaimedIface\<close>.\<close>

definition drop_iface :: "mac_api \<Rightarrow> mac_iface \<Rightarrow> ('s mac_dev_scheme, unit) io" where
  "drop_iface api ci = bindR (mac_do api (InterfaceClose (mi_obj ci))) (\<lambda>_.
     bindR (if mi_source ci \<noteq> 0 then mac_do api (DropSource (mi_source ci)) else ret ()) (\<lambda>_.
       mac_do api (ReleaseObject (mi_obj ci))))"

definition open_interface :: "mac_api \<Rightarrow> u8 \<Rightarrow> ('s mac_dev_scheme, mac_iface) io" where
  "open_interface api i = bindR (mac_find_interface api i) (\<lambda>f. case f of
      None \<Rightarrow> failK NotFound
    | Some (service, obj, has_182) \<Rightarrow>
        bindR (mac_do api (ReleaseService service)) (\<lambda>_.
        bindR (mac_invoke api (InterfaceOpen obj)) (\<lambda>(kr, v).
        if kr \<noteq> 0 then bindR (mac_do api (ReleaseObject obj)) (\<lambda>_. failE (io_error kr))
        else bindR (mac_invoke api (MakeSource obj)) (\<lambda>(kr, source).
          if kr \<noteq> 0 then bindR (mac_do api (InterfaceClose obj)) (\<lambda>_.
            bindR (mac_do api (ReleaseObject obj)) (\<lambda>_. failE (io_error kr)))
          else bindR (mac_do api (AddSource source)) (\<lambda>_.
            refresh_pipes api \<lparr>mi_obj = obj, mi_has_182 = has_182, mi_source = source, mi_pipes = []\<rparr>)))))"

section \<open>The handle\<close>

definition mac_handle_new :: "bool \<Rightarrow> mac_dev \<Rightarrow> mac_handle" where
  "mac_handle_new is_open d = mac_dev.extend d \<lparr>mh_is_open = is_open, mh_capture = CaptureNone, mh_claimed = [],
     mh_books = books_new, mh_next_frame = (\<lambda>_. None), mh_disconnected = False\<rparr>"

definition require_open :: "(mac_handle, unit) io" where
  "require_open = bindR (get_st mh_is_open) (\<lambda>b. if b then ret () else failK Access)"

definition mac_active_configuration :: "mac_api \<Rightarrow> (mac_handle, u8 option) io" where
  "mac_active_configuration api = bindR (mac_invoke api GetConfiguration) (\<lambda>(kr, v).
     bindR (lift_res (mac_check kr)) (\<lambda>_. ret (Some (of_nat v))))"

definition mac_set_configuration :: "mac_api \<Rightarrow> u8 \<Rightarrow> (mac_handle, unit) io" where
  "mac_set_configuration api v = bindR require_open (\<lambda>_. mac_try api (SetConfiguration v))"

definition mac_reset :: "mac_api \<Rightarrow> (mac_handle, unit) io" where
  "mac_reset api = bindR require_open (\<lambda>_. mac_try api ResetDevice)"

definition mac_claim :: "mac_api \<Rightarrow> u8 \<Rightarrow> (mac_handle, unit) io" where
  "mac_claim api i = bindR (get_st mh_claimed) (\<lambda>cls.
     if i \<in> fst ` set cls then ret ()
     else bindR (open_interface api i) (\<lambda>ci. mod_st (\<lambda>s. s\<lparr>mh_claimed := (i, ci) # mh_claimed s\<rparr>)))"

definition mac_release :: "mac_api \<Rightarrow> u8 \<Rightarrow> (mac_handle, unit) io" where
  "mac_release api i = bindR (get_st (\<lambda>s. map_of (mh_claimed s) i)) (\<lambda>ci. case ci of
      None \<Rightarrow> failK NotFound
    | Some ci \<Rightarrow> bindR (mod_st (\<lambda>s. s\<lparr>mh_claimed := filter (\<lambda>p. fst p \<noteq> i) (mh_claimed s)\<rparr>)) (\<lambda>_.
        bindR (drop_iface api ci) (\<lambda>_.
        bindR (get_st (\<lambda>s. mh_claimed s = [] \<and> mh_capture s = CapturePending)) (\<lambda>last.
        if last then bindR (mod_st (\<lambda>s. s\<lparr>mh_capture := CaptureNone\<rparr>)) (\<lambda>_. reenumerate api False)
        else ret ()))))"

definition mac_set_alt :: "mac_api \<Rightarrow> u8 \<Rightarrow> u8 \<Rightarrow> (mac_handle, unit) io" where
  "mac_set_alt api i alt = bindR (get_st (\<lambda>s. map_of (mh_claimed s) i)) (\<lambda>ci. case ci of
      None \<Rightarrow> failK NotFound
    | Some ci \<Rightarrow> bindR (mac_try api (SetAlternate (mi_obj ci) alt)) (\<lambda>_.
        bindR (refresh_pipes api ci) (\<lambda>ci.
          mod_st (\<lambda>s. s\<lparr>mh_claimed := map (\<lambda>p. if fst p = i then (i, ci) else p) (mh_claimed s)\<rparr>))))"

text \<open>\<open>with_pipe\<close>: the interface and the pipe of an endpoint.\<close>

definition find_pipe :: "u8 \<Rightarrow> mac_handle \<Rightarrow> (mac_iface \<times> mac_pipe) option" where
  "find_pipe ep s = (case List.map_filter (\<lambda>p. map_option (Pair (snd p)) (pipe_of ep (snd p))) (mh_claimed s) of
      [] \<Rightarrow> None
    | x # _ \<Rightarrow> Some x)"

definition mac_clear_halt :: "mac_api \<Rightarrow> u8 \<Rightarrow> (mac_handle, unit) io" where
  "mac_clear_halt api ep = bindR (get_st (find_pipe ep)) (\<lambda>f. case f of
      None \<Rightarrow> failK NotFound
    | Some (ci, p) \<Rightarrow> mac_try api (ClearStall (mi_obj ci) (pp_ref p)))"

section \<open>Capturing the device\<close>

definition mac_driver_active :: "mac_api \<Rightarrow> u8 \<Rightarrow> (mac_handle, bool) io" where
  "mac_driver_active api i = bindR (mac_find_interface api i) (\<lambda>f. case f of
      None \<Rightarrow> failK NotFound
    | Some (service, obj, has_182) \<Rightarrow>
        bindR (mac_do api (ReleaseObject obj)) (\<lambda>_.
        bindR (get_st md_trace) (\<lambda>t.
        bindR (mac_invoke api (Children service)) (\<lambda>(kr, v).
        bindR (mac_do api (ReleaseService service)) (\<lambda>_.
          ret (kr = 0 \<and> (\<exists>user_client \<in> set (ma_children api t service). \<not> user_client)))))))"

fun read_alts :: "mac_api \<Rightarrow> (u8 \<times> mac_iface) list \<Rightarrow> (mac_handle, (u8 \<times> u8) list) io" where
  "read_alts api [] = ret []"
| "read_alts api ((i, ci) # rest) = bindR (mac_invoke api (GetAlternate (mi_obj ci))) (\<lambda>(kr, v).
     bindR (read_alts api rest) (\<lambda>as. ret ((i, of_nat v) # as)))"

definition reclaim :: "mac_api \<Rightarrow> u8 \<times> u8 \<Rightarrow> (mac_handle, unit) io" where
  "reclaim api p = (case p of (i, alt) \<Rightarrow> bindR (open_interface api i) (\<lambda>ci.
     bindR (if alt \<noteq> 0
            then matchR (mac_try api (SetAlternate (mi_obj ci) alt)) ret (\<lambda>e. bindR (drop_iface api ci) (\<lambda>_. failE e))
            else ret ()) (\<lambda>_.
       mod_st (\<lambda>s. s\<lparr>mh_claimed := (i, ci) # mh_claimed s\<rparr>))))"

fun refresh_all :: "mac_api \<Rightarrow> (u8 \<times> mac_iface) list \<Rightarrow> (mac_handle, (u8 \<times> mac_iface) list) io" where
  "refresh_all api [] = ret []"
| "refresh_all api ((i, ci) # rest) = bindR (refresh_pipes api ci) (\<lambda>ci.
     bindR (refresh_all api rest) (\<lambda>cls. ret ((i, ci) # cls)))"

text \<open>The second half of \<open>detach_kernel_driver\<close>: capturing dropped the interfaces; each is opened again, in the
  alternate setting it had.\<close>

definition reclaim_all :: "mac_api \<Rightarrow> (mac_handle, unit) io" where
  "reclaim_all api = bindR (get_st mh_claimed) (\<lambda>cls.
     bindR (read_alts api cls) (\<lambda>alts.
     bindR (mod_st (\<lambda>s. s\<lparr>mh_claimed := []\<rparr>)) (\<lambda>_.
     bindR (for_each (map snd cls) (drop_iface api)) (\<lambda>_.
     bindR (for_each alts (reclaim api)) (\<lambda>_.
     bindR (bindR (get_st mh_claimed) (refresh_all api)) (\<lambda>cls. mod_st (\<lambda>s. s\<lparr>mh_claimed := cls\<rparr>)))))))"

definition take_back :: "mac_api \<Rightarrow> (mac_handle, unit) io" where
  "take_back api = bindR (get_st mh_is_open) (\<lambda>is_open.
     if is_open then dev_reopen api
     else bindR (dev_open api) (\<lambda>_. mod_st (\<lambda>s. s\<lparr>mh_is_open := True\<rparr>)))"

definition mac_detach :: "mac_api \<Rightarrow> u8 \<Rightarrow> (mac_handle, unit) io" where
  "mac_detach api i = bindR (mac_driver_active api i) (\<lambda>active.
     if \<not> active then failK NotFound
     else bindR (get_st mh_capture) (\<lambda>c. if c \<noteq> CaptureNone then failK NotSupported
     else bindR (reenumerate api True) (\<lambda>_.
       bindR (mod_st (\<lambda>s. s\<lparr>mh_capture := CaptureHeld\<rparr>)) (\<lambda>_.
       bindR (take_back api) (\<lambda>_. reclaim_all api)))))"

definition mac_attach :: "mac_api \<Rightarrow> (mac_handle, unit) io" where
  "mac_attach api = bindR (get_st (\<lambda>s. s)) (\<lambda>s.
     if mh_capture s = CaptureNone then failK NotFound
     else if mh_claimed s \<noteq> [] then mod_st (\<lambda>s. s\<lparr>mh_capture := CapturePending\<rparr>)
     else bindR (mod_st (\<lambda>s. s\<lparr>mh_capture := CaptureNone\<rparr>)) (\<lambda>_. reenumerate api False))"

definition mac_close :: "mac_api \<Rightarrow> (mac_handle, unit) io" where
  "mac_close api = bindR (get_st mh_capture) (\<lambda>c. if c = CaptureNone then ret ()
     else bindR (mod_st (\<lambda>s. s\<lparr>mh_capture := CaptureNone\<rparr>)) (\<lambda>_. ignoreR (reenumerate api False)))"

definition mac_drop :: "mac_api \<Rightarrow> (mac_handle, unit) io" where
  "mac_drop api = bindR (get_st mh_claimed) (\<lambda>cls.
     bindR (mod_st (\<lambda>s. s\<lparr>mh_claimed := []\<rparr>)) (\<lambda>_.
     bindR (for_each (map snd cls) (drop_iface api)) (\<lambda>_.
     bindR (get_st (\<lambda>s. s)) (\<lambda>s.
     bindR (if mh_capture s \<noteq> CaptureNone then ignoreR (reenumerate api False) else ret ()) (\<lambda>_.
       if mh_is_open s then bindR (dev_close api) (\<lambda>_. mod_st (\<lambda>s. s\<lparr>mh_is_open := False\<rparr>)) else ret ())))))"

section \<open>Transfers\<close>

definition mac_deadline :: "nat \<Rightarrow> bool \<Rightarrow> 'c transfer \<Rightarrow> nat option" where
  "mac_deadline now kernel_timeout t =
     (if tr_timeout t = 0 \<or> kernel_timeout then None else Some (now + tr_timeout t * 1000000))"

text \<open>The end of \<open>submit\<close>, with the code the request returned.\<close>

definition mac_issued :: "nat \<Rightarrow> nat \<Rightarrow> nat \<Rightarrow> bool \<Rightarrow> 'c transfer \<Rightarrow> (nat \<times> u8) option \<Rightarrow> mac_handle \<Rightarrow> mac_handle" where
  "mac_issued key tid now kernel_timeout t target s = s\<lparr>mh_books := bk_store tid (bk_record tid (bk_issue key tid
     \<lparr>rq_deadline = mac_deadline now kernel_timeout t, rq_cancelled = False, rq_timed_out = False, ms_pipe = target\<rparr>
     (mh_books s)))\<rparr>"

definition mac_settle :: "nat \<Rightarrow> nat \<Rightarrow> nat \<Rightarrow> bool \<Rightarrow> 'c transfer \<Rightarrow> (nat \<times> u8) option \<Rightarrow> ioreturn \<Rightarrow> (mac_handle, unit) io" where
  "mac_settle key tid now kernel_timeout t target kr =
     (if kr \<noteq> 0 then failE (io_error kr) else mod_st (mac_issued key tid now kernel_timeout t target))"

definition timeout_ms :: "'c transfer \<Rightarrow> nat" where
  "timeout_ms t = min (tr_timeout t) 4294967295"

definition mac_submit_control :: "mac_api \<Rightarrow> nat \<Rightarrow> nat \<Rightarrow> nat \<Rightarrow> 'c transfer \<Rightarrow> (mac_handle, unit) io" where
  "mac_submit_control api key tid now t = bindR (lift_opt (slice (tr_buffer t) 0 8)) (\<lambda>head.
     let su = setup_from_bytes head; len = min (length (tr_buffer t) - 8) (unat (cs_length su)) in
     bindR (get_st md_has_182) (\<lambda>has_182.
     bindR (mac_invoke api (RequestAsync (su\<lparr>cs_length := of_nat len\<rparr>) (if has_182 then Some (timeout_ms t) else None)))
       (\<lambda>(kr, v). mac_settle key tid now has_182 t None kr)))"

definition mac_submit_pipe :: "mac_api \<Rightarrow> nat \<Rightarrow> nat \<Rightarrow> nat \<Rightarrow> 'c transfer \<Rightarrow> (mac_handle, unit) io" where
  "mac_submit_pipe api key tid now t = bindR (get_st (find_pipe (tr_endpoint t))) (\<lambda>f. case f of
      None \<Rightarrow> failK NotFound
    | Some (ci, p) \<Rightarrow> (let kernel = (mi_has_182 ci \<and> tr_kind t = Bulk) in
        bindR (mac_invoke api (PipeAsync (mi_obj ci) (pp_ref p) (tr_endpoint t AND 0x80 \<noteq> 0) (length (tr_buffer t))
            (if kernel then Some (timeout_ms t) else None)))
          (\<lambda>(kr, v). mac_settle key tid now kernel t (Some (mi_obj ci, pp_ref p)) kr)))"

text \<open>Isochronous frames: packets per frame, the first frame, and the next one to use.\<close>

definition per_frame :: "speed \<Rightarrow> u8 \<Rightarrow> nat" where
  "per_frame sp interval = (if sp \<ge> SpeedHigh then max (8 div 2 ^ (min (max (unat interval) 1) 4 - 1)) 1 else 1)"

definition iso_start :: "nat option \<Rightarrow> nat \<Rightarrow> nat" where
  "iso_start next_frame frame = max (case next_frame of Some n \<Rightarrow> n | None \<Rightarrow> 0) (frame + 4)"

definition iso_next :: "nat \<Rightarrow> nat \<Rightarrow> nat \<Rightarrow> nat" where
  "iso_next begins packets rate = begins + div_ceil packets rate"

definition iso_requests :: "'c transfer \<Rightarrow> u16 list" where
  "iso_requests t = map (\<lambda>p. of_nat (min (unat (iso_length p)) 65535)) (tr_iso t)"

definition mac_submit_iso :: "mac_api \<Rightarrow> speed \<Rightarrow> nat \<Rightarrow> nat \<Rightarrow> nat \<Rightarrow> 'c transfer \<Rightarrow> (mac_handle, unit) io" where
  "mac_submit_iso api sp key tid now t = (let ep = tr_endpoint t in bindR (get_st (find_pipe ep)) (\<lambda>f. case f of
      None \<Rightarrow> failK NotFound
    | Some (ci, p) \<Rightarrow> bindR (mac_invoke api (BusFrame (mi_obj ci))) (\<lambda>(kr, frame).
        bindR (get_st (\<lambda>s. iso_start (mh_next_frame s ep) frame)) (\<lambda>begins.
        bindR (mod_st (\<lambda>s. s\<lparr>mh_next_frame := (mh_next_frame s)(ep \<mapsto>
            iso_next begins (length (tr_iso t)) (per_frame sp (pp_interval p)))\<rparr>)) (\<lambda>_.
        bindR (mac_invoke api (IsochAsync (mi_obj ci) (pp_ref p) (ep AND 0x80 \<noteq> 0) begins (iso_requests t)))
          (\<lambda>(kr, v). mac_settle key tid now False t (Some (mi_obj ci, pp_ref p)) kr))))))"

definition mac_submit :: "mac_api \<Rightarrow> speed \<Rightarrow> nat \<Rightarrow> nat \<Rightarrow> nat \<Rightarrow> 'c transfer \<Rightarrow> (mac_handle, unit) io" where
  "mac_submit api sp key tid now t = bindR (get_st (\<lambda>s. s)) (\<lambda>s.
     if mh_disconnected s then failK NoDevice
     else if bk_sub (mh_books s) tid \<noteq> None then failK Busy
     else if length (tr_buffer t) > 4294967295 then failK InvalidParam
     else case tr_kind t of
       Control \<Rightarrow> mac_submit_control api key tid now t
     | Isochronous \<Rightarrow> mac_submit_iso api sp key tid now t
     | _ \<Rightarrow> mac_submit_pipe api key tid now t)"

definition mac_abort :: "mac_api \<Rightarrow> (nat \<times> u8) option \<Rightarrow> (mac_handle, unit) io" where
  "mac_abort api target = (case target of
      Some (obj, pipe) \<Rightarrow> mac_try api (AbortPipe obj pipe)
    | None \<Rightarrow> bindR (get_st md_has_182) (\<lambda>has_182. if has_182 then mac_try api AbortPipeZero else failK NotSupported))"

definition mac_cancel :: "mac_api \<Rightarrow> nat \<Rightarrow> (mac_handle, unit) io" where
  "mac_cancel api tid = bindR (get_st (\<lambda>s. bk_sub (mh_books s) tid)) (\<lambda>sub. case sub of
      None \<Rightarrow> failK NotFound
    | Some m \<Rightarrow> bindR (mac_abort api (ms_pipe m)) (\<lambda>_. mod_st (\<lambda>s. s\<lparr>mh_books := bk_cancel True tid (mh_books s)\<rparr>)))"

definition mac_cancel_all :: "mac_api \<Rightarrow> (mac_handle, unit) io" where
  "mac_cancel_all api = bindR (get_st (\<lambda>s. map snd (bk_pending (mh_books s)))) (\<lambda>tids.
     for_each tids (\<lambda>tid. ignoreR (mac_cancel api tid)))"

definition mac_expire_one :: "mac_api \<Rightarrow> nat \<Rightarrow> nat \<Rightarrow> (mac_handle, unit) io" where
  "mac_expire_one api now tid = bindR (get_st (\<lambda>s. bk_sub (mh_books s) tid)) (\<lambda>sub. case sub of
      None \<Rightarrow> ret ()
    | Some m \<Rightarrow> if rq_timed_out m \<or> (case rq_deadline m of None \<Rightarrow> True | Some d \<Rightarrow> d > now) then ret ()
        else bindR (matchR (mac_abort api (ms_pipe m)) (\<lambda>_. ret True) (\<lambda>_. ret False)) (\<lambda>ok.
          mod_st (\<lambda>s. s\<lparr>mh_books := bk_expire_one now (\<lambda>_. ok) tid (mh_books s)\<rparr>)))"

definition mac_expire :: "mac_api \<Rightarrow> nat \<Rightarrow> (mac_handle, unit) io" where
  "mac_expire api now = bindR (get_st (\<lambda>s. map snd (bk_pending (mh_books s)))) (\<lambda>tids.
     for_each tids (mac_expire_one api now))"

text \<open>\<open>finish\<close>.\<close>

definition mac_gone :: "ioreturn \<Rightarrow> bool" where
  "mac_gone kr \<longleftrightarrow> kr \<in> {0xe00002c0, 0xe00002d9, 0xe00002ed}"

definition mac_mapped :: "ioreturn \<Rightarrow> transfer_status" where
  "mac_mapped kr =
     (if kr \<in> {0, 0xe00002e9} then Completed
      else if kr = 0xe00002eb then Cancelled
      else if kr \<in> {0xe00002d6, 0xe0004051} then TimedOut
      else if kr = 0xe000404f then Stall
      else if mac_gone kr then StNoDevice
      else if kr = 0xe00002e8 then StOverflow
      else StError)"

definition mac_status :: "mac_result \<Rightarrow> 'a request_scheme \<Rightarrow> transfer_status" where
  "mac_status r m = (let st = mac_mapped (fst r) in
     if rq_timed_out m \<and> st = Cancelled then TimedOut
     else if rq_cancelled m \<and> st = Cancelled then Cancelled
     else st)"

definition frame_status :: "ioreturn \<Rightarrow> transfer_status" where
  "frame_status kr =
     (if kr \<in> {0, 0xe00002e9} then Completed
      else if kr = 0xe00002eb then Cancelled
      else if kr = 0xe000404f then Stall
      else if kr = 0xe00002e8 then StOverflow
      else if kr \<in> {0xe00002c0, 0xe00002d9} then StNoDevice
      else StError)"

definition frame_packets :: "iso_frame list \<Rightarrow> iso_packet list" where
  "frame_packets fs = map (\<lambda>f. \<lparr>iso_length = ucast (fr_req f), iso_actual = ucast (fr_act f),
     iso_status = frame_status (fr_status f)\<rparr>) fs"

definition mac_finish :: "'c transfer \<Rightarrow> nat \<Rightarrow> nat \<Rightarrow> mac_result
    \<Rightarrow> (mac_handle, (transfer_status \<times> nat \<times> iso_packet list option) option) io" where
  "mac_finish t key tid r = bindR (mod_st (\<lambda>s. s\<lparr>mh_books := bk_reap key tid r (mh_books s)\<rparr>)) (\<lambda>_.
     bindR (get_st (\<lambda>s. bk_sub (mh_books s) tid)) (\<lambda>sub.
     bindR (mod_st (\<lambda>s. s\<lparr>mh_books := bk_take mac_status (mh_books s)\<rparr>)) (\<lambda>_.
     case sub of
       None \<Rightarrow> ret None
     | Some m \<Rightarrow> (case r of (kr, n, frames) \<Rightarrow>
         bindR (if mac_gone kr then mod_st (\<lambda>s. s\<lparr>mh_disconnected := True\<rparr>) else ret ()) (\<lambda>_.
         if tr_kind t = Isochronous
         then (let ps = frame_packets frames in
           ret (Some (mac_status r m, sum_list (map (\<lambda>p. unat (iso_actual p)) ps), Some ps)))
         else ret (Some (mac_status r m, n, None)))))))"

section \<open>What is held\<close>

text \<open>What the system hands out and takes back: the services and the iterator of a search, plug-ins, references to
  interface objects, opened interfaces, the event sources of interfaces, and the event source of the device.\<close>

datatype holding = HeldService nat | HeldIterator | HeldPlugIn nat | HeldObject nat | HeldOpen nat | HeldSource nat | HeldDeviceSource

fun gives :: "mac_call \<Rightarrow> ioreturn \<times> nat \<Rightarrow> holding multiset" where
  "gives (NextService v) r = {#HeldService v#}"
| "gives InterfaceIterator r = (if fst r = 0 then {#HeldIterator#} else {#})"
| "gives (PlugIn v) r = (if queried r then {#HeldPlugIn (snd r)#} else {#})"
| "gives (QueryPlugIn p m) r = (if queried r then {#HeldObject (snd r)#} else {#})"
| "gives (InterfaceOpen obj) r = (if fst r = 0 then {#HeldOpen obj#} else {#})"
| "gives (MakeSource obj) r = (if queried r then {#HeldSource (snd r)#} else {#})"
| "gives MakeDeviceSource r = (if fst r = 0 then {#HeldDeviceSource#} else {#})"
| "gives c r = {#}"

fun takes :: "mac_call \<Rightarrow> holding multiset" where
  "takes (ReleaseService v) = {#HeldService v#}"
| "takes ReleaseIterator = {#HeldIterator#}"
| "takes (ReleasePlugIn p) = {#HeldPlugIn p#}"
| "takes (ReleaseObject obj) = {#HeldObject obj#}"
| "takes (InterfaceClose obj) = {#HeldOpen obj#}"
| "takes (DropSource v) = {#HeldSource v#}"
| "takes DropDeviceSource = {#HeldDeviceSource#}"
| "takes c = {#}"

text \<open>What a trace, newest call first, has left to be given back. It is \<open>None\<close> once something was given back that
  was not held at that moment: a second release, or a close of what is not open.\<close>

fun mac_held :: "mac_trace \<Rightarrow> holding multiset option" where
  "mac_held [] = Some {#}"
| "mac_held ((c, r) # t) = Option.bind (mac_held t) (\<lambda>M.
     if takes c \<subseteq># M then Some (gives c r + (M - takes c)) else None)"

fun device_open :: "mac_trace \<Rightarrow> bool" where
  "device_open [] = False"
| "device_open ((DeviceOpen seize, r) # t) = (fst r = 0 \<or> device_open t)"
| "device_open ((DeviceClose, r) # t) = False"
| "device_open (c # t) = device_open t"

text \<open>Calls that gain something, and calls that give something back, on top of whatever else is held.\<close>

definition gains :: "mac_trace \<Rightarrow> holding multiset \<Rightarrow> mac_trace \<Rightarrow> bool" where
  "gains t X t' \<longleftrightarrow> (\<forall>M. mac_held t = Some M \<longrightarrow> mac_held t' = Some (X + M))"

definition loses :: "mac_trace \<Rightarrow> holding multiset \<Rightarrow> mac_trace \<Rightarrow> bool" where
  "loses t X t' \<longleftrightarrow> (\<forall>M. mac_held t = Some (X + M) \<longrightarrow> mac_held t' = Some M)"

lemma gains_refl [simp]: "gains t {#} t" by (simp add: gains_def)

lemma gains_trans: "gains a X b \<Longrightarrow> gains b Y c \<Longrightarrow> gains a (Y + X) c" by (simp add: gains_def add.assoc)

lemma gains_loses: "gains a X b \<Longrightarrow> loses b X c \<Longrightarrow> gains a {#} c" by (simp add: gains_def loses_def)

lemma gains_call: "takes c = {#} \<Longrightarrow> gains t (gives c r) ((c, r) # t)" by (simp add: gains_def)

lemma loses_call: "gives c r = {#} \<Longrightarrow> loses t (takes c) ((c, r) # t)" by (simp add: loses_def)

text \<open>Giving back a part of what was gained.\<close>

lemma gains_less: "gains a (Y + X) b \<Longrightarrow> loses b Y c \<Longrightarrow> gains a X c" by (simp add: gains_def loses_def add.assoc)

definition source_of :: "mac_iface \<Rightarrow> holding multiset" where
  "source_of ci = (if mi_source ci = 0 then {#} else {#HeldSource (mi_source ci)#})"

text \<open>What a claimed interface stands for: its object, its opening and its source.\<close>

definition iface_held :: "mac_iface \<Rightarrow> holding multiset" where
  "iface_held ci = {#HeldObject (mi_obj ci), HeldOpen (mi_obj ci)#} + source_of ci"

text \<open>Calls were made that leave the same things held, and nothing else changed.\<close>

definition mac_same :: "'s mac_dev_scheme \<Rightarrow> 's mac_dev_scheme \<Rightarrow> bool" where
  "mac_same s s' \<longleftrightarrow> (\<exists>t. s' = s\<lparr>md_trace := t\<rparr> \<and> gains (md_trace s) {#} t \<and> device_open t = device_open (md_trace s))"

lemma mac_same_refl [simp]: "mac_same s s" by (auto simp: mac_same_def intro!: exI [of _ "md_trace s"])

lemma mac_same_trans [trans]: "mac_same a b \<Longrightarrow> mac_same b c \<Longrightarrow> mac_same a c" by (force simp: mac_same_def gains_def)

lemma query_interface_run:
  assumes "query_interface api p s = (q, s')"
  shows "\<exists>t x. s' = s\<lparr>md_trace := t\<rparr> \<and> q = Val x \<and> device_open t = device_open (md_trace s)
    \<and> gains (md_trace s) (case x of None \<Rightarrow> {#} | Some (obj, h) \<Rightarrow> {#HeldObject obj#}) t"
  using assms by (auto simp: query_interface_def bindR_def gains_def split: if_splits)

text \<open>A search ends with the service and the object it found and nothing else.\<close>

definition found_held :: "(nat \<times> nat \<times> bool) option \<Rightarrow> holding multiset" where
  "found_held x = (case x of None \<Rightarrow> {#} | Some (service, obj, h) \<Rightarrow> {#HeldService service, HeldObject obj#})"

lemma found_held_simps [simp]: "found_held None = {#}" "found_held (Some (service, obj, h)) = {#HeldService service, HeldObject obj#}"
  by (simp_all add: found_held_def)

lemma find_in_run:
  "find_in api number services s = (q, s') \<Longrightarrow>
    \<exists>t x. s' = s\<lparr>md_trace := t\<rparr> \<and> q = Val x \<and> device_open t = device_open (md_trace s) \<and> gains (md_trace s) (found_held x) t"
proof (induction services arbitrary: s)
  case Nil
  then show ?case by (auto intro!: exI [of _ "md_trace s"])
next
  case (Cons service rest)
  define a where "a = ma_answer api ((NextService service, ma_answer api (md_trace s) (NextService service)) # md_trace s) (PlugIn service)"
  define s1 where "s1 = s\<lparr>md_trace := (PlugIn service, a) # (NextService service, ma_answer api (md_trace s) (NextService service)) # md_trace s\<rparr>"
  have again: ?case
    if run: "find_in api number rest (s\<lparr>md_trace := u\<rparr>) = (q, s')" and u: "device_open u = device_open (md_trace s)"
      "gains (md_trace s) {#} u" for u
    using Cons.IH [OF run] u by (auto simp: gains_def)
  show ?case
  proof (cases "queried a")
    case False
    let ?u = "(ReleaseService service, ma_answer api (md_trace s1) (ReleaseService service)) # md_trace s1"
    have "find_in api number rest (s1\<lparr>md_trace := ?u\<rparr>) = (q, s')"
      using Cons.prems False by (auto simp: bindR_def a_def [symmetric] s1_def queried_def split: prod.splits)
    moreover have "gains (md_trace s) {#} ?u" using False by (simp add: s1_def gains_def)
    ultimately show ?thesis using again [of ?u] by (simp add: s1_def)
  next
    case plug: True
    obtain q2 s2 where q: "query_interface api (snd a) s1 = (q2, s2)" by fastforce
    from query_interface_run [OF q] obtain t x where t: "s2 = s1\<lparr>md_trace := t\<rparr>" "q2 = Val x" "device_open t = device_open (md_trace s1)"
      "gains (md_trace s1) (case x of None \<Rightarrow> {#} | Some (obj, h) \<Rightarrow> {#HeldObject obj#}) t" by blast
    define s3 where "s3 = s2\<lparr>md_trace := (ReleasePlugIn (snd a), ma_answer api t (ReleasePlugIn (snd a))) # t\<rparr>"
    have g3: "gains (md_trace s) ((case x of None \<Rightarrow> {#} | Some (obj, h) \<Rightarrow> {#HeldObject obj#}) + {#HeldService service#}) (md_trace s3)"
      using t(4) plug by (auto simp: gains_def s1_def s3_def split: option.split)
    show ?thesis
    proof (cases x)
      case None
      let ?u = "(ReleaseService service, ma_answer api (md_trace s3) (ReleaseService service)) # md_trace s3"
      have "find_in api number rest (s3\<lparr>md_trace := ?u\<rparr>) = (q, s')"
        using Cons.prems plug q None t(1,2)
        by (auto simp: bindR_def a_def [symmetric] s1_def s3_def queried_def split: prod.splits)
      moreover have "gains (md_trace s) {#} ?u" using g3 None by (simp add: gains_def)
      ultimately show ?thesis using again [of ?u] t(1,3) by (simp add: s1_def s3_def)
    next
      case (Some y)
      obtain obj h where y: "y = (obj, h)" by (cases y)
      define n where "n = ma_answer api (md_trace s3) (InterfaceNumber obj)"
      define s4 where "s4 = s3\<lparr>md_trace := (InterfaceNumber obj, n) # md_trace s3\<rparr>"
      have g4: "gains (md_trace s) {#HeldService service, HeldObject obj#} (md_trace s4)"
        using g3 Some y by (auto simp: gains_def s4_def add_mset_commute)
      show ?thesis
      proof (cases "of_nat (snd n) = number")
        case True
        have "q = Val (Some (service, obj, h))" "s' = s4"
          using Cons.prems plug q Some y t(1,2) True
          by (auto simp: bindR_def a_def [symmetric] s1_def s3_def s4_def n_def queried_def split: prod.splits)
        then show ?thesis using t(1,3) g4 by (auto simp: s1_def s3_def s4_def)
      next
        case False
        define s5 where "s5 = s4\<lparr>md_trace := (ReleaseObject obj, ma_answer api (md_trace s4) (ReleaseObject obj)) # md_trace s4\<rparr>"
        let ?u = "(ReleaseService service, ma_answer api (md_trace s5) (ReleaseService service)) # md_trace s5"
        have "find_in api number rest (s5\<lparr>md_trace := ?u\<rparr>) = (q, s')"
          using Cons.prems plug q Some y t(1,2) False
          by (auto simp: bindR_def a_def [symmetric] s1_def s3_def s4_def s5_def n_def queried_def split: prod.splits)
        moreover have "gains (md_trace s) {#} ?u" using g4 by (simp add: gains_def s5_def)
        ultimately show ?thesis using again [of ?u] t(1,3) by (simp add: s1_def s3_def s4_def s5_def)
      qed
    qed
  qed
qed

lemma find_interface_run:
  assumes "mac_find_interface api number s = (q, s')"
  shows "\<exists>t. s' = s\<lparr>md_trace := t\<rparr> \<and> q \<noteq> Panic \<and> device_open t = device_open (md_trace s)
      \<and> gains (md_trace s) (case q of Val x \<Rightarrow> found_held x | _ \<Rightarrow> {#}) t"
proof (cases "ma_answer api (md_trace s) InterfaceIterator")
  case (Pair kr v)
  define s1 where "s1 = s\<lparr>md_trace := (InterfaceIterator, kr, v) # md_trace s\<rparr>"
  have run: "mac_find_interface api number s = (if kr = 0
      then bindR (find_in api number (ma_services api (md_trace s))) (\<lambda>f. bindR (mac_do api ReleaseIterator) (\<lambda>_. ret f)) s1
      else (Fail (io_error kr), s1))"
    using Pair by (simp add: mac_find_interface_def bindR_def mac_try_run mac_check_def s1_def)
  show ?thesis
  proof (cases "kr = 0")
    case True
    obtain q1 s2 where f: "find_in api number (ma_services api (md_trace s)) s1 = (q1, s2)" by fastforce
    from find_in_run [OF f] obtain t x where t: "s2 = s1\<lparr>md_trace := t\<rparr>" "q1 = Val x" "device_open t = device_open (md_trace s1)"
      "gains (md_trace s1) (found_held x) t" by blast
    have "q = Val x" "s' = s1\<lparr>md_trace := (ReleaseIterator, ma_answer api t ReleaseIterator) # t\<rparr>"
      using assms True unfolding run by (auto simp: bindR_def f t(1,2))
    then show ?thesis
      using t(3,4) True by (intro exI [of _ "(ReleaseIterator, ma_answer api t ReleaseIterator) # t"]) (auto simp: s1_def gains_def)
  next
    case False
    then show ?thesis using assms run by (intro exI [of _ "(InterfaceIterator, kr, v) # md_trace s"]) (auto simp: s1_def gains_def)
  qed
qed

lemma read_pipes_run: "\<exists>t ps. read_pipes api obj rs s = (Val ps, s\<lparr>md_trace := t\<rparr>) \<and> gains (md_trace s) {#} t
    \<and> device_open t = device_open (md_trace s)"
proof (induction rs arbitrary: s)
  case Nil
  then show ?case by (auto intro!: exI [of _ "md_trace s"])
next
  case (Cons r rs)
  define a where "a = ma_answer api (md_trace s) (PipeProperties obj r)"
  from Cons.IH [of "s\<lparr>md_trace := (PipeProperties obj r, a) # md_trace s\<rparr>"] show ?case
    by (auto simp: bindR_def a_def [symmetric] gains_def split: prod.splits)
qed

lemma refresh_pipes_run:
  "\<exists>ps s'. refresh_pipes api ci s = (Val (ci\<lparr>mi_pipes := ps\<rparr>), s') \<and> mac_same s s'"
proof -
  define n where "n = ma_answer api (md_trace s) (NumEndpoints (mi_obj ci))"
  obtain t ps where "read_pipes api (mi_obj ci) (map of_nat [1..<Suc (snd n mod 256)])
      (s\<lparr>md_trace := (NumEndpoints (mi_obj ci), n) # md_trace s\<rparr>)
      = (Val ps, s\<lparr>md_trace := (NumEndpoints (mi_obj ci), n) # md_trace s\<rparr>\<lparr>md_trace := t\<rparr>)"
    "gains ((NumEndpoints (mi_obj ci), n) # md_trace s) {#} t" "device_open t = device_open ((NumEndpoints (mi_obj ci), n) # md_trace s)"
    using read_pipes_run [of api "mi_obj ci" "map of_nat [1..<Suc (snd n mod 256)]" "s\<lparr>md_trace := (NumEndpoints (mi_obj ci), n) # md_trace s\<rparr>"]
    by auto
  then show ?thesis
    by (auto simp: refresh_pipes_def bindR_def n_def [symmetric] mac_same_def gains_def simp del: upt_Suc split: prod.split)
qed

text \<open>The interface, its opening and its source, on top of what was held.\<close>

lemma open_interface_run:
  assumes "open_interface api i s = (q, s')"
  shows "\<exists>t. s' = s\<lparr>md_trace := t\<rparr> \<and> q \<noteq> Panic \<and> device_open t = device_open (md_trace s)
    \<and> gains (md_trace s) (case q of Val ci \<Rightarrow> iface_held ci | _ \<Rightarrow> {#}) t"
proof -
  obtain f s1 where f: "mac_find_interface api i s = (f, s1)" by fastforce
  from find_interface_run [OF f] obtain t where t: "s1 = s\<lparr>md_trace := t\<rparr>" "f \<noteq> Panic" "device_open t = device_open (md_trace s)"
    "gains (md_trace s) (case f of Val x \<Rightarrow> found_held x | _ \<Rightarrow> {#}) t" by blast
  show ?thesis
  proof (cases "\<exists>service obj h. f = Val (Some (service, obj, h))")
    case False
    have "s' = s1 \<and> q \<noteq> Panic \<and> (\<forall>ci. q \<noteq> Val ci)"
      using assms False f t(2) by (auto simp: open_interface_def bindR_def split: out.splits option.splits prod.splits)
    moreover have "gains (md_trace s) {#} t" using t(4) False by (auto simp: found_held_def split: out.splits option.splits prod.splits)
    ultimately show ?thesis using t(1,3) by (auto split: out.split)
  next
    case True
    then obtain service obj h where fv: "f = Val (Some (service, obj, h))" by blast
    define a1 where "a1 = ma_answer api t (ReleaseService service)"
    define t1 where "t1 = (ReleaseService service, a1) # t"
    define a2 where "a2 = ma_answer api t1 (InterfaceOpen obj)"
    define t2 where "t2 = (InterfaceOpen obj, a2) # t1"
    define a3 where "a3 = ma_answer api t2 (MakeSource obj)"
    define t3 where "t3 = (MakeSource obj, a3) # t2"
    define t4 where "t4 = (AddSource (snd a3), ma_answer api t3 (AddSource (snd a3))) # t3"
    have l1: "gains (md_trace s) {#HeldObject obj#} t1" "device_open t1 = device_open (md_trace s)"
      using t(3,4) fv by (simp_all add: t1_def gains_def)
    let ?ci = "\<lparr>mi_obj = obj, mi_has_182 = h, mi_source = snd a3, mi_pipes = []\<rparr>"
    define t5 where "t5 = (InterfaceClose obj, ma_answer api t3 (InterfaceClose obj)) # t3"
    have run: "open_interface api i s = (if fst a2 \<noteq> 0 then (Fail (io_error (fst a2)), s\<lparr>md_trace := (ReleaseObject obj, ma_answer api t2 (ReleaseObject obj)) # t2\<rparr>)
      else if fst a3 \<noteq> 0 then (Fail (io_error (fst a3)), s\<lparr>md_trace := (ReleaseObject obj, ma_answer api t5 (ReleaseObject obj)) # t5\<rparr>)
      else refresh_pipes api ?ci (s\<lparr>md_trace := t4\<rparr>))"
      by (simp add: open_interface_def bindR_def f fv t(1) case_prod_beta a1_def [symmetric] t1_def [symmetric] a2_def [symmetric]
          t2_def [symmetric] a3_def [symmetric] t3_def [symmetric] t4_def [symmetric] t5_def [symmetric])
    consider "fst a2 \<noteq> 0" | "fst a2 = 0" "fst a3 \<noteq> 0" | "fst a2 = 0" "fst a3 = 0" by blast
    then show ?thesis
    proof cases
      case 1
      then show ?thesis using assms run l1 by (auto simp: t2_def gains_def)
    next
      case 2
      then show ?thesis using assms run l1 by (auto simp: t2_def t3_def t5_def gains_def queried_def)
    next
      case 3
      obtain ps s2 where r: "refresh_pipes api ?ci (s\<lparr>md_trace := t4\<rparr>) = (Val (?ci\<lparr>mi_pipes := ps\<rparr>), s2)" "mac_same (s\<lparr>md_trace := t4\<rparr>) s2"
        using refresh_pipes_run by blast
      have q: "q = Val (?ci\<lparr>mi_pipes := ps\<rparr>)" "s' = s2" using assms run 3 r(1) by simp_all
      have "gains (md_trace s) (iface_held (?ci\<lparr>mi_pipes := ps\<rparr>)) t4" "device_open t4 = device_open (md_trace s)"
        using l1 3 by (auto simp: t4_def t3_def t2_def gains_def iface_held_def source_of_def queried_def add_mset_commute)
      then show ?thesis using r(2) q by (auto simp: mac_same_def gains_def)
    qed
  qed
qed

lemma drop_iface_run:
  "\<exists>t. drop_iface api ci s = (Val (), s\<lparr>md_trace := t\<rparr>) \<and> device_open t = device_open (md_trace s)
     \<and> loses (md_trace s) (iface_held ci) t"
  by (auto simp: drop_iface_def bindR_def loses_def iface_held_def source_of_def)

section \<open>Operations keep the accounts\<close>

text \<open>What a handle's claims and the device's own event source hold, on top of what others hold (\<open>B\<close>).\<close>

definition claims_held :: "(u8 \<times> mac_iface) list \<Rightarrow> holding multiset" where
  "claims_held cls = sum_list (map (\<lambda>p. iface_held (snd p)) cls)"

lemma claims_held_simps [simp]: "claims_held [] = {#}" "claims_held (p # cls) = iface_held (snd p) + claims_held cls"
    "claims_held (cls @ cls') = claims_held cls + claims_held cls'"
  by (simp_all add: claims_held_def)

definition source_held :: "bool \<Rightarrow> holding multiset" where
  "source_held running = (if running then {#HeldDeviceSource#} else {#})"

definition holds :: "holding multiset \<Rightarrow> bool \<Rightarrow> (u8 \<times> mac_iface) list \<Rightarrow> mac_trace \<Rightarrow> bool" where
  "holds B running cls t \<longleftrightarrow> mac_held t = Some (source_held running + claims_held cls + B)"

lemma holds_gains: "holds B b cls t \<Longrightarrow> gains t {#} t' \<Longrightarrow> holds B b cls t'"
  by (simp add: holds_def gains_def)

definition mac_wf :: "mac_handle \<Rightarrow> bool" where
  "mac_wf s \<longleftrightarrow> distinct (map fst (mh_claimed s)) \<and> (mh_capture s = CapturePending \<longrightarrow> mh_claimed s \<noteq> [])"

definition share :: "mac_handle \<Rightarrow> nat" where
  "share s = (if mh_is_open s then 1 else 0)"

definition mac_ok :: "mac_handle \<Rightarrow> mac_handle \<Rightarrow> bool" where
  "mac_ok s s' \<longleftrightarrow> (\<forall>B. holds B (md_source s) (mh_claimed s) (md_trace s) \<longrightarrow> holds B (md_source s') (mh_claimed s') (md_trace s'))
     \<and> (mac_wf s \<longrightarrow> mac_wf s') \<and> md_count s' + share s = md_count s + share s'
     \<and> ((md_count s = 0 \<longrightarrow> \<not> device_open (md_trace s)) \<longrightarrow> (md_count s' = 0 \<longrightarrow> \<not> device_open (md_trace s')))
     \<and> md_has_182 s' = md_has_182 s \<and> md_has_187 s' = md_has_187 s"

lemma mac_ok_refl [simp]: "mac_ok s s" by (simp add: mac_ok_def)

lemma mac_ok_trans: "mac_ok a b \<Longrightarrow> mac_ok b c \<Longrightarrow> mac_ok a c" by (simp add: mac_ok_def)

lemma mac_same_ok: "mac_same s s' \<Longrightarrow> mac_ok s s'"
  by (auto simp: mac_same_def mac_ok_def mac_wf_def share_def intro: holds_gains)

definition mac_fine :: "(mac_handle, 'a) io \<Rightarrow> bool" where
  "mac_fine m \<longleftrightarrow> (\<forall>s. mac_ok s (snd (m s)))"

named_theorems fine \<open>operations that keep the accounts of a handle\<close>

lemma mac_fineD: "mac_fine m \<Longrightarrow> mac_ok s (snd (m s))" by (simp add: mac_fine_def)

lemma fine_basic [fine]: "mac_fine (ret x)" "mac_fine (failE e)" "mac_fine (get_st f)" "mac_fine (lift_res r)" "mac_fine (lift_opt o1)"
  by (simp_all add: mac_fine_def lift_opt_def)

lemma fine_bindR [fine]:
  assumes "mac_fine m" "\<And>x. mac_fine (f x)"
  shows "mac_fine (bindR m f)"
  unfolding mac_fine_def
proof
  fix s :: mac_handle
  obtain r t where "m s = (r, t)" by (cases "m s")
  then show "mac_ok s (snd (bindR m f s))"
    using mac_fineD [OF assms(1), where s = s] mac_fineD [OF assms(2), where s = t] mac_ok_trans by (cases r) (auto simp: bindR_def)
qed

lemma fine_matchR [fine]:
  assumes "mac_fine m" "\<And>x. mac_fine (f x)" "\<And>e. mac_fine (g e)"
  shows "mac_fine (matchR m f g)"
  unfolding mac_fine_def
proof
  fix s :: mac_handle
  obtain r t where "m s = (r, t)" by fastforce
  then show "mac_ok s (snd (matchR m f g s))"
    using mac_fineD [OF assms(1), where s = s] mac_fineD [OF assms(2), where s = t] mac_fineD [OF assms(3), where s = t] mac_ok_trans
    by (cases r) (auto simp: matchR_def)
qed

lemma fine_splits [fine]:
  "mac_fine m \<Longrightarrow> mac_fine n \<Longrightarrow> mac_fine (if b then m else n)"
  "mac_fine m \<Longrightarrow> (\<And>x. mac_fine (f x)) \<Longrightarrow> mac_fine (case r of None \<Rightarrow> m | Some x \<Rightarrow> f x)"
  "(\<And>x y. mac_fine (g x y)) \<Longrightarrow> mac_fine (case p of (x, y) \<Rightarrow> g x y)"
  by (simp, cases r, simp_all, cases p, simp)

lemma fine_ignoreR [fine]: "mac_fine m \<Longrightarrow> mac_fine (ignoreR m)"
  unfolding ignoreR_def by (intro fine)

lemma fine_for_each [fine]: "(\<And>x. mac_fine (f x)) \<Longrightarrow> mac_fine (for_each xs f)"
  by (induction xs) (auto intro: fine)

lemma fine_mod_st:
  "(\<And>s. mh_claimed (f s) = mh_claimed s \<and> md_trace (f s) = md_trace s \<and> md_source (f s) = md_source s \<and> md_count (f s) = md_count s \<and> mh_is_open (f s) = mh_is_open s
     \<and> md_has_182 (f s) = md_has_182 s \<and> md_has_187 (f s) = md_has_187 s
     \<and> (mh_capture (f s) = CapturePending \<longrightarrow> mh_capture s = CapturePending)) \<Longrightarrow> mac_fine (mod_st f)"
  by (auto simp: mac_fine_def mac_ok_def mac_wf_def share_def)

text \<open>The calls that give and take nothing.\<close>

definition plain_call :: "mac_call \<Rightarrow> bool" where
  "plain_call c \<longleftrightarrow> (\<forall>r t. gains t {#} ((c, r) # t) \<and> device_open ((c, r) # t) = device_open t)"

lemma plain_calls [fine]:
  "plain_call DeviceRelease" "plain_call (ReEnumerate b)" "plain_call GetConfiguration"
  "plain_call (SetConfiguration v)" "plain_call ResetDevice" "plain_call AbortPipeZero" "plain_call (RequestAsync su ms)"
  "plain_call (InterfaceNumber n)" "plain_call (AddSource n)"
  "plain_call (NumEndpoints n)" "plain_call (PipeProperties n p)" "plain_call (GetAlternate n)" "plain_call (SetAlternate n v)"
  "plain_call (ClearStall n p)" "plain_call (AbortPipe n p)" "plain_call (PipeAsync n p b len ms)" "plain_call (BusFrame n)"
  "plain_call (IsochAsync n p b begins reqs)" "plain_call (Children n)"
  by (simp_all add: plain_call_def gains_def)

lemma plain_same: "plain_call c \<Longrightarrow> mac_same s (snd (mac_invoke api c s))"
  unfolding mac_same_def
  by (cases "ma_answer api (md_trace s) c", rule exI [of _ "(c, ma_answer api (md_trace s) c) # md_trace s"])
    (simp add: plain_call_def)

lemma fine_calls [fine]:
  assumes "plain_call c"
  shows "mac_fine (mac_invoke api c)" "mac_fine (mac_do api c)" "mac_fine (mac_try api c)"
  using mac_same_ok [OF plain_same [OF assms]] unfolding mac_fine_def by (simp_all add: mac_try_run)

subsection \<open>The device object\<close>

lemma fine_reenumerate [fine]: "mac_fine (reenumerate api b)"
  unfolding reenumerate_def by (intro fine)

lemma ensure_source_run:
  "\<exists>q b t. ensure_event_source api s = (q, s\<lparr>md_source := b, md_trace := t\<rparr>) \<and> q \<noteq> Panic
     \<and> (\<forall>B cls. holds B (md_source s) cls (md_trace s) \<longrightarrow> holds B b cls t) \<and> device_open t = device_open (md_trace s)"
proof (cases "ma_answer api (md_trace s) MakeDeviceSource")
  case (Pair kr v)
  define u where "u = (MakeDeviceSource, kr, v) # md_trace s"
  have u: "holds B False cls (md_trace s) \<Longrightarrow> holds B (kr = 0) cls u" "device_open u = device_open (md_trace s)" for B cls
    by (simp_all add: u_def holds_def source_held_def)
  have "ensure_event_source api s = (if md_source s then (Val (), s)
      else (if kr = 0 then Val () else Fail (io_error kr), s\<lparr>md_source := kr = 0, md_trace := u\<rparr>))"
    using Pair by (simp add: ensure_event_source_def bindR_def mac_try_run mac_check_def u_def)
  then have run: "ensure_event_source api s = (if md_source s \<or> kr = 0 then Val () else Fail (io_error kr),
      s\<lparr>md_source := md_source s \<or> kr = 0, md_trace := if md_source s then md_trace s else u\<rparr>)" by simp
  show ?thesis by (intro exI conjI, rule run) (use u in \<open>cases "md_source s"; simp\<close>)+
qed

lemma take_source_run:
  "\<exists>t. take_source api s = (Val (), s\<lparr>md_source := False, md_trace := t\<rparr>)
     \<and> (\<forall>B cls. holds B (md_source s) cls (md_trace s) \<longrightarrow> holds B False cls t) \<and> device_open t = device_open (md_trace s)"
proof (cases "md_source s")
  case True
  then show ?thesis
    by (intro exI [of _ "(DropDeviceSource, ma_answer api (md_trace s) DropDeviceSource) # md_trace s"])
      (simp add: take_source_def bindR_def holds_def source_held_def)
next
  case False
  then show ?thesis by (intro exI [of _ "md_trace s"]) (simp add: take_source_def bindR_def)
qed

lemma fine_sources [fine]: "mac_fine (ensure_event_source api)" "mac_fine (take_source api)"
proof -
  show "mac_fine (ensure_event_source api)"
    unfolding mac_fine_def
  proof
    fix s :: mac_handle
    show "mac_ok s (snd (ensure_event_source api s))"
      using ensure_source_run [of api s] by (auto simp: mac_ok_def mac_wf_def share_def)
  qed
  show "mac_fine (take_source api)"
    unfolding mac_fine_def
  proof
    fix s :: mac_handle
    show "mac_ok s (snd (take_source api s))"
      using take_source_run [of api s] by (auto simp: mac_ok_def mac_wf_def share_def)
  qed
qed

lemma device_open_call_run:
  "\<exists>t kr. device_open_call api s = (out_of (mac_check kr), s\<lparr>md_trace := t\<rparr>) \<and> gains (md_trace s) {#} t
     \<and> device_open t = (kr = 0 \<or> device_open (md_trace s))"
proof (cases "ma_answer api (md_trace s) (DeviceOpen (md_has_182 s))")
  case (Pair kr v)
  then show ?thesis
    by (intro exI [of _ "(DeviceOpen (md_has_182 s), kr, v) # md_trace s"] exI [of _ kr])
      (simp add: device_open_call_def bindR_def mac_try_run gains_def)
qed

lemma fine_reopen [fine]: "mac_fine (dev_reopen api)"
proof -
  have "mac_ok s (snd ((if md_count s > 0 then bindR (mac_do api DeviceClose) (\<lambda>_. device_open_call api) else ret ()) s))" for s :: mac_handle
  proof (cases "md_count s > 0")
    case True
    define a where "a = ma_answer api (md_trace s) DeviceClose"
    obtain t kr where "device_open_call api (s\<lparr>md_trace := (DeviceClose, a) # md_trace s\<rparr>)
        = (out_of (mac_check kr), s\<lparr>md_trace := (DeviceClose, a) # md_trace s\<rparr>\<lparr>md_trace := t\<rparr>)" "gains ((DeviceClose, a) # md_trace s) {#} t"
      using device_open_call_run [of api "s\<lparr>md_trace := (DeviceClose, a) # md_trace s\<rparr>"] by auto
    then show ?thesis
      using True by (auto simp: bindR_def a_def [symmetric] mac_ok_def holds_def gains_def mac_wf_def share_def)
  qed simp
  then have c: "mac_fine (bindR (get_st md_count) (\<lambda>count. if count > 0 then bindR (mac_do api DeviceClose) (\<lambda>_. device_open_call api) else ret ()))"
    by (simp add: mac_fine_def bindR_def)
  have assoc: "dev_reopen api = bindR (bindR (get_st md_count) (\<lambda>count. if count > 0 then bindR (mac_do api DeviceClose) (\<lambda>_. device_open_call api) else ret ()))
      (\<lambda>_. bindR (take_source api) (\<lambda>_. ensure_event_source api) :: (mac_handle, unit) io)"
    by (simp add: dev_reopen_def bindR_assoc)
  show ?thesis unfolding assoc by (intro c fine)
qed

lemma dev_open_run:
  assumes "dev_open api s = (q, s')"
  shows "\<exists>t. gains (md_trace s) {#} t \<and> q \<noteq> Panic
    \<and> (case q of Val u \<Rightarrow> s' = s\<lparr>md_count := md_count s + 1, md_trace := t\<rparr>
        | _ \<Rightarrow> s' = s\<lparr>md_trace := t\<rparr> \<and> device_open t = device_open (md_trace s))"
proof (cases "md_count s = 0")
  case True
  obtain t kr where o: "device_open_call api s = (out_of (mac_check kr), s\<lparr>md_trace := t\<rparr>)" "gains (md_trace s) {#} t"
    "device_open t = (kr = 0 \<or> device_open (md_trace s))" using device_open_call_run [of api s] by auto
  then show ?thesis using assms True by (cases "kr = 0") (auto simp: dev_open_def bindR_def mac_check_def intro!: exI [of _ t])
next
  case False
  then show ?thesis using assms by (auto simp: dev_open_def bindR_def intro!: exI [of _ "md_trace s"])
qed

lemma fine_open_late:
  assumes "\<not> mh_is_open s"
  shows "mac_ok s (snd (bindR (dev_open api) (\<lambda>_. mod_st (\<lambda>s. s\<lparr>mh_is_open := True\<rparr>)) s))"
proof -
  obtain q s' where o: "dev_open api s = (q, s')" by fastforce
  from dev_open_run [OF o] show ?thesis
    using assms by (cases q) (auto simp: bindR_def o mac_ok_def mac_wf_def share_def intro: holds_gains)
qed

subsection \<open>Interfaces and claims\<close>

lemma fine_refresh [fine]: "mac_fine (refresh_pipes api ci)"
  unfolding mac_fine_def using refresh_pipes_run [of api ci] mac_same_ok by (metis snd_conv)

lemma fine_driver_active [fine]: "mac_fine (mac_driver_active api i)"
  unfolding mac_fine_def
proof
  fix s :: mac_handle
  obtain f s1 where f: "mac_find_interface api i s = (f, s1)" by fastforce
  from find_interface_run [OF f] obtain t where t: "s1 = s\<lparr>md_trace := t\<rparr>" "f \<noteq> Panic" "device_open t = device_open (md_trace s)"
    "gains (md_trace s) (case f of Val x \<Rightarrow> found_held x | _ \<Rightarrow> {#}) t" by blast
  have "mac_same s (snd (mac_driver_active api i s))"
  proof (cases f)
    case (Val x)
    then show ?thesis
      using t by (cases x) (auto simp: mac_driver_active_def bindR_def f case_prod_beta mac_same_def gains_def)
  next
    case (Fail e)
    then show ?thesis using t by (auto simp: mac_driver_active_def bindR_def f mac_same_def gains_def)
  qed (use t in simp)
  then show "mac_ok s (snd (mac_driver_active api i s))" by (rule mac_same_ok)
qed

lemma holds_open: "holds B b cls t \<Longrightarrow> gains t (iface_held ci) t' \<Longrightarrow> holds B b ((i, ci) # cls) t'"
  by (simp add: holds_def gains_def ac_simps)

lemma holds_drop: "holds B b ((i, ci) # cls) t \<Longrightarrow> loses t (iface_held ci) t' \<Longrightarrow> holds B b cls t'"
  by (simp add: holds_def loses_def ac_simps)

lemma holds_perm: "mset cls = mset cls' \<Longrightarrow> holds B b cls t = holds B b cls' t"
  unfolding holds_def claims_held_def by (simp add: mset_map flip: sum_mset_sum_list)

lemma holds_pipes:
  "map (\<lambda>p. (mi_obj (snd p), mi_source (snd p))) cls = map (\<lambda>p. (mi_obj (snd p), mi_source (snd p))) cls' \<Longrightarrow> holds B b cls t = holds B b cls' t"
proof -
  assume m: "map (\<lambda>p. (mi_obj (snd p), mi_source (snd p))) cls = map (\<lambda>p. (mi_obj (snd p), mi_source (snd p))) cls'"
  have "claims_held c = sum_list (map (\<lambda>x. {#HeldObject (fst x), HeldOpen (fst x)#} + (if snd x = 0 then {#} else {#HeldSource (snd x)#}))
      (map (\<lambda>p. (mi_obj (snd p), mi_source (snd p))) c))" for c
    by (simp add: claims_held_def iface_held_def source_of_def comp_def cong: if_cong)
  then have "claims_held cls = claims_held cls'" by (simp only: m)
  then show ?thesis by (simp add: holds_def)
qed

lemma claim_fine [fine]: "mac_fine (mac_claim api i)"
  unfolding mac_fine_def
proof
  fix s :: mac_handle
  obtain q s1 where o: "open_interface api i s = (q, s1)" by fastforce
  from open_interface_run [OF o] obtain t where t: "s1 = s\<lparr>md_trace := t\<rparr>" "q \<noteq> Panic" "device_open t = device_open (md_trace s)"
    "gains (md_trace s) (case q of Val ci \<Rightarrow> iface_held ci | _ \<Rightarrow> {#}) t" by blast
  show "mac_ok s (snd (mac_claim api i s))"
  proof (cases "i \<in> fst ` set (mh_claimed s)")
    case True
    then show ?thesis by (simp add: mac_claim_def bindR_def)
  next
    case False
    show ?thesis
    proof (cases q)
      case (Val ci)
      have "holds B (md_source s) ((i, ci) # mh_claimed s) t" if "holds B (md_source s) (mh_claimed s) (md_trace s)" for B
        using holds_open [OF that] t Val by simp
      then show ?thesis
        using False Val t by (auto simp: mac_claim_def bindR_def o mac_ok_def mac_wf_def share_def)
    next
      case (Fail e)
      then show ?thesis
        using False t by (auto simp: mac_claim_def bindR_def o mac_ok_def mac_wf_def share_def intro: holds_gains)
    qed (use t in simp)
  qed
qed

lemma mset_filter_key:
  "distinct (map fst cls) \<Longrightarrow> map_of cls i = Some ci \<Longrightarrow> mset cls = mset ((i, ci) # filter (\<lambda>p. fst p \<noteq> i) cls)"
proof (induction cls)
  case (Cons p cls)
  show ?case
  proof (cases "fst p = i")
    case True
    then have "filter (\<lambda>p. fst p \<noteq> i) cls = cls" "p = (i, ci)"
      using Cons.prems by (cases p; auto simp: filter_id_conv)+
    then show ?thesis by simp
  next
    case False
    then show ?thesis using Cons by (cases p) auto
  qed
qed simp

lemma release_fine:
  assumes "distinct (map fst (mh_claimed s))"
  shows "mac_ok s (snd (mac_release api i s))"
proof (cases "map_of (mh_claimed s) i")
  case None
  then show ?thesis by (simp add: mac_release_def bindR_def)
next
  case (Some ci)
  let ?cls = "filter (\<lambda>p. fst p \<noteq> i) (mh_claimed s)"
  obtain t where t: "drop_iface api ci (s\<lparr>mh_claimed := ?cls\<rparr>) = (Val (), s\<lparr>mh_claimed := ?cls\<rparr>\<lparr>md_trace := t\<rparr>)"
    "device_open t = device_open (md_trace s)"
    "loses (md_trace s) (iface_held ci) t"
    using drop_iface_run [of api ci "s\<lparr>mh_claimed := ?cls\<rparr>"] by auto
  have holds: "holds B (md_source s) ?cls t" if "holds B (md_source s) (mh_claimed s) (md_trace s)" for B
    using holds_drop [OF _ t(3)] that holds_perm [OF mset_filter_key [OF assms Some]] by blast
  define s1 where "s1 = s\<lparr>mh_claimed := ?cls, md_trace := t\<rparr>"
  show ?thesis
  proof (cases "?cls = [] \<and> mh_capture s = CapturePending")
    case True
    define s2 where "s2 = s1\<lparr>mh_capture := CaptureNone\<rparr>"
    have "mac_release api i s = reenumerate api False s2"
      using Some t(1) True by (simp add: mac_release_def bindR_def s1_def s2_def)
    moreover have "mac_ok s s2" using holds t(2) by (auto simp: mac_ok_def s1_def s2_def mac_wf_def share_def distinct_map_filter)
    ultimately show ?thesis using mac_fineD [OF fine_reenumerate] mac_ok_trans by metis
  next
    case False
    then have "mac_release api i s = (Val (), s1)"
      using Some t(1) by (auto simp: mac_release_def bindR_def s1_def)
    moreover have "mac_ok s s1" using holds t(2) False by (auto simp: mac_ok_def s1_def mac_wf_def share_def distinct_map_filter)
    ultimately show ?thesis by simp
  qed
qed

lemma set_alt_fine:
  assumes "distinct (map fst (mh_claimed s))"
  shows "mac_ok s (snd (mac_set_alt api i alt s))"
proof (cases "map_of (mh_claimed s) i")
  case None
  then show ?thesis by (simp add: mac_set_alt_def bindR_def)
next
  case (Some ci)
  define s1 where "s1 = snd (mac_invoke api (SetAlternate (mi_obj ci) alt) s)"
  define kr where "kr = fst (ma_answer api (md_trace s) (SetAlternate (mi_obj ci) alt))"
  have s1: "mac_same s s1" unfolding s1_def by (rule plain_same) (rule fine)
  have call: "mac_try api (SetAlternate (mi_obj ci) alt) s = (out_of (mac_check kr), s1)"
    by (simp add: mac_try_run kr_def s1_def)
  obtain ps s2 where r: "refresh_pipes api ci s1 = (Val (ci\<lparr>mi_pipes := ps\<rparr>), s2)" "mac_same s1 s2"
    using refresh_pipes_run by blast
  from mac_same_trans [OF s1 r(2)] have s2: "mac_ok s s2" "mh_claimed s2 = mh_claimed s" "mh_capture s2 = mh_capture s"
    by (auto simp: mac_same_ok) (auto simp: mac_same_def)
  define cls where "cls = map (\<lambda>p. if fst p = i then (i, ci\<lparr>mi_pipes := ps\<rparr>) else p) (mh_claimed s)"
  have keys: "map fst cls = map fst (mh_claimed s)" "cls = [] \<longleftrightarrow> mh_claimed s = []" by (auto simp: cls_def)
  have same: "map (\<lambda>p. (mi_obj (snd p), mi_source (snd p))) cls = map (\<lambda>p. (mi_obj (snd p), mi_source (snd p))) (mh_claimed s)"
    using Some by (auto simp: cls_def map_of_eq_Some_iff [OF assms] dest: eq_key_imp_eq_value [OF assms])
  have s3: "mac_ok s2 (s2\<lparr>mh_claimed := cls\<rparr>)"
    unfolding mac_ok_def mac_wf_def share_def using holds_pipes [OF same] by (simp add: s2(2,3) keys)
  show ?thesis
  proof (cases "kr = 0")
    case True
    then have "snd (mac_set_alt api i alt s) = s2\<lparr>mh_claimed := cls\<rparr>"
      using Some r(1) s2(2) by (simp add: mac_set_alt_def bindR_def call mac_check_def cls_def)
    then show ?thesis using s2(1) s3 mac_ok_trans by metis
  next
    case False
    then have "snd (mac_set_alt api i alt s) = s1"
      using Some by (simp add: mac_set_alt_def bindR_def call mac_check_def)
    then show ?thesis using mac_same_ok [OF s1] by simp
  qed
qed

lemma read_alts_run: "\<exists>as s'. read_alts api cls s = (Val as, s') \<and> mac_same s s' \<and> map fst as = map fst cls"
proof (induction cls arbitrary: s)
  case (Cons p cls)
  obtain i ci where p: "p = (i, ci)" by (cases p)
  define s1 where "s1 = snd (mac_invoke api (GetAlternate (mi_obj ci)) s)"
  have s1: "mac_same s s1" unfolding s1_def by (rule plain_same) (rule fine)
  obtain as s2 where "read_alts api cls s1 = (Val as, s2)" "mac_same s1 s2" "map fst as = map fst cls" using Cons.IH by blast
  then show ?case using mac_same_trans [OF s1] by (auto simp: p bindR_def s1_def case_prod_beta)
qed simp

lemma refresh_all_run:
  "\<exists>cls' s'. refresh_all api cls s = (Val cls', s') \<and> mac_same s s' \<and> map fst cls' = map fst cls
     \<and> map (\<lambda>p. (mi_obj (snd p), mi_source (snd p))) cls' = map (\<lambda>p. (mi_obj (snd p), mi_source (snd p))) cls"
proof (induction cls arbitrary: s)
  case (Cons p cls)
  obtain i ci where p: "p = (i, ci)" by (cases p)
  obtain ps s1 where r: "refresh_pipes api ci s = (Val (ci\<lparr>mi_pipes := ps\<rparr>), s1)" "mac_same s s1" using refresh_pipes_run by blast
  obtain cls' s2 where "refresh_all api cls s1 = (Val cls', s2)" "mac_same s1 s2" "map fst cls' = map fst cls"
    "map (\<lambda>p. (mi_obj (snd p), mi_source (snd p))) cls' = map (\<lambda>p. (mi_obj (snd p), mi_source (snd p))) cls" using Cons.IH by blast
  then show ?case using r(1) mac_same_trans [OF r(2)] by (auto simp: p bindR_def)
qed simp

lemma drops_run:
  "\<exists>t. for_each (map snd cls) (drop_iface api) s = (Val (), s\<lparr>md_trace := t\<rparr>) \<and> device_open t = device_open (md_trace s)
     \<and> (\<forall>B b. holds B b cls (md_trace s) \<longrightarrow> holds B b [] t)"
proof (induction cls arbitrary: s)
  case Nil
  then show ?case by (auto intro!: exI [of _ "md_trace s"])
next
  case (Cons p cls)
  obtain t where t: "drop_iface api (snd p) s = (Val (), s\<lparr>md_trace := t\<rparr>)" "device_open t = device_open (md_trace s)"
    "loses (md_trace s) (iface_held (snd p)) t" using drop_iface_run by blast
  have h: "holds B b cls t" if "holds B b (p # cls) (md_trace s)" for B b
    using holds_drop [of B b "fst p" "snd p" cls "md_trace s" t] that t(3) by simp
  from Cons.IH [of "s\<lparr>md_trace := t\<rparr>"] h t(2) show ?case by (auto simp: bindR_def t(1))
qed

lemma reclaim_run:
  assumes "i \<notin> fst ` set (mh_claimed s)" "reclaim api (i, alt) s = (q, s')"
  shows "mac_ok s s' \<and> fst ` set (mh_claimed s') \<subseteq> insert i (fst ` set (mh_claimed s)) \<and> q \<noteq> Panic"
proof -
  obtain o1 s1 where o: "open_interface api i s = (o1, s1)" by fastforce
  from open_interface_run [OF o] obtain t where t: "s1 = s\<lparr>md_trace := t\<rparr>" "o1 \<noteq> Panic" "device_open t = device_open (md_trace s)"
    "gains (md_trace s) (case o1 of Val ci \<Rightarrow> iface_held ci | _ \<Rightarrow> {#}) t" by blast
  show ?thesis
  proof (cases o1)
    case (Fail e)
    then show ?thesis using assms(2) t by (auto simp: reclaim_def bindR_def o mac_ok_def mac_wf_def share_def intro: holds_gains)
  next
    case (Val ci)
    have h: "holds B (md_source s) ((i, ci) # mh_claimed s) t" if "holds B (md_source s) (mh_claimed s) (md_trace s)" for B
      using holds_open [OF that] t Val by simp
    define c where "c = SetAlternate (mi_obj ci) alt"
    define a where "a = ma_answer api t c"
    define u where "u = (c, a) # t"
    have u: "gains t {#} u" "device_open u = device_open t" by (simp_all add: u_def c_def gains_def)
    obtain w where w: "drop_iface api ci (s\<lparr>md_trace := u\<rparr>) = (Val (), s\<lparr>md_trace := w\<rparr>)" "device_open w = device_open u"
      "loses u (iface_held ci) w"
      using drop_iface_run [of api ci "s\<lparr>md_trace := u\<rparr>"] by auto
    have hu: "holds B (md_source s) ((i, ci) # mh_claimed s) u" if "holds B (md_source s) (mh_claimed s) (md_trace s)" for B
      using holds_gains [OF h [OF that] u(1)] .
    have hw: "holds B (md_source s) (mh_claimed s) w" if "holds B (md_source s) (mh_claimed s) (md_trace s)" for B
      using holds_drop [OF hu [OF that] w(3)] .
    have call: "mac_try api c (s\<lparr>md_trace := t\<rparr>) = (out_of (mac_check (fst a)), s\<lparr>md_trace := u\<rparr>)"
      by (simp add: mac_try_run a_def u_def)
    have "(q, s') = (if alt = 0 then (Val (), s\<lparr>mh_claimed := (i, ci) # mh_claimed s, md_trace := t\<rparr>)
      else if fst a = 0 then (Val (), s\<lparr>mh_claimed := (i, ci) # mh_claimed s, md_trace := u\<rparr>)
      else (Fail (io_error (fst a)), s\<lparr>md_trace := w\<rparr>))"
      using assms(2) w(1) by (auto simp: reclaim_def bindR_def o Val t(1) matchR_def c_def [symmetric] call mac_check_def)
    then show ?thesis
      using h hu hw assms(1) t(3) u(2) w(2) by (auto simp: mac_ok_def mac_wf_def share_def split: if_splits)
  qed (use t in simp)
qed

lemma reclaims_run:
  "distinct (map fst alts) \<Longrightarrow> fst ` set alts \<inter> fst ` set (mh_claimed s) = {} \<Longrightarrow> mac_ok s (snd (for_each alts (reclaim api) s))"
proof (induction alts arbitrary: s)
  case (Cons p alts)
  obtain i alt where p: "p = (i, alt)" by (cases p)
  obtain q s1 where r: "reclaim api p s = (q, s1)" by fastforce
  have s1: "mac_ok s s1" "fst ` set (mh_claimed s1) \<subseteq> insert i (fst ` set (mh_claimed s))"
    using reclaim_run [of i s api alt q s1] Cons.prems(2) r p by auto
  have "fst ` set alts \<inter> insert i (fst ` set (mh_claimed s)) = {}" using Cons.prems by (simp add: p)
  then have "fst ` set alts \<inter> fst ` set (mh_claimed s1) = {}" using s1(2) by blast
  then have "mac_ok s1 (snd (for_each alts (reclaim api) s1))" using Cons.IH [of s1] Cons.prems(1) by simp
  then show ?case using s1(1) mac_ok_trans by (cases q) (auto simp: bindR_def r)
qed simp

lemma reclaim_all_fine:
  assumes "distinct (map fst (mh_claimed s))" "mh_capture s \<noteq> CapturePending"
  shows "mac_ok s (snd (reclaim_all api s))"
proof -
  let ?cls = "mh_claimed s"
  obtain alts s1 where a: "read_alts api ?cls s = (Val alts, s1)" "mac_same s s1" "map fst alts = map fst ?cls"
    using read_alts_run by blast
  from a(2) have s1: "mh_claimed s1 = ?cls" "mh_capture s1 = mh_capture s" by (auto simp: mac_same_def)
  obtain t where t: "for_each (map snd ?cls) (drop_iface api) (s1\<lparr>mh_claimed := []\<rparr>) = (Val (), s1\<lparr>mh_claimed := [], md_trace := t\<rparr>)"
    "device_open t = device_open (md_trace s1)" "\<forall>B b. holds B b ?cls (md_trace s1) \<longrightarrow> holds B b [] t"
    using drops_run [of ?cls api "s1\<lparr>mh_claimed := []\<rparr>"] by auto
  define s2 where "s2 = s1\<lparr>mh_claimed := [], md_trace := t\<rparr>"
  have ok2: "mac_ok s1 s2" using t(2,3) assms(2) s1 by (auto simp: mac_ok_def s2_def mac_wf_def share_def)
  obtain q s3 where r: "for_each alts (reclaim api) s2 = (q, s3)" by fastforce
  have "mac_ok s2 s3" using reclaims_run [of alts s2 api] assms(1) a(3) r by (simp add: s2_def)
  then have ok3: "mac_ok s s3" using mac_same_ok [OF a(2)] ok2 mac_ok_trans by blast
  obtain cls' s4 where f: "refresh_all api (mh_claimed s3) s3 = (Val cls', s4)" "mac_same s3 s4" "map fst cls' = map fst (mh_claimed s3)"
    "map (\<lambda>p. (mi_obj (snd p), mi_source (snd p))) cls' = map (\<lambda>p. (mi_obj (snd p), mi_source (snd p))) (mh_claimed s3)"
    using refresh_all_run by blast
  have s4: "mh_claimed s4 = mh_claimed s3" using f(2) by (auto simp: mac_same_def)
  have ne: "cls' = [] \<longleftrightarrow> mh_claimed s3 = []" using f(3) by (metis map_is_Nil_conv)
  have ok4: "mac_ok s4 (s4\<lparr>mh_claimed := cls'\<rparr>)"
    unfolding mac_ok_def mac_wf_def share_def using holds_pipes [OF f(4)] f(3) ne by (simp add: s4)
  have run: "snd (reclaim_all api s) = (case q of Val u \<Rightarrow> s4\<lparr>mh_claimed := cls'\<rparr> | _ \<Rightarrow> s3)"
    using t(1) r f(1) by (cases q) (simp_all add: reclaim_all_def bindR_def a(1) s2_def [symmetric])
  have "mac_ok s (s4\<lparr>mh_claimed := cls'\<rparr>)" using ok3 mac_same_ok [OF f(2)] ok4 mac_ok_trans by blast
  then show ?thesis using ok3 run by (cases q) simp_all
qed

subsection \<open>Detaching and attaching\<close>

text \<open>What the calls on the device object leave alone.\<close>

definition own_view :: "mac_handle \<Rightarrow> (u8 \<times> mac_iface) list \<times> capture \<times> bool" where
  "own_view s = (mh_claimed s, mh_capture s, mh_is_open s)"

lemma keeps_calls [keeping]:
  assumes "\<And>s t. v (s\<lparr>md_trace := t\<rparr>) = v s"
  shows "keeps v (mac_invoke api c)" "keeps v (mac_do api c)" "keeps v (mac_try api c)"
  using assms by (simp_all add: keeps_def mac_try_run)

lemma dev_keeps:
  "keeps own_view (reenumerate api b)" "keeps own_view (ensure_event_source api)" "keeps own_view (take_source api)"
  "keeps own_view (device_open_call api)"
  unfolding reenumerate_def ensure_event_source_def take_source_def device_open_call_def
  by (intro keeping; simp add: own_view_def)+

lemma reenumerate_keeps:
  fixes s :: mac_handle
  shows "mh_claimed (snd (reenumerate api b s)) = mh_claimed s" "mh_capture (snd (reenumerate api b s)) = mh_capture s"
  "mh_is_open (snd (reenumerate api b s)) = mh_is_open s"
  using dev_keeps(1) [of api b] by (simp_all add: keeps_def own_view_def)

lemma reopen_keeps:
  fixes s :: mac_handle
  shows "mh_claimed (snd (dev_reopen api s)) = mh_claimed s" "mh_capture (snd (dev_reopen api s)) = mh_capture s"
proof -
  have "keeps own_view (dev_reopen api)"
    unfolding dev_reopen_def by (intro keeping dev_keeps; simp add: own_view_def)
  then show "mh_claimed (snd (dev_reopen api s)) = mh_claimed s" "mh_capture (snd (dev_reopen api s)) = mh_capture s"
    by (simp_all add: keeps_def own_view_def)
qed

lemma open_late_keeps:
  fixes s :: mac_handle
  shows "mh_claimed (snd (bindR (dev_open api) (\<lambda>_. mod_st (\<lambda>s. s\<lparr>mh_is_open := True\<rparr>)) s)) = mh_claimed s"
  "mh_capture (snd (bindR (dev_open api) (\<lambda>_. mod_st (\<lambda>s. s\<lparr>mh_is_open := True\<rparr>)) s)) = mh_capture s"
proof -
  obtain q s' where o: "dev_open api s = (q, s')" by fastforce
  from dev_open_run [OF o] show
    "mh_claimed (snd (bindR (dev_open api) (\<lambda>_. mod_st (\<lambda>s. s\<lparr>mh_is_open := True\<rparr>)) s)) = mh_claimed s"
    "mh_capture (snd (bindR (dev_open api) (\<lambda>_. mod_st (\<lambda>s. s\<lparr>mh_is_open := True\<rparr>)) s)) = mh_capture s"
    by (cases q; auto simp: bindR_def o)+
qed

lemma driver_active_keeps:
  fixes s :: mac_handle
  shows "mh_claimed (snd (mac_driver_active api i s)) = mh_claimed s" "mh_capture (snd (mac_driver_active api i s)) = mh_capture s"
  "mh_is_open (snd (mac_driver_active api i s)) = mh_is_open s"
proof -
  have "keeps own_view (mac_find_interface api i)"
    unfolding keeps_def
  proof
    fix s :: mac_handle
    obtain q s' where f: "mac_find_interface api i s = (q, s')" by fastforce
    from find_interface_run [OF f] show "own_view (snd (mac_find_interface api i s)) = own_view s"
      by (auto simp: f own_view_def)
  qed
  then have "keeps own_view (mac_driver_active api i)"
    unfolding mac_driver_active_def by (intro keeping; simp add: own_view_def)
  then show "mh_claimed (snd (mac_driver_active api i s)) = mh_claimed s" "mh_capture (snd (mac_driver_active api i s)) = mh_capture s"
    "mh_is_open (snd (mac_driver_active api i s)) = mh_is_open s" by (simp_all add: keeps_def own_view_def)
qed

lemma take_back_run:
  "mac_ok s (snd (take_back api s))" "mh_claimed (snd (take_back api s)) = mh_claimed s" "mh_capture (snd (take_back api s)) = mh_capture s"
proof -
  have t: "take_back api s = (if mh_is_open s then dev_reopen api s
     else bindR (dev_open api) (\<lambda>_. mod_st (\<lambda>s. s\<lparr>mh_is_open := True\<rparr>)) s)" by (simp add: take_back_def bindR_def)
  show "mac_ok s (snd (take_back api s))" "mh_claimed (snd (take_back api s)) = mh_claimed s" "mh_capture (snd (take_back api s)) = mh_capture s"
    using mac_fineD [OF fine_reopen, where s = s] fine_open_late [of s api] reopen_keeps [of api s] open_late_keeps [of api s]
    by (auto simp: t)
qed

lemma detach_fine:
  assumes "distinct (map fst (mh_claimed s))"
  shows "mac_ok s (snd (mac_detach api i s))"
proof -
  obtain q s1 where a: "mac_driver_active api i s = (q, s1)" by fastforce
  have s1: "mac_ok s s1" using mac_fineD [OF fine_driver_active, where s = s] a by (metis snd_conv)
  have keep1: "mh_claimed s1 = mh_claimed s" "mh_capture s1 = mh_capture s" "mh_is_open s1 = mh_is_open s"
    using driver_active_keeps [of api i s] a by simp_all
  show ?thesis
  proof (cases "q = Val True \<and> mh_capture s1 = CaptureNone")
    case False
    then have "snd (mac_detach api i s) = s1" by (cases q) (auto simp: mac_detach_def bindR_def a)
    then show ?thesis using s1 by simp
  next
    case go: True
    obtain q2 s2 where r: "reenumerate api True s1 = (q2, s2)" by fastforce
    have s2: "mac_ok s1 s2" using mac_fineD [OF fine_reenumerate, where s = s1] r by (metis snd_conv)
    have keep2: "mh_claimed s2 = mh_claimed s" "mh_is_open s2 = mh_is_open s"
      using reenumerate_keeps [of api True s1] r keep1 by simp_all
    show ?thesis
    proof (cases "q2 = Val ()")
      case False
      then have "snd (mac_detach api i s) = s2" using go r by (cases q2) (simp_all add: mac_detach_def bindR_def a)
      then show ?thesis using s1 s2 mac_ok_trans by blast
    next
      case True
      define s3 where "s3 = s2\<lparr>mh_capture := CaptureHeld\<rparr>"
      have s3: "mac_ok s2 s3" by (simp add: mac_ok_def s3_def mac_wf_def share_def)
      obtain q4 s4 where o: "take_back api s3 = (q4, s4)" by fastforce
      have s4: "mac_ok s3 s4" "mh_claimed s4 = mh_claimed s" "mh_capture s4 = CaptureHeld"
        using take_back_run [where api = api and s = s3] o keep2 by (simp_all add: s3_def)
      have "snd (mac_detach api i s) = (case q4 of Val u \<Rightarrow> snd (reclaim_all api s4) | _ \<Rightarrow> s4)"
        using go r True o by (cases q4) (simp_all add: mac_detach_def bindR_def a s3_def [symmetric])
      moreover have "mac_ok s s4" using s1 s2 s3 s4(1) mac_ok_trans by blast
      moreover have "mac_ok s4 (snd (reclaim_all api s4))" using reclaim_all_fine [of s4 api] assms s4(2,3) by simp
      ultimately show ?thesis using mac_ok_trans by (cases q4) auto
    qed
  qed
qed

lemma attach_fine [fine]: "mac_fine (mac_attach api)"
  unfolding mac_fine_def
proof
  fix s :: mac_handle
  consider "mh_capture s = CaptureNone" | "mh_capture s \<noteq> CaptureNone" "mh_claimed s \<noteq> []" | "mh_capture s \<noteq> CaptureNone" "mh_claimed s = []"
    by blast
  then show "mac_ok s (snd (mac_attach api s))"
  proof cases
    case 3
    have "mac_ok s (s\<lparr>mh_capture := CaptureNone\<rparr>)" by (simp add: mac_ok_def mac_wf_def share_def)
    moreover have "snd (mac_attach api s) = snd (reenumerate api False (s\<lparr>mh_capture := CaptureNone\<rparr>))"
      using 3 by (simp add: mac_attach_def bindR_def)
    ultimately show ?thesis using mac_fineD [OF fine_reenumerate] mac_ok_trans by metis
  qed (simp_all add: mac_attach_def bindR_def mac_ok_def mac_wf_def share_def)
qed

lemma close_fine [fine]: "mac_fine (mac_close api)"
  unfolding mac_close_def by (intro fine fine_mod_st; simp)

lemma simple_fine [fine]: "mac_fine (mac_active_configuration api)" "mac_fine (mac_set_configuration api v)" "mac_fine (mac_reset api)"
    "mac_fine (mac_clear_halt api ep)" "mac_fine require_open"
  unfolding mac_active_configuration_def mac_set_configuration_def mac_reset_def mac_clear_halt_def require_open_def
  by (intro fine)+

text \<open>Requests leave what is held alone.\<close>

lemma settle_fine [fine]: "mac_fine (mac_settle key tid now kernel_timeout t target kr)"
  unfolding mac_settle_def by (intro fine fine_mod_st) (simp add: mac_issued_def)

lemma submit_fine [fine]: "mac_fine (mac_submit api sp key tid now t)"
proof -
  have c: "mac_fine (mac_submit_control api key tid now t)" unfolding mac_submit_control_def Let_def by (intro fine)
  have p: "mac_fine (mac_submit_pipe api key tid now t)" unfolding mac_submit_pipe_def Let_def by (intro fine)
  have i: "mac_fine (mac_submit_iso api sp key tid now t)" unfolding mac_submit_iso_def Let_def by (intro fine fine_mod_st) simp
  show ?thesis unfolding mac_submit_def using c p i by (cases "tr_kind t") (auto intro!: fine)
qed

lemma abort_fine [fine]: "mac_fine (mac_abort api target)"
  unfolding mac_abort_def by (intro fine)

lemma cancel_fine [fine]: "mac_fine (mac_cancel api tid)" "mac_fine (mac_cancel_all api)"
proof -
  show c: "mac_fine (mac_cancel api tid)" for tid unfolding mac_cancel_def by (intro fine fine_mod_st) simp
  show "mac_fine (mac_cancel_all api)" unfolding mac_cancel_all_def by (intro fine c)
qed

lemma expire_fine [fine]: "mac_fine (mac_expire api now)"
proof -
  have c: "mac_fine (mac_expire_one api now tid)" for tid unfolding mac_expire_one_def by (intro fine fine_mod_st) simp
  show ?thesis unfolding mac_expire_def by (intro fine c)
qed

lemma finish_fine [fine]: "mac_fine (mac_finish t key tid r)"
  unfolding mac_finish_def Let_def by (intro fine fine_mod_st; simp)

section \<open>Histories\<close>

text \<open>The part of a handle that is about requests.\<close>

definition req_view :: "mac_handle \<Rightarrow> (\<lparr>ms_pipe :: (nat \<times> u8) option\<rparr>, mac_result) books \<times> (u8 \<Rightarrow> nat option)" where
  "req_view s = (mh_books s, mh_next_frame s)"

lemma books_calls [keeping]: "keeps req_view (mac_invoke api c)" "keeps req_view (mac_do api c)" "keeps req_view (mac_try api c)"
  by (intro keeps_calls; simp add: req_view_def)+

lemma books_device [keeping]: "keeps req_view (reenumerate api b)" "keeps req_view (ensure_event_source api)" "keeps req_view (take_source api)"
    "keeps req_view (device_open_call api)" "keeps req_view (query_interface api p)"
  unfolding reenumerate_def ensure_event_source_def take_source_def device_open_call_def query_interface_def
  by (intro keeping; simp add: req_view_def)+

lemma books_open [keeping]: "keeps req_view (dev_open api)" "keeps req_view (dev_reopen api)"
  unfolding dev_open_def dev_reopen_def by (intro keeping; simp add: req_view_def)+

lemma books_find [keeping]: "keeps req_view (find_in api number services)"
proof (induction services)
  case (Cons x rest)
  then show ?case by (auto intro!: keeping)
qed (simp add: keeps_def)

lemma books_interface [keeping]: "keeps req_view (mac_find_interface api i)" "keeps req_view (drop_iface api ci)"
  unfolding mac_find_interface_def drop_iface_def by (intro keeping)+

lemma books_pipes [keeping]: "keeps req_view (read_pipes api obj rs)"
proof (induction rs)
  case (Cons r rs)
  then show ?case by (auto intro!: keeping)
qed (simp add: keeps_def)

lemma books_refresh [keeping]: "keeps req_view (refresh_pipes api ci)"
  unfolding refresh_pipes_def by (intro keeping)

lemma books_open_interface [keeping]: "keeps req_view (open_interface api i)"
  unfolding open_interface_def by (intro keeping)

lemma books_lists [keeping]: "keeps req_view (read_alts api cls)" "keeps req_view (refresh_all api cls)"
proof (induction cls)
  case (Cons p cls)
  case 1
  show ?case using Cons by (cases p) (auto intro!: keeping)
  case 2
  show ?case using Cons by (cases p) (auto intro!: keeping)
qed (simp_all add: keeps_def)

lemma books_reclaim [keeping]: "keeps req_view (reclaim api p)"
  unfolding reclaim_def by (intro keeping; simp add: req_view_def)

lemma books_abort [keeping]: "keeps req_view (mac_abort api target)"
  unfolding mac_abort_def by (intro keeping)

lemma books_claims:
  "keeps req_view (mac_claim api i)" "keeps req_view (mac_release api i)" "keeps req_view (mac_set_alt api i alt)"
  "keeps req_view (mac_clear_halt api ep)" "keeps req_view (mac_driver_active api i)" "keeps req_view (mac_attach api)"
  "keeps req_view (mac_close api)" "keeps req_view (mac_set_configuration api v)" "keeps req_view (mac_reset api)"
  "keeps req_view (mac_active_configuration api)"
  unfolding mac_claim_def mac_release_def mac_set_alt_def mac_clear_halt_def mac_driver_active_def mac_attach_def mac_close_def
    mac_set_configuration_def mac_reset_def mac_active_configuration_def require_open_def
  by (intro keeping; simp add: req_view_def)+

lemma books_reclaim_all [keeping]: "keeps req_view (reclaim_all api)"
  unfolding reclaim_all_def by (intro keeping; simp add: req_view_def)

lemma books_detach: "keeps req_view (mac_detach api i)"
  unfolding mac_detach_def take_back_def by (intro keeping books_claims; simp add: req_view_def)

text \<open>A submission is entered in the books or changes nothing in them.\<close>

definition entered :: "nat \<Rightarrow> nat \<Rightarrow> mac_handle \<Rightarrow> mac_handle \<Rightarrow> bool" where
  "entered key tid s s' \<longleftrightarrow> mh_books s' = mh_books s
     \<or> (\<exists>m. mh_books s' = bk_store tid (bk_record tid (bk_issue key tid m (mh_books s))))"

lemma settle_entered:
  "mh_books u = mh_books s \<Longrightarrow> entered key tid s (snd (mac_settle key tid now kernel_timeout t target kr u))"
  by (auto simp: mac_settle_def mac_issued_def entered_def)

lemma bindR_lift_opt: "bindR (lift_opt r) f s = (case r of None \<Rightarrow> (Panic, s) | Some x \<Rightarrow> f x s)"
  by (cases r) (simp_all add: bindR_def)

lemma submit_control_entered: "entered key tid s (snd (mac_submit_control api key tid now t s))"
proof -
  have "entered key tid s (snd (mac_submit_control api key tid now t s)) \<and> True"
    unfolding mac_submit_control_def bindR_lift_opt
    by (auto simp: bindR_def Let_def case_prod_beta entered_def [of key tid s s] intro!: settle_entered split: option.split)
  then show ?thesis ..
qed

lemma submit_pipe_entered: "entered key tid s (snd (mac_submit_pipe api key tid now t s))"
  by (auto simp: mac_submit_pipe_def bindR_def Let_def case_prod_beta entered_def [of key tid s s] intro!: settle_entered split: option.split)

lemma submit_iso_entered: "entered key tid s (snd (mac_submit_iso api sp key tid now t s))"
  by (auto simp: mac_submit_iso_def bindR_def Let_def case_prod_beta entered_def [of key tid s s] intro!: settle_entered split: option.split)

lemma submit_entered:
  "entered key tid s (snd (mac_submit api sp key tid now t s))
    \<and> (bk_sub (mh_books s) tid \<noteq> None \<longrightarrow> mh_books (snd (mac_submit api sp key tid now t s)) = mh_books s)"
  using submit_control_entered [of key tid s api now t] submit_pipe_entered [of key tid s api now t]
    submit_iso_entered [of key tid s api sp now t]
  by (cases "tr_kind t") (simp_all add: mac_submit_def bindR_def entered_def)

text \<open>Any operation of a handle, with any answers. A request is at the address of a block that is not in use, and a
  completion is one of a request the system owns.\<close>

inductive mac_op :: "mac_api \<Rightarrow> speed \<Rightarrow> (nat \<Rightarrow> 'c transfer) \<Rightarrow> mac_handle \<Rightarrow> mac_handle \<Rightarrow> bool" for api sp tr where
  submit: "key \<notin> fst ` set (bk_kernel (mh_books s)) \<Longrightarrow> tr_kind (tr tid) = tr_kind (t :: 'c transfer) \<Longrightarrow> tr_endpoint (tr tid) = tr_endpoint t \<Longrightarrow> mac_op api sp tr s (snd (mac_submit api sp key tid now t s))"
| finish: "(key, tid) \<in> set (bk_kernel (mh_books s)) \<Longrightarrow> tr_kind (tr tid) = tr_kind (t :: 'c transfer) \<Longrightarrow> tr_endpoint (tr tid) = tr_endpoint t \<Longrightarrow> mac_op api sp tr s (snd (mac_finish t key tid r s))"
| cancel: "mac_op api sp tr s (snd (mac_cancel api tid s))"
| cancel_all: "mac_op api sp tr s (snd (mac_cancel_all api s))"
| expire: "mac_op api sp tr s (snd (mac_expire api now s))"
| claim: "mac_op api sp tr s (snd (mac_claim api i s))"
| release: "mac_op api sp tr s (snd (mac_release api i s))"
| set_alt: "mac_op api sp tr s (snd (mac_set_alt api i alt s))"
| clear_halt: "mac_op api sp tr s (snd (mac_clear_halt api ep s))"
| driver_active: "mac_op api sp tr s (snd (mac_driver_active api i s))"
| detach: "mac_op api sp tr s (snd (mac_detach api i s))"
| attach: "mac_op api sp tr s (snd (mac_attach api s))"
| close: "mac_op api sp tr s (snd (mac_close api s))"
| set_configuration: "mac_op api sp tr s (snd (mac_set_configuration api v s))"
| reset: "mac_op api sp tr s (snd (mac_reset api s))"
| active_configuration: "mac_op api sp tr s (snd (mac_active_configuration api s))"

lemma mac_op_ok:
  assumes "mac_op api sp tr s s'" "mac_wf s"
  shows "mac_ok s s'"
  using assms(1)
  by cases (use assms(2) in \<open>auto simp: mac_wf_def intro: mac_fineD fine release_fine set_alt_fine detach_fine\<close>)

text \<open>The books.\<close>

lemma abort_run:
  obtains q s1 where "mac_abort api target s = (q, s1)" "mh_books s1 = mh_books s" "q \<noteq> Panic"
proof -
  obtain q s1 where r: "mac_abort api target s = (q, s1)" by fastforce
  have "mh_books s1 = mh_books s" using keepsD [OF books_abort r] by (simp add: req_view_def)
  moreover have "q \<noteq> Panic" using r by (auto simp: mac_abort_def bindR_def mac_try_run mac_check_def split: option.splits prod.splits if_splits)
  ultimately show ?thesis using that r by blast
qed

definition mac_books_inv :: "mac_handle \<Rightarrow> bool" where
  "mac_books_inv s \<longleftrightarrow> books_inv (mh_books s) \<and> books_idle (mh_books s)"

definition same_path :: "mac_handle \<Rightarrow> mac_handle \<Rightarrow> bool" where
  "same_path s s' \<longleftrightarrow> (books_idle (mh_books s) \<longrightarrow> book_reach True mac_status (mh_books s) (mh_books s') \<and> books_idle (mh_books s'))"

lemma same_path_refl [simp]: "same_path s s" by (simp add: same_path_def book_reach.refl)

lemma same_path_trans: "same_path a b \<Longrightarrow> same_path b c \<Longrightarrow> same_path a c"
  unfolding same_path_def using book_reach_trans by blast

lemma same_path_books: "mh_books s' = mh_books s \<Longrightarrow> same_path s s'"
  by (simp add: same_path_def book_reach.refl)

lemma cancel_same_path: "same_path s (snd (mac_cancel api tid s))"
proof (cases "bk_sub (mh_books s) tid")
  case None
  then show ?thesis by (simp add: mac_cancel_def bindR_def)
next
  case (Some m)
  obtain q s1 where a: "mac_abort api (ms_pipe m) s = (q, s1)" "mh_books s1 = mh_books s" by (rule abort_run)
  then show ?thesis
    using Some cancel_path(1) [of "mh_books s" True mac_status True tid] cancel_path(2) [of "mh_books s" True tid]
    by (cases q) (auto simp: mac_cancel_def bindR_def same_path_def book_reach.refl)
qed

lemma for_each_path:
  assumes "\<And>x s. same_path s (snd (f x s))"
  shows "same_path s (snd (for_each xs f s))"
proof (induction xs arbitrary: s)
  case (Cons x xs)
  obtain q t where f: "f x s = (q, t)" by fastforce
  have "same_path s t" using assms [of s x] f by simp
  then show ?case using Cons.IH [of t] same_path_trans f by (cases q) (auto simp: bindR_def)
qed simp

lemma ignore_path: "same_path s (snd (m s)) \<Longrightarrow> same_path s (snd (ignoreR m s))"
  by (cases "m s"; cases "fst (m s)") (auto simp: ignoreR_def matchR_def)

lemma expire_one_path: "same_path s (snd (mac_expire_one api now tid s))"
proof (cases "bk_sub (mh_books s) tid")
  case None
  then show ?thesis by (simp add: mac_expire_one_def bindR_def)
next
  case (Some m)
  obtain q s1 where a: "mac_abort api (ms_pipe m) s = (q, s1)" "mh_books s1 = mh_books s" "q \<noteq> Panic" by (rule abort_run)
  have "same_path s1 (s1\<lparr>mh_books := bk_expire_one now (\<lambda>_. b) tid (mh_books s1)\<rparr>)" for b
    unfolding same_path_def
  proof
    assume i: "books_idle (mh_books s1)"
    then have "book_step True mac_status (mh_books s1) (bk_expire_one now (\<lambda>_. b) tid (mh_books s1))"
      using book_step.expire [of "mh_books s1" tid True mac_status now "\<lambda>_. b"] by (simp add: books_idle_def)
    with i show "book_reach True mac_status (mh_books s1) (mh_books (s1\<lparr>mh_books := bk_expire_one now (\<lambda>_. b) tid (mh_books s1)\<rparr>))
        \<and> books_idle (mh_books (s1\<lparr>mh_books := bk_expire_one now (\<lambda>_. b) tid (mh_books s1)\<rparr>))"
      by (auto simp: bk_expire_one_def books_idle_def split: option.split intro: book_reach.intros)
  qed
  then have "same_path s (s1\<lparr>mh_books := bk_expire_one now (\<lambda>_. b) tid (mh_books s1)\<rparr>)" for b
    using same_path_books [OF a(2)] same_path_trans by blast
  then show ?thesis
    using Some a(1,3) by (cases q) (simp_all add: mac_expire_one_def bindR_def matchR_def)
qed

lemma mac_op_books:
  assumes "mac_op api sp tr s s'" "mac_books_inv s"
  shows "mac_books_inv s' \<and> book_reach True mac_status (mh_books s) (mh_books s')"
proof -
  have bi: "books_inv (mh_books s)" "books_idle (mh_books s)" using assms(2) by (simp_all add: mac_books_inv_def)
  have done_it: ?thesis if "book_reach True mac_status (mh_books s) (mh_books s')" "books_idle (mh_books s')"
    using that bi(1) book_reach_inv by (auto simp: mac_books_inv_def)
  have path: ?thesis if "same_path s s'" using that bi(2) done_it by (simp add: same_path_def)
  have kept: ?thesis if "mh_books s' = mh_books s" using path same_path_books that by blast
  from assms(1) show ?thesis
  proof cases
    case (submit key tid t now)
    have e: "entered key tid s s'" "bk_sub (mh_books s) tid \<noteq> None \<longrightarrow> mh_books s' = mh_books s"
      using submit_entered [of key tid s api sp now t] submit(1) by simp_all
    show ?thesis
    proof (cases "mh_books s' = mh_books s")
      case True
      then show ?thesis by (rule kept)
    next
      case False
      then obtain m where "mh_books s' = bk_store tid (bk_record tid (bk_issue key tid m (mh_books s)))" "bk_sub (mh_books s) tid = None"
        using e by (auto simp: entered_def)
      then show ?thesis using issue_path(1) [OF bi _ submit(2), of tid True mac_status m] issue_path(2) [OF bi _ submit(2), of tid m] done_it by simp
    qed
  next
    case (finish key tid t r)
    have "mh_books s' = bk_take mac_status (bk_reap key tid r (mh_books s))"
      unfolding finish(1) by (auto simp: mac_finish_def bindR_def Let_def split: option.split prod.split)
    then show ?thesis using packet_path(1) [OF bi finish(2), of True mac_status r] packet_path(2) [OF bi finish(2), of mac_status r] done_it by simp
  next
    case (cancel tid)
    then show ?thesis using path cancel_same_path by simp
  next
    case cancel_all
    then show ?thesis using path
      by (auto simp: mac_cancel_all_def bindR_def intro!: for_each_path ignore_path cancel_same_path)
  next
    case (expire now)
    then show ?thesis using path by (auto simp: mac_expire_def bindR_def intro!: for_each_path expire_one_path)
  qed (use kept books_claims books_detach in \<open>auto simp: keeps_def req_view_def\<close>)
qed

interpretation mac: request_backend mac_status mac_books_inv mh_books "mac_op api sp tr" for api sp tr
proof unfold_locales
  show "books_idle (mh_books s)" if "mac_books_inv s" for s using that by (simp add: mac_books_inv_def)
  show "mac_books_inv s' \<and> book_reach True mac_status (mh_books s) (mh_books s')"
    if "mac_books_inv s" "mac_op api sp tr s s'" for s s' using mac_op_books [OF that(2,1)] .
qed

end
