(* ===== verification/Mac_Fleet.thy ===== *)
theory Mac_Fleet
  imports Mac_Handle
begin

text \<open>
  The handles of one device on macOS together: they share the device object, with its counted open, and
  come and go in any order. The steps are whole operations of \<open>Mac_Handle\<close>; what the handles hold is
  read off the calls made. Also the schedule of isochronous frames, and what an abort names after its
  interface was released.
\<close>

section \<open>Dropping a handle\<close>

lemma mac_okD:
  assumes "mac_ok s s'"
  shows "holds B (md_source s) (mh_claimed s) (md_trace s) \<Longrightarrow> holds B (md_source s') (mh_claimed s') (md_trace s')" "mac_wf s \<Longrightarrow> mac_wf s'"
    "md_count s' + share s = md_count s + share s'"
    "md_count s = 0 \<longrightarrow> \<not> device_open (md_trace s) \<Longrightarrow> md_count s' = 0 \<longrightarrow> \<not> device_open (md_trace s')"
    "md_has_182 s' = md_has_182 s" "md_has_187 s' = md_has_187 s"
  using assms unfolding mac_ok_def by (blast, blast, blast, metis, metis, metis)

lemma mac_drop_run:
  assumes "holds B (md_source s) (mh_claimed s) (md_trace s)" "share s \<le> md_count s"
    "md_count s = 0 \<longrightarrow> \<not> device_open (md_trace s)"
  shows "fst (mac_drop api s) = Val () \<and> holds B (md_source (snd (mac_drop api s))) [] (md_trace (snd (mac_drop api s)))
    \<and> md_count (snd (mac_drop api s)) + share s = md_count s
    \<and> (md_count (snd (mac_drop api s)) = 0 \<longrightarrow> \<not> device_open (md_trace (snd (mac_drop api s))))
    \<and> md_has_182 (snd (mac_drop api s)) = md_has_182 s \<and> md_has_187 (snd (mac_drop api s)) = md_has_187 s"
proof -
  obtain t where t: "for_each (map snd (mh_claimed s)) (drop_iface api) (s\<lparr>mh_claimed := []\<rparr>) = (Val (), s\<lparr>mh_claimed := [], md_trace := t\<rparr>)"
    "device_open t = device_open (md_trace s)" "\<forall>B b. holds B b (mh_claimed s) (md_trace s) \<longrightarrow> holds B b [] t"
    using drops_run [of "mh_claimed s" api "s\<lparr>mh_claimed := []\<rparr>"] by auto
  have held: "holds B (md_source s) [] t" using t(3) assms(1) by blast
  define s1 where "s1 = s\<lparr>mh_claimed := [], md_trace := t\<rparr>"
  let ?m = "if mh_capture s1 \<noteq> CaptureNone then ignoreR (reenumerate api False) else ret ()"
  obtain q s2 where r: "?m s1 = (q, s2)" by fastforce
  have "mac_fine ?m" by (intro fine)
  then have "mac_ok s1 (snd (?m s1))" by (rule mac_fineD)
  then have ok: "mac_ok s1 s2" by (simp only: r snd_conv)
  have "keeps own_view ?m" by (intro keeping dev_keeps)
  then have own: "own_view s2 = own_view s1" using r by (rule keepsD)
  note D = mac_okD [OF ok]
  have s2: "mh_claimed s2 = []" "mh_is_open s2 = mh_is_open s" using own by (simp_all add: own_view_def s1_def)
  have h2: "holds B (md_source s2) [] (md_trace s2)" using D(1) [of B] held s2(1) by (simp add: s1_def)
  have c2: "md_count s2 = md_count s" using D(3) s2(2) by (simp add: s1_def share_def)
  have o2: "md_count s = 0 \<longrightarrow> \<not> device_open (md_trace s2)" using D(4) c2 t(2) assms(3) by (simp add: s1_def)
  have k2: "md_has_182 s2 = md_has_182 s" "md_has_187 s2 = md_has_187 s" using D(5,6) by (simp_all add: s1_def)
  have q: "q = Val ()" using r by (auto simp: ignoreR_def matchR_def reenumerate_def bindR_def split: if_splits prod.splits)
  have "mac_drop api s = (if mh_is_open s then bindR (dev_close api) (\<lambda>_. mod_st (\<lambda>s. s\<lparr>mh_is_open := False\<rparr>)) else ret ()) s2"
    using t(1) r q by (simp add: mac_drop_def bindR_def s1_def)
  then show ?thesis
    using s2(2) h2 c2 o2 k2 assms(2) by (auto simp: dev_close_def bindR_def share_def holds_def)
qed

section \<open>All handles of a device\<close>

definition mac_dev_new :: "bool \<Rightarrow> bool \<Rightarrow> mac_dev" where
  "mac_dev_new has_182 has_187 = \<lparr>md_has_182 = has_182, md_has_187 = has_187, md_count = 0, md_source = False, md_trace = []\<rparr>"

text \<open>A handle sees the device object as it is now.\<close>

definition with_dev :: "mac_dev \<Rightarrow> mac_handle \<Rightarrow> mac_handle" where
  "with_dev d h = h\<lparr>md_has_182 := md_has_182 d, md_has_187 := md_has_187 d, md_count := md_count d,
     md_source := md_source d, md_trace := md_trace d\<rparr>"

abbreviation dev_of :: "mac_handle \<Rightarrow> mac_dev" where "dev_of \<equiv> mac_dev.truncate"

text \<open>One step: a device is opened again, with success or not; a handle does something; a handle is dropped.
  \<open>leaky\<close> allows an opening that fails and has yet counted itself.\<close>

inductive fleet_step :: "bool \<Rightarrow> mac_api \<Rightarrow> speed \<Rightarrow> (nat \<Rightarrow> 'c transfer) \<Rightarrow> mac_dev \<times> mac_handle list \<Rightarrow> mac_dev \<times> mac_handle list \<Rightarrow> bool"
  for leaky api sp tr where
  opens: "mac_open api d = (Val b, d') \<Longrightarrow> fleet_step leaky api sp tr (d, hs) (d', hs @ [mac_handle_new b d'])"
| refused: "mac_open api d = (Fail e, d') \<Longrightarrow> leaky \<or> md_count d' = md_count d \<Longrightarrow> fleet_step leaky api sp tr (d, hs) (d', hs)"
| operates: "mac_op api sp tr (with_dev d h) h' \<Longrightarrow> fleet_step leaky api sp tr (d, as @ h # bs) (dev_of h', as @ h' # bs)"
| drops: "fleet_step leaky api sp tr (d, as @ h # bs) (dev_of (snd (mac_drop api (with_dev d h))), as @ bs)"

abbreviation fleet :: "bool \<Rightarrow> mac_api \<Rightarrow> speed \<Rightarrow> (nat \<Rightarrow> 'c transfer) \<Rightarrow> mac_dev \<times> mac_handle list \<Rightarrow> mac_dev \<times> mac_handle list \<Rightarrow> bool" where
  "fleet leaky api sp tr \<equiv> (fleet_step leaky api sp tr)\<^sup>*\<^sup>*"

definition fleet_inv :: "bool \<Rightarrow> mac_dev \<times> mac_handle list \<Rightarrow> bool" where
  "fleet_inv leaky f \<longleftrightarrow> (case f of (d, hs) \<Rightarrow>
     holds {#} (md_source d) (concat (map mh_claimed hs)) (md_trace d) \<and> (\<forall>h \<in> set hs. mac_wf h)
     \<and> sum_list (map share hs) \<le> md_count d \<and> (\<not> leaky \<longrightarrow> md_count d = sum_list (map share hs))
     \<and> (md_count d = 0 \<longrightarrow> \<not> device_open (md_trace d)))"

lemma with_dev_fields [simp]:
  "mh_claimed (with_dev d h) = mh_claimed h" "mh_capture (with_dev d h) = mh_capture h" "mh_is_open (with_dev d h) = mh_is_open h"
  "mh_books (with_dev d h) = mh_books h" "mh_next_frame (with_dev d h) = mh_next_frame h"
  "md_trace (with_dev d h) = md_trace d" "md_source (with_dev d h) = md_source d" "md_count (with_dev d h) = md_count d" "share (with_dev d h) = share h"
  "mac_wf (with_dev d h) = mac_wf h"
  by (simp_all add: with_dev_def share_def mac_wf_def)

lemma dev_of_fields [simp]: "md_count (dev_of h) = md_count h" "md_trace (dev_of h) = md_trace h" "md_source (dev_of h) = md_source h"
  by (simp_all add: mac_dev.truncate_def)

lemma handle_new_fields [simp]:
  "mh_claimed (mac_handle_new b d) = []" "share (mac_handle_new b d) = (if b then 1 else 0)" "mac_wf (mac_handle_new b d)"
  by (simp_all add: mac_handle_new_def share_def mac_wf_def mac_dev.extend_def)

text \<open>What one handle holds, seen on top of the others.\<close>

lemma holds_split: "holds {#} b (xs @ cls @ ys) t \<longleftrightarrow> holds (claims_held (xs @ ys)) b cls t"
  by (simp add: holds_def ac_simps)

lemma mac_open_run:
  assumes "mac_open api d = (q, d')"
  shows "(\<forall>B cls. holds B (md_source d) cls (md_trace d) \<longrightarrow> holds B (md_source d') cls (md_trace d')) \<and> q \<noteq> Panic
    \<and> (case q of Val b \<Rightarrow> md_count d' = md_count d + (if b then 1 else 0) \<and> (b \<or> device_open (md_trace d') = device_open (md_trace d))
        | _ \<Rightarrow> md_count d' = md_count d \<and> device_open (md_trace d') = device_open (md_trace d) \<or> md_count d' = md_count d + 1)"
proof -
  obtain p d1 where o: "dev_open api d = (p, d1)" by fastforce
  obtain q2 d2 where e: "ensure_event_source api d1 = (q2, d2)" by fastforce
  from dev_open_run [OF o] obtain t where t: "gains (md_trace d) {#} t" "p \<noteq> Panic"
    "case p of Val u \<Rightarrow> d1 = d\<lparr>md_count := md_count d + 1, md_trace := t\<rparr>
        | _ \<Rightarrow> d1 = d\<lparr>md_trace := t\<rparr> \<and> device_open t = device_open (md_trace d)" by blast
  obtain b u where u: "d2 = d1\<lparr>md_source := b, md_trace := u\<rparr>" "q2 \<noteq> Panic" "\<forall>B cls. holds B (md_source d1) cls (md_trace d1) \<longrightarrow> holds B b cls u" "device_open u = device_open (md_trace d1)"
    using ensure_source_run [of api d1] e by auto
  have g: "holds B (md_source d1) cls (md_trace d1)" if "holds B (md_source d) cls (md_trace d)" for B cls
    using holds_gains [OF that t(1)] t(3) by (cases p) simp_all
  show ?thesis
  proof (cases p)
    case (Val x)
    then show ?thesis using assms t u g by (cases q2) (auto simp: mac_open_def bindR_def matchR_def o e)
  next
    case (Fail er)
    then show ?thesis using assms t u g
      by (cases q2; cases "err_kind er = Access") (auto simp: mac_open_def bindR_def matchR_def o e)
  qed (use t in simp)
qed

lemma fleet_step_inv:
  assumes "fleet_step leaky api sp tr f f'" "fleet_inv leaky f"
  shows "fleet_inv leaky f'"
  using assms(1)
proof cases
  case (opens d b d' hs)
  from mac_open_run [OF opens(3)] show ?thesis
    using assms(2) by (auto simp: opens fleet_inv_def)
next
  case (refused d e d' hs)
  have l: "\<forall>B cls. holds B (md_source d) cls (md_trace d) \<longrightarrow> holds B (md_source d') cls (md_trace d')"
    and c: "md_count d' = md_count d \<and> device_open (md_trace d') = device_open (md_trace d) \<or> md_count d' = md_count d + 1"
    using mac_open_run [OF refused(3)] by simp_all
  have inv: "holds {#} (md_source d) (concat (map mh_claimed hs)) (md_trace d)" "\<forall>h \<in> set hs. mac_wf h"
    "sum_list (map share hs) \<le> md_count d" "\<not> leaky \<longrightarrow> md_count d = sum_list (map share hs)"
    "md_count d = 0 \<longrightarrow> \<not> device_open (md_trace d)"
    using assms(2) by (simp_all add: refused(1) fleet_inv_def)
  have h: "holds {#} (md_source d') (concat (map mh_claimed hs)) (md_trace d')" using inv(1) l by blast
  from c show ?thesis
  proof
    assume "md_count d' = md_count d \<and> device_open (md_trace d') = device_open (md_trace d)"
    then show ?thesis using inv h by (simp add: refused(2) fleet_inv_def)
  next
    assume "md_count d' = md_count d + 1"
    then show ?thesis using inv h refused(4) by (simp add: refused(2) fleet_inv_def)
  qed
next
  case (operates d h h' as bs)
  let ?xs = "concat (map mh_claimed as)" and ?ys = "concat (map mh_claimed bs)"
  let ?B = "claims_held (?xs @ ?ys)"
  have inv: "holds ?B (md_source d) (mh_claimed h) (md_trace d)" "\<forall>g \<in> set (as @ h # bs). mac_wf g"
    "sum_list (map share (as @ h # bs)) \<le> md_count d" "\<not> leaky \<longrightarrow> md_count d = sum_list (map share (as @ h # bs))"
    "md_count d = 0 \<longrightarrow> \<not> device_open (md_trace d)"
    using assms(2) holds_split [of "md_source d" ?xs "mh_claimed h" ?ys "md_trace d"] by (simp_all add: operates(1) fleet_inv_def)
  have "mac_ok (with_dev d h) h'" using mac_op_ok [OF operates(3)] inv(2) by simp
  note D = mac_okD [OF this, simplified]
  have "holds ?B (md_source h') (mh_claimed h') (md_trace h')" using D(1) inv(1) .
  moreover have "mac_wf h'" using D(2) inv(2) by simp
  moreover have "md_count h' + share h = md_count d + share h'" using D(3) .
  moreover have "md_count h' = 0 \<longrightarrow> \<not> device_open (md_trace h')" using D(4) inv(5) by blast
  ultimately show ?thesis
    using inv(2-4) holds_split [of "md_source h'" ?xs "mh_claimed h'" ?ys "md_trace h'"] by (auto simp: operates(2) fleet_inv_def)
next
  case (drops d as h bs)
  let ?xs = "concat (map mh_claimed as)" and ?ys = "concat (map mh_claimed bs)"
  let ?B = "claims_held (?xs @ ?ys)"
  have inv: "holds ?B (md_source d) (mh_claimed h) (md_trace d)" "\<forall>g \<in> set (as @ h # bs). mac_wf g"
    "sum_list (map share (as @ h # bs)) \<le> md_count d" "\<not> leaky \<longrightarrow> md_count d = sum_list (map share (as @ h # bs))"
    "md_count d = 0 \<longrightarrow> \<not> device_open (md_trace d)"
    using assms(2) holds_split [of "md_source d" ?xs "mh_claimed h" ?ys "md_trace d"] by (simp_all add: drops(1) fleet_inv_def)
  have r: "holds ?B (md_source (snd (mac_drop api (with_dev d h)))) [] (md_trace (snd (mac_drop api (with_dev d h)))) \<and> md_count (snd (mac_drop api (with_dev d h))) + share h = md_count d
    \<and> (md_count (snd (mac_drop api (with_dev d h))) = 0 \<longrightarrow> \<not> device_open (md_trace (snd (mac_drop api (with_dev d h)))))"
    using mac_drop_run [of ?B "with_dev d h" api] inv(1,3,5) by simp
  then show ?thesis
    using inv(2-4) holds_split [of "md_source (snd (mac_drop api (with_dev d h)))" ?xs "[]" ?ys "md_trace (snd (mac_drop api (with_dev d h)))"]
    by (auto simp: drops(2) fleet_inv_def)
qed

lemma fleet_reach_inv:
  assumes "fleet leaky api sp tr (mac_dev_new a b, []) f"
  shows "fleet_inv leaky f"
  using assms
proof induction
  case base
  show ?case by (simp add: fleet_inv_def mac_dev_new_def holds_def source_held_def)
next
  case (step f f')
  then show ?case using fleet_step_inv by blast
qed

text \<open>The last reference to the device object is dropped once no handle is left: everything has been given back,
  each thing once.\<close>

lemma dev_drop_run:
  assumes "fleet_inv leaky (d, [])"
  shows "mac_held (md_trace (snd (dev_drop api d))) = Some {#} \<and> \<not> device_open (md_trace (snd (dev_drop api d)))"
proof -
  obtain t where t: "holds {#} (md_source d) [] t" "md_count d = 0 \<longrightarrow> \<not> device_open t"
      "dev_drop api d = bindR (take_source api) (\<lambda>_. mac_do api DeviceRelease) (d\<lparr>md_trace := t\<rparr>)" "0 < md_count d \<longrightarrow> \<not> device_open t"
  proof (cases "0 < md_count d")
    case True
    let ?t = "(DeviceClose, ma_answer api (md_trace d) DeviceClose) # md_trace d"
    show ?thesis
      by (rule that [of ?t]) (use assms True in \<open>simp_all add: fleet_inv_def holds_def dev_drop_def bindR_def\<close>)
  next
    case False
    show ?thesis
      by (rule that [of "md_trace d"]) (use assms False in \<open>simp_all add: fleet_inv_def dev_drop_def bindR_def\<close>)
  qed
  obtain u where u: "take_source api (d\<lparr>md_trace := t\<rparr>) = (Val (), d\<lparr>md_source := False, md_trace := u\<rparr>)"
      "holds {#} False [] u" "device_open u = device_open t"
    using take_source_run [of api "d\<lparr>md_trace := t\<rparr>"] t(1) by auto
  then show ?thesis using t(2-4) by (auto simp: bindR_def holds_def source_held_def)
qed

text \<open>The leak: the event source cannot be made after the open was counted.\<close>

definition sourceless :: mac_api where
  "sourceless = \<lparr>ma_answer = (\<lambda>t c. (if c = MakeDeviceSource then 0xe00002bd else 0, 0)), ma_services = (\<lambda>_. []),
     ma_pipe = (\<lambda>_ _ _. (0, 0, 0)), ma_children = (\<lambda>_ _. [])\<rparr>"

lemma open_leaks:
  "\<exists>d. fleet True sourceless sp tr (mac_dev_new True True, []) (d, []) \<and> md_count d = 1 \<and> device_open (md_trace d)"
proof -
  let ?d = "snd (mac_open sourceless (mac_dev_new True True))"
  have o: "mac_open sourceless (mac_dev_new True True) = (Fail (io_error 0xe00002bd), ?d)" "md_count ?d = 1" "device_open (md_trace ?d)"
    by (simp_all add: mac_open_def dev_open_def device_open_call_def mac_try_run mac_dev_new_def bindR_def matchR_def
        sourceless_def mac_check_def ensure_event_source_def)
  have "fleet_step True sourceless sp tr (mac_dev_new True True, []) (?d, [])" by (rule fleet_step.refused [OF o(1)]) simp
  then show ?thesis using o(2,3) by blast
qed


text \<open>What the requests of every handle are worth.\<close>

lemma fleet_books:
  assumes "fleet leaky api sp tr (mac_dev_new a b, []) f"
  shows "\<forall>h \<in> set (snd f). mac_books_inv h"
  using assms
proof induction
  case base
  show ?case by simp
next
  case (step f f')
  from step(2) show ?case
  proof cases
    case (opens d b d' hs)
    then show ?thesis using step(3) books_new_inv by (simp add: mac_handle_new_def mac_books_inv_def mac_dev.extend_def books_idle_def books_new_def)
  next
    case (operates d h h' as bs)
    then show ?thesis using step(3) mac_op_books [OF operates(3)] by (simp add: mac_books_inv_def)
  qed (use step(3) in auto)
qed

lemma books_accounted:
  assumes "mac_books_inv h"
  shows "count_list (map fst (bk_log (mh_books h))) t \<le> count_list (bk_accepted (mh_books h)) t"
    and "bk_kernel (mh_books h) = [] \<Longrightarrow> bk_sub (mh_books h) t = None
      \<and> count_list (bk_accepted (mh_books h)) t = count_list (map fst (bk_log (mh_books h))) t"
  using assms never_twice [of "mh_books h" t] quiet_settled [of "mh_books h" t] by (auto simp: mac_books_inv_def quiet_def books_idle_def)

section \<open>Isochronous frames\<close>

definition later_frames :: "mac_handle \<Rightarrow> mac_handle \<Rightarrow> bool" where
  "later_frames s s' \<longleftrightarrow> (\<forall>ep n. mh_next_frame s ep = Some n \<longrightarrow> (\<exists>n'. mh_next_frame s' ep = Some n' \<and> n \<le> n'))"

lemma later_frames_trans: "later_frames a b \<Longrightarrow> later_frames b c \<Longrightarrow> later_frames a c"
  unfolding later_frames_def by (meson order_trans)

lemma later_frames_same: "mh_next_frame s' = mh_next_frame s \<Longrightarrow> later_frames s s'"
  by (simp add: later_frames_def)

lemma frames_abort [keeping]: "keeps mh_next_frame (mac_abort api target)"
  unfolding mac_abort_def by (intro keeping; simp)

lemma frames_settle [keeping]: "keeps mh_next_frame (mac_settle key tid now b t target kr)"
  unfolding mac_settle_def by (auto intro!: keeping simp: mac_issued_def)

lemma frames_cancel [keeping]: "keeps mh_next_frame (mac_cancel api tid)" "keeps mh_next_frame (mac_expire_one api now tid)"
  unfolding mac_cancel_def mac_expire_one_def by (intro keeping; simp)+

lemma frames_kept:
  "keeps mh_next_frame (mac_cancel_all api)" "keeps mh_next_frame (mac_expire api now)" "keeps mh_next_frame (mac_finish t key tid r)"
  "keeps mh_next_frame (mac_submit_control api key tid now t)" "keeps mh_next_frame (mac_submit_pipe api key tid now t)"
  unfolding mac_cancel_all_def mac_expire_def mac_finish_def mac_submit_control_def mac_submit_pipe_def Let_def
  by (intro keeping; simp)+

text \<open>An isochronous submission asks for the frame number and gives the packets their frames; the frames after
  them are what the endpoint uses next, whatever the call answers.\<close>

lemma iso_run:
  assumes "find_pipe (tr_endpoint t) s = Some (ci, p)"
  shows "\<exists>kr frame r. md_trace (snd (mac_submit_iso api sp key tid now t s)) =
        (IsochAsync (mi_obj ci) (pp_ref p) (tr_endpoint t AND 0x80 \<noteq> 0) (iso_start (mh_next_frame s (tr_endpoint t)) frame) (iso_requests t), r)
        # (BusFrame (mi_obj ci), kr, frame) # md_trace s
      \<and> mh_next_frame (snd (mac_submit_iso api sp key tid now t s)) = (mh_next_frame s)(tr_endpoint t \<mapsto>
        iso_next (iso_start (mh_next_frame s (tr_endpoint t)) frame) (length (tr_iso t)) (per_frame sp (pp_interval p)))"
  using assms by (cases "ma_answer api (md_trace s) (BusFrame (mi_obj ci))")
    (simp add: mac_submit_iso_def Let_def bindR_def mac_settle_def mac_issued_def case_prod_beta)

lemma iso_later: "later_frames s (snd (mac_submit_iso api sp key tid now t s))"
proof (cases "find_pipe (tr_endpoint t) s")
  case None
  then show ?thesis by (simp add: mac_submit_iso_def Let_def bindR_def later_frames_same)
next
  case (Some x)
  then obtain ci p where "find_pipe (tr_endpoint t) s = Some (ci, p)" by (cases x) simp
  from iso_run [OF this, of api sp key tid now] show ?thesis
    by (auto simp: later_frames_def iso_next_def iso_start_def)
qed

lemma frames_later:
  assumes "mac_op api sp tr s s'"
  shows "later_frames s s'"
  using assms
proof cases
  case (submit key tid t now)
  have "mac_submit api sp key tid now t s = (Fail (usb_err k), s)
      \<or> mac_submit api sp key tid now t s = mac_submit_iso api sp key tid now t s
      \<or> mh_next_frame (snd (mac_submit api sp key tid now t s)) = mh_next_frame s" for k
    using frames_kept(4,5) [of api key tid now t] by (cases "tr_kind t") (simp_all add: mac_submit_def bindR_def keeps_def)
  then show ?thesis using iso_later later_frames_same by (metis submit(1) snd_conv)
next
  case (finish key tid t r)
  then show ?thesis using frames_kept(3) [of t key tid r] by (simp add: keeps_def later_frames_same)
qed (use books_claims books_detach frames_kept(1,2) frames_cancel in \<open>auto simp: keeps_def req_view_def intro!: later_frames_same\<close>)

lemma frames_later_reach: "(mac_op api sp tr)\<^sup>*\<^sup>* s s' \<Longrightarrow> later_frames s s'"
  by (induction rule: rtranclp_induct) (auto intro: later_frames_same later_frames_trans frames_later)

lemma per_frame_bounds: "1 \<le> per_frame sp n" "per_frame sp n \<le> 8"
  unfolding per_frame_def by (auto intro: div_le_dividend)

text \<open>Enough frames for the packets.\<close>

lemma iso_next_covers: "packets \<le> (iso_next begins packets (per_frame sp n) - begins) * per_frame sp n"
  using div_ceil_mult_ge [of "per_frame sp n" packets] per_frame_bounds(1) [of sp n] by (simp add: iso_next_def)

section \<open>An abort after the release\<close>

text \<open>A request remembers the interface object of its pipe. Releasing the interface gives the object back and leaves
  the request out; cancelling it then names an object that is no longer held.\<close>

definition willing :: mac_api where
  "willing = \<lparr>ma_answer = (\<lambda>t c. (0, case c of NumEndpoints obj \<Rightarrow> 1 | _ \<Rightarrow> 7)), ma_services = (\<lambda>_. [3]),
     ma_pipe = (\<lambda>_ _ _. (1, 1, 1)), ma_children = (\<lambda>_ _. [])\<rparr>"

definition willing_claimed :: mac_handle where
  "willing_claimed = snd (mac_claim willing 7 (mac_handle_new True (snd (mac_open willing (mac_dev_new True True)))))"

definition willing_read :: "transfer_type \<Rightarrow> unit transfer" where
  "willing_read k = transfer_new k 0x81 [0, 0, 0, 0]"

lemma willing_claimed_fields [simp]:
  "mh_claimed willing_claimed = [(7, \<lparr>mi_obj = 7, mi_has_182 = True, mi_source = 7, mi_pipes = [\<lparr>pp_address = 0x81, pp_ref = 1, pp_interval = 1\<rparr>]\<rparr>)]"
  "mh_books willing_claimed = books_new" "\<not> mh_disconnected willing_claimed" "mh_next_frame willing_claimed = (\<lambda>_. None)"
  "mac_held (md_trace willing_claimed) = Some {#HeldSource 7, HeldOpen 7, HeldObject 7, HeldDeviceSource#}" "mh_capture willing_claimed = CaptureNone"
  by (simp_all add: willing_claimed_def mac_claim_def open_interface_def mac_find_interface_def mac_try_run bindR_def willing_def
      mac_check_def query_interface_def queried_def refresh_pipes_def mac_open_def matchR_def dev_open_def device_open_call_def
      ensure_event_source_def mac_dev_new_def mac_handle_new_def mac_dev.extend_def books_new_def)

lemma willing_answer [simp]: "ma_answer willing t c = (0, case c of NumEndpoints obj \<Rightarrow> 1 | _ \<Rightarrow> 7)"
  by (simp add: willing_def)

lemma willing_pipe:
  "find_pipe 0x81 willing_claimed = Some (\<lparr>mi_obj = 7, mi_has_182 = True, mi_source = 7,
     mi_pipes = [\<lparr>pp_address = 0x81, pp_ref = 1, pp_interval = 1\<rparr>]\<rparr>, \<lparr>pp_address = 0x81, pp_ref = 1, pp_interval = 1\<rparr>)"
  by (simp add: find_pipe_def List.map_filter_def pipe_of_def)

definition stale_read :: mac_handle where
  "stale_read = snd (mac_release willing 7 (snd (mac_submit willing SpeedHigh 5 0 0 (willing_read Bulk) willing_claimed)))"

lemma stale_abort:
  "md_trace (snd (mac_cancel willing 0 stale_read)) = (AbortPipe 7 1, 0, 7) # md_trace stale_read
     \<and> mac_held (md_trace stale_read) = Some {#HeldDeviceSource#} \<and> bk_kernel (mh_books stale_read) = [(5, 0)]"
  by (simp add: stale_read_def mac_release_def mac_submit_def mac_submit_pipe_def mac_cancel_def mac_abort_def bindR_def
      willing_read_def transfer_new_def willing_pipe mac_settle_def mac_issued_def books_new_def bk_issue_def bk_record_def
      bk_store_def drop_iface_def mac_try_run mac_check_def pending_insert_def)

end
