(* ===== verification/Spec2Isabelle.thy ===== *)
theory Spec2Isabelle
  imports Linux_System Usb_Hotplug Hid_Device Msc_Target Net_Flow Serial_Stream Uvc_Camera Win_Handle Mac_Fleet
begin

text \<open>
  A verification library for \<open>rawusb\<close>, a USB library in Rust that talks to the operating system
  directly. This root theory holds the properties of the library; the other theories model the crate,
  one component each, in the order in which the code builds on itself.

  \<^bold>\<open>The program.\<close> Enumeration gives snapshots of devices (\<open>device.rs\<close>, \<open>context.rs\<close>) whose
  descriptors are decoded from bytes the device chose (\<open>descriptors.rs\<close>). An open device
  (\<open>handle.rs\<close>) claims interfaces and runs transfers (\<open>transfer.rs\<close>) through a platform backend
  (\<open>sys\<close>); the Linux backend cuts a transfer into URBs and puts the kernel's reports
  together again, the Windows and macOS ones hand it over whole.
  A hotplug thread (\<open>hotplug.rs\<close>) compares enumerations and tells listeners. On top stand the class
  helpers (\<open>class.rs\<close> and the modules \<open>hid\<close>, \<open>msc\<close>, \<open>net\<close>, \<open>serial\<close>, \<open>uvc\<close>): each claims its
  interfaces, sets the device up and speaks the protocol of its class.

  \<^bold>\<open>Conventions.\<close> Bytes are \<open>8 word\<close> and the code's fixed-width integers are words of their width;
  \<open>usize\<close>, durations (in milliseconds, deadlines in nanoseconds) and 64-bit values that are only compared are \<open>nat\<close>, with the
  overflow checks of the code written out. Where the code can panic (an index or slice out of range, an
  overflowing sum, \<open>unwrap\<close>) a pure function returns an \<open>option\<close> whose \<open>None\<close> is the panic, and a
  stateful one the third constructor of \<open>out\<close> (\<open>Val\<close>, \<open>Fail\<close>, \<open>Panic\<close>). \<open>Result<T, Error>\<close> is a sum with
  \<open>usb_error\<close> (kind and operating-system code; messages are not carried). \<open>('s, 'a) io\<close> is a computation
  on a state \<open>'s\<close>; \<open>bindR\<close> is sequencing with \<open>?\<close>.

  \<^bold>\<open>Environment.\<close> A platform backend is a record \<open>'k sys\<close> of the operations listed in
  \<open>src/src/sys/mod.rs\<close> over an arbitrary world \<open>'k\<close>; the class helpers and the handle are proved for every
  such record. Where a lemma needs more, it is \<open>sys_ok\<close>: a completed transfer reports no more bytes than the
  buffer holds and gives a buffer of the same size back (a control transfer, whose buffer starts with the 8 setup bytes, counts
  those after them). Two concrete backends are given: \<open>Linux_System.linux_sys\<close>, the Linux backend over an arbitrary kernel,
  and \<open>Msc_Target.disk_sys\<close>, a disk.

  \<^bold>\<open>Theories.\<close>
  \<^item> \<open>Usb_Prelude\<close>: indexing, slicing, byte orders, chunking, shared by all.
  \<^item> \<open>Usb_Types\<close>, \<open>Usb_Io\<close>: errors and USB types (\<open>error.rs\<close>, \<open>types.rs\<close>), the locale \<open>fixed_codec\<close>
    for encodings of fixed size; the computations and what it means that one cannot panic.
  \<^item> \<open>Usb_Descriptors\<close>: \<open>descriptors.rs\<close>. The parser as a byte walker equals a fold over descriptors; it
    inverts the encoder of well-formed trees and cannot panic.
  \<^item> \<open>Usb_Device\<close>: \<open>device.rs\<close>, \<open>context.rs\<close>, the splitting of configuration blobs.
  \<^item> \<open>Usb_Transfer\<close>: \<open>transfer.rs\<close>. \<open>life_step\<close> interleaves API calls, submissions, completions and
    callbacks at the granularity of the lock; \<open>inner\<close> is the state with its mutex, whose guards keep it locked
    (\<open>run\<close>: a value, stuck, or a panic); \<open>rep_step\<close> is \<open>Repeating\<close> and its drop.
  \<^item> \<open>Usb_Handle\<close>, \<open>Usb_Class\<close>: \<open>handle.rs\<close>, \<open>class.rs\<close>. The locale \<open>class_helper\<close> is the contract between the
    claim and a helper (a set-up that leaves claims and leases alone), \<open>class_device\<close> extends it by the helper's claim; every helper interprets it.
    An opening that \<open>owns\<close> what it claimed gives the locale \<open>class_opener\<close>, whose lemmas are about opening a list.
  \<^item> \<open>Usb_Linux\<close>: \<open>sys/linux\<close>. \<open>lx_step\<close> interleaves submissions, cancellations, deadlines, reaped URBs
    and disconnection; \<open>lx_inv\<close> counts submissions, completions and URBs still out.
  \<^item> \<open>Linux_Usbfs\<close>, \<open>Linux_Events\<close>, \<open>Linux_System\<close>: the rest of \<open>sys/linux\<close>. The request numbers and structures of
    \<open>usbfs.rs\<close> for every width of pointer and both encodings (\<open>abi\<close>); a turn of the event thread, which acts on each handle
    by a path of \<open>lx_step\<close> (\<open>served\<close>) and keeps \<open>thread_inv\<close>; opening, the requests of a handle and the synchronous transfer over a
    kernel that may answer anything (\<open>linux_kernel\<close>), assembled into \<open>linux_sys\<close>. Asked of the kernel is
    \<open>kernel_honest\<close>: it reports no more bytes than a URB holds; and, only for what is listed to be claimed as well,
    \<open>kernel_guards_claims\<close>: usbfs is the driver of a claimed interface, and no configuration is set while one is claimed. A synchronous transfer whose URBs the kernel
    never gives back stays stuck (\<open>gives_back\<close>); \<open>granting_kernel\<close> is a kernel that keeps all of it.
  \<^item> \<open>Usb_Owned\<close>: the interfaces a handle lists against those the platform holds for it. The locale \<open>claiming_backend\<close> is
    a backend whose claims can be read off its world, with what a claim, a release, a reset, a new configuration and
    a detached driver do to them; the Linux backend interprets it. \<open>handle_op\<close> is any operation of a handle or class helper,
    and its lemmas give both directions: what is claimed is listed, what is listed is claimed.
  \<^item> \<open>Usb_Requests\<close>: the books the Windows and macOS backends keep of requests handed to the system, which complete
    one by one (\<open>sys/windows\<close>, \<open>sys/macos\<close>: \<open>submit\<close>, \<open>finish\<close>, \<open>cancel\<close>, \<open>expire\<close>, \<open>next_deadline\<close>). \<open>book_step\<close>
    interleaves submitters and the event thread lock by lock; its flag says whether a completion can overtake the entry
    in \<open>pending\<close>, as it can in the code. The locale \<open>request_backend\<close> is a backend whose whole operations are paths of these
    steps; both backends interpret it.
  \<^item> \<open>Win_Enum\<close>, \<open>Win_Handle\<close>: \<open>sys/windows\<close>. Enumeration over what the configuration manager, the registry and the hub
    driver answer (\<open>win_env\<close>); an open device, its claims and its requests over an arbitrary function from the calls
    made so far to their answers (\<open>win_api\<close>). \<open>win_step\<close> is one operation of a handle or completion packet;
    \<open>handles_inv\<close> and \<open>win_inv\<close> account for what is open, registered and out; \<open>closed_once\<close> and \<open>unregistered_once\<close>
    say that nothing is given back that is not open at that moment. The system hands out no handle that is open
    (\<open>fresh_handles\<close>); \<open>granting\<close> is one such system.
  \<^item> \<open>Mac_Device\<close>, \<open>Mac_Handle\<close>, \<open>Mac_Fleet\<close>: \<open>sys/macos\<close>. Enumeration over what IOKit answers (\<open>mac_env\<close>); the device object
    the handles of a device share, with its counted open; a handle, its claims, captures and requests over an arbitrary function
    from the calls made so far to their answers (\<open>mac_api\<close>). \<open>mac_held\<close> reads off the calls what is held (objects, their
    openings, event sources of interfaces and of the device, services, iterators, plug-ins), and is \<open>None\<close> once something is
    given back that is not held; \<open>mac_ok\<close> says what every operation keeps of it, and \<open>fleet_step\<close> lets handles come, act and go in any order.
    \<open>frames_later\<close> is the schedule of isochronous frames; \<open>willing\<close> is a system that grants everything.
  \<^item> \<open>Usb_Hotplug\<close>: \<open>hotplug.rs\<close>. \<open>hp_step\<close> interleaves plugging, notifications, the dispatch thread,
    registration and removal; \<open>hp_inv\<close> relates the events given to a listener to what is attached.
  \<^item> \<open>Hid_Report\<close>, \<open>Hid_Device\<close>: \<open>hid\<close>. The report parser with its layout invariant; field values against
    the report read as one number.
  \<^item> \<open>Msc_Scsi\<close>, \<open>Msc_Storage\<close>, \<open>Msc_Block\<close>, \<open>Msc_Target\<close>: \<open>msc\<close>. The transport and commands; the
    locale \<open>block_store\<close> is what a byte stream needs of its blocks; \<open>Msc_Target\<close> interprets it on the code's
    block operations over a disk that speaks the protocol.
  \<^item> \<open>Net_Cdc\<close>, \<open>Net_Rndis\<close>, \<open>Net_Device\<close>, \<open>Net_Flow\<close>: \<open>net\<close>. Functional descriptors and NCM blocks; the
    RNDIS control channel and packets; opening, filters, sending and receiving; \<open>net_step\<close> interleaves
    senders, completions, receive callbacks and readers, and \<open>tally\<close> counts the frames on their way.
  \<^item> \<open>Serial_Ftdi\<close>, \<open>Serial_Port\<close>, \<open>Serial_Stream\<close>: \<open>serial\<close>. Chips and divisors against the reading of the
    data sheet; detection, opening and the operations of a port; the port as a byte stream, the end of a
    read, and two calls of \<open>set_lines\<close> that overlap.
  \<^item> \<open>Uvc_Descriptors\<close>, \<open>Uvc_Stream\<close>, \<open>Uvc_Camera\<close>: \<open>uvc\<close>. Formats and controls with an encoder that the
    parser inverts; the assembler of frames and \<open>pump_step\<close>, completions, the reader and the stop in any
    order, with the history of what the transfers brought (\<open>fed\<close>); the completion callback under the lock of its transfer
    (\<open>on_complete\<close>); opening, controls, negotiation, the choice of an alternate setting, starting and dropping.

  \<^bold>\<open>Fuel and loops.\<close> Walkers over bytes recurse on the bytes left, with their termination proved.
  \<open>command_loop\<close> counts the three retries of the code, \<open>wait_ready\<close> its ten attempts. \<open>loop_run 5\<close> is
  one turn of the hotplug thread: wait, settle, scan, dispatch, check. A serial read takes the clock readings of
  its turns as a list, and \<open>None\<close> is a read still waiting when they end; with a deadline among them it has
  returned. Waits on a channel (\<open>net_recv\<close>, \<open>pump_next\<close>) take what other threads do before each wake-up, and the
  end of that list is the timeout.

  \<^bold>\<open>Not modelled.\<close> The foreign-function declarations of all three systems; on Windows, the
  loops that fetch buffers from the configuration manager and the registry and the registration for device
  notifications; on macOS, the run loop and its thread, the registration for matching notifications and the reading of
  strings and services from the registry; on Linux, creating the netlink socket and the
  wake-up pipe; the texts of errors and \<open>Debug\<close>
  output; real time beyond deadlines and timeouts as numbers; examples and hardware tests.
\<close>

text \<open>
  C1: The parser of configuration descriptor trees inverts their wire encoding: for every well-formed tree (interfaces grouped by number with their alternate settings, endpoints with SuperSpeed companions, class-specific descriptors kept in the extra bytes of the innermost open descriptor), the parser applied to its encoding, whatever follows it, returns that very tree.
\<close>

theorem config_parse_roundtrip:
  assumes "wf_config c"
  shows "config_from_bytes (config_bytes c @ junk) = Some (Ok c)"
  using assms by (rule config_from_config_bytes)

definition sample_endpoint :: endpoint_descriptor where
  "sample_endpoint = \<lparr>ep_address = 0x81, ep_attributes = 2, ep_max_packet = 512, ep_interval = 0,
     ep_refresh = 0, ep_synch_address = 0,
     ep_ss_companion = Some \<lparr>ssc_max_burst = 3, ssc_attributes = 0, ssc_bytes_per_interval = 0\<rparr>,
     ep_extra = [6, 0x30, 3, 0, 0, 0]\<rparr>"

definition sample_interface :: "u8 \<Rightarrow> interface_descriptor" where
  "sample_interface alt = \<lparr>if_number = 0, if_alternate_setting = alt, if_num_endpoints = 1, if_class = 8,
     if_sub_class = 6, if_protocol = 80, if_string_index = 0, if_endpoints = [sample_endpoint],
     if_extra = [3, 0x24, 7]\<rparr>"

definition sample_config :: config_descriptor where
  "sample_config = \<lparr>cfg_total_length = 63, cfg_num_interfaces = 1, cfg_value = 1, cfg_string_index = 0,
     cfg_attributes = 0x80, cfg_max_power = 50,
     cfg_interfaces = [\<lparr>ig_number = 0, ig_alt_settings = [sample_interface 0, sample_interface 1]\<rparr>],
     cfg_extra = [],
     cfg_raw = [9, 2, 63, 0, 1, 1, 0, 0x80, 50,
       9, 4, 0, 0, 1, 8, 6, 80, 0, 3, 0x24, 7, 9, 5, 0x81, 2, 0, 2, 0, 0, 0, 6, 0x30, 3, 0, 0, 0,
       9, 4, 0, 1, 1, 8, 6, 80, 0, 3, 0x24, 7, 9, 5, 0x81, 2, 0, 2, 0, 0, 0, 6, 0x30, 3, 0, 0, 0]\<rparr>"

lemma sample_config_wf: "wf_config sample_config"
  by code_simp

theorem config_parse_roundtrip_witness:
  "wf_config sample_config \<and> config_from_bytes (config_bytes sample_config @ [7]) = Some (Ok sample_config)"
  using config_parse_roundtrip [OF sample_config_wf, of "[7]"] sample_config_wf by simp

text \<open>
  C2: Parsing a configuration descriptor never panics, whatever bytes a device sends, and every tree it returns is well grouped: interface numbers are distinct, no interface lacks an alternate setting (so taking the first one cannot panic), and every alternate setting carries its interface's number. Splitting a blob into configurations never panics either and loses nothing: the pieces are its consecutive prefix and each starts with a configuration descriptor; and a blob of complete configurations is split into exactly those.
\<close>

theorem config_parse_total:
  assumes "\<forall>c \<in> set cs. whole_config c"
  shows "config_from_bytes data \<noteq> None \<and>
     (config_from_bytes data = Some (Ok c) \<longrightarrow> distinct (map ig_number (cfg_interfaces c)) \<and>
        (\<forall>g \<in> set (cfg_interfaces c).
           ig_first g \<noteq> None \<and> (\<forall>a \<in> set (ig_alt_settings g). if_number a = ig_number g)))
   \<and> split_config_descriptors (concat cs) = Some cs
   \<and> (\<exists>ps tail. split_config_descriptors data = Some ps \<and> data = concat ps @ tail \<and> (\<forall>c \<in> set ps. 9 \<le> length c \<and> c ! 1 = DT_CONFIG))"
proof -
  have "config_from_bytes data = Some (Ok c) \<longrightarrow> distinct (map ig_number (cfg_interfaces c)) \<and>
        (\<forall>g \<in> set (cfg_interfaces c).
           ig_first g \<noteq> None \<and> (\<forall>a \<in> set (ig_alt_settings g). if_number a = ig_number g))"
    using config_from_bytes_wf [of data c] by (auto simp: wf_groups_def ig_first_def)
  then show ?thesis
    using config_from_bytes_total [of data] split_config_concat [OF assms] split_config_total [of data] split_config_chunks [of data] by metis
qed

theorem config_parse_total_witness:
  "config_from_bytes (config_bytes sample_config) = Some (Ok sample_config) \<and>
     map ig_number (cfg_interfaces sample_config) = [0] \<and> distinct (map ig_number (cfg_interfaces sample_config))
   \<and> split_config_descriptors (concat [config_bytes sample_config, config_bytes sample_config])
     = Some [config_bytes sample_config, config_bytes sample_config]"
proof -
  have "\<forall>c \<in> set [config_bytes sample_config, config_bytes sample_config]. whole_config c"
    using config_bytes_whole [OF sample_config_wf] by simp
  from config_parse_total [OF this, of "config_bytes sample_config" sample_config] show ?thesis
    using config_from_config_bytes [OF sample_config_wf, of "[]"] by (simp add: sample_config_def)
qed

text \<open>
  C3: On the Linux backend every accepted submission is completed exactly once, with the bytes its URBs moved. In every state reachable by submissions, cancellations, deadlines, reaped URBs and a disconnection, in any order, the submissions of a transfer that were accepted are as many as the completions it was given, plus one while it is still the backend's; once no URB is pending nothing is left over. Accounting for a reaped URB never indexes out of range: a report the kernel may make about any URB, of any transfer, is accounted for without a panic. A submission starts with a count of 0; the report of a pending URB adds exactly the bytes it names; the report of the transfer's last pending URB, and no other, completes it, with the count so reached; a disconnection completes it with the count reached so far. Neither ever exceeds what the URBs asked for. The kernel's part is to report each URB it owns with the packet descriptors it was given and no more data than asked for.
\<close>

theorem linux_exactly_once:
  assumes "lx_reach m"
  shows "count_list (lx_accepted m) tid =
      count_list (map fst (lx_log m)) tid + (case lx_subs m tid of None \<Rightarrow> 0 | Some _ \<Rightarrow> 1)
    \<and> (lx_pending m = [] \<longrightarrow> lx_subs m tid = None)
    \<and> ((\<forall>k sub. lx_subs m tid = Some (k, sub) \<longrightarrow> report_ok k (sb_urbs sub ! i) r) \<longrightarrow>
        (\<exists>m'. lx_reap tid i r m = Some m' \<and>
          (\<forall>t k sub. lx_subs m' t = Some (k, sub) \<longrightarrow> sb_actual sub \<le> sum_list (map urb_length (sb_urbs sub)))))
    \<and> (lx_submit caps now refuses tid t m = (Ok (), m1) \<and> (tr_kind t = Isochronous \<longrightarrow> tr_iso t \<noteq> []) \<longrightarrow>
        (\<exists>sub. lx_subs m1 tid = Some (tr_kind t, sub) \<and> sb_actual sub = 0 \<and> lx_log m1 = lx_log m))
    \<and> (\<forall>k sub. lx_subs m tid = Some (k, sub) \<and> (tid, i) \<in> set (lx_pending m) \<and> report_ok k (sb_urbs sub ! i) r \<longrightarrow>
        (\<exists>m' sub'. lx_reap tid i r m = Some m' \<and> sb_urbs sub' = sb_urbs sub
          \<and> sb_actual sub' = sb_actual sub + reported k r \<and> sb_actual sub' \<le> sum_list (map urb_length (sb_urbs sub))
          \<and> (if pending_of tid m = [i]
             then lx_subs m' tid = None \<and> lx_log m' = (tid, final_status sub', sb_actual sub', iso_report k sub') # lx_log m
             else lx_subs m' tid = Some (k, sub') \<and> lx_log m' = lx_log m)))
    \<and> (\<forall>k sub. lx_subs m tid = Some (k, sub) \<longrightarrow>
        (tid, StNoDevice, sb_actual sub, iso_report k sub) \<in> set (lx_log (lx_disconnect m))
          \<and> sb_actual sub \<le> sum_list (map urb_length (sb_urbs sub)))"
proof (intro conjI impI allI)
  note inv = lx_reach_inv [OF assms]
  show "count_list (lx_accepted m) tid =
      count_list (map fst (lx_log m)) tid + (case lx_subs m tid of None \<Rightarrow> 0 | Some _ \<Rightarrow> 1)"
    using lx_inv_count [OF inv] by (auto simp: Usb_Linux.live_def)
  show "lx_subs m tid = None" if "lx_pending m = []" using lx_inv_drained [OF inv] that by (auto simp: Usb_Linux.live_def)
  show "\<exists>m'. lx_reap tid i r m = Some m' \<and>
      (\<forall>t k sub. lx_subs m' t = Some (k, sub) \<longrightarrow> sb_actual sub \<le> sum_list (map urb_length (sb_urbs sub)))"
    if ok: "\<forall>k sub. lx_subs m tid = Some (k, sub) \<longrightarrow> report_ok k (sb_urbs sub ! i) r"
  proof -
    obtain m' where "lx_reap tid i r m = Some m'" "lx_inv m'" using lx_reap_ok [OF inv, of tid i r] ok by blast
    moreover from this(2) have "\<forall>t k sub. lx_subs m' t = Some (k, sub) \<longrightarrow> sb_actual sub \<le> sum_list (map urb_length (sb_urbs sub))"
      unfolding lx_inv_def sub_inv_def by (meson add_leD1)
    ultimately show ?thesis by blast
  qed
  show "\<exists>sub. lx_subs m1 tid = Some (tr_kind t, sub) \<and> sb_actual sub = 0 \<and> lx_log m1 = lx_log m"
    if "lx_submit caps now refuses tid t m = (Ok (), m1) \<and> (tr_kind t = Isochronous \<longrightarrow> tr_iso t \<noteq> [])"
    using lx_submit_fresh [of caps now refuses tid t m m1] that by blast
  fix k sub
  show "\<exists>m' sub'. lx_reap tid i r m = Some m' \<and> sb_urbs sub' = sb_urbs sub
          \<and> sb_actual sub' = sb_actual sub + reported k r \<and> sb_actual sub' \<le> sum_list (map urb_length (sb_urbs sub))
          \<and> (if pending_of tid m = [i]
             then lx_subs m' tid = None \<and> lx_log m' = (tid, final_status sub', sb_actual sub', iso_report k sub') # lx_log m
             else lx_subs m' tid = Some (k, sub') \<and> lx_log m' = lx_log m)"
    if "lx_subs m tid = Some (k, sub) \<and> (tid, i) \<in> set (lx_pending m) \<and> report_ok k (sb_urbs sub ! i) r"
    using lx_reap_credit [OF inv, of tid i k sub r] that by metis
  show "(tid, StNoDevice, sb_actual sub, iso_report k sub) \<in> set (lx_log (lx_disconnect m))"
    "sb_actual sub \<le> sum_list (map urb_length (sb_urbs sub))" if "lx_subs m tid = Some (k, sub)"
    using lx_disconnect_log [OF inv that] by blast+
qed

definition sample_bulk :: "unit transfer" where
  "sample_bulk = transfer_new Bulk 0x81 [0, 0, 0]"

definition sample_submitted :: lx where
  "sample_submitted = snd (lx_submit 0 0 (\<lambda>_. None) 7 sample_bulk lx_init)"

definition sample_report :: urb_report where
  "sample_report = \<lparr>ur_status = 0, ur_actual = 3, ur_iso = []\<rparr>"

lemma sample_submitted_eq: "lx_submit 0 0 (\<lambda>_. None) 7 sample_bulk lx_init = (Ok (), sample_submitted)"
  unfolding sample_submitted_def by (simp add: lx_submit_def lx_init_def sample_bulk_def build_def build_urbs_def Let_def
    transfer_new_def bulk_chunk_def bulk_count_def div_ceil_def submit_urbs_def)

lemma sample_submitted_state:
  "lx_pending sample_submitted = [(7, 0)]" "lx_accepted sample_submitted = [7]" "lx_log sample_submitted = []"
  "\<exists>sub. lx_subs sample_submitted 7 = Some (Bulk, sub) \<and> map urb_length (sb_urbs sub) = [3] \<and> sb_actual sub = 0"
  unfolding sample_submitted_def by (simp_all add: lx_submit_def lx_init_def sample_bulk_def build_def build_urbs_def Let_def
    transfer_new_def bulk_chunk_def bulk_count_def div_ceil_def bulk_urb_def submit_urbs_def)

lemma sample_reach: "lx_reach sample_submitted"
  by (rule lx_reach.step [OF lx_reach.start], rule lx_step.submit [OF _ sample_submitted_eq])
    (simp add: sample_bulk_def transfer_new_def)

theorem linux_exactly_once_witness:
  "lx_reach sample_submitted \<and> count_list (lx_accepted sample_submitted) 7 = 1
     \<and> count_list (map fst (lx_log sample_submitted)) 7 = 0 \<and> lx_subs sample_submitted 7 \<noteq> None
     \<and> (\<exists>m' st p. lx_reap 7 0 sample_report sample_submitted = Some m' \<and> lx_log m' = [(7, st, 3, p)])"
proof -
  obtain sub where s: "lx_subs sample_submitted 7 = Some (Bulk, sub)" "map urb_length (sb_urbs sub) = [3]" "sb_actual sub = 0"
    using sample_submitted_state(4) by (elim exE conjE) (rule that)
  have "report_ok Bulk (sb_urbs sub ! 0) sample_report" using s(2) by (cases "sb_urbs sub") (auto simp: report_ok_def sample_report_def)
  then have reaped: "report_ok Bulk (sb_urbs sub ! 0) sample_report" "pending_of 7 sample_submitted = [0]" "(7, 0) \<in> set (lx_pending sample_submitted)"
    "reported Bulk sample_report = 3"
    by (simp_all add: pending_of_def sample_submitted_state reported_def sample_report_def)
  note all = linux_exactly_once [OF sample_reach, where i = 0 and r = sample_report and tid = 7]
  have "count_list (lx_accepted sample_submitted) 7 =
      count_list (map fst (lx_log sample_submitted)) 7 + (case lx_subs sample_submitted 7 of None \<Rightarrow> 0 | Some _ \<Rightarrow> 1)"
    by (rule conjunct1 [OF all])
  moreover have "\<exists>m' sub'. lx_reap 7 0 sample_report sample_submitted = Some m' \<and> sb_actual sub' = sb_actual sub + reported Bulk sample_report
      \<and> lx_log m' = [(7, final_status sub', sb_actual sub', iso_report Bulk sub')]"
  proof -
    have "lx_subs sample_submitted 7 = Some (Bulk, sub) \<and> (7, 0) \<in> set (lx_pending sample_submitted) \<and> report_ok Bulk (sb_urbs sub ! 0) sample_report"
      using s(1) reaped by blast
    with all obtain m' sub' where "lx_reap 7 0 sample_report sample_submitted = Some m'" "sb_actual sub' = sb_actual sub + reported Bulk sample_report"
      "if pending_of 7 sample_submitted = [0]
       then lx_subs m' 7 = None \<and> lx_log m' = (7, final_status sub', sb_actual sub', iso_report Bulk sub') # lx_log sample_submitted
       else lx_subs m' 7 = Some (Bulk, sub') \<and> lx_log m' = lx_log sample_submitted" by meson
    then show ?thesis using reaped(2) sample_submitted_state(3) by auto
  qed
  ultimately show ?thesis using reaped(4) s sample_reach sample_submitted_state(1-3) by auto
qed

text \<open>
  C4: The URBs a transfer is cut into lie end to end and cover exactly its buffer (for an isochronous transfer, the lengths of its packets); an isochronous URB has at most 128 packets, and a bulk URB at most 16 KiB when the kernel has no limitless bulk transfers.
\<close>

theorem urbs_cover_buffer:
  assumes "build_urbs caps t = Ok us"
  shows "laid_out 0 us (if tr_kind t = Isochronous then iso_total t else length (tr_buffer t)) \<and>
    (\<forall>u \<in> set us. urb_endpoint u = tr_endpoint t \<and> length (urb_packets u) \<le> 128 \<and>
       (tr_kind t = Bulk \<and> caps AND 0x08 = 0 \<longrightarrow> urb_length u \<le> 16384))"
  using build_urbs_cover [OF assms] build_urbs_limits [OF assms] by blast

lemma sample_urbs:
  "map_sum id (map (\<lambda>u. (urb_offset u, urb_length u))) (build_urbs 0x02 (transfer_new Bulk 0x02 (replicate 40000 0) :: unit transfer))
     = Ok [(0, 16384), (16384, 16384), (32768, 7232)]"
  by (simp add: build_urbs_def Let_def transfer_new_def bulk_chunk_def bulk_count_def div_ceil_def bulk_urb_def upt_rec)

theorem urbs_cover_buffer_witness:
  "\<exists>us. build_urbs 0x02 (transfer_new Bulk 0x02 (replicate 40000 0) :: unit transfer) = Ok us \<and> length us = 3 \<and> laid_out 0 us 40000"
proof -
  obtain us where us: "build_urbs 0x02 (transfer_new Bulk 0x02 (replicate 40000 0) :: unit transfer) = Ok us"
    "map (\<lambda>u. (urb_offset u, urb_length u)) us = [(0, 16384), (16384, 16384), (32768, 7232)]"
    using sample_urbs by (cases "build_urbs 0x02 (transfer_new Bulk 0x02 (replicate 40000 0) :: unit transfer)") auto
  have "length us = 3" using arg_cong [OF us(2), of length] by simp
  with us(1) urbs_cover_buffer [OF us(1)] show ?thesis by (auto simp: transfer_new_def)
qed

text \<open>
  C5: The Linux backend is a platform the rest of the library may rest on, for every kernel that reports no more bytes than it moved, whatever else it answers. A synchronous transfer fails when its submission does; an accepted one comes back with a buffer of the same size and a count that fits it, so nothing above it panics, or waits still, which happens only as long as the kernel has neither given every URB of it back nor reported the device gone. After any operations on a handle (claims and releases, those of the class helpers, resets, new configurations, detaching and attaching of drivers, alternate settings and transfers), everything claimed in the kernel is listed by the handle, and dropping the handle gives all of it back, when releases are not refused; and every interface the handle lists is claimed in the kernel, when no reset failed, no driver was detached from a listed interface, and the kernel guards claimed interfaces as it is documented to.
\<close>

theorem linux_backend:
  assumes "kernel_honest K" "linux_open file caps = Ok w" "(handle_op False (linux_sys K))\<^sup>*\<^sup>* (handle_new w) h"
    and "kind \<noteq> Isochronous" "kind = Control \<longrightarrow> 8 \<le> length buf"
    and "lx_submit (lw_caps w') (lk_now K (lw_trace w')) (lk_refuses K (lw_trace w')) 0
            ((transfer_new kind ep buf :: unit transfer)\<lparr>tr_timeout := tmo\<rparr>) (lx_fresh (lw_gone w')) = (r, m)"
  shows "sys_ok (linux_sys K)
    \<and> (case linux_transfer K kind ep buf tmo w' of
        (Inl e, _) \<Rightarrow> r = Inl e \<or> r = Ok () \<and> linux_wait K (lw_trace w') m = Stuck
          \<and> (\<exists>sub. lx_subs m 0 = Some (kind, sub) \<and> \<not> gives_back (length (sb_urbs sub)) (lk_passes K (lw_trace w')))
      | (Inr (st, n, buf'), _) \<Rightarrow> r = Ok () \<and> length buf' = length buf \<and> n + (if kind = Control then 8 else 0) \<le> length buf)
    \<and> (releases_succeed (linux_sys K) \<longrightarrow> linux_claims (lw_trace (h_world h)) \<subseteq> set (h_claimed h)
        \<and> linux_claims (lw_trace (handle_drop (linux_sys K) h)) = {})
    \<and> (kernel_guards_claims K \<and> (handle_op True (linux_sys K))\<^sup>*\<^sup>* (handle_new w) h \<longrightarrow>
        set (h_claimed h) \<subseteq> linux_claims (lw_trace (h_world h)))"
proof -
  have start: "tied listed linux_owned (handle_new w)" for listed
    using assms(2) by (auto simp: linux_open_def tied_def handle_new_def Let_def split: sum.splits prod.splits)
  have one: "tied True linux_owned h" if "releases_succeed (linux_sys K)"
    using linux.history_tied [OF assms(3) _ _ start] that by (simp add: promises_def)
  have two: "tied False linux_owned h" if "kernel_guards_claims K" "(handle_op True (linux_sys K))\<^sup>*\<^sup>* (handle_new w) h"
    using linux.history_tied [OF that(2) _ _ start] linux_guarded [OF that(1)] by (simp add: promises_def)
  have drop: "linux_claims (lw_trace (handle_drop (linux_sys K) h)) = {}" if "releases_succeed (linux_sys K)"
    using linux.drop_releases [OF one [OF that] that] .
  show ?thesis
    using linux_sys_ok [OF assms(1)] linux_transfer_returns [OF assms(1,4-6), unfolded fits_def] drop one two
    unfolding tied_def by blast
qed

definition linux_start :: linux_world where
  "linux_start = \<lparr>lw_caps = 0, lw_gone = False, lw_trace = []\<rparr>"

definition linux_claimed :: "linux_world handle" where
  "linux_claimed = snd (claim_interface (linux_sys granting_kernel) 3 (handle_new linux_start))"

lemma linux_reading:
  "\<exists>m sub. lx_submit (lw_caps linux_start) (lk_now granting_kernel (lw_trace linux_start)) (lk_refuses granting_kernel (lw_trace linux_start)) 0
      ((transfer_new Bulk 0x81 [0, 0] :: unit transfer)\<lparr>tr_timeout := 0\<rparr>) (lx_fresh (lw_gone linux_start)) = (Ok (), m)
    \<and> lx_subs m 0 = Some (Bulk, sub) \<and> length (sb_urbs sub) = 1"
  by (simp add: linux_start_def granting_kernel_def lx_submit_def lx_fresh_def lx_init_def build_def build_urbs_def Let_def
    transfer_new_def bulk_chunk_def bulk_count_def div_ceil_def bulk_urb_def submit_urbs_def)

theorem linux_backend_witness:
  "set (h_claimed linux_claimed) = {3} \<and> linux_claims (lw_trace (h_world linux_claimed)) = {3}
     \<and> linux_claims (lw_trace (handle_drop (linux_sys granting_kernel) linux_claimed)) = {}
     \<and> (\<exists>st n buf w. linux_transfer granting_kernel Bulk 0x81 [0, 0] 0 linux_start = (Inr (st, n, buf), w) \<and> n \<le> 2 \<and> length buf = 2)"
proof -
  let ?K = granting_kernel
  have o: "linux_open (Inr ()) (Inl 25) = Ok linux_start" by (simp add: linux_open_def linux_start_def)
  have h: "(handle_op careful (linux_sys ?K))\<^sup>*\<^sup>* (handle_new linux_start) linux_claimed" for careful
    unfolding linux_claimed_def by (rule r_into_rtranclp, rule handle_op.claim)
  obtain m sub where s: "lx_submit (lw_caps linux_start) (lk_now ?K (lw_trace linux_start)) (lk_refuses ?K (lw_trace linux_start)) 0
      ((transfer_new Bulk 0x81 [0, 0] :: unit transfer)\<lparr>tr_timeout := 0\<rparr>) (lx_fresh (lw_gone linux_start)) = (Ok (), m)"
    "lx_subs m 0 = Some (Bulk, sub)" "length (sb_urbs sub) = 1" using linux_reading by blast
  have g: "gives_back 1 (lk_passes ?K (lw_trace linux_start))"
    by (simp add: gives_back_def granting_kernel_def pass_reaps_def)
  note all = linux_backend [OF granting_honest o h _ _ s(1)]
  have "\<exists>st n buf w. linux_transfer ?K Bulk 0x81 [0, 0] 0 linux_start = (Inr (st, n, buf), w) \<and> n \<le> 2 \<and> length buf = 2"
  proof (cases "linux_transfer ?K Bulk 0x81 [0, 0] 0 linux_start")
    case (Pair q w)
    then show ?thesis using all s(2,3) g by (cases q) auto
  qed
  moreover have "h_claimed linux_claimed = [3]"
    by (simp add: linux_claimed_def claim_interface_def claim_def claim_sys_def matchR_def bindR_def on_sys_eq out_of_def linux_sys_def
        linux_claim_def linux_request_def linux_ioctl_def granting_kernel_def handle_new_def Let_def)
  ultimately show ?thesis using all granting_releases granting_guards h [of True] by force
qed

text \<open>
  C6: The books the Windows and macOS backends keep of their requests complete every accepted transfer exactly once: in every history of submissions, completions, cancellations and deadlines, interleaved at every lock, a transfer has been completed as often as it was accepted or once less; when nothing is in the system or half way through, every acceptance has had its completion and the transfer is free to be submitted again; and while the system holds a request with a deadline, the event thread sleeps no longer than until that deadline.
\<close>

theorem requests_exactly_once:
  assumes "book_reach early status books_new b"
  shows "count_list (map fst (bk_log b)) t \<le> count_list (bk_accepted b) t
    \<and> count_list (bk_accepted b) t \<le> count_list (map fst (bk_log b)) t + 1
    \<and> (quiet b \<longrightarrow> bk_sub b t = None \<and> count_list (bk_accepted b) t = count_list (map fst (bk_log b)) t)
    \<and> (\<forall>key s d. bk_sub b t = Some s \<longrightarrow> rq_deadline s = Some d \<longrightarrow> (key, t) \<in> set (bk_kernel b) \<longrightarrow>
         (\<exists>e. bk_next_deadline b = Some e \<and> e \<le> d))"
proof -
  note inv = book_reach_inv [OF assms books_new_inv(1)]
  show ?thesis using never_twice [OF inv, of t] quiet_settled [OF inv, of t] deadline_covered [OF inv, of t] by blast
qed

definition plain_request :: request where
  "plain_request = \<lparr>rq_deadline = None, rq_cancelled = False, rq_timed_out = False\<rparr>"

theorem requests_exactly_once_witness:
  "bk_log (early_run 9 4 plain_request (0, 0, []) win_status) = [(4, Completed)]
     \<and> bk_sub (early_run 9 4 plain_request (0, 0, []) win_status) 4 = None
     \<and> count_list (bk_accepted (early_run 9 4 plain_request (0, 0, []) win_status)) 4 = 1"
  using requests_exactly_once [OF early_run_reach [of win_status 9 4 plain_request "(0, 0, [])"], of 4]
    early_run_state [of 9 4 plain_request "(0, 0, [])" win_status]
  by (simp add: win_status_def plain_request_def)






text \<open>
  C8: On macOS, however the handles of a device come and go, and whatever they do and the system answers: nothing is given back that is not held at that moment, and what is held is exactly the device's own event source while the device object has one and, for every interface the handles claim, its object, its opening and its event source, one each; no service, iterator or plug-in is kept. The device is open only while the shared count is above 0, and the count is the number of handles that opened the device, unless an opening failed after counting itself. Once the last handle is dropped and the device object with it, nothing is held and the device is closed. Every request of every handle is accounted for: none is completed more often than it was accepted, and once none is out all have been.
\<close>

theorem mac_fleet:
  assumes "fleet leaky api sp tr (mac_dev_new has_182 has_187, []) (d, hs)"
  shows "mac_held (md_trace d) = Some ((if md_source d then {#HeldDeviceSource#} else {#})
      + mset (concat (map (\<lambda>(i, ci). HeldObject (mi_obj ci) # HeldOpen (mi_obj ci) # (if mi_source ci = 0 then [] else [HeldSource (mi_source ci)]))
          (concat (map mh_claimed hs)))))
    \<and> (device_open (md_trace d) \<longrightarrow> 0 < md_count d)
    \<and> (\<not> leaky \<longrightarrow> md_count d = length (filter mh_is_open hs))
    \<and> (hs = [] \<longrightarrow> mac_held (md_trace (snd (dev_drop api d))) = Some {#} \<and> \<not> device_open (md_trace (snd (dev_drop api d))))
    \<and> (\<forall>h \<in> set hs. count_list (map fst (bk_log (mh_books h))) t \<le> count_list (bk_accepted (mh_books h)) t
        \<and> (bk_kernel (mh_books h) = [] \<longrightarrow> bk_sub (mh_books h) t = None
            \<and> count_list (bk_accepted (mh_books h)) t = count_list (map fst (bk_log (mh_books h))) t))"
proof -
  have c: "claims_held cls = mset (concat (map (\<lambda>(i, ci). HeldObject (mi_obj ci) # HeldOpen (mi_obj ci)
      # (if mi_source ci = 0 then [] else [HeldSource (mi_source ci)])) cls))" for cls
    by (induction cls) (auto simp: iface_held_def source_of_def)
  have "sum_list (map share hs) = length (filter mh_is_open hs)" by (induction hs) (simp_all add: share_def)
  then show ?thesis
    using fleet_reach_inv [OF assms] fleet_books [OF assms] books_accounted [of _ t] dev_drop_run [of leaky d api]
    by (auto simp: fleet_inv_def holds_def c source_held_def)
qed

abbreviation mac_start :: mac_dev where
  "mac_start \<equiv> mac_dev_new True True"

definition mac_first :: mac_handle where
  "mac_first = mac_handle_new True (snd (mac_open willing mac_start))"

lemma mac_first_run:
  "mac_open willing mac_start = (Val True, snd (mac_open willing mac_start))" "with_dev (dev_of mac_first) mac_first = mac_first"
  "with_dev (dev_of willing_claimed) willing_claimed = willing_claimed" "dev_of mac_first = snd (mac_open willing mac_start)"
  by (simp_all add: mac_first_def mac_open_def dev_open_def device_open_call_def mac_try_run mac_check_def bindR_def matchR_def
      mac_dev_new_def ensure_event_source_def with_dev_def mac_dev.truncate_def mac_handle_new_def mac_dev.extend_def)

theorem mac_fleet_witness:
  "mac_held (md_trace willing_claimed) = Some {#HeldDeviceSource, HeldObject 7, HeldOpen 7, HeldSource 7#}
     \<and> mac_held (md_trace (snd (dev_drop willing (dev_of (snd (mac_drop willing willing_claimed)))))) = Some {#}
     \<and> \<not> device_open (md_trace (snd (dev_drop willing (dev_of (snd (mac_drop willing willing_claimed))))))"
proof -
  let ?step = "fleet_step False willing SpeedHigh (\<lambda>_. willing_read Bulk)"
  have "?step (mac_start, []) (dev_of mac_first, [] @ [mac_first])"
    unfolding mac_first_run(4) unfolding mac_first_def by (rule fleet_step.opens [OF mac_first_run(1)])
  moreover have "mac_op willing SpeedHigh (\<lambda>_. willing_read Bulk) (with_dev (dev_of mac_first) mac_first) willing_claimed"
    unfolding mac_first_run(2) unfolding willing_claimed_def mac_first_def by (rule mac_op.claim)
  then have "?step (dev_of mac_first, [] @ mac_first # []) (dev_of willing_claimed, [] @ willing_claimed # [])" by (rule fleet_step.operates)
  ultimately have f: "?step\<^sup>*\<^sup>* (mac_start, []) (dev_of willing_claimed, [willing_claimed])" by simp
  have "?step (dev_of willing_claimed, [] @ willing_claimed # [])
      (dev_of (snd (mac_drop willing (with_dev (dev_of willing_claimed) willing_claimed))), [] @ [])" by (rule fleet_step.drops)
  then have "?step\<^sup>*\<^sup>* (mac_start, []) (dev_of (snd (mac_drop willing willing_claimed)), [])" using f mac_first_run(3) by simp
  from mac_fleet [OF this, of 0] willing_claimed_fields show ?thesis by (simp add: add_mset_commute)
qed










text \<open>
  C10: Whatever threads, the backend and callbacks do to a transfer, in whatever order, it is never submitted twice: the backend owes exactly one completion while the transfer is marked in flight and none otherwise. And while it stays in flight nothing the operating system may be using (buffer, packets, timeout, flags, endpoint) changes.
\<close>

theorem transfer_life:
  assumes "\<not> tr_in_flight t" "life_reach (life_init t) l"
  shows "lc_outstanding l = (if tr_in_flight (lc_t l) then 1 else 0) \<and>
    (\<forall>l'. life_step l l' \<and> tr_in_flight (lc_t l) \<and> tr_in_flight (lc_t l') \<longrightarrow> dma_view (lc_t l') = dma_view (lc_t l))"
proof -
  have "life_inv l" by (rule life_reach_inv [OF assms(2)]) (use assms(1) in \<open>simp add: life_inv_def life_init_def\<close>)
  then show ?thesis using life_step_dma by (auto simp: life_inv_def)
qed

theorem transfer_life_witness:
  "\<exists>l. life_reach (life_init sample_bulk) l \<and> tr_in_flight (lc_t l) \<and> lc_outstanding l = 1"
proof -
  have idle: "\<not> tr_in_flight sample_bulk" by (simp add: sample_bulk_def transfer_new_def)
  let ?t = "snd (submit (\<lambda>_. Inr ()) sample_bulk)"
  let ?l = "(life_init sample_bulk)\<lparr>lc_t := ?t, lc_outstanding := lc_outstanding (life_init sample_bulk) + 1\<rparr>"
  have s: "submit (\<lambda>_. Inr ()) (lc_t (life_init sample_bulk)) = (Val (), ?t)" "tr_in_flight ?t"
    by (simp_all add: submit_def submit_check_def when_idle_def bindR_def Let_def sample_bulk_def transfer_new_def life_init_def)
  have r: "life_reach (life_init sample_bulk) ?l"
    by (rule life_reach.step [OF life_reach.start life_step.submit_ok [OF s(1)]])
  have "tr_in_flight (lc_t ?l)" using s(2) by simp
  with transfer_life [OF idle r] r show ?thesis by auto
qed

text \<open>
  C11: Once a repeating transfer is being dropped (its stop flag is set), no callback still running can submit it again, so a transfer that has ended stays ended and the closure can be freed.
\<close>

theorem repeating_drop_stops:
  assumes "rep_reach rep_started r" "1 \<le> rp_phase r" "rep_reach r r'"
  shows "rp_submits r' = rp_submits r \<and> (rp_in_flight r' \<longrightarrow> rp_in_flight r)"
proof -
  have "rep_inv r" by (rule rep_reach_inv [OF assms(1)]) (simp add: rep_inv_def rep_started_def)
  from rep_reach_stopped [OF assms(3) this assms(2)] show ?thesis by blast
qed

theorem repeating_drop_stops_witness:
  "\<exists>r r'. rep_reach rep_started r \<and> rp_phase r = 1 \<and> rp_callback r' \<and> rep_reach r r' \<and> rp_submits r' = rp_submits r"
proof -
  let ?r = "rep_started\<lparr>rp_stop := True, rp_phase := 1\<rparr>"
  let ?r' = "?r\<lparr>rp_in_flight := False, rp_cancelled := False, rp_callback := True\<rparr>"
  have r: "rep_reach rep_started ?r"
    by (rule rep_reach.step [OF rep_reach.start], rule rep_step.drop_flag) (simp add: rep_started_def)
  have r': "rep_reach ?r ?r'"
    by (rule rep_reach.step [OF rep_reach.start], rule rep_step.completes) (simp add: rep_started_def)
  from repeating_drop_stops [OF r _ r'] r r' show ?thesis by (intro exI [of _ ?r] exI [of _ ?r']) simp
qed

text \<open>
  C12: A hotplug listener that asked for the devices already attached, and filters on identifiers only, can reconstruct what is attached: in every reachable state in which the hotplug thread waits, nothing is pending, the backend has notified the last change and the last enumeration did not fail, replaying the events the listener was given yields exactly the attached devices that pass its filter.
\<close>

theorem hotplug_in_step:
  assumes "hp_reach h" "hp_pc h = Waiting" "\<not> sg_pending (hp_signal h)" "\<not> hp_unnotified h" "\<not> hp_lost h"
    "(i, f) \<in> set (hp_asked h)" "(i, f) \<in> set (rg_listeners (hp_registry h))"
  shows "replay i (rg_log (hp_registry h)) = view f (hp_world h)"
proof -
  have inv: "hp_inv h" by (rule hp_reach_inv [OF assms(1)])
  then have "in_sync i f (hp_registry h)" using assms(6) by (auto simp: hp_inv_def)
  moreover have "rg_known (hp_registry h) = hp_world h"
    using inv assms(2-5) by (simp add: hp_inv_def hp_fresh_def latest_def)
  ultimately show ?thesis using assms(7) by (simp add: in_sync_def)
qed

definition any_filter :: filter_spec where
  "any_filter = \<lparr>hf_vendor_id = None, hf_product_id = None, hf_class = None\<rparr>"

definition sample_listening :: "unit hotplug" where
  "sample_listening = snd (hp_add (Ok ()) (Ok ()) None any_filter True (hp_init []))"

lemma sample_listening_reach: "hp_reach sample_listening"
  unfolding sample_listening_def
  by (rule hp_reach.step [OF hp_reach.init [of "[]"]], rule hp_step.add) (rule prod.collapse [symmetric])

lemma sample_listening_state:
  "hp_pc sample_listening = Waiting" "\<not> sg_pending (hp_signal sample_listening)" "\<not> hp_unnotified sample_listening"
  "\<not> hp_lost sample_listening" "hp_asked sample_listening = [(1, any_filter)]"
  "rg_listeners (hp_registry sample_listening) = [(1, any_filter)]" "hp_world sample_listening = []"
  by (simp_all add: sample_listening_def hp_add_def hp_init_def registry_add_def registry_new_def Let_def any_filter_def isl_def)

theorem hotplug_in_step_witness:
  "hp_reach sample_listening \<and> replay 1 (rg_log (hp_registry sample_listening)) = view any_filter ([] :: unit device_info list)"
  using hotplug_in_step [OF sample_listening_reach sample_listening_state(1-4), of 1 any_filter]
    sample_listening_reach sample_listening_state(5-7) by simp

text \<open>
  C13: A notification is served: from any state in which the hotplug thread waits with one pending and is not being stopped, five undisturbed steps of the thread consume it, compare the registry with what is attached, and bring the thread back to waiting.
\<close>

theorem hotplug_notification_served:
  assumes "hp_pc h = Waiting" "sg_pending (hp_signal h)" "\<not> sg_stop (hp_signal h)"
  shows "\<exists>h'. loop_run 5 h = Some h' \<and> hp_pc h' = Waiting \<and> \<not> sg_pending (hp_signal h')
    \<and> rg_known (hp_registry h') = hp_world h"
proof -
  have "rg_known (rescan (Inr (hp_world h)) (hp_registry h)) = hp_world h" by (simp add: rescan_def Let_def)
  with loop_run_cycle [OF assms] show ?thesis by simp
qed

theorem hotplug_notification_served_witness:
  "\<exists>h'. loop_run 5 (sample_listening\<lparr>hp_signal := \<lparr>sg_pending = True, sg_stop = False\<rparr>\<rparr>) = Some h' \<and> hp_pc h' = Waiting"
proof -
  let ?h = "sample_listening\<lparr>hp_signal := \<lparr>sg_pending = True, sg_stop = False\<rparr>\<rparr>"
  have "hp_pc ?h = Waiting" "sg_pending (hp_signal ?h)" "\<not> sg_stop (hp_signal ?h)"
    using sample_listening_state(1) by simp_all
  from hotplug_notification_served [OF this] show ?thesis by blast
qed

text \<open>
  C14: Storing through the whole mass-storage stack and reading back: on a disk that speaks the bulk-only transport, with up to three UNIT ATTENTION conditions pending, the unit opens as a block device of the disk's geometry, and data of any length and at any position inside it (aligned to blocks or not) written with \<open>write_all\<close> is what \<open>read_exact\<close> gives after seeking back.
\<close>

theorem block_stream_roundtrip:
  assumes "disk_ready cap s" "0 < unat (cap_block_count cap)"
    "unat p + length data \<le> length (dk_bytes (world s))"
  shows "\<exists>d s1 st. open_block_device disk_sys disk_msc 0 s = (Val d, s1) \<and> bd_capacity d = cap
    \<and> bindR (bd_seek (SeekStart p)) (\<lambda>_. bindR (write_all (msc_read_blocks disk_sys disk_msc) (msc_write_blocks disk_sys disk_msc) data)
        (\<lambda>_. bindR (bd_seek (SeekStart p)) (\<lambda>_. read_exact (msc_read_blocks disk_sys disk_msc) (replicate (length data) 0)))) (s1, d)
      = (Val (Some data), st)"
proof -
  let ?d = "\<lparr>bd_lun = 0, bd_capacity = cap, bd_pos = 0, bd_scratch = []\<rparr>"
  obtain s1 where o: "open_block_device disk_sys disk_msc 0 s = (Val ?d, s1)" "disk_ready cap s1"
      "dk_bytes (world s1) = dk_bytes (world s)"
    using disk_open [OF assms(1,2)] by blast
  have "capacity_bytes cap = Some (length (dk_bytes (world s1)))"
    using disk_store.geometry [OF o(2)] by (simp add: capacity_bytes_def Let_def)
  then have sk: "bd_seek (SeekStart p) (s1, ?d) = (Val (Inr p), s1, ?d\<lparr>bd_pos := p\<rparr>)"
    by (simp add: bd_seek_def bindR_def)
  from disk_store.stream_roundtrip [OF o(2), of "?d\<lparr>bd_pos := p\<rparr>" data] assms(3) o(3)
  obtain st where "bindR (write_all (msc_read_blocks disk_sys disk_msc) (msc_write_blocks disk_sys disk_msc) data)
      (\<lambda>_. bindR (bd_seek (SeekStart p)) (\<lambda>_. read_exact (msc_read_blocks disk_sys disk_msc) (replicate (length data) 0)))
      (s1, ?d\<lparr>bd_pos := p\<rparr>) = (Val (Some data), st)" by auto
  with o(1) sk show ?thesis by (auto simp: bindR_Val)
qed

definition sample_capacity :: capacity where
  "sample_capacity = \<lparr>cap_block_count = 4, cap_block_size = 4\<rparr>"

definition sample_storage :: "disk storage" where
  "sample_storage = storage_new (handle_new \<lparr>dk_bytes = replicate 16 0, dk_block = 4, dk_attention = 2, dk_phase = AwaitCommand\<rparr>)"

lemma sample_storage_ready: "disk_ready sample_capacity sample_storage"
  by (simp add: disk_ready_def disk_at_def sample_capacity_def sample_storage_def storage_new_def handle_new_def)

theorem block_stream_roundtrip_witness:
  "\<exists>d s1 st. open_block_device disk_sys disk_msc 0 sample_storage = (Val d, s1)
    \<and> bindR (bd_seek (SeekStart 3)) (\<lambda>_. bindR (write_all (msc_read_blocks disk_sys disk_msc) (msc_write_blocks disk_sys disk_msc) [1, 2, 3, 4, 5, 6])
        (\<lambda>_. bindR (bd_seek (SeekStart 3)) (\<lambda>_. read_exact (msc_read_blocks disk_sys disk_msc) (replicate (length [1 :: u8, 2, 3, 4, 5, 6]) 0)))) (s1, d)
      = (Val (Some [1, 2, 3, 4, 5, 6]), st)"
proof -
  have c: "0 < unat (cap_block_count sample_capacity)" by (simp add: sample_capacity_def)
  have "unat (3 :: u64) + length [1 :: u8, 2, 3, 4, 5, 6] \<le> length (dk_bytes (world sample_storage))"
    by (simp add: sample_storage_def storage_new_def handle_new_def)
  from block_stream_roundtrip [OF sample_storage_ready c this] show ?thesis by blast
qed

text \<open>
  C15: A block device refines a byte array with a cursor. A write inside the unit moves at least a byte and changes exactly the bytes it moved, on either path (whole blocks sent directly, or the one block it touches read, patched and rewritten); at the end of the unit it reports \<open>WriteZero\<close> and changes nothing. A read inside the unit returns at least a byte and exactly what the array holds at the cursor, leaves the rest of the caller's buffer and the store alone, and advances by what it returned; at the end it returns 0 bytes.
\<close>

theorem block_device_refines:
  assumes "disk_ready cap s" "bd_lun d = 0" "bd_capacity d = cap" "data \<noteq> []" "buf \<noteq> []"
  shows "if unat (bd_pos d) < length (dk_bytes (world s)) then
      (\<exists>n s' d'. bd_write (msc_read_blocks disk_sys disk_msc) (msc_write_blocks disk_sys disk_msc) data (s, d) = (Val (Inr n), s', d')
        \<and> 0 < n \<and> n \<le> length data \<and> unat (bd_pos d') = unat (bd_pos d) + n
        \<and> disk_ready cap s' \<and> dk_bytes (world s') = overwrite (unat (bd_pos d)) (take n data) (dk_bytes (world s)))
    \<and> (\<exists>n s' d'. bd_read (msc_read_blocks disk_sys disk_msc) buf (s, d) =
          (Val (n, take n (drop (unat (bd_pos d)) (dk_bytes (world s))) @ drop n buf), s', d')
        \<and> 0 < n \<and> n \<le> length buf \<and> unat (bd_pos d') = unat (bd_pos d) + n \<and> disk_ready cap s' \<and> dk_bytes (world s') = dk_bytes (world s))
    else bd_write (msc_read_blocks disk_sys disk_msc) (msc_write_blocks disk_sys disk_msc) data (s, d) = (Val (Inl WriteZero), s, d)
      \<and> bd_read (msc_read_blocks disk_sys disk_msc) buf (s, d) = (Val (0, buf), s, d)"
proof (cases "unat (bd_pos d) < length (dk_bytes (world s))")
  case True
  obtain n s' d' where w: "bd_write (msc_read_blocks disk_sys disk_msc) (msc_write_blocks disk_sys disk_msc) data (s, d) = (Val (Inr n), s', d')"
    "0 < n" "n \<le> length data" "unat (bd_pos d') = unat (bd_pos d) + n" "disk_ready cap s'"
    "dk_bytes (world s') = overwrite (unat (bd_pos d)) (take n data) (dk_bytes (world s))"
    using disk_store.write_step [OF assms(1-3) True assms(4)] by metis
  obtain m t e where r: "bd_read (msc_read_blocks disk_sys disk_msc) buf (s, d) =
        (Val (m, take m (drop (unat (bd_pos d)) (dk_bytes (world s))) @ drop m buf), t, e)"
    "0 < m" "m \<le> length buf" "unat (bd_pos e) = unat (bd_pos d) + m" "disk_ready cap t" "dk_bytes (world t) = dk_bytes (world s)"
    using disk_store.read_step [OF assms(1-3) True assms(5)] by metis
  from w r True show ?thesis by auto
qed (use disk_store.write_end(2) [OF assms(1,3,4)] disk_store.read_end [OF assms(1,3)] in simp)

definition sample_device :: "u64 \<Rightarrow> block_device" where
  "sample_device p = \<lparr>bd_lun = 0, bd_capacity = sample_capacity, bd_pos = p, bd_scratch = []\<rparr>"

theorem block_device_refines_witness:
  "(\<exists>n s' d'. bd_write (msc_read_blocks disk_sys disk_msc) (msc_write_blocks disk_sys disk_msc) [7, 8] (sample_storage, sample_device 5)
     = (Val (Inr n), s', d') \<and> 0 < n)
   \<and> (\<exists>n s' d'. bd_read (msc_read_blocks disk_sys disk_msc) [9, 9, 9] (sample_storage, sample_device 5)
     = (Val (n, take n (drop 5 (replicate 16 0)) @ drop n [9, 9, 9]), s', d') \<and> 0 < n)"
  using block_device_refines [OF sample_storage_ready, of "sample_device 5" "[7, 8]" "[9, 9, 9]"]
  by (auto simp: sample_device_def sample_storage_def storage_new_def handle_new_def)

text \<open>
  C16: Video frames come out as the device cut them: for every sequence of frames that fit the limit, each cut into any payloads with short or time-stamped headers, its last payload marked or not, an assembler at a frame boundary hands over exactly these frames in order, with their time stamps, consecutive numbers and no error flag; the last one may still wait for the frame bit to toggle.
\<close>

theorem video_frames_rebuilt:
  assumes "am_last_fid a = Some (fid_bit (\<not> fid))" "list_all (sendable (frame_limit a)) fs"
  shows "\<exists>b out. payloads (video fid fs) a = (b, out)
    \<and> out @ in_progress b = in_progress a
        @ map2 (\<lambda>i f. frame_of (am_sequence a + of_nat (length (in_progress a)) + of_nat i) f) [0..<length fs] fs"
  using assms by (rule assembler_rebuilds)

definition sample_assembler :: assembler where
  "sample_assembler = fst (payloads [[2, 2, 9]] (assembler_new 4))"

theorem video_frames_rebuilt_witness:
  "\<exists>b out. payloads (video True [\<lparr>sf_pieces = [[1, 2], [], [3]], sf_pts = Some 7, sf_marked = True\<rparr>,
       \<lparr>sf_pieces = [[4], [5]], sf_pts = None, sf_marked = False\<rparr>]) sample_assembler = (b, out)
     \<and> out @ in_progress b = [\<lparr>fr_data = [1, 2, 3], fr_sequence = 0, fr_pts = Some 7, fr_error = False\<rparr>,
         \<lparr>fr_data = [4, 5], fr_sequence = 1, fr_pts = None, fr_error = False\<rparr>]"
proof -
  let ?fs = "[\<lparr>sf_pieces = [[1, 2], [], [3]], sf_pts = Some 7, sf_marked = True\<rparr>,
       \<lparr>sf_pieces = [[4], [5]], sf_pts = None, sf_marked = False\<rparr>] :: sent_frame list"
  have a: "am_last_fid sample_assembler = Some (fid_bit (\<not> True))" "list_all (sendable (frame_limit sample_assembler)) ?fs"
    "in_progress sample_assembler = []" "am_sequence sample_assembler = 0"
    by code_simp+
  from video_frames_rebuilt [OF a(1,2)] a(3,4) show ?thesis by (simp add: frame_of_def upt_conv_Cons)
qed

text \<open>
  C17: Whatever payloads the device sends, however transfers end and whenever the reader reads or the stream is stopped: the frames are those the assembler makes of everything the completed transfers brought (\<open>fed\<close>: payloads, and marks where data was lost), in order. They are numbered from 0 without a gap, none is empty or more than twice the negotiated size; what was read followed by what waits in the queue is a subsequence of them, at most four frames wait, and those missing are exactly the number counted as dropped.
\<close>

theorem video_frames_accounted:
  assumes "pump_reach packet_size cap fed taken s"
  shows "let emitted = snd (assemble fed (assembler_new cap)) in
      map fr_sequence emitted = map of_nat [0..<length emitted]
    \<and> list_all (\<lambda>f. fr_data f \<noteq> [] \<and> length (fr_data f) \<le> max cap 1 * 2) emitted
    \<and> subseq (taken @ ps_queue s) emitted \<and> length (ps_queue s) \<le> FRAME_QUEUE
    \<and> of_nat (length (taken @ ps_queue s)) + ps_dropped s = of_nat (length emitted)"
  using pump_reach_ok [OF assms] assembled_numbered [of cap fed]
  by (auto simp: Let_def pump_ok_def numbered_def accounted_def list_all_iff)

definition sample_bulk_in :: "u8 list \<Rightarrow> unit inner" where
  "sample_bulk_in p = \<lparr>in_state = (transfer_new Bulk 0x81 p)\<lparr>tr_status := Completed, tr_actual := length p\<rparr>, in_held = False\<rparr>"

definition sample_fed :: "u8 list list \<Rightarrow> pump_shared" where
  "sample_fed ps = fold (\<lambda>p s. case on_complete 0 (sample_bulk_in p) (Ok ()) s of Done (s', again) \<Rightarrow> s' | _ \<Rightarrow> s) ps (pump_new 4)"

theorem video_frames_accounted_witness:
  "\<exists>fed. ps_queue (sample_fed [[2, 2], [2, 3, 5, 6]]) = [\<lparr>fr_data = [5, 6], fr_sequence = 0, fr_pts = None, fr_error = False\<rparr>]
     \<and> ps_dropped (sample_fed [[2, 2], [2, 3, 5, 6]]) = 0 \<and> of_nat (length (snd (assemble fed (assembler_new 4)))) = (1 :: u64)"
proof -
  have go: "\<exists>fed'. pump_reach 0 4 fed' [] (case on_complete 0 (sample_bulk_in p) (Ok ()) s of Done (s', again) \<Rightarrow> s' | _ \<Rightarrow> s)"
    if r: "pump_reach 0 4 fed [] s" for p s fed
  proof -
    have "\<not> in_held (sample_bulk_in p)" by (simp add: sample_bulk_in_def)
    with r show ?thesis
      by (cases "on_complete 0 (sample_bulk_in p) (Ok ()) s") (auto intro: pump_reach.step pump_step.completes)
  qed
  obtain fed where r: "pump_reach 0 4 fed [] (sample_fed [[2, 2], [2, 3, 5, 6]])"
    using go [OF pump_reach.start, of "[2, 2]"] go [of _ _ "[2, 3, 5, 6]"] by (auto simp: sample_fed_def)
  have q: "ps_queue (sample_fed [[2, 2], [2, 3, 5, 6]]) = [\<lparr>fr_data = [5, 6], fr_sequence = 0, fr_pts = None, fr_error = False\<rparr>]"
    "ps_dropped (sample_fed [[2, 2], [2, 3, 5, 6]]) = 0"
    by code_simp+
  from video_frames_accounted [OF r] q show ?thesis by (auto simp: Let_def)
qed

text \<open>
  C18: A serial port is a byte stream: over a device whose pending bytes leave it only in completed transfers, a read that returns bytes takes them from the front of what waits in the port followed by what the device holds, fills the buffer from its start and returns none only for an empty buffer; any other outcome leaves the stream as it was. The two status bytes of FTDI packets never enter it.
\<close>

theorem serial_read_stream:
  assumes "delivers S P inside" "sp_ep_in P AND 0x80 \<noteq> 0" "packet_payload P \<noteq> 0"
  shows "case read_with_timeout S P timeout start nows buf (h, m) of
      (Val (Some (n, b)), (h', m')) \<Rightarrow> (n = 0 \<longleftrightarrow> buf = []) \<and> length b = length buf \<and> n \<le> length buf \<and> drop n b = drop n buf
        \<and> pt_rx m @ inside (h_world h) = take n b @ pt_rx m' @ inside (h_world h')
    | (Panic, _) \<Rightarrow> False
    | (_, (h', m')) \<Rightarrow> pt_rx m @ inside (h_world h) = pt_rx m' @ inside (h_world h')"
  using read_stream [OF assms, of buf h m timeout start nows]
  by (auto simp: read_keeps_def split: prod.splits out.splits option.splits)

definition sample_ftdi :: serial_port where
  "sample_ftdi = \<lparr>sp_claim = \<lparr>hc_leased = [0], hc_owned = [0]\<rparr>, sp_kind = SerialFtdi Ft232R, sp_ep_in = 0x81, sp_ep_in_packet = 64, sp_ep_out = 2\<rparr>"

theorem serial_read_stream_witness:
  "case read_with_timeout line_sys sample_ftdi 0 0 [0, 0] [0, 0] (handle_new [[1, 96], [1, 96, 65, 66, 67]], port_new (BackendAcm 0 None)) of
      (Val (Some (n, b)), (h', m')) \<Rightarrow> take n b @ pt_rx m' @ concat (map (line_bytes sample_ftdi) (h_world h')) = [65, 66, 67]
    | _ \<Rightarrow> True"
proof -
  have f: "sp_ep_in sample_ftdi AND 0x80 \<noteq> 0" "packet_payload sample_ftdi \<noteq> 0" by (simp_all add: sample_ftdi_def packet_payload_def)
  have l: "concat (map (line_bytes sample_ftdi) [[1, 96], [1, 96, 65, 66, 67]]) = [65, 66, 67]"
    by (simp add: line_bytes_def sample_ftdi_def chunks_step)
  from serial_read_stream [OF line_sys_delivers f, where timeout = 0 and start = 0 and nows = "[0, 0]" and buf = "[0, 0]"
      and h = "handle_new [[1, 96], [1, 96, 65, 66, 67]]" and m = "port_new (BackendAcm 0 None)"] l
  show ?thesis by (auto simp: handle_new_def port_new_def split: prod.splits out.splits option.splits)
qed

text \<open>
  C19: Frames through a network device are neither lost nor duplicated without being counted, however sends, completions, receive callbacks, \<open>recv\<close>, handler changes and \<open>close\<close> interleave: every frame that arrived was handed to the handler, taken, is waiting in the queue (at most 256) or was dropped and counted, each of the three in order of arrival; every send asked for is counted as sent or dropped, or is still on its way; and never are more than 32 transfers in flight.
\<close>

theorem net_accounts:
  assumes "net_reach N (net_sys_new link) y"
  shows "length (y_flying y) \<le> 32 \<and> length (sh_queue (y_shared y)) \<le> 256
    \<and> subseq (y_taken y @ sh_queue (y_shared y)) (y_arrived y) \<and> subseq (sh_handled (y_shared y)) (y_arrived y)
    \<and> st_rx_frames (sh_stats (y_shared y)) = of_nat (length (y_arrived y))
    \<and> (\<exists>lost. subseq lost (y_arrived y) \<and> st_rx_dropped (sh_stats (y_shared y)) = of_nat (length lost)
        \<and> mset (y_arrived y) = mset (sh_handled (y_shared y)) + mset (y_taken y @ sh_queue (y_shared y)) + mset lost)
    \<and> st_tx_frames (sh_stats (y_shared y)) + st_tx_dropped (sh_stats (y_shared y))
        + of_nat (length (y_sends y) + length (y_flying y)) = of_nat (y_asked y)"
proof -
  have "net_ok y" using assms net_new_ok by (rule net_reach_ok)
  then have "tx_ok y" "rx_ok (y_arrived y) (y_taken y) (y_shared y)" by (simp_all add: net_ok_def)
  then show ?thesis unfolding tx_ok_def rx_ok_def by auto
qed

definition sample_nic :: nic where
  "sample_nic = \<lparr>nc_claim = \<lparr>hc_leased = [0, 1], hc_owned = [0, 1]\<rparr>, nc_kind = Rndis, nc_mac = [2, 0, 0, 0, 0, 1],
     nc_max_frame = 1514, nc_ep_out = 2, nc_out_packet = 64, nc_framing = FramingRndis\<rparr>"

definition no_link :: link_state where
  "no_link = \<lparr>ls_connected = None, ls_down_bps = None, ls_up_bps = None\<rparr>"

definition arrival :: "unit transfer" where
  "arrival = (transfer_new Bulk 0x81 (build_packet (replicate 14 7) 0))\<lparr>tr_actual := 58\<rparr>"

theorem net_accounts_witness:
  "\<exists>y. net_reach sample_nic (net_sys_new no_link) y \<and> sh_queue (y_shared y) = [replicate 14 7] \<and> length (y_flying y) \<le> 32"
proof -
  let ?y = "net_sys_new no_link"
  have arrival_status: "tr_status arrival = Completed" by (simp add: arrival_def transfer_new_def)
  have "parse_packets (build_packet (replicate 14 7) 0) = Some ([replicate 14 7], True)"
    by (rule packet_roundtrip) simp
  moreover have "get_data arrival = (Val (build_packet (replicate 14 7) 0), arrival)"
    by (subst get_data_bulk) (simp_all add: arrival_def transfer_new_def build_packet_eq)
  ultimately have rx: "rx_complete Rndis arrival (0, y_shared ?y) = Some ((0, deliver_frame (replicate 14 7) (y_shared ?y)), True)"
    by (simp add: rx_complete_def rx_data_def rx_frames_def arrival_status)
  obtain y where y: "net_step sample_nic ?y y" "y_shared y = deliver_frame (replicate 14 7) (y_shared ?y)"
    using receives [of ?y "[]" 0 "replicate 7 (Some 0)" sample_nic arrival 0 "deliver_frame (replicate 14 7) (y_shared ?y)" True] rx
    by (auto simp: net_sys_new_def sample_nic_def numeral_eq_Suc)
  from net_reach.step [OF net_reach.start y(1)] have r: "net_reach sample_nic ?y y" .
  with net_accounts [OF r] y(2) show ?thesis
    by (intro exI [of _ y]) (simp add: net_sys_new_def shared_new_def deliver_frame_def tally_def Let_def)
qed

text \<open>
  C20: What \<open>send\<close> submits is what the receive callback at the other end delivers: with ECM, NCM (with an alignment that is a multiple of 4, as the specification requires) or RNDIS on both sides, the transfer a successful \<open>send\<close> submits makes the peer deliver exactly that one frame; only ECM, which has no length field, keeps the padding byte of a frame that fills its packets exactly. And whatever bytes a device sends, splitting a received transfer into frames does not panic and does not run away: every frame an NCM block or a sequence of RNDIS packets yields is a piece of that block behind its header, of at least an Ethernet header in the NCM case, and their number is bounded (16 tables of at most 16384 entries; one per 44 bytes).
\<close>

theorem net_send_delivers:
  assumes "same_kind (nc_framing N) kind" "length frame < 2 ^ 31"
    and "net_send N frame sent (sq, sh) = Some ((Ok (), Some w), st)"
  shows "rx_data kind w peer = Some (deliver_frame (padded N frame) peer)
   \<and> (case parse_ntb16 b of None \<Rightarrow> False
    | Some (ds, ok) \<Rightarrow> length ds \<le> 16 * 16384 \<and> list_all (\<lambda>d. 14 \<le> length d
        \<and> (\<exists>i. 12 \<le> i \<and> i + length d \<le> min (unat (le16 b 8)) (length b) \<and> d = take (length d) (drop i b))) ds)
   \<and> (case parse_packets b of None \<Rightarrow> False
    | Some (ds, ok) \<Rightarrow> 44 * length ds \<le> length b
        \<and> list_all (\<lambda>d. \<exists>i. 44 \<le> i \<and> i + length d \<le> length b \<and> d = take (length d) (drop i b)) ds)"
  using send_receive [OF assms] parse_ntb16_ok [of b] parse_packets_ok [of b] by (auto simp: frame_in_def list_all_iff)

theorem net_send_delivers_witness:
  "\<exists>w st. net_send sample_nic (replicate 20 5) (Ok ()) (0, shared_new no_link) = Some ((Ok (), Some w), st)
     \<and> rx_data Rndis w (shared_new no_link) = Some (deliver_frame (replicate 20 5) (shared_new no_link))"
proof -
  obtain w st where s: "net_send sample_nic (replicate 20 5) (Ok ()) (0, shared_new no_link) = Some ((Ok (), Some w), st)"
    by (simp add: net_send_def send_check_def send_wire_def tx_reserve_def sample_nic_def shared_new_def)
  have k: "same_kind (nc_framing sample_nic) Rndis" by (simp add: same_kind_def sample_nic_def)
  from net_send_delivers [OF k _ s, of "shared_new no_link"] s show ?thesis
    by (auto simp: padded_def sample_nic_def)
qed

text \<open>
  C21: An RNDIS request returns only the completion of that very request: the request was sent with the identifier the connection had next, and the reply has the completion type of the request's message, that identifier and, where it has one, status 0, however many other messages (indications, keepalives, stale replies) came first. Whether it fails or not, the connection goes on with another identifier, which is not 0, so two consecutive requests are sent with different ones.
\<close>

theorem rndis_reply_matches:
  assumes "exchange S interface notify_ep ty body c = (q, c')"
  shows "rc_next_id c' = next_request_id (rc_next_id c) \<and> rc_next_id c' \<noteq> rc_next_id c \<and> rc_next_id c' \<noteq> 0
    \<and> (case q of Val r \<Rightarrow>
          12 \<le> length r \<and> le32 r 0 = ty OR 0x80000000 \<and> le32 r 8 = rc_next_id c \<and> (16 \<le> length r \<longrightarrow> le32 r 12 = 0)
          \<and> (let msg = le_bytes32 ty @ le_bytes32 (of_nat (12 + length body)) @ le_bytes32 (rc_next_id c) @ body in
              \<exists>n buf k. sys_transfer S Control 0
                 (setup_to_bytes (setup_raw (request_type Out Class RInterface) 0 0 (ucast interface) (of_nat (length msg))) @ msg)
                 5000 (h_world (rc_handle c)) = (Ok (Completed, n, buf), k))
        | _ \<Rightarrow> True)"
proof -
  have "rc_next_id c' = next_request_id (rc_next_id c)" by (rule exchange_next_id [OF assms])
  moreover have "case q of Val r \<Rightarrow>
          12 \<le> length r \<and> le32 r 0 = ty OR 0x80000000 \<and> le32 r 8 = rc_next_id c \<and> (16 \<le> length r \<longrightarrow> le32 r 12 = 0)
          \<and> (let msg = le_bytes32 ty @ le_bytes32 (of_nat (12 + length body)) @ le_bytes32 (rc_next_id c) @ body in
              \<exists>n buf k. sys_transfer S Control 0
                 (setup_to_bytes (setup_raw (request_type Out Class RInterface) 0 0 (ucast interface) (of_nat (length msg))) @ msg)
                 5000 (h_world (rc_handle c)) = (Ok (Completed, n, buf), k))
        | _ \<Rightarrow> True"
  proof (cases q)
    case (Val r)
    note e = assms [unfolded Val]
    show ?thesis using exchange_reply [OF e] exchange_sent [OF e] by (simp add: Val Let_def)
  qed simp_all
  ultimately show ?thesis using next_request_id [of "rc_next_id c"] by simp
qed

text \<open>A backend whose device answers every control read with one SET completion.\<close>

definition echo_sys :: "unit sys" where
  "echo_sys = \<lparr>sys_active_config = (\<lambda>k. (Ok None, k)), sys_set_config = (\<lambda>v k. (Ok (), k)), sys_claim = (\<lambda>i k. (Ok (), k)),
     sys_release = (\<lambda>i k. (Ok (), k)), sys_set_alt = (\<lambda>i a k. (Ok (), k)), sys_clear_halt = (\<lambda>e k. (Ok (), k)),
     sys_reset = (\<lambda>k. (Ok (), k)), sys_driver_active = (\<lambda>i k. (Ok False, k)), sys_detach = (\<lambda>i k. (Ok (), k)),
     sys_attach = (\<lambda>i k. (Ok (), k)),
     sys_transfer = (\<lambda>kind ep buf t k. if length buf = 1033
        then (Ok (Completed, 16, take 8 buf @ [5, 0, 0, 0x80, 16, 0, 0, 0, 1, 0, 0, 0, 0, 0, 0, 0] @ drop 24 buf), k)
        else (Ok (Completed, length buf - 8, buf), k)),
     sys_cancel_all = (\<lambda>k. k), sys_close = (\<lambda>k. k)\<rparr>"

lemma echo_answers: "\<exists>r c'. exchange echo_sys 0 None 5 [] (rctl_new (handle_new ())) = (Val r, c')"
proof -
  have rt: "request_type Out Class RInterface AND 0x80 = 0" "request_type In Class RInterface AND 0x80 \<noteq> 0"
    by (simp_all add: request_type_def direction_mask_def)
  have tr: "sys_transfer echo_sys = (\<lambda>kind ep buf t k. if length buf = 1033
        then (Ok (Completed, 16, take 8 buf @ [5, 0, 0, 0x80, 16, 0, 0, 0, 1, 0, 0, 0, 0, 0, 0, 0] @ drop 24 buf), k)
        else (Ok (Completed, length buf - 8, buf), k))" by (simp add: echo_sys_def)
  have send: "rndis_send echo_sys 0 msg c = (Val (), c)" if "length msg \<noteq> 1025" for msg c
    using control_write_completed [OF rt(1), of echo_sys 0 0 "ucast (0 :: u8)" msg 5000 "rc_handle c" "length msg"] that
    by (simp add: rndis_send_def bindR_def zoom_def tr)
  have read: "\<exists>rest. control_read echo_sys (request_type In Class RInterface) 1 0 (ucast (0 :: u8)) (replicate 1025 0) 5000 h
      = (Val (16, [5, 0, 0, 0x80, 16, 0, 0, 0, 1, 0, 0, 0, 0, 0, 0, 0] @ rest), h) \<and> length rest = 1009" for h
  proof -
    let ?m = "[5, 0, 0, 0x80, 16, 0, 0, 0, 1, 0, 0, 0, 0, 0, 0, 0] :: bytes"
    define b0 where "b0 = resize (8 + 1025) (setup_to_bytes (setup_raw (request_type In Class RInterface) 1 0 (ucast (0 :: u8)) (of_nat 1025)))"
    have l: "length b0 = 1033" by (simp add: b0_def)
    have "control_read echo_sys (request_type In Class RInterface) 1 0 (ucast (0 :: u8)) (replicate 1025 0) 5000 h
      = (Val (16, take 16 (drop 8 (take 8 b0 @ ?m @ drop 24 b0)) @ drop 16 (replicate 1025 0)), h\<lparr>h_world := ()\<rparr>)"
      by (rule control_read_completed [OF rt(2)]) (use l in \<open>simp_all add: tr b0_def\<close>)
    then show ?thesis using l by simp
  qed
  have loop: "\<exists>r c'. exchange_loop (Suc n) echo_sys 0 None 5 1 (replicate 1025 0) c = (Val r, c')" for n c
  proof -
    obtain rest where r: "control_read echo_sys (request_type In Class RInterface) 1 0 (ucast (0 :: u8)) (replicate 1025 0) 5000 (rc_handle c)
      = (Val (16, [5, 0, 0, 0x80, 16, 0, 0, 0, 1, 0, 0, 0, 0, 0, 0, 0] @ rest), rc_handle c)" "length rest = 1009" using read by blast
    show ?thesis using r
      by (simp add: await_response_def matchR_def bindR_def zoom_def on_message_def Let_def slice_def le32_u32 u32_le_def del: replicate.simps)
  qed
  show ?thesis
    using loop [of 19] by (simp add: exchange_def bindR_def rctl_new_def send del: exchange_loop.simps replicate.simps)
qed

theorem rndis_reply_matches_witness:
  "\<exists>r c'. exchange echo_sys 0 None 5 [] (rctl_new (handle_new ())) = (Val r, c') \<and> le32 r 8 = 1 \<and> rc_next_id c' \<noteq> 1"
proof -
  obtain r c' where e: "exchange echo_sys 0 None 5 [] (rctl_new (handle_new ())) = (Val r, c')" using echo_answers by blast
  from rndis_reply_matches [OF e] e show ?thesis by (auto simp: rctl_new_def)
qed

text \<open>
  C22: A serial read with a timeout ends, whatever the device does, on a backend that keeps its promise about counts and buffers: once the clock has passed the deadline it has returned some of the bytes (none only into an empty buffer), with the rest of the caller's buffer as it was, or an error, however many transfers without data bytes came before. It panics in one case only: it has to ask the device, and a packet of the port's endpoint has no room for data.
\<close>

theorem serial_read_returns:
  assumes "sys_ok S" "timeout \<noteq> 0" "\<exists>now \<in> set nows. start + timeout \<le> now"
  shows "case fst (read_with_timeout S P timeout start nows buf (h, m)) of
      Val None \<Rightarrow> False
    | Val (Some (n, b)) \<Rightarrow> n \<le> length buf \<and> length b = length buf \<and> drop n b = drop n buf \<and> (buf \<noteq> [] \<longrightarrow> 0 < n)
    | Fail e \<Rightarrow> True
    | Panic \<Rightarrow> buf \<noteq> [] \<and> pt_rx m = [] \<and> packet_payload P = 0"
proof (cases "buf \<noteq> [] \<and> (pt_rx m \<noteq> [] \<or> packet_payload P \<noteq> 0)")
  case True
  have "fst (read_with_timeout S P timeout start nows buf (h, m)) \<noteq> Val None" by (rule read_returns [OF assms(2,3)])
  moreover have "read_answers buf (fst (read_with_timeout S P timeout start nows buf (h, m)))"
    using read_answers_all [OF assms(1)] True by blast
  ultimately show ?thesis by (auto simp: read_answers_def split: out.splits option.splits)
next
  case False
  then show ?thesis by (auto simp: read_with_timeout_def bindR_def)
qed

lemma line_sys_ok: "sys_ok line_sys"
  by (auto simp: sys_ok_def line_transfer_def split: list.splits if_splits)

theorem serial_read_returns_witness:
  "fst (read_with_timeout line_sys sample_ftdi 5 0 [0, 2, 4, 6] [0] (handle_new (replicate 9 [1, 96]), port_new (BackendAcm 0 None))) \<notin> {Val None, Panic}"
  using serial_read_returns [OF line_sys_ok, where timeout = 5 and nows = "[0, 2, 4, 6]" and start = 0 and P = sample_ftdi and buf = "[0]"
      and h = "handle_new (replicate 9 [1, 96])" and m = "port_new (BackendAcm 0 None)"]
  by (auto simp: packet_payload_def sample_ftdi_def)

text \<open>
  C23: The completion callback of a video transfer gets stuck exactly when an isochronous transfer has completed: it then asks for the packet results while it still holds the guard of the transfer's buffer, which is the lock they are under, and no thread that holds that lock gets past asking for it. Every other completion returns, and none panics.
\<close>

theorem iso_completion_hangs:
  assumes "\<not> in_held m"
  shows "(on_complete packet_size m resubmitted s = Stuck \<longleftrightarrow>
      tr_kind (in_state m) = Isochronous \<and> tr_status (in_state m) = Completed \<and> \<not> tr_in_flight (in_state m))
    \<and> on_complete packet_size m resubmitted s \<noteq> Panics
    \<and> (\<not> tr_in_flight (in_state m) \<longrightarrow> (\<exists>held. buffer_guard m = Done (Ok (tr_buffer (in_state m)), held) \<and> in_held held
        \<and> iso_packets held = Stuck \<and> iso_packets (unlock_state held) = Done (tr_iso (in_state m), m)))"
proof -
  have "unlock_state (m\<lparr>in_held := True\<rparr>) = m" using assms by (simp add: unlock_state_def)
  then show ?thesis
    using completes_or_hangs [OF assms] guards_free [OF assms] guards_held [of "m\<lparr>in_held := True\<rparr>"] by simp
qed

theorem iso_completion_hangs_witness:
  "on_complete 2 \<lparr>in_state = (transfer_new Isochronous 0x81 [2, 0])\<lparr>tr_status := Completed\<rparr>, in_held = False\<rparr> (Ok ()) (pump_new 16) = Stuck
     \<and> on_complete 2 \<lparr>in_state = (transfer_new Bulk 0x81 [2, 0])\<lparr>tr_status := Completed\<rparr>, in_held = False\<rparr> (Ok ()) (pump_new 16) \<notin> {Stuck, Panics}"
  using iso_completion_hangs [of "\<lparr>in_state = (transfer_new Isochronous 0x81 [2, 0])\<lparr>tr_status := Completed\<rparr>, in_held = False\<rparr>" 2 "Ok ()" "pump_new 16"]
    iso_completion_hangs [of "\<lparr>in_state = (transfer_new Bulk 0x81 [2, 0])\<lparr>tr_status := Completed\<rparr>, in_held = False\<rparr>" 2 "Ok ()" "pump_new 16"]
  by (simp add: transfer_new_def)

lemma command_answers:
  assumes "sys_ok S"
  shows "case msc_command S D lun cdb (DataIn buf) s of
      (Val (n, b), _) \<Rightarrow> n \<le> length buf \<and> length b = length buf
    | (Fail e, _) \<Rightarrow> True
    | (Panic, _) \<Rightarrow> False"
proof (cases "msc_command S D lun cdb (DataIn buf) s")
  case (Pair r s')
  show ?thesis
  proof (cases r)
    case (Val p)
    with Pair command_Val [OF assms, where D = D and lun = lun and cdb = cdb and data = "DataIn buf" and s = s and n = "fst p" and b = "snd p" and s' = s'] show ?thesis by (cases p) simp
  next
    case Panic
    with Pair calm_not_Panic [OF calm_command [OF assms, where D = D and lun = lun and cdb = cdb and data = "DataIn buf"], where h = s and h' = s'] show ?thesis by simp
  qed (use Pair in simp)
qed

text \<open>
  C24: No device can make a transfer or a SCSI command panic, whatever a platform backend that keeps its promises (it never reports more bytes than asked for) answers: a bulk read and a control read give an error, or a count that fits the caller's buffer with the bytes beyond the count untouched; and a command, with its data and status phases, its recoveries and its REQUEST SENSE, returns, with a buffer of the size the caller gave and no more than that moved.
\<close>

theorem device_answers_do_not_panic:
  assumes "sys_ok S"
  shows "(case sync_read S Bulk ep buf t h of
        (Val (n, b), _) \<Rightarrow> n \<le> length buf \<and> length b = length buf \<and> drop n b = drop n buf
      | (Fail _, _) \<Rightarrow> True | (Panic, _) \<Rightarrow> False)
    \<and> (case control_read S rt r v i buf t h of
        (Val (n, b), _) \<Rightarrow> n \<le> length buf \<and> length b = length buf \<and> drop n b = drop n buf
      | (Fail _, _) \<Rightarrow> True | (Panic, _) \<Rightarrow> False)
    \<and> (case msc_command S D lun cdb (DataIn buf) s of
        (Val (n, b), _) \<Rightarrow> n \<le> length buf \<and> length b = length buf
      | (Fail _, _) \<Rightarrow> True | (Panic, _) \<Rightarrow> False)"
  using sync_read_cases [OF assms, of Bulk ep buf t h] control_read_cases [OF assms, of rt r v i buf t h] command_answers [OF assms, where D = D and lun = lun and cdb = cdb and buf = buf and s = s]
  by (auto split: prod.splits out.splits)

theorem device_answers_do_not_panic_witness:
  "sys_ok disk_sys \<and> fst (sync_read disk_sys Bulk 0x81 [0, 0] 5 (ms_handle sample_storage)) \<noteq> Panic
     \<and> fst (msc_command disk_sys disk_msc 0 [0xFF] (DataIn [0, 0]) sample_storage) \<noteq> Panic"
  using device_answers_do_not_panic [OF disk_sys_ok, where ep = "0x81" and buf = "[0, 0]" and t = 5 and h = "ms_handle sample_storage" and rt = 0 and r = 0 and v = 0 and i = 0
    and D = disk_msc and lun = 0 and cdb = "[0xFF]" and s = sample_storage] disk_sys_ok
  by (auto split: prod.splits out.splits)

lemma all_or_nothing:
  "(case hid_open_all S d h of
      (Val devs, h') \<Rightarrow> (\<exists>is. hid_interfaces d = Some (Ok is) \<and> map (\<lambda>dev. if_number (hid_interface dev)) devs = map if_number is)
        \<and> h_claimed h' = h_claimed h @ concat (map (\<lambda>dev. hc_owned (hid_claim dev)) devs)
    | (_, h') \<Rightarrow> h_claimed h' = h_claimed h \<and> h_leased h' = h_leased h)
   \<and> (case serial_open_all S A d h of
      (Val opened, h') \<Rightarrow> (\<exists>ps. ports d = Some (Ok ps) \<and> list_all2 (\<lambda>p q. \<exists>h h'. open_port S A d p h = (Val q, h')) ps opened)
        \<and> h_claimed h' = h_claimed h @ concat (map (\<lambda>q. hc_owned (sp_claim (fst q))) opened)
    | (_, h') \<Rightarrow> h_claimed h' = h_claimed h \<and> h_leased h' = h_leased h)"
  (is "?hid \<and> ?serial")
proof
  show ?hid
    using hid_open_all_effect [of S d h "fst (hid_open_all S d h)" "snd (hid_open_all S d h)"]
    by (auto split: prod.split out.split)
  show ?serial
  proof (cases "ports d")
    case None
    then show ?thesis by (simp add: serial_open_all_def bindR_def)
  next
    case (Some r)
    then show ?thesis
      using serial_opener.all_effect [of S A d _ h "fst (serial_open_all S A d h)" "snd (serial_open_all S A d h)"]
      by (cases r) (auto simp: serial_open_all_def bindR_def split: prod.split out.split)
  qed
qed

text \<open>
  C25: Opening a class helper is atomic in the claims: it either returns a helper that owns interfaces no other helper had leased or claimed before, which its drop gives back exactly; or it fails and leaves claims and leases as they were. This is spelt out for mass storage, and holds in the same sense (\<open>owns\<close>) for network devices, for serial ports of both kinds and for cameras with all their streaming interfaces. Opening every HID interface of a device, or every serial port of one, is all or nothing: it returns one helper per interface or port, in order, with their claims added, or it fails and gives every claim and lease back.
\<close>

theorem helpers_open_atomically:
  "(case open_with S [interface] (msc_start S alt interface ep_in ep_out) h of
      (Val d, h') \<Rightarrow> interface \<in> set (h_claimed h') \<and> interface \<notin> set (h_leased h)
        \<and> h_claimed (claim_drop S (mc_claim d) h') = h_claimed h \<and> h_leased (claim_drop S (mc_claim d) h') = h_leased h
    | (_, h') \<Rightarrow> h_claimed h' = h_claimed h \<and> h_leased h' = h_leased h)
   \<and> owns (nc_claim \<circ> fst) (open_with S [interface, data] (net_start S A kind interface data setting f E))
   \<and> owns (sp_claim \<circ> fst) (open_port S A dev port)
   \<and> owns cam_claim (camera_open_interface S dev number)
   \<and> (case hid_open_all S d h of
      (Val devs, h') \<Rightarrow> (\<exists>is. hid_interfaces d = Some (Ok is) \<and> map (\<lambda>dev. if_number (hid_interface dev)) devs = map if_number is)
        \<and> h_claimed h' = h_claimed h @ concat (map (\<lambda>dev. hc_owned (hid_claim dev)) devs)
    | (_, h') \<Rightarrow> h_claimed h' = h_claimed h \<and> h_leased h' = h_leased h)
   \<and> (case serial_open_all S A d h of
      (Val opened, h') \<Rightarrow> (\<exists>ps. ports d = Some (Ok ps) \<and> list_all2 (\<lambda>p q. \<exists>h h'. open_port S A d p h = (Val q, h')) ps opened)
        \<and> h_claimed h' = h_claimed h @ concat (map (\<lambda>q. hc_owned (sp_claim (fst q))) opened)
    | (_, h') \<Rightarrow> h_claimed h' = h_claimed h \<and> h_leased h' = h_leased h)"
proof -
  have "case open_with S [interface] (msc_start S alt interface ep_in ep_out) h of
      (Val d, h') \<Rightarrow> interface \<in> set (h_claimed h') \<and> interface \<notin> set (h_leased h)
        \<and> h_claimed (claim_drop S (mc_claim d) h') = h_claimed h \<and> h_leased (claim_drop S (mc_claim d) h') = h_leased h
    | (_, h') \<Rightarrow> h_claimed h' = h_claimed h \<and> h_leased h' = h_leased h"
  proof (cases "open_with S [interface] (msc_start S alt interface ep_in ep_out) h")
    case (Pair r h')
    note e = msc_class.open_effect [OF Pair]
    show ?thesis
    proof (cases r)
      case (Val d)
      with Pair msc_class.open_close [where S = S and interface = interface and alt = alt and h = h and d = d and h' = h'] e show ?thesis by simp
    qed (use Pair e in simp_all)
  qed
  then show ?thesis using net_class.open_owns port_owns camera_owns all_or_nothing [where S = S and d = d and h = h and A = A] by blast
qed

text \<open>
  C26: Claiming every interface of a device either succeeds, with exactly the interfaces of the active configuration added to those claimed before, or fails with the claims as they were; it never panics and never touches leases.
\<close>

theorem claim_all_all_or_nothing:
  assumes "claim_all_interfaces S d h = (r, h')"
  shows "r \<noteq> Panic \<and> h_leased h' = h_leased h \<and> (\<forall>e. r = Fail e \<longrightarrow> h_claimed h' = h_claimed h) \<and>
    (r = Val () \<longrightarrow> (\<exists>cfg. active_config d = Some (Ok cfg) \<and>
       set (h_claimed h') = set (h_claimed h) \<union> ig_number ` set (cfg_interfaces cfg)))"
  using assms by (rule claim_all_effect)

definition sample_device_descriptor :: device_descriptor where
  "sample_device_descriptor = \<lparr>dd_usb_version = Version 0x200, dd_class = 0, dd_sub_class = 0, dd_protocol = 0, dd_max_packet_size_0 = 64,
     dd_vendor_id = 0x1234, dd_product_id = 0x5678, dd_device_version = Version 0x100, dd_manufacturer = 0, dd_product = 0,
     dd_serial_number = 0, dd_num_configurations = 1\<rparr>"

definition sample_info :: "unit device_info" where
  "sample_info = \<lparr>di_bus_number = 1, di_address = 4, di_port_numbers = [2], di_speed = SpeedHigh,
     di_descriptor = sample_device_descriptor, di_configs = [config_bytes sample_config],
     di_active_config = None, di_location = ()\<rparr>"

theorem claim_all_all_or_nothing_witness:
  "fst (claim_all_interfaces disk_sys sample_info (ms_handle sample_storage)) \<noteq> Panic"
  using claim_all_all_or_nothing [OF prod.collapse [symmetric], of disk_sys sample_info "ms_handle sample_storage"] by blast

text \<open>
  C27: Decoding a field of a HID report is exact: for every descriptor the parser accepts, every field of it, every index and every report at least as long as declared, an element of 1 to 32 bits has as its value the integer in its bits of the report read as one little-endian number, sign-extended exactly when the logical minimum is negative; an element of no bits or of more than 32, and an index outside the field, has none. No report makes the decoder panic.
\<close>

theorem hid_field_values:
  assumes "report_parse b = Ok d" "f \<in> set (rd_fields d)"
  shows "field_value f report index \<noteq> None
    \<and> (\<forall>n. report_len (f_report_type f) (f_report_id f) d = Some n \<and> n \<le> length report \<longrightarrow>
        field_value f report index = Some (if index < f_count f \<and> 0 < f_bit_size f \<and> f_bit_size f \<le> 32
          then Some (element_value f report (unat index)) else None))"
proof -
  have "field_value f report index = Some None" if "\<not> (index < f_count f \<and> 0 < f_bit_size f \<and> f_bit_size f \<le> 32)"
  proof -
    have "f_count f \<le> index \<or> f_bit_size f = 0 \<or> 32 < f_bit_size f" using that word_neq_0_conv [of "f_bit_size f"] by (auto simp: not_less not_le)
    then show ?thesis by (simp add: field_value_def)
  qed
  moreover have "field_value f report index = Some (Some (element_value f report (unat index)))"
    if "index < f_count f" "0 < f_bit_size f" "f_bit_size f \<le> 32" "report_len (f_report_type f) (f_report_id f) d = Some n" "n \<le> length report" for n
    using report_value [OF assms that(1) _ that(3-5)] that(2) by (simp add: word_neq_0_conv)
  ultimately show ?thesis using report_value_no_panic [OF assms] by auto
qed

definition sample_mouse :: bytes where
  "sample_mouse = [0x05, 0x01, 0x09, 0x30, 0x15, 0x81, 0x25, 0x7F, 0x75, 0x08, 0x95, 0x01, 0x81, 0x06]"

definition sample_field :: hid_field where
  "sample_field = \<lparr>f_report_type = Input, f_report_id = 0, f_bit_offset = 0, f_bit_size = 8, f_count = 1, f_flags = 6,
     f_usages = UsageList [Usage 65584], f_logical_min = -127, f_logical_max = 127, f_physical_min = 0, f_physical_max = 0,
     f_unit_exponent = 0, f_unit = 0\<rparr>"

definition sample_descriptor :: report_descriptor where
  "sample_descriptor = \<lparr>rd_fields = [sample_field], rd_application_usages = [], rd_reports = [((Input, 0), 8)], rd_uses_ids = False\<rparr>"

lemma sample_items:
  "items sample_mouse = [\<lparr>it_kind = ItGlobal, it_tag = 0, it_data = [1]\<rparr>, \<lparr>it_kind = ItLocal, it_tag = 0, it_data = [0x30]\<rparr>,
     \<lparr>it_kind = ItGlobal, it_tag = 1, it_data = [0x81]\<rparr>, \<lparr>it_kind = ItGlobal, it_tag = 2, it_data = [0x7F]\<rparr>,
     \<lparr>it_kind = ItGlobal, it_tag = 7, it_data = [8]\<rparr>, \<lparr>it_kind = ItGlobal, it_tag = 9, it_data = [1]\<rparr>,
     \<lparr>it_kind = ItMain, it_tag = 8, it_data = [6]\<rparr>]"
  by (simp add: sample_mouse_def items.simps(2) short_size_def short_kind_def Let_def)

lemma sample_parse: "report_parse sample_mouse = Ok sample_descriptor"
  by (simp add: report_parse_def sample_items parse_item_def parse_global_def parse_local_def parse_main_def parse_field_def Let_def
    hid_parse_start_def globals_default_def item_unsigned_def item_signed_def resize_def u32_le_def resolve_def usage_new_def
    report_bits_def main_report_type_def fixed_logical_max_def sample_descriptor_def sample_field_def)

lemma sample_field_in: "sample_field \<in> set (rd_fields sample_descriptor)"
  by (simp add: sample_descriptor_def)

lemma sample_report_len: "report_len Input 0 sample_descriptor = Some 1"
  by (simp add: report_len_def sample_descriptor_def div_ceil_def)

theorem hid_field_values_witness:
  "field_value sample_field [0xFE] 0 = Some (Some (-2))"
proof -
  have "field_value sample_field [0xFE] 0 = Some (Some (element_value sample_field [0xFE] (unat (0 :: u32))))"
    using hid_field_values [OF sample_parse sample_field_in, of "[0xFE]" 0] sample_report_len by (simp add: sample_field_def)
  moreover have "element_value sample_field [0xFE] 0 = -2"
    by (simp add: element_value_def sample_field_def report_number_def)
  ultimately show ?thesis by simp
qed

text \<open>
  C28: Splitting a HID report descriptor into items inverts the encoding of well-formed items, short ones and long ones; and the HID parser keeps its layout invariant whatever the descriptor: fields of a report lie end to end from bit 0, the size recorded for a report is the sum of its fields and below 2^32 bits, report sizes are recorded once per report, and so every field lies inside the declared length of its report.
\<close>

theorem hid_layout:
  assumes "report_parse b = Ok d" "f \<in> set (rd_fields d)" "\<forall>it \<in> set its. wf_item it"
  shows "layout_ok d \<and> (\<exists>n. report_len (f_report_type f) (f_report_id f) d = Some n \<and> unat (f_bit_offset f) + field_bits f \<le> 8 * n)
    \<and> items (concat (map item_bytes its)) = its"
  using report_parse_ok(1) [OF assms(1)] report_parse_field(2) [OF assms(1,2)] items_bytes [OF assms(3)] by blast

theorem hid_layout_witness:
  "layout_ok sample_descriptor \<and> report_len Input 0 sample_descriptor = Some 1
     \<and> items (concat (map item_bytes [\<lparr>it_kind = ItGlobal, it_tag = 7, it_data = [8]\<rparr>, \<lparr>it_kind = ItReserved, it_tag = 3, it_data = [1, 2, 3]\<rparr>]))
     = [\<lparr>it_kind = ItGlobal, it_tag = 7, it_data = [8]\<rparr>, \<lparr>it_kind = ItReserved, it_tag = 3, it_data = [1, 2, 3]\<rparr>]"
proof -
  have "\<forall>it \<in> set [\<lparr>it_kind = ItGlobal, it_tag = 7, it_data = [8]\<rparr>, \<lparr>it_kind = ItReserved, it_tag = 3, it_data = [1, 2, 3]\<rparr>]. wf_item it"
    by (simp add: wf_item_def short_item_def item_prefix_def size_code_def)
  from hid_layout [OF sample_parse sample_field_in this] show ?thesis using sample_report_len by blast
qed

text \<open>
  C29: Parsing the class-specific descriptors of a video streaming interface inverts their encoding: formats (uncompressed, MJPEG, frame-based) with their frame sizes and discrete or continuous intervals come back as they were; and no bytes of a device make the parser of a streaming or of a control interface panic.
\<close>

theorem video_formats_roundtrip:
  assumes "list_all wf_format (si_formats s)" "if_number i = si_interface s" "if_extra i = concat (stream_descriptors s)" "if_endpoints i = []"
  shows "streaming_parse i = Some (Some s) \<and> streaming_parse j \<noteq> None \<and> control_parse j \<noteq> None"
  using streaming_roundtrip [OF assms] streaming_parse_total control_parse_total by blast

definition sample_streaming :: streaming_interface where
  "sample_streaming = \<lparr>si_interface = 1, si_endpoint = 0x81, si_formats =
     [\<lparr>fm_index = 1, fm_kind = Uncompressed (replicate 16 0x59) 16, fm_default_frame_index = 1, fm_frames =
        [\<lparr>fd_index = 1, fd_width = 640, fd_height = 480, fd_max_frame_size = 614400, fd_default_interval = 333333,
           fd_intervals = Discrete [333333, 666666]\<rparr>]\<rparr>,
      \<lparr>fm_index = 2, fm_kind = Mjpeg, fm_default_frame_index = 1, fm_frames =
        [\<lparr>fd_index = 1, fd_width = 1280, fd_height = 720, fd_max_frame_size = 1843200, fd_default_interval = 333333,
           fd_intervals = Continuous 333333 10000000 333333\<rparr>]\<rparr>]\<rparr>"

theorem video_formats_roundtrip_witness:
  "streaming_parse ((sample_interface 0)\<lparr>if_number := 1, if_extra := concat (stream_descriptors sample_streaming), if_endpoints := []\<rparr>)
     = Some (Some sample_streaming)"
  using video_formats_roundtrip [of sample_streaming
      "(sample_interface 0)\<lparr>if_number := 1, if_extra := concat (stream_descriptors sample_streaming), if_endpoints := []\<rparr>"]
  by (simp add: sample_streaming_def wf_format_def wf_frame_def)

text \<open>
  C30: An FTDI chip is asked for a baud rate exactly when it is between 184 and the chip's maximum; the divisor put together again from the request, read as the data sheet does, is then the multiple of an eighth nearest to the ideal one (for the FT8U232AM, within the steps of its two fraction bits), the 120 MHz clock is selected exactly on high-speed chips from 1200 baud, and the low byte of the index keeps the channel.
\<close>

theorem ftdi_baud_rates:
  assumes "interface < 255"
  shows "case baud_request chip (ftdi_channel chip interface) baud of
      Inl e \<Rightarrow> (unat baud < 184 \<or> max_baud_rate chip < unat baud)
    | Inr (value, index) \<Rightarrow> 184 \<le> unat baud \<and> unat baud \<le> max_baud_rate chip
        \<and> (let d = request_divisor (ftdi_channel chip interface) (value, index);
               e = eighths_of chip d; slack = (if chip = FtAm then 2 else 0)
           in 2 * e * unat baud \<le> 2 * clock_eighths d + (1 + slack) * unat baud
              \<and> 2 * clock_eighths d < (2 * e + 1 + 2 * slack) * unat baud
              \<and> (clock_eighths d = 96000000 \<longleftrightarrow> is_high_speed chip \<and> 1200 \<le> unat baud))
        \<and> (if ftdi_channel chip interface = 0 then index < 256 else unat index mod 256 = unat (ftdi_channel chip interface))"
proof (cases rule: baud_request_cases [of baud chip "ftdi_channel chip interface"])
  case (2 d)
  note d = divisor_of_read [OF 2(3) _ 2(2)]
  have c: "d < 262144" using d(1) 2(1) by simp
  have "unat (of_nat (drop_bit 16 d) :: u16) < 256"
    using c by (simp only: unsigned_of_nat) (simp add: take_bit_eq_mod drop_bit_eq_div)
  moreover have "2 * eighths_of chip d * unat baud \<le> 2 * clock_eighths d + (1 + (if chip = FtAm then 2 else 0)) * unat baud"
    "2 * clock_eighths d < (2 * eighths_of chip d + 1 + 2 * (if chip = FtAm then 2 else 0)) * unat baud"
    using d(3,4) 2(1) by (cases "chip = FtAm"; simp add: algebra_simps)+
  moreover have "clock_eighths d = 96000000 \<longleftrightarrow> is_high_speed chip \<and> 1200 \<le> unat baud"
    using d(2) 2(1) by (simp add: clock_eighths_def)
  ultimately show ?thesis
    using 2 request_divisor_eq [OF c ftdi_channel_small [OF assms]] by (auto simp: Let_def word_less_nat_alt)
qed simp

theorem ftdi_baud_rates_witness:
  "case baud_request Ft232R (ftdi_channel Ft232R 0) 9600 of Inr (value, index) \<Rightarrow> value = 0x4138 \<and> 184 \<le> unat (9600 :: u32) | _ \<Rightarrow> False"
proof -
  have "baud_request Ft232R (ftdi_channel Ft232R 0) 9600 = Ok (0x4138, 0)"
    by (simp add: baud_request_def divisor_of_def bm_divisor_def max_baud_rate_def is_high_speed_def ftdi_channel_def DIVFRAC_def
        Let_def drop_bit_eq_div and_7)
  with ftdi_baud_rates [where interface = 0 and chip = Ft232R and baud = 9600] show ?thesis by simp
qed

text \<open>
  C31: The fixed layouts on the wire are read back as they were written: setup packets (one to one with eight bytes, the request type byte determining what it was built from), device descriptors (any other bytes give a descriptor or an error), serial line codings, video control blocks cut to the size of the device's version, and integer controls of one to four bytes, signed or not, whose value fits them. So are string descriptors: any text of Unicode scalar values other than NUL whose UTF-16 form fits a descriptor, characters outside the basic plane included, is read back unchanged, whatever follows it. Decoding one panics on exactly one kind of input: at least two bytes, of type STRING, whose length byte is below 2 (the slice then ends before it starts).
\<close>

theorem fixed_codecs:
  assumes "length b = 8" "length (sc_uvc15_tail c) = 14" "1 \<le> n" "n \<le> 4" "int_fits n sg v"
    and "\<forall>x \<in> set s. scalar x" "2 + 2 * length (string_units s) \<le> 255"
  shows "setup_from_bytes (setup_to_bytes su) = su \<and> setup_to_bytes (setup_from_bytes b) = b
    \<and> (request_type d k r = request_type d' k' r' \<longleftrightarrow> d = d' \<and> k = k' \<and> r = r')
    \<and> device_from_bytes (device_to_bytes desc @ rest) = Some (Ok desc) \<and> device_from_bytes junk \<noteq> None
    \<and> line_coding_parse (line_coding line @ rest) = line \<and> length (line_coding line) = 7
    \<and> stream_control_from_bytes (take (wire_size version) (stream_control_to_bytes c)) = known_fields version c
    \<and> (\<exists>w. control_int_bytes n v = Some w \<and> length w = n \<and> control_int (w @ replicate (4 - n) 0) n sg = sint v)
    \<and> decode_string_descriptor (string_bytes s @ junk) = Some (Ok s)
    \<and> (decode_string_descriptor data = None \<longleftrightarrow> 2 \<le> length data \<and> data ! 1 = DT_STRING \<and> unat (data ! 0) < 2)"
  using setup_codec.dec_exact [of su] setup_bytes_surj [OF assms(1)] request_type_inject [of d k r d' k' r']
    device_from_to_bytes [of desc rest] device_from_bytes_total [of junk] line_codec.dec_enc [of line rest] line_codec.length_enc [of line]
    stream_control_known [OF assms(2)] control_int_roundtrip [OF assms(3-5)]
    decode_string_bytes [OF assms(6,7)] decode_string_panics_iff
  by simp

theorem fixed_codecs_witness:
  "setup_to_bytes (setup_from_bytes [0x80, 6, 0, 1, 0, 0, 18, 0]) = [0x80, 6, 0, 1, 0, 0, 18, 0]
   \<and> (\<exists>w. control_int_bytes 2 (- 64) = Some w \<and> control_int (w @ [0, 0]) 2 True = - 64)
   \<and> decode_string_descriptor (string_bytes [0x55, 0x1F600] @ [9]) = Some (Ok [0x55, 0x1F600])"
proof -
  have f: "length [0x80 :: u8, 6, 0, 1, 0, 0, 18, 0] = 8" "length (sc_uvc15_tail (stream_control_new 2 1 333333)) = 14"
    "int_fits 2 True (- 64)"
    by (simp_all add: stream_control_new_def stream_control_from_bytes_def int_fits_def)
  have r: "replicate (4 - 2) (0 :: u8) = [0, 0]" "sint (- 64 :: u64) = - 64" by (simp_all add: numeral_2_eq_2)
  have "1 \<le> (2 :: nat)" "2 \<le> (4 :: nat)" by simp_all
  moreover have "\<forall>c \<in> set [0x55, 0x1F600]. scalar c" "2 + 2 * length (string_units [0x55, 0x1F600]) \<le> 255"
    by (simp_all add: scalar_def is_high_def is_low_def string_units_def utf16_of_def)
  ultimately have "setup_to_bytes (setup_from_bytes [0x80, 6, 0, 1, 0, 0, 18, 0]) = [0x80, 6, 0, 1, 0, 0, 18, 0]
     \<and> (\<exists>w. control_int_bytes 2 (- 64) = Some w \<and> length w = 2 \<and> control_int (w @ replicate (4 - 2) 0) 2 True = sint (- 64 :: u64))
     \<and> decode_string_descriptor (string_bytes [0x55, 0x1F600] @ [9]) = Some (Ok [0x55, 0x1F600])"
    using fixed_codecs [OF f(1,2) _ _ f(3), where s = "[0x55, 0x1F600]" and junk = "[9]"] by blast
  then show ?thesis unfolding r by blast
qed

text \<open>
  C32: Among the alternate settings of the interface that have the endpoint as an isochronous one with some bandwidth, the one chosen for a video stream covers the negotiated payload with the least bandwidth that does; when none covers it, it has the most bandwidth there is. A setting is chosen whenever there is one of that kind.
\<close>

theorem camera_alt_setting:
  shows "(choose_alt (alt_candidates g ep) need = Some (bw, alt) \<longrightarrow>
      (\<exists>a \<in> set (ig_alt_settings g). \<exists>e. if_endpoint a ep = Some e \<and> ep_transfer_type e = Isochronous
        \<and> bw = iso_bandwidth e \<and> alt = if_alternate_setting a \<and> 0 < bw)
      \<and> (\<forall>a \<in> set (ig_alt_settings g). \<forall>e. if_endpoint a ep = Some e \<and> ep_transfer_type e = Isochronous \<and> 0 < iso_bandwidth e \<longrightarrow>
          (if need \<le> unat (iso_bandwidth e) then need \<le> unat bw \<and> bw \<le> iso_bandwidth e else need \<le> unat bw \<or> iso_bandwidth e \<le> bw)))
    \<and> (choose_alt (alt_candidates g ep) need = None \<longleftrightarrow>
      \<not> (\<exists>a \<in> set (ig_alt_settings g). \<exists>e. if_endpoint a ep = Some e \<and> ep_transfer_type e = Isochronous \<and> 0 < iso_bandwidth e))"
proof (intro conjI impI ballI allI)
  assume c: "choose_alt (alt_candidates g ep) need = Some (bw, alt)"
  note best = choose_alt_best [OF sorted_candidates c]
  from best(1) show "\<exists>a \<in> set (ig_alt_settings g). \<exists>e. if_endpoint a ep = Some e \<and> ep_transfer_type e = Isochronous
      \<and> bw = iso_bandwidth e \<and> alt = if_alternate_setting a \<and> 0 < bw"
    by (auto simp: candidate_iff)
  fix a e
  assume "a \<in> set (ig_alt_settings g)" "if_endpoint a ep = Some e \<and> ep_transfer_type e = Isochronous \<and> 0 < iso_bandwidth e"
  then have "(iso_bandwidth e, if_alternate_setting a) \<in> set (alt_candidates g ep)" by (auto simp: candidate_iff)
  then show "if need \<le> unat (iso_bandwidth e) then need \<le> unat bw \<and> bw \<le> iso_bandwidth e else need \<le> unat bw \<or> iso_bandwidth e \<le> bw"
    using best(2) best(3) [of "(iso_bandwidth e, if_alternate_setting a)"] by fastforce
next
  have "choose_alt (alt_candidates g ep) need = None \<longleftrightarrow> alt_candidates g ep = []"
    by (auto simp: choose_alt_def split: option.split)
  also have "\<dots> \<longleftrightarrow> \<not> (\<exists>b s. (b, s) \<in> set (alt_candidates g ep))" by (cases "alt_candidates g ep") auto
  finally show "choose_alt (alt_candidates g ep) need = None \<longleftrightarrow>
      \<not> (\<exists>a \<in> set (ig_alt_settings g). \<exists>e. if_endpoint a ep = Some e \<and> ep_transfer_type e = Isochronous \<and> 0 < iso_bandwidth e)"
    unfolding candidate_iff by blast
qed

definition sample_iso_endpoint :: "u16 \<Rightarrow> endpoint_descriptor" where
  "sample_iso_endpoint mps = sample_endpoint\<lparr>ep_attributes := 5, ep_max_packet := mps, ep_ss_companion := None\<rparr>"

definition sample_video_alts :: interface_group where
  "sample_video_alts = \<lparr>ig_number = 0, ig_alt_settings = [(sample_interface 0)\<lparr>if_endpoints := []\<rparr>,
     (sample_interface 1)\<lparr>if_endpoints := [sample_iso_endpoint 1024]\<rparr>, (sample_interface 2)\<lparr>if_endpoints := [sample_iso_endpoint 192]\<rparr>,
     (sample_interface 3)\<lparr>if_endpoints := [sample_iso_endpoint 512]\<rparr>]\<rparr>"

theorem camera_alt_setting_witness:
  "choose_alt (alt_candidates sample_video_alts 0x81) 500 = Some (512, 3)
     \<and> (\<exists>a \<in> set (ig_alt_settings sample_video_alts). if_alternate_setting a = 3) \<and> (512 :: u32) \<le> iso_bandwidth (sample_iso_endpoint 1024)"
proof -
  have c: "choose_alt (alt_candidates sample_video_alts 0x81) 500 = Some (512, 3)" by code_simp
  have e: "if_endpoint ((sample_interface 1)\<lparr>if_endpoints := [sample_iso_endpoint 1024]\<rparr>) 0x81 = Some (sample_iso_endpoint 1024)"
    "ep_transfer_type (sample_iso_endpoint 1024) = Isochronous" "500 \<le> unat (iso_bandwidth (sample_iso_endpoint 1024))" "0 < iso_bandwidth (sample_iso_endpoint 1024)"
    by code_simp+
  have m: "(sample_interface 1)\<lparr>if_endpoints := [sample_iso_endpoint 1024]\<rparr> \<in> set (ig_alt_settings sample_video_alts)"
    by (simp add: sample_video_alts_def)
  from camera_alt_setting [of sample_video_alts "0x81" 500 512 3] c m e show ?thesis by (metis (no_types, lifting))
qed

text \<open>
  C33: Looking a device up by serial number, in one enumeration: the device returned is one of those enumerated, a candidate, and has that serial, as the operating system or, through a handle opened for it, the device itself reports; when none is returned, no candidate is known to the operating system by that serial. When the operating system knows every candidate's serial, the first with the serial is returned and nothing is done to any device: the world is as the enumeration left it, and what opening a device or asking it would do is of no matter.
\<close>

theorem serial_lookup:
  assumes "sys_enumerate c k = (Ok ds, k1)" "lookup_serial c ids serial k = (r, k')"
  shows "(\<forall>d ho. r = Ok (Some (d, ho)) \<longrightarrow> d \<in> set ds \<and> serial_candidate ids d \<and> (case ho of
        None \<Rightarrow> serial_number (sys_serial c) d = Some serial
      | Some h \<Rightarrow> serial_number (sys_serial c) d = None \<and>
          (\<exists>k1 k2. sys_open c d k1 = (Ok h, k2) \<and> read_serial c h k2 = (Inr (Some serial), k'))))
    \<and> (\<forall>e. r \<noteq> Inl e)
    \<and> (r = Ok None \<longrightarrow> (\<forall>d \<in> set ds. serial_candidate ids d \<longrightarrow> serial_number (sys_serial c) d \<noteq> Some serial))
    \<and> ((\<forall>d \<in> set ds. serial_candidate ids d \<longrightarrow> serial_number (sys_serial c) d \<noteq> None) \<longrightarrow>
        k' = k1 \<and> r = Ok (map_option (\<lambda>d. (d, None)) (find (\<lambda>d. serial_candidate ids d \<and> serial_number (sys_serial c) d = Some serial) ds))
        \<and> lookup_serial (c\<lparr>sys_open := op1, read_serial := rd1, close_handle := cl1\<rparr>) ids serial k = (r, k'))"
proof -
  let ?ds = "filter (serial_candidate ids) ds" and ?c = "c\<lparr>sys_open := op1, read_serial := rd1, close_handle := cl1\<rparr>"
  obtain x where x: "serial_loop c serial ?ds k1 = (x, k')" "r = Ok x"
    using assms by (auto simp: lookup_serial_def split: prod.splits)
  have f: "find (\<lambda>d. serial_number (sys_serial c) d = Some serial) (filter (serial_candidate ids) xs)
      = find (\<lambda>d. serial_candidate ids d \<and> serial_number (sys_serial c) d = Some serial) xs" for xs by (induction xs) auto
  have known: "serial_loop b serial ?ds k1 = (map_option (\<lambda>d. (d, None)) (find (\<lambda>d. serial_candidate ids d \<and> serial_number (sys_serial c) d = Some serial) ds), k1)"
    if "\<forall>d \<in> set ds. serial_candidate ids d \<longrightarrow> serial_number (sys_serial c) d \<noteq> None" "sys_serial b = sys_serial c" for b
    using serial_loop_known [of ?ds b serial k1] that f [of ds] by simp
  have "lookup_serial ?c ids serial k = (r, k')"
    if "\<forall>d \<in> set ds. serial_candidate ids d \<longrightarrow> serial_number (sys_serial c) d \<noteq> None"
    using known [OF that, of c] known [OF that, of ?c] x assms(1) by (simp add: lookup_serial_def)
  moreover have "k' = k1 \<and> r = Ok (map_option (\<lambda>d. (d, None)) (find (\<lambda>d. serial_candidate ids d \<and> serial_number (sys_serial c) d = Some serial) ds))"
    if "\<forall>d \<in> set ds. serial_candidate ids d \<longrightarrow> serial_number (sys_serial c) d \<noteq> None"
    using known [OF that HOL.refl] x by simp
  moreover have "d \<in> set ds \<and> serial_candidate ids d \<and> (case ho of
        None \<Rightarrow> serial_number (sys_serial c) d = Some serial
      | Some h \<Rightarrow> serial_number (sys_serial c) d = None \<and>
          (\<exists>k1 k2. sys_open c d k1 = (Ok h, k2) \<and> read_serial c h k2 = (Inr (Some serial), k')))" if "r = Ok (Some (d, ho))" for d ho
    using serial_loop_sound [of c serial ?ds k1 d ho k'] x that by simp
  moreover have "serial_number (sys_serial c) d \<noteq> Some serial" if "r = Ok None" "d \<in> set ds" "serial_candidate ids d" for d
    using serial_loop_misses [of c serial ?ds k1 k' d] x that by simp
  ultimately show ?thesis using x(2) by blast
qed

definition sample_context :: "(nat, unit, unit) sys_context" where
  "sample_context = \<lparr>sys_enumerate = (\<lambda>k. (Ok [sample_info\<lparr>di_descriptor := sample_device_descriptor\<lparr>dd_serial_number := 3\<rparr>\<rparr>], k)),
     sys_open = (\<lambda>_ k. (Ok (), k + 1)), sys_serial = (\<lambda>_. Some [0x41]), read_serial = (\<lambda>_ k. (Ok (Some [0x41]), k)),
     close_handle = (\<lambda>_ k. k - 1)\<rparr>"

theorem serial_lookup_witness:
  "\<exists>d. lookup_serial sample_context [] [0x41] 0 = (Ok (Some (d, None)), 0) \<and> serial_number (sys_serial sample_context) d = Some [0x41]"
proof -
  let ?d = "sample_info\<lparr>di_descriptor := sample_device_descriptor\<lparr>dd_serial_number := 3\<rparr>\<rparr>"
  have e: "sys_enumerate sample_context 0 = (Ok [?d], 0)" by (simp add: sample_context_def)
  have r: "lookup_serial sample_context [] [0x41] 0 = (Ok (Some (?d, None)), 0)"
    by (simp add: lookup_serial_def sample_context_def serial_candidate_def serial_number_def)
  have "serial_number (sys_serial sample_context) ?d = Some [0x41]"
    using conjunct1 [OF serial_lookup [OF e r], THEN spec, THEN spec, THEN mp, OF HOL.refl] by simp
  with r show ?thesis by blast
qed

text \<open>
  C34: Queries on the active configuration of any device are well typed. Neither they nor reading the configuration panics; the configuration is well grouped: interface numbers are distinct, every interface has an alternate setting, all its settings carry its number, and the default setting is setting 0 where there is one and the first otherwise. The settings a query returns are exactly the default settings that satisfy it, in the order of the interfaces, at most one per number; the first of them is what \<open>find_interface\<close> gives, and an unreadable configuration is the error it is.
\<close>

theorem type_of_groups:
  shows "active_config d \<noteq> None \<and> interfaces_where d P \<noteq> None \<and> find_interface d P \<noteq> None
    \<and> (\<forall>e. active_config d = Some (Inl e) \<longrightarrow> interfaces_where d P = Some (Inl e) \<and> find_interface d P = Some (Inl e))
    \<and> (\<forall>c. active_config d = Some (Ok c) \<longrightarrow>
        distinct (map ig_number (cfg_interfaces c))
      \<and> (\<forall>g \<in> set (cfg_interfaces c). ig_alt_settings g \<noteq> [] \<and> (\<forall>a \<in> set (ig_alt_settings g). if_number a = ig_number g)
          \<and> default_alt g = Some (case find (\<lambda>a. if_alternate_setting a = 0) (ig_alt_settings g) of Some a \<Rightarrow> a | None \<Rightarrow> hd (ig_alt_settings g)))
      \<and> interfaces_where d P = Some (Ok (filter P (map (\<lambda>g. the (default_alt g)) (cfg_interfaces c))))
      \<and> distinct (map if_number (filter P (map (\<lambda>g. the (default_alt g)) (cfg_interfaces c))))
      \<and> find_interface d P = Some (case filter P (map (\<lambda>g. the (default_alt g)) (cfg_interfaces c)) of a # as \<Rightarrow> Ok a | [] \<Rightarrow> Err NotFound))"
proof (intro conjI impI allI ballI)
  show "active_config d \<noteq> None" "interfaces_where d P \<noteq> None" "find_interface d P \<noteq> None"
    by (rule active_config_total interfaces_where_total find_interface_total)+
  show "interfaces_where d P = Some (Inl e)" "find_interface d P = Some (Inl e)" if "active_config d = Some (Inl e)" for e
    using that by (simp_all add: find_interface_def interfaces_where_def)
  fix c
  assume c: "active_config d = Some (Ok c)"
  note wf = active_config_wf [OF c]
  have w: "interfaces_where d P = Some (Ok (filter P (map (\<lambda>g. the (default_alt g)) (cfg_interfaces c))))"
    using interfaces_where_eq [OF c] by (simp add: comp_def)
  show "distinct (map ig_number (cfg_interfaces c))" using wf by (simp add: wf_groups_def)
  show "interfaces_where d P = Some (Ok (filter P (map (\<lambda>g. the (default_alt g)) (cfg_interfaces c))))" by (rule w)
  show "distinct (map if_number (filter P (map (\<lambda>g. the (default_alt g)) (cfg_interfaces c))))" using interfaces_where_sound(2) [OF w] .
  show "find_interface d P = Some (case filter P (map (\<lambda>g. the (default_alt g)) (cfg_interfaces c)) of a # as \<Rightarrow> Ok a | [] \<Rightarrow> Err NotFound)"
    by (simp add: find_interface_def w split: list.split)
  fix g
  assume g: "g \<in> set (cfg_interfaces c)"
  show "ig_alt_settings g \<noteq> []" using wf g by (auto simp: wf_groups_def)
  show "if_number a = ig_number g" if "a \<in> set (ig_alt_settings g)" for a using wf g that by (auto simp: wf_groups_def)
  show "default_alt g = Some (case find (\<lambda>a. if_alternate_setting a = 0) (ig_alt_settings g) of Some a \<Rightarrow> a | None \<Rightarrow> hd (ig_alt_settings g))"
    by (rule default_alt_eq [OF wf g])
qed

theorem type_of_groups_witness:
  "interfaces_where sample_info (\<lambda>a. if_class a = 8) = Some (Ok [sample_interface 0])
     \<and> find_interface sample_info (\<lambda>a. if_class a = 8) = Some (Ok (sample_interface 0))"
proof -
  have c: "active_config sample_info = Some (Ok sample_config)"
    using config_from_config_bytes [OF sample_config_wf, of "[]"]
    by (simp add: active_config_def device_config_def sample_info_def)
  have f: "filter (\<lambda>a. if_class a = 8) (map (\<lambda>g. the (default_alt g)) (cfg_interfaces sample_config)) = [sample_interface 0]"
    by (simp add: default_alt_def ig_alt_setting_def sample_config_def sample_interface_def)
  from type_of_groups [of sample_info "\<lambda>a. if_class a = 8"] c f show ?thesis by simp
qed

text \<open>
  C35: Entering a request in \<open>pending\<close> only after the system was given it is a flaw: the completion may be picked up in between, and then the entry made afterwards stays for good although nothing is outstanding; with such an entry, submitting the same transfer again can deadlock for ever with the event thread, which holds \<open>pending\<close> while it asks each transfer for its deadline. Were the completion not picked up before the entry is made, no history would leave a stale entry or deadlock.
\<close>

theorem early_completion_deadlocks:
  fixes status :: "'r \<Rightarrow> 'a request_scheme \<Rightarrow> transfer_status"
  shows "(\<exists>b. book_reach True status books_new b \<and> quiet b \<and> bk_pending b = [(key, tid)])
    \<and> (\<exists>b. book_reach True status books_new b \<and> deadlocked tid b \<and> (\<forall>b'. book_reach True status b b' \<longrightarrow> deadlocked tid b'))
    \<and> (\<forall>b. book_reach False status books_new b \<longrightarrow> \<not> deadlocked tid b \<and> (quiet b \<longrightarrow> bk_pending b = []))"
proof (intro conjI allI impI)
  fix s :: "'a request_scheme" and r :: 'r
  show "\<exists>b. book_reach True status books_new b \<and> quiet b \<and> bk_pending b = [(key, tid)]"
    using early_run_reach [of status key tid s r] early_run_state(1,2) [of key tid s r status] by blast
  show "\<exists>b. book_reach True status books_new b \<and> deadlocked tid b \<and> (\<forall>b'. book_reach True status b b' \<longrightarrow> deadlocked tid b')"
    using early_deadlock_reach [of status tid] deadlocked_forever by blast
  fix b assume "book_reach False status books_new b"
  then have "books_tight b" using book_reach_tight books_new_inv by blast
  then show "\<not> deadlocked tid b" "quiet b \<Longrightarrow> bk_pending b = []" using tight_no_deadlock quiet_empty by blast+
qed

theorem early_completion_deadlocks_witness:
  "(\<exists>b. book_reach True win_status (books_new :: (unit, completion) books) b \<and> quiet b \<and> bk_pending b = [(9, 4)])
   \<and> (\<exists>b. book_reach True win_status (books_new :: (unit, completion) books) b \<and> deadlocked 4 b)
   \<and> \<not> deadlocked 4 (bk_issue 9 4 plain_request (books_new :: (unit, completion) books))"
proof -
  have "book_reach False win_status (books_new :: (unit, completion) books) (bk_issue 9 4 plain_request books_new)"
    by (rule book_reach.step [OF book_reach.refl book_step.issue]) (simp_all add: books_new_def)
  with early_completion_deadlocks [of "win_status :: completion \<Rightarrow> unit request_scheme \<Rightarrow> transfer_status" 9 4] show ?thesis by blast
qed

text \<open>
  C36: Enumeration on Windows names devices by bus and ports: with at most 255 hubs, and ports that tell the children of a hub apart, the list it gives has no two devices with the same bus and port numbers and is sorted by bus and address; and enumerating does not panic unless a GUID in the registry makes the parser panic.
\<close>

theorem win_enumerate_names:
  assumes "ports_distinct env" "\<And>hubs. we_class env GUID_USB_HUB = Inr hubs \<Longrightarrow> length hubs \<le> 255"
    "\<And>dev. device_interface_guids env dev \<noteq> None"
  shows "(\<exists>r. win_enumerate env = Some r)
    \<and> (win_enumerate env = Some (Ok ds) \<longrightarrow> sorted (map (\<lambda>d. (di_bus_number d, di_address d)) ds)
        \<and> distinct (map (\<lambda>d. (di_bus_number d, di_port_numbers d)) ds))"
  using win_enumerate_total [of env] enumerate_names [of env ds] assms by blast

theorem win_enumerate_names_witness:
  "\<exists>ds. win_enumerate (win_sample True) = Some (Ok ds) \<and> distinct (map (\<lambda>d. (di_bus_number d, di_port_numbers d)) ds)"
proof -
  have p: "ports_distinct (win_sample True)" by (auto simp: ports_distinct_def win_sample_def)
  have h: "length hubs \<le> 255" if "we_class (win_sample True) GUID_USB_HUB = Inr hubs" for hubs
    using that by (auto simp: win_sample_def)
  have g: "device_interface_guids (win_sample True) dev \<noteq> None" for dev
    by (simp add: device_interface_guids_def win_sample_def)
  obtain r where r: "win_enumerate (win_sample True) = Some r" using win_enumerate_names [OF p h g] by blast
  then obtain ds where "win_enumerate (win_sample True) = Some (Ok ds)"
    by (auto simp: win_enumerate_def win_sample_def Let_def simp del: wlit_simps split: if_splits)
  with win_enumerate_names [OF p h g, of ds] show ?thesis by blast
qed

text \<open>
  C37: The results of an isochronous transfer on Windows describe what was moved: one result per packet, with the length asked for; the byte counts add up to the count of the whole transfer, also when the one total of an OUT transfer (no more than was asked for) is spread over the packets, where a packet that is short ends the data. A layout the submission accepts puts every packet where WinUSB puts it, at its number times the endpoint's packet size.
\<close>

theorem win_iso_results:
  assumes "n \<le> sum_list (map unat ls)"
  shows "fst (iso_results st n ds ls) = sum_list (map (\<lambda>p. unat (iso_actual p)) (snd (iso_results st n ds ls)))
    \<and> map iso_length (snd (iso_results st n ds ls)) = ls
    \<and> (ds = [] \<and> i < j \<and> j < length ls \<and> unat (iso_actual (snd (iso_results st n ds ls) ! i)) < unat (ls ! i) \<longrightarrow>
        iso_actual (snd (iso_results st n ds ls) ! j) = 0)
    \<and> (packets_ok is_in m ps \<and> i < length ps \<longrightarrow> sum_list (map (\<lambda>p. unat (iso_length p)) (take i ps)) = i * unat m)"
  using iso_results_sum [OF assms, of st ds] spread_prefix [of i j ls st n] packets_offsets [of is_in m ps i]
  by (auto simp: iso_results_def)

theorem win_iso_results_witness:
  "map (\<lambda>p. unat (iso_actual p)) (snd (iso_results Completed 5 [] [4, 4, 4])) = [4, 1, 0]
     \<and> fst (iso_results Completed 5 [] [4, 4, 4]) = 5"
  using win_iso_results [of 5 "[4, 4, 4]" Completed "[]"] by (simp add: iso_results_def)

text \<open>
  C38: Isochronous transfers on macOS never share a frame: a submission is given the first frame not before the fourth after the current one, in a range of frames that holds its packets at the rate of the pipe; and however many operations lie between it and a later one on the same endpoint, the later one starts at or after the end of that range.
\<close>

theorem mac_iso_frames:
  assumes "find_pipe (tr_endpoint t) s = Some (ci, p)"
    and "(mac_op api sp tr)\<^sup>*\<^sup>* (snd (mac_submit_iso api sp key tid now t s)) s'"
    and "find_pipe (tr_endpoint t) s' = Some (ci', p')" "tr_endpoint t' = tr_endpoint t"
  shows "\<exists>a frame r a' frame' r' begins begins'.
      md_trace (snd (mac_submit_iso api sp key tid now t s)) =
        (IsochAsync (mi_obj ci) (pp_ref p) (tr_endpoint t AND 0x80 \<noteq> 0) begins (iso_requests t), r) # (BusFrame (mi_obj ci), a, frame) # md_trace s
    \<and> md_trace (snd (mac_submit_iso api sp key' tid' now' t' s')) =
        (IsochAsync (mi_obj ci') (pp_ref p') (tr_endpoint t AND 0x80 \<noteq> 0) begins' (iso_requests t'), r') # (BusFrame (mi_obj ci'), a', frame') # md_trace s'
    \<and> frame + 4 \<le> begins \<and> frame' + 4 \<le> begins'
    \<and> (\<exists>n. length (iso_requests t) \<le> n * per_frame sp (pp_interval p) \<and> begins + n \<le> begins')"
proof -
  let ?s = "snd (mac_submit_iso api sp key tid now t s)"
  obtain a frame r where one: "md_trace ?s = (IsochAsync (mi_obj ci) (pp_ref p) (tr_endpoint t AND 0x80 \<noteq> 0)
      (iso_start (mh_next_frame s (tr_endpoint t)) frame) (iso_requests t), r) # (BusFrame (mi_obj ci), a, frame) # md_trace s"
    and after: "mh_next_frame ?s = (mh_next_frame s)(tr_endpoint t \<mapsto>
      iso_next (iso_start (mh_next_frame s (tr_endpoint t)) frame) (length (tr_iso t)) (per_frame sp (pp_interval p)))"
    using iso_run [OF assms(1), of api sp key tid now] by blast
  obtain a' frame' r' where two: "md_trace (snd (mac_submit_iso api sp key' tid' now' t' s')) =
      (IsochAsync (mi_obj ci') (pp_ref p') (tr_endpoint t AND 0x80 \<noteq> 0) (iso_start (mh_next_frame s' (tr_endpoint t)) frame') (iso_requests t'), r')
      # (BusFrame (mi_obj ci'), a', frame') # md_trace s'"
    using iso_run [of t' s' ci' p' api sp key' tid' now'] assms(3,4) by auto
  let ?b = "iso_start (mh_next_frame s (tr_endpoint t)) frame" and ?b' = "iso_start (mh_next_frame s' (tr_endpoint t)) frame'"
  let ?rate = "per_frame sp (pp_interval p)"
  have "iso_next ?b (length (tr_iso t)) ?rate \<le> ?b'"
  proof -
    obtain n where "mh_next_frame s' (tr_endpoint t) = Some n" "iso_next ?b (length (tr_iso t)) ?rate \<le> n"
      using frames_later_reach [OF assms(2)] fun_cong [OF after, of "tr_endpoint t"] by (auto simp: later_frames_def)
    then show ?thesis by (simp add: iso_start_def [of "Some n"])
  qed
  moreover have "length (tr_iso t) \<le> (iso_next ?b (length (tr_iso t)) ?rate - ?b) * ?rate" by (rule iso_next_covers)
  moreover have "?b \<le> iso_next ?b (length (tr_iso t)) ?rate" by (simp add: iso_next_def)
  ultimately have "\<exists>n. length (iso_requests t) \<le> n * ?rate \<and> ?b + n \<le> ?b'"
    by (intro exI [of _ "iso_next ?b (length (tr_iso t)) ?rate - ?b"]) (simp add: iso_requests_def)
  moreover have "frame + 4 \<le> ?b" "frame' + 4 \<le> ?b'" by (simp_all add: iso_start_def)
  ultimately show ?thesis using one two by blast
qed

definition willing_stream :: "unit transfer" where
  "willing_stream = (willing_read Isochronous)\<lparr>tr_iso := replicate 9 \<lparr>iso_length = 100, iso_actual = 0, iso_status = Completed\<rparr>\<rparr>"

definition willing_streamed :: mac_handle where
  "willing_streamed = snd (mac_submit_iso willing SpeedHigh 5 0 0 willing_stream willing_claimed)"

lemma willing_streamed_fields:
  "tr_endpoint willing_stream = 0x81" "tr_iso willing_stream = replicate 9 \<lparr>iso_length = 100, iso_actual = 0, iso_status = Completed\<rparr>"
  "mh_claimed willing_streamed = mh_claimed willing_claimed"
  by (simp_all add: willing_streamed_def willing_stream_def willing_read_def transfer_new_def mac_submit_iso_def Let_def bindR_def
      willing_pipe mac_settle_def mac_issued_def)

theorem mac_iso_frames_witness:
  "\<exists>begins begins' r r' rest rest'. md_trace willing_streamed = (IsochAsync 7 1 True begins (replicate 9 100), r) # rest
     \<and> md_trace (snd (mac_submit_iso willing SpeedHigh 6 2 0 willing_stream willing_streamed))
        = (IsochAsync 7 1 True begins' (replicate 9 100), r') # rest' \<and> begins + 2 \<le> begins'"
proof -
  have p: "find_pipe (tr_endpoint willing_stream) willing_streamed = find_pipe 0x81 willing_claimed"
    by (simp add: find_pipe_def willing_streamed_fields)
  have q: "iso_requests willing_stream = replicate 9 100" by (simp add: iso_requests_def willing_streamed_fields)
  have n: "2 \<le> n" if "9 \<le> n * per_frame SpeedHigh 1" for n :: nat
    using that per_frame_bounds(2) [of SpeedHigh 1] mult_le_mono2 [of "per_frame SpeedHigh 1" 8 n] by linarith
  have e: "tr_endpoint willing_stream = 0x81" "(0x81 :: u8) AND 0x80 \<noteq> 0" by (simp_all add: willing_streamed_fields)
  have f: "find_pipe (tr_endpoint willing_stream) willing_claimed = Some (\<lparr>mi_obj = 7, mi_has_182 = True, mi_source = 7,
      mi_pipes = [\<lparr>pp_address = 0x81, pp_ref = 1, pp_interval = 1\<rparr>]\<rparr>, \<lparr>pp_address = 0x81, pp_ref = 1, pp_interval = 1\<rparr>)"
    using willing_pipe e(1) by simp
  have r: "(mac_op willing SpeedHigh (\<lambda>_. willing_stream))\<^sup>*\<^sup>* (snd (mac_submit_iso willing SpeedHigh 5 0 0 willing_stream willing_claimed)) willing_streamed"
    by (simp add: willing_streamed_def)
  have g: "find_pipe (tr_endpoint willing_stream) willing_streamed = Some (\<lparr>mi_obj = 7, mi_has_182 = True, mi_source = 7,
      mi_pipes = [\<lparr>pp_address = 0x81, pp_ref = 1, pp_interval = 1\<rparr>]\<rparr>, \<lparr>pp_address = 0x81, pp_ref = 1, pp_interval = 1\<rparr>)"
    using p willing_pipe by simp
  note both = mac_iso_frames [where t' = willing_stream and key' = 6 and tid' = 2 and now' = 0, OF f r g HOL.refl,
    folded willing_streamed_def, unfolded q e(1), simplified]
  then obtain m where "9 \<le> m * per_frame SpeedHigh 1" and rest: "\<exists>begins begins' r r' rest rest'.
      md_trace willing_streamed = (IsochAsync 7 1 True begins (replicate 9 100), r) # rest
     \<and> md_trace (snd (mac_submit_iso willing SpeedHigh 6 2 0 willing_stream willing_streamed))
        = (IsochAsync 7 1 True begins' (replicate 9 100), r') # rest' \<and> begins + m \<le> begins'" by blast
  from n [OF this(1)] rest show ?thesis by (meson add_left_mono order_trans)
qed


definition mac_bench :: mac_env where
  "mac_bench = \<lparr>me_services = (\<lambda>_. [5]), me_entry_id = (\<lambda>n. n), me_plugin = (\<lambda>_. (0, 1)), me_query = (\<lambda>_ _. (0, 2)),
     me_location = (\<lambda>_. 0x14230000), me_address = (\<lambda>_. 9), me_speed = (\<lambda>_. 2), me_request = (\<lambda>_ _ _ _. (1, 0, [])),
     me_byte = (\<lambda>_ _. 0), me_half = (\<lambda>_ _. 0), me_config = (\<lambda>_ _. None), me_serial = (\<lambda>_. None)\<rparr>"

definition mac_benched :: "mac_location device_info" where
  "mac_benched = the (the (fst (mac_describe mac_bench (\<lambda>_. True) 5 5 [])))"

lemma mac_benched_run:
  "mac_describe mac_bench (\<lambda>_. True) 5 5 [] = (Some (Some mac_benched), [(5, \<lparr>do_obj = 2, do_has_182 = True, do_has_187 = True\<rparr>)])"
  by (simp add: mac_benched_def mac_describe_def mac_bench_def device_ref_def from_service_def queried_def Let_def
      described_descriptor_def mac_get_descriptor_def)


text \<open>
  C40: The request numbers of usbfs are told apart on every supported machine, 32 or 64 bits wide, with either encoding: each carries its number, its type and the size of its structure unclipped, so no two are the same; on a 64-bit machine with the common encoding they are those of the kernel's header. And the memory of a URB holds its packet descriptors: they follow the header one after another, aligned, inside the words allocated.
\<close>

theorem usbfs_requests:
  assumes "known_abi A" "i < j" "j < packets"
  shows "(request_number A a = request_number A b \<longleftrightarrow> a = b) \<and> (ucast (drop_bit 8 (request_number A a)) :: u8) = 0x55
    \<and> unat (take_bit (ab_size_bits A) (drop_bit 16 (request_number A a))) = struct_size (snd (snd (request_shape (ab_pointer A) a)))
    \<and> map (request_number (abi_generic 8)) [RqControl, RqBulk, RqSetInterface, RqSetConfiguration, RqGetDriver, RqSubmitUrb, RqDiscardUrb,
         RqReapUrbNdelay, RqClaimInterface, RqReleaseInterface, RqIoctl, RqReset, RqClearHalt, RqGetCapabilities, RqDisconnectClaim]
       = [0xC0185500, 0xC0185502, 0x80085504, 0x80045505, 0x41045508, 0x8038550A, 0x0000550B,
         0x4008550D, 0x8004550F, 0x80045510, 0xC0105512, 0x00005514, 0x80045515, 0x8004551A, 0x8108551B]
    \<and> struct_size (urb_header (ab_pointer A)) \<le> iso_desc (ab_pointer A) i \<and> iso_desc (ab_pointer A) i mod 4 = 0
    \<and> iso_desc (ab_pointer A) i + struct_size iso_packet_desc \<le> iso_desc (ab_pointer A) j
    \<and> iso_desc (ab_pointer A) j + struct_size iso_packet_desc \<le> 8 * urb_box_words (ab_pointer A) packets"
proof -
  note p = request_size_bits(2) [OF assms(1)]
  have i: "i < packets" using assms(2,3) by simp
  show ?thesis
    using request_number_inj [OF assms(1), of a b] request_number_fields(2,3) [OF assms(1), where q = a] request_numbers_64
      urb_box(1,3) [OF p i] urb_box(4) [OF p i assms(2)] urb_box(2) [OF p assms(3)] by blast
qed

theorem usbfs_requests_witness:
  "known_abi (abi_older 4) \<and> request_number (abi_older 4) RqSubmitUrb \<noteq> request_number (abi_older 4) RqBulk \<and> iso_desc 4 1 + 12 \<le> 8 * urb_box_words 4 2"
proof -
  have k: "known_abi (abi_older 4)" by (auto simp: known_abi_def)
  have "ab_pointer (abi_older 4) = 4" by (simp add: abi_older_def)
  with usbfs_requests [OF k, where i = 0 and j = 1 and packets = 2 and a = RqSubmitUrb and b = RqBulk] k show ?thesis by (simp add: struct_sizes)
qed

end
